(* ===== verification/Ngx_Prelude.thy ===== *)
theory Ngx_Prelude
  imports Main "HOL-Library.Word"
begin

text \<open>
  The prelude of the development: the C types the sources use, the return codes of
  \<^verbatim>\<open>src/core/ngx_core.h\<close>, the memory the parsers read, the character tests the
  sources share, and the generic lemmas on bytes, words and lists that the components'
  proofs rest on.

  A platform with a 64-bit \<open>ngx_int_t\<close>/\<open>ngx_uint_t\<close> (LP64, for example Linux on amd64) is
  modelled; signed arithmetic wraps in two's complement, as the sources rely on.
  A pointer is an address, a natural number, and \<open>NULL\<close> is \<open>0\<close>; the memory is a list of
  bytes indexed by address.  The byte at address \<open>0\<close> is never read.
\<close>

unbundle bit_operations_syntax

section \<open>C types and constants\<close>

type_synonym byte = "8 word"
type_synonym u16 = "16 word"
type_synonym u32 = "32 word"
type_synonym u64 = "64 word"
type_synonym ngx_uint = "64 word"
type_synonym ngx_int = "64 word"
type_synonym ptr = nat
type_synonym mem = "byte list"

abbreviation asc :: "char \<Rightarrow> byte" where
  "asc c \<equiv> of_char c"

abbreviation bytes :: "string \<Rightarrow> byte list" where
  "bytes s \<equiv> map of_char s"

abbreviation (input) NULL :: ptr where "NULL \<equiv> 0"
abbreviation (input) CR :: byte where "CR \<equiv> 13"
abbreviation (input) LF :: byte where "LF \<equiv> 10"
abbreviation (input) SP :: byte where "SP \<equiv> 32"

text \<open>
  The return codes: \<^verbatim>\<open>src/core/ngx_core.h\<close> lines 30--36, the parse codes of
  \<^verbatim>\<open>src/http/ngx_http_request.h\<close> lines 51--58 and of \<^verbatim>\<open>src/mail/ngx_mail.h\<close>.
\<close>

datatype ngx_rc =
    NGX_OK
  | NGX_ERROR
  | NGX_AGAIN
  | NGX_BUSY
  | NGX_DONE
  | NGX_DECLINED
  | NGX_HTTP_PARSE_HEADER_DONE
  | NGX_HTTP_PARSE_INVALID_METHOD
  | NGX_HTTP_PARSE_INVALID_REQUEST
  | NGX_HTTP_PARSE_INVALID_09_METHOD
  | NGX_HTTP_PARSE_INVALID_HEADER
  | NGX_MAIL_PARSE_INVALID_COMMAND
  | NGX_IMAP_NEXT

text \<open>The part of \<open>ngx_buf_t\<close> (\<^verbatim>\<open>src/core/ngx_buf.h\<close>) that the parsers use.\<close>

record ngx_buf =
  b_start :: ptr
  b_pos :: ptr
  b_last :: ptr

section \<open>Characters\<close>

definition is_digit :: "byte \<Rightarrow> bool" where
  "is_digit ch \<longleftrightarrow> asc CHR ''0'' \<le> ch \<and> ch \<le> asc CHR ''9''"

definition ngx_tolower :: "byte \<Rightarrow> byte" where
  "ngx_tolower c = (if c \<ge> asc CHR ''A'' \<and> c \<le> asc CHR ''Z'' then c OR 0x20 else c)"

definition ngx_toupper :: "byte \<Rightarrow> byte" where
  "ngx_toupper c = (if c \<ge> asc CHR ''a'' \<and> c \<le> asc CHR ''z'' then c AND NOT 0x20 else c)"

text \<open>The test \<open>table[ch >> 5] & (1 << (ch & 0x1f))\<close> on a 256-bit table of eight words.\<close>

definition table_bit :: "u32 list \<Rightarrow> byte \<Rightarrow> bool" where
  "table_bit t ch \<longleftrightarrow> (t ! unat (drop_bit 5 ch)) AND push_bit (unat (ch AND 0x1f)) 1 \<noteq> 0"

section \<open>Enumerations\<close>

text \<open>
  A C enum is a datatype with the list of its values in the order of the declaration; the
  parsers keep their state in an integer field between two calls.
\<close>

definition enum_index :: "'a list \<Rightarrow> 'a \<Rightarrow> nat" where
  "enum_index vs v = length (takeWhile (\<lambda>x. x \<noteq> v) vs)"

definition enum_at :: "'a list \<Rightarrow> nat \<Rightarrow> 'a" where
  "enum_at vs n = vs ! n"

lemma enum_at_index [simp]:
  assumes "v \<in> set vs"
  shows "enum_at vs (enum_index vs v) = v"
  using assms unfolding enum_at_def enum_index_def by (induction vs) auto

section \<open>Lemmas on bytes and words\<close>

lemma byte_unat_less [simp]: "unat (b :: byte) < 256"
proof -
  have "unat b < 2 ^ LENGTH(8)" by (rule unsigned_less)
  then show ?thesis by simp
qed

lemma byte_all_iff: "(\<forall>b::byte. P b) \<longleftrightarrow> (\<forall>n<256. P (word_of_nat n))"
proof
  assume all: "\<forall>n<256. P (word_of_nat n)"
  show "\<forall>b. P b"
  proof
    fix b :: byte
    from all have "P (word_of_nat (unat b))" by (simp only: byte_unat_less)
    then show "P b" by simp
  qed
qed simp

lemma all_less_256_iff: "(\<forall>n<256. P n) \<longleftrightarrow> list_all P [0..<256]"
  by (auto simp: list_all_iff)

lemma and_push_bit_one_iff:
  "(w :: 'a::len word) AND push_bit n 1 \<noteq> 0 \<longleftrightarrow> n < LENGTH('a) \<and> bit w n"
proof -
  have "bit (w AND push_bit n 1) k \<longleftrightarrow> k = n \<and> n < LENGTH('a) \<and> bit w n" for k
    by (auto simp: bit_simps dest: bit_imp_le_length)
  then show ?thesis by (metis bit_0_eq bot_apply bot_bool_def bit_eq_iff)
qed

lemma table_bit_iff:
  "table_bit t ch \<longleftrightarrow> bit (t ! (unat ch div 32)) (unat ch mod 32)"
proof -
  have "unat (ch AND 0x1f) = unat ch mod 32"
  proof -
    have "ch AND 0x1f = take_bit 5 ch"
      by (simp add: take_bit_eq_mask mask_eq_exp_minus_1)
    then show ?thesis
      by (simp only: unsigned_take_bit_eq) (simp add: take_bit_eq_mod)
  qed
  moreover have "unat (drop_bit 5 ch) = unat ch div 32"
    using byte_unat_less [of ch]
    by (simp only: unsigned_drop_bit_eq drop_bit_take_bit)
      (simp add: drop_bit_eq_div take_bit_eq_mod less_mult_imp_div_less)
  ultimately show ?thesis
    unfolding table_bit_def and_push_bit_one_iff by simp
qed

lemma is_digit_unat: "is_digit c \<longleftrightarrow> 48 \<le> unat c \<and> unat c \<le> 57"
  by (simp add: is_digit_def word_le_nat_alt)

lemma digit_sub: 
  assumes "is_digit c" shows "unat (c - asc CHR ''0'') = unat c - 48" "unat (c - asc CHR ''0'') \<le> 9"
proof -
  from assms have "asc CHR ''0'' \<le> c" by (simp add: is_digit_def)
  then show "unat (c - asc CHR ''0'') = unat c - 48" by (simp add: unat_sub)
  moreover have "unat c \<le> 57" using assms by (simp add: is_digit_unat)
  ultimately show "unat (c - asc CHR ''0'') \<le> 9" by linarith
qed

lemma unat_ucast_up [simp]:
  assumes "LENGTH('b) \<le> LENGTH('a)"
  shows "unat (ucast (c :: 'b::len word) :: 'a::len word) = unat c"
proof -
  have "unat c < 2 ^ LENGTH('b)" by (rule unsigned_less)
  also have "(2::nat) ^ LENGTH('b) \<le> 2 ^ LENGTH('a)" using assms by (rule power_increasing) simp
  finally show ?thesis by (simp add: unsigned_ucast_eq take_bit_nat_eq_self_iff)
qed

lemma ucast_ucast_byte [simp]: "ucast (ucast (c::byte) :: u16) = (ucast c :: u64)"
  by (simp add: word_unat_eq_iff)

lemma unat_decimal_step:
  assumes "is_digit ch" "unat c * 10 + 9 < 2 ^ 64"
  shows "unat ((c :: u64) * 10 + ucast ch - 48) = unat c * 10 + (unat ch - 48)"
proof -
  have d: "48 \<le> unat ch" "unat ch \<le> 57" using assms(1) by (simp_all add: is_digit_unat)
  have eq: "c * 10 + ucast ch - 48 = c * 10 + (ucast ch - 48)" by simp
  have le: "(48 :: u64) \<le> ucast ch" using d by (simp add: word_le_nat_alt)
  have u: "unat (ucast ch - 48 :: u64) = unat ch - 48" using le by (simp add: unat_sub)
  have "unat (c * 10) = unat c * 10" using assms(2) by (simp add: unat_word_ariths)
  then show ?thesis using assms(2) d u unfolding eq
    by (subst unat_word_ariths) simp
qed

lemma odd_top_bit:
  fixes n N :: nat
  assumes "n < 2 * N" shows "odd (n div N) \<longleftrightarrow> N \<le> n"
proof -
  have "n div N < 2" using assms by (simp add: less_mult_imp_div_less)
  then have "n div N = 0 \<or> n div N = 1" by linarith
  then have "odd (n div N) \<longleftrightarrow> n div N \<noteq> 0" by auto
  also have "\<dots> \<longleftrightarrow> N \<le> n" using assms by (simp add: div_eq_0_iff not_less)
  finally show ?thesis .
qed

lemma sint_negative_iff: "sint (w :: u64) < 0 \<longleftrightarrow> 2 ^ 63 \<le> unat w"
proof -
  have "sint w < 0 \<longleftrightarrow> bit w 63"
    by (simp only: sint_uint signed_take_bit_negative_iff) (simp add: bit_unsigned_iff)
  also have "\<dots> \<longleftrightarrow> bit (unat w) 63" by (simp add: bit_unsigned_iff)
  also have "\<dots> \<longleftrightarrow> odd (unat w div 2 ^ 63)" by (rule bit_iff_odd)
  also have "\<dots> \<longleftrightarrow> 2 ^ 63 \<le> unat w"
  proof (rule odd_top_bit)
    have "unat w < 2 ^ LENGTH(64)" by (rule unsigned_less)
    then show "unat w < 2 * 2 ^ 63" by simp
  qed
  finally show ?thesis .
qed

lemma ucast_unat: "(ucast (w :: 'a::len word) :: 'b::len word) = word_of_nat (unat w)"
  by (simp add: word_unat_eq_iff unsigned_ucast_eq unat_of_nat take_bit_eq_mod)

lemma unat_and_15: "unat ((u :: 'a::len word) AND 0xf) = unat u mod 16"
proof -
  have "u AND 0xf = take_bit 4 u" by (simp add: take_bit_eq_mask mask_eq_exp_minus_1)
  then show ?thesis by (simp only: unsigned_take_bit_eq) (simp add: take_bit_eq_mod)
qed

section \<open>Lemmas on lists\<close>

lemma take_Suc_nth_eq:
  assumes "take (Suc p) m1 = take (Suc p) m2" "i \<le> p"
  shows "m1 ! i = m2 ! i"
proof -
  have "take (Suc p) m1 ! i = m1 ! i" "take (Suc p) m2 ! i = m2 ! i"
    using assms(2) by simp_all
  then show ?thesis using assms(1) by simp
qed

lemma take_eq_mono:
  "take n xs = take n ys \<Longrightarrow> k \<le> n \<Longrightarrow> take k xs = take k ys"
  by (drule arg_cong [where f = "take k"]) simp

lemma nth_append_offset:
  "i < length ys \<Longrightarrow> (xs @ ys @ zs) ! (length xs + i) = ys ! i"
  by (simp add: nth_append)

lemma length_numeral_iff:
  "length xs = 3 \<longleftrightarrow> (\<exists>a b c. xs = [a, b, c])"
  "length xs = 4 \<longleftrightarrow> (\<exists>a b c d. xs = [a, b, c, d])"
  "length xs = 5 \<longleftrightarrow> (\<exists>a b c d e. xs = [a, b, c, d, e])"
  "length xs = 6 \<longleftrightarrow> (\<exists>a b c d e f. xs = [a, b, c, d, e, f])"
  "length xs = 7 \<longleftrightarrow> (\<exists>a b c d e f g. xs = [a, b, c, d, e, f, g])"
  "length xs = 8 \<longleftrightarrow> (\<exists>a b c d e f g h. xs = [a, b, c, d, e, f, g, h])"
  "length xs = 9 \<longleftrightarrow> (\<exists>a b c d e f g h i. xs = [a, b, c, d, e, f, g, h, i])"
  by (auto simp: numeral_eq_Suc length_Suc_conv)

end
