(* ===== verification/Ngx_Scan.thy ===== *)
theory Ngx_Scan
  imports Ngx_Prelude
begin

text \<open>
  The loop all of nginx's incremental parsers share,
  \<^verbatim>\<open>for (p = b->pos; p < b->last; p++) { ch = *p; switch (state) { ... } }\<close>,
  as a combinator \<open>scan\<close> over the body of the loop, and the interface of such bodies as
  locales: a body reads no byte after the current one (\<open>scanner\<close>), and it keeps an
  invariant (\<open>scanner_inv\<close>).  What follows for every parser is proved here once: a parse
  that stops with \<open>NGX_AGAIN\<close> and is resumed when more bytes have arrived gives what one
  parse over all the bytes gives.
\<close>

section \<open>The loop\<close>

text \<open>A body either goes on to the next byte or leaves the loop.\<close>

datatype ('s, 'r) action = Cont 's | Stop 'r

function scan ::
  "(mem \<Rightarrow> ptr \<Rightarrow> 's \<Rightarrow> ('s, 'r) action) \<Rightarrow> mem \<Rightarrow> ptr \<Rightarrow> ptr \<Rightarrow> 's \<Rightarrow> (ptr \<times> 's, ptr \<times> 'r) action"
where
  "scan step m p e s =
     (if p < e
      then (case step m p s of
              Cont s' \<Rightarrow> scan step m (Suc p) e s'
            | Stop r \<Rightarrow> Stop (p, r))
      else Cont (p, s))"
  by pat_completeness auto
termination
  by (relation "measure (\<lambda>(_, _, p, e, _). e - p)") auto

declare scan.simps [simp del]

lemma scan_end [simp]: "e \<le> p \<Longrightarrow> scan step m p e s = Cont (p, s)"
  by (simp add: scan.simps)

lemma scan_Cont [simp]:
  "p < e \<Longrightarrow> step m p s = Cont s' \<Longrightarrow> scan step m p e s = scan step m (Suc p) e s'"
  by (simp add: scan.simps)

lemma scan_Stop [simp]:
  "p < e \<Longrightarrow> step m p s = Stop r \<Longrightarrow> scan step m p e s = Stop (p, r)"
  by (simp add: scan.simps)

lemma scan_Cont_pos: "scan step m p e s = Cont (q, s') \<Longrightarrow> q = max p e"
  by (induction step m p e s rule: scan.induct)
    (subst (asm) (2) scan.simps, auto split: if_splits action.splits)

lemma scan_Stop_pos: "scan step m p e s = Stop (q, r) \<Longrightarrow> p \<le> q \<and> q < e"
  by (induction step m p e s rule: scan.induct)
    (subst (asm) (2) scan.simps, fastforce split: if_splits action.splits)

text \<open>The loop over a range is the loop over its first part, then over the rest.\<close>

lemma scan_split:
  "p \<le> e1 \<Longrightarrow> e1 \<le> e2 \<Longrightarrow>
   scan step m p e2 s =
     (case scan step m p e1 s of
        Cont (q, s') \<Rightarrow> scan step m q e2 s'
      | Stop r \<Rightarrow> Stop r)"
proof (induction step m p e1 s rule: scan.induct)
  case (1 step m p e1 s)
  show ?case
  proof (cases "p < e1")
    case True
    then have lt: "p < e2" using "1.prems" by simp
    show ?thesis
    proof (cases "step m p s")
      case (Cont s')
      then show ?thesis using True lt "1.IH" [OF True Cont] "1.prems" by simp
    next
      case (Stop r)
      then show ?thesis using True lt by simp
    qed
  qed (use "1.prems" in simp)
qed

text \<open>A run of bytes on which the body does not change the state.\<close>

lemma scan_run:
  "p + n \<le> e \<Longrightarrow> (\<And>i. i < n \<Longrightarrow> step m (p + i) s = Cont s) \<Longrightarrow>
   scan step m p e s = scan step m (p + n) e s"
proof (induction n)
  case (Suc n)
  then have "scan step m p e s = scan step m (p + n) e s" by simp
  also have "\<dots> = scan step m (Suc (p + n)) e s"
    using Suc.prems(1) Suc.prems(2) [of n] by (intro scan_Cont) auto
  finally show ?case by simp
qed simp

text \<open>A byte on which the body leaves the loop in every state ends it.\<close>

lemma scan_stops:
  assumes "\<And>s. \<exists>r. step m i s = Stop r" "p \<le> i" "i < e"
  shows "\<exists>q r. scan step m p e s = Stop (q, r) \<and> q \<le> i"
  using assms(2,3)
proof (induction "i - p" arbitrary: p s)
  case 0
  then show ?case using assms(1) [of s] by auto
next
  case (Suc n)
  then have lt: "p < e" and p: "n = i - Suc p" "Suc p \<le> i" by simp_all
  show ?case
  proof (cases "step m p s")
    case (Cont s1)
    with Suc.hyps(1) [OF p Suc.prems(2), of s1] lt show ?thesis by simp
  next
    case (Stop r)
    with lt p show ?thesis by auto
  qed
qed

section \<open>Bodies that look at the bytes up to the current one only\<close>

locale scanner =
  fixes step :: "mem \<Rightarrow> ptr \<Rightarrow> 's \<Rightarrow> ('s, 'r) action"
  assumes step_local:
    "take (Suc p) m1 = take (Suc p) m2 \<Longrightarrow> step m1 p s = step m2 p s"
begin

lemma scan_local:
  "take e m1 = take e m2 \<Longrightarrow> scan step m1 p e s = scan step m2 p e s"
proof (induction "e - p" arbitrary: p s)
  case 0
  then show ?case by simp
next
  case (Suc n)
  then have lt: "p < e" by simp
  have "step m1 p s = step m2 p s"
    by (rule step_local) (rule take_eq_mono [OF Suc.prems], use lt in simp)
  moreover have "\<And>s'. scan step m1 (Suc p) e s' = scan step m2 (Suc p) e s'"
    using Suc by simp
  ultimately show ?case
    using lt by (subst (1 2) scan.simps) (simp split: action.splits)
qed

text \<open>
  The bytes after the first part are not known yet when the first part is parsed: the
  two memories agree on the first part only.
\<close>

lemma scan_resume:
  assumes "take e1 m1 = take e1 m2" "p \<le> e1" "e1 \<le> e2"
  shows "scan step m2 p e2 s =
    (case scan step m1 p e1 s of
       Cont (q, s') \<Rightarrow> scan step m2 e1 e2 s'
     | Stop r \<Rightarrow> Stop r)"
proof -
  have "scan step m2 p e2 s =
    (case scan step m2 p e1 s of Cont (q, s') \<Rightarrow> scan step m2 q e2 s' | Stop r \<Rightarrow> Stop r)"
    using assms(2,3) by (rule scan_split)
  also have "scan step m2 p e1 s = scan step m1 p e1 s"
    using assms(1) by (rule scan_local [symmetric])
  finally show ?thesis
    using assms(2) by (auto split: action.splits dest: scan_Cont_pos)
qed

end

section \<open>Bodies that keep an invariant\<close>

text \<open>What is required of the outcome of one round: \<open>I\<close> where it goes on, \<open>Q\<close> where it leaves.\<close>

fun action_sat :: "('s \<Rightarrow> bool) \<Rightarrow> ('r \<Rightarrow> bool) \<Rightarrow> ('s, 'r) action \<Rightarrow> bool" where
  "action_sat I Q (Cont s) = I s"
| "action_sat I Q (Stop r) = Q r"

locale scanner_inv = scanner step
  for step :: "mem \<Rightarrow> ptr \<Rightarrow> 's \<Rightarrow> ('s, 'r) action" +
  fixes inv :: "mem \<Rightarrow> ptr \<Rightarrow> 's \<Rightarrow> bool"
    and post :: "mem \<Rightarrow> ptr \<Rightarrow> 'r \<Rightarrow> bool"
  assumes step_sat: "inv m p s \<Longrightarrow> action_sat (inv m (Suc p)) (post m p) (step m p s)"
begin

lemma scan_sat:
  "inv m p s \<Longrightarrow>
   action_sat (\<lambda>(q, s'). inv m q s') (\<lambda>(q, r). p \<le> q \<and> q < e \<and> post m q r) (scan step m p e s)"
proof (induction "e - p" arbitrary: p s)
  case 0
  then show ?case by simp
next
  case (Suc n)
  then have lt: "p < e" and n: "n = e - Suc p" by simp_all
  show ?case
  proof (cases "step m p s")
    case (Cont s1)
    with step_sat [OF Suc.prems] have "inv m (Suc p) s1" by simp
    from Suc.hyps(1) [OF n this] lt Cont show ?thesis
      by (cases "scan step m (Suc p) e s1") auto
  next
    case (Stop r)
    with step_sat [OF Suc.prems] lt show ?thesis by simp
  qed
qed

lemma scan_inv: "inv m p s \<Longrightarrow> scan step m p e s = Cont (q, s') \<Longrightarrow> inv m q s'"
  using scan_sat [of m p s e] by simp

lemma scan_post:
  "inv m p s \<Longrightarrow> scan step m p e s = Stop (q, r) \<Longrightarrow> p \<le> q \<and> q < e \<and> post m q r"
  using scan_sat [of m p s e] by simp

end

section \<open>Bodies that do not use a part of the state\<close>

lemma map_action_if:
  "map_action f g (if b then x else y) = (if b then map_action f g x else map_action f g y)"
  by simp

text \<open>
  Changing a part of the state that the body does not look at, before the loop or after it,
  makes no difference.
\<close>

locale scanner_frame = scanner step
  for step :: "mem \<Rightarrow> ptr \<Rightarrow> 's \<Rightarrow> ('s, 'r) action" +
  fixes upd :: "'k \<Rightarrow> 's \<Rightarrow> 's" and updr :: "'k \<Rightarrow> 'r \<Rightarrow> 'r"
  assumes step_frame: "step m p (upd k s) = map_action (upd k) (updr k) (step m p s)"
begin

lemma scan_frame:
  "scan step m p e (upd k s) =
   map_action (map_prod id (upd k)) (map_prod id (updr k)) (scan step m p e s)"
proof (induction "e - p" arbitrary: p s)
  case 0
  then show ?case by simp
next
  case (Suc n)
  then have lt: "p < e" and n: "n = e - Suc p" by simp_all
  show ?case
  proof (cases "step m p s")
    case (Cont s1)
    with lt Suc.hyps(1) [OF n, of s1] show ?thesis by (simp add: step_frame)
  next
    case (Stop r)
    with lt show ?thesis by (simp add: step_frame)
  qed
qed

end

section \<open>Bodies that respect a relation\<close>

text \<open>Related states lead to related outcomes.\<close>

locale scanner_sim = scanner step
  for step :: "mem \<Rightarrow> ptr \<Rightarrow> 's \<Rightarrow> ('s, 'r) action" +
  fixes R :: "'s \<Rightarrow> 's \<Rightarrow> bool" and Q :: "'r \<Rightarrow> 'r \<Rightarrow> bool"
  assumes step_sim: "R s t \<Longrightarrow> rel_action R Q (step m p s) (step m p t)"
begin

lemma scan_sim:
  "R s t \<Longrightarrow> rel_action (rel_prod (=) R) (rel_prod (=) Q) (scan step m p e s) (scan step m p e t)"
proof (induction "e - p" arbitrary: p s t)
  case 0
  then show ?case by simp
next
  case (Suc n)
  then have lt: "p < e" and n: "n = e - Suc p" by simp_all
  show ?case
  proof (cases "step m p s")
    case (Cont s1)
    then obtain t1 where t1: "step m p t = Cont t1" "R s1 t1"
      using step_sim [OF Suc.prems, of m p] by (cases "step m p t") auto
    from Suc.hyps(1) [OF n t1(2)] show ?thesis using lt Cont t1 by simp
  next
    case (Stop r)
    then show ?thesis
      using step_sim [OF Suc.prems, of m p] lt by (cases "step m p t") auto
  qed
qed

end

section \<open>Parsers that can be resumed\<close>

text \<open>
  A parser loads its state from the structure it works on, runs the loop, and either stores
  the state and asks for more bytes (\<open>NGX_AGAIN\<close>) or leaves the loop to the code after it.
\<close>

definition run_parser ::
  "(mem \<Rightarrow> ptr \<Rightarrow> 's \<Rightarrow> ('s, 'r) action) \<Rightarrow> ('q \<Rightarrow> 's) \<Rightarrow> ('s \<Rightarrow> 'q) \<Rightarrow>
   (ptr \<Rightarrow> ngx_buf \<Rightarrow> 'r \<Rightarrow> ngx_rc \<times> ngx_buf \<times> 'q) \<Rightarrow>
   mem \<Rightarrow> ngx_buf \<Rightarrow> 'q \<Rightarrow> ngx_rc \<times> ngx_buf \<times> 'q"
where
  "run_parser step load store leave m b r =
    (case scan step m (b_pos b) (b_last b) (load r) of
       Cont (p, s) \<Rightarrow> (NGX_AGAIN, b\<lparr>b_pos := p\<rparr>, store s)
     | Stop (p, x) \<Rightarrow> leave p b x)"

lemma run_parser_again:
  assumes "run_parser step load store leave m b s = (NGX_AGAIN, b', s')"
    "\<And>p x. scan step m (b_pos b) (b_last b) (load s) = Stop (p, x) \<Longrightarrow> fst (leave p b x) \<noteq> NGX_AGAIN"
  shows "b' = b\<lparr>b_pos := b_pos b'\<rparr>"
  using assms by (auto simp: run_parser_def split: action.splits prod.splits)

text \<open>
  Two parses have the same outcome: the same return code, and the same structure but for
  what \<open>forget\<close> clears; where the parse succeeded or asks for more, they leave the same
  structure and the same buffer, and at the end of the headers the same buffer.  (After an
  error the caller drops the request.)
\<close>

definition same_outcome ::
  "('q \<Rightarrow> 'q) \<Rightarrow> ngx_rc \<times> ngx_buf \<times> 'q \<Rightarrow> ngx_rc \<times> ngx_buf \<times> 'q \<Rightarrow> bool"
where
  "same_outcome forget x y \<longleftrightarrow>
    (case x of (rc, b, r) \<Rightarrow> case y of (rc', b', r') \<Rightarrow>
       rc = rc' \<and> forget r = forget r' \<and>
       (rc \<in> {NGX_OK, NGX_AGAIN, NGX_HTTP_PARSE_HEADER_DONE} \<longrightarrow> b = b') \<and>
       (rc \<in> {NGX_OK, NGX_AGAIN} \<longrightarrow> r = r'))"

lemma same_outcome_refl [simp]: "same_outcome forget y y"
  by (auto simp: same_outcome_def)

locale resumable = scanner_frame step upd updr
  for step :: "mem \<Rightarrow> ptr \<Rightarrow> 's \<Rightarrow> ('s, 'r) action"
    and upd :: "'k \<Rightarrow> 's \<Rightarrow> 's" and updr :: "'k \<Rightarrow> 'r \<Rightarrow> 'r" +
  fixes load :: "'q \<Rightarrow> 's" and store :: "'s \<Rightarrow> 'q"
    and leave :: "ptr \<Rightarrow> ngx_buf \<Rightarrow> 'r \<Rightarrow> ngx_rc \<times> ngx_buf \<times> 'q"
    and sim :: "ngx_rc \<times> ngx_buf \<times> 'q \<Rightarrow> ngx_rc \<times> ngx_buf \<times> 'q \<Rightarrow> bool"
    and exits :: "'r \<Rightarrow> bool"
  assumes load_store: "\<exists>k. load (store s) = upd k s"
    and store_upd: "store (upd k s) = store s"
    and step_exits: "step m p s = Stop x \<Longrightarrow> exits x"
    and leave_last: "leave p (b\<lparr>b_last := e\<rparr>) x =
      (case leave p b x of (rc, b', q) \<Rightarrow> (rc, b'\<lparr>b_last := e\<rparr>, q))"
    and leave_not_again: "exits x \<Longrightarrow> fst (leave p b x) \<noteq> NGX_AGAIN"
    and leave_sim: "exits x \<Longrightarrow> sim (leave p b x) (leave p (b\<lparr>b_pos := i\<rparr>) (updr k x))"
    and sim_refl: "sim y y"
begin

lemma scan_exits: "scan step m p e s = Stop (q, x) \<Longrightarrow> exits x"
proof (induction "e - p" arbitrary: p s)
  case 0
  then show ?case by simp
next
  case (Suc n)
  then have lt: "p < e" and n: "n = e - Suc p" by simp_all
  show ?case
  proof (cases "step m p s")
    case (Cont s1)
    with lt Suc.prems Suc.hyps(1) [OF n, of s1] show ?thesis by simp
  next
    case (Stop r)
    with lt Suc.prems show ?thesis by (auto dest: step_exits)
  qed
qed

text \<open>
  The bytes up to \<open>b_last b\<close> are parsed first; then the rest arrives, up to \<open>e\<close>.  The outcome
  is that of one parse over all the bytes.
\<close>

theorem parse_resume:
  assumes "take (b_last b) m1 = take (b_last b) m2" "b_pos b \<le> b_last b" "b_last b \<le> e"
    and parse: "run_parser step load store leave m1 b r = (rc, b', r')"
  shows "sim (run_parser step load store leave m2 (b\<lparr>b_last := e\<rparr>) r)
    (if rc = NGX_AGAIN then run_parser step load store leave m2 (b'\<lparr>b_last := e\<rparr>) r'
     else (rc, b'\<lparr>b_last := e\<rparr>, r'))"
proof (cases "scan step m1 (b_pos b) (b_last b) (load r)")
  case (Cont y)
  then obtain s where y: "y = (b_last b, s)"
    using assms(2) by (cases y) (auto dest: scan_Cont_pos)
  obtain k where k: "load (store s) = upd k s" using load_store by blast
  have first: "rc = NGX_AGAIN" "b' = b\<lparr>b_pos := b_last b\<rparr>" "r' = store s"
    using parse Cont y by (simp_all add: run_parser_def)
  have once: "scan step m2 (b_pos b) e (load r) = scan step m2 (b_last b) e s"
    using scan_resume [OF assms(1-3), of "load r"] Cont y by simp
  show ?thesis
  proof (cases "scan step m2 (b_last b) e s")
    case (Cont z)
    then show ?thesis
      using once first k scan_frame [of m2 "b_last b" e k s]
      by (cases z) (simp add: run_parser_def store_upd sim_refl)
  next
    case (Stop z)
    then have "exits (snd z)" using scan_exits [of m2 "b_last b" e s "fst z"] by simp
    moreover have "b\<lparr>b_pos := b_last b, b_last := e\<rparr> = b\<lparr>b_last := e, b_pos := b_last b\<rparr>"
      by (cases b) simp
    ultimately have "sim (leave (fst z) (b\<lparr>b_last := e\<rparr>) (snd z))
        (leave (fst z) (b\<lparr>b_pos := b_last b, b_last := e\<rparr>) (updr k (snd z)))"
      by (simp only: leave_sim)
    with Stop show ?thesis
      using once first k scan_frame [of m2 "b_last b" e k s]
      by (cases z) (simp add: run_parser_def)
  qed
next
  case (Stop y)
  then obtain q x where y: "y = (q, x)" by (cases y)
  have "scan step m2 (b_pos b) e (load r) = Stop (q, x)"
    using scan_resume [OF assms(1-3), of "load r"] Stop y by simp
  moreover have "leave q b x = (rc, b', r')"
    using parse Stop y by (simp add: run_parser_def)
  moreover from this have "rc \<noteq> NGX_AGAIN"
    using leave_not_again [of x q b] scan_exits Stop y by auto
  ultimately show ?thesis
    by (simp add: run_parser_def leave_last sim_refl)
qed

end

end
