(* ===== verification/Ngx_Http_Request.thy ===== *)
theory Ngx_Http_Request
  imports Ngx_Scan
begin

text \<open>
  The part of \<open>ngx_http_request_t\<close> (\<^verbatim>\<open>src/http/ngx_http_request.h\<close>) that the parsers of
  \<^verbatim>\<open>src/http/ngx_http_parse.c\<close> read and write, the method codes, and the table of the
  characters that need no attention in a URI.  One-bit fields are \<open>bool\<close>, the 16-bit fields
  \<open>http_minor\<close> and \<open>http_major\<close> are 16-bit words.  \<open>r_upstream\<close> says whether
  \<open>r->upstream\<close> is set.
\<close>

record ngx_http_request =
  r_method :: ngx_uint
  r_http_version :: ngx_uint
  r_http_protocol_data :: ptr
  r_upstream :: bool
  r_complex_uri :: bool
  r_quoted_uri :: bool
  r_plus_in_uri :: bool
  r_space_in_uri :: bool
  r_invalid_header :: bool
  r_state :: nat
  r_header_hash :: ngx_uint
  r_lowcase_index :: nat
  r_lowcase_header :: "byte list"
  r_header_name_start :: ptr
  r_header_name_end :: ptr
  r_header_start :: ptr
  r_header_end :: ptr
  r_uri_start :: ptr
  r_uri_end :: ptr
  r_uri_ext :: ptr
  r_args_start :: ptr
  r_request_start :: ptr
  r_request_end :: ptr
  r_method_end :: ptr
  r_schema_start :: ptr
  r_schema_end :: ptr
  r_host_start :: ptr
  r_host_end :: ptr
  r_port_end :: ptr
  r_http_minor :: u16
  r_http_major :: u16

text \<open>The request as \<open>ngx_pcalloc\<close> gives it: all fields zero.\<close>

definition ngx_http_request_zero :: ngx_http_request where
  "ngx_http_request_zero =
    \<lparr> r_method = 0, r_http_version = 0, r_http_protocol_data = NULL, r_upstream = False,
      r_complex_uri = False, r_quoted_uri = False, r_plus_in_uri = False,
      r_space_in_uri = False, r_invalid_header = False,
      r_state = 0, r_header_hash = 0, r_lowcase_index = 0, r_lowcase_header = replicate 32 0,
      r_header_name_start = NULL, r_header_name_end = NULL,
      r_header_start = NULL, r_header_end = NULL,
      r_uri_start = NULL, r_uri_end = NULL, r_uri_ext = NULL, r_args_start = NULL,
      r_request_start = NULL, r_request_end = NULL, r_method_end = NULL,
      r_schema_start = NULL, r_schema_end = NULL, r_host_start = NULL, r_host_end = NULL,
      r_port_end = NULL, r_http_minor = 0, r_http_major = 0 \<rparr>"

abbreviation (input) NGX_HTTP_GET :: ngx_uint where "NGX_HTTP_GET \<equiv> 0x0002"
abbreviation (input) NGX_HTTP_HEAD :: ngx_uint where "NGX_HTTP_HEAD \<equiv> 0x0004"
abbreviation (input) NGX_HTTP_POST :: ngx_uint where "NGX_HTTP_POST \<equiv> 0x0008"
abbreviation (input) NGX_HTTP_PUT :: ngx_uint where "NGX_HTTP_PUT \<equiv> 0x0010"
abbreviation (input) NGX_HTTP_DELETE :: ngx_uint where "NGX_HTTP_DELETE \<equiv> 0x0020"
abbreviation (input) NGX_HTTP_MKCOL :: ngx_uint where "NGX_HTTP_MKCOL \<equiv> 0x0040"
abbreviation (input) NGX_HTTP_COPY :: ngx_uint where "NGX_HTTP_COPY \<equiv> 0x0080"
abbreviation (input) NGX_HTTP_MOVE :: ngx_uint where "NGX_HTTP_MOVE \<equiv> 0x0100"
abbreviation (input) NGX_HTTP_OPTIONS :: ngx_uint where "NGX_HTTP_OPTIONS \<equiv> 0x0200"
abbreviation (input) NGX_HTTP_PROPFIND :: ngx_uint where "NGX_HTTP_PROPFIND \<equiv> 0x0400"
abbreviation (input) NGX_HTTP_PROPPATCH :: ngx_uint where "NGX_HTTP_PROPPATCH \<equiv> 0x0800"
abbreviation (input) NGX_HTTP_LOCK :: ngx_uint where "NGX_HTTP_LOCK \<equiv> 0x1000"
abbreviation (input) NGX_HTTP_UNLOCK :: ngx_uint where "NGX_HTTP_UNLOCK \<equiv> 0x2000"
abbreviation (input) NGX_HTTP_PATCH :: ngx_uint where "NGX_HTTP_PATCH \<equiv> 0x4000"
abbreviation (input) NGX_HTTP_TRACE :: ngx_uint where "NGX_HTTP_TRACE \<equiv> 0x8000"

section \<open>The usual characters of a URI\<close>

definition usual :: "u32 list" where
  "usual = [
    0xffffdbfe,
    0x7fff37d6,
    0xffffffff,
    0xffffffff,
    0xffffffff,
    0xffffffff,
    0xffffffff,
    0xffffffff]"

text \<open>\<open>usual[ch >> 5] & (1 << (ch & 0x1f))\<close>\<close>

definition is_usual :: "byte \<Rightarrow> bool" where
  "is_usual ch \<longleftrightarrow> table_bit usual ch"

text \<open>The characters that are not usual: NUL, LF, CR, space, and the characters of \<open>#%+./?\<close>.\<close>

lemma is_usual_iff:
  "is_usual ch \<longleftrightarrow>
     ch \<notin> {0, LF, CR, SP, asc CHR ''#'', asc CHR ''%'', asc CHR ''+'', asc CHR ''.'',
          asc CHR ''/'', asc CHR ''?''}"
proof -
  have "list_all (\<lambda>n. bit (usual ! (n div 32)) (n mod 32) \<longleftrightarrow>
      n \<notin> {0, 10, 13, 32, 35, 37, 43, 46, 47, 63}) [0..<256]"
    by (simp add: usual_def upt_rec)
  then have "\<forall>n<256. bit (usual ! (n div 32)) (n mod 32) \<longleftrightarrow>
      n \<notin> {0, 10, 13, 32, 35, 37, 43, 46, 47, 63}"
    by (simp only: all_less_256_iff)
  then have "is_usual ch \<longleftrightarrow> unat ch \<notin> {0, 10, 13, 32, 35, 37, 43, 46, 47, 63}"
    unfolding is_usual_def table_bit_iff using byte_unat_less [of ch] by blast
  then show ?thesis by (simp add: word_unat_eq_iff)
qed

lemma is_usualD:
  "is_usual ch \<Longrightarrow> ch \<noteq> 0 \<and> ch \<noteq> LF \<and> ch \<noteq> CR \<and> ch \<noteq> SP"
  by (simp add: is_usual_iff)

lemma is_usual_not [simp]:
  "\<not> is_usual 0" "\<not> is_usual 10" "\<not> is_usual 13" "\<not> is_usual 32" "\<not> is_usual 35"
  "\<not> is_usual 37" "\<not> is_usual 43" "\<not> is_usual 46" "\<not> is_usual 47" "\<not> is_usual 63"
  by (simp_all add: is_usual_iff)

end
