(* ===== verification/Ngx_Http_Request_Line.thy ===== *)
theory Ngx_Http_Request_Line
  imports Ngx_Http_Request
begin

text \<open>
  \<open>ngx_http_parse_request_line\<close> of \<^verbatim>\<open>src/http/ngx_http_parse.c\<close> (lines 109--757): one
  definition per state of its switch, the loop over the received bytes, and the code after
  the loop.  Then: a parse resumed after \<open>NGX_AGAIN\<close> gives what one parse over the whole
  line gives; the pointers a successful parse leaves in the request lie in the parsed line
  in the order the fields have on the line; a request line printed from its parts parses to
  these parts.
\<close>

section \<open>Comparing method names\<close>

definition ngx_str3_cmp :: "mem \<Rightarrow> ptr \<Rightarrow> char \<Rightarrow> char \<Rightarrow> char \<Rightarrow> char \<Rightarrow> bool" where
  "ngx_str3_cmp mem m c0 c1 c2 c3 \<longleftrightarrow>
     mem ! m = asc c0 \<and> mem ! (m + 1) = asc c1 \<and> mem ! (m + 2) = asc c2"

definition ngx_str3Ocmp :: "mem \<Rightarrow> ptr \<Rightarrow> char \<Rightarrow> char \<Rightarrow> char \<Rightarrow> char \<Rightarrow> bool" where
  "ngx_str3Ocmp mem m c0 c1 c2 c3 \<longleftrightarrow>
     mem ! m = asc c0 \<and> mem ! (m + 2) = asc c2 \<and> mem ! (m + 3) = asc c3"

definition ngx_str4cmp :: "mem \<Rightarrow> ptr \<Rightarrow> char \<Rightarrow> char \<Rightarrow> char \<Rightarrow> char \<Rightarrow> bool" where
  "ngx_str4cmp mem m c0 c1 c2 c3 \<longleftrightarrow>
     mem ! m = asc c0 \<and> mem ! (m + 1) = asc c1 \<and> mem ! (m + 2) = asc c2 \<and> mem ! (m + 3) = asc c3"

definition ngx_str5cmp :: "mem \<Rightarrow> ptr \<Rightarrow> char \<Rightarrow> char \<Rightarrow> char \<Rightarrow> char \<Rightarrow> char \<Rightarrow> bool" where
  "ngx_str5cmp mem m c0 c1 c2 c3 c4 \<longleftrightarrow>
     mem ! m = asc c0 \<and> mem ! (m + 1) = asc c1 \<and> mem ! (m + 2) = asc c2 \<and> mem ! (m + 3) = asc c3
     \<and> mem ! (m + 4) = asc c4"

definition ngx_str6cmp ::
  "mem \<Rightarrow> ptr \<Rightarrow> char \<Rightarrow> char \<Rightarrow> char \<Rightarrow> char \<Rightarrow> char \<Rightarrow> char \<Rightarrow> bool" where
  "ngx_str6cmp mem m c0 c1 c2 c3 c4 c5 \<longleftrightarrow>
     mem ! m = asc c0 \<and> mem ! (m + 1) = asc c1 \<and> mem ! (m + 2) = asc c2 \<and> mem ! (m + 3) = asc c3
     \<and> mem ! (m + 4) = asc c4 \<and> mem ! (m + 5) = asc c5"

definition ngx_str7_cmp ::
  "mem \<Rightarrow> ptr \<Rightarrow> char \<Rightarrow> char \<Rightarrow> char \<Rightarrow> char \<Rightarrow> char \<Rightarrow> char \<Rightarrow> char \<Rightarrow> char \<Rightarrow> bool" where
  "ngx_str7_cmp mem m c0 c1 c2 c3 c4 c5 c6 c7 \<longleftrightarrow>
     mem ! m = asc c0 \<and> mem ! (m + 1) = asc c1 \<and> mem ! (m + 2) = asc c2 \<and> mem ! (m + 3) = asc c3
     \<and> mem ! (m + 4) = asc c4 \<and> mem ! (m + 5) = asc c5 \<and> mem ! (m + 6) = asc c6"

definition ngx_str8cmp ::
  "mem \<Rightarrow> ptr \<Rightarrow> char \<Rightarrow> char \<Rightarrow> char \<Rightarrow> char \<Rightarrow> char \<Rightarrow> char \<Rightarrow> char \<Rightarrow> char \<Rightarrow> bool" where
  "ngx_str8cmp mem m c0 c1 c2 c3 c4 c5 c6 c7 \<longleftrightarrow>
     mem ! m = asc c0 \<and> mem ! (m + 1) = asc c1 \<and> mem ! (m + 2) = asc c2 \<and> mem ! (m + 3) = asc c3
     \<and> mem ! (m + 4) = asc c4 \<and> mem ! (m + 5) = asc c5 \<and> mem ! (m + 6) = asc c6
     \<and> mem ! (m + 7) = asc c7"

definition ngx_str9cmp ::
  "mem \<Rightarrow> ptr \<Rightarrow> char \<Rightarrow> char \<Rightarrow> char \<Rightarrow> char \<Rightarrow> char \<Rightarrow> char \<Rightarrow> char \<Rightarrow> char \<Rightarrow> char \<Rightarrow> bool" where
  "ngx_str9cmp mem m c0 c1 c2 c3 c4 c5 c6 c7 c8 \<longleftrightarrow>
     mem ! m = asc c0 \<and> mem ! (m + 1) = asc c1 \<and> mem ! (m + 2) = asc c2 \<and> mem ! (m + 3) = asc c3
     \<and> mem ! (m + 4) = asc c4 \<and> mem ! (m + 5) = asc c5 \<and> mem ! (m + 6) = asc c6
     \<and> mem ! (m + 7) = asc c7 \<and> mem ! (m + 8) = asc c8"

lemmas ngx_strN_cmp_defs =
  ngx_str3_cmp_def ngx_str3Ocmp_def ngx_str4cmp_def ngx_str5cmp_def ngx_str6cmp_def
  ngx_str7_cmp_def ngx_str8cmp_def ngx_str9cmp_def

text \<open>The \<open>switch (p - m)\<close> on the length of the method name; lines 167--267.\<close>

definition rl_method_code :: "mem \<Rightarrow> ptr \<Rightarrow> nat \<Rightarrow> ngx_uint \<Rightarrow> ngx_uint" where
  "rl_method_code mem m len old =
    (if len = 3 then
       (if ngx_str3_cmp mem m CHR ''G'' CHR ''E'' CHR ''T'' CHR '' '' then NGX_HTTP_GET
        else if ngx_str3_cmp mem m CHR ''P'' CHR ''U'' CHR ''T'' CHR '' '' then NGX_HTTP_PUT
        else old)
     else if len = 4 then
       (if mem ! (m + 1) = asc CHR ''O'' then
          (if ngx_str3Ocmp mem m CHR ''P'' CHR ''O'' CHR ''S'' CHR ''T'' then NGX_HTTP_POST
           else if ngx_str3Ocmp mem m CHR ''C'' CHR ''O'' CHR ''P'' CHR ''Y'' then NGX_HTTP_COPY
           else if ngx_str3Ocmp mem m CHR ''M'' CHR ''O'' CHR ''V'' CHR ''E'' then NGX_HTTP_MOVE
           else if ngx_str3Ocmp mem m CHR ''L'' CHR ''O'' CHR ''C'' CHR ''K'' then NGX_HTTP_LOCK
           else old)
        else
          (if ngx_str4cmp mem m CHR ''H'' CHR ''E'' CHR ''A'' CHR ''D'' then NGX_HTTP_HEAD
           else old))
     else if len = 5 then
       (let old = (if ngx_str5cmp mem m CHR ''M'' CHR ''K'' CHR ''C'' CHR ''O'' CHR ''L''
                   then NGX_HTTP_MKCOL else old);
            old = (if ngx_str5cmp mem m CHR ''P'' CHR ''A'' CHR ''T'' CHR ''C'' CHR ''H''
                   then NGX_HTTP_PATCH else old)
        in (if ngx_str5cmp mem m CHR ''T'' CHR ''R'' CHR ''A'' CHR ''C'' CHR ''E''
            then NGX_HTTP_TRACE else old))
     else if len = 6 then
       (if ngx_str6cmp mem m CHR ''D'' CHR ''E'' CHR ''L'' CHR ''E'' CHR ''T'' CHR ''E''
        then NGX_HTTP_DELETE
        else if ngx_str6cmp mem m CHR ''U'' CHR ''N'' CHR ''L'' CHR ''O'' CHR ''C'' CHR ''K''
        then NGX_HTTP_UNLOCK
        else old)
     else if len = 7 then
       (if ngx_str7_cmp mem m CHR ''O'' CHR ''P'' CHR ''T'' CHR ''I'' CHR ''O'' CHR ''N'' CHR ''S''
             CHR '' ''
        then NGX_HTTP_OPTIONS else old)
     else if len = 8 then
       (if ngx_str8cmp mem m CHR ''P'' CHR ''R'' CHR ''O'' CHR ''P'' CHR ''F'' CHR ''I'' CHR ''N''
             CHR ''D''
        then NGX_HTTP_PROPFIND else old)
     else if len = 9 then
       (if ngx_str9cmp mem m CHR ''P'' CHR ''R'' CHR ''O'' CHR ''P'' CHR ''P'' CHR ''A'' CHR ''T''
             CHR ''C'' CHR ''H''
        then NGX_HTTP_PROPPATCH else old)
     else old)"

section \<open>The states\<close>

datatype rl_state =
    rl_sw_start
  | rl_sw_method
  | rl_sw_spaces_before_uri
  | rl_sw_schema
  | rl_sw_schema_slash
  | rl_sw_schema_slash_slash
  | rl_sw_host
  | rl_sw_port
  | rl_sw_host_http_09
  | rl_sw_after_slash_in_uri
  | rl_sw_check_uri
  | rl_sw_check_uri_http_09
  | rl_sw_uri
  | rl_sw_http_09
  | rl_sw_http_H
  | rl_sw_http_HT
  | rl_sw_http_HTT
  | rl_sw_http_HTTP
  | rl_sw_first_major_digit
  | rl_sw_major_digit
  | rl_sw_first_minor_digit
  | rl_sw_minor_digit
  | rl_sw_spaces_after_digit
  | rl_sw_almost_done

text \<open>The values of the enum, to store a state in \<open>r->state\<close> and to load it.\<close>

definition rl_states :: "rl_state list" where
  "rl_states =
    [rl_sw_start, rl_sw_method, rl_sw_spaces_before_uri, rl_sw_schema, rl_sw_schema_slash,
     rl_sw_schema_slash_slash, rl_sw_host, rl_sw_port, rl_sw_host_http_09,
     rl_sw_after_slash_in_uri, rl_sw_check_uri, rl_sw_check_uri_http_09, rl_sw_uri, rl_sw_http_09,
     rl_sw_http_H, rl_sw_http_HT, rl_sw_http_HTT, rl_sw_http_HTTP, rl_sw_first_major_digit,
     rl_sw_major_digit, rl_sw_first_minor_digit, rl_sw_minor_digit, rl_sw_spaces_after_digit,
     rl_sw_almost_done]"

text \<open>The loop is left by \<open>goto done\<close> or by a \<open>return\<close>.\<close>

datatype rl_exit = Rl_done | Rl_return ngx_rc

type_synonym rl_action =
  "(rl_state \<times> ngx_http_request, rl_exit \<times> ngx_http_request) action"

abbreviation rl_invalid :: "ngx_http_request \<Rightarrow> rl_action" where
  "rl_invalid r \<equiv> Stop (Rl_return NGX_HTTP_PARSE_INVALID_REQUEST, r)"

definition rl_start :: "ptr \<Rightarrow> byte \<Rightarrow> ngx_http_request \<Rightarrow> rl_action" where
  "rl_start p ch r =
    (let r = r\<lparr>r_request_start := p\<rparr> in
     if ch = CR \<or> ch = LF then Cont (rl_sw_start, r)
     else if (ch < asc CHR ''A'' \<or> ch > asc CHR ''Z'') \<and> ch \<noteq> asc CHR ''_''
     then Stop (Rl_return NGX_HTTP_PARSE_INVALID_METHOD, r)
     else Cont (rl_sw_method, r))"

definition rl_method :: "mem \<Rightarrow> ptr \<Rightarrow> byte \<Rightarrow> ngx_http_request \<Rightarrow> rl_action" where
  "rl_method mem p ch r =
    (if ch = asc CHR '' '' then
       (let r = r\<lparr>r_method_end := p - 1\<rparr>;
            m = r_request_start r;
            r = r\<lparr>r_method := rl_method_code mem m (p - m) (r_method r)\<rparr>
        in Cont (rl_sw_spaces_before_uri, r))
     else if (ch < asc CHR ''A'' \<or> ch > asc CHR ''Z'') \<and> ch \<noteq> asc CHR ''_''
     then Stop (Rl_return NGX_HTTP_PARSE_INVALID_METHOD, r)
     else Cont (rl_sw_method, r))"

definition rl_spaces_before_uri :: "ptr \<Rightarrow> byte \<Rightarrow> ngx_http_request \<Rightarrow> rl_action" where
  "rl_spaces_before_uri p ch r =
    (if ch = asc CHR ''/'' then Cont (rl_sw_after_slash_in_uri, r\<lparr>r_uri_start := p\<rparr>)
     else
       (let c = ch OR 0x20 in
        if c \<ge> asc CHR ''a'' \<and> c \<le> asc CHR ''z''
        then Cont (rl_sw_schema, r\<lparr>r_schema_start := p\<rparr>)
        else if ch = asc CHR '' '' then Cont (rl_sw_spaces_before_uri, r)
        else rl_invalid r))"

definition rl_schema :: "ptr \<Rightarrow> byte \<Rightarrow> ngx_http_request \<Rightarrow> rl_action" where
  "rl_schema p ch r =
    (let c = ch OR 0x20 in
     if c \<ge> asc CHR ''a'' \<and> c \<le> asc CHR ''z'' then Cont (rl_sw_schema, r)
     else if ch = asc CHR '':'' then Cont (rl_sw_schema_slash, r\<lparr>r_schema_end := p\<rparr>)
     else rl_invalid r)"

definition rl_schema_slash :: "byte \<Rightarrow> ngx_http_request \<Rightarrow> rl_action" where
  "rl_schema_slash ch r =
    (if ch = asc CHR ''/'' then Cont (rl_sw_schema_slash_slash, r) else rl_invalid r)"

definition rl_schema_slash_slash :: "ptr \<Rightarrow> byte \<Rightarrow> ngx_http_request \<Rightarrow> rl_action" where
  "rl_schema_slash_slash p ch r =
    (if ch = asc CHR ''/'' then Cont (rl_sw_host, r\<lparr>r_host_start := p + 1\<rparr>) else rl_invalid r)"

definition rl_host :: "ptr \<Rightarrow> byte \<Rightarrow> ngx_http_request \<Rightarrow> rl_action" where
  "rl_host p ch r =
    (let c = ch OR 0x20 in
     if c \<ge> asc CHR ''a'' \<and> c \<le> asc CHR ''z'' then Cont (rl_sw_host, r)
     else if (ch \<ge> asc CHR ''0'' \<and> ch \<le> asc CHR ''9'') \<or> ch = asc CHR ''.'' \<or> ch = asc CHR ''-''
     then Cont (rl_sw_host, r)
     else
       (let r = r\<lparr>r_host_end := p\<rparr> in
        if ch = asc CHR '':'' then Cont (rl_sw_port, r)
        else if ch = asc CHR ''/'' then Cont (rl_sw_after_slash_in_uri, r\<lparr>r_uri_start := p\<rparr>)
        else if ch = asc CHR '' '' then
          Cont (rl_sw_host_http_09,
            r\<lparr>r_uri_start := r_schema_end r + 1, r_uri_end := r_schema_end r + 2\<rparr>)
        else rl_invalid r))"

definition rl_port :: "ptr \<Rightarrow> byte \<Rightarrow> ngx_http_request \<Rightarrow> rl_action" where
  "rl_port p ch r =
    (if ch \<ge> asc CHR ''0'' \<and> ch \<le> asc CHR ''9'' then Cont (rl_sw_port, r)
     else if ch = asc CHR ''/'' then
       Cont (rl_sw_after_slash_in_uri, r\<lparr>r_port_end := p, r_uri_start := p\<rparr>)
     else if ch = asc CHR '' '' then
       Cont (rl_sw_host_http_09,
         r\<lparr>r_port_end := p, r_uri_start := r_schema_end r + 1, r_uri_end := r_schema_end r + 2\<rparr>)
     else rl_invalid r)"

definition rl_host_http_09 :: "ptr \<Rightarrow> byte \<Rightarrow> ngx_http_request \<Rightarrow> rl_action" where
  "rl_host_http_09 p ch r =
    (if ch = asc CHR '' '' then Cont (rl_sw_host_http_09, r)
     else if ch = CR then Cont (rl_sw_almost_done, r\<lparr>r_http_minor := 9\<rparr>)
     else if ch = LF then Stop (Rl_done, r\<lparr>r_http_minor := 9\<rparr>)
     else if ch = asc CHR ''H'' then Cont (rl_sw_http_H, r\<lparr>r_http_protocol_data := p\<rparr>)
     else rl_invalid r)"

definition rl_after_slash_in_uri :: "ptr \<Rightarrow> byte \<Rightarrow> ngx_http_request \<Rightarrow> rl_action" where
  "rl_after_slash_in_uri p ch r =
    (if is_usual ch then Cont (rl_sw_check_uri, r)
     else if ch = asc CHR '' '' then Cont (rl_sw_check_uri_http_09, r\<lparr>r_uri_end := p\<rparr>)
     else if ch = CR then Cont (rl_sw_almost_done, r\<lparr>r_uri_end := p, r_http_minor := 9\<rparr>)
     else if ch = LF then Stop (Rl_done, r\<lparr>r_uri_end := p, r_http_minor := 9\<rparr>)
     else if ch = asc CHR ''.'' then Cont (rl_sw_uri, r\<lparr>r_complex_uri := True\<rparr>)
     else if ch = asc CHR ''%'' then Cont (rl_sw_uri, r\<lparr>r_quoted_uri := True\<rparr>)
     else if ch = asc CHR ''/'' then Cont (rl_sw_uri, r\<lparr>r_complex_uri := True\<rparr>)
     else if ch = asc CHR ''?'' then Cont (rl_sw_uri, r\<lparr>r_args_start := p + 1\<rparr>)
     else if ch = asc CHR ''#'' then Cont (rl_sw_uri, r\<lparr>r_complex_uri := True\<rparr>)
     else if ch = asc CHR ''+'' then Cont (rl_sw_after_slash_in_uri, r\<lparr>r_plus_in_uri := True\<rparr>)
     else if ch = 0 then rl_invalid r
     else Cont (rl_sw_check_uri, r))"

definition rl_check_uri :: "ptr \<Rightarrow> byte \<Rightarrow> ngx_http_request \<Rightarrow> rl_action" where
  "rl_check_uri p ch r =
    (if is_usual ch then Cont (rl_sw_check_uri, r)
     else if ch = asc CHR ''/'' then Cont (rl_sw_after_slash_in_uri, r\<lparr>r_uri_ext := NULL\<rparr>)
     else if ch = asc CHR ''.'' then Cont (rl_sw_check_uri, r\<lparr>r_uri_ext := p + 1\<rparr>)
     else if ch = asc CHR '' '' then Cont (rl_sw_check_uri_http_09, r\<lparr>r_uri_end := p\<rparr>)
     else if ch = CR then Cont (rl_sw_almost_done, r\<lparr>r_uri_end := p, r_http_minor := 9\<rparr>)
     else if ch = LF then Stop (Rl_done, r\<lparr>r_uri_end := p, r_http_minor := 9\<rparr>)
     else if ch = asc CHR ''%'' then Cont (rl_sw_uri, r\<lparr>r_quoted_uri := True\<rparr>)
     else if ch = asc CHR ''?'' then Cont (rl_sw_uri, r\<lparr>r_args_start := p + 1\<rparr>)
     else if ch = asc CHR ''#'' then Cont (rl_sw_uri, r\<lparr>r_complex_uri := True\<rparr>)
     else if ch = asc CHR ''+'' then Cont (rl_sw_check_uri, r\<lparr>r_plus_in_uri := True\<rparr>)
     else if ch = 0 then rl_invalid r
     else Cont (rl_sw_check_uri, r))"

definition rl_check_uri_http_09 :: "ptr \<Rightarrow> byte \<Rightarrow> ngx_http_request \<Rightarrow> rl_action" where
  "rl_check_uri_http_09 p ch r =
    (if ch = asc CHR '' '' then Cont (rl_sw_check_uri_http_09, r)
     else if ch = CR then Cont (rl_sw_almost_done, r\<lparr>r_http_minor := 9\<rparr>)
     else if ch = LF then Stop (Rl_done, r\<lparr>r_http_minor := 9\<rparr>)
     else if ch = asc CHR ''H'' then Cont (rl_sw_http_H, r\<lparr>r_http_protocol_data := p\<rparr>)
     else Cont (rl_sw_check_uri, r\<lparr>r_space_in_uri := True\<rparr>))"

definition rl_uri :: "ptr \<Rightarrow> byte \<Rightarrow> ngx_http_request \<Rightarrow> rl_action" where
  "rl_uri p ch r =
    (if is_usual ch then Cont (rl_sw_uri, r)
     else if ch = asc CHR '' '' then Cont (rl_sw_http_09, r\<lparr>r_uri_end := p\<rparr>)
     else if ch = CR then Cont (rl_sw_almost_done, r\<lparr>r_uri_end := p, r_http_minor := 9\<rparr>)
     else if ch = LF then Stop (Rl_done, r\<lparr>r_uri_end := p, r_http_minor := 9\<rparr>)
     else if ch = asc CHR ''#'' then Cont (rl_sw_uri, r\<lparr>r_complex_uri := True\<rparr>)
     else if ch = 0 then rl_invalid r
     else Cont (rl_sw_uri, r))"

definition rl_http_09 :: "ptr \<Rightarrow> byte \<Rightarrow> ngx_http_request \<Rightarrow> rl_action" where
  "rl_http_09 p ch r =
    (if ch = asc CHR '' '' then Cont (rl_sw_http_09, r)
     else if ch = CR then Cont (rl_sw_almost_done, r\<lparr>r_http_minor := 9\<rparr>)
     else if ch = LF then Stop (Rl_done, r\<lparr>r_http_minor := 9\<rparr>)
     else if ch = asc CHR ''H'' then Cont (rl_sw_http_H, r\<lparr>r_http_protocol_data := p\<rparr>)
     else Cont (rl_sw_uri, r\<lparr>r_space_in_uri := True\<rparr>))"

text \<open>\<open>sw_http_H\<close> to \<open>sw_http_HTTP\<close> expect one character each; lines 613--651.\<close>

definition rl_expect :: "char \<Rightarrow> rl_state \<Rightarrow> byte \<Rightarrow> ngx_http_request \<Rightarrow> rl_action" where
  "rl_expect c st ch r = (if ch = asc c then Cont (st, r) else rl_invalid r)"

definition rl_first_major_digit :: "byte \<Rightarrow> ngx_http_request \<Rightarrow> rl_action" where
  "rl_first_major_digit ch r =
    (if ch < asc CHR ''1'' \<or> ch > asc CHR ''9'' then rl_invalid r
     else Cont (rl_sw_major_digit, r\<lparr>r_http_major := ucast (ch - asc CHR ''0'')\<rparr>))"

definition rl_major_digit :: "byte \<Rightarrow> ngx_http_request \<Rightarrow> rl_action" where
  "rl_major_digit ch r =
    (if ch = asc CHR ''.'' then Cont (rl_sw_first_minor_digit, r)
     else if ch < asc CHR ''0'' \<or> ch > asc CHR ''9'' then rl_invalid r
     else Cont (rl_sw_major_digit,
            r\<lparr>r_http_major := r_http_major r * 10 + ucast (ch - asc CHR ''0'')\<rparr>))"

definition rl_first_minor_digit :: "byte \<Rightarrow> ngx_http_request \<Rightarrow> rl_action" where
  "rl_first_minor_digit ch r =
    (if ch < asc CHR ''0'' \<or> ch > asc CHR ''9'' then rl_invalid r
     else Cont (rl_sw_minor_digit, r\<lparr>r_http_minor := ucast (ch - asc CHR ''0'')\<rparr>))"

definition rl_minor_digit :: "byte \<Rightarrow> ngx_http_request \<Rightarrow> rl_action" where
  "rl_minor_digit ch r =
    (if ch = CR then Cont (rl_sw_almost_done, r)
     else if ch = LF then Stop (Rl_done, r)
     else if ch = asc CHR '' '' then Cont (rl_sw_spaces_after_digit, r)
     else if ch < asc CHR ''0'' \<or> ch > asc CHR ''9'' then rl_invalid r
     else Cont (rl_sw_minor_digit,
            r\<lparr>r_http_minor := r_http_minor r * 10 + ucast (ch - asc CHR ''0'')\<rparr>))"

definition rl_spaces_after_digit :: "byte \<Rightarrow> ngx_http_request \<Rightarrow> rl_action" where
  "rl_spaces_after_digit ch r =
    (if ch = asc CHR '' '' then Cont (rl_sw_spaces_after_digit, r)
     else if ch = CR then Cont (rl_sw_almost_done, r)
     else if ch = LF then Stop (Rl_done, r)
     else rl_invalid r)"

definition rl_almost_done :: "ptr \<Rightarrow> byte \<Rightarrow> ngx_http_request \<Rightarrow> rl_action" where
  "rl_almost_done p ch r =
    (let r = r\<lparr>r_request_end := p - 1\<rparr> in
     if ch = LF then Stop (Rl_done, r) else rl_invalid r)"

section \<open>The loop body and the function\<close>

fun rl_step :: "mem \<Rightarrow> ptr \<Rightarrow> rl_state \<times> ngx_http_request \<Rightarrow> rl_action" where
  "rl_step mem p (st, r) =
    (let ch = mem ! p in
     case st of
       rl_sw_start \<Rightarrow> rl_start p ch r
     | rl_sw_method \<Rightarrow> rl_method mem p ch r
     | rl_sw_spaces_before_uri \<Rightarrow> rl_spaces_before_uri p ch r
     | rl_sw_schema \<Rightarrow> rl_schema p ch r
     | rl_sw_schema_slash \<Rightarrow> rl_schema_slash ch r
     | rl_sw_schema_slash_slash \<Rightarrow> rl_schema_slash_slash p ch r
     | rl_sw_host \<Rightarrow> rl_host p ch r
     | rl_sw_port \<Rightarrow> rl_port p ch r
     | rl_sw_host_http_09 \<Rightarrow> rl_host_http_09 p ch r
     | rl_sw_after_slash_in_uri \<Rightarrow> rl_after_slash_in_uri p ch r
     | rl_sw_check_uri \<Rightarrow> rl_check_uri p ch r
     | rl_sw_check_uri_http_09 \<Rightarrow> rl_check_uri_http_09 p ch r
     | rl_sw_uri \<Rightarrow> rl_uri p ch r
     | rl_sw_http_09 \<Rightarrow> rl_http_09 p ch r
     | rl_sw_http_H \<Rightarrow> rl_expect CHR ''T'' rl_sw_http_HT ch r
     | rl_sw_http_HT \<Rightarrow> rl_expect CHR ''T'' rl_sw_http_HTT ch r
     | rl_sw_http_HTT \<Rightarrow> rl_expect CHR ''P'' rl_sw_http_HTTP ch r
     | rl_sw_http_HTTP \<Rightarrow> rl_expect CHR ''/'' rl_sw_first_major_digit ch r
     | rl_sw_first_major_digit \<Rightarrow> rl_first_major_digit ch r
     | rl_sw_major_digit \<Rightarrow> rl_major_digit ch r
     | rl_sw_first_minor_digit \<Rightarrow> rl_first_minor_digit ch r
     | rl_sw_minor_digit \<Rightarrow> rl_minor_digit ch r
     | rl_sw_spaces_after_digit \<Rightarrow> rl_spaces_after_digit ch r
     | rl_sw_almost_done \<Rightarrow> rl_almost_done p ch r)"

text \<open>The code at the label \<open>done\<close>; lines 741--756.\<close>

definition rl_finish :: "ptr \<Rightarrow> ngx_buf \<Rightarrow> ngx_http_request \<Rightarrow> ngx_rc \<times> ngx_buf \<times> ngx_http_request" where
  "rl_finish p b r =
    (let b = b\<lparr>b_pos := p + 1\<rparr>;
         r = (if r_request_end r = NULL then r\<lparr>r_request_end := p\<rparr> else r);
         r = r\<lparr>r_http_version := ucast (r_http_major r) * 1000 + ucast (r_http_minor r),
               r_state := enum_index rl_states rl_sw_start\<rparr>
     in if r_http_version r = 9 \<and> r_method r \<noteq> NGX_HTTP_GET
        then (NGX_HTTP_PARSE_INVALID_09_METHOD, b, r)
        else (NGX_OK, b, r))"

definition ngx_http_parse_request_line ::
  "mem \<Rightarrow> ngx_buf \<Rightarrow> ngx_http_request \<Rightarrow> ngx_rc \<times> ngx_buf \<times> ngx_http_request" where
  "ngx_http_parse_request_line mem b r =
    (case scan rl_step mem (b_pos b) (b_last b) (enum_at rl_states (r_state r), r) of
       Cont (p, st, r') \<Rightarrow>
         (NGX_AGAIN, b\<lparr>b_pos := p\<rparr>, r'\<lparr>r_state := enum_index rl_states st\<rparr>)
     | Stop (p, Rl_done, r') \<Rightarrow> rl_finish p b r'
     | Stop (p, Rl_return rc, r') \<Rightarrow> (rc, b, r'))"

section \<open>The body reads no byte after the current one\<close>

lemma set_rl_states [simp]: "st \<in> set rl_states"
  by (cases st) (simp_all add: rl_states_def)

lemma rl_method_code_shift:
  assumes "\<And>i. i < len \<Longrightarrow> m1 ! (a + i) = m2 ! (b + i)"
  shows "rl_method_code m1 a len old = rl_method_code m2 b len old"
proof -
  note defs = rl_method_code_def ngx_strN_cmp_defs
  have eq: "m1 ! a = m2 ! b" if "0 < len" using assms [of 0] that by simp
  consider "len \<in> {3, 4, 5, 6, 7, 8, 9}" | "len \<notin> {3, 4, 5, 6, 7, 8, 9}" by blast
  then show ?thesis
  proof cases
    case 1
    then show ?thesis using eq assms 
      by (elim insertE emptyE; simp add: defs del: One_nat_def add_2_eq_Suc')
  next
    case 2 then show ?thesis by (simp add: rl_method_code_def)
  qed
qed

interpretation rl: scanner rl_step
proof
  fix p and m1 m2 :: mem and s :: "rl_state \<times> ngx_http_request"
  assume *: "take (Suc p) m1 = take (Suc p) m2"
  obtain st r where s: "s = (st, r)" by (cases s)
  have "m1 ! p = m2 ! p" using * by (rule take_Suc_nth_eq) simp
  moreover have "rl_method_code m1 m (p - m) old = rl_method_code m2 m (p - m) old" for m old
    by (rule rl_method_code_shift) (rule take_Suc_nth_eq [OF *], simp)
  ultimately show "rl_step m1 p s = rl_step m2 p s"
    unfolding s by (cases st) (simp_all add: rl_method_def Let_def)
qed

section \<open>The invariant of the loop\<close>

definition rl_method_char :: "byte \<Rightarrow> bool" where
  "rl_method_char c \<longleftrightarrow> (asc CHR ''A'' \<le> c \<and> c \<le> asc CHR ''Z'') \<or> c = asc CHR ''_''"

definition rl_lines_apart :: "mem \<Rightarrow> ptr \<Rightarrow> ptr \<Rightarrow> bool" where
  "rl_lines_apart mem lo hi \<longleftrightarrow> (\<forall>i. lo \<le> i \<and> i < hi \<longrightarrow> mem ! i \<noteq> CR \<and> mem ! i \<noteq> LF)"

definition rl_clean :: "mem \<Rightarrow> ptr \<Rightarrow> ptr \<Rightarrow> bool" where
  "rl_clean mem lo hi \<longleftrightarrow> (\<forall>i. lo \<le> i \<and> i < hi \<longrightarrow> mem ! i \<noteq> 0 \<and> mem ! i \<noteq> SP)"

lemma rl_lines_apart_Suc:
  "rl_lines_apart mem lo hi \<Longrightarrow> mem ! hi \<noteq> CR \<Longrightarrow> mem ! hi \<noteq> LF \<Longrightarrow> rl_lines_apart mem lo (Suc hi)"
  by (auto simp: rl_lines_apart_def less_Suc_eq)

lemma rl_clean_Suc:
  "rl_clean mem lo hi \<Longrightarrow> mem ! hi \<noteq> 0 \<Longrightarrow> mem ! hi \<noteq> SP \<Longrightarrow> rl_clean mem lo (Suc hi)"
  by (auto simp: rl_clean_def less_Suc_eq)

lemma rl_range_one:
  "mem ! k = asc CHR ''/'' \<Longrightarrow> rl_lines_apart mem k (Suc k)"
  "mem ! k = asc CHR ''/'' \<Longrightarrow> rl_clean mem k (Suc k)"
  by (auto simp: rl_lines_apart_def rl_clean_def less_Suc_eq)

definition rl_method_ok :: "ptr \<Rightarrow> mem \<Rightarrow> ngx_http_request \<Rightarrow> bool" where
  "rl_method_ok lo mem r \<longleftrightarrow>
     lo \<le> r_request_start r \<and> r_request_start r \<le> r_method_end r
     \<and> (\<forall>i. r_request_start r \<le> i \<and> i \<le> r_method_end r \<longrightarrow> rl_method_char (mem ! i))
     \<and> mem ! (r_method_end r + 1) = SP"

definition rl_uri_open :: "ptr \<Rightarrow> mem \<Rightarrow> ptr \<Rightarrow> ngx_http_request \<Rightarrow> bool" where
  "rl_uri_open lo mem p r \<longleftrightarrow>
     rl_method_ok lo mem r \<and> r_method_end r + 1 < r_uri_start r \<and> r_uri_start r < p
     \<and> mem ! r_uri_start r = asc CHR ''/''
     \<and> rl_lines_apart mem (r_uri_start r) p
     \<and> (\<not> r_space_in_uri r \<longrightarrow> rl_clean mem (r_uri_start r) p)
     \<and> (r_args_start r \<noteq> NULL \<longrightarrow> r_uri_start r < r_args_start r \<and> r_args_start r \<le> p)
     \<and> (r_uri_ext r \<noteq> NULL \<longrightarrow> r_uri_start r < r_uri_ext r \<and> r_uri_ext r \<le> p)"

definition rl_uri_closed :: "ptr \<Rightarrow> mem \<Rightarrow> ptr \<Rightarrow> ngx_http_request \<Rightarrow> bool" where
  "rl_uri_closed lo mem p r \<longleftrightarrow>
     rl_method_ok lo mem r \<and> r_method_end r + 1 < r_uri_start r
     \<and> r_uri_start r < r_uri_end r \<and> r_uri_end r < p
     \<and> mem ! r_uri_start r = asc CHR ''/''
     \<and> rl_lines_apart mem (r_uri_start r) (r_uri_end r)
     \<and> (\<not> r_space_in_uri r \<longrightarrow> rl_clean mem (r_uri_start r) (r_uri_end r))
     \<and> (r_args_start r \<noteq> NULL \<longrightarrow> r_uri_start r < r_args_start r \<and> r_args_start r \<le> r_uri_end r)
     \<and> (r_uri_ext r \<noteq> NULL \<longrightarrow> r_uri_start r < r_uri_ext r \<and> r_uri_ext r \<le> r_uri_end r)"

text \<open>Before the URI: no argument and no extension has been seen.\<close>

definition rl_before_uri :: "ngx_http_request \<Rightarrow> bool" where
  "rl_before_uri r \<longleftrightarrow> r_args_start r = NULL \<and> r_uri_ext r = NULL \<and> \<not> r_space_in_uri r"

definition rl_schema_ok :: "ptr \<Rightarrow> mem \<Rightarrow> ngx_http_request \<Rightarrow> bool" where
  "rl_schema_ok lo mem r \<longleftrightarrow>
     rl_method_ok lo mem r \<and> rl_before_uri r \<and> r_method_end r + 1 < r_schema_start r
     \<and> r_schema_start r < r_schema_end r \<and> mem ! (r_schema_end r) = asc CHR '':''"

fun rl_inv :: "ptr \<Rightarrow> mem \<Rightarrow> ptr \<Rightarrow> rl_state \<times> ngx_http_request \<Rightarrow> bool" where
  "rl_inv lo mem p (st, r) \<longleftrightarrow>
     0 < lo \<and> lo \<le> p \<and> r_request_end r = NULL \<and>
     (case st of
        rl_sw_start \<Rightarrow> rl_before_uri r
      | rl_sw_method \<Rightarrow> rl_before_uri r \<and> lo \<le> r_request_start r \<and> r_request_start r < p
          \<and> (\<forall>i. r_request_start r \<le> i \<and> i < p \<longrightarrow> rl_method_char (mem ! i))
      | rl_sw_spaces_before_uri \<Rightarrow> rl_before_uri r \<and> rl_method_ok lo mem r \<and> r_method_end r + 1 < p
      | rl_sw_schema \<Rightarrow> rl_before_uri r \<and> rl_method_ok lo mem r
          \<and> r_method_end r + 1 < r_schema_start r \<and> r_schema_start r < p
      | rl_sw_schema_slash \<Rightarrow> rl_schema_ok lo mem r \<and> r_schema_end r + 1 = p
      | rl_sw_schema_slash_slash \<Rightarrow> rl_schema_ok lo mem r \<and> r_schema_end r + 2 = p
          \<and> mem ! (r_schema_end r + 1) = asc CHR ''/''
      | rl_sw_host \<Rightarrow> rl_schema_ok lo mem r \<and> mem ! (r_schema_end r + 1) = asc CHR ''/''
          \<and> r_schema_end r + 3 = r_host_start r \<and> r_host_start r \<le> p
      | rl_sw_port \<Rightarrow> rl_schema_ok lo mem r \<and> mem ! (r_schema_end r + 1) = asc CHR ''/''
          \<and> r_schema_end r + 3 = r_host_start r \<and> r_host_start r \<le> r_host_end r \<and> r_host_end r < p
      | rl_sw_host_http_09 \<Rightarrow> rl_uri_closed lo mem p r
      | rl_sw_after_slash_in_uri \<Rightarrow> rl_uri_open lo mem p r
      | rl_sw_check_uri \<Rightarrow> rl_uri_open lo mem p r
      | rl_sw_check_uri_http_09 \<Rightarrow> rl_uri_closed lo mem p r \<and> rl_lines_apart mem (r_uri_start r) p
      | rl_sw_uri \<Rightarrow> rl_uri_open lo mem p r
      | rl_sw_http_09 \<Rightarrow> rl_uri_closed lo mem p r \<and> rl_lines_apart mem (r_uri_start r) p
      | _ \<Rightarrow> rl_uri_closed lo mem p r)"

fun rl_post :: "ptr \<Rightarrow> mem \<Rightarrow> ptr \<Rightarrow> rl_exit \<times> ngx_http_request \<Rightarrow> bool" where
  "rl_post lo mem p (Rl_return rc, r) \<longleftrightarrow>
     rc = NGX_HTTP_PARSE_INVALID_METHOD \<or> rc = NGX_HTTP_PARSE_INVALID_REQUEST"
| "rl_post lo mem p (Rl_done, r) \<longleftrightarrow>
     mem ! p = LF \<and> rl_uri_closed lo mem (Suc p) r
     \<and> (r_request_end r \<noteq> NULL \<longrightarrow> r_request_end r + 1 = p \<and> r_uri_end r \<le> r_request_end r)"

lemmas rl_state_defs =
  rl_start_def rl_method_def rl_spaces_before_uri_def rl_schema_def rl_schema_slash_def
  rl_schema_slash_slash_def rl_host_def rl_port_def rl_host_http_09_def
  rl_after_slash_in_uri_def rl_check_uri_def rl_check_uri_http_09_def rl_uri_def rl_http_09_def
  rl_expect_def rl_first_major_digit_def rl_major_digit_def rl_first_minor_digit_def
  rl_minor_digit_def rl_spaces_after_digit_def rl_almost_done_def

lemmas rl_inv_defs =
  rl_method_ok_def rl_uri_open_def rl_uri_closed_def rl_before_uri_def rl_schema_ok_def


lemma rl_uri_open_Suc:
  assumes "rl_uri_open lo mem p r" "mem ! p \<noteq> CR" "mem ! p \<noteq> LF"
    and "\<not> r_space_in_uri r \<Longrightarrow> mem ! p \<noteq> 0 \<and> mem ! p \<noteq> SP"
  shows "rl_uri_open lo mem (Suc p) r"
  using assms unfolding rl_uri_open_def
  by (auto intro!: rl_lines_apart_Suc rl_clean_Suc)

lemma rl_uri_open_usual:
  "rl_uri_open lo mem p r \<Longrightarrow> is_usual (mem ! p) \<Longrightarrow> rl_uri_open lo mem (Suc p) r"
  by (rule rl_uri_open_Suc) (auto dest: is_usualD)

lemma rl_uri_close:
  "rl_uri_open lo mem p r \<Longrightarrow> rl_uri_closed lo mem (Suc p) (r\<lparr>r_uri_end := p\<rparr>)"
  by (simp add: rl_uri_open_def rl_uri_closed_def rl_method_ok_def)

lemma rl_uri_frame [simp]:
  "rl_uri_open lo mem p (r\<lparr>r_complex_uri := x\<rparr>) = rl_uri_open lo mem p r"
  "rl_uri_open lo mem p (r\<lparr>r_quoted_uri := x\<rparr>) = rl_uri_open lo mem p r"
  "rl_uri_open lo mem p (r\<lparr>r_plus_in_uri := x\<rparr>) = rl_uri_open lo mem p r"
  by (simp_all add: rl_inv_defs)

abbreviation rl_sat :: "ptr \<Rightarrow> mem \<Rightarrow> ptr \<Rightarrow> rl_action \<Rightarrow> bool" where
  "rl_sat lo mem p a \<equiv> action_sat (rl_inv lo mem (Suc p)) (rl_post lo mem p) a"

abbreviation rl_base :: "ptr \<Rightarrow> ptr \<Rightarrow> ngx_http_request \<Rightarrow> bool" where
  "rl_base lo p r \<equiv> 0 < lo \<and> lo \<le> p \<and> r_request_end r = NULL"

lemma rl_uri_open_args:
  "rl_uri_open lo mem p r \<Longrightarrow> rl_uri_open lo mem p (r\<lparr>r_uri_ext := NULL\<rparr>)"
  "rl_uri_open lo mem (Suc p) r \<Longrightarrow> r_uri_start r < p \<Longrightarrow> rl_uri_open lo mem (Suc p) (r\<lparr>r_uri_ext := Suc p\<rparr>)"
  "rl_uri_open lo mem (Suc p) r \<Longrightarrow> r_uri_start r < p \<Longrightarrow> rl_uri_open lo mem (Suc p) (r\<lparr>r_args_start := Suc p\<rparr>)"
  by (simp_all add: rl_inv_defs)

lemma rl_uri_open_start: "rl_uri_open lo mem p r \<Longrightarrow> r_uri_start r < p"
  by (simp add: rl_uri_open_def)

lemma rl_uri_open_lines:
  "rl_uri_open lo mem p r \<Longrightarrow> mem ! p \<noteq> CR \<Longrightarrow> mem ! p \<noteq> LF \<Longrightarrow> rl_lines_apart mem (r_uri_start r) (Suc p)"
  by (simp add: rl_uri_open_def rl_lines_apart_Suc)

lemma rl_uri_open_reopen:
  assumes "rl_uri_closed lo mem p r" "rl_lines_apart mem (r_uri_start r) p"
    and "mem ! p \<noteq> CR" "mem ! p \<noteq> LF"
  shows "rl_uri_open lo mem (Suc p) (r\<lparr>r_space_in_uri := True\<rparr>)"
  using assms by (auto simp: rl_inv_defs intro!: rl_lines_apart_Suc)

lemma rl_uri_closed_Suc:
  "rl_uri_closed lo mem p r \<Longrightarrow> rl_uri_closed lo mem (Suc p) r"
  by (simp add: rl_uri_closed_def)

lemma rl_uri_closed_frame [simp]:
  "rl_uri_closed lo mem p (r\<lparr>r_http_minor := m\<rparr>) = rl_uri_closed lo mem p r"
  "rl_uri_closed lo mem p (r\<lparr>r_http_major := m\<rparr>) = rl_uri_closed lo mem p r"
  "rl_uri_closed lo mem p (r\<lparr>r_http_protocol_data := q\<rparr>) = rl_uri_closed lo mem p r"
  "rl_uri_closed lo mem p (r\<lparr>r_request_end := q\<rparr>) = rl_uri_closed lo mem p r"
  by (simp_all add: rl_inv_defs)

lemma rl_uri_closed_end: "rl_uri_closed lo mem p r \<Longrightarrow> r_uri_end r < p"
  by (simp add: rl_uri_closed_def)

lemmas rl_uri_open_facts =
  rl_uri_open_usual rl_uri_open_Suc rl_uri_close rl_uri_open_start rl_uri_open_lines

lemma rl_uri_states_sat:
  assumes "rl_base lo p r" and uri: "rl_uri_open lo mem p r"
  shows "rl_sat lo mem p (rl_check_uri p (mem ! p) r)"
    and "rl_sat lo mem p (rl_after_slash_in_uri p (mem ! p) r)"
    and "rl_sat lo mem p (rl_uri p (mem ! p) r)"
  using assms rl_uri_open_facts [OF uri]
  by (simp_all add: rl_check_uri_def rl_after_slash_in_uri_def rl_uri_def rl_uri_open_args)

lemma rl_after_uri_sat:
  assumes "rl_base lo p r" and uri: "rl_uri_closed lo mem p r"
  shows "rl_sat lo mem p (rl_host_http_09 p (mem ! p) r)"
    and "rl_lines_apart mem (r_uri_start r) p \<Longrightarrow> rl_sat lo mem p (rl_check_uri_http_09 p (mem ! p) r)"
    and "rl_lines_apart mem (r_uri_start r) p \<Longrightarrow> rl_sat lo mem p (rl_http_09 p (mem ! p) r)"
  using assms rl_uri_closed_Suc [OF uri] rl_uri_open_reopen [OF uri]
    rl_lines_apart_Suc [of mem "r_uri_start r" p]
  by (simp_all add: rl_host_http_09_def rl_check_uri_http_09_def rl_http_09_def)

lemma rl_version_sat:
  assumes "rl_base lo p r" and uri: "rl_uri_closed lo mem p r"
  shows "st \<in> {rl_sw_http_HT, rl_sw_http_HTT, rl_sw_http_HTTP, rl_sw_first_major_digit} \<Longrightarrow>
      rl_sat lo mem p (rl_expect c st (mem ! p) r)"
    and "rl_sat lo mem p (rl_first_major_digit (mem ! p) r)"
    and "rl_sat lo mem p (rl_major_digit (mem ! p) r)"
    and "rl_sat lo mem p (rl_first_minor_digit (mem ! p) r)"
    and "rl_sat lo mem p (rl_minor_digit (mem ! p) r)"
    and "rl_sat lo mem p (rl_spaces_after_digit (mem ! p) r)"
    and "rl_sat lo mem p (rl_almost_done p (mem ! p) r)"
  using assms rl_uri_closed_Suc [OF uri] rl_uri_closed_end [OF uri]
  by (auto simp: rl_expect_def rl_first_major_digit_def rl_major_digit_def rl_first_minor_digit_def
      rl_minor_digit_def rl_spaces_after_digit_def rl_almost_done_def Let_def)

lemma rl_before_uri_frame [simp]:
  "rl_before_uri (r\<lparr>r_request_start := q\<rparr>) = rl_before_uri r"
  "rl_before_uri (r\<lparr>r_method_end := q\<rparr>) = rl_before_uri r"
  "rl_before_uri (r\<lparr>r_method := c\<rparr>) = rl_before_uri r"
  "rl_before_uri (r\<lparr>r_schema_start := q\<rparr>) = rl_before_uri r"
  by (simp_all add: rl_before_uri_def)

lemma rl_method_ok_frame [simp]:
  "rl_method_ok lo mem (r\<lparr>r_schema_start := q\<rparr>) = rl_method_ok lo mem r"
  "rl_method_ok lo mem (r\<lparr>r_method := c\<rparr>) = rl_method_ok lo mem r"
  by (simp_all add: rl_method_ok_def)

lemma rl_method_sat:
  assumes "rl_inv lo mem p (rl_sw_method, r)"
  shows "rl_sat lo mem p (rl_method mem p (mem ! p) r)"
  using assms by (auto simp: rl_method_def rl_method_ok_def rl_method_char_def less_Suc_eq Let_def not_less)

lemma rl_start_sat:
  assumes "rl_inv lo mem p (rl_sw_start, r)"
  shows "rl_sat lo mem p (rl_start p (mem ! p) r)"
  using assms by (auto simp: rl_start_def rl_method_char_def less_Suc_eq Let_def not_less)

lemma rl_uri_open_first:
  "rl_method_ok lo mem r \<Longrightarrow> rl_before_uri r \<Longrightarrow> r_method_end r + 1 < p \<Longrightarrow> mem ! p = asc CHR ''/'' \<Longrightarrow>
   rl_uri_open lo mem (Suc p) (r\<lparr>r_uri_start := p\<rparr>)"
  using rl_range_one [of mem p] by (simp add: rl_inv_defs)

lemma rl_spaces_before_uri_sat:
  assumes "rl_inv lo mem p (rl_sw_spaces_before_uri, r)"
  shows "rl_sat lo mem p (rl_spaces_before_uri p (mem ! p) r)"
  using assms rl_uri_open_first [of lo mem r p] by (simp add: rl_spaces_before_uri_def Let_def)

lemma rl_schema_sat:
  shows "rl_inv lo mem p (rl_sw_schema, r) \<Longrightarrow> rl_sat lo mem p (rl_schema p (mem ! p) r)"
    and "rl_inv lo mem p (rl_sw_schema_slash, r) \<Longrightarrow> rl_sat lo mem p (rl_schema_slash (mem ! p) r)"
    and "rl_inv lo mem p (rl_sw_schema_slash_slash, r) \<Longrightarrow> rl_sat lo mem p (rl_schema_slash_slash p (mem ! p) r)"
  by (auto simp: rl_schema_def rl_schema_slash_def rl_schema_slash_slash_def Let_def rl_inv_defs)

lemma rl_uri_of_schema:
  assumes "rl_schema_ok lo mem r" "mem ! (r_schema_end r + 1) = asc CHR ''/''" "r_schema_end r + 2 < p"
  shows "rl_uri_closed lo mem p (r\<lparr>r_uri_start := Suc (r_schema_end r), r_uri_end := Suc (Suc (r_schema_end r))\<rparr>)"
  using assms rl_range_one [of mem "Suc (r_schema_end r)"] by (simp add: rl_inv_defs)

lemma rl_schema_ok_frame [simp]:
  "rl_schema_ok lo mem (r\<lparr>r_host_end := q\<rparr>) = rl_schema_ok lo mem r"
  "rl_schema_ok lo mem (r\<lparr>r_port_end := q\<rparr>) = rl_schema_ok lo mem r"
  by (simp_all add: rl_inv_defs)

lemma rl_schema_okD:
  "rl_schema_ok lo mem r \<Longrightarrow> rl_method_ok lo mem r \<and> rl_before_uri r \<and> r_method_end r + 1 < r_schema_end r"
  by (simp add: rl_inv_defs)

lemma rl_host_sat:
  assumes "rl_inv lo mem p (rl_sw_host, r)"
  shows "rl_sat lo mem p (rl_host p (mem ! p) r)"
  using assms rl_uri_open_first [of lo mem "r\<lparr>r_host_end := p\<rparr>" p]
    rl_uri_of_schema [of lo mem "r\<lparr>r_host_end := p\<rparr>" "Suc p"] rl_schema_okD [of lo mem "r\<lparr>r_host_end := p\<rparr>"]
  by (simp add: rl_host_def Let_def)

lemma rl_port_sat:
  assumes "rl_inv lo mem p (rl_sw_port, r)"
  shows "rl_sat lo mem p (rl_port p (mem ! p) r)"
  using assms rl_uri_open_first [of lo mem "r\<lparr>r_port_end := p\<rparr>" p]
    rl_uri_of_schema [of lo mem "r\<lparr>r_port_end := p\<rparr>" "Suc p"] rl_schema_okD [of lo mem "r\<lparr>r_port_end := p\<rparr>"]
  by (simp add: rl_port_def Let_def)

interpretation rl_inv: scanner_inv rl_step "rl_inv lo" "rl_post lo"
proof unfold_locales
  fix m :: mem and p :: ptr and s :: "rl_state \<times> ngx_http_request"
  assume inv: "rl_inv lo m p s"
  obtain st r where s: "s = (st, r)" by (cases s)
  show "rl_sat lo m p (rl_step m p s)"
    using inv unfolding s
    by (cases st) (simp_all add: Let_def rl_start_sat rl_method_sat rl_spaces_before_uri_sat rl_schema_sat
      rl_host_sat rl_port_sat rl_uri_states_sat rl_after_uri_sat rl_version_sat)
qed

section \<open>A parse can be resumed\<close>

definition rl_load :: "ngx_http_request \<Rightarrow> rl_state \<times> ngx_http_request" where
  "rl_load r = (enum_at rl_states (r_state r), r)"

fun rl_store :: "rl_state \<times> ngx_http_request \<Rightarrow> ngx_http_request" where
  "rl_store (st, r) = r\<lparr>r_state := enum_index rl_states st\<rparr>"

fun rl_leave :: "ptr \<Rightarrow> ngx_buf \<Rightarrow> rl_exit \<times> ngx_http_request \<Rightarrow> ngx_rc \<times> ngx_buf \<times> ngx_http_request"
where
  "rl_leave p b (Rl_done, r) = rl_finish p b r"
| "rl_leave p b (Rl_return rc, r) = (rc, b, r)"

lemma request_line_run_parser:
  "ngx_http_parse_request_line mem b r = run_parser rl_step rl_load rl_store rl_leave mem b r"
  unfolding ngx_http_parse_request_line_def run_parser_def rl_load_def
  by (auto split: action.splits rl_exit.splits)

fun rl_exits :: "rl_exit \<times> ngx_http_request \<Rightarrow> bool" where
  "rl_exits (Rl_done, r) = True"
| "rl_exits (Rl_return rc, r) \<longleftrightarrow>
     rc \<in> {NGX_HTTP_PARSE_INVALID_METHOD, NGX_HTTP_PARSE_INVALID_REQUEST}"

interpretation rl_res: resumable rl_step
  "\<lambda>k. map_prod id (\<lambda>r. r\<lparr>r_state := k\<rparr>)" "\<lambda>k. map_prod id (\<lambda>r. r\<lparr>r_state := k\<rparr>)"
  rl_load rl_store rl_leave "same_outcome (\<lambda>r. r\<lparr>r_state := 0\<rparr>)" rl_exits
proof (unfold_locales, goal_cases)
  case (1 m p k s)
  obtain st r where s: "s = (st, r)" by (cases s)
  show ?case
    unfolding s
    by (cases st; cases r)
      (simp_all add: rl_state_defs Let_def map_action_if split del: if_split cong: if_cong)
next
  case (2 s)
  then show ?case by (cases s) (auto simp: rl_load_def)
next
  case (3 k s)
  then show ?case by (cases s) simp
next
  case (4 m p s x)
  obtain st r where s: "s = (st, r)" by (cases s)
  from 4 show ?case
    unfolding s by (cases st) (auto simp: rl_state_defs Let_def split: if_splits)
next
  case (5 p b e x)
  then show ?case by (cases x rule: rl_exits.cases) (auto simp: rl_finish_def Let_def)
next
  case (6 x p b)
  then show ?case by (cases x rule: rl_exits.cases) (auto simp: rl_finish_def Let_def)
next
  case (7 x p b i k)
  then show ?case
    by (cases x rule: rl_exits.cases) (auto simp: rl_finish_def Let_def same_outcome_def)
qed (simp)

definition rl_fresh :: "ngx_http_request \<Rightarrow> bool" where
  "rl_fresh r \<longleftrightarrow> r_state r = 0 \<and> r_request_end r = NULL \<and> r_args_start r = NULL
     \<and> r_uri_ext r = NULL \<and> \<not> r_space_in_uri r"

text \<open>A request line to evaluate the theorems on.\<close>

definition rl_example :: mem where
  "rl_example = 0 # bytes ''GET /a?b HTTP/1.1'' @ [CR, LF]"

definition rl_example_buf :: ngx_buf where
  "rl_example_buf = \<lparr>b_start = 1, b_pos = 1, b_last = 20\<rparr>"

lemma rl_fresh_zero: "rl_fresh ngx_http_request_zero" by (simp add: rl_fresh_def ngx_http_request_zero_def)

lemma rl_example_OK: "fst (ngx_http_parse_request_line rl_example rl_example_buf ngx_http_request_zero) = NGX_OK"
  by code_simp

text \<open>
  C1. Receiving a request line in pieces makes no difference.  The bytes up to \<open>b_last b\<close> are
  parsed, and nothing is known of the bytes after them (\<open>m1\<close> and \<open>m2\<close> may differ there); if
  the parser asks for more, it is called again when the bytes up to \<open>e\<close> have arrived.  The
  outcome is that of one call on the whole buffer.
\<close>

theorem request_line_resume:
  assumes "take (b_last b) m1 = take (b_last b) m2"
    and "b_pos b \<le> b_last b" and "b_last b \<le> e"
    and "ngx_http_parse_request_line m1 b r = (rc, b', r')"
  shows "same_outcome (\<lambda>r. r\<lparr>r_state := 0\<rparr>)
    (ngx_http_parse_request_line m2 (b\<lparr>b_last := e\<rparr>) r)
    (if rc = NGX_AGAIN then ngx_http_parse_request_line m2 (b'\<lparr>b_last := e\<rparr>) r'
     else (rc, b'\<lparr>b_last := e\<rparr>, r'))"
  using assms(4) unfolding request_line_run_parser by (rule rl_res.parse_resume [OF assms(1-3)])

theorem request_line_resume_witness:
  "same_outcome (\<lambda>r. r\<lparr>r_state := 0\<rparr>)
    (ngx_http_parse_request_line rl_example rl_example_buf ngx_http_request_zero)
    (case ngx_http_parse_request_line (take 9 rl_example) (rl_example_buf\<lparr>b_last := 9\<rparr>)
       ngx_http_request_zero of
       (rc, b', r') \<Rightarrow> ngx_http_parse_request_line rl_example (b'\<lparr>b_last := 20\<rparr>) r')"
proof -
  let ?b = "rl_example_buf\<lparr>b_last := 9\<rparr>"
  have "take (b_last ?b) (take 9 rl_example) = take (b_last ?b) rl_example"
    "b_pos ?b \<le> b_last ?b" "b_last ?b \<le> 20" "?b\<lparr>b_last := 20\<rparr> = rl_example_buf"
    by (simp_all add: rl_example_buf_def)
  moreover have "fst (ngx_http_parse_request_line (take 9 rl_example) ?b ngx_http_request_zero) = NGX_AGAIN"
    by code_simp
  ultimately show ?thesis
    using request_line_resume [of ?b "take 9 rl_example" rl_example 20 ngx_http_request_zero]
    by (auto split: prod.splits)
qed

section \<open>The methods\<close>

definition rl_method_table :: "(byte list \<times> ngx_uint) list" where
  "rl_method_table =
    [(bytes ''GET'', NGX_HTTP_GET), (bytes ''HEAD'', NGX_HTTP_HEAD), (bytes ''POST'', NGX_HTTP_POST),
     (bytes ''PUT'', NGX_HTTP_PUT), (bytes ''DELETE'', NGX_HTTP_DELETE), (bytes ''MKCOL'', NGX_HTTP_MKCOL),
     (bytes ''COPY'', NGX_HTTP_COPY), (bytes ''MOVE'', NGX_HTTP_MOVE), (bytes ''OPTIONS'', NGX_HTTP_OPTIONS),
     (bytes ''PROPFIND'', NGX_HTTP_PROPFIND), (bytes ''PROPPATCH'', NGX_HTTP_PROPPATCH),
     (bytes ''LOCK'', NGX_HTTP_LOCK), (bytes ''UNLOCK'', NGX_HTTP_UNLOCK), (bytes ''PATCH'', NGX_HTTP_PATCH),
     (bytes ''TRACE'', NGX_HTTP_TRACE)]"


lemma rl_method_code_table:
  assumes "(name, c) \<in> set rl_method_table"
  shows "rl_method_code name 0 (length name) old = c"
  using assms
  by (simp only: rl_method_table_def list.set insert_iff empty_iff prod.inject)
    (elim disjE conjE FalseE, simp_all add: rl_method_code_def ngx_strN_cmp_defs)

lemma rl_method_code_other:
  assumes "name \<notin> fst ` set rl_method_table"
  shows "rl_method_code name 0 (length name) old = old"
proof (rule ccontr)
  assume ne: "rl_method_code name 0 (length name) old \<noteq> old"
  from ne have "length name \<in> {3, 4, 5, 6, 7, 8, 9}"
    by (auto simp: rl_method_code_def split: if_splits)
  then show False
    using ne assms unfolding length_numeral_iff insert_iff empty_iff
    by (elim disjE exE FalseE) (auto simp: rl_method_code_def rl_method_table_def ngx_strN_cmp_defs Let_def 
       split: if_splits)
qed

definition rl_method_named :: "byte list \<Rightarrow> ngx_uint \<Rightarrow> ngx_uint" where
  "rl_method_named name old = (case map_of rl_method_table name of Some c \<Rightarrow> c | None \<Rightarrow> old)"

lemma rl_method_code_named:
  assumes "\<And>i. i < length name \<Longrightarrow> mem ! (m + i) = name ! i"
  shows "rl_method_code mem m (length name) old = rl_method_named name old"
proof -
  have "rl_method_code mem m (length name) old = rl_method_code name 0 (length name) old"
    using assms by (intro rl_method_code_shift) simp
  also have "\<dots> = rl_method_named name old"
  proof (cases "map_of rl_method_table name")
    case None
    then have "name \<notin> fst ` set rl_method_table" by (simp add: map_of_eq_None_iff)
    with None show ?thesis by (simp add: rl_method_named_def rl_method_code_other)
  next
    case (Some c)
    then show ?thesis by (simp add: rl_method_named_def rl_method_code_table map_of_SomeD)
  qed
  finally show ?thesis .
qed

section \<open>What a successful parse leaves in the request\<close>

lemma rl_finish_OK:
  assumes "rl_finish p b r = (rc, b', r')"
  shows "b' = b\<lparr>b_pos := p + 1\<rparr>"
    and "r' = r\<lparr>r_request_end := (if r_request_end r = NULL then p else r_request_end r),
       r_http_version := ucast (r_http_major r) * 1000 + ucast (r_http_minor r), r_state := 0\<rparr>"
  using assms by (auto simp: rl_finish_def Let_def enum_index_def rl_states_def split: if_splits)

lemma request_line_post:
  assumes "rl_fresh r" "NULL < b_pos b"
    and parse: "ngx_http_parse_request_line mem b r = (rc, b', r')"
    and rc: "rc = NGX_OK \<or> rc = NGX_HTTP_PARSE_INVALID_09_METHOD"
  obtains q r1 where "b_pos b \<le> q" "q < b_last b" "rl_post (b_pos b) mem q (Rl_done, r1)"
    "rl_finish q b r1 = (rc, b', r')"
proof -
  have inv: "rl_inv (b_pos b) mem (b_pos b) (rl_load r)"
    using assms(1,2) by (simp add: rl_fresh_def rl_load_def enum_at_def rl_states_def rl_before_uri_def)
  show ?thesis
  proof (cases "scan rl_step mem (b_pos b) (b_last b) (rl_load r)")
    case (Cont x)
    then show ?thesis
      using parse rc by (auto simp: request_line_run_parser run_parser_def split: prod.splits)
  next
    case (Stop x)
    then obtain q ex r1 where x: "x = (q, ex, r1)" by (cases x) auto
    from rl_inv.scan_post [OF inv Stop [unfolded x]]
    have post: "b_pos b \<le> q" "q < b_last b" "rl_post (b_pos b) mem q (ex, r1)" by simp_all
    have leave: "rl_leave q b (ex, r1) = (rc, b', r')"
      using parse Stop x by (simp add: request_line_run_parser run_parser_def)
    then have "ex = Rl_done" using post rc by (cases ex) auto
    with post leave show ?thesis by (intro that [of q r1]) simp_all
  qed
qed

text \<open>
  C2. The pointers into the line.  After a successful parse of a request line by a fresh
  request, the method, the URI and the end of the request lie in the bytes parsed in this
  order, none of them is empty, and the arguments and the extension, where there are any, lie
  inside the URI.
\<close>

theorem request_line_pointers:
  assumes "rl_fresh r" and "NULL < b_pos b"
    and "ngx_http_parse_request_line mem b r = (NGX_OK, b', r')"
  shows "b_pos b \<le> r_request_start r' \<and> r_request_start r' \<le> r_method_end r'
    \<and> r_method_end r' + 1 < r_uri_start r' \<and> r_uri_start r' < r_uri_end r'
    \<and> r_uri_end r' \<le> r_request_end r' \<and> r_request_end r' < b_pos b' \<and> b_pos b' \<le> b_last b
    \<and> (r_args_start r' = NULL \<or> r_uri_start r' < r_args_start r' \<and> r_args_start r' \<le> r_uri_end r')
    \<and> (r_uri_ext r' = NULL \<or> r_uri_start r' < r_uri_ext r' \<and> r_uri_ext r' \<le> r_uri_end r')"
proof -
  have "NGX_OK = NGX_OK \<or> NGX_OK = NGX_HTTP_PARSE_INVALID_09_METHOD" by simp
  from request_line_post [OF assms this] obtain q r1 where
    q: "q < b_last b" and post: "rl_post (b_pos b) mem q (Rl_done, r1)"
    and fin: "rl_finish q b r1 = (NGX_OK, b', r')" by blast
  have "rl_uri_closed (b_pos b) mem (Suc q) r1"
    and "r_request_end r1 \<noteq> NULL \<Longrightarrow> r_request_end r1 + 1 = q \<and> r_uri_end r1 \<le> r_request_end r1"
    using post by simp_all
  then show ?thesis
    using q unfolding rl_finish_OK [OF fin]
    by (auto simp: rl_uri_closed_def rl_method_ok_def)
qed

theorem request_line_pointers_witness:
  "case ngx_http_parse_request_line rl_example rl_example_buf ngx_http_request_zero of (rc, b', r') \<Rightarrow>
     rc = NGX_OK \<and> r_uri_start r' < r_uri_end r' \<and> r_uri_end r' \<le> r_request_end r' \<and> r_request_end r' < b_pos b'"
proof -
  obtain b' r' where p: "ngx_http_parse_request_line rl_example rl_example_buf ngx_http_request_zero = (NGX_OK, b', r')"
    using rl_example_OK by (cases "ngx_http_parse_request_line rl_example rl_example_buf ngx_http_request_zero") auto
  have "NULL < b_pos rl_example_buf" by (simp add: rl_example_buf_def)
  from request_line_pointers [OF rl_fresh_zero this p] p show ?thesis by simp
qed

text \<open>
  C3. What is accepted.  After a successful parse the method consists of upper-case letters
  and underscores and a space follows it, the URI begins with a slash and spans no line break,
  the URI has no NUL and no space unless the flag \<open>space_in_uri\<close> is set, and the last byte
  consumed is the line feed.
\<close>

theorem request_line_grammar:
  assumes "rl_fresh r" and "NULL < b_pos b"
    and "ngx_http_parse_request_line mem b r = (NGX_OK, b', r')"
  shows "(\<forall>i. r_request_start r' \<le> i \<and> i \<le> r_method_end r' \<longrightarrow> rl_method_char (mem ! i))
    \<and> mem ! (r_method_end r' + 1) = SP
    \<and> mem ! r_uri_start r' = asc CHR ''/''
    \<and> (\<forall>i. r_uri_start r' \<le> i \<and> i < r_uri_end r' \<longrightarrow> mem ! i \<noteq> CR \<and> mem ! i \<noteq> LF)
    \<and> (\<not> r_space_in_uri r' \<longrightarrow>
        (\<forall>i. r_uri_start r' \<le> i \<and> i < r_uri_end r' \<longrightarrow> mem ! i \<noteq> 0 \<and> mem ! i \<noteq> SP))
    \<and> mem ! (b_pos b' - 1) = LF"
proof -
  have "NGX_OK = NGX_OK \<or> NGX_OK = NGX_HTTP_PARSE_INVALID_09_METHOD" by simp
  from request_line_post [OF assms this] obtain q r1 where
    post: "rl_post (b_pos b) mem q (Rl_done, r1)"
    and fin: "rl_finish q b r1 = (NGX_OK, b', r')" by blast
  from post have "rl_uri_closed (b_pos b) mem (Suc q) r1" and "mem ! q = LF" by simp_all
  then show ?thesis
    unfolding rl_finish_OK [OF fin]
    by (simp add: rl_uri_closed_def rl_method_ok_def rl_lines_apart_def rl_clean_def)
qed

theorem request_line_grammar_witness:
  "case ngx_http_parse_request_line rl_example rl_example_buf ngx_http_request_zero of (rc, b', r') \<Rightarrow>
     rc = NGX_OK \<and> rl_example ! (r_method_end r' + 1) = SP \<and> rl_example ! r_uri_start r' = asc CHR ''/''"
proof -
  obtain b' r' where p: "ngx_http_parse_request_line rl_example rl_example_buf ngx_http_request_zero = (NGX_OK, b', r')"
    using rl_example_OK by (cases "ngx_http_parse_request_line rl_example rl_example_buf ngx_http_request_zero") auto
  have "NULL < b_pos rl_example_buf" by (simp add: rl_example_buf_def)
  from request_line_grammar [OF rl_fresh_zero this p] p show ?thesis by simp
qed

text \<open>
  The flag \<open>space_in_uri\<close> matters: after a space in the URI the states \<open>sw_check_uri_http_09\<close> and
  \<open>sw_http_09\<close> take any character as a character of the URI, NUL included, where the other
  states of the URI reject NUL.
\<close>

definition rl_nul_example :: mem where
  "rl_nul_example = 0 # bytes ''GET /a '' @ [0] @ bytes ''b HTTP/1.0'' @ [CR, LF]"

theorem request_line_nul_accepted:
  "case ngx_http_parse_request_line rl_nul_example \<lparr>b_start = 1, b_pos = 1, b_last = 21\<rparr>
      ngx_http_request_zero of (rc, b', r') \<Rightarrow>
     rc = NGX_OK \<and> b_pos b' = 21 \<and> r_uri_start r' = 5 \<and> r_uri_end r' = 10 \<and> rl_nul_example ! 8 = 0"
  by code_simp

section \<open>Printing a request line and parsing it\<close>

definition rl_request_line :: "byte list \<Rightarrow> byte list \<Rightarrow> byte \<Rightarrow> byte \<Rightarrow> byte list" where
  "rl_request_line name path major minor =
     name @ [SP] @ path @ [SP] @ bytes ''HTTP/'' @ [major, asc CHR ''.'', minor, CR, LF]"

lemma scan_rl_name:
  assumes "s + n < e" "\<And>i. i \<le> n \<Longrightarrow> rl_method_char (mem ! (s + i))"
  shows "scan rl_step mem s e (rl_sw_start, r) =
    scan rl_step mem (Suc (s + n)) e (rl_sw_method, r\<lparr>r_request_start := s\<rparr>)"
proof -
  have "scan rl_step mem s e (rl_sw_start, r) = scan rl_step mem (Suc s) e (rl_sw_method, r\<lparr>r_request_start := s\<rparr>)"
    using assms(1) assms(2) [of 0]
    by (intro scan_Cont) (auto simp: rl_start_def rl_method_char_def Let_def)
  also have "\<dots> = scan rl_step mem (Suc s + n) e (rl_sw_method, r\<lparr>r_request_start := s\<rparr>)"
  proof (rule scan_run)
    fix i assume "i < n"
    then show "rl_step mem (Suc s + i) (rl_sw_method, r\<lparr>r_request_start := s\<rparr>) = Cont (rl_sw_method, r\<lparr>r_request_start := s\<rparr>)"
      using assms(2) [of "Suc i"] by (auto simp: rl_method_def rl_method_char_def Let_def)
  qed (use assms(1) in simp)
  finally show ?thesis by simp
qed

text \<open>
  What the characters of a URI after its first slash mean to the parser.  A URI has none of the bytes
  NUL, space, CR and LF.  Its plain part ends before the first \<open>%\<close>, \<open>?\<close> or \<open>#\<close>, and before a dot or a
  slash that follows a slash (or the plus signs after one); \<open>slash\<close> says whether the part begins
  after a slash.
\<close>

definition rl_uri_char :: "byte \<Rightarrow> bool" where
  "rl_uri_char c \<longleftrightarrow> c \<noteq> 0 \<and> c \<noteq> SP \<and> c \<noteq> CR \<and> c \<noteq> LF"

fun rl_plain :: "bool \<Rightarrow> byte list \<Rightarrow> byte list" where
  "rl_plain slash [] = []"
| "rl_plain slash (c # cs) =
    (if c = asc CHR ''%'' \<or> c = asc CHR ''?'' \<or> c = asc CHR ''#'' \<or>
        slash \<and> (c = asc CHR ''.'' \<or> c = asc CHR ''/'') then []
     else c # rl_plain (c = asc CHR ''/'' \<or> slash \<and> c = asc CHR ''+'') cs)"

text \<open>The extension: the last dot or slash of the plain part decides.\<close>

definition rl_ext :: "ptr \<Rightarrow> byte list \<Rightarrow> ptr \<Rightarrow> ptr" where
  "rl_ext p plain old =
    (let t = takeWhile (\<lambda>c. c \<noteq> asc CHR ''.'' \<and> c \<noteq> asc CHR ''/'') (rev plain) in
     case drop (length t) (rev plain) of
       [] \<Rightarrow> old
     | c # _ \<Rightarrow> if c = asc CHR ''.'' then p + length plain - length t else NULL)"

text \<open>
  The marks that the URI leaves in the request: the extension, a plus sign, and what the first character
  after the plain part says: arguments, a quoted URI, or a complex one, which a later \<open>#\<close> makes it, too.
\<close>

definition rl_uri_marks :: "bool \<Rightarrow> ptr \<Rightarrow> byte list \<Rightarrow> ngx_http_request \<Rightarrow> ngx_http_request" where
  "rl_uri_marks slash p uri r =
    (let plain = rl_plain slash uri; rest = drop (length plain) uri in
     r\<lparr>r_uri_ext := rl_ext p plain (r_uri_ext r),
       r_plus_in_uri := (r_plus_in_uri r \<or> asc CHR ''+'' \<in> set plain),
       r_args_start := (if rest \<noteq> [] \<and> hd rest = asc CHR ''?'' then p + length plain + 1 else r_args_start r),
       r_quoted_uri := (r_quoted_uri r \<or> rest \<noteq> [] \<and> hd rest = asc CHR ''%''),
       r_complex_uri := (r_complex_uri r \<or>
         rest \<noteq> [] \<and> (hd rest \<in> {asc CHR ''.'', asc CHR ''/'', asc CHR ''#''} \<or> asc CHR ''#'' \<in> set (tl rest)))\<rparr>)"

lemma rl_ext_Nil [simp]: "rl_ext p [] old = old"
  by (simp add: rl_ext_def)

lemma rl_ext_mark:
  assumes "rev plain = ys @ z # zs" "\<forall>y \<in> set ys. y \<noteq> asc CHR ''.'' \<and> y \<noteq> asc CHR ''/''" "z = asc CHR ''.'' \<or> z = asc CHR ''/''"
  shows "rl_ext p plain old = (if z = asc CHR ''.'' then p + length plain - length ys else NULL)"
proof -
  have t: "takeWhile (\<lambda>c. c \<noteq> asc CHR ''.'' \<and> c \<noteq> asc CHR ''/'') (ys @ z # zs) = ys" using assms(2,3) by (subst takeWhile_append2) auto
  show ?thesis unfolding rl_ext_def Let_def assms(1) t by simp
qed

lemma rl_ext_no_mark:
  assumes "\<forall>y \<in> set plain. y \<noteq> asc CHR ''.'' \<and> y \<noteq> asc CHR ''/''"
  shows "rl_ext p plain old = old"
proof -
  have t: "takeWhile (\<lambda>c. c \<noteq> asc CHR ''.'' \<and> c \<noteq> asc CHR ''/'') (rev plain) = rev plain" using assms by simp
  show ?thesis unfolding rl_ext_def Let_def t by simp
qed

lemma rl_ext_Cons:
  "rl_ext p (c # cs) old =
    rl_ext (Suc p) cs (if c = asc CHR ''.'' then Suc p else if c = asc CHR ''/'' then NULL else old)"
proof (cases "\<exists>x \<in> set (rev cs). x = asc CHR ''.'' \<or> x = asc CHR ''/''")
  case True
  then obtain ys z zs where r: "rev cs = ys @ z # zs" "z = asc CHR ''.'' \<or> z = asc CHR ''/''"
    "\<forall>y \<in> set ys. \<not> (y = asc CHR ''.'' \<or> y = asc CHR ''/'')" using split_list_first_prop [OF True] by blast
  then have f: "rev (c # cs) = ys @ z # zs @ [c]" "\<forall>y \<in> set ys. y \<noteq> asc CHR ''.'' \<and> y \<noteq> asc CHR ''/''" by simp_all
  show ?thesis unfolding rl_ext_mark [OF f r(2)] rl_ext_mark [OF r(1) f(2) r(2)] by simp
next
  case False
  then have n: "\<forall>y \<in> set cs. y \<noteq> asc CHR ''.'' \<and> y \<noteq> asc CHR ''/''" by auto
  show ?thesis
  proof (cases "c = asc CHR ''.'' \<or> c = asc CHR ''/''")
    case True
    have "\<forall>y \<in> set (rev cs). y \<noteq> asc CHR ''.'' \<and> y \<noteq> asc CHR ''/''" using n by simp
    then have "rl_ext p (c # cs) old = (if c = asc CHR ''.'' then p + length (c # cs) - length (rev cs) else NULL)"
      by (intro rl_ext_mark [where zs = "[]"] True) simp_all
    then show ?thesis using rl_ext_no_mark [OF n] True by auto
  next
    case False
    then show ?thesis using n by (simp add: rl_ext_no_mark)
  qed
qed

text \<open>One more character of the URI.\<close>

lemma rl_marks_Nil: "rl_uri_marks slash p [] r = r"
  by (simp add: rl_uri_marks_def)

lemma rl_marks_stop:
  assumes "c = asc CHR ''%'' \<or> c = asc CHR ''?'' \<or> c = asc CHR ''#'' \<or> slash \<and> (c = asc CHR ''.'' \<or> c = asc CHR ''/'')"
  shows "rl_uri_marks slash p (c # cs) r =
    (let r = (if c = asc CHR ''?'' then r\<lparr>r_args_start := Suc p\<rparr> else if c = asc CHR ''%'' then r\<lparr>r_quoted_uri := True\<rparr>
              else r\<lparr>r_complex_uri := True\<rparr>)
     in if asc CHR ''#'' \<in> set cs then r\<lparr>r_complex_uri := True\<rparr> else r)"
  using assms by (auto simp: rl_uri_marks_def Let_def)

lemma rl_marks_plain:
  assumes "\<not> (c = asc CHR ''%'' \<or> c = asc CHR ''?'' \<or> c = asc CHR ''#'' \<or> slash \<and> (c = asc CHR ''.'' \<or> c = asc CHR ''/''))"
  shows "rl_uri_marks slash p (c # cs) r =
    rl_uri_marks (c = asc CHR ''/'' \<or> slash \<and> c = asc CHR ''+'') (Suc p) cs
      (r\<lparr>r_uri_ext := (if c = asc CHR ''.'' then Suc p else if c = asc CHR ''/'' then NULL else r_uri_ext r),
         r_plus_in_uri := (r_plus_in_uri r \<or> c = asc CHR ''+'')\<rparr>)"
proof -
  have e: "rl_plain slash (c # cs) = c # rl_plain (c = asc CHR ''/'' \<or> slash \<and> c = asc CHR ''+'') cs"
    using assms by (simp only: rl_plain.simps if_False)
  show ?thesis unfolding rl_uri_marks_def Let_def e rl_ext_Cons by (cases r) auto
qed

lemma scan_rl_rest:
  assumes "p + length cs < e" "\<And>i. i < length cs \<Longrightarrow> mem ! (p + i) = cs ! i" "list_all rl_uri_char cs" "mem ! (p + length cs) = SP"
  shows "scan rl_step mem p e (rl_sw_uri, r) =
    scan rl_step mem (Suc (p + length cs)) e (rl_sw_http_09,
      (if asc CHR ''#'' \<in> set cs then r\<lparr>r_complex_uri := True\<rparr> else r)\<lparr>r_uri_end := p + length cs\<rparr>)"
  using assms
proof (induction cs arbitrary: p r)
  case Nil
  then show ?case by (simp add: rl_uri_def is_usual_iff)
next
  case (Cons c cs)
  have c: "mem ! p = c" "rl_uri_char c" using Cons.prems(2) [of 0] Cons.prems(3) by simp_all
  have m: "mem ! (Suc p + i) = cs ! i" if "i < length cs" for i using Cons.prems(2) [of "Suc i"] that by simp
  have "rl_step mem p (rl_sw_uri, r) = Cont (rl_sw_uri, if c = asc CHR ''#'' then r\<lparr>r_complex_uri := True\<rparr> else r)"
    using c by (auto simp: rl_uri_def rl_uri_char_def is_usual_iff)
  then have "scan rl_step mem p e (rl_sw_uri, r) =
      scan rl_step mem (Suc p) e (rl_sw_uri, if c = asc CHR ''#'' then r\<lparr>r_complex_uri := True\<rparr> else r)"
    using Cons.prems(1) by simp
  also have "\<dots> = scan rl_step mem (Suc (Suc p + length cs)) e (rl_sw_http_09,
      (if asc CHR ''#'' \<in> set cs then (if c = asc CHR ''#'' then r\<lparr>r_complex_uri := True\<rparr> else r)\<lparr>r_complex_uri := True\<rparr>
       else if c = asc CHR ''#'' then r\<lparr>r_complex_uri := True\<rparr> else r)\<lparr>r_uri_end := Suc p + length cs\<rparr>)"
    by (rule Cons.IH) (use Cons.prems m in simp_all)
  finally show ?case by (cases r) auto
qed

lemma scan_rl_uri:
  assumes "p + length cs < e" "\<And>i. i < length cs \<Longrightarrow> mem ! (p + i) = cs ! i" "list_all rl_uri_char cs" "mem ! (p + length cs) = SP"
  shows "\<exists>st \<in> {rl_sw_check_uri_http_09, rl_sw_http_09}.
    scan rl_step mem p e (if slash then rl_sw_after_slash_in_uri else rl_sw_check_uri, r) =
    scan rl_step mem (Suc (p + length cs)) e (st, (rl_uri_marks slash p cs r)\<lparr>r_uri_end := p + length cs\<rparr>)"
  using assms
proof (induction cs arbitrary: p r slash)
  case Nil
  then show ?case by (cases slash) (simp_all add: rl_after_slash_in_uri_def rl_check_uri_def is_usual_iff rl_marks_Nil)
next
  case (Cons c cs)
  let ?st = "\<lambda>slash. if slash then rl_sw_after_slash_in_uri else rl_sw_check_uri"
  have c: "mem ! p = c" "rl_uri_char c" using Cons.prems(2) [of 0] Cons.prems(3) by simp_all
  have m: "mem ! (Suc p + i) = cs ! i" if "i < length cs" for i using Cons.prems(2) [of "Suc i"] that by simp
  have pr: "Suc p + length cs < e" "list_all rl_uri_char cs" "mem ! (Suc p + length cs) = SP" using Cons.prems by simp_all
  show ?case
  proof (cases "c = asc CHR ''%'' \<or> c = asc CHR ''?'' \<or> c = asc CHR ''#'' \<or> slash \<and> (c = asc CHR ''.'' \<or> c = asc CHR ''/'')")
    case True
    let ?r = "if c = asc CHR ''?'' then r\<lparr>r_args_start := Suc p\<rparr> else if c = asc CHR ''%'' then r\<lparr>r_quoted_uri := True\<rparr>
              else r\<lparr>r_complex_uri := True\<rparr>"
    have "rl_step mem p (?st slash, r) = Cont (rl_sw_uri, ?r)"
      using True c by (cases slash) (auto simp: rl_after_slash_in_uri_def rl_check_uri_def is_usual_iff)
    then have "scan rl_step mem p e (?st slash, r) = scan rl_step mem (Suc p) e (rl_sw_uri, ?r)"
      using Cons.prems(1) by simp
    also have "\<dots> = scan rl_step mem (Suc (Suc p + length cs)) e (rl_sw_http_09,
        (if asc CHR ''#'' \<in> set cs then ?r\<lparr>r_complex_uri := True\<rparr> else ?r)\<lparr>r_uri_end := Suc p + length cs\<rparr>)"
      by (rule scan_rl_rest [OF pr(1) m pr(2,3)])
    finally show ?thesis unfolding rl_marks_stop [OF True] Let_def
      by (intro bexI [of _ rl_sw_http_09]) simp_all
  next
    case False
    let ?s = "c = asc CHR ''/'' \<or> slash \<and> c = asc CHR ''+''"
    let ?r = "r\<lparr>r_uri_ext := (if c = asc CHR ''.'' then Suc p else if c = asc CHR ''/'' then NULL else r_uri_ext r),
         r_plus_in_uri := (r_plus_in_uri r \<or> c = asc CHR ''+'')\<rparr>"
    have "rl_step mem p (?st slash, r) = Cont (?st ?s, ?r)"
      using False c by (cases r; cases slash) (auto simp: rl_after_slash_in_uri_def rl_check_uri_def rl_uri_char_def is_usual_iff)
    then have "scan rl_step mem p e (?st slash, r) = scan rl_step mem (Suc p) e (?st ?s, ?r)"
      using Cons.prems(1) by simp
    then show ?thesis using Cons.IH [OF pr(1) m pr(2,3), of ?s ?r] unfolding rl_marks_plain [OF False] by simp
  qed
qed

lemma scan_rl_version:
  assumes "q + 10 \<le> e" and b: "\<And>i. i < 10 \<Longrightarrow> mem ! (q + i) =
      (bytes ''HTTP/'' @ [major, asc CHR ''.'', minor, CR, LF]) ! i"
    and "is_digit major" "major \<noteq> asc CHR ''0''" "is_digit minor"
    and st: "st \<in> {rl_sw_check_uri_http_09, rl_sw_http_09}"
  shows "scan rl_step mem q e (st, r) =
    Stop (q + 9, Rl_done, r\<lparr>r_http_protocol_data := q, r_http_major := ucast (major - asc CHR ''0''),
       r_http_minor := ucast (minor - asc CHR ''0''), r_request_end := q + 8\<rparr>)"
proof -
  have h: "mem ! q = asc CHR ''H''" "mem ! Suc q = asc CHR ''T''" "mem ! Suc (Suc q) = asc CHR ''T''"
    "mem ! Suc (Suc (Suc q)) = asc CHR ''P''" "mem ! Suc (Suc (Suc (Suc q))) = asc CHR ''/''"
    "mem ! Suc (Suc (Suc (Suc (Suc q)))) = major"
    "mem ! Suc (Suc (Suc (Suc (Suc (Suc q))))) = asc CHR ''.''"
    "mem ! Suc (Suc (Suc (Suc (Suc (Suc (Suc q)))))) = minor"
    "mem ! Suc (Suc (Suc (Suc (Suc (Suc (Suc (Suc q))))))) = CR"
    "mem ! Suc (Suc (Suc (Suc (Suc (Suc (Suc (Suc (Suc q)))))))) = LF"
    using b [of 0] b [of 1] b [of 2] b [of 3] b [of 4] b [of 5] b [of 6] b [of 7] b [of 8] b [of 9]
    by (simp_all add: eval_nat_numeral)
  have d: "\<not> major < 49" "\<not> 57 < major" "\<not> minor < 48" "\<not> 57 < minor"
    "minor \<noteq> 13" "minor \<noteq> 10" "minor \<noteq> 32" "minor \<noteq> 46"
    using assms(3-5) by (auto simp: is_digit_def word_less_nat_alt word_le_nat_alt word_unat_eq_iff)
  have lt: "Suc (Suc (Suc (Suc (Suc (Suc (Suc (Suc (Suc q)))))))) < e" using assms(1) by simp
  have e9: "q + 9 = Suc (Suc (Suc (Suc (Suc (Suc (Suc (Suc (Suc q))))))))"
    "q + 8 = Suc (Suc (Suc (Suc (Suc (Suc (Suc (Suc q)))))))" by simp_all
  have "scan rl_step mem q e (st, r) = scan rl_step mem (Suc q) e (rl_sw_http_H, r\<lparr>r_http_protocol_data := q\<rparr>)"
    using st h(1) lt by (intro scan_Cont) (auto simp: rl_check_uri_http_09_def rl_http_09_def)
  then show ?thesis unfolding e9 using lt
    by (simp add: h d Let_def rl_expect_def rl_first_major_digit_def
       rl_major_digit_def rl_first_minor_digit_def rl_minor_digit_def rl_almost_done_def)
qed

lemma rl_version_not_09:
  assumes "is_digit major" "major \<noteq> asc CHR ''0''" "is_digit minor"
  shows "(ucast (major - asc CHR ''0'') :: ngx_uint) * 1000 + ucast (minor - asc CHR ''0'') \<noteq> 9"
proof -
  let ?d = "\<lambda>c :: byte. (ucast (c - asc CHR ''0'') :: ngx_uint)"
  have d: "unat (?d major) \<le> 9" "unat (?d minor) \<le> 9" using digit_sub(2) assms by simp_all
  have "unat (?d major) \<noteq> 0" using digit_sub(1) [OF assms(1)] assms(1,2) by (auto simp: is_digit_unat word_unat_eq_iff)
  then have "unat (?d major * 1000 + ?d minor) \<noteq> 9"
    using d by (simp only: unat_word_ariths) simp
  then show ?thesis by (auto simp: word_unat_eq_iff)
qed

text \<open>
  C4. A request line printed from a method name, a URI that begins with a slash and the two digits of
  the version parses to exactly these parts, wherever it stands in the buffer and whatever follows
  it.  The URI may have any characters but NUL, space, CR and LF (so arguments, dots, several
  segments, quoted characters), the extension, the start of the arguments and the flags being set
  as \<open>rl_uri_marks\<close> says; the major version is a digit other than 0, and the line ends with CR LF.
\<close>

theorem request_line_roundtrip:
  assumes "name \<noteq> []" and "\<forall>c\<in>set name. rl_method_char c" and "list_all rl_uri_char uri"
    and "is_digit major" and "major \<noteq> asc CHR ''0''" and "is_digit minor"
    and "r_state r = 0"
    and "line = rl_request_line name (asc CHR ''/'' # uri) major minor"
    and "b_pos b = length pre" and "length (pre @ line) \<le> b_last b"
  shows "ngx_http_parse_request_line (pre @ line @ rest) b r =
    (let s = length pre; u = s + length name + 1; v = u + 1 + length uri in
     (NGX_OK, b\<lparr>b_pos := length (pre @ line)\<rparr>,
      (rl_uri_marks True (u + 1) uri r)\<lparr>r_request_start := s, r_method_end := s + length name - 1,
        r_method := rl_method_named name (r_method r),
        r_uri_start := u, r_uri_end := v, r_http_protocol_data := v + 1,
        r_http_major := ucast (major - asc CHR ''0''), r_http_minor := ucast (minor - asc CHR ''0''),
        r_http_version := ucast (major - asc CHR ''0'') * 1000 + ucast (minor - asc CHR ''0''),
        r_request_end := v + 9, r_state := 0\<rparr>))"
proof -
  define s where "s = length pre"
  define mem where "mem = pre @ line @ rest"
  define u where "u = s + length name + 1"
  define v where "v = u + 1 + length uri"
  let ?e = "b_last b"
  obtain k where k: "length name = Suc k" using assms(1) by (cases name) auto
  have len: "length (pre @ line) = v + 11"
    by (simp add: assms(8) rl_request_line_def v_def u_def s_def)
  then have e: "v + 11 \<le> ?e" using assms(10) by simp
  have at: "mem ! (s + i) = line ! i" if "i < length line" for i
    using that by (simp add: mem_def s_def nth_append)
  have n1: "mem ! (s + i) = name ! i" if "i < length name" for i
    using that at [of i] by (simp add: assms(8) rl_request_line_def nth_append)
  have n2: "mem ! (s + length name) = SP" and n3: "mem ! u = asc CHR ''/''"
    using at [of "length name"] at [of "length name + 1"]
    by (simp_all add: assms(8) rl_request_line_def nth_append u_def)
  have n4: "mem ! (Suc u + i) = uri ! i" if "i < length uri" for i
    using that at [of "length name + 2 + i"]
    by (simp add: assms(8) rl_request_line_def nth_append u_def add.assoc)
  have n5: "mem ! v = SP"
    using at [of "length name + 2 + length uri"]
    by (simp add: assms(8) rl_request_line_def nth_append u_def v_def add.assoc)
  have n6: "mem ! (Suc v + i) = (bytes ''HTTP/'' @ [major, asc CHR ''.'', minor, CR, LF]) ! i" if "i < 10" for i
    using that at [of "Suc (Suc (Suc (length name + length uri + i)))"]
    by (simp add: assms(8) rl_request_line_def nth_append u_def v_def add.assoc)
  define r1 where "r1 = r\<lparr>r_request_start := s\<rparr>"
  define r2 where "r2 = r1\<lparr>r_method_end := u - 2, r_method := rl_method_named name (r_method r)\<rparr>"
  define r3 where "r3 = (rl_uri_marks True (u + 1) uri (r2\<lparr>r_uri_start := u\<rparr>))\<lparr>r_uri_end := v\<rparr>"
  obtain st where st: "st \<in> {rl_sw_check_uri_http_09, rl_sw_http_09}"
    "scan rl_step mem (Suc u) ?e (rl_sw_after_slash_in_uri, r2\<lparr>r_uri_start := u\<rparr>) = scan rl_step mem (Suc v) ?e (st, r3)"
    using scan_rl_uri [of "Suc u" uri ?e mem True "r2\<lparr>r_uri_start := u\<rparr>"] n4 n5 e assms(3)
    by (auto simp: r3_def v_def)
  have "scan rl_step mem s ?e (rl_sw_start, r) = scan rl_step mem (u - 1) ?e (rl_sw_method, r1)"
    using scan_rl_name [of s k ?e mem r] e n1 k assms(2) by (simp add: r1_def u_def v_def)
  also have "\<dots> = scan rl_step mem u ?e (rl_sw_spaces_before_uri, r2)"
    using rl_method_code_named [of name mem s] n1 n2 e assms(1)
    by (simp add: rl_method_def r2_def r1_def u_def v_def)
  also have "\<dots> = scan rl_step mem (Suc u) ?e (rl_sw_after_slash_in_uri, r2\<lparr>r_uri_start := u\<rparr>)"
    using n3 e by (simp add: rl_spaces_before_uri_def v_def)
  also have "\<dots> = scan rl_step mem (Suc v) ?e (st, r3)" by (rule st(2))
  also have "\<dots> = Stop (v + 10, Rl_done, r3\<lparr>r_http_protocol_data := v + 1,
     r_http_major := ucast (major - asc CHR ''0''),
       r_http_minor := ucast (minor - asc CHR ''0''), r_request_end := v + 9\<rparr>)"
    using scan_rl_version [of "Suc v" ?e mem major minor st r3] n6 e assms(4-6) st(1) by simp
  finally show ?thesis
    using assms(7,9) len
    by (simp add: ngx_http_parse_request_line_def rl_finish_def Let_def mem_def [symmetric]
       s_def [symmetric] u_def [symmetric] v_def [symmetric] enum_at_def rl_states_def enum_index_def
       r3_def r2_def r1_def k rl_version_not_09 [OF assms(4-6), simplified],
      cases r, simp add: u_def v_def k rl_uri_marks_def Let_def)
qed

theorem request_line_roundtrip_witness:
  "ngx_http_parse_request_line ([0] @ bytes ''GET /a/b.html?x=1 HTTP/1.0'' @ [CR, LF] @ bytes ''Host'')
     \<lparr>b_start = 1, b_pos = 1, b_last = 33\<rparr> ngx_http_request_zero =
   (NGX_OK, \<lparr>b_start = 1, b_pos = 29, b_last = 33\<rparr>,
    ngx_http_request_zero\<lparr>r_request_start := 1, r_method_end := 3, r_method := NGX_HTTP_GET,
      r_uri_start := 5, r_uri_end := 18, r_uri_ext := 10, r_args_start := 15, r_http_protocol_data := 19,
      r_http_major := 1, r_http_minor := 0, r_http_version := 1000,
      r_request_end := 27, r_state := 0\<rparr>)"
proof -
  let ?uri = "bytes ''a/b.html?x=1''"
  let ?line = "rl_request_line (bytes ''GET'') (asc CHR ''/'' # ?uri) (asc CHR ''1'') (asc CHR ''0'')"
  have m: "rl_uri_marks True 6 ?uri ngx_http_request_zero = ngx_http_request_zero\<lparr>r_uri_ext := 10, r_args_start := 15\<rparr>"
    by (simp add: rl_uri_marks_def rl_ext_def ngx_http_request_zero_def)
  have "ngx_http_parse_request_line ([0] @ ?line @ bytes ''Host'')
     \<lparr>b_start = 1, b_pos = 1, b_last = 33\<rparr> ngx_http_request_zero =
    (let s = length [0::byte]; u = s + length (bytes ''GET'') + 1; v = u + 1 + length ?uri in
     (NGX_OK, \<lparr>b_start = 1, b_pos = 1, b_last = 33\<rparr>\<lparr>b_pos := length ([0] @ ?line)\<rparr>,
      (rl_uri_marks True (u + 1) ?uri ngx_http_request_zero)
       \<lparr>r_request_start := s, r_method_end := s + length (bytes ''GET'') - 1,
        r_method := rl_method_named (bytes ''GET'') (r_method ngx_http_request_zero),
        r_uri_start := u, r_uri_end := v, r_http_protocol_data := v + 1,
        r_http_major := ucast (asc CHR ''1'' - asc CHR ''0''), r_http_minor := ucast (asc CHR ''0'' - asc CHR ''0''),
        r_http_version := ucast (asc CHR ''1'' - asc CHR ''0'') * 1000 + ucast (asc CHR ''0'' - asc CHR ''0''),
        r_request_end := v + 9, r_state := 0\<rparr>))"
    by (rule request_line_roundtrip)
      (simp_all add: rl_method_char_def rl_uri_char_def is_digit_def ngx_http_request_zero_def rl_request_line_def)
  moreover have "length [0::byte] = 1" "length (bytes ''GET'') = 3" "length ?uri = 12" "length ([0] @ ?line) = 29"
    by (simp_all add: rl_request_line_def)
  ultimately have "ngx_http_parse_request_line ([0] @ ?line @ bytes ''Host'')
     \<lparr>b_start = 1, b_pos = 1, b_last = 33\<rparr> ngx_http_request_zero =
    (NGX_OK, \<lparr>b_start = 1, b_pos = 29, b_last = 33\<rparr>, (rl_uri_marks True 6 ?uri ngx_http_request_zero)
      \<lparr>r_request_start := 1, r_method_end := 3, r_method := rl_method_named (bytes ''GET'') (r_method ngx_http_request_zero),
       r_uri_start := 5, r_uri_end := 18, r_http_protocol_data := 19, r_http_major := 1, r_http_minor := 0,
       r_http_version := 1000, r_request_end := 27, r_state := 0\<rparr>)"
    by (simp only: Let_def ngx_buf.simps) simp
  then show ?thesis unfolding m
    by (simp add: rl_request_line_def rl_method_named_def rl_method_table_def ngx_http_request_zero_def)
qed

end
