(* ===== verification/Ngx_Http_Header_Line.thy ===== *)
theory Ngx_Http_Header_Line
  imports Ngx_Http_Request
begin

text \<open>
  \<open>ngx_http_parse_header_line\<close> of \<^verbatim>\<open>src/http/ngx_http_parse.c\<close> (lines 760--1013): one
  definition per state, the loop and the code after it.  The locals \<open>state\<close>, \<open>hash\<close> and \<open>i\<close>
  are part of the loop's state beside the request and are stored in the request between two
  calls.  Then: a parse can be resumed; the pointers a successful parse leaves delimit the
  name and the value with the spaces around it trimmed, and the hash and the lower-case name
  are those of the name; a printed header line parses to its parts.
\<close>

section \<open>The table of lower-case characters\<close>

definition lowcase :: "byte list" where
  "lowcase =
     replicate 32 0
     @ (replicate 13 0 @ [asc CHR ''-''] @ replicate 2 0) @ bytes ''0123456789'' @ replicate 6 0
     @ [0] @ bytes ''abcdefghijklmnopqrstuvwxyz'' @ replicate 5 0
     @ [0] @ bytes ''abcdefghijklmnopqrstuvwxyz'' @ replicate 5 0
     @ replicate 32 0
     @ replicate 32 0
     @ replicate 32 0
     @ replicate 32 0"

text \<open>\<open>lowcase[ch]\<close>\<close>

definition lowcase_at :: "byte \<Rightarrow> byte" where
  "lowcase_at ch = lowcase ! unat ch"

text \<open>\<open>ngx_hash(key, c)\<close>, \<^verbatim>\<open>src/core/ngx_hash.h\<close> line 111.\<close>

definition ngx_hash :: "ngx_uint \<Rightarrow> byte \<Rightarrow> ngx_uint" where
  "ngx_hash key c = key * 31 + ucast c"

section \<open>The states\<close>

datatype hd_state =
    hd_sw_start
  | hd_sw_name
  | hd_sw_space_before_value
  | hd_sw_value
  | hd_sw_space_after_value
  | hd_sw_ignore_line
  | hd_sw_almost_done
  | hd_sw_header_almost_done

definition hd_states :: "hd_state list" where
  "hd_states =
    [hd_sw_start, hd_sw_name, hd_sw_space_before_value, hd_sw_value, hd_sw_space_after_value,
     hd_sw_ignore_line, hd_sw_almost_done, hd_sw_header_almost_done]"

text \<open>The loop is left by \<open>goto done\<close>, by \<open>goto header_done\<close> or by a \<open>return\<close>.\<close>

datatype hd_exit = Hd_done | Hd_header_done | Hd_return ngx_rc

text \<open>The locals \<open>hash\<close> and \<open>i\<close> and the request.\<close>

type_synonym hd_vars = "ngx_uint \<times> nat \<times> ngx_http_request"
type_synonym hd_action = "(hd_state \<times> hd_vars, hd_exit \<times> hd_vars) action"

abbreviation hd_invalid :: "hd_vars \<Rightarrow> hd_action" where
  "hd_invalid v \<equiv> Stop (Hd_return NGX_HTTP_PARSE_INVALID_HEADER, v)"

text \<open>\<open>r->lowcase_header[i++] = c; i &= (NGX_HTTP_LC_HEADER_LEN - 1);\<close> with the new hash.\<close>

definition hd_add :: "byte \<Rightarrow> hd_vars \<Rightarrow> hd_vars" where
  "hd_add c v =
    (case v of (hash, i, r) \<Rightarrow>
       (ngx_hash hash c, (i + 1) AND (32 - 1),
        r\<lparr>r_lowcase_header := (r_lowcase_header r)[i := c]\<rparr>))"

definition hd_start :: "ptr \<Rightarrow> byte \<Rightarrow> hd_vars \<Rightarrow> hd_action" where
  "hd_start p ch v =
    (case v of (hash, i, r) \<Rightarrow>
      let r = r\<lparr>r_header_name_start := p, r_invalid_header := False\<rparr> in
      if ch = CR then Cont (hd_sw_header_almost_done, hash, i, r\<lparr>r_header_end := p\<rparr>)
      else if ch = LF then Stop (Hd_header_done, hash, i, r\<lparr>r_header_end := p\<rparr>)
      else
        (let c = lowcase_at ch in
         if c \<noteq> 0 then
           Cont (hd_sw_name, ngx_hash 0 c, 1, r\<lparr>r_lowcase_header := (r_lowcase_header r)[0 := c]\<rparr>)
         else if ch = 0 then hd_invalid (hash, i, r)
         else Cont (hd_sw_name, hash, i, r\<lparr>r_invalid_header := True\<rparr>)))"

definition hd_name :: "bool \<Rightarrow> mem \<Rightarrow> ptr \<Rightarrow> byte \<Rightarrow> hd_vars \<Rightarrow> hd_action" where
  "hd_name allow_underscores mem p ch v =
    (case v of (hash, i, r) \<Rightarrow>
      let c = lowcase_at ch in
      if c \<noteq> 0 then Cont (hd_sw_name, hd_add c v)
      else if ch = asc CHR ''_'' then
        (if allow_underscores then Cont (hd_sw_name, hd_add ch v)
         else Cont (hd_sw_name, hash, i, r\<lparr>r_invalid_header := True\<rparr>))
      else if ch = asc CHR '':'' then
        Cont (hd_sw_space_before_value, hash, i, r\<lparr>r_header_name_end := p\<rparr>)
      else if ch = CR then
        Cont (hd_sw_almost_done, hash, i,
          r\<lparr>r_header_name_end := p, r_header_start := p, r_header_end := p\<rparr>)
      else if ch = LF then
        Stop (Hd_done, hash, i,
          r\<lparr>r_header_name_end := p, r_header_start := p, r_header_end := p\<rparr>)
      else if ch = asc CHR ''/'' \<and> r_upstream r \<and> p - r_header_name_start r = 4
          \<and> (\<forall>k<4. mem ! (r_header_name_start r + k) = bytes ''HTTP'' ! k)
      then Cont (hd_sw_ignore_line, v)
      else if ch = 0 then hd_invalid v
      else Cont (hd_sw_name, hash, i, r\<lparr>r_invalid_header := True\<rparr>))"

definition hd_space_before_value :: "ptr \<Rightarrow> byte \<Rightarrow> hd_vars \<Rightarrow> hd_action" where
  "hd_space_before_value p ch v =
    (case v of (hash, i, r) \<Rightarrow>
      if ch = asc CHR '' '' then Cont (hd_sw_space_before_value, v)
      else if ch = CR then Cont (hd_sw_almost_done, hash, i, r\<lparr>r_header_start := p, r_header_end := p\<rparr>)
      else if ch = LF then Stop (Hd_done, hash, i, r\<lparr>r_header_start := p, r_header_end := p\<rparr>)
      else if ch = 0 then hd_invalid v
      else Cont (hd_sw_value, hash, i, r\<lparr>r_header_start := p\<rparr>))"

definition hd_value :: "ptr \<Rightarrow> byte \<Rightarrow> hd_vars \<Rightarrow> hd_action" where
  "hd_value p ch v =
    (case v of (hash, i, r) \<Rightarrow>
      if ch = asc CHR '' '' then Cont (hd_sw_space_after_value, hash, i, r\<lparr>r_header_end := p\<rparr>)
      else if ch = CR then Cont (hd_sw_almost_done, hash, i, r\<lparr>r_header_end := p\<rparr>)
      else if ch = LF then Stop (Hd_done, hash, i, r\<lparr>r_header_end := p\<rparr>)
      else if ch = 0 then hd_invalid v
      else Cont (hd_sw_value, v))"

definition hd_space_after_value :: "byte \<Rightarrow> hd_vars \<Rightarrow> hd_action" where
  "hd_space_after_value ch v =
    (if ch = asc CHR '' '' then Cont (hd_sw_space_after_value, v)
     else if ch = CR then Cont (hd_sw_almost_done, v)
     else if ch = LF then Stop (Hd_done, v)
     else if ch = 0 then hd_invalid v
     else Cont (hd_sw_value, v))"

definition hd_ignore_line :: "byte \<Rightarrow> hd_vars \<Rightarrow> hd_action" where
  "hd_ignore_line ch v = (if ch = LF then Cont (hd_sw_start, v) else Cont (hd_sw_ignore_line, v))"

definition hd_almost_done :: "byte \<Rightarrow> hd_vars \<Rightarrow> hd_action" where
  "hd_almost_done ch v =
    (if ch = LF then Stop (Hd_done, v)
     else if ch = CR then Cont (hd_sw_almost_done, v)
     else hd_invalid v)"

definition hd_header_almost_done :: "byte \<Rightarrow> hd_vars \<Rightarrow> hd_action" where
  "hd_header_almost_done ch v = (if ch = LF then Stop (Hd_header_done, v) else hd_invalid v)"

section \<open>The loop body and the function\<close>

fun hd_step :: "bool \<Rightarrow> mem \<Rightarrow> ptr \<Rightarrow> hd_state \<times> hd_vars \<Rightarrow> hd_action" where
  "hd_step allow_underscores mem p (st, v) =
    (let ch = mem ! p in
     case st of
       hd_sw_start \<Rightarrow> hd_start p ch v
     | hd_sw_name \<Rightarrow> hd_name allow_underscores mem p ch v
     | hd_sw_space_before_value \<Rightarrow> hd_space_before_value p ch v
     | hd_sw_value \<Rightarrow> hd_value p ch v
     | hd_sw_space_after_value \<Rightarrow> hd_space_after_value ch v
     | hd_sw_ignore_line \<Rightarrow> hd_ignore_line ch v
     | hd_sw_almost_done \<Rightarrow> hd_almost_done ch v
     | hd_sw_header_almost_done \<Rightarrow> hd_header_almost_done ch v)"

fun hd_load :: "ngx_http_request \<Rightarrow> hd_state \<times> hd_vars" where
  "hd_load r = (enum_at hd_states (r_state r), r_header_hash r, r_lowcase_index r, r)"

fun hd_store :: "hd_state \<times> hd_vars \<Rightarrow> ngx_http_request" where
  "hd_store (st, hash, i, r) =
     r\<lparr>r_state := enum_index hd_states st, r_header_hash := hash, r_lowcase_index := i\<rparr>"

text \<open>The labels \<open>done\<close> and \<open>header_done\<close>; lines 998--1012.\<close>

fun hd_leave :: "ptr \<Rightarrow> ngx_buf \<Rightarrow> hd_exit \<times> hd_vars \<Rightarrow> ngx_rc \<times> ngx_buf \<times> ngx_http_request" where
  "hd_leave p b (Hd_done, hash, i, r) =
     (NGX_OK, b\<lparr>b_pos := p + 1\<rparr>,
      r\<lparr>r_state := enum_index hd_states hd_sw_start, r_header_hash := hash, r_lowcase_index := i\<rparr>)"
| "hd_leave p b (Hd_header_done, hash, i, r) =
     (NGX_HTTP_PARSE_HEADER_DONE, b\<lparr>b_pos := p + 1\<rparr>,
      r\<lparr>r_state := enum_index hd_states hd_sw_start\<rparr>)"
| "hd_leave p b (Hd_return rc, hash, i, r) = (rc, b, r)"

definition ngx_http_parse_header_line ::
  "mem \<Rightarrow> ngx_buf \<Rightarrow> bool \<Rightarrow> ngx_http_request \<Rightarrow> ngx_rc \<times> ngx_buf \<times> ngx_http_request" where
  "ngx_http_parse_header_line mem b allow_underscores r =
     run_parser (hd_step allow_underscores) hd_load hd_store hd_leave mem b r"

section \<open>The body reads no byte after the current one\<close>

lemmas hd_state_defs =
  hd_start_def hd_name_def hd_space_before_value_def hd_value_def hd_space_after_value_def
  hd_ignore_line_def hd_almost_done_def hd_header_almost_done_def hd_add_def

lemma set_hd_states [simp]: "st \<in> set hd_states"
  by (cases st) (simp_all add: hd_states_def)

interpretation hd: scanner "hd_step us"
proof
  fix p and m1 m2 :: mem and s :: "hd_state \<times> hd_vars"
  assume *: "take (Suc p) m1 = take (Suc p) m2"
  obtain st hash i r where s: "s = (st, hash, i, r)" by (cases s) auto
  have "m1 ! p = m2 ! p" using * by (rule take_Suc_nth_eq) simp
  moreover have "m1 ! (q + k) = m2 ! (q + k)" if "p - q = 4" "k < 4" for q k
    using that by (intro take_Suc_nth_eq [OF *]) simp
  then have "p - q = 4 \<and> (\<forall>k<4. m1 ! (q + k) = bytes ''HTTP'' ! k) \<longleftrightarrow>
      p - q = 4 \<and> (\<forall>k<4. m2 ! (q + k) = bytes ''HTTP'' ! k)" for q
    by (intro conj_cong refl all_cong1) simp
  ultimately show "hd_step us m1 p s = hd_step us m2 p s"
    unfolding s by (cases st) (simp_all only: hd_step.simps hd_name_def Let_def hd_state.case prod.case)
qed

lemma lowcase_unat:
  "map unat lowcase = map (\<lambda>n. if 48 \<le> n \<and> n \<le> 57 \<or> n = 45 \<or> 97 \<le> n \<and> n \<le> 122 then n
     else if 65 \<le> n \<and> n \<le> 90 then n + 32 else 0) [0..<256]"
  by code_simp

lemma lowcase_at_eq:
  "lowcase_at ch =
     (if is_digit ch \<or> ch = asc CHR ''-'' \<or> asc CHR ''a'' \<le> ch \<and> ch \<le> asc CHR ''z'' then ch
      else if asc CHR ''A'' \<le> ch \<and> ch \<le> asc CHR ''Z'' then ch + 32 else 0)"
proof -
  have len: "length lowcase = 256" by (simp add: lowcase_def)
  have "unat (lowcase_at ch) = map unat lowcase ! unat ch"
    by (simp add: lowcase_at_def len)
  also have "\<dots> = unat (if is_digit ch \<or> ch = asc CHR ''-'' \<or> asc CHR ''a'' \<le> ch \<and> ch \<le> asc CHR ''z'' then ch
      else if asc CHR ''A'' \<le> ch \<and> ch \<le> asc CHR ''Z'' then ch + 32 else 0)"
    unfolding lowcase_unat
    by (auto simp: is_digit_unat word_le_nat_alt word_unat_eq_iff unat_word_ariths)
  finally show ?thesis by (simp add: word_unat_eq_iff)
qed

section \<open>A parse can be resumed\<close>

fun hd_upd :: "nat \<times> ngx_uint \<times> nat \<Rightarrow> hd_vars \<Rightarrow> hd_vars" where
  "hd_upd (k, h, j) (hash, i, r) = (hash, i, r\<lparr>r_state := k, r_header_hash := h, r_lowcase_index := j\<rparr>)"

fun hd_forget :: "ngx_http_request \<Rightarrow> ngx_http_request" where
  "hd_forget r = r\<lparr>r_state := 0, r_header_hash := 0, r_lowcase_index := 0\<rparr>"

fun hd_exits :: "hd_exit \<times> hd_vars \<Rightarrow> bool" where
  "hd_exits (Hd_return rc, v) \<longleftrightarrow> rc = NGX_HTTP_PARSE_INVALID_HEADER"
| "hd_exits (_, v) = True"

interpretation hd_res: resumable "hd_step us" "\<lambda>k. map_prod id (hd_upd k)" "\<lambda>k. map_prod id (hd_upd k)"
  hd_load hd_store hd_leave "same_outcome hd_forget" hd_exits
proof (unfold_locales, goal_cases)
  case (1 m p k s)
  obtain st hash i r where s: "s = (st, hash, i, r)" by (cases s) auto
  obtain a h j where k: "k = (a, h, j)" by (cases k) auto
  show ?case
    unfolding s k
    by (cases st; cases r)
      (simp_all add: hd_state_defs Let_def map_action_if split del: if_split cong: if_cong)
next
  case (2 s)
  obtain st hash i r where s: "s = (st, hash, i, r)" by (cases s) auto
  show ?case unfolding s by (intro exI [of _ "(enum_index hd_states st, hash, i)"]) simp
next
  case (3 k s)
  obtain st hash i r where s: "s = (st, hash, i, r)" by (cases s) auto
  then show ?case by (cases k) simp
next
  case (4 m p s x)
  obtain st hash i r where s: "s = (st, hash, i, r)" by (cases s) auto
  from 4 show ?case
    unfolding s by (cases st) (auto simp: hd_state_defs Let_def split: if_splits)
next
  case (5 p b e x)
  obtain ex v where "x = (ex, v)" by (cases x)
  then show ?case by (cases ex; cases v) auto
next
  case (6 x p b)
  moreover obtain ex v where "x = (ex, v)" by (cases x)
  ultimately show ?case by (cases ex; cases v) auto
next
  case prems: (7 x p b _ k)
  moreover obtain ex v where "x = (ex, v)" by (cases x)
  ultimately show ?case by (cases ex; cases v; cases k) (auto simp: same_outcome_def)
qed (simp)

text \<open>A header line to evaluate the theorems on.\<close>

definition hd_example :: mem where
  "hd_example = 0 # bytes ''Host:  a b '' @ [CR, LF] @ bytes ''X''"

definition hd_example_buf :: ngx_buf where
  "hd_example_buf = \<lparr>b_start = 1, b_pos = 1, b_last = 15\<rparr>"

lemma hd_example_OK:
  "fst (ngx_http_parse_header_line hd_example hd_example_buf False ngx_http_request_zero) = NGX_OK"
  by code_simp

text \<open>
  C5. Receiving a header line in pieces makes no difference: parsing the bytes received so
  far and resuming when more have arrived gives what one parse over all of them gives.  (At
  the end of the headers and after an error the fields \<open>header_hash\<close> and \<open>lowcase_index\<close>,
  which belong to the last header, may differ.)
\<close>

theorem header_line_resume:
  assumes "take (b_last b) m1 = take (b_last b) m2"
    and "b_pos b \<le> b_last b" and "b_last b \<le> e"
    and "ngx_http_parse_header_line m1 b us r = (rc, b', r')"
  shows "same_outcome hd_forget
    (ngx_http_parse_header_line m2 (b\<lparr>b_last := e\<rparr>) us r)
    (if rc = NGX_AGAIN then ngx_http_parse_header_line m2 (b'\<lparr>b_last := e\<rparr>) us r'
     else (rc, b'\<lparr>b_last := e\<rparr>, r'))"
  using assms(4) unfolding ngx_http_parse_header_line_def by (rule hd_res.parse_resume [OF assms(1-3)])

theorem header_line_resume_witness:
  "same_outcome hd_forget
    (ngx_http_parse_header_line hd_example hd_example_buf False ngx_http_request_zero)
    (case ngx_http_parse_header_line (take 9 hd_example) (hd_example_buf\<lparr>b_last := 9\<rparr>) False
       ngx_http_request_zero of
       (rc, b', r') \<Rightarrow> ngx_http_parse_header_line hd_example (b'\<lparr>b_last := 15\<rparr>) False r')"
proof -
  let ?b = "hd_example_buf\<lparr>b_last := 9\<rparr>"
  have "take (b_last ?b) (take 9 hd_example) = take (b_last ?b) hd_example"
    "b_pos ?b \<le> b_last ?b" "b_last ?b \<le> 15" "?b\<lparr>b_last := 15\<rparr> = hd_example_buf"
    by (simp_all add: hd_example_buf_def)
  moreover have "fst (ngx_http_parse_header_line (take 9 hd_example) ?b False ngx_http_request_zero) = NGX_AGAIN"
    by code_simp
  ultimately show ?thesis
    using header_line_resume [of ?b "take 9 hd_example" hd_example 15 False ngx_http_request_zero]
    by (auto split: prod.splits)
qed

section \<open>The invariant of the loop\<close>

text \<open>
  A character that may stand in a valid header name; the lower-case name \<open>hd_key\<close> the bytes
  from \<open>s\<close> to \<open>p\<close> give; and that the hash, the index and the first 32 bytes of
  \<open>lowcase_header\<close> are those of the name read so far (\<open>hd_keyed\<close>).
\<close>

definition hd_name_char :: "bool \<Rightarrow> byte \<Rightarrow> bool" where
  "hd_name_char us ch \<longleftrightarrow> lowcase_at ch \<noteq> 0 \<or> us \<and> ch = asc CHR ''_''"

definition hd_lower :: "byte \<Rightarrow> byte" where
  "hd_lower ch = (if lowcase_at ch \<noteq> 0 then lowcase_at ch else ch)"

definition hd_key :: "mem \<Rightarrow> ptr \<Rightarrow> ptr \<Rightarrow> byte list" where
  "hd_key mem s p = map (\<lambda>i. hd_lower (mem ! i)) [s..<p]"

definition hd_keyed :: "bool \<Rightarrow> mem \<Rightarrow> ptr \<Rightarrow> ngx_uint \<Rightarrow> nat \<Rightarrow> ngx_http_request \<Rightarrow> bool" where
  "hd_keyed us mem p hash i r \<longleftrightarrow>
    (let s = r_header_name_start r; key = hd_key mem s p in
     (\<forall>i. s \<le> i \<and> i < p \<longrightarrow> hd_name_char us (mem ! i)) \<and> hash = foldl ngx_hash 0 key
     \<and> i = (p - s) mod 32 \<and> (p - s \<le> 32 \<longrightarrow> take (p - s) (r_lowcase_header r) = key))"

definition hd_text :: "mem \<Rightarrow> ptr \<Rightarrow> ptr \<Rightarrow> bool" where
  "hd_text mem a z \<longleftrightarrow> (\<forall>i. a \<le> i \<and> i < z \<longrightarrow> mem ! i \<noteq> 0 \<and> mem ! i \<noteq> CR \<and> mem ! i \<noteq> LF)"

definition hd_named :: "bool \<Rightarrow> ptr \<Rightarrow> mem \<Rightarrow> ptr \<Rightarrow> hd_vars \<Rightarrow> bool" where
  "hd_named us lo mem p v \<longleftrightarrow>
    (case v of (hash, i, r) \<Rightarrow>
      lo \<le> r_header_name_start r \<and> r_header_name_start r < p
      \<and> hd_text mem (r_header_name_start r) p
      \<and> (\<forall>i. r_header_name_start r < i \<and> i < p \<longrightarrow> mem ! i \<noteq> asc CHR '':'')
      \<and> (\<not> r_invalid_header r \<longrightarrow> hd_keyed us mem p hash i r))"

definition hd_spaces :: "mem \<Rightarrow> ptr \<Rightarrow> ptr \<Rightarrow> bool" where
  "hd_spaces mem a z \<longleftrightarrow> (\<forall>i. a \<le> i \<and> i < z \<longrightarrow> mem ! i = SP)"

definition hd_tail :: "mem \<Rightarrow> ptr \<Rightarrow> ptr \<Rightarrow> bool" where
  "hd_tail mem a z \<longleftrightarrow> (\<forall>i. a \<le> i \<and> i < z \<longrightarrow> mem ! i = SP \<or> mem ! i = CR)"

definition hd_split :: "mem \<Rightarrow> ngx_http_request \<Rightarrow> bool" where
  "hd_split mem r \<longleftrightarrow>
     r_header_start r = r_header_name_end r \<and> r_header_end r = r_header_name_end r
   \<or> mem ! r_header_name_end r = asc CHR '':'' \<and> r_header_name_end r < r_header_start r
     \<and> hd_spaces mem (Suc (r_header_name_end r)) (r_header_start r)
     \<and> r_header_start r \<le> r_header_end r \<and> hd_text mem (r_header_start r) (r_header_end r)
     \<and> (r_header_start r < r_header_end r \<longrightarrow>
          mem ! r_header_start r \<noteq> SP \<and> mem ! (r_header_end r - 1) \<noteq> SP)"

definition hd_opened :: "bool \<Rightarrow> ptr \<Rightarrow> mem \<Rightarrow> ptr \<Rightarrow> hd_vars \<Rightarrow> bool" where
  "hd_opened us lo mem p v \<longleftrightarrow>
    (case v of (hash, i, r) \<Rightarrow>
     hd_named us lo mem (r_header_name_end r) v \<and> mem ! r_header_name_end r = asc CHR '':''
     \<and> r_header_name_end r < p)"

definition hd_valued :: "bool \<Rightarrow> ptr \<Rightarrow> mem \<Rightarrow> ptr \<Rightarrow> hd_vars \<Rightarrow> bool" where
  "hd_valued us lo mem p v \<longleftrightarrow>
    (case v of (hash, i, r) \<Rightarrow>
     hd_opened us lo mem (r_header_start r) v
     \<and> hd_spaces mem (Suc (r_header_name_end r)) (r_header_start r)
     \<and> mem ! r_header_start r \<noteq> SP \<and> r_header_start r < p \<and> hd_text mem (r_header_start r) p)"

definition hd_ended :: "bool \<Rightarrow> ptr \<Rightarrow> mem \<Rightarrow> ptr \<Rightarrow> hd_vars \<Rightarrow> bool" where
  "hd_ended us lo mem p v \<longleftrightarrow>
    (case v of (hash, i, r) \<Rightarrow>
     hd_named us lo mem (r_header_name_end r) v \<and> hd_split mem r
     \<and> r_header_end r \<le> p \<and> hd_tail mem (r_header_end r) p)"

fun hd_inv :: "bool \<Rightarrow> ptr \<Rightarrow> mem \<Rightarrow> ptr \<Rightarrow> hd_state \<times> hd_vars \<Rightarrow> bool" where
  "hd_inv us lo mem p (st, hash, i, r) \<longleftrightarrow>
     lo \<le> p \<and> i < 32 \<and> length (r_lowcase_header r) = 32 \<and>
     (case st of
        hd_sw_name \<Rightarrow> hd_named us lo mem p (hash, i, r)
      | hd_sw_space_before_value \<Rightarrow> hd_opened us lo mem p (hash, i, r)
          \<and> hd_spaces mem (Suc (r_header_name_end r)) p
      | hd_sw_value \<Rightarrow> hd_valued us lo mem p (hash, i, r) \<and> mem ! (p - 1) \<noteq> SP
      | hd_sw_space_after_value \<Rightarrow> hd_valued us lo mem p (hash, i, r)
          \<and> r_header_start r < r_header_end r \<and> r_header_end r < p
          \<and> mem ! (r_header_end r - 1) \<noteq> SP \<and> hd_spaces mem (r_header_end r) p
      | hd_sw_almost_done \<Rightarrow> hd_ended us lo mem p (hash, i, r)
      | _ \<Rightarrow> True)"

fun hd_post :: "bool \<Rightarrow> ptr \<Rightarrow> mem \<Rightarrow> ptr \<Rightarrow> hd_exit \<times> hd_vars \<Rightarrow> bool" where
  "hd_post us lo mem p (Hd_done, hash, i, r) \<longleftrightarrow>
     i < 32 \<and> length (r_lowcase_header r) = 32 \<and> mem ! p = LF \<and> hd_ended us lo mem p (hash, i, r)"
| "hd_post us lo mem p (Hd_header_done, hash, i, r) \<longleftrightarrow>
     i < 32 \<and> length (r_lowcase_header r) = 32 \<and> mem ! p = LF"
| "hd_post us lo mem p (Hd_return rc, hash, i, r) \<longleftrightarrow> rc = NGX_HTTP_PARSE_INVALID_HEADER"

lemma hd_range_Suc:
  "hd_text mem a z \<Longrightarrow> mem ! z \<noteq> 0 \<Longrightarrow> mem ! z \<noteq> CR \<Longrightarrow> mem ! z \<noteq> LF \<Longrightarrow> hd_text mem a (Suc z)"
  "hd_spaces mem a z \<Longrightarrow> mem ! z = SP \<Longrightarrow> hd_spaces mem a (Suc z)"
  "hd_tail mem a z \<Longrightarrow> mem ! z = SP \<or> mem ! z = CR \<Longrightarrow> hd_tail mem a (Suc z)"
  by (auto simp: hd_text_def hd_spaces_def hd_tail_def less_Suc_eq)

lemma hd_range_empty [simp]:
  "z \<le> a \<Longrightarrow> hd_text mem a z" "z \<le> a \<Longrightarrow> hd_spaces mem a z" "z \<le> a \<Longrightarrow> hd_tail mem a z"
  by (auto simp: hd_text_def hd_spaces_def hd_tail_def)

lemma hd_spaces_tail: "hd_spaces mem a z \<Longrightarrow> hd_tail mem a z"
  by (simp add: hd_spaces_def hd_tail_def)

lemma and_31: "(n :: nat) AND 31 = n mod 32"
proof -
  have "n AND mask 5 = take_bit 5 n" by (simp add: take_bit_eq_mask)
  then show ?thesis by (simp add: take_bit_eq_mod mask_eq_exp_minus_1)
qed

lemma hd_add_eq: "hd_add c (hash, i, r) = (ngx_hash hash c, Suc i mod 32, r\<lparr>r_lowcase_header := (r_lowcase_header r)[i := c]\<rparr>)"
  by (simp add: hd_add_def and_31)

lemma hd_key_Suc: "s \<le> p \<Longrightarrow> hd_key mem s (Suc p) = hd_key mem s p @ [hd_lower (mem ! p)]"
  by (simp add: hd_key_def)

lemma length_hd_key [simp]: "length (hd_key mem s p) = p - s"
  by (simp add: hd_key_def)

lemma hd_keyed_add:
  assumes "hd_keyed us mem p hash i r" "hd_name_char us (mem ! p)" "r_header_name_start r < p" "length (r_lowcase_header r) = 32"
  shows "hd_keyed us mem (Suc p) (ngx_hash hash (hd_lower (mem ! p))) (Suc i mod 32)
    (r\<lparr>r_lowcase_header := (r_lowcase_header r)[i := hd_lower (mem ! p)]\<rparr>)"
proof -
  let ?s = "r_header_name_start r"
  have k: "hash = foldl ngx_hash 0 (hd_key mem ?s p)" "i = (p - ?s) mod 32"
      "p - ?s \<le> 32 \<longrightarrow> take (p - ?s) (r_lowcase_header r) = hd_key mem ?s p"
      "\<forall>i. ?s \<le> i \<and> i < p \<longrightarrow> hd_name_char us (mem ! i)"
    using assms(1) by (simp_all add: hd_keyed_def Let_def)
  have "Suc i mod 32 = (Suc p - ?s) mod 32" 
    using assms(3) k(2) by (simp add: Suc_diff_le mod_Suc_eq)
  moreover have "take (Suc p - ?s) ((r_lowcase_header r)[i := c]) = hd_key mem ?s p @ [c]" if "Suc p - ?s \<le> 32" for c
  proof -
    have "i = p - ?s" "Suc p - ?s = Suc (p - ?s)" using that assms(3) k(2) by simp_all
    then show ?thesis using k(3) that assms(4) by (simp add: take_Suc_conv_app_nth)
  qed
  ultimately show ?thesis using k assms(2,3)
    by (simp add: hd_keyed_def Let_def hd_key_Suc less_Suc_eq) auto
qed

abbreviation hd_sat :: "bool \<Rightarrow> ptr \<Rightarrow> mem \<Rightarrow> ptr \<Rightarrow> hd_action \<Rightarrow> bool" where
  "hd_sat us lo mem p a \<equiv> action_sat (hd_inv us lo mem (Suc p)) (hd_post us lo mem p) a"

lemma hd_keyed_first:
  "lowcase_at (mem ! p) \<noteq> 0 \<Longrightarrow> length (r_lowcase_header r) = 32 \<Longrightarrow> r_header_name_start r = p \<Longrightarrow>
   hd_keyed us mem (Suc p) (ngx_hash 0 (lowcase_at (mem ! p))) (Suc 0) 
     (r\<lparr>r_lowcase_header := (r_lowcase_header r)[0 := lowcase_at (mem ! p)]\<rparr>)"
  by (cases "r_lowcase_header r")
    (auto simp: hd_keyed_def Let_def hd_key_def hd_name_char_def hd_lower_def less_Suc_eq)

lemma lowcase_at_special [simp]: "lowcase_at 0 = 0" "lowcase_at 10 = 0" "lowcase_at 13 = 0" "lowcase_at 58 = 0"
    "lowcase_at 95 = 0"
  by (simp_all add: lowcase_at_eq is_digit_def)

lemma hd_start_sat:
  assumes "hd_inv us lo mem p (hd_sw_start, v)"
  shows "hd_sat us lo mem p (hd_start p (mem ! p) v)"
proof -
  obtain hash i r where v: "v = (hash, i, r)" by (cases v) auto
  show ?thesis
    using assms hd_keyed_first [of mem p "r\<lparr>r_header_name_start := p, r_invalid_header := False\<rparr>" us]
    by (auto simp: v hd_start_def Let_def hd_named_def hd_text_def less_Suc_eq)
qed

lemma hd_named_add:
  assumes "hd_named us lo mem p (hash, i, r)" "hd_name_char us (mem ! p)"
    and "length (r_lowcase_header r) = 32"
  shows "hd_named us lo mem (Suc p) (hd_add (hd_lower (mem ! p)) (hash, i, r))"
proof -
  from assms(2) have c: "mem ! p \<noteq> 0" "mem ! p \<noteq> CR" "mem ! p \<noteq> LF" "mem ! p \<noteq> 58" 
    by (auto simp: hd_name_char_def)
  have "hd_keyed us mem p hash i r" if "\<not> r_invalid_header r" 
    using that assms(1) by (simp add: hd_named_def)
  then show ?thesis
    using assms c hd_keyed_add [of us mem p hash i r] 
    by (auto simp: hd_named_def hd_add_eq less_Suc_eq intro: hd_range_Suc)
qed

lemma hd_named_invalid:
  assumes "hd_named us lo mem p (hash, i, r)"
    and "mem ! p \<noteq> 0" "mem ! p \<noteq> CR" "mem ! p \<noteq> LF" "mem ! p \<noteq> 58"
  shows "hd_named us lo mem (Suc p) (hash, i, r\<lparr>r_invalid_header := True\<rparr>)"
  using assms by (auto simp: hd_named_def less_Suc_eq intro: hd_range_Suc)

lemma hd_named_frame [simp]:
  "hd_named us lo mem p (hash, i, r\<lparr>r_header_name_end := q\<rparr>) = hd_named us lo mem p (hash, i, r)"
  "hd_named us lo mem p (hash, i, r\<lparr>r_header_start := q\<rparr>) = hd_named us lo mem p (hash, i, r)"
  "hd_named us lo mem p (hash, i, r\<lparr>r_header_end := q\<rparr>) = hd_named us lo mem p (hash, i, r)"
  by (simp_all add: hd_named_def hd_keyed_def)

lemma hd_add_sat:
  assumes "hd_inv us lo mem p (hd_sw_name, v)" "hd_name_char us (mem ! p)"
  shows "hd_inv us lo mem (Suc p) (hd_sw_name, hd_add (hd_lower (mem ! p)) v)"
proof -
  obtain hash i r where v: "v = (hash, i, r)" by (cases v) auto
  show ?thesis using assms hd_named_add [of us lo mem p hash i r] by (simp add: v hd_add_eq)
qed

lemma hd_name_sat:
  assumes inv: "hd_inv us lo mem p (hd_sw_name, v)"
  shows "hd_sat us lo mem p (hd_name us mem p (mem ! p) v)"
proof -
  obtain hash i r where v: "v = (hash, i, r)" by (cases v) auto
  have low: "hd_lower (mem ! p) = (if lowcase_at (mem ! p) \<noteq> 0 then lowcase_at (mem ! p) else mem ! p)"
    by (simp add: hd_lower_def)
  show ?thesis
  proof (cases "hd_name_char us (mem ! p)")
    case True
    with hd_add_sat [OF inv True] low show ?thesis
      by (auto simp: v hd_name_def Let_def hd_name_char_def)
  next
    case False
    then have "lowcase_at (mem ! p) = 0" "\<not> (us \<and> mem ! p = asc CHR ''_'')" by (simp_all add: hd_name_char_def)
    then show ?thesis
      using inv hd_named_invalid [of us lo mem p hash i r] hd_range_Suc(3) [of mem p p]
      by (cases us) (simp_all add: v hd_name_def Let_def hd_opened_def hd_ended_def hd_split_def)
  qed
qed

lemma hd_space_before_value_sat:
  assumes "hd_inv us lo mem p (hd_sw_space_before_value, v)"
  shows "hd_sat us lo mem p (hd_space_before_value p (mem ! p) v)"
proof -
  obtain hash i r where v: "v = (hash, i, r)" by (cases v) auto
  show ?thesis
    using assms hd_range_Suc [of mem _ p] hd_range_Suc(1) [of mem p p]
    by (simp add: v hd_space_before_value_def hd_opened_def hd_ended_def hd_split_def hd_valued_def)
qed

lemma hd_valued_ended:
  assumes "hd_valued us lo mem z (hash, i, r)" "r_header_end r = z" "mem ! (z - 1) \<noteq> SP" "z \<le> p" "hd_tail mem z p"
  shows "hd_ended us lo mem p (hash, i, r)"
  using assms by (simp add: hd_valued_def hd_opened_def hd_ended_def hd_split_def)

lemma hd_valued_frame [simp]:
  "hd_valued us lo mem p (hash, i, r\<lparr>r_header_end := q\<rparr>) = hd_valued us lo mem p (hash, i, r)"
  by (simp add: hd_valued_def hd_opened_def)

lemma hd_valued_Suc:
  "hd_valued us lo mem p v \<Longrightarrow> mem ! p \<noteq> 0 \<Longrightarrow> mem ! p \<noteq> CR \<Longrightarrow> mem ! p \<noteq> LF \<Longrightarrow> hd_valued us lo mem (Suc p) v"
  by (cases v) (simp add: hd_valued_def hd_range_Suc(1))

lemma hd_valued_start: "hd_valued us lo mem p (hash, i, r) \<Longrightarrow> r_header_start r < p"
  by (simp add: hd_valued_def)

lemma hd_value_sat:
  assumes "hd_inv us lo mem p (hd_sw_value, v)"
  shows "hd_sat us lo mem p (hd_value p (mem ! p) v)"
proof -
  obtain hash i r where v: "v = (hash, i, r)" by (cases v) auto
  have val: "hd_valued us lo mem p (hash, i, r)" using assms v by simp
  then have "hd_ended us lo mem q (hash, i, r\<lparr>r_header_end := p\<rparr>)" if "p \<le> q" "hd_tail mem p q" for q
    using that assms hd_valued_ended [of us lo mem p hash i "r\<lparr>r_header_end := p\<rparr>" q] by (simp add: v)
  then show ?thesis
    using assms hd_valued_Suc [OF val] hd_valued_start [OF val] hd_range_Suc(2,3) [of mem p p]
    by (simp add: v hd_value_def)
qed

lemma hd_valued_shorten:
  "hd_valued us lo mem p (hash, i, r) \<Longrightarrow> r_header_start r < z \<Longrightarrow> z \<le> p \<Longrightarrow> hd_valued us lo mem z (hash, i, r)"
  by (simp add: hd_valued_def hd_text_def)

lemma hd_space_after_value_sat:
  assumes "hd_inv us lo mem p (hd_sw_space_after_value, v)"
  shows "hd_sat us lo mem p (hd_space_after_value (mem ! p) v)"
proof -
  obtain hash i r where v: "v = (hash, i, r)" by (cases v) auto
  have val: "hd_valued us lo mem p (hash, i, r)" using assms v by simp
  have "hd_valued us lo mem (r_header_end r) (hash, i, r)"
    using hd_valued_shorten [OF val] assms by (simp add: v)
  then have "hd_ended us lo mem q (hash, i, r)" if "hd_tail mem (r_header_end r) q" "r_header_end r \<le> q" for q
    using that assms by (intro hd_valued_ended) (simp_all add: v)
  then show ?thesis
    using assms hd_valued_Suc [OF val] hd_range_Suc(2,3) [of mem "r_header_end r" p] hd_spaces_tail [of mem "r_header_end r" p]
    by (simp add: v hd_space_after_value_def)
qed

lemma hd_last_states_sat:
  "hd_inv us lo mem p (hd_sw_ignore_line, v) \<Longrightarrow> hd_sat us lo mem p (hd_ignore_line (mem ! p) v)"
  "hd_inv us lo mem p (hd_sw_almost_done, v) \<Longrightarrow> hd_sat us lo mem p (hd_almost_done (mem ! p) v)"
  "hd_inv us lo mem p (hd_sw_header_almost_done, v) \<Longrightarrow> hd_sat us lo mem p (hd_header_almost_done (mem ! p) v)"
  by (cases v; simp add: hd_ignore_line_def hd_almost_done_def hd_header_almost_done_def hd_ended_def hd_range_Suc)+

interpretation hd_inv: scanner_inv "hd_step us" "hd_inv us lo" "hd_post us lo"
proof unfold_locales
  fix m :: mem and p :: ptr and s :: "hd_state \<times> hd_vars"
  assume inv: "hd_inv us lo m p s"
  obtain st v where s: "s = (st, v)" by (cases s)
  show "hd_sat us lo m p (hd_step us m p s)"
    using inv unfolding s
    by (cases st) (simp_all only: hd_step.simps Let_def hd_state.case hd_start_sat hd_name_sat 
      hd_space_before_value_sat hd_value_sat hd_space_after_value_sat hd_last_states_sat)
qed

section \<open>What a successful parse leaves in the request\<close>

definition hd_ready :: "ngx_http_request \<Rightarrow> bool" where
  "hd_ready r \<longleftrightarrow> r_state r = 0 \<and> r_lowcase_index r < 32 \<and> length (r_lowcase_header r) = 32"

lemma hd_ready_zero: "hd_ready ngx_http_request_zero"
  by (simp add: hd_ready_def ngx_http_request_zero_def)

lemma hd_ready_inv: "hd_ready r \<Longrightarrow> hd_inv us (b_pos b) mem (b_pos b) (hd_load r)"
  by (simp add: hd_ready_def enum_at_def hd_states_def)

lemma header_line_post:
  assumes "hd_ready r" and parse: "ngx_http_parse_header_line mem b us r = (NGX_OK, b', r')"
  obtains q hash i r1 where "b_pos b \<le> q" "q < b_last b" "hd_post us (b_pos b) mem q (Hd_done, hash, i, r1)"
    "b' = b\<lparr>b_pos := Suc q\<rparr>" "r' = r1\<lparr>r_state := 0, r_header_hash := hash, r_lowcase_index := i\<rparr>"
proof (cases "scan (hd_step us) mem (b_pos b) (b_last b) (hd_load r)")
  case (Cont x)
  then show ?thesis
    using parse by (simp add: ngx_http_parse_header_line_def run_parser_def split: prod.splits)
next
  case (Stop x)
  obtain q ex hash i r1 where x: "x = (q, ex, hash, i, r1)" by (cases x) auto
  from hd_inv.scan_post [OF hd_ready_inv [OF assms(1)] Stop [unfolded x]]
  have post: "b_pos b \<le> q" "q < b_last b" "hd_post us (b_pos b) mem q (ex, hash, i, r1)" by simp_all
  have leave: "hd_leave q b (ex, hash, i, r1) = (NGX_OK, b', r')"
    using parse Stop x by (simp add: ngx_http_parse_header_line_def run_parser_def)
  then have "ex = Hd_done" using post by (cases ex) auto
  with post leave show ?thesis
    by (intro that [of q hash i r1]) (simp_all add: enum_index_def hd_states_def)
qed

lemma hd_split_order:
  "hd_split mem r \<Longrightarrow> r_header_name_end r \<le> r_header_start r \<and> r_header_start r \<le> r_header_end r"
  by (auto simp: hd_split_def)

lemma hd_endedD:
  assumes "hd_ended us lo mem p (hash, i, r)"
  shows "lo \<le> r_header_name_start r" "r_header_name_start r < r_header_name_end r"
    "hd_text mem (r_header_name_start r) (r_header_name_end r)" "hd_split mem r"
    "r_header_end r \<le> p" "hd_tail mem (r_header_end r) p"
    "\<not> r_invalid_header r \<Longrightarrow> hd_keyed us mem (r_header_name_end r) hash i r"
  using assms by (simp_all add: hd_ended_def hd_named_def)

text \<open>
  After a successful parse the name and the value lie in the bytes parsed, in this order,
  the name is not empty and has no line break and no NUL; the value begins and ends with a
  character other than a space and has no line break and no NUL; only spaces stand between
  the colon and the value and only spaces and carriage returns after the value, up to the line feed
  that ends the line.  A line without a colon has an empty value.
\<close>

theorem header_line_fields:
  assumes "hd_ready r" and "ngx_http_parse_header_line mem b us r = (NGX_OK, b', r')"
  shows "b_pos b \<le> r_header_name_start r' \<and> r_header_name_start r' < r_header_name_end r'
    \<and> r_header_name_end r' \<le> r_header_start r' \<and> r_header_start r' \<le> r_header_end r'
    \<and> r_header_end r' < b_pos b' \<and> b_pos b' \<le> b_last b
    \<and> hd_text mem (r_header_name_start r') (r_header_name_end r')
    \<and> hd_split mem r' \<and> hd_tail mem (r_header_end r') (b_pos b' - 1) \<and> mem ! (b_pos b' - 1) = LF"
proof -
  obtain q hash i r1 where q: "b_pos b \<le> q" "q < b_last b"
    and post: "hd_post us (b_pos b) mem q (Hd_done, hash, i, r1)"
    and b': "b' = b\<lparr>b_pos := Suc q\<rparr>"
    and r': "r' = r1\<lparr>r_state := 0, r_header_hash := hash, r_lowcase_index := i\<rparr>"
    by (rule header_line_post [OF assms])
  have split: "hd_split mem r' = hd_split mem r1" by (simp add: r' hd_split_def)
  have "hd_ended us (b_pos b) mem q (hash, i, r1)" "mem ! q = LF" using post by simp_all
  then show ?thesis
    using q hd_endedD [of us "b_pos b" mem q hash i r1] hd_split_order [of mem r1]
    unfolding split by (simp add: b' r')
qed

theorem header_line_fields_witness:
  "case ngx_http_parse_header_line hd_example hd_example_buf False ngx_http_request_zero of
     (rc, b', r') \<Rightarrow> rc = NGX_OK \<and> r_header_name_start r' < r_header_name_end r'
       \<and> r_header_start r' \<le> r_header_end r' \<and> hd_split hd_example r'"
proof -
  obtain b' r' where p: "ngx_http_parse_header_line hd_example hd_example_buf False ngx_http_request_zero =
      (NGX_OK, b', r')"
    using hd_example_OK
    by (cases "ngx_http_parse_header_line hd_example hd_example_buf False ngx_http_request_zero") auto
  from header_line_fields [OF hd_ready_zero p] p show ?thesis by simp
qed

lemma header_line_keyed:
  assumes "hd_ready r" and "ngx_http_parse_header_line mem b us r = (NGX_OK, b', r')"
  shows "hd_ready r'" and "\<not> r_invalid_header r' \<Longrightarrow>
    hd_keyed us mem (r_header_name_end r') (r_header_hash r') (r_lowcase_index r') r'"
proof -
  obtain q hash i r1 where q: "b_pos b \<le> q" "q < b_last b"
    and post: "hd_post us (b_pos b) mem q (Hd_done, hash, i, r1)"
    and b': "b' = b\<lparr>b_pos := Suc q\<rparr>"
    and r': "r' = r1\<lparr>r_state := 0, r_header_hash := hash, r_lowcase_index := i\<rparr>"
    by (rule header_line_post [OF assms])
  show "hd_ready r'" using post by (simp add: r' hd_ready_def)
  show "hd_keyed us mem (r_header_name_end r') (r_header_hash r') (r_lowcase_index r') r'" if "\<not> r_invalid_header r'"
    using post that hd_endedD(7) [of us "b_pos b" mem q hash i r1] by (simp add: r' hd_keyed_def Let_def)
qed

text \<open>
  C6. The key of a header.  After a successful parse the request is ready for the next header
  line (the index stays below 32, the size of \<open>lowcase_header\<close>, so every write is in bounds);
  and where the header is not marked invalid its name has only letters, digits, hyphens (and
  underscores where they are allowed), \<open>header_hash\<close> is the hash of the lower-case name, and
  \<open>lowcase_header\<close> begins with the lower-case name if this fits.
\<close>

theorem header_line_key:
  assumes "hd_ready r" and "ngx_http_parse_header_line mem b us r = (NGX_OK, b', r')"
  shows "hd_ready r' \<and> (\<not> r_invalid_header r' \<longrightarrow>
    (let s = r_header_name_start r'; e = r_header_name_end r' in
     (\<forall>i. s \<le> i \<and> i < e \<longrightarrow> hd_name_char us (mem ! i))
     \<and> r_header_hash r' = foldl ngx_hash 0 (hd_key mem s e)
     \<and> r_lowcase_index r' = (e - s) mod 32
     \<and> (e - s \<le> 32 \<longrightarrow> take (e - s) (r_lowcase_header r') = hd_key mem s e)))"
  using header_line_keyed [OF assms] by (simp add: hd_keyed_def Let_def)

theorem header_line_key_witness:
  "case ngx_http_parse_header_line hd_example hd_example_buf False ngx_http_request_zero of
     (rc, b', r') \<Rightarrow> rc = NGX_OK \<and> hd_ready r'
       \<and> r_header_hash r' = foldl ngx_hash 0 (bytes ''host'')"
proof -
  obtain b' r' where p: "ngx_http_parse_header_line hd_example hd_example_buf False ngx_http_request_zero =
      (NGX_OK, b', r')"
    using hd_example_OK
    by (cases "ngx_http_parse_header_line hd_example hd_example_buf False ngx_http_request_zero") auto
  have "r_invalid_header (snd (snd (ngx_http_parse_header_line hd_example hd_example_buf False
        ngx_http_request_zero))) = False"
    "(case snd (snd (ngx_http_parse_header_line hd_example hd_example_buf False ngx_http_request_zero)) of
       r' \<Rightarrow> hd_key hd_example (r_header_name_start r') (r_header_name_end r')) = bytes ''host''"
    by code_simp+
  with header_line_key [OF hd_ready_zero p] p show ?thesis by (simp add: Let_def)
qed

section \<open>Printing a header line and parsing it\<close>

definition hd_header_line :: "byte list \<Rightarrow> nat \<Rightarrow> byte list \<Rightarrow> nat \<Rightarrow> byte list" where
  "hd_header_line name before value after =
     name @ [asc CHR '':''] @ replicate before SP @ value @ replicate after SP @ [CR, LF]"

definition hd_value_text :: "byte list \<Rightarrow> bool" where
  "hd_value_text value \<longleftrightarrow> value \<noteq> [] \<and> hd value \<noteq> SP \<and> last value \<noteq> SP \<and> 0 \<notin> set value \<and> CR \<notin> set value \<and> LF \<notin> set value"

lemma scan_hd_name:
  assumes "s + n \<le> e" "0 < n" "lowcase_at (mem ! s) \<noteq> 0" "\<And>i. i < n \<Longrightarrow> hd_name_char us (mem ! (s + i))"
  shows "\<exists>hash i r'. scan (hd_step us) mem s e (hd_sw_start, h0, i0, r) =
    scan (hd_step us) mem (s + n) e (hd_sw_name, hash, i, r') \<and> r_header_name_start r' = s
    \<and> \<not> r_invalid_header r'"
  using assms
proof (induction n)
  case (Suc n)
  show ?case
  proof (cases n)
    case 0
    have "mem ! s \<noteq> 13" "mem ! s \<noteq> 10" using Suc.prems(3) by auto
    then show ?thesis using 0 Suc.prems
      by (simp add: hd_start_def Let_def) (intro exI conjI, rule refl, simp_all)
  next
    case (Suc k)
    with Suc.IH Suc.prems obtain hash i r' where
      IH: "scan (hd_step us) mem s e (hd_sw_start, h0, i0, r) =
        scan (hd_step us) mem (s + n) e (hd_sw_name, hash, i, r')"
        "r_header_name_start r' = s" "\<not> r_invalid_header r'" by fastforce
    have "hd_step us mem (s + n) (hd_sw_name, hash, i, r') =
      Cont (hd_sw_name, hd_add (hd_lower (mem ! (s + n))) (hash, i, r'))"
      using Suc.prems(4) [of n] by (auto simp: hd_name_def Let_def hd_name_char_def hd_lower_def)
    then show ?thesis using IH Suc.prems(1)
      by (simp add: hd_add_eq) (intro exI conjI, rule refl, simp_all)
  qed
qed simp

lemma scan_hd_value:
  assumes "p + n \<le> e" "hd_text mem p (p + n)"
  shows "\<exists>x. scan (hd_step us) mem p e (hd_sw_value, h, i, r) =
    scan (hd_step us) mem (p + n) e
      (if 0 < n \<and> mem ! (p + n - 1) = SP then hd_sw_space_after_value else hd_sw_value, h, i, r\<lparr>r_header_end := x\<rparr>)"
  using assms
proof (induction n)
  case 0
  have "r\<lparr>r_header_end := r_header_end r\<rparr> = r" by simp
  then show ?case by (intro exI [of _ "r_header_end r"]) simp
next
  case (Suc n)
  have "hd_text mem p (p + n)" using Suc.prems(2) by (simp add: hd_text_def)
  with Suc obtain x where IH: "scan (hd_step us) mem p e (hd_sw_value, h, i, r) =
    scan (hd_step us) mem (p + n) e
      (if 0 < n \<and> mem ! (p + n - 1) = SP then hd_sw_space_after_value else hd_sw_value, h, i, r\<lparr>r_header_end := x\<rparr>)"
    by auto
  have c: "mem ! (p + n) \<noteq> 0" "mem ! (p + n) \<noteq> CR" "mem ! (p + n) \<noteq> LF"
    using Suc.prems(2) by (simp_all add: hd_text_def)
  have "\<exists>y. hd_step us mem (p + n) (if 0 < n \<and> mem ! (p + n - 1) = SP then hd_sw_space_after_value else hd_sw_value,
      h, i, r\<lparr>r_header_end := x\<rparr>) =
    Cont (if mem ! (p + n) = SP then hd_sw_space_after_value else hd_sw_value, h, i, r\<lparr>r_header_end := y\<rparr>)"
    using c by (auto simp: hd_value_def hd_space_after_value_def)
  then show ?case using IH Suc.prems(1) by auto
qed

lemma scan_hd_spaces:
  assumes "a \<le> z" "z \<le> e" "hd_spaces mem a z" "st = hd_sw_space_before_value \<or> st = hd_sw_space_after_value"
  shows "scan (hd_step us) mem a e (st, h, i, r) = scan (hd_step us) mem z e (st, h, i, r)"
  using scan_run [of a "z - a" e "hd_step us" mem "(st, h, i, r)"] assms
  by (auto simp: hd_spaces_def hd_space_before_value_def hd_space_after_value_def)

lemma scan_hd_value_end:
  assumes "hd_spaces mem w z" "w \<le> z" "Suc z < e" "mem ! z = CR" "mem ! Suc z = LF"
  shows "scan (hd_step us) mem w e (hd_sw_value, h, i, r) = Stop (Suc z, Hd_done, h, i, r\<lparr>r_header_end := w\<rparr>)"
proof -
  let ?r = "r\<lparr>r_header_end := w\<rparr>"
  have "scan (hd_step us) mem w e (hd_sw_value, h, i, r) = scan (hd_step us) mem (Suc z) e (hd_sw_almost_done, h, i, ?r)"
  proof (cases "w = z")
    case True
    then show ?thesis using assms by (simp add: hd_value_def)
  next
    case False
    then have "mem ! w = SP" "hd_spaces mem (Suc w) z" using assms(1,2) by (simp_all add: hd_spaces_def)
    then have "scan (hd_step us) mem w e (hd_sw_value, h, i, r) = scan (hd_step us) mem (Suc w) e (hd_sw_space_after_value, h, i, ?r)"
      using assms(2,3) by (simp add: hd_value_def)
    also have "\<dots> = scan (hd_step us) mem z e (hd_sw_space_after_value, h, i, ?r)"
      using assms(2,3) False \<open>hd_spaces mem (Suc w) z\<close> by (intro scan_hd_spaces) simp_all
    also have "\<dots> = scan (hd_step us) mem (Suc z) e (hd_sw_almost_done, h, i, ?r)"
      using assms by (simp add: hd_space_after_value_def)
    finally show ?thesis .
  qed
  then show ?thesis using assms by (simp add: hd_almost_done_def)
qed

lemma scan_hd_after_name:
  assumes "mem ! u = asc CHR '':''" "u < v" "hd_spaces mem (Suc u) v" "v < w" "hd_text mem v w"
    and "mem ! v \<noteq> SP" "mem ! (w - 1) \<noteq> SP"
    and tail: "hd_spaces mem w z" "w \<le> z" "Suc z < e" "mem ! z = CR" "mem ! Suc z = LF"
  shows "scan (hd_step us) mem u e (hd_sw_name, h, i, r) =
    Stop (Suc z, Hd_done, h, i, r\<lparr>r_header_name_end := u, r_header_start := v, r_header_end := w\<rparr>)"
proof -
  let ?r = "r\<lparr>r_header_name_end := u\<rparr>"
  have "scan (hd_step us) mem u e (hd_sw_name, h, i, r) = scan (hd_step us) mem (Suc u) e (hd_sw_space_before_value, h, i, ?r)"
    using assms by (simp add: hd_name_def Let_def)
  also have "\<dots> = scan (hd_step us) mem v e (hd_sw_space_before_value, h, i, ?r)"
    using assms by (intro scan_hd_spaces) simp_all
  also have "\<dots> = scan (hd_step us) mem (Suc v) e (hd_sw_value, h, i, ?r\<lparr>r_header_start := v\<rparr>)"
    using assms by (simp add: hd_space_before_value_def hd_text_def)
  finally have first: "scan (hd_step us) mem u e (hd_sw_name, h, i, r) = \<dots>" .
  have "hd_text mem (Suc v) (Suc v + (w - Suc v))" "Suc v + (w - Suc v) = w"
    using assms(4,5) by (simp_all add: hd_text_def)
  moreover have "mem ! (w - 1) \<noteq> SP" using assms by simp
  ultimately obtain x where "scan (hd_step us) mem (Suc v) e (hd_sw_value, h, i, ?r\<lparr>r_header_start := v\<rparr>) =
      scan (hd_step us) mem w e (hd_sw_value, h, i, ?r\<lparr>r_header_start := v, r_header_end := x\<rparr>)"
    using scan_hd_value [of "Suc v" "w - Suc v" e mem us h i "?r\<lparr>r_header_start := v\<rparr>"] tail by auto
  with first scan_hd_value_end [OF tail] show ?thesis by simp
qed

lemma hd_header_line_layout:
  assumes mem: "mem = pre @ hd_header_line name before val after @ rest"
    and val: "hd_value_text val" and u: "u = length pre + length name" and v: "v = Suc (u + before)"
    and w: "w = v + length val" and z: "z = w + after"
  shows "\<And>i. i < length name \<Longrightarrow> mem ! (length pre + i) = name ! i"
    and "mem ! u = asc CHR '':''" and "hd_spaces mem (Suc u) v" and "v < w" and "hd_text mem v w"
    and "mem ! v \<noteq> SP" and "mem ! (w - 1) \<noteq> SP" and "hd_spaces mem w z"
    and "mem ! z = CR" and "mem ! Suc z = LF"
proof -
  let ?line = "hd_header_line name before val after"
  have at: "mem ! (length pre + i) = ?line ! i" if "i < length ?line" for i
    using that by (simp add: mem nth_append)
  show "mem ! (length pre + i) = name ! i" if "i < length name" for i
    using that at [of i] by (simp add: hd_header_line_def nth_append)
  show "mem ! u = asc CHR '':''"
    using at [of "length name"] by (simp add: hd_header_line_def nth_append u)
  have "mem ! (Suc u + i) = SP" if "i < before" for i
    using that at [of "length name + 1 + i"] by (simp add: hd_header_line_def nth_append u add.assoc)
  then show "hd_spaces mem (Suc u) v" by (auto simp: hd_spaces_def v le_iff_add)
  have vi: "mem ! (v + i) = val ! i" if "i < length val" for i
    using that at [of "Suc (length name + before + i)"] by (simp add: hd_header_line_def nth_append u v add.assoc)
  then show "hd_text mem v w"
    using val unfolding hd_text_def hd_value_text_def w le_iff_add by (metis nth_mem add_less_cancel_left)
  show "v < w" "mem ! v \<noteq> SP" "mem ! (w - 1) \<noteq> SP"
    using val vi [of 0] vi [of "length val - 1"]
    by (auto simp: hd_conv_nth last_conv_nth w hd_value_text_def Suc_leI)
  have "mem ! (w + i) = SP" if "i < after" for i
    using that at [of "Suc (length name + before + length val + i)"]
    by (simp add: hd_header_line_def nth_append u v w add.assoc)
  then show "hd_spaces mem w z" by (auto simp: hd_spaces_def z le_iff_add)
  show "mem ! z = CR" "mem ! Suc z = LF"
    using at [of "Suc (length name + before + length val + after)"]
      at [of "Suc (Suc (length name + before + length val + after))"]
    by (simp_all add: hd_header_line_def nth_append u v w z add.assoc)
qed

lemma hd_key_name:
  assumes "\<And>i. i < length name \<Longrightarrow> mem ! (s + i) = name ! i"
  shows "hd_key mem s (s + length name) = map hd_lower name"
  using assms by (intro nth_equalityI) (simp_all add: hd_key_def)

text \<open>
  A header line printed from a name, a value and any number of spaces before and after the
  value parses to exactly the name and the value, wherever it stands in the buffer, and the
  hash and the lower-case name are those of the name.
\<close>

theorem header_line_roundtrip:
  assumes "name \<noteq> []" and "lowcase_at (hd name) \<noteq> 0" and "\<forall>c\<in>set name. hd_name_char us c"
    and "hd_value_text val" and "hd_ready r"
    and "line = hd_header_line name before val after"
    and "b_pos b = length pre" and "length (pre @ line) \<le> b_last b"
  shows "\<exists>r'. ngx_http_parse_header_line (pre @ line @ rest) b us r =
      (NGX_OK, b\<lparr>b_pos := length (pre @ line)\<rparr>, r')
    \<and> r_header_name_start r' = length pre
    \<and> r_header_name_end r' = length pre + length name
    \<and> r_header_start r' = length pre + length name + 1 + before
    \<and> r_header_end r' = length pre + length name + 1 + before + length val
    \<and> \<not> r_invalid_header r'
    \<and> r_header_hash r' = foldl ngx_hash 0 (map hd_lower name)
    \<and> (length name \<le> 32 \<longrightarrow> take (length name) (r_lowcase_header r') = map hd_lower name)"
proof -
  define mem where "mem = pre @ line @ rest"
  define u where "u = length pre + length name"
  define v where "v = Suc (u + before)"
  define w where "w = v + length val"
  define z where "z = w + after"
  note layout = hd_header_line_layout [OF mem_def [unfolded assms(6)] assms(4) u_def v_def w_def z_def]
  have len: "length (pre @ line) = z + 2"
    by (simp add: assms(6) hd_header_line_def z_def w_def v_def u_def)
  then have e: "Suc z < b_last b" using assms(8) by simp
  have "\<exists>hash i r1. scan (hd_step us) mem (length pre) (b_last b) (hd_load r) =
      scan (hd_step us) mem u (b_last b) (hd_sw_name, hash, i, r1)
      \<and> r_header_name_start r1 = length pre \<and> \<not> r_invalid_header r1"
    using scan_hd_name [of "length pre" "length name" "b_last b" mem us "r_header_hash r" "r_lowcase_index r" r]
      assms(1-3,5) layout(1) layout(1) [of 0] e
    by (simp add: hd_ready_def enum_at_def hd_states_def u_def v_def w_def z_def hd_conv_nth)
  then obtain hash i r1 where name: "scan (hd_step us) mem (length pre) (b_last b) (hd_load r) =
      scan (hd_step us) mem u (b_last b) (hd_sw_name, hash, i, r1)"
      "r_header_name_start r1 = length pre" "\<not> r_invalid_header r1" by blast
  define r2 where "r2 = r1\<lparr>r_header_name_end := u, r_header_start := v, r_header_end := w,
    r_state := 0, r_header_hash := hash, r_lowcase_index := i\<rparr>"
  have parse: "ngx_http_parse_header_line mem b us r = (NGX_OK, b\<lparr>b_pos := z + 2\<rparr>, r2)"
    using scan_hd_after_name [OF layout(2) _ layout(3-8) _ e layout(9,10), of us hash i r1] name(1) assms(7)
    by (simp add: ngx_http_parse_header_line_def run_parser_def enum_index_def hd_states_def r2_def v_def z_def)
  have "r_header_hash r2 = foldl ngx_hash 0 (map hd_lower name)"
    "length name \<le> 32 \<longrightarrow> take (length name) (r_lowcase_header r2) = map hd_lower name"
    using header_line_keyed [OF assms(5) parse] name hd_key_name [of name mem "length pre"] layout(1)
    by (simp_all add: r2_def u_def hd_keyed_def Let_def)
  then show ?thesis
    using parse len name
    by (intro exI [of _ r2]) (simp add: mem_def [symmetric] r2_def u_def v_def w_def)
qed

theorem header_line_roundtrip_witness:
  "\<exists>r'. ngx_http_parse_header_line ([0] @ hd_header_line (bytes ''Host'') 2 (bytes ''a b'') 1 @ bytes ''X'')
      hd_example_buf False ngx_http_request_zero = (NGX_OK, hd_example_buf\<lparr>b_pos := 14\<rparr>, r')
    \<and> r_header_start r' = 8 \<and> r_header_end r' = 11"
proof -
  let ?line = "hd_header_line (bytes ''Host'') 2 (bytes ''a b'') 1"
  have line: "length ([0] @ ?line) = 14" by (simp add: hd_header_line_def)
  have "\<exists>r'. ngx_http_parse_header_line ([0] @ ?line @ bytes ''X'') hd_example_buf False ngx_http_request_zero =
      (NGX_OK, hd_example_buf\<lparr>b_pos := length ([0] @ ?line)\<rparr>, r')
    \<and> r_header_name_start r' = length [0::byte]
    \<and> r_header_name_end r' = length [0::byte] + length (bytes ''Host'')
    \<and> r_header_start r' = length [0::byte] + length (bytes ''Host'') + 1 + 2
    \<and> r_header_end r' = length [0::byte] + length (bytes ''Host'') + 1 + 2 + length (bytes ''a b'')
    \<and> \<not> r_invalid_header r'
    \<and> r_header_hash r' = foldl ngx_hash 0 (map hd_lower (bytes ''Host''))
    \<and> (length (bytes ''Host'') \<le> 32 \<longrightarrow>
        take (length (bytes ''Host'')) (r_lowcase_header r') = map hd_lower (bytes ''Host''))"
    by (rule header_line_roundtrip [where after = 1])
      (simp_all add: hd_value_text_def hd_ready_zero hd_name_char_def lowcase_at_eq is_digit_def
         hd_header_line_def hd_example_buf_def)
  with line show ?thesis by auto
qed

end
