(* ===== verification/Ngx_Http_Status_Line.thy ===== *)
theory Ngx_Http_Status_Line
  imports Ngx_Http_Request
begin

text \<open>
  \<open>ngx_http_parse_status_line\<close> of \<^verbatim>\<open>src/http/ngx_http_parse.c\<close> (lines 1341--1543), which
  reads the first line of an upstream's response into an \<open>ngx_http_status_t\<close>.  Then: a parse
  can be resumed; the status code of a successful parse is the number its three digits write;
  a printed status line parses to its code and text.
\<close>

section \<open>The states\<close>

text \<open>\<open>ngx_http_status_t\<close>, \<^verbatim>\<open>src/http/ngx_http.h\<close> lines 55--60.\<close>

record ngx_http_status =
  st_code :: ngx_uint
  st_count :: ngx_uint
  st_start :: ptr
  st_end :: ptr

definition ngx_http_status_zero :: ngx_http_status where
  "ngx_http_status_zero = \<lparr>st_code = 0, st_count = 0, st_start = NULL, st_end = NULL\<rparr>"

datatype sl_state =
    sl_sw_start
  | sl_sw_H
  | sl_sw_HT
  | sl_sw_HTT
  | sl_sw_HTTP
  | sl_sw_first_major_digit
  | sl_sw_major_digit
  | sl_sw_first_minor_digit
  | sl_sw_minor_digit
  | sl_sw_status
  | sl_sw_space_after_status
  | sl_sw_status_text
  | sl_sw_almost_done

definition sl_states :: "sl_state list" where
  "sl_states =
    [sl_sw_start, sl_sw_H, sl_sw_HT, sl_sw_HTT, sl_sw_HTTP, sl_sw_first_major_digit,
     sl_sw_major_digit, sl_sw_first_minor_digit, sl_sw_minor_digit, sl_sw_status,
     sl_sw_space_after_status, sl_sw_status_text, sl_sw_almost_done]"

datatype sl_exit = Sl_done | Sl_return ngx_rc

text \<open>The parser works on the request (its field \<open>state\<close>) and on the status.\<close>

type_synonym sl_vars = "ngx_http_request \<times> ngx_http_status"
type_synonym sl_action = "(sl_state \<times> sl_vars, sl_exit \<times> sl_vars) action"

abbreviation sl_error :: "sl_vars \<Rightarrow> sl_action" where
  "sl_error v \<equiv> Stop (Sl_return NGX_ERROR, v)"

text \<open>The five states of \<open>HTTP/\<close>; lines 1370--1418.\<close>

definition sl_expect :: "char \<Rightarrow> sl_state \<Rightarrow> byte \<Rightarrow> sl_vars \<Rightarrow> sl_action" where
  "sl_expect c st ch v = (if ch = asc c then Cont (st, v) else sl_error v)"

text \<open>The version; lines 1420--1459.\<close>

definition sl_first_major_digit :: "byte \<Rightarrow> sl_vars \<Rightarrow> sl_action" where
  "sl_first_major_digit ch v =
    (if ch < asc CHR ''1'' \<or> ch > asc CHR ''9'' then sl_error v else Cont (sl_sw_major_digit, v))"

definition sl_major_digit :: "byte \<Rightarrow> sl_vars \<Rightarrow> sl_action" where
  "sl_major_digit ch v =
    (if ch = asc CHR ''.'' then Cont (sl_sw_first_minor_digit, v)
     else if ch < asc CHR ''0'' \<or> ch > asc CHR ''9'' then sl_error v
     else Cont (sl_sw_major_digit, v))"

definition sl_first_minor_digit :: "byte \<Rightarrow> sl_vars \<Rightarrow> sl_action" where
  "sl_first_minor_digit ch v =
    (if ch < asc CHR ''0'' \<or> ch > asc CHR ''9'' then sl_error v else Cont (sl_sw_minor_digit, v))"

definition sl_minor_digit :: "byte \<Rightarrow> sl_vars \<Rightarrow> sl_action" where
  "sl_minor_digit ch v =
    (if ch = asc CHR '' '' then Cont (sl_sw_status, v)
     else if ch < asc CHR ''0'' \<or> ch > asc CHR ''9'' then sl_error v
     else Cont (sl_sw_minor_digit, v))"

text \<open>The status code; lines 1461--1478.\<close>

definition sl_status :: "ptr \<Rightarrow> byte \<Rightarrow> sl_vars \<Rightarrow> sl_action" where
  "sl_status p ch v =
    (case v of (r, s) \<Rightarrow>
      if ch = asc CHR '' '' then Cont (sl_sw_status, v)
      else if ch < asc CHR ''0'' \<or> ch > asc CHR ''9'' then sl_error v
      else
        (let s = s\<lparr>st_code := st_code s * 10 + ucast ch - ucast (asc CHR ''0'' :: byte)\<rparr>;
             s = s\<lparr>st_count := st_count s + 1\<rparr>
         in if st_count s = 3 then Cont (sl_sw_space_after_status, r, s\<lparr>st_start := p - 2\<rparr>)
            else Cont (sl_sw_status, r, s)))"

definition sl_space_after_status :: "byte \<Rightarrow> sl_vars \<Rightarrow> sl_action" where
  "sl_space_after_status ch v =
    (if ch = asc CHR '' '' then Cont (sl_sw_status_text, v)
     else if ch = asc CHR ''.'' then Cont (sl_sw_status_text, v)
     else if ch = CR then Cont (sl_sw_almost_done, v)
     else if ch = LF then Stop (Sl_done, v)
     else sl_error v)"

definition sl_status_text :: "byte \<Rightarrow> sl_vars \<Rightarrow> sl_action" where
  "sl_status_text ch v =
    (if ch = CR then Cont (sl_sw_almost_done, v)
     else if ch = LF then Stop (Sl_done, v)
     else Cont (sl_sw_status_text, v))"

definition sl_almost_done :: "ptr \<Rightarrow> byte \<Rightarrow> sl_vars \<Rightarrow> sl_action" where
  "sl_almost_done p ch v =
    (case v of (r, s) \<Rightarrow>
      let v = (r, s\<lparr>st_end := p - 1\<rparr>) in
      if ch = LF then Stop (Sl_done, v) else sl_error v)"

section \<open>The loop body and the function\<close>

fun sl_step :: "mem \<Rightarrow> ptr \<Rightarrow> sl_state \<times> sl_vars \<Rightarrow> sl_action" where
  "sl_step mem p (st, v) =
    (let ch = mem ! p in
     case st of
       sl_sw_start \<Rightarrow> sl_expect CHR ''H'' sl_sw_H ch v
     | sl_sw_H \<Rightarrow> sl_expect CHR ''T'' sl_sw_HT ch v
     | sl_sw_HT \<Rightarrow> sl_expect CHR ''T'' sl_sw_HTT ch v
     | sl_sw_HTT \<Rightarrow> sl_expect CHR ''P'' sl_sw_HTTP ch v
     | sl_sw_HTTP \<Rightarrow> sl_expect CHR ''/'' sl_sw_first_major_digit ch v
     | sl_sw_first_major_digit \<Rightarrow> sl_first_major_digit ch v
     | sl_sw_major_digit \<Rightarrow> sl_major_digit ch v
     | sl_sw_first_minor_digit \<Rightarrow> sl_first_minor_digit ch v
     | sl_sw_minor_digit \<Rightarrow> sl_minor_digit ch v
     | sl_sw_status \<Rightarrow> sl_status p ch v
     | sl_sw_space_after_status \<Rightarrow> sl_space_after_status ch v
     | sl_sw_status_text \<Rightarrow> sl_status_text ch v
     | sl_sw_almost_done \<Rightarrow> sl_almost_done p ch v)"

fun sl_load :: "sl_vars \<Rightarrow> sl_state \<times> sl_vars" where
  "sl_load (r, s) = (enum_at sl_states (r_state r), r, s)"

fun sl_store :: "sl_state \<times> sl_vars \<Rightarrow> sl_vars" where
  "sl_store (st, r, s) = (r\<lparr>r_state := enum_index sl_states st\<rparr>, s)"

text \<open>The label \<open>done\<close>; lines 1532--1542.\<close>

fun sl_leave :: "ptr \<Rightarrow> ngx_buf \<Rightarrow> sl_exit \<times> sl_vars \<Rightarrow> ngx_rc \<times> ngx_buf \<times> sl_vars" where
  "sl_leave p b (Sl_done, r, s) =
     (NGX_OK, b\<lparr>b_pos := p + 1\<rparr>, r\<lparr>r_state := enum_index sl_states sl_sw_start\<rparr>,
      if st_end s = NULL then s\<lparr>st_end := p\<rparr> else s)"
| "sl_leave p b (Sl_return rc, v) = (rc, b, v)"

definition ngx_http_parse_status_line ::
  "mem \<Rightarrow> ngx_buf \<Rightarrow> ngx_http_request \<times> ngx_http_status \<Rightarrow>
   ngx_rc \<times> ngx_buf \<times> ngx_http_request \<times> ngx_http_status" where
  "ngx_http_parse_status_line mem b v = run_parser sl_step sl_load sl_store sl_leave mem b v"

section \<open>A parse can be resumed\<close>

lemmas sl_state_defs =
  sl_expect_def sl_first_major_digit_def sl_major_digit_def sl_first_minor_digit_def
  sl_minor_digit_def sl_status_def sl_space_after_status_def sl_status_text_def sl_almost_done_def

lemma set_sl_states [simp]: "st \<in> set sl_states"
  by (cases st) (simp_all add: sl_states_def)

interpretation sl: scanner sl_step
proof
  fix p and m1 m2 :: mem and s :: "sl_state \<times> sl_vars"
  assume *: "take (Suc p) m1 = take (Suc p) m2"
  obtain st v where s: "s = (st, v)" by (cases s)
  have "m1 ! p = m2 ! p" using * by (rule take_Suc_nth_eq) simp
  then show "sl_step m1 p s = sl_step m2 p s" unfolding s by simp
qed

fun sl_upd :: "nat \<Rightarrow> sl_vars \<Rightarrow> sl_vars" where
  "sl_upd k (r, s) = (r\<lparr>r_state := k\<rparr>, s)"

fun sl_exits :: "sl_exit \<times> sl_vars \<Rightarrow> bool" where
  "sl_exits (Sl_return rc, v) \<longleftrightarrow> rc = NGX_ERROR"
| "sl_exits (Sl_done, v) = True"

interpretation sl_res: resumable sl_step "\<lambda>k. map_prod id (sl_upd k)" "\<lambda>k. map_prod id (sl_upd k)"
  sl_load sl_store sl_leave "same_outcome (sl_upd 0)" sl_exits
proof (unfold_locales, goal_cases)
  case (1 m p k s)
  obtain st r t where s: "s = (st, r, t)" by (cases s) auto
  show ?case
    unfolding s by (cases st) (simp_all add: sl_state_defs Let_def map_action_if)
next
  case (2 s)
  obtain st r t where s: "s = (st, r, t)" by (cases s) auto
  show ?case unfolding s by (intro exI [of _ "enum_index sl_states st"]) simp
next
  case (3 k s)
  obtain st r t where s: "s = (st, r, t)" by (cases s) auto
  then show ?case by simp
next
  case (4 m p s x)
  obtain st r t where s: "s = (st, r, t)" by (cases s) auto
  from 4 show ?case
    unfolding s by (cases st) (auto simp: sl_state_defs Let_def split: if_splits)
next
  case (5 p b e x)
  obtain ex v where "x = (ex, v)" by (cases x)
  then show ?case by (cases ex; cases v) auto
next
  case (6 x p b)
  moreover obtain ex v where "x = (ex, v)" by (cases x)
  ultimately show ?case by (cases ex; cases v) auto
next
  case prems: (7 x p b _ k)
  moreover obtain ex v where "x = (ex, v)" by (cases x)
  ultimately show ?case by (cases ex; cases v) (auto simp: same_outcome_def)
qed (simp)

text \<open>A status line to evaluate the theorems on.\<close>

definition sl_example :: mem where
  "sl_example = 0 # bytes ''HTTP/1.1 404 No'' @ [CR, LF]"

definition sl_example_buf :: ngx_buf where
  "sl_example_buf = \<lparr>b_start = 1, b_pos = 1, b_last = 18\<rparr>"

text \<open>
  Receiving a status line in pieces makes no difference: parsing the bytes received so far
  and resuming when more have arrived gives what one parse over all of them gives.
\<close>

theorem status_line_resume:
  assumes "take (b_last b) m1 = take (b_last b) m2"
    and "b_pos b \<le> b_last b" and "b_last b \<le> e"
    and "ngx_http_parse_status_line m1 b v = (rc, b', v')"
  shows "same_outcome (sl_upd 0)
    (ngx_http_parse_status_line m2 (b\<lparr>b_last := e\<rparr>) v)
    (if rc = NGX_AGAIN then ngx_http_parse_status_line m2 (b'\<lparr>b_last := e\<rparr>) v'
     else (rc, b'\<lparr>b_last := e\<rparr>, v'))"
  using assms(4) unfolding ngx_http_parse_status_line_def by (rule sl_res.parse_resume [OF assms(1-3)])

theorem status_line_resume_witness:
  "same_outcome (sl_upd 0)
    (ngx_http_parse_status_line sl_example sl_example_buf (ngx_http_request_zero, ngx_http_status_zero))
    (case ngx_http_parse_status_line (take 12 sl_example) (sl_example_buf\<lparr>b_last := 12\<rparr>)
       (ngx_http_request_zero, ngx_http_status_zero) of
       (rc, b', v') \<Rightarrow> ngx_http_parse_status_line sl_example (b'\<lparr>b_last := 18\<rparr>) v')"
proof -
  let ?b = "sl_example_buf\<lparr>b_last := 12\<rparr>" and ?v = "(ngx_http_request_zero, ngx_http_status_zero)"
  have "take (b_last ?b) (take 12 sl_example) = take (b_last ?b) sl_example"
    "b_pos ?b \<le> b_last ?b" "b_last ?b \<le> 18" "?b\<lparr>b_last := 18\<rparr> = sl_example_buf"
    by (simp_all add: sl_example_buf_def)
  moreover have "fst (ngx_http_parse_status_line (take 12 sl_example) ?b ?v) = NGX_AGAIN"
    by code_simp
  ultimately show ?thesis
    using status_line_resume [of ?b "take 12 sl_example" sl_example 18 ?v]
    by (auto split: prod.splits)
qed

section \<open>What a successful parse leaves in the status\<close>

definition sl_fresh :: "sl_vars \<Rightarrow> bool" where
  "sl_fresh v \<longleftrightarrow> (case v of (r, s) \<Rightarrow> r_state r = 0 \<and> st_code s = 0 \<and> st_count s = 0 \<and> st_end s = NULL)"

definition sl_coded :: "ptr \<Rightarrow> mem \<Rightarrow> ptr \<Rightarrow> ngx_http_status \<Rightarrow> bool" where
  "sl_coded lo mem p s \<longleftrightarrow> st_count s = 3 \<and> unat (st_code s) < 1000 \<and> lo \<le> st_start s \<and> st_start s + 2 < p
     \<and> is_digit (mem ! (st_start s + 2)) \<and> unat (st_code s) mod 10 = unat (mem ! (st_start s + 2)) - 48"

fun sl_inv :: "ptr \<Rightarrow> mem \<Rightarrow> ptr \<Rightarrow> sl_state \<times> sl_vars \<Rightarrow> bool" where
  "sl_inv lo mem p (st, r, s) \<longleftrightarrow> 0 < lo \<and> lo \<le> p \<and> st_end s = NULL \<and>
     (if st \<in> {sl_sw_space_after_status, sl_sw_status_text, sl_sw_almost_done}
      then sl_coded lo mem p s
      else unat (st_count s) < 3 \<and> unat (st_code s) < 10 ^ unat (st_count s)
        \<and> (st \<noteq> sl_sw_start \<longrightarrow> lo < p) \<and> (st \<noteq> sl_sw_start \<and> st \<noteq> sl_sw_H \<longrightarrow> lo + 2 \<le> p))
     \<and> (st = sl_sw_almost_done \<longrightarrow> st_start s + 3 < p)"

fun sl_post :: "ptr \<Rightarrow> mem \<Rightarrow> ptr \<Rightarrow> sl_exit \<times> sl_vars \<Rightarrow> bool" where
  "sl_post lo mem p (Sl_return rc, v) \<longleftrightarrow> rc = NGX_ERROR"
| "sl_post lo mem p (Sl_done, r, s) \<longleftrightarrow> sl_coded lo mem p s \<and> mem ! p = LF
     \<and> (st_end s \<noteq> NULL \<longrightarrow> st_end s + 1 = p \<and> st_start s + 2 < st_end s)"

abbreviation sl_sat :: "ptr \<Rightarrow> mem \<Rightarrow> ptr \<Rightarrow> sl_action \<Rightarrow> bool" where
  "sl_sat lo mem p a \<equiv> action_sat (sl_inv lo mem (Suc p)) (sl_post lo mem p) a"

lemma sl_status_sat:
  assumes "sl_inv lo mem p (sl_sw_status, r, s)"
  shows "sl_sat lo mem p (sl_status p (mem ! p) (r, s))"
proof (cases "is_digit (mem ! p)")
  case True
  let ?c = "st_code s * 10 + ucast (mem ! p) - 48"
  have d: "48 \<le> unat (mem ! p)" "unat (mem ! p) \<le> 57" using True by (simp_all add: is_digit_unat)
  have n: "unat (st_count s) < 3" "unat (st_code s) < 10 ^ unat (st_count s)" "lo + 2 \<le> p" "0 < lo" "st_end s = NULL"
    using assms by simp_all
  have k: "unat (st_count s + 1) = unat (st_count s) + 1" using n(1) by (simp add: unat_word_ariths)
  have "10 ^ unat (st_count s) \<le> (10::nat) ^ 2" using n(1) by (intro power_increasing) simp_all
  then have c: "unat (st_code s) < 100" using n(2) by simp
  define j where "j = unat (mem ! p) - 48"
  have j: "j \<le> 9" "unat ?c = unat (st_code s) * 10 + j"
    using c d unat_decimal_step [OF True, of "st_code s"] by (simp_all add: j_def)
  then have "unat ?c < 10 ^ unat (st_count s + 1)" "unat ?c < 1000" "unat ?c mod 10 = unat (mem ! p) - 48"
    using n(2) c by (simp_all add: k flip: j_def)
  moreover have "st_count s + 1 = 3 \<longleftrightarrow> unat (st_count s + 1) = 3" by (simp add: word_unat_eq_iff)
  moreover have "mem ! p \<noteq> SP" "\<not> mem ! p < 48" "\<not> 57 < mem ! p"
    using d by (auto simp: word_less_nat_alt)
  moreover have "Suc (Suc (p - 2)) = p" "lo \<le> p - 2" using n(3,4) by simp_all
  ultimately show ?thesis
    using n True by (simp add: sl_status_def Let_def sl_coded_def k)
next
  case False
  then have "mem ! p < 48 \<or> 57 < mem ! p" by (auto simp: is_digit_def)
  then show ?thesis using assms by (auto simp: sl_status_def)
qed

interpretation sl_inv: scanner_inv sl_step "sl_inv lo" "sl_post lo"
proof unfold_locales
  fix m :: mem and p :: ptr and s :: "sl_state \<times> sl_vars"
  assume inv: "sl_inv lo m p s"
  obtain st r t where s: "s = (st, r, t)" by (cases s) auto
  show "sl_sat lo m p (sl_step m p s)"
  proof (cases "st = sl_sw_status")
    case True
    then show ?thesis using inv sl_status_sat by (simp add: s del: sl_inv.simps)
  next
    case False
    then show ?thesis
      using inv unfolding s
      by (cases st) (auto simp: sl_state_defs sl_coded_def Let_def)
  qed
qed

lemma sl_fresh_zero: "sl_fresh (ngx_http_request_zero, ngx_http_status_zero)"
  by (simp add: sl_fresh_def ngx_http_request_zero_def ngx_http_status_zero_def)

text \<open>
  C7. After a successful parse exactly three digits have been read, the code is below 1000 and
  its last digit is the digit two bytes after \<open>start\<close>; \<open>start\<close> and \<open>end\<close> lie in the bytes
  parsed in this order, and the last byte consumed is the line feed.
\<close>

theorem status_line_code:
  assumes "sl_fresh v" and "NULL < b_pos b"
    and "ngx_http_parse_status_line mem b v = (NGX_OK, b', r', s')"
  shows "st_count s' = 3 \<and> unat (st_code s') < 1000
    \<and> is_digit (mem ! (st_start s' + 2)) \<and> unat (st_code s') mod 10 = unat (mem ! (st_start s' + 2)) - 48
    \<and> b_pos b \<le> st_start s' \<and> st_start s' + 2 < st_end s' \<and> st_end s' < b_pos b' \<and> b_pos b' \<le> b_last b
    \<and> mem ! (b_pos b' - 1) = LF \<and> r_state r' = 0"
proof -
  have inv: "sl_inv (b_pos b) mem (b_pos b) (sl_load v)"
    using assms(1,2) by (cases v) (simp add: sl_fresh_def enum_at_def sl_states_def)
  show ?thesis
  proof (cases "scan sl_step mem (b_pos b) (b_last b) (sl_load v)")
    case (Cont x)
    then show ?thesis
      using assms(3) by (simp add: ngx_http_parse_status_line_def run_parser_def split: prod.splits)
  next
    case (Stop x)
    obtain q ex r s where x: "x = (q, ex, r, s)" by (cases x) auto
    from sl_inv.scan_post [OF inv Stop [unfolded x]]
    have post: "b_pos b \<le> q" "q < b_last b" "sl_post (b_pos b) mem q (ex, r, s)" by simp_all
    have leave: "sl_leave q b (ex, r, s) = (NGX_OK, b', r', s')"
      using assms(3) Stop x by (simp add: ngx_http_parse_status_line_def run_parser_def)
    then have "ex = Sl_done" using post by (cases ex) auto
    with post leave show ?thesis
      by (auto simp: sl_coded_def enum_index_def sl_states_def split: if_splits)
  qed
qed

theorem status_line_code_witness:
  "case ngx_http_parse_status_line sl_example sl_example_buf (ngx_http_request_zero, ngx_http_status_zero) of
     (rc, b', r', s') \<Rightarrow> rc = NGX_OK \<and> unat (st_code s') < 1000 \<and> st_start s' + 2 < st_end s'"
proof -
  let ?v = "(ngx_http_request_zero, ngx_http_status_zero)"
  have "fst (ngx_http_parse_status_line sl_example sl_example_buf ?v) = NGX_OK" by code_simp
  then obtain b' r' s' where p: "ngx_http_parse_status_line sl_example sl_example_buf ?v = (NGX_OK, b', r', s')"
    by (cases "ngx_http_parse_status_line sl_example sl_example_buf ?v") auto
  have "NULL < b_pos sl_example_buf" by (simp add: sl_example_buf_def)
  from status_line_code [OF sl_fresh_zero this p] p show ?thesis by simp
qed

text \<open>
  The digits need not be adjacent: the state \<open>sw_status\<close> skips spaces also between them, and
  then \<open>start\<close>, computed as two bytes before the third digit, is not where the code begins.
\<close>

theorem status_line_split_code:
  "case ngx_http_parse_status_line (0 # bytes ''HTTP/1.1 2 0 4'' @ [LF]) \<lparr>b_start = 1, b_pos = 1, b_last = 16\<rparr>
      (ngx_http_request_zero, ngx_http_status_zero) of
     (rc, b', r', s') \<Rightarrow> rc = NGX_OK \<and> st_code s' = 204 \<and> st_start s' = 12"
  by code_simp

section \<open>Printing a status line and parsing it\<close>

definition sl_status_line :: "byte \<Rightarrow> byte \<Rightarrow> byte \<Rightarrow> byte \<Rightarrow> byte \<Rightarrow> byte list \<Rightarrow> byte list" where
  "sl_status_line major minor d1 d2 d3 txt =
     bytes ''HTTP/'' @ [major, asc CHR ''.'', minor, SP, d1, d2, d3, SP] @ txt @ [CR, LF]"

lemma scan_sl_prefix:
  assumes "q + 13 \<le> e" and b: "\<And>i. i < 13 \<Longrightarrow> mem ! (q + i) =
      (bytes ''HTTP/'' @ [major, asc CHR ''.'', minor, SP, d1, d2, d3, SP]) ! i"
    and "is_digit major" "major \<noteq> asc CHR ''0''" "is_digit minor" "is_digit d1" "is_digit d2" "is_digit d3"
    and "st_count s = 0"
  shows "scan sl_step mem q e (sl_sw_start, r, s) = scan sl_step mem (q + 13) e (sl_sw_status_text, r,
     s\<lparr>st_code := ((st_code s * 10 + ucast d1 - 48) * 10 + ucast d2 - 48) * 10 + ucast d3 - 48,
       st_count := 3, st_start := q + 9\<rparr>)"
proof -
  have h: "mem ! q = asc CHR ''H''" "mem ! Suc q = asc CHR ''T''" "mem ! Suc (Suc q) = asc CHR ''T''"
    "mem ! Suc (Suc (Suc q)) = asc CHR ''P''" "mem ! Suc (Suc (Suc (Suc q))) = asc CHR ''/''"
    "mem ! Suc (Suc (Suc (Suc (Suc q)))) = major"
    "mem ! Suc (Suc (Suc (Suc (Suc (Suc q))))) = asc CHR ''.''"
    "mem ! Suc (Suc (Suc (Suc (Suc (Suc (Suc q)))))) = minor"
    "mem ! Suc (Suc (Suc (Suc (Suc (Suc (Suc (Suc q))))))) = SP"
    "mem ! Suc (Suc (Suc (Suc (Suc (Suc (Suc (Suc (Suc q)))))))) = d1"
    "mem ! Suc (Suc (Suc (Suc (Suc (Suc (Suc (Suc (Suc (Suc q))))))))) = d2"
    "mem ! Suc (Suc (Suc (Suc (Suc (Suc (Suc (Suc (Suc (Suc (Suc q)))))))))) = d3"
    "mem ! Suc (Suc (Suc (Suc (Suc (Suc (Suc (Suc (Suc (Suc (Suc (Suc q))))))))))) = SP"
    using b [of 0] b [of 1] b [of 2] b [of 3] b [of 4] b [of 5] b [of 6] b [of 7] b [of 8] b [of 9]
      b [of 10] b [of 11] b [of 12]
    by (simp_all add: eval_nat_numeral)
  have dig: "\<not> c < 48" "\<not> 57 < c" "c \<noteq> 32" "c \<noteq> 46" if "is_digit c" for c
    using that by (auto simp: is_digit_unat word_less_nat_alt word_unat_eq_iff)
  have maj: "\<not> major < 49"
    using assms(3,4) by (auto simp: is_digit_unat word_less_nat_alt word_unat_eq_iff)
  have lt: "Suc (Suc (Suc (Suc (Suc (Suc (Suc (Suc (Suc (Suc (Suc (Suc q))))))))))) < e" using assms(1) by simp
  have e13: "q + 13 = Suc (Suc (Suc (Suc (Suc (Suc (Suc (Suc (Suc (Suc (Suc (Suc (Suc q))))))))))))"
    "q + 9 = Suc (Suc (Suc (Suc (Suc (Suc (Suc (Suc (Suc q))))))))" by simp_all
  show ?thesis unfolding e13 using lt
    by (simp add: h maj dig assms(3-9) Let_def sl_state_defs)
qed

lemma sl_code_digits:
  assumes "is_digit d1" "is_digit d2" "is_digit d3"
  shows "unat (((ucast d1 - 48) * 10 + ucast d2 - 48) * 10 + ucast d3 - 48 :: u64) =
    (unat d1 - 48) * 100 + (unat d2 - 48) * 10 + (unat d3 - 48)"
proof -
  have d: "unat d1 - 48 \<le> 9" "unat d2 - 48 \<le> 9" using assms by (auto simp: is_digit_unat)
  have "unat (ucast d1 - 48 :: u64) = unat d1 - 48"
    using unat_decimal_step [OF assms(1), of 0] by simp
  moreover from this have "unat ((ucast d1 - 48) * 10 + ucast d2 - 48 :: u64) = (unat d1 - 48) * 10 + (unat d2 - 48)"
    using unat_decimal_step [OF assms(2), of "ucast d1 - 48"] d by simp
  ultimately show ?thesis
    using unat_decimal_step [OF assms(3), of "(ucast d1 - 48) * 10 + ucast d2 - 48"] d by simp
qed

text \<open>
  A status line printed from the digits of a version, the three digits of a code and a
  text parses to the number the digits write, with \<open>start\<close> at its first digit and \<open>end\<close> at the
  end of the text.
\<close>

theorem status_line_roundtrip:
  assumes "is_digit major" and "major \<noteq> asc CHR ''0''" and "is_digit minor"
    and "is_digit d1" and "is_digit d2" and "is_digit d3"
    and "CR \<notin> set txt" and "LF \<notin> set txt" and "sl_fresh (r, s)"
    and "line = sl_status_line major minor d1 d2 d3 txt"
    and "b_pos b = length pre" and "length (pre @ line) \<le> b_last b"
  shows "\<exists>s'. ngx_http_parse_status_line (pre @ line @ rest) b (r, s) =
      (NGX_OK, b\<lparr>b_pos := length (pre @ line)\<rparr>, r\<lparr>r_state := 0\<rparr>, s')
    \<and> unat (st_code s') = (unat d1 - 48) * 100 + (unat d2 - 48) * 10 + (unat d3 - 48)
    \<and> st_start s' = length pre + 9 \<and> st_end s' = length pre + 13 + length txt"
proof -
  define mem where "mem = pre @ line @ rest"
  define q where "q = length pre"
  define h where "h = bytes ''HTTP/'' @ [major, asc CHR ''.'', minor, SP, d1, d2, d3, SP]"
  have line: "line = h @ txt @ [CR, LF]" "length h = 13"
    by (simp_all add: assms(10) sl_status_line_def h_def)
  define u where "u = q + 13 + length txt"
  have len: "length (pre @ line) = u + 2" by (simp add: line u_def q_def)
  then have e: "u + 2 \<le> b_last b" using assms(12) by simp
  have at: "mem ! (q + i) = line ! i" if "i < length line" for i
    using that by (simp add: mem_def q_def nth_append)
  have n1: "mem ! (q + i) = h ! i" if "i < 13" for i
    using that at [of i] by (simp add: line nth_append)
  have n2: "mem ! (q + 13 + i) = txt ! i" if "i < length txt" for i
    using that at [of "13 + i"] by (simp add: line nth_append add.assoc)
  have n3: "mem ! u = CR" "mem ! Suc u = LF"
    using at [of "13 + length txt"] at [of "Suc (13 + length txt)"]
    by (simp_all add: line nth_append u_def ac_simps)
  have s0: "r_state r = 0" "st_count s = 0" "st_code s = 0" using assms(9) by (simp_all add: sl_fresh_def)
  define s1 where "s1 = s\<lparr>st_code := ((st_code s * 10 + ucast d1 - 48) * 10 + ucast d2 - 48) * 10 + ucast d3 - 48,
       st_count := 3, st_start := q + 9\<rparr>"
  have "scan sl_step mem q (b_last b) (sl_load (r, s)) = scan sl_step mem (q + 13) (b_last b) (sl_sw_status_text, r, s1)"
    using scan_sl_prefix [OF _ n1 [unfolded h_def] assms(1-6) s0(2), of "b_last b" r] e s0
    by (simp add: s1_def u_def enum_at_def sl_states_def)
  also have "\<dots> = scan sl_step mem (q + 13 + length txt) (b_last b) (sl_sw_status_text, r, s1)"
  proof (rule scan_run)
    fix i assume "i < length txt"
    moreover from this have "txt ! i \<noteq> CR" "txt ! i \<noteq> LF" using assms(7,8) by (metis nth_mem)+
    ultimately show "sl_step mem (q + 13 + i) (sl_sw_status_text, r, s1) = Cont (sl_sw_status_text, r, s1)"
      using n2 [of i] by (simp add: sl_status_text_def)
  qed (use e in \<open>simp add: u_def\<close>)
  also have "q + 13 + length txt = u" by (simp add: u_def)
  also have "scan sl_step mem u (b_last b) (sl_sw_status_text, r, s1) = Stop (Suc u, Sl_done, r, s1\<lparr>st_end := u\<rparr>)"
    using n3 e by (simp add: sl_status_text_def sl_almost_done_def)
  finally have "ngx_http_parse_status_line mem b (r, s) = (NGX_OK, b\<lparr>b_pos := u + 2\<rparr>, r\<lparr>r_state := 0\<rparr>, s1\<lparr>st_end := u\<rparr>)"
    using assms(11) by (simp add: ngx_http_parse_status_line_def run_parser_def q_def enum_index_def sl_states_def u_def)
  moreover have "unat (st_code s1) = (unat d1 - 48) * 100 + (unat d2 - 48) * 10 + (unat d3 - 48)"
    unfolding s1_def using sl_code_digits [OF assms(4-6)] by (simp add: s0)
  ultimately show ?thesis
    by (intro exI [of _ "s1\<lparr>st_end := u\<rparr>"]) (simp add: mem_def s1_def u_def q_def line)
qed

theorem status_line_roundtrip_witness:
  "\<exists>s'. ngx_http_parse_status_line ([0] @ bytes ''HTTP/1.1 404 No'' @ [CR, LF] @ bytes ''X'')
      \<lparr>b_start = 1, b_pos = 1, b_last = 19\<rparr> (ngx_http_request_zero, ngx_http_status_zero) =
      (NGX_OK, \<lparr>b_start = 1, b_pos = 18, b_last = 19\<rparr>, ngx_http_request_zero\<lparr>r_state := 0\<rparr>, s')
    \<and> unat (st_code s') = 404"
proof -
  let ?line = "sl_status_line (asc CHR ''1'') (asc CHR ''1'') (asc CHR ''4'') (asc CHR ''0'') (asc CHR ''4'') (bytes ''No'')"
  have "\<exists>s'. ngx_http_parse_status_line ([0] @ ?line @ bytes ''X'')
      \<lparr>b_start = 1, b_pos = 1, b_last = 19\<rparr> (ngx_http_request_zero, ngx_http_status_zero) =
      (NGX_OK, \<lparr>b_start = 1, b_pos = 1, b_last = 19\<rparr>\<lparr>b_pos := length ([0] @ ?line)\<rparr>,
        ngx_http_request_zero\<lparr>r_state := 0\<rparr>, s')
    \<and> unat (st_code s') = (unat (asc CHR ''4'' :: byte) - 48) * 100 + (unat (asc CHR ''0'' :: byte) - 48) * 10
        + (unat (asc CHR ''4'' :: byte) - 48)
    \<and> st_start s' = length [0::byte] + 9 \<and> st_end s' = length [0::byte] + 13 + length (bytes ''No'')"
    by (rule status_line_roundtrip) (simp_all add: is_digit_def sl_fresh_zero sl_status_line_def)
  moreover have len: "length ([0 :: byte] @ ?line) = 18" by (simp add: sl_status_line_def)
  ultimately show ?thesis unfolding len by (auto simp: sl_status_line_def)
qed

end
