(* ===== verification/Ngx_Http_Complex_Uri.thy ===== *)
theory Ngx_Http_Complex_Uri
  imports Ngx_Http_Request "HOL-Library.Sublist"
begin

text \<open>
  \<open>ngx_http_parse_complex_uri\<close> of \<^verbatim>\<open>src/http/ngx_http_parse.c\<close> (lines 1016--1338), which
  decodes the percent escapes of a URI and resolves the segments \<open>.\<close> and \<open>..\<close>.  The loop does
  not consume a byte in every round (a decoded character is looked at again in the state
  before the escape), so it runs on fuel, and twice the length of the URI is enough.

  The code writes the result to a buffer of its own, \<open>r->uri.data\<close>; the bytes written, from
  \<open>r->uri.data\<close> to \<open>u\<close>, are the list \<open>cu_u\<close>, and \<open>u--\<close> drops the last of them.  While the
  loop runs \<open>r->uri_ext\<close> points into this buffer: \<open>cu_ext\<close> is its offset.  The code
  compiled for Win32 only is left out.

  The specification is in two steps: decode the escapes, then walk over the characters with a
  stack of the segments seen so far.  The parser refines it; it follows that the result has no
  segment \<open>.\<close> or \<open>..\<close> before a slash and is never longer than the URI.
\<close>

section \<open>The state of the loop\<close>

datatype cu_state =
    cu_sw_usual
  | cu_sw_slash
  | cu_sw_dot
  | cu_sw_dot_dot
  | cu_sw_quoted
  | cu_sw_quoted_second

record cu_vars =
  cu_state :: cu_state
  cu_quoted_state :: cu_state
  cu_decoded :: byte
  cu_ch :: byte
  cu_p :: ptr
  cu_u :: "byte list"
  cu_ext :: "nat option"

text \<open>The strings of the request that the parser sets; \<open>r_exten\<close> is an offset into \<open>r_uri\<close>.\<close>

record ngx_http_request_uri = ngx_http_request +
  r_uri :: "byte list"
  r_exten :: "(nat \<times> nat) option"
  r_args :: "(ptr \<times> nat) option"

datatype cu_exit = Cu_done | Cu_args | Cu_return ngx_rc

type_synonym cu_conf = "cu_vars \<times> ngx_http_request_uri"
type_synonym cu_action = "(cu_conf, cu_exit \<times> cu_conf) action"

text \<open>\<open>ch = *p++\<close> and \<open>*u++ = c\<close>\<close>

definition cu_next :: "mem \<Rightarrow> cu_vars \<Rightarrow> cu_vars" where
  "cu_next mem v = v\<lparr>cu_ch := mem ! cu_p v, cu_p := cu_p v + 1\<rparr>"

definition cu_put :: "byte \<Rightarrow> cu_vars \<Rightarrow> cu_vars" where
  "cu_put c v = v\<lparr>cu_u := cu_u v @ [c]\<rparr>"

abbreviation cu_invalid :: "cu_conf \<Rightarrow> cu_action" where
  "cu_invalid s \<equiv> Stop (Cu_return NGX_HTTP_PARSE_INVALID_REQUEST, s)"

section \<open>The states\<close>

definition cu_usual :: "mem \<Rightarrow> cu_conf \<Rightarrow> cu_action" where
  "cu_usual mem s =
    (case s of (v, r) \<Rightarrow>
      let ch = cu_ch v in
      if is_usual ch then Cont (cu_next mem (cu_put ch v), r)
      else if ch = asc CHR ''/'' then
        Cont (cu_next mem (cu_put ch (v\<lparr>cu_ext := None, cu_state := cu_sw_slash\<rparr>)), r)
      else if ch = asc CHR ''%'' then
        Cont (cu_next mem (v\<lparr>cu_quoted_state := cu_state v, cu_state := cu_sw_quoted\<rparr>), r)
      else if ch = asc CHR ''?'' then Stop (Cu_args, v, r\<lparr>r_args_start := cu_p v\<rparr>)
      else if ch = asc CHR ''#'' then Stop (Cu_done, v, r)
      else if ch = asc CHR ''.'' then
        Cont (cu_next mem (cu_put ch (v\<lparr>cu_ext := Some (length (cu_u v) + 1)\<rparr>)), r)
      else if ch = asc CHR ''+'' then Cont (cu_next mem (cu_put ch v), r\<lparr>r_plus_in_uri := True\<rparr>)
      else Cont (cu_next mem (cu_put ch v), r))"

definition cu_slash :: "bool \<Rightarrow> mem \<Rightarrow> cu_conf \<Rightarrow> cu_action" where
  "cu_slash merge_slashes mem s =
    (case s of (v, r) \<Rightarrow>
      let ch = cu_ch v in
      if is_usual ch then Cont (cu_next mem (cu_put ch (v\<lparr>cu_state := cu_sw_usual\<rparr>)), r)
      else if ch = asc CHR ''/'' then
        Cont (cu_next mem (if \<not> merge_slashes then cu_put ch v else v), r)
      else if ch = asc CHR ''.'' then
        Cont (cu_next mem (cu_put ch (v\<lparr>cu_state := cu_sw_dot\<rparr>)), r)
      else if ch = asc CHR ''%'' then
        Cont (cu_next mem (v\<lparr>cu_quoted_state := cu_state v, cu_state := cu_sw_quoted\<rparr>), r)
      else if ch = asc CHR ''?'' then Stop (Cu_args, v, r\<lparr>r_args_start := cu_p v\<rparr>)
      else if ch = asc CHR ''#'' then Stop (Cu_done, v, r)
      else if ch = asc CHR ''+'' then
        Cont (cu_next mem (cu_put ch (v\<lparr>cu_state := cu_sw_usual\<rparr>)), r\<lparr>r_plus_in_uri := True\<rparr>)
      else Cont (cu_next mem (cu_put ch (v\<lparr>cu_state := cu_sw_usual\<rparr>)), r))"

definition cu_dot :: "mem \<Rightarrow> cu_conf \<Rightarrow> cu_action" where
  "cu_dot mem s =
    (case s of (v, r) \<Rightarrow>
      let ch = cu_ch v in
      if is_usual ch then Cont (cu_next mem (cu_put ch (v\<lparr>cu_state := cu_sw_usual\<rparr>)), r)
      else if ch = asc CHR ''/'' then
        Cont (cu_next mem (v\<lparr>cu_state := cu_sw_slash, cu_u := butlast (cu_u v)\<rparr>), r)
      else if ch = asc CHR ''.'' then
        Cont (cu_next mem (cu_put ch (v\<lparr>cu_state := cu_sw_dot_dot\<rparr>)), r)
      else if ch = asc CHR ''%'' then
        Cont (cu_next mem (v\<lparr>cu_quoted_state := cu_state v, cu_state := cu_sw_quoted\<rparr>), r)
      else if ch = asc CHR ''?'' then Stop (Cu_args, v, r\<lparr>r_args_start := cu_p v\<rparr>)
      else if ch = asc CHR ''#'' then Stop (Cu_done, v, r)
      else if ch = asc CHR ''+'' then
        Cont (cu_next mem (cu_put ch (v\<lparr>cu_state := cu_sw_usual\<rparr>)), r\<lparr>r_plus_in_uri := True\<rparr>)
      else Cont (cu_next mem (cu_put ch (v\<lparr>cu_state := cu_sw_usual\<rparr>)), r))"

text \<open>
  The loop that looks for the slash before the segment to remove; the pointer \<open>u\<close> is one
  below the second argument, and \<open>0\<close> stands for a pointer below \<open>r->uri.data\<close>.  After
  \<open>u -= 5\<close> the pointer is one below \<open>length (cu_u v) - 4\<close>.
\<close>

fun cu_back :: "byte list \<Rightarrow> nat \<Rightarrow> nat option" where
  "cu_back out 0 = None"
| "cu_back out (Suc u) = (if out ! u = asc CHR ''/'' then Some (Suc u) else cu_back out u)"

definition cu_dot_dot :: "mem \<Rightarrow> cu_conf \<Rightarrow> cu_action" where
  "cu_dot_dot mem s =
    (case s of (v, r) \<Rightarrow>
      let ch = cu_ch v in
      if is_usual ch then Cont (cu_next mem (cu_put ch (v\<lparr>cu_state := cu_sw_usual\<rparr>)), r)
      else if ch = asc CHR ''/'' then
        (case cu_back (cu_u v) (length (cu_u v) - 4) of
           None \<Rightarrow> cu_invalid (v\<lparr>cu_state := cu_sw_slash\<rparr>, r)
         | Some n \<Rightarrow> Cont (cu_next mem (v\<lparr>cu_state := cu_sw_slash, cu_u := take n (cu_u v)\<rparr>), r))
      else if ch = asc CHR ''%'' then
        Cont (cu_next mem (v\<lparr>cu_quoted_state := cu_state v, cu_state := cu_sw_quoted\<rparr>), r)
      else if ch = asc CHR ''?'' then Stop (Cu_args, v, r\<lparr>r_args_start := cu_p v\<rparr>)
      else if ch = asc CHR ''#'' then Stop (Cu_done, v, r)
      else if ch = asc CHR ''+'' then
        Cont (cu_next mem (cu_put ch (v\<lparr>cu_state := cu_sw_usual\<rparr>)), r\<lparr>r_plus_in_uri := True\<rparr>)
      else Cont (cu_next mem (cu_put ch (v\<lparr>cu_state := cu_sw_usual\<rparr>)), r))"

definition cu_quoted :: "mem \<Rightarrow> cu_conf \<Rightarrow> cu_action" where
  "cu_quoted mem s =
    (case s of (v, r) \<Rightarrow>
      let ch = cu_ch v; r = r\<lparr>r_quoted_uri := True\<rparr> in
      if ch \<ge> asc CHR ''0'' \<and> ch \<le> asc CHR ''9'' then
        Cont (cu_next mem (v\<lparr>cu_decoded := ch - asc CHR ''0'', cu_state := cu_sw_quoted_second\<rparr>), r)
      else
        (let c = ch OR 0x20 in
         if c \<ge> asc CHR ''a'' \<and> c \<le> asc CHR ''f'' then
           Cont (cu_next mem
             (v\<lparr>cu_decoded := c - asc CHR ''a'' + 10, cu_state := cu_sw_quoted_second\<rparr>), r)
         else cu_invalid (v, r)))"

definition cu_quoted_second :: "mem \<Rightarrow> cu_conf \<Rightarrow> cu_action" where
  "cu_quoted_second mem s =
    (case s of (v, r) \<Rightarrow>
      let ch = cu_ch v in
      if ch \<ge> asc CHR ''0'' \<and> ch \<le> asc CHR ''9'' then
        (let ch = push_bit 4 (cu_decoded v) + ch - asc CHR ''0'';
             v = v\<lparr>cu_ch := ch\<rparr>
         in
         if ch = asc CHR ''%'' \<or> ch = asc CHR ''#'' then
           Cont (cu_next mem (cu_put ch (v\<lparr>cu_state := cu_sw_usual\<rparr>)), r)
         else if ch = 0 then cu_invalid (v, r)
         else Cont (v\<lparr>cu_state := cu_quoted_state v\<rparr>, r))
      else
        (let c = ch OR 0x20 in
         if c \<ge> asc CHR ''a'' \<and> c \<le> asc CHR ''f'' then
           (let ch = push_bit 4 (cu_decoded v) + c - asc CHR ''a'' + 10;
                v = v\<lparr>cu_ch := ch\<rparr>
            in
            if ch = asc CHR ''?'' then
              Cont (cu_next mem (cu_put ch (v\<lparr>cu_state := cu_sw_usual\<rparr>)), r)
            else if ch = asc CHR ''+'' then
              Cont (v\<lparr>cu_state := cu_quoted_state v\<rparr>, r\<lparr>r_plus_in_uri := True\<rparr>)
            else Cont (v\<lparr>cu_state := cu_quoted_state v\<rparr>, r))
         else cu_invalid (v, r)))"

section \<open>The loop and the function\<close>

definition cu_step :: "bool \<Rightarrow> mem \<Rightarrow> cu_conf \<Rightarrow> cu_action" where
  "cu_step merge_slashes mem s =
    (case cu_state (fst s) of
       cu_sw_usual \<Rightarrow> cu_usual mem s
     | cu_sw_slash \<Rightarrow> cu_slash merge_slashes mem s
     | cu_sw_dot \<Rightarrow> cu_dot mem s
     | cu_sw_dot_dot \<Rightarrow> cu_dot_dot mem s
     | cu_sw_quoted \<Rightarrow> cu_quoted mem s
     | cu_sw_quoted_second \<Rightarrow> cu_quoted_second mem s)"

text \<open>\<open>while (p <= r->uri_end)\<close>; the loop falls through to \<open>done\<close>.\<close>

fun cu_loop :: "nat \<Rightarrow> bool \<Rightarrow> mem \<Rightarrow> ptr \<Rightarrow> cu_conf \<Rightarrow> (cu_exit \<times> cu_conf) option" where
  "cu_loop fuel merge_slashes mem uri_end s =
    (if cu_p (fst s) \<le> uri_end then
       (case fuel of
          0 \<Rightarrow> None
        | Suc fuel \<Rightarrow>
            (case cu_step merge_slashes mem s of
               Cont s' \<Rightarrow> cu_loop fuel merge_slashes mem uri_end s'
             | Stop x \<Rightarrow> Some x))
     else Some (Cu_done, s))"

text \<open>The code at the label \<open>done\<close> and after the loop of \<open>args\<close>.\<close>

definition cu_finish :: "cu_conf \<Rightarrow> ngx_rc \<times> ngx_http_request_uri" where
  "cu_finish s =
    (case s of (v, r) \<Rightarrow>
      (NGX_OK,
       r\<lparr>r_uri := cu_u v,
         r_exten := (case cu_ext v of None \<Rightarrow> r_exten r | Some n \<Rightarrow> Some (n, length (cu_u v) - n)),
         r_uri_ext := NULL\<rparr>))"

text \<open>The loop at the label \<open>args\<close>: the arguments end at a \<open>#\<close>; lines 1317--1327.\<close>

function cu_args :: "mem \<Rightarrow> ptr \<Rightarrow> ptr \<Rightarrow> ngx_http_request_uri \<Rightarrow> ngx_http_request_uri" where
  "cu_args mem p uri_end r =
    (if p < uri_end then
       (if mem ! p \<noteq> asc CHR ''#'' then cu_args mem (Suc p) uri_end r
        else r\<lparr>r_args := Some (r_args_start r, p - r_args_start r), r_args_start := NULL\<rparr>)
     else r)"
  by pat_completeness auto
termination
  by (relation "measure (\<lambda>(_, p, e, _). e - p)") auto

declare cu_loop.simps [simp del] cu_args.simps [simp del]

definition cu_init :: "mem \<Rightarrow> ngx_http_request_uri \<Rightarrow> cu_conf" where
  "cu_init mem r =
    (cu_next mem
       \<lparr>cu_state = cu_sw_usual, cu_quoted_state = cu_sw_usual, cu_decoded = 0, cu_ch = 0,
        cu_p = r_uri_start r, cu_u = [], cu_ext = None\<rparr>,
     r\<lparr>r_uri_ext := NULL, r_args_start := NULL\<rparr>)"

definition ngx_http_parse_complex_uri ::
  "nat \<Rightarrow> mem \<Rightarrow> ngx_http_request_uri \<Rightarrow> bool \<Rightarrow> (ngx_rc \<times> ngx_http_request_uri) option" where
  "ngx_http_parse_complex_uri fuel mem r merge_slashes =
    map_option
      (\<lambda>(x, v, r'). case x of
         Cu_done \<Rightarrow> cu_finish (v, r')
       | Cu_args \<Rightarrow> cu_finish (v, cu_args mem (cu_p v) (r_uri_end r) r')
       | Cu_return rc \<Rightarrow> (rc, r'))
      (cu_loop fuel merge_slashes mem (r_uri_end r) (cu_init mem r))"

text \<open>Two rounds for every byte of the URI are enough.\<close>

definition cu_fuel :: "ngx_http_request_uri \<Rightarrow> nat" where
  "cu_fuel r = 2 * (r_uri_end r + 1 - r_uri_start r)"

section \<open>The specification\<close>

definition cu_hex :: "byte \<Rightarrow> byte option" where
  "cu_hex c =
    (if is_digit c then Some (c - asc CHR ''0'')
     else if asc CHR ''a'' \<le> c OR 0x20 \<and> c OR 0x20 \<le> asc CHR ''f''
     then Some ((c OR 0x20) - asc CHR ''a'' + 10)
     else None)"

fun cu_decode :: "byte list \<Rightarrow> byte list option" where
  "cu_decode [] = Some []"
| "cu_decode (c # cs) =
    (if c = asc CHR ''?'' \<or> c = asc CHR ''#'' then Some []
     else if c = asc CHR ''%'' then
       (case cs of
          [] \<Rightarrow> Some []
        | x # cs1 \<Rightarrow>
           (case cu_hex x of
              None \<Rightarrow> None
            | Some h \<Rightarrow>
               (case cs1 of
                  [] \<Rightarrow> Some []
                | y # cs2 \<Rightarrow>
                   (case cu_hex y of
                      None \<Rightarrow> None
                    | Some l \<Rightarrow>
                       (if push_bit 4 h + l = 0 then None
                        else map_option ((#) (push_bit 4 h + l)) (cu_decode cs2))))))
     else map_option ((#) c) (cu_decode cs))"

text \<open>
  The walk over the decoded characters: the complete segments, the last one first, and the
  segment being read.  A slash after \<open>..\<close> removes the last segment, and where this is empty (as it
  can be if slashes are not merged) the one before it too; there must be one.
\<close>

type_synonym cu_path = "byte list list \<times> byte list"

definition cu_pop :: "byte list list \<Rightarrow> byte list list option" where
  "cu_pop stk =
    (case stk of
       [] \<Rightarrow> None
     | s # stk1 \<Rightarrow> if s \<noteq> [] then Some stk1 else (case stk1 of [] \<Rightarrow> None | _ # stk2 \<Rightarrow> Some stk2))"

fun cu_move :: "bool \<Rightarrow> byte \<Rightarrow> cu_path \<Rightarrow> cu_path option" where
  "cu_move merge c (stk, seg) =
    (if c \<noteq> asc CHR ''/'' then Some (stk, seg @ [c])
     else if seg = [] \<and> merge \<or> seg = bytes ''.'' then Some (stk, [])
     else if seg = bytes ''..'' then map_option (\<lambda>stk. (stk, [])) (cu_pop stk)
     else Some (seg # stk, []))"

fun cu_walk :: "bool \<Rightarrow> byte list \<Rightarrow> cu_path \<Rightarrow> cu_path option" where
  "cu_walk merge [] a = Some a"
| "cu_walk merge (c # cs) a = (case cu_move merge c a of None \<Rightarrow> None | Some a' \<Rightarrow> cu_walk merge cs a')"

definition cu_prefix :: "byte list list \<Rightarrow> byte list" where
  "cu_prefix stk = asc CHR ''/'' # concat (map (\<lambda>s. s @ [asc CHR ''/'']) (rev stk))"

fun cu_render :: "cu_path \<Rightarrow> byte list" where
  "cu_render (stk, seg) = cu_prefix stk @ seg"

definition cu_normalise :: "bool \<Rightarrow> byte list \<Rightarrow> byte list option" where
  "cu_normalise merge uri =
    (case cu_decode uri of
       None \<Rightarrow> None
     | Some ds \<Rightarrow> map_option cu_render (cu_walk merge (tl ds) ([], [])))"

section \<open>The parser refines the specification\<close>

lemma cu_prefix_Cons: "cu_prefix (s # stk) = cu_prefix stk @ s @ [asc CHR ''/'']"
  by (simp add: cu_prefix_def)

lemma cu_prefix_last: "cu_prefix stk = butlast (cu_prefix stk) @ [asc CHR ''/'']"
  by (induction stk) (simp_all add: cu_prefix_Cons butlast_append, simp add: cu_prefix_def)

lemma cu_prefix_pos: "0 < length (cu_prefix stk)" by (simp add: cu_prefix_def)

lemma cu_back_found:
  "i < k \<Longrightarrow> out ! i = asc CHR ''/'' \<Longrightarrow> (\<And>j. i < j \<Longrightarrow> j < k \<Longrightarrow> out ! j \<noteq> asc CHR ''/'') \<Longrightarrow>
   cu_back out k = Some (Suc i)"
proof (induction k)
  case (Suc k)
  then show ?case by (cases "i = k") (auto simp: less_Suc_eq)
qed simp

lemma cu_back_prefix:
  assumes "out = cu_prefix stk @ s @ t" "k = length (cu_prefix stk) + n" "n \<le> length s" "asc CHR ''/'' \<notin> set s"
  shows "cu_back out k = Some (length (cu_prefix stk))"
proof -
  let ?i = "length (cu_prefix stk) - 1"
  have pos: "Suc ?i = length (cu_prefix stk)" using cu_prefix_pos [of stk] by simp
  have "out ! ?i = asc CHR ''/''"
    using pos by (subst assms(1), subst cu_prefix_last) (simp add: nth_append)
  moreover have "out ! j \<noteq> asc CHR ''/''" if "?i < j" "j < k" for j
  proof -
    have "out ! j = s ! (j - length (cu_prefix stk))" "j - length (cu_prefix stk) < length s"
      using that assms(1-3) pos by (auto simp: nth_append)
    then show ?thesis using assms(4) by (metis nth_mem)
  qed
  ultimately show ?thesis using cu_back_found [of ?i k out] pos assms(2) by simp
qed

lemma cu_back_pop:
  assumes "\<forall>s\<in>set stk. asc CHR ''/'' \<notin> set s"
  shows "map_option (\<lambda>n. take n (cu_render (stk, bytes ''..''))) (cu_back (cu_render (stk, bytes ''..''))
      (length (cu_render (stk, bytes ''..'')) - 4)) = map_option cu_prefix (cu_pop stk)"
proof (cases stk)
  case Nil
  then show ?thesis by (simp add: cu_pop_def cu_prefix_def)
next
  case (Cons s stk1)
  let ?out = "cu_render (stk, bytes ''..'')"
  show ?thesis
  proof (cases "s = []")
    case False
    have "?out = cu_prefix stk1 @ s @ bytes ''/..''" by (simp add: Cons cu_prefix_Cons)
    moreover from this have "length ?out - 4 = length (cu_prefix stk1) + (length s - 1)"
      using False by (cases s) simp_all
    ultimately have "cu_back ?out (length ?out - 4) = Some (length (cu_prefix stk1))"
      using assms by (intro cu_back_prefix [of _ _ s "bytes ''/..''" _ "length s - 1"]) (simp_all add: Cons)
    then show ?thesis using False by (simp add: Cons cu_pop_def cu_prefix_Cons)
  next
    case True
    show ?thesis
    proof (cases stk1)
      case Nil
      then show ?thesis by (simp add: Cons True cu_pop_def cu_prefix_def)
    next
      case (Cons s2 stk2)
      have "?out = cu_prefix stk2 @ s2 @ bytes ''//..''"
        by (simp add: \<open>stk = s # stk1\<close> Cons True cu_prefix_Cons)
      moreover from this have "length ?out - 4 = length (cu_prefix stk2) + length s2" by simp
      ultimately have "cu_back ?out (length ?out - 4) = Some (length (cu_prefix stk2))"
        using assms by (intro cu_back_prefix [of _ _ s2 "bytes ''//..''" _ "length s2"]) (simp_all add: \<open>stk = s # stk1\<close> Cons)
      then show ?thesis using True by (simp add: \<open>stk = s # stk1\<close> Cons cu_pop_def cu_prefix_Cons)
    qed
  qed
qed

definition cu_state_of :: "byte list \<Rightarrow> cu_state" where
  "cu_state_of seg =
    (if seg = [] then cu_sw_slash else if seg = bytes ''.'' then cu_sw_dot
     else if seg = bytes ''..'' then cu_sw_dot_dot else cu_sw_usual)"

definition cu_segment :: "bool \<Rightarrow> byte list \<Rightarrow> bool" where
  "cu_segment merge s \<longleftrightarrow> asc CHR ''/'' \<notin> set s \<and> s \<noteq> bytes ''.'' \<and> s \<noteq> bytes ''..'' \<and> (merge \<longrightarrow> s \<noteq> [])"

definition cu_path_ok :: "bool \<Rightarrow> cu_path \<Rightarrow> bool" where
  "cu_path_ok merge a \<longleftrightarrow> (\<forall>s\<in>set (fst a). cu_segment merge s) \<and> asc CHR ''/'' \<notin> set (snd a)"

definition cu_ext_ok :: "nat option \<Rightarrow> cu_path \<Rightarrow> bool" where
  "cu_ext_ok e a \<longleftrightarrow>
    (case e of None \<Rightarrow> True
     | Some n \<Rightarrow> cu_state_of (snd a) = cu_sw_usual \<and> length (cu_prefix (fst a)) < n \<and> n \<le> length (cu_render a))"

definition cu_rel :: "bool \<Rightarrow> cu_vars \<Rightarrow> cu_path \<Rightarrow> bool" where
  "cu_rel merge v a \<longleftrightarrow>
     cu_u v = cu_render a \<and> cu_path_ok merge a \<and> cu_state v = cu_state_of (snd a) \<and> cu_ext_ok (cu_ext v) a"

lemma cu_state_of_snoc:
  "c \<noteq> asc CHR ''/'' \<Longrightarrow> cu_state_of (seg @ [c]) =
     (if c = asc CHR ''.'' then (if seg = [] then cu_sw_dot else if seg = bytes ''.'' then cu_sw_dot_dot else cu_sw_usual)
      else cu_sw_usual)"
  by (auto simp: cu_state_of_def append_eq_Cons_conv)

lemma cu_rel_frame [simp]:
  "cu_rel merge (v\<lparr>cu_ch := c\<rparr>) a = cu_rel merge v a"
  "cu_rel merge (v\<lparr>cu_p := p\<rparr>) a = cu_rel merge v a"
  "cu_rel merge (v\<lparr>cu_quoted_state := q\<rparr>) a = cu_rel merge v a"
  "cu_rel merge (v\<lparr>cu_decoded := d\<rparr>) a = cu_rel merge v a"
  "cu_rel merge (cu_next mem v) a = cu_rel merge v a"
  by (simp_all add: cu_rel_def cu_next_def)

lemma cu_rel_put:
  assumes "cu_rel merge v (stk, seg)" "c \<noteq> asc CHR ''/''" "st = cu_state_of (seg @ [c])"
  shows "cu_rel merge (cu_put c (v\<lparr>cu_state := st\<rparr>)) (stk, seg @ [c])"
  using assms
  by (auto simp: cu_rel_def cu_put_def cu_path_ok_def cu_ext_ok_def cu_state_of_def append_eq_Cons_conv
      split: option.splits)

lemma cu_rel_put_ext:
  assumes "cu_rel merge v (stk, seg)" "cu_state_of seg = cu_sw_usual"
  shows "cu_rel merge (cu_put (asc CHR ''.'') (v\<lparr>cu_ext := Some (Suc (length (cu_u v)))\<rparr>)) (stk, seg @ [asc CHR ''.''])"
  using assms
  by (auto simp: cu_rel_def cu_put_def cu_path_ok_def cu_ext_ok_def cu_state_of_def append_eq_Cons_conv
      split: if_splits)

lemma cu_rel_pop:
  assumes "cu_rel merge v (stk, seg)" "set stk' \<subseteq> set stk"
  shows "cu_rel merge (v\<lparr>cu_state := cu_sw_slash, cu_u := cu_prefix stk', cu_ext := None\<rparr>) (stk', [])"
  using assms by (auto simp: cu_rel_def cu_path_ok_def cu_ext_ok_def cu_state_of_def)

lemma cu_rel_push:
  assumes "cu_rel merge v (stk, seg)" "cu_segment merge seg"
  shows "cu_rel merge (cu_put (asc CHR ''/'') (v\<lparr>cu_ext := None, cu_state := cu_sw_slash\<rparr>)) (seg # stk, [])"
  using assms
  by (auto simp: cu_rel_def cu_put_def cu_path_ok_def cu_ext_ok_def cu_state_of_def cu_prefix_Cons)

lemma cu_pop_subset: "cu_pop stk = Some stk' \<Longrightarrow> set stk' \<subseteq> set stk"
  by (auto simp: cu_pop_def split: list.splits if_splits)

abbreviation cu_follows :: "bool \<Rightarrow> mem \<Rightarrow> cu_conf \<Rightarrow> cu_path \<Rightarrow> cu_action \<Rightarrow> bool" where
  "cu_follows merge mem s a x \<equiv>
    \<exists>v' r'. x = Cont (cu_next mem v', r') \<and> cu_rel merge v' a \<and> cu_p v' = cu_p (fst s)
      \<and> r_args_start r' = r_args_start (snd s)"

lemma cu_step_usual:
  assumes "cu_rel merge v (stk, seg)" "cu_state_of seg = cu_sw_usual"
    and "cu_ch v = c" "c \<noteq> asc CHR ''%''" "c \<noteq> asc CHR ''?''" "c \<noteq> asc CHR ''#''"
    and "cu_move merge c (stk, seg) = Some a"
  shows "cu_follows merge mem (v, r) a (cu_step merge mem (v, r))"
proof -
  have st: "cu_state v = cu_sw_usual" using assms by (simp add: cu_rel_def)
  have seg: "seg \<noteq> []" "seg \<noteq> bytes ''.''" "seg \<noteq> bytes ''..''" using assms(2) by (auto simp: cu_state_of_def)
  have put: "cu_rel merge (cu_put c v) (stk, seg @ [c])" if "c \<noteq> asc CHR ''/''" "c \<noteq> asc CHR ''.''"
    using cu_rel_put [OF assms(1) that(1), of cu_sw_usual] that st seg
    by (cases v) (simp add: cu_state_of_snoc)
  consider "c = asc CHR ''/''" | "c = asc CHR ''.''" | "c \<noteq> asc CHR ''/''" "c \<noteq> asc CHR ''.''" by blast
  then show ?thesis
  proof cases
    case 1
    have "cu_segment merge seg" using seg assms(1) by (simp add: cu_segment_def cu_rel_def cu_path_ok_def)
    then show ?thesis
      using 1 assms(3-7) seg st cu_rel_push [OF assms(1)] by (auto simp: cu_step_def cu_usual_def cu_put_def)
  next
    case 2
    then show ?thesis
      using assms(3-7) st cu_rel_put_ext [OF assms(1,2)] by (auto simp: cu_step_def cu_usual_def cu_put_def)
  next
    case 3
    then show ?thesis
      using assms(3-7) st put by (auto simp: cu_step_def cu_usual_def cu_put_def Let_def)
  qed
qed

lemma cu_step_slash:
  assumes "cu_rel merge v (stk, [])"
    and "cu_ch v = c" "c \<noteq> asc CHR ''%''" "c \<noteq> asc CHR ''?''" "c \<noteq> asc CHR ''#''"
    and "cu_move merge c (stk, []) = Some a"
  shows "cu_follows merge mem (v, r) a (cu_step merge mem (v, r))"
proof -
  have st: "cu_state v = cu_sw_slash" "cu_ext v = None"
    using assms by (auto simp: cu_rel_def cu_state_of_def cu_ext_ok_def split: option.splits)
  have eq: "v\<lparr>cu_ext := None, cu_state := cu_sw_slash\<rparr> = v" using st by (cases v) simp
  consider "c = asc CHR ''/''" | "c = asc CHR ''.''" | "c \<noteq> asc CHR ''/''" "c \<noteq> asc CHR ''.''" by blast
  then show ?thesis
  proof cases
    case 1
    have "cu_rel merge (cu_put (asc CHR ''/'') v) ([] # stk, [])" if "\<not> merge"
      using cu_rel_push [OF assms(1)] that by (simp add: eq cu_segment_def)
    then show ?thesis
      using 1 assms st by (cases merge) (auto simp: cu_step_def cu_slash_def cu_put_def)
  next
    case 2
    then show ?thesis
      using assms st cu_rel_put [OF assms(1), of c cu_sw_dot]
      by (auto simp: cu_step_def cu_slash_def cu_put_def cu_state_of_def)
  next
    case 3
    then have "cu_rel merge (cu_put c (v\<lparr>cu_state := cu_sw_usual\<rparr>)) (stk, [c])"
      using cu_rel_put [OF assms(1), of c cu_sw_usual] by (simp add: cu_state_of_def)
    with 3 show ?thesis
      using assms st by (auto simp: cu_step_def cu_slash_def cu_put_def Let_def)
  qed
qed

lemma cu_step_dot:
  assumes "cu_rel merge v (stk, bytes ''.'')"
    and "cu_ch v = c" "c \<noteq> asc CHR ''%''" "c \<noteq> asc CHR ''?''" "c \<noteq> asc CHR ''#''"
    and "cu_move merge c (stk, bytes ''.'') = Some a"
  shows "cu_follows merge mem (v, r) a (cu_step merge mem (v, r))"
proof -
  have st: "cu_state v = cu_sw_dot" "cu_ext v = None" and u: "cu_u v = cu_prefix stk @ bytes ''.''"
    using assms by (auto simp: cu_rel_def cu_state_of_def cu_ext_ok_def split: option.splits)
  consider "c = asc CHR ''/''" | "c = asc CHR ''.''" | "c \<noteq> asc CHR ''/''" "c \<noteq> asc CHR ''.''" by blast
  then show ?thesis
  proof cases
    case 1
    have "v\<lparr>cu_state := cu_sw_slash, cu_u := cu_prefix stk, cu_ext := None\<rparr> =
        v\<lparr>cu_state := cu_sw_slash, cu_u := butlast (cu_u v)\<rparr>"
      using st u by (cases v) (simp add: butlast_append)
    then show ?thesis
      using 1 assms st cu_rel_pop [OF assms(1), of stk] by (auto simp: cu_step_def cu_dot_def)
  next
    case 2
    then show ?thesis
      using assms st cu_rel_put [OF assms(1), of c cu_sw_dot_dot]
      by (auto simp: cu_step_def cu_dot_def cu_put_def cu_state_of_def)
  next
    case 3
    then have "cu_rel merge (cu_put c (v\<lparr>cu_state := cu_sw_usual\<rparr>)) (stk, bytes ''.'' @ [c])"
      using cu_rel_put [OF assms(1), of c cu_sw_usual] by (simp add: cu_state_of_def)
    with 3 show ?thesis
      using assms st by (auto simp: cu_step_def cu_dot_def cu_put_def Let_def)
  qed
qed

lemma cu_step_dot_dot:
  assumes "cu_rel merge v (stk, bytes ''..'')"
    and "cu_ch v = c" "c \<noteq> asc CHR ''%''" "c \<noteq> asc CHR ''?''" "c \<noteq> asc CHR ''#''"
  shows "case cu_move merge c (stk, bytes ''..'') of
      None \<Rightarrow> \<exists>s. cu_step merge mem (v, r) = cu_invalid s
    | Some a \<Rightarrow> cu_follows merge mem (v, r) a (cu_step merge mem (v, r))"
proof -
  have st: "cu_state v = cu_sw_dot_dot" "cu_ext v = None" and u: "cu_u v = cu_render (stk, bytes ''..'')"
    using assms by (auto simp: cu_rel_def cu_state_of_def cu_ext_ok_def split: option.splits)
  show ?thesis
  proof (cases "c = asc CHR ''/''")
    case True
    have "\<forall>s\<in>set stk. asc CHR ''/'' \<notin> set s"
      using assms(1) by (simp add: cu_rel_def cu_path_ok_def cu_segment_def)
    note bk = cu_back_pop [OF this, folded u]
    show ?thesis
    proof (cases "cu_pop stk")
      case None
      then have "cu_back (cu_u v) (length (cu_u v) - 4) = None" using bk by simp
      then show ?thesis using None True assms(2) st by (simp add: cu_step_def cu_dot_dot_def)
    next
      case (Some stk')
      then obtain n where n: "cu_back (cu_u v) (length (cu_u v) - 4) = Some n" "take n (cu_u v) = cu_prefix stk'"
        using bk by (auto simp: map_option_case split: option.splits)
      have "v\<lparr>cu_state := cu_sw_slash, cu_u := cu_prefix stk', cu_ext := None\<rparr> =
          v\<lparr>cu_state := cu_sw_slash, cu_u := cu_prefix stk'\<rparr>"
        using st by (cases v) simp
      with cu_rel_pop [OF assms(1) cu_pop_subset [OF Some]]
      have "cu_rel merge (v\<lparr>cu_state := cu_sw_slash, cu_u := cu_prefix stk'\<rparr>) (stk', [])" by simp
      then show ?thesis
        using True assms(2) st n Some by (auto simp: cu_step_def cu_dot_dot_def)
    qed
  next
    case False
    then have "cu_rel merge (cu_put c (v\<lparr>cu_state := cu_sw_usual\<rparr>)) (stk, bytes ''..'' @ [c])"
      using cu_rel_put [OF assms(1), of c cu_sw_usual] by (simp add: cu_state_of_def)
    with False show ?thesis
      using assms st by (auto simp: cu_step_def cu_dot_dot_def cu_put_def Let_def)
  qed
qed

lemma cu_step_move:
  assumes "cu_rel merge v a"
    and "cu_ch v = c" "c \<noteq> asc CHR ''%''" "c \<noteq> asc CHR ''?''" "c \<noteq> asc CHR ''#''"
  shows "case cu_move merge c a of
      None \<Rightarrow> \<exists>s. cu_step merge mem (v, r) = cu_invalid s
    | Some a' \<Rightarrow> cu_follows merge mem (v, r) a' (cu_step merge mem (v, r))"
proof -
  obtain stk seg where a: "a = (stk, seg)" by (cases a)
  note rel = assms(1) [unfolded a]
  show ?thesis
  proof (cases "seg = bytes ''..''")
    case True
    then show ?thesis using cu_step_dot_dot [OF rel [unfolded True] assms(2-5), of mem r] by (simp add: a)
  next
    case False
    then obtain a' where a': "cu_move merge c (stk, seg) = Some a'" by (cases "cu_move merge c (stk, seg)") (auto split: if_splits)
    consider "seg = []" | "seg = bytes ''.''" | "cu_state_of seg = cu_sw_usual"
      using False by (cases "seg = []"; cases "seg = bytes ''.''") (simp_all add: cu_state_of_def)
    then have "cu_follows merge mem (v, r) a' (cu_step merge mem (v, r))"
    proof cases
      case 1
      then show ?thesis using cu_step_slash [OF rel [unfolded 1] assms(2-5)] a' by simp
    next
      case 2
      then show ?thesis using cu_step_dot [OF rel [unfolded 2] assms(2-5)] a' by simp
    next
      case 3
      then show ?thesis using cu_step_usual [OF rel 3 assms(2-5)] a' by simp
    qed
    then show ?thesis by (simp add: a a' del: cu_move.simps)
  qed
qed

lemma cu_step_special:
  assumes "cu_rel merge v a"
  shows "cu_ch v = asc CHR ''?'' \<Longrightarrow> cu_step merge mem (v, r) = Stop (Cu_args, v, r\<lparr>r_args_start := cu_p v\<rparr>)"
    and "cu_ch v = asc CHR ''#'' \<Longrightarrow> cu_step merge mem (v, r) = Stop (Cu_done, v, r)"
    and "cu_ch v = asc CHR ''%'' \<Longrightarrow> cu_step merge mem (v, r) =
      Cont (cu_next mem (v\<lparr>cu_quoted_state := cu_state v, cu_state := cu_sw_quoted\<rparr>), r)"
  using assms
  by (auto simp: cu_rel_def cu_state_of_def cu_step_def cu_usual_def cu_slash_def cu_dot_def cu_dot_dot_def)

lemma cu_step_quoted:
  assumes "cu_state v = cu_sw_quoted"
  shows "cu_step merge mem (v, r) = (case cu_hex (cu_ch v) of
      None \<Rightarrow> cu_invalid (v, r\<lparr>r_quoted_uri := True\<rparr>)
    | Some h \<Rightarrow> Cont (cu_next mem (v\<lparr>cu_decoded := h, cu_state := cu_sw_quoted_second\<rparr>), r\<lparr>r_quoted_uri := True\<rparr>))"
  using assms by (simp add: cu_step_def cu_quoted_def cu_hex_def is_digit_def Let_def)


lemma nibbles:
  assumes "l < 16"
  shows "unat (push_bit 4 (h :: byte) + l) mod 16 = unat l"
proof -
  have "push_bit 4 h = h * 16" by (simp add: push_bit_eq_mult)
  then have "unat (push_bit 4 h + l) = (unat h * 16 + unat l) mod 256"
    by (simp add: unat_word_ariths mod_simps)
  then have "unat (push_bit 4 h + l) mod 16 = (unat h * 16 + unat l) mod 16"
    by (simp add: mod_mod_cancel)
  moreover have "unat l < 16" using assms by (simp add: word_less_nat_alt)
  ultimately show ?thesis by simp
qed

lemma cu_hex_range:
  "is_digit c \<Longrightarrow> unat (c - asc CHR ''0'') < 10"
  "asc CHR ''a'' \<le> c \<Longrightarrow> c \<le> asc CHR ''f'' \<Longrightarrow> 10 \<le> unat (c - asc CHR ''a'' + 10) \<and> unat (c - asc CHR ''a'' + 10) < 16"
proof -
  show "unat (c - asc CHR ''0'') < 10" if "is_digit c" using digit_sub(2) [OF that] by simp
  assume "asc CHR ''a'' \<le> c" "c \<le> asc CHR ''f''"
  then have "unat (c - asc CHR ''a'') = unat c - 97" "unat c \<le> 102" "97 \<le> unat c"
    by (simp_all add: unat_sub word_le_nat_alt)
  then show "10 \<le> unat (c - asc CHR ''a'' + 10) \<and> unat (c - asc CHR ''a'' + 10) < 16"
    by (subst (1 2) unat_word_ariths) (simp, linarith)
qed

lemma cu_step_quoted_second:
  assumes "cu_state v = cu_sw_quoted_second"
  shows "\<exists>r'. r_args_start r' = r_args_start r \<and> cu_step merge mem (v, r) =
    (case cu_hex (cu_ch v) of
       None \<Rightarrow> cu_invalid (v, r)
     | Some l \<Rightarrow>
        (let d = push_bit 4 (cu_decoded v) + l in
         if d = 0 then cu_invalid (v\<lparr>cu_ch := d\<rparr>, r)
         else if d = asc CHR ''%'' \<or> d = asc CHR ''#'' \<or> d = asc CHR ''?''
         then Cont (cu_next mem (cu_put d (v\<lparr>cu_ch := d, cu_state := cu_sw_usual\<rparr>)), r)
         else Cont (v\<lparr>cu_ch := d, cu_state := cu_quoted_state v\<rparr>, r')))"
proof (cases "is_digit (cu_ch v)")
  case True
  define l where "l = cu_ch v - asc CHR ''0''"
  define d where "d = push_bit 4 (cu_decoded v) + l"
  have l: "unat l < 10" using cu_hex_range(1) [OF True] by (simp add: l_def)
  then have "unat d mod 16 < 10" using nibbles [of l "cu_decoded v"] by (simp add: d_def word_less_nat_alt)
  then have "d \<noteq> asc CHR ''?''" by (auto simp: word_unat_eq_iff)
  moreover have "push_bit 4 (cu_decoded v) + cu_ch v - asc CHR ''0'' = d" by (simp add: d_def l_def)
  moreover have "cu_hex (cu_ch v) = Some l" using True by (simp add: cu_hex_def l_def)
  moreover have "asc CHR ''0'' \<le> cu_ch v \<and> cu_ch v \<le> asc CHR ''9''" using True by (simp add: is_digit_def)
  ultimately show ?thesis
    using assms
    by (intro exI [of _ r]) (simp add: cu_step_def cu_quoted_second_def Let_def d_def [symmetric])
next
  case False
  define c where "c = cu_ch v OR 0x20"
  show ?thesis
  proof (cases "asc CHR ''a'' \<le> c \<and> c \<le> asc CHR ''f''")
    case True
    define l where "l = c - asc CHR ''a'' + 10"
    define d where "d = push_bit 4 (cu_decoded v) + l"
    have l: "10 \<le> unat l" "unat l < 16" using cu_hex_range(2) [of c] True by (simp_all add: l_def)
    then have "10 \<le> unat d mod 16" using nibbles [of l "cu_decoded v"] by (simp add: d_def word_less_nat_alt)
    then have "d \<noteq> asc CHR ''%''" "d \<noteq> asc CHR ''#''" "d \<noteq> 0" by (auto simp: word_unat_eq_iff)
    moreover have "push_bit 4 (cu_decoded v) + c - asc CHR ''a'' + 10 = d" by (simp add: d_def l_def)
    moreover have "cu_hex (cu_ch v) = Some l" using False True by (simp add: cu_hex_def l_def c_def)
    moreover have "\<not> (asc CHR ''0'' \<le> cu_ch v \<and> cu_ch v \<le> asc CHR ''9'')" using False by (simp add: is_digit_def)
    ultimately show ?thesis
      using assms True
      by (intro exI [of _ "if d = asc CHR ''+'' then r\<lparr>r_plus_in_uri := True\<rparr> else r"])
        (cases "48 \<le> cu_ch v"; simp add: cu_step_def cu_quoted_second_def Let_def d_def [symmetric] c_def [symmetric])
  next
    case c: False
    have "\<not> (asc CHR ''0'' \<le> cu_ch v \<and> cu_ch v \<le> asc CHR ''9'')" using False by (simp add: is_digit_def)
    moreover have "cu_hex (cu_ch v) = None" using c False by (simp add: cu_hex_def c_def)
    ultimately show ?thesis
      using assms c by (intro exI [of _ r]) (cases "48 \<le> cu_ch v"; simp add: cu_step_def cu_quoted_second_def Let_def c_def)
  qed
qed

lemma cu_loop_end: "e < cu_p (fst s) \<Longrightarrow> cu_loop fuel merge mem e s = Some (Cu_done, s)"
  by (simp add: cu_loop.simps)

lemma cu_loop_Cont:
  "cu_p (fst s) \<le> e \<Longrightarrow> cu_step merge mem s = Cont s' \<Longrightarrow>
   cu_loop (Suc fuel) merge mem e s = cu_loop fuel merge mem e s'"
  by (simp add: cu_loop.simps [of "Suc fuel"])

lemma cu_loop_Stop:
  "cu_p (fst s) \<le> e \<Longrightarrow> cu_step merge mem s = Stop x \<Longrightarrow> cu_loop (Suc fuel) merge mem e s = Some x"
  by (simp add: cu_loop.simps [of "Suc fuel"])

abbreviation cu_fails :: "(cu_exit \<times> cu_conf) option \<Rightarrow> bool" where
  "cu_fails x \<equiv> \<exists>s. x = Some (Cu_return NGX_HTTP_PARSE_INVALID_REQUEST, s)"

definition cu_final :: "bool \<Rightarrow> mem \<Rightarrow> ptr \<Rightarrow> cu_path \<Rightarrow> (cu_exit \<times> cu_conf) option \<Rightarrow> bool" where
  "cu_final merge mem e a res \<longleftrightarrow>
    (\<exists>x v r. res = Some (x, v, r) \<and> cu_u v = cu_render a \<and> cu_path_ok merge a \<and> cu_ext_ok (cu_ext v) a
      \<and> (x = Cu_done \<and> r_args_start r = NULL
       \<or> x = Cu_args \<and> r_args_start r = cu_p v \<and> cu_p v \<le> e \<and> mem ! (cu_p v - 1) = asc CHR ''?''))"

definition cu_outcome :: "bool \<Rightarrow> mem \<Rightarrow> ptr \<Rightarrow> byte list option \<Rightarrow> cu_path \<Rightarrow> (cu_exit \<times> cu_conf) option \<Rightarrow> bool" where
  "cu_outcome merge mem e ds a res \<longleftrightarrow>
    (case ds of None \<Rightarrow> cu_fails res
     | Some ds \<Rightarrow> (case cu_walk merge ds a of None \<Rightarrow> cu_fails res | Some a' \<Rightarrow> cu_final merge mem e a' res))"

lemma cu_outcome_Cons:
  "cu_outcome merge mem e (map_option ((#) c) ds) a res \<longleftrightarrow>
    (case cu_move merge c a of
       None \<Rightarrow> cu_fails res
     | Some a' \<Rightarrow> cu_outcome merge mem e ds a' res)"
  by (cases ds) (auto simp: cu_outcome_def simp del: cu_move.simps split: option.splits)

lemma cu_outcome_Nil: "cu_outcome merge mem e (Some []) a res = cu_final merge mem e a res"
  by (simp add: cu_outcome_def)

lemma cu_next_simps [simp]:
  "cu_p (cu_next mem v) = Suc (cu_p v)" "cu_ch (cu_next mem v) = mem ! cu_p v"
  "cu_state (cu_next mem v) = cu_state v" "cu_quoted_state (cu_next mem v) = cu_quoted_state v"
  "cu_decoded (cu_next mem v) = cu_decoded v" "cu_u (cu_next mem v) = cu_u v" "cu_ext (cu_next mem v) = cu_ext v"
  by (simp_all add: cu_next_def)

text \<open>A decoded character: written at once or looked at again in the state before the escape.\<close>

lemma cu_loop_decoded:
  assumes "cu_state v = cu_sw_quoted_second" "cu_rel merge (v\<lparr>cu_state := cu_quoted_state v\<rparr>) a" "cu_p v \<le> e"
    and "cu_hex (cu_ch v) = Some l" "d = push_bit 4 (cu_decoded v) + l" "d \<noteq> 0"
  shows "case cu_move merge d a of
      None \<Rightarrow> cu_fails (cu_loop (Suc (Suc fuel)) merge mem e (v, r))
    | Some a' \<Rightarrow> \<exists>fuel' v' r'. fuel \<le> fuel' \<and>
        cu_loop (Suc (Suc fuel)) merge mem e (v, r) = cu_loop fuel' merge mem e (cu_next mem v', r')
        \<and> cu_rel merge v' a' \<and> cu_p v' = cu_p v \<and> r_args_start r' = r_args_start r"
proof -
  obtain r1 where r1: "r_args_start r1 = r_args_start r" "cu_step merge mem (v, r) =
     (if d = asc CHR ''%'' \<or> d = asc CHR ''#'' \<or> d = asc CHR ''?''
      then Cont (cu_next mem (cu_put d (v\<lparr>cu_ch := d, cu_state := cu_sw_usual\<rparr>)), r)
      else Cont (v\<lparr>cu_ch := d, cu_state := cu_quoted_state v\<rparr>, r1))"
    using cu_step_quoted_second [OF assms(1), of r merge mem] assms(4-6) by (auto simp: Let_def)
  show ?thesis
  proof (cases "d = asc CHR ''%'' \<or> d = asc CHR ''#'' \<or> d = asc CHR ''?''")
    case True
    obtain stk seg where a: "a = (stk, seg)" by (cases a)
    have "cu_rel merge (cu_put d (v\<lparr>cu_ch := d, cu_state := cu_sw_usual\<rparr>)) (stk, seg @ [d])"
      using cu_rel_put [OF assms(2) [unfolded a], of d cu_sw_usual] True
      by (auto simp: cu_state_of_snoc cu_rel_def cu_put_def)
    moreover have "cu_move merge d a = Some (stk, seg @ [d])" using True by (auto simp: a)
    moreover have "cu_p (cu_put d (v\<lparr>cu_ch := d, cu_state := cu_sw_usual\<rparr>)) = cu_p v" by (simp add: cu_put_def)
    ultimately show ?thesis
      using cu_loop_Cont [of "(v, r)" e merge mem _ "Suc fuel"] r1 True assms(3)
      by (auto intro!: exI [of _ "Suc fuel"])
  next
    case False
    define v1 where "v1 = v\<lparr>cu_ch := d, cu_state := cu_quoted_state v\<rparr>"
    have one: "cu_loop (Suc (Suc fuel)) merge mem e (v, r) = cu_loop (Suc fuel) merge mem e (v1, r1)"
      using cu_loop_Cont [of "(v, r)" e merge mem _ "Suc fuel"] r1 False assms(3) by (simp add: v1_def)
    have "cu_rel merge v1 a" "cu_ch v1 = d" "cu_p v1 = cu_p v"
      using assms(2) by (simp_all add: v1_def cu_rel_def)
    with cu_step_move [of merge v1 a d mem r1] False
    have "case cu_move merge d a of None \<Rightarrow> \<exists>s. cu_step merge mem (v1, r1) = cu_invalid s
      | Some a' \<Rightarrow> cu_follows merge mem (v1, r1) a' (cu_step merge mem (v1, r1))" by simp
    then show ?thesis
      using one assms(3) r1(1) \<open>cu_p v1 = cu_p v\<close> cu_loop_Cont [of "(v1, r1)" e merge mem _ fuel]
        cu_loop_Stop [of "(v1, r1)" e merge mem _ fuel]
      by (fastforce simp del: cu_move.simps split: option.splits)
  qed
qed

abbreviation cu_rest :: "mem \<Rightarrow> ptr \<Rightarrow> ptr \<Rightarrow> byte list" where
  "cu_rest mem i e \<equiv> map ((!) mem) [i..<e]"

lemma cu_rest_Cons: "i < e \<Longrightarrow> cu_rest mem i e = mem ! i # cu_rest mem (Suc i) e"
  by (simp add: upt_conv_Cons)

definition cu_correct_from :: "bool \<Rightarrow> mem \<Rightarrow> ptr \<Rightarrow> ptr \<Rightarrow> bool" where
  "cu_correct_from merge mem e i \<longleftrightarrow>
    (\<forall>w a r fuel. cu_p w = i \<longrightarrow> cu_rel merge w a \<longrightarrow> r_args_start r = NULL \<longrightarrow> 2 * (e - i) \<le> fuel \<longrightarrow>
      cu_outcome merge mem e (cu_decode (cu_rest mem i e)) a (cu_loop fuel merge mem e (cu_next mem w, r)))"

lemma cu_correct_fromD:
  "cu_correct_from merge mem e i \<Longrightarrow> cu_p w = i \<Longrightarrow> cu_rel merge w a \<Longrightarrow> r_args_start r = NULL \<Longrightarrow>
   2 * (e - i) \<le> fuel \<Longrightarrow>
   cu_outcome merge mem e (cu_decode (cu_rest mem i e)) a (cu_loop fuel merge mem e (cu_next mem w, r))"
  unfolding cu_correct_from_def by blast

lemma cu_outcome_Nil_rel:
  assumes "cu_u v = cu_u w" "cu_ext v = cu_ext w" "cu_rel merge w a" "r_args_start r = NULL"
  shows "cu_outcome merge mem e (Some []) a (Some (Cu_done, v, r))"
  using assms by (auto simp: cu_outcome_Nil cu_final_def cu_rel_def)

lemma cu_outcome_fails: "cu_fails res \<Longrightarrow> cu_outcome merge mem e None a res"
  by (simp add: cu_outcome_def)

lemma cu_loop_char:
  assumes IH: "cu_correct_from merge mem e (Suc (cu_p w))" and rel: "cu_rel merge w a" and "cu_p w < e"
    and "r_args_start r = NULL" "2 * (e - cu_p w) \<le> fuel"
    and c: "mem ! cu_p w = c" "c \<noteq> asc CHR ''%''"
  shows "cu_outcome merge mem e (cu_decode (cu_rest mem (cu_p w) e)) a (cu_loop fuel merge mem e (cu_next mem w, r))"
proof -
  obtain f where fuel: "fuel = Suc f" "2 * (e - Suc (cu_p w)) \<le> f" using assms(3,5) by (cases fuel) auto
  have rel1: "cu_rel merge (cu_next mem w) a" using rel by simp
  note loop = cu_loop_Stop [of "(cu_next mem w, r)" e merge mem _ f] cu_loop_Cont [of "(cu_next mem w, r)" e merge mem _ f]
  consider "c = asc CHR ''?''" | "c = asc CHR ''#''" | "c \<noteq> asc CHR ''?''" "c \<noteq> asc CHR ''#''" by blast
  then show ?thesis
  proof cases
    case 1
    then show ?thesis
      using rel assms(3) c cu_step_special(1) [OF rel1, of mem r] loop(1)
      by (auto simp: fuel cu_rest_Cons cu_outcome_Nil cu_final_def cu_rel_def)
  next
    case 2
    then show ?thesis
      using rel assms(3,4) c cu_step_special(2) [OF rel1, of mem r] loop(1)
      by (auto simp: fuel cu_rest_Cons cu_outcome_Nil cu_final_def cu_rel_def)
  next
    case 3
    have dec: "cu_decode (cu_rest mem (cu_p w) e) = map_option ((#) c) (cu_decode (cu_rest mem (Suc (cu_p w)) e))"
      using 3 c assms(3) by (simp add: cu_rest_Cons)
    have step: "case cu_move merge c a of None \<Rightarrow> \<exists>s. cu_step merge mem (cu_next mem w, r) = cu_invalid s
      | Some a' \<Rightarrow> cu_follows merge mem (cu_next mem w, r) a' (cu_step merge mem (cu_next mem w, r))"
      using cu_step_move [OF rel1, of c mem r] 3 c by simp
    show ?thesis
    proof (cases "cu_move merge c a")
      case None
      then show ?thesis using step loop(1) assms(3) by (auto simp: dec cu_outcome_Cons fuel simp del: cu_move.simps)
    next
      case (Some a')
      then obtain v' r' where "cu_step merge mem (cu_next mem w, r) = Cont (cu_next mem v', r')" "cu_rel merge v' a'"
          "cu_p v' = Suc (cu_p w)" "r_args_start r' = r_args_start r"
        using step by (auto simp del: cu_move.simps)
      with loop(2) cu_correct_fromD [OF IH, of v' a' r' f] assms(3,4) fuel Some show ?thesis
        by (simp add: dec cu_outcome_Cons fuel del: cu_move.simps)
    qed
  qed
qed

abbreviation cu_second :: "byte \<Rightarrow> byte \<Rightarrow> byte list option \<Rightarrow> byte list option" where
  "cu_second h y ds \<equiv>
    (case cu_hex y of None \<Rightarrow> None
     | Some l \<Rightarrow> if push_bit 4 h + l = 0 then None else map_option ((#) (push_bit 4 h + l)) ds)"

lemma cu_loop_second:
  assumes IH: "cu_correct_from merge mem e (cu_p v)" and st: "cu_state v = cu_sw_quoted_second"
    and rel: "cu_rel merge (v\<lparr>cu_state := cu_quoted_state v\<rparr>) a" and e: "cu_p v \<le> e"
    and args: "r_args_start r = NULL" and fuel: "2 * (e - cu_p v) \<le> fuel"
  shows "cu_outcome merge mem e (cu_second (cu_decoded v) (cu_ch v) (cu_decode (cu_rest mem (cu_p v) e))) a
    (cu_loop (Suc (Suc fuel)) merge mem e (v, r))"
proof -
  obtain r1 where r1: "r_args_start r1 = r_args_start r"
    and step: "cu_step merge mem (v, r) = (case cu_hex (cu_ch v) of
       None \<Rightarrow> cu_invalid (v, r)
     | Some l \<Rightarrow>
        (let d = push_bit 4 (cu_decoded v) + l in
         if d = 0 then cu_invalid (v\<lparr>cu_ch := d\<rparr>, r)
         else if d = asc CHR ''%'' \<or> d = asc CHR ''#'' \<or> d = asc CHR ''?''
         then Cont (cu_next mem (cu_put d (v\<lparr>cu_ch := d, cu_state := cu_sw_usual\<rparr>)), r)
         else Cont (v\<lparr>cu_ch := d, cu_state := cu_quoted_state v\<rparr>, r1)))"
    using cu_step_quoted_second [OF st, of r merge mem] by blast
  show ?thesis
  proof (cases "cu_hex (cu_ch v)")
    case None
    then show ?thesis
      using step e cu_loop_Stop [of "(v, r)" e merge mem _ "Suc fuel"] by (auto intro: cu_outcome_fails)
  next
    case (Some l)
    define d where "d = push_bit 4 (cu_decoded v) + l"
    show ?thesis
    proof (cases "d = 0")
      case True
      then show ?thesis
        using step e Some cu_loop_Stop [of "(v, r)" e merge mem _ "Suc fuel"]
        by (auto intro: cu_outcome_fails simp: d_def)
    next
      case False
      note dec = cu_loop_decoded [OF st rel e Some d_def False, of fuel mem r]
      show ?thesis
      proof (cases "cu_move merge d a")
        case None
        then show ?thesis using dec Some False by (simp add: d_def [symmetric] cu_outcome_Cons del: cu_move.simps)
      next
        case (Some a')
        then obtain f v' r' where "fuel \<le> f" "cu_rel merge v' a'" "cu_p v' = cu_p v" "r_args_start r' = r_args_start r"
          "cu_loop (Suc (Suc fuel)) merge mem e (v, r) = cu_loop f merge mem e (cu_next mem v', r')"
          using dec by (auto simp del: cu_move.simps)
        then show ?thesis
          using cu_correct_fromD [OF IH, of v' a' r' f] Some \<open>cu_hex (cu_ch v) = Some l\<close> False args fuel
          by (simp add: d_def [symmetric] cu_outcome_Cons del: cu_move.simps)
      qed
    qed
  qed
qed

lemma cu_loop_first:
  assumes IH: "cu_p v < e \<Longrightarrow> cu_correct_from merge mem e (Suc (cu_p v))" and st: "cu_state v = cu_sw_quoted"
    and rel: "cu_rel merge (v\<lparr>cu_state := cu_quoted_state v\<rparr>) a" and e: "cu_p v \<le> e"
    and args: "r_args_start r = NULL" and fuel: "2 * (e - cu_p v) \<le> fuel"
  shows "cu_outcome merge mem e
    (case cu_hex (cu_ch v) of None \<Rightarrow> None
     | Some h \<Rightarrow> (case cu_rest mem (cu_p v) e of [] \<Rightarrow> Some [] | y # cs \<Rightarrow> cu_second h y (cu_decode cs))) a
    (cu_loop (Suc fuel) merge mem e (v, r))"
proof (cases "cu_hex (cu_ch v)")
  case None
  then show ?thesis
    using cu_step_quoted [OF st, of merge mem r] e cu_loop_Stop [of "(v, r)" e merge mem _ fuel]
    by (auto intro: cu_outcome_fails)
next
  case (Some h)
  let ?v = "cu_next mem (v\<lparr>cu_decoded := h, cu_state := cu_sw_quoted_second\<rparr>)" and ?r = "r\<lparr>r_quoted_uri := True\<rparr>"
  have loop: "cu_loop (Suc fuel) merge mem e (v, r) = cu_loop fuel merge mem e (?v, ?r)"
    using Some cu_step_quoted [OF st, of merge mem r] e cu_loop_Cont [of "(v, r)" e merge mem _ fuel] by simp
  have rel2: "cu_rel merge (?v\<lparr>cu_state := cu_quoted_state ?v\<rparr>) a"
    using rel by (simp add: cu_rel_def)
  show ?thesis
  proof (cases "cu_p v = e")
    case True
    then show ?thesis
      using Some loop args rel2 cu_loop_end [of e "(?v, ?r)"]
        cu_outcome_Nil_rel [of ?v "?v\<lparr>cu_state := cu_quoted_state ?v\<rparr>" merge a ?r] by simp
  next
    case False
    then obtain f where "fuel = Suc (Suc f)" "2 * (e - Suc (cu_p v)) \<le> f"
      using e fuel by (cases fuel; cases "fuel - 1") auto
    moreover have facts: "cu_p ?v = Suc (cu_p v)" "cu_ch ?v = mem ! cu_p v" "cu_decoded ?v = h" by simp_all
    ultimately show ?thesis
      using Some loop args e False rel2 cu_loop_second [of merge mem e ?v a ?r f, unfolded facts] IH
      by (simp add: cu_rest_Cons)
  qed
qed

lemma cu_correct: "i \<le> e \<Longrightarrow> cu_correct_from merge mem e i"
proof (induction "e - i" arbitrary: i rule: less_induct)
  case less
  have IH: "cu_correct_from merge mem e j" if "i < j" "j \<le> e" for j
    using less.hyps [of j] that by simp
  show ?case
    unfolding cu_correct_from_def
  proof (intro allI impI)
    fix w a and r :: ngx_http_request_uri and fuel :: nat
    assume w: "cu_p w = i" and rel: "cu_rel merge w a" and args: "r_args_start r = NULL" and fuel: "2 * (e - i) \<le> fuel"
    let ?goal = "cu_outcome merge mem e (cu_decode (cu_rest mem i e)) a (cu_loop fuel merge mem e (cu_next mem w, r))"
    consider "i = e" | "i < e" "mem ! i \<noteq> asc CHR ''%''" | "i < e" "mem ! i = asc CHR ''%''" using less.prems by linarith
    then show ?goal
    proof cases
      case 1
      then show ?thesis
        using w args rel cu_loop_end [of e "(cu_next mem w, r)"] cu_outcome_Nil_rel [of "cu_next mem w" w] by simp
    next
      case 2
      then show ?thesis using cu_loop_char [of merge mem e w a r fuel] IH [of "Suc i"] w rel args fuel by simp
    next
      case 3
      let ?v = "cu_next mem (cu_next mem w\<lparr>cu_quoted_state := cu_state w, cu_state := cu_sw_quoted\<rparr>)"
      obtain f where f: "fuel = Suc (Suc f)" using 3 fuel by (cases fuel; cases "fuel - 1") auto
      have rel2: "cu_rel merge (?v\<lparr>cu_state := cu_quoted_state ?v\<rparr>) a" using rel by (simp add: cu_rel_def)
      have rel1: "cu_rel merge (cu_next mem w) a" using rel by simp
      have loop: "cu_loop fuel merge mem e (cu_next mem w, r) = cu_loop (Suc f) merge mem e (?v, r)"
        using cu_step_special(3) [OF rel1, of mem r] 3 w cu_loop_Cont [of "(cu_next mem w, r)" e merge mem _ "Suc f"]
        by (simp add: f)
      show ?thesis
      proof (cases "Suc i = e")
        case True
        then show ?thesis
          using 3 w loop args rel2 cu_loop_end [of e "(?v, r)" "Suc f"]
            cu_outcome_Nil_rel [of ?v "?v\<lparr>cu_state := cu_quoted_state ?v\<rparr>" merge a r]
          by (simp add: cu_rest_Cons)
      next
        case False
        have facts: "cu_p ?v = Suc (Suc i)" "cu_ch ?v = mem ! Suc i" using w by simp_all
        show ?thesis
          using 3 False loop args rel2 fuel cu_loop_first [of ?v e merge mem a r f, unfolded facts] IH [of "Suc (Suc (Suc i))"]
          by (simp add: cu_rest_Cons f)
      qed
    qed
  qed
qed

lemma cu_init_first:
  assumes "mem ! r_uri_start r = asc CHR ''/''" "r_uri_start r < e"
  shows "\<exists>w r1. cu_loop (Suc fuel) merge mem e (cu_init mem r) = cu_loop fuel merge mem e (cu_next mem w, r1)
    \<and> cu_p w = Suc (r_uri_start r) \<and> cu_rel merge w ([], []) \<and> r_args_start r1 = NULL
    \<and> r1 = r\<lparr>r_uri_ext := NULL, r_args_start := NULL\<rparr>"
proof -
  let ?v = "fst (cu_init mem r)" and ?r = "r\<lparr>r_uri_ext := NULL, r_args_start := NULL\<rparr>"
  let ?w = "cu_put (asc CHR ''/'') (?v\<lparr>cu_ext := None, cu_state := cu_sw_slash\<rparr>)"
  have "cu_step merge mem (cu_init mem r) = Cont (cu_next mem ?w, ?r)"
    using assms by (simp add: cu_init_def cu_step_def cu_usual_def)
  moreover have "cu_rel merge ?w ([], [])"
    by (simp add: cu_rel_def cu_put_def cu_init_def cu_path_ok_def cu_state_of_def cu_ext_ok_def cu_prefix_def)
  moreover have "cu_p ?w = Suc (r_uri_start r)" by (simp add: cu_put_def cu_init_def)
  ultimately show ?thesis
    using assms(2) cu_loop_Cont [of "cu_init mem r" e merge mem _ fuel]
    by (intro exI [of _ ?w] exI [of _ ?r]) (simp add: cu_init_def)
qed

text \<open>What the loop computes from the first byte of the URI.\<close>

lemma cu_run:
  assumes "mem ! r_uri_start r = asc CHR ''/''" "r_uri_start r < e" "2 * (e + 1 - r_uri_start r) \<le> fuel"
  shows "cu_outcome merge mem e (map_option tl (cu_decode (cu_rest mem (r_uri_start r) e))) ([], [])
    (cu_loop fuel merge mem e (cu_init mem r))"
proof -
  obtain f where f: "fuel = Suc f" "2 * (e - Suc (r_uri_start r)) \<le> f" using assms(2,3) by (cases fuel) auto
  obtain w r1 where w: "cu_loop (Suc f) merge mem e (cu_init mem r) = cu_loop f merge mem e (cu_next mem w, r1)"
    "cu_p w = Suc (r_uri_start r)" "cu_rel merge w ([], [])" "r_args_start r1 = NULL"
    using cu_init_first [OF assms(1,2), of f merge] by blast
  have "cu_correct_from merge mem e (Suc (r_uri_start r))" using assms(2) by (intro cu_correct) simp
  from cu_correct_fromD [OF this w(2-4) f(2)] have
    "cu_outcome merge mem e (cu_decode (cu_rest mem (Suc (r_uri_start r)) e)) ([], [])
      (cu_loop fuel merge mem e (cu_init mem r))"
    unfolding f(1) w(1) .
  moreover have "map_option tl (cu_decode (cu_rest mem (r_uri_start r) e)) = cu_decode (cu_rest mem (Suc (r_uri_start r)) e)"
    using assms(1,2) by (simp add: cu_rest_Cons option.map_comp comp_def option.map_ident)
  ultimately show ?thesis by simp
qed

section \<open>Examples\<close>

text \<open>A URI with an escape, a segment to remove, an extension and arguments.\<close>

definition cu_example :: mem where
  "cu_example = 0 # bytes ''/a%2Fb/../c.h?x#y'' @ [LF]"

definition cu_request :: "ptr \<Rightarrow> ngx_http_request_uri" where
  "cu_request e = ngx_http_request.extend (ngx_http_request_zero\<lparr>r_uri_start := 1, r_uri_end := e\<rparr>)
     \<lparr>r_uri = [], r_exten = None, r_args = None\<rparr>"

lemma cu_request_simps [simp]:
  "r_uri_start (cu_request e) = 1" "r_uri_end (cu_request e) = e" "r_exten (cu_request e) = None"
  "r_args (cu_request e) = None" "cu_fuel (cu_request e) = 2 * e"
  by (simp_all add: cu_request_def ngx_http_request_zero_def ngx_http_request.defs cu_fuel_def)

lemma cu_example_result:
  "map_option (\<lambda>(rc, r'). (rc, r_uri r')) (ngx_http_parse_complex_uri 36 cu_example (cu_request 18) True) =
     Some (NGX_OK, bytes ''/a/c.h'')"
  by code_simp

lemma cu_example_OK:
  obtains r' where "ngx_http_parse_complex_uri 36 cu_example (cu_request 18) True = Some (NGX_OK, r')"
    "r_uri r' = bytes ''/a/c.h''"
  using cu_example_result by (auto split: prod.splits)

lemma cu_example_first: "cu_example ! r_uri_start (cu_request e) = asc CHR ''/''"
  by (simp add: cu_example_def)

text \<open>
  C8. The parser refines the specification.  With two rounds for every byte of the URI it
  always returns; it accepts the URI exactly if the escapes are well-formed and no \<open>..\<close> climbs
  above the root, and then the path it leaves is the normalised one.
\<close>

theorem complex_uri_refines:
  assumes "mem ! r_uri_start r = asc CHR ''/''" and "r_uri_start r < r_uri_end r" and "cu_fuel r \<le> fuel"
  shows "case cu_normalise merge (map ((!) mem) [r_uri_start r..<r_uri_end r]) of
      None \<Rightarrow> \<exists>r'. ngx_http_parse_complex_uri fuel mem r merge = Some (NGX_HTTP_PARSE_INVALID_REQUEST, r')
    | Some out \<Rightarrow> \<exists>r'. ngx_http_parse_complex_uri fuel mem r merge = Some (NGX_OK, r') \<and> r_uri r' = out"
proof -
  note run = cu_run [OF assms(1,2) assms(3) [unfolded cu_fuel_def], of merge]
  show ?thesis
  proof (cases "cu_decode (cu_rest mem (r_uri_start r) (r_uri_end r))")
    case None
    with run show ?thesis
      by (auto simp: cu_outcome_def cu_normalise_def ngx_http_parse_complex_uri_def)
  next
    case (Some ds)
    with run show ?thesis
      by (cases "cu_walk merge (tl ds) ([], [])")
        (auto simp: cu_outcome_def cu_normalise_def ngx_http_parse_complex_uri_def cu_final_def cu_finish_def)
  qed
qed

theorem complex_uri_refines_witness:
  "cu_normalise True (bytes ''/a%2Fb/../c.h?x#y'') = Some (bytes ''/a/c.h'')
   \<and> (\<exists>r'. ngx_http_parse_complex_uri 36 cu_example (cu_request 18) True = Some (NGX_OK, r')
        \<and> r_uri r' = bytes ''/a/c.h'')"
proof -
  have uri: "map ((!) cu_example) [r_uri_start (cu_request 18)..<r_uri_end (cu_request 18)] =
      bytes ''/a%2Fb/../c.h?x#y''"
    by code_simp
  have norm: "cu_normalise True (bytes ''/a%2Fb/../c.h?x#y'') = Some (bytes ''/a/c.h'')" by code_simp
  from complex_uri_refines [OF cu_example_first, of 18 36 True] norm show ?thesis
    unfolding uri by simp
qed

section \<open>The result is normalised\<close>

lemma sublist_no_slash:
  "asc CHR ''/'' \<notin> set s \<Longrightarrow> sublist (q @ [asc CHR ''/'']) (A @ s) \<Longrightarrow> sublist (q @ [asc CHR ''/'']) A"
proof (induction s rule: rev_induct)
  case (snoc x s)
  have "sublist (q @ [asc CHR ''/'']) ((A @ s) @ [x])" using snoc.prems(2) by simp
  then have "sublist (q @ [asc CHR ''/'']) (A @ s)"
    using snoc.prems(1) unfolding sublist_snoc snoc_suffix_snoc by simp
  then show ?case using snoc by simp
qed simp

lemma suffix_last_segment:
  assumes "suffix (asc CHR ''/'' # t) (cu_prefix stk @ s)" "asc CHR ''/'' \<notin> set t" "asc CHR ''/'' \<notin> set s"
  shows "t = s"
proof -
  have last: "takeWhile (\<lambda>c. c \<noteq> asc CHR ''/'') (rev (A @ asc CHR ''/'' # x)) = rev x"
    if "asc CHR ''/'' \<notin> set x" for A x :: "byte list"
    using that by (subst rev_append, subst rev.simps, subst append_assoc, subst takeWhile_append2) auto
  obtain z where z: "cu_prefix stk @ s = z @ asc CHR ''/'' # t" using assms(1) by (auto simp: suffix_def)
  have "cu_prefix stk @ s = butlast (cu_prefix stk) @ asc CHR ''/'' # s" by (subst cu_prefix_last) simp
  with z have "rev s = rev t"
    using last [OF assms(2), of z] last [OF assms(3), of "butlast (cu_prefix stk)"] by simp
  then show ?thesis by simp
qed

lemma cu_prefix_no_segment:
  assumes "\<forall>s\<in>set stk. asc CHR ''/'' \<notin> set s \<and> s \<noteq> t" "asc CHR ''/'' \<notin> set t"
  shows "\<not> sublist (asc CHR ''/'' # t @ [asc CHR ''/'']) (cu_prefix stk)"
  using assms(1)
proof (induction stk)
  case Nil
  show ?case by (auto simp: cu_prefix_def sublist_Cons_right)
next
  case (Cons s stk)
  let ?p = "(asc CHR ''/'' # t) @ [asc CHR ''/'']"
  show ?case
  proof
    assume "sublist (asc CHR ''/'' # t @ [asc CHR ''/'']) (cu_prefix (s # stk))"
    then have "sublist ?p ((cu_prefix stk @ s) @ [asc CHR ''/''])" by (simp add: cu_prefix_Cons)
    then consider "suffix (asc CHR ''/'' # t) (cu_prefix stk @ s)" | "sublist ?p (cu_prefix stk @ s)"
      unfolding sublist_snoc snoc_suffix_snoc by blast
    then show False
    proof cases
      case 1
      then show ?thesis using suffix_last_segment [OF 1 assms(2)] Cons.prems by simp
    next
      case 2
      then show ?thesis using sublist_no_slash [of s "asc CHR ''/'' # t" "cu_prefix stk"] Cons by simp
    qed
  qed
qed

lemma cu_render_no_segment:
  assumes "cu_path_ok merge a" "asc CHR ''/'' \<notin> set t" "\<not> cu_segment merge t"
  shows "\<not> sublist (asc CHR ''/'' # t @ [asc CHR ''/'']) (cu_render a)"
proof -
  obtain stk seg where a: "a = (stk, seg)" by (cases a)
  have "\<forall>s\<in>set stk. asc CHR ''/'' \<notin> set s \<and> s \<noteq> t" 
    using assms by (auto simp: a cu_path_ok_def cu_segment_def)
  then show ?thesis
    using cu_prefix_no_segment [of stk t] sublist_no_slash [of seg "asc CHR ''/'' # t" "cu_prefix stk"] assms
    by (auto simp: a cu_path_ok_def)
qed

lemma cu_decode_length: "cu_decode cs = Some ds \<Longrightarrow> length ds \<le> length cs"
proof (induction cs arbitrary: ds rule: length_induct)
  case (1 cs)
  have IH: "cu_decode ys = Some zs \<Longrightarrow> length ys < length cs \<Longrightarrow> length zs \<le> length ys" for ys zs
    using 1 by blast
  show ?case
    using 1(2)
    by (cases cs) (auto split: if_splits option.splits list.splits dest!: IH)
qed

lemma cu_pop_length: "cu_pop stk = Some stk' \<Longrightarrow> length (cu_prefix stk') \<le> length (cu_prefix stk)"
  by (auto simp: cu_pop_def cu_prefix_Cons split: list.splits if_splits)

lemma cu_move_length: "cu_move merge c a = Some a' \<Longrightarrow> length (cu_render a') \<le> Suc (length (cu_render a))"
  by (cases a) (auto simp: cu_prefix_Cons split: if_splits dest!: cu_pop_length)

lemma cu_walk_length: "cu_walk merge ds a = Some a' \<Longrightarrow> length (cu_render a') \<le> length (cu_render a) + length ds"
proof (induction ds arbitrary: a)
  case (Cons d ds)
  then obtain b where "cu_move merge d a = Some b" "cu_walk merge ds b = Some a'"
    by (auto split: option.splits)
  with Cons.IH [of b] cu_move_length [of merge d a b] show ?case by simp
qed simp

lemma complex_uri_OK:
  assumes "mem ! r_uri_start r = asc CHR ''/''" "r_uri_start r < r_uri_end r"
    and "ngx_http_parse_complex_uri (cu_fuel r) mem r merge = Some (NGX_OK, r')"
  obtains x v r1 a where "cu_u v = cu_render a" "cu_path_ok merge a" "cu_ext_ok (cu_ext v) a"
    "length (cu_render a) \<le> r_uri_end r - r_uri_start r"
    "x = Cu_done \<and> r_args_start r1 = NULL \<and> cu_finish (v, r1) = (NGX_OK, r')
     \<or> x = Cu_args \<and> r_args_start r1 = cu_p v \<and> cu_p v \<le> r_uri_end r \<and> mem ! (cu_p v - 1) = asc CHR ''?''
       \<and> cu_finish (v, cu_args mem (cu_p v) (r_uri_end r) r1) = (NGX_OK, r')"
    "cu_loop (cu_fuel r) merge mem (r_uri_end r) (cu_init mem r) = Some (x, v, r1)"
proof -
  note run = cu_run [OF assms(1,2), of "cu_fuel r" merge, unfolded cu_fuel_def, OF order_refl, folded cu_fuel_def]
  obtain x v r1 where loop: "cu_loop (cu_fuel r) merge mem (r_uri_end r) (cu_init mem r) = Some (x, v, r1)"
    using assms(3) by (auto simp: ngx_http_parse_complex_uri_def)
  have x: "x \<noteq> Cu_return NGX_HTTP_PARSE_INVALID_REQUEST"
    using assms(3) loop by (auto simp: ngx_http_parse_complex_uri_def)
  then obtain ds a where ds: "cu_decode (cu_rest mem (r_uri_start r) (r_uri_end r)) = Some ds"
      and walk: "cu_walk merge (tl ds) ([], []) = Some a" and fin: "cu_final merge mem (r_uri_end r) a (Some (x, v, r1))"
    using run loop by (auto simp: cu_outcome_def split: option.splits)
  have "length (cu_render a) \<le> 1 + length (tl ds)"
    using cu_walk_length [OF walk] by (simp add: cu_prefix_def)
  moreover have "ds \<noteq> []" using ds assms(1,2) by (auto simp: cu_rest_Cons)
  ultimately have "length (cu_render a) \<le> r_uri_end r - r_uri_start r"
    using cu_decode_length [OF ds] by (cases ds) simp_all
  then show ?thesis
    using that [of v a x r1] fin loop assms(3)
    by (auto simp: cu_final_def ngx_http_parse_complex_uri_def)
qed

lemma cu_args_uri [simp]: "r_exten (cu_args mem p e r) = r_exten r"
  by (induction mem p e r rule: cu_args.induct) (subst cu_args.simps, simp)

text \<open>
  C9. The accepted path is safe: it begins with a slash, has no segment \<open>.\<close> or \<open>..\<close> that a
  slash follows, and with \<open>merge_slashes\<close> no two adjacent slashes.
\<close>

theorem complex_uri_safe:
  assumes "mem ! r_uri_start r = asc CHR ''/''" and "r_uri_start r < r_uri_end r"
    and "ngx_http_parse_complex_uri (cu_fuel r) mem r merge = Some (NGX_OK, r')"
  shows "r_uri r' \<noteq> [] \<and> hd (r_uri r') = asc CHR ''/''
    \<and> \<not> sublist (bytes ''/../'') (r_uri r') \<and> \<not> sublist (bytes ''/./'') (r_uri r')
    \<and> (merge \<longrightarrow> \<not> sublist (bytes ''//'') (r_uri r'))"
proof -
  obtain x v r1 a where v: "cu_u v = cu_render a" "cu_path_ok merge a"
    and fin: "x = Cu_done \<and> r_args_start r1 = NULL \<and> cu_finish (v, r1) = (NGX_OK, r')
     \<or> x = Cu_args \<and> r_args_start r1 = cu_p v \<and> cu_p v \<le> r_uri_end r \<and> mem ! (cu_p v - 1) = asc CHR ''?''
       \<and> cu_finish (v, cu_args mem (cu_p v) (r_uri_end r) r1) = (NGX_OK, r')"
    by (rule complex_uri_OK [OF assms])
  have uri: "r_uri r' = cu_render a" using fin v(1) by (auto simp: cu_finish_def)
  note no = cu_render_no_segment [OF v(2), folded uri]
  have "\<not> sublist (bytes ''/../'') (r_uri r')" "\<not> sublist (bytes ''/./'') (r_uri r')"
    using no [of "bytes ''..''"] no [of "bytes ''.''"] by (simp_all add: cu_segment_def)
  moreover have "merge \<longrightarrow> \<not> sublist (bytes ''//'') (r_uri r')" using no [of "[]"] by (simp add: cu_segment_def)
  moreover have "r_uri r' \<noteq> [] \<and> hd (r_uri r') = asc CHR ''/''"
    by (cases a) (simp add: uri cu_prefix_def)
  ultimately show ?thesis by simp
qed

theorem complex_uri_safe_witness:
  "\<exists>r'. ngx_http_parse_complex_uri 36 cu_example (cu_request 18) True = Some (NGX_OK, r')
    \<and> \<not> sublist (bytes ''/../'') (r_uri r')"
proof -
  obtain r' where "ngx_http_parse_complex_uri 36 cu_example (cu_request 18) True = Some (NGX_OK, r')"
    by (rule cu_example_OK)
  with complex_uri_safe [OF cu_example_first, of 18 True r'] show ?thesis by simp
qed

text \<open>
  The segment \<open>..\<close> at the end of the path is not resolved, and an escape cut short by the end of
  the URI is dropped.  Without \<open>merge_slashes\<close> a \<open>..\<close> after an empty segment removes the segment
  before it too.
\<close>

lemma complex_uri_quirks:
  "cu_normalise True (bytes ''/a/..'') = Some (bytes ''/a/..'')"
  "cu_normalise True (bytes ''/a%4'') = Some (bytes ''/a'')"
  "cu_normalise False (bytes ''/a//../x'') = Some (bytes ''/x'')"
  "cu_normalise False (bytes ''//../x'') = None"
  by code_simp+

section \<open>Bounds\<close>

lemma cu_step_frame:
  "(case cu_step merge mem s of
      Cont s' \<Rightarrow> r_exten (snd s') = r_exten (snd s) \<and> r_args (snd s') = r_args (snd s)
    | Stop (x, s') \<Rightarrow> r_exten (snd s') = r_exten (snd s) \<and> r_args (snd s') = r_args (snd s))"
  by (cases s; cases "cu_state (fst s)")
    (simp_all add: cu_step_def cu_usual_def cu_slash_def cu_dot_def cu_dot_dot_def cu_quoted_def
      cu_quoted_second_def Let_def split: option.splits)

lemma cu_loop_frame:
  "cu_loop fuel merge mem e s = Some (x, s') \<Longrightarrow>
   r_exten (snd s') = r_exten (snd s) \<and> r_args (snd s') = r_args (snd s)"
proof (induction fuel arbitrary: s)
  case 0
  then show ?case by (simp add: cu_loop.simps split: if_splits)
next
  case (Suc fuel)
  show ?case
  proof (cases "cu_p (fst s) \<le> e")
    case True
    then show ?thesis
      using Suc.prems Suc.IH cu_step_frame [where merge = merge and mem = mem and s = s] cu_loop_Cont [OF True] cu_loop_Stop [OF True]
      by (cases "cu_step merge mem s") fastforce+
  next
    case False
    then show ?thesis using Suc.prems by (simp add: cu_loop_end)
  qed
qed

lemma cu_args_spec:
  assumes "s \<le> p" "r_args_start r = s" "r_args r = None" "\<forall>i. s \<le> i \<and> i < p \<longrightarrow> mem ! i \<noteq> asc CHR ''#''"
  shows "r_args (cu_args mem p e r) = None \<and> r_args_start (cu_args mem p e r) = s
      \<and> (\<forall>i. s \<le> i \<and> i < e \<longrightarrow> mem ! i \<noteq> asc CHR ''#'')
    \<or> (\<exists>k. r_args (cu_args mem p e r) = Some (s, k) \<and> r_args_start (cu_args mem p e r) = NULL
      \<and> s + k < e \<and> mem ! (s + k) = asc CHR ''#'' \<and> (\<forall>i. s \<le> i \<and> i < s + k \<longrightarrow> mem ! i \<noteq> asc CHR ''#''))"
  using assms
proof (induction mem p e r rule: cu_args.induct)
  case (1 mem p e r)
  show ?case
  proof (cases "p < e \<and> mem ! p \<noteq> asc CHR ''#''")
    case True
    then have "cu_args mem p e r = cu_args mem (Suc p) e r" by (subst cu_args.simps) simp
    moreover have "\<forall>i. s \<le> i \<and> i < Suc p \<longrightarrow> mem ! i \<noteq> asc CHR ''#''"
      using 1(5) True by (auto simp: less_Suc_eq)
    ultimately show ?thesis using 1(1) True 1(2-4) by simp
  next
    case False
    then have "cu_args mem p e r = (if p < e then r\<lparr>r_args := Some (s, p - s), r_args_start := NULL\<rparr> else r)"
      using 1(3) by (subst cu_args.simps) simp
    then show ?thesis using False 1(2-5) by auto
  qed
qed

text \<open>
  The path fits the buffer the caller allocates: it is never longer than the URI.  The
  extension, where there is one, is the end of the path and has no slash.
\<close>

theorem complex_uri_bounds:
  assumes "mem ! r_uri_start r = asc CHR ''/''" and "r_uri_start r < r_uri_end r" and "r_exten r = None"
    and "ngx_http_parse_complex_uri (cu_fuel r) mem r merge = Some (NGX_OK, r')"
  shows "length (r_uri r') \<le> r_uri_end r - r_uri_start r
    \<and> (case r_exten r' of None \<Rightarrow> True
       | Some (n, k) \<Rightarrow> 0 < n \<and> n + k = length (r_uri r') \<and> asc CHR ''/'' \<notin> set (drop n (r_uri r')))"
proof -
  obtain x v r1 a where v: "cu_u v = cu_render a" "cu_path_ok merge a" "cu_ext_ok (cu_ext v) a"
      "length (cu_render a) \<le> r_uri_end r - r_uri_start r"
    and fin: "x = Cu_done \<and> r_args_start r1 = NULL \<and> cu_finish (v, r1) = (NGX_OK, r')
     \<or> x = Cu_args \<and> r_args_start r1 = cu_p v \<and> cu_p v \<le> r_uri_end r \<and> mem ! (cu_p v - 1) = asc CHR ''?''
       \<and> cu_finish (v, cu_args mem (cu_p v) (r_uri_end r) r1) = (NGX_OK, r')"
    and loop: "cu_loop (cu_fuel r) merge mem (r_uri_end r) (cu_init mem r) = Some (x, v, r1)"
    by (rule complex_uri_OK [OF assms(1,2,4)])
  have "r_exten r1 = None" using cu_loop_frame [OF loop] assms(3) by (simp add: cu_init_def)
  then have r': "r_uri r' = cu_render a" "r_exten r' = map_option (\<lambda>n. (n, length (cu_render a) - n)) (cu_ext v)"
    using fin v(1) by (auto simp: cu_finish_def map_option_case split: option.splits)
  obtain stk seg where a: "a = (stk, seg)" by (cases a)
  show ?thesis
  proof (cases "cu_ext v")
    case None
    then show ?thesis using r' v(4) by simp
  next
    case (Some n)
    then have n: "length (cu_prefix stk) < n" "n \<le> length (cu_render a)" using v(3) by (simp_all add: cu_ext_ok_def a)
    then have "drop n (cu_render a) = drop (n - length (cu_prefix stk)) seg" by (simp add: a)
    then have "asc CHR ''/'' \<notin> set (drop n (cu_render a))"
      using v(2) by (auto simp: a cu_path_ok_def dest: in_set_dropD)
    then show ?thesis using r' v(4) n Some by simp
  qed
qed

theorem complex_uri_bounds_witness:
  "\<exists>r'. ngx_http_parse_complex_uri 36 cu_example (cu_request 18) True = Some (NGX_OK, r')
    \<and> length (r_uri r') \<le> 17"
proof -
  obtain r' where "ngx_http_parse_complex_uri 36 cu_example (cu_request 18) True = Some (NGX_OK, r')"
    by (rule cu_example_OK)
  with complex_uri_bounds [OF cu_example_first, of 18 True r'] show ?thesis by simp
qed

text \<open>
  The arguments begin after the question mark that ended the path.  They end at the first
  number sign if there is one, and \<open>args_start\<close> is kept for the caller if there is none.
\<close>

theorem complex_uri_args:
  assumes "mem ! r_uri_start r = asc CHR ''/''" and "r_uri_start r < r_uri_end r" and "r_args r = None"
    and "ngx_http_parse_complex_uri (cu_fuel r) mem r merge = Some (NGX_OK, r')"
  shows "(r_args_start r' \<noteq> NULL \<longrightarrow> mem ! (r_args_start r' - 1) = asc CHR ''?'' \<and> r_args_start r' \<le> r_uri_end r
      \<and> r_args r' = None \<and> (\<forall>i. r_args_start r' \<le> i \<and> i < r_uri_end r \<longrightarrow> mem ! i \<noteq> asc CHR ''#''))
    \<and> (\<forall>s k. r_args r' = Some (s, k) \<longrightarrow> mem ! (s - 1) = asc CHR ''?'' \<and> s + k < r_uri_end r
      \<and> mem ! (s + k) = asc CHR ''#'' \<and> (\<forall>i. s \<le> i \<and> i < s + k \<longrightarrow> mem ! i \<noteq> asc CHR ''#''))"
proof -
  obtain x v r1 and a :: cu_path where fin: "x = Cu_done \<and> r_args_start r1 = NULL \<and> cu_finish (v, r1) = (NGX_OK, r')
     \<or> x = Cu_args \<and> r_args_start r1 = cu_p v \<and> cu_p v \<le> r_uri_end r \<and> mem ! (cu_p v - 1) = asc CHR ''?''
       \<and> cu_finish (v, cu_args mem (cu_p v) (r_uri_end r) r1) = (NGX_OK, r')"
    and loop: "cu_loop (cu_fuel r) merge mem (r_uri_end r) (cu_init mem r) = Some (x, v, r1)"
    by (rule complex_uri_OK [OF assms(1,2,4)])
  have r1: "r_args r1 = None" using cu_loop_frame [OF loop] assms(3) by (simp add: cu_init_def)
  from fin show ?thesis
  proof
    assume "x = Cu_done \<and> r_args_start r1 = NULL \<and> cu_finish (v, r1) = (NGX_OK, r')"
    then have "r_args_start r' = NULL" "r_args r' = None" using r1 by (auto simp: cu_finish_def)
    then show ?thesis by simp
  next
    assume args: "x = Cu_args \<and> r_args_start r1 = cu_p v \<and> cu_p v \<le> r_uri_end r \<and> mem ! (cu_p v - 1) = asc CHR ''?''
       \<and> cu_finish (v, cu_args mem (cu_p v) (r_uri_end r) r1) = (NGX_OK, r')"
    let ?r = "cu_args mem (cu_p v) (r_uri_end r) r1"
    have r': "r_args_start r' = r_args_start ?r" "r_args r' = r_args ?r" using args by (auto simp: cu_finish_def)
    have none: "\<forall>i. cu_p v \<le> i \<and> i < cu_p v \<longrightarrow> mem ! i \<noteq> asc CHR ''#''" by auto
    have start: "r_args_start r1 = cu_p v" using args by simp
    from cu_args_spec [OF order_refl start r1 none, of "r_uri_end r"] show ?thesis
      unfolding r' using args by auto
  qed
qed

theorem complex_uri_args_witness:
  "\<exists>r'. ngx_http_parse_complex_uri 36 cu_example (cu_request 18) True = Some (NGX_OK, r')
    \<and> r_args r' = Some (15, 1) \<and> cu_example ! 14 = asc CHR ''?'' \<and> cu_example ! 16 = asc CHR ''#''"
proof -
  obtain r' where ok: "ngx_http_parse_complex_uri 36 cu_example (cu_request 18) True = Some (NGX_OK, r')"
    by (rule cu_example_OK)
  have "map_option (\<lambda>(rc, r'). r_args r') (ngx_http_parse_complex_uri 36 cu_example (cu_request 18) True) =
      Some (Some (15, 1))"
    by code_simp
  then have "r_args r' = Some (15, 1)" using ok by simp
  with ok complex_uri_args [OF cu_example_first, of 18 True r'] show ?thesis by auto
qed

end
