(* ===== verification/Ngx_String_Num.thy ===== *)
theory Ngx_String_Num
  imports Ngx_Prelude
begin

text \<open>
  Numbers as text, \<^verbatim>\<open>src/core/ngx_string.c\<close>: \<open>ngx_atoi\<close>, \<open>ngx_atosz\<close>, \<open>ngx_atoof\<close>, \<open>ngx_atotm\<close>,
  \<open>ngx_atofp\<close>, \<open>ngx_hextoi\<close> (lines 863--1040), \<open>ngx_hex_dump\<close> and \<open>ngx_sprintf_num\<close>
  (lines 466--550).  A string given by pointer and length is the list of its bytes.  The four
  types \<open>ngx_int_t\<close>, \<open>ssize_t\<close>, \<open>off_t\<close> and \<open>time_t\<close> have 64 bits; \<open>NGX_ERROR\<close> is \<open>-1\<close>.

  Shown: what the parsers compute on every input, overflow included; that the printer stays
  within the buffer; that printing a number and parsing it gives the number back.
\<close>

section \<open>Parsing\<close>

abbreviation (input) NGX_ERROR_INT :: ngx_int where "NGX_ERROR_INT \<equiv> -1"

text \<open>The loop of \<open>ngx_atoi\<close> and its siblings; \<open>None\<close> is the early return of \<open>NGX_ERROR\<close>.\<close>

fun ngx_ato_loop :: "ngx_int \<Rightarrow> byte list \<Rightarrow> ngx_int option" where
  "ngx_ato_loop v [] = Some v"
| "ngx_ato_loop v (c # line) =
    (if c < asc CHR ''0'' \<or> c > asc CHR ''9'' then None
     else ngx_ato_loop (v * 10 + (ucast c - ucast (asc CHR ''0'' :: byte))) line)"

text \<open>The test after the loop.\<close>

definition ngx_not_negative :: "ngx_int option \<Rightarrow> ngx_int" where
  "ngx_not_negative r =
    (case r of
       None \<Rightarrow> NGX_ERROR_INT
     | Some v \<Rightarrow> if sint v < 0 then NGX_ERROR_INT else v)"

definition ngx_atoi :: "byte list \<Rightarrow> ngx_int" where
  "ngx_atoi line =
    (if length line = 0 then NGX_ERROR_INT else ngx_not_negative (ngx_ato_loop 0 line))"

definition ngx_atosz :: "byte list \<Rightarrow> ngx_int" where
  "ngx_atosz line =
    (if length line = 0 then NGX_ERROR_INT else ngx_not_negative (ngx_ato_loop 0 line))"

definition ngx_atoof :: "byte list \<Rightarrow> ngx_int" where
  "ngx_atoof line =
    (if length line = 0 then NGX_ERROR_INT else ngx_not_negative (ngx_ato_loop 0 line))"

definition ngx_atotm :: "byte list \<Rightarrow> ngx_int" where
  "ngx_atotm line =
    (if length line = 0 then NGX_ERROR_INT else ngx_not_negative (ngx_ato_loop 0 line))"

text \<open>A number with a decimal point, scaled by \<open>10 ^ point\<close>.\<close>

fun ngx_atofp_loop :: "ngx_int \<Rightarrow> nat \<Rightarrow> bool \<Rightarrow> byte list \<Rightarrow> (ngx_int \<times> nat) option" where
  "ngx_atofp_loop v point dot [] = Some (v, point)"
| "ngx_atofp_loop v point dot (c # line) =
    (if point = 0 then None
     else if c = asc CHR ''.'' then (if dot then None else ngx_atofp_loop v point True line)
     else if c < asc CHR ''0'' \<or> c > asc CHR ''9'' then None
     else ngx_atofp_loop (v * 10 + (ucast c - ucast (asc CHR ''0'' :: byte)))
            (if dot then point - 1 else point) dot line)"

fun ngx_scale10 :: "nat \<Rightarrow> ngx_int \<Rightarrow> ngx_int" where
  "ngx_scale10 0 v = v"
| "ngx_scale10 (Suc point) v = ngx_scale10 point (v * 10)"

definition ngx_atofp :: "byte list \<Rightarrow> nat \<Rightarrow> ngx_int" where
  "ngx_atofp line point =
    (if length line = 0 then NGX_ERROR_INT
     else ngx_not_negative (map_option (\<lambda>(v, point). ngx_scale10 point v)
            (ngx_atofp_loop 0 point False line)))"

fun ngx_hextoi_loop :: "ngx_int \<Rightarrow> byte list \<Rightarrow> ngx_int option" where
  "ngx_hextoi_loop v [] = Some v"
| "ngx_hextoi_loop v (ch # line) =
    (if ch \<ge> asc CHR ''0'' \<and> ch \<le> asc CHR ''9''
     then ngx_hextoi_loop (v * 16 + (ucast ch - ucast (asc CHR ''0'' :: byte))) line
     else
       (let c = ch OR 0x20 in
        if c \<ge> asc CHR ''a'' \<and> c \<le> asc CHR ''f''
        then ngx_hextoi_loop (v * 16 + (ucast c - ucast (asc CHR ''a'' :: byte) + 10)) line
        else None))"

definition ngx_hextoi :: "byte list \<Rightarrow> ngx_int" where
  "ngx_hextoi line =
    (if length line = 0 then NGX_ERROR_INT else ngx_not_negative (ngx_hextoi_loop 0 line))"

section \<open>Printing\<close>

definition hex_digits :: "byte list" where
  "hex_digits = bytes ''0123456789abcdef''"

definition HEX_digits :: "byte list" where
  "HEX_digits = bytes ''0123456789ABCDEF''"

primrec ngx_hex_dump :: "byte list \<Rightarrow> byte list" where
  "ngx_hex_dump [] = []"
| "ngx_hex_dump (c # src) =
    hex_digits ! unat (drop_bit 4 c) # hex_digits ! unat (c AND 0xf) # ngx_hex_dump src"

text \<open>
  The loops of \<open>ngx_sprintf_num\<close> that write the digits to \<open>temp\<close> from its end; the second
  argument is what \<open>temp\<close> holds from \<open>p\<close> on.  Numbers that fit 32 bits are divided as such.
\<close>

function sprintf_dec32 :: "u32 \<Rightarrow> byte list \<Rightarrow> byte list" where
  "sprintf_dec32 u p =
    (let p = (ucast (u mod 10) + asc CHR ''0'') # p; u = u div 10 in
     if u \<noteq> 0 then sprintf_dec32 u p else p)"
  by pat_completeness auto

function sprintf_dec64 :: "u64 \<Rightarrow> byte list \<Rightarrow> byte list" where
  "sprintf_dec64 u p =
    (let p = (ucast (u mod 10) + asc CHR ''0'') # p; u = u div 10 in
     if u \<noteq> 0 then sprintf_dec64 u p else p)"
  by pat_completeness auto

lemma unat_div10_less:
  assumes "(u :: 'a::len word) div 10 \<noteq> 0" "unat (10 :: 'a word) = 10"
  shows "unat (u div 10) < unat u"
proof -
  have "unat (u div 10) = unat u div 10" by (simp only: unat_div assms(2))
  moreover have "unat (u div 10) \<noteq> 0" using assms(1) by (simp add: unat_eq_0)
  ultimately show ?thesis by (simp add: div_eq_0_iff)
qed

termination sprintf_dec32
  by (relation "measure (\<lambda>(u, _). unat u)") (auto intro: unat_div10_less)

termination sprintf_dec64
  by (relation "measure (\<lambda>(u, _). unat u)") (auto intro: unat_div10_less)

function sprintf_hex :: "byte list \<Rightarrow> u64 \<Rightarrow> byte list \<Rightarrow> byte list" where
  "sprintf_hex tab u p =
    (let p = tab ! unat (u AND 0xf) # p; u = drop_bit 4 u in
     if u \<noteq> 0 then sprintf_hex tab u p else p)"
  by pat_completeness auto

lemma unat_drop4_less:
  assumes "drop_bit 4 (u :: u64) \<noteq> 0"
  shows "unat (drop_bit 4 u) < unat u"
proof -
  have "unat (drop_bit 4 u) = unat u div 16" by (simp add: drop_bit_eq_div unat_div)
  moreover have "unat (drop_bit 4 u) \<noteq> 0" using assms by (simp add: unat_eq_0)
  ultimately show ?thesis by (simp add: div_eq_0_iff)
qed

termination sprintf_hex
  by (relation "measure (\<lambda>(_, u, _). unat u)") (auto intro: unat_drop4_less)

declare sprintf_dec32.simps [simp del] sprintf_dec64.simps [simp del] sprintf_hex.simps [simp del]

text \<open>The digits, lines 484--534.\<close>

definition sprintf_digits :: "u64 \<Rightarrow> nat \<Rightarrow> byte list" where
  "sprintf_digits ui64 hexadecimal =
    (if hexadecimal = 0 then
       (if ui64 \<le> 0xffffffff then sprintf_dec32 (ucast ui64) [] else sprintf_dec64 ui64 [])
     else if hexadecimal = 1 then sprintf_hex hex_digits ui64 []
     else sprintf_hex HEX_digits ui64 [])"

text \<open>
  \<open>while (len++ < width && buf < last) *buf++ = zero;\<close> with \<open>room = last - buf\<close>: the bytes
  written and the room left.
\<close>

function sprintf_pad :: "nat \<Rightarrow> nat \<Rightarrow> nat \<Rightarrow> byte \<Rightarrow> byte list \<times> nat" where
  "sprintf_pad len width room zero =
    (if len < width \<and> 0 < room then
       (case sprintf_pad (len + 1) width (room - 1) zero of (bs, room') \<Rightarrow> (zero # bs, room'))
     else ([], room))"
  by pat_completeness auto
termination
  by (relation "measure (\<lambda>(_, _, room, _). room)") auto

declare sprintf_pad.simps [simp del]

text \<open>The bytes \<open>ngx_sprintf_num\<close> writes at \<open>buf\<close>; \<open>room\<close> is \<open>last - buf\<close>.\<close>

definition ngx_sprintf_num :: "nat \<Rightarrow> u64 \<Rightarrow> byte \<Rightarrow> nat \<Rightarrow> nat \<Rightarrow> byte list" where
  "ngx_sprintf_num room ui64 zero hexadecimal width =
    (let p = sprintf_digits ui64 hexadecimal;
         (pad, room') = sprintf_pad (length p) width room zero;
         len = (if length p > room' then room' else length p)
     in pad @ take len p)"

section \<open>What the parsers compute\<close>

definition dec_value :: "byte list \<Rightarrow> nat" where
  "dec_value line = foldl (\<lambda>a c. a * 10 + (unat c - 48)) 0 line"

definition ato_spec :: "byte list \<Rightarrow> ngx_int" where
  "ato_spec line =
    (if line \<noteq> [] \<and> list_all is_digit line \<and> dec_value line mod 2 ^ 64 < 2 ^ 63
     then word_of_nat (dec_value line) else NGX_ERROR_INT)"

lemma ato_digit: "is_digit c \<Longrightarrow> ucast c - 48 = (word_of_nat (unat c - 48) :: u64)"
  by (simp add: is_digit_unat word_unat_eq_iff)

lemma ngx_ato_loop_eq:
  "ngx_ato_loop (word_of_nat a) line =
    (if list_all is_digit line then Some (word_of_nat (foldl (\<lambda>a c. a * 10 + (unat c - 48)) a line)) else None)"
proof (induction line arbitrary: a)
  case (Cons c line)
  show ?case
  proof (cases "is_digit c")
    case True
    then have "\<not> (c < asc CHR ''0'' \<or> c > asc CHR ''9'')" by (auto simp: is_digit_def)
    moreover have "word_of_nat a * 10 + (ucast c - ucast (asc CHR ''0'' :: byte)) =
        (word_of_nat (a * 10 + (unat c - 48)) :: u64)"
      using ato_digit [OF True] by simp
    ultimately show ?thesis using True Cons.IH [of "a * 10 + (unat c - 48)"] by simp
  next
    case False
    then have "c < asc CHR ''0'' \<or> c > asc CHR ''9''" by (auto simp: is_digit_def)
    then show ?thesis using False by simp
  qed
qed simp

lemma ngx_not_negative_of_nat:
  "ngx_not_negative (Some (word_of_nat n)) = (if n mod 2 ^ 64 < 2 ^ 63 then word_of_nat n else NGX_ERROR_INT)"
proof -
  have "unat (word_of_nat n :: u64) = n mod 2 ^ 64" by (simp add: unat_of_nat)
  then show ?thesis unfolding ngx_not_negative_def option.case sint_negative_iff by (simp only: not_le) simp
qed

lemma ngx_atoi_spec: "ngx_atoi line = ato_spec line"
  using ngx_ato_loop_eq [of 0 line] 
  by (simp add: ngx_atoi_def ato_spec_def dec_value_def ngx_not_negative_of_nat del: ngx_ato_loop.simps)
    (simp add: ngx_not_negative_def)

fun dec_digits :: "nat \<Rightarrow> byte list" where
  "dec_digits n = (if n < 10 then [word_of_nat (48 + n)] else dec_digits (n div 10) @ [word_of_nat (48 + n mod 10)])"

declare dec_digits.simps [simp del]

lemma unat_digit [simp]: "n < 10 \<Longrightarrow> unat (word_of_nat (48 + n) :: byte) = 48 + n"
  by (simp add: unat_of_nat del: of_nat_add)

lemma is_digit_of_nat [simp]: "n < 10 \<Longrightarrow> is_digit (word_of_nat (48 + n))"
  by (simp only: is_digit_unat unat_digit) simp

lemma dec_digits_is_digit: "list_all is_digit (dec_digits n)"
  by (induction n rule: dec_digits.induct) (subst dec_digits.simps, simp del: of_nat_add)

lemma dec_digits_value: "dec_value (dec_digits n) = n"
proof (induction n rule: dec_digits.induct)
  case (1 n)
  then show ?case by (subst dec_digits.simps) (simp add: dec_value_def del: of_nat_add)
qed

lemma dec_digits_not_Nil [simp]: "dec_digits n \<noteq> []"
  by (subst dec_digits.simps) simp

lemma dec_digits_length: "n < 10 ^ Suc k \<Longrightarrow> length (dec_digits n) \<le> Suc k"
proof (induction k arbitrary: n)
  case 0
  then show ?case by (subst dec_digits.simps) simp
next
  case (Suc k)
  have "n div 10 < 10 ^ Suc k" using Suc.prems by (simp add: less_mult_imp_div_less)
  from Suc.IH [OF this] show ?case by (subst dec_digits.simps) simp
qed

lemma sprintf_digit:
  assumes "unat (10 :: 'a::len word) = 10"
  shows "ucast ((u :: 'a word) mod 10) + 48 = (word_of_nat (48 + unat u mod 10) :: byte)"
proof -
  have "unat (u mod 10) = unat u mod 10" by (simp only: unat_mod assms)
  then have "ucast (u mod 10) = (word_of_nat (unat u mod 10) :: byte)" by (simp only: ucast_unat)
  then show ?thesis by simp
qed

lemma sprintf_dec64_eq: "sprintf_dec64 u p = dec_digits (unat u) @ p"
proof (induction u p rule: sprintf_dec64.induct)
  case (1 u p)
  have d: "unat (u div 10) = unat u div 10" by (simp add: unat_div)
  have z: "u div 10 = 0 \<longleftrightarrow> unat u < 10" using d by (simp add: word_unat_eq_iff div_eq_0_iff)
  show ?case
  proof (cases "u div 10 = 0")
    case True
    then show ?thesis using z by (subst sprintf_dec64.simps, subst dec_digits.simps) (simp add: sprintf_digit del: of_nat_add)
  next
    case False
    then show ?thesis
      using z 1 [OF refl refl] d
      by (subst sprintf_dec64.simps, subst dec_digits.simps) (simp add: sprintf_digit Let_def del: of_nat_add)
  qed
qed

lemma sprintf_dec32_eq: "sprintf_dec32 u p = dec_digits (unat u) @ p"
proof (induction u p rule: sprintf_dec32.induct)
  case (1 u p)
  have d: "unat (u div 10) = unat u div 10" by (simp add: unat_div)
  have z: "u div 10 = 0 \<longleftrightarrow> unat u < 10" using d by (simp add: word_unat_eq_iff div_eq_0_iff)
  show ?case
  proof (cases "u div 10 = 0")
    case True
    then show ?thesis using z by (subst sprintf_dec32.simps, subst dec_digits.simps) (simp add: sprintf_digit del: of_nat_add)
  next
    case False
    then show ?thesis
      using z 1 [OF refl refl] d
      by (subst sprintf_dec32.simps, subst dec_digits.simps) (simp add: sprintf_digit Let_def del: of_nat_add)
  qed
qed

lemma sprintf_digits_dec: "sprintf_digits u 0 = dec_digits (unat u)"
proof (cases "u \<le> 0xffffffff")
  case True
  then have "unat u < 2 ^ 32" by (simp add: word_le_nat_alt)
  then have "unat (ucast u :: u32) = unat u" by (simp add: unsigned_ucast_eq take_bit_nat_eq_self_iff)
  then show ?thesis using True by (simp add: sprintf_digits_def sprintf_dec32_eq)
next
  case False
  then show ?thesis by (simp add: sprintf_digits_def sprintf_dec64_eq)
qed

fun hex_digs :: "byte list \<Rightarrow> nat \<Rightarrow> byte list" where
  "hex_digs tab n = (if n < 16 then [tab ! n] else hex_digs tab (n div 16) @ [tab ! (n mod 16)])"

declare hex_digs.simps [simp del]

lemma hex_digs_not_Nil [simp]: "hex_digs tab n \<noteq> []"
  by (subst hex_digs.simps) simp

lemma hex_digs_length: "n < 16 ^ Suc k \<Longrightarrow> length (hex_digs tab n) \<le> Suc k"
proof (induction k arbitrary: n)
  case 0
  then show ?case by (subst hex_digs.simps) simp
next
  case (Suc k)
  have "n div 16 < 16 ^ Suc k" using Suc.prems by (simp add: less_mult_imp_div_less)
  from Suc.IH [OF this] show ?case by (subst hex_digs.simps) simp
qed

lemma sprintf_hex_eq: "sprintf_hex tab u p = hex_digs tab (unat u) @ p"
proof (induction tab u p rule: sprintf_hex.induct)
  case (1 tab u p)
  have d: "unat (drop_bit 4 u) = unat u div 16" by (simp add: drop_bit_eq_div unat_div)
  have z: "drop_bit 4 u = 0 \<longleftrightarrow> unat u < 16" using d by (simp add: word_unat_eq_iff div_eq_0_iff)
  show ?case
  proof (cases "drop_bit 4 u = 0")
    case True
    then show ?thesis using z by (subst sprintf_hex.simps, subst hex_digs.simps) (simp add: unat_and_15)
  next
    case False
    then show ?thesis
      using z 1 [OF refl refl] d
      by (subst sprintf_hex.simps, subst hex_digs.simps) (simp add: unat_and_15 Let_def)
  qed
qed

definition is_hex :: "byte \<Rightarrow> bool" where
  "is_hex c \<longleftrightarrow> is_digit c \<or> asc CHR ''a'' \<le> c OR 0x20 \<and> c OR 0x20 \<le> asc CHR ''f''"

definition hex_digit :: "byte \<Rightarrow> nat" where
  "hex_digit c = (if is_digit c then unat c - 48 else unat (c OR 0x20) - 87)"

definition hex_value :: "byte list \<Rightarrow> nat" where
  "hex_value line = foldl (\<lambda>a c. a * 16 + hex_digit c) 0 line"

definition hextoi_spec :: "byte list \<Rightarrow> ngx_int" where
  "hextoi_spec line =
    (if line \<noteq> [] \<and> list_all is_hex line \<and> hex_value line mod 2 ^ 64 < 2 ^ 63
     then word_of_nat (hex_value line) else NGX_ERROR_INT)"

lemma ngx_hextoi_step:
  "ngx_hextoi_loop v (c # line) =
    (if is_hex c then ngx_hextoi_loop (v * 16 + word_of_nat (hex_digit c)) line else None)"
proof -
  define d where "d = c OR 0x20"
  have hex: "is_hex c \<longleftrightarrow> is_digit c \<or> asc CHR ''a'' \<le> d \<and> d \<le> asc CHR ''f''"
    unfolding is_hex_def d_def ..
  have dig: "hex_digit c = (if is_digit c then unat c - 48 else unat d - 87)"
    unfolding hex_digit_def d_def ..
  have dg: "is_digit c \<longleftrightarrow> c \<ge> asc CHR ''0'' \<and> c \<le> asc CHR ''9''" unfolding is_digit_def ..
  have f2: "ucast d - ucast (asc CHR ''a'' :: byte) + 10 = (word_of_nat (unat d - 87) :: u64)" if "asc CHR ''a'' \<le> d"
  proof -
    have "97 \<le> unat d" using that by (simp add: word_le_nat_alt)
    then have "word_of_nat (unat d - 87) = (word_of_nat (unat d) - 87 :: u64)" by simp
    then show ?thesis unfolding ucast_unat by simp
  qed
  have f1: "ucast c - ucast (asc CHR ''0'' :: byte) = (word_of_nat (unat c - 48) :: u64)" if "is_digit c"
    using ato_digit [OF that] by simp
  show ?thesis
    unfolding ngx_hextoi_loop.simps Let_def d_def [symmetric] hex dig dg [symmetric]
    by (cases "is_digit c"; cases "asc CHR ''a'' \<le> d"; cases "d \<le> asc CHR ''f''")
      (simp_all only: f1 f2 simp_thms if_True if_False)
qed

lemma ngx_hextoi_loop_eq:
  "ngx_hextoi_loop (word_of_nat a) line =
    (if list_all is_hex line then Some (word_of_nat (foldl (\<lambda>a c. a * 16 + hex_digit c) a line)) else None)"
proof (induction line arbitrary: a)
  case (Cons c line)
  have "word_of_nat a * 16 + word_of_nat (hex_digit c) = (word_of_nat (a * 16 + hex_digit c) :: u64)" by simp
  then show ?case unfolding ngx_hextoi_step using Cons.IH [of "a * 16 + hex_digit c"] by (simp del: of_nat_add)
qed simp

lemma ngx_hextoi_spec: "ngx_hextoi line = hextoi_spec line"
  using ngx_hextoi_loop_eq [of 0 line] 
  by (simp add: ngx_hextoi_def hextoi_spec_def hex_value_def ngx_not_negative_of_nat del: ngx_hextoi_loop.simps)
    (simp add: ngx_not_negative_def)

lemma hex_table:
  assumes "n < 16" "tab = hex_digits \<or> tab = HEX_digits"
  shows "is_hex (tab ! n) \<and> hex_digit (tab ! n) = n"
proof -
  have "list_all (\<lambda>n. is_hex (hex_digits ! n) \<and> hex_digit (hex_digits ! n) = n
      \<and> is_hex (HEX_digits ! n) \<and> hex_digit (HEX_digits ! n) = n) [0..<16]"
    by code_simp
  then show ?thesis using assms by (auto simp: list_all_iff)
qed

lemma hex_digs_value:
  assumes "tab = hex_digits \<or> tab = HEX_digits"
  shows "list_all is_hex (hex_digs tab n) \<and> hex_value (hex_digs tab n) = n"
  using assms
proof (induction tab n rule: hex_digs.induct)
  case (1 tab n)
  then show ?case using hex_table [of n tab] hex_table [of "n mod 16" tab]
    by (subst (1 2) hex_digs.simps) (auto simp: hex_value_def)
qed

lemma sprintf_digits_hex:
  "h \<noteq> 0 \<Longrightarrow> sprintf_digits u h = hex_digs (if h = 1 then hex_digits else HEX_digits) (unat u)"
  by (simp add: sprintf_digits_def sprintf_hex_eq)

lemma sprintf_digits_length: "length (sprintf_digits u h) \<le> 20"
proof (cases "h = 0")
  case True
  have "unat u < 2 ^ LENGTH(64)" by (rule unsigned_less)
  then have "unat u < 10 ^ Suc 19" by simp
  then show ?thesis using True dec_digits_length [of "unat u" 19] by (simp add: sprintf_digits_dec)
next
  case False
  have "unat u < 2 ^ LENGTH(64)" by (rule unsigned_less)
  then have "unat u < 16 ^ Suc 15" by simp
  then have "length (hex_digs t (unat u)) \<le> 16" for t using hex_digs_length [of "unat u" 15] by simp
  then have "length (sprintf_digits u h) \<le> 16" unfolding sprintf_digits_hex [OF False] .
  then show ?thesis by simp
qed

lemma sprintf_pad_eq:
  "sprintf_pad len width room zero = (replicate (min (width - len) room) zero, room - min (width - len) room)"
proof (induction len width room zero rule: sprintf_pad.induct)
  case (1 len width room zero)
  show ?case
  proof (cases "len < width \<and> 0 < room")
    case True
    then have "min (width - len) room = Suc (min (width - (len + 1)) (room - 1))" by auto
    then show ?thesis using 1 [OF True] True by (subst sprintf_pad.simps) simp
  next
    case False
    then show ?thesis by (subst sprintf_pad.simps) auto
  qed
qed

lemma sprintf_num_eq:
  "ngx_sprintf_num room u zero h width =
    take room (replicate (width - length (sprintf_digits u h)) zero @ sprintf_digits u h)"
  by (simp add: ngx_sprintf_num_def Let_def sprintf_pad_eq min_def)

text \<open>
  C10. The value of a parsed number, on every input.  A string that is empty or has a character
  that is no digit is an error; otherwise the result is the number the digits write, reduced
  to 64 bits, unless this is negative as a signed number, which is an error.  So every number
  below \<open>2 ^ 63\<close> is parsed right, and a longer one may be accepted with a wrong value.
\<close>

theorem ato_value:
  "ngx_atoi line = ato_spec line \<and> ngx_atosz line = ato_spec line \<and> ngx_atoof line = ato_spec line
   \<and> ngx_atotm line = ato_spec line \<and> ngx_hextoi line = hextoi_spec line"
  using ngx_atoi_spec [of line] ngx_hextoi_spec [of line]
  by (simp add: ngx_atosz_def ngx_atoof_def ngx_atotm_def ngx_atoi_def)

lemma atoi_overflow: "ngx_atoi (bytes ''18446744073709551617'') = 1"
  by code_simp

lemma atofp_digit:
  "is_digit c \<Longrightarrow> 0 < point \<Longrightarrow> ngx_atofp_loop (word_of_nat a) point dot (c # line) =
    ngx_atofp_loop (word_of_nat (a * 10 + (unat c - 48))) (if dot then point - 1 else point) dot line"
proof -
  assume c: "is_digit c" and point: "0 < point"
  have "\<not> (c < asc CHR ''0'' \<or> c > asc CHR ''9'')" "c \<noteq> asc CHR ''.''"
    using c by (auto simp: is_digit_unat word_less_nat_alt word_unat_eq_iff)
  moreover have "word_of_nat a * 10 + (ucast c - ucast (asc CHR ''0'' :: byte)) =
      (word_of_nat (a * 10 + (unat c - 48)) :: u64)"
    using ato_digit [OF c] by simp
  ultimately show ?thesis using point by (simp del: of_nat_add)
qed

lemma atofp_integer:
  "list_all is_digit ii \<Longrightarrow> 0 < point \<Longrightarrow>
   ngx_atofp_loop (word_of_nat a) point False (ii @ rest) =
     ngx_atofp_loop (word_of_nat (foldl (\<lambda>a c. a * 10 + (unat c - 48)) a ii)) point False rest"
  by (induction ii arbitrary: a) (simp_all only: append.simps list.pred_inject foldl.simps atofp_digit if_False)

lemma atofp_fraction:
  "list_all is_digit ff \<Longrightarrow> length ff \<le> point \<Longrightarrow>
   ngx_atofp_loop (word_of_nat a) point True (ff @ rest) =
     ngx_atofp_loop (word_of_nat (foldl (\<lambda>a c. a * 10 + (unat c - 48)) a ff)) (point - length ff) True rest"
proof (induction ff arbitrary: a point)
  case (Cons c ff)
  then show ?case
    using atofp_digit [of c point a True "ff @ rest"] Cons.IH [of "point - 1" "a * 10 + (unat c - 48)"]
    by (simp del: of_nat_add ngx_atofp_loop.simps)
qed simp

lemma ngx_scale10_eq: "ngx_scale10 p (word_of_nat n) = word_of_nat (n * 10 ^ p)"
proof (induction p arbitrary: n)
  case (Suc p)
  have "word_of_nat n * (10 :: u64) = word_of_nat (n * 10)" by simp
  then show ?case using Suc [of "n * 10"] by (simp add: mult.assoc del: of_nat_mult)
qed simp

text \<open>
  A number with a decimal point and at most \<open>point\<close> digits after it is parsed to its value
  times \<open>10 ^ point\<close>, with or without the point; more digits are an error.
\<close>

theorem atofp_value:
  assumes "list_all is_digit ii" and "list_all is_digit ff" and "0 < point" and "length ff \<le> point"
  shows "ngx_atofp (ii @ [asc CHR ''.''] @ ff) point =
      ngx_not_negative (Some (word_of_nat (dec_value (ii @ ff) * 10 ^ (point - length ff))))
    \<and> (ii \<noteq> [] \<longrightarrow> ngx_atofp ii point = ngx_not_negative (Some (word_of_nat (dec_value ii * 10 ^ point))))
    \<and> (length ff = point \<longrightarrow> ngx_atofp (ii @ [asc CHR ''.''] @ ff @ c # rest) point = NGX_ERROR_INT)"
proof -
  let ?v = "\<lambda>a ds. foldl (\<lambda>a c. a * 10 + (unat c - 48)) a ds"
  have dot: "ngx_atofp_loop (word_of_nat n) point False (asc CHR ''.'' # line) = ngx_atofp_loop (word_of_nat n) point True line"
    for n line using assms(3) by simp
  note loop = atofp_integer [OF assms(1,3), of 0] dot atofp_fraction [OF assms(2,4)]
  have 1: "ngx_atofp_loop 0 point False (ii @ [asc CHR ''.''] @ ff) =
      Some (word_of_nat (dec_value (ii @ ff)), point - length ff)"
    using loop(1) [of "asc CHR ''.'' # ff"] loop(2) [of "?v 0 ii" ff] loop(3) [of "?v 0 ii" "[]"]
    by (simp add: dec_value_def)
  have 2: "ngx_atofp_loop 0 point False ii = Some (word_of_nat (dec_value ii), point)"
    using loop(1) [of "[]"] by (simp add: dec_value_def)
  have 3: "ngx_atofp_loop 0 point False (ii @ [asc CHR ''.''] @ ff @ c # rest) = None" if "length ff = point"
    using that loop(1) [of "asc CHR ''.'' # ff @ c # rest"] loop(2) [of "?v 0 ii" "ff @ c # rest"]
      loop(3) [of "?v 0 ii" "c # rest"] by simp
  show ?thesis
    unfolding ngx_atofp_def using 1 2 3
    by (simp add: ngx_scale10_eq del: of_nat_mult ngx_atofp_loop.simps) (simp add: ngx_not_negative_def)
qed

theorem atofp_value_witness:
  "ngx_atofp (bytes ''10.5'') 2 = 1050"
proof -
  have "ngx_atofp (bytes ''10'' @ [asc CHR ''.''] @ bytes ''5'') 2 =
      ngx_not_negative (Some (word_of_nat (dec_value (bytes ''10'' @ bytes ''5'') * 10 ^ (2 - length (bytes ''5'')))))"
    using atofp_value [of "bytes ''10''" "bytes ''5''" 2] by (simp add: is_digit_def)
  moreover have "ngx_not_negative (Some (word_of_nat (dec_value (bytes ''10'' @ bytes ''5'') *
      10 ^ (2 - length (bytes ''5''))))) = 1050"
    by code_simp
  ultimately show ?thesis by simp
qed

section \<open>What the printer writes\<close>

text \<open>
  The printer stays in bounds: the digits fit the 20 bytes of \<open>temp\<close>, and what it writes
  at \<open>buf\<close> is the padded number cut at \<open>last\<close>.
\<close>

theorem sprintf_num_bounds:
  "length (sprintf_digits u h) \<le> 20 \<and> length (ngx_sprintf_num room u zero h width) \<le> room
   \<and> ngx_sprintf_num room u zero h width =
      take room (replicate (width - length (sprintf_digits u h)) zero @ sprintf_digits u h)"
  using sprintf_digits_length [of u h] by (simp add: sprintf_num_eq)

text \<open>
  Printing a number and parsing it gives the number back, in decimal and in both
  hexadecimal forms.
\<close>

theorem sprintf_num_roundtrip:
  assumes "unat u < 2 ^ 63" and "20 \<le> room"
  shows "ngx_atoi (ngx_sprintf_num room u zero 0 0) = u
    \<and> ngx_hextoi (ngx_sprintf_num room u zero 1 0) = u
    \<and> ngx_hextoi (ngx_sprintf_num room u zero 2 0) = u"
proof -
  have all: "ngx_sprintf_num room u zero h 0 = sprintf_digits u h" for h
    using sprintf_digits_length [of u h] assms(2) by (simp add: sprintf_num_eq)
  have u: "unat u mod 2 ^ 64 < 2 ^ 63" using assms(1) by simp
  have "ngx_atoi (dec_digits (unat u)) = u"
    using u by (simp add: ngx_atoi_spec ato_spec_def dec_digits_is_digit dec_digits_value)
  moreover have "ngx_hextoi (hex_digs tab (unat u)) = u" if "tab = hex_digits \<or> tab = HEX_digits" for tab
    using u hex_digs_value [OF that, of "unat u"] by (simp add: ngx_hextoi_spec hextoi_spec_def)
  ultimately show ?thesis by (simp add: all sprintf_digits_dec sprintf_digits_hex)
qed

theorem sprintf_num_roundtrip_witness:
  "ngx_atoi (ngx_sprintf_num 20 4294967296 (asc CHR '' '') 0 0) = 4294967296"
proof -
  have "unat (4294967296 :: u64) < 2 ^ 63" by simp
  from sprintf_num_roundtrip [OF this, of 20 "asc CHR '' ''"] show ?thesis by simp
qed

lemma hextoi_byte:
  "ngx_hextoi [hex_digits ! unat (drop_bit 4 c), hex_digits ! unat (c AND 0xf)] = ucast (c :: byte)"
proof -
  have d: "unat (drop_bit 4 c) = unat c div 16" by (simp add: drop_bit_eq_div unat_div)
  have lt: "unat c div 16 < 16" using byte_unat_less [of c] by (simp add: less_mult_imp_div_less)
  let ?l = "[hex_digits ! (unat c div 16), hex_digits ! (unat c mod 16)]"
  have "list_all is_hex ?l" "hex_value ?l = unat c"
    using hex_table [of "unat c div 16" hex_digits] hex_table [of "unat c mod 16" hex_digits] lt
    by (simp_all add: hex_value_def)
  moreover have "unat c mod 2 ^ 64 < 2 ^ 63" using byte_unat_less [of c] by (simp del: byte_unat_less)
  ultimately show ?thesis
    unfolding d unat_and_15 by (simp add: ngx_hextoi_spec hextoi_spec_def)
qed

text \<open>
  Every byte is dumped as two hexadecimal digits, from which \<open>ngx_hextoi\<close> reads the byte back.
\<close>

theorem hex_dump_roundtrip:
  "length (ngx_hex_dump src) = 2 * length src
   \<and> (\<forall>i < length src. ngx_hextoi (take 2 (drop (2 * i) (ngx_hex_dump src))) = ucast (src ! i))"
proof (induction src)
  case (Cons c src)
  show ?case
  proof (intro conjI allI impI)
    fix i assume "i < length (c # src)"
    then show "ngx_hextoi (take 2 (drop (2 * i) (ngx_hex_dump (c # src)))) = ucast ((c # src) ! i)"
      using Cons hextoi_byte [of c] by (cases i) (simp_all add: numeral_2_eq_2)
  qed (use Cons in simp)
qed simp

theorem hex_dump_roundtrip_witness:
  "ngx_hextoi (take 2 (drop 2 (ngx_hex_dump [0, 0xa7]))) = 0xa7"
  using hex_dump_roundtrip [of "[0, 0xa7]"] by (auto dest: spec [of _ 1])

end
