(* ===== verification/Ngx_String_Base64.thy ===== *)
theory Ngx_String_Base64
  imports Ngx_Prelude
begin

text \<open>
  The base64 codec of \<^verbatim>\<open>src/core/ngx_string.c\<close> (lines 1057--1195): \<open>ngx_encode_base64\<close>, the
  decoders \<open>ngx_decode_base64\<close> and \<open>ngx_decode_base64url\<close> with their tables, and the loop they
  share.  A string is the list of its bytes; \<open>None\<close> is the return of \<open>NGX_ERROR\<close>.

  The locale \<open>base64_code\<close> states what a table of characters and a decoding table have to
  satisfy; in it every string is decoded from its encoding.  It is interpreted on the two pairs
  of tables.  The characters that each decoder accepts are named.
\<close>

section \<open>Encoding\<close>

definition basis64 :: "byte list" where
  "basis64 = bytes ''ABCDEFGHIJKLMNOPQRSTUVWXYZabcdefghijklmnopqrstuvwxyz0123456789+/''"

text \<open>The encoder for any table of 64 characters.\<close>

fun encode64 :: "byte list \<Rightarrow> byte list \<Rightarrow> byte list" where
  "encode64 tab (s0 # s1 # s2 # s) =
     tab ! unat (drop_bit 2 s0 AND 0x3f)
     # tab ! unat (push_bit 4 (s0 AND 3) OR drop_bit 4 s1)
     # tab ! unat (push_bit 2 (s1 AND 0x0f) OR drop_bit 6 s2)
     # tab ! unat (s2 AND 0x3f)
     # encode64 tab s"
| "encode64 tab [s0] =
     [tab ! unat (drop_bit 2 s0 AND 0x3f),
      tab ! unat (push_bit 4 (s0 AND 3)),
      asc CHR ''='', asc CHR ''='']"
| "encode64 tab [s0, s1] =
     [tab ! unat (drop_bit 2 s0 AND 0x3f),
      tab ! unat (push_bit 4 (s0 AND 3) OR drop_bit 4 s1),
      tab ! unat (push_bit 2 (s1 AND 0x0f)),
      asc CHR ''='']"
| "encode64 tab [] = []"

definition ngx_encode_base64 :: "byte list \<Rightarrow> byte list" where
  "ngx_encode_base64 src = encode64 basis64 src"

section \<open>Decoding\<close>

definition basis64_decode :: "byte list" where
  "basis64_decode = [
    77, 77, 77, 77, 77, 77, 77, 77, 77, 77, 77, 77, 77, 77, 77, 77,
    77, 77, 77, 77, 77, 77, 77, 77, 77, 77, 77, 77, 77, 77, 77, 77,
    77, 77, 77, 77, 77, 77, 77, 77, 77, 77, 77, 62, 77, 77, 77, 63,
    52, 53, 54, 55, 56, 57, 58, 59, 60, 61, 77, 77, 77, 77, 77, 77,
    77,  0,  1,  2,  3,  4,  5,  6,  7,  8,  9, 10, 11, 12, 13, 14,
    15, 16, 17, 18, 19, 20, 21, 22, 23, 24, 25, 77, 77, 77, 77, 77,
    77, 26, 27, 28, 29, 30, 31, 32, 33, 34, 35, 36, 37, 38, 39, 40,
    41, 42, 43, 44, 45, 46, 47, 48, 49, 50, 51, 77, 77, 77, 77, 77]
    @ replicate 128 77"

definition basis64url_decode :: "byte list" where
  "basis64url_decode = [
    77, 77, 77, 77, 77, 77, 77, 77, 77, 77, 77, 77, 77, 77, 77, 77,
    77, 77, 77, 77, 77, 77, 77, 77, 77, 77, 77, 77, 77, 77, 77, 77,
    77, 77, 77, 77, 77, 77, 77, 77, 77, 77, 77, 77, 77, 62, 77, 77,
    52, 53, 54, 55, 56, 57, 58, 59, 60, 61, 77, 77, 77, 77, 77, 77,
    77,  0,  1,  2,  3,  4,  5,  6,  7,  8,  9, 10, 11, 12, 13, 14,
    15, 16, 17, 18, 19, 20, 21, 22, 23, 24, 25, 77, 77, 77, 77, 63,
    77, 26, 27, 28, 29, 30, 31, 32, 33, 34, 35, 36, 37, 38, 39, 40,
    41, 42, 43, 44, 45, 46, 47, 48, 49, 50, 51, 77, 77, 77, 77, 77]
    @ replicate 128 77"

text \<open>
  The first loop: the characters up to the first \<open>=\<close>, an error if one of them is not in the
  alphabet.
\<close>

fun base64_prefix :: "byte list \<Rightarrow> byte list \<Rightarrow> byte list option" where
  "base64_prefix basis [] = Some []"
| "base64_prefix basis (c # src) =
    (if c = asc CHR ''='' then Some []
     else if basis ! unat c = 77 then None
     else map_option ((#) c) (base64_prefix basis src))"

text \<open>The second loop and the two tests after it.\<close>

fun base64_groups :: "byte list \<Rightarrow> byte list \<Rightarrow> byte list" where
  "base64_groups basis (s0 # s1 # s2 # s3 # s) =
     (push_bit 2 (basis ! unat s0) OR drop_bit 4 (basis ! unat s1))
     # (push_bit 4 (basis ! unat s1) OR drop_bit 2 (basis ! unat s2))
     # (push_bit 6 (basis ! unat s2) OR (basis ! unat s3))
     # base64_groups basis s"
| "base64_groups basis s =
     (if length s > 1
      then [push_bit 2 (basis ! unat (s ! 0)) OR drop_bit 4 (basis ! unat (s ! 1))] else [])
     @ (if length s > 2
        then [push_bit 4 (basis ! unat (s ! 1)) OR drop_bit 2 (basis ! unat (s ! 2))] else [])"

definition ngx_decode_base64_internal :: "byte list \<Rightarrow> byte list \<Rightarrow> byte list option" where
  "ngx_decode_base64_internal src basis =
    (case base64_prefix basis src of
       None \<Rightarrow> None
     | Some s \<Rightarrow> if length s mod 4 = 1 then None else Some (base64_groups basis s))"

definition ngx_decode_base64 :: "byte list \<Rightarrow> byte list option" where
  "ngx_decode_base64 src = ngx_decode_base64_internal src basis64_decode"

definition ngx_decode_base64url :: "byte list \<Rightarrow> byte list option" where
  "ngx_decode_base64url src = ngx_decode_base64_internal src basis64url_decode"

section \<open>Sextets and octets\<close>

lemma byte_eqI:
  fixes a b :: byte
  assumes "bit a 0 = bit b 0" "bit a 1 = bit b 1" "bit a 2 = bit b 2" "bit a 3 = bit b 3"
    "bit a 4 = bit b 4" "bit a 5 = bit b 5" "bit a 6 = bit b 6" "bit a 7 = bit b 7"
  shows "a = b"
proof (rule bit_word_eqI)
  fix n assume "n < LENGTH(8)"
  then have "n \<in> {0, 1, 2, 3, 4, 5, 6, 7}" by auto
  then show "bit a n = bit b n" using assms by auto
qed

lemma byte_bit_out [simp]: "8 \<le> n \<Longrightarrow> \<not> bit (a :: byte) n"
  by (auto dest: bit_imp_le_length)

lemma byte_masks:
  "(c :: byte) AND 3 = take_bit 2 c" "c AND 0x0f = take_bit 4 c" "c AND 0x3f = take_bit 6 c"
  by (simp_all add: take_bit_eq_mask mask_eq_exp_minus_1)

lemma unat_less_64:
  assumes "take_bit 6 (x :: byte) = x"
  shows "unat x < 64"
proof -
  have "unat (take_bit 6 x) = unat x mod 64" by (simp only: unsigned_take_bit_eq) (simp add: take_bit_eq_mod)
  then show ?thesis using assms by (metis mod_less_divisor zero_less_numeral)
qed

lemma sextets:
  "take_bit 6 (drop_bit 2 a AND 0x3f) = drop_bit 2 a AND 0x3f"
  "take_bit 6 (push_bit 4 (a AND 3) OR drop_bit 4 b) = push_bit 4 (a AND 3) OR drop_bit 4 b"
  "take_bit 6 (push_bit 2 (b AND 0x0f) OR drop_bit 6 c) = push_bit 2 (b AND 0x0f) OR drop_bit 6 c"
  "take_bit 6 (c AND 0x3f) = c AND 0x3f"
  "take_bit 6 (push_bit 4 (a AND 3)) = push_bit 4 (a AND 3)"
  "take_bit 6 (push_bit 2 (b AND 0x0f)) = push_bit 2 (b AND 0x0f)"
  for a b c :: byte
  unfolding byte_masks by (intro byte_eqI; simp add: bit_simps)+

lemma octets:
  "push_bit 2 (drop_bit 2 a AND 0x3f) OR drop_bit 4 (push_bit 4 (a AND 3) OR drop_bit 4 b) = a"
  "push_bit 2 (drop_bit 2 a AND 0x3f) OR drop_bit 4 (push_bit 4 (a AND 3)) = a"
  "push_bit 4 (push_bit 4 (a AND 3) OR drop_bit 4 b) OR drop_bit 2 (push_bit 2 (b AND 0x0f) OR drop_bit 6 c) = b"
  "push_bit 4 (push_bit 4 (a AND 3) OR drop_bit 4 b) OR drop_bit 2 (push_bit 2 (b AND 0x0f)) = b"
  "push_bit 6 (push_bit 2 (b AND 0x0f) OR drop_bit 6 c) OR (c AND 0x3f) = c"
  for a b c :: byte
  unfolding byte_masks by (intro byte_eqI; simp add: bit_simps)+

section \<open>A pair of tables\<close>

locale base64_code =
  fixes tab basis :: "byte list"
  assumes decode_tab: "n < 64 \<Longrightarrow> basis ! unat (tab ! n) = word_of_nat n"
    and tab_not_pad: "n < 64 \<Longrightarrow> tab ! n \<noteq> asc CHR ''=''"
begin

lemma decode_sextet:
  assumes "take_bit 6 (x :: byte) = x"
  shows "basis ! unat (tab ! unat x) = x" "tab ! unat x \<noteq> asc CHR ''=''" "basis ! unat (tab ! unat x) \<noteq> 77"
proof -
  have "unat x < 64" using assms by (rule unat_less_64)
  then show "tab ! unat x \<noteq> asc CHR ''=''" "basis ! unat (tab ! unat x) = x" "basis ! unat (tab ! unat x) \<noteq> 77"
    using decode_tab [of "unat x"] tab_not_pad [of "unat x"] by (auto simp: word_unat_eq_iff)
qed

lemma prefix_sextet:
  "take_bit 6 (x :: byte) = x \<Longrightarrow>
   base64_prefix basis (tab ! unat x # cs) = map_option ((#) (tab ! unat x)) (base64_prefix basis cs)"
  using decode_sextet [of x] by simp

lemmas sextet_rules = sextets [THEN decode_sextet(1)] sextets [THEN prefix_sextet]

text \<open>The decoder gives every string back from its encoding.\<close>

theorem decode_encode: "ngx_decode_base64_internal (encode64 tab src) basis = Some src"
proof -
  have pad: "base64_prefix basis (asc CHR ''='' # cs) = Some []" for cs by simp
  have "\<exists>s. base64_prefix basis (encode64 tab src) = Some s \<and> length s mod 4 \<noteq> 1 \<and> base64_groups basis s = src"
  proof (induction tab\<equiv>tab src rule: encode64.induct)
    case (1 s0 s1 s2 s)
    then obtain t where t: "base64_prefix basis (encode64 tab s) = Some t" "length t mod 4 \<noteq> 1" "base64_groups basis t = s"
      by blast
    have len: "length (a # b # c # d # t) mod 4 = length t mod 4" for a b c d :: byte by simp
    show ?case
      by (simp only: encode64.simps sextet_rules t(1) option.map option.inject ex_simps simp_thms len t(2)
          base64_groups.simps octets t(3))
  next
    case (2 s0)
    have len: "length [a, b] mod 4 \<noteq> 1" for a b :: byte by simp
    have grp: "base64_groups basis [a, b] = [push_bit 2 (basis ! unat a) OR drop_bit 4 (basis ! unat b)]" for a b
      by simp
    show ?case
      by (simp only: encode64.simps sextet_rules pad option.map option.inject ex_simps simp_thms len grp octets)
  next
    case (3 s0 s1)
    have len: "length [a, b, c] mod 4 \<noteq> 1" for a b c :: byte by simp
    have grp: "base64_groups basis [a, b, c] = [push_bit 2 (basis ! unat a) OR drop_bit 4 (basis ! unat b),
        push_bit 4 (basis ! unat b) OR drop_bit 2 (basis ! unat c)]" for a b c
      by simp
    show ?case
      by (simp only: encode64.simps sextet_rules pad option.map option.inject ex_simps simp_thms len grp octets)
  qed simp
  then show ?thesis by (auto simp: ngx_decode_base64_internal_def)
qed

end

text \<open>The alphabet of the URL variant, for which the sources have a decoder only.\<close>

definition basis64url :: "byte list" where
  "basis64url = bytes ''ABCDEFGHIJKLMNOPQRSTUVWXYZabcdefghijklmnopqrstuvwxyz0123456789-_''"

lemma base64_codeI:
  assumes "map (\<lambda>c. unat (basis ! unat c)) tab = [0..<64]" "list_all (\<lambda>c. c \<noteq> asc CHR ''='') tab"
  shows "base64_code tab basis"
proof
  have len: "length tab = 64" using arg_cong [OF assms(1), of length] by simp
  fix n :: nat assume n: "n < 64"
  have "map (\<lambda>c. unat (basis ! unat c)) tab ! n = n" using n by (simp add: assms(1))
  then have "unat (basis ! unat (tab ! n)) = n" using n len by simp
  then show "basis ! unat (tab ! n) = word_of_nat n" using n by (simp add: word_unat_eq_iff unat_of_nat)
  show "tab ! n \<noteq> asc CHR ''=''" using assms(2) n len by (simp add: list_all_length)
qed

interpretation b64: base64_code basis64 basis64_decode
  by (rule base64_codeI) (unfold basis64_decode_def basis64_def, simp, code_simp, simp)

interpretation b64url: base64_code basis64url basis64url_decode
  by (rule base64_codeI) (unfold basis64url_decode_def basis64url_def, simp, code_simp, simp)

lemma encode64_length: "length (encode64 tab src) = (length src + 2) div 3 * 4"
  by (induction tab src rule: encode64.induct) (auto, presburger)

lemma base64_prefix_eq:
  "base64_prefix basis src =
    (if \<exists>c\<in>set (takeWhile (\<lambda>c. c \<noteq> asc CHR ''='') src). basis ! unat c = 77 then None
     else Some (takeWhile (\<lambda>c. c \<noteq> asc CHR ''='') src))"
  by (induction src) auto

lemma base64_groups_length: "length s mod 4 \<noteq> 1 \<Longrightarrow> length (base64_groups basis s) = length s * 3 div 4"
proof (induction basis s rule: base64_groups.induct)
  case (1 basis s0 s1 s2 s3 s)
  have "length (s0 # s1 # s2 # s3 # s) * 3 div 4 = length s * 3 div 4 + 3" by simp
  moreover have "length (s0 # s1 # s2 # s3 # s) mod 4 = length s mod 4" by simp
  ultimately show ?case using 1 by simp
qed auto

text \<open>
  The alphabets, without the tables: the letters, the digits and two more characters.  The entry
  77 of a table is found exactly at the bytes outside of its alphabet.
\<close>

definition base64_char :: "char \<Rightarrow> char \<Rightarrow> byte \<Rightarrow> bool" where
  "base64_char c62 c63 c \<longleftrightarrow>
    (asc CHR ''A'' \<le> c \<and> c \<le> asc CHR ''Z'') \<or> (asc CHR ''a'' \<le> c \<and> c \<le> asc CHR ''z'') \<or>
    (asc CHR ''0'' \<le> c \<and> c \<le> asc CHR ''9'') \<or> c = asc c62 \<or> c = asc c63"

lemma base64_tableI:
  assumes "map (\<lambda>v. v = 77) basis = map (\<lambda>n. \<not> base64_char c62 c63 (word_of_int n)) [0..255]"
  shows "basis ! unat c = 77 \<longleftrightarrow> \<not> base64_char c62 c63 c"
proof -
  have len: "length basis = 256" using arg_cong [OF assms, of length] by simp
  have c: "unat c < 256" using unsigned_less [of c] by simp
  have "(basis ! unat c = 77) = map (\<lambda>v. v = 77) basis ! unat c" using c len by simp
  also have "\<dots> = (\<not> base64_char c62 c63 (word_of_int (0 + int (unat c))))"
  proof -
    have "[0..255] ! unat c = 0 + int (unat c)" using c by (intro nth_upto) linarith
    then show ?thesis unfolding assms using c by (subst nth_map) (simp, simp only:)
  qed
  finally show ?thesis by simp
qed

lemma basis64_decode_char: "basis64_decode ! unat c = 77 \<longleftrightarrow> \<not> base64_char CHR ''+'' CHR ''/'' c"
  by (rule base64_tableI) code_simp

lemma basis64url_decode_char: "basis64url_decode ! unat c = 77 \<longleftrightarrow> \<not> base64_char CHR ''-'' CHR ''_'' c"
  by (rule base64_tableI) code_simp

lemma decode_base64_internal_cases:
  assumes "\<And>c. basis ! unat c = 77 \<longleftrightarrow> \<not> base64_char c62 c63 c"
  shows "(ngx_decode_base64_internal src basis = None \<longleftrightarrow>
       (\<exists>c \<in> set (takeWhile (\<lambda>c. c \<noteq> asc CHR ''='') src). \<not> base64_char c62 c63 c) \<or>
       length (takeWhile (\<lambda>c. c \<noteq> asc CHR ''='') src) mod 4 = 1) \<and>
     (case ngx_decode_base64_internal src basis of
        None \<Rightarrow> True
      | Some d \<Rightarrow> length d = length (takeWhile (\<lambda>c. c \<noteq> asc CHR ''='') src) * 3 div 4)"
  by (auto simp: ngx_decode_base64_internal_def base64_prefix_eq base64_groups_length assms)

section \<open>The codec\<close>

text \<open>
  C11. Decoding the encoding of a string gives the string back, for every string of bytes and
  for both decoders.
\<close>

theorem base64_roundtrip:
  "ngx_decode_base64 (ngx_encode_base64 src) = Some src
   \<and> ngx_decode_base64url (encode64 basis64url src) = Some src"
  unfolding ngx_decode_base64_def ngx_encode_base64_def ngx_decode_base64url_def
  using b64.decode_encode b64url.decode_encode by blast

text \<open>
  C12. What the decoders check, and the lengths.  \<open>ngx_decode_base64\<close> returns an error exactly if a
  character before the first \<open>=\<close> is not a letter, a digit, \<open>+\<close> or \<open>/\<close>, or the number of these characters
  is one more than a multiple of four; \<open>ngx_decode_base64url\<close> does with \<open>-\<close> and \<open>_\<close> for \<open>+\<close> and \<open>/\<close>.  The
  decoded string has three bytes for four characters, so that it fits \<open>ngx_base64_decoded_length\<close>,
  and the encoded one is as long as \<open>ngx_base64_encoded_length\<close> says.
\<close>

theorem base64_decode_checks:
  "let s = takeWhile (\<lambda>c. c \<noteq> asc CHR ''='') src in
   (ngx_decode_base64 src = None \<longleftrightarrow>
     (\<exists>c \<in> set s. \<not> base64_char CHR ''+'' CHR ''/'' c) \<or> length s mod 4 = 1) \<and>
   (ngx_decode_base64url src = None \<longleftrightarrow>
     (\<exists>c \<in> set s. \<not> base64_char CHR ''-'' CHR ''_'' c) \<or> length s mod 4 = 1) \<and>
   (case ngx_decode_base64 src of None \<Rightarrow> True | Some d \<Rightarrow> length d = length s * 3 div 4) \<and>
   (case ngx_decode_base64url src of None \<Rightarrow> True | Some d \<Rightarrow> length d = length s * 3 div 4) \<and>
   length s * 3 div 4 \<le> (length src + 3) div 4 * 3 \<and>
   length (ngx_encode_base64 src) = (length src + 2) div 3 * 4"
proof -
  let ?s = "takeWhile (\<lambda>c. c \<noteq> asc CHR ''='') src"
  have "length ?s \<le> length src" by (rule length_takeWhile_le)
  then have "length ?s * 3 div 4 \<le> (length src + 3) div 4 * 3" by linarith
  then show ?thesis
    using decode_base64_internal_cases [OF basis64_decode_char, of src]
      decode_base64_internal_cases [OF basis64url_decode_char, of src]
    unfolding Let_def ngx_decode_base64_def ngx_decode_base64url_def ngx_encode_base64_def encode64_length by blast
qed

theorem base64_decode_checks_witness:
  "ngx_decode_base64 (bytes ''QUI=x'') = Some (bytes ''AB'') \<and> ngx_decode_base64 (bytes ''Q-'') = None \<and>
   ngx_decode_base64url (bytes ''Q+'') = None"
proof -
  have "takeWhile (\<lambda>c. c \<noteq> asc CHR ''='') (bytes ''Q-'') = bytes ''Q-''"
    "takeWhile (\<lambda>c. c \<noteq> asc CHR ''='') (bytes ''Q+'') = bytes ''Q+''" by simp_all
  moreover have "\<not> base64_char CHR ''+'' CHR ''/'' (asc CHR ''-'')" "\<not> base64_char CHR ''-'' CHR ''_'' (asc CHR ''+'')"
    by code_simp+
  ultimately have "ngx_decode_base64 (bytes ''Q-'') = None" "ngx_decode_base64url (bytes ''Q+'') = None"
    using base64_decode_checks [of "bytes ''Q-''"] base64_decode_checks [of "bytes ''Q+''"] by (simp_all add: Let_def)
  moreover have "ngx_decode_base64 (bytes ''QUI=x'') = Some (bytes ''AB'')" by code_simp
  ultimately show ?thesis by blast
qed

end
