(* ===== verification/Ngx_String_Escape.thy ===== *)
theory Ngx_String_Escape
  imports Ngx_String_Num
begin

text \<open>
  Escaping, \<^verbatim>\<open>src/core/ngx_string.c\<close>: \<open>ngx_escape_uri\<close> with its six tables (lines 1337--1503),
  \<open>ngx_unescape_uri\<close> (lines 1506--1633) and \<open>ngx_escape_html\<close> (lines 1636--1705).  A string is the
  list of its bytes.  The functions that count when \<open>dst == NULL\<close> and write otherwise are two
  definitions each.

  Shown: unescaping an escaped string gives the string back (except for the table \<open>refresh\<close>); the
  counting passes announce the number of bytes the writing passes write; unescaping never writes
  more than it has read, so it may be done in place, and for redirects it writes no control
  character that does not stand in the source.
\<close>

section \<open>The tables\<close>

definition esc_uri :: "u32 list" where
  "esc_uri = [0xffffffff, 0x80000029, 0x00000000, 0x80000000,
              0xffffffff, 0xffffffff, 0xffffffff, 0xffffffff]"

definition esc_args :: "u32 list" where
  "esc_args = [0xffffffff, 0x88000869, 0x00000000, 0x80000000,
               0xffffffff, 0xffffffff, 0xffffffff, 0xffffffff]"

definition esc_uri_component :: "u32 list" where
  "esc_uri_component = [0xffffffff, 0xfc009fff, 0x78000001, 0xb8000001,
                        0xffffffff, 0xffffffff, 0xffffffff, 0xffffffff]"

definition esc_html :: "u32 list" where
  "esc_html = [0xffffffff, 0x000000ad, 0x00000000, 0x80000000,
               0xffffffff, 0xffffffff, 0xffffffff, 0xffffffff]"

definition esc_refresh :: "u32 list" where
  "esc_refresh = [0xffffffff, 0x00000085, 0x00000000, 0x80000000,
                  0xffffffff, 0xffffffff, 0xffffffff, 0xffffffff]"

definition esc_memcached :: "u32 list" where
  "esc_memcached = [0xffffffff, 0x00000021, 0x00000000, 0x00000000,
                    0x00000000, 0x00000000, 0x00000000, 0x00000000]"

text \<open>\<open>map[type]\<close>; the last one is \<open>NGX_ESCAPE_MAIL_AUTH\<close>.\<close>

definition esc_map :: "u32 list list" where
  "esc_map = [esc_uri, esc_args, esc_uri_component, esc_html, esc_refresh, esc_memcached,
              esc_memcached]"

section \<open>Escaping a URI\<close>

text \<open>\<open>dst == NULL\<close>: the number of characters to be escaped.\<close>

primrec ngx_escape_uri_count :: "byte list \<Rightarrow> nat \<Rightarrow> nat" where
  "ngx_escape_uri_count [] t = 0"
| "ngx_escape_uri_count (c # src) t =
    (if table_bit (esc_map ! t) c then 1 else 0) + ngx_escape_uri_count src t"

primrec ngx_escape_uri :: "byte list \<Rightarrow> nat \<Rightarrow> byte list" where
  "ngx_escape_uri [] t = []"
| "ngx_escape_uri (c # src) t =
    (if table_bit (esc_map ! t) c
     then asc CHR ''%'' # hex_digits ! unat (drop_bit 4 c) # hex_digits ! unat (c AND 0xf)
          # ngx_escape_uri src t
     else c # ngx_escape_uri src t)"

section \<open>Unescaping a URI\<close>

datatype unesc_state = unesc_sw_usual | unesc_sw_quoted | unesc_sw_quoted_second

text \<open>
  The type is a combination of the bits \<open>NGX_UNESCAPE_URI\<close> and \<open>NGX_UNESCAPE_REDIRECT\<close>.  One round
  of the loop: the bytes written, the state, the local \<open>decoded\<close>, and whether the loop is left.
  \<open>prev\<close> is \<open>*(s - 2)\<close>, the byte before \<open>ch\<close>.
\<close>

definition unesc_second ::
  "bool \<Rightarrow> bool \<Rightarrow> byte \<Rightarrow> byte \<Rightarrow> byte \<Rightarrow> byte list \<times> bool" where
  "unesc_second t_uri t_redirect decoded prev ch =
    (if ch \<ge> asc CHR ''0'' \<and> ch \<le> asc CHR ''9'' then
       (let d = push_bit 4 decoded + ch - asc CHR ''0'' in
        if t_redirect then
          (if d > asc CHR ''%'' \<and> d < 0x7f then ([d], False)
           else ([asc CHR ''%'', prev, ch], False))
        else ([d], False))
     else
       (let c = ch OR 0x20 in
        if c \<ge> asc CHR ''a'' \<and> c \<le> asc CHR ''f'' then
          (let d = push_bit 4 decoded + c - asc CHR ''a'' + 10 in
           if t_uri then
             (if d = asc CHR ''?'' then ([d], True) else ([d], False))
           else if t_redirect then
             (if d = asc CHR ''?'' then ([d], True)
              else if d > asc CHR ''%'' \<and> d < 0x7f then ([d], False)
              else ([asc CHR ''%'', prev, ch], False))
           else ([d], False))
        else ([], False)))"

definition unesc_step ::
  "bool \<Rightarrow> bool \<Rightarrow> unesc_state \<Rightarrow> byte \<Rightarrow> byte \<Rightarrow> byte \<Rightarrow> byte list \<times> unesc_state \<times> byte \<times> bool" where
  "unesc_step t_uri t_redirect state decoded prev ch =
    (case state of
       unesc_sw_usual \<Rightarrow>
         (if ch = asc CHR ''?'' \<and> (t_uri \<or> t_redirect) then ([ch], unesc_sw_usual, decoded, True)
          else if ch = asc CHR ''%'' then ([], unesc_sw_quoted, decoded, False)
          else ([ch], unesc_sw_usual, decoded, False))
     | unesc_sw_quoted \<Rightarrow>
         (if ch \<ge> asc CHR ''0'' \<and> ch \<le> asc CHR ''9''
          then ([], unesc_sw_quoted_second, ch - asc CHR ''0'', False)
          else
            (let c = ch OR 0x20 in
             if c \<ge> asc CHR ''a'' \<and> c \<le> asc CHR ''f''
             then ([], unesc_sw_quoted_second, c - asc CHR ''a'' + 10, False)
             else ([ch], unesc_sw_usual, decoded, False)))
     | unesc_sw_quoted_second \<Rightarrow>
         (case unesc_second t_uri t_redirect decoded prev ch of
            (out, stop) \<Rightarrow> (out, unesc_sw_usual, decoded, stop)))"

text \<open>The loop: the bytes written and the bytes of the source not read.\<close>

fun unesc_loop ::
  "bool \<Rightarrow> bool \<Rightarrow> unesc_state \<Rightarrow> byte \<Rightarrow> byte \<Rightarrow> byte list \<Rightarrow> byte list \<times> byte list" where
  "unesc_loop t_uri t_redirect state decoded prev [] = ([], [])"
| "unesc_loop t_uri t_redirect state decoded prev (ch # src) =
    (case unesc_step t_uri t_redirect state decoded prev ch of
       (out, state', decoded', stop) \<Rightarrow>
         if stop then (out, src)
         else (case unesc_loop t_uri t_redirect state' decoded' ch src of
                 (rest, s) \<Rightarrow> (out @ rest, s)))"

definition ngx_unescape_uri :: "byte list \<Rightarrow> bool \<Rightarrow> bool \<Rightarrow> byte list \<times> byte list" where
  "ngx_unescape_uri src t_uri t_redirect = unesc_loop t_uri t_redirect unesc_sw_usual 0 0 src"

section \<open>Escaping HTML\<close>

primrec ngx_escape_html_count :: "byte list \<Rightarrow> nat" where
  "ngx_escape_html_count [] = 0"
| "ngx_escape_html_count (c # src) =
    (if c = asc CHR ''<'' then length ''&lt;'' - 1
     else if c = asc CHR ''>'' then length ''&gt;'' - 1
     else if c = asc CHR ''&'' then length ''&amp;'' - 1
     else if c = 34 then length ''&quot;'' - 1
     else 0) + ngx_escape_html_count src"

primrec ngx_escape_html :: "byte list \<Rightarrow> byte list" where
  "ngx_escape_html [] = []"
| "ngx_escape_html (c # src) =
    (if c = asc CHR ''<'' then bytes ''&lt;''
     else if c = asc CHR ''>'' then bytes ''&gt;''
     else if c = asc CHR ''&'' then bytes ''&amp;''
     else if c = 34 then bytes ''&quot;''
     else [c]) @ ngx_escape_html src"

section \<open>Unescaping undoes escaping\<close>

lemma esc_map_percent:
  assumes "t < 7" "t \<noteq> 4" shows "table_bit (esc_map ! t) (asc CHR ''%'')"
proof -
  have "t = 0 \<or> t = 1 \<or> t = 2 \<or> t = 3 \<or> t = 5 \<or> t = 6" using assms by linarith
  then show ?thesis
    by (elim disjE) (simp_all add: table_bit_def esc_map_def esc_uri_def esc_args_def
        esc_uri_component_def esc_html_def esc_refresh_def esc_memcached_def)
qed

lemma nibble_all:
  assumes "list_all P [0, 1, 2, 3, 4, 5, 6, 7, 8, 9, 10, 11, 12, 13, 14, 15::nat]" "n < 16"
  shows "P n"
proof -
  have "n \<in> set [0, 1, 2, 3, 4, 5, 6, 7, 8, 9, 10, 11, 12, 13, 14, 15]"
    using assms(2) by simp presburger
  then show ?thesis using assms(1) unfolding list_all_iff by blast
qed

lemma unesc_first:
  "n < 16 \<Longrightarrow> unesc_step u r unesc_sw_quoted d p (hex_digits ! n) =
    ([], unesc_sw_quoted_second, word_of_nat n, False)"
  by (erule nibble_all [rotated]) (simp add: hex_digits_def unesc_step_def Let_def)

lemma unesc_last:
  "n < 16 \<Longrightarrow> unesc_step False False unesc_sw_quoted_second d p (hex_digits ! n) =
    ([push_bit 4 d + word_of_nat n], unesc_sw_usual, d, False)"
  by (erule nibble_all [rotated]) (simp add: hex_digits_def unesc_step_def unesc_second_def Let_def)

lemma unesc_percent:
  "unesc_step u r unesc_sw_usual d p (asc CHR ''%'') = ([], unesc_sw_quoted, d, False)"
  by (simp add: unesc_step_def)

lemma byte_nibbles:
  "push_bit 4 (word_of_nat (unat (drop_bit 4 (c::byte)))) + word_of_nat (unat (c AND 0xf)) = c"
proof -
  have "c AND 0xf = take_bit 4 c" by (simp add: take_bit_eq_mask mask_eq_exp_minus_1)
  moreover have "push_bit 4 (drop_bit 4 c) + take_bit 4 c = c"
    by (rule bits_ident)
  ultimately show ?thesis by simp
qed

lemma nibble_bounds: "unat (drop_bit 4 (c::byte)) < 16" "unat (c AND 0xf) < 16"
proof -
  show "unat (c AND 0xf) < 16" by (simp add: unat_and_15)
  have "unat (drop_bit 4 c) = unat c div 16"
    by (simp add: drop_bit_eq_div unat_div)
  then show "unat (drop_bit 4 c) < 16" using byte_unat_less [of c] by (simp add: less_mult_imp_div_less del: byte_unat_less)
qed

lemma unesc_loop_escape:
  assumes "t < 7" "t \<noteq> 4"
  shows "unesc_loop False False unesc_sw_usual d p (ngx_escape_uri src t) = (src, [])"
proof (induction src arbitrary: d p)
  case (Cons c src)
  show ?case
  proof (cases "table_bit (esc_map ! t) c")
    case True
    then show ?thesis
      using Cons.IH
      by (simp add: unesc_percent [simplified] unesc_first unesc_last nibble_bounds byte_nibbles [simplified])
  next
    case False
    then have "c \<noteq> asc CHR ''%''" using esc_map_percent [OF assms] by auto
    then show ?thesis using False Cons.IH by (simp add: unesc_step_def)
  qed
qed simp

text \<open>
  C13. Unescaping an escaped string with the type 0 (neither \<open>NGX_UNESCAPE_URI\<close> nor
  \<open>NGX_UNESCAPE_REDIRECT\<close>, with which an escaped question mark ends the loop) gives the string back
  and reads all of it, for every table except that of \<open>NGX_ESCAPE_REFRESH\<close>, which leaves the percent
  sign as it is (see \<open>escape_refresh_lossy\<close>).\<close>

theorem unescape_escape:
  assumes "t < 7" "t \<noteq> 4"
  shows "ngx_unescape_uri (ngx_escape_uri src t) False False = (src, [])"
  unfolding ngx_unescape_uri_def by (rule unesc_loop_escape [OF assms])

theorem unescape_escape_witness:
  "ngx_unescape_uri (ngx_escape_uri (bytes ''a b?%41'') 0) False False = (bytes ''a b?%41'', []) \<and>
   ngx_escape_uri (bytes ''a b?%41'') 0 = bytes ''a%20b%3f%2541''"
proof
  show "ngx_unescape_uri (ngx_escape_uri (bytes ''a b?%41'') 0) False False = (bytes ''a b?%41'', [])"
    by (rule unescape_escape) simp_all
  show "ngx_escape_uri (bytes ''a b?%41'') 0 = bytes ''a%20b%3f%2541''" by code_simp
qed

text \<open>
  The table \<open>refresh\<close> does not have the bit of the percent sign, although its comment lists it: a
  percent sign that is part of the text is read back as the start of an escape.
\<close>

lemma escape_refresh_lossy:
  "ngx_escape_uri (bytes ''%41'') 4 = bytes ''%41''"
  "ngx_unescape_uri (ngx_escape_uri (bytes ''%41'') 4) False False = (bytes ''A'', [])"
  by code_simp+

lemma length_hex_digits: "length hex_digits = 16"
  by (simp add: hex_digits_def)

lemma esc_not_hex:
  assumes "t < 7" "x \<in> set hex_digits" shows "\<not> table_bit (esc_map ! t) x"
proof -
  have "t = 0 \<or> t = 1 \<or> t = 2 \<or> t = 3 \<or> t = 4 \<or> t = 5 \<or> t = 6" using assms by linarith
  then have "list_all (\<lambda>x. \<not> table_bit (esc_map ! t) x) hex_digits"
    by (elim disjE) (simp_all add: hex_digits_def table_bit_def esc_map_def esc_uri_def esc_args_def
        esc_uri_component_def esc_html_def esc_refresh_def esc_memcached_def)
  then show ?thesis using assms(2) by (simp add: list_all_iff)
qed

text \<open>
  The writing pass of \<open>ngx_escape_uri\<close> writes exactly \<open>size + 2 * n\<close> bytes, \<open>n\<close> being what the
  counting pass returns, which is the size callers allocate; no byte that has to be escaped is
  left in the output, apart from the percent signs of the escapes.\<close>

theorem escape_uri_clean:
  assumes "t < 7"
  shows "length (ngx_escape_uri src t) = length src + 2 * ngx_escape_uri_count src t \<and>
    (\<forall>x \<in> set (ngx_escape_uri src t). table_bit (esc_map ! t) x \<longrightarrow> x = asc CHR ''%'')"
proof (induction src)
  case (Cons c src)
  have "hex_digits ! unat (drop_bit 4 c) \<in> set hex_digits" "hex_digits ! unat (c AND 0xf) \<in> set hex_digits"
    using nibble_bounds [of c] by (auto intro!: nth_mem simp: length_hex_digits)
  then show ?case using Cons esc_not_hex [OF assms] by auto
qed simp

theorem escape_uri_clean_witness:
  "length (ngx_escape_uri (bytes ''a b'') 5) = 3 + 2 * 1 \<and>
   \<not> table_bit (esc_map ! 5) (asc CHR ''2'')"
proof -
  have "ngx_escape_uri_count (bytes ''a b'') 5 = 1"
    and "asc CHR ''2'' \<in> set (ngx_escape_uri (bytes ''a b'') 5)" by code_simp+
  then show ?thesis using escape_uri_clean [of 5 "bytes ''a b''"] by auto
qed

section \<open>What unescaping writes\<close>

text \<open>Bytes read and not yet written: the percent sign and the first digit.\<close>


definition unesc_pending :: "unesc_state \<Rightarrow> nat" where
  "unesc_pending state = (case state of unesc_sw_usual \<Rightarrow> 0 | unesc_sw_quoted \<Rightarrow> 1 | unesc_sw_quoted_second \<Rightarrow> 2)"

lemma unesc_step_length:
  "unesc_step u r state d p ch = (out, state', d', stop) \<Longrightarrow>
   length out + unesc_pending state' \<le> unesc_pending state + 1"
  by (auto simp: unesc_step_def unesc_second_def unesc_pending_def Let_def split: unesc_state.splits if_splits)

lemma unesc_loop_length:
  "unesc_loop u r state d p src = (out, rest) \<Longrightarrow>
   length out + length rest \<le> unesc_pending state + length src"
proof (induction src arbitrary: state d p out rest)
  case (Cons ch src)
  obtain o1 st1 d1 stop where s: "unesc_step u r state d p ch = (o1, st1, d1, stop)"
    by (cases "unesc_step u r state d p ch")
  obtain o2 r2 where l: "unesc_loop u r st1 d1 ch src = (o2, r2)" by fastforce
  show ?case
    using Cons.prems Cons.IH [OF l] unesc_step_length [OF s] s l by (auto split: if_splits)
qed simp

text \<open>The bytes the loop may repeat come from the source.\<close>

definition unesc_known :: "byte set \<Rightarrow> unesc_state \<Rightarrow> byte \<Rightarrow> bool" where
  "unesc_known S state p \<longleftrightarrow> (state = unesc_sw_usual \<or> asc CHR ''%'' \<in> S) \<and>
     (state = unesc_sw_quoted_second \<longrightarrow> p \<in> S)"

lemma unesc_step_redirect:
  assumes "unesc_step False True state d p ch = (out, state', d', stop)"
    "unesc_known S state p" "ch \<in> S"
  shows "set out \<subseteq> S \<union> {x. asc CHR ''%'' < x \<and> x < 0x7f} \<and> unesc_known S state' ch"
  using assms
  by (auto simp: unesc_step_def unesc_second_def unesc_known_def Let_def split: unesc_state.splits if_splits)

lemma unesc_loop_redirect:
  "unesc_loop False True state d p src = (out, rest) \<Longrightarrow> unesc_known S state p \<Longrightarrow> set src \<subseteq> S \<Longrightarrow>
   set out \<subseteq> S \<union> {x. asc CHR ''%'' < x \<and> x < 0x7f}"
proof (induction src arbitrary: state d p out rest)
  case (Cons ch src)
  obtain o1 st1 d1 stop where s: "unesc_step False True state d p ch = (o1, st1, d1, stop)"
    by (cases "unesc_step False True state d p ch")
  obtain o2 r2 where l: "unesc_loop False True st1 d1 ch src = (o2, r2)" by fastforce
  have "ch \<in> S" using Cons.prems by simp
  from unesc_step_redirect [OF s Cons.prems(2) this] Cons.IH [OF l, of] 
  show ?case using Cons.prems s l by (auto split: if_splits)
qed simp

text \<open>
  C14. \<open>ngx_unescape_uri\<close> writes no more bytes than it has read, so it may run in place, and with
  \<open>NGX_UNESCAPE_REDIRECT\<close> it writes, apart from bytes that stand literally in the source, only
  printable ones after the percent sign: no escape can bring a control character, such as a
  line break, into a redirect.\<close>

theorem unescape_safe:
  "(case ngx_unescape_uri src u r of (out, rest) \<Rightarrow> length out + length rest \<le> length src) \<and>
   set (fst (ngx_unescape_uri src False True)) \<subseteq> set src \<union> {x. asc CHR ''%'' < x \<and> x < 0x7f}"
proof
  show "case ngx_unescape_uri src u r of (out, rest) \<Rightarrow> length out + length rest \<le> length src"
    using unesc_loop_length [of u r unesc_sw_usual 0 0 src]
    by (auto simp: ngx_unescape_uri_def unesc_pending_def split: prod.split)
  show "set (fst (ngx_unescape_uri src False True)) \<subseteq> set src \<union> {x. asc CHR ''%'' < x \<and> x < 0x7f}"
    using unesc_loop_redirect [of unesc_sw_usual 0 0 src _ _ "set src"]
    by (cases "ngx_unescape_uri src False True") (auto simp: ngx_unescape_uri_def unesc_known_def)
qed

text \<open>
  \<open>ngx_escape_html\<close> writes exactly the number of bytes the counting pass announces beyond
  the size of the source, and its output holds no angle bracket and no double quote.\<close>

theorem escape_html_safe:
  "length (ngx_escape_html src) = length src + ngx_escape_html_count src \<and>
   set (ngx_escape_html src) \<inter> {asc CHR ''<'', asc CHR ''>'', 34} = {}"
  by (induction src) auto

end
