(* ===== verification/Ngx_Mail_Session.thy ===== *)
theory Ngx_Mail_Session
  imports Ngx_Scan
begin

text \<open>
  What the command parsers of \<^verbatim>\<open>src/mail/ngx_mail_parse.c\<close> share: the fields of
  \<open>ngx_mail_session_t\<close> (\<^verbatim>\<open>src/mail/ngx_mail.h\<close> lines 182--238) they use, the command codes, the
  exits of the loops.  The build with the mail SSL module (\<open>NGX_MAIL_SSL\<close>) is modelled.
\<close>

section \<open>The session\<close>

text \<open>
  An \<open>ngx_str_t\<close>.  The length is kept as the integer that the pointer difference denotes, before
  it is converted to \<open>size_t\<close>; the theorems show that it is never negative.
\<close>

record ngx_str =
  str_len :: int
  str_data :: ptr

record ngx_mail_session =
  ms_quoted :: bool
  ms_backslash :: bool
  ms_no_sync_literal :: bool
  ms_tag :: ngx_str
  ms_command :: ngx_uint
  ms_args :: "ngx_str list"
  ms_state :: nat
  ms_cmd_start :: ptr
  ms_arg_start :: ptr
  ms_arg_end :: ptr
  ms_literal_len :: ngx_uint

definition ngx_mail_session_zero :: ngx_mail_session where
  "ngx_mail_session_zero =
    \<lparr>ms_quoted = False, ms_backslash = False, ms_no_sync_literal = False,
     ms_tag = \<lparr>str_len = 0, str_data = NULL\<rparr>, ms_command = 0, ms_args = [], ms_state = 0,
     ms_cmd_start = NULL, ms_arg_start = NULL, ms_arg_end = NULL, ms_literal_len = 0\<rparr>"

text \<open>The bytes of a string.\<close>

definition str_bytes :: "mem \<Rightarrow> ngx_str \<Rightarrow> byte list" where
  "str_bytes m a = take (nat (str_len a)) (drop (str_data a) m)"

text \<open>\<^verbatim>\<open>src/mail/ngx_mail.h\<close> lines 246--286.\<close>

abbreviation (input) NGX_POP3_USER :: ngx_uint where "NGX_POP3_USER \<equiv> 1"
abbreviation (input) NGX_POP3_PASS :: ngx_uint where "NGX_POP3_PASS \<equiv> 2"
abbreviation (input) NGX_POP3_CAPA :: ngx_uint where "NGX_POP3_CAPA \<equiv> 3"
abbreviation (input) NGX_POP3_QUIT :: ngx_uint where "NGX_POP3_QUIT \<equiv> 4"
abbreviation (input) NGX_POP3_NOOP :: ngx_uint where "NGX_POP3_NOOP \<equiv> 5"
abbreviation (input) NGX_POP3_STLS :: ngx_uint where "NGX_POP3_STLS \<equiv> 6"
abbreviation (input) NGX_POP3_APOP :: ngx_uint where "NGX_POP3_APOP \<equiv> 7"
abbreviation (input) NGX_POP3_AUTH :: ngx_uint where "NGX_POP3_AUTH \<equiv> 8"

abbreviation (input) NGX_IMAP_LOGIN :: ngx_uint where "NGX_IMAP_LOGIN \<equiv> 1"
abbreviation (input) NGX_IMAP_LOGOUT :: ngx_uint where "NGX_IMAP_LOGOUT \<equiv> 2"
abbreviation (input) NGX_IMAP_CAPABILITY :: ngx_uint where "NGX_IMAP_CAPABILITY \<equiv> 3"
abbreviation (input) NGX_IMAP_NOOP :: ngx_uint where "NGX_IMAP_NOOP \<equiv> 4"
abbreviation (input) NGX_IMAP_STARTTLS :: ngx_uint where "NGX_IMAP_STARTTLS \<equiv> 5"
abbreviation (input) NGX_IMAP_AUTHENTICATE :: ngx_uint where "NGX_IMAP_AUTHENTICATE \<equiv> 7"

abbreviation (input) NGX_SMTP_HELO :: ngx_uint where "NGX_SMTP_HELO \<equiv> 1"
abbreviation (input) NGX_SMTP_EHLO :: ngx_uint where "NGX_SMTP_EHLO \<equiv> 2"
abbreviation (input) NGX_SMTP_AUTH :: ngx_uint where "NGX_SMTP_AUTH \<equiv> 3"
abbreviation (input) NGX_SMTP_QUIT :: ngx_uint where "NGX_SMTP_QUIT \<equiv> 4"
abbreviation (input) NGX_SMTP_NOOP :: ngx_uint where "NGX_SMTP_NOOP \<equiv> 5"
abbreviation (input) NGX_SMTP_MAIL :: ngx_uint where "NGX_SMTP_MAIL \<equiv> 6"
abbreviation (input) NGX_SMTP_RSET :: ngx_uint where "NGX_SMTP_RSET \<equiv> 7"
abbreviation (input) NGX_SMTP_RCPT :: ngx_uint where "NGX_SMTP_RCPT \<equiv> 8"
abbreviation (input) NGX_SMTP_VRFY :: ngx_uint where "NGX_SMTP_VRFY \<equiv> 10"
abbreviation (input) NGX_SMTP_EXPN :: ngx_uint where "NGX_SMTP_EXPN \<equiv> 11"
abbreviation (input) NGX_SMTP_HELP :: ngx_uint where "NGX_SMTP_HELP \<equiv> 12"
abbreviation (input) NGX_SMTP_STARTTLS :: ngx_uint where "NGX_SMTP_STARTTLS \<equiv> 13"

section \<open>Pieces the parsers share\<close>

text \<open>The labels a loop is left to, and a \<open>return\<close> inside the loop.\<close>

datatype mail_exit = Mail_done | Mail_invalid | Mail_return ngx_rc

text \<open>
  \<open>arg = ngx_array_push(&s->args); if (arg == NULL) return NGX_ERROR; ...\<close>: whether the
  allocation fails is the parameter \<open>oom\<close>, a function of the arguments stored so far.
\<close>

type_synonym mail_oom = "ngx_str list \<Rightarrow> bool"

definition mail_push :: "ptr \<Rightarrow> ngx_mail_session \<Rightarrow> ngx_mail_session" where
  "mail_push e s =
    s\<lparr>ms_args := ms_args s @ [\<lparr>str_len = int e - int (ms_arg_start s), str_data = ms_arg_start s\<rparr>],
      ms_arg_start := NULL\<rparr>"

definition is_letter :: "byte \<Rightarrow> bool" where
  "is_letter ch \<longleftrightarrow> \<not> ((ch < asc CHR ''A'' \<or> ch > asc CHR ''Z'') \<and> (ch < asc CHR ''a'' \<or> ch > asc CHR ''z''))"

text \<open>
  \<open>(c[0] == 'S' || c[0] == 's') && ...\<close>: the bytes at \<open>c\<close> are the word, given in upper case and
  in lower case.
\<close>

definition mail_word :: "mem \<Rightarrow> ptr \<Rightarrow> string \<Rightarrow> string \<Rightarrow> bool" where
  "mail_word m c upper lower \<longleftrightarrow>
    list_all (\<lambda>i. m ! (c + i) = asc (upper ! i) \<or> m ! (c + i) = asc (lower ! i)) [0..<length upper]"

lemma mail_word_local:
  assumes "take (Suc p) m1 = take (Suc p) m2" "p - c = length upper"
  shows "mail_word m1 c upper lower = mail_word m2 c upper lower"
  using take_Suc_nth_eq [OF assms(1)] assms(2) unfolding mail_word_def list_all_iff by auto

text \<open>A string that lies in the memory between two addresses and has none of some bytes.\<close>

definition str_within :: "mem \<Rightarrow> ptr \<Rightarrow> ptr \<Rightarrow> byte set \<Rightarrow> ngx_str \<Rightarrow> bool" where
  "str_within m lo hi bad a \<longleftrightarrow>
    0 \<le> str_len a \<and> lo \<le> str_data a \<and> int (str_data a) + str_len a \<le> int hi \<and>
    (\<forall>i. str_data a \<le> i \<and> int i < int (str_data a) + str_len a \<longrightarrow> m ! i \<notin> bad)"

lemma str_within_mono:
  "str_within m lo hi bad a \<Longrightarrow> hi \<le> hi' \<Longrightarrow> str_within m lo hi' bad a"
  unfolding str_within_def by auto

lemma str_within_push:
  "lo \<le> d \<Longrightarrow> d \<le> p \<Longrightarrow> p \<le> hi \<Longrightarrow> (\<And>i. d \<le> i \<Longrightarrow> i < p \<Longrightarrow> m ! i \<notin> bad) \<Longrightarrow>
   str_within m lo hi bad \<lparr>str_len = int p - int d, str_data = d\<rparr>"
  unfolding str_within_def by simp

text \<open>
  Two parses have the same outcome: the same return code and the same session, and the same
  buffer where the parse is to be continued.  After a failed allocation \<open>s->state\<close> has not been
  written; the session is closed.
\<close>

definition mail_same ::
  "ngx_rc \<times> ngx_buf \<times> ngx_mail_session \<Rightarrow> ngx_rc \<times> ngx_buf \<times> ngx_mail_session \<Rightarrow> bool" where
  "mail_same x y \<longleftrightarrow>
    (case x of (rc, b, s) \<Rightarrow> case y of (rc', b', s') \<Rightarrow>
       rc = rc' \<and> (if rc = NGX_ERROR then s\<lparr>ms_state := 0\<rparr> = s'\<lparr>ms_state := 0\<rparr> else s = s') \<and>
       (rc \<in> {NGX_OK, NGX_AGAIN, NGX_IMAP_NEXT} \<longrightarrow> b = b'))"

lemma mail_same_refl [simp]: "mail_same x x"
  by (auto simp: mail_same_def)

end
