(* ===== verification/Ngx_Mail_Command.thy ===== *)
theory Ngx_Mail_Command
  imports Ngx_Mail_Session
begin

text \<open>
  \<open>ngx_mail_pop3_parse_command\<close> (lines 14--209) and \<open>ngx_mail_smtp_parse_command\<close> (lines 619--828)
  of \<^verbatim>\<open>src/mail/ngx_mail_parse.c\<close>.  The two functions have the same states and the same code but
  for the table of commands, the number of arguments they accept, the treatment of spaces
  after \<open>USER\<close> and \<open>PASS\<close>, and the command that is followed by a line without a command; these
  are the parameters of the definitions.

  Shown, from the locales of \<^verbatim>\<open>Ngx_Scan\<close>: a command received in pieces is parsed as if received at once,
  a complete line is answered, the arguments stored are words of the line, and a printed command is
  read back.
\<close>

section \<open>The commands\<close>

definition pop3_command :: "mem \<Rightarrow> ptr \<Rightarrow> ptr \<Rightarrow> ngx_uint option" where
  "pop3_command m c p =
    (if p - c = 4 then
       (let w = [ngx_toupper (m ! c), ngx_toupper (m ! (c + 1)),
                 ngx_toupper (m ! (c + 2)), ngx_toupper (m ! (c + 3))] in
        if w = bytes ''USER'' then Some NGX_POP3_USER
        else if w = bytes ''PASS'' then Some NGX_POP3_PASS
        else if w = bytes ''APOP'' then Some NGX_POP3_APOP
        else if w = bytes ''QUIT'' then Some NGX_POP3_QUIT
        else if w = bytes ''CAPA'' then Some NGX_POP3_CAPA
        else if w = bytes ''AUTH'' then Some NGX_POP3_AUTH
        else if w = bytes ''NOOP'' then Some NGX_POP3_NOOP
        else if w = bytes ''STLS'' then Some NGX_POP3_STLS
        else None)
     else None)"

definition smtp_command :: "mem \<Rightarrow> ptr \<Rightarrow> ptr \<Rightarrow> ngx_uint option" where
  "smtp_command m c p =
    (if p - c = 4 then
       (let w = [ngx_toupper (m ! c), ngx_toupper (m ! (c + 1)),
                 ngx_toupper (m ! (c + 2)), ngx_toupper (m ! (c + 3))] in
        if w = bytes ''HELO'' then Some NGX_SMTP_HELO
        else if w = bytes ''EHLO'' then Some NGX_SMTP_EHLO
        else if w = bytes ''QUIT'' then Some NGX_SMTP_QUIT
        else if w = bytes ''AUTH'' then Some NGX_SMTP_AUTH
        else if w = bytes ''NOOP'' then Some NGX_SMTP_NOOP
        else if w = bytes ''MAIL'' then Some NGX_SMTP_MAIL
        else if w = bytes ''RSET'' then Some NGX_SMTP_RSET
        else if w = bytes ''RCPT'' then Some NGX_SMTP_RCPT
        else if w = bytes ''VRFY'' then Some NGX_SMTP_VRFY
        else if w = bytes ''EXPN'' then Some NGX_SMTP_EXPN
        else if w = bytes ''HELP'' then Some NGX_SMTP_HELP
        else None)
     else if p - c = 8 then
       (if mail_word m c ''STARTTLS'' ''starttls'' then Some NGX_SMTP_STARTTLS else None)
     else None)"

section \<open>The states\<close>

datatype cmd_state =
    cmd_sw_start
  | cmd_sw_spaces_before_argument
  | cmd_sw_argument
  | cmd_sw_almost_done

definition cmd_states :: "cmd_state list" where
  "cmd_states = [cmd_sw_start, cmd_sw_spaces_before_argument, cmd_sw_argument, cmd_sw_almost_done]"

type_synonym cmd_action = "(cmd_state \<times> ngx_mail_session, mail_exit \<times> ngx_mail_session) action"

text \<open>The switch on the byte that ends a word.\<close>

definition cmd_word_end :: "byte \<Rightarrow> ngx_mail_session \<Rightarrow> cmd_action" where
  "cmd_word_end ch s =
    (if ch = SP then Cont (cmd_sw_spaces_before_argument, s)
     else if ch = CR then Cont (cmd_sw_almost_done, s)
     else Stop (Mail_done, s))"

definition cmd_start ::
  "(mem \<Rightarrow> ptr \<Rightarrow> ptr \<Rightarrow> ngx_uint option) \<Rightarrow> mem \<Rightarrow> ptr \<Rightarrow> ptr \<Rightarrow> byte \<Rightarrow> ngx_mail_session \<Rightarrow> cmd_action"
where
  "cmd_start command m start p ch s =
    (if ch = SP \<or> ch = CR \<or> ch = LF then
       (case command m start p of
          Some k \<Rightarrow> cmd_word_end ch (s\<lparr>ms_command := k\<rparr>)
        | None \<Rightarrow> Stop (Mail_invalid, s))
     else if \<not> is_letter ch then Stop (Mail_invalid, s)
     else Cont (cmd_sw_start, s))"

definition cmd_spaces_before_argument :: "nat \<Rightarrow> ptr \<Rightarrow> byte \<Rightarrow> ngx_mail_session \<Rightarrow> cmd_action" where
  "cmd_spaces_before_argument lim p ch s =
    (if ch = SP then Cont (cmd_sw_spaces_before_argument, s)
     else if ch = CR then Cont (cmd_sw_almost_done, s\<lparr>ms_arg_end := p\<rparr>)
     else if ch = LF then Stop (Mail_done, s\<lparr>ms_arg_end := p\<rparr>)
     else if length (ms_args s) \<le> lim then Cont (cmd_sw_argument, s\<lparr>ms_arg_start := p\<rparr>)
     else Stop (Mail_invalid, s))"

definition cmd_argument ::
  "(ngx_uint \<Rightarrow> bool) \<Rightarrow> mail_oom \<Rightarrow> ptr \<Rightarrow> byte \<Rightarrow> ngx_mail_session \<Rightarrow> cmd_action" where
  "cmd_argument spaces oom p ch s =
    (if ch = SP \<and> spaces (ms_command s) then Cont (cmd_sw_argument, s)
     else if ch = SP \<or> ch = CR \<or> ch = LF then
       (if oom (ms_args s) then Stop (Mail_return NGX_ERROR, s)
        else cmd_word_end ch (mail_push p s))
     else Cont (cmd_sw_argument, s))"

definition cmd_almost_done :: "byte \<Rightarrow> ngx_mail_session \<Rightarrow> cmd_action" where
  "cmd_almost_done ch s = (if ch = LF then Stop (Mail_done, s) else Stop (Mail_invalid, s))"

fun cmd_step ::
  "(mem \<Rightarrow> ptr \<Rightarrow> ptr \<Rightarrow> ngx_uint option) \<Rightarrow> nat \<Rightarrow> (ngx_uint \<Rightarrow> bool) \<Rightarrow> mail_oom \<Rightarrow> ptr \<Rightarrow>
   mem \<Rightarrow> ptr \<Rightarrow> cmd_state \<times> ngx_mail_session \<Rightarrow> cmd_action" where
  "cmd_step command lim spaces oom start m p (st, s) =
    (let ch = m ! p in
     case st of
       cmd_sw_start \<Rightarrow> cmd_start command m start p ch s
     | cmd_sw_spaces_before_argument \<Rightarrow> cmd_spaces_before_argument lim p ch s
     | cmd_sw_argument \<Rightarrow> cmd_argument spaces oom p ch s
     | cmd_sw_almost_done \<Rightarrow> cmd_almost_done ch s)"

section \<open>The functions\<close>

definition cmd_load :: "ngx_mail_session \<Rightarrow> cmd_state \<times> ngx_mail_session" where
  "cmd_load s = (enum_at cmd_states (ms_state s), s)"

fun cmd_store :: "cmd_state \<times> ngx_mail_session \<Rightarrow> ngx_mail_session" where
  "cmd_store (st, s) = s\<lparr>ms_state := enum_index cmd_states st\<rparr>"

text \<open>The labels \<open>done\<close> and \<open>invalid\<close>.\<close>

definition cmd_done_state :: "ngx_uint \<Rightarrow> ngx_mail_session \<Rightarrow> ngx_mail_session" where
  "cmd_done_state auth s =
    s\<lparr>ms_state := enum_index cmd_states (if ms_command s \<noteq> auth then cmd_sw_start else cmd_sw_argument)\<rparr>"

fun cmd_leave ::
  "ngx_uint \<Rightarrow> mail_oom \<Rightarrow> ptr \<Rightarrow> ngx_buf \<Rightarrow> mail_exit \<times> ngx_mail_session \<Rightarrow>
   ngx_rc \<times> ngx_buf \<times> ngx_mail_session" where
  "cmd_leave auth oom p b (Mail_done, s) =
    (let b = b\<lparr>b_pos := p + 1\<rparr> in
     if ms_arg_start s \<noteq> NULL then
       (if oom (ms_args s) then (NGX_ERROR, b, s)
        else (NGX_OK, b, cmd_done_state auth (mail_push (ms_arg_end s) s)))
     else (NGX_OK, b, cmd_done_state auth s))"
| "cmd_leave auth oom p b (Mail_invalid, s) =
    (NGX_MAIL_PARSE_INVALID_COMMAND, b,
     s\<lparr>ms_state := enum_index cmd_states cmd_sw_start, ms_arg_start := NULL\<rparr>)"
| "cmd_leave auth oom p b (Mail_return rc, s) = (rc, b, s)"

definition pop3_spaces :: "ngx_uint \<Rightarrow> bool" where
  "pop3_spaces k \<longleftrightarrow> k = NGX_POP3_USER \<or> k = NGX_POP3_PASS"

definition ngx_mail_pop3_parse_command ::
  "mail_oom \<Rightarrow> mem \<Rightarrow> ngx_buf \<Rightarrow> ngx_mail_session \<Rightarrow> ngx_rc \<times> ngx_buf \<times> ngx_mail_session" where
  "ngx_mail_pop3_parse_command oom m b s =
    run_parser (cmd_step pop3_command 2 pop3_spaces oom (b_start b)) cmd_load cmd_store
      (cmd_leave NGX_POP3_AUTH oom) m b s"

definition ngx_mail_smtp_parse_command ::
  "mail_oom \<Rightarrow> mem \<Rightarrow> ngx_buf \<Rightarrow> ngx_mail_session \<Rightarrow> ngx_rc \<times> ngx_buf \<times> ngx_mail_session" where
  "ngx_mail_smtp_parse_command oom m b s =
    run_parser (cmd_step smtp_command 10 (\<lambda>_. False) oom (b_start b)) cmd_load cmd_store
      (cmd_leave NGX_SMTP_AUTH oom) m b s"

section \<open>A parse can be resumed\<close>

lemmas cmd_state_defs =
  cmd_word_end_def cmd_start_def cmd_spaces_before_argument_def cmd_argument_def cmd_almost_done_def

lemma set_cmd_states [simp]: "st \<in> set cmd_states"
  by (cases st) (simp_all add: cmd_states_def)

lemma pop3_command_local:
  assumes "take (Suc p) m1 = take (Suc p) m2"
  shows "pop3_command m1 c p = pop3_command m2 c p"
  using take_Suc_nth_eq [OF assms, of c] take_Suc_nth_eq [OF assms, of "c + 1"]
    take_Suc_nth_eq [OF assms, of "c + 2"] take_Suc_nth_eq [OF assms, of "c + 3"]
  by (simp add: pop3_command_def)

lemma smtp_command_local:
  assumes "take (Suc p) m1 = take (Suc p) m2"
  shows "smtp_command m1 c p = smtp_command m2 c p"
  using take_Suc_nth_eq [OF assms, of c] take_Suc_nth_eq [OF assms, of "c + 1"]
    take_Suc_nth_eq [OF assms, of "c + 2"] take_Suc_nth_eq [OF assms, of "c + 3"]
    mail_word_local [OF assms, of c "''STARTTLS''" "''starttls''"]
  by (simp add: smtp_command_def)

text \<open>What the two parsers need of their table of commands: it looks at the word only.\<close>

locale mail_command =
  fixes command :: "mem \<Rightarrow> ptr \<Rightarrow> ptr \<Rightarrow> ngx_uint option"
    and lim :: nat and spaces :: "ngx_uint \<Rightarrow> bool" and auth :: ngx_uint
    and oom :: mail_oom and start :: ptr
  assumes command_local:
    "take (Suc p) m1 = take (Suc p) m2 \<Longrightarrow> command m1 c p = command m2 c p"

definition cmd_upd :: "nat \<Rightarrow> 'a \<times> ngx_mail_session \<Rightarrow> 'a \<times> ngx_mail_session" where
  "cmd_upd k = map_prod id (\<lambda>s. s\<lparr>ms_state := k\<rparr>)"

fun cmd_exits :: "mail_exit \<times> ngx_mail_session \<Rightarrow> bool" where
  "cmd_exits (Mail_return rc, s) \<longleftrightarrow> rc = NGX_ERROR"
| "cmd_exits (_, s) = True"

lemma mail_push_state:
  "mail_push e (s\<lparr>ms_state := k\<rparr>) = mail_push e s \<lparr>ms_state := k\<rparr>"
  by (cases s) (simp add: mail_push_def)

lemma cmd_word_end_upd:
  "cmd_word_end ch (s\<lparr>ms_state := k\<rparr>) = map_action (cmd_upd k) (cmd_upd k) (cmd_word_end ch s)"
  by (simp add: cmd_word_end_def cmd_upd_def)

sublocale mail_command \<subseteq> res: resumable "cmd_step command lim spaces oom start" cmd_upd cmd_upd
  cmd_load cmd_store "cmd_leave auth oom" mail_same cmd_exits
proof (unfold_locales, goal_cases)
  case prems: (1 p m1 m2 s)
  obtain st t where s: "s = (st, t)" by (cases s)
  have "m1 ! p = m2 ! p" using prems by (rule take_Suc_nth_eq) simp
  then show ?case unfolding s using command_local [OF prems]
    by (cases st) (simp_all add: cmd_start_def Let_def)
next
  case (2 m p k s)
  obtain st t where s: "s = (st, t)" by (cases s)
  show ?case unfolding s
    by (cases st; cases t)
      (simp_all add: cmd_state_defs cmd_upd_def mail_push_def Let_def split: option.split)
next
  case (3 s)
  obtain st t where s: "s = (st, t)" by (cases s)
  show ?case unfolding s
    by (intro exI [of _ "enum_index cmd_states st"]) (simp add: cmd_load_def cmd_upd_def)
next
  case (4 k s)
  obtain st t where s: "s = (st, t)" by (cases s)
  then show ?case by (simp add: cmd_upd_def)
next
  case (5 m p s x)
  obtain st t where s: "s = (st, t)" by (cases s)
  from 5 show ?case
    unfolding s by (cases st) (auto simp: cmd_state_defs Let_def split: if_splits option.splits)
next
  case (6 p b e x)
  obtain ex s where "x = (ex, s)" by (cases x)
  then show ?case by (cases ex) (auto simp: Let_def)
next
  case (7 x p b)
  moreover obtain ex s where "x = (ex, s)" by (cases x)
  ultimately show ?case by (cases ex) (auto simp: Let_def)
next
  case prems: (8 x p b i k)
  moreover obtain ex s where "x = (ex, s)" by (cases x)
  ultimately show ?case
    by (cases ex) (auto simp: Let_def mail_same_def cmd_upd_def mail_push_state cmd_done_state_def mail_push_def)
qed simp

interpretation pop3: mail_command pop3_command 2 pop3_spaces NGX_POP3_AUTH oom start for oom start
  by unfold_locales (rule pop3_command_local)

interpretation smtp: mail_command smtp_command 10 "\<lambda>_. False" NGX_SMTP_AUTH oom start for oom start
  by unfold_locales (rule smtp_command_local)


context mail_command begin

lemma again:
  assumes "run_parser (cmd_step command lim spaces oom start) cmd_load cmd_store (cmd_leave auth oom) m b s =
    (NGX_AGAIN, b', s')"
  shows "b' = b\<lparr>b_pos := b_pos b'\<rparr>"
  using assms by (rule run_parser_again) (use res.scan_exits res.leave_not_again in blast)

end

text \<open>A command to evaluate the theorems on.\<close>

definition pop3_example :: mem where
  "pop3_example = 0 # bytes ''user al ice'' @ [CR, LF]"

definition pop3_example_buf :: ngx_buf where
  "pop3_example_buf = \<lparr>b_start = 1, b_pos = 1, b_last = 14\<rparr>"

text \<open>
  C15. Receiving a POP3 or SMTP command in pieces makes no difference: parsing the bytes received so
  far and resuming when more have arrived gives what one parse over all of them gives.
\<close>

theorem pop3_smtp_resume:
  assumes "take (b_last b) m1 = take (b_last b) m2"
    and "b_pos b \<le> b_last b" and "b_last b \<le> e"
    and "parse = ngx_mail_pop3_parse_command oom \<or> parse = ngx_mail_smtp_parse_command oom"
    and "parse m1 b s = (rc, b', s')"
  shows "mail_same (parse m2 (b\<lparr>b_last := e\<rparr>) s)
    (if rc = NGX_AGAIN then parse m2 (b'\<lparr>b_last := e\<rparr>) s' else (rc, b'\<lparr>b_last := e\<rparr>, s'))"
  using assms(4)
proof
  assume [simp]: "parse = ngx_mail_pop3_parse_command oom"
  have p: "run_parser (cmd_step pop3_command 2 pop3_spaces oom (b_start b)) cmd_load cmd_store
      (cmd_leave NGX_POP3_AUTH oom) m1 b s = (rc, b', s')"
    using assms(5) by (simp add: ngx_mail_pop3_parse_command_def)
  have "b_start b' = b_start b" if "rc = NGX_AGAIN"
    using pop3.again [OF p [unfolded that]] by (metis ngx_buf.ext_inject ngx_buf.surjective ngx_buf.update_convs(2))
  then show ?thesis using pop3.res.parse_resume [OF assms(1-3) p]
    by (simp add: ngx_mail_pop3_parse_command_def split: if_splits)
next
  assume [simp]: "parse = ngx_mail_smtp_parse_command oom"
  have p: "run_parser (cmd_step smtp_command 10 (\<lambda>_. False) oom (b_start b)) cmd_load cmd_store
      (cmd_leave NGX_SMTP_AUTH oom) m1 b s = (rc, b', s')"
    using assms(5) by (simp add: ngx_mail_smtp_parse_command_def)
  have "b_start b' = b_start b" if "rc = NGX_AGAIN"
    using smtp.again [OF p [unfolded that]] by (metis ngx_buf.ext_inject ngx_buf.surjective ngx_buf.update_convs(2))
  then show ?thesis using smtp.res.parse_resume [OF assms(1-3) p]
    by (simp add: ngx_mail_smtp_parse_command_def split: if_splits)
qed

theorem pop3_smtp_resume_witness:
  "mail_same (ngx_mail_pop3_parse_command (\<lambda>_. False) pop3_example pop3_example_buf ngx_mail_session_zero)
    (case ngx_mail_pop3_parse_command (\<lambda>_. False) (take 7 pop3_example) (pop3_example_buf\<lparr>b_last := 7\<rparr>)
       ngx_mail_session_zero of
       (rc, b', s') \<Rightarrow> ngx_mail_pop3_parse_command (\<lambda>_. False) pop3_example (b'\<lparr>b_last := 14\<rparr>) s')"
proof -
  let ?b = "pop3_example_buf\<lparr>b_last := 7\<rparr>" and ?parse = "ngx_mail_pop3_parse_command (\<lambda>_. False)"
  have "take (b_last ?b) (take 7 pop3_example) = take (b_last ?b) pop3_example"
    "b_pos ?b \<le> b_last ?b" "b_last ?b \<le> 14" "?b\<lparr>b_last := 14\<rparr> = pop3_example_buf"
    by (simp_all add: pop3_example_buf_def)
  moreover have "fst (?parse (take 7 pop3_example) ?b ngx_mail_session_zero) = NGX_AGAIN"
    by code_simp
  ultimately show ?thesis
    using pop3_smtp_resume [of ?b "take 7 pop3_example" pop3_example 14 ?parse "\<lambda>_. False" ngx_mail_session_zero]
    by (auto split: prod.splits)
qed

section \<open>A line is answered\<close>

lemma cmd_step_LF:
  "m ! p = LF \<Longrightarrow> \<exists>r. cmd_step command lim spaces oom start m p s = Stop r"
  by (cases s; cases "fst s") (auto simp: cmd_state_defs split: option.split)

context mail_command begin

lemma answer:
  assumes "b_pos b \<le> i" "i < b_last b" "m ! i = LF"
    "run_parser (cmd_step command lim spaces oom start) cmd_load cmd_store (cmd_leave auth oom) m b s = (rc, b', s')"
  shows "rc \<in> {NGX_OK, NGX_MAIL_PARSE_INVALID_COMMAND, NGX_ERROR} \<and> (rc = NGX_OK \<longrightarrow> b_pos b' \<le> i + 1)"
proof -
  let ?step = "cmd_step command lim spaces oom start"
  obtain q r where *: "scan ?step m (b_pos b) (b_last b) (cmd_load s) = Stop (q, r)" "q \<le> i"
    using scan_stops [where step = ?step and m = m, OF cmd_step_LF [OF assms(3)] assms(1,2)] by blast
  obtain ex t where r: "r = (ex, t)" by (cases r)
  have "cmd_exits r" using * res.scan_exits by blast
  then show ?thesis
    using assms(4) * r by (cases ex) (auto simp: run_parser_def Let_def split: if_splits)
qed

end

text \<open>
  A complete line is always answered: where the received bytes hold a line feed, the parsers do
  not ask for more bytes, and an accepted command ends at that line feed or before it.
\<close>

theorem pop3_smtp_answer:
  assumes "b_pos b \<le> i" "i < b_last b" "m ! i = LF"
    and "parse = ngx_mail_pop3_parse_command oom \<or> parse = ngx_mail_smtp_parse_command oom"
    and "parse m b s = (rc, b', s')"
  shows "rc \<in> {NGX_OK, NGX_MAIL_PARSE_INVALID_COMMAND, NGX_ERROR} \<and> (rc = NGX_OK \<longrightarrow> b_pos b' \<le> i + 1)"
  using assms(4)
  by (rule disjE)
    (rule pop3.answer [OF assms(1-3)] smtp.answer [OF assms(1-3)],
      use assms(5) in \<open>simp add: ngx_mail_pop3_parse_command_def ngx_mail_smtp_parse_command_def\<close>)+

theorem pop3_smtp_answer_witness:
  "fst (ngx_mail_smtp_parse_command (\<lambda>_. False) pop3_example pop3_example_buf ngx_mail_session_zero)
   \<in> {NGX_OK, NGX_MAIL_PARSE_INVALID_COMMAND, NGX_ERROR}"
proof -
  have "b_pos pop3_example_buf \<le> 13" "13 < b_last pop3_example_buf" "pop3_example ! 13 = LF"
    by (simp_all add: pop3_example_def pop3_example_buf_def)
  from pop3_smtp_answer [OF this, of "ngx_mail_smtp_parse_command (\<lambda>_. False)" "\<lambda>_. False" ngx_mail_session_zero]
  show ?thesis
    by (cases "ngx_mail_smtp_parse_command (\<lambda>_. False) pop3_example pop3_example_buf ngx_mail_session_zero")
      simp
qed

section \<open>The arguments of a command\<close>

definition cmd_bad :: "(ngx_uint \<Rightarrow> bool) \<Rightarrow> ngx_mail_session \<Rightarrow> byte set" where
  "cmd_bad spaces s = (if spaces (ms_command s) then {CR, LF} else {SP, CR, LF})"

definition cmd_args_ok ::
  "(ngx_uint \<Rightarrow> bool) \<Rightarrow> ptr \<Rightarrow> mem \<Rightarrow> ptr \<Rightarrow> ngx_mail_session \<Rightarrow> bool" where
  "cmd_args_ok spaces start m p s \<longleftrightarrow>
    list_all (str_within m start p (cmd_bad spaces s)) (ms_args s)"

fun cmd_inv ::
  "nat \<Rightarrow> (ngx_uint \<Rightarrow> bool) \<Rightarrow> ptr \<Rightarrow> mem \<Rightarrow> ptr \<Rightarrow> cmd_state \<times> ngx_mail_session \<Rightarrow> bool" where
  "cmd_inv lim spaces start m p (st, s) \<longleftrightarrow>
    0 < start \<and> start \<le> p \<and> cmd_args_ok spaces start m p s \<and>
    (case st of
       cmd_sw_start \<Rightarrow> ms_args s = [] \<and> ms_arg_start s = NULL
     | cmd_sw_argument \<Rightarrow>
         length (ms_args s) \<le> lim \<and> start \<le> ms_arg_start s \<and> ms_arg_start s \<le> p \<and>
         (\<forall>i. ms_arg_start s \<le> i \<and> i < p \<longrightarrow> m ! i \<notin> cmd_bad spaces s)
     | _ \<Rightarrow> length (ms_args s) \<le> Suc lim \<and> ms_arg_start s = NULL)"

fun cmd_post ::
  "nat \<Rightarrow> (ngx_uint \<Rightarrow> bool) \<Rightarrow> ptr \<Rightarrow> mem \<Rightarrow> ptr \<Rightarrow> mail_exit \<times> ngx_mail_session \<Rightarrow> bool" where
  "cmd_post lim spaces start m p (ex, s) \<longleftrightarrow>
    ex = Mail_done \<longrightarrow> m ! p = LF \<and> length (ms_args s) \<le> Suc lim \<and> ms_arg_start s = NULL \<and>
      cmd_args_ok spaces start m p s"

lemma cmd_args_ok_Nil: "ms_args s = [] \<Longrightarrow> cmd_args_ok spaces start m p s"
  by (simp add: cmd_args_ok_def)

lemma cmd_args_ok_Suc: "cmd_args_ok spaces start m p s \<Longrightarrow> cmd_args_ok spaces start m (Suc p) s"
  by (auto simp: cmd_args_ok_def list_all_iff intro: str_within_mono)

lemma cmd_args_ok_upd [simp]:
  "cmd_args_ok spaces start m p (s\<lparr>ms_arg_end := e\<rparr>) = cmd_args_ok spaces start m p s"
  "cmd_args_ok spaces start m p (s\<lparr>ms_arg_start := e\<rparr>) = cmd_args_ok spaces start m p s"
  "cmd_args_ok spaces start m p (s\<lparr>ms_state := k\<rparr>) = cmd_args_ok spaces start m p s"
  by (simp_all add: cmd_args_ok_def cmd_bad_def)

lemma cmd_args_ok_push:
  "cmd_args_ok spaces start m p s \<Longrightarrow> start \<le> ms_arg_start s \<Longrightarrow> ms_arg_start s \<le> p \<Longrightarrow>
   \<forall>i. ms_arg_start s \<le> i \<and> i < p \<longrightarrow> m ! i \<notin> cmd_bad spaces s \<Longrightarrow>
   cmd_args_ok spaces start m p (mail_push p s)"
  by (auto simp: cmd_args_ok_def mail_push_def cmd_bad_def intro!: str_within_push)

lemma cmd_word_end_sat:
  assumes "0 < start" "start \<le> p" "cmd_args_ok spaces start m p s" "length (ms_args s) \<le> Suc lim"
    "ms_arg_start s = NULL" "m ! p = SP \<or> m ! p = CR \<or> m ! p = LF"
  shows "action_sat (cmd_inv lim spaces start m (Suc p)) (cmd_post lim spaces start m p) (cmd_word_end (m ! p) s)"
  using assms by (auto simp: cmd_word_end_def cmd_args_ok_Suc)

lemma cmd_step_sat:
  assumes "cmd_inv lim spaces start m p (st, s)"
  shows "action_sat (cmd_inv lim spaces start m (Suc p)) (cmd_post lim spaces start m p)
    (cmd_step command lim spaces oom start m p (st, s))"
proof (cases st)
  case cmd_sw_start
  then have "action_sat (cmd_inv lim spaces start m (Suc p)) (cmd_post lim spaces start m p)
    (cmd_word_end (m ! p) (s\<lparr>ms_command := k\<rparr>))" if "m ! p = SP \<or> m ! p = CR \<or> m ! p = LF" for k
    using assms that by (intro cmd_word_end_sat) (auto simp: cmd_args_ok_Nil)
  then show ?thesis using assms cmd_sw_start
    by (auto simp: cmd_start_def cmd_args_ok_Nil Let_def split: option.split)
next
  case cmd_sw_spaces_before_argument
  then show ?thesis using assms
    by (auto simp: cmd_spaces_before_argument_def Let_def cmd_bad_def cmd_args_ok_Suc less_Suc_eq_le)
next
  case cmd_sw_argument
  have "action_sat (cmd_inv lim spaces start m (Suc p)) (cmd_post lim spaces start m p)
    (cmd_word_end (m ! p) (mail_push p s))" if "m ! p = SP \<or> m ! p = CR \<or> m ! p = LF"
    using assms that cmd_sw_argument
    by (intro cmd_word_end_sat cmd_args_ok_push) (auto simp: mail_push_def)
  then show ?thesis using assms cmd_sw_argument
    by (auto simp: cmd_argument_def Let_def cmd_args_ok_Suc less_Suc_eq cmd_bad_def)
next
  case cmd_sw_almost_done
  then show ?thesis using assms by (simp add: cmd_almost_done_def Let_def)
qed

sublocale mail_command \<subseteq> inv: scanner_inv "cmd_step command lim spaces oom start"
  "cmd_inv lim spaces start" "cmd_post lim spaces start"
  by unfold_locales (metis cmd_step_sat prod.exhaust)

text \<open>
  How the session is when a command is awaited: no argument yet; either at the start of a
  command, or, after \<open>AUTH\<close>, at the start of an argument.
\<close>

definition cmd_ready :: "ngx_buf \<Rightarrow> ngx_mail_session \<Rightarrow> bool" where
  "cmd_ready b s \<longleftrightarrow>
    0 < b_start b \<and> b_pos b = b_start b \<and> ms_args s = [] \<and>
    (ms_state s = enum_index cmd_states cmd_sw_start \<and> ms_arg_start s = NULL \<or>
     ms_state s = enum_index cmd_states cmd_sw_argument \<and> ms_arg_start s = b_start b)"

lemma cmd_ready_inv:
  "cmd_ready b s \<Longrightarrow> cmd_inv lim spaces (b_start b) m (b_pos b) (cmd_load s)"
  by (auto simp: cmd_ready_def cmd_load_def cmd_args_ok_Nil)

context mail_command begin

lemma arguments:
  assumes "cmd_ready b s" "start = b_start b"
    "run_parser (cmd_step command lim spaces oom start) cmd_load cmd_store (cmd_leave auth oom) m b s =
      (NGX_OK, b', s')"
  shows "b_start b < b_pos b' \<and> b_pos b' \<le> b_last b \<and> m ! (b_pos b' - 1) = LF \<and>
    length (ms_args s') \<le> Suc lim \<and> cmd_args_ok spaces (b_start b) m (b_pos b' - 1) s' \<and>
    ms_arg_start s' = NULL \<and>
    ms_state s' = enum_index cmd_states (if ms_command s' \<noteq> auth then cmd_sw_start else cmd_sw_argument)"
proof -
  let ?step = "cmd_step command lim spaces oom start"
  obtain q r where *: "scan ?step m (b_pos b) (b_last b) (cmd_load s) = Stop (q, r)"
    and l: "cmd_leave auth oom q b r = (NGX_OK, b', s')"
    using assms(3) by (auto simp: run_parser_def split: action.splits)
  obtain ex t where r: "r = (ex, t)" by (cases r)
  have "cmd_exits r" using * res.scan_exits by blast
  then have ex: "ex = Mail_done" using l r by (cases ex) auto
  have p: "b_pos b \<le> q \<and> q < b_last b \<and> cmd_post lim spaces start m q r"
    using inv.scan_post [OF cmd_ready_inv [OF assms(1), folded assms(2)] *] .
  then have "ms_arg_start t = NULL" using r ex by simp
  then have "b' = b\<lparr>b_pos := q + 1\<rparr>" "s' = cmd_done_state auth t" using l r ex by auto
  then show ?thesis using p r ex assms(1,2) by (auto simp: cmd_done_state_def cmd_ready_def)
qed

end

text \<open>
  An accepted POP3 command, parsed from the beginning of the buffer, ends with a line feed inside
  the received bytes and has at most three arguments; each lies between the start of the
  buffer and that line feed, its length is not negative, and it holds no line break and, except
  after \<open>USER\<close> and \<open>PASS\<close>, no space; no argument is left open.
\<close>

theorem pop3_arguments:
  assumes "cmd_ready b s" "ngx_mail_pop3_parse_command oom m b s = (NGX_OK, b', s')"
  shows "b_start b < b_pos b' \<and> b_pos b' \<le> b_last b \<and> m ! (b_pos b' - 1) = LF \<and>
    length (ms_args s') \<le> 3 \<and>
    (\<forall>a \<in> set (ms_args s'). str_within m (b_start b) (b_pos b' - 1)
       (if ms_command s' \<in> {NGX_POP3_USER, NGX_POP3_PASS} then {CR, LF} else {SP, CR, LF}) a) \<and>
    ms_arg_start s' = NULL"
  using pop3.arguments [OF assms(1) refl assms(2) [unfolded ngx_mail_pop3_parse_command_def]]
  by (auto simp: cmd_args_ok_def cmd_bad_def pop3_spaces_def list_all_iff)

theorem pop3_arguments_witness:
  "case ngx_mail_pop3_parse_command (\<lambda>_. False) pop3_example pop3_example_buf ngx_mail_session_zero of
     (rc, b', s') \<Rightarrow> rc = NGX_OK \<and> b_pos b' \<le> 14 \<and> length (ms_args s') \<le> 3 \<and> ms_arg_start s' = NULL"
proof -
  have "cmd_ready pop3_example_buf ngx_mail_session_zero"
    by (simp add: cmd_ready_def pop3_example_buf_def ngx_mail_session_zero_def cmd_states_def enum_index_def)
  moreover have "fst (ngx_mail_pop3_parse_command (\<lambda>_. False) pop3_example pop3_example_buf ngx_mail_session_zero) = NGX_OK"
    by code_simp
  ultimately show ?thesis
    using pop3_arguments [of pop3_example_buf ngx_mail_session_zero "\<lambda>_. False" pop3_example]
    by (auto simp: pop3_example_buf_def split: prod.splits)
qed

text \<open>The same for SMTP, with at most eleven arguments.\<close>

theorem smtp_arguments:
  assumes "cmd_ready b s" "ngx_mail_smtp_parse_command oom m b s = (NGX_OK, b', s')"
  shows "b_start b < b_pos b' \<and> b_pos b' \<le> b_last b \<and> m ! (b_pos b' - 1) = LF \<and>
    length (ms_args s') \<le> 11 \<and>
    (\<forall>a \<in> set (ms_args s'). str_within m (b_start b) (b_pos b' - 1) {SP, CR, LF} a) \<and>
    ms_arg_start s' = NULL"
  using smtp.arguments [OF assms(1) refl assms(2) [unfolded ngx_mail_smtp_parse_command_def]]
  by (auto simp: cmd_args_ok_def cmd_bad_def list_all_iff)

section \<open>Printed commands\<close>

text \<open>A command as a client prints it, and where its arguments are in the memory.\<close>

definition cmd_print :: "byte list \<Rightarrow> byte list list \<Rightarrow> byte list" where
  "cmd_print w args = w @ concat (map ((#) SP) args) @ [CR, LF]"

fun cmd_strs :: "ptr \<Rightarrow> byte list list \<Rightarrow> ngx_str list" where
  "cmd_strs p [] = []"
| "cmd_strs p (a # as) = \<lparr>str_len = int (length a), str_data = Suc p\<rparr> # cmd_strs (p + 1 + length a) as"

definition cmd_printable :: "(ngx_uint \<Rightarrow> bool) \<Rightarrow> ngx_uint \<Rightarrow> byte list list \<Rightarrow> bool" where
  "cmd_printable spaces k args \<longleftrightarrow>
    list_all (\<lambda>a. a \<noteq> [] \<and> hd a \<noteq> SP \<and> list_all (\<lambda>c. c \<noteq> CR \<and> c \<noteq> LF \<and> (c = SP \<longrightarrow> spaces k)) a) args \<and>
    (spaces k \<longrightarrow> length args \<le> 1)"

lemma cmd_strs_bytes:
  "m = pre @ concat (map ((#) SP) args) @ post \<Longrightarrow> map (str_bytes m) (cmd_strs (length pre) args) = args"
proof (induction args arbitrary: pre)
  case (Cons a as)
  from Cons.IH [of "pre @ SP # a"] Cons.prems show ?case by (simp add: str_bytes_def)
qed simp

lemma is_letter_word: "is_letter c \<Longrightarrow> c \<noteq> SP \<and> c \<noteq> CR \<and> c \<noteq> LF"
  by (auto simp: is_letter_def)

context mail_command begin

abbreviation "stp \<equiv> cmd_step command lim spaces oom start"

lemma scan_argument:
  assumes m: "m = pre @ SP # a @ c # post" and e: "length pre + 1 + length a < e"
    and a: "a \<noteq> []" "hd a \<noteq> SP" "list_all (\<lambda>c. c \<noteq> CR \<and> c \<noteq> LF \<and> (c = SP \<longrightarrow> spaces (ms_command s))) a"
    and lim: "length (ms_args s) \<le> lim" "ms_arg_start s = NULL"
  shows "scan stp m (Suc (length pre)) e (cmd_sw_spaces_before_argument, s) =
    scan stp m (length pre + 1 + length a) e (cmd_sw_argument, s\<lparr>ms_arg_start := Suc (length pre)\<rparr>)"
proof -
  obtain x xs where x: "a = x # xs" using a(1) by (cases a) auto
  have nth: "m ! (Suc (length pre) + i) = a ! i" if "i < length a" for i
    using that unfolding m by (simp add: nth_append)
  have "m ! Suc (length pre) = x" using nth [of 0] x by simp
  then have "scan stp m (Suc (length pre)) e (cmd_sw_spaces_before_argument, s) =
    scan stp m (Suc (Suc (length pre))) e (cmd_sw_argument, s\<lparr>ms_arg_start := Suc (length pre)\<rparr>)"
    using a lim x e by (intro scan_Cont) (auto simp: cmd_spaces_before_argument_def)
  also have "\<dots> = scan stp m (Suc (Suc (length pre)) + length xs) e
    (cmd_sw_argument, s\<lparr>ms_arg_start := Suc (length pre)\<rparr>)"
  proof (rule scan_run)
    fix i assume i: "i < length xs"
    then have "m ! (Suc (Suc (length pre)) + i) = xs ! i" using nth [of "Suc i"] x by simp
    then show "stp m (Suc (Suc (length pre)) + i) (cmd_sw_argument, s\<lparr>ms_arg_start := Suc (length pre)\<rparr>) =
      Cont (cmd_sw_argument, s\<lparr>ms_arg_start := Suc (length pre)\<rparr>)"
      using a(3) i x by (auto simp: cmd_argument_def Let_def list_all_length)
  qed (use x e in simp)
  finally show ?thesis using x by simp
qed

lemma scan_print:
  assumes "stp m (length pre) (st, t) = cmd_word_end (m ! length pre) s"
    "m = pre @ concat (map ((#) SP) args) @ [CR, LF] @ post" "ms_arg_start s = NULL"
    "length (ms_args s) + length args \<le> Suc lim" "cmd_printable spaces (ms_command s) args"
    "length pre + length (concat (map ((#) SP) args)) + 2 \<le> e" "\<And>as. \<not> oom as"
  shows "scan stp m (length pre) e (st, t) =
    Stop (length pre + length (concat (map ((#) SP) args)) + 1,
      Mail_done, s\<lparr>ms_args := ms_args s @ cmd_strs (length pre) args\<rparr>)"
  using assms
proof (induction args arbitrary: pre st s t)
  case Nil
  then have "m ! length pre = CR" "m ! Suc (length pre) = LF" by (simp_all add: nth_append)
  then show ?case
    using Nil by (simp add: cmd_word_end_def cmd_almost_done_def)
next
  case (Cons a as)
  let ?s = "s\<lparr>ms_arg_start := Suc (length pre)\<rparr>" and ?q = "length pre + 1 + length a"
  have m: "m = pre @ SP # a @ hd (concat (map ((#) SP) as) @ [CR, LF]) # tl (concat (map ((#) SP) as) @ [CR, LF]) @ post"
    using Cons.prems(2) by (cases as) auto
  have m2: "m = (pre @ SP # a) @ concat (map ((#) SP) as) @ [CR, LF] @ post"
    using Cons.prems(2) by simp
  have c: "m ! ?q = (if as = [] then CR else SP)"
    using Cons.prems(2) by (cases as) (simp_all add: nth_append)
  have "scan stp m (length pre) e (st, t) = scan stp m (Suc (length pre)) e (cmd_sw_spaces_before_argument, s)"
  proof (rule scan_Cont)
    have "m ! length pre = SP" unfolding m by (simp add: nth_append)
    then show "stp m (length pre) (st, t) = Cont (cmd_sw_spaces_before_argument, s)"
      using Cons.prems(1) by (simp add: cmd_word_end_def)
  qed (use Cons.prems(6) in simp)
  also have "\<dots> = scan stp m ?q e (cmd_sw_argument, ?s)"
    using Cons.prems(3-6) by (intro scan_argument [OF m]) (auto simp: cmd_printable_def)
  also have "\<dots> = Stop (?q + length (concat (map ((#) SP) as)) + 1, Mail_done,
    mail_push ?q ?s \<lparr>ms_args := ms_args (mail_push ?q ?s) @ cmd_strs ?q as\<rparr>)"
  proof -
    have "\<not> spaces (ms_command s) \<or> as = []" using Cons.prems(5) by (auto simp: cmd_printable_def)
    then have "stp m ?q (cmd_sw_argument, ?s) = cmd_word_end (m ! ?q) (mail_push ?q ?s)"
      unfolding cmd_step.simps Let_def c cmd_state.case cmd_argument_def
      using Cons.prems(7) by (cases "as = []") simp_all
    then have st: "stp m (length (pre @ SP # a)) (cmd_sw_argument, ?s) =
      cmd_word_end (m ! length (pre @ SP # a)) (mail_push ?q ?s)" by (simp del: cmd_step.simps)
    have pr: "cmd_printable spaces (ms_command (mail_push ?q ?s)) as"
      using Cons.prems(5) by (auto simp: cmd_printable_def mail_push_def)
    have "scan stp m (length (pre @ SP # a)) e (cmd_sw_argument, ?s) =
      Stop (length (pre @ SP # a) + length (concat (map ((#) SP) as)) + 1, Mail_done,
        mail_push ?q ?s \<lparr>ms_args := ms_args (mail_push ?q ?s) @ cmd_strs (length (pre @ SP # a)) as\<rparr>)"
      by (rule Cons.IH [OF st m2 _ _ pr _ Cons.prems(7)])
        (use Cons.prems(4,6) in \<open>simp_all add: mail_push_def\<close>)
    then show ?thesis by simp
  qed
  finally show ?case using Cons.prems(3) by (cases s) (simp add: mail_push_def)
qed

lemma print_parse:
  assumes m: "m = pre @ cmd_print w args @ post" and "length pre = start" "0 < start"
    and b: "b_start b = start" "b_pos b = start" "start + length (cmd_print w args) \<le> b_last b"
    and s: "ms_state s = 0" "ms_args s = []" "ms_arg_start s = NULL"
    and w: "list_all is_letter w" "command m start (start + length w) = Some k"
    and args: "length args \<le> Suc lim" "cmd_printable spaces k args" and oom: "\<And>as. \<not> oom as"
    and run: "run_parser stp cmd_load cmd_store (cmd_leave auth oom) m b s = (rc, b', s')"
  shows "rc = NGX_OK \<and> b_pos b' = start + length (cmd_print w args) \<and> ms_command s' = k \<and>
    map (str_bytes m) (ms_args s') = args"
proof -
  let ?p = "start + length w" and ?s = "s\<lparr>ms_command := k\<rparr>"
  have m': "m = (pre @ w) @ concat (map ((#) SP) args) @ [CR, LF] @ post"
    using m by (simp add: cmd_print_def)
  have len: "length (cmd_print w args) = length w + length (concat (map ((#) SP) args)) + 2"
    by (simp add: cmd_print_def)
  have "scan stp m start (b_last b) (cmd_sw_start, s) = scan stp m ?p (b_last b) (cmd_sw_start, s)"
  proof (rule scan_run)
    fix i assume i: "i < length w"
    then have "m ! (start + i) = w ! i" using m' \<open>length pre = start\<close> by (auto simp: nth_append)
    moreover have "is_letter (w ! i)" using w(1) i by (simp add: list_all_length)
    ultimately show "stp m (start + i) (cmd_sw_start, s) = Cont (cmd_sw_start, s)"
      using is_letter_word [of "w ! i"] by (simp add: cmd_start_def Let_def)
  qed (use b(3) len in simp)
  also have "\<dots> = Stop (?p + length (concat (map ((#) SP) args)) + 1, Mail_done,
      ?s\<lparr>ms_args := ms_args ?s @ cmd_strs ?p args\<rparr>)"
  proof -
    have "m ! ?p = SP \<or> m ! ?p = CR"
      using m' \<open>length pre = start\<close> by (cases args) (auto simp: nth_append)
    then have "stp m ?p (cmd_sw_start, s) = cmd_word_end (m ! ?p) ?s"
      using w(2) by (auto simp: cmd_start_def Let_def)
    then show ?thesis
      using scan_print [of m "pre @ w" cmd_sw_start s ?s args post "b_last b"] m' s args oom b(3) len
        \<open>length pre = start\<close> by simp
  qed
  finally have scan: "scan stp m (b_pos b) (b_last b) (cmd_load s) =
    Stop (?p + length (concat (map ((#) SP) args)) + 1, Mail_done, ?s\<lparr>ms_args := cmd_strs ?p args\<rparr>)"
    using b(2) s by (simp add: cmd_load_def cmd_states_def enum_at_def)
  moreover have "map (str_bytes m) (cmd_strs ?p args) = args"
    using cmd_strs_bytes [of m "pre @ w" args "[CR, LF] @ post"] m' \<open>length pre = start\<close> by simp
  ultimately show ?thesis
    using run s len by (auto simp: run_parser_def cmd_done_state_def Let_def)
qed

end

text \<open>
  A POP3 command printed from a command word, in any mixture of upper and lower case, and up to
  three non-empty arguments without spaces and line breaks (for \<open>USER\<close> and \<open>PASS\<close> one argument,
  which may have spaces inside) is accepted and parses to exactly this command and these
  arguments, provided no allocation fails.
\<close>

theorem pop3_roundtrip:
  assumes "m = pre @ cmd_print w args @ post" "0 < length pre"
    "b_start b = length pre" "b_pos b = length pre" "length pre + length (cmd_print w args) \<le> b_last b"
    "ms_state s = 0" "ms_args s = []" "ms_arg_start s = NULL"
    "list_all is_letter w" "pop3_command m (length pre) (length pre + length w) = Some k"
    "length args \<le> 3" "cmd_printable pop3_spaces k args"
    "ngx_mail_pop3_parse_command (\<lambda>_. False) m b s = (rc, b', s')"
  shows "rc = NGX_OK \<and> b_pos b' = length pre + length (cmd_print w args) \<and> ms_command s' = k \<and>
    map (str_bytes m) (ms_args s') = args"
  using assms by (intro pop3.print_parse) (simp_all add: ngx_mail_pop3_parse_command_def)

theorem pop3_roundtrip_witness:
  "case ngx_mail_pop3_parse_command (\<lambda>_. False) pop3_example pop3_example_buf ngx_mail_session_zero of
     (rc, b', s') \<Rightarrow> rc = NGX_OK \<and> b_pos b' = 14 \<and> ms_command s' = NGX_POP3_USER \<and>
       map (str_bytes pop3_example) (ms_args s') = [bytes ''al ice'']"
proof -
  let ?w = "bytes ''user''" and ?args = "[bytes ''al ice'']"
  have "pop3_example = [0] @ cmd_print ?w ?args @ []" "list_all is_letter ?w"
    "cmd_printable pop3_spaces NGX_POP3_USER ?args" by code_simp+
  moreover have "pop3_command pop3_example (length [0::byte]) (length [0::byte] + length ?w) = Some NGX_POP3_USER"
    by code_simp
  moreover have "length (cmd_print ?w ?args) = 13" by code_simp
  ultimately show ?thesis
    using pop3_roundtrip [of pop3_example "[0]" ?w ?args "[]" pop3_example_buf ngx_mail_session_zero NGX_POP3_USER]
    by (cases "ngx_mail_pop3_parse_command (\<lambda>_. False) pop3_example pop3_example_buf ngx_mail_session_zero")
      (simp add: pop3_example_buf_def ngx_mail_session_zero_def)
qed

text \<open>The same for SMTP, with up to eleven arguments.\<close>

theorem smtp_roundtrip:
  assumes "m = pre @ cmd_print w args @ post" "0 < length pre"
    "b_start b = length pre" "b_pos b = length pre" "length pre + length (cmd_print w args) \<le> b_last b"
    "ms_state s = 0" "ms_args s = []" "ms_arg_start s = NULL"
    "list_all is_letter w" "smtp_command m (length pre) (length pre + length w) = Some k"
    "length args \<le> 11" "cmd_printable (\<lambda>_. False) k args"
    "ngx_mail_smtp_parse_command (\<lambda>_. False) m b s = (rc, b', s')"
  shows "rc = NGX_OK \<and> b_pos b' = length pre + length (cmd_print w args) \<and> ms_command s' = k \<and>
    map (str_bytes m) (ms_args s') = args"
  using assms by (intro smtp.print_parse) (simp_all add: ngx_mail_smtp_parse_command_def)

end
