(* ===== verification/Ngx_Mail_Imap.thy ===== *)
theory Ngx_Mail_Imap
  imports Ngx_Mail_Session
begin

text \<open>
  \<open>ngx_mail_imap_parse_command\<close> of \<^verbatim>\<open>src/mail/ngx_mail_parse.c\<close> (lines 212--616), with quoted
  strings and literals.  The loop writes \<open>s->buffer->pos\<close> when a literal starts, so its value is
  a part of the state of the loop.

  Shown: a parse can be resumed; the arguments of an accepted command, over all the
  calls that read it, lie in the received bytes.  The last section evaluates what the parser does with \<open>{0}\<close>, and what an invalid
  command or an unclosed quote leave behind for the next command.
\<close>

section \<open>The states\<close>

datatype imap_state =
    im_sw_start
  | im_sw_spaces_before_command
  | im_sw_command
  | im_sw_spaces_before_argument
  | im_sw_argument
  | im_sw_backslash
  | im_sw_literal
  | im_sw_no_sync_literal_argument
  | im_sw_start_literal_argument
  | im_sw_literal_argument
  | im_sw_end_literal_argument
  | im_sw_almost_done

definition imap_states :: "imap_state list" where
  "imap_states =
    [im_sw_start, im_sw_spaces_before_command, im_sw_command, im_sw_spaces_before_argument,
     im_sw_argument, im_sw_backslash, im_sw_literal, im_sw_no_sync_literal_argument,
     im_sw_start_literal_argument, im_sw_literal_argument, im_sw_end_literal_argument,
     im_sw_almost_done]"

text \<open>The session and \<open>s->buffer->pos\<close>.\<close>

type_synonym imap_vars = "ngx_mail_session \<times> ptr"
type_synonym imap_action = "(imap_state \<times> imap_vars, mail_exit \<times> imap_vars) action"

text \<open>\<open>s->state = st; return rc\<close>.\<close>

definition imap_return :: "imap_state \<Rightarrow> ngx_rc \<Rightarrow> imap_vars \<Rightarrow> imap_action" where
  "imap_return st rc v =
    (case v of (s, pos) \<Rightarrow> Stop (Mail_return rc, s\<lparr>ms_state := enum_index imap_states st\<rparr>, pos))"

definition imap_start :: "ptr \<Rightarrow> ptr \<Rightarrow> byte \<Rightarrow> imap_vars \<Rightarrow> imap_action" where
  "imap_start start p ch v =
    (case v of (s, pos) \<Rightarrow>
      if ch = SP then
        Cont (im_sw_spaces_before_command,
          s\<lparr>ms_tag := \<lparr>str_len = int p - int start + 1, str_data = start\<rparr>\<rparr>, pos)
      else if ch = CR then imap_return im_sw_start NGX_MAIL_PARSE_INVALID_COMMAND v
      else if ch = LF then imap_return im_sw_start NGX_MAIL_PARSE_INVALID_COMMAND v
      else Cont (im_sw_start, v))"

definition imap_spaces_before_command :: "ptr \<Rightarrow> byte \<Rightarrow> imap_vars \<Rightarrow> imap_action" where
  "imap_spaces_before_command p ch v =
    (case v of (s, pos) \<Rightarrow>
      if ch = SP then Cont (im_sw_spaces_before_command, v)
      else if ch = CR then imap_return im_sw_start NGX_MAIL_PARSE_INVALID_COMMAND v
      else if ch = LF then imap_return im_sw_start NGX_MAIL_PARSE_INVALID_COMMAND v
      else Cont (im_sw_command, s\<lparr>ms_cmd_start := p\<rparr>, pos))"

definition imap_command_code :: "mem \<Rightarrow> ptr \<Rightarrow> ptr \<Rightarrow> ngx_uint option" where
  "imap_command_code m c p =
    (if p - c = 4 then
       (if mail_word m c ''NOOP'' ''noop'' then Some NGX_IMAP_NOOP else None)
     else if p - c = 5 then
       (if mail_word m c ''LOGIN'' ''login'' then Some NGX_IMAP_LOGIN else None)
     else if p - c = 6 then
       (if mail_word m c ''LOGOUT'' ''logout'' then Some NGX_IMAP_LOGOUT else None)
     else if p - c = 8 then
       (if mail_word m c ''STARTTLS'' ''starttls'' then Some NGX_IMAP_STARTTLS else None)
     else if p - c = 10 then
       (if mail_word m c ''CAPABILITY'' ''capability'' then Some NGX_IMAP_CAPABILITY else None)
     else if p - c = 12 then
       (if mail_word m c ''AUTHENTICATE'' ''authenticate'' then Some NGX_IMAP_AUTHENTICATE else None)
     else None)"

definition imap_command :: "mem \<Rightarrow> ptr \<Rightarrow> byte \<Rightarrow> imap_vars \<Rightarrow> imap_action" where
  "imap_command m p ch v =
    (case v of (s, pos) \<Rightarrow>
      if ch = SP \<or> ch = CR \<or> ch = LF then
        (case imap_command_code m (ms_cmd_start s) p of
           None \<Rightarrow> Stop (Mail_invalid, v)
         | Some k \<Rightarrow>
             (let v = (s\<lparr>ms_command := k\<rparr>, pos) in
              if ch = SP then Cont (im_sw_spaces_before_argument, v)
              else if ch = CR then Cont (im_sw_almost_done, v)
              else Stop (Mail_done, v)))
      else if \<not> is_letter ch then Stop (Mail_invalid, v)
      else Cont (im_sw_command, v))"

definition imap_spaces_before_argument :: "ptr \<Rightarrow> byte \<Rightarrow> imap_vars \<Rightarrow> imap_action" where
  "imap_spaces_before_argument p ch v =
    (case v of (s, pos) \<Rightarrow>
      if ch = SP then Cont (im_sw_spaces_before_argument, v)
      else if ch = CR then Cont (im_sw_almost_done, s\<lparr>ms_arg_end := p\<rparr>, pos)
      else if ch = LF then Stop (Mail_done, s\<lparr>ms_arg_end := p\<rparr>, pos)
      else if ch = 34 then
        (if length (ms_args s) \<le> 2
         then Cont (im_sw_argument, s\<lparr>ms_quoted := True, ms_arg_start := p + 1\<rparr>, pos)
         else Stop (Mail_invalid, v))
      else if ch = asc CHR ''{'' then
        (if length (ms_args s) \<le> 2 then Cont (im_sw_literal, v) else Stop (Mail_invalid, v))
      else if length (ms_args s) \<le> 2 then Cont (im_sw_argument, s\<lparr>ms_arg_start := p\<rparr>, pos)
      else Stop (Mail_invalid, v))"

text \<open>The end of an argument: push it, then the inner switch.\<close>

definition imap_argument_end :: "mail_oom \<Rightarrow> ptr \<Rightarrow> byte \<Rightarrow> imap_vars \<Rightarrow> imap_action" where
  "imap_argument_end oom p ch v =
    (case v of (s, pos) \<Rightarrow>
      if oom (ms_args s) then Stop (Mail_return NGX_ERROR, v)
      else
        (let v = (mail_push p s, pos) in
         if ch = 34 \<or> ch = SP then Cont (im_sw_spaces_before_argument, v)
         else if ch = CR then Cont (im_sw_almost_done, v)
         else Stop (Mail_done, v)))"

definition imap_argument :: "mail_oom \<Rightarrow> ptr \<Rightarrow> byte \<Rightarrow> imap_vars \<Rightarrow> imap_action" where
  "imap_argument oom p ch v =
    (case v of (s, pos) \<Rightarrow>
      if ch = SP \<and> ms_quoted s then Cont (im_sw_argument, v)
      else if ch = 34 then
        (if \<not> ms_quoted s then Cont (im_sw_argument, v)
         else imap_argument_end oom p ch (s\<lparr>ms_quoted := False\<rparr>, pos))
      else if ch = SP \<or> ch = CR \<or> ch = LF then imap_argument_end oom p ch v
      else if ch = 92 then
        (if ms_quoted s then Cont (im_sw_backslash, s\<lparr>ms_backslash := True\<rparr>, pos)
         else Cont (im_sw_argument, v))
      else Cont (im_sw_argument, v))"

definition imap_backslash :: "byte \<Rightarrow> imap_vars \<Rightarrow> imap_action" where
  "imap_backslash ch v =
    (if ch = CR \<or> ch = LF then Stop (Mail_invalid, v) else Cont (im_sw_argument, v))"

definition imap_literal :: "byte \<Rightarrow> imap_vars \<Rightarrow> imap_action" where
  "imap_literal ch v =
    (case v of (s, pos) \<Rightarrow>
      if ch \<ge> asc CHR ''0'' \<and> ch \<le> asc CHR ''9'' then
        Cont (im_sw_literal,
          s\<lparr>ms_literal_len := ms_literal_len s * 10 + (ucast ch - ucast (asc CHR ''0'' :: byte))\<rparr>, pos)
      else if ch = asc CHR ''}'' then Cont (im_sw_start_literal_argument, v)
      else if ch = asc CHR ''+'' then Cont (im_sw_no_sync_literal_argument, v)
      else Stop (Mail_invalid, v))"

definition imap_no_sync_literal_argument :: "byte \<Rightarrow> imap_vars \<Rightarrow> imap_action" where
  "imap_no_sync_literal_argument ch v =
    (case v of (s, pos) \<Rightarrow>
      if ch = asc CHR ''}'' then Cont (im_sw_start_literal_argument, s\<lparr>ms_no_sync_literal := True\<rparr>, pos)
      else Stop (Mail_invalid, v))"

definition imap_start_literal_argument :: "ptr \<Rightarrow> byte \<Rightarrow> imap_vars \<Rightarrow> imap_action" where
  "imap_start_literal_argument p ch v =
    (case v of (s, pos) \<Rightarrow>
      if ch = CR then Cont (im_sw_start_literal_argument, v)
      else if ch = LF then
        (let pos = p + 1; s = s\<lparr>ms_arg_start := p + 1\<rparr> in
         if \<not> ms_no_sync_literal s then imap_return im_sw_literal_argument NGX_IMAP_NEXT (s, pos)
         else Cont (im_sw_literal_argument, s\<lparr>ms_no_sync_literal := False\<rparr>, pos))
      else Stop (Mail_invalid, v))"

text \<open>\<open>if (s->literal_len && --s->literal_len) break;\<close> counts down also when the test fails.\<close>

definition imap_literal_argument :: "mail_oom \<Rightarrow> ptr \<Rightarrow> imap_vars \<Rightarrow> imap_action" where
  "imap_literal_argument oom p v =
    (case v of (s, pos) \<Rightarrow>
      let n = (if ms_literal_len s = 0 then 0 else ms_literal_len s - 1);
          s = s\<lparr>ms_literal_len := n\<rparr>
      in if n \<noteq> 0 then Cont (im_sw_literal_argument, s, pos)
         else if oom (ms_args s) then Stop (Mail_return NGX_ERROR, s, pos)
         else Cont (im_sw_end_literal_argument, mail_push (p + 1) s, pos))"

definition imap_end_literal_argument :: "byte \<Rightarrow> imap_vars \<Rightarrow> imap_action" where
  "imap_end_literal_argument ch v =
    (case v of (s, pos) \<Rightarrow>
      if ch = asc CHR ''{'' then
        (if length (ms_args s) \<le> 2 then Cont (im_sw_literal, v) else Stop (Mail_invalid, v))
      else if ch = CR then Cont (im_sw_almost_done, v)
      else if ch = LF then Stop (Mail_done, v)
      else Cont (im_sw_spaces_before_argument, v))"

definition imap_almost_done :: "byte \<Rightarrow> imap_vars \<Rightarrow> imap_action" where
  "imap_almost_done ch v = (if ch = LF then Stop (Mail_done, v) else Stop (Mail_invalid, v))"

fun imap_step :: "mail_oom \<Rightarrow> ptr \<Rightarrow> mem \<Rightarrow> ptr \<Rightarrow> imap_state \<times> imap_vars \<Rightarrow> imap_action" where
  "imap_step oom start m p (st, v) =
    (let ch = m ! p in
     case st of
       im_sw_start \<Rightarrow> imap_start start p ch v
     | im_sw_spaces_before_command \<Rightarrow> imap_spaces_before_command p ch v
     | im_sw_command \<Rightarrow> imap_command m p ch v
     | im_sw_spaces_before_argument \<Rightarrow> imap_spaces_before_argument p ch v
     | im_sw_argument \<Rightarrow> imap_argument oom p ch v
     | im_sw_backslash \<Rightarrow> imap_backslash ch v
     | im_sw_literal \<Rightarrow> imap_literal ch v
     | im_sw_no_sync_literal_argument \<Rightarrow> imap_no_sync_literal_argument ch v
     | im_sw_start_literal_argument \<Rightarrow> imap_start_literal_argument p ch v
     | im_sw_literal_argument \<Rightarrow> imap_literal_argument oom p v
     | im_sw_end_literal_argument \<Rightarrow> imap_end_literal_argument ch v
     | im_sw_almost_done \<Rightarrow> imap_almost_done ch v)"

section \<open>The function\<close>

definition imap_done_state :: "ngx_mail_session \<Rightarrow> ngx_mail_session" where
  "imap_done_state s =
    s\<lparr>ms_state := enum_index imap_states
        (if ms_command s \<noteq> NGX_IMAP_AUTHENTICATE then im_sw_start else im_sw_argument)\<rparr>"

text \<open>The labels \<open>done\<close> and \<open>invalid\<close>.\<close>

fun imap_leave ::
  "mail_oom \<Rightarrow> ptr \<Rightarrow> ngx_buf \<Rightarrow> mail_exit \<times> imap_vars \<Rightarrow> ngx_rc \<times> ngx_buf \<times> ngx_mail_session" where
  "imap_leave oom p b (Mail_done, s, pos) =
    (let b = b\<lparr>b_pos := p + 1\<rparr> in
     if ms_arg_start s \<noteq> NULL then
       (if oom (ms_args s) then (NGX_ERROR, b, s)
        else (NGX_OK, b, imap_done_state ((mail_push (ms_arg_end s) s)
               \<lparr>ms_cmd_start := NULL, ms_quoted := False, ms_no_sync_literal := False,
                ms_literal_len := 0\<rparr>)))
     else (NGX_OK, b, imap_done_state s))"
| "imap_leave oom p b (Mail_invalid, s, pos) =
    (NGX_MAIL_PARSE_INVALID_COMMAND, b\<lparr>b_pos := pos\<rparr>,
     s\<lparr>ms_state := enum_index imap_states im_sw_start, ms_quoted := False,
       ms_no_sync_literal := False, ms_literal_len := 0\<rparr>)"
| "imap_leave oom p b (Mail_return rc, s, pos) = (rc, b\<lparr>b_pos := pos\<rparr>, s)"

definition ngx_mail_imap_parse_command ::
  "mail_oom \<Rightarrow> mem \<Rightarrow> ngx_buf \<Rightarrow> ngx_mail_session \<Rightarrow> ngx_rc \<times> ngx_buf \<times> ngx_mail_session" where
  "ngx_mail_imap_parse_command oom m b s =
    (case scan (imap_step oom (b_start b)) m (b_pos b) (b_last b)
            (enum_at imap_states (ms_state s), s, b_pos b) of
       Cont (p, st, s, pos) \<Rightarrow>
         (NGX_AGAIN, b\<lparr>b_pos := p\<rparr>, s\<lparr>ms_state := enum_index imap_states st\<rparr>)
     | Stop (p, x) \<Rightarrow> imap_leave oom p b x)"

section \<open>A parse can be resumed\<close>

lemmas imap_state_defs =
  imap_return_def imap_start_def imap_spaces_before_command_def imap_command_def
  imap_spaces_before_argument_def imap_argument_end_def imap_argument_def imap_backslash_def
  imap_literal_def imap_no_sync_literal_argument_def imap_start_literal_argument_def
  imap_literal_argument_def imap_end_literal_argument_def imap_almost_done_def

lemma set_imap_states [simp]: "st \<in> set imap_states"
  by (cases st) (simp_all add: imap_states_def)

lemma imap_command_code_local:
  assumes "take (Suc p) m1 = take (Suc p) m2"
  shows "imap_command_code m1 c p = imap_command_code m2 c p"
  unfolding imap_command_code_def
  by (intro if_cong refl mail_word_local [OF assms]) simp_all

text \<open>
  What the loop computes does not depend on \<open>s->state\<close> and \<open>s->buffer->pos\<close>; these are written
  before a return that asks for a literal.
\<close>

fun imap_like :: "imap_state \<times> imap_vars \<Rightarrow> imap_state \<times> imap_vars \<Rightarrow> bool" where
  "imap_like (st, s, pos) (st', s', pos') \<longleftrightarrow> st = st' \<and> (\<exists>k. s' = s\<lparr>ms_state := k\<rparr>)"

fun imap_exit_like :: "mail_exit \<times> imap_vars \<Rightarrow> mail_exit \<times> imap_vars \<Rightarrow> bool" where
  "imap_exit_like (ex, s, pos) (ex', s', pos') \<longleftrightarrow>
    ex = ex' \<and> (\<exists>k. s' = s\<lparr>ms_state := k\<rparr>) \<and>
    (case ex of
       Mail_return rc \<Rightarrow>
         rc = NGX_ERROR \<or> rc = NGX_MAIL_PARSE_INVALID_COMMAND \<and> s = s' \<or>
         rc = NGX_IMAP_NEXT \<and> s = s' \<and> pos = pos'
     | _ \<Rightarrow> True)"

lemma imap_step_like:
  assumes "imap_like x y"
  shows "rel_action imap_like imap_exit_like (imap_step oom start m p x) (imap_step oom start m p y)"
proof -
  obtain st s pos where x: "x = (st, s, pos)" by (cases x) auto
  with assms obtain k pos' where y: "y = (st, s\<lparr>ms_state := k\<rparr>, pos')" by (cases y) auto
  obtain q b n t c as j cs a e l where s: "s = \<lparr>ms_quoted = q, ms_backslash = b, ms_no_sync_literal = n,
    ms_tag = t, ms_command = c, ms_args = as, ms_state = j, ms_cmd_start = cs, ms_arg_start = a,
    ms_arg_end = e, ms_literal_len = l\<rparr>" by (cases s)
  show ?thesis unfolding x y s
    by (cases st) (simp_all add: imap_state_defs mail_push_def Let_def split: option.split)
qed

interpretation imap_sim: scanner_sim "imap_step oom start" imap_like imap_exit_like for oom start
proof
  fix p and m1 m2 :: mem and x :: "imap_state \<times> imap_vars"
  assume *: "take (Suc p) m1 = take (Suc p) m2"
  obtain st v where x: "x = (st, v)" by (cases x)
  have "m1 ! p = m2 ! p" using * by (rule take_Suc_nth_eq) simp
  then show "imap_step oom start m1 p x = imap_step oom start m2 p x"
    unfolding x using imap_command_code_local [OF *]
    by (cases st; cases v) (simp_all add: imap_command_def Let_def)
qed (rule imap_step_like)

lemma imap_leave_like:
  assumes "imap_exit_like x y"
  shows "mail_same (imap_leave oom p (b\<lparr>b_last := e\<rparr>) x) (imap_leave oom p (b\<lparr>b_pos := i, b_last := e\<rparr>) y)"
proof -
  obtain ex s pos ex' s' pos' where x: "x = (ex, s, pos)" and y: "y = (ex', s', pos')"
    by (cases x; cases y) auto
  show ?thesis using assms unfolding x y
    by (cases ex) (auto simp: mail_same_def mail_push_def imap_done_state_def Let_def)
qed

lemma imap_leave_last:
  "imap_leave oom p (b\<lparr>b_last := e\<rparr>) x =
    (case imap_leave oom p b x of (rc, b', s) \<Rightarrow> (rc, b'\<lparr>b_last := e\<rparr>, s))"
  by (cases "(oom, p, b, x)" rule: imap_leave.cases) (auto simp: Let_def)

lemma imap_exit_not_again: "imap_exit_like x y \<Longrightarrow> fst (imap_leave oom p b x) \<noteq> NGX_AGAIN"
  by (cases "(oom, p, b, x)" rule: imap_leave.cases; cases y) (auto simp: Let_def)

lemma imap_scan_not_again:
  assumes "scan (imap_step oom start) m p e x = Stop (q, r)"
  shows "fst (imap_leave oom q b r) \<noteq> NGX_AGAIN"
proof -
  have "imap_like x x" by (cases x) (auto intro: exI [of _ "ms_state (fst (snd x))"])
  then show ?thesis
    using imap_sim.scan_sim [of x x oom start m p e] assms imap_exit_not_again by auto
qed

text \<open>A command to evaluate the theorems on.\<close>

definition imap_example :: mem where
  "imap_example = 0 # bytes ''a LOGIN {5+}'' @ [CR, LF] @ bytes ''alice '' @ [34] @ bytes ''p w'' @ [34, CR, LF]"

definition imap_example_buf :: ngx_buf where
  "imap_example_buf = \<lparr>b_start = 1, b_pos = 1, b_last = 28\<rparr>"

text \<open>
  C16. Receiving an IMAP command in pieces makes no difference: parsing the bytes received so far and
  resuming when more have arrived gives what one parse over all of them gives, quoted strings
  and literals included.
\<close>

theorem imap_resume:
  assumes "take (b_last b) m1 = take (b_last b) m2"
    and "b_pos b \<le> b_last b" and "b_last b \<le> e"
    and "ngx_mail_imap_parse_command oom m1 b s = (rc, b', s')"
  shows "mail_same (ngx_mail_imap_parse_command oom m2 (b\<lparr>b_last := e\<rparr>) s)
    (if rc = NGX_AGAIN then ngx_mail_imap_parse_command oom m2 (b'\<lparr>b_last := e\<rparr>) s'
     else (rc, b'\<lparr>b_last := e\<rparr>, s'))"
proof -
  let ?step = "imap_step oom (b_start b)" and ?x = "(enum_at imap_states (ms_state s), s, b_pos b)"
  have whole: "scan ?step m2 (b_pos b) e ?x =
    (case scan ?step m1 (b_pos b) (b_last b) ?x of
       Cont (q, s') \<Rightarrow> scan ?step m2 (b_last b) e s' | Stop r \<Rightarrow> Stop r)"
    by (rule imap_sim.scan_resume [OF assms(1-3)])
  show ?thesis
  proof (cases "scan ?step m1 (b_pos b) (b_last b) ?x")
    case (Cont y)
    then obtain st t pos where y: "y = (b_last b, st, t, pos)"
      using assms(2) by (cases y) (auto dest: scan_Cont_pos)
    have first: "rc = NGX_AGAIN" "b' = b\<lparr>b_pos := b_last b\<rparr>" "s' = t\<lparr>ms_state := enum_index imap_states st\<rparr>"
      using assms(4) Cont y by (auto simp: ngx_mail_imap_parse_command_def)
    have "rel_action (rel_prod (=) imap_like) (rel_prod (=) imap_exit_like)
      (scan ?step m2 (b_last b) e (st, t, pos)) (scan ?step m2 (b_last b) e (st, s', b_last b))"
      using first(3) by (intro imap_sim.scan_sim) auto
    then show ?thesis
      using whole Cont y first imap_leave_like [where oom = oom and b = b and e = e and i = "b_last b"]
      by (cases "scan ?step m2 (b_last b) e (st, t, pos)"; cases "scan ?step m2 (b_last b) e (st, s', b_last b)")
        (auto simp: ngx_mail_imap_parse_command_def)
  next
    case (Stop y)
    obtain q x where y: "y = (q, x)" by (cases y)
    have "imap_leave oom q b x = (rc, b', s')"
      using assms(4) Stop y by (simp add: ngx_mail_imap_parse_command_def)
    moreover from this have "rc \<noteq> NGX_AGAIN"
      using imap_scan_not_again [of oom "b_start b" m1 "b_pos b" "b_last b" ?x q x b] Stop y by simp
    ultimately show ?thesis
      using whole Stop y by (simp add: ngx_mail_imap_parse_command_def imap_leave_last)
  qed
qed

theorem imap_resume_witness:
  "mail_same (ngx_mail_imap_parse_command (\<lambda>_. False) imap_example imap_example_buf ngx_mail_session_zero)
    (case ngx_mail_imap_parse_command (\<lambda>_. False) (take 17 imap_example) (imap_example_buf\<lparr>b_last := 17\<rparr>)
       ngx_mail_session_zero of
       (rc, b', s') \<Rightarrow> ngx_mail_imap_parse_command (\<lambda>_. False) imap_example (b'\<lparr>b_last := 28\<rparr>) s')"
proof -
  let ?b = "imap_example_buf\<lparr>b_last := 17\<rparr>" and ?parse = "ngx_mail_imap_parse_command (\<lambda>_. False)"
  have "take (b_last ?b) (take 17 imap_example) = take (b_last ?b) imap_example"
    "b_pos ?b \<le> b_last ?b" "b_last ?b \<le> 28" "?b\<lparr>b_last := 28\<rparr> = imap_example_buf"
    by (simp_all add: imap_example_buf_def)
  moreover have "fst (?parse (take 17 imap_example) ?b ngx_mail_session_zero) = NGX_AGAIN"
    by code_simp
  ultimately show ?thesis
    using imap_resume [of ?b "take 17 imap_example" imap_example 28 "\<lambda>_. False" ngx_mail_session_zero]
    by (auto split: prod.splits)
qed

section \<open>The arguments of a command\<close>

definition imap_args_ok :: "ptr \<Rightarrow> mem \<Rightarrow> ptr \<Rightarrow> nat \<Rightarrow> ngx_mail_session \<Rightarrow> bool" where
  "imap_args_ok start m p n s \<longleftrightarrow> length (ms_args s) \<le> n \<and> list_all (str_within m start p {}) (ms_args s)"

definition imap_open :: "ptr \<Rightarrow> ptr \<Rightarrow> ngx_mail_session \<Rightarrow> bool" where
  "imap_open start p s \<longleftrightarrow> start \<le> ms_arg_start s \<and> ms_arg_start s \<le> p"

fun imap_inv :: "ptr \<Rightarrow> mem \<Rightarrow> ptr \<Rightarrow> imap_state \<times> imap_vars \<Rightarrow> bool" where
  "imap_inv start m p (st, s, pos) \<longleftrightarrow>
    0 < start \<and> start \<le> p \<and>
    (case st of
       im_sw_argument \<Rightarrow> imap_args_ok start m p 2 s \<and> imap_open start p s
     | im_sw_backslash \<Rightarrow> imap_args_ok start m p 2 s \<and> imap_open start p s
     | im_sw_literal_argument \<Rightarrow> imap_args_ok start m p 2 s \<and> imap_open start p s
     | im_sw_literal \<Rightarrow> imap_args_ok start m p 2 s \<and> ms_arg_start s = NULL
     | im_sw_no_sync_literal_argument \<Rightarrow> imap_args_ok start m p 2 s \<and> ms_arg_start s = NULL
     | im_sw_start_literal_argument \<Rightarrow> imap_args_ok start m p 2 s \<and> ms_arg_start s = NULL
     | _ \<Rightarrow> imap_args_ok start m p 3 s \<and> ms_arg_start s = NULL)"

fun imap_post :: "ptr \<Rightarrow> mem \<Rightarrow> ptr \<Rightarrow> mail_exit \<times> imap_vars \<Rightarrow> bool" where
  "imap_post start m p (ex, s, pos) \<longleftrightarrow>
    ex \<noteq> Mail_return NGX_OK \<and> (ex = Mail_done \<longrightarrow> m ! p = LF \<and> imap_args_ok start m p 3 s \<and> ms_arg_start s = NULL) \<and>
    ex \<noteq> Mail_return NGX_AGAIN \<and>
    (ex = Mail_return NGX_IMAP_NEXT \<longrightarrow> pos = Suc p \<and> ms_arg_start s = Suc p \<and>
       ms_state s = enum_index imap_states im_sw_literal_argument \<and>
       imap_inv start m (Suc p) (im_sw_literal_argument, s, pos))"

lemma imap_args_ok_mono:
  "imap_args_ok start m p n s \<Longrightarrow> p \<le> p' \<Longrightarrow> n \<le> n' \<Longrightarrow> imap_args_ok start m p' n' s"
  by (auto simp: imap_args_ok_def list_all_iff intro: str_within_mono)

lemma imap_args_ok_Suc: "imap_args_ok start m p n s \<Longrightarrow> imap_args_ok start m (Suc p) n s"
  by (erule imap_args_ok_mono) simp_all

lemma imap_args_ok_few:
  "imap_args_ok start m p n s \<Longrightarrow> length (ms_args s) \<le> 2 \<Longrightarrow> imap_args_ok start m (Suc p) 2 s"
  by (auto simp: imap_args_ok_def list_all_iff intro: str_within_mono)

lemma imap_args_ok_upd [simp]:
  "imap_args_ok start m p n (s\<lparr>ms_arg_end := e\<rparr>) = imap_args_ok start m p n s"
  "imap_args_ok start m p n (s\<lparr>ms_arg_start := e\<rparr>) = imap_args_ok start m p n s"
  "imap_args_ok start m p n (s\<lparr>ms_cmd_start := e\<rparr>) = imap_args_ok start m p n s"
  "imap_args_ok start m p n (s\<lparr>ms_state := k\<rparr>) = imap_args_ok start m p n s"
  "imap_args_ok start m p n (s\<lparr>ms_quoted := q\<rparr>) = imap_args_ok start m p n s"
  "imap_args_ok start m p n (s\<lparr>ms_backslash := q\<rparr>) = imap_args_ok start m p n s"
  "imap_args_ok start m p n (s\<lparr>ms_no_sync_literal := q\<rparr>) = imap_args_ok start m p n s"
  "imap_args_ok start m p n (s\<lparr>ms_literal_len := l\<rparr>) = imap_args_ok start m p n s"
  "imap_args_ok start m p n (s\<lparr>ms_command := l\<rparr>) = imap_args_ok start m p n s"
  "imap_args_ok start m p n (s\<lparr>ms_tag := t\<rparr>) = imap_args_ok start m p n s"
  by (simp_all add: imap_args_ok_def)

lemma imap_args_ok_push:
  "imap_args_ok start m p 2 s \<Longrightarrow> imap_open start p s \<Longrightarrow> p \<le> q \<Longrightarrow> imap_args_ok start m q 3 (mail_push q s)"
  unfolding imap_args_ok_def mail_push_def imap_open_def
  by (auto simp: list_all_iff intro: str_within_mono intro!: str_within_push)

lemma imap_step_sat:
  assumes "imap_inv start m p x"
  shows "action_sat (imap_inv start m (Suc p)) (imap_post start m p) (imap_step oom start m p x)"
proof -
  obtain st s pos where x: "x = (st, s, pos)" by (cases x) auto
  have push: "imap_args_ok start m q 3 (mail_push q (s\<lparr>ms_quoted := qu\<rparr>))"
    "imap_args_ok start m q 3 (mail_push q s)" "imap_args_ok start m q 3 (mail_push q (s\<lparr>ms_literal_len := l\<rparr>))"
    if "imap_args_ok start m p 2 s" "start \<le> ms_arg_start s" "ms_arg_start s \<le> p" "p \<le> q" for q qu l
    using that by (auto intro!: imap_args_ok_push simp: imap_open_def)
  have nul: "ms_arg_start (mail_push q t) = NULL" for q t by (simp add: mail_push_def)
  show ?thesis
    using assms unfolding x
    by (cases st)
      (auto simp: imap_state_defs Let_def nul imap_open_def imap_args_ok_few
        intro: push imap_args_ok_Suc imap_args_ok_mono split: option.split)
qed

interpretation imap_inv: scanner_inv "imap_step oom start" "imap_inv start" "imap_post start" for oom start
  by unfold_locales (rule imap_step_sat)

text \<open>
  How the session is when a command is awaited: at the start of a command, or, after
  \<open>AUTHENTICATE\<close>, at the start of an argument.
\<close>

definition imap_ready :: "ngx_buf \<Rightarrow> ngx_mail_session \<Rightarrow> bool" where
  "imap_ready b s \<longleftrightarrow>
    0 < b_start b \<and> b_start b \<le> b_pos b \<and> ms_args s = [] \<and>
    (ms_state s = enum_index imap_states im_sw_start \<and> ms_arg_start s = NULL \<or>
     ms_state s = enum_index imap_states im_sw_argument \<and> ms_arg_start s = b_pos b)"

lemma imap_ready_inv:
  "imap_ready b s \<Longrightarrow> imap_inv (b_start b) m (b_pos b) (enum_at imap_states (ms_state s), s, b_pos b)"
  by (auto simp: imap_ready_def imap_args_ok_def imap_open_def)

text \<open>
  The calls that read one command, as \<open>ngx_mail_read_command\<close> makes them: the first finds the session
  ready; after \<open>NGX_AGAIN\<close>, and after \<open>NGX_IMAP_NEXT\<close>, where the client is asked for a literal, more bytes
  are received behind those that are there and the parser is called again with what it left.
\<close>

inductive imap_reading :: "mail_oom \<Rightarrow> mem \<Rightarrow> ngx_buf \<Rightarrow> ngx_mail_session \<Rightarrow> bool" for oom where
  reading_start: "imap_ready b s \<Longrightarrow> imap_reading oom m b s"
| reading_more: "imap_reading oom m b s \<Longrightarrow> ngx_mail_imap_parse_command oom m b s = (rc, b', s') \<Longrightarrow>
    rc = NGX_AGAIN \<or> rc = NGX_IMAP_NEXT \<Longrightarrow> take (b_last b) m' = take (b_last b) m \<Longrightarrow> b_last b \<le> e \<Longrightarrow>
    imap_reading oom m' (b'\<lparr>b_last := e\<rparr>) s'"

text \<open>The invariant does not depend on the bytes of the memory, on \<open>s->state\<close> and on \<open>s->buffer->pos\<close>.\<close>

lemma imap_args_ok_mem: "imap_args_ok start m p n s = imap_args_ok start m' p n s"
  by (simp add: imap_args_ok_def str_within_def list_all_iff)

lemma imap_inv_mem: "imap_inv start m p (st, s, pos) \<Longrightarrow> imap_inv start m' p (st, s\<lparr>ms_state := k\<rparr>, pos')"
  by (cases st) (auto simp: imap_args_ok_mem [of start m _ _ _ m'] imap_open_def)

lemma imap_parse_cases:
  assumes "imap_inv (b_start b) m (b_pos b) (enum_at imap_states (ms_state s), s, b_pos b)"
    "ngx_mail_imap_parse_command oom m b s = (rc, b', s')"
  shows "(rc = NGX_AGAIN \<and> b' = b\<lparr>b_pos := max (b_pos b) (b_last b)\<rparr> \<or>
      rc = NGX_IMAP_NEXT \<and> b_pos b < b_pos b' \<and> b_pos b' \<le> b_last b \<and> b' = b\<lparr>b_pos := b_pos b'\<rparr> \<and> ms_arg_start s' = b_pos b' \<and>
        length (ms_args s') \<le> 2 \<and> list_all (str_within m (b_start b) (b_pos b') {}) (ms_args s')) \<and>
      imap_inv (b_start b) m (b_pos b') (enum_at imap_states (ms_state s'), s', b_pos b') \<or>
    rc = NGX_OK \<and> b_pos b < b_pos b' \<and> b_pos b' \<le> b_last b \<and> m ! (b_pos b' - 1) = LF \<and> ms_arg_start s' = NULL \<and>
      length (ms_args s') \<le> 3 \<and> list_all (str_within m (b_start b) (b_pos b' - 1) {}) (ms_args s') \<and>
      ms_state s' = enum_index imap_states
        (if ms_command s' = NGX_IMAP_AUTHENTICATE then im_sw_argument else im_sw_start) \<or>
    rc \<notin> {NGX_OK, NGX_AGAIN, NGX_IMAP_NEXT}"
proof (cases "scan (imap_step oom (b_start b)) m (b_pos b) (b_last b)
    (enum_at imap_states (ms_state s), s, b_pos b)")
  case (Cont y)
  then obtain q st t pos where y: "y = (q, st, t, pos)" by (cases y) auto
  have "imap_inv (b_start b) m q (st, t, pos)" using imap_inv.scan_inv [OF assms(1)] Cont y by blast
  moreover have "q = max (b_pos b) (b_last b)" using Cont y by (auto dest: scan_Cont_pos)
  ultimately show ?thesis using assms(2) Cont y
    by (auto simp: ngx_mail_imap_parse_command_def simp del: imap_inv.simps intro: imap_inv_mem)
next
  case (Stop y)
  then obtain q ex t pos where y: "y = (q, ex, t, pos)" by (cases y) auto
  have "b_pos b \<le> q \<and> q < b_last b \<and> imap_post (b_start b) m q (ex, t, pos)"
    using imap_inv.scan_post [OF assms(1)] Stop y by blast
  moreover have "imap_leave oom q b (ex, t, pos) = (rc, b', s')"
    using assms(2) Stop y by (simp add: ngx_mail_imap_parse_command_def)
  ultimately show ?thesis
    by (cases ex) (auto simp: imap_args_ok_def imap_open_def imap_done_state_def Let_def)
qed

lemma imap_reading_inv:
  "imap_reading oom m b s \<Longrightarrow> imap_inv (b_start b) m (b_pos b) (enum_at imap_states (ms_state s), s, b_pos b)"
proof (induction rule: imap_reading.induct)
  case (reading_start b s m)
  then show ?case by (rule imap_ready_inv)
next
  case (reading_more m b s rc b' s' m' e)
  have "imap_inv (b_start b) m (b_pos b') (enum_at imap_states (ms_state s'), s', b_pos b')" "b_start b' = b_start b"
    using imap_parse_cases [OF reading_more.IH reading_more.hyps(2)] reading_more.hyps(3)
    by (auto simp del: imap_inv.simps dest: arg_cong [of b' _ b_start])
  moreover have "s' = s'\<lparr>ms_state := ms_state s'\<rparr>" by simp
  ultimately show ?case using imap_inv_mem by (metis ngx_buf.select_convs(1,2) ngx_buf.surjective ngx_buf.update_convs(3))
qed

text \<open>
  C17. The arguments of an IMAP command, over all the calls that read it, from a session that is ready
  (\<open>imap_ready\<close>: no argument yet, none left open): through every \<open>NGX_AGAIN\<close> and every \<open>NGX_IMAP_NEXT\<close>, so
  quoted strings and both kinds of literals included.  A call that accepts the command ends with a
  line feed inside the received bytes; the command has at most three arguments, each of which lies
  between the start of the buffer and that line feed with a length that is not negative; no argument
  is left open and the state is one in which the next command is awaited.  A call that asks for a
  literal has consumed the bytes before it and the literal is to start at the new position.  (After
  an invalid command a session need not be ready: \<open>imap_stale_argument\<close> below.)
\<close>

theorem imap_arguments:
  assumes "imap_reading oom m b s" "ngx_mail_imap_parse_command oom m b s = (rc, b', s')"
  shows "(rc = NGX_OK \<longrightarrow>
      b_pos b < b_pos b' \<and> b_pos b' \<le> b_last b \<and> m ! (b_pos b' - 1) = LF \<and> ms_arg_start s' = NULL \<and>
      length (ms_args s') \<le> 3 \<and> list_all (str_within m (b_start b) (b_pos b' - 1) {}) (ms_args s') \<and>
      ms_state s' = enum_index imap_states
        (if ms_command s' = NGX_IMAP_AUTHENTICATE then im_sw_argument else im_sw_start)) \<and>
    (rc = NGX_IMAP_NEXT \<longrightarrow>
      b_pos b < b_pos b' \<and> b_pos b' \<le> b_last b \<and> ms_arg_start s' = b_pos b' \<and>
      length (ms_args s') \<le> 2 \<and> list_all (str_within m (b_start b) (b_pos b') {}) (ms_args s'))"
  using imap_parse_cases [OF imap_reading_inv [OF assms(1)] assms(2)] by auto

definition imap_literal_example :: mem where
  "imap_literal_example = 0 # bytes ''a LOGIN {5}'' @ [CR, LF] @ bytes ''alice pw'' @ [CR, LF]"

text \<open>The first call, on the bytes up to the literal, asks for it; the second accepts the command.\<close>

theorem imap_arguments_witness:
  "case ngx_mail_imap_parse_command (\<lambda>_. False) imap_literal_example \<lparr>b_start = 1, b_pos = 1, b_last = 14\<rparr> ngx_mail_session_zero of
     (rc, b, s) \<Rightarrow> rc = NGX_IMAP_NEXT \<and> b_pos b = 14 \<and>
       (case ngx_mail_imap_parse_command (\<lambda>_. False) imap_literal_example (b\<lparr>b_last := 24\<rparr>) s of
         (rc', b', s') \<Rightarrow> rc' = NGX_OK \<and> length (ms_args s') \<le> 3 \<and> ms_arg_start s' = NULL \<and>
           map (str_bytes imap_literal_example) (ms_args s') = [bytes ''alice'', bytes ''pw''])"
proof -
  let ?parse = "ngx_mail_imap_parse_command (\<lambda>_. False) imap_literal_example"
  let ?b = "\<lparr>b_start = 1, b_pos = 1, b_last = 14\<rparr>"
  obtain rc b s where r: "?parse ?b ngx_mail_session_zero = (rc, b, s)" by (rule prod_cases3)
  have "case ?parse ?b ngx_mail_session_zero of (rc, b, s) \<Rightarrow> rc = NGX_IMAP_NEXT \<and> b_pos b = 14 \<and>
     (case ?parse (b\<lparr>b_last := 24\<rparr>) s of (rc', b', s') \<Rightarrow> rc' = NGX_OK \<and>
       map (str_bytes imap_literal_example) (ms_args s') = [bytes ''alice'', bytes ''pw''])"
    by code_simp
  note e = this [unfolded r prod.case]
  have "imap_ready ?b ngx_mail_session_zero"
    by (simp add: imap_ready_def ngx_mail_session_zero_def imap_states_def enum_index_def)
  then have "imap_reading (\<lambda>_. False) imap_literal_example ?b ngx_mail_session_zero" by (rule reading_start)
  then have "imap_reading (\<lambda>_. False) imap_literal_example (b\<lparr>b_last := 24\<rparr>) s"
    using r by (rule reading_more) (use e in simp_all)
  then show ?thesis using imap_arguments r e by (auto split: prod.splits)
qed

section \<open>Unexpected outcomes\<close>

text \<open>A line parsed from the start of a buffer: the return code, the arguments' bytes, the session.\<close>

definition imap_line :: "byte list \<Rightarrow> ngx_mail_session \<Rightarrow> ngx_rc \<times> byte list list \<times> ngx_mail_session" where
  "imap_line line s =
    (case ngx_mail_imap_parse_command (\<lambda>_. False) (0 # line)
            \<lparr>b_start = 1, b_pos = 1, b_last = Suc (length line)\<rparr> s of
       (rc, b', s') \<Rightarrow> (rc, map (str_bytes (0 # line)) (ms_args s'), s'))"

text \<open>The literal \<open>{0}\<close> takes one byte, and the byte after a literal is dropped.\<close>

lemma imap_empty_literal:
  "case imap_line (bytes ''a LOGIN {0+}'' @ [CR, LF] @ bytes '' pass'' @ [CR, LF]) ngx_mail_session_zero of
     (rc, args, _) \<Rightarrow> rc = NGX_OK \<and> args = [bytes '' '', bytes ''ass'']"
  by code_simp

text \<open>
  The label \<open>invalid\<close> does not reset \<open>s->arg_start\<close>: the next command gets an argument made of it,
  here with a negative length.
\<close>

lemma imap_stale_argument:
  "case imap_line (bytes ''a LOGIN '' @ [34, 92, CR]) ngx_mail_session_zero of
     (rc, _, s) \<Rightarrow> rc = NGX_MAIL_PARSE_INVALID_COMMAND \<and> ms_arg_start s \<noteq> NULL \<and>
       (case imap_line (bytes ''b NOOP'' @ [CR, LF]) s of
          (rc', _, s') \<Rightarrow> rc' = NGX_OK \<and> map str_len (ms_args s') = [- 10])"
  by code_simp

text \<open>A quote that is not closed stays in \<open>s->quoted\<close> and changes how the next command is read.\<close>

lemma imap_stale_quoted:
  "case imap_line (bytes ''a LOGIN '' @ [34] @ bytes ''x'' @ [CR, LF]) ngx_mail_session_zero of
     (rc, args, s) \<Rightarrow> rc = NGX_OK \<and> args = [bytes ''x''] \<and>
       (case imap_line (bytes ''b LOGIN u p'' @ [CR, LF]) (s\<lparr>ms_args := []\<rparr>) of
          (rc', args', s') \<Rightarrow> rc' = NGX_OK \<and> args' = [bytes ''u p''])"
  by code_simp

end
