(* ===== verification/Ngx_Mail_Auth.thy ===== *)
theory Ngx_Mail_Auth
  imports Ngx_Mail_Session Ngx_String_Base64
begin

text \<open>
  Authentication commands of the mail proxy: \<open>ngx_mail_auth_parse\<close> (\<^verbatim>\<open>src/mail/ngx_mail_parse.c\<close>
  lines 831--885) and the functions of \<^verbatim>\<open>src/mail/ngx_mail_handler.c\<close> that decode the client's
  answers: \<open>ngx_mail_auth_plain\<close>, \<open>ngx_mail_auth_login_username\<close>, \<open>ngx_mail_auth_login_password\<close>
  and \<open>ngx_mail_auth_cram_md5\<close> (lines 336--532); and \<open>ngx_strncasecmp\<close> of
  \<^verbatim>\<open>src/core/ngx_string.c\<close> (lines 587--613).  The pool allocator is the parameter \<open>palloc\<close>: the
  contents of a fresh block of the given size, or \<open>None\<close> when the allocation fails.

  Shown: which \<open>AUTH\<close> commands are accepted as which method; \<open>AUTH PLAIN\<close> is accepted exactly when
  the decoded text is three strings separated by NUL, it then yields the second and the third,
  and the decoded text fits the block allocated for it.
\<close>

section \<open>Comparison without regard to case\<close>

text \<open>
  \<open>ngx_strncasecmp\<close> on the bytes at its two pointers; \<open>None\<close> when it reads past the bytes given.
\<close>

fun ngx_strncasecmp :: "byte list \<Rightarrow> byte list \<Rightarrow> nat \<Rightarrow> int option" where
  "ngx_strncasecmp s1 s2 0 = Some 0"
| "ngx_strncasecmp (c1 # s1) (c2 # s2) (Suc n) =
    (let c1 = ngx_tolower c1; c2 = ngx_tolower c2 in
     if c1 = c2 then (if c1 \<noteq> 0 then ngx_strncasecmp s1 s2 n else Some 0)
     else Some (uint c1 - uint c2))"
| "ngx_strncasecmp _ _ (Suc n) = None"

section \<open>The session\<close>

text \<open>
  \<open>s->login\<close> and \<open>s->passwd\<close>: the length, and the bytes from \<open>data\<close> to the end of the block it
  points into.
\<close>

record ngx_mail_login = ngx_mail_session +
  ms_login_len :: nat
  ms_login_data :: "byte list"
  ms_passwd_len :: nat
  ms_passwd_data :: "byte list"
  ms_auth_method :: nat

type_synonym mail_palloc = "nat \<Rightarrow> byte list option"

definition ms_login :: "ngx_mail_login \<Rightarrow> byte list" where
  "ms_login s = take (ms_login_len s) (ms_login_data s)"

definition ms_passwd :: "ngx_mail_login \<Rightarrow> byte list" where
  "ms_passwd s = take (ms_passwd_len s) (ms_passwd_data s)"

text \<open>\<open>NGX_OK\<close> and the like, or the number of a method (\<^verbatim>\<open>src/mail/ngx_mail.h\<close> lines 289--294).\<close>

datatype mail_auth_rc =
    Auth_rc ngx_rc
  | NGX_MAIL_AUTH_PLAIN
  | NGX_MAIL_AUTH_LOGIN
  | NGX_MAIL_AUTH_LOGIN_USERNAME
  | NGX_MAIL_AUTH_CRAM_MD5

definition ngx_base64_decoded_length :: "nat \<Rightarrow> nat" where
  "ngx_base64_decoded_length len = ((len + 3) div 4) * 3"

section \<open>Decoding the answers\<close>

text \<open>\<open>while (p < last && *p++) ;\<close>\<close>

fun plain_skip :: "byte list \<Rightarrow> byte list" where
  "plain_skip [] = []"
| "plain_skip (c # cs) = (if c = 0 then cs else plain_skip cs)"

definition ngx_mail_auth_plain ::
  "mail_palloc \<Rightarrow> mem \<Rightarrow> nat \<Rightarrow> ngx_mail_login \<Rightarrow> ngx_rc \<times> ngx_mail_login" where
  "ngx_mail_auth_plain palloc m n s =
    (let arg = ms_args s ! n in
     case palloc (ngx_base64_decoded_length (nat (str_len arg))) of
       None \<Rightarrow> (NGX_ERROR, s)
     | Some block \<Rightarrow>
       (case ngx_decode_base64 (str_bytes m arg) of
          None \<Rightarrow> (NGX_MAIL_PARSE_INVALID_COMMAND, s)
        | Some plain \<Rightarrow>
          (let p = plain_skip plain in
           if p = [] then (NGX_MAIL_PARSE_INVALID_COMMAND, s)
           else
             (let s = s\<lparr>ms_login_data := p @ drop (length plain) block\<rparr>;
                  q = dropWhile (\<lambda>c. c \<noteq> 0) p in
              if q = [] then (NGX_MAIL_PARSE_INVALID_COMMAND, s)
              else (NGX_DONE,
                s\<lparr>ms_login_len := length p - length q,
                  ms_passwd_len := length (tl q),
                  ms_passwd_data := tl q @ drop (length plain) block\<rparr>)))))"

definition ngx_mail_auth_login_username ::
  "mail_palloc \<Rightarrow> mem \<Rightarrow> nat \<Rightarrow> ngx_mail_login \<Rightarrow> ngx_rc \<times> ngx_mail_login" where
  "ngx_mail_auth_login_username palloc m n s =
    (let arg = ms_args s ! n in
     case palloc (ngx_base64_decoded_length (nat (str_len arg))) of
       None \<Rightarrow> (NGX_ERROR, s\<lparr>ms_login_data := []\<rparr>)
     | Some block \<Rightarrow>
       (case ngx_decode_base64 (str_bytes m arg) of
          None \<Rightarrow> (NGX_MAIL_PARSE_INVALID_COMMAND, s\<lparr>ms_login_data := block\<rparr>)
        | Some login \<Rightarrow>
          (NGX_OK, s\<lparr>ms_login_data := login @ drop (length login) block,
                     ms_login_len := length login\<rparr>)))"

definition ngx_mail_auth_login_password ::
  "mail_palloc \<Rightarrow> mem \<Rightarrow> ngx_mail_login \<Rightarrow> ngx_rc \<times> ngx_mail_login" where
  "ngx_mail_auth_login_password palloc m s =
    (let arg = ms_args s ! 0 in
     case palloc (ngx_base64_decoded_length (nat (str_len arg))) of
       None \<Rightarrow> (NGX_ERROR, s\<lparr>ms_passwd_data := []\<rparr>)
     | Some block \<Rightarrow>
       (case ngx_decode_base64 (str_bytes m arg) of
          None \<Rightarrow> (NGX_MAIL_PARSE_INVALID_COMMAND, s\<lparr>ms_passwd_data := block\<rparr>)
        | Some passwd \<Rightarrow>
          (NGX_DONE, s\<lparr>ms_passwd_data := passwd @ drop (length passwd) block,
                       ms_passwd_len := length passwd\<rparr>)))"

text \<open>The loop that looks for the space: what is before it and what is after it.\<close>

fun cram_split :: "byte list \<Rightarrow> (byte list \<times> byte list) option" where
  "cram_split [] = None"
| "cram_split (c # cs) =
    (if c = SP then Some ([], cs) else map_option (map_prod ((#) c) id) (cram_split cs))"

definition ngx_mail_auth_cram_md5 ::
  "mail_palloc \<Rightarrow> mem \<Rightarrow> ngx_mail_login \<Rightarrow> ngx_rc \<times> ngx_mail_login" where
  "ngx_mail_auth_cram_md5 palloc m s =
    (let arg = ms_args s ! 0 in
     case palloc (ngx_base64_decoded_length (nat (str_len arg))) of
       None \<Rightarrow> (NGX_ERROR, s\<lparr>ms_login_data := []\<rparr>)
     | Some block \<Rightarrow>
       (case ngx_decode_base64 (str_bytes m arg) of
          None \<Rightarrow> (NGX_MAIL_PARSE_INVALID_COMMAND, s\<lparr>ms_login_data := block\<rparr>)
        | Some login \<Rightarrow>
          (let rest = drop (length login) block;
               s = s\<lparr>ms_login_data := login @ rest, ms_login_len := length login\<rparr>;
               s = (case cram_split login of
                      None \<Rightarrow> s
                    | Some (l, p) \<Rightarrow>
                        s\<lparr>ms_login_len := length l, ms_passwd_len := length p, ms_passwd_data := p @ rest\<rparr>)
           in if ms_passwd_len s \<noteq> 32 then (NGX_MAIL_PARSE_INVALID_COMMAND, s)
              else (NGX_DONE, s\<lparr>ms_auth_method := 4\<rparr>))))"

section \<open>The AUTH command\<close>

text \<open>
  \<open>ngx_mail_starttls_only\<close>: the connection is not encrypted and the server is configured with
  \<open>NGX_MAIL_STARTTLS_ONLY\<close>.
\<close>

definition ngx_mail_starttls_only :: "bool \<Rightarrow> bool \<Rightarrow> bool" where
  "ngx_mail_starttls_only ssl conf_only \<longleftrightarrow> (if ssl then False else conf_only)"

text \<open>
  The first argument is read without looking at \<open>nelts\<close>: \<open>slot\<close> is what the first slot of the array
  holds when there is no argument.
\<close>

definition ngx_mail_auth_parse ::
  "mail_palloc \<Rightarrow> ngx_str \<Rightarrow> bool \<Rightarrow> bool \<Rightarrow> mem \<Rightarrow> ngx_mail_login \<Rightarrow> mail_auth_rc \<times> ngx_mail_login" where
  "ngx_mail_auth_parse palloc slot ssl conf_only m s =
    (if ngx_mail_starttls_only ssl conf_only then (Auth_rc NGX_MAIL_PARSE_INVALID_COMMAND, s)
     else
       (let arg0 = (case ms_args s of a # _ \<Rightarrow> a | [] \<Rightarrow> slot);
            nelts = length (ms_args s);
            data = drop (str_data arg0) m
        in
        if str_len arg0 = 5 then
          (if ngx_strncasecmp data (bytes ''LOGIN'') 5 = Some 0 then
             (if nelts = 1 then (NGX_MAIL_AUTH_LOGIN, s)
              else if nelts = 2 then (NGX_MAIL_AUTH_LOGIN_USERNAME, s)
              else (Auth_rc NGX_MAIL_PARSE_INVALID_COMMAND, s))
           else if ngx_strncasecmp data (bytes ''PLAIN'') 5 = Some 0 then
             (if nelts = 1 then (NGX_MAIL_AUTH_PLAIN, s)
              else if nelts = 2 then
                (case ngx_mail_auth_plain palloc m 1 s of (rc, s') \<Rightarrow> (Auth_rc rc, s'))
              else (Auth_rc NGX_MAIL_PARSE_INVALID_COMMAND, s))
           else (Auth_rc NGX_MAIL_PARSE_INVALID_COMMAND, s))
        else if str_len arg0 = 8 then
          (if nelts \<noteq> 1 then (Auth_rc NGX_MAIL_PARSE_INVALID_COMMAND, s)
           else if ngx_strncasecmp data (bytes ''CRAM-MD5'') 8 = Some 0
           then (NGX_MAIL_AUTH_CRAM_MD5, s)
           else (Auth_rc NGX_MAIL_PARSE_INVALID_COMMAND, s))
        else (Auth_rc NGX_MAIL_PARSE_INVALID_COMMAND, s)))"

section \<open>AUTH PLAIN\<close>

lemma plain_skip_append: "0 \<notin> set a \<Longrightarrow> plain_skip (a @ 0 # p) = p"
  by (induction a) auto

lemma plain_skip_split: "plain_skip cs \<noteq> [] \<Longrightarrow> \<exists>a. cs = a @ 0 # plain_skip cs \<and> 0 \<notin> set a"
proof (induction cs)
  case (Cons c cs)
  show ?case
  proof (cases "c = 0")
    case True
    then show ?thesis by (intro exI [of _ "[]"]) simp
  next
    case False
    then obtain a where "cs = a @ 0 # plain_skip cs" "0 \<notin> set a" using Cons by auto
    then show ?thesis using False by (intro exI [of _ "c # a"]) auto
  qed
qed simp

lemma dropWhile_NUL: "0 \<notin> set l \<Longrightarrow> dropWhile (\<lambda>c. c \<noteq> 0) (l @ 0 # p) = 0 # (p :: byte list)"
  by (induction l) auto

lemma dropWhile_NUL_split:
  assumes "dropWhile (\<lambda>c. c \<noteq> 0) p \<noteq> ([] :: byte list)"
  obtains l where "p = l @ 0 # tl (dropWhile (\<lambda>c. c \<noteq> 0) p)" "0 \<notin> set l"
proof
  let ?q = "dropWhile (\<lambda>c. c \<noteq> 0) p"
  have "hd ?q = 0" using hd_dropWhile [OF assms] by simp
  then have "?q = 0 # tl ?q" using assms by (cases ?q) auto
  then show "p = takeWhile (\<lambda>c. c \<noteq> 0) p @ 0 # tl ?q" by (metis takeWhile_dropWhile_id)
  show "0 \<notin> set (takeWhile (\<lambda>c. c \<noteq> 0) p)" by (auto dest: set_takeWhileD)
qed

lemma decoded_fits:
  assumes "ngx_decode_base64 src = Some d"
  shows "length d \<le> ngx_base64_decoded_length (length src)"
proof -
  let ?s = "takeWhile (\<lambda>c. c \<noteq> asc CHR ''='') src"
  have "length ?s \<le> length src" by (rule length_takeWhile_le)
  then have "length ?s * 3 div 4 \<le> (length src + 3) div 4 * 3" by linarith
  then show ?thesis
    using assms base64_groups_length [of ?s basis64_decode]
    by (auto simp: ngx_decode_base64_def ngx_decode_base64_internal_def base64_prefix_eq
        ngx_base64_decoded_length_def split: if_splits)
qed

text \<open>
  C18. \<open>AUTH PLAIN\<close> is accepted exactly when the argument is valid base64 and the decoded text is
  three strings separated by NUL; the login is then the second and the password the third
  string.  The decoded text always fits the block allocated for it.
\<close>

theorem auth_plain_spec:
  assumes "palloc (ngx_base64_decoded_length (nat (str_len (ms_args s ! n)))) = Some block"
    and "str_within m lo (length m) {} (ms_args s ! n)"
    and "ngx_mail_auth_plain palloc m n s = (rc, s')"
  shows "case ngx_decode_base64 (str_bytes m (ms_args s ! n)) of
      None \<Rightarrow> rc = NGX_MAIL_PARSE_INVALID_COMMAND
    | Some plain \<Rightarrow>
        length plain \<le> ngx_base64_decoded_length (nat (str_len (ms_args s ! n))) \<and>
        (if \<exists>a l p. plain = a @ 0 # l @ 0 # p \<and> 0 \<notin> set a \<and> 0 \<notin> set l
         then rc = NGX_DONE \<and> (\<exists>a. plain = a @ 0 # ms_login s' @ 0 # ms_passwd s' \<and>
                0 \<notin> set a \<and> 0 \<notin> set (ms_login s'))
         else rc = NGX_MAIL_PARSE_INVALID_COMMAND)"
proof (cases "ngx_decode_base64 (str_bytes m (ms_args s ! n))")
  case None
  then show ?thesis using assms(1,3) by (simp add: ngx_mail_auth_plain_def Let_def)
next
  case (Some plain)
  have "length (str_bytes m (ms_args s ! n)) = nat (str_len (ms_args s ! n))"
    using assms(2) by (auto simp: str_bytes_def str_within_def)
  then have fits: "length plain \<le> ngx_base64_decoded_length (nat (str_len (ms_args s ! n)))"
    using decoded_fits [OF Some] by simp
  have run: "(let p = plain_skip plain; q = dropWhile (\<lambda>c. c \<noteq> 0) p in
      if p = [] \<or> q = [] then rc = NGX_MAIL_PARSE_INVALID_COMMAND
      else rc = NGX_DONE \<and> ms_login s' = take (length p - length q) p \<and> ms_passwd s' = tl q)"
    using assms(1,3) Some
    by (auto simp: ngx_mail_auth_plain_def Let_def ms_login_def ms_passwd_def split: if_splits)
  have "rc = NGX_DONE \<and> (\<exists>a. plain = a @ 0 # ms_login s' @ 0 # ms_passwd s' \<and>
      0 \<notin> set a \<and> 0 \<notin> set (ms_login s'))"
    if e: "\<exists>a l p. plain = a @ 0 # l @ 0 # p \<and> 0 \<notin> set a \<and> 0 \<notin> set l"
  proof -
    obtain a l p where "plain = a @ 0 # l @ 0 # p" "0 \<notin> set a" "0 \<notin> set l" using e by blast
    then show ?thesis using run by (auto simp: plain_skip_append dropWhile_NUL)
  qed
  moreover have "rc = NGX_MAIL_PARSE_INVALID_COMMAND"
    if ne: "\<nexists>a l p. plain = a @ 0 # l @ 0 # p \<and> 0 \<notin> set a \<and> 0 \<notin> set l"
  proof (rule ccontr)
    assume "rc \<noteq> NGX_MAIL_PARSE_INVALID_COMMAND"
    then have "plain_skip plain \<noteq> []" "dropWhile (\<lambda>c. c \<noteq> 0) (plain_skip plain) \<noteq> []"
      using run by (auto simp: Let_def split: if_splits)
    with plain_skip_split [of plain] dropWhile_NUL_split [of "plain_skip plain"] ne show False
      by metis
  qed
  ultimately show ?thesis using Some fits by auto
qed

definition auth_example :: mem where
  "auth_example = 0 # bytes ''Plain'' @ bytes ''AHUAcA==''"

definition auth_example_session :: ngx_mail_login where
  "auth_example_session = ngx_mail_session.extend
    (ngx_mail_session_zero\<lparr>ms_args := [\<lparr>str_len = 5, str_data = 1\<rparr>, \<lparr>str_len = 8, str_data = 6\<rparr>]\<rparr>)
    (ngx_mail_login.fields 0 [] 0 [] 0)"

theorem auth_plain_spec_witness:
  "case ngx_mail_auth_plain (\<lambda>n. Some (replicate n 0)) auth_example 1 auth_example_session of
     (rc, s') \<Rightarrow> rc = NGX_DONE \<and> ms_login s' = bytes ''u'' \<and> ms_passwd s' = bytes ''p''"
proof -
  let ?palloc = "\<lambda>n. Some (replicate n (0::byte))" and ?s = auth_example_session
  let ?arg = "ms_args ?s ! 1" and ?r = "ngx_mail_auth_plain ?palloc auth_example 1 ?s"
  have "str_within auth_example 0 (length auth_example) {} ?arg"
    by (simp add: str_within_def auth_example_def auth_example_session_def ngx_mail_session.defs)
  note spec = auth_plain_spec [OF refl this prod.collapse [symmetric]]
  have dec: "ngx_decode_base64 (str_bytes auth_example ?arg) = Some ([] @ 0 # bytes ''u'' @ 0 # bytes ''p'')"
    by code_simp
  have ex: "\<exists>a l p. [] @ 0 # bytes ''u'' @ 0 # bytes ''p'' = a @ 0 # l @ 0 # p \<and> 0 \<notin> set a \<and> (0::byte) \<notin> set l"
    by (intro exI [of _ "[]"] exI [of _ "bytes ''u''"] exI [of _ "bytes ''p''"]) simp
  have "fst ?r = NGX_DONE"
    using spec [of "\<lambda>n. replicate n 0"] unfolding dec option.case if_P [OF ex] by blast
  moreover have "ms_login (snd ?r) = bytes ''u'' \<and> ms_passwd (snd ?r) = bytes ''p''"
    by code_simp
  ultimately show ?thesis by (simp split: prod.split add: prod_eq_iff)
qed

section \<open>The methods\<close>

lemma ngx_strncasecmp_zero:
  "length w \<le> length s \<Longrightarrow> 0 \<notin> set w \<Longrightarrow>
   ngx_strncasecmp s w (length w) = Some 0 \<longleftrightarrow> map ngx_tolower (take (length w) s) = map ngx_tolower w"
proof (induction w arbitrary: s)
  case (Cons c w)
  obtain d t where s: "s = d # t" using Cons.prems(1) by (cases s) auto
  have "ngx_tolower c \<noteq> 0"
  proof -
    have "bit (c OR 0x20) 5" by (simp add: bit_simps)
    then have "c OR 0x20 \<noteq> 0" by (metis bit_0_eq bot_apply bot_bool_def)
    then show ?thesis using Cons.prems(2) by (auto simp: ngx_tolower_def)
  qed
  then show ?case using Cons.IH [of t] Cons.prems s by (auto simp: Let_def word_uint_eq_iff)
qed simp

text \<open>
  What \<open>ngx_mail_auth_parse\<close> makes of an \<open>AUTH\<close> command with at least one argument, on every branch:
  nothing is accepted when only encrypted connections may authenticate; \<open>LOGIN\<close> and \<open>PLAIN\<close> (in
  any case) take at most one more argument, \<open>CRAM-MD5\<close> none; everything else is an invalid
  command.
\<close>

theorem auth_parse_methods:
  assumes "ms_args s = a # rest" "str_within m lo (length m) {} a"
  shows "ngx_mail_auth_parse palloc slot ssl conf_only m s =
    (let w = map ngx_tolower (str_bytes m a) in
     if \<not> ssl \<and> conf_only then (Auth_rc NGX_MAIL_PARSE_INVALID_COMMAND, s)
     else if w = bytes ''login'' \<and> rest = [] then (NGX_MAIL_AUTH_LOGIN, s)
     else if w = bytes ''login'' \<and> length rest = 1 then (NGX_MAIL_AUTH_LOGIN_USERNAME, s)
     else if w = bytes ''plain'' \<and> rest = [] then (NGX_MAIL_AUTH_PLAIN, s)
     else if w = bytes ''plain'' \<and> length rest = 1
     then map_prod Auth_rc id (ngx_mail_auth_plain palloc m 1 s)
     else if w = bytes ''cram-md5'' \<and> rest = [] then (NGX_MAIL_AUTH_CRAM_MD5, s)
     else (Auth_rc NGX_MAIL_PARSE_INVALID_COMMAND, s))"
proof -
  let ?w = "map ngx_tolower (str_bytes m a)"
  have len: "int (length ?w) = str_len a" "nat (str_len a) \<le> length (drop (str_data a) m)"
    using assms(2) by (auto simp: str_bytes_def str_within_def)
  have low: "map ngx_tolower (bytes ''LOGIN'') = bytes ''login''" "map ngx_tolower (bytes ''PLAIN'') = bytes ''plain''"
    "map ngx_tolower (bytes ''CRAM-MD5'') = bytes ''cram-md5''"
    by (simp_all add: ngx_tolower_def)
  have cmp: "ngx_strncasecmp (drop (str_data a) m) x n = Some 0 \<longleftrightarrow> ?w = map ngx_tolower x"
    if "str_len a = int n" "length x = n" "0 \<notin> set x" for x n
    using ngx_strncasecmp_zero [of x "drop (str_data a) m"] that len by (simp add: str_bytes_def)
  have ne: "bytes ''login'' \<noteq> bytes ''plain''" "bytes ''login'' \<noteq> bytes ''cram-md5''" "bytes ''plain'' \<noteq> bytes ''cram-md5''"
    by simp_all
  show ?thesis
  proof (cases "str_len a = 5")
    case True
    then have "length ?w = 5" using len(1) by simp
    then have "?w \<noteq> bytes ''cram-md5''" by auto
    with True show ?thesis
      using assms(1) cmp [of 5 "bytes ''LOGIN''"] cmp [of 5 "bytes ''PLAIN''"] low ne
      by (auto simp: ngx_mail_auth_parse_def ngx_mail_starttls_only_def Let_def split: prod.split)
  next
    case False
    then have "length ?w \<noteq> 5" using len(1) by simp
    then have l: "?w \<noteq> bytes ''login''" "?w \<noteq> bytes ''plain''" by auto
    show ?thesis
    proof (cases "str_len a = 8")
      case True
      then show ?thesis
        using assms(1) cmp [of 8 "bytes ''CRAM-MD5''"] low l False
        by (auto simp: ngx_mail_auth_parse_def ngx_mail_starttls_only_def Let_def)
    next
      case f8: False
      then have "length ?w \<noteq> 8" using len(1) by simp
      then have "?w \<noteq> bytes ''cram-md5''" by auto
      then show ?thesis using assms(1) l False f8
        by (auto simp: ngx_mail_auth_parse_def ngx_mail_starttls_only_def Let_def)
    qed
  qed
qed

theorem auth_parse_methods_witness:
  "fst (ngx_mail_auth_parse (\<lambda>n. Some (replicate n 0)) \<lparr>str_len = 0, str_data = 0\<rparr> False True auth_example auth_example_session)
     = Auth_rc NGX_MAIL_PARSE_INVALID_COMMAND \<and>
   fst (ngx_mail_auth_parse (\<lambda>n. Some (replicate n 0)) \<lparr>str_len = 0, str_data = 0\<rparr> True True auth_example auth_example_session)
     = Auth_rc NGX_DONE"
proof -
  let ?palloc = "\<lambda>n. Some (replicate n (0::byte))" and ?s = auth_example_session
  let ?a = "\<lparr>str_len = 5, str_data = 1\<rparr>" and ?b = "\<lparr>str_len = 8, str_data = 6\<rparr>"
  have args: "ms_args ?s = ?a # [?b]"
    by (simp add: auth_example_session_def ngx_mail_session.defs)
  have "str_within auth_example 0 (length auth_example) {} ?a"
    by (simp add: str_within_def auth_example_def)
  note m = auth_parse_methods [OF args this]
  have "map ngx_tolower (str_bytes auth_example ?a) = bytes ''plain''"
    "fst (ngx_mail_auth_plain ?palloc auth_example 1 ?s) = NGX_DONE" by code_simp+
  then show ?thesis by (simp add: m Let_def map_prod_def split_beta)
qed

section \<open>CRAM-MD5\<close>

text \<open>
  When the decoded answer has no space, \<open>s->passwd\<close> keeps its value: after an earlier attempt whose
  digest had 32 bytes, an answer without a digest is accepted with the digest of that attempt.
\<close>

lemma cram_md5_stale:
  assumes "palloc (ngx_base64_decoded_length (nat (str_len (ms_args s ! 0)))) = Some block"
    and "ngx_decode_base64 (str_bytes m (ms_args s ! 0)) = Some login" "SP \<notin> set login"
    and "ms_passwd_len s = 32"
  shows "\<exists>s'. ngx_mail_auth_cram_md5 palloc m s = (NGX_DONE, s') \<and>
    ms_login s' = login \<and> ms_passwd s' = ms_passwd s"
proof -
  have "cram_split login = None" using assms(3) by (induction login) auto
  then show ?thesis
    using assms(1,2,4) by (simp add: ngx_mail_auth_cram_md5_def Let_def ms_login_def ms_passwd_def)
qed

end
