(* ===== verification/Ngx_Times.thy ===== *)
theory Ngx_Times
  imports Ngx_String_Num
begin

text \<open>
  Dates: \<open>ngx_gmtime\<close>, \<open>ngx_http_time\<close> and \<open>ngx_http_cookie_time\<close> of \<^verbatim>\<open>src/core/ngx_times.c\<close>
  (lines 241--401) and \<open>ngx_http_parse_time\<close> of \<^verbatim>\<open>src/http/ngx_http_parse_time.c\<close> (lines 12--276).

  Shown: \<open>ngx_gmtime\<close> follows the Gregorian calendar day by day from January 1, 1970, and its
  fields are in their ranges; the date formats it is printed in are read back as the same
  time; the parser reads no byte outside its argument.
\<close>

section \<open>From a time to a date\<close>

record ngx_tm =
  tm_sec :: int
  tm_min :: int
  tm_hour :: int
  tm_mday :: int
  tm_mon :: int
  tm_year :: int
  tm_wday :: int

text \<open>
  The code computes with \<open>ngx_uint_t\<close>, 64 bits wide; \<open>yday\<close> is an \<open>ngx_int_t\<close>.  A \<open>time_t\<close> is converted at
  the start, \<open>(ngx_uint_t) t\<close>, so that a negative one becomes \<open>t + 2 ^ 64\<close>, and the year is converted
  to an \<open>int\<close> at the end, \<open>(ngx_tm_year_t) year\<close>, which keeps its low 32 bits; both are written out.
  \<open>days - (31 + 28)\<close> may wrap and is brought back by the addition that follows.  No other operation
  wraps, since \<open>days < 2 ^ 48\<close>: the largest value is \<open>(days + 2) * 400 < 2 ^ 57\<close>, and a negative \<open>yday\<close> is
  only added to a larger number.
\<close>

definition gauss_days :: "int \<Rightarrow> int" where
  "gauss_days year = 365 * year + year div 4 - year div 100 + year div 400"

definition gm_leap :: "int \<Rightarrow> bool" where
  "gm_leap year \<longleftrightarrow> year mod 4 = 0 \<and> (year mod 100 \<noteq> 0 \<or> year mod 400 = 0)"

text \<open>The year that begins on March 1, and the day in it.\<close>

definition gm_year :: "int \<Rightarrow> int \<times> int" where
  "gm_year days =
    (let year = (days + 2) * 400 div (365 * 400 + 100 - 4 + 1);
         yday = days - gauss_days year
     in if yday < 0
        then (year - 1, 365 + (if gm_leap year then 1 else 0) + yday)
        else (year, yday))"

text \<open>Month and day of the month.\<close>

definition gm_date :: "int \<times> int \<Rightarrow> int \<times> int \<times> int" where
  "gm_date y =
    (case y of (year, yday) \<Rightarrow>
      let mon = (yday + 31) * 10 div 306;
          mday = yday - (367 * mon div 12 - 30) + 1
      in if yday \<ge> 306 then (year + 1, mon - 10, mday) else (year, mon + 2, mday))"

definition ngx_gmtime :: "int \<Rightarrow> ngx_tm" where
  "ngx_gmtime t =
    (let n = t mod 2 ^ 64;
         days = n div 86400;
         wday = (4 + days) mod 7;
         n = n mod 86400;
         hour = n div 3600;
         n = n mod 3600;
         minute = n div 60;
         sec = n mod 60;
         days = ((days - (31 + 28)) mod 2 ^ 64 + 719527) mod 2 ^ 64
     in case gm_date (gm_year days) of
          (year, mon, mday) \<Rightarrow>
            \<lparr>tm_sec = sec, tm_min = minute, tm_hour = hour, tm_mday = mday, tm_mon = mon,
             tm_year = signed_take_bit 31 year, tm_wday = wday\<rparr>)"

section \<open>Printing a date\<close>

definition week :: "string list" where
  "week = [''Sun'', ''Mon'', ''Tue'', ''Wed'', ''Thu'', ''Fri'', ''Sat'']"

definition months :: "string list" where
  "months = [''Jan'', ''Feb'', ''Mar'', ''Apr'', ''May'', ''Jun'',
             ''Jul'', ''Aug'', ''Sep'', ''Oct'', ''Nov'', ''Dec'']"

text \<open>
  \<open>%02d\<close>, \<open>%4d\<close> and \<open>%d\<close> of \<open>ngx_sprintf\<close> for an \<open>int\<close>; the sign of a negative one, a year that was
  truncated, is not counted in the width.  \<open>ngx_sprintf\<close> has no bound on the buffer; 32 bytes are more
  than a number takes (20 digits at most).
\<close>

definition fmt_num :: "byte \<Rightarrow> nat \<Rightarrow> int \<Rightarrow> byte list" where
  "fmt_num zero width n =
    (if n < 0 then asc CHR ''-'' # ngx_sprintf_num 32 (word_of_int (- n)) zero 0 width
     else ngx_sprintf_num 32 (word_of_int n) zero 0 width)"

text \<open>The remainder \<open>%\<close> of C takes the sign of the dividend.\<close>

definition c_rem :: "int \<Rightarrow> int \<Rightarrow> int" where
  "c_rem a b = (if a < 0 then - (- a mod b) else a mod b)"

definition fmt_clock :: "ngx_tm \<Rightarrow> byte list" where
  "fmt_clock tm =
    fmt_num (asc CHR ''0'') 2 (tm_hour tm) @ bytes '':'' @ fmt_num (asc CHR ''0'') 2 (tm_min tm)
    @ bytes '':'' @ fmt_num (asc CHR ''0'') 2 (tm_sec tm) @ bytes '' GMT''"

definition ngx_http_time :: "int \<Rightarrow> byte list" where
  "ngx_http_time t =
    (let tm = ngx_gmtime t in
     bytes (week ! nat (tm_wday tm)) @ bytes '', ''
     @ fmt_num (asc CHR ''0'') 2 (tm_mday tm) @ bytes '' ''
     @ bytes (months ! nat (tm_mon tm - 1)) @ bytes '' ''
     @ fmt_num SP 4 (tm_year tm) @ bytes '' '' @ fmt_clock tm)"

definition ngx_http_cookie_time :: "int \<Rightarrow> byte list" where
  "ngx_http_cookie_time t =
    (let tm = ngx_gmtime t in
     bytes (week ! nat (tm_wday tm)) @ bytes '', ''
     @ fmt_num (asc CHR ''0'') 2 (tm_mday tm) @ bytes ''-''
     @ bytes (months ! nat (tm_mon tm - 1)) @ bytes ''-''
     @ (if tm_year tm > 2037 then fmt_num SP 0 (tm_year tm)
        else fmt_num (asc CHR ''0'') 2 (c_rem (tm_year tm) 100))
     @ bytes '' '' @ fmt_clock tm)"

section \<open>Reading a date\<close>

text \<open>
  The result of the parser is \<open>None\<close> if it reads a byte outside the value; \<open>NGX_ERROR\<close> is \<open>-1\<close>.
\<close>

definition mday :: "int list" where
  "mday = [31, 28, 31, 30, 31, 30, 31, 31, 30, 31, 30, 31]"

datatype pt_fmt = pt_rfc822 | pt_rfc850 | pt_isoc

abbreviation pt_error :: "int option" where "pt_error \<equiv> Some (- 1)"

definition pt_read :: "byte list \<Rightarrow> nat \<Rightarrow> (byte \<Rightarrow> int option) \<Rightarrow> int option" where
  "pt_read v p k = (if p < length v then k (v ! p) else None)"

text \<open>One more decimal digit, an error if there is none.\<close>

definition pt_digit :: "byte list \<Rightarrow> nat \<Rightarrow> int \<Rightarrow> (int \<Rightarrow> int option) \<Rightarrow> int option" where
  "pt_digit v p n k =
    pt_read v p (\<lambda>c. if c < asc CHR ''0'' \<or> c > asc CHR ''9'' then pt_error
                     else k (n * 10 + (uint c - 48)))"

definition pt_two :: "byte list \<Rightarrow> nat \<Rightarrow> (int \<Rightarrow> int option) \<Rightarrow> int option" where
  "pt_two v p k = pt_digit v p 0 (\<lambda>n. pt_digit v (p + 1) n k)"

definition pt_four :: "byte list \<Rightarrow> nat \<Rightarrow> (int \<Rightarrow> int option) \<Rightarrow> int option" where
  "pt_four v p k =
    pt_digit v p 0 (\<lambda>n. pt_digit v (p + 1) n (\<lambda>n. pt_digit v (p + 2) n (\<lambda>n. pt_digit v (p + 3) n k)))"

text \<open>A character that has to be there.\<close>

definition pt_char :: "byte list \<Rightarrow> nat \<Rightarrow> byte \<Rightarrow> int option \<Rightarrow> int option" where
  "pt_char v p c k = pt_read v p (\<lambda>d. if d \<noteq> c then pt_error else k)"

text \<open>The first loop: how many bytes before a comma or a space, and whether a space was found.\<close>

fun pt_find :: "byte list \<Rightarrow> nat \<times> bool" where
  "pt_find [] = (0, False)"
| "pt_find (c # cs) =
    (if c = asc CHR '','' then (0, False)
     else if c = SP then (0, True)
     else (case pt_find cs of (n, sp) \<Rightarrow> (Suc n, sp)))"

definition pt_month :: "byte list \<Rightarrow> nat \<Rightarrow> (nat \<Rightarrow> int option) \<Rightarrow> int option" where
  "pt_month v p k =
    pt_read v p (\<lambda>c.
      if c = asc CHR ''J'' then
        pt_read v (p + 1) (\<lambda>d. if d = asc CHR ''a'' then k 0
          else pt_read v (p + 2) (\<lambda>e. if e = asc CHR ''n'' then k 5 else k 6))
      else if c = asc CHR ''F'' then k 1
      else if c = asc CHR ''M'' then pt_read v (p + 2) (\<lambda>e. if e = asc CHR ''r'' then k 2 else k 4)
      else if c = asc CHR ''A'' then pt_read v (p + 1) (\<lambda>d. if d = asc CHR ''p'' then k 3 else k 7)
      else if c = asc CHR ''S'' then k 8
      else if c = asc CHR ''O'' then k 9
      else if c = asc CHR ''N'' then k 10
      else if c = asc CHR ''D'' then k 11
      else pt_error)"

text \<open>
  The checks of the fields and the formula; lines 223--264.  Unsigned arithmetic wraps at 64 bits;
  the result is converted to the signed \<open>time_t\<close>.
\<close>

definition pt_signed :: "int \<Rightarrow> int" where
  "pt_signed x = (let y = x mod 2 ^ 64 in if y < 2 ^ 63 then y else y - 2 ^ 64)"

definition pt_time :: "int \<Rightarrow> nat \<Rightarrow> int \<Rightarrow> int \<Rightarrow> int \<Rightarrow> int \<Rightarrow> int" where
  "pt_time day month year hour minute sec =
    (if hour > 23 \<or> minute > 59 \<or> sec > 59 then - 1
     else if (if day = 29 \<and> month = 1
              then year mod 4 \<noteq> 0 \<or> (year mod 100 = 0 \<and> year mod 400 \<noteq> 0)
              else day > mday ! month) then - 1
     else
       (let month = int month - 1;
            (month, year) =
              (if month \<le> 0 then (month + 12, if year = 0 then 2 ^ 64 - 1 else year - 1)
               else (month, year))
        in pt_signed
             ((365 * year + year div 4 - year div 100 + year div 400
               + 367 * month div 12 - 30 + day - 1 - 719527 + 31 + 28) * 86400
              + hour * 3600 + minute * 60 + sec)))"

text \<open>The clock; lines 171--221.\<close>

definition pt_clock :: "byte list \<Rightarrow> nat \<Rightarrow> (int \<Rightarrow> int \<Rightarrow> int \<Rightarrow> int option) \<Rightarrow> int option" where
  "pt_clock v p k =
    pt_char v p SP (pt_two v (p + 1) (\<lambda>hour.
    pt_char v (p + 3) (asc CHR '':'') (pt_two v (p + 4) (\<lambda>minute.
    pt_char v (p + 6) (asc CHR '':'') (pt_two v (p + 7) (\<lambda>sec. k hour minute sec))))))"

definition pt_isoc_day :: "byte list \<Rightarrow> nat \<Rightarrow> (int \<Rightarrow> nat \<Rightarrow> int option) \<Rightarrow> int option" where
  "pt_isoc_day v p k =
    pt_read v p (\<lambda>c.
      let p = (if c = SP then p + 1 else p) in
      pt_digit v p 0 (\<lambda>day.
        pt_read v (p + 1) (\<lambda>c.
          if c \<noteq> SP then
            pt_digit v (p + 1) day (\<lambda>day. if length v < p + 2 + 14 then pt_error else k day (p + 2))
          else if length v < p + 1 + 14 then pt_error else k day (p + 1))))"

definition pt_body :: "byte list \<Rightarrow> pt_fmt \<Rightarrow> int \<Rightarrow> nat \<Rightarrow> int option" where
  "pt_body v fmt day p =
    pt_month v p (\<lambda>month.
      case fmt of
        pt_rfc822 \<Rightarrow>
          pt_char v (p + 3) SP (pt_four v (p + 4) (\<lambda>year.
            pt_clock v (p + 8) (\<lambda>hour minute sec. Some (pt_time day month year hour minute sec))))
      | pt_rfc850 \<Rightarrow>
          pt_char v (p + 3) (asc CHR ''-'') (pt_two v (p + 4) (\<lambda>year.
            let year = year + (if year < 70 then 2000 else 1900) in
            pt_clock v (p + 6) (\<lambda>hour minute sec. Some (pt_time day month year hour minute sec))))
      | pt_isoc \<Rightarrow>
          pt_isoc_day v (p + 4) (\<lambda>day p.
            pt_clock v p (\<lambda>hour minute sec.
              pt_char v (p + 9) SP (pt_four v (p + 10) (\<lambda>year.
                Some (pt_time day month year hour minute sec))))))"

definition ngx_http_parse_time :: "byte list \<Rightarrow> int option" where
  "ngx_http_parse_time v =
    (case pt_find v of (n, sp) \<Rightarrow>
      let p = n + 1 + length (takeWhile (\<lambda>c. c = SP) (drop (n + 1) v)) in
      if length v < p + 18 then pt_error
      else if sp then pt_body v pt_isoc 32 p
      else pt_two v p (\<lambda>day.
        pt_read v (p + 2) (\<lambda>c.
          if c = SP then
            (if length v < p + 2 + 18 then pt_error else pt_body v pt_rfc822 day (p + 3))
          else if c = asc CHR ''-'' then pt_body v pt_rfc850 day (p + 3)
          else pt_error)))"

section \<open>The calendar\<close>

text \<open>The number of days of a month, and the date after a date.\<close>

definition days_in :: "int \<Rightarrow> int \<Rightarrow> int" where
  "days_in y m =
    (if m = 2 then (if gm_leap y then 29 else 28)
     else if m \<in> {4, 6, 9, 11} then 30 else 31)"

fun next_day :: "int \<times> int \<times> int \<Rightarrow> int \<times> int \<times> int" where
  "next_day (y, m, d) =
    (if d < days_in y m then (y, m, d + 1)
     else if m < 12 then (y, m + 1, 1)
     else (y + 1, 1, 1))"

text \<open>The length of the year that begins on March 1.\<close>

definition march_length :: "int \<Rightarrow> int" where
  "march_length y = 365 + (if gm_leap (y + 1) then 1 else 0)"

lemma int_div_succ:
  fixes y n :: int
  assumes "0 < n"
  shows "(y + 1) div n = y div n + (if (y + 1) mod n = 0 then 1 else 0)"
proof -
  have y: "y = n * (y div n) + y mod n" by simp
  have r: "0 \<le> y mod n" "y mod n < n" using assms by simp_all
  show ?thesis
  proof (cases "y mod n + 1 = n")
    case True
    have "y + 1 = n * (y div n) + (y mod n + 1)" using y by linarith
    then have "y + 1 = n * (y div n + 1) + 0" unfolding True by (simp add: distrib_left)
    then have "(y + 1) div n = y div n + 1" "(y + 1) mod n = 0"
      using assms by (metis int_div_pos_eq order_refl, metis int_mod_pos_eq order_refl)
    then show ?thesis by simp
  next
    case False
    then have "y + 1 = n * (y div n) + (y mod n + 1)" "y mod n + 1 < n" "0 \<le> y mod n + 1" using y r by linarith+
    then have "(y + 1) div n = y div n" "(y + 1) mod n = y mod n + 1"
      by (metis int_div_pos_eq, metis int_mod_pos_eq)
    then show ?thesis using r by simp
  qed
qed

lemma gauss_days_Suc: "gauss_days (y + 1) = gauss_days y + march_length y"
proof -
  have div: "(y + 1) div 4 = y div 4 + (if (y + 1) mod 4 = 0 then 1 else 0)"
    "(y + 1) div 100 = y div 100 + (if (y + 1) mod 100 = 0 then 1 else 0)"
    "(y + 1) div 400 = y div 400 + (if (y + 1) mod 400 = 0 then 1 else 0)"
    by (rule int_div_succ, simp)+
  have "(y + 1) mod 4 = (y + 1) mod 100 mod 4" by (simp add: mod_mod_cancel)
  then have imp4: "(y + 1) mod 100 = 0 \<longrightarrow> (y + 1) mod 4 = 0" by (metis mod_0)
  have "(y + 1) mod 100 = (y + 1) mod 400 mod 100" by (simp add: mod_mod_cancel)
  then have imp100: "(y + 1) mod 400 = 0 \<longrightarrow> (y + 1) mod 100 = 0" by (metis mod_0)
  define A B C where "A \<longleftrightarrow> (y + 1) mod 4 = 0" and "B \<longleftrightarrow> (y + 1) mod 100 = 0" and "C \<longleftrightarrow> (y + 1) mod 400 = 0"
  show ?thesis
    using imp4 imp100
    unfolding gauss_days_def march_length_def gm_leap_def div A_def [symmetric] B_def [symmetric] C_def [symmetric]
    by (cases A; cases B; cases C) simp_all
qed

lemma int_div_bounds:
  fixes x n :: int
  assumes "0 < n"
  shows "n * (x div n) \<le> x" "x < n * (x div n + 1)"
proof -
  have "x = n * (x div n) + x mod n" "0 \<le> x mod n" "x mod n < n" using assms by simp_all
  then show "n * (x div n) \<le> x" "x < n * (x div n + 1)" unfolding distrib_left by linarith+
qed

lemma gauss_bounds:
  fixes y d :: int
  assumes "y = (d + 2) * 400 div 146097"
  shows "- 3 < d - gauss_days y" "d - gauss_days y \<le> 364"
proof -
  define q j p v c u where "q = y div 4" and "j = y mod 4" and "p = q div 25" and "v = q mod 25"
    and "c = p div 4" and "u = p mod 4"
  have dec: "y = 4 * q + j" "q = 25 * p + v" "p = 4 * c + u"
    "0 \<le> u" "u \<le> 3" "0 \<le> v" "v \<le> 24" "0 \<le> j" "j \<le> 3"
  proof -
    have "u < 4" "v < 25" "j < 4" unfolding u_def v_def j_def by simp_all
    then show "u \<le> 3" "v \<le> 24" "j \<le> 3" by linarith+
  qed (simp_all add: q_def j_def p_def v_def c_def u_def)
  have "y div 100 = p" "y div 400 = c"
    unfolding p_def q_def c_def by (simp_all add: zdiv_zmult2_eq [symmetric])
  then have g: "gauss_days y = 365 * y + q - p + c" by (simp add: gauss_days_def q_def)
  have "146097 * y \<le> (d + 2) * 400" "(d + 2) * 400 < 146097 * (y + 1)"
    unfolding assms by (rule int_div_bounds; simp)+
  then have "100 * u - 12 * v + 97 * j - 800 \<le> 400 * (d - gauss_days y)"
    "400 * (d - gauss_days y) < 100 * u - 12 * v + 97 * j + 145297"
    unfolding g unfolding dec(1) unfolding dec(2) unfolding dec(3) by (simp_all add: algebra_simps)
  moreover have "- 3 < x" "x \<le> 364"
    if "100 * u - 12 * v + 97 * j - 800 \<le> 400 * x" "400 * x < 100 * u - 12 * v + 97 * j + 145297" for x
    using that dec(4-9) by linarith+
  ultimately show "- 3 < d - gauss_days y" "d - gauss_days y \<le> 364" by blast+
qed

lemma gm_year_spec:
  assumes "gm_year d = (y, yd)"
  shows "d = gauss_days y + yd" "0 \<le> yd" "yd < march_length y"
proof -
  define y0 where "y0 = (d + 2) * 400 div 146097"
  note b = gauss_bounds [OF y0_def]
  have e: "gauss_days y0 = gauss_days (y0 - 1) + march_length (y0 - 1)" using gauss_days_Suc [of "y0 - 1"] by simp
  have m: "march_length (y0 - 1) = 365 + (if gm_leap y0 then 1 else 0)" "march_length y0 \<ge> 365"
    by (simp_all add: march_length_def)
  have "(365 * 400 + 100 - 4 + 1 :: int) = 146097" by simp
  then have "(y, yd) = (if d - gauss_days y0 < 0 then (y0 - 1, 365 + (if gm_leap y0 then 1 else 0) + (d - gauss_days y0))
     else (y0, d - gauss_days y0))"
    using assms unfolding gm_year_def Let_def y0_def by (simp only:)
  then show "d = gauss_days y + yd" "0 \<le> yd" "yd < march_length y"
    using b e m by (auto split: if_splits)
qed

lemma gm_date_eq:
  assumes "0 \<le> yd" "yd \<le> 365"
  shows "gm_date (y, yd) =
    (if yd < 31 then (y, 3, yd + 1) else if yd < 61 then (y, 4, yd - 30)
     else if yd < 92 then (y, 5, yd - 60) else if yd < 122 then (y, 6, yd - 91)
     else if yd < 153 then (y, 7, yd - 121) else if yd < 184 then (y, 8, yd - 152)
     else if yd < 214 then (y, 9, yd - 183) else if yd < 245 then (y, 10, yd - 213)
     else if yd < 275 then (y, 11, yd - 244) else if yd < 306 then (y, 12, yd - 274)
     else if yd < 337 then (y + 1, 1, yd - 305) else (y + 1, 2, yd - 336))"
proof -
  have mon: "(yd + 31) * 10 div 306 = k" if "306 * k \<le> (yd + 31) * 10" "(yd + 31) * 10 < 306 * (k + 1)" for k
    using that by (intro int_div_pos_eq [where r = "(yd + 31) * 10 - 306 * k"]) auto
  show ?thesis
    using assms mon [of 1] mon [of 2] mon [of 3] mon [of 4] mon [of 5] mon [of 6] mon [of 7] mon [of 8]
      mon [of 9] mon [of 10] mon [of 11] mon [of 12]
    by (auto simp: gm_date_def Let_def)
qed

lemma gm_date_next:
  assumes "0 \<le> yd" "yd < march_length y"
  shows "next_day (gm_date (y, yd)) =
    (if yd + 1 < march_length y then gm_date (y, yd + 1) else gm_date (y + 1, 0))"
proof -
  have "yd \<le> 365" "yd = 365 \<longrightarrow> gm_leap (y + 1)" using assms by (auto simp: march_length_def split: if_splits)
  then show ?thesis using assms
    by (auto simp: gm_date_eq days_in_def march_length_def)
qed

lemma gm_date_valid:
  assumes "0 \<le> yd" "yd < march_length y" "gm_date (y, yd) = (Y, M, D)"
  shows "1 \<le> M" "M \<le> 12" "1 \<le> D" "D \<le> days_in Y M"
proof -
  have "yd \<le> 365" "yd = 365 \<longrightarrow> gm_leap (y + 1)" using assms by (auto simp: march_length_def split: if_splits)
  then have "1 \<le> M \<and> M \<le> 12 \<and> 1 \<le> D \<and> D \<le> days_in Y M" using assms
    by (auto simp: gm_date_eq days_in_def split: if_splits)
  then show "1 \<le> M" "M \<le> 12" "1 \<le> D" "D \<le> days_in Y M" by auto
qed

lemma gauss_days_mono:
  assumes "y < y'" shows "gauss_days y + march_length y \<le> gauss_days y'"
proof -
  have "gauss_days (y + 1) \<le> gauss_days (y + 1 + int n)" for n
  proof (induction n)
    case (Suc n)
    have "march_length (y + 1 + int n) \<ge> 0" by (simp add: march_length_def)
    then show ?case using Suc gauss_days_Suc [of "y + 1 + int n"] by (simp add: algebra_simps)
  qed simp
  from this [of "nat (y' - y - 1)"] assms show ?thesis by (simp add: gauss_days_Suc)
qed

lemma gm_year_unique:
  assumes "0 \<le> yd" "yd < march_length y"
  shows "gm_year (gauss_days y + yd) = (y, yd)"
proof -
  obtain y' yd' where e: "gm_year (gauss_days y + yd) = (y', yd')" by fastforce
  note s = gm_year_spec [OF e]
  have "\<not> y < y'" "\<not> y' < y" using gauss_days_mono [of y y'] gauss_days_mono [of y' y] s assms by linarith+
  then have "y' = y" by simp
  then show ?thesis using e s by simp
qed

lemma gm_date_Suc: "gm_date (gm_year (d + 1)) = next_day (gm_date (gm_year d))"
proof -
  obtain y yd where e: "gm_year d = (y, yd)" by fastforce
  note s = gm_year_spec [OF e]
  show ?thesis
  proof (cases "yd + 1 < march_length y")
    case True
    then have "gm_year (d + 1) = (y, yd + 1)" using gm_year_unique [of "yd + 1" y] s by (simp add: algebra_simps)
    then show ?thesis using gm_date_next [OF s(2,3)] True e by simp
  next
    case False
    then have "d + 1 = gauss_days (y + 1) + 0" using s by (simp add: gauss_days_Suc)
    moreover have "0 < march_length (y + 1)" by (simp add: march_length_def)
    ultimately have "gm_year (d + 1) = (y + 1, 0)" using gm_year_unique [of 0 "y + 1"] by simp
    then show ?thesis using gm_date_next [OF s(2,3)] False e by simp
  qed
qed

definition tm_date :: "ngx_tm \<Rightarrow> int \<times> int \<times> int" where
  "tm_date tm = (tm_year tm, tm_mon tm, tm_mday tm)"

text \<open>The seconds as the code sees them, the date before the year is converted, and the clock.\<close>

lemma gmtime_date:
  assumes "gm_date (gm_year (t mod 2 ^ 64 div 86400 + 719468)) = (y, m, d)"
  shows "tm_date (ngx_gmtime t) = (signed_take_bit 31 y, m, d)"
proof -
  let ?d = "t mod 2 ^ 64 div 86400"
  have "t mod 2 ^ 64 < 2 ^ 64" "0 \<le> t mod 2 ^ 64" by simp_all
  then have d: "0 \<le> ?d" "?d < 2 ^ 48" by (simp_all add: pos_imp_zdiv_nonneg_iff div_less_iff_less_mult)
  have "((?d - (31 + 28)) mod 2 ^ 64 + 719527) mod 2 ^ 64 = (?d - (31 + 28) + 719527) mod 2 ^ 64"
    by (rule mod_add_left_eq)
  also have "\<dots> = ?d + 719468" using d by simp
  finally have "((?d - (31 + 28)) mod 2 ^ 64 + 719527) mod 2 ^ 64 = ?d + 719468" .
  then show ?thesis using assms unfolding ngx_gmtime_def tm_date_def Let_def by (simp only: prod.case ngx_tm.simps)
qed

lemma gmtime_clock:
  "tm_sec (ngx_gmtime t) = t mod 2 ^ 64 mod 86400 mod 3600 mod 60"
  "tm_min (ngx_gmtime t) = t mod 2 ^ 64 mod 86400 mod 3600 div 60"
  "tm_hour (ngx_gmtime t) = t mod 2 ^ 64 mod 86400 div 3600"
  "tm_wday (ngx_gmtime t) = (4 + t mod 2 ^ 64 div 86400) mod 7"
  unfolding ngx_gmtime_def Let_def by (simp_all only: ngx_tm.simps split: prod.split) blast+

lemma gmtime_clock_sum:
  "tm_hour (ngx_gmtime t) * 3600 + tm_min (ngx_gmtime t) * 60 + tm_sec (ngx_gmtime t) = t mod 2 ^ 64 mod 86400"
proof -
  have "a div 3600 * 3600 + a mod 3600 div 60 * 60 + a mod 3600 mod 60 = a" for a :: int
    using mult_div_mod_eq [of 3600 a] mult_div_mod_eq [of 60 "a mod 3600"] by linarith
  then show ?thesis unfolding gmtime_clock .
qed

lemma gmtime_fields:
  "0 \<le> tm_sec (ngx_gmtime t)" "tm_sec (ngx_gmtime t) \<le> 59"
  "0 \<le> tm_min (ngx_gmtime t)" "tm_min (ngx_gmtime t) \<le> 59"
  "0 \<le> tm_hour (ngx_gmtime t)" "tm_hour (ngx_gmtime t) \<le> 23"
  "0 \<le> tm_wday (ngx_gmtime t)" "tm_wday (ngx_gmtime t) \<le> 6"
proof -
  have "0 \<le> a mod 86400 mod 3600 mod 60" "a mod 86400 mod 3600 mod 60 < 60"
    "0 \<le> a mod 86400 mod 3600 div 60" "a mod 86400 mod 3600 div 60 < 60"
    "0 \<le> a mod 86400 div 3600" "a mod 86400 div 3600 < 24"
    "0 \<le> (4 + a div 86400) mod 7" "(4 + a div 86400) mod 7 < 7" for a :: int
    by (simp_all add: pos_imp_zdiv_nonneg_iff div_less_iff_less_mult)
  note r = this [of "t mod 2 ^ 64", folded gmtime_clock]
  show "0 \<le> tm_sec (ngx_gmtime t)" "0 \<le> tm_min (ngx_gmtime t)" "0 \<le> tm_hour (ngx_gmtime t)" "0 \<le> tm_wday (ngx_gmtime t)"
    by (fact r)+
  show "tm_sec (ngx_gmtime t) \<le> 59" "tm_min (ngx_gmtime t) \<le> 59" "tm_hour (ngx_gmtime t) \<le> 23" "tm_wday (ngx_gmtime t) \<le> 6"
    using r by linarith+
qed

lemma gmtime_date_valid:
  obtains y m d where "gm_date (gm_year (t mod 2 ^ 64 div 86400 + 719468)) = (y, m, d)"
    "tm_date (ngx_gmtime t) = (signed_take_bit 31 y, m, d)" "1 \<le> m" "m \<le> 12" "1 \<le> d" "d \<le> days_in y m"
proof -
  obtain y yd where e: "gm_year (t mod 2 ^ 64 div 86400 + 719468) = (y, yd)" by (rule prod.exhaust)
  note s = gm_year_spec [OF e]
  obtain Y M D where f: "gm_date (y, yd) = (Y, M, D)" by (rule prod_cases3)
  show thesis by (rule that [OF _ gmtime_date gm_date_valid [OF s(2,3) f]]) (simp_all only: e f)
qed

lemma days_in_le: "days_in y m \<le> 31"
  by (simp add: days_in_def)

lemma gmtime_month:
  "1 \<le> tm_mon (ngx_gmtime t)" "tm_mon (ngx_gmtime t) \<le> 12" "1 \<le> tm_mday (ngx_gmtime t)" "tm_mday (ngx_gmtime t) \<le> 31"
proof -
  obtain y m d where "tm_date (ngx_gmtime t) = (signed_take_bit 31 y, m, d)" "1 \<le> m" "m \<le> 12" "1 \<le> d" "d \<le> days_in y m"
    by (rule gmtime_date_valid)
  then show "1 \<le> tm_mon (ngx_gmtime t)" "tm_mon (ngx_gmtime t) \<le> 12" "1 \<le> tm_mday (ngx_gmtime t)" "tm_mday (ngx_gmtime t) \<le> 31"
    using days_in_le [of y m] by (simp_all add: tm_date_def)
qed

text \<open>
  Up to the end of the year 2147483647, the greatest \<open>int\<close>, the conversion of the year changes
  nothing.
\<close>

lemma gm_year_int:
  assumes "0 \<le> t" "t < 67767976233532800" "gm_date (gm_year (t div 86400 + 719468)) = (y, m, d)"
  shows "signed_take_bit 31 y = y"
proof -
  define n where "n = t div 86400"
  have n: "0 \<le> n" "n \<le> 784351576776"
    using assms(1,2) zle_diff1_eq [of n 784351576777] unfolding n_def by (simp_all add: pos_imp_zdiv_nonneg_iff div_less_iff_less_mult)
  obtain y0 yd where e: "gm_year (n + 719468) = (y0, yd)" by (rule prod.exhaust)
  note s = gm_year_spec [OF e]
  have num: "gauss_days 2147483647 = 784352295939" "gauss_days 0 = 0" "march_length 2147483647 \<ge> 365"
    by (simp_all add: gauss_days_def march_length_def)
  have "\<not> 2147483647 < y0" using gauss_days_mono [of 2147483647 y0] s num n by linarith
  moreover have "\<not> y0 < 0" using gauss_days_mono [of y0 0] s num n by linarith
  moreover have "y0 = 2147483647 \<longrightarrow> yd \<le> 305" using s num n by auto
  moreover have "y = (if yd \<ge> 306 then y0 + 1 else y0)"
    using assms(3) e unfolding n_def [symmetric] by (auto simp: gm_date_def Let_def split: if_splits)
  ultimately have "0 \<le> y" "y < 2 ^ 31" by auto
  then show ?thesis by (intro signed_take_bit_int_eq_self) simp_all
qed

lemma tm_date_gmtime:
  assumes "0 \<le> t" "t < 67767976233532800"
  shows "tm_date (ngx_gmtime t) = gm_date (gm_year (t div 86400 + 719468))"
proof -
  have t: "t mod 2 ^ 64 = t" using assms by simp
  obtain y m d where e: "gm_date (gm_year (t div 86400 + 719468)) = (y, m, d)" by (rule prod_cases3)
  have "tm_date (ngx_gmtime t) = (signed_take_bit 31 y, m, d)" by (rule gmtime_date) (simp only: t e)
  then show ?thesis using gm_year_int [OF assms e] e by simp
qed

lemma gm_date_1970:
  assumes "0 \<le> n" "gm_date (gm_year (n + 719468)) = (y, m, d)"
  shows "1970 \<le> y"
proof -
  obtain y0 yd where e: "gm_year (n + 719468) = (y0, yd)" by (rule prod.exhaust)
  note s = gm_year_spec [OF e]
  have num: "gauss_days 1969 = 719162" by (simp add: gauss_days_def)
  have "\<not> y0 < 1969" using gauss_days_mono [of y0 1969] s num assms(1) by linarith
  moreover have "y0 = 1969 \<longrightarrow> 306 \<le> yd" using s num assms(1) by auto
  moreover have "y = (if yd \<ge> 306 then y0 + 1 else y0)"
    using assms(2) e by (auto simp: gm_date_def Let_def split: if_splits)
  ultimately show ?thesis by auto
qed

lemma next_day_iterate: "gm_date (gm_year (int n + 719468)) = (next_day ^^ n) (1970, 1, 1)"
proof (induction n)
  case 0
  show ?case by code_simp
next
  case (Suc n)
  have "gm_date (gm_year (int (Suc n) + 719468)) = next_day (gm_date (gm_year (int n + 719468)))"
    using gm_date_Suc [of "int n + 719468"] by (simp add: algebra_simps)
  then show ?case using Suc by simp
qed

text \<open>
  C19. \<open>ngx_gmtime\<close> computes the Gregorian calendar: for a time \<open>t\<close> that is not negative, the date is the
  one reached from January 1, 1970 by going on \<open>t div 86400\<close> times to the next day, the clock shows
  the rest of the seconds, and the days of the week follow each other from Thursday on.  The year
  is exact up to the last second of the year 2147483647; after that its low 32 bits are stored, month
  and day staying exact.
\<close>

theorem gmtime_calendar:
  assumes "0 \<le> t" "t < 2 ^ 63" "(next_day ^^ nat (t div 86400)) (1970, 1, 1) = (y, m, d)"
  shows "tm_date (ngx_gmtime t) = (signed_take_bit 31 y, m, d) \<and>
    (t < 67767976233532800 \<longrightarrow> tm_date (ngx_gmtime t) = (y, m, d)) \<and>
    tm_hour (ngx_gmtime t) * 3600 + tm_min (ngx_gmtime t) * 60 + tm_sec (ngx_gmtime t) = t mod 86400 \<and>
    tm_wday (ngx_gmtime t) = (4 + t div 86400) mod 7"
proof -
  have t: "t mod 2 ^ 64 = t" using assms(1,2) by simp
  have "int (nat (t div 86400)) = t div 86400" using assms(1) by (simp add: pos_imp_zdiv_nonneg_iff)
  then have e: "gm_date (gm_year (t div 86400 + 719468)) = (y, m, d)"
    using next_day_iterate [of "nat (t div 86400)"] assms(3) by simp
  have "tm_date (ngx_gmtime t) = (signed_take_bit 31 y, m, d)" by (rule gmtime_date) (simp only: t e)
  moreover have "t < 67767976233532800 \<longrightarrow> tm_date (ngx_gmtime t) = (y, m, d)"
    using tm_date_gmtime [OF assms(1)] e by simp
  ultimately show ?thesis using gmtime_clock_sum [of t] gmtime_clock(4) [of t] unfolding t by blast
qed

theorem gmtime_calendar_witness:
  "tm_date (ngx_gmtime 5184000) = (1970, 3, 2) \<and> (next_day ^^ 60) (1970, 1, 1) = (1970, 3, 2) \<and>
   tm_wday (ngx_gmtime 5184000) = 1"
proof -
  have "(next_day ^^ 60) (1970, 1, 1) = (1970, 3, 2)" by code_simp
  then show ?thesis using gmtime_calendar [of 5184000 1970 3 2] by simp
qed

text \<open>
  C20. The fields of \<open>ngx_gmtime\<close> that select an entry of a table or are printed with two digits are
  in their ranges for every \<open>time_t\<close>, a negative one included, which the code takes as an unsigned
  number: seconds and minutes up to 59, hours up to 23, the day of the week 0 to 6, the month 1
  to 12, the day of the month 1 to 31; so the tables of names are read in bounds.  From 1970 to the
  end of the year 2147483647 the day is moreover one of that month in that year; beyond, where the
  year is truncated, it need not be.
\<close>

theorem gmtime_ranges:
  "0 \<le> tm_sec (ngx_gmtime t) \<and> tm_sec (ngx_gmtime t) \<le> 59 \<and>
   0 \<le> tm_min (ngx_gmtime t) \<and> tm_min (ngx_gmtime t) \<le> 59 \<and>
   0 \<le> tm_hour (ngx_gmtime t) \<and> tm_hour (ngx_gmtime t) \<le> 23 \<and>
   0 \<le> tm_wday (ngx_gmtime t) \<and> tm_wday (ngx_gmtime t) < int (length week) \<and>
   1 \<le> tm_mon (ngx_gmtime t) \<and> tm_mon (ngx_gmtime t) \<le> int (length months) \<and>
   1 \<le> tm_mday (ngx_gmtime t) \<and> tm_mday (ngx_gmtime t) \<le> 31 \<and>
   (0 \<le> t \<and> t < 67767976233532800 \<longrightarrow>
     1970 \<le> tm_year (ngx_gmtime t) \<and> tm_mday (ngx_gmtime t) \<le> days_in (tm_year (ngx_gmtime t)) (tm_mon (ngx_gmtime t)))"
proof -
  have "1970 \<le> tm_year (ngx_gmtime t) \<and> tm_mday (ngx_gmtime t) \<le> days_in (tm_year (ngx_gmtime t)) (tm_mon (ngx_gmtime t))"
    if t: "0 \<le> t" "t < 67767976233532800"
  proof -
    have n: "t mod 2 ^ 64 = t" "0 \<le> t div 86400" using t by (simp_all add: pos_imp_zdiv_nonneg_iff)
    obtain y m d where e: "gm_date (gm_year (t mod 2 ^ 64 div 86400 + 719468)) = (y, m, d)" and v: "d \<le> days_in y m"
      by (rule gmtime_date_valid)
    have "1970 \<le> y" using gm_date_1970 [OF n(2)] e unfolding n(1) .
    moreover have "tm_date (ngx_gmtime t) = (y, m, d)" using tm_date_gmtime [OF t] e unfolding n(1) by simp
    ultimately show ?thesis using v by (simp add: tm_date_def)
  qed
  moreover have "tm_wday (ngx_gmtime t) < int (length week)" "tm_mon (ngx_gmtime t) \<le> int (length months)"
    using gmtime_fields(8) [of t] gmtime_month(2) [of t] by (simp_all add: week_def months_def)
  ultimately show ?thesis using gmtime_fields [of t] gmtime_month [of t] by blast
qed

theorem gmtime_ranges_witness:
  "tm_mday (ngx_gmtime 951782400) = 29 \<and> days_in (tm_year (ngx_gmtime 951782400)) (tm_mon (ngx_gmtime 951782400)) = 29 \<and>
   tm_mday (ngx_gmtime 951782400) \<le> days_in (tm_year (ngx_gmtime 951782400)) (tm_mon (ngx_gmtime 951782400))"
proof -
  have "tm_mday (ngx_gmtime 951782400) = 29 \<and> days_in (tm_year (ngx_gmtime 951782400)) (tm_mon (ngx_gmtime 951782400)) = 29"
    by code_simp
  then show ?thesis using gmtime_ranges [of 951782400] by simp
qed

text \<open>
  The truncation of the year is observable: a day after the last one of the year 2147483647 the date
  is January 1 of the year -2147483648, and a February 29 occurs in a year stored as -2147483500,
  which is no leap year.
  A negative time is not a date before 1970: one second before January 1, 1970 becomes a second
  of a December in the far future.
\<close>

lemma gmtime_year_truncated:
  "tm_date (ngx_gmtime 67767976233532799) = (2147483647, 12, 31)"
  "tm_date (ngx_gmtime 67767976233532800) = (- 2147483648, 1, 1)"
  "tm_date (ngx_gmtime 67767980909068800) = (- 2147483500, 2, 29)" "days_in (- 2147483500) 2 = 28"
  by code_simp+

lemma gmtime_negative: "tm_date (ngx_gmtime (- 1)) \<noteq> (1969, 12, 31)"
  by code_simp

section \<open>Reading a printed date\<close>

text \<open>Digits.\<close>

definition dig :: "int \<Rightarrow> byte" where
  "dig n = word_of_nat (48 + nat n)"

lemma uint_dig: "0 \<le> n \<Longrightarrow> n \<le> 9 \<Longrightarrow> uint (dig n) = 48 + n"
  using unat_digit [of "nat n"] unfolding dig_def by (simp add: uint_nat del: unat_digit)

lemma pt_digit_dig:
  assumes "p < length v" "v ! p = dig a" "0 \<le> a" "a \<le> 9"
  shows "pt_digit v p n k = k (n * 10 + a)"
proof -
  have "is_digit (dig a)" using assms(3,4) unfolding dig_def by (intro is_digit_of_nat) simp
  then show ?thesis
    using assms uint_dig [OF assms(3,4)] by (auto simp: pt_digit_def pt_read_def is_digit_def not_less)
qed

lemma dec_digits_two:
  assumes "10 \<le> n" "n < 100" shows "dec_digits n = [word_of_nat (48 + n div 10), word_of_nat (48 + n mod 10)]"
proof -
  have "n div 10 < 10" using assms by simp
  then show ?thesis using assms by (simp add: dec_digits.simps [of n] dec_digits.simps [of "n div 10"])
qed

lemma fmt_num_dec:
  assumes "0 \<le> n" "n < 2 ^ 63"
  shows "fmt_num zero width n = take 32 (replicate (width - length (dec_digits (nat n))) zero @ dec_digits (nat n))"
proof -
  have "unat (word_of_int n :: u64) = nat n"
    using assms by (simp add: unat_eq_nat_uint uint_word_of_int_eq take_bit_int_eq_self)
  then show ?thesis using assms(1) unfolding fmt_num_def sprintf_num_eq sprintf_digits_dec by simp
qed

lemma dig_nat: "dig (int n) = word_of_nat (48 + n)"
  by (simp add: dig_def)

lemma fmt_two:
  assumes "0 \<le> n" "n < 100"
  shows "fmt_num (asc CHR ''0'') 2 n = [dig (n div 10), dig (n mod 10)]"
proof -
  obtain k where k: "n = int k" using assms(1) nonneg_int_cases by blast
  have d: "n div 10 = int (k div 10)" "n mod 10 = int (k mod 10)" unfolding k by (simp_all add: zdiv_int zmod_int)
  have f: "fmt_num (asc CHR ''0'') 2 n = take 32 (replicate (2 - length (dec_digits k)) (asc CHR ''0'') @ dec_digits k)"
    using fmt_num_dec [of n] assms k by simp
  show ?thesis
  proof (cases "k < 10")
    case True
    then show ?thesis unfolding f d dig_nat by (simp add: dec_digits.simps [of k])
  next
    case False
    then have "dec_digits k = [word_of_nat (48 + k div 10), word_of_nat (48 + k mod 10)]"
      using assms(2) k by (intro dec_digits_two) simp_all
    then show ?thesis unfolding f d dig_nat by simp
  qed
qed

lemma dec_digits_snoc: "10 \<le> n \<Longrightarrow> dec_digits n = dec_digits (n div 10) @ [word_of_nat (48 + n mod 10)]"
  by (simp add: dec_digits.simps [of n])

lemma fmt_four:
  assumes "1000 \<le> n" "n < 10000"
  shows "fmt_num SP 4 n = [dig (n div 10 div 10 div 10), dig (n div 10 div 10 mod 10), dig (n div 10 mod 10), dig (n mod 10)]"
proof -
  have "0 \<le> n" using assms by simp
  then obtain k where k: "n = int k" using nonneg_int_cases by blast
  have d: "n div 10 div 10 div 10 = int (k div 10 div 10 div 10)" "n div 10 div 10 mod 10 = int (k div 10 div 10 mod 10)"
    "n div 10 mod 10 = int (k div 10 mod 10)" "n mod 10 = int (k mod 10)"
    unfolding k by (simp_all add: zdiv_int zmod_int)
  have b: "1000 \<le> k" "k < 10000" using assms k by simp_all
  have q: "100 \<le> k div 10" "10 \<le> k div 10 div 10" "k div 10 div 10 < 100"
    using b by (simp_all add: div_greater_zero_iff less_mult_imp_div_less less_eq_div_iff_mult_less_eq)
  have "dec_digits k = [word_of_nat (48 + k div 10 div 10 div 10), word_of_nat (48 + k div 10 div 10 mod 10),
      word_of_nat (48 + k div 10 mod 10), word_of_nat (48 + k mod 10)]"
    using dec_digits_snoc [of k] dec_digits_snoc [of "k div 10"] dec_digits_two [OF q(2,3)] b(1) q(1) by simp
  then show ?thesis
    using fmt_num_dec [of n SP 4] assms k unfolding d dig_nat by simp
qed

lemma pt_two_dig:
  assumes "q < length v" "q = p + 1" "v ! p = dig (n div 10)" "v ! q = dig (n mod 10)" "0 \<le> n" "n < 100"
  shows "pt_two v p k = k n"
proof -
  have r: "0 \<le> n div 10" "n div 10 \<le> 9" "0 \<le> n mod 10" "n mod 10 \<le> 9"
    using assms(5,6) by (simp_all add: pos_imp_zdiv_nonneg_iff)
  show ?thesis unfolding pt_two_def
    using pt_digit_dig [of p v "n div 10"] pt_digit_dig [of "p + 1" v "n mod 10"] assms(1-4) r by simp
qed

lemma pt_four_dig:
  assumes "p + 3 < length v" "v ! p = dig (n div 10 div 10 div 10)" "v ! (p + 1) = dig (n div 10 div 10 mod 10)"
    "v ! (p + 2) = dig (n div 10 mod 10)" "v ! (p + 3) = dig (n mod 10)" "0 \<le> n" "n < 10000"
  shows "pt_four v p k = k n"
proof -
  have m: "0 \<le> x mod 10" "x mod 10 \<le> 9" for x :: int by simp_all
  have le: "x < 10 \<Longrightarrow> x \<le> 9" for x :: int by simp
  have "n div 10 div 10 div 10 < 10" using assms(7) by (simp add: div_less_iff_less_mult)
  then have r: "0 \<le> n div 10 div 10 div 10" "n div 10 div 10 div 10 \<le> 9"
    using assms(6) by (simp add: pos_imp_zdiv_nonneg_iff, intro le)
  have "(((n div 10 div 10 div 10) * 10 + n div 10 div 10 mod 10) * 10 + n div 10 mod 10) * 10 + n mod 10 = n"
    by (simp only: div_mult_mod_eq)
  moreover have l: "p < length v" "p + 1 < length v" "p + 2 < length v" using assms(1) by simp_all
  note d = pt_digit_dig [OF l(1) assms(2) r] pt_digit_dig [OF l(2) assms(3) m]
    pt_digit_dig [OF l(3) assms(4) m] pt_digit_dig [OF assms(1) assms(5) m]
  have "pt_four v p k =
    k ((((0 * 10 + n div 10 div 10 div 10) * 10 + n div 10 div 10 mod 10) * 10 + n div 10 mod 10) * 10 + n mod 10)"
    unfolding pt_four_def d ..
  ultimately show ?thesis by (simp only: mult_zero_left add_0)
qed

text \<open>Names.\<close>

definition pt_month_no :: "byte \<Rightarrow> byte \<Rightarrow> byte \<Rightarrow> nat option" where
  "pt_month_no c d e =
    (if c = asc CHR ''J'' then Some (if d = asc CHR ''a'' then 0 else if e = asc CHR ''n'' then 5 else 6)
     else if c = asc CHR ''F'' then Some 1
     else if c = asc CHR ''M'' then Some (if e = asc CHR ''r'' then 2 else 4)
     else if c = asc CHR ''A'' then Some (if d = asc CHR ''p'' then 3 else 7)
     else if c = asc CHR ''S'' then Some 8
     else if c = asc CHR ''O'' then Some 9
     else if c = asc CHR ''N'' then Some 10
     else if c = asc CHR ''D'' then Some 11
     else None)"

lemma pt_month_eq:
  "p + 2 < length v \<Longrightarrow>
   pt_month v p k = (case pt_month_no (v ! p) (v ! (p + 1)) (v ! (p + 2)) of None \<Rightarrow> pt_error | Some n \<Rightarrow> k n)"
  by (simp add: pt_month_def pt_month_no_def pt_read_def)

lemma months_table:
  "list_all (\<lambda>n. length (months ! n) = 3 \<and>
     pt_month_no (asc (months ! n ! 0)) (asc (months ! n ! 1)) (asc (months ! n ! 2)) = Some n)
   [0, 1, 2, 3, 4, 5, 6, 7, 8, 9, 10, 11]"
  by code_simp

lemma mday_table:
  "list_all (\<lambda>n. mday ! n = (if n = 1 then 28 else if n \<in> {3, 5, 8, 10} then 30 else 31))
   [0, 1, 2, 3, 4, 5, 6, 7, 8, 9, 10, 11]"
  by code_simp

lemma week_table: "list_all (\<lambda>w. length w = 3 \<and> list_all (\<lambda>x. asc x \<noteq> asc CHR '','' \<and> asc x \<noteq> SP) w) week"
  by code_simp

lemma less_12_all:
  assumes "list_all P [0, 1, 2, 3, 4, 5, 6, 7, 8, 9, 10, 11::nat]" "n < 12"
  shows "P n"
proof -
  have "n \<in> set [0, 1, 2, 3, 4, 5, 6, 7, 8, 9, 10, 11]" using assms(2) by simp presburger
  then show ?thesis using assms(1) unfolding list_all_iff by blast
qed

lemma length_3: "length xs = 3 \<Longrightarrow> xs = [xs ! 0, xs ! 1, xs ! 2]"
  by (auto simp: length_numeral_iff)

lemma month_name:
  assumes "n < 12"
  obtains a b c where "bytes (months ! n) = [a, b, c]" "pt_month_no a b c = Some n"
proof -
  from less_12_all [OF months_table assms]
  have l: "length (months ! n) = 3" and no: "pt_month_no (asc (months ! n ! 0)) (asc (months ! n ! 1)) (asc (months ! n ! 2)) = Some n"
    by blast+
  from arg_cong [OF length_3 [OF l], of bytes] no show ?thesis by (intro that) simp_all
qed

lemma week_name:
  assumes "n < 7"
  obtains a b c where "bytes (week ! n) = [a, b, c]" "list_all (\<lambda>x. x \<noteq> asc CHR '','' \<and> x \<noteq> SP) [a, b, c]"
proof -
  have "length week = 7" by (simp add: week_def)
  then have "week ! n \<in> set week" using assms by (intro nth_mem) simp
  with week_table have l: "length (week ! n) = 3"
    and ok: "list_all (\<lambda>x. asc x \<noteq> asc CHR '','' \<and> asc x \<noteq> SP) (week ! n)" by (simp_all add: list_all_iff)
  from l obtain x y z where "week ! n = [x, y, z]" by (auto simp: length_numeral_iff)
  with ok show ?thesis by (intro that [of "asc x" "asc y" "asc z"]) simp_all
qed

lemma dig_not_SP: "0 \<le> n \<Longrightarrow> n \<le> 9 \<Longrightarrow> dig n \<noteq> SP"
  using uint_dig [of n] by auto

lemma pt_clock_dig:
  assumes "p + 8 < length v" "v ! p = SP"
    "v ! (p + 1) = dig (h div 10)" "v ! (p + 2) = dig (h mod 10)" "v ! (p + 3) = asc CHR '':''"
    "v ! (p + 4) = dig (m div 10)" "v ! (p + 5) = dig (m mod 10)" "v ! (p + 6) = asc CHR '':''"
    "v ! (p + 7) = dig (s div 10)" "v ! (p + 8) = dig (s mod 10)"
    "0 \<le> h" "h < 100" "0 \<le> m" "m < 100" "0 \<le> s" "s < 100"
  shows "pt_clock v p k = k h m s"
proof -
  have "pt_two v (p + 1) f = f h" for f using assms by (intro pt_two_dig [of "p + 2"]) simp_all
  moreover have "pt_two v (p + 4) f = f m" for f using assms by (intro pt_two_dig [of "p + 5"]) simp_all
  moreover have "pt_two v (p + 7) f = f s" for f using assms by (intro pt_two_dig [of "p + 8"]) simp_all
  ultimately show ?thesis
    unfolding pt_clock_def pt_char_def pt_read_def using assms(1,2,5,8) by simp
qed

text \<open>The fields of a date give back the number of its day.\<close>

lemma gm_date_month:
  assumes "gm_date (y, yd) = (Y, M, D)" "0 \<le> yd" "yd \<le> 365"
  shows "if yd \<ge> 306 then M \<le> 2 else 3 \<le> M"
  using assms by (auto simp: gm_date_eq split: if_splits)

lemma day_check:
  assumes "1 \<le> M" "M \<le> 12" "D \<le> days_in Y M"
  shows "\<not> (if D = 29 \<and> nat (M - 1) = 1 then Y mod 4 \<noteq> 0 \<or> (Y mod 100 = 0 \<and> Y mod 400 \<noteq> 0)
            else D > mday ! nat (M - 1))"
proof -
  define n where "n = nat (M - 1)"
  have n: "n < 12" "M = int n + 1" using assms(1,2) by (auto simp: n_def)
  have "mday ! n = (if n = 1 then 28 else if n \<in> {3, 5, 8, 10} then 30 else 31)"
    using less_12_all [OF mday_table n(1)] .
  moreover have "days_in Y M = (if n = 1 then (if gm_leap Y then 29 else 28) else if n \<in> {3, 5, 8, 10} then 30 else 31)"
    unfolding days_in_def n(2) by auto
  ultimately show ?thesis using assms(3) unfolding n_def [symmetric] gm_leap_def by (auto split: if_splits)
qed

lemma pt_time_date:
  assumes "gm_date (y, yd) = (Y, M, D)" "0 \<le> yd" "yd < march_length y" "0 < Y"
    "0 \<le> h" "h \<le> 23" "0 \<le> m" "m \<le> 59" "0 \<le> s" "s \<le> 59"
  shows "pt_time D (nat (M - 1)) Y h m s =
    pt_signed ((gauss_days y + yd - 719468) * 86400 + h * 3600 + m * 60 + s)"
proof -
  define mon where "mon = (yd + 31) * 10 div 306"
  have yd: "yd \<le> 365" using assms(3) by (auto simp: march_length_def split: if_splits)
  have D: "D = yd - (367 * mon div 12 - 30) + 1" and YM: "(Y, M) = (if yd \<ge> 306 then (y + 1, mon - 10) else (y, mon + 2))"
    using assms(1) unfolding gm_date_def mon_def by (auto simp: Let_def split: if_splits)
  note valid = gm_date_valid [OF assms(2,3,1)]
  have month: "(if int (nat (M - 1)) - 1 \<le> 0 then (int (nat (M - 1)) - 1 + 12, if Y = 0 then 2 ^ 64 - 1 else Y - 1)
      else (int (nat (M - 1)) - 1, Y)) = (mon, y)"
    using YM gm_date_month [OF assms(1,2) yd] valid(1) assms(4) by (auto split: if_splits)
  have "\<not> (h > 23 \<or> m > 59 \<or> s > 59)" using assms by auto
  then have "pt_time D (nat (M - 1)) Y h m s = pt_signed
       ((365 * y + y div 4 - y div 100 + y div 400 + 367 * mon div 12 - 30 + D - 1 - 719527 + 31 + 28) * 86400
        + h * 3600 + m * 60 + s)"
    using day_check [OF valid(1,2,4)] unfolding pt_time_def Let_def month by (simp only: if_False prod.case)
  also have "365 * y + y div 4 - y div 100 + y div 400 + 367 * mon div 12 - 30 + D - 1 - 719527 + 31 + 28 =
      gauss_days y + yd - 719468"
    unfolding D gauss_days_def by simp
  finally show ?thesis .
qed

lemma pt_signed_id: "0 \<le> t \<Longrightarrow> t < 2 ^ 63 \<Longrightarrow> pt_signed t = t"
  by (simp add: pt_signed_def)

lemma pt_time_gmtime:
  assumes "0 \<le> t" "t < 253402300800" "0 < tm_year (ngx_gmtime t)"
  shows "pt_time (tm_mday (ngx_gmtime t)) (nat (tm_mon (ngx_gmtime t) - 1)) (tm_year (ngx_gmtime t))
    (tm_hour (ngx_gmtime t)) (tm_min (ngx_gmtime t)) (tm_sec (ngx_gmtime t)) = t"
proof -
  obtain y yd where e: "gm_year (t div 86400 + 719468) = (y, yd)" by fastforce
  note s = gm_year_spec [OF e]
  obtain Y M D where f: "gm_date (y, yd) = (Y, M, D)" by (cases "gm_date (y, yd)") auto
  have tm: "tm_year (ngx_gmtime t) = Y" "tm_mon (ngx_gmtime t) = M" "tm_mday (ngx_gmtime t) = D"
    using tm_date_gmtime [of t] assms e f by (simp_all add: tm_date_def)
  let ?h = "tm_hour (ngx_gmtime t)" and ?m = "tm_min (ngx_gmtime t)" and ?s = "tm_sec (ngx_gmtime t)"
  have clock: "?h * 3600 + ?m * 60 + ?s = t mod 86400"
    using gmtime_clock_sum [of t] assms(1,2) by simp
  have days: "gauss_days y + yd - 719468 = t div 86400" unfolding s(1) [symmetric] by simp
  have "pt_time D (nat (M - 1)) Y ?h ?m ?s =
      pt_signed ((gauss_days y + yd - 719468) * 86400 + ?h * 3600 + ?m * 60 + ?s)"
    using gmtime_fields [of t] assms(3) unfolding tm by (intro pt_time_date [OF f s(2,3)]) auto
  also have "\<dots> = pt_signed (t div 86400 * 86400 + (?h * 3600 + ?m * 60 + ?s))"
    unfolding days by (simp only: add.assoc)
  also have "\<dots> = pt_signed t" unfolding clock by (simp only: div_mult_mod_eq)
  finally show ?thesis unfolding tm using assms(1,2) by (simp add: pt_signed_id)
qed


lemma gmtime_year:
  assumes "0 \<le> t" "t < 253402300800"
  shows "1970 \<le> tm_year (ngx_gmtime t)" "tm_year (ngx_gmtime t) \<le> 9999"
proof -
  define d where "d = t div 86400"
  have "0 \<le> d" "d < 2932897"
    using assms unfolding d_def by (simp_all add: pos_imp_zdiv_nonneg_iff div_less_iff_less_mult)
  then have d: "0 \<le> d" "d \<le> 2932896" by simp_all
  obtain y yd where e: "gm_year (d + 719468) = (y, yd)" by fastforce
  note s = gm_year_spec [OF e]
  have num: "gauss_days 9999 = 3652059" "gauss_days 1969 = 719162" "march_length 9999 \<ge> 365"
    by (simp_all add: gauss_days_def march_length_def)
  have "\<not> 9999 < y" using gauss_days_mono [of 9999 y] s num d by linarith
  moreover have "\<not> y < 1969" using gauss_days_mono [of y 1969] s num d by linarith
  moreover have "y = 9999 \<longrightarrow> yd \<le> 305" "y = 1969 \<longrightarrow> 306 \<le> yd" using s num d by auto
  moreover have "tm_year (ngx_gmtime t) = (if yd \<ge> 306 then y + 1 else y)"
    using tm_date_gmtime [of t] assms e unfolding d_def [symmetric] by (auto simp: tm_date_def gm_date_def Let_def split: if_splits)
  ultimately show "1970 \<le> tm_year (ngx_gmtime t)" "tm_year (ngx_gmtime t) \<le> 9999" by auto
qed

lemma pt_find_name:
  "list_all (\<lambda>x. x \<noteq> asc CHR '','' \<and> x \<noteq> SP) xs \<Longrightarrow> pt_find (xs @ asc CHR '','' # ys) = (length xs, False)"
  by (induction xs) auto

text \<open>The beginning of both formats: name of the day, comma, space, day.\<close>

lemma parse_time_day:
  assumes "v = w @ [asc CHR '','', SP, dig (n div 10), dig (n mod 10), c] @ rest" "length w = 3"
    "list_all (\<lambda>x. x \<noteq> asc CHR '','' \<and> x \<noteq> SP) w" "0 \<le> n" "n < 100" "17 \<le> length rest"
  shows "ngx_http_parse_time v =
    (if c = SP then (if length v < 25 then pt_error else pt_body v pt_rfc822 n 8)
     else if c = asc CHR ''-'' then pt_body v pt_rfc850 n 8 else pt_error)"
proof -
  obtain x y z where w: "w = [x, y, z]" using assms(2) by (auto simp: length_numeral_iff)
  have f: "pt_find v = (3, False)"
    using pt_find_name [OF assms(3), of "[SP, dig (n div 10), dig (n mod 10), c] @ rest"] assms(1,2) by simp
  have "dig (n div 10) \<noteq> SP"
    using assms(4,5) by (intro dig_not_SP) (simp_all add: pos_imp_zdiv_nonneg_iff)
  then have p: "3 + 1 + length (takeWhile (\<lambda>c. c = SP) (drop (3 + 1) v)) = 5"
    using assms(1) w by simp
  have l: "length v = 8 + length rest" using assms(1) w by simp
  have "pt_two v 5 k = k n" for k
    by (rule pt_two_dig [of 6]) (use assms(1,4-6) w in simp_all)
  moreover have "v ! (5 + 2) = c" using assms(1) w by simp
  ultimately show ?thesis
    using assms(6) l unfolding ngx_http_parse_time_def f prod.case Let_def p pt_read_def by simp
qed

lemma fmt_clock_dig:
  "fmt_clock (ngx_gmtime t) =
    [dig (tm_hour (ngx_gmtime t) div 10), dig (tm_hour (ngx_gmtime t) mod 10), asc CHR '':'',
     dig (tm_min (ngx_gmtime t) div 10), dig (tm_min (ngx_gmtime t) mod 10), asc CHR '':'',
     dig (tm_sec (ngx_gmtime t) div 10), dig (tm_sec (ngx_gmtime t) mod 10)] @ bytes '' GMT''"
  using gmtime_fields [of t] unfolding fmt_clock_def by (simp add: fmt_two [simplified])

lemma parse_http_time:
  assumes "0 \<le> t" "t < 253402300800"
  shows "ngx_http_parse_time (ngx_http_time t) = Some t"
proof -
  define tm where "tm = ngx_gmtime t"
  note r = gmtime_fields [of t, folded tm_def] gmtime_month [of t, folded tm_def] and y = gmtime_year [OF assms, folded tm_def]
  have D: "0 \<le> tm_mday tm" "tm_mday tm < 100" using r by linarith+
  obtain a b c where w: "bytes (week ! nat (tm_wday tm)) = [a, b, c]"
    "list_all (\<lambda>x. x \<noteq> asc CHR '','' \<and> x \<noteq> SP) [a, b, c]"
    using r by (elim week_name [of "nat (tm_wday tm)", rotated]) auto
  obtain d e f where m: "bytes (months ! nat (tm_mon tm - 1)) = [d, e, f]" "pt_month_no d e f = Some (nat (tm_mon tm - 1))"
    using r by (elim month_name [of "nat (tm_mon tm - 1)", rotated]) auto
  define rest where "rest = [d, e, f, SP, dig (tm_year tm div 10 div 10 div 10), dig (tm_year tm div 10 div 10 mod 10),
      dig (tm_year tm div 10 mod 10), dig (tm_year tm mod 10), SP] @ fmt_clock tm"
  define v where "v = [a, b, c] @ [asc CHR '','', SP, dig (tm_mday tm div 10), dig (tm_mday tm mod 10), SP] @ rest"
  have v: "ngx_http_time t = v"
    unfolding v_def rest_def ngx_http_time_def tm_def [symmetric] Let_def w m
    using D y by (simp add: fmt_two [simplified] fmt_four)
  have vl: "v = [a, b, c, 44, SP, dig (tm_mday tm div 10), dig (tm_mday tm mod 10), SP,
      d, e, f, SP, dig (tm_year tm div 10 div 10 div 10), dig (tm_year tm div 10 div 10 mod 10),
      dig (tm_year tm div 10 mod 10), dig (tm_year tm mod 10), SP,
      dig (tm_hour tm div 10), dig (tm_hour tm mod 10), 58, dig (tm_min tm div 10), dig (tm_min tm mod 10), 58,
      dig (tm_sec tm div 10), dig (tm_sec tm mod 10), SP, 71, 77, 84]"
    unfolding v_def rest_def tm_def fmt_clock_dig by simp
  have "length rest = 21" unfolding rest_def tm_def fmt_clock_dig by simp
  then have "ngx_http_parse_time v = pt_body v pt_rfc822 (tm_mday tm) 8"
    using parse_time_day [OF v_def _ w(2) D] vl by simp
  also have "\<dots> = Some (pt_time (tm_mday tm) (nat (tm_mon tm - 1)) (tm_year tm) (tm_hour tm) (tm_min tm) (tm_sec tm))"
  proof -
    have "pt_month v 8 k = k (nat (tm_mon tm - 1))" for k
      using pt_month_eq [of 8 v k] m(2) by (simp add: vl)
    moreover have "pt_four v (8 + 4) k = k (tm_year tm)" for k
      by (rule pt_four_dig) (use y in \<open>simp_all add: vl\<close>)
    moreover have "pt_clock v (8 + 8) k = k (tm_hour tm) (tm_min tm) (tm_sec tm)" for k
      by (rule pt_clock_dig) (use r in \<open>simp_all add: vl\<close>)
    moreover have "pt_char v (8 + 3) SP k = k" for k by (simp add: pt_char_def pt_read_def vl)
    ultimately show ?thesis unfolding pt_body_def by simp
  qed
  also have "\<dots> = Some t" using pt_time_gmtime [of t] assms y unfolding tm_def by simp
  finally show ?thesis unfolding v .
qed


lemma gmtime_year_cookie:
  assumes "0 \<le> t" "t < 2145916800"
  shows "tm_year (ngx_gmtime t) \<le> 2037"
proof -
  define d where "d = t div 86400"
  have "d < 24837" using assms unfolding d_def by (simp_all add: div_less_iff_less_mult)
  then have d: "d \<le> 24836" by simp
  obtain y yd where e: "gm_year (d + 719468) = (y, yd)" by fastforce
  note s = gm_year_spec [OF e]
  have num: "gauss_days 2037 = 743999" "march_length 2037 \<ge> 365"
    by (simp_all add: gauss_days_def march_length_def)
  have "\<not> 2037 < y" using gauss_days_mono [of 2037 y] s num d by linarith
  moreover have "y = 2037 \<longrightarrow> yd \<le> 305" using s num d by auto
  moreover have "tm_year (ngx_gmtime t) = (if yd \<ge> 306 then y + 1 else y)"
    using tm_date_gmtime [of t] assms e unfolding d_def [symmetric] by (auto simp: tm_date_def gm_date_def Let_def split: if_splits)
  ultimately show ?thesis by auto
qed

lemma gmtime_year_late:
  assumes "2145916800 \<le> t" "t < 253402300800"
  shows "2038 \<le> tm_year (ngx_gmtime t)"
proof -
  define d where "d = t div 86400"
  have d: "24837 \<le> d" using assms(1) unfolding d_def by (simp add: less_eq_div_iff_mult_less_eq)
  obtain y yd where e: "gm_year (d + 719468) = (y, yd)" by fastforce
  note s = gm_year_spec [OF e]
  have num: "gauss_days 2037 = 743999" by (simp add: gauss_days_def)
  have "\<not> y < 2037" using gauss_days_mono [of y 2037] s num d by linarith
  moreover have "y = 2037 \<longrightarrow> 306 \<le> yd" using s num d by auto
  moreover have "tm_year (ngx_gmtime t) = (if yd \<ge> 306 then y + 1 else y)"
    using tm_date_gmtime [of t] assms e unfolding d_def [symmetric] by (auto simp: tm_date_def gm_date_def Let_def split: if_splits)
  ultimately show ?thesis by auto
qed

lemma cookie_year:
  fixes Y :: int
  assumes "1970 \<le> Y" "Y \<le> 2037"
  shows "Y mod 100 + (if Y mod 100 < 70 then 2000 else 1900) = Y"
proof (cases "Y < 2000")
  case True
  then have "Y mod 100 = Y - 1900" using assms by (intro int_mod_pos_eq [where q = 19]) auto
  then show ?thesis using assms True by simp
next
  case False
  then have "Y mod 100 = Y - 2000" using assms by (intro int_mod_pos_eq [where q = 20]) auto
  then show ?thesis using assms False by simp
qed

lemma parse_cookie_time:
  assumes "0 \<le> t" "t < 2145916800"
  shows "ngx_http_parse_time (ngx_http_cookie_time t) = Some t"
proof -
  define tm where "tm = ngx_gmtime t"
  have "1970 \<le> tm_year tm" using assms by (auto simp: tm_def intro: gmtime_year)
  note r = gmtime_fields [of t, folded tm_def] gmtime_month [of t, folded tm_def]
    and y = \<open>1970 \<le> tm_year tm\<close> gmtime_year_cookie [OF assms, folded tm_def]
  define Y where "Y = tm_year tm mod 100"
  have Y: "0 \<le> Y" "Y < 100" by (simp_all add: Y_def)
  have rem: "c_rem (tm_year tm) 100 = Y" using y(1) by (simp add: c_rem_def Y_def)
  have D: "0 \<le> tm_mday tm" "tm_mday tm < 100" using r by linarith+
  obtain a b c where w: "bytes (week ! nat (tm_wday tm)) = [a, b, c]"
    "list_all (\<lambda>x. x \<noteq> asc CHR '','' \<and> x \<noteq> SP) [a, b, c]"
    using r by (elim week_name [of "nat (tm_wday tm)", rotated]) auto
  obtain d e f where m: "bytes (months ! nat (tm_mon tm - 1)) = [d, e, f]" "pt_month_no d e f = Some (nat (tm_mon tm - 1))"
    using r by (elim month_name [of "nat (tm_mon tm - 1)", rotated]) auto
  define rest where "rest = [d, e, f, 45, dig (Y div 10), dig (Y mod 10), SP] @ fmt_clock tm"
  define v where "v = [a, b, c] @ [asc CHR '','', SP, dig (tm_mday tm div 10), dig (tm_mday tm mod 10), 45] @ rest"
  have "\<not> 2037 < tm_year tm" using y by simp
  then have v: "ngx_http_cookie_time t = v"
    unfolding v_def rest_def ngx_http_cookie_time_def tm_def [symmetric] Let_def w m rem
    using D Y by (simp add: fmt_two [simplified])
  have vl: "v = [a, b, c, 44, SP, dig (tm_mday tm div 10), dig (tm_mday tm mod 10), 45,
      d, e, f, 45, dig (Y div 10), dig (Y mod 10), SP,
      dig (tm_hour tm div 10), dig (tm_hour tm mod 10), 58, dig (tm_min tm div 10), dig (tm_min tm mod 10), 58,
      dig (tm_sec tm div 10), dig (tm_sec tm mod 10), SP, 71, 77, 84]"
    unfolding v_def rest_def tm_def fmt_clock_dig by simp
  have "length rest = 19" unfolding rest_def tm_def fmt_clock_dig by simp
  then have "ngx_http_parse_time v = pt_body v pt_rfc850 (tm_mday tm) 8"
    using parse_time_day [OF v_def _ w(2) D] by simp
  also have "\<dots> = Some (pt_time (tm_mday tm) (nat (tm_mon tm - 1)) (tm_year tm) (tm_hour tm) (tm_min tm) (tm_sec tm))"
  proof -
    have "pt_month v 8 k = k (nat (tm_mon tm - 1))" for k
      using pt_month_eq [of 8 v k] m(2) by (simp add: vl)
    moreover have "pt_two v (8 + 4) k = k Y" for k
      by (rule pt_two_dig [of 13]) (use Y in \<open>simp_all add: vl\<close>)
    moreover have "pt_clock v (8 + 6) k = k (tm_hour tm) (tm_min tm) (tm_sec tm)" for k
      by (rule pt_clock_dig) (use r in \<open>simp_all add: vl\<close>)
    moreover have "pt_char v (8 + 3) (asc CHR ''-'') k = k" for k by (simp add: pt_char_def pt_read_def vl)
    moreover have "Y + (if Y < 70 then 2000 else 1900) = tm_year tm" unfolding Y_def using y by (rule cookie_year)
    ultimately show ?thesis unfolding pt_body_def Let_def by simp
  qed
  also have "\<dots> = Some t" using pt_time_gmtime [of t] assms y unfolding tm_def by simp
  finally show ?thesis unfolding v .
qed

lemma fmt_four_zero:
  assumes "1000 \<le> n" "n < 10000"
  shows "fmt_num SP 0 n = fmt_num SP 4 n"
proof -
  have l: "10 \<le> k \<Longrightarrow> length (dec_digits k) = Suc (length (dec_digits (k div 10)))" for k
    by (simp add: dec_digits_snoc [of k])
  have q: "10 \<le> nat n" "10 \<le> nat n div 10" "10 \<le> nat n div 10 div 10"
    using assms by (simp_all add: less_eq_div_iff_mult_less_eq)
  have "0 < length (dec_digits k)" for k by (simp add: dec_digits.simps [of k])
  then have "4 \<le> length (dec_digits (nat n))"
    unfolding l [OF q(1)] l [OF q(2)] l [OF q(3)] by (simp add: Suc_le_eq)
  then show ?thesis using assms by (simp add: fmt_num_dec)
qed

text \<open>A year of four digits after a hyphen: the clock begins two bytes too late.\<close>

lemma parse_cookie_time_late:
  assumes "2145916800 \<le> t" "t < 253402300800"
  shows "ngx_http_parse_time (ngx_http_cookie_time t) = pt_error"
proof -
  have t: "0 \<le> t" using assms(1) by simp
  define tm where "tm = ngx_gmtime t"
  note r = gmtime_fields [of t, folded tm_def] gmtime_month [of t, folded tm_def]
    and y = gmtime_year_late [OF assms(1,2), folded tm_def] gmtime_year(2) [OF t assms(2), folded tm_def]
  have D: "0 \<le> tm_mday tm" "tm_mday tm < 100" using r by linarith+
  obtain a b c where w: "bytes (week ! nat (tm_wday tm)) = [a, b, c]"
    "list_all (\<lambda>x. x \<noteq> asc CHR '','' \<and> x \<noteq> SP) [a, b, c]"
    using r by (elim week_name [of "nat (tm_wday tm)", rotated]) auto
  obtain d e f where m: "bytes (months ! nat (tm_mon tm - 1)) = [d, e, f]" "pt_month_no d e f = Some (nat (tm_mon tm - 1))"
    using r by (elim month_name [of "nat (tm_mon tm - 1)", rotated]) auto
  define h where "h = tm_year tm div 10 div 10"
  define rest where "rest = [d, e, f, 45, dig (h div 10), dig (h mod 10),
      dig (tm_year tm div 10 mod 10), dig (tm_year tm mod 10), SP] @ fmt_clock tm"
  define v where "v = [a, b, c] @ [asc CHR '','', SP, dig (tm_mday tm div 10), dig (tm_mday tm mod 10), 45] @ rest"
  have v: "ngx_http_cookie_time t = v"
    unfolding v_def rest_def ngx_http_cookie_time_def tm_def [symmetric] Let_def w m h_def
    using D y by (simp add: fmt_two [simplified] fmt_four_zero fmt_four)
  have l: "length rest = 21" unfolding rest_def tm_def fmt_clock_dig by simp
  have vl: "8 + 6 < length v" "v ! 8 = d" "v ! 9 = e" "v ! 10 = f" "v ! 11 = 45" "v ! 12 = dig (h div 10)"
    "v ! 13 = dig (h mod 10)" "v ! (8 + 6) = dig (tm_year tm div 10 mod 10)"
    using l by (simp_all add: v_def) (simp_all add: rest_def)
  have h: "0 \<le> h" "h < 100" using y by (simp_all add: h_def pos_imp_zdiv_nonneg_iff)
  have "ngx_http_parse_time v = pt_body v pt_rfc850 (tm_mday tm) 8"
    using parse_time_day [OF v_def _ w(2) D] l by simp
  also have "\<dots> = pt_error"
  proof -
    have "pt_month v 8 k = k (nat (tm_mon tm - 1))" for k
      using pt_month_eq [of 8 v k] m(2) vl by simp
    moreover have "pt_two v (8 + 4) k = k h" for k
      by (rule pt_two_dig [of 13]) (use h vl in simp_all)
    moreover have "pt_clock v (8 + 6) k = pt_error" for k
    proof -
      have "v ! (8 + 6) \<noteq> SP" unfolding vl(8) by (intro dig_not_SP) simp_all
      then show ?thesis using vl(1) by (simp add: pt_clock_def pt_char_def pt_read_def)
    qed
    moreover have "pt_char v (8 + 3) (asc CHR ''-'') k = k" for k using vl by (simp add: pt_char_def pt_read_def)
    ultimately show ?thesis unfolding pt_body_def Let_def by simp
  qed
  finally show ?thesis unfolding v .
qed

text \<open>
  C21. A date printed by \<open>ngx_http_time\<close> is read back by \<open>ngx_http_parse_time\<close> as the same time, from 1970 to
  the end of the year 9999; one printed by \<open>ngx_http_cookie_time\<close> is from 1970 to the end of the year
  2037.  From 2038 on (shown to the end of the year 9999) a cookie date has a year of four digits after
  a hyphen, and the parser answers \<open>NGX_ERROR\<close>.
\<close>

theorem http_time_roundtrip:
  assumes "0 \<le> t"
  shows "(t < 253402300800 \<longrightarrow> ngx_http_parse_time (ngx_http_time t) = Some t) \<and>
    (t < 2145916800 \<longrightarrow> ngx_http_parse_time (ngx_http_cookie_time t) = Some t) \<and>
    (2145916800 \<le> t \<and> t < 253402300800 \<longrightarrow> ngx_http_parse_time (ngx_http_cookie_time t) = Some (- 1))"
  using assms by (simp add: parse_http_time parse_cookie_time parse_cookie_time_late)

theorem http_time_roundtrip_witness:
  "ngx_http_parse_time (ngx_http_time 1325376000) = Some 1325376000 \<and>
   ngx_http_parse_time (ngx_http_cookie_time 1325376000) = Some 1325376000 \<and>
   ngx_http_parse_time (ngx_http_cookie_time 2145916800) = Some (- 1)"
  using http_time_roundtrip [of 1325376000] http_time_roundtrip [of 2145916800] by simp

section \<open>The parser stays inside the value\<close>

text \<open>The reads succeed.\<close>

definition pt_ok :: "int option \<Rightarrow> bool" where
  "pt_ok r \<longleftrightarrow> r \<noteq> None"

lemma pt_ok_Some [simp]: "pt_ok (Some r)"
  by (simp add: pt_ok_def)

lemma pt_read_some: "p < length v \<Longrightarrow> (\<And>c. pt_ok (k c)) \<Longrightarrow> pt_ok (pt_read v p k)"
  by (simp add: pt_read_def)

lemma pt_digit_some: "p < length v \<Longrightarrow> (\<And>c. pt_ok (k c)) \<Longrightarrow> pt_ok (pt_digit v p n k)"
  unfolding pt_digit_def by (rule pt_read_some) auto

lemma pt_char_some: "p < length v \<Longrightarrow> pt_ok k \<Longrightarrow> pt_ok (pt_char v p c k)"
  unfolding pt_char_def by (rule pt_read_some) auto

lemma pt_two_some: "p + 1 < length v \<Longrightarrow> (\<And>c. pt_ok (k c)) \<Longrightarrow> pt_ok (pt_two v p k)"
  unfolding pt_two_def by (intro pt_digit_some) auto

lemma pt_four_some: "p + 3 < length v \<Longrightarrow> (\<And>c. pt_ok (k c)) \<Longrightarrow> pt_ok (pt_four v p k)"
  unfolding pt_four_def by (intro pt_digit_some) auto

lemma pt_month_some: "p + 2 < length v \<Longrightarrow> (\<And>c. pt_ok (k c)) \<Longrightarrow> pt_ok (pt_month v p k)"
  by (simp add: pt_month_eq split: option.split)

lemma pt_clock_some: "p + 8 < length v \<Longrightarrow> (\<And>h m s. pt_ok (k h m s)) \<Longrightarrow> pt_ok (pt_clock v p k)"
  unfolding pt_clock_def by (intro pt_char_some pt_two_some) auto

lemma pt_isoc_day_some:
  assumes "p + 3 < length v" "\<And>d q. q + 14 \<le> length v \<Longrightarrow> pt_ok (k d q)"
  shows "pt_ok (pt_isoc_day v p k)"
  unfolding pt_isoc_day_def Let_def
  using assms(1) by (intro pt_read_some pt_digit_some) (auto intro!: pt_digit_some assms(2))

lemmas pt_some = pt_read_some pt_char_some pt_two_some pt_four_some pt_month_some pt_clock_some pt_isoc_day_some

lemma pt_body_some:
  "(case fmt of pt_rfc822 \<Rightarrow> p + 17 | pt_rfc850 \<Rightarrow> p + 15 | pt_isoc \<Rightarrow> p + 18) \<le> length v \<Longrightarrow> pt_ok (pt_body v fmt day p)"
  unfolding pt_body_def
  by (cases fmt) (simp_all add: Let_def pt_some)

text \<open>
  \<open>ngx_http_parse_time\<close> returns on every value and reads no byte outside of it, whatever the
  value holds and however short it is.
\<close>

theorem parse_time_total:
  "\<exists>r. ngx_http_parse_time v = Some r"
proof -
  obtain n sp where f: "pt_find v = (n, sp)" by (cases "pt_find v")
  have "pt_ok (ngx_http_parse_time v)"
    unfolding ngx_http_parse_time_def f Let_def
    by (auto intro!: pt_two_some pt_read_some pt_body_some)
  then show ?thesis by (simp add: pt_ok_def)
qed

end
