(* ===== verification/Ngx_Queue.thy ===== *)
theory Ngx_Queue
  imports Ngx_Prelude "HOL-Library.Multiset"
begin

text \<open>
  The circular doubly linked queues of \<^verbatim>\<open>src/core/ngx_queue.h\<close> and \<^verbatim>\<open>src/core/ngx_queue.c\<close>: the macros
  and the functions \<open>ngx_queue_middle\<close> and \<open>ngx_queue_sort\<close>, on a memory of links.

  Shown: on any number of disjoint queues every sequence of operations keeps the links of all of
  them consistent and refines the operations on lists (proved in the locale \<open>linked_queues\<close> from the
  laws of the single operations); the middle element is found; the sort ends for every comparison and
  is a stable sort for a total preorder.
\<close>

section \<open>The structure and its macros\<close>

text \<open>\<open>ngx_queue_t\<close>: the links embedded in an element; an element is named by the address of its links.\<close>

record ngx_queue =
  q_prev :: ptr
  q_next :: ptr

text \<open>The memory: the links at every address.  \<open>set_prev p v\<close> is \<open>p->prev = v\<close>.\<close>

type_synonym qheap = "ptr \<Rightarrow> ngx_queue"

definition set_prev :: "ptr \<Rightarrow> ptr \<Rightarrow> qheap \<Rightarrow> qheap" where
  "set_prev p v H = H(p := (H p)\<lparr>q_prev := v\<rparr>)"

definition set_next :: "ptr \<Rightarrow> ptr \<Rightarrow> qheap \<Rightarrow> qheap" where
  "set_next p v H = H(p := (H p)\<lparr>q_next := v\<rparr>)"

text \<open>The macros of \<^verbatim>\<open>src/core/ngx_queue.h\<close>, one assignment per line, in their order;
  \<open>ngx_queue_remove\<close> is the version without \<open>NGX_DEBUG\<close>.\<close>

definition ngx_queue_init :: "ptr \<Rightarrow> qheap \<Rightarrow> qheap" where
  "ngx_queue_init q H =
    (let H = set_prev q q H in
     set_next q q H)"

definition ngx_queue_empty :: "qheap \<Rightarrow> ptr \<Rightarrow> bool" where
  "ngx_queue_empty H h \<longleftrightarrow> h = q_prev (H h)"

definition ngx_queue_insert_head :: "ptr \<Rightarrow> ptr \<Rightarrow> qheap \<Rightarrow> qheap" where
  "ngx_queue_insert_head h x H =
    (let H = set_next x (q_next (H h)) H;
         H = set_prev (q_next (H x)) x H;
         H = set_prev x h H in
     set_next h x H)"

abbreviation ngx_queue_insert_after :: "ptr \<Rightarrow> ptr \<Rightarrow> qheap \<Rightarrow> qheap" where
  "ngx_queue_insert_after \<equiv> ngx_queue_insert_head"

definition ngx_queue_insert_tail :: "ptr \<Rightarrow> ptr \<Rightarrow> qheap \<Rightarrow> qheap" where
  "ngx_queue_insert_tail h x H =
    (let H = set_prev x (q_prev (H h)) H;
         H = set_next (q_prev (H x)) x H;
         H = set_next x h H in
     set_prev h x H)"

abbreviation ngx_queue_head :: "qheap \<Rightarrow> ptr \<Rightarrow> ptr" where
  "ngx_queue_head H h \<equiv> q_next (H h)"

abbreviation ngx_queue_last :: "qheap \<Rightarrow> ptr \<Rightarrow> ptr" where
  "ngx_queue_last H h \<equiv> q_prev (H h)"

abbreviation (input) ngx_queue_sentinel :: "ptr \<Rightarrow> ptr" where
  "ngx_queue_sentinel h \<equiv> h"

definition ngx_queue_remove :: "ptr \<Rightarrow> qheap \<Rightarrow> qheap" where
  "ngx_queue_remove x H =
    (let H = set_prev (q_next (H x)) (q_prev (H x)) H in
     set_next (q_prev (H x)) (q_next (H x)) H)"

definition ngx_queue_split :: "ptr \<Rightarrow> ptr \<Rightarrow> ptr \<Rightarrow> qheap \<Rightarrow> qheap" where
  "ngx_queue_split h q n H =
    (let H = set_prev n (q_prev (H h)) H;
         H = set_next (q_prev (H n)) n H;
         H = set_next n q H;
         H = set_prev h (q_prev (H q)) H;
         H = set_next (q_prev (H h)) h H in
     set_prev q n H)"

definition ngx_queue_add :: "ptr \<Rightarrow> ptr \<Rightarrow> qheap \<Rightarrow> qheap" where
  "ngx_queue_add h n H =
    (let H = set_next (q_prev (H h)) (q_next (H n)) H;
         H = set_prev (q_next (H n)) (q_prev (H h)) H;
         H = set_prev h (q_prev (H n)) H in
     set_next (q_prev (H h)) h H)"

text \<open>\<open>ngx_queue_middle\<close>: the loop \<open>for ( ;; )\<close>; \<open>None\<close> is a loop that does not end.\<close>

partial_function (option) middle_loop :: "qheap \<Rightarrow> ptr \<Rightarrow> ptr \<Rightarrow> ptr \<Rightarrow> ptr option" where
  "middle_loop H queue middle nxt =
    (let middle = q_next (H middle);
         nxt = q_next (H nxt) in
     if nxt = ngx_queue_last H queue then Some middle
     else
       let nxt = q_next (H nxt) in
       if nxt = ngx_queue_last H queue then Some middle
       else middle_loop H queue middle nxt)"

definition ngx_queue_middle :: "qheap \<Rightarrow> ptr \<Rightarrow> ptr option" where
  "ngx_queue_middle H queue =
    (let middle = ngx_queue_head H queue in
     if middle = ngx_queue_last H queue then Some middle
     else middle_loop H queue middle (ngx_queue_head H queue))"

text \<open>\<open>ngx_queue_sort\<close>: the inner \<open>do ... while\<close> loop, which walks back from \<open>prev\<close>, and the outer
  \<open>for\<close> loop.  \<open>cmp\<close> is the parameter of the C function; it reads the elements, not their links.\<close>

partial_function (option) sort_back ::
  "(ptr \<Rightarrow> ptr \<Rightarrow> int) \<Rightarrow> qheap \<Rightarrow> ptr \<Rightarrow> ptr \<Rightarrow> ptr \<Rightarrow> ptr option" where
  "sort_back cmp H queue q prv =
    (if cmp prv q \<le> 0 then Some prv
     else
       let prv = q_prev (H prv) in
       if prv \<noteq> ngx_queue_sentinel queue then sort_back cmp H queue q prv else Some prv)"

partial_function (option) sort_loop ::
  "(ptr \<Rightarrow> ptr \<Rightarrow> int) \<Rightarrow> ptr \<Rightarrow> ptr \<Rightarrow> qheap \<Rightarrow> qheap option" where
  "sort_loop cmp queue q H =
    (if q = ngx_queue_sentinel queue then Some H
     else
       let prv = q_prev (H q);
           nxt = q_next (H q);
           H = ngx_queue_remove q H in
       Option.bind (sort_back cmp H queue q prv)
         (\<lambda>prv. sort_loop cmp queue nxt (ngx_queue_insert_after prv q H)))"

definition ngx_queue_sort :: "ptr \<Rightarrow> (ptr \<Rightarrow> ptr \<Rightarrow> int) \<Rightarrow> qheap \<Rightarrow> qheap option" where
  "ngx_queue_sort queue cmp H =
    (let q = ngx_queue_head H queue in
     if q = ngx_queue_last H queue then Some H
     else sort_loop cmp queue (q_next (H q)) H)"

declare middle_loop.simps [code] sort_back.simps [code] sort_loop.simps [code]

section \<open>The list a queue holds\<close>

text \<open>\<open>chain H zs\<close>: each address of \<open>zs\<close> and the next one point to each other; a queue is the
  chain from its head through its elements back to the head.\<close>

definition lnk :: "qheap \<Rightarrow> ptr \<Rightarrow> ptr \<Rightarrow> bool" where
  "lnk H a b \<longleftrightarrow> q_next (H a) = b \<and> q_prev (H b) = a"

fun chain :: "qheap \<Rightarrow> ptr list \<Rightarrow> bool" where
  "chain H (a # b # zs) \<longleftrightarrow> lnk H a b \<and> chain H (b # zs)"
| "chain H _ \<longleftrightarrow> True"

definition queue :: "qheap \<Rightarrow> ptr \<Rightarrow> ptr list \<Rightarrow> bool" where
  "queue H h xs \<longleftrightarrow> chain H (h # xs @ [h]) \<and> distinct (h # xs)"

lemma set_link_simps [simp]:
  "q_next (set_next p v H a) = (if a = p then v else q_next (H a))"
  "q_prev (set_next p v H a) = q_prev (H a)"
  "q_next (set_prev p v H a) = q_next (H a)"
  "q_prev (set_prev p v H a) = (if a = p then v else q_prev (H a))"
  by (auto simp: set_next_def set_prev_def)

lemma chain_append:
  "chain H (us @ vs) \<longleftrightarrow>
    chain H us \<and> chain H vs \<and> (us = [] \<or> vs = [] \<or> lnk H (last us) (hd vs))"
proof (induction us rule: induct_list012)
  case (2 a) then show ?case by (cases vs) auto
next
  case (3 a b us) then show ?case by simp
qed auto

lemma chain_set_next:
  "p \<notin> set (butlast zs) \<Longrightarrow> chain (set_next p v H) zs = chain H zs"
  by (induction zs rule: induct_list012) (auto simp: lnk_def)

lemma chain_set_prev:
  "p \<notin> set (tl zs) \<Longrightarrow> chain (set_prev p v H) zs = chain H zs"
  by (induction zs rule: induct_list012) (auto simp: lnk_def)

lemmas chain_frame = chain_set_next chain_set_prev

lemma queue_cut:
  "queue H h (xs @ ys) \<longleftrightarrow>
    chain H (h # xs) \<and> chain H (ys @ [h]) \<and> lnk H (last (h # xs)) (hd (ys @ [h])) \<and>
    distinct (h # xs @ ys)"
  using chain_append [of H "h # xs" "ys @ [h]"] by (auto simp: queue_def)

lemma queue_cut2:
  "queue H h (xs @ x # ys) \<longleftrightarrow>
    chain H (h # xs) \<and> chain H (ys @ [h]) \<and> lnk H (last (h # xs)) x \<and>
    lnk H x (hd (ys @ [h])) \<and> distinct (h # xs @ x # ys)"
  using queue_cut [of H h xs "x # ys"] chain_append [of H "[x]" "ys @ [h]"] by auto

lemma hd_snoc_notin: "distinct (h # ys) \<Longrightarrow> hd (ys @ [h]) \<notin> set (tl (ys @ [h]))"
  by (cases ys) auto

lemma last_Cons_notin: "distinct (h # xs) \<Longrightarrow> last (h # xs) \<notin> set (butlast (h # xs))"
  by (cases xs rule: rev_cases) auto

lemma hd_snoc_in: "hd (ys @ [h]) \<in> set ys \<or> hd (ys @ [h]) = h"
  by (cases ys) auto

lemma last_Cons_in: "last (h # xs) \<in> set xs \<or> last (h # xs) = h"
  by auto

lemma seam:
  assumes "distinct (h # xs @ ys)"
  shows "hd (ys @ [h]) \<notin> set (tl (ys @ [h]))" "hd (ys @ [h]) \<notin> set xs"
    "last (h # xs) \<notin> set (butlast (h # xs))" "last (h # xs) \<notin> set ys"
  using assms hd_snoc_notin [of h ys] last_Cons_notin [of h xs] hd_snoc_in [of ys h] last_Cons_in [of h xs]
  by auto

lemma queue_next: "queue H h (xs @ x # ys) \<Longrightarrow> q_next (H x) = hd (ys @ [h])"
  by (simp add: queue_cut2 lnk_def)

lemma queue_prev: "queue H h (xs @ x # ys) \<Longrightarrow> q_prev (H x) = last (h # xs)"
  by (simp add: queue_cut2 lnk_def)

lemma queue_head: "queue H h xs \<Longrightarrow> q_next (H h) = hd (xs @ [h])"
  using queue_cut [of H h "[]" xs] by (simp add: lnk_def)

lemma queue_last: "queue H h xs \<Longrightarrow> q_prev (H h) = last (h # xs)"
  using queue_cut [of H h xs "[]"] by (simp add: lnk_def)

lemma queue_init: "queue (ngx_queue_init q H) q []"
  by (simp add: queue_def ngx_queue_init_def lnk_def)

lemma queue_empty_iff: "queue H h xs \<Longrightarrow> ngx_queue_empty H h \<longleftrightarrow> xs = []"
  using queue_last [of H h xs] unfolding ngx_queue_empty_def queue_def
  by (cases xs rule: rev_cases) auto

lemma queue_insert_after:
  assumes q: "queue H h (xs @ ys)" and x: "x \<notin> set (h # xs @ ys)"
  shows "queue (ngx_queue_insert_after (last (h # xs)) x H) h (xs @ x # ys)"
proof -
  let ?p = "last (h # xs)" and ?n = "hd (ys @ [h])"
  have d: "distinct (h # xs @ ys)" and n: "q_next (H ?p) = ?n"
    using q by (simp_all add: queue_cut lnk_def)
  note s = seam [OF d]
  have px: "x \<noteq> ?p" "x \<noteq> ?n" using x hd_snoc_in [of ys h] last_Cons_in [of h xs] by auto
  have H': "ngx_queue_insert_after ?p x H = set_next ?p x (set_prev x ?p (set_prev ?n x (set_next x ?n H)))"
    by (simp add: ngx_queue_insert_head_def Let_def n del: last.simps)
  have xb: "x \<notin> set (butlast (h # xs))" using x by (auto dest!: in_set_butlastD split: if_splits)
  have "chain (ngx_queue_insert_after ?p x H) (h # xs)"
    unfolding H' using q s x xb by (simp add: chain_frame queue_cut del: butlast.simps last.simps)
  moreover have "chain (ngx_queue_insert_after ?p x H) (ys @ [h])"
  proof -
    have "x \<notin> set (tl (ys @ [h]))" using x by (cases ys) auto
    then show ?thesis unfolding H'
      using q s x by (simp add: chain_frame queue_cut del: last.simps)
  qed
  ultimately show ?thesis
    unfolding queue_cut2 H' using px d x by (simp add: lnk_def del: last.simps)
qed

lemma queue_insert_head:
  "queue H h xs \<Longrightarrow> x \<notin> set (h # xs) \<Longrightarrow> queue (ngx_queue_insert_head h x H) h (x # xs)"
  using queue_insert_after [of H h "[]" xs x] by simp

lemma queue_insert_tail:
  assumes q: "queue H h xs" and x: "x \<notin> set (h # xs)"
  shows "queue (ngx_queue_insert_tail h x H) h (xs @ [x])"
proof -
  let ?p = "last (h # xs)"
  have d: "distinct (h # xs)" and n: "q_prev (H h) = ?p" and c: "chain H (h # xs)"
    using q queue_cut [of H h xs "[]"] by (simp_all add: lnk_def)
  have H': "ngx_queue_insert_tail h x H = set_prev h x (set_next x h (set_next ?p x (set_prev x ?p H)))"
    by (simp add: ngx_queue_insert_tail_def Let_def n del: last.simps)
  have px: "x \<noteq> ?p" "h \<noteq> x" "h \<notin> set xs" "x \<notin> set xs" using x d last_Cons_in [of h xs] by auto
  have xb: "x \<notin> set (butlast (h # xs))" using x by (auto dest!: in_set_butlastD split: if_splits)
  have "chain (ngx_queue_insert_tail h x H) (h # xs)"
    unfolding H' using c last_Cons_notin [OF d] px xb
    by (simp add: chain_frame del: butlast.simps last.simps)
  then show ?thesis
    using queue_cut2 [of _ h xs x "[]"] px d unfolding H' by (simp add: lnk_def del: last.simps)
qed

lemma queue_remove:
  assumes q: "queue H h (xs @ x # ys)"
  shows "queue (ngx_queue_remove x H) h (xs @ ys)"
proof -
  let ?p = "last (h # xs)" and ?n = "hd (ys @ [h])"
  have d: "distinct (h # xs @ ys)" and l: "q_next (H x) = ?n" "q_prev (H x) = ?p"
    using q by (simp_all add: queue_cut2 lnk_def)
  have nx: "x \<noteq> ?n" using q hd_snoc_in [of ys h] by (auto simp: queue_def)
  note s = seam [OF d]
  have H': "ngx_queue_remove x H = set_next ?p ?n (set_prev ?n ?p H)"
    using nx by (simp add: ngx_queue_remove_def Let_def l del: last.simps)
  have "chain (ngx_queue_remove x H) (h # xs)" "chain (ngx_queue_remove x H) (ys @ [h])"
    unfolding H' using q s by (simp_all add: chain_frame queue_cut2 del: butlast.simps last.simps)
  then show ?thesis
    unfolding queue_cut H' using d by (simp add: lnk_def del: last.simps)
qed

lemma queue_split:
  assumes q: "queue H h (xs @ y # ys)" and n: "n \<notin> set (h # xs @ y # ys)"
  shows "queue (ngx_queue_split h y n H) h xs" "queue (ngx_queue_split h y n H) n (y # ys)"
proof -
  let ?p = "last (h # xs)" and ?l = "last (y # ys)"
  have d: "distinct (h # xs @ y # ys)" using q by (simp add: queue_def)
  have l: "q_prev (H h) = ?l" using queue_last [OF q] by simp
  have p: "q_prev (H y) = ?p" using q by (simp add: queue_cut2 lnk_def)
  have y: "h \<noteq> y" "n \<noteq> h" "n \<noteq> y" using d n by auto
  have H': "ngx_queue_split h y n H =
      set_prev y n (set_next ?p h (set_prev h ?p (set_next n y (set_next ?l n (set_prev n ?l H)))))"
    using y by (simp add: ngx_queue_split_def Let_def l p del: last.simps)
  have ne: "?p \<noteq> n" "?l \<noteq> n" "?p \<noteq> ?l" "?l \<notin> set (h # xs)" "?p \<notin> set (y # ys)" "h \<noteq> ?l"
    "n \<notin> set (h # xs)" "n \<notin> set (y # ys)"
    using d n last_Cons_in [of h xs] last_Cons_in [of y ys] by auto
  have b: "?l \<notin> set (butlast (h # xs))" "n \<notin> set (butlast (h # xs))"
     "?p \<notin> set (butlast (y # ys))" "n \<notin> set (butlast (y # ys))"
    using ne by (auto dest!: in_set_butlastD split: if_splits)
  have c: "chain H (h # xs)" "chain H (y # ys)"
    using q queue_cut [of H h xs "y # ys"] chain_append [of H "y # ys" "[h]"] by auto
  have s: "?p \<notin> set (butlast (h # xs))" "?l \<notin> set (butlast (y # ys))"
    using d last_Cons_notin [of h xs] last_Cons_notin [of y ys] by auto
  have "chain (ngx_queue_split h y n H) (h # xs)"
    unfolding H' using c ne b s d by (simp add: chain_frame del: butlast.simps last.simps)
  then show "queue (ngx_queue_split h y n H) h xs"
    using queue_cut [of _ h xs "[]"] d y ne unfolding H' by (simp add: lnk_def del: last.simps)
  have "chain (ngx_queue_split h y n H) (y # ys)"
    unfolding H' using c ne b s d by (simp add: chain_frame del: butlast.simps last.simps)
  then show "queue (ngx_queue_split h y n H) n (y # ys)"
    using chain_append [of _ "y # ys" "[n]"] d y ne unfolding H' queue_def
    by (simp add: lnk_def del: last.simps)
qed

lemma set_other:
  "a \<noteq> p \<Longrightarrow> set_next p v H a = H a" "a \<noteq> p \<Longrightarrow> set_prev p v H a = H a"
  by (simp_all add: set_next_def set_prev_def)

lemma chain_local:
  "chain H zs \<Longrightarrow> (\<And>a. a \<in> set zs \<Longrightarrow> H' a = H a) \<Longrightarrow> chain H' zs"
  by (induction zs rule: induct_list012) (auto simp: lnk_def)

lemma queue_ends:
  assumes "queue H h xs" "a \<notin> set (h # xs)"
  shows "a \<noteq> q_next (H h)" "a \<noteq> q_prev (H h)"
  using assms hd_snoc_in [of xs h] last_Cons_in [of h xs] queue_head [of H h xs] queue_last [of H h xs]
  by auto

lemma queue_links:
  assumes "queue H h (us @ x # vs)" "a \<notin> set (h # us @ x # vs)"
  shows "a \<noteq> q_next (H x)" "a \<noteq> q_prev (H x)"
  using assms(2) hd_snoc_in [of vs h] last_Cons_in [of h us] queue_next [OF assms(1)]
    queue_prev [OF assms(1)]
  by auto

lemma queue_exec_other:
  "queue H h xs \<Longrightarrow> a \<notin> set (x # h # xs) \<Longrightarrow> ngx_queue_insert_head h x H a = H a"
  "queue H h xs \<Longrightarrow> a \<notin> set (x # h # xs) \<Longrightarrow> ngx_queue_insert_tail h x H a = H a"
  "queue H h (us @ x # vs) \<Longrightarrow> a \<notin> set (h # us @ x # vs) \<Longrightarrow> ngx_queue_remove x H a = H a"
  "queue H h (us @ y # vs) \<Longrightarrow> a \<notin> set (n # h # us @ y # vs) \<Longrightarrow> ngx_queue_split h y n H a = H a"
  "queue H h xs \<Longrightarrow> queue H n ys \<Longrightarrow> a \<notin> set (h # xs @ n # ys) \<Longrightarrow> ngx_queue_add h n H a = H a"
  using queue_ends [of H h xs a] queue_ends [of H n ys a] queue_links [of H h us x vs a]
    queue_links [of H h us y vs a] queue_ends [of H h "us @ y # vs" a]
  by (simp_all add: ngx_queue_insert_head_def ngx_queue_insert_tail_def ngx_queue_remove_def
      ngx_queue_split_def ngx_queue_add_def Let_def set_other)

lemma queue_insert_after_other:
  assumes "queue H h (xs @ ys)" "a \<notin> set (x # h # xs @ ys)"
  shows "ngx_queue_insert_after (last (h # xs)) x H a = H a"
proof -
  have "a \<noteq> q_next (H (last (h # xs)))" "a \<noteq> last (h # xs)"
    using assms hd_snoc_in [of ys h] last_Cons_in [of h xs] by (auto simp: queue_cut lnk_def)
  then show ?thesis using assms(2)
    by (simp add: ngx_queue_insert_head_def Let_def set_other del: last.simps)
qed

lemma queue_add:
  assumes h: "queue H h xs" and n: "queue H n ys" and d: "distinct (h # xs @ n # ys)"
  shows "queue (ngx_queue_add h n H) h (xs @ ys)"
proof (cases "ys = []")
  case True
  let ?p = "last (h # xs)"
  have l: "q_prev (H h) = ?p" "q_next (H n) = n"
    using queue_last [OF h] queue_head [OF n] True by simp_all
  have ne: "?p \<noteq> n" "h \<noteq> n" "n \<notin> set xs" using d last_Cons_in [of h xs] by auto
  have H': "ngx_queue_add h n H = set_next ?p h (set_prev h ?p (set_prev n ?p (set_next ?p n H)))"
    using ne by (simp add: ngx_queue_add_def Let_def l del: last.simps)
  have "chain (ngx_queue_add h n H) (h # xs)"
    unfolding H' using h queue_cut [of H h xs "[]"] ne d last_Cons_notin [of h xs]
    by (simp add: chain_frame del: butlast.simps last.simps)
  then show ?thesis
    using queue_cut [of _ h xs "[]"] d True unfolding H' by (simp add: lnk_def del: last.simps)
next
  case False
  then obtain y zs where ys: "ys = y # zs" by (cases ys) auto
  let ?p = "last (h # xs)" and ?l = "last (y # zs)"
  have l: "q_prev (H h) = ?p" "q_next (H n) = y" "q_prev (H n) = ?l"
    using queue_last [OF h] queue_head [OF n] queue_last [OF n] ys by simp_all
  have ne: "?p \<noteq> n" "h \<noteq> n" "y \<noteq> n" "y \<noteq> h" "?l \<noteq> n" "?l \<noteq> ?p" "?p \<notin> set (y # zs)"
    "?l \<notin> set (h # xs)" "y \<notin> set xs" "h \<notin> set zs" "h \<notin> set xs" "y \<notin> set zs"
    using d last_Cons_in [of h xs] last_Cons_in [of y zs] unfolding ys by auto
  have H': "ngx_queue_add h n H = set_next ?l h (set_prev h ?l (set_prev y ?p (set_next ?p y H)))"
    using ne by (simp add: ngx_queue_add_def Let_def l del: last.simps)
  have b: "?l \<notin> set (butlast (h # xs))" "?p \<notin> set (butlast (y # zs))"
    using ne by (auto dest!: in_set_butlastD split: if_splits)
  have s: "?p \<notin> set (butlast (h # xs))" "?l \<notin> set (butlast (y # zs))"
    using d last_Cons_notin [of h xs] last_Cons_notin [of y zs] unfolding ys by auto
  have c: "chain H (h # xs)" "chain H (y # zs)"
    using queue_cut [of H h xs "[]"] h n chain_append [of H "n # y # zs" "[n]"]
    by (simp_all add: queue_def ys)
  have "chain (ngx_queue_add h n H) (h # xs)" "chain (ngx_queue_add h n H) (y # zs)"
    unfolding H' using c ne b s by (simp_all add: chain_frame del: butlast.simps last.simps)
  then show ?thesis
    using queue_cut [of _ h xs ys] chain_append [of _ "y # zs" "[h]"] d ne
    unfolding H' ys by (simp add: lnk_def del: last.simps)
qed

section \<open>Middle and sort\<close>

lemma queue_nth:
  assumes "queue H h xs" "i < length xs"
  shows "q_next (H (xs ! i)) = (xs @ [h]) ! Suc i" 
proof -
  have "queue H h (take i xs @ xs ! i # drop (Suc i) xs)" using assms by (simp add: Cons_nth_drop_Suc)
  then have "q_next (H (xs ! i)) = hd (drop (Suc i) xs @ [h])" by (rule queue_next)
  also have "\<dots> = (xs @ [h]) ! Suc i"
    using assms(2) by (cases "Suc i < length xs") (auto simp: hd_append hd_drop_conv_nth nth_append)
  finally show ?thesis .
qed

lemma queue_step:
  assumes "queue H h xs" "Suc i < length xs" shows "q_next (H (xs ! i)) = xs ! Suc i"
  using queue_nth [of H h xs i] assms by (simp add: nth_append)

lemma middle_loop_returns:
  assumes q: "queue H h xs" and i: "Suc (2 * i) < length xs"
  shows "middle_loop H h (xs ! i) (xs ! (2 * i)) = Some (xs ! (length xs div 2))"
  using i
proof (induction "length xs - 2 * i" arbitrary: i rule: less_induct)
  case less
  have ne: "xs \<noteq> []" using less.prems by auto
  have l: "q_prev (H h) = xs ! (length xs - 1)"
    using queue_last [OF q] ne by (simp add: last_conv_nth)
  have d: "distinct xs" using q by (simp add: queue_def)
  have s: "q_next (H (xs ! i)) = xs ! Suc i" "q_next (H (xs ! (2 * i))) = xs ! Suc (2 * i)"
    using less.prems by (auto intro: queue_step [OF q])
  show ?case
  proof (cases "Suc (2 * i) = length xs - 1")
    case True
    then have "Suc i = length xs div 2" using less.prems by linarith
    then show ?thesis using s l True by (simp add: middle_loop.simps)
  next
    case False
    then have m: "Suc (Suc (2 * i)) < length xs" using less.prems by linarith
    have s2: "q_next (H (xs ! Suc (2 * i))) = xs ! Suc (Suc (2 * i))" using m by (rule queue_step [OF q])
    have n: "xs ! Suc (2 * i) \<noteq> xs ! (length xs - 1)"
      using d False m by (simp add: nth_eq_iff_index_eq)
    show ?thesis
    proof (cases "Suc (Suc (2 * i)) = length xs - 1")
      case True
      then have "Suc i = length xs div 2" using m by linarith
      then show ?thesis using s s2 l n True by (simp add: middle_loop.simps)
    next
      case False
      have n2: "xs ! Suc (Suc (2 * i)) \<noteq> xs ! (length xs - 1)"
        using d False m by (simp add: nth_eq_iff_index_eq)
      have "middle_loop H h (xs ! Suc i) (xs ! (2 * Suc i)) = Some (xs ! (length xs div 2))"
        using m False by (intro less.hyps) auto
      then show ?thesis using s s2 l n n2 by (subst middle_loop.simps) simp
    qed
  qed
qed

lemma queue_middle:
  assumes "queue H h xs" shows "ngx_queue_middle H h = Some ((xs @ [h]) ! (length xs div 2))"
proof (cases "length xs < 2")
  case True
  then consider "xs = []" | x where "xs = [x]" by (cases xs; cases "tl xs") auto
  then show ?thesis
    using queue_head [OF assms] queue_last [OF assms] by cases (auto simp: ngx_queue_middle_def)
next
  case False
  then obtain x y zs where xs: "xs = x # y # zs" by (cases xs; cases "tl xs") auto
  have "last xs \<noteq> x" using assms xs by (auto simp: queue_def)
  moreover have "middle_loop H h (xs ! 0) (xs ! (2 * 0)) = Some (xs ! (length xs div 2))"
    using False by (intro middle_loop_returns [OF assms]) auto
  moreover have "(xs @ [h]) ! (length xs div 2) = xs ! (length xs div 2)"
  proof -
    have "length xs div 2 < length xs" unfolding xs by simp
    then show ?thesis by (simp add: nth_append)
  qed
  ultimately show ?thesis
    using queue_head [OF assms] queue_last [OF assms] xs
    by (simp add: ngx_queue_middle_def del: append_Cons append_Nil)
qed


lemma sort_back_returns:
  assumes "queue H h (as @ bs)" "q \<noteq> h" "as \<noteq> []"
  shows "\<exists>us vs. as = us @ vs \<and> sort_back cmp H h q (last as) = Some (last (h # us)) \<and>
    list_all (\<lambda>v. 0 < cmp v q) vs \<and> (us \<noteq> [] \<longrightarrow> cmp (last us) q \<le> 0)"
  using assms
proof (induction as arbitrary: bs rule: rev_induct)
  case (snoc a as)
  show ?case
  proof (cases "cmp a q \<le> 0")
    case True
    then show ?thesis
      by (intro exI [of _ "as @ [a]"] exI [of _ "[]"]) (simp add: sort_back.simps)
  next
    case False
    have p: "q_prev (H a) = last (h # as)" using snoc.prems(1) by (simp add: queue_prev)
    show ?thesis
    proof (cases "as = []")
      case True
      then show ?thesis using False p
        by (intro exI [of _ "[]"] exI [of _ "[a]"]) (simp add: sort_back.simps [of cmp H h q a])
    next
      case ne: False
      have "last as \<noteq> h" using snoc.prems(1) ne by (auto simp: queue_def)
      then have eq: "sort_back cmp H h q (last (as @ [a])) = sort_back cmp H h q (last as)"
        using False p ne by (simp add: sort_back.simps [of cmp H h q a])
      from snoc.IH [of "a # bs"] snoc.prems ne obtain us vs where
        "as = us @ vs" "sort_back cmp H h q (last as) = Some (last (h # us))"
        "list_all (\<lambda>v. 0 < cmp v q) vs" "us \<noteq> [] \<longrightarrow> cmp (last us) q \<le> 0" by auto
      then show ?thesis using False eq
        by (intro exI [of _ us] exI [of _ "vs @ [a]"]) simp
    qed
  qed
qed simp


text \<open>The reference: an insertion sort on lists that inserts an element behind the last one that is
  not greater.\<close>

definition insert_back :: "(ptr \<Rightarrow> ptr \<Rightarrow> int) \<Rightarrow> ptr list \<Rightarrow> ptr \<Rightarrow> ptr list" where
  "insert_back cmp as q =
    rev (dropWhile (\<lambda>v. 0 < cmp v q) (rev as)) @ q # rev (takeWhile (\<lambda>v. 0 < cmp v q) (rev as))"

lemma insert_back_split:
  assumes "list_all (\<lambda>v. 0 < cmp v q) vs" "us \<noteq> [] \<longrightarrow> cmp (last us) q \<le> 0"
  shows "insert_back cmp (us @ vs) q = us @ q # vs"
proof -
  have 1: "takeWhile (\<lambda>v. 0 < cmp v q) (rev us) = []"
    using assms(2) by (cases us rule: rev_cases) auto
  then have 2: "dropWhile (\<lambda>v. 0 < cmp v q) (rev us) = rev us" by (metis append_Nil takeWhile_dropWhile_id)
  have all: "\<And>v. v \<in> set (rev vs) \<Longrightarrow> 0 < cmp v q" using assms(1) by (simp add: list_all_iff)
  have "takeWhile (\<lambda>v. 0 < cmp v q) (rev (us @ vs)) = rev vs"
    unfolding rev_append by (subst takeWhile_append2) (use all 1 in auto)
  moreover have "dropWhile (\<lambda>v. 0 < cmp v q) (rev (us @ vs)) = rev us"
    unfolding rev_append by (subst dropWhile_append2) (use all 2 in auto)
  ultimately show ?thesis unfolding insert_back_def by simp
qed

lemma insert_back_parts:
  obtains us vs where "as = us @ vs" "insert_back cmp as q = us @ q # vs"
    "list_all (\<lambda>v. 0 < cmp v q) vs" "us \<noteq> [] \<longrightarrow> cmp (last us) q \<le> 0"
proof -
  let ?P = "\<lambda>v. 0 < cmp v q"
  let ?us = "rev (dropWhile ?P (rev as))" and ?vs = "rev (takeWhile ?P (rev as))"
  have "as = ?us @ ?vs" by (metis rev_append rev_rev_ident takeWhile_dropWhile_id)
  moreover have "list_all ?P ?vs" by (auto simp: list_all_iff dest: set_takeWhileD)
  moreover have "?us \<noteq> [] \<longrightarrow> cmp (last ?us) q \<le> 0"
    using hd_dropWhile [of ?P "rev as"] by (auto simp: last_rev not_less)
  ultimately show thesis using that [of ?us ?vs] by (simp add: insert_back_def)
qed

lemma mset_insert_back [simp]: "mset (insert_back cmp as q) = add_mset q (mset as)"
  by (rule insert_back_parts [of as cmp q]) simp

lemma set_insert_back [simp]: "set (insert_back cmp as q) = insert q (set as)"
  by (metis mset_insert_back set_mset_add_mset_insert set_mset_mset)

lemma insert_back_nonempty [simp]: "insert_back cmp as q \<noteq> []"
  by (simp add: insert_back_def)

definition insertion_sort :: "(ptr \<Rightarrow> ptr \<Rightarrow> int) \<Rightarrow> ptr list \<Rightarrow> ptr list" where
  "insertion_sort cmp xs = foldl (insert_back cmp) [] xs"

lemma sort_loop_returns:
  assumes "queue H h (as @ bs)" "as \<noteq> []"
  shows "\<exists>H'. sort_loop cmp h (hd (bs @ [h])) H = Some H' \<and>
    queue H' h (foldl (insert_back cmp) as bs) \<and> (\<forall>a. a \<notin> set (h # as @ bs) \<longrightarrow> H' a = H a)"
  using assms
proof (induction bs arbitrary: H as)
  case Nil then show ?case by (simp add: sort_loop.simps)
next
  case (Cons q bs)
  let ?R = "ngx_queue_remove q H"
  have d: "q \<noteq> h" "q \<notin> set as" "q \<notin> set bs" using Cons.prems(1) by (auto simp: queue_def)
  have l: "q_prev (H q) = last as" "q_next (H q) = hd (bs @ [h])"
    using queue_prev [OF Cons.prems(1)] queue_next [OF Cons.prems(1)] Cons.prems(2) by simp_all
  have r: "queue ?R h (as @ bs)" by (rule queue_remove [OF Cons.prems(1)])
  obtain us vs where uv: "as = us @ vs" "sort_back cmp ?R h q (last as) = Some (last (h # us))"
    "list_all (\<lambda>v. 0 < cmp v q) vs" "us \<noteq> [] \<longrightarrow> cmp (last us) q \<le> 0"
    using sort_back_returns [OF r d(1) Cons.prems(2), of cmp] by blast
  let ?I = "ngx_queue_insert_after (last (h # us)) q ?R"
  have "queue ?I h (us @ q # vs @ bs)"
    by (rule queue_insert_after) (use r d in \<open>auto simp: uv(1)\<close>)
  then have i: "queue ?I h (insert_back cmp as q @ bs)"
    using insert_back_split [of cmp q vs us] uv(3,4) by (simp add: uv(1))
  have o: "?I a = H a" if "a \<notin> set (h # as @ q # bs)" for a
    using queue_insert_after_other [of ?R h us "vs @ bs" a q] queue_exec_other(3) [OF Cons.prems(1) that]
      r that by (simp add: uv(1) del: last.simps)
  obtain H' where H': "sort_loop cmp h (hd (bs @ [h])) ?I = Some H'"
    "queue H' h (foldl (insert_back cmp) (insert_back cmp as q) bs)"
    "\<And>a. a \<notin> set (h # insert_back cmp as q @ bs) \<Longrightarrow> H' a = ?I a"
    using Cons.IH [OF i] by auto
  have "H' a = H a" if "a \<notin> set (h # as @ q # bs)" for a
    using H'(3) [of a] o [OF that] that by simp
  then show ?case
    using d(1) l uv(2) H'(1,2) by (simp add: sort_loop.simps [of cmp h q] Let_def del: last.simps)
qed

lemma sort_returns:
  assumes "queue H h xs"
  shows "\<exists>H'. ngx_queue_sort h cmp H = Some H' \<and> queue H' h (insertion_sort cmp xs) \<and>
    (\<forall>a. a \<notin> set (h # xs) \<longrightarrow> H' a = H a)"
proof (cases xs)
  case Nil
  then show ?thesis using assms queue_head [OF assms] queue_last [OF assms]
    by (simp add: ngx_queue_sort_def insertion_sort_def)
next
  case (Cons x ys)
  have one: "insert_back cmp [] x = [x]" by (simp add: insert_back_def)
  have x: "q_next (H h) = x" "q_next (H x) = hd (ys @ [h])" "q_prev (H h) = last (x # ys)"
    using queue_head [OF assms] queue_last [OF assms] queue_next [of H h "[]" x ys] assms Cons by simp_all
  show ?thesis
  proof (cases "ys = []")
    case True
    then show ?thesis using assms Cons x one by (simp add: ngx_queue_sort_def insertion_sort_def)
  next
    case False
    then have "last (x # ys) \<noteq> x" using assms Cons by (auto simp: queue_def)
    moreover have "\<exists>H'. sort_loop cmp h (hd (ys @ [h])) H = Some H' \<and>
       queue H' h (foldl (insert_back cmp) [x] ys) \<and> (\<forall>a. a \<notin> set (h # [x] @ ys) \<longrightarrow> H' a = H a)"
      by (rule sort_loop_returns) (use assms Cons in simp_all)
    ultimately show ?thesis using x one Cons
      by (simp add: ngx_queue_sort_def insertion_sort_def Let_def del: last.simps)
  qed
qed

lemma mset_foldl_insert_back: "mset (foldl (insert_back cmp) as bs) = mset as + mset bs"
  by (induction bs arbitrary: as) auto

lemma mset_insertion_sort: "mset (insertion_sort cmp xs) = mset xs"
  by (simp add: insertion_sort_def mset_foldl_insert_back)

text \<open>What a comparison has to satisfy for the result to be sorted.\<close>

definition cmp_preorder :: "(ptr \<Rightarrow> ptr \<Rightarrow> int) \<Rightarrow> bool" where
  "cmp_preorder cmp \<longleftrightarrow> (\<forall>a b. cmp a b \<le> 0 \<or> cmp b a \<le> 0) \<and>
    (\<forall>a b c. cmp a b \<le> 0 \<longrightarrow> cmp b c \<le> 0 \<longrightarrow> cmp a c \<le> 0)"

definition same_rank :: "(ptr \<Rightarrow> ptr \<Rightarrow> int) \<Rightarrow> ptr \<Rightarrow> ptr \<Rightarrow> bool" where
  "same_rank cmp a b \<longleftrightarrow> cmp a b \<le> 0 \<and> cmp b a \<le> 0"

lemma sorted_insert_back:
  assumes o: "cmp_preorder cmp" and s: "sorted_wrt (\<lambda>a b. cmp a b \<le> 0) as"
  shows "sorted_wrt (\<lambda>a b. cmp a b \<le> 0) (insert_back cmp as q)"
proof -
  obtain us vs where p: "as = us @ vs" "insert_back cmp as q = us @ q # vs"
    "list_all (\<lambda>v. 0 < cmp v q) vs" "us \<noteq> [] \<longrightarrow> cmp (last us) q \<le> 0"
    by (rule insert_back_parts)
  have tot: "cmp a b \<le> 0 \<or> cmp b a \<le> 0" and tr: "cmp a b \<le> 0 \<Longrightarrow> cmp b c \<le> 0 \<Longrightarrow> cmp a c \<le> 0"
    for a b c using o unfolding cmp_preorder_def by blast+
  have vs: "cmp q v \<le> 0" if "v \<in> set vs" for v
    using p(3) that tot [of q v] by (auto simp: list_all_iff)
  have us: "cmp u q \<le> 0" if "u \<in> set us" for u
  proof (cases us rule: rev_cases)
    case (snoc ws w)
    then have "u = w \<or> cmp u w \<le> 0" using s p(1) that by (auto simp: sorted_wrt_append)
    then show ?thesis using p(4) snoc tr by auto
  qed (use that in simp)
  show ?thesis using s us vs unfolding p(2) by (auto simp: p(1) sorted_wrt_append)
qed

lemma stable_insert_back:
  assumes o: "cmp_preorder cmp"
  shows "filter (same_rank cmp x) (insert_back cmp as q) = filter (same_rank cmp x) (as @ [q])"
proof -
  obtain us vs where p: "as = us @ vs" "insert_back cmp as q = us @ q # vs"
    "list_all (\<lambda>v. 0 < cmp v q) vs"
    by (rule insert_back_parts)
  have tr: "cmp a b \<le> 0 \<Longrightarrow> cmp b c \<le> 0 \<Longrightarrow> cmp a c \<le> 0" for a b c
    using o unfolding cmp_preorder_def by blast
  have "\<not> same_rank cmp x v" if "same_rank cmp x q" "v \<in> set vs" for v
    using that p(3) tr [of v x q] by (force simp: same_rank_def list_all_iff)
  then have "same_rank cmp x q \<Longrightarrow> filter (same_rank cmp x) vs = []" by (simp add: filter_empty_conv)
  then show ?thesis unfolding p(2) by (auto simp: p(1))
qed

lemma sorted_insertion_sort:
  assumes "cmp_preorder cmp" shows "sorted_wrt (\<lambda>a b. cmp a b \<le> 0) (insertion_sort cmp xs)"
  unfolding insertion_sort_def
  by (induction xs rule: rev_induct) (simp_all add: sorted_insert_back [OF assms])

lemma stable_insertion_sort:
  assumes "cmp_preorder cmp"
  shows "filter (same_rank cmp x) (insertion_sort cmp xs) = filter (same_rank cmp x) xs"
  unfolding insertion_sort_def
  by (induction xs rule: rev_induct) (simp_all add: stable_insert_back [OF assms])

section \<open>Several queues in one memory\<close>

datatype queue_op =
    Init ptr
  | Insert_head ptr ptr
  | Insert_tail ptr ptr
  | Remove ptr
  | Split ptr ptr ptr
  | Add ptr ptr

fun queue_exec :: "queue_op \<Rightarrow> qheap \<Rightarrow> qheap" where
  "queue_exec (Init q) H = ngx_queue_init q H"
| "queue_exec (Insert_head h x) H = ngx_queue_insert_head h x H"
| "queue_exec (Insert_tail h x) H = ngx_queue_insert_tail h x H"
| "queue_exec (Remove x) H = ngx_queue_remove x H"
| "queue_exec (Split h q n) H = ngx_queue_split h q n H"
| "queue_exec (Add h n) H = ngx_queue_add h n H"

type_synonym queues = "ptr \<rightharpoonup> ptr list"

definition queue_cells :: "queues \<Rightarrow> ptr set" where
  "queue_cells Q = {a. \<exists>h xs. Q h = Some xs \<and> a \<in> set (h # xs)}"

inductive queue_step :: "queues \<Rightarrow> queue_op \<Rightarrow> queues \<Rightarrow> bool" where
  init: "q \<notin> queue_cells Q \<Longrightarrow> queue_step Q (Init q) (Q(q \<mapsto> []))"
| insert_head: "Q h = Some xs \<Longrightarrow> x \<notin> queue_cells Q \<Longrightarrow>
    queue_step Q (Insert_head h x) (Q(h \<mapsto> x # xs))"
| insert_tail: "Q h = Some xs \<Longrightarrow> x \<notin> queue_cells Q \<Longrightarrow>
    queue_step Q (Insert_tail h x) (Q(h \<mapsto> xs @ [x]))"
| remove: "Q h = Some (us @ x # vs) \<Longrightarrow> queue_step Q (Remove x) (Q(h \<mapsto> us @ vs))"
| split: "Q h = Some (us @ y # vs) \<Longrightarrow> n \<notin> queue_cells Q \<Longrightarrow>
    queue_step Q (Split h y n) (Q(h \<mapsto> us, n \<mapsto> y # vs))"
| add: "Q h = Some xs \<Longrightarrow> Q n = Some ys \<Longrightarrow> h \<noteq> n \<Longrightarrow>
    queue_step Q (Add h n) (Q(h \<mapsto> xs @ ys, n := None))"

inductive queue_run :: "queues \<Rightarrow> queue_op list \<Rightarrow> queues \<Rightarrow> bool" where
  queue_run_Nil: "queue_run Q [] Q"
| queue_run_Cons: "queue_step Q p Q' \<Longrightarrow> queue_run Q' ps Q'' \<Longrightarrow> queue_run Q (p # ps) Q''"

definition queue_world ::
  "((ptr \<Rightarrow> 'n) \<Rightarrow> ptr \<Rightarrow> ptr list \<Rightarrow> bool) \<Rightarrow> (ptr \<Rightarrow> 'n) \<Rightarrow> queues \<Rightarrow> bool" where
  "queue_world rep H Q \<longleftrightarrow> (\<forall>h xs. Q h = Some xs \<longrightarrow> rep H h xs) \<and>
    (\<forall>g ys h xs. Q g = Some ys \<longrightarrow> Q h = Some xs \<longrightarrow> g \<noteq> h \<longrightarrow> set (g # ys) \<inter> set (h # xs) = {})"

lemma queue_worldD:
  assumes "queue_world rep H Q" "Q h = Some xs"
  shows "rep H h xs" "Q g = Some ys \<Longrightarrow> g \<noteq> h \<Longrightarrow> set (g # ys) \<inter> set (h # xs) = {}"
    "set (h # xs) \<subseteq> queue_cells Q"
proof -
  show "rep H h xs" using assms unfolding queue_world_def by blast
  show "set (g # ys) \<inter> set (h # xs) = {}" if "Q g = Some ys" "g \<noteq> h"
    using assms that unfolding queue_world_def by blast
  show "set (h # xs) \<subseteq> queue_cells Q" using assms(2) unfolding queue_cells_def by auto
qed

locale linked_queues =
  fixes rep :: "(ptr \<Rightarrow> 'n) \<Rightarrow> ptr \<Rightarrow> ptr list \<Rightarrow> bool"
    and exec :: "queue_op \<Rightarrow> (ptr \<Rightarrow> 'n) \<Rightarrow> ptr \<Rightarrow> 'n"
  assumes rep_distinct: "rep H h xs \<Longrightarrow> distinct (h # xs)"
    and rep_local: "rep H h xs \<Longrightarrow> (\<And>a. a \<in> set (h # xs) \<Longrightarrow> H' a = H a) \<Longrightarrow> rep H' h xs"
    and exec_init: "rep (exec (Init q) H) q []"
      "a \<noteq> q \<Longrightarrow> exec (Init q) H a = H a"
    and exec_insert_head: "rep H h xs \<Longrightarrow> x \<notin> set (h # xs) \<Longrightarrow> rep (exec (Insert_head h x) H) h (x # xs)"
      "rep H h xs \<Longrightarrow> a \<notin> set (x # h # xs) \<Longrightarrow> exec (Insert_head h x) H a = H a"
    and exec_insert_tail: "rep H h xs \<Longrightarrow> x \<notin> set (h # xs) \<Longrightarrow> rep (exec (Insert_tail h x) H) h (xs @ [x])"
      "rep H h xs \<Longrightarrow> a \<notin> set (x # h # xs) \<Longrightarrow> exec (Insert_tail h x) H a = H a"
    and exec_remove: "rep H h (us @ x # vs) \<Longrightarrow> rep (exec (Remove x) H) h (us @ vs)"
      "rep H h (us @ x # vs) \<Longrightarrow> a \<notin> set (h # us @ x # vs) \<Longrightarrow> exec (Remove x) H a = H a"
    and exec_split:
      "rep H h (us @ y # vs) \<Longrightarrow> n \<notin> set (h # us @ y # vs) \<Longrightarrow> rep (exec (Split h y n) H) h us"
      "rep H h (us @ y # vs) \<Longrightarrow> n \<notin> set (h # us @ y # vs) \<Longrightarrow> rep (exec (Split h y n) H) n (y # vs)"
      "rep H h (us @ y # vs) \<Longrightarrow> a \<notin> set (n # h # us @ y # vs) \<Longrightarrow> exec (Split h y n) H a = H a"
    and exec_add:
      "rep H h xs \<Longrightarrow> rep H n ys \<Longrightarrow> distinct (h # xs @ n # ys) \<Longrightarrow> rep (exec (Add h n) H) h (xs @ ys)"
      "rep H h xs \<Longrightarrow> rep H n ys \<Longrightarrow> a \<notin> set (h # xs @ n # ys) \<Longrightarrow> exec (Add h n) H a = H a"
begin

lemma world_replace:
  assumes w: "queue_world rep H Q" and out: "\<And>a. a \<notin> F \<Longrightarrow> H' a = H a"
    and same: "\<And>g. g \<notin> D \<Longrightarrow> Q' g = Q g"
    and apart: "\<And>g ys. g \<notin> D \<Longrightarrow> Q g = Some ys \<Longrightarrow> set (g # ys) \<inter> F = {}"
    and new: "\<And>h xs. h \<in> D \<Longrightarrow> Q' h = Some xs \<Longrightarrow> rep H' h xs \<and> set (h # xs) \<subseteq> F"
    and pairs: "\<And>g ys h xs. g \<in> D \<Longrightarrow> h \<in> D \<Longrightarrow> Q' g = Some ys \<Longrightarrow> Q' h = Some xs \<Longrightarrow> g \<noteq> h \<Longrightarrow>
      set (g # ys) \<inter> set (h # xs) = {}"
  shows "queue_world rep H' Q'"
  unfolding queue_world_def
proof (intro conjI allI impI)
  fix h xs assume q: "Q' h = Some xs"
  show "rep H' h xs"
  proof (cases "h \<in> D")
    case False
    then have q': "Q h = Some xs" using q same by simp
    show ?thesis
    proof (rule rep_local [OF queue_worldD(1) [OF w q']])
      fix a assume "a \<in> set (h # xs)"
      then have "a \<notin> F" using apart [OF False q'] by blast
      then show "H' a = H a" by (rule out)
    qed
  qed (use new q in blast)
next
  have mixed: "set (g # ys) \<inter> set (h # xs) = {}"
    if "g \<in> D" "h \<notin> D" "Q' g = Some ys" "Q' h = Some xs" for g ys h xs
  proof -
    have "set (g # ys) \<subseteq> F" using new [OF that(1,3)] by (rule conjunct2)
    moreover have "Q h = Some xs" using same [OF that(2)] that(4) by simp
    then have "set (h # xs) \<inter> F = {}" by (rule apart [OF that(2)])
    ultimately show ?thesis by blast
  qed
  fix g ys h xs assume q: "Q' g = Some ys" "Q' h = Some xs" "g \<noteq> h"
  show "set (g # ys) \<inter> set (h # xs) = {}"
  proof (cases "g \<in> D"; cases "h \<in> D")
    assume "g \<in> D" "h \<in> D" then show ?thesis using q by (rule pairs)
  next
    assume "g \<in> D" "h \<notin> D" then show ?thesis using q(1,2) by (rule mixed)
  next
    assume "g \<notin> D" "h \<in> D" then show ?thesis using mixed [of h g] q(1,2) by blast
  next
    assume "g \<notin> D" "h \<notin> D"
    then have "Q g = Some ys" "Q h = Some xs" using q same by simp_all
    then show ?thesis using queue_worldD(2) [OF w] q(3) by simp
  qed
qed

lemma world_one:
  assumes w: "queue_world rep H Q" and q: "Q h = Some xs" and ns: "set ns \<inter> queue_cells Q = {}"
    and out: "\<And>a. a \<notin> set (ns @ h # xs) \<Longrightarrow> H' a = H a"
    and new: "rep H' h xs'" "set xs' \<subseteq> set (ns @ xs)"
  shows "queue_world rep H' (Q(h \<mapsto> xs'))"
proof (rule world_replace [OF w, of "set (ns @ h # xs)" _ "{h}"])
  fix g ys assume "g \<notin> {h}" "Q g = Some ys"
  then show "set (g # ys) \<inter> set (ns @ h # xs) = {}"
    using queue_worldD(2) [OF w q] queue_worldD(3) [OF w] ns by (simp add: disjoint_iff) blast
qed (use out new in auto)

lemma world_step:
  assumes "queue_step Q p Q'" and w: "queue_world rep H Q" shows "queue_world rep (exec p H) Q'"
  using assms(1)
proof cases
  case (init q)
  have "set (g # ys) \<inter> {q} = {}" if "Q g = Some ys" for g ys
    using init(3) queue_worldD(3) [OF w that] by blast
  then show ?thesis unfolding init(1,2)
    by (intro world_replace [OF w, of "{q}" _ "{q}"]) (use exec_init in auto)
next
  case (insert_head h xs x)
  have d: "x \<notin> set (h # xs)" using insert_head(4) queue_worldD(3) [OF w insert_head(3)] by blast
  note r = queue_worldD(1) [OF w insert_head(3)]
  show ?thesis unfolding insert_head(1,2)
    by (rule world_one [OF w insert_head(3), of "[x]"])
      (use insert_head(4) exec_insert_head [OF r] d in auto)
next
  case (insert_tail h xs x)
  have d: "x \<notin> set (h # xs)" using insert_tail(4) queue_worldD(3) [OF w insert_tail(3)] by blast
  note r = queue_worldD(1) [OF w insert_tail(3)]
  show ?thesis unfolding insert_tail(1,2)
    by (rule world_one [OF w insert_tail(3), of "[x]"])
      (use insert_tail(4) exec_insert_tail [OF r] d in auto)
next
  case (remove h us x vs)
  note r = queue_worldD(1) [OF w remove(3)]
  show ?thesis unfolding remove(1,2)
    by (rule world_one [OF w remove(3), of "[]"]) (use exec_remove [OF r] in auto)
next
  case (split h us y vs n)
  note r = queue_worldD(1) [OF w split(3)]
  have d: "n \<notin> set (h # us @ y # vs)" using split(4) queue_worldD(3) [OF w split(3)] by blast
  have a: "set (g # ys) \<inter> set (n # h # us @ y # vs) = {}" if "g \<noteq> h" "Q g = Some ys" for g ys
    using queue_worldD(2) [OF w split(3) that(2,1)] queue_worldD(3) [OF w that(2)] split(4)
    by (simp add: disjoint_iff) blast
  show ?thesis unfolding split(1,2)
  proof (rule world_replace [OF w, of "set (n # h # us @ y # vs)" _ "{h, n}"])
    fix g ys g' ys'
    assume "g \<in> {h, n}" "g' \<in> {h, n}" "g \<noteq> g'" and
      "(Q(h \<mapsto> us, n \<mapsto> y # vs)) g = Some ys" "(Q(h \<mapsto> us, n \<mapsto> y # vs)) g' = Some ys'"
    then show "set (g # ys) \<inter> set (g' # ys') = {}" using rep_distinct [OF r] d by (auto simp: disjoint_iff)
  qed (use a d exec_split [OF r] in \<open>auto split: if_splits\<close>)
next
  case (add h xs n ys)
  note r = queue_worldD [OF w add(3)] and s = queue_worldD [OF w add(4)]
  have d: "distinct (h # xs @ n # ys)"
    using rep_distinct [OF r(1)] rep_distinct [OF s(1)] r(2) [OF add(4)] add(5) by auto
  have a: "set (g # zs) \<inter> set (h # xs @ n # ys) = {}" if "g \<noteq> h" "g \<noteq> n" "Q g = Some zs" for g zs
    using r(2) [OF that(3,1)] s(2) [OF that(3,2)] by (auto simp: disjoint_iff)
  show ?thesis unfolding add(1,2)
    by (rule world_replace [OF w, of "set (h # xs @ n # ys)" _ "{h, n}"])
      (use a d exec_add [OF r(1) s(1)] add(5) in \<open>auto split: if_splits\<close>)
qed

lemma world_run:
  "queue_run Q ps Q' \<Longrightarrow> queue_world rep H Q \<Longrightarrow> queue_world rep (fold exec ps H) Q'"
  by (induction arbitrary: H rule: queue_run.induct) (auto intro: world_step)

end


interpretation ngx_queues: linked_queues queue queue_exec
proof
  show "distinct (h # xs)" if "queue H h xs" for H h xs using that by (simp add: queue_def)
  show "queue H' h xs" if "queue H h xs" "\<And>a. a \<in> set (h # xs) \<Longrightarrow> H' a = H a" for H H' h xs
    using that(1) chain_local [of H "h # xs @ [h]" H'] that(2) by (auto simp: queue_def)
  show "queue_exec (Init q) H a = H a" if "a \<noteq> q" for a q H
    using that by (simp add: ngx_queue_init_def Let_def set_other)
qed (simp_all only: queue_exec.simps,
    (assumption | rule queue_init queue_insert_head queue_insert_tail queue_remove queue_split
       queue_add queue_exec_other)+)


section \<open>Properties\<close>

text \<open>The queue of \<open>xs\<close> in a fresh memory, for the examples.\<close>

definition queue_of :: "ptr \<Rightarrow> ptr list \<Rightarrow> qheap" where
  "queue_of h xs = fold (ngx_queue_insert_tail h) xs (ngx_queue_init h (\<lambda>_. \<lparr>q_prev = 0, q_next = 0\<rparr>))"

lemma queue_of_queue: "distinct (h # xs) \<Longrightarrow> queue (queue_of h xs) h xs"
  by (induction xs rule: rev_induct) (auto simp: queue_of_def queue_init intro: queue_insert_tail)

text \<open>
  C22. Several queues in one memory: whatever sequence of \<open>ngx_queue_init\<close>, \<open>ngx_queue_insert_head\<close>,
  \<open>ngx_queue_insert_tail\<close>, \<open>ngx_queue_remove\<close>, \<open>ngx_queue_split\<close> and \<open>ngx_queue_add\<close> is run on
  disjoint queues, with elements that are in no queue where one is inserted, every queue holds
  the list that the abstract operations give, linked in both directions, and the queues stay
  disjoint: no operation on one queue changes another.
\<close>

theorem queue_runs:
  assumes "queue_world queue H Q" and "queue_run Q ps Q'"
  shows "queue_world queue (fold queue_exec ps H) Q'"
  using assms(2,1) by (rule ngx_queues.world_run)

theorem queue_runs_witness:
  "queue_world queue
    (fold queue_exec [Init 10, Insert_tail 10 20, Insert_tail 10 30, Insert_head 10 40,
       Split 10 20 50, Remove 20] (\<lambda>_. \<lparr>q_prev = 0, q_next = 0\<rparr>)) [10 \<mapsto> [40], 50 \<mapsto> [30]]"
proof -
  have cells: "queue_cells Map.empty = {}" "queue_cells [10 \<mapsto> xs] = set (10 # xs)" for xs
    by (auto simp: queue_cells_def)
  have "queue_step Map.empty (Init 10) [10 \<mapsto> []]"
    by (rule queue_step.init) (simp add: cells)
  moreover have "queue_step [10 \<mapsto> []] (Insert_tail 10 20) [10 \<mapsto> [20]]"
    using queue_step.insert_tail [of "[10 \<mapsto> []]" 10 "[]" 20] by (simp add: cells)
  moreover have "queue_step [10 \<mapsto> [20]] (Insert_tail 10 30) [10 \<mapsto> [20, 30]]"
    using queue_step.insert_tail [of "[10 \<mapsto> [20]]" 10 "[20]" 30] by (simp add: cells)
  moreover have "queue_step [10 \<mapsto> [20, 30]] (Insert_head 10 40) [10 \<mapsto> [40, 20, 30]]"
    using queue_step.insert_head [of "[10 \<mapsto> [20, 30]]" 10 "[20, 30]" 40] by (simp add: cells)
  moreover have "queue_step [10 \<mapsto> [40, 20, 30]] (Split 10 20 50) [10 \<mapsto> [40], 50 \<mapsto> [20, 30]]"
    using queue_step.split [of "[10 \<mapsto> [40, 20, 30]]" 10 "[40]" 20 "[30]" 50] by (simp add: cells)
  moreover have "queue_step [10 \<mapsto> [40], 50 \<mapsto> [20, 30]] (Remove 20) [10 \<mapsto> [40], 50 \<mapsto> [30]]"
    using queue_step.remove [of "[10 \<mapsto> [40], 50 \<mapsto> [20, 30]]" 50 "[]" 20 "[30]"] by simp
  ultimately have "queue_run Map.empty [Init 10, Insert_tail 10 20, Insert_tail 10 30,
      Insert_head 10 40, Split 10 20 50, Remove 20] [10 \<mapsto> [40], 50 \<mapsto> [30]]"
    by (blast intro: queue_run.intros)
  moreover have "queue_world queue (\<lambda>_. \<lparr>q_prev = 0, q_next = 0\<rparr>) Map.empty"
    by (simp add: queue_world_def)
  ultimately show ?thesis by (blast intro: queue_runs)
qed

text \<open>
  C23. \<open>ngx_queue_sort\<close> ends on every queue, whatever the comparison answers (it need not be an
  order): both loops come to their end, the result is a queue of the same elements, and no link
  outside of the queue is changed.
\<close>

theorem sort_terminates:
  assumes "queue H h xs"
  shows "\<exists>H' ys. ngx_queue_sort h cmp H = Some H' \<and> queue H' h ys \<and> mset ys = mset xs \<and>
    (\<forall>a. a \<notin> set (h # xs) \<longrightarrow> H' a = H a)"
  using sort_returns [OF assms, of cmp] mset_insertion_sort [of cmp xs] by blast

theorem sort_terminates_witness:
  "\<exists>H' ys. ngx_queue_sort 1 (\<lambda>a b. 1) (queue_of 1 [5, 3, 4]) = Some H' \<and> queue H' 1 ys \<and>
    mset ys = {# 5, 3, 4 #} \<and> H' 2 = queue_of 1 [5, 3, 4] 2"
proof -
  have "queue (queue_of 1 [5, 3, 4]) 1 [5, 3, 4]" by (rule queue_of_queue) simp
  from sort_terminates [OF this, of "\<lambda>a b. 1"] show ?thesis by fastforce
qed

text \<open>
  C24. \<open>ngx_queue_sort\<close> is a stable sort when the comparison is a total preorder: the resulting
  queue is sorted, and elements of the same rank keep their order.
\<close>

theorem sort_stable:
  assumes "queue H h xs" and "cmp_preorder cmp"
  shows "\<exists>H' ys. ngx_queue_sort h cmp H = Some H' \<and> queue H' h ys \<and>
    sorted_wrt (\<lambda>a b. cmp a b \<le> 0) ys \<and>
    (\<forall>x. filter (same_rank cmp x) ys = filter (same_rank cmp x) xs)"
  using sort_returns [OF assms(1), of cmp] sorted_insertion_sort [OF assms(2)]
    stable_insertion_sort [OF assms(2)] by blast

theorem sort_stable_witness:
  "\<exists>H' ys. ngx_queue_sort 1 (\<lambda>a b. int (a mod 10) - int (b mod 10)) (queue_of 1 [15, 23, 13]) = Some H' \<and>
    queue H' 1 ys \<and> sorted_wrt (\<lambda>a b. int (a mod 10) - int (b mod 10) \<le> 0) ys \<and>
    filter (same_rank (\<lambda>a b. int (a mod 10) - int (b mod 10)) 3) ys = [23, 13]"
proof -
  have q: "queue (queue_of 1 [15, 23, 13]) 1 [15, 23, 13]" by (rule queue_of_queue) simp
  have "cmp_preorder (\<lambda>a b. int (a mod 10) - int (b mod 10))" by (auto simp: cmp_preorder_def)
  from sort_stable [OF q this] obtain H' ys where
    r: "ngx_queue_sort 1 (\<lambda>a b. int (a mod 10) - int (b mod 10)) (queue_of 1 [15, 23, 13]) = Some H'"
      "queue H' 1 ys" "sorted_wrt (\<lambda>a b. int (a mod 10) - int (b mod 10) \<le> 0) ys"
      "filter (same_rank (\<lambda>a b. int (a mod 10) - int (b mod 10)) 3) ys =
       filter (same_rank (\<lambda>a b. int (a mod 10) - int (b mod 10)) 3) [15, 23, 13]" by blast
  have "filter (same_rank (\<lambda>a b. int (a mod 10) - int (b mod 10)) 3) [15, 23, 13] = [23, 13]"
    by (simp add: same_rank_def)
  then show ?thesis using r by auto
qed

end
