(* ===== verification/Ngx_Radix_Tree.thy ===== *)
theory Ngx_Radix_Tree
  imports Ngx_Prelude
begin

text \<open>
  The radix tree of IPv4 networks: \<^verbatim>\<open>src/core/ngx_radix_tree.c\<close> and \<^verbatim>\<open>src/core/ngx_radix_tree.h\<close>, with the
  nodes in a memory, their parent pointers, the free list and the pages they are cut from.

  A node stands for a prefix, the path of bits from the root; \<open>rep\<close> relates the memory to a trie,
  \<open>look\<close> reads the trie as a map from prefixes to values, \<open>part\<close> adds that the nodes, the free list and
  the memory not yet used are disjoint.  Each operation on a subtree is shown to evolve the memory
  inside of the subtree and the unused memory only (\<open>evolves\<close>), so that the operation on the whole
  tree follows by induction on the prefix.  Shown: insertion, deletion of a prefix that is not empty and creation return and
  refine the map, on every branch; an insertion fails only for lack of memory; lookup is the longest match; the locale \<open>prefix_table\<close> carries this
  to sequences of operations.
\<close>

section \<open>Nodes and memory\<close>

abbreviation (input) NGX_RADIX_NO_VALUE :: u64 where "NGX_RADIX_NO_VALUE \<equiv> - 1"

text \<open>\<open>ngx_radix_node_t\<close> and \<open>ngx_radix_tree_t\<close>.  \<open>rt_pool\<close> stands for the pool: the addresses that the coming
  calls of \<open>ngx_pmemalign\<close> return (\<open>NULL\<close>, or no address left, is a failed call).  \<open>rt_mem\<close> is the memory
  of the nodes; a read where no node is, as through \<open>NULL\<close>, is the value \<open>None\<close> of the operation.\<close>

record ngx_radix_node =
  rn_right :: ptr
  rn_left :: ptr
  rn_parent :: ptr
  rn_value :: u64

record ngx_radix_tree =
  rt_root :: ptr
  rt_pool :: "ptr list"
  rt_free :: ptr
  rt_start :: ptr
  rt_size :: nat
  rt_mem :: "ptr \<rightharpoonup> ngx_radix_node"

text \<open>Sizes on an LP64 platform: four, and five, words of eight bytes.\<close>

abbreviation (input) sizeof_radix_node :: nat where "sizeof_radix_node \<equiv> 32"
abbreviation (input) sizeof_radix_tree :: nat where "sizeof_radix_tree \<equiv> 40"

definition radix_pmemalign :: "ngx_radix_tree \<Rightarrow> ptr \<times> ngx_radix_tree" where
  "radix_pmemalign tree =
    (case rt_pool tree of [] \<Rightarrow> (NULL, tree) | p # ps \<Rightarrow> (p, tree\<lparr>rt_pool := ps\<rparr>))"

definition radix_take :: "ngx_radix_tree \<Rightarrow> ptr \<times> ngx_radix_tree" where
  "radix_take tree =
    (rt_start tree,
     tree\<lparr>rt_start := rt_start tree + sizeof_radix_node, rt_size := rt_size tree - sizeof_radix_node\<rparr>)"

text \<open>\<open>ngx_radix_alloc\<close>: from the free list, or from the current page, or from a new page.\<close>

definition ngx_radix_alloc :: "nat \<Rightarrow> ngx_radix_tree \<Rightarrow> (ptr \<times> ngx_radix_tree) option" where
  "ngx_radix_alloc ngx_pagesize tree =
    (if rt_free tree \<noteq> NULL then
       (case rt_mem tree (rt_free tree) of
          None \<Rightarrow> None
        | Some n \<Rightarrow> Some (rt_free tree, tree\<lparr>rt_free := rn_right n\<rparr>))
     else if rt_size tree < sizeof_radix_node then
       (let (start, tree) = radix_pmemalign tree;
            tree = tree\<lparr>rt_start := start\<rparr> in
        if start = NULL then Some (NULL, tree)
        else Some (radix_take (tree\<lparr>rt_size := ngx_pagesize\<rparr>)))
     else Some (radix_take tree))"

lemma unat_half: "unat (drop_bit (Suc 0) (b :: u32)) = unat b div 2"
  by (simp add: drop_bit_eq_div unat_div)

lemma half_less: "(b :: u32) \<noteq> 0 \<Longrightarrow> unat (drop_bit (Suc 0) b) < unat b"
  by (simp add: unat_half unat_gt_0)

text \<open>\<open>ngx_radix32tree_insert\<close>: the loop down to the node of the prefix or to the last node on its
  path, the loop that builds the rest of the path, and the function.  \<open>radix_insert_at\<close> is the
  code from the first loop on, with \<open>bit\<close>, \<open>node\<close> and \<open>next\<close> as its state.\<close>

definition radix_child :: "u32 \<Rightarrow> u32 \<Rightarrow> ngx_radix_node \<Rightarrow> ptr" where
  "radix_child key bt n = (if key AND bt \<noteq> 0 then rn_right n else rn_left n)"

function radix_descend ::
  "(ptr \<rightharpoonup> ngx_radix_node) \<Rightarrow> u32 \<Rightarrow> u32 \<Rightarrow> u32 \<Rightarrow> ptr \<Rightarrow> ptr \<Rightarrow> (u32 \<times> ptr \<times> ptr) option" where
  "radix_descend mem key msk bt node nxt =
    (if bt AND msk \<noteq> 0 then
       (case mem node of
          None \<Rightarrow> None
        | Some n \<Rightarrow>
            let nxt = radix_child key bt n in
            if nxt = NULL then Some (bt, node, nxt)
            else radix_descend mem key msk (drop_bit 1 bt) nxt nxt)
     else Some (bt, node, nxt))"
  by auto
termination
  by (relation "measure (\<lambda>(mem, key, msk, bt, node, nxt). unat bt)") (auto intro: half_less)

definition radix_link ::
  "u32 \<Rightarrow> u32 \<Rightarrow> ptr \<Rightarrow> ptr \<Rightarrow> ngx_radix_tree \<Rightarrow> ngx_radix_tree option" where
  "radix_link key bt node nxt tree =
    (case rt_mem tree node of
       None \<Rightarrow> None
     | Some n \<Rightarrow>
         Some (tree\<lparr>rt_mem := (rt_mem tree)(node \<mapsto>
           (if key AND bt \<noteq> 0 then n\<lparr>rn_right := nxt\<rparr> else n\<lparr>rn_left := nxt\<rparr>))\<rparr>))"

definition radix_set_value :: "ptr \<Rightarrow> u64 \<Rightarrow> ngx_radix_tree \<Rightarrow> ngx_radix_tree option" where
  "radix_set_value node value tree =
    (case rt_mem tree node of
       None \<Rightarrow> None
     | Some n \<Rightarrow> Some (tree\<lparr>rt_mem := (rt_mem tree)(node \<mapsto> n\<lparr>rn_value := value\<rparr>)\<rparr>))"

definition radix_new_node :: "ptr \<Rightarrow> ptr \<Rightarrow> ngx_radix_tree \<Rightarrow> ngx_radix_tree" where
  "radix_new_node p parent tree =
    tree\<lparr>rt_mem := (rt_mem tree)(p \<mapsto>
      \<lparr>rn_right = NULL, rn_left = NULL, rn_parent = parent, rn_value = NGX_RADIX_NO_VALUE\<rparr>)\<rparr>"

function radix_build ::
  "nat \<Rightarrow> u32 \<Rightarrow> u32 \<Rightarrow> u64 \<Rightarrow> u32 \<Rightarrow> ptr \<Rightarrow> ngx_radix_tree \<Rightarrow> (ngx_rc \<times> ngx_radix_tree) option" where
  "radix_build ngx_pagesize key msk value bt node tree =
    (if bt AND msk \<noteq> 0 then
       (case ngx_radix_alloc ngx_pagesize tree of
          None \<Rightarrow> None
        | Some (nxt, tree) \<Rightarrow>
            if nxt = NULL then Some (NGX_ERROR, tree)
            else
              (case radix_link key bt node nxt (radix_new_node nxt node tree) of
                 None \<Rightarrow> None
               | Some tree \<Rightarrow> radix_build ngx_pagesize key msk value (drop_bit 1 bt) nxt tree))
     else map_option (Pair NGX_OK) (radix_set_value node value tree))"
  by auto
termination
  by (relation "measure (\<lambda>(pg, key, msk, value, bt, node, tree). unat bt)") (auto intro: half_less)

definition radix_insert_at ::
  "nat \<Rightarrow> u32 \<Rightarrow> u32 \<Rightarrow> u64 \<Rightarrow> u32 \<Rightarrow> ptr \<Rightarrow> ptr \<Rightarrow> ngx_radix_tree \<Rightarrow> (ngx_rc \<times> ngx_radix_tree) option" where
  "radix_insert_at ngx_pagesize key msk value bt node nxt tree =
    (case radix_descend (rt_mem tree) key msk bt node nxt of
       None \<Rightarrow> None
     | Some (bt, node, nxt) \<Rightarrow>
         if nxt \<noteq> NULL then
           (case rt_mem tree node of
              None \<Rightarrow> None
            | Some n \<Rightarrow>
                if rn_value n \<noteq> NGX_RADIX_NO_VALUE then Some (NGX_BUSY, tree)
                else map_option (Pair NGX_OK) (radix_set_value node value tree))
         else radix_build ngx_pagesize key msk value bt node tree)"

definition ngx_radix32tree_insert ::
  "nat \<Rightarrow> ngx_radix_tree \<Rightarrow> u32 \<Rightarrow> u32 \<Rightarrow> u64 \<Rightarrow> (ngx_rc \<times> ngx_radix_tree) option" where
  "ngx_radix32tree_insert ngx_pagesize tree key msk value =
    radix_insert_at ngx_pagesize key msk value 0x80000000 (rt_root tree) (rt_root tree) tree"

text \<open>\<open>ngx_radix32tree_delete\<close>: the loop to the node, the loop \<open>for ( ;; )\<close> that returns nodes without
  children and value to the free list.\<close>

function radix_seek ::
  "(ptr \<rightharpoonup> ngx_radix_node) \<Rightarrow> u32 \<Rightarrow> u32 \<Rightarrow> u32 \<Rightarrow> ptr \<Rightarrow> ptr option" where
  "radix_seek mem key msk bt node =
    (if node \<noteq> NULL \<and> bt AND msk \<noteq> 0 then
       (case mem node of
          None \<Rightarrow> None
        | Some n \<Rightarrow> radix_seek mem key msk (drop_bit 1 bt) (radix_child key bt n))
     else Some node)"
  by auto
termination
  by (relation "measure (\<lambda>(mem, key, msk, bt, node). unat bt)") (auto intro: half_less)

definition radix_unlink :: "ptr \<Rightarrow> ngx_radix_tree \<Rightarrow> (ptr \<times> ngx_radix_tree) option" where
  "radix_unlink node tree =
    (case rt_mem tree node of
       None \<Rightarrow> None
     | Some n \<Rightarrow>
         (case rt_mem tree (rn_parent n) of
            None \<Rightarrow> None
          | Some p \<Rightarrow>
              let p = (if rn_right p = node then p\<lparr>rn_right := NULL\<rparr> else p\<lparr>rn_left := NULL\<rparr>);
                  mem = (rt_mem tree)(rn_parent n \<mapsto> p) in
              (case mem node of
                 None \<Rightarrow> None
               | Some n \<Rightarrow>
                   Some (rn_parent n, tree\<lparr>rt_mem := mem(node \<mapsto> n\<lparr>rn_right := rt_free tree\<rparr>),
                     rt_free := node\<rparr>))))"

partial_function (option) radix_prune :: "ptr \<Rightarrow> ngx_radix_tree \<Rightarrow> ngx_radix_tree option" where
  "radix_prune node tree =
    Option.bind (radix_unlink node tree) (\<lambda>(node, tree).
      Option.bind (rt_mem tree node) (\<lambda>n.
        if rn_right n \<noteq> NULL \<or> rn_left n \<noteq> NULL then Some tree
        else if rn_value n \<noteq> NGX_RADIX_NO_VALUE then Some tree
        else if rn_parent n = NULL then Some tree
        else radix_prune node tree))"

definition ngx_radix32tree_delete ::
  "ngx_radix_tree \<Rightarrow> u32 \<Rightarrow> u32 \<Rightarrow> (ngx_rc \<times> ngx_radix_tree) option" where
  "ngx_radix32tree_delete tree key msk =
    (case radix_seek (rt_mem tree) key msk 0x80000000 (rt_root tree) of
       None \<Rightarrow> None
     | Some node \<Rightarrow>
         if node = NULL then Some (NGX_ERROR, tree)
         else
           (case rt_mem tree node of
              None \<Rightarrow> None
            | Some n \<Rightarrow>
                if rn_right n \<noteq> NULL \<or> rn_left n \<noteq> NULL then
                  if rn_value n \<noteq> NGX_RADIX_NO_VALUE then
                    map_option (Pair NGX_OK) (radix_set_value node NGX_RADIX_NO_VALUE tree)
                  else Some (NGX_ERROR, tree)
                else map_option (Pair NGX_OK) (radix_prune node tree)))"

text \<open>\<open>ngx_radix32tree_find\<close>.\<close>

partial_function (option) radix_find ::
  "(ptr \<rightharpoonup> ngx_radix_node) \<Rightarrow> u32 \<Rightarrow> u32 \<Rightarrow> u64 \<Rightarrow> ptr \<Rightarrow> u64 option" where
  "radix_find mem key bt value node =
    (if node = NULL then Some value
     else
       Option.bind (mem node) (\<lambda>n.
         radix_find mem key (drop_bit 1 bt)
           (if rn_value n \<noteq> NGX_RADIX_NO_VALUE then rn_value n else value)
           (radix_child key bt n)))"

definition ngx_radix32tree_find :: "ngx_radix_tree \<Rightarrow> u32 \<Rightarrow> u64 option" where
  "ngx_radix32tree_find tree key =
    radix_find (rt_mem tree) key 0x80000000 NGX_RADIX_NO_VALUE (rt_root tree)"

text \<open>
  \<open>ngx_radix_tree_create\<close>: \<open>Some None\<close> is the return of \<open>NULL\<close>.  The parameter \<open>palloc\<close> says whether the
  allocation of the tree succeeds, \<open>pool\<close> and \<open>mem\<close> are the pages to come and the memory.
\<close>

partial_function (option) radix_prealloc_keys ::
  "nat \<Rightarrow> u32 \<Rightarrow> u32 \<Rightarrow> u32 \<Rightarrow> ngx_radix_tree \<Rightarrow> (ngx_rc \<times> ngx_radix_tree) option" where
  "radix_prealloc_keys ngx_pagesize msk inc key tree =
    Option.bind (ngx_radix32tree_insert ngx_pagesize tree key msk NGX_RADIX_NO_VALUE)
      (\<lambda>(rc, tree).
        if rc \<noteq> NGX_OK then Some (NGX_ERROR, tree)
        else
          let key = key + inc in
          if key \<noteq> 0 then radix_prealloc_keys ngx_pagesize msk inc key tree
          else Some (NGX_OK, tree))"

primrec radix_prealloc ::
  "nat \<Rightarrow> nat \<Rightarrow> u32 \<Rightarrow> u32 \<Rightarrow> ngx_radix_tree \<Rightarrow> (ngx_rc \<times> ngx_radix_tree) option" where
  "radix_prealloc ngx_pagesize 0 msk inc tree = Some (NGX_OK, tree)"
| "radix_prealloc ngx_pagesize (Suc preallocate) msk inc tree =
    (let msk = drop_bit 1 msk OR 0x80000000 in
     Option.bind (radix_prealloc_keys ngx_pagesize msk inc 0 tree) (\<lambda>(rc, tree).
       if rc \<noteq> NGX_OK then Some (rc, tree)
       else radix_prealloc ngx_pagesize preallocate msk (drop_bit 1 inc) tree))"

definition radix_default_bits :: "nat \<Rightarrow> ngx_int" where
  "radix_default_bits ngx_pagesize =
    (let n = ngx_pagesize div sizeof_radix_tree in
     if n = 128 then 6 else if n = 256 then 7 else 8)"

definition ngx_radix_tree_create ::
  "nat \<Rightarrow> bool \<Rightarrow> ptr list \<Rightarrow> (ptr \<rightharpoonup> ngx_radix_node) \<Rightarrow> ngx_int \<Rightarrow> ngx_radix_tree option option" where
  "ngx_radix_tree_create ngx_pagesize palloc pool mem preallocate =
    (if \<not> palloc then Some None
     else
       let tree = \<lparr>rt_root = NULL, rt_pool = pool, rt_free = NULL, rt_start = NULL, rt_size = 0,
             rt_mem = mem\<rparr> in
       Option.bind (ngx_radix_alloc ngx_pagesize tree) (\<lambda>(root, tree).
         let tree = tree\<lparr>rt_root := root\<rparr> in
         if root = NULL then Some None
         else
           let tree = radix_new_node root NULL tree in
           if preallocate = 0 then Some (Some tree)
           else
             let preallocate = (if preallocate = - 1 then radix_default_bits ngx_pagesize
                                else preallocate) in
             Option.bind (radix_prealloc ngx_pagesize (unat preallocate) 0 0x80000000 tree)
               (\<lambda>(rc, tree). Some (if rc \<noteq> NGX_OK then None else Some tree))))"

declare radix_prune.simps [code] radix_find.simps [code] radix_prealloc_keys.simps [code]
declare radix_descend.simps [simp del] radix_build.simps [simp del] radix_seek.simps [simp del]

text \<open>
  With pages of 4096 bytes the default is eight bits, not the six of the comment: the code divides by
  the size of the tree, not of a node.
\<close>

lemma default_bits_amd64: "radix_default_bits 4096 = 8"
  by (simp add: radix_default_bits_def)


section \<open>The trie that the nodes represent\<close>

text \<open>The trie, with the address of each node.\<close>

datatype rtree = Tip | Nd ptr u64 rtree rtree

primrec raddr :: "rtree \<Rightarrow> ptr" where
  "raddr Tip = NULL"
| "raddr (Nd a v l r) = a"

primrec addrs :: "rtree \<Rightarrow> ptr list" where
  "addrs Tip = []"
| "addrs (Nd a v l r) = a # addrs l @ addrs r"

primrec rheight :: "rtree \<Rightarrow> nat" where
  "rheight Tip = 0"
| "rheight (Nd a v l r) = Suc (max (rheight l) (rheight r))"

primrec rep :: "(ptr \<rightharpoonup> ngx_radix_node) \<Rightarrow> ptr \<Rightarrow> rtree \<Rightarrow> bool" where
  "rep m q Tip \<longleftrightarrow> True"
| "rep m q (Nd a v l r) \<longleftrightarrow> a \<noteq> NULL \<and>
    m a = Some \<lparr>rn_right = raddr r, rn_left = raddr l, rn_parent = q, rn_value = v\<rparr> \<and>
    rep m a l \<and> rep m a r"

primrec look :: "rtree \<Rightarrow> bool list \<Rightarrow> u64" where
  "look Tip ks = NGX_RADIX_NO_VALUE"
| "look (Nd a v l r) ks = (case ks of [] \<Rightarrow> v | k # ks \<Rightarrow> if k then look r ks else look l ks)"

text \<open>The bits of the key that the loops read: as long as the mask has a bit.\<close>

function radix_path :: "u32 \<Rightarrow> u32 \<Rightarrow> u32 \<Rightarrow> bool list" where
  "radix_path key msk bt =
    (if bt AND msk \<noteq> 0 then (key AND bt \<noteq> 0) # radix_path key msk (drop_bit 1 bt) else [])"
  by auto
termination
  by (relation "measure (\<lambda>(key, msk, bt). unat bt)") (auto intro: half_less)

declare radix_path.simps [simp del] look.simps(2) [simp del]

lemma look_Nd [simp]:
  "look (Nd a v l r) [] = v" "look (Nd a v l r) (k # ks) = look (if k then r else l) ks"
  by (simp_all add: look.simps(2))

lemma trie_local:
  "rep m q t \<Longrightarrow> (\<And>a. a \<in> set (addrs t) \<Longrightarrow> m' a = m a) \<Longrightarrow> rep m' q t"
  by (induction t arbitrary: q) auto

lemma raddr_in: "t \<noteq> Tip \<Longrightarrow> raddr t \<in> set (addrs t)"
  by (cases t) auto

lemma rep_raddr: "rep m q t \<Longrightarrow> raddr t = NULL \<longleftrightarrow> t = Tip"
  by (cases t) auto

lemma rep_nonnull: "rep m q t \<Longrightarrow> NULL \<notin> set (addrs t)"
  by (induction t arbitrary: q) auto

lemma radix_path_Nil: "radix_path key msk bt = [] \<longleftrightarrow> bt AND msk = 0"
  by (subst radix_path.simps) simp

lemma radix_path_Cons:
  "radix_path key msk bt = k # ks \<longleftrightarrow>
    bt AND msk \<noteq> 0 \<and> k = (key AND bt \<noteq> 0) \<and> radix_path key msk (drop_bit 1 bt) = ks"
  by (subst radix_path.simps) auto

section \<open>Allocation\<close>

text \<open>The addresses that the current page and the pages to come still give.\<close>

definition arena :: "ptr \<Rightarrow> nat \<Rightarrow> ptr list" where
  "arena p n = map (\<lambda>k. p + 32 * k) [0..<n div 32]"

primrec free_list :: "(ptr \<rightharpoonup> ngx_radix_node) \<Rightarrow> ptr \<Rightarrow> ptr list \<Rightarrow> bool" where
  "free_list m p [] \<longleftrightarrow> p = NULL"
| "free_list m p (f # fs) \<longleftrightarrow> p = f \<and> f \<noteq> NULL \<and> (\<exists>n. m f = Some n \<and> free_list m (rn_right n) fs)"

definition spare :: "nat \<Rightarrow> ngx_radix_tree \<Rightarrow> ptr list" where
  "spare pg T = arena (rt_start T) (rt_size T) @ concat (map (\<lambda>p. if p = NULL then [] else arena p pg) (rt_pool T))"

definition store_ok :: "nat \<Rightarrow> ngx_radix_tree \<Rightarrow> ptr list \<Rightarrow> bool" where
  "store_ok pg T fs \<longleftrightarrow> free_list (rt_mem T) (rt_free T) fs \<and> distinct (fs @ spare pg T) \<and> NULL \<notin> set (fs @ spare pg T)"

lemma arena_small: "n < 32 \<Longrightarrow> arena p n = []"
  by (simp add: arena_def)

lemma arena_step:
  assumes "32 \<le> n" shows "arena p n = p # arena (p + 32) (n - 32)"
proof -
  have "n div 32 = Suc ((n - 32) div 32)" using assms by (simp add: le_div_geq)
  moreover have "[0..<Suc k] = 0 # map Suc [0..<k]" for k by (simp add: upt_conv_Cons map_Suc_upt del: upt_Suc)
  ultimately show ?thesis by (simp add: arena_def algebra_simps)
qed

lemma free_list_local:
  "free_list m p fs \<Longrightarrow> (\<And>a. a \<in> set fs \<Longrightarrow> m' a = m a) \<Longrightarrow> free_list m' p fs"
  by (induction fs arbitrary: p) auto

lemma store_ok_mem:
  assumes "store_ok pg T fs" "\<And>a. a \<in> set fs \<Longrightarrow> m' a = rt_mem T a"
  shows "store_ok pg (T\<lparr>rt_mem := m'\<rparr>) fs"
  using assms free_list_local [of "rt_mem T" "rt_free T" fs m'] by (simp add: store_ok_def spare_def)

lemma radix_alloc:
  assumes "store_ok pg T fs" "32 \<le> pg"
  obtains p T' fs' where "ngx_radix_alloc pg T = Some (p, T')" "rt_mem T' = rt_mem T"
    "rt_root T' = rt_root T" "store_ok pg T' fs'"
    "p = NULL \<or> p \<in> set (fs @ spare pg T)" "p \<notin> set (fs' @ spare pg T')"
    "set (fs' @ spare pg T') \<subseteq> set (fs @ spare pg T)" "set (rt_pool T') \<subseteq> set (rt_pool T)"
    "NULL \<notin> set (rt_pool T) \<Longrightarrow> fs @ spare pg T \<noteq> [] \<Longrightarrow>
      p \<noteq> NULL \<and> length (fs @ spare pg T) = Suc (length (fs' @ spare pg T'))"
proof (cases fs)
  case (Cons f fs')
  then obtain n where n: "rt_free T = f" "f \<noteq> NULL" "rt_mem T f = Some n"
    "free_list (rt_mem T) (rn_right n) fs'" using assms(1) by (auto simp: store_ok_def)
  have "store_ok pg (T\<lparr>rt_free := rn_right n\<rparr>) fs'"
    using assms(1) n(4) Cons by (simp add: store_ok_def spare_def)
  moreover have "ngx_radix_alloc pg T = Some (f, T\<lparr>rt_free := rn_right n\<rparr>)"
    using n by (simp add: ngx_radix_alloc_def)
  moreover have "spare pg (T\<lparr>rt_free := rn_right n\<rparr>) = spare pg T" by (simp add: spare_def)
  ultimately show thesis
    using assms(1) Cons by (intro that [of f "T\<lparr>rt_free := rn_right n\<rparr>" fs']) (auto simp: store_ok_def)
next
  case Nil
  note ex = that
  have free: "rt_free T = NULL" using assms(1) Nil by (simp add: store_ok_def)
  have taken: thesis
    if a: "ngx_radix_alloc pg T = Some (radix_take U)" and U: "rt_mem U = rt_mem T" "rt_root U = rt_root T"
      "rt_free U = NULL" "32 \<le> rt_size U" "set (rt_pool U) \<subseteq> set (rt_pool T)" and sp: "spare pg U = spare pg T" for U
  proof (rule ex [of "rt_start U" "snd (radix_take U)" "[]"])
    have s: "spare pg U = rt_start U # spare pg (snd (radix_take U))"
      using arena_step [OF U(4)] by (simp add: spare_def radix_take_def)
    then show "store_ok pg (snd (radix_take U)) []" "rt_start U \<notin> set ([] @ spare pg (snd (radix_take U)))"
      "set ([] @ spare pg (snd (radix_take U))) \<subseteq> set (fs @ spare pg T)"
      "rt_start U = NULL \<or> rt_start U \<in> set (fs @ spare pg T)"
      "rt_start U \<noteq> NULL \<and> length (fs @ spare pg T) = Suc (length ([] @ spare pg (snd (radix_take U))))"
      using assms(1) U(3) Nil sp by (auto simp: store_ok_def radix_take_def)
  qed (simp_all add: a U radix_take_def)
  show thesis
  proof (cases "rt_size T < 32")
    case False
    then show ?thesis using free by (intro taken [of T]) (simp_all add: ngx_radix_alloc_def)
  next
    case True
    show ?thesis
    proof (cases "fst (radix_pmemalign T) = NULL")
      case True
      obtain T1 where p: "radix_pmemalign T = (NULL, T1)" using True by (cases "radix_pmemalign T") auto
      then have T1: "rt_pool T1 = tl (rt_pool T)" "rt_pool T = [] \<or> hd (rt_pool T) = NULL" "rt_mem T1 = rt_mem T"
        "rt_root T1 = rt_root T" "rt_free T1 = rt_free T" "rt_size T1 = rt_size T"
        by (auto simp: radix_pmemalign_def split: list.splits)
      have s: "spare pg (T1\<lparr>rt_start := NULL\<rparr>) = spare pg T"
        using T1 \<open>rt_size T < 32\<close> by (cases "rt_pool T") (auto simp: spare_def arena_small)
      have p2: "set (rt_pool T1) \<subseteq> set (rt_pool T)" "NULL \<in> set (rt_pool T) \<or> spare pg T = []"
        using T1 \<open>rt_size T < 32\<close> by (cases "rt_pool T"; auto simp: spare_def arena_small)+
      show ?thesis
        by (rule that [of NULL "T1\<lparr>rt_start := NULL\<rparr>" "[]"])
          (use p s T1(3-6) p2 free assms(1) Nil \<open>rt_size T < 32\<close> in
            \<open>auto simp: ngx_radix_alloc_def store_ok_def\<close>)
    next
      case False
      then obtain p ps where p: "rt_pool T = p # ps" "p \<noteq> NULL"
        by (cases "rt_pool T") (auto simp: radix_pmemalign_def)
      show ?thesis
        by (rule taken [of "T\<lparr>rt_pool := ps, rt_start := p, rt_size := pg\<rparr>"])
          (use p free assms(2) \<open>rt_size T < 32\<close> in
            \<open>auto simp: ngx_radix_alloc_def radix_pmemalign_def spare_def arena_small\<close>)
    qed
  qed
qed

section \<open>Insertion\<close>

text \<open>The part of the memory an operation on a subtree may use, what holds of a subtree, and what the
  operation may change.\<close>

definition avail :: "nat \<Rightarrow> ngx_radix_tree \<Rightarrow> ptr list \<Rightarrow> ptr set" where
  "avail pg T fs = set (fs @ spare pg T)"

definition part :: "nat \<Rightarrow> ngx_radix_tree \<Rightarrow> ptr \<Rightarrow> rtree \<Rightarrow> ptr list \<Rightarrow> bool" where
  "part pg T q t fs \<longleftrightarrow> store_ok pg T fs \<and> rep (rt_mem T) q t \<and> distinct (addrs t) \<and>
    set (addrs t) \<inter> avail pg T fs = {}"

definition evolves ::
  "nat \<Rightarrow> ngx_radix_tree \<Rightarrow> rtree \<Rightarrow> ptr list \<Rightarrow> ngx_radix_tree \<Rightarrow> rtree \<Rightarrow> ptr list \<Rightarrow> bool" where
  "evolves pg T t fs T' t' fs' \<longleftrightarrow> avail pg T' fs' \<subseteq> set (addrs t) \<union> avail pg T fs \<and>
    set (addrs t') \<subseteq> set (addrs t) \<union> avail pg T fs \<and>
    (\<forall>a. a \<notin> set (addrs t) \<union> avail pg T fs \<longrightarrow> rt_mem T' a = rt_mem T a) \<and> rt_root T' = rt_root T"

lemma evolves_refl: "evolves pg T t fs T t fs"
  by (auto simp: evolves_def)

lemma evolves_trans:
  "evolves pg T t fs T1 t1 fs1 \<Longrightarrow> evolves pg T1 t1 fs1 T2 t2 fs2 \<Longrightarrow> evolves pg T t fs T2 t2 fs2"
  unfolding evolves_def by (intro conjI allI impI) (blast, blast, metis Un_iff subsetD, metis)

lemma part_child:
  assumes "part pg T q (Nd a v l r) fs" shows "part pg T a (if k then r else l) fs"
  using assms by (auto simp: part_def)

definition put :: "bool \<Rightarrow> rtree \<Rightarrow> rtree \<Rightarrow> rtree" where
  "put k c t = (case t of Tip \<Rightarrow> Tip | Nd a v l r \<Rightarrow> if k then Nd a v l c else Nd a v c r)"

lemma put_Nd: "put k c (Nd a v l r) = (if k then Nd a v l c else Nd a v c r)"
  by (simp add: put_def)

lemma part_lift:
  assumes t: "part pg T q (Nd a v l r) fs" and e: "evolves pg T (if k then r else l) fs T' c' fs'"
    and c: "part pg T' a c' fs'" and root: "raddr c' = raddr (if k then r else l)"
  shows "part pg T' q (put k c' (Nd a v l r)) fs'"
    "evolves pg T (Nd a v l r) fs T' (put k c' (Nd a v l r)) fs'"
proof -
  let ?c = "if k then r else l" and ?o = "if k then l else r"
  have d: "a \<notin> set (addrs ?c) \<union> avail pg T fs"
    "\<And>b. b \<in> set (addrs ?o) \<Longrightarrow> b \<notin> set (addrs ?c) \<union> avail pg T fs"
    using t by (auto simp: part_def)
  have m: "\<And>b. b \<notin> set (addrs ?c) \<union> avail pg T fs \<Longrightarrow> rt_mem T' b = rt_mem T b"
    using e by (simp add: evolves_def)
  have o: "rep (rt_mem T') a ?o"
    by (rule trie_local [of "rt_mem T"]) (use t m d(2) in \<open>auto simp: part_def\<close>)
  have sub: "set (addrs c') \<union> avail pg T' fs' \<subseteq> set (addrs ?c) \<union> avail pg T fs"
    using e by (simp add: evolves_def)
  have oc: "set (addrs ?o) \<inter> (set (addrs c') \<union> avail pg T' fs') = {}" using sub d(2) by blast
  have a: "a \<notin> set (addrs c') \<union> avail pg T' fs'" "a \<notin> set (addrs ?o)"
    using sub d(1) t by (blast, auto simp: part_def)
  show "part pg T' q (put k c' (Nd a v l r)) fs'"
    using t c o m [OF d(1)] root oc a by (auto simp: part_def put_Nd)
  show "evolves pg T (Nd a v l r) fs T' (put k c' (Nd a v l r)) fs'"
    using e by (auto simp: evolves_def put_Nd)
qed

lemma part_link:
  assumes t: "part pg T q (Nd a v l r) fs" and k: "(if k then r else l) = Tip" "k = (key AND bt \<noteq> 0)"
    and m: "rt_mem T1 = rt_mem T" and s: "store_ok pg T1 fs1" and p: "p \<noteq> NULL" "p \<in> avail pg T fs"
    "p \<notin> avail pg T1 fs1" and sub: "avail pg T1 fs1 \<subseteq> avail pg T fs" and root: "rt_root T1 = rt_root T"
  obtains T2 where "radix_link key bt a p (radix_new_node p a T1) = Some T2"
    "part pg T2 q (put k (Nd p NGX_RADIX_NO_VALUE Tip Tip) (Nd a v l r)) fs1"
    "evolves pg T (Nd a v l r) fs T2 (put k (Nd p NGX_RADIX_NO_VALUE Tip Tip) (Nd a v l r)) fs1"
    "rt_pool T2 = rt_pool T1" "spare pg T2 = spare pg T1"
proof -
  let ?n = "\<lparr>rn_right = raddr r, rn_left = raddr l, rn_parent = q, rn_value = v\<rparr>"
  let ?m = "(rt_mem T)(p \<mapsto> \<lparr>rn_right = NULL, rn_left = NULL, rn_parent = a,
         rn_value = NGX_RADIX_NO_VALUE\<rparr>, a \<mapsto> (if k then ?n\<lparr>rn_right := p\<rparr> else ?n\<lparr>rn_left := p\<rparr>))"
  let ?T = "T1\<lparr>rt_mem := ?m\<rparr>" and ?t = "put k (Nd p NGX_RADIX_NO_VALUE Tip Tip) (Nd a v l r)"
  have n: "rt_mem T a = Some ?n" and a: "a \<notin> avail pg T fs" "a \<noteq> p"
    using t p(2) by (auto simp: part_def)
  have link: "radix_link key bt a p (radix_new_node p a T1) = Some ?T"
    using n a(2) m k(2) by (simp add: radix_link_def radix_new_node_def)
  have sp: "spare pg ?T = spare pg T1" by (simp add: spare_def)
  have pa: "p \<notin> set fs1" "a \<notin> set fs1" using p(3) a(1) sub by (auto simp: avail_def)
  have st: "store_ok pg ?T fs1" by (rule store_ok_mem [OF s]) (use pa m in auto)
  have o: "rep ?m a l" "rep ?m a r"
    by (rule trie_local [of "rt_mem T"]; use t p(2) in \<open>auto simp: part_def\<close>)+
  have "part pg ?T q ?t fs1"
    using t o st p sub k(1) sp by (auto simp: part_def put_Nd avail_def)
  moreover have "evolves pg T (Nd a v l r) fs ?T ?t fs1"
    using sub p root m k(1) sp by (auto simp: evolves_def put_Nd avail_def)
  ultimately show thesis using link sp by (intro that [of ?T]) auto
qed


lemma look_put:
  "look (put k c (Nd a v l r)) = (\<lambda>xs. if xs \<noteq> [] \<and> hd xs = k then look c (tl xs) else look (Nd a v l r) xs)"
  by (rule ext, rename_tac xs, case_tac xs) (auto simp: put_Nd)

lemma look_upd_put:
  "look (put k c (Nd a v l r)) = (look (Nd a v l r))(k # ks := x) \<longleftrightarrow>
    look c = (look (if k then r else l))(ks := x)"
  (is "?L = ?R \<longleftrightarrow> ?S")
proof
  assume L: "?L = ?R"
  show ?S
  proof
    fix xs show "look c xs = ((look (if k then r else l))(ks := x)) xs"
      using fun_cong [OF L, of "k # xs"] by (auto simp: look_put)
  qed
next
  assume S: ?S
  show "?L = ?R"
  proof
    fix xs show "?L xs = ?R xs" using S by (cases xs) (auto simp: look_put)
  qed
qed

lemma look_same_put:
  assumes "look c = look (if k then r else l)"
  shows "look (put k c (Nd a v l r)) = look (Nd a v l r)"
proof
  fix xs show "look (put k c (Nd a v l r)) xs = look (Nd a v l r) xs"
    using assms by (cases xs) (auto simp: look_put)
qed

lemma rheight_put:
  "rheight c \<le> max (rheight (if k then r else l)) n \<Longrightarrow>
    rheight (put k c (Nd a v l r)) \<le> max (rheight (Nd a v l r)) (Suc n)"
  by (auto simp: put_Nd)

lemma part_set_value:
  assumes t: "part pg T q (Nd a v l r) fs"
  obtains T' where "radix_set_value a value T = Some T'" "part pg T' q (Nd a value l r) fs"
    "evolves pg T (Nd a v l r) fs T' (Nd a value l r) fs" "rt_pool T' = rt_pool T" "spare pg T' = spare pg T"
proof -
  let ?m = "(rt_mem T)(a \<mapsto> \<lparr>rn_right = raddr r, rn_left = raddr l, rn_parent = q, rn_value = value\<rparr>)"
  have sp: "spare pg (T\<lparr>rt_mem := ?m\<rparr>) = spare pg T" by (simp add: spare_def)
  have o: "rep ?m a l" "rep ?m a r"
    by (rule trie_local [of "rt_mem T"]; use t in \<open>auto simp: part_def\<close>)+
  have st: "store_ok pg (T\<lparr>rt_mem := ?m\<rparr>) fs"
    by (rule store_ok_mem) (use t in \<open>auto simp: part_def avail_def\<close>)
  show thesis
    by (rule that [of "T\<lparr>rt_mem := ?m\<rparr>"])
      (use t o st sp in \<open>auto simp: part_def radix_set_value_def avail_def evolves_def\<close>)
qed

text \<open>What an operation on the subtree \<open>t\<close> has done: \<open>f\<close> is the new content, \<open>n\<close> bounds the new depth.\<close>

definition radix_does ::
  "nat \<Rightarrow> ngx_radix_tree \<Rightarrow> ptr \<Rightarrow> rtree \<Rightarrow> ptr list \<Rightarrow> ngx_radix_tree \<Rightarrow> (bool list \<Rightarrow> u64) \<Rightarrow> nat \<Rightarrow> bool" where
  "radix_does pg T q t fs T' f n \<longleftrightarrow> (\<exists>t' fs'. part pg T' q t' fs' \<and> evolves pg T t fs T' t' fs' \<and>
    raddr t' = raddr t \<and> look t' = f \<and> rheight t' \<le> max (rheight t) n)"

lemma radix_does_same: "part pg T q t fs \<Longrightarrow> radix_does pg T q t fs T (look t) n"
  unfolding radix_does_def by (blast intro: evolves_refl max.cobounded1)

lemma radix_does_lift:
  assumes t: "part pg T q (Nd a v l r) fs" and d: "radix_does pg T a (if k then r else l) fs T' f n"
  shows "f = (look (if k then r else l))(ks := x) \<Longrightarrow>
      radix_does pg T q (Nd a v l r) fs T' ((look (Nd a v l r))(k # ks := x)) (Suc n)"
    "f = look (if k then r else l) \<Longrightarrow> radix_does pg T q (Nd a v l r) fs T' (look (Nd a v l r)) (Suc n)"
proof -
  obtain c' fs' where c: "part pg T' a c' fs'" "evolves pg T (if k then r else l) fs T' c' fs'"
    "raddr c' = raddr (if k then r else l)" "look c' = f" "rheight c' \<le> max (rheight (if k then r else l)) n"
    using d unfolding radix_does_def by blast
  note p = part_lift [OF t c(2,1,3)] and h = rheight_put [OF c(5), of a v]
  have ra: "raddr (put k c' (Nd a v l r)) = raddr (Nd a v l r)" by (simp add: put_Nd)
  show "radix_does pg T q (Nd a v l r) fs T' ((look (Nd a v l r))(k # ks := x)) (Suc n)"
    if "f = (look (if k then r else l))(ks := x)"
    unfolding radix_does_def
    by (rule exI [of _ "put k c' (Nd a v l r)"], rule exI [of _ fs'])
      (use p h ra look_upd_put [of k c' a v l r ks x] c(4) that in simp)
  show "radix_does pg T q (Nd a v l r) fs T' (look (Nd a v l r)) (Suc n)"
    if "f = look (if k then r else l)"
    unfolding radix_does_def
    by (rule exI [of _ "put k c' (Nd a v l r)"], rule exI [of _ fs'])
      (use p h ra look_same_put [of c' k r l a v] c(4) that in simp)
qed

lemma radix_does_after:
  assumes "evolves pg T t fs T1 t1 fs1" "raddr t1 = raddr t" "rheight t1 \<le> max (rheight t) n"
    and "radix_does pg T1 q t1 fs1 T2 f n"
  shows "radix_does pg T q t fs T2 f n"
proof -
  obtain t2 fs2 where "part pg T2 q t2 fs2" "evolves pg T1 t1 fs1 T2 t2 fs2" "raddr t2 = raddr t1"
    "look t2 = f" "rheight t2 \<le> max (rheight t1) n" using assms(4) unfolding radix_does_def by blast
  then show ?thesis unfolding radix_does_def using assms(1-3) evolves_trans
    by (intro exI [of _ t2] exI [of _ fs2]) auto
qed

abbreviation leaf :: "ptr \<Rightarrow> rtree" where "leaf p \<equiv> Nd p NGX_RADIX_NO_VALUE Tip Tip"

lemma look_leaf: "look (leaf p) = look Tip"
  by (rule ext, rename_tac xs, case_tac xs) auto

lemma look_put_leaf: "(if k then r else l) = Tip \<Longrightarrow> look (put k (leaf p) (Nd a v l r)) = look (Nd a v l r)"
  by (rule look_same_put) (simp only: look_leaf)

lemma radix_does_set_value:
  assumes "part pg T q (Nd a v l r) fs"
  obtains T' where "radix_set_value a value T = Some T'"
    "radix_does pg T q (Nd a v l r) fs T' ((look (Nd a v l r))([] := value)) n"
proof -
  obtain T' where T': "radix_set_value a value T = Some T'" "part pg T' q (Nd a value l r) fs"
    "evolves pg T (Nd a v l r) fs T' (Nd a value l r) fs" by (rule part_set_value [OF assms])
  have "look (Nd a value l r) = (look (Nd a v l r))([] := value)"
    by (rule ext, rename_tac xs, case_tac xs) auto
  then have "radix_does pg T q (Nd a v l r) fs T' ((look (Nd a v l r))([] := value)) n"
    unfolding radix_does_def using T'(2,3) by (intro exI [of _ "Nd a value l r"] exI [of _ fs]) simp
  then show thesis using that T'(1) by blast
qed

lemma radix_build_correct:
  assumes pg: "32 \<le> pg" and "radix_path key msk bt = ks" and "part pg T q (Nd a v l r) fs"
    and "ks \<noteq> [] \<Longrightarrow> (if hd ks then r else l) = Tip"
  shows "\<exists>rc T'. radix_build pg key msk value bt a T = Some (rc, T') \<and>
    (rc = NGX_OK \<and> radix_does pg T q (Nd a v l r) fs T' ((look (Nd a v l r))(ks := value)) (Suc (length ks)) \<or>
     rc = NGX_ERROR \<and> radix_does pg T q (Nd a v l r) fs T' (look (Nd a v l r)) (Suc (length ks))) \<and>
    (NULL \<notin> set (rt_pool T) \<longrightarrow> length ks \<le> length (fs @ spare pg T) \<longrightarrow> rc = NGX_OK)"
  using assms(2-4)
proof (induction ks arbitrary: bt T q a v l r fs)
  case Nil
  then have "bt AND msk = 0" by (simp add: radix_path_Nil)
  moreover obtain T' where "radix_set_value a value T = Some T'"
    "radix_does pg T q (Nd a v l r) fs T' ((look (Nd a v l r))([] := value)) (Suc 0)"
    using Nil.prems(2) by (rule radix_does_set_value)
  ultimately show ?case by (subst radix_build.simps) auto
next
  case (Cons k ks)
  let ?t = "Nd a v l r"
  have b: "bt AND msk \<noteq> 0" "k = (key AND bt \<noteq> 0)" "radix_path key msk (drop_bit 1 bt) = ks"
    using Cons.prems(1) by (simp_all add: radix_path_Cons)
  have tip: "(if k then r else l) = Tip" using Cons.prems(3) by simp
  have st: "store_ok pg T fs" using Cons.prems(2) by (simp add: part_def)
  obtain p T1 fs1 where al: "ngx_radix_alloc pg T = Some (p, T1)" "rt_mem T1 = rt_mem T"
    "rt_root T1 = rt_root T" "store_ok pg T1 fs1"
    "p = NULL \<or> p \<in> avail pg T fs" "p \<notin> avail pg T1 fs1" "avail pg T1 fs1 \<subseteq> avail pg T fs"
    "set (rt_pool T1) \<subseteq> set (rt_pool T)"
    "NULL \<notin> set (rt_pool T) \<Longrightarrow> fs @ spare pg T \<noteq> [] \<Longrightarrow>
      p \<noteq> NULL \<and> length (fs @ spare pg T) = Suc (length (fs1 @ spare pg T1))"
    by (rule radix_alloc [OF st pg]) (simp add: avail_def)
  show ?case
  proof (cases "p = NULL")
    case True
    have "part pg T1 q ?t fs1" using Cons.prems(2) al(2,4,7) by (auto simp: part_def)
    moreover have "evolves pg T ?t fs T1 ?t fs1" using al(2,3,7) by (auto simp: evolves_def)
    ultimately have "radix_does pg T q ?t fs T1 (look ?t) (Suc (length (k # ks)))"
      unfolding radix_does_def by (intro exI [of _ ?t] exI [of _ fs1]) simp
    moreover have "radix_build pg key msk value bt a T = Some (NGX_ERROR, T1)"
      using b(1) al(1) True by (subst radix_build.simps) simp
    moreover have "length (k # ks) \<le> length (fs @ spare pg T) \<Longrightarrow> NULL \<notin> set (rt_pool T) \<Longrightarrow> False"
      using al(9) True by (cases "fs @ spare pg T = []") auto
    ultimately show ?thesis by auto
  next
    case False
    then have pin: "p \<in> avail pg T fs" using al(5) by simp
    obtain T2 where T2: "radix_link key bt a p (radix_new_node p a T1) = Some T2"
      "part pg T2 q (put k (leaf p) ?t) fs1" "evolves pg T ?t fs T2 (put k (leaf p) ?t) fs1"
      "rt_pool T2 = rt_pool T1" "spare pg T2 = spare pg T1"
      by (rule part_link [OF Cons.prems(2) tip b(2) al(2,4) False pin al(6,7,3)])
    let ?l = "if k then l else leaf p" and ?r = "if k then leaf p else r"
    have t2: "put k (leaf p) ?t = Nd a v ?l ?r" by (simp add: put_Nd)
    have pl: "part pg T2 a (leaf p) fs1" using part_child [of pg T2 q a v ?l ?r fs1 k] T2(2) t2 by (cases k) simp_all
    obtain rc T' where IH: "radix_build pg key msk value (drop_bit 1 bt) p T2 = Some (rc, T')"
      "rc = NGX_OK \<and> radix_does pg T2 a (leaf p) fs1 T' ((look (leaf p))(ks := value)) (Suc (length ks)) \<or>
       rc = NGX_ERROR \<and> radix_does pg T2 a (leaf p) fs1 T' (look (leaf p)) (Suc (length ks))"
      "NULL \<notin> set (rt_pool T2) \<longrightarrow> length ks \<le> length (fs1 @ spare pg T2) \<longrightarrow> rc = NGX_OK"
      using Cons.IH [OF b(3) pl if_cancel] by blast
    have bu: "radix_build pg key msk value bt a T = Some (rc, T')"
      using b(1) al(1) False T2(1) IH(1) by (subst radix_build.simps) simp
    have sub: "(if k then ?r else ?l) = leaf p" by (cases k) simp_all
    have lt: "look (Nd a v ?l ?r) = look ?t" using look_put_leaf [OF tip, of p a v] t2 by simp
    have h: "rheight (Nd a v ?l ?r) \<le> max (rheight ?t) (Suc (Suc (length ks)))" by (cases k) auto
    have after: "radix_does pg T2 q (Nd a v ?l ?r) fs1 T' f (Suc (Suc (length ks))) \<Longrightarrow>
        radix_does pg T q ?t fs T' f (Suc (length (k # ks)))" for f
      using radix_does_after [OF T2(3) _ _ , of "Suc (Suc (length ks))" q T' f] h unfolding t2 by simp
    have lift: "radix_does pg T2 a (leaf p) fs1 T' f n \<Longrightarrow>
        radix_does pg T2 a (if k then ?r else ?l) fs1 T' f n" for f n by (simp only: sub)
    note up = radix_does_lift [OF T2(2) [unfolded t2] lift, unfolded sub lt]
    show ?thesis using IH(2)
    proof
      assume ok: "rc = NGX_OK \<and> radix_does pg T2 a (leaf p) fs1 T' ((look (leaf p))(ks := value)) (Suc (length ks))"
      then have "radix_does pg T q ?t fs T' ((look ?t)(k # ks := value)) (Suc (length (k # ks)))"
        by (intro after up(1)) auto
      then show ?thesis using bu ok by blast
    next
      assume er: "rc = NGX_ERROR \<and> radix_does pg T2 a (leaf p) fs1 T' (look (leaf p)) (Suc (length ks))"
      then have "radix_does pg T q ?t fs T' (look ?t) (Suc (length (k # ks)))"
        by (intro after up(2)) auto
      moreover have "length (k # ks) \<le> length (fs @ spare pg T) \<Longrightarrow> NULL \<notin> set (rt_pool T) \<Longrightarrow> rc = NGX_OK"
        using IH(3) al(8,9) T2(4,5) by (cases "fs @ spare pg T = []") auto
      ultimately show ?thesis using bu er by blast
    qed
  qed
qed


lemma radix_insert_correct:
  assumes pg: "32 \<le> pg" and "radix_path key msk bt = ks" and "part pg T q t fs" "t \<noteq> Tip" "nxt \<noteq> NULL"
  shows "\<exists>rc T'. radix_insert_at pg key msk value bt (raddr t) nxt T = Some (rc, T') \<and>
    (if look t ks \<noteq> NGX_RADIX_NO_VALUE then rc = NGX_BUSY \<and> T' = T
     else rc = NGX_OK \<and> radix_does pg T q t fs T' ((look t)(ks := value)) (Suc (length ks)) \<or>
       rc = NGX_ERROR \<and> radix_does pg T q t fs T' (look t) (Suc (length ks))) \<and>
    (NULL \<notin> set (rt_pool T) \<longrightarrow> length ks \<le> length (fs @ spare pg T) \<longrightarrow> rc \<noteq> NGX_ERROR)"
  using assms(2-5)
proof (induction ks arbitrary: bt q t nxt)
  case Nil
  obtain a v l r where t: "t = Nd a v l r" using Nil.prems(3) by (cases t) auto
  have m: "rt_mem T a = Some \<lparr>rn_right = raddr r, rn_left = raddr l, rn_parent = q, rn_value = v\<rparr>"
    using Nil.prems(2) by (simp add: part_def t)
  have d: "radix_descend (rt_mem T) key msk bt a nxt = Some (bt, a, nxt)"
    using Nil.prems(1) by (subst radix_descend.simps) (simp add: radix_path_Nil)
  show ?case
  proof (cases "v = NGX_RADIX_NO_VALUE")
    case True
    obtain T' where "radix_set_value a value T = Some T'"
      "radix_does pg T q (Nd a v l r) fs T' ((look (Nd a v l r))([] := value)) (Suc 0)"
      by (rule radix_does_set_value [OF Nil.prems(2) [unfolded t]])
    then show ?thesis using True d m Nil.prems(4)
      by (intro exI [of _ NGX_OK] exI [of _ T']) (simp add: radix_insert_at_def t del: fun_upd_apply)
  next
    case False
    then show ?thesis using d m Nil.prems(4) by (simp add: radix_insert_at_def t)
  qed
next
  case (Cons k ks)
  obtain a v l r where t: "t = Nd a v l r" using Cons.prems(3) by (cases t) auto
  let ?c = "if k then r else l"
  have b: "bt AND msk \<noteq> 0" "k = (key AND bt \<noteq> 0)" "radix_path key msk (drop_bit 1 bt) = ks"
    using Cons.prems(1) by (simp_all add: radix_path_Cons)
  have m: "rt_mem T a = Some \<lparr>rn_right = raddr r, rn_left = raddr l, rn_parent = q, rn_value = v\<rparr>"
    using Cons.prems(2) by (simp add: part_def t)
  have pt: "part pg T q (Nd a v l r) fs" using Cons.prems(2) by (simp add: t)
  have pc: "part pg T a ?c fs" by (rule part_child [OF pt])
  have lk: "look t (k # ks) = look ?c ks" by (simp add: t)
  show ?case
  proof (cases "?c = Tip")
    case True
    have "radix_descend (rt_mem T) key msk bt a nxt = Some (bt, a, NULL)"
      using b(1,2) m True by (subst radix_descend.simps) (auto simp: radix_child_def split: if_splits)
    then have "radix_insert_at pg key msk value bt (raddr t) nxt T = radix_build pg key msk value bt a T"
      by (simp add: radix_insert_at_def t)
    moreover have "look t (k # ks) = NGX_RADIX_NO_VALUE" using lk True by simp
    ultimately show ?thesis
      using radix_build_correct [OF pg Cons.prems(1) pt, of "value"] True
      unfolding t by fastforce
  next
    case False
    have nn: "raddr ?c \<noteq> NULL" using pc False rep_raddr [of "rt_mem T" a ?c] unfolding part_def by blast
    have "radix_descend (rt_mem T) key msk bt a nxt =
        radix_descend (rt_mem T) key msk (drop_bit 1 bt) (raddr ?c) (raddr ?c)"
      using b(1,2) m nn by (subst radix_descend.simps) (auto simp: radix_child_def Let_def split: if_splits)
    then have eq: "radix_insert_at pg key msk value bt (raddr t) nxt T =
        radix_insert_at pg key msk value (drop_bit 1 bt) (raddr ?c) (raddr ?c) T"
      by (simp add: radix_insert_at_def t)
    have up: "radix_does pg T a ?c fs T' ((look ?c)(ks := value)) (Suc (length ks)) \<Longrightarrow>
        radix_does pg T q t fs T' ((look t)(k # ks := value)) (Suc (length (k # ks)))"
      "radix_does pg T a ?c fs T' (look ?c) (Suc (length ks)) \<Longrightarrow>
        radix_does pg T q t fs T' (look t) (Suc (length (k # ks)))" for T'
      using radix_does_lift [OF pt] unfolding t by simp_all
    obtain rc T' where IH: "radix_insert_at pg key msk value (drop_bit 1 bt) (raddr ?c) (raddr ?c) T = Some (rc, T')"
      "if look ?c ks \<noteq> NGX_RADIX_NO_VALUE then rc = NGX_BUSY \<and> T' = T
       else rc = NGX_OK \<and> radix_does pg T a ?c fs T' ((look ?c)(ks := value)) (Suc (length ks)) \<or>
         rc = NGX_ERROR \<and> radix_does pg T a ?c fs T' (look ?c) (Suc (length ks))"
      "NULL \<notin> set (rt_pool T) \<longrightarrow> length ks \<le> length (fs @ spare pg T) \<longrightarrow> rc \<noteq> NGX_ERROR"
      using Cons.IH [OF b(3) pc False nn] by blast
    show ?thesis unfolding eq lk
    proof (intro exI conjI)
      show "if look ?c ks \<noteq> NGX_RADIX_NO_VALUE then rc = NGX_BUSY \<and> T' = T
       else rc = NGX_OK \<and> radix_does pg T q t fs T' ((look t)(k # ks := value)) (Suc (length (k # ks))) \<or>
         rc = NGX_ERROR \<and> radix_does pg T q t fs T' (look t) (Suc (length (k # ks)))"
        using IH(2) up
        by (cases "look ?c ks = NGX_RADIX_NO_VALUE") (simp_all only: if_True if_False simp_thms, blast)
    qed (use IH(1,3) in auto)
  qed
qed

section \<open>Keys\<close>

text \<open>The first bits of a key, the most significant one first; the prefix that a key and a mask name: the
  bits of the key under the leading ones of the mask.\<close>

definition bits_from :: "u32 \<Rightarrow> nat \<Rightarrow> bool list" where
  "bits_from key i = map (bit key) (rev [0..<i])"

definition prefix_bits :: "u32 \<Rightarrow> u32 \<Rightarrow> bool list" where
  "prefix_bits key msk = take (length (takeWhile id (bits_from msk 32))) (bits_from key 32)"

lemma radix_path_bits:
  "i \<le> 32 \<Longrightarrow> radix_path key msk (if i = 0 then 0 else push_bit (i - 1) 1) =
    take (length (takeWhile id (bits_from msk i))) (bits_from key i)"
proof (induction i)
  case 0
  then show ?case by (simp add: radix_path_Nil bits_from_def)
next
  case (Suc i)
  have test2: "(w AND push_bit i 1) \<noteq> 0 \<longleftrightarrow> bit w i" for w :: u32
    using and_push_bit_one_iff [of w i] Suc.prems by auto
  then have test: "(push_bit i 1 AND w) \<noteq> 0 \<longleftrightarrow> bit w i" for w :: u32
    by (subst and.commute)
  have half: "drop_bit 1 (push_bit i 1 :: u32) = (if i = 0 then 0 else push_bit (i - 1) 1)"
    by (rule bit_eqI) (use Suc.prems in \<open>auto simp: bit_simps\<close>)
  have fr: "bits_from w (Suc i) = bit w i # bits_from w i" for w by (simp add: bits_from_def)
  show ?case
  proof (cases "bit msk i")
    case True
    then have "radix_path key msk (push_bit i 1) =
        bit key i # radix_path key msk (if i = 0 then 0 else push_bit (i - 1) 1)"
      by (subst radix_path_Cons) (simp only: test test2 half True simp_thms)
    then show ?thesis using Suc True by (simp add: fr)
  next
    case False
    then have "radix_path key msk (push_bit i 1) = []" using test [of msk] by (simp add: radix_path_Nil)
    then show ?thesis using False by (simp add: fr)
  qed
qed

lemma radix_path_prefix: "radix_path key msk 0x80000000 = prefix_bits key msk"
  using radix_path_bits [of 32 key msk] by (simp add: prefix_bits_def)

lemma prefix_bits_length: "length (prefix_bits key msk) \<le> 32"
  by (simp add: prefix_bits_def bits_from_def)

lemma prefix_bits_full: "prefix_bits key (- 1) = bits_from key 32"
proof -
  have "\<forall>x \<in> set (bits_from (- 1) 32). id x" by (auto simp: bits_from_def bit_simps)
  then have "takeWhile id (bits_from (- 1) 32) = bits_from (- 1) 32" by (simp only: takeWhile_eq_all_conv)
  then have "length (takeWhile id (bits_from (- 1) 32)) = 32" by (simp only:) (simp add: bits_from_def)
  then show ?thesis unfolding prefix_bits_def by (simp only:) (simp add: bits_from_def)
qed

section \<open>Lookup\<close>

text \<open>The reference for a lookup: the value of the longest prefix that has one.\<close>

definition longest_match :: "(bool list \<Rightarrow> u64) \<Rightarrow> bool list \<Rightarrow> u64" where
  "longest_match f ks =
    (case filter (\<lambda>j. f (take j ks) \<noteq> NGX_RADIX_NO_VALUE) (rev [0..<Suc (length ks)]) of
       [] \<Rightarrow> NGX_RADIX_NO_VALUE
     | j # js \<Rightarrow> f (take j ks))"

primrec matches :: "u64 \<Rightarrow> (bool list \<Rightarrow> u64) \<Rightarrow> bool list \<Rightarrow> u64" where
  "matches acc f [] = (if f [] \<noteq> NGX_RADIX_NO_VALUE then f [] else acc)"
| "matches acc f (k # ks) =
    matches (if f [] \<noteq> NGX_RADIX_NO_VALUE then f [] else acc) (\<lambda>xs. f (k # xs)) ks"

lemma matches_none: "(\<And>xs. f xs = NGX_RADIX_NO_VALUE) \<Longrightarrow> matches acc f ks = acc"
  by (induction ks arbitrary: f) auto

lemma matches_case:
  "matches acc f ks =
    (case filter (\<lambda>j. f (take j ks) \<noteq> NGX_RADIX_NO_VALUE) (rev [0..<Suc (length ks)]) of
       [] \<Rightarrow> acc
     | j # js \<Rightarrow> f (take j ks))"
proof (induction ks arbitrary: acc f)
  case Nil then show ?case by simp
next
  case (Cons k ks)
  have z: "[0..<Suc n] = 0 # map Suc [0..<n]" for n by (simp add: upt_conv_Cons map_Suc_upt del: upt_Suc)
  have up: "rev [0..<Suc (length (k # ks))] = map Suc (rev [0..<Suc (length ks)]) @ [0]"
    using z [of "Suc (length ks)"] by (simp add: rev_map del: upt_Suc)
  show ?case unfolding up matches.simps Cons.IH
    by (simp add: filter_map comp_def del: upt_Suc split: list.split)
qed

lemma matches_longest: "matches NGX_RADIX_NO_VALUE f ks = longest_match f ks"
  unfolding longest_match_def by (rule matches_case)

lemma radix_find_correct:
  assumes "rep m q t" "rheight t \<le> Suc (length (radix_path key (- 1) bt))"
  shows "radix_find m key bt acc (raddr t) = Some (matches acc (look t) (radix_path key (- 1) bt))"
  using assms
proof (induction t arbitrary: q bt acc)
  case Tip
  then show ?case by (simp add: radix_find.simps matches_none)
next
  case (Nd a v l r)
  let ?acc = "if v \<noteq> NGX_RADIX_NO_VALUE then v else acc"
  have m: "a \<noteq> NULL" "m a = Some \<lparr>rn_right = raddr r, rn_left = raddr l, rn_parent = q, rn_value = v\<rparr>"
    and c: "rep m a l" "rep m a r" using Nd.prems(1) by auto
  show ?case
  proof (cases "radix_path key (- 1) bt")
    case Nil
    then have bt: "bt = 0" by (simp add: radix_path_Nil)
    have "l = Tip" using Nd.prems(2) Nil by (cases l) auto
    then show ?thesis using m Nil unfolding bt
      by (simp add: radix_find.simps [of m key 0 acc a] radix_find.simps [of m key _ _ 0] radix_child_def)
  next
    case (Cons k ks)
    then have b: "k = (key AND bt \<noteq> 0)" "radix_path key (- 1) (drop_bit 1 bt) = ks"
      by (simp_all add: radix_path_Cons)
    have h: "rheight l \<le> Suc (length ks)" "rheight r \<le> Suc (length ks)" using Nd.prems(2) Cons by auto
    have "radix_find m key (drop_bit 1 bt) ?acc (raddr (if k then r else l)) =
        Some (matches ?acc (look (if k then r else l)) ks)"
      using Nd.IH(1) [OF c(1), of "drop_bit 1 bt" ?acc] Nd.IH(2) [OF c(2), of "drop_bit 1 bt" ?acc] h b(2)
      by (cases k) simp_all
    then show ?thesis using m Cons b(1)
      by (cases "key AND bt = 0") (auto simp: radix_find.simps [of m key bt acc a] radix_child_def)
  qed
qed

section \<open>Deletion\<close>

primrec subtree :: "rtree \<Rightarrow> bool list \<Rightarrow> rtree" where
  "subtree t [] = t"
| "subtree t (k # ks) = (case t of Tip \<Rightarrow> Tip | Nd a v l r \<Rightarrow> subtree (if k then r else l) ks)"

lemma subtree_Tip [simp]: "subtree Tip ks = Tip"
  by (cases ks) auto

lemma subtree_look: "look t ks = look (subtree t ks) []"
proof (induction ks arbitrary: t)
  case (Cons k ks) then show ?case by (cases t) auto
qed simp

lemma radix_seek_correct:
  assumes "rep m q t" "radix_path key msk bt = ks"
  shows "radix_seek m key msk bt (raddr t) = Some (raddr (subtree t ks))"
  using assms
proof (induction ks arbitrary: q t bt)
  case Nil
  then show ?case by (subst radix_seek.simps) (simp add: radix_path_Nil)
next
  case (Cons k ks)
  have b: "bt AND msk \<noteq> 0" "k = (key AND bt \<noteq> 0)" "radix_path key msk (drop_bit 1 bt) = ks"
    using Cons.prems(2) by (simp_all add: radix_path_Cons)
  show ?case
  proof (cases t)
    case Tip
    then show ?thesis by (subst radix_seek.simps) simp
  next
    case (Nd a v l r)
    then have "rep m a (if k then r else l)" using Cons.prems(1) by simp
    from Cons.IH [OF this b(3)] show ?thesis using Cons.prems(1) b(1,2) Nd
      by (subst radix_seek.simps) (auto simp: radix_child_def split: if_splits)
  qed
qed

lemma rep_subtree: "rep m q t \<Longrightarrow> \<exists>p. rep m p (subtree t ks)"
proof (induction ks arbitrary: q t)
  case (Cons k ks)
  then show ?case
  proof (cases t)
    case (Nd a v l r)
    then have "rep m a (if k then r else l)" using Cons.prems by simp
    then show ?thesis using Cons.IH Nd by (simp only: subtree.simps rtree.case)
  qed simp
qed auto

lemma radix_does_low:
  assumes "radix_does pg T q t fs T' f (Suc 0)" "t \<noteq> Tip" shows "radix_does pg T q t fs T' f 0"
proof -
  have "max (rheight t) (Suc 0) = max (rheight t) 0" using assms(2) by (cases t) auto
  then show ?thesis using assms(1) by (simp only: radix_does_def)
qed

lemma set_value_deep:
  assumes "part pg T q t fs" "subtree t ks = Nd n w l' r'"
  shows "\<exists>T'. radix_set_value n x T = Some T' \<and> radix_does pg T q t fs T' ((look t)(ks := x)) 0"
  using assms
proof (induction ks arbitrary: q t)
  case Nil
  then have pt: "part pg T q (Nd n w l' r') fs" and t: "t = Nd n w l' r'" by simp_all
  obtain T' where "radix_set_value n x T = Some T'" "radix_does pg T q t fs T' ((look t)([] := x)) 0"
    unfolding t by (rule radix_does_set_value [OF pt])
  then show ?case by blast
next
  case (Cons k ks)
  then obtain a v l r where t: "t = Nd a v l r" by (cases t) auto
  have pt: "part pg T q (Nd a v l r) fs" using Cons.prems(1) t by simp
  obtain T' where T': "radix_set_value n x T = Some T'"
    "radix_does pg T a (if k then r else l) fs T' ((look (if k then r else l))(ks := x)) 0"
    using Cons.IH [OF part_child [OF pt], of k] Cons.prems(2) [unfolded t] by (simp only: subtree.simps rtree.case) blast
  have "radix_does pg T q t fs T' ((look t)(k # ks := x)) (Suc 0)"
    using radix_does_lift(1) [OF pt T'(2) refl] t by simp
  then have "radix_does pg T q t fs T' ((look t)(k # ks := x)) 0"
    by (rule radix_does_low) (simp add: t)
  then show ?case using T'(1) by blast
qed

lemma part_unlink:
  assumes t: "part pg T q (Nd a v l r) fs" and c: "(if k then r else l) = Nd c w Tip Tip"
  obtains T' where "radix_unlink c T = Some (a, T')"
    "part pg T' q (put k Tip (Nd a v l r)) (c # fs)"
    "evolves pg T (Nd a v l r) fs T' (put k Tip (Nd a v l r)) (c # fs)"
proof -
  let ?p = "\<lparr>rn_right = raddr r, rn_left = raddr l, rn_parent = q, rn_value = v\<rparr>"
  let ?p' = "if k then ?p\<lparr>rn_right := NULL\<rparr> else ?p\<lparr>rn_left := NULL\<rparr>"
  let ?n = "\<lparr>rn_right = NULL, rn_left = NULL, rn_parent = a, rn_value = w\<rparr>"
  let ?m = "(rt_mem T)(a \<mapsto> ?p', c \<mapsto> ?n\<lparr>rn_right := rt_free T\<rparr>)"
  let ?T = "T\<lparr>rt_mem := ?m, rt_free := c\<rparr>"
  let ?o = "if k then l else r"
  have d: "a \<noteq> c" "c \<notin> set (addrs ?o)" "a \<notin> set (addrs ?o)" "c \<notin> avail pg T fs" "a \<notin> avail pg T fs"
    "c \<noteq> NULL" "a \<noteq> NULL"
    using t c by (auto simp: part_def split: if_splits)
  have m: "rt_mem T a = Some ?p" "rt_mem T c = Some ?n"
    using t c by (auto simp: part_def split: if_splits)
  have side: "raddr r = c \<longleftrightarrow> k"
    using c d(2,6) raddr_in [of r] by (cases k; cases r) auto
  have un: "radix_unlink c T = Some (a, ?T)"
    using m d(1) side by (auto simp: radix_unlink_def Let_def)
  have sp: "spare pg ?T = spare pg T" by (simp add: spare_def)
  have o: "rep ?m a ?o"
    by (rule trie_local [of "rt_mem T"]) (use t d in \<open>auto simp: part_def\<close>)
  have fl: "free_list ?m (rt_free T) fs"
    by (rule free_list_local [of "rt_mem T"])
      (use t d in \<open>auto simp: part_def store_ok_def avail_def\<close>)
  have "store_ok pg ?T (c # fs)"
    using t d(4,6) fl sp by (auto simp: part_def store_ok_def avail_def)
  then have "part pg ?T q (put k Tip (Nd a v l r)) (c # fs)"
    using t d o sp by (cases k) (auto simp: part_def put_Nd avail_def)
  moreover have "evolves pg T (Nd a v l r) fs ?T (put k Tip (Nd a v l r)) (c # fs)"
    using c sp by (cases k) (auto simp: evolves_def put_Nd avail_def)
  ultimately show thesis using un that by blast
qed


lemma radix_prune_correct:
  assumes "part pg T q t fs" "subtree t ks = Nd n w Tip Tip"
  shows "(\<exists>T'. radix_prune n T = Some T' \<and>
      radix_does pg T q t fs T' ((look t)(ks := NGX_RADIX_NO_VALUE)) 0) \<or>
    (\<exists>T1 fs1 v'. radix_prune n T = radix_prune (raddr t) T1 \<and>
      part pg T1 q (Nd (raddr t) v' Tip Tip) fs1 \<and> evolves pg T t fs T1 (Nd (raddr t) v' Tip Tip) fs1 \<and>
      (look t)(ks := NGX_RADIX_NO_VALUE) = look Tip \<and> (ks = [] \<or> q \<noteq> NULL))"
  (is "?stops q t ks \<or> ?goes q t ks")
  using assms
proof (induction ks arbitrary: q t)
  case Nil
  have "(look (Nd n w Tip Tip))([] := NGX_RADIX_NO_VALUE) = look Tip"
    by (rule ext, rename_tac xs, case_tac xs) auto
  then have "?goes q t []" using Nil evolves_refl
    by (intro exI [of _ T] exI [of _ fs] exI [of _ w]) simp
  then show ?case ..
next
  case (Cons k ks)
  then obtain a v l r where t: "t = Nd a v l r" by (cases t) auto
  let ?c = "if k then r else l"
  have pt: "part pg T q (Nd a v l r) fs" using Cons.prems(1) t by simp
  have "?stops a ?c ks \<or> ?goes a ?c ks"
    using Cons.IH [OF part_child [OF pt]] Cons.prems(2) t by simp
  then show ?case
  proof
    assume "?stops a ?c ks"
    then obtain T' where T': "radix_prune n T = Some T'"
      "radix_does pg T a ?c fs T' ((look ?c)(ks := NGX_RADIX_NO_VALUE)) 0" by blast
    have "radix_does pg T q t fs T' ((look t)(k # ks := NGX_RADIX_NO_VALUE)) (Suc 0)"
      using radix_does_lift(1) [OF pt T'(2) refl] t by simp
    then have "radix_does pg T q t fs T' ((look t)(k # ks := NGX_RADIX_NO_VALUE)) 0"
      by (rule radix_does_low) (simp add: t)
    then show ?thesis using T'(1) by blast
  next
    assume "?goes a ?c ks"
    then obtain T1 fs1 w' where T1: "radix_prune n T = radix_prune (raddr ?c) T1"
      "part pg T1 a (Nd (raddr ?c) w' Tip Tip) fs1" "evolves pg T ?c fs T1 (Nd (raddr ?c) w' Tip Tip) fs1"
      "(look ?c)(ks := NGX_RADIX_NO_VALUE) = look Tip" by blast
    let ?l1 = "if k then l else Nd (raddr ?c) w' Tip Tip" and ?r1 = "if k then Nd (raddr ?c) w' Tip Tip else r"
    let ?l2 = "if k then l else Tip" and ?r2 = "if k then Tip else r"
    have t1: "put k (Nd (raddr ?c) w' Tip Tip) (Nd a v l r) = Nd a v ?l1 ?r1" by (simp add: put_Nd)
    have t2: "put k Tip (Nd a v ?l1 ?r1) = Nd a v ?l2 ?r2" by (simp add: put_Nd)
    have up: "part pg T1 q (Nd a v ?l1 ?r1) fs1" "evolves pg T t fs T1 (Nd a v ?l1 ?r1) fs1"
      using part_lift [OF pt T1(3,2)] t1 t by simp_all
    obtain T2 where T2: "radix_unlink (raddr ?c) T1 = Some (a, T2)"
      "part pg T2 q (Nd a v ?l2 ?r2) (raddr ?c # fs1)"
      "evolves pg T1 (Nd a v ?l1 ?r1) fs1 T2 (Nd a v ?l2 ?r2) (raddr ?c # fs1)"
      by (rule part_unlink [OF up(1), of k "raddr ?c" w']) (auto simp: t2)
    have ev: "evolves pg T t fs T2 (Nd a v ?l2 ?r2) (raddr ?c # fs1)"
      by (rule evolves_trans [OF up(2) T2(3)])
    have lk: "look (Nd a v ?l2 ?r2) = (look t)(k # ks := NGX_RADIX_NO_VALUE)"
      using look_upd_put [of k Tip a v l r ks NGX_RADIX_NO_VALUE] T1(4) t by (cases k) (simp_all add: put_Nd)
    have m: "rt_mem T2 a = Some \<lparr>rn_right = raddr ?r2, rn_left = raddr ?l2, rn_parent = q, rn_value = v\<rparr>"
      using T2(2) by (simp add: part_def)
    show ?thesis
    proof (cases "raddr ?r2 \<noteq> NULL \<or> raddr ?l2 \<noteq> NULL \<or> v \<noteq> NGX_RADIX_NO_VALUE \<or> q = NULL")
      case True
      have "radix_does pg T q t fs T2 ((look t)(k # ks := NGX_RADIX_NO_VALUE)) 0"
        unfolding radix_does_def
        by (rule exI [of _ "Nd a v ?l2 ?r2"], rule exI [of _ "raddr ?c # fs1"]) (use T2(2) ev lk t in auto)
      moreover have "radix_prune n T = Some T2"
        using T1(1) T2(1) m True by (subst (asm) (2) radix_prune.simps) auto
      ultimately show ?thesis by blast
    next
      case False
      have "?l2 = Tip" "?r2 = Tip"
        using False T2(2) rep_raddr [of "rt_mem T2" a] by (auto simp: part_def)
      moreover have "v = NGX_RADIX_NO_VALUE" "q \<noteq> NULL" using False by auto
      moreover have "radix_prune n T = radix_prune a T2"
        using T1(1) T2(1) m False by (subst (asm) (2) radix_prune.simps) auto
      ultimately have "?goes q t (k # ks)"
        using T2(2) ev lk t look_leaf [of a]
        by (intro exI [of _ T2] exI [of _ "raddr ?c # fs1"] exI [of _ v]) simp
      then show ?thesis ..
    qed
  qed
qed

section \<open>The tree as a map from prefixes\<close>

text \<open>The tree holds the map \<open>f\<close>, and \<open>room\<close> nodes are left.\<close>

definition radix_tree :: "nat \<Rightarrow> ngx_radix_tree \<Rightarrow> (bool list \<Rightarrow> u64) \<Rightarrow> nat \<Rightarrow> bool" where
  "radix_tree pg T f room \<longleftrightarrow> (\<exists>t fs. part pg T NULL t fs \<and> t \<noteq> Tip \<and> rt_root T = raddr t \<and>
    rheight t \<le> 33 \<and> look t = f \<and> room = length (fs @ spare pg T))"

lemma radix_tree_does:
  assumes "part pg T NULL t fs" "t \<noteq> Tip" "rt_root T = raddr t" "rheight t \<le> 33"
    and "radix_does pg T NULL t fs T' f n" "n \<le> 33"
  shows "\<exists>room. radix_tree pg T' f room"
proof -
  obtain t' fs' where t': "part pg T' NULL t' fs'" "evolves pg T t fs T' t' fs'" "raddr t' = raddr t"
    "look t' = f" "rheight t' \<le> max (rheight t) n" using assms(5) unfolding radix_does_def by blast
  have "raddr t \<noteq> NULL" using assms(1,2) rep_raddr unfolding part_def by blast
  then have "t' \<noteq> Tip" using t'(3) by auto
  moreover have "rt_root T' = raddr t'" using t'(2,3) assms(3) by (simp add: evolves_def)
  moreover have "rheight t' \<le> 33" using t'(5) assms(4,6) by simp
  ultimately show ?thesis using t'(1,4) unfolding radix_tree_def by blast
qed

lemma radix_insert_spec:
  assumes "radix_tree pg T f room" "32 \<le> pg"
  shows "\<exists>rc T'. ngx_radix32tree_insert pg T key msk value = Some (rc, T') \<and>
    (if f (prefix_bits key msk) \<noteq> NGX_RADIX_NO_VALUE then rc = NGX_BUSY \<and> T' = T
     else rc = NGX_OK \<and> (\<exists>room. radix_tree pg T' (f(prefix_bits key msk := value)) room) \<or>
       rc = NGX_ERROR \<and> (\<exists>room. radix_tree pg T' f room)) \<and>
    (NULL \<notin> set (rt_pool T) \<longrightarrow> 32 \<le> room \<longrightarrow> rc \<noteq> NGX_ERROR)"
proof -
  let ?ks = "prefix_bits key msk"
  obtain t fs where t: "part pg T NULL t fs" "t \<noteq> Tip" "rt_root T = raddr t" "rheight t \<le> 33"
    "look t = f" "room = length (fs @ spare pg T)" using assms(1) unfolding radix_tree_def by blast
  have nn: "rt_root T \<noteq> NULL" using t(1-3) rep_raddr unfolding part_def by metis
  have len: "Suc (length ?ks) \<le> 33" using prefix_bits_length [of key msk] by simp
  obtain rc T' where r: "radix_insert_at pg key msk value 0x80000000 (raddr t) (rt_root T) T = Some (rc, T')"
    "if look t ?ks \<noteq> NGX_RADIX_NO_VALUE then rc = NGX_BUSY \<and> T' = T
     else rc = NGX_OK \<and> radix_does pg T NULL t fs T' ((look t)(?ks := value)) (Suc (length ?ks)) \<or>
       rc = NGX_ERROR \<and> radix_does pg T NULL t fs T' (look t) (Suc (length ?ks))"
    "NULL \<notin> set (rt_pool T) \<longrightarrow> length ?ks \<le> length (fs @ spare pg T) \<longrightarrow> rc \<noteq> NGX_ERROR"
    using radix_insert_correct [OF assms(2) radix_path_prefix [of key msk] t(1,2) nn] by blast
  have does: "\<exists>room. radix_tree pg T' g room" if "radix_does pg T NULL t fs T' g (Suc (length ?ks))" for g
    by (rule radix_tree_does [OF t(1-4) that len])
  have "if f ?ks \<noteq> NGX_RADIX_NO_VALUE then rc = NGX_BUSY \<and> T' = T
     else rc = NGX_OK \<and> (\<exists>room. radix_tree pg T' (f(?ks := value)) room) \<or>
       rc = NGX_ERROR \<and> (\<exists>room. radix_tree pg T' f room)"
    using r(2) does unfolding t(5) by (cases "f ?ks = NGX_RADIX_NO_VALUE") (simp_all only: if_True if_False simp_thms, blast)
  moreover have "NULL \<notin> set (rt_pool T) \<longrightarrow> 32 \<le> room \<longrightarrow> rc \<noteq> NGX_ERROR"
    using r(3) len t(6) by auto
  moreover have "ngx_radix32tree_insert pg T key msk value = Some (rc, T')"
    using r(1) t(3) by (simp add: ngx_radix32tree_insert_def)
  ultimately show ?thesis by blast
qed

lemma radix_delete_spec:
  assumes T: "radix_tree pg T f room"
    and ok: "prefix_bits key msk \<noteq> [] \<or> (\<exists>k ks. f (k # ks) \<noteq> NGX_RADIX_NO_VALUE)"
  shows "\<exists>rc T' room'. ngx_radix32tree_delete T key msk = Some (rc, T') \<and>
    radix_tree pg T' (f(prefix_bits key msk := NGX_RADIX_NO_VALUE)) room' \<and>
    (rc = NGX_OK \<or> rc = NGX_ERROR \<and> T' = T \<and> f (prefix_bits key msk) = NGX_RADIX_NO_VALUE)"
proof -
  let ?ks = "prefix_bits key msk" and ?g = "f(prefix_bits key msk := NGX_RADIX_NO_VALUE)"
  obtain t fs where t: "part pg T NULL t fs" "t \<noteq> Tip" "rt_root T = raddr t" "rheight t \<le> 33"
    "look t = f" using T unfolding radix_tree_def by blast
  have rep: "rep (rt_mem T) NULL t" using t(1) by (simp add: part_def)
  have seek: "radix_seek (rt_mem T) key msk 0x80000000 (rt_root T) = Some (raddr (subtree t ?ks))"
    using radix_seek_correct [OF rep radix_path_prefix] t(3) by simp
  have does: "\<exists>room. radix_tree pg T' ?g room" if "radix_does pg T NULL t fs T' ((look t)(?ks := NGX_RADIX_NO_VALUE)) 0" for T'
    using radix_tree_does [OF t(1-4) that] t(5) by simp
  have same: "\<exists>room. radix_tree pg T ?g room" if "f ?ks = NGX_RADIX_NO_VALUE"
    using T that by (metis fun_upd_triv)
  show ?thesis
  proof (cases "subtree t ?ks")
    case Tip
    then have none: "f ?ks = NGX_RADIX_NO_VALUE" using subtree_look [of t ?ks] t(5) by simp
    moreover have "ngx_radix32tree_delete T key msk = Some (NGX_ERROR, T)"
      using seek Tip by (simp add: ngx_radix32tree_delete_def)
    ultimately show ?thesis using same by blast
  next
    case (Nd n v l r)
    have v: "f ?ks = v" using subtree_look [of t ?ks] t(5) Nd by simp
    obtain p where p: "n \<noteq> NULL" "rep (rt_mem T) p (Nd n v l r)"
      using rep_subtree [OF rep, of ?ks] Nd by fastforce
    then have m: "rt_mem T n = Some \<lparr>rn_right = raddr r, rn_left = raddr l, rn_parent = p, rn_value = v\<rparr>"
      and ch: "raddr l = NULL \<longleftrightarrow> l = Tip" "raddr r = NULL \<longleftrightarrow> r = Tip" using rep_raddr by auto
    consider (inner) "l \<noteq> Tip \<or> r \<noteq> Tip" "v \<noteq> NGX_RADIX_NO_VALUE" | (bare) "l \<noteq> Tip \<or> r \<noteq> Tip" "v = NGX_RADIX_NO_VALUE"
      | (outer) "l = Tip" "r = Tip" by blast
    then show ?thesis
    proof cases
      case inner
      obtain T' where "radix_set_value n NGX_RADIX_NO_VALUE T = Some T'"
        "radix_does pg T NULL t fs T' ((look t)(?ks := NGX_RADIX_NO_VALUE)) 0"
        using set_value_deep [OF t(1) Nd] by blast
      moreover from this have "ngx_radix32tree_delete T key msk = Some (NGX_OK, T')"
        using seek Nd m p(1) inner ch by (auto simp: ngx_radix32tree_delete_def)
      ultimately show ?thesis using does by blast
    next
      case bare
      then have "ngx_radix32tree_delete T key msk = Some (NGX_ERROR, T)"
        using seek Nd m p(1) ch by (auto simp: ngx_radix32tree_delete_def)
      then show ?thesis using same v bare by blast
    next
      case outer
      have "?ks \<noteq> []"
      proof
        assume e: "?ks = []"
        then obtain k ks where "f (k # ks) \<noteq> NGX_RADIX_NO_VALUE" using ok by auto
        moreover have "t = Nd n v Tip Tip" using Nd e outer by simp
        ultimately show False using t(5) by auto
      qed
      then obtain T' where "radix_prune n T = Some T'"
        "radix_does pg T NULL t fs T' ((look t)(?ks := NGX_RADIX_NO_VALUE)) 0"
        using radix_prune_correct [OF t(1) Nd [unfolded outer]] by blast
      moreover from this have "ngx_radix32tree_delete T key msk = Some (NGX_OK, T')"
        using seek Nd m p(1) outer by (simp add: ngx_radix32tree_delete_def)
      ultimately show ?thesis using does by blast
    qed
  qed
qed

lemma radix_find_spec:
  assumes "radix_tree pg T f room"
  shows "ngx_radix32tree_find T key = Some (longest_match f (bits_from key 32))"
proof -
  obtain t where t: "rep (rt_mem T) NULL t" "rt_root T = raddr t" "rheight t \<le> 33" "look t = f"
    using assms unfolding radix_tree_def part_def by blast
  have path: "radix_path key (- 1) 0x80000000 = bits_from key 32"
    using radix_path_prefix prefix_bits_full by simp
  have "length (bits_from key 32) = 32" by (simp add: bits_from_def)
  then show ?thesis
    using radix_find_correct [OF t(1), of key "0x80000000" NGX_RADIX_NO_VALUE] t(2-4) path
    by (simp add: ngx_radix32tree_find_def matches_longest)
qed

section \<open>Creation\<close>

text \<open>What the pool promises: the pages it returns do not overlap.\<close>

definition pages_apart :: "nat \<Rightarrow> ptr list \<Rightarrow> bool" where
  "pages_apart pg pool \<longleftrightarrow> distinct (concat (map (\<lambda>p. if p = NULL then [] else arena p pg) pool))"

lemma prealloc_keys_returns:
  assumes "radix_tree pg T (\<lambda>_. NGX_RADIX_NO_VALUE) room" "32 \<le> pg"
    and "inc = 0 \<and> key = 0 \<or> inc \<noteq> 0 \<and> unat inc dvd unat key \<and> unat inc dvd 2 ^ 32"
  shows "\<exists>rc T' room'. radix_prealloc_keys pg msk inc key T = Some (rc, T') \<and>
    radix_tree pg T' (\<lambda>_. NGX_RADIX_NO_VALUE) room' \<and> (rc = NGX_OK \<or> rc = NGX_ERROR)"
  using assms(1,3)
proof (induction "2 ^ 32 - unat key" arbitrary: key T room rule: less_induct)
  case less
  let ?f = "\<lambda>_ :: bool list. NGX_RADIX_NO_VALUE"
  have triv: "?f(ks := NGX_RADIX_NO_VALUE) = ?f" for ks by auto
  obtain rc T1 where r: "ngx_radix32tree_insert pg T key msk NGX_RADIX_NO_VALUE = Some (rc, T1)"
    "rc = NGX_OK \<and> (\<exists>room. radix_tree pg T1 ?f room) \<or> rc = NGX_ERROR \<and> (\<exists>room. radix_tree pg T1 ?f room)"
    using radix_insert_spec [OF less.prems(1) assms(2), of key msk NGX_RADIX_NO_VALUE] triv by auto
  then obtain room1 where T1: "radix_tree pg T1 ?f room1" by blast
  show ?case
  proof (cases "rc = NGX_OK \<and> key + inc \<noteq> 0")
    case False
    then show ?thesis using r T1 by (subst radix_prealloc_keys.simps) auto
  next
    case True
    then have i: "inc \<noteq> 0" "unat inc dvd unat key" "unat inc dvd 2 ^ 32" using less.prems(2) by auto
    obtain j n where j: "unat key = unat inc * j" "2 ^ 32 = unat inc * n" using i(2,3) by (auto simp: dvd_def)
    have key: "unat key < 2 ^ 32" using unsigned_less [of key, where 'a = nat] by simp
    then have "unat inc * j < unat inc * n" using j by simp
    then have "Suc j \<le> n" by simp
    then have "unat inc * Suc j \<le> unat inc * n" by (rule mult_le_mono2)
    then have le: "unat key + unat inc \<le> 2 ^ 32" using j by simp
    have mod: "unat (key + inc) = (unat key + unat inc) mod 2 ^ 32" by (simp add: unat_word_ariths)
    have lt: "unat key + unat inc < 2 ^ 32"
    proof (rule ccontr)
      assume "\<not> ?thesis"
      then have "unat (key + inc) = 0" using le mod by simp
      then show False using True by (simp add: unat_eq_0)
    qed
    then have add: "unat (key + inc) = unat key + unat inc" using mod by simp
    have "2 ^ 32 - unat (key + inc) < 2 ^ 32 - unat key"
    proof -
      have "0 < unat inc" using i(1) by (simp add: unat_gt_0)
      then show ?thesis using add lt by linarith
    qed
    from less.hyps [OF this T1] i add obtain rc' T' room' where
      "radix_prealloc_keys pg msk inc (key + inc) T1 = Some (rc', T')"
      "radix_tree pg T' ?f room'" "rc' = NGX_OK \<or> rc' = NGX_ERROR" by auto
    then show ?thesis using r(1) True by (subst radix_prealloc_keys.simps) auto
  qed
qed

lemma half_power:
  assumes "unat (inc :: u32) = 2 ^ e" "e \<le> 32"
  shows "drop_bit 1 inc = 0 \<or> (\<exists>d\<le>32. unat (drop_bit 1 inc) = 2 ^ d)"
proof (cases e)
  case 0
  then have "unat (drop_bit 1 inc) = 0" using assms(1) unat_half [of inc] by simp
  then show ?thesis by (simp add: unat_eq_0)
next
  case (Suc d)
  then have "unat (drop_bit 1 inc) = 2 ^ d" using assms(1) unat_half [of inc] by simp
  then show ?thesis using Suc assms(2) by (intro disjI2 exI [of _ d]) simp
qed

lemma prealloc_returns:
  assumes "radix_tree pg T (\<lambda>_. NGX_RADIX_NO_VALUE) room" "32 \<le> pg" "inc = 0 \<or> (\<exists>e\<le>32. unat inc = 2 ^ e)"
  shows "\<exists>rc T' room'. radix_prealloc pg n msk inc T = Some (rc, T') \<and>
    radix_tree pg T' (\<lambda>_. NGX_RADIX_NO_VALUE) room' \<and> (rc = NGX_OK \<or> rc = NGX_ERROR)"
  using assms(1,3)
proof (induction n arbitrary: msk inc T room)
  case 0 then show ?case by auto
next
  case (Suc n)
  let ?m = "drop_bit 1 msk OR 0x80000000"
  have "inc = 0 \<and> (0::u32) = 0 \<or> inc \<noteq> 0 \<and> unat inc dvd unat (0::u32) \<and> unat inc dvd 2 ^ 32"
    using Suc.prems(2) le_imp_power_dvd [of _ 32 "2 :: nat"] by (metis dvd_0_right unat_0)
  from prealloc_keys_returns [OF Suc.prems(1) assms(2) this, of ?m]
  obtain rc T1 room1 where r: "radix_prealloc_keys pg ?m inc 0 T = Some (rc, T1)"
    "radix_tree pg T1 (\<lambda>_. NGX_RADIX_NO_VALUE) room1" "rc = NGX_OK \<or> rc = NGX_ERROR" by blast
  have "drop_bit 1 inc = 0 \<or> (\<exists>e\<le>32. unat (drop_bit 1 inc) = 2 ^ e)"
    using half_power [of inc] Suc.prems(2) by (cases "inc = 0") auto
  from Suc.IH [OF r(2) this, of ?m] show ?case using r by (cases "rc = NGX_OK") auto
qed

lemma radix_create_spec:
  assumes "pages_apart pg pool" "32 \<le> pg"
  shows "ngx_radix_tree_create pg palloc pool mem preallocate = Some None \<or>
    (\<exists>T room. ngx_radix_tree_create pg palloc pool mem preallocate = Some (Some T) \<and>
      radix_tree pg T (\<lambda>_. NGX_RADIX_NO_VALUE) room)"
proof (cases palloc)
  case True
  let ?T = "\<lparr>rt_root = NULL, rt_pool = pool, rt_free = NULL, rt_start = NULL, rt_size = 0, rt_mem = mem\<rparr>"
  have "store_ok pg ?T []"
    using assms(1) by (auto simp: store_ok_def spare_def arena_small pages_apart_def) (auto simp: arena_def)
  from radix_alloc [OF this assms(2)] obtain p T1 fs1 where
    al: "ngx_radix_alloc pg ?T = Some (p, T1)" "store_ok pg T1 fs1" "p \<notin> set (fs1 @ spare pg T1)" by metis
  let ?U = "radix_new_node p NULL (T1\<lparr>rt_root := p\<rparr>)"
  have "radix_tree pg ?U (\<lambda>_. NGX_RADIX_NO_VALUE) (length (fs1 @ spare pg ?U))" if "p \<noteq> NULL"
  proof -
    have sp: "spare pg ?U = spare pg T1" by (simp add: radix_new_node_def spare_def)
    have "free_list (rt_mem ?U) (rt_free ?U) fs1"
      using al(2,3) free_list_local [of "rt_mem T1" "rt_free T1" fs1 "rt_mem ?U"]
      by (simp add: store_ok_def radix_new_node_def) metis
    then have "part pg ?U NULL (leaf p) fs1"
      using al(2,3) that sp by (auto simp: part_def store_ok_def radix_new_node_def avail_def)
    moreover have "look (leaf p) = (\<lambda>_. NGX_RADIX_NO_VALUE)" by (rule ext) (simp add: look_leaf)
    moreover have "rt_root ?U = p" by (simp add: radix_new_node_def)
    ultimately show ?thesis unfolding radix_tree_def by (intro exI [of _ "leaf p"] exI [of _ fs1]) simp
  qed
  note U = this
  show ?thesis
  proof (cases "p = NULL \<or> preallocate = 0")
    case True
    then show ?thesis using al(1) U \<open>palloc\<close> by (auto simp: ngx_radix_tree_create_def Let_def)
  next
    case False
    have "\<exists>e\<le>32. unat (0x80000000 :: u32) = 2 ^ e" by (intro exI [of _ 31]) simp
    from prealloc_returns [OF U assms(2) disjI2 [OF this], of "unat (if preallocate = - 1 then radix_default_bits pg else preallocate)" 0]
    obtain rc T' room' where
      "radix_prealloc pg (unat (if preallocate = - 1 then radix_default_bits pg else preallocate)) 0 0x80000000 ?U = Some (rc, T')"
      "radix_tree pg T' (\<lambda>_. NGX_RADIX_NO_VALUE) room'" using False by auto
    then show ?thesis using al(1) False \<open>palloc\<close> by (cases "rc = NGX_OK") (auto simp: ngx_radix_tree_create_def Let_def)
  qed
qed (simp add: ngx_radix_tree_create_def)

text \<open>
  Deleting the prefix of length zero in a tree of which only the root is left reads through the
  parent of the root, \<open>NULL\<close>.
\<close>

lemma radix_delete_root_faults:
  assumes "rt_mem T (rt_root T) = Some \<lparr>rn_right = NULL, rn_left = NULL, rn_parent = NULL, rn_value = v\<rparr>"
    "rt_mem T NULL = None" "rt_root T \<noteq> NULL"
  shows "ngx_radix32tree_delete T key 0 = None"
proof -
  have "radix_seek (rt_mem T) key 0 0x80000000 (rt_root T) = Some (rt_root T)"
    by (subst radix_seek.simps) simp
  moreover have "radix_prune (rt_root T) T = None"
    using assms by (subst radix_prune.simps) (simp add: radix_unlink_def)
  ultimately show ?thesis using assms by (simp add: ngx_radix32tree_delete_def)
qed

section \<open>Sequences of operations\<close>

datatype radix_op =
    Radix_insert u32 u32 u64
  | Radix_delete u32 u32

fun radix_exec :: "nat \<Rightarrow> radix_op \<Rightarrow> ngx_radix_tree \<Rightarrow> (ngx_rc \<times> ngx_radix_tree) option" where
  "radix_exec pg (Radix_insert key msk value) T = ngx_radix32tree_insert pg T key msk value"
| "radix_exec pg (Radix_delete key msk) T = ngx_radix32tree_delete T key msk"

inductive prefix_step :: "(bool list \<Rightarrow> u64) \<Rightarrow> radix_op \<Rightarrow> ngx_rc \<Rightarrow> (bool list \<Rightarrow> u64) \<Rightarrow> bool" where
  insert_new: "f (prefix_bits key msk) = NGX_RADIX_NO_VALUE \<Longrightarrow>
    prefix_step f (Radix_insert key msk v) NGX_OK (f(prefix_bits key msk := v))"
| insert_busy: "f (prefix_bits key msk) \<noteq> NGX_RADIX_NO_VALUE \<Longrightarrow>
    prefix_step f (Radix_insert key msk v) NGX_BUSY f"
| insert_no_memory: "f (prefix_bits key msk) = NGX_RADIX_NO_VALUE \<Longrightarrow>
    prefix_step f (Radix_insert key msk v) NGX_ERROR f"
| delete_found: "prefix_step f (Radix_delete key msk) NGX_OK (f(prefix_bits key msk := NGX_RADIX_NO_VALUE))"
| delete_none: "f (prefix_bits key msk) = NGX_RADIX_NO_VALUE \<Longrightarrow>
    prefix_step f (Radix_delete key msk) NGX_ERROR f"

inductive prefix_run ::
  "(bool list \<Rightarrow> u64) \<Rightarrow> radix_op list \<Rightarrow> ngx_rc list \<Rightarrow> (bool list \<Rightarrow> u64) \<Rightarrow> bool" where
  prefix_run_Nil: "prefix_run f [] [] f"
| prefix_run_Cons: "prefix_step f p rc f' \<Longrightarrow> prefix_run f' ps rcs f'' \<Longrightarrow>
    prefix_run f (p # ps) (rc # rcs) f''"

fun op_allowed :: "radix_op \<Rightarrow> bool" where
  "op_allowed (Radix_insert key msk v) \<longleftrightarrow> True"
| "op_allowed (Radix_delete key msk) \<longleftrightarrow> prefix_bits key msk \<noteq> []"

primrec run_ops ::
  "(radix_op \<Rightarrow> 't \<Rightarrow> (ngx_rc \<times> 't) option) \<Rightarrow> radix_op list \<Rightarrow> 't \<Rightarrow> (ngx_rc list \<times> 't) option" where
  "run_ops exec [] T = Some ([], T)"
| "run_ops exec (p # ps) T =
    (case exec p T of
       None \<Rightarrow> None
     | Some (rc, T') \<Rightarrow> map_option (\<lambda>(rcs, T''). (rc # rcs, T'')) (run_ops exec ps T'))"

locale prefix_table =
  fixes inv :: "'t \<Rightarrow> (bool list \<Rightarrow> u64) \<Rightarrow> bool"
    and exec :: "radix_op \<Rightarrow> 't \<Rightarrow> (ngx_rc \<times> 't) option"
    and find :: "'t \<Rightarrow> u32 \<Rightarrow> u64 option"
  assumes exec_law: "inv T f \<Longrightarrow> op_allowed p \<Longrightarrow>
      \<exists>rc T' f'. exec p T = Some (rc, T') \<and> prefix_step f p rc f' \<and> inv T' f'"
    and find_law: "inv T f \<Longrightarrow> find T key = Some (longest_match f (bits_from key 32))"
begin

lemma run_law:
  "inv T f \<Longrightarrow> list_all op_allowed ps \<Longrightarrow>
    \<exists>rcs T' f'. run_ops exec ps T = Some (rcs, T') \<and> prefix_run f ps rcs f' \<and> inv T' f'"
proof (induction ps arbitrary: T f)
  case Nil
  then show ?case by (auto intro: prefix_run_Nil)
next
  case (Cons p ps)
  obtain rc T1 f1 where 1: "exec p T = Some (rc, T1)" "prefix_step f p rc f1" "inv T1 f1"
    using exec_law [OF Cons.prems(1), of p] Cons.prems(2) by auto
  obtain rcs T2 f2 where 2: "run_ops exec ps T1 = Some (rcs, T2)" "prefix_run f1 ps rcs f2" "inv T2 f2"
    using Cons.IH [OF 1(3)] Cons.prems(2) by auto
  then show ?case using 1 by (auto intro: prefix_run_Cons)
qed

lemma run_find:
  assumes "inv T f" "list_all op_allowed ps"
  shows "\<exists>rcs T' f'. run_ops exec ps T = Some (rcs, T') \<and> prefix_run f ps rcs f' \<and>
    (\<forall>key. find T' key = Some (longest_match f' (bits_from key 32)))"
  using run_law [OF assms] find_law by blast

end

definition radix_inv :: "nat \<Rightarrow> ngx_radix_tree \<Rightarrow> (bool list \<Rightarrow> u64) \<Rightarrow> bool" where
  "radix_inv pg T f \<longleftrightarrow> 32 \<le> pg \<and> (\<exists>room. radix_tree pg T f room)"

lemma radix_exec_law:
  assumes "radix_inv pg T f" "op_allowed p"
  shows "\<exists>rc T' f'. radix_exec pg p T = Some (rc, T') \<and> prefix_step f p rc f' \<and> radix_inv pg T' f'"
proof (cases p)
  case (Radix_insert key msk v)
  obtain room where T: "radix_tree pg T f room" and pg: "32 \<le> pg" using assms(1) by (auto simp: radix_inv_def)
  obtain rc T' where r: "ngx_radix32tree_insert pg T key msk v = Some (rc, T')"
    "if f (prefix_bits key msk) \<noteq> NGX_RADIX_NO_VALUE then rc = NGX_BUSY \<and> T' = T
     else rc = NGX_OK \<and> (\<exists>room. radix_tree pg T' (f(prefix_bits key msk := v)) room) \<or>
       rc = NGX_ERROR \<and> (\<exists>room. radix_tree pg T' f room)"
    using radix_insert_spec [OF T pg, of key msk v] by blast
  have "\<exists>f'. prefix_step f p rc f' \<and> radix_inv pg T' f'"
  proof (cases "f (prefix_bits key msk) = NGX_RADIX_NO_VALUE")
    case True
    from r(2) have "rc = NGX_OK \<and> (\<exists>room. radix_tree pg T' (f(prefix_bits key msk := v)) room) \<or>
       rc = NGX_ERROR \<and> (\<exists>room. radix_tree pg T' f room)" by (simp only: True if_False simp_thms)
    then show ?thesis
      using insert_new [of f key msk v, OF True] insert_no_memory [of f key msk v, OF True] pg Radix_insert unfolding radix_inv_def by blast
  next
    case False
    then show ?thesis using r(2) insert_busy [of f key msk v, OF False] assms(1) Radix_insert by auto
  qed
  then show ?thesis using r(1) Radix_insert by auto
next
  case (Radix_delete key msk)
  obtain room where T: "radix_tree pg T f room" and pg: "32 \<le> pg" using assms(1) by (auto simp: radix_inv_def)
  have "prefix_bits key msk \<noteq> []" using assms(2) Radix_delete by simp
  from radix_delete_spec [OF T disjI1 [OF this]] obtain rc T' room' where
    d: "ngx_radix32tree_delete T key msk = Some (rc, T')"
    "radix_tree pg T' (f(prefix_bits key msk := NGX_RADIX_NO_VALUE)) room'"
    "rc = NGX_OK \<or> rc = NGX_ERROR \<and> T' = T \<and> f (prefix_bits key msk) = NGX_RADIX_NO_VALUE" by blast
  have "radix_inv pg T' (f(prefix_bits key msk := NGX_RADIX_NO_VALUE))"
    using d(2) pg unfolding radix_inv_def by blast
  then show ?thesis
    using d(1,3) Radix_delete assms(1)
    by (elim disjE) (auto intro: delete_found delete_none simp del: fun_upd_apply)
qed

interpretation radix32: prefix_table "radix_inv pg" "radix_exec pg" ngx_radix32tree_find for pg
proof
  show "\<exists>rc T' f'. radix_exec pg p T = Some (rc, T') \<and> prefix_step f p rc f' \<and> radix_inv pg T' f'"
    if "radix_inv pg T f" "op_allowed p" for T f p using that by (rule radix_exec_law)
  show "ngx_radix32tree_find T key = Some (longest_match f (bits_from key 32))"
    if "radix_inv pg T f" for T f key using that radix_find_spec unfolding radix_inv_def by blast
qed


text \<open>No memory is left: no free node, the page used up, and the last call of \<open>ngx_pmemalign\<close> failed.\<close>

definition radix_full :: "ngx_radix_tree \<Rightarrow> bool" where
  "radix_full T \<longleftrightarrow> rt_free T = NULL \<and> rt_size T < sizeof_radix_node \<and> rt_start T = NULL"

lemma radix_alloc_null:
  assumes "ngx_radix_alloc pg T = Some (p, T')" "rt_size T < 32 \<or> rt_start T \<noteq> NULL"
  shows "(p = NULL \<longrightarrow> radix_full T') \<and> (p \<noteq> NULL \<longrightarrow> rt_size T' < 32 \<or> rt_start T' \<noteq> NULL)"
  using assms
  by (auto simp: ngx_radix_alloc_def radix_pmemalign_def radix_take_def radix_full_def Let_def
      split: if_splits option.splits list.splits)

lemma radix_build_full:
  "radix_build pg key msk v bt node T = Some (NGX_ERROR, T') \<Longrightarrow> rt_size T < 32 \<or> rt_start T \<noteq> NULL \<Longrightarrow> radix_full T'"
proof (induction pg key msk v bt node T arbitrary: T' rule: radix_build.induct)
  case (1 pg key msk v bt node T)
  show ?case
  proof (cases "bt AND msk \<noteq> 0")
    case True
    then obtain p T1 where a: "ngx_radix_alloc pg T = Some (p, T1)"
      using "1.prems"(1) by (subst (asm) radix_build.simps) (auto split: option.splits)
    note n = radix_alloc_null [OF a "1.prems"(2)]
    show ?thesis
    proof (cases "p = NULL")
      case True
      then show ?thesis using "1.prems"(1) \<open>bt AND msk \<noteq> 0\<close> a n by (subst (asm) radix_build.simps) auto
    next
      case False
      then obtain T2 where l: "radix_link key bt node p (radix_new_node p node T1) = Some T2"
        "radix_build pg key msk v (drop_bit 1 bt) p T2 = Some (NGX_ERROR, T')"
        using "1.prems"(1) True a by (subst (asm) radix_build.simps) (auto split: option.splits)
      have "rt_size T2 = rt_size T1 \<and> rt_start T2 = rt_start T1"
        using l(1) by (auto simp: radix_link_def radix_new_node_def split: option.splits)
      then show ?thesis using "1.IH" [OF True a refl False l(1) l(2)] n False by simp
    qed
  next
    case False
    then show ?thesis using "1.prems"(1) by (subst (asm) radix_build.simps) auto
  qed
qed

lemma radix_insert_full:
  assumes "radix_inv pg T f" "ngx_radix32tree_insert pg T key msk v = Some (NGX_ERROR, T')"
  shows "radix_full T'"
proof -
  obtain t fs where "part pg T NULL t fs" using assms(1) unfolding radix_inv_def radix_tree_def by blast
  then have "NULL \<notin> set (arena (rt_start T) (rt_size T))" unfolding part_def store_ok_def spare_def by simp
  then have "rt_size T < 32 \<or> rt_start T \<noteq> NULL" using arena_step [of "rt_size T" "rt_start T"] by fastforce
  then show ?thesis
    using assms(2) unfolding ngx_radix32tree_insert_def radix_insert_at_def
    by (auto split: option.splits if_splits intro: radix_build_full)
qed

section \<open>Properties\<close>

text \<open>
  A tree of one node with 127 nodes left on its page, for the examples.
\<close>

definition radix_example :: ngx_radix_tree where
  "radix_example = \<lparr>rt_root = 4096, rt_pool = [], rt_free = NULL, rt_start = 4128, rt_size = 4064,
    rt_mem = [4096 \<mapsto> \<lparr>rn_right = NULL, rn_left = NULL, rn_parent = NULL, rn_value = NGX_RADIX_NO_VALUE\<rparr>]\<rparr>"

lemma pages_example: "pages_apart 4096 [4096]"
  by (simp add: pages_apart_def arena_def distinct_map inj_on_def)

lemma create_example: "ngx_radix_tree_create 4096 True [4096] Map.empty 0 = Some (Some radix_example)"
  by (simp add: ngx_radix_tree_create_def ngx_radix_alloc_def radix_pmemalign_def radix_take_def
      radix_new_node_def radix_example_def Let_def)

lemma tree_example: "radix_tree 4096 radix_example (\<lambda>_. NGX_RADIX_NO_VALUE) 127"
proof -
  have sp: "spare 4096 radix_example = arena 4128 4064" by (simp add: spare_def radix_example_def)
  have ar: "distinct (arena 4128 4064)" "0 \<notin> set (arena 4128 4064)" "4096 \<notin> set (arena 4128 4064)"
    by (auto simp: arena_def distinct_map inj_on_def)
  have "part 4096 radix_example NULL (leaf 4096) []"
    unfolding part_def store_ok_def avail_def sp using ar by (simp add: radix_example_def)
  moreover have "look (leaf 4096) = (\<lambda>_. NGX_RADIX_NO_VALUE)" by (rule ext) (simp add: look_leaf)
  ultimately show ?thesis
    unfolding radix_tree_def
    by (intro exI [of _ "leaf 4096"] exI [of _ "[]"]) (simp add: sp arena_def, simp add: radix_example_def)
qed

text \<open>
  C25. Refinement of a map from prefixes: on a tree that \<open>ngx_radix_tree_create\<close> has returned, every
  sequence of insertions of any prefixes and deletions of prefixes that are not empty returns, with
  the return codes and the content that the abstract operations allow, and a lookup then returns the
  value of the longest prefix of the address that has one.  After any such sequence an insertion
  answers \<open>NGX_ERROR\<close> only for lack of memory: the free list is empty, the page is used up and
  \<open>ngx_pmemalign\<close> has returned \<open>NULL\<close>.  The pages of the pool do not overlap.  (Deleting the empty prefix
  is left out: it faults on a tree of one node, \<open>radix_delete_root_faults\<close>.)
\<close>

theorem radix_runs:
  assumes "32 \<le> pg" and "pages_apart pg pool"
    and "ngx_radix_tree_create pg palloc pool mem preallocate = Some (Some T)"
    and "list_all op_allowed ps"
  shows "\<exists>rcs T' f. run_ops (radix_exec pg) ps T = Some (rcs, T') \<and>
    prefix_run (\<lambda>_. NGX_RADIX_NO_VALUE) ps rcs f \<and>
    (\<forall>key. ngx_radix32tree_find T' key = Some (longest_match f (bits_from key 32))) \<and>
    (\<forall>key msk v. \<exists>rc T''. ngx_radix32tree_insert pg T' key msk v = Some (rc, T'') \<and>
      (rc = NGX_ERROR \<longrightarrow> radix_full T''))"
proof -
  have "radix_inv pg T (\<lambda>_. NGX_RADIX_NO_VALUE)"
    using radix_create_spec [OF assms(2,1), of palloc mem preallocate] assms(1,3) by (auto simp: radix_inv_def)
  from radix32.run_law [OF this assms(4)] obtain rcs T' f where
    r: "run_ops (radix_exec pg) ps T = Some (rcs, T')" "prefix_run (\<lambda>_. NGX_RADIX_NO_VALUE) ps rcs f" "radix_inv pg T' f"
    by blast
  have "\<exists>rc T''. ngx_radix32tree_insert pg T' key msk v = Some (rc, T'') \<and> (rc = NGX_ERROR \<longrightarrow> radix_full T'')" for key msk v
    using radix_exec_law [OF r(3), of "Radix_insert key msk v"] radix_insert_full [OF r(3), of key msk v] by auto
  then show ?thesis using r radix32.find_law [OF r(3)] by blast
qed

theorem radix_runs_witness:
  "\<exists>rcs T' f. run_ops (radix_exec 4096) [Radix_insert 0x0A000000 0xFF000000 7, Radix_delete 0x0A000000 0xFF000000]
      radix_example = Some (rcs, T') \<and>
    prefix_run (\<lambda>_. NGX_RADIX_NO_VALUE) [Radix_insert 0x0A000000 0xFF000000 7, Radix_delete 0x0A000000 0xFF000000] rcs f \<and>
    ngx_radix32tree_find T' 0x0A000001 = Some (longest_match f (bits_from 0x0A000001 32))"
proof -
  have "prefix_bits 0x0A000000 0xFF000000 \<noteq> []" by code_simp
  then show ?thesis
    using radix_runs [OF _ pages_example create_example,
        of "[Radix_insert 0x0A000000 0xFF000000 7, Radix_delete 0x0A000000 0xFF000000]"]
    by fastforce
qed

text \<open>
  An insertion finds memory: with 32 free nodes left and no failing allocation the insertion of a
  new prefix answers \<open>NGX_OK\<close>, and then every address below the prefix with no longer match has the
  value, every other address what it had.
\<close>

theorem radix_insert_find:
  assumes "radix_tree pg T f room" and "32 \<le> pg" and "32 \<le> room" and "NULL \<notin> set (rt_pool T)"
    and "f (prefix_bits key msk) = NGX_RADIX_NO_VALUE"
  shows "\<exists>T'. ngx_radix32tree_insert pg T key msk value = Some (NGX_OK, T') \<and>
    (\<forall>k. ngx_radix32tree_find T' k = Some (longest_match (f(prefix_bits key msk := value)) (bits_from k 32)))"
proof -
  obtain rc T' where r: "ngx_radix32tree_insert pg T key msk value = Some (rc, T')"
    "rc = NGX_OK \<and> (\<exists>room. radix_tree pg T' (f(prefix_bits key msk := value)) room) \<or>
      rc = NGX_ERROR \<and> (\<exists>room. radix_tree pg T' f room)" "rc \<noteq> NGX_ERROR"
    using radix_insert_spec [OF assms(1,2), of key msk "value"] assms(3-5) by (auto simp del: fun_upd_apply)
  then show ?thesis using radix_find_spec by blast
qed

theorem radix_insert_find_witness:
  "\<exists>T'. ngx_radix32tree_insert 4096 radix_example 0x0A000000 0xFF000000 7 = Some (NGX_OK, T') \<and>
    ngx_radix32tree_find T' 0x0A000001 = Some 7 \<and> ngx_radix32tree_find T' 0x0B000001 = Some NGX_RADIX_NO_VALUE"
proof -
  let ?ks = "prefix_bits 0x0A000000 0xFF000000" and ?f = "\<lambda>_ :: bool list. NGX_RADIX_NO_VALUE"
  have "longest_match (?f(?ks := 7)) (bits_from 0x0A000001 32) = 7"
    "longest_match (?f(?ks := 7)) (bits_from 0x0B000001 32) = NGX_RADIX_NO_VALUE" by code_simp+
  moreover have "NULL \<notin> set (rt_pool radix_example)" by (simp add: radix_example_def)
  ultimately show ?thesis
    using radix_insert_find [OF tree_example, of "0x0A000000" "0xFF000000" 7] by auto
qed

text \<open>
  \<open>ngx_radix_tree_create\<close> returns for every \<open>preallocate\<close>: the inner loop ends when the 32-bit key
  wraps around to zero.  The tree it returns holds no value.
\<close>

theorem radix_create_returns:
  assumes "32 \<le> pg" and "pages_apart pg pool"
  shows "\<exists>r. ngx_radix_tree_create pg palloc pool mem preallocate = Some r \<and>
    (\<forall>T key. r = Some T \<longrightarrow> ngx_radix32tree_find T key = Some NGX_RADIX_NO_VALUE)"
proof -
  have "longest_match (\<lambda>_. NGX_RADIX_NO_VALUE) ks = NGX_RADIX_NO_VALUE" for ks by (simp add: longest_match_def)
  then show ?thesis
    using radix_create_spec [OF assms(2,1), of palloc mem preallocate] radix_find_spec by fastforce
qed

theorem radix_create_returns_witness:
  "\<exists>r. ngx_radix_tree_create 4096 True [4096] Map.empty 0 = Some r \<and>
    ngx_radix32tree_find (the r) 5 = Some NGX_RADIX_NO_VALUE"
  using radix_create_returns [OF _ pages_example, of True Map.empty 0] create_example by simp

end
