(* ===== verification/Ngx_Http_Geo.thy ===== *)
theory Ngx_Http_Geo
  imports Ngx_Prelude
begin

text \<open>
  The ranges of \<^verbatim>\<open>src/http/modules/ngx_http_geo_module.c\<close>: \<open>ngx_http_geo_add_range\<close>, \<open>ngx_http_geo_delete_range\<close>,
  the end of \<open>ngx_http_geo_block\<close> that makes the table of the requests, and the lookup
  \<open>ngx_http_geo_range_variable\<close>.

  The 65536 blocks hold arrays of ranges of 16-bit halves of addresses.  Every case of the insertion
  (after, equal, inside, at the start, at the end) is shown to put the value on the addresses of the
  range and to keep the block sorted (\<open>geo_put_cases\<close>, \<open>geo_scan_spec\<close>); the loop over the blocks carries this to
  whole addresses (\<open>geo_add_loop_spec\<close>).  The last section shows the inputs on which the code hangs, loses
  a range or reads memory it must not read.
\<close>

section \<open>Ranges of addresses\<close>

text \<open>\<open>ngx_http_geo_range_t\<close>: the value of the addresses \<open>start\<close> to \<open>end\<close> of a block of 65536, which are the lower halves
  of the addresses.  While the configuration is read, entry \<open>h\<close> of \<open>ctx->high.low\<close> is \<open>NULL\<close> or an array of ranges.\<close>

record geo_range =
  gr_value :: ptr
  gr_start :: u16
  gr_end :: u16

type_synonym geo_low = "nat \<Rightarrow> geo_range list option"

text \<open>\<open>ngx_array_push\<close> gives a new element, or fails; the parameter \<open>push\<close> says whether an array of the length
  at hand gets it.  \<open>ngx_memmove\<close> moves \<open>n\<close> elements from \<open>src\<close> to \<open>dst\<close>.  Every element that a push adds is
  written before it is read.\<close>

definition geo_push :: "(nat \<Rightarrow> bool) \<Rightarrow> geo_range list \<Rightarrow> geo_range list option" where
  "geo_push push a =
    (if push (length a) then Some (a @ [\<lparr>gr_value = NULL, gr_start = 0, gr_end = 0\<rparr>]) else None)"

definition geo_memmove :: "geo_range list \<Rightarrow> nat \<Rightarrow> nat \<Rightarrow> nat \<Rightarrow> geo_range list" where
  "geo_memmove a dst src n = take dst a @ take n (drop src a) @ drop (dst + n) a"

abbreviation geo_new :: "u64 \<Rightarrow> u64 \<Rightarrow> ptr \<Rightarrow> geo_range" where
  "geo_new s e v \<equiv> \<lparr>gr_value = v, gr_start = ucast s, gr_end = ucast e\<rparr>"

text \<open>The cases of \<open>ngx_http_geo_add_range\<close> that insert an element, one definition each: after range \<open>i\<close>,
  in the middle, at the start or at the end of range \<open>i\<close>.  \<open>None\<close> is the return of \<open>NGX_CONF_ERROR\<close>.\<close>

definition geo_after :: "(nat \<Rightarrow> bool) \<Rightarrow> geo_range list \<Rightarrow> nat \<Rightarrow> u64 \<Rightarrow> u64 \<Rightarrow> ptr \<Rightarrow> geo_range list option" where
  "geo_after push a i s e v =
    (case geo_push push a of
       None \<Rightarrow> None
     | Some a \<Rightarrow>
         let a = geo_memmove a (i + 2) (i + 1) (length a - 2 - i) in
         Some (a[i + 1 := geo_new s e v]))"

definition geo_split :: "(nat \<Rightarrow> bool) \<Rightarrow> geo_range list \<Rightarrow> nat \<Rightarrow> u64 \<Rightarrow> u64 \<Rightarrow> ptr \<Rightarrow> geo_range list option" where
  "geo_split push a i s e v =
    (case geo_push push a of
       None \<Rightarrow> None
     | Some a \<Rightarrow>
         (case geo_push push a of
            None \<Rightarrow> None
          | Some a \<Rightarrow>
              let a = geo_memmove a (i + 3) (i + 1) (length a - 3 - i);
                  a = a[i + 2 := \<lparr>gr_value = gr_value (a ! i), gr_start = ucast (e + 1), gr_end = gr_end (a ! i)\<rparr>];
                  a = a[i + 1 := geo_new s e v] in
              Some (a[i := (a ! i)\<lparr>gr_end := ucast (s - 1)\<rparr>])))"

definition geo_shift_start ::
  "(nat \<Rightarrow> bool) \<Rightarrow> geo_range list \<Rightarrow> nat \<Rightarrow> u64 \<Rightarrow> u64 \<Rightarrow> ptr \<Rightarrow> geo_range list option" where
  "geo_shift_start push a i s e v =
    (case geo_push push a of
       None \<Rightarrow> None
     | Some a \<Rightarrow>
         let a = geo_memmove a (i + 1) i (length a - 1 - i);
             a = a[i + 1 := (a ! (i + 1))\<lparr>gr_start := ucast (e + 1)\<rparr>] in
         Some (a[i := geo_new s e v]))"

definition geo_shift_end ::
  "(nat \<Rightarrow> bool) \<Rightarrow> geo_range list \<Rightarrow> nat \<Rightarrow> u64 \<Rightarrow> u64 \<Rightarrow> ptr \<Rightarrow> geo_range list option" where
  "geo_shift_end push a i s e v =
    (case geo_push push a of
       None \<Rightarrow> None
     | Some a \<Rightarrow>
         let a = geo_memmove a (i + 2) (i + 1) (length a - 2 - i);
             a = a[i + 1 := geo_new s e v] in
         Some (a[i := (a ! i)\<lparr>gr_end := ucast (s - 1)\<rparr>]))"

text \<open>The loop \<open>while (i)\<close> over the ranges of a block, from the last one down, and, past it, the addition of
  the first range.  A range that neither contains the new one nor is apart from it is an error.\<close>

fun geo_scan ::
  "(nat \<Rightarrow> bool) \<Rightarrow> geo_range list \<Rightarrow> u64 \<Rightarrow> u64 \<Rightarrow> ptr \<Rightarrow> nat \<Rightarrow> geo_range list option" where
  "geo_scan push a s e v 0 =
    map_option (\<lambda>a. a[length a - 1 := geo_new s e v]) (geo_push push a)"
| "geo_scan push a s e v (Suc i) =
    (let st = ucast (gr_start (a ! i)) :: u64; en = ucast (gr_end (a ! i)) :: u64 in
     if e < st then geo_scan push a s e v i
     else if s > en then geo_after push a i s e v
     else if s = st \<and> e = en then Some (a[i := (a ! i)\<lparr>gr_value := v\<rparr>])
     else if s > st \<and> e < en then geo_split push a i s e v
     else if s = st \<and> e < en then geo_shift_start push a i s e v
     else if s > st \<and> e = en then geo_shift_end push a i s e v
     else None)"

text \<open>The part of the range that falls into the block of \<open>n\<close>: \<open>s\<close> and \<open>e\<close>.\<close>

definition geo_part_start :: "u32 \<Rightarrow> u32 \<Rightarrow> u64" where
  "geo_part_start start n = (if n = start then ucast (n AND 0xffff) else 0)"

definition geo_part_end :: "u32 \<Rightarrow> u32 \<Rightarrow> u64" where
  "geo_part_end en n = (if n OR 0xffff > en then ucast (en AND 0xffff) else 0xffff)"

text \<open>The body of the loop over the blocks: the array is created when the block has none, \<open>creat\<close> says whether
  \<open>ngx_array_create\<close> succeeds.  On an error the configuration is discarded, so no state is returned.\<close>

definition geo_add_block ::
  "(nat \<Rightarrow> bool) \<Rightarrow> (nat \<Rightarrow> nat \<Rightarrow> bool) \<Rightarrow> geo_low \<Rightarrow> nat \<Rightarrow> u64 \<Rightarrow> u64 \<Rightarrow> ptr \<Rightarrow> geo_low option" where
  "geo_add_block creat push low h s e v =
    (case (case low h of None \<Rightarrow> if creat h then Some [] else None | Some a \<Rightarrow> Some a) of
       None \<Rightarrow> None
     | Some a \<Rightarrow> map_option (\<lambda>a. low(h := Some a)) (geo_scan (push h) a s e v (length a)))"

text \<open>The loop over the blocks, and \<open>ngx_http_geo_add_range\<close>: \<open>None\<close> is a loop that never ends, \<open>Some None\<close> is
  \<open>NGX_CONF_ERROR\<close>, \<open>Some (Some low)\<close> is \<open>NGX_CONF_OK\<close>.\<close>

partial_function (option) geo_add_loop ::
  "(nat \<Rightarrow> bool) \<Rightarrow> (nat \<Rightarrow> nat \<Rightarrow> bool) \<Rightarrow> u32 \<Rightarrow> u32 \<Rightarrow> ptr \<Rightarrow> u32 \<Rightarrow> geo_low \<Rightarrow> geo_low option option" where
  "geo_add_loop creat push start en v n low =
    (if n \<le> en then
       (case geo_add_block creat push low (unat (drop_bit 16 n)) (geo_part_start start n) (geo_part_end en n) v of
          None \<Rightarrow> Some None
        | Some low \<Rightarrow> geo_add_loop creat push start en v ((n + 0x10000) AND 0xffff0000) low)
     else Some (Some low))"

definition ngx_http_geo_add_range ::
  "(nat \<Rightarrow> bool) \<Rightarrow> (nat \<Rightarrow> nat \<Rightarrow> bool) \<Rightarrow> geo_low \<Rightarrow> u32 \<Rightarrow> u32 \<Rightarrow> ptr \<Rightarrow> geo_low option option" where
  "ngx_http_geo_add_range creat push low start en v = geo_add_loop creat push start en v start low"

text \<open>\<open>ngx_http_geo_delete_range\<close>: the loop over the ranges of a block, the loop over the blocks, whose step
  is not aligned, and the function with its result \<open>warn\<close>.\<close>

function geo_del_scan :: "geo_range list \<Rightarrow> u64 \<Rightarrow> u64 \<Rightarrow> nat \<Rightarrow> bool \<Rightarrow> geo_range list \<times> bool" where
  "geo_del_scan a s e i warn =
    (if i < length a then
       let st = ucast (gr_start (a ! i)); en = ucast (gr_end (a ! i)) in
       if s = st \<and> e = en then (take (length a - 1) (geo_memmove a i (i + 1) (length a - 1 - i)), warn)
       else if s \<noteq> st \<and> e \<noteq> en then geo_del_scan a s e (i + 1) warn
       else geo_del_scan a s e (i + 1) True
     else (a, warn))"
  by auto
termination
  by (relation "measure (\<lambda>(a, s, e, i, warn). length a - i)") auto

partial_function (option) geo_del_loop ::
  "u32 \<Rightarrow> u32 \<Rightarrow> u32 \<Rightarrow> geo_low \<Rightarrow> bool \<Rightarrow> (geo_low \<times> bool) option" where
  "geo_del_loop start en n low warn =
    (if n \<le> en then
       (let h = unat (drop_bit 16 n) in
        case low h of
          None \<Rightarrow> geo_del_loop start en (n + 0x10000) low True
        | Some a \<Rightarrow>
            (let (a, warn) = geo_del_scan a (geo_part_start start n) (geo_part_end en n) 0 warn in
             geo_del_loop start en (n + 0x10000) (low(h := Some a)) warn))
     else Some (low, warn))"

definition ngx_http_geo_delete_range :: "geo_low \<Rightarrow> u32 \<Rightarrow> u32 \<Rightarrow> (geo_low \<times> bool) option" where
  "ngx_http_geo_delete_range low start en = geo_del_loop start en start low False"

text \<open>The end of \<open>ngx_http_geo_block\<close> for ranges: each array is copied out of the temporary pool, with a null
  pointer behind it.  An entry whose array is empty is left as it is, and points into the pool that is
  destroyed: \<open>Geo_stale\<close>.  \<open>geo->u.high\<close> takes the default value before \<open>NULL\<close> is replaced in \<open>ctx.high\<close>.  The
  binary base, which changes neither, is not modelled.\<close>

datatype geo_ptr = Geo_null | Geo_ranges "geo_range list" | Geo_stale

record geo_high =
  gh_low :: "nat \<Rightarrow> geo_ptr"
  gh_default :: ptr

definition geo_finish_low :: "geo_low \<Rightarrow> nat \<Rightarrow> geo_ptr" where
  "geo_finish_low low i =
    (case low i of None \<Rightarrow> Geo_null | Some a \<Rightarrow> if length a = 0 then Geo_stale else Geo_ranges a)"

definition geo_finish :: "(nat \<Rightarrow> bool) \<Rightarrow> geo_low \<Rightarrow> ptr \<Rightarrow> geo_high option" where
  "geo_finish palloc low dflt =
    (if list_all (\<lambda>i. case geo_finish_low low i of Geo_ranges _ \<Rightarrow> palloc i | _ \<Rightarrow> True) [0..<0x10000]
     then Some \<lparr>gh_low = geo_finish_low low, gh_default = dflt\<rparr>
     else None)"

text \<open>\<open>ngx_http_geo_range_variable\<close>, with the address that \<open>ngx_http_geo_addr\<close> returns: the loop looks at the first
  range before it tests for the end.  \<open>None\<close> is a read through \<open>NULL\<close> or into the destroyed pool.\<close>

fun geo_match :: "geo_range list \<Rightarrow> u64 \<Rightarrow> ptr \<Rightarrow> ptr" where
  "geo_match [] n v = v"
| "geo_match (r # rs) n v =
    (if n \<ge> ucast (gr_start r) \<and> n \<le> ucast (gr_end r) then gr_value r
     else if rs \<noteq> [] \<and> gr_value (hd rs) \<noteq> NULL then geo_match rs n v
     else v)"

definition ngx_http_geo_range_variable :: "geo_high \<Rightarrow> u32 \<Rightarrow> ptr option" where
  "ngx_http_geo_range_variable high addr =
    (if gh_default high = NULL then None
     else
       let v = gh_default high in
       case gh_low high (unat (drop_bit 16 addr)) of
         Geo_null \<Rightarrow> Some v
       | Geo_ranges a \<Rightarrow> Some (geo_match a (ucast (addr AND 0xffff)) v)
       | Geo_stale \<Rightarrow> None)"

declare geo_add_loop.simps [code] geo_del_loop.simps [code]
declare geo_del_scan.simps [simp del]

section \<open>One block\<close>

text \<open>The reference for a block: the value at an address is that of the first range that covers it.  The
  ranges of a block are kept apart and ascending.\<close>

definition covers :: "geo_range \<Rightarrow> nat \<Rightarrow> bool" where
  "covers r n \<longleftrightarrow> unat (gr_start r) \<le> n \<and> n \<le> unat (gr_end r)"

fun geo_at :: "geo_range list \<Rightarrow> nat \<Rightarrow> ptr option" where
  "geo_at [] n = None"
| "geo_at (r # rs) n = (if covers r n then Some (gr_value r) else geo_at rs n)"

definition geo_sorted :: "geo_range list \<Rightarrow> bool" where
  "geo_sorted xs \<longleftrightarrow> sorted_wrt (\<lambda>a b. unat (gr_end a) < unat (gr_start b)) xs \<and>
    (\<forall>r \<in> set xs. unat (gr_start r) \<le> unat (gr_end r) \<and> gr_value r \<noteq> NULL)"

lemma geo_at_iff:
  "geo_sorted xs \<Longrightarrow> geo_at xs n = Some v \<longleftrightarrow> (\<exists>r \<in> set xs. covers r n \<and> gr_value r = v)"
proof (induction xs)
  case (Cons r rs)
  have s: "geo_sorted rs" and lt: "\<And>x. x \<in> set rs \<Longrightarrow> unat (gr_end r) < unat (gr_start x)"
    using Cons.prems by (auto simp: geo_sorted_def)
  have "covers r n \<Longrightarrow> x \<in> set rs \<Longrightarrow> \<not> covers x n" for x
    using lt [of x] by (auto simp: covers_def)
  then show ?case using Cons.IH [OF s] by auto
qed simp

lemma geo_at_eqI:
  assumes "geo_sorted xs" "geo_sorted ys"
    and "\<And>v. (\<exists>r \<in> set xs. covers r n \<and> gr_value r = v) \<longleftrightarrow> (\<exists>r \<in> set ys. covers r n \<and> gr_value r = v)"
  shows "geo_at xs n = geo_at ys n"
proof -
  have "geo_at xs n = Some v \<longleftrightarrow> geo_at ys n = Some v" for v
    by (simp only: geo_at_iff [OF assms(1)] geo_at_iff [OF assms(2)] assms(3))
  then show ?thesis by (metis option.exhaust)
qed

lemma geo_ops:
  fixes us ws :: "geo_range list"
  assumes "\<And>k. push k"
  shows "geo_after push (us @ r # ws) (length us) s e v = Some (us @ r # geo_new s e v # ws)"
    "geo_split push (us @ r # ws) (length us) s e v =
      Some (us @ r\<lparr>gr_end := ucast (s - 1)\<rparr> # geo_new s e v #
        \<lparr>gr_value = gr_value r, gr_start = ucast (e + 1), gr_end = gr_end r\<rparr> # ws)"
    "geo_shift_start push (us @ r # ws) (length us) s e v =
      Some (us @ geo_new s e v # r\<lparr>gr_start := ucast (e + 1)\<rparr> # ws)"
    "geo_shift_end push (us @ r # ws) (length us) s e v =
      Some (us @ r\<lparr>gr_end := ucast (s - 1)\<rparr> # geo_new s e v # ws)"
proof -
  have upd: "(us @ x # y # zs)[Suc (length us) := z] = us @ x # z # zs"
    "(us @ x # y # w # zs)[Suc (Suc (length us)) := z] = us @ x # y # z # zs"
    "(us @ x # y # zs) ! Suc (length us) = y" for x y z w :: geo_range and zs
    by (simp_all add: list_update_append nth_append)
  have m1: "geo_memmove (us @ r # ws @ [j]) (length us + 2) (length us + 1) (length ws) = us @ r # hd (ws @ [j]) # ws" for j
    by (cases ws) (simp_all add: geo_memmove_def)
  have m2: "geo_memmove (us @ r # ws @ [j, k]) (length us + 3) (length us + 1) (length ws) =
      us @ r # hd (ws @ [j, k]) # hd (tl (ws @ [j, k])) # ws" for j k
    by (cases ws; cases "tl ws") (simp_all add: geo_memmove_def)
  have m3: "geo_memmove (us @ r # ws @ [j]) (length us + 1) (length us) (Suc (length ws)) = us @ r # r # ws" for j
    by (simp add: geo_memmove_def)
  show "geo_after push (us @ r # ws) (length us) s e v = Some (us @ r # geo_new s e v # ws)"
    using assms m1 upd by (simp add: geo_after_def geo_push_def Let_def)
  show "geo_split push (us @ r # ws) (length us) s e v =
      Some (us @ r\<lparr>gr_end := ucast (s - 1)\<rparr> # geo_new s e v #
        \<lparr>gr_value = gr_value r, gr_start = ucast (e + 1), gr_end = gr_end r\<rparr> # ws)"
    using assms m2 upd by (simp add: geo_split_def geo_push_def Let_def)
  show "geo_shift_start push (us @ r # ws) (length us) s e v =
      Some (us @ geo_new s e v # r\<lparr>gr_start := ucast (e + 1)\<rparr> # ws)"
    using assms m3 upd by (simp add: geo_shift_start_def geo_push_def Let_def)
  show "geo_shift_end push (us @ r # ws) (length us) s e v =
      Some (us @ r\<lparr>gr_end := ucast (s - 1)\<rparr> # geo_new s e v # ws)"
    using assms m1 upd by (simp add: geo_shift_end_def geo_push_def Let_def)
qed

lemma u16_unat [simp]: "unat (x :: u16) \<le> 65535"
proof -
  have "unat x < 2 ^ LENGTH(16)" by (rule unsigned_less)
  then show ?thesis by simp
qed

lemma unat_to_u16:
  assumes "unat (x :: u64) \<le> 65535" shows "unat (ucast x :: u16) = unat x"
  using assms by (simp add: unsigned_ucast_eq take_bit_nat_eq_self)

lemma u64_step:
  "unat (x :: u64) < 65535 \<Longrightarrow> unat (x + 1) = unat x + 1"
  "0 < unat x \<Longrightarrow> unat (x - 1) = unat x - 1"
proof -
  show "unat x < 65535 \<Longrightarrow> unat (x + 1) = unat x + 1" by (simp add: unat_word_ariths)
  assume "0 < unat x"
  then have "1 \<le> x" by (simp add: word_le_nat_alt)
  then show "unat (x - 1) = unat x - 1" by (simp add: unat_sub)
qed

text \<open>A range of the block has an address of \<open>s\<close> to \<open>e\<close>, or contains all of them; the block \<open>xs\<close> with the
  value \<open>v\<close> put on \<open>s\<close> to \<open>e\<close>.\<close>

definition meets :: "nat \<Rightarrow> nat \<Rightarrow> geo_range \<Rightarrow> bool" where
  "meets s e r \<longleftrightarrow> unat (gr_start r) \<le> e \<and> s \<le> unat (gr_end r)"

definition inside :: "nat \<Rightarrow> nat \<Rightarrow> geo_range \<Rightarrow> bool" where
  "inside s e r \<longleftrightarrow> unat (gr_start r) \<le> s \<and> e \<le> unat (gr_end r)"

definition geo_put :: "geo_range list \<Rightarrow> nat \<Rightarrow> nat \<Rightarrow> ptr \<Rightarrow> geo_range list \<Rightarrow> bool" where
  "geo_put xs s e v xs' \<longleftrightarrow> xs' \<noteq> [] \<and> geo_sorted xs' \<and>
    (\<forall>n. geo_at xs' n = (if s \<le> n \<and> n \<le> e then Some v else geo_at xs n))"

lemma geo_putI:
  assumes "geo_sorted xs" "geo_sorted xs'" "xs' \<noteq> []"
    and "\<And>n w. (\<exists>r \<in> set xs'. covers r n \<and> gr_value r = w) \<longleftrightarrow>
      (if s \<le> n \<and> n \<le> e then w = v else \<exists>r \<in> set xs. covers r n \<and> gr_value r = w)"
  shows "geo_put xs s e v xs'"
proof -
  have "geo_at xs' n = (if s \<le> n \<and> n \<le> e then Some v else geo_at xs n)" for n
  proof (cases "s \<le> n \<and> n \<le> e")
    case True
    then have "geo_at xs' n = Some v" unfolding geo_at_iff [OF assms(2)] assms(4) by simp
    then show ?thesis using True by simp
  next
    case False
    have "geo_at xs' n = geo_at xs n"
      by (rule geo_at_eqI [OF assms(2,1)]) (simp only: assms(4) False if_False)
    then show ?thesis using False by auto
  qed
  then show ?thesis using assms(2,3) by (simp add: geo_put_def)
qed

lemma geo_put_replace:
  assumes x: "geo_sorted (us @ r # ws)" and rs: "geo_sorted rs" "rs \<noteq> []"
    and lo: "\<And>y. y \<in> set rs \<Longrightarrow> unat (gr_start r) \<le> unat (gr_start y)"
    and hi: "\<And>y w. y \<in> set rs \<Longrightarrow> w \<in> set ws \<Longrightarrow> unat (gr_end y) < unat (gr_start w)"
    and se: "unat (gr_start r) \<le> s" "\<And>w. w \<in> set ws \<Longrightarrow> e < unat (gr_start w)"
    and cov: "\<And>n w. (\<exists>y \<in> set rs. covers y n \<and> gr_value y = w) \<longleftrightarrow>
      (if s \<le> n \<and> n \<le> e then w = v else covers r n \<and> gr_value r = w)"
  shows "geo_put (us @ r # ws) s e v (us @ rs @ ws)"
proof (rule geo_putI [OF x])
  have o: "u \<in> set us \<Longrightarrow> unat (gr_end u) < unat (gr_start r)" for u
    using x by (auto simp: geo_sorted_def sorted_wrt_append)
  have us: "u \<in> set us \<Longrightarrow> y \<in> set rs \<Longrightarrow> unat (gr_end u) < unat (gr_start y)" for u y
    using o lo less_le_trans by blast
  show "geo_sorted (us @ rs @ ws)"
    using x rs(1) us hi by (auto simp: geo_sorted_def sorted_wrt_append)
  show "us @ rs @ ws \<noteq> []" using rs(2) by simp
  fix n w
  have no: "\<not> covers u n" if "s \<le> n \<and> n \<le> e" "u \<in> set us \<union> set ws" for u
    using that o [of u] se(1) se(2) [of u] by (auto simp: covers_def)
  have "(\<exists>y \<in> set (us @ rs @ ws). covers y n \<and> gr_value y = w) \<longleftrightarrow>
      (\<exists>y \<in> set rs. covers y n \<and> gr_value y = w) \<or> (\<exists>u \<in> set us \<union> set ws. covers u n \<and> gr_value u = w)" by auto
  then show "(\<exists>y \<in> set (us @ rs @ ws). covers y n \<and> gr_value y = w) \<longleftrightarrow>
      (if s \<le> n \<and> n \<le> e then w = v else \<exists>y \<in> set (us @ r # ws). covers y n \<and> gr_value y = w)"
    unfolding cov using no by auto
qed

lemma geo_put_cases:
  assumes x: "geo_sorted (us @ r # ws)" and se: "unat s \<le> unat e" "unat e \<le> 65535" and v: "v \<noteq> NULL"
    and ws: "\<forall>w \<in> set ws. unat e < unat (gr_start w)"
  shows "unat (gr_end r) < unat s \<Longrightarrow> geo_put (us @ r # ws) (unat s) (unat e) v (us @ r # geo_new s e v # ws)"
    "unat (gr_start r) = unat s \<Longrightarrow> unat (gr_end r) = unat e \<Longrightarrow>
      geo_put (us @ r # ws) (unat s) (unat e) v (us @ r\<lparr>gr_value := v\<rparr> # ws)"
    "unat (gr_start r) < unat s \<Longrightarrow> unat e < unat (gr_end r) \<Longrightarrow>
      geo_put (us @ r # ws) (unat s) (unat e) v (us @ r\<lparr>gr_end := ucast (s - 1)\<rparr> # geo_new s e v #
        \<lparr>gr_value = gr_value r, gr_start = ucast (e + 1), gr_end = gr_end r\<rparr> # ws)"
    "unat (gr_start r) = unat s \<Longrightarrow> unat e < unat (gr_end r) \<Longrightarrow>
      geo_put (us @ r # ws) (unat s) (unat e) v (us @ geo_new s e v # r\<lparr>gr_start := ucast (e + 1)\<rparr> # ws)"
    "unat (gr_start r) < unat s \<Longrightarrow> unat e = unat (gr_end r) \<Longrightarrow>
      geo_put (us @ r # ws) (unat s) (unat e) v (us @ r\<lparr>gr_end := ucast (s - 1)\<rparr> # geo_new s e v # ws)"
proof -
  have n: "unat (ucast s :: u16) = unat s" "unat (ucast e :: u16) = unat e" using se by (simp_all add: unat_to_u16)
  have e1: "unat (ucast (e + 1) :: u16) = unat e + 1" if "unat e < unat (gr_end r)"
  proof -
    have "unat e < 65535" using that u16_unat [of "gr_end r"] by linarith
    then show ?thesis using u64_step(1) [of e] by (simp add: unat_to_u16)
  qed
  have s1: "unat (ucast (s - 1) :: u16) = unat s - 1" if "unat (gr_start r) < unat s"
    using that se u64_step(2) [of s] by (simp add: unat_to_u16)
  have o: "w \<in> set ws \<Longrightarrow> unat (gr_end r) < unat (gr_start w)" "unat (gr_start r) \<le> unat (gr_end r)"
    "gr_value r \<noteq> NULL" for w
    using x by (auto simp: geo_sorted_def sorted_wrt_append)
  have lt: "w \<in> set ws \<Longrightarrow> unat s - Suc 0 < unat (gr_start w)" for w using ws se(1) by fastforce
  note rep = geo_put_replace [OF x, where s = "unat s" and e = "unat e" and v = v]
  note d = geo_sorted_def covers_def n
  show "geo_put (us @ r # ws) (unat s) (unat e) v (us @ r # geo_new s e v # ws)"
    if a: "unat (gr_end r) < unat s"
  proof -
    have "geo_put (us @ r # ws) (unat s) (unat e) v (us @ [r, geo_new s e v] @ ws)"
      by (rule rep) (use a o se v ws lt  in \<open>auto simp: d\<close>)
    then show ?thesis by simp
  qed
  show "geo_put (us @ r # ws) (unat s) (unat e) v (us @ r\<lparr>gr_value := v\<rparr> # ws)"
    if a: "unat (gr_start r) = unat s" "unat (gr_end r) = unat e"
  proof -
    have "geo_put (us @ r # ws) (unat s) (unat e) v (us @ [r\<lparr>gr_value := v\<rparr>] @ ws)"
      by (rule rep) (use a o se v ws lt  in \<open>auto simp: d\<close>)
    then show ?thesis by simp
  qed
  show "geo_put (us @ r # ws) (unat s) (unat e) v (us @ r\<lparr>gr_end := ucast (s - 1)\<rparr> # geo_new s e v #
        \<lparr>gr_value = gr_value r, gr_start = ucast (e + 1), gr_end = gr_end r\<rparr> # ws)"
    if a: "unat (gr_start r) < unat s" "unat e < unat (gr_end r)"
  proof -
    have "geo_put (us @ r # ws) (unat s) (unat e) v (us @ [r\<lparr>gr_end := ucast (s - 1)\<rparr>, geo_new s e v,
        \<lparr>gr_value = gr_value r, gr_start = ucast (e + 1), gr_end = gr_end r\<rparr>] @ ws)"
      by (rule rep) (use a o se v ws lt s1 [OF a(1)] e1 [OF a(2)] in \<open>auto simp: d\<close>)
    then show ?thesis by simp
  qed
  show "geo_put (us @ r # ws) (unat s) (unat e) v (us @ geo_new s e v # r\<lparr>gr_start := ucast (e + 1)\<rparr> # ws)"
    if a: "unat (gr_start r) = unat s" "unat e < unat (gr_end r)"
  proof -
    have "geo_put (us @ r # ws) (unat s) (unat e) v (us @ [geo_new s e v, r\<lparr>gr_start := ucast (e + 1)\<rparr>] @ ws)"
      by (rule rep) (use a o se v ws lt e1 [OF a(2)] in \<open>auto simp: d\<close>)
    then show ?thesis by simp
  qed
  show "geo_put (us @ r # ws) (unat s) (unat e) v (us @ r\<lparr>gr_end := ucast (s - 1)\<rparr> # geo_new s e v # ws)"
    if a: "unat (gr_start r) < unat s" "unat e = unat (gr_end r)"
  proof -
    have "geo_put (us @ r # ws) (unat s) (unat e) v (us @ [r\<lparr>gr_end := ucast (s - 1)\<rparr>, geo_new s e v] @ ws)"
      by (rule rep) (use a o se v ws lt s1 [OF a(1)] in \<open>auto simp: d\<close>)
    then show ?thesis by simp
  qed
qed

text \<open>No range overlaps in part, and the new range is not below all the others.\<close>

definition block_fits :: "geo_range list \<Rightarrow> nat \<Rightarrow> nat \<Rightarrow> bool" where
  "block_fits xs s e \<longleftrightarrow> (\<forall>r \<in> set xs. meets s e r \<longrightarrow> inside s e r) \<and>
    (xs = [] \<or> unat (gr_start (hd xs)) \<le> e)"

lemma geo_scan_spec:
  assumes push: "\<And>k. push k" and "geo_sorted (us @ ws)" and se: "unat s \<le> unat e" "unat e \<le> 65535"
    and v: "v \<noteq> NULL" and "\<forall>w \<in> set ws. unat e < unat (gr_start w)"
    and "us @ ws = [] \<or> unat (gr_start (hd (us @ ws))) \<le> unat e"
  shows "if \<forall>r \<in> set (us @ ws). meets (unat s) (unat e) r \<longrightarrow> inside (unat s) (unat e) r
    then \<exists>xs'. geo_scan push (us @ ws) s e v (length us) = Some xs' \<and> geo_put (us @ ws) (unat s) (unat e) v xs'
    else geo_scan push (us @ ws) s e v (length us) = None"
  using assms(2,6,7)
proof (induction us arbitrary: ws rule: rev_induct)
  case Nil
  then have "ws = []" by (cases ws) auto
  moreover have "geo_put [] (unat s) (unat e) v [geo_new s e v]"
    by (rule geo_putI) (use se v in \<open>auto simp: geo_sorted_def covers_def unat_to_u16\<close>)
  ultimately show ?case using push by (simp add: geo_push_def)
next
  case (snoc r us)
  let ?m = "\<lambda>r. meets (unat s) (unat e) r \<longrightarrow> inside (unat s) (unat e) r"
  have x: "geo_sorted (us @ r # ws)" using snoc.prems(1) by simp
  have at: "(us @ r # ws) ! length us = r" by simp
  have upd: "(us @ r # ws)[length us := y] = us @ y # ws" for y by simp
  note c = geo_put_cases [OF x se v snoc.prems(2)] and op = geo_ops [of push, OF push]
  have others: "?m y" if "y \<in> set us \<union> set ws" "unat (gr_start r) \<le> unat s" for y
    using that x snoc.prems(2) by (auto simp: geo_sorted_def sorted_wrt_append meets_def)
  have w: "(a :: u64) < b \<longleftrightarrow> unat a < unat b" "(a = b) \<longleftrightarrow> unat a = unat b" for a b
    by (simp_all add: word_less_nat_alt word_unat_eq_iff)
  have wf: "unat (gr_start r) \<le> unat (gr_end r)" using x by (auto simp: geo_sorted_def)
  show ?case
  proof (cases "unat e < unat (gr_start r)")
    case True
    have "geo_scan push (us @ r # ws) s e v (Suc (length us)) = geo_scan push (us @ r # ws) s e v (length us)"
      using True by (simp add: at w Let_def)
    then show ?thesis using snoc.IH [of "r # ws"] snoc.prems True x by simp
  next
    case False
    note ne = this
    consider (after) "unat (gr_end r) < unat s"
      | (same) "unat (gr_start r) = unat s" "unat (gr_end r) = unat e"
      | (split) "unat (gr_start r) < unat s" "unat e < unat (gr_end r)"
      | (left) "unat (gr_start r) = unat s" "unat e < unat (gr_end r)"
      | (right) "unat (gr_start r) < unat s" "unat e = unat (gr_end r)"
      | (bad) "unat s \<le> unat (gr_end r)" "unat s < unat (gr_start r) \<or> unat (gr_end r) < unat e"
      by linarith
    then show ?thesis
    proof cases
      case bad
      then have "\<not> ?m r" using ne by (auto simp: meets_def inside_def)
      moreover have "geo_scan push (us @ r # ws) s e v (Suc (length us)) = None"
        using bad ne by (auto simp: at w Let_def)
      ultimately show ?thesis by auto
    next
      case after
      then have "\<forall>y \<in> set (us @ r # ws). ?m y" using others wf by (auto simp: meets_def)
      moreover have "geo_scan push (us @ r # ws) s e v (Suc (length us)) = Some (us @ r # geo_new s e v # ws)"
        using after ne op(1) by (simp add: at w Let_def)
      ultimately show ?thesis using c(1) [OF after] by auto
    next
      case same
      then have "\<forall>y \<in> set (us @ r # ws). ?m y" using others wf by (auto simp: inside_def)
      moreover have "geo_scan push (us @ r # ws) s e v (Suc (length us)) = Some (us @ r\<lparr>gr_value := v\<rparr> # ws)"
        using same ne se by (simp add: at w Let_def upd)
      ultimately show ?thesis using c(2) [OF same] by auto
    next
      case split
      then have "\<forall>y \<in> set (us @ r # ws). ?m y" using others wf by (auto simp: inside_def)
      moreover have "geo_scan push (us @ r # ws) s e v (Suc (length us)) = geo_split push (us @ r # ws) (length us) s e v"
        using split ne se by (simp add: at w Let_def)
      ultimately show ?thesis using c(3) [OF split] op(2) by auto
    next
      case left
      then have "\<forall>y \<in> set (us @ r # ws). ?m y" using others wf by (auto simp: inside_def)
      moreover have "geo_scan push (us @ r # ws) s e v (Suc (length us)) = geo_shift_start push (us @ r # ws) (length us) s e v"
        using left ne se by (simp add: at w Let_def)
      ultimately show ?thesis using c(4) [OF left] op(3) by auto
    next
      case right
      then have "\<forall>y \<in> set (us @ r # ws). ?m y" using others wf by (auto simp: inside_def)
      moreover have "geo_scan push (us @ r # ws) s e v (Suc (length us)) = geo_shift_end push (us @ r # ws) (length us) s e v"
        using right ne se by (simp add: at w Let_def)
      ultimately show ?thesis using c(5) [OF right] op(4) by auto
    qed
  qed
qed

section \<open>Blocks of addresses\<close>

lemma u32_bound: "unat (n :: u32) < 4294967296"
  using unsigned_less [of n, where 'a = nat] by simp

lemma unat_block: "unat (drop_bit 16 (n :: u32)) = unat n div 65536"
  by (simp add: drop_bit_eq_div unat_div)

lemma unat_offset: "unat ((n :: u32) AND 0xffff) = unat n mod 65536"
proof -
  have "n AND 0xffff = take_bit 16 n" by (simp add: take_bit_eq_mask mask_eq_exp_minus_1)
  then show ?thesis by (simp only: unsigned_take_bit_eq) (simp add: take_bit_eq_mod)
qed

lemma unat_base: "unat ((n :: u32) AND 0xffff0000) = unat n div 65536 * 65536"
proof -
  have "n AND NOT (mask 16) = push_bit 16 (drop_bit 16 n)" by (rule bit_eqI) (auto simp: bit_simps)
  moreover have "NOT (mask 16) = (0xffff0000 :: u32)" by (simp add: mask_eq_exp_minus_1)
  ultimately have "n AND 0xffff0000 = push_bit 16 (drop_bit 16 n)" by simp
  then have "unat (n AND 0xffff0000) = take_bit 32 (push_bit 16 (unat (drop_bit 16 n)))"
    by (simp only: unsigned_push_bit_eq) simp
  also have "\<dots> = (unat n div 65536 * 65536) mod 4294967296"
    unfolding unat_block by (simp add: push_bit_eq_mult take_bit_eq_mod)
  also have "\<dots> = unat n div 65536 * 65536"
    using u32_bound [of n] by (intro mod_less) (meson div_times_less_eq_dividend le_less_trans)
  finally show ?thesis .
qed

lemma unat_top: "unat ((n :: u32) OR 0xffff) = unat n div 65536 * 65536 + 65535"
proof -
  have gen: "(n AND NOT m) OR m = n OR m" for m by (rule bit_eqI) (auto simp: bit_simps)
  have full: "NOT (0xffff :: u32) = 0xffff0000" by simp
  have "(n AND 0xffff0000) + 0xffff = (n AND 0xffff0000) OR 0xffff"
  proof (rule disjunctive_add)
    fix k
    have "(0xffff0000 :: u32) = NOT 0xffff" by simp
    then show "\<not> bit (n AND 0xffff0000) k \<or> \<not> bit (0xffff :: u32) k"
      by (simp only: bit_simps) blast
  qed
  also have "\<dots> = n OR 0xffff" using gen [of "0xffff"] by (simp only: full)
  finally have "unat (n OR 0xffff) = unat ((n AND 0xffff0000) + 0xffff)" by simp
  also have "\<dots> = (unat n div 65536 * 65536 + 65535) mod 4294967296"
    by (simp add: unat_word_ariths unat_base)
  also have "\<dots> = unat n div 65536 * 65536 + 65535"
  proof (rule mod_less)
    have "unat n div 65536 < 65536" using u32_bound [of n] by (simp add: less_mult_imp_div_less)
    then show "unat n div 65536 * 65536 + 65535 < 4294967296" by linarith
  qed
  finally show ?thesis .
qed

text \<open>The value of an address, and the invariant of the blocks.\<close>

definition geo_value :: "geo_low \<Rightarrow> nat \<Rightarrow> ptr option" where
  "geo_value low a = (case low (a div 65536) of None \<Rightarrow> None | Some xs \<Rightarrow> geo_at xs (a mod 65536))"

definition geo_ok :: "geo_low \<Rightarrow> bool" where
  "geo_ok low \<longleftrightarrow> (\<forall>h xs. low h = Some xs \<longrightarrow> geo_sorted xs)"

text \<open>The part of the range from \<open>a\<close> to \<open>b\<close> that falls into block \<open>h\<close>, and the condition that the range fits
  into each block from \<open>k\<close> on.\<close>

definition part_lo :: "nat \<Rightarrow> nat \<Rightarrow> nat" where
  "part_lo a h = (if h = a div 65536 then a mod 65536 else 0)"

definition part_hi :: "nat \<Rightarrow> nat \<Rightarrow> nat" where
  "part_hi b h = (if h = b div 65536 then b mod 65536 else 65535)"

definition fits_from :: "geo_low \<Rightarrow> nat \<Rightarrow> nat \<Rightarrow> nat \<Rightarrow> bool" where
  "fits_from low k a b \<longleftrightarrow> (\<forall>h xs. k \<le> h \<longrightarrow> h \<le> b div 65536 \<longrightarrow> low h = Some xs \<longrightarrow>
    block_fits xs (part_lo a h) (part_hi b h))"

lemma geo_add_block_spec:
  assumes alloc: "\<And>h. creat h" "\<And>h k. push h k" and ok: "geo_ok low"
    and se: "unat s \<le> unat e" "unat e \<le> 65535" and v: "v \<noteq> NULL"
    and fit: "\<And>xs. low h = Some xs \<Longrightarrow> block_fits xs (unat s) (unat e)"
  shows "\<exists>xs'. geo_add_block creat push low h s e v = Some (low(h \<mapsto> xs')) \<and> xs' \<noteq> [] \<and> geo_sorted xs' \<and>
    (\<forall>a. a div 65536 = h \<longrightarrow> geo_at xs' (a mod 65536) =
      (if unat s \<le> a mod 65536 \<and> a mod 65536 \<le> unat e then Some v else geo_value low a))"
proof -
  define xs where "xs = (case low h of None \<Rightarrow> [] | Some a \<Rightarrow> a)"
  have so: "geo_sorted xs" using ok by (auto simp: xs_def geo_ok_def geo_sorted_def split: option.splits)
  have f: "block_fits xs (unat s) (unat e)" using fit by (auto simp: xs_def block_fits_def split: option.splits)
  obtain xs' where xs': "geo_scan (push h) xs s e v (length xs) = Some xs'" "geo_put xs (unat s) (unat e) v xs'"
    using geo_scan_spec [of "push h" xs "[]" s e v] alloc so se v f by (auto simp: block_fits_def split: if_splits)
  have "geo_value low a = geo_at xs (a mod 65536)" if "a div 65536 = h" for a
    using that by (auto simp: geo_value_def xs_def split: option.splits)
  moreover have "geo_add_block creat push low h s e v = Some (low(h \<mapsto> xs'))"
    using xs'(1) alloc by (auto simp: geo_add_block_def xs_def split: option.splits)
  ultimately show ?thesis using xs'(2) by (intro exI [of _ xs']) (auto simp: geo_put_def)
qed

lemma part_words:
  assumes "n \<le> en" "n = start \<or> unat start div 65536 < unat n div 65536 \<and> unat n mod 65536 = 0"
  shows "unat (geo_part_start start n) = unat n mod 65536"
    "unat (geo_part_end en n) = part_hi (unat en) (unat n div 65536)"
    "part_lo (unat start) (unat n div 65536) = unat n mod 65536"
    "unat n mod 65536 \<le> part_hi (unat en) (unat n div 65536)"
proof -
  have le: "unat n \<le> unat en" using assms(1) by (simp add: word_le_nat_alt)
  have d: "unat n div 65536 \<le> unat en div 65536" using le by (rule div_le_mono)
  show "unat (geo_part_start start n) = unat n mod 65536"
    using assms(2) by (auto simp: geo_part_start_def unat_offset)
  show "part_lo (unat start) (unat n div 65536) = unat n mod 65536"
    using assms(2) by (auto simp: part_lo_def)
  have gt: "n OR 0xffff > en \<longleftrightarrow> unat en < unat n div 65536 * 65536 + 65535"
    by (simp add: word_less_nat_alt unat_top)
  define H M where "H = unat en div 65536" and "M = unat en mod 65536"
  have HM: "unat en = H * 65536 + M" "M < 65536" by (simp_all add: H_def M_def)
  have "n OR 0xffff > en \<longleftrightarrow> unat n div 65536 = H \<and> M < 65535"
    unfolding gt HM(1) using d HM(2) unfolding H_def [symmetric] by linarith
  then show "unat (geo_part_end en n) = part_hi (unat en) (unat n div 65536)"
    using HM(2) by (auto simp: geo_part_end_def part_hi_def unat_offset H_def M_def)
  show "unat n mod 65536 \<le> part_hi (unat en) (unat n div 65536)"
    using le d by (auto simp: part_hi_def) (metis div_mult_mod_eq nat_add_left_cancel_le)
qed


lemma next_block:
  assumes "unat (n :: u32) < 4294901760"
  shows "unat ((n + 0x10000) AND 0xffff0000) = (unat n div 65536 + 1) * 65536"
proof -
  have "unat (n + 0x10000) = unat n + 65536" using assms by (simp add: unat_word_ariths)
  moreover have "(unat n + 65536) div 65536 = unat n div 65536 + 1" by simp
  ultimately show ?thesis by (simp only: unat_base)
qed

lemma block_arith:
  fixes n a en :: nat
  assumes "a div 65536 = n div 65536" "n \<le> en"
  shows "n mod 65536 \<le> a mod 65536 \<and> a mod 65536 \<le> part_hi en (n div 65536) \<longleftrightarrow> n \<le> a \<and> a \<le> en"
proof -
  define h s m H M where "h = n div 65536" and "s = n mod 65536" and "m = a mod 65536"
    and "H = en div 65536" and "M = en mod 65536"
  have "n = h * 65536 + s" "a = h * 65536 + m" "en = H * 65536 + M" "s < 65536" "m < 65536" "M < 65536"
    using assms(1) by (simp_all add: h_def s_def m_def H_def M_def) (metis div_mult_mod_eq)
  then show ?thesis using assms(2)
    unfolding part_hi_def h_def [symmetric] s_def [symmetric] m_def [symmetric] H_def [symmetric] M_def [symmetric]
    by (cases "h = H") auto
qed

lemma geo_add_loop_spec:
  assumes alloc: "\<And>h. creat h" "\<And>h k. push h k" and v: "v \<noteq> NULL" and en: "unat en < 4294901760"
    and "geo_ok low" "fits_from low (unat n div 65536) (unat start) (unat en)"
    and "n = start \<or> unat start div 65536 < unat n div 65536 \<and> unat n mod 65536 = 0"
  shows "\<exists>low'. geo_add_loop creat push start en v n low = Some (Some low') \<and> geo_ok low' \<and>
    (\<forall>h. low' h = Some [] \<longrightarrow> low h = Some []) \<and>
    (\<forall>a. geo_value low' a = (if unat n \<le> a \<and> a \<le> unat en then Some v else geo_value low a))"
  using assms(5-7)
proof (induction "Suc (unat en div 65536) - unat n div 65536" arbitrary: n low rule: less_induct)
  case less
  show ?case
  proof (cases "n \<le> en")
    case False
    then show ?thesis using less.prems(1)
      by (subst geo_add_loop.simps) (auto simp: word_le_nat_alt)
  next
    case True
    let ?h = "unat n div 65536" and ?n = "(n + 0x10000) AND 0xffff0000"
    have le: "unat n \<le> unat en" using True by (simp add: word_le_nat_alt)
    have d: "?h \<le> unat en div 65536" using le by (rule div_le_mono)
    note p = part_words [OF True less.prems(3)]
    have fit: "block_fits xs (unat (geo_part_start start n)) (unat (geo_part_end en n))" if "low ?h = Some xs" for xs
      using less.prems(2) that d p(1-3) by (auto simp: fits_from_def)
    have e16: "unat (geo_part_end en n) \<le> 65535" unfolding p(2) part_hi_def by auto
    have se: "unat (geo_part_start start n) \<le> unat (geo_part_end en n)" unfolding p(1,2) by (rule p(4))
    obtain xs' where b: "geo_add_block creat push low ?h (geo_part_start start n) (geo_part_end en n) v = Some (low(?h \<mapsto> xs'))"
      "xs' \<noteq> []" "geo_sorted xs'" "\<And>a. a div 65536 = ?h \<Longrightarrow> geo_at xs' (a mod 65536) =
        (if unat (geo_part_start start n) \<le> a mod 65536 \<and> a mod 65536 \<le> unat (geo_part_end en n) then Some v
         else geo_value low a)"
      using geo_add_block_spec [where creat = creat and push = push and h = ?h, OF alloc less.prems(1) se e16 v fit]
      by blast
    let ?l = "low(?h \<mapsto> xs')"
    have nb: "unat ?n = (?h + 1) * 65536" using next_block [of n] le en by simp
    then have nd: "unat ?n div 65536 = ?h + 1" "unat ?n mod 65536 = 0" by simp_all
    have "unat start div 65536 \<le> ?h" using less.prems(3) by auto
    then have inv: "?n = start \<or> unat start div 65536 < unat ?n div 65536 \<and> unat ?n mod 65536 = 0"
      using nd by simp
    have ok: "geo_ok ?l" using less.prems(1) b(3) by (auto simp: geo_ok_def)
    have ff: "fits_from ?l (unat ?n div 65536) (unat start) (unat en)"
      using less.prems(2) nd(1) by (auto simp: fits_from_def)
    have "Suc (unat en div 65536) - unat ?n div 65536 < Suc (unat en div 65536) - ?h" unfolding nd(1) using d by linarith
    from less.hyps [OF this ok ff inv] obtain low' where
      l: "geo_add_loop creat push start en v ?n ?l = Some (Some low')" "geo_ok low'"
      "\<And>h. low' h = Some [] \<Longrightarrow> ?l h = Some []"
      "\<And>a. geo_value low' a = (if unat ?n \<le> a \<and> a \<le> unat en then Some v else geo_value ?l a)" by blast
    have "geo_value low' a = (if unat n \<le> a \<and> a \<le> unat en then Some v else geo_value low a)" for a
    proof (cases "a div 65536 = ?h")
      case True
      have "a < (?h + 1) * 65536" unfolding True [symmetric] using div_mult_mod_eq [of a 65536] by simp
      then have "geo_value low' a = geo_at xs' (a mod 65536)"
        unfolding l(4) nb using True by (simp add: geo_value_def)
      then show ?thesis unfolding b(4) [OF True] p(1,2) block_arith [OF True le] .
    next
      case False
      have "geo_value ?l a = geo_value low a" using False by (simp add: geo_value_def)
      moreover have "unat ?n \<le> a \<longleftrightarrow> unat n \<le> a"
      proof
        assume "unat n \<le> a"
        then have "?h \<le> a div 65536" by (rule div_le_mono)
        then have "?h + 1 \<le> a div 65536" using False by simp
        then have "(?h + 1) * 65536 \<le> a div 65536 * 65536" by (rule mult_le_mono1)
        also have "\<dots> \<le> a" by simp
        finally show "unat ?n \<le> a" unfolding nb .
      next
        assume "unat ?n \<le> a"
        moreover have "unat n < (?h + 1) * 65536" using div_mult_mod_eq [of "unat n" 65536] by simp
        ultimately show "unat n \<le> a" unfolding nb by simp
      qed
      ultimately show ?thesis unfolding l(4) by simp
    qed
    moreover have "geo_add_loop creat push start en v n low = Some (Some low')"
      using True b(1) l(1) by (subst geo_add_loop.simps) (simp add: unat_block)
    moreover have "low' h = Some [] \<Longrightarrow> low h = Some []" for h
      using l(3) [of h] b(2) by (auto split: if_splits)
    ultimately show ?thesis using l(2) by blast
  qed
qed

lemma geo_match_at:
  "list_all (\<lambda>r. gr_value r \<noteq> NULL) xs \<Longrightarrow>
    geo_match xs n d = (case geo_at xs (unat n) of None \<Rightarrow> d | Some v \<Rightarrow> v)"
proof (induction xs)
  case (Cons r rs)
  have "n \<ge> ucast (gr_start r) \<and> n \<le> ucast (gr_end r) \<longleftrightarrow> covers r (unat n)"
    by (simp add: word_le_nat_alt covers_def)
  moreover have "geo_match rs n d = d" if "rs = []" using that by simp
  ultimately show ?case using Cons by (cases rs) auto
qed simp

lemma range_variable_value:
  assumes "geo_ok low" "\<And>h. low h \<noteq> Some []" "d \<noteq> NULL"
  shows "ngx_http_geo_range_variable \<lparr>gh_low = geo_finish_low low, gh_default = d\<rparr> addr =
    Some (case geo_value low (unat addr) of None \<Rightarrow> d | Some v \<Rightarrow> v)"
proof (cases "low (unat addr div 65536)")
  case None
  then show ?thesis using assms(3)
    by (simp add: ngx_http_geo_range_variable_def geo_finish_low_def unat_block geo_value_def)
next
  case (Some xs)
  then have "list_all (\<lambda>r. gr_value r \<noteq> NULL) xs" "xs \<noteq> []"
    using assms(1) assms(2) [of "unat addr div 65536"] by (auto simp: geo_ok_def geo_sorted_def list_all_iff)
  then show ?thesis using assms(3) Some
    by (simp add: ngx_http_geo_range_variable_def geo_finish_low_def unat_block geo_value_def
        geo_match_at unat_offset)
qed


section \<open>Where the code falls short\<close>

text \<open>A range below all ranges of its block is put behind them, so that a later range inside an earlier one
  is added twice over and never found.\<close>

lemma geo_prepend_unsorted:
  "geo_scan (\<lambda>_. True) [geo_new 10 20 1] 0 5 2 1 = Some [geo_new 10 20 1, geo_new 0 5 2]"
  "geo_scan (\<lambda>_. True) [geo_new 10 20 1, geo_new 0 5 2] 12 15 3 2 =
    Some [geo_new 10 20 1, geo_new 0 5 2, geo_new 12 15 3]"
  "geo_match [geo_new 10 20 1, geo_new 0 5 2, geo_new 12 15 3] 13 9 = 1"
  by code_simp+

text \<open>A range that reaches the last block, \<open>255.255.0.0\<close> and up, is never done: the address of the next
  block wraps around to zero.  The loop goes on over the blocks from the first to the last.\<close>

definition hang_end :: "u32 \<Rightarrow> nat \<Rightarrow> u64" where
  "hang_end en h = (if h = 65535 then geo_part_end en 0xffff0000 else 0xffff)"

definition hangs :: "u32 \<Rightarrow> ptr \<Rightarrow> u32 \<Rightarrow> geo_low \<Rightarrow> bool" where
  "hangs en v n low \<longleftrightarrow> unat n mod 65536 = 0 \<and>
    (\<forall>h. low h = None \<or> low h = Some [geo_new 0 (hang_end en h) v])"

lemma hang_end_small: "unat (hang_end en h) \<le> 65535"
  by (auto simp: hang_end_def geo_part_end_def unat_offset)

lemma hangs_step:
  assumes "\<And>h. creat h" "\<And>h k. push h k" "0xffff0000 \<le> en" "hangs en v n low"
  shows "n \<le> en" "\<exists>low'. geo_add_block creat push low (unat (drop_bit 16 n)) (geo_part_start 0xffff0000 n) (geo_part_end en n) v =
      Some low' \<and> hangs en v ((n + 0x10000) AND 0xffff0000) low'"
proof -
  let ?h = "unat n div 65536"
  have m: "unat n = ?h * 65536" using assms(4) by (simp add: hangs_def) (metis add.right_neutral div_mult_mod_eq)
  have h: "?h < 65536" using u32_bound [of n] by (simp add: less_mult_imp_div_less)
  have en: "4294901760 \<le> unat en" using assms(3) by (simp add: word_le_nat_alt)
  show le: "n \<le> en" using m h en by (simp add: word_le_nat_alt)
  have n: "n = 0xffff0000 \<longleftrightarrow> ?h = 65535" using m by (auto simp: word_unat_eq_iff)
  have s: "geo_part_start 0xffff0000 n = 0" by (auto simp: geo_part_start_def)
  have e: "geo_part_end en n = hang_end en ?h"
  proof (cases "?h = 65535")
    case True
    then show ?thesis using n by (simp add: hang_end_def)
  next
    case False
    have "\<not> n OR 0xffff > en" using False h en by (simp add: word_less_nat_alt unat_top)
    then show ?thesis using False by (simp add: geo_part_end_def hang_end_def)
  qed
  let ?r = "geo_new 0 (hang_end en ?h) v"
  have up: "ucast (ucast (hang_end en ?h) :: u16) = hang_end en ?h"
    using hang_end_small [of en ?h] by (simp add: word_unat_eq_iff unat_to_u16)
  have "geo_add_block creat push low ?h 0 (hang_end en ?h) v = Some (low(?h \<mapsto> [?r]))"
    using assms(1,2,4) up unfolding hangs_def
    by (auto simp: geo_add_block_def geo_push_def Let_def dest!: spec [of _ ?h])
  moreover have "hangs en v ((n + 0x10000) AND 0xffff0000) (low(?h \<mapsto> [?r]))"
    using assms(4) by (auto simp: hangs_def unat_base)
  ultimately show "\<exists>low'. geo_add_block creat push low (unat (drop_bit 16 n)) (geo_part_start 0xffff0000 n) (geo_part_end en n) v =
      Some low' \<and> hangs en v ((n + 0x10000) AND 0xffff0000) low'"
    by (simp add: unat_block s e)
qed

lemma geo_add_range_hangs:
  assumes "\<And>h. creat h" "\<And>h k. push h k" "0xffff0000 \<le> en"
  shows "ngx_http_geo_add_range creat push (\<lambda>_. None) 0xffff0000 en v = None"
proof -
  define P where "P c p start e w n low y \<longleftrightarrow>
    \<not> (start = 0xffff0000 \<and> e = en \<and> c = creat \<and> p = push \<and> hangs e w n low)"
    for c :: "nat \<Rightarrow> bool" and p :: "nat \<Rightarrow> nat \<Rightarrow> bool" and start e :: u32 and w :: ptr
      and n :: u32 and low :: geo_low and y :: "geo_low option"
  have "P c p start e w n low y" if "geo_add_loop c p start e w n low = Some y" for c p start e w n low y
  proof (rule geo_add_loop.raw_induct [OF _ that, of P])
    fix f c p start e w n low y
    assume IH: "\<And>c p start e w n low y. f c p start e w n low = Some y \<Longrightarrow> P c p start e w n low y"
      and body: "(if n \<le> e then
          case geo_add_block c p low (unat (drop_bit 16 n)) (geo_part_start start n) (geo_part_end e n) w of
            None \<Rightarrow> Some None
          | Some low \<Rightarrow> f c p start e w ((n + 0x10000) AND 0xffff0000) low
        else Some (Some low)) = Some y"
    show "P c p start e w n low y" unfolding P_def
    proof
      assume a: "start = 0xffff0000 \<and> e = en \<and> c = creat \<and> p = push \<and> hangs e w n low"
      then have b: "hangs en w n low" by metis
      note st = hangs_step [where creat = creat and push = push, OF assms b]
      obtain low' where l: "geo_add_block creat push low (unat (drop_bit 16 n)) (geo_part_start 0xffff0000 n)
          (geo_part_end en n) w = Some low'" "hangs en w ((n + 0x10000) AND 0xffff0000) low'" using st(2) by blast
      then have "f creat push 0xffff0000 en w ((n + 0x10000) AND 0xffff0000) low' = Some y" using body a st(1) by simp
      then show False using IH l(2) unfolding P_def by blast
    qed
  qed
  then have "\<not> hangs en v n low" if "geo_add_loop creat push 0xffff0000 en v n low = Some y" for n low y
    using that unfolding P_def by blast
  moreover have "hangs en v 0xffff0000 (\<lambda>_. None)" by (simp add: hangs_def)
  ultimately show ?thesis unfolding ngx_http_geo_add_range_def by (metis option.exhaust)
qed

text \<open>Without a \<open>default\<close> every request reads through \<open>NULL\<close>; a deletion misses the last block when the start
  lies behind the end in their blocks; a block emptied by a deletion is read from the destroyed pool.\<close>

lemma geo_no_default_faults:
  "geo_finish palloc low NULL = Some high \<Longrightarrow> ngx_http_geo_range_variable high addr = None"
  by (auto simp: geo_finish_def ngx_http_geo_range_variable_def split: if_splits)

lemma geo_delete_incomplete:
  assumes "low 0 = Some [geo_new 5 0xffff v]" "low 1 = Some [geo_new 0 3 v]"
  shows "ngx_http_geo_delete_range low 5 0x10003 = Some (low(0 \<mapsto> []), False)"
  using assms unfolding ngx_http_geo_delete_range_def
  by (simp add: geo_del_loop.simps geo_part_start_def geo_part_end_def geo_del_scan.simps geo_memmove_def Let_def)

lemma geo_emptied_block_faults:
  assumes "low (unat (drop_bit 16 addr)) = Some []"
  shows "geo_finish palloc low d = Some high \<Longrightarrow> ngx_http_geo_range_variable high addr = None"
  using assms by (auto simp: geo_finish_def ngx_http_geo_range_variable_def geo_finish_low_def split: if_splits)

section \<open>Properties\<close>

text \<open>
  C26. Adding a range and looking up: when memory suffices, the blocks are sorted and not empty, the range
  ends below \<open>255.255.0.0\<close>, overlaps no earlier range in part and is not below all ranges of its block,
  then \<open>ngx_http_geo_add_range\<close> returns, the blocks are sorted again, and a request finds the new value for
  exactly the addresses of the range and the value it had, or the default, for every other one.
\<close>

theorem geo_add_range_sets:
  assumes "\<And>h. creat h" and "\<And>h k. push h k" and "\<And>i. palloc i"
    and "geo_ok low" and "\<And>h. low h \<noteq> Some []" and "v \<noteq> NULL" and "d \<noteq> NULL"
    and "start \<le> en" and "en < 0xffff0000"
    and "fits_from low (unat start div 65536) (unat start) (unat en)"
  shows "\<exists>low' high. ngx_http_geo_add_range creat push low start en v = Some (Some low') \<and> geo_ok low' \<and>
    geo_finish palloc low' d = Some high \<and>
    (\<forall>addr. ngx_http_geo_range_variable high addr =
      Some (if start \<le> addr \<and> addr \<le> en then v
            else case geo_value low (unat addr) of None \<Rightarrow> d | Some w \<Rightarrow> w))"
proof -
  have en: "unat en < 4294901760" using assms(9) by (simp add: word_less_nat_alt)
  obtain low' where l: "geo_add_loop creat push start en v start low = Some (Some low')" "geo_ok low'"
    "\<And>h. low' h = Some [] \<Longrightarrow> low h = Some []"
    "\<And>a. geo_value low' a = (if unat start \<le> a \<and> a \<le> unat en then Some v else geo_value low a)"
    using geo_add_loop_spec [where creat = creat and push = push and n = start,
        OF assms(1,2,6) en assms(4,10)] by blast
  have "\<And>h. low' h \<noteq> Some []" using l(3) assms(5) by blast
  note var = range_variable_value [OF l(2) this assms(7)]
  have "geo_finish palloc low' d = Some \<lparr>gh_low = geo_finish_low low', gh_default = d\<rparr>"
    using assms(3) by (simp add: geo_finish_def list_all_iff split: geo_ptr.split)
  moreover have "ngx_http_geo_add_range creat push low start en v = Some (Some low')"
    using l(1) by (simp add: ngx_http_geo_add_range_def)
  ultimately show ?thesis
    using l(2) var by (intro exI [of _ low'] exI conjI allI) (auto simp: l(4) word_le_nat_alt)
qed

theorem geo_add_range_sets_witness:
  "\<exists>low' high. ngx_http_geo_add_range (\<lambda>_. True) (\<lambda>_ _. True) ((\<lambda>_. None)(1 \<mapsto> [geo_new 0 0xffff 1])) 0x10005 0x20003 2 =
      Some (Some low') \<and>
    geo_ok low' \<and> geo_finish (\<lambda>_. True) low' 9 = Some high \<and>
    ngx_http_geo_range_variable high 0x10004 = Some 1 \<and>
    ngx_http_geo_range_variable high 0x10005 = Some 2 \<and>
    ngx_http_geo_range_variable high 0x20003 = Some 2 \<and>
    ngx_http_geo_range_variable high 0x20004 = Some 9"
proof -
  let ?low = "(\<lambda>_. None)(1 \<mapsto> [geo_new 0 0xffff 1]) :: geo_low"
  have ok: "geo_ok ?low" by (auto simp: geo_ok_def geo_sorted_def)
  have fit: "fits_from ?low (unat (0x10005 :: u32) div 65536) (unat (0x10005 :: u32)) (unat (0x20003 :: u32))"
    by (auto simp: fits_from_def block_fits_def inside_def part_lo_def part_hi_def)
  have full: "\<And>h. ?low h \<noteq> Some []" by auto
  have le: "(0x10005 :: u32) \<le> 0x20003" "(0x20003 :: u32) < 0xffff0000" "(2 :: ptr) \<noteq> NULL" "(9 :: ptr) \<noteq> NULL"
    by simp_all
  obtain low' high where
    l: "ngx_http_geo_add_range (\<lambda>_. True) (\<lambda>_ _. True) ?low 0x10005 0x20003 2 = Some (Some low')" "geo_ok low'"
      "geo_finish (\<lambda>_. True) low' 9 = Some high"
    and v: "\<forall>addr. ngx_http_geo_range_variable high addr =
      Some (if 0x10005 \<le> addr \<and> addr \<le> 0x20003 then 2
            else case geo_value ?low (unat addr) of None \<Rightarrow> 9 | Some w \<Rightarrow> w)"
    using geo_add_range_sets [of "\<lambda>_. True" "\<lambda>_ _. True" "\<lambda>_. True" ?low 2 9 "0x10005" "0x20003",
        OF TrueI TrueI TrueI ok full le(3,4,1,2) fit]
    by blast
  have "geo_value ?low (unat (0x10004 :: u32)) = Some 1" "geo_value ?low (unat (0x20004 :: u32)) = None"
    by (simp_all add: geo_value_def covers_def)
  then have "ngx_http_geo_range_variable high 0x10004 = Some 1" "ngx_http_geo_range_variable high 0x10005 = Some 2"
    "ngx_http_geo_range_variable high 0x20003 = Some 2" "ngx_http_geo_range_variable high 0x20004 = Some 9"
    unfolding v [rule_format] by (simp_all del: unat_numeral fun_upd_apply)
  with l show ?thesis by blast
qed

text \<open>
  A range that overlaps an earlier range of its block in part is refused with \<open>NGX_CONF_ERROR\<close>.
\<close>

theorem geo_add_range_overlap:
  assumes "\<And>h k. push h k" and "geo_ok low" and "v \<noteq> NULL" and "start \<le> en"
    and "unat start div 65536 = unat en div 65536" and "low (unat en div 65536) = Some xs"
    and "unat (gr_start (hd xs)) \<le> unat en mod 65536"
    and "r \<in> set xs" and "meets (unat start mod 65536) (unat en mod 65536) r"
    and "\<not> inside (unat start mod 65536) (unat en mod 65536) r"
  shows "ngx_http_geo_add_range creat push low start en v = Some None"
proof -
  note p = part_words [OF assms(4), of start, simplified]
  have s: "unat (geo_part_start start start) = unat start mod 65536" "unat (geo_part_end en start) = unat en mod 65536"
    using p assms(5) by (simp_all add: part_hi_def)
  have se: "unat (geo_part_start start start) \<le> unat (geo_part_end en start)" "unat (geo_part_end en start) \<le> 65535"
    using p(4) assms(5) s by (simp_all add: part_hi_def)
  have so: "geo_sorted (xs @ [])" using assms(2,6) by (auto simp: geo_ok_def)
  have "geo_scan (push (unat en div 65536)) xs (geo_part_start start start) (geo_part_end en start) v (length xs) = None"
    using geo_scan_spec [of "push (unat en div 65536)" xs "[]", OF assms(1) so se assms(3)] assms(7-10) s
    by (auto split: if_splits)
  then have "geo_add_block creat push low (unat en div 65536) (geo_part_start start start) (geo_part_end en start) v = None"
    using assms(6) by (simp add: geo_add_block_def)
  then show ?thesis using assms(4,5)
    unfolding ngx_http_geo_add_range_def by (subst geo_add_loop.simps) (simp add: unat_block)
qed

theorem geo_add_range_overlap_witness:
  "ngx_http_geo_add_range (\<lambda>_. True) (\<lambda>_ _. True) ((\<lambda>_. None)(0 \<mapsto> [geo_new 10 20 1])) 15 30 2 = Some None"
proof -
  let ?low = "(\<lambda>_. None)(0 \<mapsto> [geo_new 10 20 1]) :: geo_low"
  have "geo_ok ?low" by (auto simp: geo_ok_def geo_sorted_def)
  then show ?thesis
    using geo_add_range_overlap [of "\<lambda>_ _. True" ?low 2 15 30 "[geo_new 10 20 1]" "geo_new 10 20 1" "\<lambda>_. True"]
    by (simp add: meets_def inside_def)
qed

end
