(* ===== verification/Ngx_Rbtree.thy ===== *)
theory Ngx_Rbtree
  imports Ngx_Prelude "HOL-Library.Monad_Syntax"
begin

text \<open>
  The red-black trees of \<^verbatim>\<open>src/core/ngx_rbtree.c\<close> and \<^verbatim>\<open>src/core/ngx_rbtree.h\<close>: all functions and macros, on a
  memory of nodes with left, right and parent links and a sentinel.  A value \<open>None\<close> is an access through
  \<open>NULL\<close> or a loop that does not end.

  This theory has the functions, the relation between the memory and a tree with a focus, and what the
  rotations, the colour changes and the cases of the insertion loop do to the tree.  The invariants and
  the operations as a whole are in \<^verbatim>\<open>Ngx_Rbtree_Balance\<close>.
\<close>

section \<open>The functions\<close>

text \<open>\<open>ngx_rbtree_node_t\<close>, without the byte \<open>data\<close> that no function of the file uses.  The memory has a node at
  every address; an access through \<open>NULL\<close> is the value \<open>None\<close>.\<close>

record ngx_rbtree_node =
  nd_key :: u64
  nd_left :: ptr
  nd_right :: ptr
  nd_parent :: ptr
  nd_color :: byte

type_synonym rbheap = "ptr \<Rightarrow> ngx_rbtree_node"

definition rb_get :: "(ngx_rbtree_node \<Rightarrow> 'a) \<Rightarrow> ptr \<Rightarrow> rbheap \<Rightarrow> 'a option" where
  "rb_get f p H = (if p = NULL then None else Some (f (H p)))"

definition rb_put :: "(ngx_rbtree_node \<Rightarrow> ngx_rbtree_node) \<Rightarrow> ptr \<Rightarrow> rbheap \<Rightarrow> rbheap option" where
  "rb_put g p H = (if p = NULL then None else Some (H(p := g (H p))))"

abbreviation set_key :: "ptr \<Rightarrow> u64 \<Rightarrow> rbheap \<Rightarrow> rbheap option" where
  "set_key p v \<equiv> rb_put (nd_key_update (\<lambda>_. v)) p"

abbreviation set_left :: "ptr \<Rightarrow> ptr \<Rightarrow> rbheap \<Rightarrow> rbheap option" where
  "set_left p v \<equiv> rb_put (nd_left_update (\<lambda>_. v)) p"

abbreviation set_right :: "ptr \<Rightarrow> ptr \<Rightarrow> rbheap \<Rightarrow> rbheap option" where
  "set_right p v \<equiv> rb_put (nd_right_update (\<lambda>_. v)) p"

abbreviation set_parent :: "ptr \<Rightarrow> ptr \<Rightarrow> rbheap \<Rightarrow> rbheap option" where
  "set_parent p v \<equiv> rb_put (nd_parent_update (\<lambda>_. v)) p"

abbreviation set_color :: "ptr \<Rightarrow> byte \<Rightarrow> rbheap \<Rightarrow> rbheap option" where
  "set_color p v \<equiv> rb_put (nd_color_update (\<lambda>_. v)) p"

text \<open>The colour macros: 1 is red.\<close>

definition ngx_rbt_red :: "ptr \<Rightarrow> rbheap \<Rightarrow> rbheap option" where
  "ngx_rbt_red p H = set_color p 1 H"

definition ngx_rbt_black :: "ptr \<Rightarrow> rbheap \<Rightarrow> rbheap option" where
  "ngx_rbt_black p H = set_color p 0 H"

definition ngx_rbt_is_red :: "ptr \<Rightarrow> rbheap \<Rightarrow> bool option" where
  "ngx_rbt_is_red p H = map_option (\<lambda>c. c \<noteq> 0) (rb_get nd_color p H)"

definition ngx_rbt_is_black :: "ptr \<Rightarrow> rbheap \<Rightarrow> bool option" where
  "ngx_rbt_is_black p H = map_option Not (ngx_rbt_is_red p H)"

definition ngx_rbt_copy_color :: "ptr \<Rightarrow> ptr \<Rightarrow> rbheap \<Rightarrow> rbheap option" where
  "ngx_rbt_copy_color n1 n2 H = do { c \<leftarrow> rb_get nd_color n2 H; set_color n1 c H }"

text \<open>\<open>ngx_rbtree_t\<close>, and \<open>ngx_rbtree_init\<close>.  The sentinel is a node: only its colour is initialised.\<close>

record ngx_rbtree =
  tr_root :: ptr
  tr_sentinel :: ptr
  tr_insert :: "ptr \<Rightarrow> ptr \<Rightarrow> ptr \<Rightarrow> rbheap \<Rightarrow> rbheap option"

definition ngx_rbtree_init ::
  "ptr \<Rightarrow> (ptr \<Rightarrow> ptr \<Rightarrow> ptr \<Rightarrow> rbheap \<Rightarrow> rbheap option) \<Rightarrow> rbheap \<Rightarrow> (ngx_rbtree \<times> rbheap) option" where
  "ngx_rbtree_init s i H = do {
     H \<leftarrow> ngx_rbt_black s H;
     Some (\<lparr>tr_root = s, tr_sentinel = s, tr_insert = i\<rparr>, H) }"

text \<open>\<open>ngx_rbtree_min\<close>.\<close>

partial_function (option) ngx_rbtree_min :: "ptr \<Rightarrow> ptr \<Rightarrow> rbheap \<Rightarrow> ptr option" where
  "ngx_rbtree_min node s H = do {
     l \<leftarrow> rb_get nd_left node H;
     if l \<noteq> s then ngx_rbtree_min l s H else Some node }"

text \<open>\<open>temp\<close> takes the place of \<open>node\<close> below its parent, or as the root: in the left rotation and in the
  deletion the left link is tested first, in the right rotation the right link.\<close>

definition rb_relink :: "ptr \<Rightarrow> ptr \<Rightarrow> ptr \<times> rbheap \<Rightarrow> (ptr \<times> rbheap) option" where
  "rb_relink node temp = (\<lambda>(root, H).
     if node = root then Some (temp, H)
     else do {
       p \<leftarrow> rb_get nd_parent node H;
       l \<leftarrow> rb_get nd_left p H;
       H \<leftarrow> (if node = l then set_left p temp H else set_right p temp H);
       Some (root, H) })"

definition rb_relink_right :: "ptr \<Rightarrow> ptr \<Rightarrow> ptr \<times> rbheap \<Rightarrow> (ptr \<times> rbheap) option" where
  "rb_relink_right node temp = (\<lambda>(root, H).
     if node = root then Some (temp, H)
     else do {
       p \<leftarrow> rb_get nd_parent node H;
       r \<leftarrow> rb_get nd_right p H;
       H \<leftarrow> (if node = r then set_right p temp H else set_left p temp H);
       Some (root, H) })"

definition ngx_rbtree_left_rotate :: "ptr \<Rightarrow> ptr \<Rightarrow> ptr \<times> rbheap \<Rightarrow> (ptr \<times> rbheap) option" where
  "ngx_rbtree_left_rotate s node = (\<lambda>(root, H). do {
     temp \<leftarrow> rb_get nd_right node H;
     l \<leftarrow> rb_get nd_left temp H;
     H \<leftarrow> set_right node l H;
     l \<leftarrow> rb_get nd_left temp H;
     H \<leftarrow> (if l \<noteq> s then set_parent l node H else Some H);
     p \<leftarrow> rb_get nd_parent node H;
     H \<leftarrow> set_parent temp p H;
     (root, H) \<leftarrow> rb_relink node temp (root, H);
     H \<leftarrow> set_left temp node H;
     H \<leftarrow> set_parent node temp H;
     Some (root, H) })"

definition ngx_rbtree_right_rotate :: "ptr \<Rightarrow> ptr \<Rightarrow> ptr \<times> rbheap \<Rightarrow> (ptr \<times> rbheap) option" where
  "ngx_rbtree_right_rotate s node = (\<lambda>(root, H). do {
     temp \<leftarrow> rb_get nd_left node H;
     r \<leftarrow> rb_get nd_right temp H;
     H \<leftarrow> set_left node r H;
     r \<leftarrow> rb_get nd_right temp H;
     H \<leftarrow> (if r \<noteq> s then set_parent r node H else Some H);
     p \<leftarrow> rb_get nd_parent node H;
     H \<leftarrow> set_parent temp p H;
     (root, H) \<leftarrow> rb_relink_right node temp (root, H);
     H \<leftarrow> set_right temp node H;
     H \<leftarrow> set_parent node temp H;
     Some (root, H) })"

text \<open>The two functions that insert a node without balancing differ in the comparison; the timers compare
  by the sign of the difference.\<close>

definition rb_attach :: "bool \<Rightarrow> ptr \<Rightarrow> ptr \<Rightarrow> ptr \<Rightarrow> rbheap \<Rightarrow> rbheap option" where
  "rb_attach lt temp node s H = do {
     H \<leftarrow> (if lt then set_left temp node H else set_right temp node H);
     H \<leftarrow> set_parent node temp H;
     H \<leftarrow> set_left node s H;
     H \<leftarrow> set_right node s H;
     ngx_rbt_red node H }"

partial_function (option) ngx_rbtree_insert_value ::
  "ptr \<Rightarrow> ptr \<Rightarrow> ptr \<Rightarrow> rbheap \<Rightarrow> rbheap option" where
  "ngx_rbtree_insert_value temp node s H = do {
     k \<leftarrow> rb_get nd_key node H;
     t \<leftarrow> rb_get nd_key temp H;
     p \<leftarrow> (if k < t then rb_get nd_left temp H else rb_get nd_right temp H);
     if p = s then rb_attach (k < t) temp node s H
     else ngx_rbtree_insert_value p node s H }"

partial_function (option) ngx_rbtree_insert_timer_value ::
  "ptr \<Rightarrow> ptr \<Rightarrow> ptr \<Rightarrow> rbheap \<Rightarrow> rbheap option" where
  "ngx_rbtree_insert_timer_value temp node s H = do {
     k \<leftarrow> rb_get nd_key node H;
     t \<leftarrow> rb_get nd_key temp H;
     p \<leftarrow> (if sint (k - t) < 0 then rb_get nd_left temp H else rb_get nd_right temp H);
     if p = s then rb_attach (sint (k - t) < 0) temp node s H
     else ngx_rbtree_insert_timer_value p node s H }"

text \<open>\<open>ngx_rbtree_insert\<close>: the two halves of the loop body, for a parent that is a left and a right child, the
  loop, and the function.\<close>

definition rb_insert_left :: "ptr \<Rightarrow> ptr \<Rightarrow> ptr \<times> rbheap \<Rightarrow> (ptr \<times> ptr \<times> rbheap) option" where
  "rb_insert_left s node = (\<lambda>(root, H). do {
     p \<leftarrow> rb_get nd_parent node H;
     g \<leftarrow> rb_get nd_parent p H;
     temp \<leftarrow> rb_get nd_right g H;
     red \<leftarrow> ngx_rbt_is_red temp H;
     if red then do {
       H \<leftarrow> ngx_rbt_black p H;
       H \<leftarrow> ngx_rbt_black temp H;
       H \<leftarrow> ngx_rbt_red g H;
       Some (g, root, H)
     } else do {
       r \<leftarrow> rb_get nd_right p H;
       (node, root, H) \<leftarrow>
         (if node = r then do {
            (root, H) \<leftarrow> ngx_rbtree_left_rotate s p (root, H);
            Some (p, root, H) }
          else Some (node, root, H));
       p \<leftarrow> rb_get nd_parent node H;
       H \<leftarrow> ngx_rbt_black p H;
       g \<leftarrow> rb_get nd_parent p H;
       H \<leftarrow> ngx_rbt_red g H;
       (root, H) \<leftarrow> ngx_rbtree_right_rotate s g (root, H);
       Some (node, root, H) } })"

definition rb_insert_right :: "ptr \<Rightarrow> ptr \<Rightarrow> ptr \<times> rbheap \<Rightarrow> (ptr \<times> ptr \<times> rbheap) option" where
  "rb_insert_right s node = (\<lambda>(root, H). do {
     p \<leftarrow> rb_get nd_parent node H;
     g \<leftarrow> rb_get nd_parent p H;
     temp \<leftarrow> rb_get nd_left g H;
     red \<leftarrow> ngx_rbt_is_red temp H;
     if red then do {
       H \<leftarrow> ngx_rbt_black p H;
       H \<leftarrow> ngx_rbt_black temp H;
       H \<leftarrow> ngx_rbt_red g H;
       Some (g, root, H)
     } else do {
       l \<leftarrow> rb_get nd_left p H;
       (node, root, H) \<leftarrow>
         (if node = l then do {
            (root, H) \<leftarrow> ngx_rbtree_right_rotate s p (root, H);
            Some (p, root, H) }
          else Some (node, root, H));
       p \<leftarrow> rb_get nd_parent node H;
       H \<leftarrow> ngx_rbt_black p H;
       g \<leftarrow> rb_get nd_parent p H;
       H \<leftarrow> ngx_rbt_red g H;
       (root, H) \<leftarrow> ngx_rbtree_left_rotate s g (root, H);
       Some (node, root, H) } })"

partial_function (option) rb_insert_fix :: "ptr \<Rightarrow> ptr \<Rightarrow> ptr \<Rightarrow> rbheap \<Rightarrow> (ptr \<times> rbheap) option" where
  "rb_insert_fix s node root H =
    (if node = root then Some (root, H)
     else do {
       p \<leftarrow> rb_get nd_parent node H;
       red \<leftarrow> ngx_rbt_is_red p H;
       if \<not> red then Some (root, H)
       else do {
         g \<leftarrow> rb_get nd_parent p H;
         l \<leftarrow> rb_get nd_left g H;
         (node, root, H) \<leftarrow> (if p = l then rb_insert_left s node (root, H) else rb_insert_right s node (root, H));
         rb_insert_fix s node root H } })"

definition ngx_rbtree_insert :: "ngx_rbtree \<Rightarrow> ptr \<Rightarrow> rbheap \<Rightarrow> (ngx_rbtree \<times> rbheap) option" where
  "ngx_rbtree_insert tree node H = do {
     let s = tr_sentinel tree;
     if tr_root tree = s then do {
       H \<leftarrow> set_parent node NULL H;
       H \<leftarrow> set_left node s H;
       H \<leftarrow> set_right node s H;
       H \<leftarrow> ngx_rbt_black node H;
       Some (tree\<lparr>tr_root := node\<rparr>, H)
     } else do {
       H \<leftarrow> tr_insert tree (tr_root tree) node s H;
       (root, H) \<leftarrow> rb_insert_fix s node (tr_root tree) H;
       H \<leftarrow> ngx_rbt_black root H;
       Some (tree\<lparr>tr_root := root\<rparr>, H) } }"

text \<open>\<open>ngx_rbtree_delete\<close>: the choice of \<open>subst\<close> and \<open>temp\<close>; the final reset of the node; the move of \<open>subst\<close> into the
  place of the node; the unlinking as a whole.\<close>

definition rb_delete_pick :: "ptr \<Rightarrow> ptr \<Rightarrow> rbheap \<Rightarrow> (ptr \<times> ptr) option" where
  "rb_delete_pick s node H = do {
     l \<leftarrow> rb_get nd_left node H;
     r \<leftarrow> rb_get nd_right node H;
     if l = s then Some (r, node)
     else if r = s then Some (l, node)
     else do {
       subst \<leftarrow> ngx_rbtree_min r s H;
       sl \<leftarrow> rb_get nd_left subst H;
       sr \<leftarrow> rb_get nd_right subst H;
       Some (if sl \<noteq> s then sl else sr, subst) } }"

definition rb_clear :: "ptr \<Rightarrow> rbheap \<Rightarrow> rbheap option" where
  "rb_clear node H = do {
     H \<leftarrow> set_left node NULL H;
     H \<leftarrow> set_right node NULL H;
     H \<leftarrow> set_parent node NULL H;
     set_key node 0 H }"

definition rb_replace :: "ptr \<Rightarrow> ptr \<Rightarrow> ptr \<Rightarrow> ptr \<times> rbheap \<Rightarrow> (ptr \<times> rbheap) option" where
  "rb_replace s node subst = (\<lambda>(root, H). do {
     l \<leftarrow> rb_get nd_left node H;
     H \<leftarrow> set_left subst l H;
     r \<leftarrow> rb_get nd_right node H;
     H \<leftarrow> set_right subst r H;
     p \<leftarrow> rb_get nd_parent node H;
     H \<leftarrow> set_parent subst p H;
     H \<leftarrow> ngx_rbt_copy_color subst node H;
     (root, H) \<leftarrow> rb_relink node subst (root, H);
     l \<leftarrow> rb_get nd_left subst H;
     H \<leftarrow> (if l \<noteq> s then set_parent l subst H else Some H);
     r \<leftarrow> rb_get nd_right subst H;
     H \<leftarrow> (if r \<noteq> s then set_parent r subst H else Some H);
     Some (root, H) })"

definition rb_unlink :: "ptr \<Rightarrow> ptr \<Rightarrow> ptr \<Rightarrow> ptr \<Rightarrow> ptr \<times> rbheap \<Rightarrow> (ptr \<times> rbheap) option" where
  "rb_unlink s node temp subst = (\<lambda>(root, H). do {
     p \<leftarrow> rb_get nd_parent subst H;
     l \<leftarrow> rb_get nd_left p H;
     H \<leftarrow> (if subst = l then set_left p temp H else set_right p temp H);
     (root, H) \<leftarrow>
       (if subst = node then do {
          p \<leftarrow> rb_get nd_parent subst H;
          H \<leftarrow> set_parent temp p H;
          Some (root, H) }
        else do {
          p \<leftarrow> rb_get nd_parent subst H;
          H \<leftarrow> (if p = node then set_parent temp subst H else set_parent temp p H);
          rb_replace s node subst (root, H) });
     H \<leftarrow> rb_clear node H;
     Some (root, H) })"

text \<open>The body of the fixup loop, for \<open>temp\<close> a left and a right child: a red sibling is rotated away, then the
  children of the sibling decide.\<close>

definition rb_black_children :: "ptr \<Rightarrow> rbheap \<Rightarrow> bool option" where
  "rb_black_children w H = do {
     l \<leftarrow> rb_get nd_left w H;
     bl \<leftarrow> ngx_rbt_is_black l H;
     r \<leftarrow> rb_get nd_right w H;
     br \<leftarrow> ngx_rbt_is_black r H;
     Some (bl \<and> br) }"

definition rb_sibling_left :: "ptr \<Rightarrow> ptr \<Rightarrow> ptr \<times> rbheap \<Rightarrow> (ptr \<times> ptr \<times> rbheap) option" where
  "rb_sibling_left s temp = (\<lambda>(root, H). do {
     p \<leftarrow> rb_get nd_parent temp H;
     w \<leftarrow> rb_get nd_right p H;
     red \<leftarrow> ngx_rbt_is_red w H;
     if red then do {
       H \<leftarrow> ngx_rbt_black w H;
       H \<leftarrow> ngx_rbt_red p H;
       (root, H) \<leftarrow> ngx_rbtree_left_rotate s p (root, H);
       p \<leftarrow> rb_get nd_parent temp H;
       w \<leftarrow> rb_get nd_right p H;
       Some (w, root, H) }
     else Some (w, root, H) })"

definition rb_balance_left :: "ptr \<Rightarrow> ptr \<Rightarrow> ptr \<Rightarrow> ptr \<times> rbheap \<Rightarrow> (ptr \<times> ptr \<times> rbheap) option" where
  "rb_balance_left s temp w = (\<lambda>(root, H). do {
     black \<leftarrow> rb_black_children w H;
     if black then do {
       H \<leftarrow> ngx_rbt_red w H;
       temp \<leftarrow> rb_get nd_parent temp H;
       Some (temp, root, H)
     } else do {
       r \<leftarrow> rb_get nd_right w H;
       br \<leftarrow> ngx_rbt_is_black r H;
       (w, root, H) \<leftarrow>
         (if br then do {
            l \<leftarrow> rb_get nd_left w H;
            H \<leftarrow> ngx_rbt_black l H;
            H \<leftarrow> ngx_rbt_red w H;
            (root, H) \<leftarrow> ngx_rbtree_right_rotate s w (root, H);
            p \<leftarrow> rb_get nd_parent temp H;
            w \<leftarrow> rb_get nd_right p H;
            Some (w, root, H) }
          else Some (w, root, H));
       p \<leftarrow> rb_get nd_parent temp H;
       H \<leftarrow> ngx_rbt_copy_color w p H;
       H \<leftarrow> ngx_rbt_black p H;
       r \<leftarrow> rb_get nd_right w H;
       H \<leftarrow> ngx_rbt_black r H;
       (root, H) \<leftarrow> ngx_rbtree_left_rotate s p (root, H);
       Some (root, root, H) } })"

definition rb_delete_left :: "ptr \<Rightarrow> ptr \<Rightarrow> ptr \<times> rbheap \<Rightarrow> (ptr \<times> ptr \<times> rbheap) option" where
  "rb_delete_left s temp st = do {
     (w, root, H) \<leftarrow> rb_sibling_left s temp st;
     rb_balance_left s temp w (root, H) }"

definition rb_sibling_right :: "ptr \<Rightarrow> ptr \<Rightarrow> ptr \<times> rbheap \<Rightarrow> (ptr \<times> ptr \<times> rbheap) option" where
  "rb_sibling_right s temp = (\<lambda>(root, H). do {
     p \<leftarrow> rb_get nd_parent temp H;
     w \<leftarrow> rb_get nd_left p H;
     red \<leftarrow> ngx_rbt_is_red w H;
     if red then do {
       H \<leftarrow> ngx_rbt_black w H;
       H \<leftarrow> ngx_rbt_red p H;
       (root, H) \<leftarrow> ngx_rbtree_right_rotate s p (root, H);
       p \<leftarrow> rb_get nd_parent temp H;
       w \<leftarrow> rb_get nd_left p H;
       Some (w, root, H) }
     else Some (w, root, H) })"

definition rb_balance_right :: "ptr \<Rightarrow> ptr \<Rightarrow> ptr \<Rightarrow> ptr \<times> rbheap \<Rightarrow> (ptr \<times> ptr \<times> rbheap) option" where
  "rb_balance_right s temp w = (\<lambda>(root, H). do {
     black \<leftarrow> rb_black_children w H;
     if black then do {
       H \<leftarrow> ngx_rbt_red w H;
       temp \<leftarrow> rb_get nd_parent temp H;
       Some (temp, root, H)
     } else do {
       l \<leftarrow> rb_get nd_left w H;
       bl \<leftarrow> ngx_rbt_is_black l H;
       (w, root, H) \<leftarrow>
         (if bl then do {
            r \<leftarrow> rb_get nd_right w H;
            H \<leftarrow> ngx_rbt_black r H;
            H \<leftarrow> ngx_rbt_red w H;
            (root, H) \<leftarrow> ngx_rbtree_left_rotate s w (root, H);
            p \<leftarrow> rb_get nd_parent temp H;
            w \<leftarrow> rb_get nd_left p H;
            Some (w, root, H) }
          else Some (w, root, H));
       p \<leftarrow> rb_get nd_parent temp H;
       H \<leftarrow> ngx_rbt_copy_color w p H;
       H \<leftarrow> ngx_rbt_black p H;
       l \<leftarrow> rb_get nd_left w H;
       H \<leftarrow> ngx_rbt_black l H;
       (root, H) \<leftarrow> ngx_rbtree_right_rotate s p (root, H);
       Some (root, root, H) } })"

definition rb_delete_right :: "ptr \<Rightarrow> ptr \<Rightarrow> ptr \<times> rbheap \<Rightarrow> (ptr \<times> ptr \<times> rbheap) option" where
  "rb_delete_right s temp st = do {
     (w, root, H) \<leftarrow> rb_sibling_right s temp st;
     rb_balance_right s temp w (root, H) }"

text \<open>The fixup loop with the last \<open>ngx_rbt_black(temp)\<close>, and the function.\<close>

partial_function (option) rb_delete_fix :: "ptr \<Rightarrow> ptr \<Rightarrow> ptr \<Rightarrow> rbheap \<Rightarrow> (ptr \<times> rbheap) option" where
  "rb_delete_fix s temp root H = do {
     bt \<leftarrow> (if temp = root then Some False else ngx_rbt_is_black temp H);
     if \<not> bt then do { H \<leftarrow> ngx_rbt_black temp H; Some (root, H) }
     else do {
       p \<leftarrow> rb_get nd_parent temp H;
       l \<leftarrow> rb_get nd_left p H;
       (temp, root, H) \<leftarrow> (if temp = l then rb_delete_left s temp (root, H) else rb_delete_right s temp (root, H));
       rb_delete_fix s temp root H } }"

definition ngx_rbtree_delete :: "ngx_rbtree \<Rightarrow> ptr \<Rightarrow> rbheap \<Rightarrow> (ngx_rbtree \<times> rbheap) option" where
  "ngx_rbtree_delete tree node H = do {
     let s = tr_sentinel tree;
     (temp, subst) \<leftarrow> rb_delete_pick s node H;
     if subst = tr_root tree then do {
       H \<leftarrow> ngx_rbt_black temp H;
       H \<leftarrow> rb_clear node H;
       Some (tree\<lparr>tr_root := temp\<rparr>, H)
     } else do {
       red \<leftarrow> ngx_rbt_is_red subst H;
       (root, H) \<leftarrow> rb_unlink s node temp subst (tr_root tree, H);
       if red then Some (tree\<lparr>tr_root := root\<rparr>, H)
       else do {
         (root, H) \<leftarrow> rb_delete_fix s temp root H;
         Some (tree\<lparr>tr_root := root\<rparr>, H) } } }"

section \<open>Trees in the memory\<close>

text \<open>
  A tree names the colour and the address of each node.  A frame is a node with one child missing, and
  \<open>fill fs t\<close> is the tree with \<open>t\<close> in the hole of the frames \<open>fs\<close>, the innermost first.
\<close>

datatype rbt = Lf | Nd bool rbt ptr rbt

datatype rbframe = InLeft bool ptr rbt | InRight bool rbt ptr

fun inord :: "rbt \<Rightarrow> ptr list" where
  "inord Lf = []"
| "inord (Nd c l a r) = inord l @ a # inord r"

fun rpt :: "ptr \<Rightarrow> rbt \<Rightarrow> ptr" where
  "rpt s Lf = s"
| "rpt s (Nd c l a r) = a"

text \<open>What the memory holds for a node, a tree and the frames around a hole.  The parent of the root is
  not constrained: after the deletion of a root with one child it is the address of the deleted node.\<close>

definition node_is :: "rbheap \<Rightarrow> ptr \<Rightarrow> bool \<Rightarrow> ptr \<Rightarrow> ptr \<Rightarrow> ptr \<Rightarrow> bool" where
  "node_is H a c l r par \<longleftrightarrow> nd_color (H a) = (if c then 1 else 0) \<and> nd_left (H a) = l \<and>
    nd_right (H a) = r \<and> nd_parent (H a) = par"

fun rbrep :: "ptr \<Rightarrow> rbheap \<Rightarrow> ptr \<Rightarrow> rbt \<Rightarrow> bool" where
  "rbrep s H par Lf \<longleftrightarrow> True"
| "rbrep s H par (Nd c l a r) \<longleftrightarrow> a \<noteq> s \<and> a \<noteq> NULL \<and> node_is H a c (rpt s l) (rpt s r) par \<and>
    rbrep s H a l \<and> rbrep s H a r"

fun fptr :: "rbframe \<Rightarrow> ptr" where
  "fptr (InLeft c a r) = a"
| "fptr (InRight c l a) = a"

fun fred :: "rbframe \<Rightarrow> bool" where
  "fred (InLeft c a r) = c"
| "fred (InRight c l a) = c"

fun plug :: "rbframe \<Rightarrow> rbt \<Rightarrow> rbt" where
  "plug (InLeft c a r) t = Nd c t a r"
| "plug (InRight c l a) t = Nd c l a t"

fun fill :: "rbframe list \<Rightarrow> rbt \<Rightarrow> rbt" where
  "fill [] t = t"
| "fill (f # fs) t = fill fs (plug f t)"

fun par_of :: "ptr \<Rightarrow> rbframe list \<Rightarrow> ptr" where
  "par_of par [] = par"
| "par_of par (f # fs) = fptr f"

fun crep :: "ptr \<Rightarrow> rbheap \<Rightarrow> ptr \<Rightarrow> rbframe list \<Rightarrow> ptr \<Rightarrow> bool" where
  "crep s H par [] p \<longleftrightarrow> True"
| "crep s H par (InLeft c a r # fs) p \<longleftrightarrow> a \<noteq> s \<and> a \<noteq> NULL \<and> node_is H a c p (rpt s r) (par_of par fs) \<and>
    rbrep s H a r \<and> crep s H par fs a"
| "crep s H par (InRight c l a # fs) p \<longleftrightarrow> a \<noteq> s \<and> a \<noteq> NULL \<and> node_is H a c (rpt s l) p (par_of par fs) \<and>
    rbrep s H a l \<and> crep s H par fs a"

fun cleft :: "rbframe list \<Rightarrow> ptr list" where
  "cleft [] = []"
| "cleft (InLeft c a r # fs) = cleft fs"
| "cleft (InRight c l a # fs) = cleft fs @ inord l @ [a]"

fun cright :: "rbframe list \<Rightarrow> ptr list" where
  "cright [] = []"
| "cright (InLeft c a r # fs) = a # inord r @ cright fs"
| "cright (InRight c l a # fs) = cright fs"

lemma inord_fill [simp]: "inord (fill fs t) = cleft fs @ inord t @ cright fs"
proof (induction fs arbitrary: t)
  case (Cons f fs)
  then show ?case by (cases f) auto
qed simp

lemma rep_fill: "rbrep s H par (fill fs t) \<longleftrightarrow> crep s H par fs (rpt s t) \<and> rbrep s H (par_of par fs) t"
proof (induction fs arbitrary: t)
  case (Cons f fs)
  then show ?case by (cases f) auto
qed simp

lemma fill_append: "fill (fs @ gs) t = fill gs (fill fs t)"
  by (induction fs arbitrary: t) auto

lemma rpt_fill: "rpt s (fill fs t) = (if fs = [] then rpt s t else fptr (last fs))"
proof (induction fs arbitrary: t)
  case (Cons f fs)
  then show ?case by (cases f) auto
qed simp

lemma rep_nodes: "rbrep s H par t \<Longrightarrow> s \<notin> set (inord t) \<and> NULL \<notin> set (inord t)"
  by (induction t arbitrary: par) auto

lemma crep_nodes: "crep s H par fs p \<Longrightarrow> s \<notin> set (cleft fs @ cright fs) \<and> NULL \<notin> set (cleft fs @ cright fs)"
proof (induction fs arbitrary: p)
  case (Cons f fs)
  then show ?case by (cases f) (auto dest: rep_nodes)
qed simp

lemma node_is_upd [simp]: "a \<noteq> q \<Longrightarrow> node_is (H(q := x)) a c l r par = node_is H a c l r par"
  by (simp add: node_is_def)

lemma node_is_new [simp]: "node_is (H(a := x)) a c l r par \<longleftrightarrow>
    nd_color x = (if c then 1 else 0) \<and> nd_left x = l \<and> nd_right x = r \<and> nd_parent x = par"
  by (simp add: node_is_def)

lemma rep_upd [simp]: "q \<notin> set (inord t) \<Longrightarrow> rbrep s (H(q := x)) par t = rbrep s H par t"
  by (induction t arbitrary: par) auto

lemma crep_upd [simp]:
  "q \<notin> set (cleft fs @ cright fs) \<Longrightarrow> crep s (H(q := x)) par fs p = crep s H par fs p"
proof (induction fs arbitrary: p)
  case (Cons f fs)
  then show ?case by (cases f) (auto simp del: fun_upd_apply)
qed simp

lemma fptr_in: "fs \<noteq> [] \<Longrightarrow> fptr (hd fs) \<in> set (cleft fs @ cright fs)"
proof (cases fs)
  case (Cons f gs)
  then show ?thesis by (cases f) auto
qed simp

lemma fptr_last_in: "fs \<noteq> [] \<Longrightarrow> fptr (last fs) \<in> set (cleft fs @ cright fs)"
proof (induction fs)
  case (Cons f gs)
  then show ?case by (cases f) auto
qed simp

lemma rpt_in: "t \<noteq> Lf \<Longrightarrow> rpt s t \<in> set (inord t)"
  by (cases t) auto

lemma rb_get_simp [simp]: "p \<noteq> NULL \<Longrightarrow> rb_get f p H = Some (f (H p))"
  by (simp add: rb_get_def)

lemma rb_put_simp [simp]: "p \<noteq> NULL \<Longrightarrow> rb_put g p H = Some (H(p := g (H p)))"
  by (simp add: rb_put_def)

section \<open>Rotations\<close>

text \<open>Nothing but the links and colours of the nodes in \<open>A\<close> is changed; the whole state of a tree.\<close>

definition rb_frame :: "ptr set \<Rightarrow> rbheap \<Rightarrow> rbheap \<Rightarrow> bool" where
  "rb_frame A H H' \<longleftrightarrow> (\<forall>p. p \<notin> A \<longrightarrow> H' p = H p) \<and> (\<forall>p. nd_key (H' p) = nd_key (H p))"

lemma rb_frame_refl [simp]: "rb_frame A H H"
  by (simp add: rb_frame_def)

lemma rb_frame_trans: "rb_frame A H H' \<Longrightarrow> rb_frame A H' H'' \<Longrightarrow> rb_frame A H H''"
  by (simp add: rb_frame_def)

lemma rb_frame_upd:
  "rb_frame A H H' \<Longrightarrow> p \<in> A \<Longrightarrow> nd_key x = nd_key (H p) \<Longrightarrow> rb_frame A H (H'(p := x))"
  by (simp add: rb_frame_def)

definition tree_at :: "ptr \<Rightarrow> ptr \<Rightarrow> rbt \<Rightarrow> ptr \<Rightarrow> rbheap \<Rightarrow> bool" where
  "tree_at s par t root H \<longleftrightarrow> rbrep s H par t \<and> distinct (inord t) \<and> root = rpt s t \<and>
    nd_color (H s) = 0 \<and> s \<noteq> NULL"

lemma rep_cong: "(\<And>p. p \<in> set (inord t) \<Longrightarrow> H' p = H p) \<Longrightarrow> rbrep s H' par t = rbrep s H par t"
  by (induction t arbitrary: par) (auto simp: node_is_def)

lemma crep_cong:
  "(\<And>p. p \<in> set (cleft fs @ cright fs) \<Longrightarrow> H' p = H p) \<Longrightarrow> crep s H' par fs q = crep s H par fs q"
proof (induction fs arbitrary: q)
  case (Cons f fs)
  have "rbrep s H' a t = rbrep s H a t" if "set (inord t) \<subseteq> set (cleft (f # fs) @ cright (f # fs))" for a t
    by (rule rep_cong) (use that Cons.prems in blast)
  with Cons show ?case by (cases f) (auto simp: node_is_def)
qed simp

lemma reparent:
  assumes "rbrep s H par t" "distinct (inord t)"
  shows "\<exists>H'. (if rpt s t \<noteq> s then set_parent (rpt s t) q H else Some H) = Some H' \<and> rbrep s H' q t \<and>
    rb_frame (set (inord t)) H H'"
  using assms by (cases t) (auto simp: node_is_def rb_frame_def)

lemma rehang:
  assumes "crep s H par fs a" "distinct (cleft fs @ a # cright fs)" "nd_parent (H a) = par_of par fs"
    and "root = (if fs = [] then a else fptr (last fs))" "a \<noteq> NULL" "a \<noteq> s"
  shows "\<exists>H'. rb_relink a b (root, H) = Some (if fs = [] then b else fptr (last fs), H') \<and>
    rb_relink_right a b (root, H) = Some (if fs = [] then b else fptr (last fs), H') \<and>
    crep s H' par fs b \<and> rb_frame (set (cleft fs @ cright fs)) H H'"
proof (cases fs)
  case Nil
  then show ?thesis using assms by (auto simp: rb_relink_def rb_relink_right_def)
next
  case (Cons f gs)
  have "a \<noteq> root" using fptr_last_in [of fs] assms(2,4) Cons by auto
  moreover have "a \<noteq> rpt s t" if "rbrep s H x t" "a \<notin> set (inord t)" "a \<noteq> s" for t x
    using that rpt_in [of t s] by (cases t) auto
  ultimately show ?thesis using assms Cons
    by (cases f) (auto simp: node_is_def rb_frame_def rb_relink_def rb_relink_right_def)
qed

lemma rb_frame_at: "rb_frame A H H' \<Longrightarrow> p \<notin> A \<Longrightarrow> H' p = H p"
  by (simp add: rb_frame_def)

lemma rb_frame_mono: "rb_frame A H H' \<Longrightarrow> A \<subseteq> B \<Longrightarrow> rb_frame B H H'"
  by (auto simp: rb_frame_def)

lemma rep_frame: "rb_frame A H H' \<Longrightarrow> A \<inter> set (inord t) = {} \<Longrightarrow> rbrep s H' par t = rbrep s H par t"
  by (rule rep_cong) (auto simp: rb_frame_def)

lemma crep_frame:
  "rb_frame A H H' \<Longrightarrow> A \<inter> set (cleft fs @ cright fs) = {} \<Longrightarrow> crep s H' par fs p = crep s H par fs p"
  by (rule crep_cong) (auto simp: rb_frame_def)

lemma left_rotate:
  assumes "tree_at s par (fill fs (Nd c l a (Nd c' m b r))) root H"
  shows "\<exists>root' H'. ngx_rbtree_left_rotate s a (root, H) = Some (root', H') \<and>
    tree_at s par (fill fs (Nd c' (Nd c l a m) b r)) root' H' \<and>
    rb_frame (set (inord (fill fs (Nd c l a (Nd c' m b r))))) H H'"
proof -
  have H: "crep s H par fs a" "node_is H a c (rpt s l) b (par_of par fs)" "node_is H b c' (rpt s m) (rpt s r) a"
    "rbrep s H a l" "rbrep s H b m" "rbrep s H b r" and ns: "a \<noteq> s" "b \<noteq> s" "a \<noteq> NULL" "b \<noteq> NULL"
    and d: "distinct (cleft fs @ (inord l @ a # inord m @ b # inord r) @ cright fs)"
    and root: "root = (if fs = [] then a else fptr (last fs))" and s: "nd_color (H s) = 0" "s \<noteq> NULL"
    using assms by (simp_all add: tree_at_def rep_fill rpt_fill)
  let ?A = "set (inord (fill fs (Nd c l a (Nd c' m b r))))" and ?C = "set (cleft fs @ cright fs)"
  have sA: "s \<notin> ?A" using assms rep_nodes by (auto simp: tree_at_def simp del: inord_fill)
  have ab: "a \<noteq> b" "a \<notin> ?C" "b \<notin> ?C" "a \<notin> set (inord m)" "b \<notin> set (inord m)" using d by auto
  have dj: "set (inord m) \<inter> ?C = {}" "set (inord m) \<inter> set (inord l) = {}" "set (inord m) \<inter> set (inord r) = {}"
    "?C \<inter> set (inord m) = {}" "?C \<inter> set (inord l) = {}" "?C \<inter> set (inord r) = {}"
    "a \<notin> set (inord l)" "a \<notin> set (inord r)" "b \<notin> set (inord l)" "b \<notin> set (inord r)" using d by auto
  define H1 where "H1 = H(a := (H a)\<lparr>nd_right := rpt s m\<rparr>)"
  have "rbrep s H1 b m" using H(5) ab by (simp add: H1_def)
  then obtain H2 where H2: "(if rpt s m \<noteq> s then set_parent (rpt s m) a H1 else Some H1) = Some H2"
    "rbrep s H2 a m" "rb_frame (set (inord m)) H1 H2" using reparent [of s H1 b m a] d by auto
  define H3 where "H3 = H2(b := (H2 b)\<lparr>nd_parent := par_of par fs\<rparr>)"
  have a3: "H3 a = (H a)\<lparr>nd_right := rpt s m\<rparr>" "H3 b = (H b)\<lparr>nd_parent := par_of par fs\<rparr>"
    using rb_frame_at [OF H2(3)] ab by (simp_all add: H3_def H1_def)
  have "crep s H3 par fs a" using H(1) ab dj crep_frame [OF H2(3) dj(1)] by (simp add: H3_def H1_def)
  then obtain H4 where H4: "rb_relink a b (root, H3) = Some (if fs = [] then b else fptr (last fs), H4)"
    "crep s H4 par fs b" "rb_frame ?C H3 H4"
    using rehang [of s H3 par fs a root b] d a3 H(2) root ns by (force simp: node_is_def)
  define H6 where "H6 = H4(b := (H4 b)\<lparr>nd_left := a\<rparr>, a := (H4 a)\<lparr>nd_parent := b\<rparr>)"
  have a4: "H4 a = (H a)\<lparr>nd_right := rpt s m\<rparr>" "H4 b = (H b)\<lparr>nd_parent := par_of par fs\<rparr>"
    using a3 rb_frame_at [OF H4(3)] ab by simp_all
  have "rb_get nd_right a H = Some b" "rb_get nd_left b H = Some (rpt s m)" "set_right a (rpt s m) H = Some H1"
    "rb_get nd_left b H1 = Some (rpt s m)" "rb_get nd_parent a H2 = Some (par_of par fs)"
    "set_parent b (par_of par fs) H2 = Some H3" "set_left b a H4 = Some (H4(b := (H4 b)\<lparr>nd_left := a\<rparr>))"
    "set_parent a b (H4(b := (H4 b)\<lparr>nd_left := a\<rparr>)) = Some H6"
    using ns ab H(2,3) rb_frame_at [OF H2(3)] by (simp_all add: node_is_def H1_def H3_def H6_def)
  with H2(1) H4(1) have run: "ngx_rbtree_left_rotate s a (root, H) = Some (if fs = [] then b else fptr (last fs), H6)"
    by (simp add: ngx_rbtree_left_rotate_def del: rb_get_simp rb_put_simp)
  have "rb_frame ?A H1 H2" "rb_frame ?A H3 H4"
    by (rule rb_frame_mono [OF H2(3)] rb_frame_mono [OF H4(3)]; auto)+
  moreover have "rb_frame ?A H H1" "rb_frame ?A H2 H3" "rb_frame ?A H4 H6"
    by (simp_all add: H1_def H3_def H6_def rb_frame_def)
  ultimately have fr: "rb_frame ?A H H6" by (meson rb_frame_trans)
  have "rbrep s H6 b (Nd c l a m)" "rbrep s H6 b r" "crep s H6 par fs b" "node_is H6 b c' a (rpt s r) (par_of par fs)"
    using H(4,6) H2(2) H4(2) ab dj ns a4 H(2,3) rep_frame [OF H2(3)] rep_frame [OF H4(3)]
    by (simp_all add: H6_def H3_def H1_def node_is_def)
  moreover have "distinct (inord (fill fs (Nd c' (Nd c l a m) b r)))" using d by simp
  moreover have "nd_color (H6 s) = 0" using rb_frame_at [OF fr sA] s by simp
  ultimately have "tree_at s par (fill fs (Nd c' (Nd c l a m) b r)) (if fs = [] then b else fptr (last fs)) H6"
    using s ns by (simp add: tree_at_def rep_fill rpt_fill)
  with run fr show ?thesis by blast
qed

section \<open>Left and right\<close>

text \<open>
  The right halves of the code are the left halves on the memory with all left and right links swapped, so
  that only the left halves need a proof of their own.
\<close>

definition flip_node :: "ngx_rbtree_node \<Rightarrow> ngx_rbtree_node" where
  "flip_node x = x\<lparr>nd_left := nd_right x, nd_right := nd_left x\<rparr>"

definition flip :: "rbheap \<Rightarrow> rbheap" where
  "flip H = (\<lambda>p. flip_node (H p))"

fun mir :: "rbt \<Rightarrow> rbt" where
  "mir Lf = Lf"
| "mir (Nd c l a r) = Nd c (mir r) a (mir l)"

fun mirf :: "rbframe \<Rightarrow> rbframe" where
  "mirf (InLeft c a r) = InRight c (mir r) a"
| "mirf (InRight c l a) = InLeft c a (mir l)"

lemma flip_get [simp]:
  "rb_get nd_left p (flip H) = rb_get nd_right p H" "rb_get nd_right p (flip H) = rb_get nd_left p H"
  "rb_get nd_parent p (flip H) = rb_get nd_parent p H" "rb_get nd_color p (flip H) = rb_get nd_color p H"
  "rb_get nd_key p (flip H) = rb_get nd_key p H"
  by (simp_all add: rb_get_def flip_def flip_node_def)

lemma flip_put [simp]:
  "set_left p v (flip H) = map_option flip (set_right p v H)" "set_right p v (flip H) = map_option flip (set_left p v H)"
  "set_parent p v (flip H) = map_option flip (set_parent p v H)" "set_color p k (flip H) = map_option flip (set_color p k H)"
  by (auto simp: rb_put_def flip_def flip_node_def)

lemma flip_bind:
  "Option.bind (map_option f x) g = Option.bind x (\<lambda>y. g (f y))"
  "map_option f (Option.bind z h) = Option.bind z (\<lambda>y. map_option f (h y))"
  by (cases x; simp) (cases z; simp)

lemma flip_if:
  "(if b then map_option f x else map_option f y) = map_option f (if b then x else y)"
  "(if b then map_option f x else Some (f z)) = map_option f (if b then x else Some z)"
  "(if b then Some (f z) else map_option f y) = map_option f (if b then Some z else y)"
  by simp_all

lemma bind_if:
  "Option.bind (if b then x else y) g = (if b then Option.bind x g else Option.bind y g)"
  "map_option f (if b then x else y) = (if b then map_option f x else map_option f y)"
  by simp_all

lemmas flip_simps = flip_bind bind_if case_prod_beta

lemma flip_color [simp]:
  "ngx_rbt_red p (flip H) = map_option flip (ngx_rbt_red p H)" "ngx_rbt_black p (flip H) = map_option flip (ngx_rbt_black p H)"
  "ngx_rbt_is_red p (flip H) = ngx_rbt_is_red p H" "ngx_rbt_is_black p (flip H) = ngx_rbt_is_black p H"
  "ngx_rbt_copy_color p q (flip H) = map_option flip (ngx_rbt_copy_color p q H)"
  by (simp_all add: ngx_rbt_red_def ngx_rbt_black_def ngx_rbt_is_red_def ngx_rbt_is_black_def ngx_rbt_copy_color_def
      flip_simps cong: if_cong)

lemma relink_flip: "rb_relink_right a b (root, flip H) = map_option (apsnd flip) (rb_relink a b (root, H))"
  by (simp add: rb_relink_def rb_relink_right_def flip_simps  cong: if_cong)

lemma rotate_flip:
  "ngx_rbtree_right_rotate s a (root, flip H) = map_option (apsnd flip) (ngx_rbtree_left_rotate s a (root, H))"
  by (simp add: ngx_rbtree_left_rotate_def ngx_rbtree_right_rotate_def flip_simps relink_flip  cong: if_cong)

lemma flip_flip [simp]: "flip (flip H) = H"
  by (auto simp: flip_def flip_node_def)

lemma rotate_flip_left:
  "ngx_rbtree_left_rotate s a (root, flip H) = map_option (apsnd flip) (ngx_rbtree_right_rotate s a (root, H))"
proof -
  have "apsnd flip \<circ> apsnd flip = (id :: ptr \<times> rbheap \<Rightarrow> _)" by auto
  then show ?thesis using rotate_flip [of s a root "flip H"] by (simp add: option.map_comp option.map_id0)
qed

lemma insert_flip:
  "rb_insert_right s node (root, flip H) = map_option (apsnd (apsnd flip)) (rb_insert_left s node (root, H))"
  by (simp add: rb_insert_left_def rb_insert_right_def flip_simps rotate_flip rotate_flip_left apsnd_def map_prod_def cong: if_cong)

lemma black_children_flip: "rb_black_children w (flip H) = rb_black_children w H"
  by (cases "rb_get nd_left w H"; cases "rb_get nd_right w H";
      cases "ngx_rbt_is_black (the (rb_get nd_left w H)) H"; cases "ngx_rbt_is_black (the (rb_get nd_right w H)) H")
    (auto simp: rb_black_children_def)

lemma sibling_flip:
  "rb_sibling_right s node (root, flip H) = map_option (apsnd (apsnd flip)) (rb_sibling_left s node (root, H))"
  by (simp add: rb_sibling_left_def rb_sibling_right_def flip_simps rotate_flip rotate_flip_left apsnd_def map_prod_def cong: if_cong)

lemma balance_flip:
  "rb_balance_right s node w (root, flip H) = map_option (apsnd (apsnd flip)) (rb_balance_left s node w (root, H))"
  by (simp add: rb_balance_left_def rb_balance_right_def black_children_flip flip_simps rotate_flip rotate_flip_left apsnd_def map_prod_def cong: if_cong)

lemma delete_flip:
  "rb_delete_right s node (root, flip H) = map_option (apsnd (apsnd flip)) (rb_delete_left s node (root, H))"
  by (simp add: rb_delete_left_def rb_delete_right_def sibling_flip balance_flip flip_bind case_prod_beta apsnd_def map_prod_def)

lemma mir_mir [simp]: "mir (mir t) = t"
  by (induction t) auto

lemma mirf_mirf [simp]: "mirf (mirf f) = f"
  by (cases f) auto

lemma inord_mir [simp]: "inord (mir t) = rev (inord t)"
  by (induction t) auto

lemma rpt_mir [simp]: "rpt s (mir t) = rpt s t"
  by (cases t) auto

lemma rep_mir: "rbrep s (flip H) par (mir t) \<longleftrightarrow> rbrep s H par t"
  by (induction t arbitrary: par) (auto simp: node_is_def flip_def flip_node_def)

lemma mir_fill: "mir (fill fs t) = fill (map mirf fs) (mir t)"
proof (induction fs arbitrary: t)
  case (Cons f fs)
  then show ?case by (cases f) auto
qed simp

lemma tree_at_mir: "tree_at s par (mir t) root (flip H) \<longleftrightarrow> tree_at s par t root H"
  by (auto simp: tree_at_def rep_mir) (auto simp: flip_def flip_node_def)

lemma node_flip_eq: "flip_node x = flip_node y \<longleftrightarrow> x = y"
  by (cases x; cases y) (auto simp: flip_node_def)

lemma rb_frame_flip: "rb_frame A (flip H) (flip H') \<longleftrightarrow> rb_frame A H H'"
  by (simp add: rb_frame_def flip_def node_flip_eq) (simp add: flip_node_def)

lemma right_rotate:
  assumes "tree_at s par (fill fs (Nd c (Nd c' l b m) a r)) root H"
  shows "\<exists>root' H'. ngx_rbtree_right_rotate s a (root, H) = Some (root', H') \<and>
    tree_at s par (fill fs (Nd c' l b (Nd c m a r))) root' H' \<and>
    rb_frame (set (inord (fill fs (Nd c (Nd c' l b m) a r)))) H H'"
proof -
  have "tree_at s par (fill (map mirf fs) (Nd c (mir r) a (Nd c' (mir m) b (mir l)))) root (flip H)"
    using assms tree_at_mir [of s par "fill fs (Nd c (Nd c' l b m) a r)" root H] by (simp add: mir_fill)
  from left_rotate [OF this] obtain root' H' where
    r: "ngx_rbtree_left_rotate s a (root, flip H) = Some (root', H')"
      "tree_at s par (fill (map mirf fs) (Nd c' (Nd c (mir r) a (mir m)) b (mir l))) root' H'"
      "rb_frame (set (inord (mir (fill fs (Nd c (Nd c' l b m) a r))))) (flip H) H'"
    by (auto simp: mir_fill simp del: inord_fill inord_mir)
  then have "tree_at s par (fill fs (Nd c' l b (Nd c m a r))) root' (flip H')"
    using tree_at_mir [of s par "fill fs (Nd c' l b (Nd c m a r))" root' "flip H'"] by (simp add: mir_fill)
  moreover have "ngx_rbtree_right_rotate s a (root, H) = Some (root', flip H')"
    using r(1) rotate_flip [of s a root "flip H"] by simp
  ultimately show ?thesis using r(3) rb_frame_flip [of _ H "flip H'"]
    by (auto simp del: inord_fill)
qed

lemma set_color_at:
  assumes "tree_at s par (fill fs (Nd c l a r)) root H"
  shows "\<exists>H'. set_color a (if c' then 1 else 0) H = Some H' \<and> tree_at s par (fill fs (Nd c' l a r)) root H' \<and>
    rb_frame (set (inord (fill fs (Nd c l a r)))) H H'"
  using assms by (auto simp: tree_at_def rep_fill rpt_fill node_is_def rb_frame_def)

lemma black_at:
  assumes "tree_at s par (fill fs (Nd c l a r)) root H"
  shows "\<exists>H'. ngx_rbt_black a H = Some H' \<and> tree_at s par (fill fs (Nd False l a r)) root H' \<and>
    rb_frame (set (inord (fill fs (Nd c l a r)))) H H'"
  using set_color_at [OF assms, of False] by (simp add: ngx_rbt_black_def)

lemma red_at:
  assumes "tree_at s par (fill fs (Nd c l a r)) root H"
  shows "\<exists>H'. ngx_rbt_red a H = Some H' \<and> tree_at s par (fill fs (Nd True l a r)) root H' \<and>
    rb_frame (set (inord (fill fs (Nd c l a r)))) H H'"
  using set_color_at [OF assms, of True] by (simp add: ngx_rbt_red_def)

lemma focus:
  assumes "tree_at s par (fill fs (Nd c l a r)) root H"
  shows "a \<noteq> NULL" "a \<noteq> s" "rb_get nd_left a H = Some (rpt s l)" "rb_get nd_right a H = Some (rpt s r)"
    "rb_get nd_parent a H = Some (par_of par fs)" "ngx_rbt_is_red a H = Some c" "a \<notin> set (inord l)" "a \<notin> set (inord r)"
    "a = root \<longleftrightarrow> fs = []"
proof -
  have "a \<noteq> fptr (last fs)" if "fs \<noteq> []" using fptr_last_in [OF that] assms by (auto simp: tree_at_def)
  then show "a = root \<longleftrightarrow> fs = []" using assms by (auto simp: tree_at_def rpt_fill)
qed (use assms in \<open>auto simp: tree_at_def rep_fill node_is_def ngx_rbt_is_red_def\<close>)

lemma leaf_color:
  assumes "tree_at s par t root H"
  shows "ngx_rbt_is_red s H = Some False" "s \<noteq> NULL"
  using assms by (auto simp: tree_at_def ngx_rbt_is_red_def)

fun isred :: "rbt \<Rightarrow> bool" where
  "isred Lf = False"
| "isred (Nd c l a r) = c"

lemma sub_color:
  assumes "tree_at s par (fill fs t) root H"
  shows "ngx_rbt_is_red (rpt s t) H = Some (isred t)" "rpt s t \<noteq> NULL"
  using assms leaf_color [OF assms] focus(1,6) [of s par fs] by (cases t; auto)+

section \<open>A tree with a focus\<close>

text \<open>The tree with a focus: the frames \<open>fs\<close> around \<open>t\<close>, the order of the nodes \<open>xs\<close>, and the memory \<open>H0\<close> the
  operation has started from.\<close>

definition zp :: "ptr \<Rightarrow> ptr \<Rightarrow> ptr list \<Rightarrow> rbheap \<Rightarrow> rbframe list \<Rightarrow> rbt \<Rightarrow> ptr \<Rightarrow> rbheap \<Rightarrow> bool" where
  "zp s par xs H0 fs t root H \<longleftrightarrow>
    tree_at s par (fill fs t) root H \<and> inord (fill fs t) = xs \<and> rb_frame (set xs) H0 H"

fun recol :: "bool \<Rightarrow> rbframe \<Rightarrow> rbframe" where
  "recol c (InLeft _ a r) = InLeft c a r"
| "recol c (InRight _ l a) = InRight c l a"

lemma zp_up: "zp s par xs H0 (InLeft c a r # fs) t root H = zp s par xs H0 fs (Nd c t a r) root H"
  "zp s par xs H0 (InRight c l a # fs) t root H = zp s par xs H0 fs (Nd c l a t) root H"
  by (simp_all add: zp_def)

lemma zp_plug: "zp s par xs H0 (f # fs) t root H = zp s par xs H0 fs (plug f t) root H"
  by (simp add: zp_def)

lemma fptr_recol [simp]: "fptr (recol c f) = fptr f" "fred (recol c f) = c"
  by (cases f; simp)+

lemma zp_color:
  assumes "zp s par xs H0 fs (Nd c l a r) root H"
  shows "\<exists>H'. ngx_rbt_black a H = Some H' \<and> zp s par xs H0 fs (Nd False l a r) root H'"
    "\<exists>H'. ngx_rbt_red a H = Some H' \<and> zp s par xs H0 fs (Nd True l a r) root H'"
    "\<exists>H'. set_color a (if c' then 1 else 0) H = Some H' \<and> zp s par xs H0 fs (Nd c' l a r) root H'"
  using assms black_at [of s par fs c l a r root H] red_at [of s par fs c l a r root H] set_color_at [of s par fs c l a r root H c']
  by (auto simp: zp_def intro: rb_frame_trans)

lemma zp_color_frame:
  assumes "zp s par xs H0 (f # fs) t root H"
  shows "\<exists>H'. ngx_rbt_black (fptr f) H = Some H' \<and> zp s par xs H0 (recol False f # fs) t root H'"
    "\<exists>H'. ngx_rbt_red (fptr f) H = Some H' \<and> zp s par xs H0 (recol True f # fs) t root H'"
  using assms by (cases f; auto simp: zp_up dest: zp_color)+

lemma zp_left_rotate:
  assumes "zp s par xs H0 fs (Nd c l a (Nd c' m b r)) root H"
  shows "\<exists>root' H'. ngx_rbtree_left_rotate s a (root, H) = Some (root', H') \<and>
    zp s par xs H0 fs (Nd c' (Nd c l a m) b r) root' H'"
  using assms left_rotate [of s par fs c l a c' m b r root H] by (auto simp: zp_def intro: rb_frame_trans)

lemma zp_right_rotate:
  assumes "zp s par xs H0 fs (Nd c (Nd c' l b m) a r) root H"
  shows "\<exists>root' H'. ngx_rbtree_right_rotate s a (root, H) = Some (root', H') \<and>
    zp s par xs H0 fs (Nd c' l b (Nd c m a r)) root' H'"
  using assms right_rotate [of s par fs c c' l b m a r root H] by (auto simp: zp_def intro: rb_frame_trans)

lemma zp_focus:
  assumes "zp s par xs H0 fs (Nd c l a r) root H"
  shows "a \<noteq> NULL" "a \<noteq> s" "rb_get nd_left a H = Some (rpt s l)" "rb_get nd_right a H = Some (rpt s r)"
    "rb_get nd_parent a H = Some (par_of par fs)" "ngx_rbt_is_red a H = Some c"
    "a = root \<longleftrightarrow> fs = []"
  using assms focus [of s par fs c l a r root H] by (simp_all add: zp_def)

lemma zp_frame:
  assumes "zp s par xs H0 (f # fs) t root H"
  shows "rb_get nd_parent (fptr f) H = Some (par_of par fs)" "ngx_rbt_is_red (fptr f) H = Some (fred f)"
    "fptr f = root \<longleftrightarrow> fs = []" "fptr f \<noteq> NULL"
proof -
  obtain l r where z: "zp s par xs H0 fs (Nd (fred f) l (fptr f) r) root H"
    using assms by (cases f) (auto simp: zp_up)
  show "rb_get nd_parent (fptr f) H = Some (par_of par fs)" "ngx_rbt_is_red (fptr f) H = Some (fred f)"
    "fptr f = root \<longleftrightarrow> fs = []" "fptr f \<noteq> NULL"
    by (fact zp_focus [OF z])+
qed

lemma zp_sub:
  assumes "zp s par xs H0 fs t root H"
  shows "ngx_rbt_is_red (rpt s t) H = Some (isred t)" "rpt s t \<noteq> NULL" "s \<noteq> NULL"
  using assms sub_color [of s par fs t root H] leaf_color(2) [of s par "fill fs t" root H] by (simp_all add: zp_def)

section \<open>Insertion\<close>

lemma insert_left_red:
  assumes z: "zp s par xs H0 (f # InLeft gc g (Nd True ul u ur) # fs) (Nd c l n r) root H"
  shows "\<exists>H'. rb_insert_left s n (root, H) = Some (g, root, H') \<and>
    zp s par xs H0 fs (Nd True (plug (recol False f) (Nd c l n r)) g (Nd False ul u ur)) root H'"
proof -
  obtain H1 where H1: "ngx_rbt_black (fptr f) H = Some H1"
    "zp s par xs H0 (recol False f # InLeft gc g (Nd True ul u ur) # fs) (Nd c l n r) root H1"
    using zp_color_frame(1) [OF z] by blast
  then have "zp s par xs H0 (InRight gc (plug (recol False f) (Nd c l n r)) g # fs) (Nd True ul u ur) root H1"
    by (simp add: zp_up zp_plug)
  from zp_color(1) [OF this] obtain H2 where H2: "ngx_rbt_black u H1 = Some H2"
    "zp s par xs H0 fs (Nd gc (plug (recol False f) (Nd c l n r)) g (Nd False ul u ur)) root H2"
    by (auto simp: zp_up)
  obtain H3 where H3: "ngx_rbt_red g H2 = Some H3"
    "zp s par xs H0 fs (Nd True (plug (recol False f) (Nd c l n r)) g (Nd False ul u ur)) root H3"
    using zp_color(2) [OF H2(2)] by blast
  have g: "zp s par xs H0 fs (Nd gc (plug f (Nd c l n r)) g (Nd True ul u ur)) root H"
    and u: "zp s par xs H0 (InRight gc (plug f (Nd c l n r)) g # fs) (Nd True ul u ur) root H"
    using z by (simp_all add: zp_plug)
  show ?thesis using zp_focus(5) [OF z] zp_frame(1) [OF z] zp_focus(4) [OF g] zp_focus(6) [OF u] H1 H2 H3
    by (simp add: rb_insert_left_def)
qed

lemma insert_left_outer:
  assumes z: "zp s par xs H0 (InLeft pc p q # InLeft gc g u # fs) (Nd c l n r) root H" and "\<not> isred u" "n \<noteq> rpt s q"
  shows "\<exists>root' H'. rb_insert_left s n (root, H) = Some (n, root', H') \<and>
    zp s par xs H0 (InLeft False p (Nd True q g u) # fs) (Nd c l n r) root' H'"
proof -
  obtain H1 where H1: "ngx_rbt_black p H = Some H1"
    "zp s par xs H0 fs (Nd gc (Nd False (Nd c l n r) p q) g u) root H1"
    using zp_color_frame(1) [OF z] by (auto simp: zp_up)
  obtain H2 where H2: "ngx_rbt_red g H1 = Some H2"
    "zp s par xs H0 fs (Nd True (Nd False (Nd c l n r) p q) g u) root H2"
    using zp_color(2) [OF H1(2)] by blast
  obtain root' H3 where H3: "ngx_rbtree_right_rotate s g (root, H2) = Some (root', H3)"
    "zp s par xs H0 fs (Nd False (Nd c l n r) p (Nd True q g u)) root' H3"
    using zp_right_rotate [OF H2(2)] by blast
  have p: "zp s par xs H0 (InLeft gc g u # fs) (Nd pc (Nd c l n r) p q) root H"
    and g: "zp s par xs H0 fs (Nd gc (Nd pc (Nd c l n r) p q) g u) root H"
    and u: "zp s par xs H0 (InRight gc (Nd pc (Nd c l n r) p q) g # fs) u root H" 
    and p1: "zp s par xs H0 (InLeft gc g u # fs) (Nd False (Nd c l n r) p q) root H1"
    using z H1(2) by (simp_all add: zp_up)
  show ?thesis using zp_focus(5) [OF z] zp_focus(4,5) [OF p] zp_focus(4) [OF g] zp_sub(1) [OF u] zp_focus(5) [OF p1] assms(2,3) H1 H2 H3
    by (simp add: rb_insert_left_def zp_up)
qed

lemma insert_left_inner:
  assumes z: "zp s par xs H0 (InRight pc q p # InLeft gc g u # fs) (Nd c l n r) root H" and "\<not> isred u"
  shows "\<exists>root' H'. rb_insert_left s n (root, H) = Some (p, root', H') \<and>
    zp s par xs H0 (InLeft False n (Nd True r g u) # fs) (Nd pc q p l) root' H'"
proof -
  obtain root0 H0' where R: "ngx_rbtree_left_rotate s p (root, H) = Some (root0, H0')"
    "zp s par xs H0 (InLeft c n r # InLeft gc g u # fs) (Nd pc q p l) root0 H0'"
    using zp_left_rotate [of s par xs H0 "InLeft gc g u # fs" pc q p c l n r root H] z by (auto simp: zp_up)
  obtain H1 where H1: "ngx_rbt_black n H0' = Some H1"
    "zp s par xs H0 fs (Nd gc (Nd False (Nd pc q p l) n r) g u) root0 H1"
    using zp_color_frame(1) [OF R(2)] by (auto simp: zp_up)
  obtain H2 where H2: "ngx_rbt_red g H1 = Some H2"
    "zp s par xs H0 fs (Nd True (Nd False (Nd pc q p l) n r) g u) root0 H2"
    using zp_color(2) [OF H1(2)] by blast
  obtain root' H3 where H3: "ngx_rbtree_right_rotate s g (root0, H2) = Some (root', H3)"
    "zp s par xs H0 fs (Nd False (Nd pc q p l) n (Nd True r g u)) root' H3"
    using zp_right_rotate [OF H2(2)] by blast
  have p: "zp s par xs H0 (InLeft gc g u # fs) (Nd pc q p (Nd c l n r)) root H"
    and g: "zp s par xs H0 fs (Nd gc (Nd pc q p (Nd c l n r)) g u) root H"
    and u: "zp s par xs H0 (InRight gc (Nd pc q p (Nd c l n r)) g # fs) u root H" 
    and n1: "zp s par xs H0 (InLeft gc g u # fs) (Nd False (Nd pc q p l) n r) root0 H1"
    using z H1(2) by (simp_all add: zp_up)
  show ?thesis using zp_focus(5) [OF z] zp_focus(4,5) [OF p] zp_focus(4) [OF g] zp_sub(1) [OF u] zp_focus(5) [OF R(2)]
      zp_focus(5) [OF n1] assms(2) R H1 H2 H3
    by (simp add: rb_insert_left_def zp_up)
qed

end
