(* ===== verification/Ngx_Rbtree_Balance.thy ===== *)
theory Ngx_Rbtree_Balance
  imports Ngx_Rbtree
begin

text \<open>
  Insertion into and deletion from the trees of \<^verbatim>\<open>Ngx_Rbtree\<close>.  Shown: the balancing loops end and keep the
  red-black invariants; both operations return for every tree and refine the operations on a sorted
  table; a path is at most twice the logarithm of the number of nodes.  The locale \<open>rb_descent\<close> is the contract of
  \<open>tree->insert\<close>, interpreted by \<open>ngx_rbtree_insert_value\<close> and \<open>ngx_rbtree_insert_timer_value\<close>.
\<close>

section \<open>Red-black trees\<close>

text \<open>
  Black height, no red node with a red child, and the same for the frames around a hole.
\<close>

fun bal :: "nat \<Rightarrow> rbt \<Rightarrow> bool" where
  "bal n Lf \<longleftrightarrow> n = 0"
| "bal n (Nd c l a r) \<longleftrightarrow> (if c then bal n l \<and> bal n r else 0 < n \<and> bal (n - 1) l \<and> bal (n - 1) r)"

fun nrr :: "rbt \<Rightarrow> bool" where
  "nrr Lf \<longleftrightarrow> True"
| "nrr (Nd c l a r) \<longleftrightarrow> (c \<longrightarrow> \<not> isred l \<and> \<not> isred r) \<and> nrr l \<and> nrr r"

fun sib :: "rbframe \<Rightarrow> rbt" where
  "sib (InLeft c a r) = r"
| "sib (InRight c l a) = l"

fun cred :: "rbframe list \<Rightarrow> bool" where
  "cred [] = False"
| "cred (f # fs) = fred f"

fun cbal :: "rbframe list \<Rightarrow> nat \<Rightarrow> bool" where
  "cbal [] n \<longleftrightarrow> True"
| "cbal (f # fs) n \<longleftrightarrow> bal n (sib f) \<and> cbal fs (if fred f then n else Suc n)"

fun cnrr :: "rbframe list \<Rightarrow> bool" where
  "cnrr [] \<longleftrightarrow> True"
| "cnrr (f # fs) \<longleftrightarrow> (fred f \<longrightarrow> \<not> isred (sib f) \<and> \<not> cred fs) \<and> nrr (sib f) \<and> cnrr fs"

definition rbinv :: "rbt \<Rightarrow> bool" where
  "rbinv t \<longleftrightarrow> (\<exists>n. bal n t) \<and> nrr t \<and> \<not> isred t"

lemma bal_fill: "bal m (fill fs t) \<Longrightarrow> \<exists>n. bal n t \<and> cbal fs n"
proof (induction fs arbitrary: t)
  case (Cons f fs)
  then obtain n where "bal n (plug f t)" "cbal fs n" by auto
  then show ?case by (cases f) (auto split: if_splits)
qed auto

lemma fill_bal: "bal n t \<Longrightarrow> cbal fs n \<Longrightarrow> \<exists>m. bal m (fill fs t)"
proof (induction fs arbitrary: t n)
  case (Cons f fs)
  then have "bal (if fred f then n else Suc n) (plug f t)" by (cases f) auto
  then show ?case using Cons by auto
qed auto

lemma nrr_fill: "nrr (fill fs t) \<longleftrightarrow> nrr t \<and> cnrr fs \<and> (isred t \<longrightarrow> \<not> cred fs)"
proof (induction fs arbitrary: t)
  case (Cons f fs)
  then show ?case by (cases f) auto
qed auto

lemma isred_fill: "isred (fill fs t) \<longleftrightarrow> (if fs = [] then isred t else fred (last fs))"
proof (induction fs arbitrary: t)
  case (Cons f fs)
  then show ?case by (cases f) auto
qed auto

lemma mir_inv [simp]: "bal n (mir t) = bal n t" "nrr (mir t) = nrr t" "isred (mir t) = isred t"
proof -
  have i: "isred (mir t) = isred t" for t by (cases t) auto
  show "bal n (mir t) = bal n t" by (induction t arbitrary: n) auto
  show "nrr (mir t) = nrr t" by (induction t) (auto simp: i)
  show "isred (mir t) = isred t" by (rule i)
qed

lemma mirf_inv [simp]: "fred (mirf f) = fred f" "sib (mirf f) = mir (sib f)" "fptr (mirf f) = fptr f"
  by (cases f; simp)+

lemma cmir_inv [simp]: "cbal (map mirf fs) n = cbal fs n" "cnrr (map mirf fs) = cnrr fs" "cred (map mirf fs) = cred fs"
proof -
  have i: "cred (map mirf fs) = cred fs" for fs by (cases fs) auto
  show "cbal (map mirf fs) n = cbal fs n" by (induction fs arbitrary: n) auto
  show "cnrr (map mirf fs) = cnrr fs" by (induction fs) (auto simp: i)
  show "cred (map mirf fs) = cred fs" by (rule i)
qed

lemma zp_mir: "zp s par (rev xs) (flip H0) (map mirf fs) (mir t) root (flip H) = zp s par xs H0 fs t root H"
  unfolding zp_def mir_fill [symmetric] tree_at_mir inord_mir rb_frame_flip set_rev rb_frame_flip by (simp del: inord_fill)

text \<open>The loop invariant of the insertion: only the focus, which is red, may have a red parent.\<close>

definition ins_ok :: "rbframe list \<Rightarrow> rbt \<Rightarrow> bool" where
  "ins_ok fs t \<longleftrightarrow> (\<exists>k. bal k t \<and> cbal fs k) \<and> nrr t \<and> cnrr fs \<and> isred t \<and> (fs \<noteq> [] \<longrightarrow> \<not> fred (last fs))"

lemma ins_ok_mir: "ins_ok (map mirf fs) (mir t) = ins_ok fs t"
  by (auto simp: ins_ok_def last_map)

lemma insert_left_step:
  assumes z: "zp s par xs H0 (f # InLeft gc g u # fs) t root H" and ok: "ins_ok (f # InLeft gc g u # fs) t" and "fred f"
  shows "\<exists>root' H' fs' t'. rb_insert_left s (rpt s t) (root, H) = Some (rpt s t', root', H') \<and>
    zp s par xs H0 fs' t' root' H' \<and> ins_ok fs' t' \<and> length fs' < length fs + 2"
proof -
  obtain l n r where t: "t = Nd True l n r" using ok by (cases t) (auto simp: ins_ok_def)
  have gc: "\<not> gc" using ok assms(3) by (auto simp: ins_ok_def)
  show ?thesis
  proof (cases "isred u")
    case True
    then obtain ul ua ur where u: "u = Nd True ul ua ur" by (cases u) auto
    have "ins_ok fs (Nd True (plug (recol False f) t) g (Nd False ul ua ur))"
      using ok assms(3) gc t u by (cases f) (auto simp: ins_ok_def split: if_splits)
    then show ?thesis using insert_left_red [of s par xs H0 f gc g ul ua ur fs True l n r root H] z t u
      by (metis add_2_eq_Suc' less_SucI lessI rpt.simps(2))
  next
    case False
    show ?thesis
    proof (cases f)
      case (InLeft pc p q)
      have "n \<noteq> rpt s q" using z t InLeft rpt_in [of q s] by (cases q) (auto simp: zp_def tree_at_def rep_fill)
      moreover have "ins_ok (InLeft False p (Nd True q g u) # fs) t" 
        using ok assms(3) gc t InLeft False by (auto simp: ins_ok_def split: if_splits)
      ultimately show ?thesis using insert_left_outer [of s par xs H0 pc p q gc g u fs True l n r root H] z t InLeft False
        by (metis add_2_eq_Suc' length_Cons lessI rpt.simps(2))
    next
      case (InRight pc q p)
      have "ins_ok (InLeft False n (Nd True r g u) # fs) (Nd pc q p l)" 
        using ok assms(3) gc t InRight False by (auto simp: ins_ok_def split: if_splits)
      then show ?thesis using insert_left_inner [of s par xs H0 pc q p gc g u fs True l n r root H] z t InRight False
        by (metis add_2_eq_Suc' length_Cons lessI rpt.simps(2))
    qed
  qed
qed

lemma insert_right_step:
  assumes z: "zp s par xs H0 (f # InRight gc u g # fs) t root H" and ok: "ins_ok (f # InRight gc u g # fs) t" and "fred f"
  shows "\<exists>root' H' fs' t'. rb_insert_right s (rpt s t) (root, H) = Some (rpt s t', root', H') \<and>
    zp s par xs H0 fs' t' root' H' \<and> ins_ok fs' t' \<and> length fs' < length fs + 2"
proof -
  have z': "zp s par (rev xs) (flip H0) (mirf f # InLeft gc g (mir u) # map mirf fs) (mir t) root (flip H)"
    using z zp_mir [of s par xs H0 "f # InRight gc u g # fs" t root H] by simp
  have ok': "ins_ok (mirf f # InLeft gc g (mir u) # map mirf fs) (mir t)"
    using ok ins_ok_mir [of "f # InRight gc u g # fs" t] by simp
  obtain root' H' fs' t' where r: "rb_insert_left s (rpt s t) (root, flip H) = Some (rpt s t', root', H')"
    "zp s par (rev xs) (flip H0) fs' t' root' H'" "ins_ok fs' t'" "length fs' < length fs + 2"
    using insert_left_step [OF z' ok'] assms(3) by auto
  have "zp s par xs H0 (map mirf fs') (mir t') root' (flip H')"
    using r(2) zp_mir [of s par "rev xs" "flip H0" fs' t' root' H'] by simp
  moreover have "rb_insert_right s (rpt s t) (root, H) = Some (rpt s (mir t'), root', flip H')"
    using r(1) insert_flip [of s "rpt s t" root "flip H"] by simp
  ultimately show ?thesis using r(3,4) ins_ok_mir [of fs' t'] by (metis length_map)
qed

lemma insert_fix:
  assumes "zp s par xs H0 fs t root H" "ins_ok fs t"
  shows "\<exists>root' H' t'. rb_insert_fix s (rpt s t) root H = Some (root', H') \<and> zp s par xs H0 [] t' root' H' \<and>
    t' \<noteq> Lf \<and> (\<exists>k. bal k t') \<and> nrr t'"
  using assms
proof (induction "length fs" arbitrary: fs t root H rule: less_induct)
  case less
  obtain l n r where t: "t = Nd True l n r" using less(3) by (cases t) (auto simp: ins_ok_def)
  have whole: "\<exists>k. bal k (fill fs t)" using less(3) fill_bal by (auto simp: ins_ok_def)
  show ?case
  proof (cases "cred fs")
    case False
    have "zp s par xs H0 [] (fill fs t) root H" "nrr (fill fs t)" "fill fs t \<noteq> Lf"
      using less(2,3) False t by (auto simp: zp_def nrr_fill ins_ok_def dest: arg_cong [of _ _ inord])
    moreover have "rb_insert_fix s (rpt s t) root H = Some (root, H)"
    proof (cases fs)
      case Nil
      then show ?thesis using zp_focus(7) [of s par xs H0 fs True l n r root H] less(2) t
        by (simp add: rb_insert_fix.simps)
    next
      case (Cons f gs)
      then show ?thesis using zp_focus(5,7) [of s par xs H0 fs True l n r root H] zp_frame(2) [of s par xs H0 f gs t root H]
          less(2) t False by (subst rb_insert_fix.simps) simp
    qed
    ultimately show ?thesis using whole by blast
  next
    case True
    then obtain f gs where f: "fs = f # gs" "fred f" by (cases fs) auto
    then obtain h hs where h: "gs = h # hs" using less(3) by (cases gs) (auto simp: ins_ok_def)
    have n: "n \<noteq> root" "rb_get nd_parent n H = Some (fptr f)" "ngx_rbt_is_red (fptr f) H = Some True" "rb_get nd_parent (fptr f) H = Some (fptr h)"
      using zp_focus(5,7) [of s par xs H0 fs True l n r root H] zp_frame(1,2) [of s par xs H0 f gs t root H] less(2) t f h by auto
    have "\<exists>root' H' fs' t' pl. rb_get nd_left (fptr h) H = Some pl \<and>
      (if fptr f = pl then rb_insert_left s n (root, H) else rb_insert_right s n (root, H)) = Some (rpt s t', root', H') \<and>
      zp s par xs H0 fs' t' root' H' \<and> ins_ok fs' t' \<and> length fs' < length fs"
    proof (cases h)
      case (InLeft gc g u)
      have "zp s par xs H0 hs (Nd gc (plug f t) g u) root H" using less(2) f h InLeft by (simp add: zp_plug)
      then have "rb_get nd_left (fptr h) H = Some (fptr f)" using zp_focus(3) InLeft by (cases f) fastforce+
      then show ?thesis using insert_left_step [of s par xs H0 f gc g u hs t root H] less(2,3) f h InLeft t by simp
    next
      case (InRight gc u g)
      have z: "zp s par xs H0 hs (Nd gc u g (plug f t)) root H" using less(2) f h InRight by (simp add: zp_plug)
      have "rpt s u \<noteq> fptr f" using z rpt_in [of u s] by (cases u; cases f) (auto simp: zp_def tree_at_def rep_fill)
      moreover have "rb_get nd_left (fptr h) H = Some (rpt s u)" using zp_focus(3) [OF z] InRight by simp
      ultimately show ?thesis using insert_right_step [of s par xs H0 f gc u g hs t root H] less(2,3) f h InRight t by simp
    qed
    then obtain root' H' fs' t' pl where st: "rb_get nd_left (fptr h) H = Some pl"
      "(if fptr f = pl then rb_insert_left s n (root, H) else rb_insert_right s n (root, H)) = Some (rpt s t', root', H')"
      "zp s par xs H0 fs' t' root' H'" "ins_ok fs' t'" "length fs' < length fs" by blast
    have "rb_insert_fix s (rpt s t) root H = rb_insert_fix s (rpt s t') root' H'"
      using n st(1,2) t by (subst rb_insert_fix.simps) (simp split: if_splits)
    with less(1) [OF st(5,3,4)] show ?thesis by simp
  qed
qed

text \<open>The tree holds the nodes \<open>xs\<close> in this order and is a red-black tree; a node put in front of the first
  node that is greater.\<close>

definition rb_holds :: "ngx_rbtree \<Rightarrow> rbheap \<Rightarrow> ptr list \<Rightarrow> bool" where
  "rb_holds tree H xs \<longleftrightarrow> (\<exists>par t. tree_at (tr_sentinel tree) par t (tr_root tree) H \<and> rbinv t \<and> inord t = xs)"

definition place :: "(ptr \<Rightarrow> bool) \<Rightarrow> ptr \<Rightarrow> ptr list \<Rightarrow> ptr list" where
  "place lt n xs = takeWhile (\<lambda>a. \<not> lt a) xs @ n # dropWhile (\<lambda>a. \<not> lt a) xs"

text \<open>The frames that the descent passes.\<close>

fun path :: "(ptr \<Rightarrow> bool) \<Rightarrow> rbt \<Rightarrow> rbframe list \<Rightarrow> rbframe list" where
  "path lt Lf fs = fs"
| "path lt (Nd c l a r) fs = (if lt a then path lt l (InLeft c a r # fs) else path lt r (InRight c l a # fs))"

lemma fill_path: "fill (path lt t fs) Lf = fill fs t"
  by (induction t arbitrary: fs) auto

lemma path_append: "path lt t fs = path lt t [] @ fs"
proof (induction t arbitrary: fs)
  case (Nd c l a r)
  show ?case using Nd(1) [of "InLeft c a r # fs"] Nd(1) [of "[InLeft c a r]"]
      Nd(2) [of "InRight c l a # fs"] Nd(2) [of "[InRight c l a]"] by simp
qed simp

lemma path_order:
  assumes "sorted_wrt (\<lambda>a b. lt a \<longrightarrow> lt b) (inord t)"
  shows "inord (fill (path lt t []) (Nd True Lf n Lf)) = place lt n (inord t)"
  using assms
proof (induction t)
  case (Nd c l a r)
  show ?case
  proof (cases "lt a")
    case True
    then have "takeWhile (\<lambda>x. \<not> lt x) (inord l @ a # inord r) = takeWhile (\<lambda>x. \<not> lt x) (inord l)"
      "dropWhile (\<lambda>x. \<not> lt x) (inord l @ a # inord r) = dropWhile (\<lambda>x. \<not> lt x) (inord l) @ a # inord r"
      by (simp_all add: takeWhile_tail dropWhile_append3)
    then show ?thesis using Nd True path_append [of lt l "[InLeft c a r]"]
      by (simp add: fill_append place_def sorted_wrt_append del: inord_fill) 
  next
    case False
    then have "\<forall>x \<in> set (inord l). \<not> lt x" using Nd(3) by (auto simp: sorted_wrt_append)
    then show ?thesis using Nd False path_append [of lt r "[InRight c l a]"]
      by (simp add: fill_append place_def sorted_wrt_append del: inord_fill)
  qed
qed (simp add: place_def)

fun is_left :: "rbframe \<Rightarrow> bool" where
  "is_left (InLeft c a r) = True"
| "is_left (InRight c l a) = False"

lemma attach:
  assumes z: "tree_at s par (fill (f # fs) Lf) root H" and "n \<notin> set (inord (fill (f # fs) Lf))" "n \<noteq> s" "n \<noteq> NULL"
  shows "\<exists>H'. rb_attach (is_left f) (fptr f) n s H = Some H' \<and>
    zp s par (inord (fill (f # fs) (Nd True Lf n Lf))) H (f # fs) (Nd True Lf n Lf) root H'"
proof -
  have "fptr f \<noteq> NULL" using z by (cases f) (auto simp: tree_at_def rep_fill)
  moreover have "zp s par (inord (fill (f # fs) (Nd True Lf n Lf))) H (f # fs) (Nd True Lf n Lf) root
     (H(fptr f := (if is_left f then (H (fptr f))\<lparr>nd_left := n\<rparr> else (H (fptr f))\<lparr>nd_right := n\<rparr>), n := (H n)\<lparr>nd_parent := fptr f, nd_left := s, nd_right := s, nd_color := 1\<rparr>))"
    using assms by (cases f) (auto simp: zp_def tree_at_def rep_fill node_is_def rb_frame_def rpt_fill)
  moreover have "n \<noteq> fptr f" using assms(2) by (cases f) auto
  ultimately show ?thesis using assms(4)
    by (simp add: rb_attach_def ngx_rbt_red_def split: if_splits)
qed

lemma rbinv_insert: "rbinv (fill fs Lf) \<Longrightarrow> ins_ok fs (Nd True Lf n Lf)"
  by (auto simp: rbinv_def ins_ok_def nrr_fill isred_fill dest: bal_fill split: if_splits)

text \<open>The interface of \<open>tree->insert\<close>: a loop that descends by a comparison of nodes and attaches the node as a
  red leaf.  What \<open>ngx_rbtree_insert\<close> does follows for every such function.\<close>

locale rb_descent =
  fixes ins :: "ptr \<Rightarrow> ptr \<Rightarrow> ptr \<Rightarrow> rbheap \<Rightarrow> rbheap option" and less :: "rbheap \<Rightarrow> ptr \<Rightarrow> ptr \<Rightarrow> bool"
  assumes ins_loop: "ins temp node s H = do {
      _ \<leftarrow> rb_get nd_key node H;
      _ \<leftarrow> rb_get nd_key temp H;
      p \<leftarrow> (if less H node temp then rb_get nd_left temp H else rb_get nd_right temp H);
      if p = s then rb_attach (less H node temp) temp node s H else ins p node s H }"
begin

lemma ins_path:
  assumes "tree_at s par (fill fs t) root H" "t \<noteq> Lf" "n \<noteq> NULL"
  shows "\<exists>f gs. path (\<lambda>a. less H n a) t fs = f # gs \<and>
    ins (rpt s t) n s H = rb_attach (is_left f) (fptr f) n s H"
  using assms(1,2)
proof (induction t arbitrary: fs)
  case (Nd c l a r)
  let ?lt = "\<lambda>a. less H n a"
  have sub: "rpt s x \<noteq> s \<longleftrightarrow> x \<noteq> Lf" if "rbrep s H q x" for q x using that by (cases x) auto
  have rs: "rbrep s H a l" "rbrep s H a r" using Nd(3) by (auto simp: tree_at_def rep_fill)
  note f = focus [OF Nd(3)]
  have step: "ins a n s H = (let p = (if ?lt a then rpt s l else rpt s r) in
      if p = s then rb_attach (?lt a) a n s H else ins p n s H)"
    using f(1,3,4) assms(3) by (subst ins_loop) (simp add: Let_def)
  show ?case
  proof (cases "?lt a")
    case True
    then show ?thesis using step sub [OF rs(1)] Nd(1) [of "InLeft c a r # fs"] Nd(3) by (cases "l = Lf") auto
  next
    case False
    then show ?thesis using step sub [OF rs(2)] Nd(2) [of "InRight c l a # fs"] Nd(3) by (cases "r = Lf") auto
  qed
qed simp

lemma insert_holds:
  assumes h: "rb_holds tree H xs" and i: "tr_insert tree = ins"
    and n: "n \<notin> set xs" "n \<noteq> tr_sentinel tree" "n \<noteq> NULL"
    and s: "sorted_wrt (\<lambda>a b. less H n a \<longrightarrow> less H n b) xs"
  shows "\<exists>root' H'. ngx_rbtree_insert tree n H = Some (tree\<lparr>tr_root := root'\<rparr>, H') \<and>
    rb_holds (tree\<lparr>tr_root := root'\<rparr>) H' (place (\<lambda>a. less H n a) n xs) \<and>
    rb_frame (insert n (set xs)) H H'"
proof -
  let ?s = "tr_sentinel tree" and ?lt = "\<lambda>a. less H n a"
  obtain par t where t: "tree_at ?s par t (tr_root tree) H" "rbinv t" "inord t = xs"
    using h by (auto simp: rb_holds_def)
  show ?thesis
  proof (cases t)
    case Lf
    define H' where "H' = H(n := (H n)\<lparr>nd_parent := NULL, nd_left := ?s, nd_right := ?s, nd_color := 0\<rparr>)"
    have "tree_at ?s NULL (Nd False Lf n Lf) n H'" using t(1) n by (auto simp: tree_at_def H'_def)
    moreover have "rbinv (Nd False Lf n Lf)" by (auto simp: rbinv_def intro: exI [of _ 1])
    moreover have "ngx_rbtree_insert tree n H = Some (tree\<lparr>tr_root := n\<rparr>, H')"
      using t(1) n Lf by (simp add: ngx_rbtree_insert_def tree_at_def ngx_rbt_black_def H'_def Let_def)
    moreover have "place ?lt n xs = inord (Nd False Lf n Lf)" using t(3) Lf by (simp add: place_def)
    moreover have "rb_frame (insert n (set xs)) H H'" by (simp add: H'_def rb_frame_def)
    ultimately show ?thesis unfolding rb_holds_def by fastforce
  next
    case (Nd c l a r)
    then have "tr_root tree \<noteq> ?s" using t(1) by (auto simp: tree_at_def)
    have "t \<noteq> Lf" using Nd by simp
    then obtain f gs where p: "path ?lt t [] = f # gs"
      "ins (rpt ?s t) n ?s H = rb_attach (is_left f) (fptr f) n ?s H"
      using ins_path [of ?s par "[]" t "tr_root tree" H n] t(1) n(3) by auto
    have fl: "fill (f # gs) Lf = t" using fill_path [of ?lt t "[]"] p(1) by simp
    let ?ys = "place ?lt n xs"
    have ys: "inord (fill (f # gs) (Nd True Lf n Lf)) = ?ys" using path_order [of ?lt t n] s t(3) p(1) by simp
    obtain H1 where H1: "rb_attach (is_left f) (fptr f) n ?s H = Some H1"
      "zp ?s par ?ys H (f # gs) (Nd True Lf n Lf) (tr_root tree) H1"
      using attach [of ?s par f gs "tr_root tree" H n] t(1,3) fl n ys by auto
    obtain root2 H2 t2 where H2: "rb_insert_fix ?s n (tr_root tree) H1 = Some (root2, H2)"
      "zp ?s par ?ys H [] t2 root2 H2" "t2 \<noteq> Lf" "\<exists>k. bal k t2" "nrr t2"
      using insert_fix [OF H1(2)] rbinv_insert [of "f # gs" n] t(2) fl by auto
    obtain c2 l2 r2 where t2: "t2 = Nd c2 l2 root2 r2" using H2(2,3) by (cases t2) (auto simp: zp_def tree_at_def)
    obtain H3 where H3: "ngx_rbt_black root2 H2 = Some H3" "zp ?s par ?ys H [] (Nd False l2 root2 r2) root2 H3"
      using zp_color(1) [of ?s par ?ys H "[]" c2 l2 root2 r2 root2 H2] H2(2) t2 by auto
    have inv: "rbinv (Nd False l2 root2 r2)"
    proof -
      obtain k where "bal k t2" using H2(4) by blast
      then have "bal (if c2 then Suc k else k) (Nd False l2 root2 r2)" using t2 by auto
      then show ?thesis using H2(5) t2 unfolding rbinv_def by auto
    qed
    have root: "tr_root tree = rpt ?s t" using t(1) by (simp add: tree_at_def)
    have "ngx_rbtree_insert tree n H = Some (tree\<lparr>tr_root := root2\<rparr>, H3)"
      using i p(2) H1(1) H2(1) H3(1) root \<open>tr_root tree \<noteq> ?s\<close> by (simp add: ngx_rbtree_insert_def Let_def)
    moreover have "rb_holds (tree\<lparr>tr_root := root2\<rparr>) H3 ?ys"
      using H3(2) inv unfolding rb_holds_def zp_def by fastforce
    moreover have "set ?ys = insert n (set xs)"
      by (simp add: place_def) (metis set_append takeWhile_dropWhile_id)
    ultimately show ?thesis using H3(2) unfolding zp_def by auto
  qed
qed

end

interpretation by_value: rb_descent ngx_rbtree_insert_value "\<lambda>H n a. nd_key (H n) < nd_key (H a)"
  by unfold_locales (subst ngx_rbtree_insert_value.simps, simp add: rb_get_def)

interpretation by_timer: rb_descent ngx_rbtree_insert_timer_value "\<lambda>H n a. sint (nd_key (H n) - nd_key (H a)) < 0"
  by unfold_locales (subst ngx_rbtree_insert_timer_value.simps, simp add: rb_get_def)

section \<open>Deletion\<close>

lemma zp_sentinel: "zp s par xs H0 fs t root H \<Longrightarrow> H s = H0 s"
  using rep_nodes by (fastforce simp: zp_def tree_at_def rb_frame_def simp del: inord_fill)

lemma temp_parent:
  assumes "zp s par xs H0 (f # fs) t root H" "t = Lf \<longrightarrow> nd_parent (H0 s) = fptr f"
  shows "rb_get nd_parent (rpt s t) H = Some (fptr f)"
proof (cases t)
  case Lf
  then show ?thesis using assms zp_sentinel [OF assms(1)] zp_sub(3) [OF assms(1)] by simp
next
  case (Nd c l a r)
  then show ?thesis using assms zp_focus(5) [of s par xs H0 "f # fs" c l a r root H] by simp
qed

lemma sibling_black:
  assumes z: "zp s par xs H0 (InLeft pc p w # fs) t root H" and "t = Lf \<longrightarrow> nd_parent (H0 s) = p" "\<not> isred w"
  shows "rb_sibling_left s (rpt s t) (root, H) = Some (rpt s w, root, H)"
proof -
  have p: "zp s par xs H0 fs (Nd pc t p w) root H" and w: "zp s par xs H0 (InRight pc t p # fs) w root H"
    using z by (simp_all add: zp_up)
  show ?thesis using temp_parent [OF z] assms(2,3) zp_focus(4) [OF p] zp_sub(1) [OF w]
    by (simp add: rb_sibling_left_def)
qed

lemma sibling_red:
  assumes z: "zp s par xs H0 (InLeft pc p (Nd True wl w wr) # fs) t root H" and "t = Lf \<longrightarrow> nd_parent (H0 s) = p"
  shows "\<exists>root' H'. rb_sibling_left s (rpt s t) (root, H) = Some (rpt s wl, root', H') \<and>
    zp s par xs H0 (InLeft True p wl # InLeft False w wr # fs) t root' H'"
proof -
  have p: "zp s par xs H0 fs (Nd pc t p (Nd True wl w wr)) root H"
    and w: "zp s par xs H0 (InRight pc t p # fs) (Nd True wl w wr) root H" using z by (simp_all add: zp_up)
  obtain H1 where H1: "ngx_rbt_black w H = Some H1" "zp s par xs H0 fs (Nd pc t p (Nd False wl w wr)) root H1"
    using zp_color(1) [OF w] by (auto simp: zp_up)
  obtain H2 where H2: "ngx_rbt_red p H1 = Some H2" "zp s par xs H0 fs (Nd True t p (Nd False wl w wr)) root H2"
    using zp_color(2) [OF H1(2)] by blast
  obtain root' H3 where H3: "ngx_rbtree_left_rotate s p (root, H2) = Some (root', H3)"
    "zp s par xs H0 fs (Nd False (Nd True t p wl) w wr) root' H3" using zp_left_rotate [OF H2(2)] by blast
  then have p3: "zp s par xs H0 (InLeft False w wr # fs) (Nd True t p wl) root' H3"
    and z3: "zp s par xs H0 (InLeft True p wl # InLeft False w wr # fs) t root' H3" by (simp_all add: zp_up)
  show ?thesis using temp_parent [OF z] temp_parent [OF z3] assms(2) zp_focus(4) [OF p] zp_focus(6) [OF w] zp_focus(4) [OF p3]
      H1 H2 H3(1) z3 by (simp add: rb_sibling_left_def)
qed

lemma black_children:
  assumes "zp s par xs H0 fs (Nd c l a r) root H"
  shows "rb_black_children a H = Some (\<not> isred l \<and> \<not> isred r)"
proof -
  have "zp s par xs H0 (InLeft c a r # fs) l root H" "zp s par xs H0 (InRight c l a # fs) r root H"
    using assms by (simp_all add: zp_up)
  then show ?thesis using zp_focus(3,4) [OF assms] zp_sub(1)
    by (simp add: rb_black_children_def ngx_rbt_is_black_def)
qed

lemma balance_up:
  assumes z: "zp s par xs H0 (InLeft pc p (Nd wc wl w wr) # fs) t root H" and "t = Lf \<longrightarrow> nd_parent (H0 s) = p"
    "\<not> isred wl" "\<not> isred wr"
  shows "\<exists>H'. rb_balance_left s (rpt s t) w (root, H) = Some (p, root, H') \<and>
    zp s par xs H0 fs (Nd pc t p (Nd True wl w wr)) root H'"
proof -
  have w: "zp s par xs H0 (InRight pc t p # fs) (Nd wc wl w wr) root H" using z by (simp add: zp_up)
  obtain H1 where H1: "ngx_rbt_red w H = Some H1" "zp s par xs H0 (InLeft pc p (Nd True wl w wr) # fs) t root H1"
    using zp_color(2) [OF w] by (auto simp: zp_up)
  then show ?thesis using black_children [OF w] temp_parent [OF H1(2)] assms(2-4)
    by (simp add: rb_balance_left_def zp_up)
qed

lemma balance_last:
  assumes z: "zp s par xs H0 (InLeft pc p (Nd wc wl w (Nd rc rl r rr)) # fs) t root H" and "t = Lf \<longrightarrow> nd_parent (H0 s) = p"
  shows "\<exists>root' H'. do {
       p \<leftarrow> rb_get nd_parent (rpt s t) H;
       H \<leftarrow> ngx_rbt_copy_color w p H;
       H \<leftarrow> ngx_rbt_black p H;
       r \<leftarrow> rb_get nd_right w H;
       H \<leftarrow> ngx_rbt_black r H;
       (root, H) \<leftarrow> ngx_rbtree_left_rotate s p (root, H);
       Some (root, root, H) } = Some (root', root', H') \<and>
    zp s par xs H0 fs (Nd pc (Nd False t p wl) w (Nd False rl r rr)) root' H'"
proof -
  let ?r = "Nd rc rl r rr" and ?r' = "Nd False rl r rr"
  have w: "zp s par xs H0 (InRight pc t p # fs) (Nd wc wl w ?r) root H"
    and p: "zp s par xs H0 fs (Nd pc t p (Nd wc wl w ?r)) root H" using z by (simp_all add: zp_up)
  have c: "nd_color (H p) = (if pc then 1 else 0)" using p by (auto simp: zp_def tree_at_def rep_fill node_is_def)
  obtain H1 where H1: "set_color w (if pc then 1 else 0) H = Some H1" "zp s par xs H0 fs (Nd pc t p (Nd pc wl w ?r)) root H1"
    using zp_color(3) [OF w, of pc] by (auto simp: zp_up)
  obtain H2 where H2: "ngx_rbt_black p H1 = Some H2" "zp s par xs H0 fs (Nd False t p (Nd pc wl w ?r)) root H2"
    using zp_color(1) [OF H1(2)] by blast
  then have w2: "zp s par xs H0 (InRight False t p # fs) (Nd pc wl w ?r) root H2"
    and r2: "zp s par xs H0 (InRight pc wl w # InRight False t p # fs) ?r root H2" by (simp_all add: zp_up)
  obtain H3 where H3: "ngx_rbt_black r H2 = Some H3" "zp s par xs H0 fs (Nd False t p (Nd pc wl w ?r')) root H3"
    using zp_color(1) [OF r2] by (auto simp: zp_up)
  obtain root' H4 where H4: "ngx_rbtree_left_rotate s p (root, H3) = Some (root', H4)"
    "zp s par xs H0 fs (Nd pc (Nd False t p wl) w ?r') root' H4" using zp_left_rotate [OF H3(2)] by blast
  have "ngx_rbt_copy_color w p H = Some H1" using c zp_focus(1) [OF p] H1(1) by (simp add: ngx_rbt_copy_color_def)
  then show ?thesis using temp_parent [OF z] assms(2) H2(1) zp_focus(4) [OF w2] H3(1) H4 by simp
qed

lemma balance_outer:
  assumes z: "zp s par xs H0 (InLeft pc p (Nd wc wl w (Nd True rl r rr)) # fs) t root H" and "t = Lf \<longrightarrow> nd_parent (H0 s) = p"
  shows "\<exists>root' H'. rb_balance_left s (rpt s t) w (root, H) = Some (root', root', H') \<and>
    zp s par xs H0 fs (Nd pc (Nd False t p wl) w (Nd False rl r rr)) root' H'"
proof -
  have w: "zp s par xs H0 (InRight pc t p # fs) (Nd wc wl w (Nd True rl r rr)) root H"
    and r: "zp s par xs H0 (InRight wc wl w # InRight pc t p # fs) (Nd True rl r rr) root H" using z by (simp_all add: zp_up)
  show ?thesis using black_children [OF w] zp_focus(4) [OF w] zp_focus(6) [OF r] balance_last [OF assms]
    by (simp add: rb_balance_left_def ngx_rbt_is_black_def)
qed

lemma balance_inner:
  assumes z: "zp s par xs H0 (InLeft pc p (Nd wc (Nd True ll l lr) w wr) # fs) t root H" and h: "t = Lf \<longrightarrow> nd_parent (H0 s) = p"
    and "\<not> isred wr"
  shows "\<exists>root' H'. rb_balance_left s (rpt s t) w (root, H) = Some (root', root', H') \<and>
    zp s par xs H0 fs (Nd pc (Nd False t p ll) l (Nd False lr w wr)) root' H'"
proof -
  let ?l = "Nd True ll l lr"
  have w: "zp s par xs H0 (InRight pc t p # fs) (Nd wc ?l w wr) root H"
    and wr: "zp s par xs H0 (InRight wc ?l w # InRight pc t p # fs) wr root H"
    and l: "zp s par xs H0 (InLeft wc w wr # InRight pc t p # fs) ?l root H" using z by (simp_all add: zp_up)
  obtain H1 where H1: "ngx_rbt_black l H = Some H1"
    "zp s par xs H0 (InRight pc t p # fs) (Nd wc (Nd False ll l lr) w wr) root H1" using zp_color(1) [OF l] by (auto simp: zp_up)
  obtain H2 where H2: "ngx_rbt_red w H1 = Some H2"
    "zp s par xs H0 (InRight pc t p # fs) (Nd True (Nd False ll l lr) w wr) root H2" using zp_color(2) [OF H1(2)] by blast
  obtain root3 H3 where H3: "ngx_rbtree_right_rotate s w (root, H2) = Some (root3, H3)"
    "zp s par xs H0 (InRight pc t p # fs) (Nd False ll l (Nd True lr w wr)) root3 H3" using zp_right_rotate [OF H2(2)] by blast
  then have z3: "zp s par xs H0 (InLeft pc p (Nd False ll l (Nd True lr w wr)) # fs) t root3 H3"
    and p3: "zp s par xs H0 fs (Nd pc t p (Nd False ll l (Nd True lr w wr))) root3 H3" by (simp_all add: zp_up)
  show ?thesis using black_children [OF w] zp_focus(3,4) [OF w] zp_sub(1) [OF wr] assms(3) H1(1) H2(1) H3(1)
      temp_parent [OF z3] h zp_focus(4) [OF p3] balance_last [OF z3 h]
    by (simp add: rb_balance_left_def ngx_rbt_is_black_def)
qed

text \<open>The loop invariant of the deletion: one black node is missing on the paths through the focus, which may
  be red below a red parent; when the focus is the sentinel, the parent link of the sentinel is set.\<close>

fun blk :: "rbt \<Rightarrow> rbt" where
  "blk Lf = Lf"
| "blk (Nd c l a r) = Nd False l a r"

definition del_ok :: "rbframe list \<Rightarrow> rbt \<Rightarrow> bool" where
  "del_ok fs t \<longleftrightarrow> (\<exists>k. bal k t \<and> cbal fs (Suc k)) \<and> nrr (blk t) \<and> cnrr fs \<and> (fs \<noteq> [] \<longrightarrow> \<not> fred (last fs))"

definition hook :: "rbheap \<Rightarrow> ptr \<Rightarrow> rbframe list \<Rightarrow> rbt \<Rightarrow> bool" where
  "hook H s fs t \<longleftrightarrow> (t = Lf \<longrightarrow> fs \<noteq> [] \<longrightarrow> nd_parent (H s) = fptr (hd fs))"

lemma blk_mir: "mir (blk t) = blk (mir t)" "blk t = Lf \<longleftrightarrow> t = Lf" "inord (blk t) = inord t" "nrr t \<Longrightarrow> nrr (blk t)"
  by (cases t; simp)+

lemma del_ok_mir: "del_ok (map mirf fs) (mir t) = del_ok fs t"
  using mir_inv(2) [of "blk t"] by (simp add: del_ok_def last_map blk_mir(1))

lemma zp_top: "zp s par xs H0 fs t root H = zp s par xs H0 [] (fill fs t) root H"
  by (simp add: zp_def)

lemma zp_root: "zp s par xs H0 [] t root H \<Longrightarrow> root = rpt s t"
  by (simp add: zp_def tree_at_def)

lemma del_ok_whole:
  assumes "bal k t" "cbal fs k" "nrr t" "cnrr fs" "isred t \<longrightarrow> \<not> cred fs" "fs \<noteq> [] \<longrightarrow> \<not> fred (last fs)"
  shows "del_ok [] (fill fs t)"
  using assms fill_bal [of k t fs] by (auto simp: del_ok_def nrr_fill blk_mir(4))

lemma fill_leaf: "fill fs t = Lf \<longleftrightarrow> fs = [] \<and> t = Lf"
proof (induction fs arbitrary: t)
  case (Cons f fs)
  then show ?case by (cases f) auto
qed simp

lemma balance_step:
  assumes z: "zp s par xs H0 (InLeft pc p w # fs) t root H" and h: "t = Lf \<longrightarrow> nd_parent (H0 s) = p"
    and ok: "del_ok (InLeft pc p w # fs) t" "\<not> isred t" "\<not> isred w"
  shows "\<exists>root' H' fs' t'. rb_balance_left s (rpt s t) (rpt s w) (root, H) = Some (rpt s t', root', H') \<and>
    zp s par xs H0 fs' t' root' H' \<and> del_ok fs' t' \<and> t' \<noteq> Lf \<and>
    (fs' = fs \<and> (pc \<longrightarrow> isred t') \<or> fs' = [])"
proof -
  obtain k where k: "bal k t" "bal (Suc k) w" "cbal fs (if pc then Suc k else Suc (Suc k))"
    using ok(1) by (auto simp: del_ok_def)
  obtain wl wn wr where w: "w = Nd False wl wn wr" using k(2) ok(3) by (cases w) auto
  have inv: "nrr (blk t)" "nrr t" "nrr wl" "nrr wr" "pc \<longrightarrow> \<not> cred fs" "cnrr fs" "fs \<noteq> [] \<longrightarrow> \<not> fred (last fs)"
    "bal k wl" "bal k wr" "fs = [] \<longrightarrow> \<not> pc" using ok k w by (cases t; auto simp: del_ok_def)+
  note z = z [unfolded w]
  have last: ?thesis if "\<exists>root' H'. rb_balance_left s (rpt s t) wn (root, H) = Some (root', root', H') \<and>
      zp s par xs H0 fs (Nd pc l a r) root' H'" "bal (if pc then Suc k else Suc (Suc k)) (Nd pc l a r)" "nrr l" "nrr r"
      "pc \<longrightarrow> \<not> isred l \<and> \<not> isred r" for l a r
  proof -
    have "del_ok [] (fill fs (Nd pc l a r))"
      using that(2-5) k(3) inv by (intro del_ok_whole [where k = "if pc then Suc k else Suc (Suc k)"]) auto
    moreover have "fill fs (Nd pc l a r) \<noteq> Lf" by (simp add: fill_leaf)
    ultimately show ?thesis using that(1) w zp_top [of s par xs H0 fs] zp_root by (metis rpt.simps(2))
  qed
  show ?thesis
  proof (cases "isred wr")
    case True
    then obtain rl r rr where wr: "wr = Nd True rl r rr" by (cases wr) auto
    show ?thesis by (rule last [where l = "Nd False t p wl" and r = "Nd False rl r rr" and a = wn])
      (use balance_outer [OF z [unfolded wr] h] k inv wr ok(2) in auto)
  next
    case br: False
    show ?thesis
    proof (cases "isred wl")
      case True
      then obtain ll l lr where wl: "wl = Nd True ll l lr" by (cases wl) auto
      show ?thesis by (rule last [where l = "Nd False t p ll" and r = "Nd False lr wn wr" and a = l])
        (use balance_inner [OF z [unfolded wl] h br] k inv wl ok(2) in auto)
    next
      case False
      have "del_ok fs (Nd pc t p (Nd True wl wn wr))"
        using k inv False br by (auto simp: del_ok_def intro!: exI [of _ "if pc then k else Suc k"])
      then show ?thesis using balance_up [OF z h False br] w by (metis isred.simps(2) rbt.distinct(1) rpt.simps(2))
    qed
  qed
qed

lemma delete_left_step:
  assumes z: "zp s par xs H0 (InLeft pc p w # fs) t root H" and h: "t = Lf \<longrightarrow> nd_parent (H0 s) = p"
    and ok: "del_ok (InLeft pc p w # fs) t" "\<not> isred t"
  shows "\<exists>root' H' fs' t'. rb_delete_left s (rpt s t) (root, H) = Some (rpt s t', root', H') \<and>
    zp s par xs H0 fs' t' root' H' \<and> del_ok fs' t' \<and> t' \<noteq> Lf \<and> (isred t' \<or> length fs' \<le> length fs)"
proof (cases "isred w")
  case False
  then show ?thesis using balance_step [OF z h ok False] sibling_black [OF z h False]
    by (fastforce simp: rb_delete_left_def)
next
  case True
  then obtain wl wn wr where w: "w = Nd True wl wn wr" by (cases w) auto
  obtain root1 H1 where H1: "rb_sibling_left s (rpt s t) (root, H) = Some (rpt s wl, root1, H1)"
    "zp s par xs H0 (InLeft True p wl # InLeft False wn wr # fs) t root1 H1" using sibling_red [OF z [unfolded w] h] by blast
  have "\<not> isred wl" "del_ok (InLeft True p wl # InLeft False wn wr # fs) t" using ok(1) w by (auto simp: del_ok_def)
  from balance_step [OF H1(2) h this(2) ok(2) this(1)] show ?thesis using H1(1)
    by (fastforce simp: rb_delete_left_def)
qed

lemma delete_right_step:
  assumes z: "zp s par xs H0 (InRight pc w p # fs) t root H" and h: "t = Lf \<longrightarrow> nd_parent (H0 s) = p"
    and ok: "del_ok (InRight pc w p # fs) t" "\<not> isred t"
  shows "\<exists>root' H' fs' t'. rb_delete_right s (rpt s t) (root, H) = Some (rpt s t', root', H') \<and>
    zp s par xs H0 fs' t' root' H' \<and> del_ok fs' t' \<and> t' \<noteq> Lf \<and> (isred t' \<or> length fs' \<le> length fs)"
proof -
  have z': "zp s par (rev xs) (flip H0) (InLeft pc p (mir w) # map mirf fs) (mir t) root (flip H)"
    using z zp_mir [of s par xs H0 "InRight pc w p # fs" t root H] by simp
  have ok': "del_ok (InLeft pc p (mir w) # map mirf fs) (mir t)" "\<not> isred (mir t)"
    using ok del_ok_mir [of "InRight pc w p # fs" t] by simp_all
  have h': "mir t = Lf \<longrightarrow> nd_parent (flip H0 s) = p" using h by (cases t) (simp_all add: flip_def flip_node_def)
  obtain root' H' fs' t' where r: "rb_delete_left s (rpt s t) (root, flip H) = Some (rpt s t', root', H')"
    "zp s par (rev xs) (flip H0) fs' t' root' H'" "del_ok fs' t'" "t' \<noteq> Lf" "isred t' \<or> length fs' \<le> length fs"
    using delete_left_step [OF z' h' ok'] by auto
  have "zp s par xs H0 (map mirf fs') (mir t') root' (flip H')"
    using r(2) zp_mir [of s par "rev xs" "flip H0" fs' t' root' H'] by simp
  moreover have "rb_delete_right s (rpt s t) (root, H) = Some (rpt s (mir t'), root', flip H')"
    using r(1) delete_flip [of s "rpt s t" root "flip H"] by simp
  moreover have "mir t' \<noteq> Lf" using r(4) by (cases t') auto
  ultimately show ?thesis using r(3,5) del_ok_mir [of fs' t'] by (metis length_map mir_inv(3))
qed

lemma delete_fix_done:
  assumes z: "zp s par xs H0 fs t root H" and ok: "del_ok fs t" and "fs = [] \<or> isred t" "t \<noteq> Lf"
  shows "\<exists>root' H' t'. rb_delete_fix s (rpt s t) root H = Some (root', H') \<and> zp s par xs H0 [] t' root' H' \<and> rbinv t'"
proof -
  obtain c l a r where t: "t = Nd c l a r" using assms(4) by (cases t) auto
  obtain H1 where H1: "ngx_rbt_black a H = Some H1" "zp s par xs H0 fs (Nd False l a r) root H1"
    using zp_color(1) [OF z [unfolded t]] by blast
  obtain k where k: "bal k t" "cbal fs (Suc k)" using ok by (auto simp: del_ok_def)
  have "\<exists>m. bal m (fill fs (Nd False l a r))"
  proof (cases "fs = []")
    case True
    then have "bal (if c then Suc k else k) (Nd False l a r)" using k t by auto
    then show ?thesis using True by auto
  next
    case False
    then have "bal (Suc k) (Nd False l a r)" using assms(3) t k by auto
    then show ?thesis using fill_bal k(2) by blast
  qed
  then have "rbinv (fill fs (Nd False l a r))" using ok t by (auto simp: rbinv_def nrr_fill isred_fill del_ok_def)
  moreover have "rb_delete_fix s (rpt s t) root H = Some (root, H1)"
    using assms(3) H1(1) zp_focus(6,7) [OF z [unfolded t]] t by (subst rb_delete_fix.simps) (auto simp: ngx_rbt_is_black_def)
  moreover have "zp s par xs H0 [] (fill fs (Nd False l a r)) root H1" using H1(2) by (simp add: zp_def)
  ultimately show ?thesis by blast
qed

lemma delete_fix:
  assumes "zp s par xs H0 fs t root H" "del_ok fs t" "hook H0 s fs t" "fs = [] \<longrightarrow> t \<noteq> Lf"
  shows "\<exists>root' H' t'. rb_delete_fix s (rpt s t) root H = Some (root', H') \<and> zp s par xs H0 [] t' root' H' \<and> rbinv t'"
  using assms
proof (induction "if isred t then 0 else length fs" arbitrary: fs t root H rule: less_induct)
  case less
  show ?case
  proof (cases "fs = [] \<or> isred t")
    case True
    moreover from this have "t \<noteq> Lf" using less(5) by auto
    ultimately show ?thesis by (rule delete_fix_done [OF less(2,3)])
  next
    case False
    then obtain f gs where f: "fs = f # gs" and nr: "\<not> isred t" by (cases fs) auto
    have h: "t = Lf \<longrightarrow> nd_parent (H0 s) = fptr f" using less(4) f by (auto simp: hook_def)
    have "rpt s t \<noteq> root"
    proof (cases t)
      case Lf
      then show ?thesis using less(2) f by (cases "fill fs t") (auto simp: zp_def tree_at_def fill_leaf simp del: fill.simps)
    next
      case (Nd c l a r)
      then show ?thesis using less(2) zp_focus(7) [of s par xs H0 fs c l a r root H] f by auto
    qed
    note n = this temp_parent [OF less(2) [unfolded f] h] zp_sub(1) [OF less(2)]
    have "\<exists>root' H' fs' t' pl. rb_get nd_left (fptr f) H = Some pl \<and>
      (if rpt s t = pl then rb_delete_left s (rpt s t) (root, H) else rb_delete_right s (rpt s t) (root, H)) =
        Some (rpt s t', root', H') \<and>
      zp s par xs H0 fs' t' root' H' \<and> del_ok fs' t' \<and> t' \<noteq> Lf \<and> (isred t' \<or> length fs' < length fs)"
    proof (cases f)
      case (InLeft pc p w)
      have "zp s par xs H0 gs (Nd pc t p w) root H" using less(2) f InLeft by (simp add: zp_up)
      then have "rb_get nd_left (fptr f) H = Some (rpt s t)" using zp_focus(3) InLeft by fastforce
      then show ?thesis using delete_left_step [of s par xs H0 pc p w gs t root H] less(2,3) f InLeft h nr
        by (simp add: less_Suc_eq_le)
    next
      case (InRight pc w p)
      have z: "zp s par xs H0 gs (Nd pc w p t) root H" using less(2) f InRight by (simp add: zp_up)
      have "rb_get nd_left (fptr f) H = Some (rpt s w)" using zp_focus(3) [OF z] InRight by simp
      moreover have "rpt s t \<noteq> rpt s w"
      proof -
        obtain k where "bal (Suc k) w" using less(3) f InRight by (auto simp: del_ok_def)
        then show ?thesis using z by (cases w; cases t) (auto simp: zp_def tree_at_def rep_fill)
      qed
      ultimately show ?thesis using delete_right_step [of s par xs H0 pc w p gs t root H] less(2,3) f InRight h nr
        by (simp add: less_Suc_eq_le)
    qed
    then obtain root' H' fs' t' pl where st: "rb_get nd_left (fptr f) H = Some pl"
      "(if rpt s t = pl then rb_delete_left s (rpt s t) (root, H) else rb_delete_right s (rpt s t) (root, H)) =
        Some (rpt s t', root', H')"
      "zp s par xs H0 fs' t' root' H'" "del_ok fs' t'" "t' \<noteq> Lf" "isred t' \<or> length fs' < length fs" by blast
    have "rb_delete_fix s (rpt s t) root H = rb_delete_fix s (rpt s t') root' H'"
      using n st(1,2) nr by (subst rb_delete_fix.simps) (simp add: ngx_rbt_is_black_def split: if_splits)
    moreover have "(if isred t' then 0 else length fs') < (if isred t then 0 else length fs)" using st(6) nr f by auto
    ultimately show ?thesis using less(1) [OF _ st(3,4)] st(5) by (simp add: hook_def)
  qed
qed

lemma rb_min:
  assumes "tree_at s par (fill fs t) root H" "t \<noteq> Lf"
  shows "\<exists>gs c m r. t = fill gs (Nd c Lf m r) \<and> (\<forall>f \<in> set gs. is_left f) \<and> ngx_rbtree_min (rpt s t) s H = Some m"
  using assms
proof (induction t arbitrary: fs)
  case (Nd c l a r)
  have sub: "rpt s l = s \<longleftrightarrow> l = Lf" using Nd(3) by (cases l) (auto simp: tree_at_def rep_fill)
  note f = focus [OF Nd(3)]
  show ?case
  proof (cases "l = Lf")
    case True
    then have "ngx_rbtree_min a s H = Some a" using f(3) by (subst ngx_rbtree_min.simps) simp
    then show ?thesis using True by (auto intro!: exI [of _ "[]"])
  next
    case False
    then obtain gs d m q where g: "l = fill gs (Nd d Lf m q)" "\<forall>f \<in> set gs. is_left f" "ngx_rbtree_min (rpt s l) s H = Some m"
      using Nd(1) [of "InLeft c a r # fs"] Nd(3) by auto
    have "ngx_rbtree_min a s H = Some m" using f(3) sub False g(3) by (subst ngx_rbtree_min.simps) simp
    then show ?thesis using g(1,2)
      by (intro exI [of _ "gs @ [InLeft c a r]"] exI [of _ d] exI [of _ m] exI [of _ q]) (auto simp: fill_append)
  qed
qed simp

lemma cleft_is_left: "\<forall>f \<in> set gs. is_left f \<Longrightarrow> cleft gs = []"
proof (induction gs)
  case (Cons f gs)
  then show ?case by (cases f) auto
qed simp

text \<open>What a deletion may change.\<close>

definition rb_drop :: "ptr \<Rightarrow> ptr set \<Rightarrow> rbheap \<Rightarrow> rbheap \<Rightarrow> bool" where
  "rb_drop n A H H' \<longleftrightarrow> (\<forall>p. p \<notin> A \<longrightarrow> H' p = H p) \<and> (\<forall>p. p \<noteq> n \<longrightarrow> nd_key (H' p) = nd_key (H p))"

lemma rb_drop_frame: "rb_frame A H H' \<Longrightarrow> rb_drop n B H' H'' \<Longrightarrow> A \<subseteq> B \<Longrightarrow> rb_drop n B H H''"
  by (auto simp: rb_drop_def rb_frame_def)

lemma rb_drop_then: "rb_drop n A H H' \<Longrightarrow> rb_frame B H' H'' \<Longrightarrow> B \<subseteq> A \<Longrightarrow> rb_drop n A H H''"
  by (auto simp: rb_drop_def rb_frame_def)

lemma clear: "n \<noteq> NULL \<Longrightarrow> rb_clear n H = Some (H(n := (H n)\<lparr>nd_left := NULL, nd_right := NULL, nd_parent := NULL, nd_key := 0\<rparr>))"
  by (simp add: rb_clear_def)

lemma reparent_any:
  assumes "rbrep s H q0 x" "distinct (inord x)" "s \<noteq> NULL"
  shows "\<exists>H'. set_parent (rpt s x) q H = Some H' \<and> rbrep s H' q x \<and> (x = Lf \<longrightarrow> nd_parent (H' s) = q) \<and>
    rb_frame (insert s (set (inord x))) H H' \<and> nd_color (H' s) = nd_color (H s)"
  using assms by (cases x) (auto simp: node_is_def rb_frame_def)

lemma rehang_child:
  assumes "crep s H par (f # fs) a" "distinct (cleft (f # fs) @ a # cright (f # fs))" "nd_parent (H a) = fptr f"
    and "a \<noteq> NULL" "a \<noteq> s"
  shows "\<exists>pl H'. rb_get nd_left (fptr f) H = Some pl \<and>
    (if a = pl then set_left (fptr f) b H else set_right (fptr f) b H) = Some H' \<and>
    crep s H' par (f # fs) b \<and> rb_frame (set (cleft (f # fs) @ cright (f # fs))) H H'"
proof -
  let ?root = "fptr (last (f # fs))"
  obtain H' where H': "rb_relink a b (?root, H) = Some (?root, H')"
    "crep s H' par (f # fs) b" "rb_frame (set (cleft (f # fs) @ cright (f # fs))) H H'"
    using rehang [of s H par "f # fs" a ?root b] assms by (auto simp del: last.simps)
  have "a \<noteq> ?root" using fptr_last_in [of "f # fs"] assms(2) by auto
  then show ?thesis using H' assms(3,4)
    by (cases "rb_get nd_left (fptr f) H") (auto simp: rb_relink_def simp del: last.simps split: if_splits bind_splits)
qed

lemma unlink_self:
  assumes z: "tree_at s par (fill (f # fs) (Nd c l n r)) root H" and x: "l = Lf \<and> x = r \<or> r = Lf \<and> x = l"
  shows "\<exists>H'. rb_unlink s n (rpt s x) n (root, H) = Some (root, H') \<and> tree_at s par (fill (f # fs) x) root H' \<and>
    hook H' s (f # fs) x \<and> rb_drop n (insert s (set (inord (fill (f # fs) (Nd c l n r))))) H H'"
proof -
  let ?C = "set (cleft (f # fs) @ cright (f # fs))" and ?A = "insert s (set (inord (fill (f # fs) (Nd c l n r))))"
  have H: "crep s H par (f # fs) n" "nd_parent (H n) = fptr f" "rbrep s H n x" "n \<noteq> NULL" "n \<noteq> s"
    and d: "distinct (cleft (f # fs) @ n # inord x @ cright (f # fs))" "distinct (cleft (f # fs) @ n # cright (f # fs))" "distinct (inord x)"
    and root: "root = fptr (last (f # fs))" and s: "nd_color (H s) = 0" "s \<noteq> NULL"
    using z x by (auto simp: tree_at_def rep_fill rpt_fill node_is_def simp del: fill.simps last.simps crep.simps cleft.simps cright.simps)
  have sC: "s \<notin> ?C" "s \<notin> set (inord x)" using crep_nodes [OF H(1)] rep_nodes [OF H(3)] by auto
  obtain pl H1 where pl: "rb_get nd_left (fptr f) H = Some pl"
    and H1: "(if n = pl then set_left (fptr f) (rpt s x) H else set_right (fptr f) (rpt s x) H) = Some H1"
    "crep s H1 par (f # fs) (rpt s x)" "rb_frame ?C H H1"
    using rehang_child [OF H(1) d(2) H(2,4,5)] by blast
  have dj: "?C \<inter> set (inord x) = {}" "n \<notin> ?C" "n \<notin> set (inord x)" using d by auto
  have "rbrep s H1 n x" using H(3) rep_frame [OF H1(3) dj(1)] by simp
  then obtain H2 where H2: "set_parent (rpt s x) (fptr f) H1 = Some H2" "rbrep s H2 (fptr f) x"
    "x = Lf \<longrightarrow> nd_parent (H2 s) = fptr f" "rb_frame (insert s (set (inord x))) H1 H2" "nd_color (H2 s) = nd_color (H1 s)"
    using reparent_any [of s H1 n x "fptr f"] d s by blast
  define H3 where "H3 = H2(n := (H2 n)\<lparr>nd_left := NULL, nd_right := NULL, nd_parent := NULL, nd_key := 0\<rparr>)"
  have n1: "nd_parent (H1 n) = fptr f" using rb_frame_at [OF H1(3) dj(2)] H(2) by simp
  have "rb_unlink s n (rpt s x) n (root, H) = Some (root, H3)"
    using H(2,4) pl H1(1) n1 H2(1) by (simp add: rb_unlink_def clear H3_def split: if_splits)
  moreover have "crep s H3 par (f # fs) (rpt s x)" "rbrep s H3 (fptr f) x"
    using H1(2) H2(2) crep_frame [OF H2(4), of "f # fs"] dj sC
    by (auto simp: H3_def simp del: crep.simps cleft.simps cright.simps)
  moreover have "distinct (inord (fill (f # fs) x))" using d(1) by (auto simp del: fill.simps cleft.simps cright.simps)
  moreover have "nd_color (H3 s) = 0" using s H(5) H2(5) rb_frame_at [OF H1(3) sC(1)] by (simp add: H3_def)
  moreover have "hook H3 s (f # fs) x" using H2(3) H(5) by (auto simp: H3_def hook_def)
  moreover have "rb_drop n ?A H H3"
  proof -
    have "rb_drop n ?A H2 H3" by (simp add: rb_drop_def H3_def del: fill.simps)
    moreover have "rb_frame ?A H H1" "rb_frame ?A H1 H2"
      using x by (auto intro!: rb_frame_mono [OF H1(3)] rb_frame_mono [OF H2(4)] simp del: fill.simps cleft.simps cright.simps)
    ultimately show ?thesis using rb_drop_frame rb_frame_trans by blast
  qed
  ultimately show ?thesis using s root
    by (auto simp: tree_at_def rep_fill rpt_fill simp del: fill.simps last.simps crep.simps cleft.simps cright.simps inord_fill)
qed

lemma replace:
  assumes c: "crep s H par fs n" and n: "node_is H n c (rpt s l) (rpt s r) (par_of par fs)" and lr: "rbrep s H n l" "rbrep s H q r"
    and d: "distinct (cleft fs @ (inord l @ m # inord r) @ cright fs)" "n \<notin> set (cleft fs @ (inord l @ m # inord r) @ cright fs)"
    and p: "n \<noteq> NULL" "n \<noteq> s" "m \<noteq> NULL" "m \<noteq> s" and s: "nd_color (H s) = 0" "s \<noteq> NULL"
    and root: "root = (if fs = [] then n else fptr (last fs))"
  shows "\<exists>root' H'. rb_replace s n m (root, H) = Some (root', H') \<and> tree_at s par (fill fs (Nd c l m r)) root' H' \<and>
    rb_frame (set (inord (fill fs (Nd c l m r)))) H H'"
proof -
  let ?C = "set (cleft fs @ cright fs)" and ?A = "set (inord (fill fs (Nd c l m r)))"
  define H1 where "H1 = H(m := (H m)\<lparr>nd_left := rpt s l, nd_right := rpt s r, nd_parent := par_of par fs, nd_color := if c then 1 else 0\<rparr>)"
  have dj: "?C \<inter> set (inord l) = {}" "?C \<inter> set (inord r) = {}" "set (inord l) \<inter> set (inord r) = {}" "m \<notin> ?C" "m \<noteq> n"
    "m \<notin> set (inord l)" "m \<notin> set (inord r)" "set (inord l) \<inter> ?C = {}" "set (inord r) \<inter> ?C = {}" "set (inord r) \<inter> set (inord l) = {}"
    "distinct (inord l)" "distinct (inord r)" "distinct (cleft fs @ n # cright fs)" "n \<notin> ?C"
    "n \<notin> set (inord l)" "n \<notin> set (inord r)" using d by auto
  have sn: "s \<notin> ?A" using crep_nodes [OF c] rep_nodes [OF lr(1)] rep_nodes [OF lr(2)] p by auto
  have r1: "crep s H1 par fs n" "rbrep s H1 n l" "rbrep s H1 q r" "nd_parent (H1 n) = par_of par fs"
    using c lr n dj by (simp_all add: H1_def node_is_def)
  obtain H2 where H2: "rb_relink n m (root, H1) = Some (if fs = [] then m else fptr (last fs), H2)" "crep s H2 par fs m"
    "rb_frame ?C H1 H2" using rehang [OF r1(1) dj(13) r1(4) root p(1,2), of m] by blast
  have "rbrep s H2 n l" "rbrep s H2 q r" using r1 rep_frame [OF H2(3)] dj(1,2) by blast+
  then obtain H3 where H3: "(if rpt s l \<noteq> s then set_parent (rpt s l) m H2 else Some H2) = Some H3" "rbrep s H3 m l"
    "rb_frame (set (inord l)) H2 H3" using reparent [of s H2 n l m] dj(11) by blast
  have "rbrep s H3 q r" using \<open>rbrep s H2 q r\<close> rep_frame [OF H3(3) dj(3)] by simp
  then obtain H4 where H4: "(if rpt s r \<noteq> s then set_parent (rpt s r) m H3 else Some H3) = Some H4" "rbrep s H4 m r"
    "rb_frame (set (inord r)) H3 H4" using reparent [of s H3 q r m] dj(12) by blast
  have m: "H2 m = H1 m" "H3 m = H1 m" "H4 m = H1 m" using rb_frame_at [OF H2(3) dj(4)] rb_frame_at [OF H3(3) dj(6)] rb_frame_at [OF H4(3) dj(7)] by simp_all
  let ?root = "if fs = [] then m else fptr (last fs)"
  have "rb_replace s n m (root, H) = Some (?root, H4)"
  proof -
    let ?Ha = "H(m := (H m)\<lparr>nd_left := rpt s l\<rparr>)" and ?Hb = "H(m := (H m)\<lparr>nd_left := rpt s l, nd_right := rpt s r\<rparr>)"
      and ?Hc = "H(m := (H m)\<lparr>nd_left := rpt s l, nd_right := rpt s r, nd_parent := par_of par fs\<rparr>)"
    have "rb_get nd_left n H = Some (rpt s l)" "set_left m (rpt s l) H = Some ?Ha" "rb_get nd_right n ?Ha = Some (rpt s r)"
      "set_right m (rpt s r) ?Ha = Some ?Hb" "rb_get nd_parent n ?Hb = Some (par_of par fs)" "set_parent m (par_of par fs) ?Hb = Some ?Hc"
      "ngx_rbt_copy_color m n ?Hc = Some H1" "rb_get nd_left m H2 = Some (rpt s l)" "rb_get nd_right m H3 = Some (rpt s r)"
      using p n dj(5) m by (simp_all add: node_is_def ngx_rbt_copy_color_def H1_def)
    then show ?thesis using H2(1) H3(1) H4(1) by (simp add: rb_replace_def del: rb_get_simp rb_put_simp split del: if_split)
  qed
  moreover have fr: "rb_frame ?A H H4"
  proof -
    have "rb_frame ?A H1 H2" "rb_frame ?A H2 H3" "rb_frame ?A H3 H4"
      by (rule rb_frame_mono [OF H2(3)] rb_frame_mono [OF H3(3)] rb_frame_mono [OF H4(3)]; auto)+
    moreover have "rb_frame ?A H H1" by (simp add: H1_def rb_frame_def)
    ultimately show ?thesis by (meson rb_frame_trans)
  qed
  moreover have "tree_at s par (fill fs (Nd c l m r)) ?root H4"
  proof -
    have "crep s H4 par fs m" using H2(2) crep_frame [OF H3(3) dj(8)] crep_frame [OF H4(3) dj(9)] by simp
    moreover have "rbrep s H4 m l" using H3(2) rep_frame [OF H4(3) dj(10)] by simp
    moreover have "node_is H4 m c (rpt s l) (rpt s r) (par_of par fs)" using m by (simp add: node_is_def H1_def)
    moreover have "nd_color (H4 s) = 0" using s rb_frame_at [OF fr sn] by simp
    ultimately show ?thesis using H4(2) d(1) p s by (simp add: tree_at_def rep_fill rpt_fill)
  qed
  ultimately show ?thesis by blast
qed

lemma tree_at_upd:
  "n \<notin> set (inord t) \<Longrightarrow> n \<noteq> s \<Longrightarrow> tree_at s par t root (H(n := x)) = tree_at s par t root H"
  by (simp add: tree_at_def)

lemma unlink_subst:
  assumes z: "tree_at s par (fill fs (Nd c l n (fill gs (Nd cs Lf m mr)))) root H"
  shows "\<exists>root' H'. rb_unlink s n (rpt s mr) m (root, H) = Some (root', H') \<and>
    tree_at s par (fill fs (Nd c l m (fill gs mr))) root' H' \<and> hook H' s (gs @ InRight c l m # fs) mr \<and>
    rb_drop n (insert s (set (inord (fill fs (Nd c l n (fill gs (Nd cs Lf m mr))))))) H H'"
proof -
  let ?B = "fill fs (Nd c l n (fill gs (Nd cs Lf m mr)))" and ?A = "fill fs (Nd c l m (fill gs mr))"
  obtain f ks where K: "gs @ InRight c l n # fs = f # ks" by (cases gs) auto
  have B: "?B = fill (f # ks) (Nd cs Lf m mr)" unfolding K [symmetric] by (simp add: fill_append)
  let ?C = "set (cleft (f # ks) @ cright (f # ks))"
  have H: "crep s H par (f # ks) m" "nd_parent (H m) = fptr f" "rbrep s H m mr" "m \<noteq> NULL" "m \<noteq> s"
    and dB: "distinct (inord ?B)" and d: "distinct (cleft (f # ks) @ m # inord mr @ cright (f # ks))" and s: "nd_color (H s) = 0" "s \<noteq> NULL"
    using z unfolding B by (simp_all add: tree_at_def rep_fill node_is_def del: fill.simps crep.simps cleft.simps cright.simps)
  have root: "root = (if fs = [] then n else fptr (last fs))" and n: "n \<noteq> NULL" "n \<noteq> s" using z by (auto simp: tree_at_def rpt_fill rep_fill)
  have sB: "s \<notin> set (inord ?B)" using z rep_nodes by (auto simp: tree_at_def simp del: inord_fill)
  have C: "?C \<subseteq> set (inord ?B)" "set (inord mr) \<subseteq> set (inord ?B)" "m \<in> set (inord ?B)"
    unfolding B by (auto simp del: fill.simps cleft.simps cright.simps)
  have dj: "?C \<inter> set (inord mr) = {}" "m \<notin> ?C" "distinct (cleft (f # ks) @ m # cright (f # ks))" "distinct (inord mr)" using d by auto
  have nA: "n \<notin> set (inord ?A)" and dA: "distinct (inord ?A)" and AB: "set (inord ?A) \<subseteq> set (inord ?B)" and mn: "m \<noteq> n" using dB by auto
  obtain pl H1 where pl: "rb_get nd_left (fptr f) H = Some pl"
    and H1: "(if m = pl then set_left (fptr f) (rpt s mr) H else set_right (fptr f) (rpt s mr) H) = Some H1"
    "crep s H1 par (f # ks) (rpt s mr)" "rb_frame ?C H H1" using rehang_child [OF H(1) dj(3) H(2,4,5)] by blast
  define q where "q = (if fptr f = n then m else fptr f)"
  have q: "fptr f = n \<longleftrightarrow> gs = []"
  proof (cases gs)
    case (Cons g hs)
    then have "f = g" using K by simp
    then show ?thesis using dB Cons by (cases g) auto
  qed (use K in auto)
  have "rbrep s H1 m mr" using H(3) rep_frame [OF H1(3) dj(1)] by simp
  then obtain H2 where H2: "set_parent (rpt s mr) q H1 = Some H2" "rbrep s H2 q mr"
    "mr = Lf \<longrightarrow> nd_parent (H2 s) = q" "rb_frame (insert s (set (inord mr))) H1 H2" "nd_color (H2 s) = nd_color (H1 s)"
    using reparent_any [of s H1 m mr q] dj s by blast
  have "crep s H2 par (f # ks) (rpt s mr)" using H1(2) crep_frame [OF H2(4), of "f # ks"] dj sB C by blast
  then have R: "crep s H2 par (InRight c l n # fs) (rpt s (fill gs mr))" "rbrep s H2 (if gs = [] then m else n) (fill gs mr)"
  proof -
    have "crep s H2 par (InRight c l n # fs) (rpt s (fill gs mr)) \<and> rbrep s H2 (if gs = [] then m else n) (fill gs mr)"
    proof (cases gs)
      case Nil
      then show ?thesis using \<open>crep s H2 par (f # ks) (rpt s mr)\<close> H2(2) K q q_def by auto
    next
      case (Cons g hs)
      then have "rbrep s H2 par (fill (gs @ InRight c l n # fs) mr)"
        using \<open>crep s H2 par (f # ks) (rpt s mr)\<close> H2(2) q q_def unfolding K rep_fill by simp
      then have "rbrep s H2 par (fill (InRight c l n # fs) (fill gs mr))" by (simp add: fill_append)
      then show ?thesis unfolding rep_fill using Cons by simp
    qed
    then show "crep s H2 par (InRight c l n # fs) (rpt s (fill gs mr))" "rbrep s H2 (if gs = [] then m else n) (fill gs mr)" by simp_all
  qed
  have sC: "s \<notin> ?C" using sB C(1) by blast
  have s2: "nd_color (H2 s) = 0" using H2(5) s rb_frame_at [OF H1(3) sC] by simp
  have R': "crep s H2 par fs n" "node_is H2 n c (rpt s l) (rpt s (fill gs mr)) (par_of par fs)" "rbrep s H2 n l" using R(1) by auto
  obtain root' H3 where H3: "rb_replace s n m (root, H2) = Some (root', H3)" "tree_at s par ?A root' H3" "rb_frame (set (inord ?A)) H2 H3"
    using replace [OF R' R(2) _ _ n H(4,5) s2 s(2) root] dA nA by auto
  define H4 where "H4 = H3(n := (H3 n)\<lparr>nd_left := NULL, nd_right := NULL, nd_parent := NULL, nd_key := 0\<rparr>)"
  have m1: "nd_parent (H1 m) = fptr f" using rb_frame_at [OF H1(3) dj(2)] H(2) by simp
  have "rb_unlink s n (rpt s mr) m (root, H) = Some (root', H4)"
    using H(2,4) pl H1(1) m1 H2(1) H3(1) mn n q_def by (simp add: rb_unlink_def clear H4_def split: if_splits)
  moreover have "tree_at s par ?A root' H4" using H3(2) nA n(2) unfolding H4_def by (simp add: tree_at_upd)
  moreover have "hook H4 s (gs @ InRight c l m # fs) mr"
  proof -
    have "nd_parent (H4 s) = nd_parent (H2 s)" using rb_frame_at [OF H3(3), of s] sB AB n(2) by (auto simp: H4_def)
    then show ?thesis using H2(3) q q_def K by (cases gs) (auto simp: hook_def)
  qed
  moreover have "rb_drop n (insert s (set (inord ?B))) H H4"
  proof -
    have "rb_drop n (insert s (set (inord ?B))) H3 H4" by (simp add: rb_drop_def H4_def)
    moreover have "rb_frame (insert s (set (inord ?B))) H H1" "rb_frame (insert s (set (inord ?B))) H1 H2"
      "rb_frame (insert s (set (inord ?B))) H2 H3"
      using C AB by (blast intro: rb_frame_mono [OF H1(3)] rb_frame_mono [OF H2(4)] rb_frame_mono [OF H3(3)])+
    ultimately show ?thesis using rb_drop_frame rb_frame_trans by blast
  qed
  ultimately show ?thesis by blast
qed

lemma split_at: "n \<in> set (inord t) \<Longrightarrow> \<exists>fs c l r. t = fill fs (Nd c l n r)"
proof (induction t)
  case (Nd c l a r)
  consider "n = a" | "n \<in> set (inord l)" | "n \<in> set (inord r)" using Nd(3) by auto
  then show ?case
  proof cases
    case 1
    then show ?thesis by (metis fill.simps(1))
  next
    case 2
    then obtain fs d p q where "l = fill fs (Nd d p n q)" using Nd(1) by blast
    then have "Nd c l a r = fill (fs @ [InLeft c a r]) (Nd d p n q)" by (simp add: fill_append)
    then show ?thesis by blast
  next
    case 3
    then obtain fs d p q where "r = fill fs (Nd d p n q)" using Nd(2) by blast
    then have "Nd c l a r = fill (fs @ [InRight c l a]) (Nd d p n q)" by (simp add: fill_append)
    then show ?thesis by blast
  qed
qed simp

lemma delete_start:
  assumes "rbinv (fill fs (Nd c l a r))" "l = Lf \<and> x = r \<or> r = Lf \<and> x = l"
  shows "if c then rbinv (fill fs x) else del_ok fs x"
proof -
  obtain k where k: "bal k (Nd c l a r)" "cbal fs k" using assms(1) bal_fill unfolding rbinv_def by blast
  have i: "nrr (Nd c l a r)" "cnrr fs" "fs = [] \<longrightarrow> \<not> c" "fs \<noteq> [] \<longrightarrow> \<not> fred (last fs)"
    using assms(1) by (auto simp: rbinv_def nrr_fill isred_fill split: if_splits)
  show ?thesis
  proof (cases c)
    case True
    then have "\<exists>m. bal m (fill fs x)" using k fill_bal [of k x fs] assms(2) by auto
    then show ?thesis using True i assms(2) by (auto simp: rbinv_def nrr_fill isred_fill)
  next
    case False
    then obtain j where "k = Suc j" using k(1) by (cases k) auto
    then show ?thesis using False k i assms(2) blk_mir(4) [of x]
      by (auto simp: del_ok_def intro!: exI [of _ j])
  qed
qed

lemma relabel_inv:
  "cbal (gs @ InRight c l n # fs) k = cbal (gs @ InRight c l m # fs) k"
  "cnrr (gs @ InRight c l n # fs) = cnrr (gs @ InRight c l m # fs)"
  "fred (last (gs @ InRight c l n # fs)) = fred (last (gs @ InRight c l m # fs))"
proof -
  have r: "cred (gs @ InRight c l n # fs) = cred (gs @ InRight c l m # fs)" for gs by (cases gs) auto
  show "cbal (gs @ InRight c l n # fs) k = cbal (gs @ InRight c l m # fs) k" by (induction gs arbitrary: k) auto
  show "cnrr (gs @ InRight c l n # fs) = cnrr (gs @ InRight c l m # fs)" by (induction gs) (auto simp: r)
  show "fred (last (gs @ InRight c l n # fs)) = fred (last (gs @ InRight c l m # fs))" by (cases fs) auto
qed

lemma relabel:
  "del_ok (gs @ InRight c l n # fs) x = del_ok (gs @ InRight c l m # fs) x"
  "rbinv (fill (gs @ InRight c l n # fs) x) \<Longrightarrow> rbinv (fill (gs @ InRight c l m # fs) x)"
proof -
  note i = relabel_inv [where gs = gs and c = c and l = l and n = n and fs = fs and m = m]
  show "del_ok (gs @ InRight c l n # fs) x = del_ok (gs @ InRight c l m # fs) x" using i by (auto simp: del_ok_def)
  have r: "cred (gs @ InRight c l n # fs) = cred (gs @ InRight c l m # fs)" by (cases gs) auto
  assume a: "rbinv (fill (gs @ InRight c l n # fs) x)"
  then obtain k where "bal k x" "cbal (gs @ InRight c l n # fs) k" using bal_fill unfolding rbinv_def by blast
  then have "\<exists>j. bal j (fill (gs @ InRight c l m # fs) x)" using fill_bal i(1) by blast
  then show "rbinv (fill (gs @ InRight c l m # fs) x)" using a i r by (auto simp: rbinv_def nrr_fill isred_fill)
qed

lemma delete_rest:
  assumes t: "tree_at s par (fill fs x) root H1" and h: "hook H1 s fs x" and "fs \<noteq> []"
    and inv: "if c then rbinv (fill fs x) else del_ok fs x"
  shows "\<exists>root' H'. (if c then Some (root, H1) else rb_delete_fix s (rpt s x) root H1) = Some (root', H') \<and>
    (\<exists>t'. tree_at s par t' root' H' \<and> rbinv t' \<and> inord t' = inord (fill fs x)) \<and>
    rb_frame (set (inord (fill fs x))) H1 H'"
proof (cases c)
  case True
  then show ?thesis using t inv by auto
next
  case False
  have z: "zp s par (inord (fill fs x)) H1 fs x root H1" using t by (simp add: zp_def)
  obtain root' H' t' where "rb_delete_fix s (rpt s x) root H1 = Some (root', H')"
    "zp s par (inord (fill fs x)) H1 [] t' root' H'" "rbinv t'"
    using delete_fix [OF z _ h] inv False assms(3) by auto
  then show ?thesis using False by (auto simp: zp_def)
qed

lemma delete_root:
  assumes t: "tree_at s par (Nd c l n r) n H" and inv: "rbinv (Nd c l n r)" and x: "l = Lf \<and> x = r \<or> r = Lf \<and> x = l"
  shows "\<exists>H1. ngx_rbt_black (rpt s x) H = Some H1 \<and>
    tree_at s n (blk x) (rpt s x) (H1(n := (H1 n)\<lparr>nd_left := NULL, nd_right := NULL, nd_parent := NULL, nd_key := 0\<rparr>)) \<and>
    rbinv (blk x) \<and> rb_frame (insert s (set (inord x))) H H1"
proof -
  have r: "rbrep s H n x" "distinct (inord x)" "n \<notin> set (inord x)" "n \<noteq> s" "s \<noteq> NULL" "nd_color (H s) = 0"
    using t x by (auto simp: tree_at_def)
  obtain k where "bal k x" "nrr x" using inv x by (auto simp: rbinv_def split: if_splits)
  then have "rbinv (blk x)"
    by (cases x) (auto simp: rbinv_def intro!: exI [of _ "if isred x then Suc k else k"] split: if_splits)
  then show ?thesis using r
    by (cases x) (auto simp: ngx_rbt_black_def tree_at_def node_is_def rb_frame_def)
qed

lemma delete_self:
  assumes h: "tree_at s par (fill fs (Nd c l n r)) root H" "rbinv (fill fs (Nd c l n r))"
    and x: "l = Lf \<and> x = r \<or> r = Lf \<and> x = l" and tr: "tr_root tree = root" "tr_sentinel tree = s"
    and pick: "rb_delete_pick s n H = Some (rpt s x, n)"
  shows "\<exists>root' H'. ngx_rbtree_delete tree n H = Some (tree\<lparr>tr_root := root'\<rparr>, H') \<and>
    (\<exists>q t'. tree_at s q t' root' H' \<and> rbinv t' \<and> inord t' = inord (fill fs x)) \<and>
    rb_drop n (insert s (set (inord (fill fs (Nd c l n r))))) H H'"
proof (cases fs)
  case Nil
  have r: "root = n" using h(1) Nil by (simp add: tree_at_def)
  have n: "n \<noteq> NULL" using focus(1) [OF h(1)] .
  have h': "tree_at s par (Nd c l n r) n H" "rbinv (Nd c l n r)" using h Nil r by simp_all
  obtain H1 where H1: "ngx_rbt_black (rpt s x) H = Some H1"
    "tree_at s n (blk x) (rpt s x) (H1(n := (H1 n)\<lparr>nd_left := NULL, nd_right := NULL, nd_parent := NULL, nd_key := 0\<rparr>))"
    "rbinv (blk x)" "rb_frame (insert s (set (inord x))) H H1"
    using delete_root [OF h' x] by blast
  let ?H = "H1(n := (H1 n)\<lparr>nd_left := NULL, nd_right := NULL, nd_parent := NULL, nd_key := 0\<rparr>)"
  have "rb_drop n (insert s (set (inord (fill fs (Nd c l n r))))) H ?H"
    using x Nil by (intro rb_drop_frame [OF H1(4)]) (auto simp: rb_drop_def)
  moreover have "ngx_rbtree_delete tree n H = Some (tree\<lparr>tr_root := rpt s x\<rparr>, ?H)"
    using pick tr r H1(1) clear [OF n] by (simp add: ngx_rbtree_delete_def)
  moreover have "inord (blk x) = inord (fill fs x)" using Nil by (simp add: blk_mir(3))
  ultimately show ?thesis using H1(2,3) by blast
next
  case (Cons f gs)
  have root: "root \<noteq> n" and c: "ngx_rbt_is_red n H = Some c" using focus(6,9) [OF h(1)] Cons by auto
  obtain H1 where H1: "rb_unlink s n (rpt s x) n (root, H) = Some (root, H1)" "tree_at s par (fill fs x) root H1"
    "hook H1 s fs x" "rb_drop n (insert s (set (inord (fill fs (Nd c l n r))))) H H1"
    using unlink_self [OF h(1) [unfolded Cons] x] Cons by blast
  have "fs \<noteq> []" using Cons by simp
  from delete_rest [OF H1(2,3) this delete_start [OF h(2) x]] obtain root' H' where
    r: "(if c then Some (root, H1) else rb_delete_fix s (rpt s x) root H1) = Some (root', H')"
    "\<exists>t'. tree_at s par t' root' H' \<and> rbinv t' \<and> inord t' = inord (fill fs x)"
    "rb_frame (set (inord (fill fs x))) H1 H'" by blast
  have "set (inord (fill fs x)) \<subseteq> insert s (set (inord (fill fs (Nd c l n r))))" using x by auto
  then have "rb_drop n (insert s (set (inord (fill fs (Nd c l n r))))) H H'" using rb_drop_then [OF H1(4) r(3)] by blast
  moreover have "ngx_rbtree_delete tree n H = Some (tree\<lparr>tr_root := root'\<rparr>, H')"
    using pick tr root c H1(1) r(1) by (cases c) (simp_all add: ngx_rbtree_delete_def)
  ultimately show ?thesis using r(2) by blast
qed

lemma delete_subst:
  assumes h: "tree_at s par (fill fs (Nd c l n (fill gs (Nd cs Lf m mr)))) root H" "rbinv (fill fs (Nd c l n (fill gs (Nd cs Lf m mr))))"
    and tr: "tr_root tree = root" "tr_sentinel tree = s" and pick: "rb_delete_pick s n H = Some (rpt s mr, m)"
  shows "\<exists>root' H'. ngx_rbtree_delete tree n H = Some (tree\<lparr>tr_root := root'\<rparr>, H') \<and>
    (\<exists>q t'. tree_at s q t' root' H' \<and> rbinv t' \<and> inord t' = inord (fill fs (Nd c l m (fill gs mr)))) \<and>
    rb_drop n (insert s (set (inord (fill fs (Nd c l n (fill gs (Nd cs Lf m mr))))))) H H'"
proof -
  let ?B = "fill fs (Nd c l n (fill gs (Nd cs Lf m mr)))" and ?A = "fill fs (Nd c l m (fill gs mr))"
  let ?K = "gs @ InRight c l n # fs" and ?K' = "gs @ InRight c l m # fs"
  have B: "?B = fill ?K (Nd cs Lf m mr)" and A: "?A = fill ?K' mr" by (simp_all add: fill_append)
  have root: "root \<noteq> m" and cs: "ngx_rbt_is_red m H = Some cs" using focus(6,9) [OF h(1) [unfolded B]] by auto
  obtain root1 H1 where H1: "rb_unlink s n (rpt s mr) m (root, H) = Some (root1, H1)" "tree_at s par ?A root1 H1"
    "hook H1 s ?K' mr" "rb_drop n (insert s (set (inord ?B))) H H1" using unlink_subst [OF h(1)] by blast
  have "if cs then rbinv (fill ?K mr) else del_ok ?K mr" using delete_start [OF h(2) [unfolded B]] by simp
  then have "if cs then rbinv (fill ?K' mr) else del_ok ?K' mr"
    using relabel [where gs = gs and c = c and l = l and n = n and fs = fs and m = m and x = mr] by (auto split: if_splits)
  from delete_rest [OF H1(2) [unfolded A] H1(3) _ this] obtain root' H' where
    r: "(if cs then Some (root1, H1) else rb_delete_fix s (rpt s mr) root1 H1) = Some (root', H')"
    "\<exists>t'. tree_at s par t' root' H' \<and> rbinv t' \<and> inord t' = inord ?A" "rb_frame (set (inord ?A)) H1 H'"
    unfolding A by blast
  have "set (inord ?A) \<subseteq> insert s (set (inord ?B))" by auto
  then have "rb_drop n (insert s (set (inord ?B))) H H'" using rb_drop_then [OF H1(4) r(3)] by blast
  moreover have "ngx_rbtree_delete tree n H = Some (tree\<lparr>tr_root := root'\<rparr>, H')"
    using pick tr root cs H1(1) r(1) by (cases cs) (simp_all add: ngx_rbtree_delete_def)
  ultimately show ?thesis using r(2) by blast
qed

lemma delete_holds:
  assumes "rb_holds tree H xs" "n \<in> set xs"
  shows "\<exists>root' H'. ngx_rbtree_delete tree n H = Some (tree\<lparr>tr_root := root'\<rparr>, H') \<and>
    rb_holds (tree\<lparr>tr_root := root'\<rparr>) H' (remove1 n xs) \<and> rb_drop n (insert (tr_sentinel tree) (set xs)) H H'"
proof -
  let ?s = "tr_sentinel tree"
  obtain par t where t: "tree_at ?s par t (tr_root tree) H" "rbinv t" "inord t = xs" using assms(1) by (auto simp: rb_holds_def)
  obtain fs c l r where f: "t = fill fs (Nd c l n r)" using split_at [of n t] assms(2) t(3) by blast
  have e: "inord (fill fs (Nd c l n r)) = xs" using t(3) f by simp
  have d: "distinct xs" using t by (auto simp: tree_at_def)
  note fo = focus [OF t(1) [unfolded f]]
  have sub: "rpt ?s x = ?s \<longleftrightarrow> x = Lf" if "x \<in> {l, r}" for x
    using t(1) that unfolding f by (cases x) (auto simp: tree_at_def rep_fill)
  have fin: ?thesis if "\<exists>root' H'. ngx_rbtree_delete tree n H = Some (tree\<lparr>tr_root := root'\<rparr>, H') \<and>
      (\<exists>q t'. tree_at ?s q t' root' H' \<and> rbinv t' \<and> inord t' = ys) \<and> rb_drop n (insert ?s (set xs)) H H'" "ys = remove1 n xs" for ys
    using that unfolding rb_holds_def by fastforce
  show ?thesis
  proof (cases "l = Lf \<or> r = Lf")
    case True
    define x where "x = (if l = Lf then r else l)"
    have x: "l = Lf \<and> x = r \<or> r = Lf \<and> x = l" using True by (auto simp: x_def)
    have "rb_delete_pick ?s n H = Some (rpt ?s x, n)" using fo sub True by (auto simp: rb_delete_pick_def x_def)
    note delete_self [OF t(1,2) [unfolded f] x refl refl this, unfolded e]
    moreover have "inord (fill fs x) = remove1 n xs" using x d t(3) f by (auto simp: remove1_append)
    ultimately show ?thesis by (rule fin)
  next
    case False
    have tr: "tree_at ?s par (fill (InRight c l n # fs) r) (tr_root tree) H" using t(1) f by simp
    obtain gs cs m mr where g: "r = fill gs (Nd cs Lf m mr)" "\<forall>f \<in> set gs. is_left f" "ngx_rbtree_min (rpt ?s r) ?s H = Some m"
      using rb_min [OF tr] False by blast
    have tm: "tree_at ?s par (fill (gs @ InRight c l n # fs) (Nd cs Lf m mr)) (tr_root tree) H" using tr g(1) by (simp add: fill_append)
    have pick: "rb_delete_pick ?s n H = Some (rpt ?s mr, m)"
      using fo sub False g(3) focus(3,4) [OF tm] by (simp add: rb_delete_pick_def)
    have "inord (fill fs (Nd c l m (fill gs mr))) = remove1 n xs"
      using d t(3) f g cleft_is_left [OF g(2)] by (auto simp: remove1_append)
    then show ?thesis
      by (rule fin [OF delete_subst [OF t(1,2) [unfolded f g(1)] refl refl pick, folded g(1), unfolded e]])
  qed
qed

section \<open>Sequences of operations\<close>

lemma rb_holds_upd:
  "rb_holds tree H xs \<Longrightarrow> n \<notin> set xs \<Longrightarrow> n \<noteq> tr_sentinel tree \<Longrightarrow> rb_holds tree (H(n := x)) xs"
  unfolding rb_holds_def by (metis tree_at_upd)

lemma rb_holds_nodes:
  "rb_holds tree H xs \<Longrightarrow> distinct xs \<and> NULL \<notin> set xs \<and> tr_sentinel tree \<notin> set xs \<and> tr_sentinel tree \<noteq> NULL"
  using rep_nodes by (fastforce simp: rb_holds_def tree_at_def)

lemma init_holds:
  assumes "s \<noteq> NULL"
  shows "\<exists>H'. ngx_rbtree_init s i H = Some (\<lparr>tr_root = s, tr_sentinel = s, tr_insert = i\<rparr>, H') \<and>
    rb_holds \<lparr>tr_root = s, tr_sentinel = s, tr_insert = i\<rparr> H' [] \<and> rb_frame {s} H H'"
  using assms
  by (auto simp: ngx_rbtree_init_def ngx_rbt_black_def rb_holds_def tree_at_def rbinv_def rb_frame_def intro!: exI [of _ Lf])

lemma min_holds:
  assumes "rb_holds tree H xs" "xs \<noteq> []"
  shows "ngx_rbtree_min (tr_root tree) (tr_sentinel tree) H = Some (hd xs)"
proof -
  obtain par t where t: "tree_at (tr_sentinel tree) par (fill [] t) (tr_root tree) H" "inord t = xs"
    using assms(1) by (auto simp: rb_holds_def)
  then have "t \<noteq> Lf" using assms(2) by auto
  from rb_min [OF t(1) this] show ?thesis using t cleft_is_left by (fastforce simp: tree_at_def)
qed

lemma root_empty: "rb_holds tree H xs \<Longrightarrow> tr_root tree = tr_sentinel tree \<longleftrightarrow> xs = []"
proof -
  assume "rb_holds tree H xs"
  then obtain par t where "tree_at (tr_sentinel tree) par t (tr_root tree) H" "inord t = xs" by (auto simp: rb_holds_def)
  then show ?thesis by (cases t) (auto simp: tree_at_def)
qed

lemma set_place [simp]: "set (place lt n xs) = insert n (set xs)"
  by (simp add: place_def) (metis set_append takeWhile_dropWhile_id)

lemma sorted_place:
  fixes rank :: "ptr \<Rightarrow> 'a :: linorder"
  assumes "sorted_wrt (\<lambda>a b. rank a \<le> rank b) xs" "\<And>a. a \<in> set xs \<Longrightarrow> lt a \<longleftrightarrow> rank n < rank a"
  shows "sorted_wrt (\<lambda>a b. rank a \<le> rank b) (place lt n xs)"
  using assms
proof (induction xs)
  case (Cons x xs)
  then show ?case by (cases "lt x") (fastforce simp: place_def dest: set_takeWhileD set_dropWhileD)+
qed (simp add: place_def)

lemma sorted_lt:
  fixes rank :: "ptr \<Rightarrow> 'a :: linorder"
  assumes "sorted_wrt (\<lambda>a b. rank a \<le> rank b) xs" "\<And>a. a \<in> set xs \<Longrightarrow> lt a \<longleftrightarrow> rank n < rank a"
  shows "sorted_wrt (\<lambda>a b. lt a \<longrightarrow> lt b) xs"
proof (rule sorted_wrt_mono_rel [OF _ assms(1)])
  fix a b assume "a \<in> set xs" "b \<in> set xs" "rank a \<le> rank b"
  then show "lt a \<longrightarrow> lt b" using assms(2) by auto
qed

text \<open>Operations of a client, which writes the key before it inserts, and the sorted table that specifies
  them.  Among equal keys the order is the order of insertion.\<close>

datatype rb_op = Op_insert ptr u64 | Op_delete ptr

fun rb_exec :: "rb_op \<Rightarrow> ngx_rbtree \<times> rbheap \<Rightarrow> (ngx_rbtree \<times> rbheap) option" where
  "rb_exec (Op_insert n k) (tree, H) = do { H \<leftarrow> set_key n k H; ngx_rbtree_insert tree n H }"
| "rb_exec (Op_delete n) (tree, H) = ngx_rbtree_delete tree n H"

fun rb_run :: "rb_op list \<Rightarrow> ngx_rbtree \<times> rbheap \<Rightarrow> (ngx_rbtree \<times> rbheap) option" where
  "rb_run [] st = Some st"
| "rb_run (op # ops) st = do { st \<leftarrow> rb_exec op st; rb_run ops st }"

fun table_exec :: "ptr \<Rightarrow> rb_op \<Rightarrow> (u64 \<times> ptr) list \<Rightarrow> (u64 \<times> ptr) list option" where
  "table_exec s (Op_insert n k) ks =
    (if n \<in> {NULL, s} \<union> snd ` set ks then None
     else Some (takeWhile (\<lambda>x. fst x \<le> k) ks @ (k, n) # dropWhile (\<lambda>x. fst x \<le> k) ks))"
| "table_exec s (Op_delete n) ks =
    (if n \<in> snd ` set ks then Some (filter (\<lambda>x. snd x \<noteq> n) ks) else None)"

fun table_run :: "ptr \<Rightarrow> rb_op list \<Rightarrow> (u64 \<times> ptr) list \<Rightarrow> (u64 \<times> ptr) list option" where
  "table_run s [] ks = Some ks"
| "table_run s (op # ops) ks = do { ks \<leftarrow> table_exec s op ks; table_run s ops ks }"

definition rb_table :: "ngx_rbtree \<Rightarrow> rbheap \<Rightarrow> (u64 \<times> ptr) list \<Rightarrow> bool" where
  "rb_table tree H ks \<longleftrightarrow> tr_insert tree = ngx_rbtree_insert_value \<and> sorted (map fst ks) \<and>
    (\<exists>xs. rb_holds tree H xs \<and> ks = map (\<lambda>p. (nd_key (H p), p)) xs)"

lemma sorted_keys: "sorted (map (\<lambda>p. nd_key (H p)) xs) \<longleftrightarrow> sorted_wrt (\<lambda>a b. nd_key (H a) \<le> nd_key (H b)) xs"
  by (simp add: sorted_wrt_map)

lemma insert_table:
  assumes "rb_table tree H ks" "table_exec (tr_sentinel tree) (Op_insert n k) ks = Some ks'"
  shows "\<exists>root' H'. rb_exec (Op_insert n k) (tree, H) = Some (tree\<lparr>tr_root := root'\<rparr>, H') \<and> rb_table (tree\<lparr>tr_root := root'\<rparr>) H' ks'"
proof -
  obtain xs where xs: "rb_holds tree H xs" "ks = map (\<lambda>p. (nd_key (H p), p)) xs" using assms(1) by (auto simp: rb_table_def)
  have n: "n \<notin> set xs" "n \<noteq> tr_sentinel tree" "n \<noteq> NULL"
    and ks': "ks' = takeWhile (\<lambda>x. fst x \<le> k) ks @ (k, n) # dropWhile (\<lambda>x. fst x \<le> k) ks"
    using assms(2) xs(2) by (auto split: if_splits simp: image_image)
  define H1 where "H1 = H(n := (H n)\<lparr>nd_key := k\<rparr>)"
  have key: "nd_key (H1 n) = k" "\<And>p. p \<in> set xs \<Longrightarrow> nd_key (H1 p) = nd_key (H p)" using n by (auto simp: H1_def)
  have so: "sorted_wrt (\<lambda>a b. nd_key (H1 a) \<le> nd_key (H1 b)) xs"
    using assms(1) xs(2) key(2) by (auto simp: rb_table_def comp_def sorted_keys elim!: sorted_wrt_mono_rel [rotated])
  let ?lt = "\<lambda>a. nd_key (H1 n) < nd_key (H1 a)"
  have h1: "rb_holds tree H1 xs" unfolding H1_def by (rule rb_holds_upd [OF xs(1) n(1,2)])
  obtain root' H' where r: "ngx_rbtree_insert tree n H1 = Some (tree\<lparr>tr_root := root'\<rparr>, H')"
    "rb_holds (tree\<lparr>tr_root := root'\<rparr>) H' (place ?lt n xs)" "rb_frame (insert n (set xs)) H1 H'"
    using by_value.insert_holds [OF h1 _ n sorted_lt [OF so, of ?lt n]] assms(1) by (auto simp: rb_table_def)
  have key': "nd_key (H' p) = nd_key (H1 p)" for p using r(3) by (simp add: rb_frame_def)
  have "ks' = map (\<lambda>p. (nd_key (H' p), p)) (place ?lt n xs)"
  proof -
    have "takeWhile (\<lambda>x. fst x \<le> k) ks = map (\<lambda>p. (nd_key (H' p), p)) (takeWhile (\<lambda>a. \<not> ?lt a) xs)"
      "dropWhile (\<lambda>x. fst x \<le> k) ks = map (\<lambda>p. (nd_key (H' p), p)) (dropWhile (\<lambda>a. \<not> ?lt a) xs)"
      using key unfolding xs(2) key' takeWhile_map dropWhile_map
      by (auto simp: comp_def not_less dest: set_takeWhileD set_dropWhileD intro!: map_cong takeWhile_cong dropWhile_cong arg_cong [of _ _ "map _"])
    then show ?thesis using ks' key key' by (simp add: place_def)
  qed
  moreover have "sorted (map fst ks')"
    unfolding calculation using sorted_place [OF so, of ?lt n] by (simp add: comp_def sorted_keys key')
  ultimately have "rb_table (tree\<lparr>tr_root := root'\<rparr>) H' ks'" using r(2) assms(1) unfolding rb_table_def by auto
  moreover have "rb_exec (Op_insert n k) (tree, H) = Some (tree\<lparr>tr_root := root'\<rparr>, H')" using r(1) n(3) by (simp add: H1_def)
  ultimately show ?thesis by blast
qed

lemma delete_table:
  assumes "rb_table tree H ks" "table_exec (tr_sentinel tree) (Op_delete n) ks = Some ks'"
  shows "\<exists>root' H'. rb_exec (Op_delete n) (tree, H) = Some (tree\<lparr>tr_root := root'\<rparr>, H') \<and> rb_table (tree\<lparr>tr_root := root'\<rparr>) H' ks'"
proof -
  obtain xs where xs: "rb_holds tree H xs" "ks = map (\<lambda>p. (nd_key (H p), p)) xs" using assms(1) by (auto simp: rb_table_def)
  have n: "n \<in> set xs" and ks': "ks' = filter (\<lambda>x. snd x \<noteq> n) ks" using assms(2) xs(2) by (auto split: if_splits simp: image_image)
  obtain root' H' where r: "ngx_rbtree_delete tree n H = Some (tree\<lparr>tr_root := root'\<rparr>, H')"
    "rb_holds (tree\<lparr>tr_root := root'\<rparr>) H' (remove1 n xs)" "rb_drop n (insert (tr_sentinel tree) (set xs)) H H'"
    using delete_holds [OF xs(1) n] by blast
  have "remove1 n xs = filter (\<lambda>p. p \<noteq> n) xs" using rb_holds_nodes [OF xs(1)]
    by (auto simp: distinct_remove1_removeAll removeAll_filter_not_eq intro: filter_cong)
  moreover have "nd_key (H' p) = nd_key (H p)" if "p \<noteq> n" for p using r(3) that by (simp add: rb_drop_def)
  ultimately have "ks' = map (\<lambda>p. (nd_key (H' p), p)) (remove1 n xs)" unfolding ks' xs(2) by (auto simp: filter_map comp_def)
  moreover have "sorted (map fst ks')" using assms(1) unfolding ks' by (simp add: rb_table_def sorted_wrt_map sorted_wrt_filter)
  ultimately show ?thesis using r(1,2) assms(1) by (auto simp: rb_table_def)
qed

lemma run_table:
  assumes "rb_table tree H ks" "table_run (tr_sentinel tree) ops ks = Some ks'"
  shows "\<exists>tree' H'. rb_run ops (tree, H) = Some (tree', H') \<and> rb_table tree' H' ks'"
  using assms
proof (induction ops arbitrary: tree H ks)
  case (Cons op ops)
  then obtain ks1 where k: "table_exec (tr_sentinel tree) op ks = Some ks1" "table_run (tr_sentinel tree) ops ks1 = Some ks'"
    by (auto split: bind_splits)
  obtain root1 H1 where "rb_exec op (tree, H) = Some (tree\<lparr>tr_root := root1\<rparr>, H1)" "rb_table (tree\<lparr>tr_root := root1\<rparr>) H1 ks1"
    using insert_table [OF Cons(2)] delete_table [OF Cons(2)] k(1) by (cases op) blast+
  then show ?case using Cons(1) [of "tree\<lparr>tr_root := root1\<rparr>" H1 ks1] k(2) by simp
qed simp

section \<open>Depth\<close>

text \<open>The node that a sequence of turns leads to.\<close>

fun rb_walk :: "ptr \<Rightarrow> bool list \<Rightarrow> ptr \<Rightarrow> rbheap \<Rightarrow> ptr option" where
  "rb_walk s [] p H = (if p = s then None else Some p)"
| "rb_walk s (d # ds) p H =
    (if p = s then None else rb_walk s ds (if d then nd_left (H p) else nd_right (H p)) H)"

lemma walk_bound:
  assumes "rbrep s H par t" "bal k t" "nrr t" "rb_walk s ds (rpt s t) H = Some q"
  shows "length ds + 1 \<le> 2 * k + (if isred t then 1 else 0)"
  using assms
proof (induction ds arbitrary: t k par)
  case Nil
  then show ?case by (cases t) (auto split: if_splits)
next
  case (Cons d ds)
  then obtain c l a r where t: "t = Nd c l a r" by (cases t) auto
  let ?u = "if d then l else r"
  have "rbrep s H a ?u" "bal (if c then k else k - 1) ?u" "nrr ?u" "rb_walk s ds (rpt s ?u) H = Some q"
    "c \<longrightarrow> \<not> isred ?u" "\<not> c \<longrightarrow> 0 < k"
    using Cons(2-5) t by (auto simp: node_is_def split: if_splits)
  then show ?case using Cons(1) [of a ?u "if c then k else k - 1"] t by (auto split: if_splits)
qed

lemma bal_size: "bal k t \<Longrightarrow> 2 ^ k \<le> length (inord t) + 1"
proof (induction t arbitrary: k)
  case (Nd c l a r)
  show ?case
  proof (cases c)
    case True
    then show ?thesis using Nd(1) [of k] Nd(3) by simp
  next
    case False
    then obtain j where "k = Suc j" "bal j l" "bal j r" using Nd(3) by (cases k) auto
    then show ?thesis using Nd(1) [of j] Nd(2) [of j] by simp
  qed
qed simp

section \<open>Properties\<close>

text \<open>
  C27. Refinement of a sorted table: from \<open>ngx_rbtree_init\<close> on, every sequence of insertions and deletions
  that a client may perform returns, without an access through \<open>NULL\<close>, and leaves a red-black tree whose
  nodes are those of the table in its order; \<open>ngx_rbtree_min\<close> gives the first of them.
\<close>

theorem rbtree_runs:
  assumes "s \<noteq> NULL" and "table_run s ops [] = Some ks"
  shows "\<exists>tree0 H0 tree H'. ngx_rbtree_init s ngx_rbtree_insert_value H = Some (tree0, H0) \<and>
    rb_run ops (tree0, H0) = Some (tree, H') \<and> rb_holds tree H' (map snd ks) \<and>
    sorted (map fst ks) \<and> (\<forall>(k, p) \<in> set ks. nd_key (H' p) = k) \<and>
    (if ks = [] then tr_root tree = tr_sentinel tree
     else ngx_rbtree_min (tr_root tree) (tr_sentinel tree) H' = Some (snd (hd ks)))"
proof -
  let ?tree = "\<lparr>tr_root = s, tr_sentinel = s, tr_insert = ngx_rbtree_insert_value\<rparr>"
  obtain H0 where H0: "ngx_rbtree_init s ngx_rbtree_insert_value H = Some (?tree, H0)" "rb_holds ?tree H0 []"
    using init_holds [OF assms(1)] by blast
  then have "rb_table ?tree H0 []" by (auto simp: rb_table_def)
  then obtain tree H' where r: "rb_run ops (?tree, H0) = Some (tree, H')" "rb_table tree H' ks"
    using run_table [of ?tree H0 "[]" ops ks] assms(2) by auto
  then obtain xs where xs: "rb_holds tree H' xs" "ks = map (\<lambda>p. (nd_key (H' p), p)) xs" "sorted (map fst ks)"
    by (auto simp: rb_table_def)
  have "map snd ks = xs" using xs(2) by (simp add: comp_def)
  then show ?thesis using H0(1) r(1) xs min_holds [OF xs(1)] root_empty [OF xs(1)]
    by (intro exI conjI) (auto simp: hd_map)
qed

theorem rbtree_runs_witness:
  "\<exists>tree0 H0 tree H'. ngx_rbtree_init 1 ngx_rbtree_insert_value (\<lambda>_. \<lparr>nd_key = 0, nd_left = 0, nd_right = 0, nd_parent = 0, nd_color = 1\<rparr>) =
      Some (tree0, H0) \<and>
    rb_run [Op_insert 2 30, Op_insert 3 10, Op_insert 4 20, Op_insert 5 20, Op_delete 2] (tree0, H0) = Some (tree, H') \<and>
    rb_holds tree H' [3, 4, 5] \<and> ngx_rbtree_min (tr_root tree) (tr_sentinel tree) H' = Some 3"
  using rbtree_runs [of 1 "[Op_insert 2 30, Op_insert 3 10, Op_insert 4 20, Op_insert 5 20, Op_delete 2]" "[(10, 3), (20, 4), (20, 5)]"
      "\<lambda>_. \<lparr>nd_key = 0, nd_left = 0, nd_right = 0, nd_parent = 0, nd_color = 1\<rparr>"]
  by (simp, blast)

text \<open>
  The loops that descend are short: a path of \<open>d\<close> links from the root needs a tree of at least
  \<open>2 ^ ((d + 2) div 2) - 1\<close> nodes.
\<close>

theorem rbtree_depth:
  assumes "rb_holds tree H xs" and "rb_walk (tr_sentinel tree) ds (tr_root tree) H = Some p"
  shows "2 ^ ((length ds + 2) div 2) \<le> length xs + 1"
proof -
  obtain par t where t: "tree_at (tr_sentinel tree) par t (tr_root tree) H" "rbinv t" "inord t = xs" using assms(1) by (auto simp: rb_holds_def)
  obtain k where k: "bal k t" "nrr t" "\<not> isred t" using t(2) by (auto simp: rbinv_def)
  have "length ds + 1 \<le> 2 * k" using walk_bound [of "tr_sentinel tree" H par t k ds p] t(1) k assms(2) by (auto simp: tree_at_def)
  then have "(2 :: nat) ^ ((length ds + 2) div 2) \<le> 2 ^ k" by (intro power_increasing) auto
  also have "\<dots> \<le> length xs + 1" using bal_size [OF k(1)] t(3) by simp
  finally show ?thesis .
qed

text \<open>A tree of two nodes, for the examples.\<close>

definition rb_two :: rbheap where
  "rb_two = (\<lambda>_. \<lparr>nd_key = 0, nd_left = 1, nd_right = 1, nd_parent = 0, nd_color = 0\<rparr>)
    (2 := \<lparr>nd_key = 5, nd_left = 1, nd_right = 3, nd_parent = 0, nd_color = 0\<rparr>,
     3 := \<lparr>nd_key = 7, nd_left = 1, nd_right = 1, nd_parent = 2, nd_color = 1\<rparr>)"

lemma rb_two_holds: "rb_holds \<lparr>tr_root = 2, tr_sentinel = 1, tr_insert = ngx_rbtree_insert_value\<rparr> rb_two [2, 3]"
  unfolding rb_holds_def
  by (rule exI [of _ 0], rule exI [of _ "Nd False Lf 2 (Nd True Lf 3 Lf)"])
    (auto simp: rb_two_def tree_at_def node_is_def rbinv_def intro!: exI [of _ 1])

theorem rbtree_depth_witness: "(2 :: nat) ^ ((length [False] + 2) div 2) \<le> length [2 :: ptr, 3] + 1"
proof (rule rbtree_depth [OF rb_two_holds])
  show "rb_walk (tr_sentinel \<lparr>tr_root = 2, tr_sentinel = 1, tr_insert = ngx_rbtree_insert_value\<rparr>) [False]
    (tr_root \<lparr>tr_root = 2, tr_sentinel = 1, tr_insert = ngx_rbtree_insert_value\<rparr>) rb_two = Some 3" by (simp add: rb_two_def)
qed

text \<open>
  \<open>ngx_rbtree_delete\<close> removes exactly the node it is given: the other nodes keep their order and
  their keys, the tree is again a red-black tree, and no memory but that of the nodes and the sentinel is
  written.
\<close>

theorem rbtree_delete_exact:
  assumes "rb_holds tree H xs" and "n \<in> set xs"
  shows "\<exists>root' H'. ngx_rbtree_delete tree n H = Some (tree\<lparr>tr_root := root'\<rparr>, H') \<and>
    rb_holds (tree\<lparr>tr_root := root'\<rparr>) H' (remove1 n xs) \<and>
    (\<forall>p. p \<noteq> n \<longrightarrow> nd_key (H' p) = nd_key (H p)) \<and>
    (\<forall>p. p \<notin> insert (tr_sentinel tree) (set xs) \<longrightarrow> H' p = H p)"
  using delete_holds [OF assms] unfolding rb_drop_def by blast

theorem rbtree_delete_exact_witness:
  "\<exists>root' H'. ngx_rbtree_delete \<lparr>tr_root = 2, tr_sentinel = 1, tr_insert = ngx_rbtree_insert_value\<rparr> 2 rb_two =
      Some (\<lparr>tr_root = root', tr_sentinel = 1, tr_insert = ngx_rbtree_insert_value\<rparr>, H') \<and>
    rb_holds \<lparr>tr_root = root', tr_sentinel = 1, tr_insert = ngx_rbtree_insert_value\<rparr> H' [3] \<and> nd_key (H' 3) = 7"
proof -
  obtain root' H' where "ngx_rbtree_delete \<lparr>tr_root = 2, tr_sentinel = 1, tr_insert = ngx_rbtree_insert_value\<rparr> 2 rb_two =
      Some (\<lparr>tr_root = root', tr_sentinel = 1, tr_insert = ngx_rbtree_insert_value\<rparr>, H')"
    "rb_holds \<lparr>tr_root = root', tr_sentinel = 1, tr_insert = ngx_rbtree_insert_value\<rparr> H' [3]" "nd_key (H' 3) = nd_key (rb_two 3)"
    using rbtree_delete_exact [OF rb_two_holds, of 2] by auto
  then show ?thesis by (auto simp: rb_two_def)
qed

end
