(* ===== verification/Ngx_Event_Timer.thy ===== *)
theory Ngx_Event_Timer
  imports Ngx_Rbtree_Balance
begin

text \<open>
  The timers of the event loop: \<^verbatim>\<open>src/event/ngx_event_timer.c\<close> and \<^verbatim>\<open>src/event/ngx_event_timer.h\<close>, without the code for
  threads and for debug logs.  They are a client of the red-black tree with the comparison
  \<open>ngx_rbtree_insert_timer_value\<close>.

  Shown: the tree is ordered by the time left in every reachable state, across the wrap-around of the
  millisecond counter; adding, deleting, firing and finding a timer return; expiry ends, calls the handlers
  of exactly the expired timers in their order (if they keep these) and leaves none.
\<close>

section \<open>The functions\<close>

text \<open>The timers: the tree \<open>ngx_event_timer_rbtree\<close>, the memory of its nodes, and the flags \<open>timer_set\<close> and \<open>timedout\<close>
  of the events.  An event is named by the address of its node \<open>&ev->timer\<close>.\<close>

record timers =
  tm_tree :: ngx_rbtree
  tm_heap :: rbheap
  tm_set :: "ptr \<Rightarrow> bool"
  tm_timedout :: "ptr \<Rightarrow> bool"

abbreviation (input) NGX_TIMER_INFINITE :: u64 where "NGX_TIMER_INFINITE \<equiv> - 1"

abbreviation (input) NGX_TIMER_LAZY_DELAY :: int where "NGX_TIMER_LAZY_DELAY \<equiv> 300"

definition ngx_abs :: "u64 \<Rightarrow> u64" where
  "ngx_abs x = (if 0 \<le> sint x then x else - x)"

text \<open>The functions; \<open>now\<close> is \<open>ngx_current_msec\<close>.\<close>

definition ngx_event_timer_init :: "ptr \<Rightarrow> timers \<Rightarrow> timers option" where
  "ngx_event_timer_init sentinel st = do {
     (tree, H) \<leftarrow> ngx_rbtree_init sentinel ngx_rbtree_insert_timer_value (tm_heap st);
     Some (st\<lparr>tm_tree := tree, tm_heap := H\<rparr>) }"

definition ngx_event_find_timer :: "u64 \<Rightarrow> timers \<Rightarrow> u64 option" where
  "ngx_event_find_timer now st =
    (let tree = tm_tree st in
     if tr_root tree = tr_sentinel tree then Some NGX_TIMER_INFINITE
     else do {
       node \<leftarrow> ngx_rbtree_min (tr_root tree) (tr_sentinel tree) (tm_heap st);
       k \<leftarrow> rb_get nd_key node (tm_heap st);
       let timer = k - now in
       Some (if sint timer > 0 then timer else 0) })"

definition ngx_event_del_timer :: "ptr \<Rightarrow> timers \<Rightarrow> timers option" where
  "ngx_event_del_timer ev st = do {
     (tree, H) \<leftarrow> ngx_rbtree_delete (tm_tree st) ev (tm_heap st);
     Some (st\<lparr>tm_tree := tree, tm_heap := H, tm_set := (tm_set st)(ev := False)\<rparr>) }"

definition timer_arm :: "ptr \<Rightarrow> u64 \<Rightarrow> timers \<Rightarrow> timers option" where
  "timer_arm ev key st = do {
     H \<leftarrow> set_key ev key (tm_heap st);
     (tree, H) \<leftarrow> ngx_rbtree_insert (tm_tree st) ev H;
     Some (st\<lparr>tm_tree := tree, tm_heap := H, tm_set := (tm_set st)(ev := True)\<rparr>) }"

definition ngx_event_add_timer :: "u64 \<Rightarrow> ptr \<Rightarrow> u64 \<Rightarrow> timers \<Rightarrow> timers option" where
  "ngx_event_add_timer now ev timer st =
    (let key = now + timer in
     if tm_set st ev then do {
       k \<leftarrow> rb_get nd_key ev (tm_heap st);
       let diff = key - k;
       if sint (ngx_abs diff) < NGX_TIMER_LAZY_DELAY then Some st
       else do {
         st \<leftarrow> ngx_event_del_timer ev st;
         timer_arm ev key st } }
     else timer_arm ev key st)"

text \<open>The body of the loop of \<open>ngx_event_expire_timers\<close> up to the call of the handler, and the loop.  A handler
  may do anything to the timers and to a state of its own; it is a parameter.\<close>

definition timer_fire :: "ptr \<Rightarrow> timers \<Rightarrow> timers option" where
  "timer_fire ev st = do {
     (tree, H) \<leftarrow> ngx_rbtree_delete (tm_tree st) ev (tm_heap st);
     Some (st\<lparr>tm_tree := tree, tm_heap := H, tm_set := (tm_set st)(ev := False),
       tm_timedout := (tm_timedout st)(ev := True)\<rparr>) }"

partial_function (option) ngx_event_expire_timers ::
  "u64 \<Rightarrow> (ptr \<Rightarrow> 'w \<times> timers \<Rightarrow> 'w \<times> timers) \<Rightarrow> 'w \<times> timers \<Rightarrow> ('w \<times> timers) option" where
  "ngx_event_expire_timers now handler ws =
    (let st = snd ws; tree = tm_tree st in
     if tr_root tree = tr_sentinel tree then Some ws
     else do {
       node \<leftarrow> ngx_rbtree_min (tr_root tree) (tr_sentinel tree) (tm_heap st);
       k \<leftarrow> rb_get nd_key node (tm_heap st);
       if sint (k - now) \<le> 0 then do {
         st \<leftarrow> timer_fire node st;
         ngx_event_expire_timers now handler (handler node (fst ws, st)) }
       else Some ws })"

section \<open>Deadlines\<close>

text \<open>The time left, negative when the deadline has passed.  Deadlines are compared by the sign of a
  difference of 64 bits, so all of them have to be less than \<open>2 ^ 62\<close> milliseconds away from the current time.\<close>

definition left :: "u64 \<Rightarrow> u64 \<Rightarrow> int" where
  "left now k = sint (k - now)"

definition near :: "u64 \<Rightarrow> u64 \<Rightarrow> bool" where
  "near now k \<longleftrightarrow> \<bar>left now k\<bar> < 2 ^ 62"

lemma sint_diff:
  assumes "\<bar>sint (x :: u64)\<bar> < 2 ^ 62" "\<bar>sint (y :: u64)\<bar> < 2 ^ 62"
  shows "sint (x - y) = sint x - sint y"
proof -
  have "sint (x - y) = signed_take_bit 63 (sint x - sint y)" by (simp add: sint_word_ariths)
  also have "\<dots> = sint x - sint y" using assms by (intro signed_take_bit_int_eq_self) auto
  finally show ?thesis .
qed

lemma left_less: "near now k \<Longrightarrow> near now t \<Longrightarrow> sint (k - t) = left now k - left now t"
  using sint_diff [of "k - now" "t - now"] by (simp add: near_def left_def)

text \<open>The nodes of the tree are the events with \<open>timer_set\<close>, by their deadlines.\<close>

definition timers_hold :: "u64 \<Rightarrow> timers \<Rightarrow> ptr list \<Rightarrow> bool" where
  "timers_hold now st xs \<longleftrightarrow> rb_holds (tm_tree st) (tm_heap st) xs \<and>
    tr_insert (tm_tree st) = ngx_rbtree_insert_timer_value \<and>
    (\<forall>p \<in> set xs. near now (nd_key (tm_heap st p))) \<and>
    sorted_wrt (\<lambda>a b. left now (nd_key (tm_heap st a)) \<le> left now (nd_key (tm_heap st b))) xs \<and>
    (\<forall>p. tm_set st p \<longleftrightarrow> p \<in> set xs)"

definition timers_ok :: "u64 \<Rightarrow> timers \<Rightarrow> bool" where
  "timers_ok now st \<longleftrightarrow> (\<exists>xs. timers_hold now st xs)"

text \<open>The abstract state: the deadline of each event that has a timer.\<close>

definition armed :: "timers \<Rightarrow> ptr \<Rightarrow> u64 option" where
  "armed st p = (if tm_set st p then Some (nd_key (tm_heap st p)) else None)"

lemma del_timer_hold:
  assumes "timers_hold now st xs" "ev \<in> set xs"
  shows "\<exists>st'. ngx_event_del_timer ev st = Some st' \<and> timers_hold now st' (remove1 ev xs) \<and>
    armed st' = (armed st)(ev := None) \<and> tr_sentinel (tm_tree st') = tr_sentinel (tm_tree st)"
proof -
  have h: "rb_holds (tm_tree st) (tm_heap st) xs" "distinct xs" using assms(1) rb_holds_nodes by (auto simp: timers_hold_def)
  obtain root' H' where r: "ngx_rbtree_delete (tm_tree st) ev (tm_heap st) = Some ((tm_tree st)\<lparr>tr_root := root'\<rparr>, H')"
    "rb_holds ((tm_tree st)\<lparr>tr_root := root'\<rparr>) H' (remove1 ev xs)"
    and k: "\<And>p. p \<noteq> ev \<Longrightarrow> nd_key (H' p) = nd_key (tm_heap st p)"
    using delete_holds [OF h(1) assms(2)] by (auto simp: rb_drop_def)
  let ?st = "st\<lparr>tm_tree := (tm_tree st)\<lparr>tr_root := root'\<rparr>, tm_heap := H', tm_set := (tm_set st)(ev := False)\<rparr>"
  have set: "set (remove1 ev xs) = set xs - {ev}" using h(2) by (simp add: set_remove1_eq)
  have "sorted_wrt (\<lambda>a b. left now (nd_key (H' a)) \<le> left now (nd_key (H' b))) (remove1 ev xs)"
  proof (rule sorted_wrt_mono_rel)
    show "sorted_wrt (\<lambda>a b. left now (nd_key (tm_heap st a)) \<le> left now (nd_key (tm_heap st b))) (remove1 ev xs)"
      using assms(1) h(2) by (simp add: timers_hold_def distinct_remove1_removeAll removeAll_filter_not_eq sorted_wrt_filter)
  qed (use set k in auto)
  then have "timers_hold now ?st (remove1 ev xs)" using assms(1) r(2) set k by (auto simp: timers_hold_def)
  moreover have "armed ?st = (armed st)(ev := None)" using k by (auto simp: armed_def)
  ultimately show ?thesis using r(1) by (simp add: ngx_event_del_timer_def)
qed

lemma arm_timer_hold:
  assumes "timers_hold now st xs" "ev \<notin> set xs" "ev \<noteq> NULL" "ev \<noteq> tr_sentinel (tm_tree st)" "near now key"
  shows "\<exists>st' ys. timer_arm ev key st = Some st' \<and> timers_hold now st' ys \<and>
    armed st' = (armed st)(ev \<mapsto> key) \<and> tr_sentinel (tm_tree st') = tr_sentinel (tm_tree st)"
proof -
  define H where "H = (tm_heap st)(ev := (tm_heap st ev)\<lparr>nd_key := key\<rparr>)"
  let ?lt = "\<lambda>a. sint (nd_key (H ev) - nd_key (H a)) < 0" and ?rank = "\<lambda>a. left now (nd_key (H a))"
  have kH: "nd_key (H ev) = key" "\<And>a. a \<noteq> ev \<Longrightarrow> nd_key (H a) = nd_key (tm_heap st a)" by (simp_all add: H_def)
  have i: "tr_insert (tm_tree st) = ngx_rbtree_insert_timer_value" using assms(1) by (simp add: timers_hold_def)
  have h: "rb_holds (tm_tree st) H xs" unfolding H_def
    by (rule rb_holds_upd [OF _ assms(2,4)]) (use assms(1) in \<open>simp add: timers_hold_def\<close>)
  have so: "sorted_wrt (\<lambda>a b. ?rank a \<le> ?rank b) xs"
  proof (rule sorted_wrt_mono_rel)
    show "sorted_wrt (\<lambda>a b. left now (nd_key (tm_heap st a)) \<le> left now (nd_key (tm_heap st b))) xs"
      using assms(1) by (simp add: timers_hold_def)
  qed (metis assms(2) kH(2))
  have lt: "?lt a \<longleftrightarrow> ?rank ev < ?rank a" if "a \<in> set xs" for a
  proof -
    have "a \<noteq> ev" "near now (nd_key (tm_heap st a))" using that assms(1,2) by (auto simp: timers_hold_def)
    then show ?thesis using kH left_less [OF assms(5), of "nd_key (tm_heap st a)"] by simp
  qed
  from by_timer.insert_holds [OF h i assms(2,4,3) sorted_lt [OF so lt]] obtain root' H' where
    r: "ngx_rbtree_insert (tm_tree st) ev H = Some ((tm_tree st)\<lparr>tr_root := root'\<rparr>, H')"
    "rb_holds ((tm_tree st)\<lparr>tr_root := root'\<rparr>) H' (place ?lt ev xs)" and k: "\<And>p. nd_key (H' p) = nd_key (H p)"
    unfolding rb_frame_def by blast
  let ?st = "st\<lparr>tm_tree := (tm_tree st)\<lparr>tr_root := root'\<rparr>, tm_heap := H', tm_set := (tm_set st)(ev := True)\<rparr>"
  have "sorted_wrt (\<lambda>a b. left now (nd_key (H' a)) \<le> left now (nd_key (H' b))) (place ?lt ev xs)"
    unfolding k by (rule sorted_place [OF so lt])
  moreover have "\<forall>p \<in> set (place ?lt ev xs). near now (nd_key (H' p))" 
    using assms(1,2,5) kH unfolding k by (fastforce simp: timers_hold_def)
  ultimately have "timers_hold now ?st (place ?lt ev xs)" using assms(1) r(2) unfolding timers_hold_def by simp
  moreover have "armed ?st = (armed st)(ev \<mapsto> key)" using kH k by (auto simp: armed_def)
  moreover have "timer_arm ev key st = Some ?st" using r(1) assms(3) by (simp add: timer_arm_def H_def)
  ultimately show ?thesis by (intro exI [of _ ?st] exI) simp
qed

lemma armed_timedout [simp]: "armed (st\<lparr>tm_timedout := x\<rparr>) = armed st"
  by (simp add: armed_def fun_eq_iff)

lemma timers_hold_fire:
  assumes "timers_hold now st xs" "ev \<in> set xs"
  shows "\<exists>st'. timer_fire ev st = Some st' \<and> timers_hold now st' (remove1 ev xs) \<and> armed st' = (armed st)(ev := None) \<and>
    tm_timedout st' = (tm_timedout st)(ev := True) \<and> tr_sentinel (tm_tree st') = tr_sentinel (tm_tree st)"
proof -
  obtain st1 where st1: "ngx_event_del_timer ev st = Some st1" "timers_hold now st1 (remove1 ev xs)"
    "armed st1 = (armed st)(ev := None)" "tr_sentinel (tm_tree st1) = tr_sentinel (tm_tree st)"
    using del_timer_hold [OF assms] by blast
  have td: "tm_timedout st1 = tm_timedout st" using st1(1) by (auto simp: ngx_event_del_timer_def split: bind_splits)
  let ?st = "st1\<lparr>tm_timedout := (tm_timedout st)(ev := True)\<rparr>"
  have "timer_fire ev st = Some ?st" using st1(1)
    by (auto simp: timer_fire_def ngx_event_del_timer_def split: bind_splits)
  moreover have "timers_hold now ?st (remove1 ev xs)" using st1(2) by (simp add: timers_hold_def)
  moreover have "armed ?st = (armed st)(ev := None)" using st1(3) by simp
  ultimately show ?thesis using st1(4) by simp
qed

lemma armed_hold: "timers_hold now st xs \<Longrightarrow> armed st p = (if p \<in> set xs then Some (nd_key (tm_heap st p)) else None)"
  by (simp add: armed_def timers_hold_def)

lemma first_timer:
  assumes "timers_hold now st xs" "xs \<noteq> []"
  shows "tr_root (tm_tree st) \<noteq> tr_sentinel (tm_tree st)"
    "ngx_rbtree_min (tr_root (tm_tree st)) (tr_sentinel (tm_tree st)) (tm_heap st) = Some (hd xs)" "hd xs \<noteq> NULL"
    "\<And>p. p \<in> set xs \<Longrightarrow> left now (nd_key (tm_heap st (hd xs))) \<le> left now (nd_key (tm_heap st p))"
proof -
  have h: "rb_holds (tm_tree st) (tm_heap st) xs" using assms(1) by (simp add: timers_hold_def)
  show "tr_root (tm_tree st) \<noteq> tr_sentinel (tm_tree st)" using root_empty [OF h] assms(2) by simp
  show "ngx_rbtree_min (tr_root (tm_tree st)) (tr_sentinel (tm_tree st)) (tm_heap st) = Some (hd xs)" by (rule min_holds [OF h assms(2)])
  show "hd xs \<noteq> NULL" using rb_holds_nodes [OF h] hd_in_set [OF assms(2)] by metis
  show "left now (nd_key (tm_heap st (hd xs))) \<le> left now (nd_key (tm_heap st p))" if "p \<in> set xs" for p
    using that assms by (cases xs) (auto simp: timers_hold_def)
qed

lemma no_timer: "timers_hold now st [] \<Longrightarrow> tr_root (tm_tree st) = tr_sentinel (tm_tree st)"
  using root_empty [of "tm_tree st" "tm_heap st" "[]"] by (simp add: timers_hold_def)

text \<open>The timer of the event has expired.\<close>

definition due :: "u64 \<Rightarrow> timers \<Rightarrow> ptr \<Rightarrow> bool" where
  "due now st p \<longleftrightarrow> (case armed st p of None \<Rightarrow> False | Some k \<Rightarrow> left now k \<le> 0)"

lemma due_hold: "timers_hold now st xs \<Longrightarrow> due now st p \<longleftrightarrow> p \<in> set xs \<and> left now (nd_key (tm_heap st p)) \<le> 0"
  by (simp add: due_def armed_hold)

lemma sorted_prefix:
  fixes rank :: "'a \<Rightarrow> int"
  shows "sorted_wrt (\<lambda>a b. rank a \<le> rank b) xs \<Longrightarrow> set (takeWhile (\<lambda>a. rank a \<le> 0) xs) = {a \<in> set xs. rank a \<le> 0}"
  by (induction xs) auto

lemma due_prefix:
  assumes "timers_hold now st xs"
  shows "set (takeWhile (due now st) xs) = {p. due now st p}"
proof -
  let ?rank = "\<lambda>p. left now (nd_key (tm_heap st p))"
  have "takeWhile (due now st) xs = takeWhile (\<lambda>p. ?rank p \<le> 0) xs"
    by (intro takeWhile_cong refl) (simp add: due_hold [OF assms])
  then show ?thesis using sorted_prefix [of ?rank xs] assms due_hold [OF assms] by (simp add: timers_hold_def)
qed

lemma expire_done:
  assumes "timers_hold now st xs" "\<And>p. p \<in> set xs \<Longrightarrow> \<not> due now st p"
  shows "ngx_event_expire_timers now handler (w, st) = Some (w, st)"
proof (cases "xs = []")
  case True
  then show ?thesis using no_timer assms(1) by (subst ngx_event_expire_timers.simps) simp
next
  case False
  note f = first_timer [OF assms(1) False]
  have "\<not> sint (nd_key (tm_heap st (hd xs)) - now) \<le> 0"
    using assms(2) [of "hd xs"] False due_hold [OF assms(1)] by (simp add: left_def)
  then show ?thesis using f by (subst ngx_event_expire_timers.simps) (simp add: Let_def)
qed

lemma expire_step:
  assumes "timers_hold now st xs" "p \<in> set xs" "due now st p"
  shows "\<exists>st'. ngx_event_expire_timers now handler (w, st) = ngx_event_expire_timers now handler (handler (hd xs) (w, st')) \<and>
    due now st (hd xs) \<and> timer_fire (hd xs) st = Some st' \<and> timers_hold now st' (tl xs) \<and> armed st' = (armed st)(hd xs := None) \<and>
    tm_timedout st' = (tm_timedout st)(hd xs := True)"
proof -
  have ne: "xs \<noteq> []" using assms(2) by auto
  note f = first_timer [OF assms(1) ne]
  have d: "due now st (hd xs)" using f(4) [OF assms(2)] assms(3) ne due_hold [OF assms(1)] by simp
  then have "sint (nd_key (tm_heap st (hd xs)) - now) \<le> 0" using due_hold [OF assms(1)] by (simp add: left_def)
  moreover have "remove1 (hd xs) xs = tl xs" using ne by (cases xs) auto
  ultimately show ?thesis using timers_hold_fire [OF assms(1), of "hd xs"] ne d f
    by (subst ngx_event_expire_timers.simps) (auto simp: Let_def)
qed



lemma near_add:
  assumes "timer < 0x4000000000000000"
  shows "near now (now + timer) \<and> left now (now + timer) = int (unat timer)"
proof -
  have u: "uint timer < 2 ^ 62" using assms by (simp add: word_less_def)
  have "sint timer = signed_take_bit 63 (uint timer)" by (simp add: sint_uint)
  also have "\<dots> = uint timer" by (rule signed_take_bit_int_eq_self) (use u in \<open>auto intro: order_trans [OF _ uint_ge_0]\<close>)
  finally show ?thesis using u by (simp add: near_def left_def)
qed

lemma abs_small:
  assumes "near now key" "near now k"
  shows "sint (ngx_abs (key - k)) = \<bar>left now key - left now k\<bar>"
proof -
  have l: "sint (key - k) = left now key - left now k" "sint (k - key) = left now k - left now key"
    using left_less assms by blast+
  then show ?thesis by (auto simp: ngx_abs_def)
qed

lemma add_timer_ok:
  assumes "timers_ok now st" and "ev \<noteq> NULL" and "ev \<noteq> tr_sentinel (tm_tree st)" and "timer < 0x4000000000000000"
  shows "\<exists>st' k. ngx_event_add_timer now ev timer st = Some st' \<and> timers_ok now st' \<and>
    armed st' = (armed st)(ev \<mapsto> k) \<and>
    (k = now + timer \<or> armed st ev = Some k \<and> \<bar>left now k - int (unat timer)\<bar> < 300)"
proof -
  obtain xs where xs: "timers_hold now st xs" using assms(1) by (auto simp: timers_ok_def)
  note key = near_add [OF assms(4), of now]
  have arm: "\<exists>st'. timer_arm ev (now + timer) st1 = Some st' \<and> timers_ok now st' \<and> armed st' = (armed st1)(ev \<mapsto> now + timer)"
    if "timers_hold now st1 ys" "ev \<notin> set ys" "tr_sentinel (tm_tree st1) = tr_sentinel (tm_tree st)" for st1 ys
    using arm_timer_hold [OF that(1,2) assms(2), of "now + timer"] assms(3) that(3) key by (auto simp: timers_ok_def)
  show ?thesis
  proof (cases "tm_set st ev")
    case False
    then have "ev \<notin> set xs" using xs by (simp add: timers_hold_def)
    then show ?thesis using arm [OF xs] False by (auto simp: ngx_event_add_timer_def Let_def)
  next
    case True
    let ?k = "nd_key (tm_heap st ev)"
    have ev: "ev \<in> set xs" "near now ?k" "armed st ev = Some ?k" using True xs by (auto simp: timers_hold_def armed_def)
    show ?thesis
    proof (cases "sint (ngx_abs (now + timer - ?k)) < 300")
      case small: True
      then have "ngx_event_add_timer now ev timer st = Some st" using True assms(2) by (simp add: ngx_event_add_timer_def Let_def)
      moreover have "\<bar>left now ?k - int (unat timer)\<bar> < 300" using small abs_small [of now "now + timer" ?k] key ev(2) by simp
      moreover have "armed st = (armed st)(ev \<mapsto> ?k)" using ev(3) by auto
      ultimately show ?thesis using assms(1) ev(3) by blast
    next
      case large: False
      obtain st1 where st1: "ngx_event_del_timer ev st = Some st1" "timers_hold now st1 (remove1 ev xs)" "armed st1 = (armed st)(ev := None)"
        "tr_sentinel (tm_tree st1) = tr_sentinel (tm_tree st)" using del_timer_hold [OF xs ev(1)] by blast
      have "ev \<notin> set (remove1 ev xs)" using rb_holds_nodes [of "tm_tree st" "tm_heap st" xs] xs by (auto simp: timers_hold_def)
      from arm [OF st1(2) this st1(4)] show ?thesis using True large st1(1,3) assms(2)
        by (auto simp: ngx_event_add_timer_def Let_def)
    qed
  qed
qed

text \<open>What happens to the timers in the event loop, in any order: the initialisation, additions and deletions
  by handlers, an expired timer fires, time passes.\<close>

inductive timer_reach :: "ptr \<Rightarrow> u64 \<Rightarrow> timers \<Rightarrow> bool" for s where
  reach_init: "s \<noteq> NULL \<Longrightarrow> tm_set st0 = (\<lambda>_. False) \<Longrightarrow> ngx_event_timer_init s st0 = Some st \<Longrightarrow> timer_reach s now st"
| reach_add: "timer_reach s now st \<Longrightarrow> ev \<noteq> NULL \<Longrightarrow> ev \<noteq> s \<Longrightarrow> timer < 0x4000000000000000 \<Longrightarrow>
    ngx_event_add_timer now ev timer st = Some st' \<Longrightarrow> timer_reach s now st'"
| reach_del: "timer_reach s now st \<Longrightarrow> tm_set st ev \<Longrightarrow> ngx_event_del_timer ev st = Some st' \<Longrightarrow> timer_reach s now st'"
| reach_fire: "timer_reach s now st \<Longrightarrow> tm_set st ev \<Longrightarrow> timer_fire ev st = Some st' \<Longrightarrow> timer_reach s now st'"
| reach_tick: "timer_reach s now st \<Longrightarrow> \<forall>p k. armed st p = Some k \<longrightarrow> near now' k \<Longrightarrow> timer_reach s now' st"

inductive_cases timer_reachE: "timer_reach s now st"

lemma add_sentinel:
  assumes "ngx_event_add_timer now ev timer st = Some st'" 
  shows "tr_sentinel (tm_tree st') = tr_sentinel (tm_tree st)"
proof -
  have i: "tr_sentinel (fst r) = tr_sentinel tree" if "ngx_rbtree_insert tree n H = Some r" for tree n H r
    using that by (auto simp: ngx_rbtree_insert_def Let_def split: bind_splits if_splits)
  have d: "tr_sentinel (fst r) = tr_sentinel tree" if "ngx_rbtree_delete tree n H = Some r" for tree n H r
    using that by (auto simp: ngx_rbtree_delete_def Let_def split: bind_splits if_splits)
  show ?thesis using assms
    by (auto simp: ngx_event_add_timer_def timer_arm_def ngx_event_del_timer_def Let_def dest!: i d split: bind_splits if_splits)
qed

section \<open>Properties\<close>

text \<open>One timer, for the examples.\<close>

definition timers_one :: timers where
  "timers_one = \<lparr>tm_tree = \<lparr>tr_root = 2, tr_sentinel = 1, tr_insert = ngx_rbtree_insert_timer_value\<rparr>,
     tm_heap = (\<lambda>_. \<lparr>nd_key = 1000, nd_left = 1, nd_right = 1, nd_parent = 0, nd_color = 0\<rparr>),
     tm_set = (\<lambda>p. p = 2), tm_timedout = (\<lambda>_. False)\<rparr>"

lemma left_one: "left 400 1000 = 600" "left 2000 1000 = - 1000" "near 400 1000" "near 2000 1000"
  by (simp_all add: left_def near_def)

lemma timers_one_hold: "near now 1000 \<Longrightarrow> timers_hold now timers_one [2]"
proof -
  assume "near now 1000"
  moreover have "rb_holds (tm_tree timers_one) (tm_heap timers_one) [2]"
    unfolding rb_holds_def
    by (rule exI [of _ 0], rule exI [of _ "Nd False Lf 2 Lf"])
      (auto simp: timers_one_def tree_at_def node_is_def rbinv_def intro!: exI [of _ 1])
  ultimately show ?thesis by (simp add: timers_hold_def) (simp add: timers_one_def)
qed

lemma timers_one_ok: "timers_ok 400 timers_one" "timers_ok 2000 timers_one"
  using timers_one_hold left_one(3,4) unfolding timers_ok_def by blast+

lemma armed_one: "armed timers_one = [2 \<mapsto> 1000]"
  by (auto simp: armed_def timers_one_def)

text \<open>The invariant of the reachable states.\<close>

lemma timers_reach_ok:
  assumes "timer_reach s now st"
  shows "timers_ok now st \<and> tr_sentinel (tm_tree st) = s"
  using assms
proof induction
  case (reach_init st0 st now)
  then obtain H' where "st = st0\<lparr>tm_tree := \<lparr>tr_root = s, tr_sentinel = s, tr_insert = ngx_rbtree_insert_timer_value\<rparr>, tm_heap := H'\<rparr>"
    "rb_holds \<lparr>tr_root = s, tr_sentinel = s, tr_insert = ngx_rbtree_insert_timer_value\<rparr> H' []"
    using init_holds [OF reach_init(1), of ngx_rbtree_insert_timer_value "tm_heap st0"] by (auto simp: ngx_event_timer_init_def)
  then have "timers_hold now st []" using reach_init(2) by (simp add: timers_hold_def)
  then show ?case using \<open>st = _\<close> by (auto simp: timers_ok_def)
next
  case (reach_add now st ev timer st')
  then show ?case using add_timer_ok [of now st ev timer] add_sentinel [of now ev timer st st'] by auto
next
  case (reach_del now st ev st')
  then obtain xs where "timers_hold now st xs" "ev \<in> set xs" by (auto simp: timers_ok_def timers_hold_def)
  then show ?case using del_timer_hold [of now st xs ev] reach_del by (auto simp: timers_ok_def)
next
  case (reach_fire now st ev st')
  then obtain xs where "timers_hold now st xs" "ev \<in> set xs" by (auto simp: timers_ok_def timers_hold_def)
  then show ?case using timers_hold_fire [of now st xs ev] reach_fire by (auto simp: timers_ok_def)
next
  case (reach_tick now st now')
  then obtain xs where xs: "timers_hold now st xs" by (auto simp: timers_ok_def)
  let ?k = "\<lambda>p. nd_key (tm_heap st p)"
  have n: "near now' (?k p)" "near now (?k p)" if "p \<in> set xs" for p
    using that reach_tick(2) xs armed_hold [OF xs, of p] by (auto simp: timers_hold_def)
  have "sorted_wrt (\<lambda>a b. left now' (?k a) \<le> left now' (?k b)) xs"
  proof (rule sorted_wrt_mono_rel)
    show "sorted_wrt (\<lambda>a b. left now (?k a) \<le> left now (?k b)) xs" using xs by (simp add: timers_hold_def)
  next
    fix a b assume "a \<in> set xs" "b \<in> set xs" "left now (?k a) \<le> left now (?k b)"
    then show "left now' (?k a) \<le> left now' (?k b)"
      using left_less [of now "?k a" "?k b"] left_less [of now' "?k a" "?k b"] n by fastforce
  qed
  then have "timers_hold now' st xs" using xs n by (simp add: timers_hold_def)
  then show ?case using reach_tick by (auto simp: timers_ok_def)
qed

text \<open>
  \<open>ngx_event_add_timer\<close> arms the event for \<open>now + timer\<close>, or leaves the deadline it had when that one differs by
  less than 300 milliseconds, and changes no other timer.
\<close>

theorem add_timer_deadline:
  assumes "timers_ok now st" and "ev \<noteq> NULL" and "ev \<noteq> tr_sentinel (tm_tree st)" and "timer < 0x4000000000000000"
  shows "\<exists>st' k. ngx_event_add_timer now ev timer st = Some st' \<and> timers_ok now st' \<and>
    armed st' = (armed st)(ev \<mapsto> k) \<and>
    (k = now + timer \<or> armed st ev = Some k \<and> \<bar>left now k - int (unat timer)\<bar> < 300)"
  using add_timer_ok [OF assms] .

theorem add_timer_deadline_witness:
  "\<exists>st' k. ngx_event_add_timer 400 3 50 timers_one = Some st' \<and> timers_ok 400 st' \<and> armed st' = [2 \<mapsto> 1000, 3 \<mapsto> k] \<and> k = 450"
  using add_timer_deadline [OF timers_one_ok(1), of 3 50] by (auto simp: armed_one) (simp add: timers_one_def)

text \<open>
  \<open>ngx_event_find_timer\<close> gives the time until the first deadline, zero when it has passed, and
  \<open>NGX_TIMER_INFINITE\<close> when there is no timer.
\<close>

theorem find_timer_min:
  assumes "timers_ok now st"
  shows "\<exists>r. ngx_event_find_timer now st = Some r \<and>
    (if \<forall>p. armed st p = None then r = - 1
     else (\<exists>p k. armed st p = Some k \<and> sint r = max 0 (left now k)) \<and>
       (\<forall>p k. armed st p = Some k \<longrightarrow> sint r \<le> max 0 (left now k)))"
proof -
  obtain xs where xs: "timers_hold now st xs" using assms by (auto simp: timers_ok_def)
  show ?thesis
  proof (cases "xs = []")
    case True
    then show ?thesis using xs no_timer by (auto simp: ngx_event_find_timer_def armed_hold)
  next
    case False
    note f = first_timer [OF xs False]
    let ?k = "nd_key (tm_heap st (hd xs))"
    have a: "armed st (hd xs) = Some ?k" using armed_hold [OF xs] False by simp
    have "ngx_event_find_timer now st = Some (if sint (?k - now) > 0 then ?k - now else 0)"
      using f by (simp add: ngx_event_find_timer_def Let_def)
    moreover have "sint (if sint (?k - now) > 0 then ?k - now else 0) = max 0 (left now ?k)" by (simp add: left_def)
    moreover have "max 0 (left now ?k) \<le> max 0 (left now k)" if "armed st p = Some k" for p k
      using that f(4) [of p] armed_hold [OF xs] by (auto split: if_splits)
    ultimately show ?thesis using a by (auto simp del: max.absorb1 max.absorb2) 
  qed
qed

theorem find_timer_min_witness: "\<exists>r. ngx_event_find_timer 400 timers_one = Some r \<and> sint r = 600"
  using find_timer_min [OF timers_one_ok(1)] by (auto simp: armed_one left_one split: if_splits)

text \<open>
  C28. In every state that the event loop can reach, the tree of the timers is sorted by the time left and holds
  exactly the events whose \<open>timer_set\<close> is set, whatever the order of the steps and however the counter of
  milliseconds wraps around (deadlines less than \<open>2 ^ 62\<close> milliseconds away); and there every operation
  returns, so that no step is stuck: adding a timer with less than \<open>2 ^ 62\<close> milliseconds for any event, deleting
  or firing one that is set, and finding the next deadline.
\<close>

theorem timers_reachable:
  assumes "timer_reach s now st"
  shows "timers_ok now st \<and> tr_sentinel (tm_tree st) = s \<and>
    (\<forall>ev timer. ev \<noteq> NULL \<and> ev \<noteq> s \<and> timer < 0x4000000000000000 \<longrightarrow>
      (\<exists>st' k. ngx_event_add_timer now ev timer st = Some st' \<and> armed st' = (armed st)(ev \<mapsto> k) \<and>
        (k = now + timer \<or> armed st ev = Some k \<and> \<bar>left now k - int (unat timer)\<bar> < 300))) \<and>
    (\<forall>ev. tm_set st ev \<longrightarrow>
      (\<exists>st'. ngx_event_del_timer ev st = Some st' \<and> armed st' = (armed st)(ev := None)) \<and>
      (\<exists>st'. timer_fire ev st = Some st' \<and> armed st' = (armed st)(ev := None) \<and> tm_timedout st' ev)) \<and>
    (\<exists>r. ngx_event_find_timer now st = Some r)"
proof -
  note r = timers_reach_ok [OF assms]
  then obtain xs where xs: "timers_hold now st xs" by (auto simp: timers_ok_def)
  have "\<exists>st' k. ngx_event_add_timer now ev timer st = Some st' \<and> armed st' = (armed st)(ev \<mapsto> k) \<and>
      (k = now + timer \<or> armed st ev = Some k \<and> \<bar>left now k - int (unat timer)\<bar> < 300)"
    if "ev \<noteq> NULL \<and> ev \<noteq> s \<and> timer < 0x4000000000000000" for ev timer
    using add_timer_ok [of now st ev timer] r that by blast
  moreover have "(\<exists>st'. ngx_event_del_timer ev st = Some st' \<and> armed st' = (armed st)(ev := None)) \<and>
      (\<exists>st'. timer_fire ev st = Some st' \<and> armed st' = (armed st)(ev := None) \<and> tm_timedout st' ev)"
    if "tm_set st ev" for ev
  proof -
    have ev: "ev \<in> set xs" using xs that by (simp add: timers_hold_def)
    obtain st1 st2 where "ngx_event_del_timer ev st = Some st1" "armed st1 = (armed st)(ev := None)"
      "timer_fire ev st = Some st2" "armed st2 = (armed st)(ev := None)" "tm_timedout st2 = (tm_timedout st)(ev := True)"
      using del_timer_hold [OF xs ev] timers_hold_fire [OF xs ev] by blast
    then show ?thesis by simp
  qed
  moreover have "\<exists>r. ngx_event_find_timer now st = Some r" using find_timer_min [of now st] r by blast
  ultimately show ?thesis using r by blast
qed

text \<open>Two timers are added to the empty tree and one of them is deleted again.\<close>

theorem timers_reachable_witness:
  "\<exists>st0 st1 st2 st3. ngx_event_add_timer 400 2 600 st0 = Some st1 \<and> ngx_event_add_timer 400 3 50 st1 = Some st2 \<and>
    armed st2 = [2 \<mapsto> 1000, 3 \<mapsto> 450] \<and> timers_ok 400 st2 \<and>
    ngx_event_del_timer 2 st2 = Some st3 \<and> armed st3 = [3 \<mapsto> 450] \<and> timers_ok 400 st3"
proof -
  obtain st0 where st0: "ngx_event_timer_init 1 (timers_one\<lparr>tm_set := \<lambda>_. False\<rparr>) = Some st0"
    using init_holds [of 1 ngx_rbtree_insert_timer_value "tm_heap timers_one"] by (auto simp: ngx_event_timer_init_def)
  then have a0: "armed st0 = Map.empty" by (auto simp: ngx_event_timer_init_def armed_def fun_eq_iff split: bind_splits)
  have r0: "timer_reach 1 400 st0" by (rule timer_reach.reach_init [OF _ _ st0]) simp_all
  obtain st1 where s1: "ngx_event_add_timer 400 2 600 st0 = Some st1" "armed st1 = [2 \<mapsto> 1000]"
    using timers_reachable [OF r0, THEN conjunct2, THEN conjunct2, THEN conjunct1, rule_format, of 2 600] a0 by auto
  have r1: "timer_reach 1 400 st1" by (rule timer_reach.reach_add [OF r0 _ _ _ s1(1)]) simp_all
  obtain st2 where s2: "ngx_event_add_timer 400 3 50 st1 = Some st2" "armed st2 = [2 \<mapsto> 1000, 3 \<mapsto> 450]"
    using timers_reachable [OF r1, THEN conjunct2, THEN conjunct2, THEN conjunct1, rule_format, of 3 50] s1(2) by auto
  have r2: "timer_reach 1 400 st2" by (rule timer_reach.reach_add [OF r1 _ _ _ s2(1)]) simp_all
  have set2: "tm_set st2 2" using fun_cong [OF s2(2), of 2] by (simp add: armed_def split: if_splits)
  then obtain st3 where s3: "ngx_event_del_timer 2 st2 = Some st3" "armed st3 = (armed st2)(2 := None)"
    using timers_reachable [OF r2] by blast
  have r3: "timer_reach 1 400 st3" by (rule timer_reach.reach_del [OF r2 set2 s3(1)])
  have "armed st3 = [3 \<mapsto> 450]" using s3(2) s2(2) by (auto simp: fun_eq_iff)
  then show ?thesis using s1(1) s2 s3(1) timers_reachable [OF r2] timers_reachable [OF r3] by blast
qed

text \<open>
  C29. \<open>ngx_event_expire_timers\<close> returns and leaves no expired timer, provided that the handlers keep the timers
  consistent and arm no timer that is expired already.
\<close>

theorem expire_timers_done:
  assumes "\<And>ev w st. timers_ok now st \<Longrightarrow> timers_ok now (snd (handler ev (w, st)))"
    and "\<And>ev w st p. timers_ok now st \<Longrightarrow> due now (snd (handler ev (w, st))) p \<Longrightarrow> due now st p"
    and "timers_ok now st"
  shows "\<exists>w' st'. ngx_event_expire_timers now handler (w, st) = Some (w', st') \<and> timers_ok now st' \<and> (\<forall>p. \<not> due now st' p)"
  using assms(3)
proof (induction "card {p. due now st p}" arbitrary: w st rule: less_induct)
  case less
  obtain xs where xs: "timers_hold now st xs" using less(2) by (auto simp: timers_ok_def)
  have fin: "finite {p. due now st p}" using due_hold [OF xs] by simp
  show ?case
  proof (cases "\<exists>p. due now st p")
    case False
    then have "ngx_event_expire_timers now handler (w, st) = Some (w, st)" by (intro expire_done [OF xs]) simp
    then show ?thesis using less(2) False by simp
  next
    case True
    then obtain p where p: "p \<in> set xs" "due now st p" using due_hold [OF xs] by auto
    obtain st1 where st1: "ngx_event_expire_timers now handler (w, st) = ngx_event_expire_timers now handler (handler (hd xs) (w, st1))"
      "due now st (hd xs)" "timers_hold now st1 (tl xs)" "armed st1 = (armed st)(hd xs := None)" using expire_step [OF xs p, of handler w] by blast
    have ok1: "timers_ok now st1" using st1(3) by (auto simp: timers_ok_def)
    obtain w2 st2 where h: "handler (hd xs) (w, st1) = (w2, st2)" by (cases "handler (hd xs) (w, st1)")
    have "{p. due now st2 p} \<subseteq> {p. due now st1 p}" using assms(2) [OF ok1, of "hd xs" w] unfolding h snd_conv by blast
    also have "{p. due now st1 p} = {p. due now st p} - {hd xs}" using st1(4) by (auto simp: due_def)
    also have "\<dots> \<subset> {p. due now st p}" using st1(2) by blast
    finally have "card {p. due now st2 p} < card {p. due now st p}" using fin by (simp add: psubset_card_mono)
    moreover have "timers_ok now st2" using assms(1) [OF ok1, of "hd xs" w] h by simp
    ultimately show ?thesis unfolding st1(1) h by (rule less(1))
  qed
qed

theorem expire_timers_done_witness:
  "\<exists>w' st'. ngx_event_expire_timers 2000 (\<lambda>ev (w, st). (w @ [ev], st)) ([], timers_one) = Some (w', st') \<and>
    timers_ok 2000 st' \<and> (\<forall>p. \<not> due 2000 st' p)"
  by (rule expire_timers_done) (auto simp: timers_one_ok)

text \<open>
  A handler with a log of the calls: the event, and its flags \<open>timedout\<close> and \<open>timer_set\<close> when the handler is called.
\<close>

definition logged ::
  "(ptr \<Rightarrow> 'w \<times> timers \<Rightarrow> 'w \<times> timers) \<Rightarrow> ptr \<Rightarrow>
   ((ptr \<times> bool \<times> bool) list \<times> 'w) \<times> timers \<Rightarrow> ((ptr \<times> bool \<times> bool) list \<times> 'w) \<times> timers" where
  "logged handler ev x =
    (case x of ((calls, w), st) \<Rightarrow> case handler ev (w, st) of
       (w', st') \<Rightarrow> ((calls @ [(ev, tm_timedout st ev, tm_set st ev)], w'), st'))"

text \<open>What the order of the calls requires of a handler: it leaves the expired timers as they are.\<close>

definition keeps_expired :: "u64 \<Rightarrow> (ptr \<Rightarrow> 'w \<times> timers \<Rightarrow> 'w \<times> timers) \<Rightarrow> bool" where
  "keeps_expired now handler \<longleftrightarrow>
    (\<forall>ev w st xs. timers_hold now st xs \<longrightarrow>
      (\<exists>ys. timers_hold now (snd (handler ev (w, st))) ys \<and>
        takeWhile (due now (snd (handler ev (w, st)))) ys = takeWhile (due now st) xs))"

lemma expire_log:
  assumes "keeps_expired now handler" "timers_hold now st xs"
  shows "\<exists>w' st' ys. ngx_event_expire_timers now (logged handler) ((calls, w), st) =
      Some ((calls @ map (\<lambda>ev. (ev, True, False)) (takeWhile (due now st) xs), w'), st') \<and>
    timers_hold now st' ys \<and> takeWhile (due now st') ys = [] \<and>
    ((\<forall>ev w st. snd (handler ev (w, st)) = st) \<longrightarrow> (\<forall>p. armed st' p = (if due now st p then None else armed st p)))"
  using assms(2)
proof (induction "takeWhile (due now st) xs" arbitrary: calls w st xs)
  case Nil
  have none: "\<not> due now st p" for p using due_prefix [OF Nil.prems] Nil.hyps by auto
  have "ngx_event_expire_timers now (logged handler) ((calls, w), st) = Some ((calls, w), st)"
    using none by (intro expire_done [OF Nil.prems]) simp
  then show ?case using Nil none by (intro exI [of _ w] exI [of _ st] exI [of _ xs]) auto
next
  case (Cons x zs)
  then obtain xs' where xs: "xs = x # xs'" and dx: "due now st x" and zs: "zs = takeWhile (due now st) xs'"
    by (cases xs) (auto split: if_splits)
  obtain st1 where st1: "ngx_event_expire_timers now (logged handler) ((calls, w), st) =
      ngx_event_expire_timers now (logged handler) (logged handler x ((calls, w), st1))"
    "timers_hold now st1 xs'" "armed st1 = (armed st)(x := None)" "tm_timedout st1 = (tm_timedout st)(x := True)"
    using expire_step [OF Cons.prems, of x "logged handler" "(calls, w)"] dx xs by auto
  have x: "x \<notin> set xs'" using Cons.prems xs rb_holds_nodes by (fastforce simp: timers_hold_def)
  have d: "due now st1 p \<longleftrightarrow> due now st p \<and> p \<noteq> x" for p using st1(3) by (simp add: due_def)
  have tw: "takeWhile (due now st1) xs' = zs"
    unfolding zs using x d by (auto intro!: takeWhile_cong)
  obtain w2 st2 where h: "handler x (w, st1) = (w2, st2)" by (cases "handler x (w, st1)")
  obtain ys where ys: "timers_hold now st2 ys" "takeWhile (due now st2) ys = zs"
    using assms(1) st1(2) h tw unfolding keeps_expired_def by (metis snd_conv)
  have "\<not> tm_set st1 x" using st1(2) x by (simp add: timers_hold_def)
  then have log: "logged handler x ((calls, w), st1) = ((calls @ [(x, True, False)], w2), st2)"
    using st1(4) h by (simp add: logged_def)
  from Cons.hyps(1) [OF ys(2) [symmetric] ys(1), of "calls @ [(x, True, False)]" w2] obtain w' st' ys' where
    IH: "ngx_event_expire_timers now (logged handler) ((calls @ [(x, True, False)], w2), st2) =
      Some (((calls @ [(x, True, False)]) @ map (\<lambda>ev. (ev, True, False)) zs, w'), st')"
    "timers_hold now st' ys'" "takeWhile (due now st') ys' = []"
    "(\<forall>ev w st. snd (handler ev (w, st)) = st) \<longrightarrow> (\<forall>p. armed st' p = (if due now st2 p then None else armed st2 p))"
    unfolding ys(2) by blast
  have "\<forall>p. armed st' p = (if due now st p then None else armed st p)"
    if keep: "\<forall>ev w st. snd (handler ev (w, st)) = st"
  proof -
    have e: "st2 = st1" using keep h by (metis snd_conv)
    show ?thesis using IH(4) keep dx d st1(3) unfolding e by auto
  qed
  then show ?case using st1(1) log IH(1-3) unfolding Cons.hyps(2) [symmetric]
    by (intro exI [of _ w'] exI [of _ st'] exI [of _ ys']) auto
qed

text \<open>
  C30. The order of the calls, for handlers that keep the expired timers as they are (they may do anything to
  the others and to the rest of the state; the counter does not advance during the loop): the handlers are
  called for exactly the expired timers, each once, in the order of their deadlines, and at each call
  \<open>timedout\<close> of the event is set and \<open>timer_set\<close> is cleared; the loop returns and no expired timer is left.  With
  handlers that leave all timers alone, exactly the timers that had not expired are left, with their deadlines.
\<close>

theorem expire_timers_order:
  assumes "keeps_expired now handler" "timers_ok now st"
  shows "\<exists>evs w' st'. ngx_event_expire_timers now (logged handler) (([], w), st) =
      Some ((map (\<lambda>ev. (ev, True, False)) evs, w'), st') \<and>
    distinct evs \<and> set evs = {p. due now st p} \<and>
    sorted_wrt (\<lambda>a b. left now (the (armed st a)) \<le> left now (the (armed st b))) evs \<and>
    timers_ok now st' \<and> (\<forall>p. \<not> due now st' p) \<and>
    ((\<forall>ev w st. snd (handler ev (w, st)) = st) \<longrightarrow> armed st' = (\<lambda>p. if due now st p then None else armed st p))"
proof -
  obtain xs where xs: "timers_hold now st xs" using assms(2) by (auto simp: timers_ok_def)
  let ?evs = "takeWhile (due now st) xs"
  obtain w' st' ys where r: "ngx_event_expire_timers now (logged handler) (([], w), st) =
      Some ((map (\<lambda>ev. (ev, True, False)) ?evs, w'), st')" "timers_hold now st' ys" "takeWhile (due now st') ys = []"
    "(\<forall>ev w st. snd (handler ev (w, st)) = st) \<longrightarrow> (\<forall>p. armed st' p = (if due now st p then None else armed st p))"
    using expire_log [OF assms(1) xs, of "[]" w] unfolding append_Nil by blast
  have "distinct ?evs" using xs rb_holds_nodes by (auto simp: timers_hold_def)
  moreover have "set ?evs = {p. due now st p}" by (rule due_prefix [OF xs])
  moreover have "sorted_wrt (\<lambda>a b. left now (the (armed st a)) \<le> left now (the (armed st b))) ?evs"
  proof (rule sorted_wrt_mono_rel)
    show "sorted_wrt (\<lambda>a b. left now (nd_key (tm_heap st a)) \<le> left now (nd_key (tm_heap st b))) ?evs"
      using xs takeWhile_dropWhile_id [of "due now st" xs] unfolding timers_hold_def by (metis sorted_wrt_append)
  qed (auto simp: armed_hold [OF xs] dest!: set_takeWhileD)
  moreover have "\<not> due now st' p" for p using due_prefix [OF r(2)] r(3) by auto
  moreover have "timers_ok now st'" using r(2) by (auto simp: timers_ok_def)
  ultimately show ?thesis using r(1,4) by (intro exI [of _ ?evs] exI [of _ w'] exI [of _ st']) (auto simp: fun_eq_iff)
qed

theorem expire_timers_order_witness:
  "\<exists>w' st'. ngx_event_expire_timers 2000 (logged (\<lambda>ev (w, st). (ev # w, st))) (([], []), timers_one) =
      Some (([(2, True, False)], w'), st') \<and> armed st' = Map.empty"
proof -
  let ?h = "\<lambda>ev (w, st). (ev # w, st)"
  have d: "due 2000 timers_one = (\<lambda>p. p = 2)" by (simp add: fun_eq_iff due_def armed_one left_one)
  have k: "keeps_expired 2000 ?h" by (auto simp: keeps_expired_def)
  obtain evs w' st' where r: "ngx_event_expire_timers 2000 (logged ?h) (([], []), timers_one) =
      Some ((map (\<lambda>ev. (ev, True, False)) evs, w'), st')" "distinct evs" "set evs = {p. due 2000 timers_one p}"
    "armed st' = (\<lambda>p. if due 2000 timers_one p then None else armed timers_one p)"
    using expire_timers_order [OF k timers_one_ok(2), of "[]"] by auto
  have evs: "evs = [2]" using r(2,3) unfolding d by (cases evs; cases "tl evs") auto
  have "armed st' = Map.empty" using r(4) unfolding d by (auto simp: armed_one fun_eq_iff)
  then show ?thesis using r(1) evs by auto
qed

end
