(* ===== verification/Ngx_Palloc.thy ===== *)
theory Ngx_Palloc
  imports Ngx_Prelude "HOL-Library.Monad_Syntax" "HOL-Library.Multiset"
begin

text \<open>
  The memory pools of \<^verbatim>\<open>src/core/ngx_palloc.c\<close>, with the allocator \<^verbatim>\<open>src/os/unix/ngx_alloc.c\<close> below them and the free
  chain links of \<^verbatim>\<open>src/core/ngx_buf.c\<close> that live in them.  A pool is a chain of blocks, a list of large allocations, a
  list of cleanups and a list of free links, all of them structures inside of the memory that is managed.

  A value \<open>None\<close> of a function is an access outside of the memory in use, \<open>free\<close> of a pointer that was not
  allocated, or a call that does not return.  Addresses and sizes are natural numbers; the subtraction that may
  wrap around in \<open>size_t\<close> is written out.

  This theory has the functions, the invariant, and what creation and each kind of allocation do to it; the
  other operations and the pools in use are in \<^verbatim>\<open>Ngx_Pool\<close>.
\<close>

section \<open>The functions\<close>

text \<open>The structures of \<^verbatim>\<open>ngx_palloc.h\<close> and \<open>ngx_chain_t\<close>.  The header of a pool, \<open>ngx_pool_t\<close>, is the data of its first block
  and the record \<open>ngx_pool\<close>, without the log.\<close>

record ngx_pool_data =
  d_last :: ptr
  d_end :: ptr
  d_next :: ptr
  d_failed :: ngx_uint

record ngx_pool =
  h_max :: nat
  h_current :: ptr
  h_chain :: ptr
  h_large :: ptr
  h_cleanup :: ptr

record ngx_pool_large =
  l_next :: ptr
  l_alloc :: ptr

datatype ngx_pool_cleanup_pt = No_handler | Ngx_pool_cleanup_file | Ngx_pool_delete_file | Handler nat

record ngx_pool_cleanup =
  c_handler :: ngx_pool_cleanup_pt
  c_data :: ptr
  c_next :: ptr

record ngx_chain =
  ch_buf :: ptr
  ch_next :: ptr

text \<open>The memory: what the operating system has given out and not got back, the bytes, and for each address the
  structure that lies there.  A write to a structure is not seen in the bytes; that no structure overlaps another
  one or what the user holds is shown in \<^verbatim>\<open>Ngx_Pool\<close> (\<open>pool_structs_apart\<close>), so no byte of the user is concerned.  \<open>st_fd\<close> is the field
  \<open>fd\<close> of an \<open>ngx_pool_cleanup_file_t\<close>.\<close>

type_synonym region = "ptr \<times> nat"

record pool_mem =
  live :: "region list"
  ram :: "ptr \<Rightarrow> byte"
  st_d :: "ptr \<Rightarrow> ngx_pool_data"
  st_h :: "ptr \<Rightarrow> ngx_pool"
  st_large :: "ptr \<Rightarrow> ngx_pool_large"
  st_cleanup :: "ptr \<Rightarrow> ngx_pool_cleanup"
  st_chain :: "ptr \<Rightarrow> ngx_chain"
  st_fd :: "ptr \<Rightarrow> int"

text \<open>The parameters: \<open>malloc\<close> and \<open>posix_memalign\<close>, as functions of the regions in use, and the page size.\<close>

record os_env =
  os_malloc :: "region list \<Rightarrow> nat \<Rightarrow> ptr"
  os_memalign :: "region list \<Rightarrow> nat \<Rightarrow> nat \<Rightarrow> ptr"
  os_pagesize :: nat

text \<open>An access outside of the memory in use is the value \<open>None\<close>.\<close>

definition in_live :: "pool_mem \<Rightarrow> ptr \<Rightarrow> nat \<Rightarrow> bool" where
  "in_live s a n = (\<exists>r\<in>set (live s). fst r \<le> a \<and> a + n \<le> fst r + snd r)"

definition get_d :: "ptr \<Rightarrow> pool_mem \<Rightarrow> ngx_pool_data option" where
  "get_d p s = (if in_live s p 32 then Some (st_d s p) else None)"

definition put_d :: "ptr \<Rightarrow> (ngx_pool_data \<Rightarrow> ngx_pool_data) \<Rightarrow> pool_mem \<Rightarrow> pool_mem option" where
  "put_d p f s = (if in_live s p 32 then Some (s\<lparr>st_d := (st_d s)(p := f (st_d s p))\<rparr>) else None)"

definition get_h :: "ptr \<Rightarrow> pool_mem \<Rightarrow> ngx_pool option" where
  "get_h p s = (if in_live s p 80 then Some (st_h s p) else None)"

definition put_h :: "ptr \<Rightarrow> (ngx_pool \<Rightarrow> ngx_pool) \<Rightarrow> pool_mem \<Rightarrow> pool_mem option" where
  "put_h p f s = (if in_live s p 80 then Some (s\<lparr>st_h := (st_h s)(p := f (st_h s p))\<rparr>) else None)"

definition get_large :: "ptr \<Rightarrow> pool_mem \<Rightarrow> ngx_pool_large option" where
  "get_large p s = (if in_live s p 16 then Some (st_large s p) else None)"

definition put_large :: "ptr \<Rightarrow> (ngx_pool_large \<Rightarrow> ngx_pool_large) \<Rightarrow> pool_mem \<Rightarrow> pool_mem option" where
  "put_large p f s = (if in_live s p 16 then Some (s\<lparr>st_large := (st_large s)(p := f (st_large s p))\<rparr>) else None)"

definition get_cleanup :: "ptr \<Rightarrow> pool_mem \<Rightarrow> ngx_pool_cleanup option" where
  "get_cleanup p s = (if in_live s p 24 then Some (st_cleanup s p) else None)"

definition put_cleanup :: "ptr \<Rightarrow> (ngx_pool_cleanup \<Rightarrow> ngx_pool_cleanup) \<Rightarrow> pool_mem \<Rightarrow> pool_mem option" where
  "put_cleanup p f s = (if in_live s p 24 then Some (s\<lparr>st_cleanup := (st_cleanup s)(p := f (st_cleanup s p))\<rparr>) else None)"

definition get_chain :: "ptr \<Rightarrow> pool_mem \<Rightarrow> ngx_chain option" where
  "get_chain p s = (if in_live s p 16 then Some (st_chain s p) else None)"

definition put_chain :: "ptr \<Rightarrow> (ngx_chain \<Rightarrow> ngx_chain) \<Rightarrow> pool_mem \<Rightarrow> pool_mem option" where
  "put_chain p f s = (if in_live s p 16 then Some (s\<lparr>st_chain := (st_chain s)(p := f (st_chain s p))\<rparr>) else None)"

text \<open>\<open>(size_t) (a - b)\<close>, and \<open>ngx_align_ptr\<close> for a power of two.\<close>

definition usub :: "nat \<Rightarrow> nat \<Rightarrow> nat" where
  "usub a b = (if b \<le> a then a - b else 2 ^ 64 - (b - a))"

definition ngx_align_ptr :: "ptr \<Rightarrow> nat \<Rightarrow> ptr" where
  "ngx_align_ptr p a = (p + (a - 1)) div a * a"

text \<open>\<^verbatim>\<open>src/os/unix/ngx_alloc.c\<close>, with \<open>posix_memalign\<close>; \<open>free\<close> of a pointer that was not allocated is \<open>None\<close>.\<close>

definition ngx_alloc :: "os_env \<Rightarrow> nat \<Rightarrow> pool_mem \<Rightarrow> ptr \<times> pool_mem" where
  "ngx_alloc os sz s =
     (let p = os_malloc os (live s) sz
      in if p = NULL then (NULL, s) else (p, s\<lparr>live := (p, sz) # live s\<rparr>))"

definition ngx_memalign :: "os_env \<Rightarrow> nat \<Rightarrow> nat \<Rightarrow> pool_mem \<Rightarrow> ptr \<times> pool_mem" where
  "ngx_memalign os alignment sz s =
     (let p = os_memalign os (live s) alignment sz
      in if p = NULL then (NULL, s) else (p, s\<lparr>live := (p, sz) # live s\<rparr>))"

definition ngx_free :: "ptr \<Rightarrow> pool_mem \<Rightarrow> pool_mem option" where
  "ngx_free p s =
     (if p = NULL then Some s
      else if p \<in> fst ` set (live s) then Some (s\<lparr>live := filter (\<lambda>r. fst r \<noteq> p) (live s)\<rparr>)
      else None)"

text \<open>\<open>ngx_create_pool\<close>: the size of the header is 80 bytes, that of \<open>ngx_pool_data_t\<close> 32.\<close>

definition ngx_create_pool :: "os_env \<Rightarrow> nat \<Rightarrow> pool_mem \<Rightarrow> (ptr \<times> pool_mem) option" where
  "ngx_create_pool os sz s =
     (let (p, s) = ngx_memalign os 16 sz s
      in if p = NULL then Some (NULL, s)
         else do {
           s \<leftarrow> put_d p (\<lambda>_. \<lparr>d_last = p + 80, d_end = p + sz, d_next = NULL, d_failed = 0\<rparr>) s;
           let sz = usub sz 80;
           s \<leftarrow> put_h p (\<lambda>_. \<lparr>h_max = (if sz < os_pagesize os - 1 then sz else os_pagesize os - 1),
                              h_current = p, h_chain = NULL, h_large = NULL, h_cleanup = NULL\<rparr>) s;
           Some (p, s) })"

text \<open>The loop \<open>do ... while (p)\<close> of \<open>ngx_palloc\<close> (with \<open>al\<close>) and \<open>ngx_pnalloc\<close> (without): the first \<open>None\<close> of the result is the
  end of the loop.\<close>

partial_function (option) palloc_loop ::
    "bool \<Rightarrow> nat \<Rightarrow> ptr \<Rightarrow> pool_mem \<Rightarrow> (ptr option \<times> pool_mem) option" where
  "palloc_loop al sz p s = do {
     d \<leftarrow> get_d p s;
     let m = (if al then ngx_align_ptr (d_last d) 8 else d_last d);
     if sz \<le> usub (d_end d) m
     then do {
       s \<leftarrow> put_d p (\<lambda>d. d\<lparr>d_last := m + sz\<rparr>) s;
       Some (Some m, s) }
     else if d_next d = NULL then Some (None, s)
     else palloc_loop al sz (d_next d) s }"

text \<open>The loop of \<open>ngx_palloc_block\<close> to the last block, and the function.\<close>

partial_function (option) block_loop :: "ptr \<Rightarrow> ptr \<Rightarrow> pool_mem \<Rightarrow> (ptr \<times> ptr \<times> pool_mem) option" where
  "block_loop p current s = do {
     d \<leftarrow> get_d p s;
     if d_next d = NULL then Some (p, current, s)
     else do {
       s \<leftarrow> put_d p (\<lambda>d. d\<lparr>d_failed := d_failed d + 1\<rparr>) s;
       block_loop (d_next d) (if 4 < d_failed d then d_next d else current) s } }"

definition ngx_palloc_block :: "os_env \<Rightarrow> ptr \<Rightarrow> nat \<Rightarrow> pool_mem \<Rightarrow> (ptr \<times> pool_mem) option" where
  "ngx_palloc_block os pool sz s = do {
     d \<leftarrow> get_d pool s;
     let psize = usub (d_end d) pool;
     let (new, s) = ngx_memalign os 16 psize s;
     if new = NULL then Some (NULL, s)
     else do {
       let m = ngx_align_ptr (new + 32) 8;
       s \<leftarrow> put_d new (\<lambda>_. \<lparr>d_last = m + sz, d_end = new + psize, d_next = NULL, d_failed = 0\<rparr>) s;
       h \<leftarrow> get_h pool s;
       (p, current, s) \<leftarrow> block_loop (h_current h) (h_current h) s;
       s \<leftarrow> put_d p (\<lambda>d. d\<lparr>d_next := new\<rparr>) s;
       s \<leftarrow> put_h pool (\<lambda>h. h\<lparr>h_current := (if current = NULL then new else current)\<rparr>) s;
       Some (m, s) } }"

text \<open>The branch of \<open>ngx_palloc\<close> and \<open>ngx_pnalloc\<close> for a size up to \<open>pool->max\<close>.\<close>

definition palloc_small :: "os_env \<Rightarrow> bool \<Rightarrow> ptr \<Rightarrow> nat \<Rightarrow> pool_mem \<Rightarrow> (ptr \<times> pool_mem) option" where
  "palloc_small os al pool sz s = do {
     h \<leftarrow> get_h pool s;
     (r, s) \<leftarrow> palloc_loop al sz (h_current h) s;
     case r of
       Some m \<Rightarrow> Some (m, s)
     | None \<Rightarrow> ngx_palloc_block os pool sz s }"

text \<open>\<open>ngx_palloc_large\<close>: the loop over the first entries of the list, the new entry at the front, and the function.
  It calls \<open>ngx_palloc\<close> for 16 bytes, which calls \<open>ngx_palloc_large\<close> again when \<open>pool->max\<close> is smaller.\<close>

function large_reuse :: "nat \<Rightarrow> ptr \<Rightarrow> ptr \<Rightarrow> pool_mem \<Rightarrow> (bool \<times> pool_mem) option" where
  "large_reuse n p large s =
     (if large = NULL then Some (False, s)
      else do {
        l \<leftarrow> get_large large s;
        if l_alloc l = NULL
        then do {
          s \<leftarrow> put_large large (\<lambda>l. l\<lparr>l_alloc := p\<rparr>) s;
          Some (True, s) }
        else if 3 < n then Some (False, s)
        else large_reuse (Suc n) p (l_next l) s })"
  by pat_completeness auto
termination by (relation "measure (\<lambda>(n, _). 5 - n)") auto

declare large_reuse.simps [simp del]

definition large_link :: "ptr \<Rightarrow> ptr \<Rightarrow> ptr \<Rightarrow> pool_mem \<Rightarrow> (ptr \<times> pool_mem) option" where
  "large_link pool p large s =
     (if large = NULL
      then do {
        s \<leftarrow> ngx_free p s;
        Some (NULL, s) }
      else do {
        s \<leftarrow> put_large large (\<lambda>l. l\<lparr>l_alloc := p\<rparr>) s;
        h \<leftarrow> get_h pool s;
        s \<leftarrow> put_large large (\<lambda>l. l\<lparr>l_next := h_large h\<rparr>) s;
        s \<leftarrow> put_h pool (\<lambda>h. h\<lparr>h_large := large\<rparr>) s;
        Some (p, s) })"

partial_function (option) ngx_palloc_large ::
    "os_env \<Rightarrow> ptr \<Rightarrow> nat \<Rightarrow> pool_mem \<Rightarrow> (ptr \<times> pool_mem) option" where
  "ngx_palloc_large os pool sz s =
     (let (p, s) = ngx_alloc os sz s
      in if p = NULL then Some (NULL, s)
         else do {
           h \<leftarrow> get_h pool s;
           (reused, s) \<leftarrow> large_reuse 0 p (h_large h) s;
           if reused then Some (p, s)
           else do {
             (large, s) \<leftarrow> (if 16 \<le> h_max h then palloc_small os True pool 16 s
                            else ngx_palloc_large os pool 16 s);
             large_link pool p large s } })"

definition ngx_palloc :: "os_env \<Rightarrow> ptr \<Rightarrow> nat \<Rightarrow> pool_mem \<Rightarrow> (ptr \<times> pool_mem) option" where
  "ngx_palloc os pool sz s = do {
     h \<leftarrow> get_h pool s;
     if sz \<le> h_max h then palloc_small os True pool sz s
     else ngx_palloc_large os pool sz s }"

definition ngx_pnalloc :: "os_env \<Rightarrow> ptr \<Rightarrow> nat \<Rightarrow> pool_mem \<Rightarrow> (ptr \<times> pool_mem) option" where
  "ngx_pnalloc os pool sz s = do {
     h \<leftarrow> get_h pool s;
     if sz \<le> h_max h then palloc_small os False pool sz s
     else ngx_palloc_large os pool sz s }"

definition ngx_pmemalign :: "os_env \<Rightarrow> ptr \<Rightarrow> nat \<Rightarrow> nat \<Rightarrow> pool_mem \<Rightarrow> (ptr \<times> pool_mem) option" where
  "ngx_pmemalign os pool sz alignment s =
     (let (p, s) = ngx_memalign os alignment sz s
      in if p = NULL then Some (NULL, s)
         else do {
           (large, s) \<leftarrow> ngx_palloc os pool 16 s;
           large_link pool p large s })"

text \<open>Writing \<open>n\<close> bytes, and \<open>ngx_memzero\<close>.\<close>

definition ram_write :: "ptr \<Rightarrow> nat \<Rightarrow> (nat \<Rightarrow> byte) \<Rightarrow> pool_mem \<Rightarrow> pool_mem option" where
  "ram_write a n f s =
     (if in_live s a n
      then Some (s\<lparr>ram := (\<lambda>x. if a \<le> x \<and> x < a + n then f (x - a) else ram s x)\<rparr>)
      else None)"

definition ngx_memzero :: "ptr \<Rightarrow> nat \<Rightarrow> pool_mem \<Rightarrow> pool_mem option" where
  "ngx_memzero a n s = ram_write a n (\<lambda>_. 0) s"

definition ngx_pcalloc :: "os_env \<Rightarrow> ptr \<Rightarrow> nat \<Rightarrow> pool_mem \<Rightarrow> (ptr \<times> pool_mem) option" where
  "ngx_pcalloc os pool sz s = do {
     (p, s) \<leftarrow> ngx_palloc os pool sz s;
     s \<leftarrow> (if p = NULL then Some s else ngx_memzero p sz s);
     Some (p, s) }"

text \<open>\<open>ngx_pfree\<close>.\<close>

partial_function (option) pfree_loop :: "ptr \<Rightarrow> ptr \<Rightarrow> pool_mem \<Rightarrow> (ngx_rc \<times> pool_mem) option" where
  "pfree_loop p l s =
     (if l = NULL then Some (NGX_DECLINED, s)
      else do {
        r \<leftarrow> get_large l s;
        if p = l_alloc r
        then do {
          s \<leftarrow> ngx_free (l_alloc r) s;
          s \<leftarrow> put_large l (\<lambda>r. r\<lparr>l_alloc := NULL\<rparr>) s;
          Some (NGX_OK, s) }
        else pfree_loop p (l_next r) s })"

definition ngx_pfree :: "ptr \<Rightarrow> ptr \<Rightarrow> pool_mem \<Rightarrow> (ngx_rc \<times> pool_mem) option" where
  "ngx_pfree pool p s = do {
     h \<leftarrow> get_h pool s;
     pfree_loop p (h_large h) s }"

text \<open>The two loops of \<open>ngx_reset_pool\<close>; the first is a loop of \<open>ngx_destroy_pool\<close> too.\<close>

partial_function (option) free_larges :: "ptr \<Rightarrow> pool_mem \<Rightarrow> pool_mem option" where
  "free_larges l s =
     (if l = NULL then Some s
      else do {
        r \<leftarrow> get_large l s;
        s \<leftarrow> (if l_alloc r = NULL then Some s else ngx_free (l_alloc r) s);
        r \<leftarrow> get_large l s;
        free_larges (l_next r) s })"

partial_function (option) reset_blocks :: "ptr \<Rightarrow> pool_mem \<Rightarrow> pool_mem option" where
  "reset_blocks p s =
     (if p = NULL then Some s
      else do {
        s \<leftarrow> put_d p (\<lambda>d. d\<lparr>d_last := p + 80\<rparr>) s;
        d \<leftarrow> get_d p s;
        reset_blocks (d_next d) s })"

definition ngx_reset_pool :: "ptr \<Rightarrow> pool_mem \<Rightarrow> pool_mem option" where
  "ngx_reset_pool pool s = do {
     h \<leftarrow> get_h pool s;
     s \<leftarrow> free_larges (h_large h) s;
     s \<leftarrow> put_h pool (\<lambda>h. h\<lparr>h_large := NULL\<rparr>) s;
     reset_blocks pool s }"

text \<open>\<open>ngx_destroy_pool\<close> without the debug logs.  The result has the calls of the cleanup handlers; a handler is taken not
  to change the pool.\<close>

partial_function (option) run_cleanups ::
    "ptr \<Rightarrow> pool_mem \<Rightarrow> (ngx_pool_cleanup_pt \<times> ptr) list \<Rightarrow> (ngx_pool_cleanup_pt \<times> ptr) list option" where
  "run_cleanups c s calls =
     (if c = NULL then Some calls
      else do {
        r \<leftarrow> get_cleanup c s;
        run_cleanups (c_next r) s
          (if c_handler r \<noteq> No_handler then calls @ [(c_handler r, c_data r)] else calls) })"

partial_function (option) free_blocks :: "ptr \<Rightarrow> ptr \<Rightarrow> pool_mem \<Rightarrow> pool_mem option" where
  "free_blocks p n s = do {
     s \<leftarrow> ngx_free p s;
     if n = NULL then Some s
     else do {
       d \<leftarrow> get_d n s;
       free_blocks n (d_next d) s } }"

definition ngx_destroy_pool ::
    "ptr \<Rightarrow> pool_mem \<Rightarrow> ((ngx_pool_cleanup_pt \<times> ptr) list \<times> pool_mem) option" where
  "ngx_destroy_pool pool s = do {
     h \<leftarrow> get_h pool s;
     calls \<leftarrow> run_cleanups (h_cleanup h) s [];
     s \<leftarrow> free_larges (h_large h) s;
     d \<leftarrow> get_d pool s;
     s \<leftarrow> free_blocks pool (d_next d) s;
     Some (calls, s) }"

text \<open>Cleanups.  The result of \<open>ngx_pool_run_cleanup_file\<close> is the argument the handler is called with, if it is called.\<close>

definition ngx_pool_cleanup_add :: "os_env \<Rightarrow> ptr \<Rightarrow> nat \<Rightarrow> pool_mem \<Rightarrow> (ptr \<times> pool_mem) option" where
  "ngx_pool_cleanup_add os p sz s = do {
     (c, s) \<leftarrow> ngx_palloc os p 24 s;
     if c = NULL then Some (NULL, s)
     else do {
       (data, s) \<leftarrow> (if sz \<noteq> 0 then ngx_palloc os p sz s else Some (NULL, s));
       s \<leftarrow> put_cleanup c (\<lambda>r. r\<lparr>c_data := data\<rparr>) s;
       if sz \<noteq> 0 \<and> data = NULL then Some (NULL, s)
       else do {
         s \<leftarrow> put_cleanup c (\<lambda>r. r\<lparr>c_handler := No_handler\<rparr>) s;
         h \<leftarrow> get_h p s;
         s \<leftarrow> put_cleanup c (\<lambda>r. r\<lparr>c_next := h_cleanup h\<rparr>) s;
         s \<leftarrow> put_h p (\<lambda>h. h\<lparr>h_cleanup := c\<rparr>) s;
         Some (c, s) } } }"

partial_function (option) run_cleanup_file_loop ::
    "ptr \<Rightarrow> int \<Rightarrow> pool_mem \<Rightarrow> (ptr option \<times> pool_mem) option" where
  "run_cleanup_file_loop c fd s =
     (if c = NULL then Some (None, s)
      else do {
        r \<leftarrow> get_cleanup c s;
        if c_handler r = Ngx_pool_cleanup_file
        then if \<not> in_live s (c_data r) 24 then None
             else if st_fd s (c_data r) = fd
             then do {
               s \<leftarrow> put_cleanup c (\<lambda>r. r\<lparr>c_handler := No_handler\<rparr>) s;
               Some (Some (c_data r), s) }
             else run_cleanup_file_loop (c_next r) fd s
        else run_cleanup_file_loop (c_next r) fd s })"

definition ngx_pool_run_cleanup_file :: "ptr \<Rightarrow> int \<Rightarrow> pool_mem \<Rightarrow> (ptr option \<times> pool_mem) option" where
  "ngx_pool_run_cleanup_file p fd s = do {
     h \<leftarrow> get_h p s;
     run_cleanup_file_loop (h_cleanup h) fd s }"

text \<open>\<^verbatim>\<open>src/core/ngx_buf.c\<close> and \<^verbatim>\<open>ngx_buf.h\<close>: links of chains come from a list of free links in the pool.\<close>

definition ngx_alloc_chain_link :: "os_env \<Rightarrow> ptr \<Rightarrow> pool_mem \<Rightarrow> (ptr \<times> pool_mem) option" where
  "ngx_alloc_chain_link os pool s = do {
     h \<leftarrow> get_h pool s;
     let cl = h_chain h;
     if cl \<noteq> NULL
     then do {
       c \<leftarrow> get_chain cl s;
       s \<leftarrow> put_h pool (\<lambda>h. h\<lparr>h_chain := ch_next c\<rparr>) s;
       Some (cl, s) }
     else ngx_palloc os pool 16 s }"

definition ngx_free_chain :: "ptr \<Rightarrow> ptr \<Rightarrow> pool_mem \<Rightarrow> pool_mem option" where
  "ngx_free_chain pool cl s = do {
     h \<leftarrow> get_h pool s;
     s \<leftarrow> put_chain cl (\<lambda>c. c\<lparr>ch_next := h_chain h\<rparr>) s;
     put_h pool (\<lambda>h. h\<lparr>h_chain := cl\<rparr>) s }"

section \<open>Chains\<close>

text \<open>A chain of structures that ends with \<open>NULL\<close>: \<open>f\<close> gives the next one.\<close>

fun npath :: "(ptr \<Rightarrow> ptr) \<Rightarrow> ptr \<Rightarrow> ptr list \<Rightarrow> bool" where
  "npath f p [] \<longleftrightarrow> p = NULL"
| "npath f p (x # xs) \<longleftrightarrow> p = x \<and> x \<noteq> NULL \<and> npath f (f x) xs"

lemma npath_null: "npath f 0 xs \<longleftrightarrow> xs = []"
  by (cases xs) auto

lemma npath_unique: "npath f p xs \<Longrightarrow> npath f p ys \<Longrightarrow> xs = ys"
proof (induction xs arbitrary: p ys)
  case (Cons x xs)
  then show ?case by (cases ys) auto
qed (simp add: npath_null)

lemma npath_suffix: "npath f p (xs @ ys) \<Longrightarrow> \<exists>q. npath f q ys"
  by (induction xs arbitrary: p) auto

lemma npath_distinct: "npath f p xs \<Longrightarrow> distinct xs"
proof (induction xs arbitrary: p)
  case (Cons x xs)
  have "x \<notin> set xs"
  proof
    assume "x \<in> set xs"
    then obtain a b where ab: "xs = a @ x # b" by (meson split_list)
    then obtain q where "npath f q (x # b)" using Cons.prems npath_suffix [of f p "x # a" "x # b"] by auto
    then have "npath f x (x # b)" by auto
    moreover have "npath f x (x # xs)" using Cons.prems by auto
    ultimately have "x # b = x # xs" by (rule npath_unique)
    then show False using ab by auto
  qed
  then show ?case using Cons by auto
qed simp

lemma npath_cong: "(\<And>x. x \<in> set xs \<Longrightarrow> f x = g x) \<Longrightarrow> npath f p xs = npath g p xs"
  by (induction xs arbitrary: p) auto

lemma npath_snoc: "npath f p xs \<Longrightarrow> xs \<noteq> [] \<Longrightarrow> y \<noteq> 0 \<Longrightarrow> y \<notin> set xs \<Longrightarrow> f y = 0 \<Longrightarrow>
  npath (f(last xs := y)) p (xs @ [y])"
proof (induction xs arbitrary: p)
  case (Cons x xs)
  show ?case
  proof (cases xs)
    case Nil
    then show ?thesis using Cons.prems by auto
  next
    case (Cons z zs)
    have "x \<noteq> last xs" using npath_distinct [OF Cons.prems(1)] Cons by auto
    then show ?thesis using Cons.IH [of "f x"] Cons.prems Cons by auto
  qed
qed simp

lemma npath_nonnull: "npath f p xs \<Longrightarrow> x \<in> set xs \<Longrightarrow> x \<noteq> 0"
  by (induction xs arbitrary: p) auto

lemma npath_start: "npath f p xs \<Longrightarrow> p \<noteq> 0 \<longleftrightarrow> xs \<noteq> []"
  by (cases xs) auto

lemma npath_tail: "npath f p (x # xs) \<Longrightarrow> npath f (f x) xs"
  by simp

section \<open>The invariant\<close>

text \<open>Two regions have no byte in common; the regions in use; what is relied on from the operating system: an allocation
  fails or is aligned, below \<open>2 ^ 64\<close> and apart from all regions in use.\<close>

definition rdisj :: "region \<Rightarrow> region \<Rightarrow> bool" where
  "rdisj r q \<longleftrightarrow> snd r = 0 \<or> snd q = 0 \<or> fst r + snd r \<le> fst q \<or> fst q + snd q \<le> fst r"

definition regions :: "region list \<Rightarrow> bool" where
  "regions L \<longleftrightarrow>
     (\<forall>r\<in>set L. 0 < fst r \<and> fst r + snd r < 2 ^ 64) \<and>
     (\<forall>r\<in>set L. \<forall>q\<in>set L. r \<noteq> q \<longrightarrow> fst r \<noteq> fst q \<and> rdisj r q)"

definition os_ok :: "os_env \<Rightarrow> bool" where
  "os_ok os \<longleftrightarrow> 4096 \<le> os_pagesize os \<and>
     (\<forall>L n. regions L \<longrightarrow> os_malloc os L n \<noteq> 0 \<longrightarrow>
        16 dvd os_malloc os L n \<and> os_malloc os L n \<notin> fst ` set L \<and> regions ((os_malloc os L n, n) # L)) \<and>
     (\<forall>L a n. regions L \<longrightarrow> os_memalign os L a n \<noteq> 0 \<longrightarrow>
        a dvd os_memalign os L a n \<and> os_memalign os L a n \<notin> fst ` set L \<and> regions ((os_memalign os L a n, n) # L))"

text \<open>The parts of the invariant: the chain of blocks of \<open>sz\<close> bytes; an allocation lies in the used part of a block; the
  regions in use are the blocks, the large allocations \<open>W\<close> and the foreign regions \<open>F\<close>; the list of large
  allocations; the structures that the pool keeps in its own blocks.\<close>

definition blk_start :: "ptr \<Rightarrow> ptr \<Rightarrow> ptr" where
  "blk_start pool p = p + (if p = pool then 80 else 32)"

definition next_d :: "pool_mem \<Rightarrow> ptr \<Rightarrow> ptr" where "next_d s p = d_next (st_d s p)"
definition next_large :: "pool_mem \<Rightarrow> ptr \<Rightarrow> ptr" where "next_large s p = l_next (st_large s p)"
definition next_cleanup :: "pool_mem \<Rightarrow> ptr \<Rightarrow> ptr" where "next_cleanup s p = c_next (st_cleanup s p)"
definition next_chain :: "pool_mem \<Rightarrow> ptr \<Rightarrow> ptr" where "next_chain s p = ch_next (st_chain s p)"

definition block_ok :: "ptr \<Rightarrow> nat \<Rightarrow> pool_mem \<Rightarrow> ptr \<Rightarrow> bool" where
  "block_ok pool sz s p \<longleftrightarrow>
     16 dvd p \<and> d_end (st_d s p) = p + sz \<and>
     blk_start pool p \<le> d_last (st_d s p) \<and> d_last (st_d s p) \<le> p + sz"

definition blocks_ok :: "ptr \<Rightarrow> nat \<Rightarrow> ptr list \<Rightarrow> pool_mem \<Rightarrow> bool" where
  "blocks_ok pool sz ps s \<longleftrightarrow>
     16 dvd sz \<and> 112 \<le> sz \<and> 24 \<le> h_max (st_h s pool) \<and> h_max (st_h s pool) \<le> sz - 80 \<and>
     pool \<in> set ps \<and> npath (next_d s) pool ps \<and> h_current (st_h s pool) \<in> set ps \<and>
     (\<forall>p\<in>set ps. block_ok pool sz s p)"

definition in_blocks :: "ptr \<Rightarrow> ptr list \<Rightarrow> pool_mem \<Rightarrow> region \<Rightarrow> bool" where
  "in_blocks pool ps s r \<longleftrightarrow>
     (\<exists>p\<in>set ps. blk_start pool p \<le> fst r \<and> fst r + snd r \<le> d_last (st_d s p))"

definition owns :: "nat \<Rightarrow> ptr list \<Rightarrow> region list \<Rightarrow> region set \<Rightarrow> pool_mem \<Rightarrow> bool" where
  "owns sz ps W F s \<longleftrightarrow>
     regions (live s) \<and> set (live s) = (\<lambda>p. (p, sz)) ` set ps \<union> set W \<union> F \<and>
     (\<lambda>p. (p, sz)) ` set ps \<inter> set W = {} \<and> ((\<lambda>p. (p, sz)) ` set ps \<union> set W) \<inter> F = {}"

definition larges_ok :: "ptr \<Rightarrow> region list \<Rightarrow> ptr list \<Rightarrow> pool_mem \<Rightarrow> bool" where
  "larges_ok pool W ls s \<longleftrightarrow>
     npath (next_large s) (h_large (st_h s pool)) ls \<and> distinct W \<and>
     (\<lambda>l. l_alloc (st_large s l)) ` set ls - {0} = fst ` set W \<and>
     (\<forall>l\<in>set ls. \<forall>k\<in>set ls. l_alloc (st_large s l) = l_alloc (st_large s k) \<longrightarrow>
        l_alloc (st_large s l) \<noteq> 0 \<longrightarrow> l = k)"

definition meta :: "ptr list \<Rightarrow> ptr list \<Rightarrow> ptr list \<Rightarrow> region list" where
  "meta ls cs chs = map (\<lambda>l. (l, 16)) ls @ map (\<lambda>c. (c, 24)) cs @ map (\<lambda>c. (c, 16)) chs"

text \<open>The blocks \<open>ps\<close>, the entries \<open>ls\<close> of the list of large allocations, the cleanups \<open>cs\<close>, the free links \<open>chs\<close>, and the
  allocations \<open>U\<close> that lie in blocks.  No two of the allocations and the own structures overlap.\<close>

definition pool_rep ::
    "ptr \<Rightarrow> nat \<Rightarrow> region set \<Rightarrow> ptr list \<Rightarrow> ptr list \<Rightarrow> ptr list \<Rightarrow> ptr list \<Rightarrow> region list \<Rightarrow> region list \<Rightarrow> pool_mem \<Rightarrow> bool" where
  "pool_rep pool sz F ps ls cs chs U W s \<longleftrightarrow>
     blocks_ok pool sz ps s \<and> owns sz ps W F s \<and> larges_ok pool W ls s \<and>
     npath (next_cleanup s) (h_cleanup (st_h s pool)) cs \<and>
     npath (next_chain s) (h_chain (st_h s pool)) chs \<and>
     sorted_wrt rdisj (U @ meta ls cs chs) \<and>
     (\<forall>r\<in>set (U @ meta ls cs chs). in_blocks pool ps s r)"

lemma rdisj_commute: "rdisj r q = rdisj q r"
  by (auto simp: rdisj_def)

lemma align_8: "8 dvd ngx_align_ptr p 8" "p \<le> ngx_align_ptr p 8" "8 dvd p \<Longrightarrow> ngx_align_ptr p 8 = p"
  "8 dvd e \<Longrightarrow> p \<le> e \<Longrightarrow> ngx_align_ptr p 8 \<le> e"
proof -
  show "8 dvd ngx_align_ptr p 8" by (simp add: ngx_align_ptr_def)
  show "p \<le> ngx_align_ptr p 8" unfolding ngx_align_ptr_def by presburger
  show "8 dvd p \<Longrightarrow> ngx_align_ptr p 8 = p" unfolding ngx_align_ptr_def by presburger
  show "8 dvd e \<Longrightarrow> p \<le> e \<Longrightarrow> ngx_align_ptr p 8 \<le> e" unfolding ngx_align_ptr_def by presburger
qed

lemma owns_block: "owns sz ps W F s \<Longrightarrow> p \<in> set ps \<Longrightarrow> (p, sz) \<in> set (live s)"
  by (auto simp: owns_def)

lemma in_live_block: "owns sz ps W F s \<Longrightarrow> p \<in> set ps \<Longrightarrow> n \<le> sz \<Longrightarrow> in_live s p n"
  unfolding in_live_def by (rule bexI [of _ "(p, sz)"]) (auto simp: owns_block)

lemma in_blocks_live:
  assumes "owns sz ps W F s" "blocks_ok pool sz ps s" "in_blocks pool ps s (a, n)"
  shows "in_live s a n"
proof -
  obtain p where p: "p \<in> set ps" "blk_start pool p \<le> a" "a + n \<le> d_last (st_d s p)"
    using assms(3) by (auto simp: in_blocks_def)
  have "d_last (st_d s p) \<le> p + sz" using assms(2) p(1) by (auto simp: blocks_ok_def block_ok_def)
  then show ?thesis unfolding in_live_def
    using p owns_block [OF assms(1) p(1)] by (intro bexI [of _ "(p, sz)"]) (auto simp: blk_start_def)
qed

lemma blocks_apart:
  assumes "owns sz ps W F s" "p \<in> set ps" "q \<in> set ps" "p \<noteq> q" "96 \<le> sz"
  shows "p + sz \<le> q \<or> q + sz \<le> p"
proof -
  have "regions (live s)" using assms(1) by (simp add: owns_def)
  then have "rdisj (p, sz) (q, sz)"
    using owns_block [OF assms(1,2)] owns_block [OF assms(1,3)] assms(4) by (auto simp: regions_def)
  then show ?thesis using assms(5) by (simp add: rdisj_def)
qed

text \<open>The loops on chains.\<close>

text \<open>Where the loop would allocate in a block.\<close>

definition alloc_at :: "bool \<Rightarrow> pool_mem \<Rightarrow> ptr \<Rightarrow> ptr" where
  "alloc_at al s q = (if al then ngx_align_ptr (d_last (st_d s q)) 8 else d_last (st_d s q))"

definition bump :: "ptr \<Rightarrow> ptr \<Rightarrow> pool_mem \<Rightarrow> pool_mem" where
  "bump q e s = s\<lparr>st_d := (st_d s)(q := (st_d s q)\<lparr>d_last := e\<rparr>)\<rparr>"

lemma palloc_loop_run:
  "npath (next_d s) p ps \<Longrightarrow> ps \<noteq> [] \<Longrightarrow> (\<And>q. q \<in> set ps \<Longrightarrow> in_live s q 32) \<Longrightarrow>
   palloc_loop al n p s = Some (None, s) \<or>
   (\<exists>q\<in>set ps. n \<le> usub (d_end (st_d s q)) (alloc_at al s q) \<and>
      palloc_loop al n p s = Some (Some (alloc_at al s q), bump q (alloc_at al s q + n) s))"
proof (induction ps arbitrary: p)
  case (Cons x xs)
  have x: "p = x" "x \<noteq> 0" "npath (next_d s) (d_next (st_d s x)) xs" using Cons.prems(1) by (auto simp flip: next_d_def)
  have l: "in_live s x 32" using Cons.prems(3) by auto
  have e: "palloc_loop al n p s =
    (if n \<le> usub (d_end (st_d s x)) (alloc_at al s x) then Some (Some (alloc_at al s x), bump x (alloc_at al s x + n) s)
     else if d_next (st_d s x) = 0 then Some (None, s) else palloc_loop al n (d_next (st_d s x)) s)"
    using x(1) l by (subst palloc_loop.simps) (simp add: get_d_def put_d_def Let_def alloc_at_def bump_def)
  show ?case
  proof (cases "n \<le> usub (d_end (st_d s x)) (alloc_at al s x) \<or> d_next (st_d s x) = 0")
    case True
    then show ?thesis using e by auto
  next
    case False
    then have ne: "xs \<noteq> []" using x(3) by (cases xs) auto
    have "palloc_loop al n p s = palloc_loop al n (d_next (st_d s x)) s" using e False by simp
    then show ?thesis using Cons.IH [OF x(3) ne] Cons.prems(3) by (metis list.set_intros(2))
  qed
qed simp

lemma block_loop_run:
  "npath (next_d s) p ps \<Longrightarrow> ps \<noteq> [] \<Longrightarrow> (\<And>q. q \<in> set ps \<Longrightarrow> in_live s q 32) \<Longrightarrow>
   \<exists>c' F. block_loop p c s = Some (last ps, c', s\<lparr>st_d := (\<lambda>q. (st_d s q)\<lparr>d_failed := F q\<rparr>)\<rparr>) \<and>
     (c' = c \<or> c' \<in> set ps)"
proof (induction ps arbitrary: p c s)
  case (Cons x xs)
  have x: "p = x" "x \<noteq> 0" "npath (next_d s) (d_next (st_d s x)) xs" using Cons.prems(1) by (auto simp flip: next_d_def)
  have l: "in_live s x 32" using Cons.prems(3) by auto
  show ?case
  proof (cases "d_next (st_d s x) = 0")
    case True
    then have "xs = []" using x(3) by (simp add: npath_null)
    moreover have "s = s\<lparr>st_d := (\<lambda>q. (st_d s q)\<lparr>d_failed := d_failed (st_d s q)\<rparr>)\<rparr>" by simp
    ultimately show ?thesis using True x l
      by (intro exI [of _ c] exI [of _ "\<lambda>q. d_failed (st_d s q)"]) (simp add: block_loop.simps [of x] get_d_def)
  next
    case False
    define s' where "s' = s\<lparr>st_d := (st_d s)(x := (st_d s x)\<lparr>d_failed := d_failed (st_d s x) + 1\<rparr>)\<rparr>"
    define c1 where "c1 = (if 4 < d_failed (st_d s x) then d_next (st_d s x) else c)"
    have e: "block_loop p c s = block_loop (d_next (st_d s x)) c1 s'"
      using False x l by (subst block_loop.simps) (simp add: get_d_def put_d_def s'_def c1_def)
    have nx: "next_d s' = next_d s" by (auto simp: s'_def next_d_def)
    have xs: "xs \<noteq> []" using x(3) False by (cases xs) auto
    have il: "in_live s' q 32" if "q \<in> set xs" for q using Cons.prems(3) that by (auto simp: s'_def in_live_def)
    obtain c' F where F: "block_loop (d_next (st_d s x)) c1 s' =
        Some (last xs, c', s'\<lparr>st_d := (\<lambda>q. (st_d s' q)\<lparr>d_failed := F q\<rparr>)\<rparr>)" "c' = c1 \<or> c' \<in> set xs"
      using Cons.IH [of s' "d_next (st_d s x)" c1] x(3) xs il nx by auto
    have "s'\<lparr>st_d := (\<lambda>q. (st_d s' q)\<lparr>d_failed := F q\<rparr>)\<rparr> = s\<lparr>st_d := (\<lambda>q. (st_d s q)\<lparr>d_failed := F q\<rparr>)\<rparr>"
      by (auto simp: s'_def fun_eq_iff)
    moreover have "c1 = c \<or> c1 \<in> set xs" using x(3) xs by (cases xs) (auto simp: c1_def)
    ultimately show ?thesis using e F xs by (intro exI [of _ c'] exI [of _ F]) auto
  qed
qed simp

section \<open>Allocating\<close>

text \<open>An allocation in a block changes no list and no byte.\<close>

definition lists_same :: "ptr \<Rightarrow> pool_mem \<Rightarrow> pool_mem \<Rightarrow> bool" where
  "lists_same pool s s' \<longleftrightarrow>
     st_large s' = st_large s \<and> st_cleanup s' = st_cleanup s \<and> st_chain s' = st_chain s \<and>
     st_fd s' = st_fd s \<and> ram s' = ram s \<and>
     h_max (st_h s' pool) = h_max (st_h s pool) \<and> h_large (st_h s' pool) = h_large (st_h s pool) \<and>
     h_cleanup (st_h s' pool) = h_cleanup (st_h s pool) \<and> h_chain (st_h s' pool) = h_chain (st_h s pool) \<and>
     (\<forall>q. q \<noteq> pool \<longrightarrow> st_h s' q = st_h s q)"

lemma pool_repD:
  assumes "pool_rep pool sz F ps ls cs chs U W s"
  shows "blocks_ok pool sz ps s" "owns sz ps W F s" "larges_ok pool W ls s"
    "npath (next_cleanup s) (h_cleanup (st_h s pool)) cs" "npath (next_chain s) (h_chain (st_h s pool)) chs"
    "sorted_wrt rdisj (U @ meta ls cs chs)" "\<And>r. r \<in> set (U @ meta ls cs chs) \<Longrightarrow> in_blocks pool ps s r"
  using assms by (auto simp: pool_rep_def)

lemma blocks_okD:
  assumes "blocks_ok pool sz ps s"
  shows "16 dvd sz" "96 \<le> sz" "16 \<le> h_max (st_h s pool)" "h_max (st_h s pool) \<le> sz - 80" "pool \<in> set ps"
    "npath (next_d s) pool ps" "h_current (st_h s pool) \<in> set ps" "\<And>p. p \<in> set ps \<Longrightarrow> block_ok pool sz s p"
    "distinct ps" "112 \<le> sz" "24 \<le> h_max (st_h s pool)"
  using assms by (auto simp: blocks_ok_def intro: npath_distinct)

lemma pool_rep_live:
  assumes "pool_rep pool sz F ps ls cs chs U W s"
  shows "in_live s pool 80" "\<And>p. p \<in> set ps \<Longrightarrow> in_live s p 32"
    "\<And>a n. (a, n) \<in> set (U @ meta ls cs chs) \<Longrightarrow> in_live s a n"
proof -
  note b = blocks_okD [OF pool_repD(1) [OF assms]] and o = pool_repD(2) [OF assms]
  show "in_live s pool 80" using in_live_block [OF o b(5)] b(2) by auto
  show "in_live s p 32" if "p \<in> set ps" for p using in_live_block [OF o that] b(2) by auto
  show "in_live s a n" if "(a, n) \<in> set (U @ meta ls cs chs)" for a n
    using in_blocks_live [OF o pool_repD(1) [OF assms]] pool_repD(7) [OF assms that] by auto
qed

lemma npath_from:
  "npath f p xs \<Longrightarrow> q \<in> set xs \<Longrightarrow> \<exists>ys zs. xs = ys @ zs \<and> npath f q zs \<and> zs \<noteq> []"
proof (induction xs arbitrary: p)
  case (Cons x xs)
  show ?case
  proof (cases "q = x")
    case True
    then show ?thesis using Cons.prems(1) by (intro exI [of _ "[]"] exI [of _ "x # xs"]) auto
  next
    case False
    then obtain ys zs where "xs = ys @ zs" "npath f q zs" "zs \<noteq> []"
      using Cons.IH [of "f x"] Cons.prems by (auto simp del: ex_simps)
    then show ?thesis by (intro exI [of _ "x # ys"] exI [of _ zs]) auto
  qed
qed simp

lemma larges_ok_same: "lists_same pool s s' \<Longrightarrow> larges_ok pool W ls s' = larges_ok pool W ls s"
  by (auto simp: lists_same_def larges_ok_def next_large_def [abs_def])

lemma pool_rep_alloc:
  assumes r: "pool_rep pool sz F ps ls cs chs U W s" and same: "lists_same pool s s'"
    and b: "blocks_ok pool sz ps' s'" and o: "owns sz ps' W F s'"
    and mono: "\<And>r. in_blocks pool ps s r \<Longrightarrow> in_blocks pool ps' s' r"
    and new: "in_blocks pool ps' s' r" "\<And>q. in_blocks pool ps s q \<Longrightarrow> rdisj r q"
  shows "pool_rep pool sz F ps' ls cs chs (r # U) W s'"
proof -
  have "npath (next_cleanup s') (h_cleanup (st_h s' pool)) cs" "npath (next_chain s') (h_chain (st_h s' pool)) chs"
    using pool_repD(4,5) [OF r] same by (auto simp: lists_same_def next_cleanup_def [abs_def] next_chain_def [abs_def])
  then show ?thesis unfolding pool_rep_def
    using b o pool_repD(3,6,7) [OF r] larges_ok_same [OF same] mono new by auto
qed

lemma in_blocks_span:
  assumes "blocks_ok pool sz ps s" "in_blocks pool ps s r"
  obtains p where "p \<in> set ps" "blk_start pool p \<le> fst r" "fst r + snd r \<le> d_last (st_d s p)"
    "p + 32 \<le> fst r" "fst r + snd r \<le> p + sz"
proof -
  obtain p where p: "p \<in> set ps" "blk_start pool p \<le> fst r" "fst r + snd r \<le> d_last (st_d s p)"
    using assms(2) by (auto simp: in_blocks_def)
  moreover have "fst r + snd r \<le> p + sz" using p assms(1) by (auto simp: blocks_ok_def block_ok_def)
  moreover have "p + 32 \<le> fst r" using p(2) by (auto simp: blk_start_def split: if_splits)
  ultimately show thesis using that by blast
qed

lemma fit_ok:
  assumes r: "pool_rep pool sz F ps ls cs chs U W s" and q: "q \<in> set ps"
    and m': "m = alloc_at al s q"
    and fit: "n \<le> usub (d_end (st_d s q)) m"
    and s'': "s' = bump q (m + n) s"
  shows "m \<noteq> 0" "al \<Longrightarrow> 8 dvd m" "lists_same pool s s'" "pool_rep pool sz F ps ls cs chs ((m, n) # U) W s'"
proof -
  note b = blocks_okD [OF pool_repD(1) [OF r]] and o = pool_repD(2) [OF r]
  note s' = s'' [unfolded bump_def] and m = m' [unfolded alloc_at_def]
  have bq: "16 dvd q" "d_end (st_d s q) = q + sz" "blk_start pool q \<le> d_last (st_d s q)" "d_last (st_d s q) \<le> q + sz"
    using b(8) [OF q] by (auto simp: block_ok_def)
  have "8 dvd q + sz" using bq(1) b(1) dvd_trans [of 8 16 q] dvd_trans [of 8 16 sz] by simp
  then have ml: "m \<le> q + sz" "d_last (st_d s q) \<le> m" using bq(4) align_8 m by auto
  then have mn: "m + n \<le> q + sz" using fit bq(2) by (auto simp: usub_def)
  show "m \<noteq> 0" using ml(2) bq(3) by (auto simp: blk_start_def split: if_splits)
  show "al \<Longrightarrow> 8 dvd m" using m align_8(1) by simp
  show same: "lists_same pool s s'" by (simp add: lists_same_def s')
  have nx: "next_d s' = next_d s" by (auto simp: s' next_d_def)
  have "blk_start pool q \<le> m + n" using bq(3) ml(2) by linarith
  then have b': "blocks_ok pool sz ps s'" unfolding blocks_ok_def
    using b bq mn nx q by (auto simp: s' block_ok_def)
  have o': "owns sz ps W F s'" using o by (simp add: owns_def s')
  show "pool_rep pool sz F ps ls cs chs ((m, n) # U) W s'"
  proof (rule pool_rep_alloc [OF r same b' o'])
    show "in_blocks pool ps s' r" if "in_blocks pool ps s r" for r
      using that ml(2) unfolding in_blocks_def s' by fastforce
    show "in_blocks pool ps s' (m, n)" using q bq(3) ml(2) by (auto simp: in_blocks_def s')
    show "rdisj (m, n) r" if ib: "in_blocks pool ps s r" for r
    proof -
      obtain p where p: "p \<in> set ps" "fst r + snd r \<le> d_last (st_d s p)" "p + 32 \<le> fst r" "fst r + snd r \<le> p + sz"
        using in_blocks_span [OF pool_repD(1) [OF assms(1)] ib] by metis
      show ?thesis
      proof (cases "p = q")
        case True
        then show ?thesis using p(2) ml(2) by (simp add: rdisj_def)
      next
        case False
        then show ?thesis using blocks_apart [OF o p(1) q _ b(2)] p mn ml bq(3)
          by (auto simp: rdisj_def blk_start_def split: if_splits)
      qed
    qed
  qed
qed

lemma memalign_new:
  assumes os: "os_ok os" and r: "regions (live s)" and e: "ngx_memalign os a n s = (p, s')" and p: "p \<noteq> 0"
  shows "s' = s\<lparr>live := (p, n) # live s\<rparr>" "a dvd p" "p \<notin> fst ` set (live s)" "regions ((p, n) # live s)"
proof -
  have q: "p = os_memalign os (live s) a n" using e p by (auto simp: ngx_memalign_def Let_def split: if_splits)
  then show "s' = s\<lparr>live := (p, n) # live s\<rparr>" using e p by (auto simp: ngx_memalign_def Let_def)
  have "a dvd p \<and> p \<notin> fst ` set (live s) \<and> regions ((p, n) # live s)"
    using os r p unfolding os_ok_def q by blast
  then show "a dvd p" "p \<notin> fst ` set (live s)" "regions ((p, n) # live s)" by auto
qed

lemma malloc_new:
  assumes os: "os_ok os" and r: "regions (live s)" and e: "ngx_alloc os n s = (p, s')" and p: "p \<noteq> 0"
  shows "s' = s\<lparr>live := (p, n) # live s\<rparr>" "16 dvd p" "p \<notin> fst ` set (live s)" "regions ((p, n) # live s)"
proof -
  have q: "p = os_malloc os (live s) n" using e p by (auto simp: ngx_alloc_def Let_def split: if_splits)
  then show "s' = s\<lparr>live := (p, n) # live s\<rparr>" using e p by (auto simp: ngx_alloc_def Let_def)
  have "16 dvd p \<and> p \<notin> fst ` set (live s) \<and> regions ((p, n) # live s)"
    using os r p unfolding os_ok_def q by blast
  then show "16 dvd p" "p \<notin> fst ` set (live s)" "regions ((p, n) # live s)" by auto
qed

lemma block_ok_new:
  assumes os: "os_ok os" and r: "pool_rep pool sz F ps ls cs chs U W s" and n: "n \<le> h_max (st_h s pool)"
    and new: "new \<noteq> 0" "16 dvd new" "new \<notin> fst ` set (live s)" "regions ((new, sz) # live s)"
    and c': "c' \<in> set ps"
    and s': "s' = s\<lparr>live := (new, sz) # live s,
      st_d := (\<lambda>q. (((st_d s)(new := \<lparr>d_last = new + 32 + n, d_end = new + sz, d_next = 0, d_failed = 0\<rparr>)) q)
         \<lparr>d_failed := G q\<rparr>)(last ps := (st_d s (last ps))\<lparr>d_failed := G (last ps), d_next := new\<rparr>),
      st_h := (st_h s)(pool := (st_h s pool)\<lparr>h_current := c'\<rparr>)\<rparr>"
  shows "lists_same pool s s'" "pool_rep pool sz F (ps @ [new]) ls cs chs ((new + 32, n) # U) W s'"
proof -
  note b = blocks_okD [OF pool_repD(1) [OF r]] and o = pool_repD(2) [OF r]
  have ne: "ps \<noteq> []" using b(5) by auto
  have np: "new \<notin> set ps" using new(3) owns_block [OF o] by force
  have nw: "(new, k) \<notin> set (live s)" for k using new(3) by force
  have nl: "new \<noteq> last ps" "new \<noteq> pool" using np ne b(5) by auto
  show same: "lists_same pool s s'" by (simp add: lists_same_def s')
  define f where "f = (next_d s)(new := 0)"
  have "npath f pool ps" unfolding f_def using b(6) np by (subst npath_cong [of ps _ "next_d s"]) auto
  then have "npath (f(last ps := new)) pool (ps @ [new])" using npath_snoc [of f pool ps new] ne new(1) np by (auto simp: f_def)
  moreover have "f(last ps := new) = next_d s'" using nl by (auto simp: f_def next_d_def s' fun_eq_iff)
  ultimately have pth: "npath (next_d s') pool (ps @ [new])" by simp
  have bo: "block_ok pool sz s' p" if "p \<in> set ps" for p
    using b(8) [OF that] that np by (auto simp: block_ok_def s')
  have bn: "block_ok pool sz s' new"
    using nl new(2) n b(2,4) by (auto simp: block_ok_def s' blk_start_def)
  have b': "blocks_ok pool sz (ps @ [new]) s'" unfolding blocks_ok_def
    using b pth bo bn c' by (auto simp: s')
  have o': "owns sz (ps @ [new]) W F s'"
    using o new(4) np nw by (auto simp: owns_def s')
  have span: "new + 32 + n \<le> new + sz" using n b(2,4) by auto
  show "pool_rep pool sz F (ps @ [new]) ls cs chs ((new + 32, n) # U) W s'"
  proof (rule pool_rep_alloc [OF r same b' o'])
    show "in_blocks pool (ps @ [new]) s' r" if "in_blocks pool ps s r" for r
      using that np unfolding in_blocks_def s' by fastforce
    show "in_blocks pool (ps @ [new]) s' (new + 32, n)" using nl by (auto simp: in_blocks_def s' blk_start_def)
    show "rdisj (new + 32, n) r" if ib: "in_blocks pool ps s r" for r
    proof -
      obtain p where p: "p \<in> set ps" "p + 32 \<le> fst r" "fst r + snd r \<le> p + sz"
        using in_blocks_span [OF pool_repD(1) [OF assms(2)] ib] by metis
      then have "p \<noteq> new" using np by auto
      then show ?thesis using blocks_apart [OF o', of p new] p span b(2) by (auto simp: rdisj_def)
    qed
  qed
qed

lemma rdisj_sym: "rdisj r q \<Longrightarrow> rdisj q r"
  by (auto simp: rdisj_def)

lemma last_in_path: "xs = ys @ zs \<Longrightarrow> zs \<noteq> [] \<Longrightarrow> last zs = last xs \<and> last xs \<in> set xs"
  by auto

lemma palloc_block_run:
  assumes os: "os_ok os" and r: "pool_rep pool sz F ps ls cs chs U W s" and n: "n \<le> h_max (st_h s pool)"
  obtains m s' ps' where "ngx_palloc_block os pool n s = Some (m, s')" "m = 0 \<longrightarrow> s' = s"
    "m \<noteq> 0 \<longrightarrow> 8 dvd m \<and> lists_same pool s s' \<and> pool_rep pool sz F ps' ls cs chs ((m, n) # U) W s'"
proof -
  note b = blocks_okD [OF pool_repD(1) [OF r]] and o = pool_repD(2) [OF r]
  have g: "get_d pool s = Some (st_d s pool)" using pool_rep_live(2) [OF r b(5)] by (simp add: get_d_def)
  have ps: "usub (d_end (st_d s pool)) pool = sz" using b(8) [OF b(5)] by (simp add: block_ok_def usub_def)
  obtain new s1 where mk: "ngx_memalign os 16 sz s = (new, s1)" by fastforce
  show thesis
  proof (cases "new = 0")
    case True
    then have "s1 = s" using mk by (auto simp: ngx_memalign_def Let_def split: if_splits)
    then show thesis using that [of 0 s ps] True mk g ps by (simp add: ngx_palloc_block_def)
  next
    case False
    have reg: "regions (live s)" using o by (simp add: owns_def)
    note nw = memalign_new [OF os reg mk False]
    have "8 dvd new" using nw(2) dvd_trans [of 8 16 new] by simp
    then have al: "ngx_align_ptr (new + 32) 8 = new + 32" by (intro align_8(3)) simp
    define D where "D = (st_d s)(new := \<lparr>d_last = new + 32 + n, d_end = new + sz, d_next = 0, d_failed = 0\<rparr>)"
    define s2 where "s2 = s\<lparr>live := (new, sz) # live s, st_d := D\<rparr>"
    have np: "new \<notin> set ps" using nw(3) owns_block [OF o] by force
    have lv: "in_live s2 q k" if "in_live s q k" for q k using that by (auto simp: in_live_def s2_def)
    have l1: "in_live s1 new 32" using b(2) by (auto simp: in_live_def nw(1))
    have pd: "put_d new (\<lambda>_. \<lparr>d_last = new + 32 + n, d_end = new + sz, d_next = 0, d_failed = 0\<rparr>) s1 = Some s2"
      using l1 by (simp add: put_d_def s2_def D_def nw(1))
    have gh: "get_h pool s2 = Some (st_h s pool)" using lv pool_rep_live(1) [OF r] by (simp add: get_h_def s2_def)
    obtain ys zs where yz: "ps = ys @ zs" "npath (next_d s) (h_current (st_h s pool)) zs" "zs \<noteq> []"
      using npath_from [OF b(6) b(7)] by blast
    have pz: "npath (next_d s2) (h_current (st_h s pool)) zs"
      using yz(2) np yz(1) by (subst npath_cong [of zs _ "next_d s"]) (auto simp: next_d_def s2_def D_def)
    obtain c' G where bl: "block_loop (h_current (st_h s pool)) (h_current (st_h s pool)) s2 =
        Some (last zs, c', s2\<lparr>st_d := (\<lambda>q. (st_d s2 q)\<lparr>d_failed := G q\<rparr>)\<rparr>)"
        and c': "c' = h_current (st_h s pool) \<or> c' \<in> set zs"
      using block_loop_run [OF pz yz(3), of "h_current (st_h s pool)"] lv pool_rep_live(2) [OF r] yz(1) by force
    have cp: "c' \<in> set ps" using c' b(7) yz(1) by auto
    have c0: "c' \<noteq> 0" using cp npath_nonnull [OF b(6)] by auto
    have lz: "last zs = last ps" "last ps \<in> set ps" using last_in_path [OF yz(1,3)] by auto
    define s3 where "s3 = s2\<lparr>st_d := (\<lambda>q. (st_d s2 q)\<lparr>d_failed := G q\<rparr>)\<rparr>"
    have l3: "in_live s3 q k" if "in_live s q k" for q k using lv [OF that] by (simp add: in_live_def s3_def)
    define s4 where "s4 = s3\<lparr>st_d := (st_d s3)(last ps := (st_d s3 (last ps))\<lparr>d_next := new\<rparr>)\<rparr>"
    have p4: "put_d (last ps) (\<lambda>d. d\<lparr>d_next := new\<rparr>) s3 = Some s4"
      using l3 pool_rep_live(2) [OF r lz(2)] by (simp add: put_d_def s4_def)
    define s5 where "s5 = s4\<lparr>st_h := (st_h s4)(pool := (st_h s4 pool)\<lparr>h_current := c'\<rparr>)\<rparr>"
    have "in_live s4 pool 80" using l3 pool_rep_live(1) [OF r] by (simp add: in_live_def s4_def)
    then have p5: "put_h pool (\<lambda>h. h\<lparr>h_current := (if c' = 0 then new else c')\<rparr>) s4 = Some s5"
      using c0 by (simp add: put_h_def s5_def)
    have run: "ngx_palloc_block os pool n s = Some (new + 32, s5)"
      using g ps mk False pd gh bl [folded s3_def] p4 p5 lz(1)
      by (simp add: ngx_palloc_block_def al Let_def)
    have "last ps \<noteq> new" using np lz(2) by auto
    then have s5: "s5 = s\<lparr>live := (new, sz) # live s,
      st_d := (\<lambda>q. (((st_d s)(new := \<lparr>d_last = new + 32 + n, d_end = new + sz, d_next = 0, d_failed = 0\<rparr>)) q)
         \<lparr>d_failed := G q\<rparr>)(last ps := (st_d s (last ps))\<lparr>d_failed := G (last ps), d_next := new\<rparr>),
      st_h := (st_h s)(pool := (st_h s pool)\<lparr>h_current := c'\<rparr>)\<rparr>"
      by (simp add: s5_def s4_def s3_def s2_def D_def fun_eq_iff)
    show thesis
      using that [of "new + 32" s5 "ps @ [new]"] run block_ok_new [OF os r n False nw(2-4) cp s5] \<open>8 dvd new\<close> by simp
  qed
qed

lemma palloc_small_run:
  assumes os: "os_ok os" and r: "pool_rep pool sz F ps ls cs chs U W s" and n: "n \<le> h_max (st_h s pool)"
  obtains m s' ps' where "palloc_small os al pool n s = Some (m, s')" "m = 0 \<longrightarrow> s' = s"
    "m \<noteq> 0 \<longrightarrow> (al \<longrightarrow> 8 dvd m) \<and> lists_same pool s s' \<and> pool_rep pool sz F ps' ls cs chs ((m, n) # U) W s'"
proof -
  note b = blocks_okD [OF pool_repD(1) [OF r]]
  have g: "get_h pool s = Some (st_h s pool)" using pool_rep_live(1) [OF r] by (simp add: get_h_def)
  obtain ys zs where yz: "ps = ys @ zs" "npath (next_d s) (h_current (st_h s pool)) zs" "zs \<noteq> []"
    using npath_from [OF b(6) b(7)] by blast
  consider (no) "palloc_loop al n (h_current (st_h s pool)) s = Some (None, s)"
    | (fit) q where "q \<in> set zs" "n \<le> usub (d_end (st_d s q)) (alloc_at al s q)"
        "palloc_loop al n (h_current (st_h s pool)) s = Some (Some (alloc_at al s q), bump q (alloc_at al s q + n) s)"
    using palloc_loop_run [OF yz(2,3), of al n] pool_rep_live(2) [OF r] yz(1) by force
  then show thesis
  proof cases
    case no
    obtain m s' ps' where x: "ngx_palloc_block os pool n s = Some (m, s')" "m = 0 \<longrightarrow> s' = s"
      "m \<noteq> 0 \<longrightarrow> 8 dvd m \<and> lists_same pool s s' \<and> pool_rep pool sz F ps' ls cs chs ((m, n) # U) W s'"
      using palloc_block_run [OF os r n] by metis
    show thesis using that [of m s' ps'] no x g by (simp add: palloc_small_def)
  next
    case fit
    then have q: "q \<in> set ps" using yz(1) by auto
    show thesis
      using that [of "alloc_at al s q" "bump q (alloc_at al s q + n) s" ps] fit(3) g fit_ok [OF r q refl fit(2) refl]
      by (simp add: palloc_small_def)
  qed
qed

text \<open>The list of large allocations.\<close>

lemma owns_give:
  assumes "owns sz ps W (insert r F) s" "r \<notin> F"
  shows "owns sz ps (r # W) F s"
  using assms by (auto simp: owns_def)

lemma regions_unique: "regions L \<Longrightarrow> r \<in> set L \<Longrightarrow> q \<in> set L \<Longrightarrow> fst r = fst q \<Longrightarrow> r = q"
  unfolding regions_def by blast

lemma owns_fresh:
  assumes o: "owns sz ps W (insert (p, n) F) s"
  shows "p \<notin> fst ` set W"
proof
  assume "p \<in> fst ` set W"
  then obtain k where k: "(p, k) \<in> set W" by auto
  then have "(p, n) \<in> set (live s)" "(p, n) \<notin> set W" "(p, k) \<in> set (live s)" using o by (auto simp: owns_def)
  then show False using regions_unique [of "live s" "(p, k)" "(p, n)"] o k by (auto simp: owns_def)
qed

lemma owns_free:
  assumes o: "owns sz ps W (insert (p, n) F) s" and nf: "(p, n) \<notin> F" and p: "p \<noteq> 0"
  shows "\<exists>s'. ngx_free p s = Some s' \<and> s' = s\<lparr>live := filter (\<lambda>r. fst r \<noteq> p) (live s)\<rparr> \<and> owns sz ps W F s'"
proof -
  have i: "(p, n) \<in> set (live s)" using o by (auto simp: owns_def)
  have u: "fst r = p \<longleftrightarrow> r = (p, n)" if "r \<in> set (live s)" for r
    using regions_unique [OF _ that i] o by (auto simp: owns_def)
  have "set (filter (\<lambda>r. fst r \<noteq> p) (live s)) = set (live s) - {(p, n)}" using u by auto
  moreover have "(p, n) \<notin> (\<lambda>p. (p, sz)) ` set ps \<union> set W" using o by (auto simp: owns_def)
  moreover have "regions (filter (\<lambda>r. fst r \<noteq> p) (live s))" using o by (auto simp: owns_def regions_def)
  ultimately have "owns sz ps W F (s\<lparr>live := filter (\<lambda>r. fst r \<noteq> p) (live s)\<rparr>)"
    using o nf unfolding owns_def by (auto simp del: set_filter)
  moreover have "p \<in> fst ` set (live s)" using i by force
  ultimately show ?thesis using p by (simp add: ngx_free_def)
qed

lemma meta_elems:
  "l \<in> set ls \<Longrightarrow> (l, 16) \<in> set (meta ls cs chs)" "c \<in> set cs \<Longrightarrow> (c, 24) \<in> set (meta ls cs chs)"
  "c \<in> set chs \<Longrightarrow> (c, 16) \<in> set (meta ls cs chs)"
  by (auto simp: meta_def)

lemma larges_okD:
  assumes "larges_ok pool W ls s"
  shows "npath (next_large s) (h_large (st_h s pool)) ls" "distinct W"
    "(\<lambda>l. l_alloc (st_large s l)) ` set ls - {0} = fst ` set W"
    "\<And>l k. l \<in> set ls \<Longrightarrow> k \<in> set ls \<Longrightarrow> l_alloc (st_large s l) = l_alloc (st_large s k) \<Longrightarrow>
       l_alloc (st_large s l) \<noteq> 0 \<Longrightarrow> l = k"
  using assms unfolding larges_ok_def by metis+

text \<open>What no allocation changes.\<close>

definition alloc_keeps :: "ptr \<Rightarrow> pool_mem \<Rightarrow> pool_mem \<Rightarrow> bool" where
  "alloc_keeps pool s s' \<longleftrightarrow> ram s' = ram s \<and> st_cleanup s' = st_cleanup s \<and> st_chain s' = st_chain s \<and>
     st_fd s' = st_fd s \<and> h_max (st_h s' pool) = h_max (st_h s pool) \<and>
     h_cleanup (st_h s' pool) = h_cleanup (st_h s pool) \<and> h_chain (st_h s' pool) = h_chain (st_h s pool)"

lemma large_link_run:
  assumes r: "pool_rep pool sz (insert (p, n) F) ps ls cs chs ((large, 16) # U) W s"
    and nf: "(p, n) \<notin> F" and p: "p \<noteq> 0" and large: "large \<noteq> 0"
  obtains s' where "large_link pool p large s = Some (p, s')" "alloc_keeps pool s s'"
    "pool_rep pool sz F ps (large # ls) cs chs U ((p, n) # W) s'"
proof -
  note b = blocks_okD [OF pool_repD(1) [OF r]] and o = pool_repD(2) [OF r] and lo = pool_repD(3) [OF r]
  have ll: "in_live s large 16" using pool_rep_live(3) [OF r, of large 16] by simp
  have lp: "in_live s pool 80" by (rule pool_rep_live(1) [OF r])
  have nl: "large \<notin> set ls"
  proof
    assume "large \<in> set ls"
    then have "rdisj (large, 16) (large, 16)" using pool_repD(6) [OF r] meta_elems(1) by fastforce
    then show False by (simp add: rdisj_def)
  qed
  define s' where "s' = s\<lparr>st_large := (st_large s)(large := (st_large s large)\<lparr>l_alloc := p, l_next := h_large (st_h s pool)\<rparr>),
     st_h := (st_h s)(pool := (st_h s pool)\<lparr>h_large := large\<rparr>)\<rparr>"
  have run: "large_link pool p large s = Some (p, s')"
    using large ll lp by (simp add: large_link_def put_large_def get_h_def put_h_def in_live_def s'_def)
  have pw: "p \<notin> fst ` set W" by (rule owns_fresh [OF o])
  have b': "blocks_ok pool sz ps s'" using b by (auto simp: blocks_ok_def block_ok_def s'_def next_d_def [abs_def])
  have o': "owns sz ps ((p, n) # W) F s'" using owns_give [OF o nf] by (simp add: owns_def s'_def)
  have lsame: "l_alloc (st_large s' l) = l_alloc (st_large s l)" if "l \<in> set ls" for l
    using that nl by (auto simp: s'_def)
  have "npath (next_large s) (h_large (st_h s pool)) ls" using lo by (simp add: larges_ok_def)
  moreover have "npath (next_large s') (h_large (st_h s pool)) ls = npath (next_large s) (h_large (st_h s pool)) ls"
    using nl by (intro npath_cong) (auto simp: next_large_def s'_def)
  ultimately have pl: "npath (next_large s') (h_large (st_h s' pool)) (large # ls)"
    using large by (simp add: next_large_def s'_def)
  have new: "l_alloc (st_large s' large) = p" by (simp add: s'_def)
  have img: "(\<lambda>l. l_alloc (st_large s' l)) ` set (large # ls) - {0} = fst ` set ((p, n) # W)"
  proof -
    have "(\<lambda>l. l_alloc (st_large s' l)) ` set ls = (\<lambda>l. l_alloc (st_large s l)) ` set ls" using lsame by auto
    moreover have "(\<lambda>l. l_alloc (st_large s l)) ` set ls - {0} = fst ` set W" using lo by (simp add: larges_ok_def)
    ultimately show ?thesis using p new by (simp add: insert_Diff_if)
  qed
  have al: "l_alloc (st_large s l) \<noteq> p" if "l \<in> set ls" for l
  proof
    assume "l_alloc (st_large s l) = p"
    then have "p \<in> (\<lambda>l. l_alloc (st_large s l)) ` set ls - {0}" using that p by auto
    then show False using larges_okD(3) [OF lo] pw by simp
  qed
  have lo': "larges_ok pool ((p, n) # W) (large # ls) s'"
    unfolding larges_ok_def
  proof (intro conjI ballI impI)
    have "(p, n) \<notin> set W" using pw by force
    then show "distinct ((p, n) # W)" using larges_okD(2) [OF lo] by simp
    fix l k assume lk: "l \<in> set (large # ls)" "k \<in> set (large # ls)"
      "l_alloc (st_large s' l) = l_alloc (st_large s' k)" "l_alloc (st_large s' l) \<noteq> 0"
    show "l = k"
    proof (cases "l = large \<or> k = large")
      case True
      then show ?thesis using lk new al lsame by (metis set_ConsD)
    next
      case False
      then have "l \<in> set ls" "k \<in> set ls" using lk by auto
      then show ?thesis using lk lsame larges_okD(4) [OF lo] by metis
    qed
  qed (fact pl img)+
  have pc: "npath (next_cleanup s') (h_cleanup (st_h s' pool)) cs" "npath (next_chain s') (h_chain (st_h s' pool)) chs"
    using pool_repD(4,5) [OF r] by (auto simp: s'_def next_cleanup_def [abs_def] next_chain_def [abs_def])
  have m: "set (U @ meta (large # ls) cs chs) = set (((large, 16) # U) @ meta ls cs chs)" by (auto simp: meta_def)
  have srt: "sorted_wrt rdisj (U @ meta (large # ls) cs chs)"
    using pool_repD(6) [OF r] by (auto simp: meta_def sorted_wrt_append intro: rdisj_sym)
  have inb: "in_blocks pool ps s' q = in_blocks pool ps s q" for q by (simp add: in_blocks_def s'_def)
  have "pool_rep pool sz F ps (large # ls) cs chs U ((p, n) # W) s'"
    unfolding pool_rep_def using b' o' lo' pc srt pool_repD(7) [OF r] inb m by auto
  then show thesis using that [of s'] run by (simp add: s'_def alloc_keeps_def)
qed

definition set_alloc :: "ptr \<Rightarrow> ptr \<Rightarrow> pool_mem \<Rightarrow> pool_mem" where
  "set_alloc l p s = s\<lparr>st_large := (st_large s)(l := (st_large s l)\<lparr>l_alloc := p\<rparr>)\<rparr>"

lemma set_alloc_simps [simp]:
  "live (set_alloc l p s) = live s" "ram (set_alloc l p s) = ram s" "st_d (set_alloc l p s) = st_d s"
  "st_h (set_alloc l p s) = st_h s" "st_cleanup (set_alloc l p s) = st_cleanup s"
  "st_chain (set_alloc l p s) = st_chain s" "st_fd (set_alloc l p s) = st_fd s"
  "next_large (set_alloc l p s) = next_large s" "next_d (set_alloc l p s) = next_d s"
  "next_cleanup (set_alloc l p s) = next_cleanup s" "next_chain (set_alloc l p s) = next_chain s"
  "l_alloc (st_large (set_alloc l p s) k) = (if k = l then p else l_alloc (st_large s k))"
  by (auto simp: set_alloc_def next_large_def next_d_def next_cleanup_def next_chain_def fun_eq_iff)

lemma large_reuse_run:
  "npath (next_large s) large zs \<Longrightarrow> (\<And>l. l \<in> set zs \<Longrightarrow> in_live s l 16) \<Longrightarrow>
   large_reuse n p large s = Some (False, s) \<or>
   (\<exists>l\<in>set zs. l_alloc (st_large s l) = 0 \<and> large_reuse n p large s = Some (True, set_alloc l p s))"
proof (induction zs arbitrary: n large)
  case Nil
  then show ?case by (simp add: large_reuse.simps)
next
  case (Cons x xs)
  have x: "large = x" "x \<noteq> 0" "npath (next_large s) (l_next (st_large s x)) xs"
    using Cons.prems(1) by (auto simp flip: next_large_def)
  have l: "in_live s x 16" using Cons.prems(2) by auto
  have e: "large_reuse n p large s =
    (if l_alloc (st_large s x) = 0 then Some (True, set_alloc x p s)
     else if 3 < n then Some (False, s) else large_reuse (Suc n) p (l_next (st_large s x)) s)"
    using x(1,2) l by (subst large_reuse.simps) (simp add: get_large_def put_large_def set_alloc_def)
  show ?case
  proof (cases "l_alloc (st_large s x) = 0 \<or> 3 < n")
    case True
    then show ?thesis using e by auto
  next
    case False
    have "large_reuse n p large s = large_reuse (Suc n) p (l_next (st_large s x)) s" using e False by simp
    then show ?thesis using Cons.IH [OF x(3)] Cons.prems(2) by (metis list.set_intros(2))
  qed
qed

lemma pool_rep_set_alloc:
  assumes "pool_rep pool sz F ps ls cs chs U W s" "owns sz ps W' F' (set_alloc l p s)"
    "larges_ok pool W' ls (set_alloc l p s)"
  shows "pool_rep pool sz F' ps ls cs chs U W' (set_alloc l p s)"
  using assms by (simp add: pool_rep_def blocks_ok_def block_ok_def in_blocks_def)

lemma reuse_ok:
  assumes r: "pool_rep pool sz (insert (p, n) F) ps ls cs chs U W s"
    and nf: "(p, n) \<notin> F" and p: "p \<noteq> 0" and l: "l \<in> set ls" "l_alloc (st_large s l) = 0"
  shows "pool_rep pool sz F ps ls cs chs U ((p, n) # W) (set_alloc l p s)"
proof (rule pool_rep_set_alloc [OF r])
  note o = pool_repD(2) [OF r] and lo = pool_repD(3) [OF r]
  show "owns sz ps ((p, n) # W) F (set_alloc l p s)" using owns_give [OF o nf] by (simp add: owns_def)
  have pw: "p \<notin> fst ` set W" by (rule owns_fresh [OF o])
  let ?f = "\<lambda>k. l_alloc (st_large s k)"
  have al: "?f k \<noteq> p" if "k \<in> set ls" for k
  proof
    assume "?f k = p"
    then have "p \<in> ?f ` set ls - {0}" using that p by auto
    then show False using larges_okD(3) [OF lo] pw by simp
  qed
  have img: "(\<lambda>k. l_alloc (st_large (set_alloc l p s) k)) ` set ls - {0} = insert p (?f ` set ls - {0})"
    using l p by auto
  show "larges_ok pool ((p, n) # W) ls (set_alloc l p s)"
    unfolding larges_ok_def
  proof (intro conjI ballI impI)
    show "npath (next_large (set_alloc l p s)) (h_large (st_h (set_alloc l p s) pool)) ls" using larges_okD(1) [OF lo] by simp
    have "(p, n) \<notin> set W" using pw by force
    then show "distinct ((p, n) # W)" using larges_okD(2) [OF lo] by simp
    show "(\<lambda>k. l_alloc (st_large (set_alloc l p s) k)) ` set ls - {0} = fst ` set ((p, n) # W)"
      unfolding img larges_okD(3) [OF lo] by simp
    fix j k assume jk: "j \<in> set ls" "k \<in> set ls"
      "l_alloc (st_large (set_alloc l p s) j) = l_alloc (st_large (set_alloc l p s) k)"
      "l_alloc (st_large (set_alloc l p s) j) \<noteq> 0"
    show "j = k"
    proof (cases "j = l \<or> k = l")
      case True
      then show ?thesis using jk al by (auto split: if_splits)
    next
      case False
      then show ?thesis using jk larges_okD(4) [OF lo] by simp
    qed
  qed
qed

text \<open>The invariant with the blocks and the list entries hidden, and the outcome of an allocation.\<close>

definition pool_inv :: "ptr \<Rightarrow> nat \<Rightarrow> region set \<Rightarrow> ptr list \<Rightarrow> ptr list \<Rightarrow> region list \<Rightarrow> region list \<Rightarrow> pool_mem \<Rightarrow> bool" where
  "pool_inv pool sz F cs chs U W s \<longleftrightarrow> (\<exists>ps ls. pool_rep pool sz F ps ls cs chs U W s)"

definition alloc_done ::
    "ptr \<Rightarrow> nat \<Rightarrow> region set \<Rightarrow> ptr list \<Rightarrow> ptr list \<Rightarrow> region list \<Rightarrow> region list \<Rightarrow> nat \<Rightarrow> nat \<Rightarrow>
     pool_mem \<Rightarrow> ptr \<Rightarrow> pool_mem \<Rightarrow> bool" where
  "alloc_done pool sz F cs chs U W a n s m s' \<longleftrightarrow>
     alloc_keeps pool s s' \<and>
     (if m = 0 then pool_inv pool sz F cs chs U W s'
      else a dvd m \<and> (pool_inv pool sz F cs chs ((m, n) # U) W s' \<or> pool_inv pool sz F cs chs U ((m, n) # W) s'))"

lemma lists_same_keeps: "lists_same pool s s' \<Longrightarrow> alloc_keeps pool s s'"
  by (simp add: lists_same_def alloc_keeps_def)

lemma alloc_keeps_refl [simp]: "alloc_keeps pool s s"
  by (simp add: alloc_keeps_def)

lemma alloc_keeps_trans: "alloc_keeps pool s t \<Longrightarrow> alloc_keeps pool t u \<Longrightarrow> alloc_keeps pool s u"
  by (simp add: alloc_keeps_def)

lemma pool_rep_new_region:
  assumes r: "pool_rep pool sz F ps ls cs chs U W s" and reg: "regions ((p, n) # live s)" and p: "p \<notin> fst ` set (live s)"
  shows "pool_rep pool sz (insert (p, n) F) ps ls cs chs U W (s\<lparr>live := (p, n) # live s\<rparr>)" "(p, n) \<notin> F"
proof -
  note o = pool_repD(2) [OF r]
  have nw: "(p, k) \<notin> set (live s)" for k using p by force
  then show "(p, n) \<notin> F" using o by (auto simp: owns_def)
  have "owns sz ps W (insert (p, n) F) (s\<lparr>live := (p, n) # live s\<rparr>)"
    using o reg nw by (auto simp: owns_def)
  then show "pool_rep pool sz (insert (p, n) F) ps ls cs chs U W (s\<lparr>live := (p, n) # live s\<rparr>)"
    using r by (auto simp: pool_rep_def blocks_ok_def block_ok_def in_blocks_def larges_ok_def
        next_d_def [abs_def] next_large_def [abs_def] next_cleanup_def [abs_def] next_chain_def [abs_def])
qed

lemma pool_rep_free_region:
  assumes r: "pool_rep pool sz (insert (p, n) F) ps ls cs chs U W s" and nf: "(p, n) \<notin> F" and p: "p \<noteq> 0"
  obtains s' where "ngx_free p s = Some s'" "s' = s\<lparr>live := filter (\<lambda>r. fst r \<noteq> p) (live s)\<rparr>"
    "pool_rep pool sz F ps ls cs chs U W s'"
proof -
  obtain s' where s': "ngx_free p s = Some s'" "s' = s\<lparr>live := filter (\<lambda>r. fst r \<noteq> p) (live s)\<rparr>" "owns sz ps W F s'"
    using owns_free [OF pool_repD(2) [OF r] nf p] by blast
  have "pool_rep pool sz F ps ls cs chs U W s'"
    using r s'(3) by (auto simp: s'(2) pool_rep_def blocks_ok_def block_ok_def in_blocks_def larges_ok_def
        next_d_def [abs_def] next_large_def [abs_def] next_cleanup_def [abs_def] next_chain_def [abs_def])
  then show thesis using that s' by blast
qed

lemma pool_invI: "pool_rep pool sz F ps ls cs chs U W s \<Longrightarrow> pool_inv pool sz F cs chs U W s"
  by (auto simp: pool_inv_def)

lemma link_or_free:
  assumes r: "pool_rep pool sz (insert (p, n) F) ps ls cs chs U W s" and nf: "(p, n) \<notin> F" and p: "p \<noteq> 0"
    and small: "palloc_small os True pool 16 s = Some (large, s1)" "os_ok os"
  obtains m s' where "large_link pool p large s1 = Some (m, s')" "m = 0 \<or> m = p" "alloc_keeps pool s s'"
    "if m = 0 then pool_inv pool sz F cs chs U W s' else pool_inv pool sz F cs chs U ((m, n) # W) s'"
proof -
  note b = blocks_okD [OF pool_repD(1) [OF r]]
  obtain m0 s0 ps' where y: "palloc_small os True pool 16 s = Some (m0, s0)" "m0 = 0 \<longrightarrow> s0 = s"
    "m0 \<noteq> 0 \<longrightarrow> (True \<longrightarrow> 8 dvd m0) \<and> lists_same pool s s0 \<and>
       pool_rep pool sz (insert (p, n) F) ps' ls cs chs ((m0, 16) # U) W s0"
    by (rule palloc_small_run [OF small(2) r b(3), of True])
  have e: "m0 = large" "s0 = s1" using y(1) small(1) by auto
  show thesis
  proof (cases "large = 0")
    case True
    obtain s' where s': "ngx_free p s = Some s'" "s' = s\<lparr>live := filter (\<lambda>r. fst r \<noteq> p) (live s)\<rparr>"
      "pool_rep pool sz F ps ls cs chs U W s'" by (rule pool_rep_free_region [OF r nf p])
    have "alloc_keeps pool s s'" by (simp add: s'(2) alloc_keeps_def)
    moreover have "large_link pool p large s1 = Some (0, s')" using True y(2) e s'(1) by (simp add: large_link_def)
    ultimately show thesis using that [of 0 s'] pool_invI [OF s'(3)] by simp
  next
    case False
    then have r1: "pool_rep pool sz (insert (p, n) F) ps' ls cs chs ((large, 16) # U) W s1" and same: "lists_same pool s s1"
      using y(3) e by auto
    obtain s' where s': "large_link pool p large s1 = Some (p, s')" "alloc_keeps pool s1 s'"
      "pool_rep pool sz F ps' (large # ls) cs chs U ((p, n) # W) s'"
      by (rule large_link_run [OF r1 nf p False])
    show thesis
      using that [OF s'(1) _ alloc_keeps_trans [OF lists_same_keeps [OF same] s'(2)]] p pool_invI [OF s'(3)] by simp
  qed
qed

lemma palloc_large_run:
  assumes os: "os_ok os" and r: "pool_rep pool sz F ps ls cs chs U W s"
  obtains m s' where "ngx_palloc_large os pool n s = Some (m, s')" "alloc_keeps pool s s'"
    "if m = 0 then pool_inv pool sz F cs chs U W s' else 16 dvd m \<and> pool_inv pool sz F cs chs U ((m, n) # W) s'"
proof -
  obtain p s1 where mk: "ngx_alloc os n s = (p, s1)" by fastforce
  show thesis
  proof (cases "p = 0")
    case True
    then have "s1 = s" using mk by (auto simp: ngx_alloc_def Let_def split: if_splits)
    then have "ngx_palloc_large os pool n s = Some (0, s)" using True mk by (subst ngx_palloc_large.simps) simp
    then show thesis using that [of 0 s] pool_invI [OF r] by simp
  next
    case False
    have reg: "regions (live s)" using pool_repD(2) [OF r] by (simp add: owns_def)
    note nw = malloc_new [OF os reg mk False]
    have r1: "pool_rep pool sz (insert (p, n) F) ps ls cs chs U W s1" and nf: "(p, n) \<notin> F"
      using pool_rep_new_region [OF r nw(4,3)] nw(1) by auto
    have k1: "alloc_keeps pool s s1" by (simp add: nw(1) alloc_keeps_def)
    note b = blocks_okD [OF pool_repD(1) [OF r1]]
    have gh: "get_h pool s1 = Some (st_h s1 pool)" using pool_rep_live(1) [OF r1] by (simp add: get_h_def)
    have il: "in_live s1 l 16" if "l \<in> set ls" for l using pool_rep_live(3) [OF r1] meta_elems(1) [OF that] by auto
    consider (no) "large_reuse 0 p (h_large (st_h s1 pool)) s1 = Some (False, s1)"
      | (yes) l where "l \<in> set ls" "l_alloc (st_large s1 l) = 0"
          "large_reuse 0 p (h_large (st_h s1 pool)) s1 = Some (True, set_alloc l p s1)"
      using large_reuse_run [OF larges_okD(1) [OF pool_repD(3) [OF r1]] il, of 0 p] by blast
    then show thesis
    proof cases
      case no
      obtain large s2 where sm: "palloc_small os True pool 16 s1 = Some (large, s2)"
        by (rule palloc_small_run [OF os r1 b(3), of True])
      obtain m s' where m: "large_link pool p large s2 = Some (m, s')" "m = 0 \<or> m = p" "alloc_keeps pool s1 s'"
        "if m = 0 then pool_inv pool sz F cs chs U W s' else pool_inv pool sz F cs chs U ((m, n) # W) s'"
        by (rule link_or_free [OF r1 nf False sm os])
      have "ngx_palloc_large os pool n s = Some (m, s')"
        using mk False gh no b(3) sm m(1) by (subst ngx_palloc_large.simps) simp
      then show thesis using that [of m s'] alloc_keeps_trans [OF k1 m(3)] m(2,4) nw(2) by (auto split: if_splits)
    next
      case yes
      have "ngx_palloc_large os pool n s = Some (p, set_alloc l p s1)"
        using mk False gh yes by (subst ngx_palloc_large.simps) simp
      moreover have "alloc_keeps pool s (set_alloc l p s1)" using k1 by (simp add: alloc_keeps_def)
      ultimately show thesis using that [of p "set_alloc l p s1"] False nw(2) reuse_ok [OF r1 nf False yes(1,2)]
        by (auto simp: pool_inv_def)
    qed
  qed
qed

lemma small_done:
  assumes os: "os_ok os" and r: "pool_rep pool sz F ps ls cs chs U W s" and n: "n \<le> h_max (st_h s pool)"
  obtains m s' where "palloc_small os al pool n s = Some (m, s')"
    "alloc_done pool sz F cs chs U W (if al then 8 else 1) n s m s'"
proof -
  obtain m s' ps' where x: "palloc_small os al pool n s = Some (m, s')" "m = 0 \<longrightarrow> s' = s"
    "m \<noteq> 0 \<longrightarrow> (al \<longrightarrow> 8 dvd m) \<and> lists_same pool s s' \<and> pool_rep pool sz F ps' ls cs chs ((m, n) # U) W s'"
    by (rule palloc_small_run [OF os r n, of al])
  have "alloc_done pool sz F cs chs U W (if al then 8 else 1) n s m s'"
  proof (cases "m = 0")
    case True
    then show ?thesis using x(2) pool_invI [OF r] by (simp add: alloc_done_def)
  next
    case False
    then show ?thesis using x(3) pool_invI [of pool sz F ps' ls cs chs "(m, n) # U" W s'] lists_same_keeps [of pool s s']
      by (simp add: alloc_done_def)
  qed
  then show thesis using that x(1) by blast
qed

lemma large_done:
  assumes os: "os_ok os" and r: "pool_rep pool sz F ps ls cs chs U W s" and a: "a dvd 16"
  obtains m s' where "ngx_palloc_large os pool n s = Some (m, s')" "alloc_done pool sz F cs chs U W a n s m s'"
proof -
  obtain m s' where x: "ngx_palloc_large os pool n s = Some (m, s')" "alloc_keeps pool s s'"
    "if m = 0 then pool_inv pool sz F cs chs U W s' else 16 dvd m \<and> pool_inv pool sz F cs chs U ((m, n) # W) s'"
    by (rule palloc_large_run [OF os r])
  then have "alloc_done pool sz F cs chs U W a n s m s'"
    using dvd_trans [OF a, of m] by (auto simp: alloc_done_def split: if_splits)
  then show thesis using that x(1) by blast
qed

lemma ngx_palloc_run:
  assumes os: "os_ok os" and i: "pool_inv pool sz F cs chs U W s"
  obtains m s' where "ngx_palloc os pool n s = Some (m, s')" "alloc_done pool sz F cs chs U W 8 n s m s'"
proof -
  obtain ps ls where r: "pool_rep pool sz F ps ls cs chs U W s" using i by (auto simp: pool_inv_def)
  have gh: "get_h pool s = Some (st_h s pool)" using pool_rep_live(1) [OF r] by (simp add: get_h_def)
  show thesis
  proof (cases "n \<le> h_max (st_h s pool)")
    case True
    show thesis by (rule small_done [OF os r True, of True]) (use that gh True in \<open>simp add: ngx_palloc_def\<close>)
  next
    case False
    show thesis by (rule large_done [OF os r, of 8 n]) (use that gh False in \<open>simp_all add: ngx_palloc_def\<close>)
  qed
qed

lemma ngx_pnalloc_run:
  assumes os: "os_ok os" and i: "pool_inv pool sz F cs chs U W s"
  obtains m s' where "ngx_pnalloc os pool n s = Some (m, s')" "alloc_done pool sz F cs chs U W 1 n s m s'"
proof -
  obtain ps ls where r: "pool_rep pool sz F ps ls cs chs U W s" using i by (auto simp: pool_inv_def)
  have gh: "get_h pool s = Some (st_h s pool)" using pool_rep_live(1) [OF r] by (simp add: get_h_def)
  show thesis
  proof (cases "n \<le> h_max (st_h s pool)")
    case True
    show thesis by (rule small_done [OF os r True, of False]) (use that gh True in \<open>simp add: ngx_pnalloc_def\<close>)
  next
    case False
    show thesis by (rule large_done [OF os r, of 1 n]) (use that gh False in \<open>simp_all add: ngx_pnalloc_def\<close>)
  qed
qed

lemma ngx_pmemalign_run:
  assumes os: "os_ok os" and r: "pool_inv pool sz F cs chs U W s"
  obtains m s' where "ngx_pmemalign os pool n a s = Some (m, s')" "alloc_done pool sz F cs chs U W a n s m s'"
proof -
  obtain ps ls where r: "pool_rep pool sz F ps ls cs chs U W s" using r by (auto simp: pool_inv_def)
  obtain p s1 where mk: "ngx_memalign os a n s = (p, s1)" by fastforce
  show thesis
  proof (cases "p = 0")
    case True
    then have "s1 = s" using mk by (auto simp: ngx_memalign_def Let_def split: if_splits)
    then show thesis using that [of 0 s] True mk r by (auto simp: ngx_pmemalign_def pool_inv_def alloc_done_def)
  next
    case False
    have reg: "regions (live s)" using pool_repD(2) [OF r] by (simp add: owns_def)
    note nw = memalign_new [OF os reg mk False]
    have r1: "pool_rep pool sz (insert (p, n) F) ps ls cs chs U W s1" and nf: "(p, n) \<notin> F"
      using pool_rep_new_region [OF r nw(4,3)] nw(1) by auto
    have k1: "alloc_keeps pool s s1" by (simp add: nw(1) alloc_keeps_def)
    note b = blocks_okD [OF pool_repD(1) [OF r1]]
    have gh: "get_h pool s1 = Some (st_h s1 pool)" using pool_rep_live(1) [OF r1] by (simp add: get_h_def)
    obtain large s2 where sm: "palloc_small os True pool 16 s1 = Some (large, s2)"
      by (rule palloc_small_run [OF os r1 b(3), of True])
    then have pa: "ngx_palloc os pool 16 s1 = Some (large, s2)" using gh b(3) by (simp add: ngx_palloc_def)
    obtain m s' where m: "large_link pool p large s2 = Some (m, s')" "m = 0 \<or> m = p" "alloc_keeps pool s1 s'"
      "if m = 0 then pool_inv pool sz F cs chs U W s' else pool_inv pool sz F cs chs U ((m, n) # W) s'"
      by (rule link_or_free [OF r1 nf False sm os])
    have "ngx_pmemalign os pool n a s = Some (m, s')" using mk False pa m(1) by (simp add: ngx_pmemalign_def)
    then show thesis using that [of m s'] alloc_keeps_trans [OF k1 m(3)] m(2,4) nw(2)
      by (auto simp: alloc_done_def split: if_splits)
  qed
qed

end
