(* ===== verification/Ngx_Pool.thy ===== *)
theory Ngx_Pool
  imports Ngx_Palloc
begin

text \<open>
  The pools of \<^verbatim>\<open>Ngx_Palloc\<close> in use: freeing, chain links, cleanups, reset and destruction, and the states a user of a
  pool can reach.

  Shown: neither allocations nor the structures of a pool overlap, every operation returns, the cleanups run from the last
  added to the first, nothing leaks and nothing is freed twice; and
  where the code goes wrong: pools that are too small, blocks with an unaligned end, resetting a pool with free links.
\<close>

section \<open>Creating and freeing\<close>

lemma create_pool_run:
  assumes os: "os_ok os" and reg: "regions (live s)" and sz: "16 dvd sz" "112 \<le> sz"
  obtains "ngx_create_pool os sz s = Some (0, s)"
  | p s' where "ngx_create_pool os sz s = Some (p, s')" "p \<noteq> 0" "pool_inv p sz (set (live s)) [] [] [] [] s'"
proof -
  obtain p s1 where mk: "ngx_memalign os 16 sz s = (p, s1)" by fastforce
  show thesis
  proof (cases "p = 0")
    case True
    then have "s1 = s" using mk by (auto simp: ngx_memalign_def Let_def split: if_splits)
    then show thesis using that(1) True mk by (simp add: ngx_create_pool_def)
  next
    case False
    note nw = memalign_new [OF os reg mk False]
    define d where "d = \<lparr>d_last = p + 80, d_end = p + sz, d_next = 0, d_failed = 0\<rparr>"
    define h where "h = \<lparr>h_max = (if sz - 80 < os_pagesize os - 1 then sz - 80 else os_pagesize os - 1),
      h_current = p, h_chain = 0, h_large = 0, h_cleanup = 0\<rparr>"
    define s' where "s' = s\<lparr>live := (p, sz) # live s, st_d := (st_d s)(p := d), st_h := (st_h s)(p := h)\<rparr>"
    have "in_live s1 p 32" "in_live s1 p 80" using sz(2) by (auto simp: nw(1) in_live_def)
    then have run: "ngx_create_pool os sz s = Some (p, s')"
      using mk False sz(2) by (simp add: ngx_create_pool_def Let_def put_d_def put_h_def in_live_def usub_def s'_def d_def h_def nw(1))
    have "4096 \<le> os_pagesize os" using os by (simp add: os_ok_def)
    then have "blocks_ok p sz [p] s'"
      using sz False nw(2) by (auto simp: blocks_ok_def block_ok_def s'_def d_def h_def next_d_def blk_start_def)
    moreover have "owns sz [p] [] (set (live s)) s'"
      using nw(3,4) by (force simp: owns_def s'_def)
    moreover have "larges_ok p [] [] s'" by (simp add: larges_ok_def s'_def h_def)
    ultimately have "pool_rep p sz (set (live s)) [p] [] [] [] [] [] s'"
      by (simp add: pool_rep_def meta_def s'_def h_def)
    then show thesis using that(2) run False pool_invI by blast
  qed
qed

lemma pool_inv_ram: "pool_inv pool sz F cs chs U W (s\<lparr>ram := R\<rparr>) = pool_inv pool sz F cs chs U W s"
  by (simp add: pool_inv_def pool_rep_def blocks_ok_def block_ok_def in_blocks_def larges_ok_def owns_def
      next_d_def [abs_def] next_large_def [abs_def] next_cleanup_def [abs_def] next_chain_def [abs_def])

lemma pool_inv_live_user:
  assumes "pool_inv pool sz F cs chs U W s" "(a, n) \<in> set (U @ W)"
  shows "in_live s a n"
proof -
  obtain ps ls where r: "pool_rep pool sz F ps ls cs chs U W s" using assms(1) by (auto simp: pool_inv_def)
  show ?thesis
  proof (cases "(a, n) \<in> set U")
    case True
    then show ?thesis using pool_rep_live(3) [OF r] by simp
  next
    case False
    then have "(a, n) \<in> set (live s)" using assms(2) pool_repD(2) [OF r] by (auto simp: owns_def)
    then show ?thesis unfolding in_live_def by (rule bexI [rotated]) simp
  qed
qed

lemma ngx_pcalloc_run:
  assumes os: "os_ok os" and i: "pool_inv pool sz F cs chs U W s"
  obtains s' where "ngx_pcalloc os pool n s = Some (0, s')" "pool_inv pool sz F cs chs U W s'" "ram s' = ram s"
  | m s' where "ngx_pcalloc os pool n s = Some (m, s')" "m \<noteq> 0" "8 dvd m"
    "pool_inv pool sz F cs chs ((m, n) # U) W s' \<or> pool_inv pool sz F cs chs U ((m, n) # W) s'"
    "\<forall>k<n. ram s' (m + k) = 0" "\<forall>x. (x < m \<or> m + n \<le> x) \<longrightarrow> ram s' x = ram s x"
proof -
  obtain m s1 where a: "ngx_palloc os pool n s = Some (m, s1)" "alloc_done pool sz F cs chs U W 8 n s m s1"
    by (rule ngx_palloc_run [OF os i])
  show thesis
  proof (cases "m = 0")
    case True
    then show thesis using that(1) [of s1] a by (simp add: ngx_pcalloc_def alloc_done_def alloc_keeps_def)
  next
    case False
    then have inv: "pool_inv pool sz F cs chs ((m, n) # U) W s1 \<or> pool_inv pool sz F cs chs U ((m, n) # W) s1"
      and al: "8 dvd m" and rm: "ram s1 = ram s" using a(2) by (auto simp: alloc_done_def alloc_keeps_def)
    have "in_live s1 m n" using inv pool_inv_live_user by (metis in_set_conv_decomp list.set_intros(1) Un_iff set_append)
    define R where "R = (\<lambda>x. if m \<le> x \<and> x < m + n then 0 else ram s1 x)"
    have "ngx_pcalloc os pool n s = Some (m, s1\<lparr>ram := R\<rparr>)"
      using False a(1) \<open>in_live s1 m n\<close> by (simp add: ngx_pcalloc_def ngx_memzero_def ram_write_def R_def)
    then show thesis using that(2) [of m "s1\<lparr>ram := R\<rparr>"] False al inv rm
      by (simp add: pool_inv_ram R_def)
  qed
qed

text \<open>\<open>ngx_pfree\<close>.\<close>

lemma pfree_loop_skip:
  "npath (next_large s) large (ys @ zs) \<Longrightarrow> (\<And>l. l \<in> set ys \<Longrightarrow> in_live s l 16 \<and> l_alloc (st_large s l) \<noteq> p) \<Longrightarrow>
   \<exists>q. npath (next_large s) q zs \<and> pfree_loop p large s = pfree_loop p q s"
proof (induction ys arbitrary: large)
  case Nil
  then show ?case by auto
next
  case (Cons x xs)
  have x: "large = x" "x \<noteq> 0" "npath (next_large s) (l_next (st_large s x)) (xs @ zs)"
    using Cons.prems(1) by (auto simp flip: next_large_def)
  have l: "in_live s x 16" "l_alloc (st_large s x) \<noteq> p" using Cons.prems(2) by auto
  have e: "pfree_loop p large s = pfree_loop p (l_next (st_large s x)) s"
    using x(1,2) l by (subst pfree_loop.simps) (auto simp: get_large_def)
  show ?case unfolding e by (rule Cons.IH [OF x(3)]) (simp add: Cons.prems(2))
qed

lemma owns_take:
  assumes "owns sz ps W F s" "r \<in> set W" "distinct W"
  shows "owns sz ps (remove1 r W) (insert r F) s" "r \<notin> F"
proof -
  have "set W = insert r (set (remove1 r W))" "r \<notin> set (remove1 r W)" using assms(2,3) by auto
  then show "owns sz ps (remove1 r W) (insert r F) s" "r \<notin> F" using assms(1) unfolding owns_def by auto
qed

lemma pool_rep_cong:
  assumes "pool_rep pool sz F ps ls cs chs U W s" "st_d s' = st_d s" "st_h s' = st_h s" "st_cleanup s' = st_cleanup s"
    "st_chain s' = st_chain s" "owns sz ps W' F' s'" "larges_ok pool W' ls s'"
  shows "pool_rep pool sz F' ps ls cs chs U W' s'"
  using assms by (simp add: pool_rep_def blocks_ok_def block_ok_def in_blocks_def
      next_d_def [abs_def] next_cleanup_def [abs_def] next_chain_def [abs_def])

lemma larges_ok_unlink:
  assumes lo: "larges_ok pool W ls s" and w: "(p, n) \<in> set W" and l: "l \<in> set ls" "l_alloc (st_large s l) = p"
    and p: "p \<noteq> 0" and u: "\<And>k. (p, k) \<in> set W \<Longrightarrow> k = n"
  shows "larges_ok pool (remove1 (p, n) W) ls (set_alloc l 0 s)"
  unfolding larges_ok_def
proof (intro conjI ballI impI)
  let ?f = "\<lambda>k. l_alloc (st_large s k)"
  show "npath (next_large (set_alloc l 0 s)) (h_large (st_h (set_alloc l 0 s) pool)) ls" using larges_okD(1) [OF lo] by simp
  show "distinct (remove1 (p, n) W)" using larges_okD(2) [OF lo] by simp
  have one: "?f k = p \<longleftrightarrow> k = l" if "k \<in> set ls" for k using larges_okD(4) [OF lo that l(1)] l(2) p by auto
  have "(\<lambda>k. l_alloc (st_large (set_alloc l 0 s) k)) ` set ls - {0} = (?f ` set ls - {0}) - {p}"
    using one by auto
  also have "\<dots> = fst ` set W - {p}" using larges_okD(3) [OF lo] by simp
  also have "\<dots> = fst ` (set W - {(p, n)})" using u by force
  finally show "(\<lambda>k. l_alloc (st_large (set_alloc l 0 s) k)) ` set ls - {0} = fst ` set (remove1 (p, n) W)"
    using larges_okD(2) [OF lo] by simp
  fix j k assume jk: "j \<in> set ls" "k \<in> set ls"
    "l_alloc (st_large (set_alloc l 0 s) j) = l_alloc (st_large (set_alloc l 0 s) k)"
    "l_alloc (st_large (set_alloc l 0 s) j) \<noteq> 0"
  then show "j = k" using larges_okD(4) [OF lo jk(1,2)] by (auto split: if_splits)
qed

lemma ngx_pfree_run:
  assumes i: "pool_inv pool sz F cs chs U W s" and p: "p \<noteq> 0"
  obtains "p \<notin> fst ` set W" "ngx_pfree pool p s = Some (NGX_DECLINED, s)"
  | n s' where "(p, n) \<in> set W" "ngx_pfree pool p s = Some (NGX_OK, s')"
     "pool_inv pool sz F cs chs U (remove1 (p, n) W) s'" "ram s' = ram s"
proof -
  obtain ps ls where r: "pool_rep pool sz F ps ls cs chs U W s" using i by (auto simp: pool_inv_def)
  note o = pool_repD(2) [OF r] and lo = pool_repD(3) [OF r]
  have gh: "get_h pool s = Some (st_h s pool)" using pool_rep_live(1) [OF r] by (simp add: get_h_def)
  have il: "in_live s l 16" if "l \<in> set ls" for l using pool_rep_live(3) [OF r] meta_elems(1) [OF that] by auto
  have pz: "npath (next_large s) (h_large (st_h s pool)) ls" by (rule larges_okD(1) [OF lo])
  have iff: "(\<exists>l\<in>set ls. l_alloc (st_large s l) = p) \<longleftrightarrow> p \<in> fst ` set W"
    using larges_okD(3) [OF lo, symmetric] p by auto
  show thesis
  proof (cases "p \<in> fst ` set W")
    case False
    then have no: "l_alloc (st_large s l) \<noteq> p" if "l \<in> set ls" for l using iff that by auto
    obtain q where "npath (next_large s) q []" "pfree_loop p (h_large (st_h s pool)) s = pfree_loop p q s"
      using pfree_loop_skip [of s "h_large (st_h s pool)" ls "[]" p] pz no il by auto
    then have "pfree_loop p (h_large (st_h s pool)) s = Some (NGX_DECLINED, s)" by (simp add: pfree_loop.simps)
    then show thesis using that(1) False gh by (simp add: ngx_pfree_def)
  next
    case True
    then obtain n where n: "(p, n) \<in> set W" by auto
    obtain l where l: "l \<in> set ls" "l_alloc (st_large s l) = p" using True iff by auto
    obtain ys zs where yz: "ls = ys @ l # zs" "l \<notin> set ys" using split_list_first [OF l(1)] by blast
    have no: "l_alloc (st_large s k) \<noteq> p" if "k \<in> set ys" for k
      using larges_okD(4) [OF lo, of k l] l p that yz by auto
    have sk: "in_live s k 16 \<and> l_alloc (st_large s k) \<noteq> p" if "k \<in> set ys" for k
      using no il that yz(1) by auto
    obtain q where q: "npath (next_large s) q (l # zs)" "pfree_loop p (h_large (st_h s pool)) s = pfree_loop p q s"
      using pfree_loop_skip [of s "h_large (st_h s pool)" ys "l # zs" p, OF _ sk] pz yz(1) by auto
    have u: "k = n" if "(p, k) \<in> set W" for k
      using regions_unique [of "live s" "(p, k)" "(p, n)"] o that n by (auto simp: owns_def)
    note tk = owns_take [OF o n larges_okD(2) [OF lo]]
    obtain t where t: "ngx_free p s = Some t" "t = s\<lparr>live := filter (\<lambda>r. fst r \<noteq> p) (live s)\<rparr>"
      "owns sz ps (remove1 (p, n) W) F t" using owns_free [OF tk p] by blast
    have "blocks_ok pool sz ps t"
      using pool_repD(1) [OF r] by (simp add: t(2) blocks_ok_def block_ok_def next_d_def [abs_def])
    moreover have "in_blocks pool ps t (l, 16)"
      using pool_repD(7) [OF r, of "(l, 16)"] meta_elems(1) [OF l(1)] by (simp add: t(2) in_blocks_def)
    ultimately have lt: "in_live t l 16" using in_blocks_live [OF t(3)] by blast
    have "pfree_loop p q s = Some (NGX_OK, set_alloc l 0 t)"
      using q(1) il [OF l(1)] l(2) t(1) lt
      by (subst pfree_loop.simps) (simp add: get_large_def put_large_def set_alloc_def)
    then have run: "ngx_pfree pool p s = Some (NGX_OK, set_alloc l 0 t)" using gh q(2) by (simp add: ngx_pfree_def)
    have "larges_ok pool W ls t" using lo by (simp add: t(2) larges_ok_def next_large_def [abs_def])
    then have lo': "larges_ok pool (remove1 (p, n) W) ls (set_alloc l 0 t)"
      by (rule larges_ok_unlink [OF _ n l(1) _ p u]) (simp add: t(2) l(2))
    have "pool_rep pool sz F ps ls cs chs U (remove1 (p, n) W) (set_alloc l 0 t)"
      by (rule pool_rep_cong [OF r _ _ _ _ _ lo']) (use t(3) in \<open>simp_all add: t(2) owns_def\<close>)
    then show thesis using that(2) [OF n run pool_invI] by (simp add: t(2))
  qed
qed

section \<open>Allocations apart\<close>

lemma palloc_small_inv:
  assumes os: "os_ok os" and i: "pool_inv pool sz F cs chs U W s" and n: "n \<le> 24"
  obtains m s' where "ngx_palloc os pool n s = Some (m, s')" "alloc_keeps pool s s'"
    "if m = 0 then pool_inv pool sz F cs chs U W s' else 8 dvd m \<and> pool_inv pool sz F cs chs ((m, n) # U) W s'"
proof -
  obtain ps ls where r: "pool_rep pool sz F ps ls cs chs U W s" using i by (auto simp: pool_inv_def)
  note b = blocks_okD [OF pool_repD(1) [OF r]]
  have nm: "n \<le> h_max (st_h s pool)" using n b(11) by simp
  have gh: "get_h pool s = Some (st_h s pool)" using pool_rep_live(1) [OF r] by (simp add: get_h_def)
  obtain m s' ps' where x: "palloc_small os True pool n s = Some (m, s')" "m = 0 \<longrightarrow> s' = s"
    "m \<noteq> 0 \<longrightarrow> (True \<longrightarrow> 8 dvd m) \<and> lists_same pool s s' \<and> pool_rep pool sz F ps' ls cs chs ((m, n) # U) W s'"
    by (rule palloc_small_run [OF os r nm, of True])
  have run: "ngx_palloc os pool n s = Some (m, s')" using x(1) gh nm by (simp add: ngx_palloc_def)
  show thesis
  proof (cases "m = 0")
    case True
    then show thesis using that [OF run] x(2) i by simp
  next
    case False
    then show thesis using that [OF run lists_same_keeps] x(3) pool_invI by auto
  qed
qed

lemma sorted_wrt_pairs:
  assumes sym: "\<And>x y. P x y \<Longrightarrow> P y x"
  shows "sorted_wrt P xs \<longleftrightarrow> (\<forall>x y. {#x, y#} \<subseteq># mset xs \<longrightarrow> P x y)"
proof (induction xs)
  case Nil
  then show ?case by auto
next
  case (Cons a xs)
  have "(\<forall>x y. {#x, y#} \<subseteq># add_mset a (mset xs) \<longrightarrow> P x y) \<longleftrightarrow>
    (\<forall>y\<in>set xs. P a y) \<and> (\<forall>x y. {#x, y#} \<subseteq># mset xs \<longrightarrow> P x y)"
  proof (intro iffI conjI allI impI ballI)
    assume h: "\<forall>x y. {#x, y#} \<subseteq># add_mset a (mset xs) \<longrightarrow> P x y"
    { fix y assume "y \<in> set xs"
      then have "{#a, y#} \<subseteq># add_mset a (mset xs)" by simp
      then show "P a y" using h by blast }
    { fix x y assume "{#x, y#} \<subseteq># mset xs"
      then have "{#x, y#} \<subseteq># add_mset a (mset xs)" 
        using subset_mset.trans [of "{#x, y#}" "mset xs" "add_mset a (mset xs)"] by simp
      then show "P x y" using h by blast }
  next
    fix x y assume h: "(\<forall>y\<in>set xs. P a y) \<and> (\<forall>x y. {#x, y#} \<subseteq># mset xs \<longrightarrow> P x y)"
      and s: "{#x, y#} \<subseteq># add_mset a (mset xs)"
    consider "x = a" | "y = a" | "x \<noteq> a" "y \<noteq> a" by blast
    then show "P x y"
    proof cases
      case 1
      then have "y \<in> set xs" using s by simp
      then show ?thesis using h 1 by blast
    next
      case 2
      then have "{#a, x#} \<subseteq># add_mset a (mset xs)" using s by (simp add: add_mset_commute)
      then have "x \<in> set xs" by simp
      then show ?thesis using h 2 sym by blast
    next
      case 3
      have "count {#x, y#} b \<le> count (mset xs) b" for b
        using 3 mset_subset_eq_count [OF s, of b] by (cases "b = a") auto
      then have "{#x, y#} \<subseteq># mset xs" by (simp add: subseteq_mset_def)
      then show ?thesis using h by blast
    qed
  qed
  then show ?case using Cons.IH by simp
qed

lemma rdisj_sub:
  assumes "sorted_wrt rdisj xs" "mset ys \<subseteq># mset xs"
  shows "sorted_wrt rdisj ys"
  using assms sorted_wrt_pairs [of rdisj xs] sorted_wrt_pairs [of rdisj ys] rdisj_sym
  by (meson subset_mset.order_trans)

text \<open>A change of the header of the pool and of the records of the two chains.\<close>

lemma pool_rep_header:
  assumes r: "pool_rep pool sz F ps ls cs chs U W s"
    and same: "st_d s' = st_d s" "st_large s' = st_large s" "live s' = live s"
      "h_max (st_h s' pool) = h_max (st_h s pool)" "h_current (st_h s' pool) = h_current (st_h s pool)"
      "h_large (st_h s' pool) = h_large (st_h s pool)"
    and cl: "npath (next_cleanup s') (h_cleanup (st_h s' pool)) cs'" "npath (next_chain s') (h_chain (st_h s' pool)) chs'"
    and al: "mset (U' @ meta ls cs' chs') \<subseteq># mset (U @ meta ls cs chs)"
  shows "pool_rep pool sz F ps ls cs' chs' U' W s'"
proof -
  have sw: "sorted_wrt rdisj (U' @ meta ls cs' chs')" by (rule rdisj_sub [OF pool_repD(6) [OF r] al])
  have b: "blocks_ok pool sz ps s'" using pool_repD(1) [OF r] same
    by (simp add: blocks_ok_def block_ok_def next_d_def [abs_def])
  have o: "owns sz ps W F s'" using pool_repD(2) [OF r] same by (simp add: owns_def)
  have l: "larges_ok pool W ls s'" using pool_repD(3) [OF r] same by (simp add: larges_ok_def next_large_def [abs_def])
  have "set (U' @ meta ls cs' chs') \<subseteq> set (U @ meta ls cs chs)" using al by (metis set_mset_mono set_mset_mset)
  then have "in_blocks pool ps s' q" if "q \<in> set (U' @ meta ls cs' chs')" for q
    using pool_repD(7) [OF r, of q] that same by (auto simp: in_blocks_def)
  then show ?thesis using b o l cl sw by (simp add: pool_rep_def)
qed

lemma pool_repI: "pool_inv pool sz F cs chs U W s \<Longrightarrow> (\<And>ps ls. pool_rep pool sz F ps ls cs chs U W s \<Longrightarrow> thesis) \<Longrightarrow> thesis"
  by (auto simp: pool_inv_def)

lemma pool_inv_header:
  assumes i: "pool_inv pool sz F cs chs U W s"
    and same: "st_d s' = st_d s" "st_large s' = st_large s" "live s' = live s"
      "h_max (st_h s' pool) = h_max (st_h s pool)" "h_current (st_h s' pool) = h_current (st_h s pool)"
      "h_large (st_h s' pool) = h_large (st_h s pool)"
    and cl: "npath (next_cleanup s') (h_cleanup (st_h s' pool)) cs'" "npath (next_chain s') (h_chain (st_h s' pool)) chs'"
    and al: "mset (U' @ meta [] cs' chs') \<subseteq># mset (U @ meta [] cs chs)"
  shows "pool_inv pool sz F cs' chs' U' W s'"
proof -
  obtain ps ls where r: "pool_rep pool sz F ps ls cs chs U W s" using i by (rule pool_repI)
  have "mset (U' @ meta ls cs' chs') \<subseteq># mset (U @ meta ls cs chs)" using al by (simp add: meta_def ac_simps)
  then show ?thesis using pool_invI [OF pool_rep_header [OF r same cl]] by blast
qed

lemma pool_inv_live:
  assumes "pool_inv pool sz F cs chs U W s"
  shows "in_live s pool 80" "get_h pool s = Some (st_h s pool)" "\<And>c. c \<in> set cs \<Longrightarrow> in_live s c 24"
    "\<And>c. c \<in> set chs \<Longrightarrow> in_live s c 16"
    "npath (next_cleanup s) (h_cleanup (st_h s pool)) cs" "npath (next_chain s) (h_chain (st_h s pool)) chs"
proof -
  obtain ps ls where r: "pool_rep pool sz F ps ls cs chs U W s" using assms by (rule pool_repI)
  show "in_live s pool 80" by (rule pool_rep_live(1) [OF r])
  then show "get_h pool s = Some (st_h s pool)" by (simp add: get_h_def)
  show "\<And>c. c \<in> set cs \<Longrightarrow> in_live s c 24" "\<And>c. c \<in> set chs \<Longrightarrow> in_live s c 16"
    using pool_rep_live(3) [OF r] meta_elems(2,3) by auto
  show "npath (next_cleanup s) (h_cleanup (st_h s pool)) cs" "npath (next_chain s) (h_chain (st_h s pool)) chs"
    by (rule pool_repD(4,5) [OF r])+
qed

lemma pool_inv_apart:
  assumes "pool_inv pool sz F cs chs U W s"
  shows "sorted_wrt rdisj (U @ map (\<lambda>c. (c, 24)) cs @ map (\<lambda>c. (c, 16)) chs)"
proof -
  obtain ps ls where r: "pool_rep pool sz F ps ls cs chs U W s" using assms by (rule pool_repI)
  show ?thesis by (rule rdisj_sub [OF pool_repD(6) [OF r]]) (simp add: meta_def)
qed

text \<open>Chain links.\<close>

lemma alloc_chain_link_run:
  assumes os: "os_ok os" and i: "pool_inv pool sz F cs chs U W s"
  obtains cl s' where "ngx_alloc_chain_link os pool s = Some (cl, s')" "ram s' = ram s"
    "if cl = 0 then pool_inv pool sz F cs chs U W s' else 8 dvd cl \<and> pool_inv pool sz F cs chs ((cl, 16) # U) W s' \<or>
       cl \<in> set chs \<and> pool_inv pool sz F cs (tl chs) ((cl, 16) # U) W s'"
proof (cases chs)
  case Nil
  then have z: "h_chain (st_h s pool) = 0" using pool_inv_live(6) [OF i] by simp
  show thesis
    by (rule palloc_small_inv [OF os i, of 16])
      (use that pool_inv_live(2) [OF i] z in \<open>auto simp: ngx_alloc_chain_link_def alloc_keeps_def split: if_splits\<close>)
next
  case (Cons c rest)
  have c: "h_chain (st_h s pool) = c" "c \<noteq> 0" "npath (next_chain s) (next_chain s c) rest"
    using pool_inv_live(6) [OF i] Cons by auto
  define s' where "s' = s\<lparr>st_h := (st_h s)(pool := (st_h s pool)\<lparr>h_chain := ch_next (st_chain s c)\<rparr>)\<rparr>"
  have run: "ngx_alloc_chain_link os pool s = Some (c, s')"
    using pool_inv_live(1,2,4) [OF i] c Cons by (simp add: ngx_alloc_chain_link_def get_chain_def put_h_def s'_def)
  have "pool_inv pool sz F cs rest ((c, 16) # U) W s'"
    by (rule pool_inv_header [OF i])
      (use c(3) pool_inv_live(5) [OF i] Cons in \<open>simp_all add: s'_def next_cleanup_def [abs_def] next_chain_def [abs_def] meta_def\<close>)
  then show thesis using that [OF run] c(2) Cons by (simp add: s'_def)
qed

lemma rdisj_self: "0 < snd r \<Longrightarrow> \<not> rdisj r r"
  by (simp add: rdisj_def)

lemma free_chain_run:
  assumes i: "pool_inv pool sz F cs chs U W s" and cl: "(cl, 16) \<in> set U" "cl \<noteq> 0"
  obtains s' where "ngx_free_chain pool cl s = Some s'" "pool_inv pool sz F cs (cl # chs) (remove1 (cl, 16) U) W s'"
    "ram s' = ram s"
proof -
  have nc: "cl \<notin> set chs"
  proof
    assume "cl \<in> set chs"
    then have "rdisj (cl, 16) (cl, 16)" using pool_inv_apart [OF i] cl(1) by (auto simp: sorted_wrt_append)
    then show False by (simp add: rdisj_self)
  qed
  have l: "in_live s cl 16" using pool_inv_live_user [OF i] cl(1) by auto
  define s' where "s' = s\<lparr>st_chain := (st_chain s)(cl := (st_chain s cl)\<lparr>ch_next := h_chain (st_h s pool)\<rparr>),
    st_h := (st_h s)(pool := (st_h s pool)\<lparr>h_chain := cl\<rparr>)\<rparr>"
  have run: "ngx_free_chain pool cl s = Some s'"
    using l pool_inv_live(1,2) [OF i] by (simp add: ngx_free_chain_def put_chain_def put_h_def in_live_def s'_def)
  have "npath (next_chain s') (h_chain (st_h s pool)) chs = npath (next_chain s) (h_chain (st_h s pool)) chs"
    using nc by (intro npath_cong) (auto simp: next_chain_def s'_def)
  then have pth: "npath (next_chain s') (h_chain (st_h s' pool)) (cl # chs)"
    using pool_inv_live(6) [OF i] cl(2) by (simp add: s'_def next_chain_def)
  have "pool_inv pool sz F cs (cl # chs) (remove1 (cl, 16) U) W s'"
    by (rule pool_inv_header [OF i _ _ _ _ _ _ _ pth])
      (use pool_inv_live(5) [OF i] cl(1) in \<open>simp_all add: s'_def next_cleanup_def [abs_def] meta_def\<close>)
  then show thesis using that [OF run] by (simp add: s'_def)
qed

text \<open>Cleanups.\<close>

definition set_cleanup :: "ptr \<Rightarrow> ngx_pool_cleanup \<Rightarrow> pool_mem \<Rightarrow> pool_mem" where
  "set_cleanup c r s = s\<lparr>st_cleanup := (st_cleanup s)(c := r)\<rparr>"

lemma cleanup_link:
  assumes i: "pool_inv pool sz F cs chs ((c, 24) # U) W s" and c: "c \<noteq> 0"
    and s': "s' = s\<lparr>st_cleanup := (st_cleanup s)(c := r), st_h := (st_h s)(pool := (st_h s pool)\<lparr>h_cleanup := c\<rparr>)\<rparr>"
    and r: "c_next r = h_cleanup (st_h s pool)"
  shows "pool_inv pool sz F (c # cs) chs U W s'"
proof -
  have nc: "c \<notin> set cs"
  proof
    assume "c \<in> set cs"
    then have "rdisj (c, 24) (c, 24)" using pool_inv_apart [OF i] by (auto simp: sorted_wrt_append)
    then show False by (simp add: rdisj_self)
  qed
  have "npath (next_cleanup s') (h_cleanup (st_h s pool)) cs = npath (next_cleanup s) (h_cleanup (st_h s pool)) cs"
    using nc by (intro npath_cong) (auto simp: next_cleanup_def s')
  then have pth: "npath (next_cleanup s') (h_cleanup (st_h s' pool)) (c # cs)"
    using pool_inv_live(5) [OF i] c r by (simp add: s' next_cleanup_def)
  show ?thesis
    by (rule pool_inv_header [OF i _ _ _ _ _ _ pth])
      (use pool_inv_live(6) [OF i] in \<open>simp_all add: s' next_chain_def [abs_def] meta_def\<close>)
qed

lemma cleanup_drop:
  assumes i: "pool_inv pool sz F cs chs ((c, 24) # U) W s" 
  shows "pool_inv pool sz F cs chs U W (set_cleanup c r s)"
proof -
  have nc: "c \<notin> set cs"
  proof
    assume "c \<in> set cs"
    then have "rdisj (c, 24) (c, 24)" using pool_inv_apart [OF i] by (auto simp: sorted_wrt_append)
    then show False by (simp add: rdisj_self)
  qed
  have "npath (next_cleanup (set_cleanup c r s)) (h_cleanup (st_h s pool)) cs = npath (next_cleanup s) (h_cleanup (st_h s pool)) cs"
    using nc by (intro npath_cong) (auto simp: next_cleanup_def set_cleanup_def)
  then show ?thesis
    by (intro pool_inv_header [OF i])
      (use pool_inv_live(5,6) [OF i] in \<open>simp_all add: set_cleanup_def next_chain_def [abs_def] meta_def\<close>)
qed

lemma pool_inv_swap:
  "pool_inv pool sz F cs chs (a # b # U) W s \<Longrightarrow> pool_inv pool sz F cs chs (b # a # U) W s"
  by (rule pool_inv_header [OF _ refl refl refl refl refl refl])
    (auto dest: pool_inv_live(5,6) simp: add_mset_commute)

lemma cleanup_all_fields:
  "(r :: ngx_pool_cleanup)\<lparr>c_data := d, c_handler := h, c_next := x\<rparr> = \<lparr>c_handler = h, c_data = d, c_next = x\<rparr>"
  by (cases r) simp

lemma cleanup_add_run:
  assumes os: "os_ok os" and i: "pool_inv pool sz F cs chs U W s"
  obtains s' where "ngx_pool_cleanup_add os pool n s = Some (0, s')" "pool_inv pool sz F cs chs U W s'" "ram s' = ram s"
  | c d s' where "ngx_pool_cleanup_add os pool n s = Some (c, s')" "c \<noteq> 0" "ram s' = ram s"
      "st_cleanup s' = (st_cleanup s)(c := \<lparr>c_handler = No_handler, c_data = d, c_next = h_cleanup (st_h s pool)\<rparr>)"
      "if n = 0 then d = 0 \<and> pool_inv pool sz F (c # cs) chs U W s'
       else d \<noteq> 0 \<and> 8 dvd d \<and> (pool_inv pool sz F (c # cs) chs ((d, n) # U) W s' \<or> pool_inv pool sz F (c # cs) chs U ((d, n) # W) s')"
proof -
  obtain c s1 where c: "ngx_palloc os pool 24 s = Some (c, s1)" "alloc_keeps pool s s1"
    "if c = 0 then pool_inv pool sz F cs chs U W s1 else 8 dvd c \<and> pool_inv pool sz F cs chs ((c, 24) # U) W s1"
    by (rule palloc_small_inv [OF os i order.refl])
  show thesis
  proof (cases "c = 0")
    case True
    then show thesis using that(1) [of s1] c by (simp add: ngx_pool_cleanup_add_def alloc_keeps_def)
  next
    case False
    then have i1: "pool_inv pool sz F cs chs ((c, 24) # U) W s1" using c(3) by simp
    obtain d s2 where d: "(if n \<noteq> 0 then ngx_palloc os pool n s1 else Some (0, s1)) = Some (d, s2)"
      "alloc_keeps pool s1 s2" "n = 0 \<longrightarrow> d = 0"
      "if d = 0 then pool_inv pool sz F cs chs ((c, 24) # U) W s2
       else 8 dvd d \<and> (pool_inv pool sz F cs chs ((c, 24) # (d, n) # U) W s2 \<or> pool_inv pool sz F cs chs ((c, 24) # U) ((d, n) # W) s2)"
    proof (cases "n = 0")
      case True
      then show thesis using that [of 0 s1] i1 by simp
    next
      case n: False
      show thesis
        by (rule ngx_palloc_run [OF os i1, of n])
          (use that n pool_inv_swap in \<open>auto simp: alloc_done_def split: if_splits\<close>)
    qed
    have k: "alloc_keeps pool s s2" by (rule alloc_keeps_trans [OF c(2) d(2)])
    have l: "in_live s2 c 24" "in_live s2 pool 80"
      using d(4) pool_inv_live_user [of pool sz F cs chs _ _ s2 c 24] pool_inv_live(1) by (auto split: if_splits)
    define R where "R = \<lparr>c_handler = No_handler, c_data = d, c_next = h_cleanup (st_h s2 pool)\<rparr>"
    show thesis
    proof (cases "n \<noteq> 0 \<and> d = 0")
      case True
      then have "ngx_pool_cleanup_add os pool n s = Some (0, set_cleanup c ((st_cleanup s2 c)\<lparr>c_data := 0\<rparr>) s2)"
        using False c(1) d(1) l(1) by (simp add: ngx_pool_cleanup_add_def put_cleanup_def set_cleanup_def)
      moreover have "pool_inv pool sz F cs chs U W (set_cleanup c ((st_cleanup s2 c)\<lparr>c_data := 0\<rparr>) s2)"
        by (rule cleanup_drop) (use d(4) True in simp)
      ultimately show thesis using that(1) k by (simp add: set_cleanup_def alloc_keeps_def)
    next
      case nd: False
      define s' where "s' = s2\<lparr>st_cleanup := (st_cleanup s2)(c := R), st_h := (st_h s2)(pool := (st_h s2 pool)\<lparr>h_cleanup := c\<rparr>)\<rparr>"
      have run: "ngx_pool_cleanup_add os pool n s = Some (c, s')"
        using False c(1) d(1) l nd
        by (simp add: ngx_pool_cleanup_add_def put_cleanup_def put_h_def get_h_def in_live_def s'_def R_def
            cleanup_all_fields)
      have lk: "pool_inv pool sz F (c # cs) chs V X s'" if "pool_inv pool sz F cs chs ((c, 24) # V) X s2" for V X
        by (rule cleanup_link [OF that False s'_def]) (simp add: R_def)
      show thesis
        by (rule that(2) [OF run False, of d])
          (use k d(3,4) nd lk in \<open>auto simp: s'_def R_def alloc_keeps_def split: if_splits\<close>)
    qed
  qed
qed

lemma set_cleanup_handler:
  assumes i: "pool_inv pool sz F cs chs U W s"
  shows "pool_inv pool sz F cs chs U W (set_cleanup c ((st_cleanup s c)\<lparr>c_handler := h\<rparr>) s)"
proof -
  have "next_cleanup (set_cleanup c ((st_cleanup s c)\<lparr>c_handler := h\<rparr>) s) = next_cleanup s"
    by (auto simp: next_cleanup_def set_cleanup_def)
  then show ?thesis
    by (intro pool_inv_header [OF i])
      (use pool_inv_live(5,6) [OF i] in \<open>simp_all add: set_cleanup_def next_chain_def [abs_def] meta_def\<close>)
qed

text \<open>\<open>ngx_reset_pool\<close> and \<open>ngx_destroy_pool\<close>.\<close>

lemma owns_in_block: "owns sz ps W F s \<Longrightarrow> q \<in> set ps \<Longrightarrow> q \<le> l \<Longrightarrow> l + n \<le> q + sz \<Longrightarrow> in_live s l n"
  unfolding in_live_def by (rule bexI [of _ "(q, sz)"]) (auto simp: owns_block)

lemma free_larges_run:
  "owns sz ps W F s \<Longrightarrow> npath (next_large s) l zs \<Longrightarrow> distinct W \<Longrightarrow>
   (\<And>l. l \<in> set zs \<Longrightarrow> \<exists>q\<in>set ps. q \<le> l \<and> l + 16 \<le> q + sz) \<Longrightarrow>
   (\<lambda>l. l_alloc (st_large s l)) ` set zs - {0} = fst ` set W \<Longrightarrow>
   (\<And>j k. j \<in> set zs \<Longrightarrow> k \<in> set zs \<Longrightarrow> l_alloc (st_large s j) = l_alloc (st_large s k) \<Longrightarrow>
      l_alloc (st_large s j) \<noteq> 0 \<Longrightarrow> j = k) \<Longrightarrow>
   \<exists>L. free_larges l s = Some (s\<lparr>live := L\<rparr>) \<and> owns sz ps [] F (s\<lparr>live := L\<rparr>)"
proof (induction zs arbitrary: l W s)
  case Nil
  then have "W = []" "s\<lparr>live := live s\<rparr> = s" by auto
  then show ?case using Nil by (intro exI [of _ "live s"]) (simp add: free_larges.simps)
next
  case (Cons x xs)
  have x: "l = x" "x \<noteq> 0" "npath (next_large s) (l_next (st_large s x)) xs" "x \<notin> set xs"
    using Cons.prems(2) npath_distinct [OF Cons.prems(2)] by (auto simp flip: next_large_def)
  let ?a = "l_alloc (st_large s x)"
  let ?f = "\<lambda>l. l_alloc (st_large s l)"
  obtain q where q: "q \<in> set ps" "q \<le> x" "x + 16 \<le> q + sz" using Cons.prems(4) [of x] by auto
  have lx: "in_live s x 16" by (rule owns_in_block [OF Cons.prems(1) q])
  show ?case
  proof (cases "?a = 0")
    case True
    have e: "free_larges l s = free_larges (l_next (st_large s x)) s"
      using x(1,2) lx True by (subst free_larges.simps) (simp add: get_large_def)
    have "?f ` set (x # xs) - {0} = ?f ` set xs - {0}" using True by auto
    then have img: "?f ` set xs - {0} = fst ` set W" using Cons.prems(5) by (rule subst)
    show ?thesis unfolding e
    proof (rule Cons.IH [OF Cons.prems(1) x(3) Cons.prems(3) _ img])
      show "\<exists>q\<in>set ps. q \<le> l \<and> l + 16 \<le> q + sz" if "l \<in> set xs" for l using Cons.prems(4) that by simp
      show "j = k" if "j \<in> set xs" "k \<in> set xs" "?f j = ?f k" "?f j \<noteq> 0" for j k
        using Cons.prems(6) [of j k] that by simp
    qed
  next
    case False
    have "?a \<in> ?f ` set (x # xs) - {0}" using False by simp
    then have "?a \<in> fst ` set W" unfolding Cons.prems(5) .
    then obtain n where n: "(?a, n) \<in> set W" by auto
    note tk = owns_take [OF Cons.prems(1) n Cons.prems(3)]
    obtain t where t: "ngx_free ?a s = Some t" "t = s\<lparr>live := filter (\<lambda>r. fst r \<noteq> ?a) (live s)\<rparr>"
      "owns sz ps (remove1 (?a, n) W) F t" using owns_free [OF tk False] by blast
    have lt: "in_live t x 16" by (rule owns_in_block [OF t(3) q])
    have e: "free_larges l s = free_larges (l_next (st_large s x)) t"
      using x(1,2) lx lt False t(1) by (subst free_larges.simps) (simp add: get_large_def t(2))
    have u: "k = n" if "(?a, k) \<in> set W" for k
      using regions_unique [of "live s" "(?a, k)" "(?a, n)"] Cons.prems(1) that n by (auto simp: owns_def)
    have nx: "?f k \<noteq> ?a" if "k \<in> set xs" for k
    proof
      assume eq: "?f k = ?a"
      have "x = k"
      proof (rule Cons.prems(6))
        show "x \<in> set (x # xs)" "k \<in> set (x # xs)" using that by simp_all
        show "?f x = ?f k" by (rule eq [symmetric])
        show "?f x \<noteq> 0" by (rule False)
      qed
      then show False using that x(4) by simp
    qed
    have na: "?a \<notin> ?f ` set xs"
    proof
      assume "?a \<in> ?f ` set xs"
      then obtain k where "k \<in> set xs" "?a = ?f k" by (rule imageE)
      then show False using nx [of k] by (simp del: neq0_conv)
    qed
    have "?f ` set (x # xs) = insert ?a (?f ` set xs)" by simp
    then have "?f ` set xs - {0} = (?f ` set (x # xs) - {0}) - {?a}" using na by (simp only:) blast
    also have "\<dots> = fst ` set W - {?a}" unfolding Cons.prems(5) ..
    also have "\<dots> = fst ` (set W - {(?a, n)})" using u by force
    finally have img: "(\<lambda>l. l_alloc (st_large t l)) ` set xs - {0} = fst ` set (remove1 (?a, n) W)"
      using Cons.prems(3) by (simp add: t(2))
    have "\<exists>L. free_larges (l_next (st_large s x)) t = Some (t\<lparr>live := L\<rparr>) \<and> owns sz ps [] F (t\<lparr>live := L\<rparr>)"
    proof (rule Cons.IH [OF t(3) _ _ _ img])
      show "npath (next_large t) (l_next (st_large s x)) xs" using x(3) by (simp add: t(2) next_large_def [abs_def])
      show "distinct (remove1 (?a, n) W)" using Cons.prems(3) by simp
      show "\<exists>q\<in>set ps. q \<le> l \<and> l + 16 \<le> q + sz" if "l \<in> set xs" for l using Cons.prems(4) that by simp
      show "j = k" if "j \<in> set xs" "k \<in> set xs" "l_alloc (st_large t j) = l_alloc (st_large t k)"
        "l_alloc (st_large t j) \<noteq> 0" for j k using Cons.prems(6) [of j k] that by (simp add: t(2))
    qed
    then show ?thesis unfolding e by (simp add: t(2))
  qed
qed

lemma larges_in_blocks:
  assumes r: "pool_rep pool sz F ps ls cs chs U W s" and l: "l \<in> set ls"
  shows "\<exists>q\<in>set ps. q \<le> l \<and> l + 16 \<le> q + sz"
proof -
  have "in_blocks pool ps s (l, 16)" using pool_repD(7) [OF r] meta_elems(1) [OF l] by auto
  then obtain p where "p \<in> set ps" "p + 32 \<le> l" "l + 16 \<le> p + sz"
    by (rule in_blocks_span [OF pool_repD(1) [OF r]]) auto
  then show ?thesis by (intro bexI [of _ p]) auto
qed

lemma pool_free_larges:
  assumes r: "pool_rep pool sz F ps ls cs chs U W s"
  obtains L where "free_larges (h_large (st_h s pool)) s = Some (s\<lparr>live := L\<rparr>)" "owns sz ps [] F (s\<lparr>live := L\<rparr>)"
proof -
  note lo = pool_repD(3) [OF r]
  show thesis
    using that free_larges_run [OF pool_repD(2) [OF r] larges_okD(1,2) [OF lo] larges_in_blocks [OF r]
        larges_okD(3,4) [OF lo]] by blast
qed

lemma reset_blocks_run:
  "npath (next_d s) p zs \<Longrightarrow> (\<And>q. q \<in> set zs \<Longrightarrow> in_live s q 32) \<Longrightarrow>
   reset_blocks p s = Some (s\<lparr>st_d := (\<lambda>q. if q \<in> set zs then (st_d s q)\<lparr>d_last := q + 80\<rparr> else st_d s q)\<rparr>)"
proof (induction zs arbitrary: p s)
  case Nil
  then show ?case by (simp add: reset_blocks.simps)
next
  case (Cons x xs)
  have x: "p = x" "x \<noteq> 0" "npath (next_d s) (d_next (st_d s x)) xs" "x \<notin> set xs"
    using Cons.prems(1) npath_distinct [OF Cons.prems(1)] by (auto simp flip: next_d_def)
  have l: "in_live s x 32" using Cons.prems(2) by simp
  define t where "t = bump x (x + 80) s"
  have e: "reset_blocks p s = reset_blocks (d_next (st_d s x)) t"
    using x(1,2) l by (subst reset_blocks.simps) (simp add: put_d_def get_d_def in_live_def t_def bump_def)
  have "next_d t = next_d s" by (auto simp: t_def bump_def next_d_def)
  then have "reset_blocks (d_next (st_d s x)) t =
    Some (t\<lparr>st_d := (\<lambda>q. if q \<in> set xs then (st_d t q)\<lparr>d_last := q + 80\<rparr> else st_d t q)\<rparr>)"
    using x(3) Cons.prems(2) by (intro Cons.IH) (auto simp: t_def bump_def in_live_def)
  moreover have "t\<lparr>st_d := (\<lambda>q. if q \<in> set xs then (st_d t q)\<lparr>d_last := q + 80\<rparr> else st_d t q)\<rparr> =
    s\<lparr>st_d := (\<lambda>q. if q \<in> set (x # xs) then (st_d s q)\<lparr>d_last := q + 80\<rparr> else st_d s q)\<rparr>"
    using x(4) by (auto simp: t_def bump_def fun_eq_iff)
  ultimately show ?case using e by simp
qed

lemma reset_pool_run:
  assumes i: "pool_inv pool sz F [] [] U W s"
  obtains s' where "ngx_reset_pool pool s = Some s'" "pool_inv pool sz F [] [] [] [] s'" "ram s' = ram s"
proof -
  obtain ps ls where r: "pool_rep pool sz F ps ls [] [] U W s" using i by (rule pool_repI)
  note b = blocks_okD [OF pool_repD(1) [OF r]]
  obtain L where L: "free_larges (h_large (st_h s pool)) s = Some (s\<lparr>live := L\<rparr>)" "owns sz ps [] F (s\<lparr>live := L\<rparr>)"
    by (rule pool_free_larges [OF r])
  define t where "t = s\<lparr>live := L, st_h := (st_h s)(pool := (st_h s pool)\<lparr>h_large := 0\<rparr>)\<rparr>"
  have o: "owns sz ps [] F t" using L(2) by (simp add: owns_def t_def)
  have ll: "in_live t q n" if "q \<in> set ps" "n \<le> sz" for q n by (rule in_live_block [OF o that])
  define s' where "s' = t\<lparr>st_d := (\<lambda>q. if q \<in> set ps then (st_d t q)\<lparr>d_last := q + 80\<rparr> else st_d t q)\<rparr>"
  have "put_h pool (\<lambda>h. h\<lparr>h_large := 0\<rparr>) (s\<lparr>live := L\<rparr>) = Some t"
    using in_live_block [OF L(2) b(5), of 80] b(2) by (simp add: put_h_def t_def)
  moreover have "reset_blocks pool t = Some s'"
    unfolding s'_def using b(2,6) by (intro reset_blocks_run ll) (simp_all add: t_def next_d_def [abs_def])
  ultimately have run: "ngx_reset_pool pool s = Some s'"
    using L(1) pool_inv_live(2) [OF i] by (simp add: ngx_reset_pool_def)
  have nx: "next_d s' = next_d s" by (auto simp: s'_def t_def next_d_def)
  have "block_ok pool sz s' q" if "q \<in> set ps" for q
    using b(8) [OF that] that b(2) by (auto simp: block_ok_def s'_def t_def blk_start_def)
  then have "blocks_ok pool sz ps s'" using b nx by (simp add: blocks_ok_def s'_def t_def)
  moreover have "owns sz ps [] F s'" using o by (simp add: owns_def s'_def)
  moreover have "larges_ok pool [] [] s'" by (simp add: larges_ok_def s'_def t_def)
  ultimately have "pool_rep pool sz F ps [] [] [] [] [] s'"
    using pool_repD(4,5) [OF r] by (simp add: pool_rep_def meta_def s'_def t_def next_cleanup_def [abs_def] next_chain_def [abs_def])
  then show thesis using that [OF run pool_invI] by (simp add: s'_def t_def)
qed

text \<open>\<open>ngx_reset_pool\<close> keeps the lists of free links and cleanups although their memory is free again.\<close>

lemma reset_keeps_chain:
  assumes i: "pool_inv pool sz F cs chs U W s"
  shows "\<exists>s'. ngx_reset_pool pool s = Some s' \<and> h_chain (st_h s' pool) = h_chain (st_h s pool) \<and>
     h_cleanup (st_h s' pool) = h_cleanup (st_h s pool)"
proof -
  obtain ps ls where r: "pool_rep pool sz F ps ls cs chs U W s" using i by (rule pool_repI)
  note b = blocks_okD [OF pool_repD(1) [OF r]]
  obtain L where L: "free_larges (h_large (st_h s pool)) s = Some (s\<lparr>live := L\<rparr>)" "owns sz ps [] F (s\<lparr>live := L\<rparr>)"
    by (rule pool_free_larges [OF r])
  define t where "t = s\<lparr>live := L, st_h := (st_h s)(pool := (st_h s pool)\<lparr>h_large := 0\<rparr>)\<rparr>"
  have o: "owns sz ps [] F t" using L(2) by (simp add: owns_def t_def)
  have ll: "in_live t q n" if "q \<in> set ps" "n \<le> sz" for q n by (rule in_live_block [OF o that])
  have "put_h pool (\<lambda>h. h\<lparr>h_large := 0\<rparr>) (s\<lparr>live := L\<rparr>) = Some t"
    using in_live_block [OF L(2) b(5), of 80] b(2) by (simp add: put_h_def t_def)
  moreover have "npath (next_d t) pool ps" using b(6) by (simp add: t_def next_d_def [abs_def])
  ultimately show ?thesis
    using L(1) pool_inv_live(2) [OF i] reset_blocks_run [of t pool ps] ll b(2) by (simp add: ngx_reset_pool_def t_def)
qed

text \<open>The calls that destroying the pool makes: the handlers of the list that are set.\<close>

definition cleanup_calls :: "pool_mem \<Rightarrow> ptr list \<Rightarrow> (ngx_pool_cleanup_pt \<times> ptr) list" where
  "cleanup_calls s cs =
     map (\<lambda>c. (c_handler (st_cleanup s c), c_data (st_cleanup s c)))
       (filter (\<lambda>c. c_handler (st_cleanup s c) \<noteq> No_handler) cs)"

lemma run_cleanups_run:
  "npath (next_cleanup s) c cs \<Longrightarrow> (\<And>c. c \<in> set cs \<Longrightarrow> in_live s c 24) \<Longrightarrow>
   run_cleanups c s calls = Some (calls @ cleanup_calls s cs)"
proof (induction cs arbitrary: c calls)
  case Nil
  then show ?case by (simp add: run_cleanups.simps cleanup_calls_def)
next
  case (Cons x xs)
  have x: "c = x" "x \<noteq> 0" "npath (next_cleanup s) (c_next (st_cleanup s x)) xs"
    using Cons.prems(1) by (auto simp flip: next_cleanup_def)
  have "in_live s x 24" using Cons.prems(2) by simp
  then show ?case using x(1,2) Cons.IH [OF x(3)] Cons.prems(2)
    by (subst run_cleanups.simps) (simp add: get_cleanup_def cleanup_calls_def)
qed

lemma free_blocks_run:
  "owns sz (p # zs) [] F s \<Longrightarrow> npath (next_d s) p (p # zs) \<Longrightarrow> 32 \<le> sz \<Longrightarrow>
   \<exists>L. free_blocks p (d_next (st_d s p)) s = Some (s\<lparr>live := L\<rparr>) \<and> owns sz [] [] F (s\<lparr>live := L\<rparr>)"
proof (induction zs arbitrary: p s)
  case Nil
  have o: "owns sz [] [] (insert (p, sz) F) s" "(p, sz) \<notin> F" using Nil.prems(1) by (auto simp: owns_def)
  have p: "p \<noteq> 0" "d_next (st_d s p) = 0" using Nil.prems(2) by (auto simp: next_d_def)
  obtain t where "ngx_free p s = Some t" "t = s\<lparr>live := filter (\<lambda>r. fst r \<noteq> p) (live s)\<rparr>" "owns sz [] [] F t"
    using owns_free [OF o p(1)] by blast
  then show ?case using p(2) by (auto simp: free_blocks.simps)
next
  case (Cons x xs)
  have p: "p \<noteq> 0" "d_next (st_d s p) = x" "x \<noteq> 0" using Cons.prems(2) by (auto simp: next_d_def)
  have "p \<notin> set (x # xs)" using npath_distinct [OF Cons.prems(2)] by simp
  then have o: "owns sz (x # xs) [] (insert (p, sz) F) s" "(p, sz) \<notin> F"
    using Cons.prems(1) by (auto simp: owns_def)
  obtain t where t: "ngx_free p s = Some t" "t = s\<lparr>live := filter (\<lambda>r. fst r \<noteq> p) (live s)\<rparr>" "owns sz (x # xs) [] F t"
    using owns_free [OF o p(1)] by blast
  have "in_live t x 32" by (rule in_live_block [OF t(3)]) (use Cons.prems(3) in auto)
  then have e: "free_blocks p (d_next (st_d s p)) s = free_blocks x (d_next (st_d t x)) t"
    using t(1) p by (subst free_blocks.simps) (simp add: get_d_def)
  have "npath (next_d t) x (x # xs)" using Cons.prems(2) by (simp add: t(2) next_d_def [abs_def])
  then obtain L where "free_blocks x (d_next (st_d t x)) t = Some (t\<lparr>live := L\<rparr>)" "owns sz [] [] F (t\<lparr>live := L\<rparr>)"
    using Cons.IH [OF t(3) _ Cons.prems(3)] by blast
  then show ?case unfolding e by (auto simp: t(2))
qed

lemma destroy_pool_run:
  assumes i: "pool_inv pool sz F cs chs U W s"
  obtains s' where "ngx_destroy_pool pool s = Some (cleanup_calls s cs, s')" "set (live s') = F" "ram s' = ram s"
proof -
  obtain ps ls where r: "pool_rep pool sz F ps ls cs chs U W s" using i by (rule pool_repI)
  note b = blocks_okD [OF pool_repD(1) [OF r]]
  obtain L where L: "free_larges (h_large (st_h s pool)) s = Some (s\<lparr>live := L\<rparr>)" "owns sz ps [] F (s\<lparr>live := L\<rparr>)"
    by (rule pool_free_larges [OF r])
  have rc: "run_cleanups (h_cleanup (st_h s pool)) s [] = Some (cleanup_calls s cs)"
    using run_cleanups_run [OF pool_inv_live(5) [OF i] pool_inv_live(3) [OF i]] by simp
  obtain zs where ps: "ps = pool # zs" using b(5,6) by (cases ps) auto
  have pth: "npath (next_d (s\<lparr>live := L\<rparr>)) pool (pool # zs)" using b(6) ps by (simp add: next_d_def [abs_def])
  have sz: "32 \<le> sz" using b(2) by simp
  obtain L' where L': "free_blocks pool (d_next (st_d (s\<lparr>live := L\<rparr>) pool)) (s\<lparr>live := L\<rparr>) = Some (s\<lparr>live := L, live := L'\<rparr>)"
      "owns sz [] [] F (s\<lparr>live := L, live := L'\<rparr>)"
    using free_blocks_run [OF L(2) [unfolded ps] pth sz] by blast
  have "get_d pool (s\<lparr>live := L\<rparr>) = Some (st_d s pool)"
    using in_live_block [OF L(2) b(5) sz] by (simp add: get_d_def)
  then have "ngx_destroy_pool pool s = Some (cleanup_calls s cs, s\<lparr>live := L'\<rparr>)"
    using pool_inv_live(2) [OF i] rc L(1) L'(1) by (simp add: ngx_destroy_pool_def)
  then show thesis using that L'(2) by (simp add: owns_def)
qed

section \<open>Pools in use\<close>

abbreviation links :: "ptr list \<Rightarrow> region list" where
  "links K \<equiv> map (\<lambda>c. (c, 16)) K"

definition taken :: "ptr \<Rightarrow> nat \<Rightarrow> region list \<Rightarrow> region list" where
  "taken p n A = (if p = NULL then A else (p, n) # A)"

text \<open>The states of a pool of size \<open>sz\<close>, with the regions \<open>A\<close> and the chain links \<open>K\<close> that its user holds and the
  cleanups \<open>C\<close> that were added, the last one first.  The user may
  allocate, free, write to what it holds, and reset the pool when there are no cleanups and no free links.\<close>

inductive pool_reach :: "os_env \<Rightarrow> nat \<Rightarrow> region set \<Rightarrow> ptr \<Rightarrow> region list \<Rightarrow> ptr list \<Rightarrow> ptr list \<Rightarrow> pool_mem \<Rightarrow> bool"
  for os sz F pool where
  create: "pool_reach os sz F pool [] [] [] s"
    if "regions (live s0)" "set (live s0) = F" "ngx_create_pool os sz s0 = Some (pool, s)" "pool \<noteq> NULL"
| palloc: "pool_reach os sz F pool (taken p n A) K C s'"
    if "pool_reach os sz F pool A K C s" "ngx_palloc os pool n s = Some (p, s')"
| pnalloc: "pool_reach os sz F pool (taken p n A) K C s'"
    if "pool_reach os sz F pool A K C s" "ngx_pnalloc os pool n s = Some (p, s')"
| pcalloc: "pool_reach os sz F pool (taken p n A) K C s'"
    if "pool_reach os sz F pool A K C s" "ngx_pcalloc os pool n s = Some (p, s')"
| pmemalign: "pool_reach os sz F pool (taken p n A) K C s'"
    if "pool_reach os sz F pool A K C s" "ngx_pmemalign os pool n a s = Some (p, s')"
| pfree: "pool_reach os sz F pool (if rc = NGX_OK then filter (\<lambda>r. fst r \<noteq> p) A else A) K C s'"
    if "pool_reach os sz F pool A K C s" "ngx_pfree pool p s = Some (rc, s')" "p \<noteq> NULL"
| cleanup_add: "pool_reach os sz F pool (if c = NULL then A else taken (c_data (st_cleanup s' c)) n A) K
    (if c = NULL then C else c # C) s'"
    if "pool_reach os sz F pool A K C s" "ngx_pool_cleanup_add os pool n s = Some (c, s')"
| handler: "pool_reach os sz F pool A K C s'"
    if "pool_reach os sz F pool A K C s" "put_cleanup c (\<lambda>r. r\<lparr>c_handler := h\<rparr>) s = Some s'"
| run_file: "pool_reach os sz F pool A K C s'"
    if "pool_reach os sz F pool A K C s" "ngx_pool_run_cleanup_file pool fd s = Some (d, s')"
| alloc_link: "pool_reach os sz F pool A (if c = NULL then K else c # K) C s'"
    if "pool_reach os sz F pool A K C s" "ngx_alloc_chain_link os pool s = Some (c, s')"
| free_link: "pool_reach os sz F pool A (remove1 c K) C s'"
    if "pool_reach os sz F pool A K C s" "c \<in> set K" "ngx_free_chain pool c s = Some s'"
| use: "pool_reach os sz F pool A K C s'"
    if "pool_reach os sz F pool A K C s" "(a, n) \<in> set A" "ram_write a n f s = Some s'"
| reset: "pool_reach os sz F pool [] [] [] s'"
    if "pool_reach os sz F pool A K C s" "h_cleanup (st_h s pool) = NULL" "h_chain (st_h s pool) = NULL"
       "ngx_reset_pool pool s = Some s'"

text \<open>The invariant of the reachable states.\<close>

definition pool_good_at ::
    "nat \<Rightarrow> region set \<Rightarrow> ptr \<Rightarrow> region list \<Rightarrow> ptr list \<Rightarrow> ptr list \<Rightarrow> pool_mem \<Rightarrow> bool" where
  "pool_good_at sz F pool A K cs s \<longleftrightarrow>
     0 \<notin> set K \<and>
     (\<exists>chs U W. pool_inv pool sz F cs chs (links K @ U) W s \<and> mset A \<subseteq># mset (U @ W) \<and> 0 \<notin> set chs)"

definition pool_good :: "nat \<Rightarrow> region set \<Rightarrow> ptr \<Rightarrow> region list \<Rightarrow> ptr list \<Rightarrow> pool_mem \<Rightarrow> bool" where
  "pool_good sz F pool A K s \<longleftrightarrow> (\<exists>cs. pool_good_at sz F pool A K cs s)"

lemma pool_good_atI:
  assumes "pool_inv pool sz F cs chs V W s" "mset V = mset (links K @ U)" "mset A \<subseteq># mset (U @ W)" "0 \<notin> set K"
  shows "pool_good_at sz F pool A K cs s"
proof -
  have "pool_inv pool sz F cs chs (links K @ U) W s"
    by (rule pool_inv_header [OF assms(1) refl refl refl refl refl refl])
      (use assms(2) pool_inv_live(5,6) [OF assms(1)] in \<open>simp_all add: meta_def\<close>)
  moreover have "0 \<notin> set chs" using npath_nonnull [OF pool_inv_live(6) [OF assms(1)]] by auto
  ultimately show ?thesis using assms(3,4) by (auto simp: pool_good_at_def)
qed

lemma pool_goodI:
  assumes "pool_inv pool sz F cs chs V W s" "mset V = mset (links K @ U)" "mset A \<subseteq># mset (U @ W)" "0 \<notin> set K"
  shows "pool_good sz F pool A K s"
  using pool_good_atI [OF assms] by (auto simp: pool_good_def)

lemma sub_add: "mset A \<subseteq># M \<Longrightarrow> mset (r # A) \<subseteq># add_mset r M"
  by simp

lemma alloc_good_at:
  assumes g: "alloc_done pool sz F cs chs (links K @ U) W a n s p s'" and A: "mset A \<subseteq># mset (U @ W)" and K: "0 \<notin> set K"
  shows "pool_good_at sz F pool (taken p n A) K cs s'"
proof -
  consider (null) "p = 0" "pool_inv pool sz F cs chs (links K @ U) W s'"
    | (small) "p \<noteq> 0" "pool_inv pool sz F cs chs ((p, n) # links K @ U) W s'"
    | (large) "p \<noteq> 0" "pool_inv pool sz F cs chs (links K @ U) ((p, n) # W) s'"
    using g by (auto simp: alloc_done_def split: if_splits)
  then show ?thesis
  proof cases
    case null
    then show ?thesis using pool_good_atI [OF null(2) refl A K] by (simp add: taken_def)
  next
    case small
    show ?thesis by (rule pool_good_atI [OF small(2) _ _ K, of "(p, n) # U"]) (use A small(1) in \<open>simp_all add: taken_def\<close>)
  next
    case large
    show ?thesis by (rule pool_good_atI [OF large(2) refl _ K]) (use A large(1) in \<open>simp_all add: taken_def\<close>)
  qed
qed

lemma alloc_good:
  assumes "alloc_done pool sz F cs chs (links K @ U) W a n s p s'" "mset A \<subseteq># mset (U @ W)" "0 \<notin> set K"
  shows "pool_good sz F pool (taken p n A) K s'"
  using alloc_good_at [OF assms] by (auto simp: pool_good_def)

lemma pfree_sub:
  assumes "mset A \<subseteq># mset (U @ W)"
  shows "mset (filter (\<lambda>r. fst r \<noteq> p) A) \<subseteq># mset (U @ remove1 (p, n) W)"
proof -
  have "count (mset (filter (\<lambda>r. fst r \<noteq> p) A)) r \<le> count (mset (U @ remove1 (p, n) W)) r" for r
    using mset_subset_eq_count [OF assms, of r] by auto
  then show ?thesis by (simp add: subseteq_mset_def)
qed

lemma pool_good_cases:
  assumes "pool_good sz F pool A K s"
  obtains cs chs U W where "pool_inv pool sz F cs chs (links K @ U) W s" "mset A \<subseteq># mset (U @ W)" "0 \<notin> set K" "0 \<notin> set chs"
  using assms by (auto simp: pool_good_def pool_good_at_def)

lemma pool_good_at_cases:
  assumes "pool_good_at sz F pool A K cs s"
  obtains chs U W where "pool_inv pool sz F cs chs (links K @ U) W s" "mset A \<subseteq># mset (U @ W)" "0 \<notin> set K" "0 \<notin> set chs"
  using assms by (auto simp: pool_good_at_def)

lemma run_cleanup_file_loop_state:
  assumes "run_cleanup_file_loop c fd s = Some (d, s')"
  shows "s' = s \<or> (\<exists>c. s' = set_cleanup c ((st_cleanup s c)\<lparr>c_handler := No_handler\<rparr>) s)"
proof -
  have "snd (d, s') = s \<or> (\<exists>c. snd (d, s') = set_cleanup c ((st_cleanup s c)\<lparr>c_handler := No_handler\<rparr>) s)"
  proof (rule run_cleanup_file_loop.raw_induct [OF _ assms])
    fix f :: "ptr \<Rightarrow> int \<Rightarrow> pool_mem \<Rightarrow> (ptr option \<times> pool_mem) option" and c fd s y
    assume IH: "\<And>c fd s y. f c fd s = Some y \<Longrightarrow>
        snd y = s \<or> (\<exists>c. snd y = set_cleanup c ((st_cleanup s c)\<lparr>c_handler := No_handler\<rparr>) s)"
    assume "(if c = 0 then Some (None, s)
      else get_cleanup c s \<bind> (\<lambda>r. if c_handler r = Ngx_pool_cleanup_file
        then if \<not> in_live s (c_data r) 24 then None
             else if st_fd s (c_data r) = fd
             then put_cleanup c (c_handler_update (\<lambda>_. No_handler)) s \<bind> (\<lambda>s. Some (Some (c_data r), s))
             else f (c_next r) fd s
        else f (c_next r) fd s)) = Some y"
    then show "snd y = s \<or> (\<exists>c. snd y = set_cleanup c ((st_cleanup s c)\<lparr>c_handler := No_handler\<rparr>) s)"
      using IH [of _ fd s y] by (auto simp: get_cleanup_def put_cleanup_def set_cleanup_def simp del: fun_upd_apply split: if_splits)
  qed
  then show ?thesis by simp
qed

lemma pool_reach_good_at:
  assumes "pool_reach os sz F pool A K C s" and os: "os_ok os" and sz: "16 dvd sz" "112 \<le> sz"
  shows "pool_good_at sz F pool A K C s"
  using assms(1)
proof (induction rule: pool_reach.induct)
  case (create s0 s)
  obtain p s' where "ngx_create_pool os sz s0 = Some (p, s')" "pool_inv p sz (set (live s0)) [] [] [] [] s'"
    by (rule create_pool_run [OF os create(1) sz]) (use create(3,4) in auto)
  then have "pool_inv pool sz F [] [] [] [] s" using create(2,3) by simp
  then show ?case by (rule pool_good_atI) simp_all
next
  case (palloc A K C s n p s')
  obtain chs U W where g: "pool_inv pool sz F C chs (links K @ U) W s" "mset A \<subseteq># mset (U @ W)" "0 \<notin> set K"
    using palloc.IH by (rule pool_good_at_cases)
  show ?case by (rule ngx_palloc_run [OF os g(1), of n]) (use palloc(2) alloc_good_at [OF _ g(2,3)] in auto)
next
  case (pnalloc A K C s n p s')
  obtain chs U W where g: "pool_inv pool sz F C chs (links K @ U) W s" "mset A \<subseteq># mset (U @ W)" "0 \<notin> set K"
    using pnalloc.IH by (rule pool_good_at_cases)
  show ?case by (rule ngx_pnalloc_run [OF os g(1), of n]) (use pnalloc(2) alloc_good_at [OF _ g(2,3)] in auto)
next
  case (pcalloc A K C s n p s')
  obtain chs U W where g: "pool_inv pool sz F C chs (links K @ U) W s" "mset A \<subseteq># mset (U @ W)" "0 \<notin> set K"
    using pcalloc.IH by (rule pool_good_at_cases)
  have "alloc_done pool sz F C chs (links K @ U) W 8 n s' p s'"
    by (rule ngx_pcalloc_run [OF os g(1), of n]) (use pcalloc(2) in \<open>auto simp: alloc_done_def\<close>)
  then show ?case by (rule alloc_good_at [OF _ g(2,3)])
next
  case (pmemalign A K C s n a p s')
  obtain chs U W where g: "pool_inv pool sz F C chs (links K @ U) W s" "mset A \<subseteq># mset (U @ W)" "0 \<notin> set K"
    using pmemalign.IH by (rule pool_good_at_cases)
  show ?case by (rule ngx_pmemalign_run [OF os g(1), of n a]) (use pmemalign(2) alloc_good_at [OF _ g(2,3)] in auto)
next
  case (pfree A K C s p rc s')
  obtain chs U W where g: "pool_inv pool sz F C chs (links K @ U) W s" "mset A \<subseteq># mset (U @ W)" "0 \<notin> set K"
    using pfree.IH by (rule pool_good_at_cases)
  show ?case
    by (rule ngx_pfree_run [OF g(1) pfree(3)])
      (use pfree(2) pool_good_atI [OF g(1) refl g(2,3)] pool_good_atI [OF _ refl pfree_sub [OF g(2)] g(3)] in auto)
next
  case (cleanup_add A K C s n c s')
  obtain chs U W where g: "pool_inv pool sz F C chs (links K @ U) W s" "mset A \<subseteq># mset (U @ W)" "0 \<notin> set K"
    using cleanup_add.IH by (rule pool_good_at_cases)
  show ?case
  proof (rule cleanup_add_run [OF os g(1), of n])
    fix t assume "ngx_pool_cleanup_add os pool n s = Some (0, t)" "pool_inv pool sz F C chs (links K @ U) W t"
    then show ?thesis using cleanup_add(2) pool_good_atI [OF _ refl g(2,3)] by auto
  next
    fix c' d t assume t: "ngx_pool_cleanup_add os pool n s = Some (c', t)" "c' \<noteq> 0"
      "st_cleanup t = (st_cleanup s)(c' := \<lparr>c_handler = No_handler, c_data = d, c_next = h_cleanup (st_h s pool)\<rparr>)"
      "if n = 0 then d = 0 \<and> pool_inv pool sz F (c' # C) chs (links K @ U) W t
       else d \<noteq> 0 \<and> 8 dvd d \<and> (pool_inv pool sz F (c' # C) chs ((d, n) # links K @ U) W t \<or>
         pool_inv pool sz F (c' # C) chs (links K @ U) ((d, n) # W) t)"
    have e: "c = c'" "s' = t" using cleanup_add(2) t(1) by auto
    have "alloc_done pool sz F (c' # C) chs (links K @ U) W 1 n t d t"
      using t(4) by (auto simp: alloc_done_def split: if_splits)
    from alloc_good_at [OF this g(2,3)] show ?thesis using e t(2,3) by simp
  qed
next
  case (handler A K C s c h s')
  have s': "s' = set_cleanup c ((st_cleanup s c)\<lparr>c_handler := h\<rparr>) s"
    using handler(2) by (simp add: put_cleanup_def set_cleanup_def split: if_splits)
  obtain chs U W where g: "pool_inv pool sz F C chs (links K @ U) W s" "mset A \<subseteq># mset (U @ W)" "0 \<notin> set K"
    using handler.IH by (rule pool_good_at_cases)
  show ?case unfolding s' by (rule pool_good_atI [OF set_cleanup_handler [OF g(1)] refl g(2,3)])
next
  case (run_file A K C s fd d s')
  obtain chs U W where g: "pool_inv pool sz F C chs (links K @ U) W s" "mset A \<subseteq># mset (U @ W)" "0 \<notin> set K"
    using run_file.IH by (rule pool_good_at_cases)
  have "s' = s \<or> (\<exists>c. s' = set_cleanup c ((st_cleanup s c)\<lparr>c_handler := No_handler\<rparr>) s)"
    using run_file(2) run_cleanup_file_loop_state by (auto simp: ngx_pool_run_cleanup_file_def split: bind_splits)
  then show ?case
    using pool_good_atI [OF g(1) refl g(2,3)] pool_good_atI [OF set_cleanup_handler [OF g(1)] refl g(2,3)] by auto
next
  case (alloc_link A K C s c s')
  obtain chs U W where g: "pool_inv pool sz F C chs (links K @ U) W s" "mset A \<subseteq># mset (U @ W)" "0 \<notin> set K" "0 \<notin> set chs"
    using alloc_link.IH by (rule pool_good_at_cases)
  show ?case
    by (rule alloc_chain_link_run [OF os g(1)])
      (use alloc_link(2) g(3) pool_good_atI [OF _ _ g(2), of pool sz F C chs _ s' K]
         pool_good_atI [OF _ _ g(2), of pool sz F C chs _ s' "c # K"] pool_good_atI [OF _ _ g(2), of pool sz F C "tl chs" _ s' "c # K"]
       in \<open>auto split: if_splits\<close>)
next
  case (free_link A K C s c s')
  obtain chs U W where g: "pool_inv pool sz F C chs (links K @ U) W s" "mset A \<subseteq># mset (U @ W)" "0 \<notin> set K"
    using free_link.IH by (rule pool_good_at_cases)
  have c: "(c, 16) \<in> set (links K @ U)" "c \<noteq> 0" using free_link(2) g(3) by (simp, metis)
  obtain t where t: "ngx_free_chain pool c s = Some t" "pool_inv pool sz F C (c # chs) (remove1 (c, 16) (links K @ U)) W t"
    by (rule free_chain_run [OF g(1) c])
  have "mset (links (remove1 c K)) = mset (links K) - {#(c, 16)#}"
    using free_link(2) by (simp add: image_mset_Diff)
  then have "mset (remove1 (c, 16) (links K @ U)) = mset (links (remove1 c K) @ U)"
    using free_link(2) by (auto simp: remove1_append)
  then have "pool_good_at sz F pool A (remove1 c K) C t"
    by (rule pool_good_atI [OF t(2) _ g(2)]) (use g(3) in \<open>auto dest: notin_set_remove1\<close>)
  then show ?case using free_link(3) t(1) by simp
next
  case (use A K C s a n f s')
  obtain chs U W where g: "pool_inv pool sz F C chs (links K @ U) W s" "mset A \<subseteq># mset (U @ W)" "0 \<notin> set K"
    using use.IH by (rule pool_good_at_cases)
  obtain R where "s' = s\<lparr>ram := R\<rparr>" using use(3) by (auto simp: ram_write_def split: if_splits)
  then show ?case using pool_good_atI [of pool sz F C chs "links K @ U" W s' K U A] g by (simp add: pool_inv_ram)
next
  case (reset A K C s s')
  obtain chs U W where g: "pool_inv pool sz F C chs (links K @ U) W s" using reset.IH by (rule pool_good_at_cases)
  have "C = []" "chs = []" using pool_inv_live(5,6) [OF g] reset(2,3) by (simp_all add: npath_null)
  then obtain t where "ngx_reset_pool pool s = Some t" "pool_inv pool sz F [] [] [] [] t"
    using reset_pool_run [of pool sz F] g by metis
  then have "pool_inv pool sz F [] [] [] [] s'" using reset(4) by simp
  then show ?case by (rule pool_good_atI) simp_all
qed

lemma pool_reach_good:
  assumes "pool_reach os sz F pool A K C s" "os_ok os" "16 dvd sz" "112 \<le> sz"
  shows "pool_good sz F pool A K s"
  using pool_reach_good_at [OF assms] by (auto simp: pool_good_def)

text \<open>
  The structures that the pool keeps in its memory: the headers of the blocks (the first has that of the
  pool), the entries of the list of large allocations, the cleanups and the free links.  They overlap
  neither each other nor what the user holds, which is why the model can keep them apart from the bytes.
\<close>

definition block_header :: "ptr \<Rightarrow> ptr \<Rightarrow> region" where
  "block_header pool p = (p, if p = pool then 80 else 32)"

definition pool_structs :: "ptr \<Rightarrow> ptr list \<Rightarrow> ptr list \<Rightarrow> ptr list \<Rightarrow> ptr list \<Rightarrow> region list" where
  "pool_structs pool ps ls cs chs = map (block_header pool) ps @ meta ls cs chs"

lemma block_span:
  assumes r: "pool_rep pool sz F ps ls cs chs U W s" and q: "q \<in> set (U @ meta ls cs chs)"
  obtains p where "p \<in> set ps" "blk_start pool p \<le> fst q" "fst q + snd q \<le> p + sz"
  by (rule in_blocks_span [OF pool_repD(1) [OF r] pool_repD(7) [OF r q]])

lemma pool_structs_apart:
  assumes r: "pool_rep pool sz F ps ls cs chs U W s"
  shows "sorted_wrt rdisj (pool_structs pool ps ls cs chs @ U @ W)"
proof -
  note b = blocks_okD [OF pool_repD(1) [OF r]] and o = pool_repD(2) [OF r]
  let ?h = "block_header pool"
  let ?M = "U @ meta ls cs chs"
  have reg: "regions (live s)" using o by (simp add: owns_def)
  have blkW: "rdisj (p, sz) w" if "p \<in> set ps" "w \<in> set W" for p w
  proof -
    have "(p, sz) \<noteq> w" "(p, sz) \<in> set (live s)" "w \<in> set (live s)" using o that by (auto simp: owns_def)
    then show ?thesis using reg unfolding regions_def by blast
  qed
  have hw: "rdisj (?h p) w" if "p \<in> set ps" "w \<in> set W" for p w
    using blkW [OF that] b(2) by (auto simp: rdisj_def block_header_def)
  have hm: "rdisj (?h p) q" if p: "p \<in> set ps" and q: "q \<in> set ?M" for p q
  proof -
    obtain p' where p': "p' \<in> set ps" "blk_start pool p' \<le> fst q" "fst q + snd q \<le> p' + sz" using block_span [OF r q] .
    show ?thesis
    proof (cases "p = p'")
      case True
      then show ?thesis using p'(2) by (auto simp: rdisj_def block_header_def blk_start_def)
    next
      case False
      then show ?thesis using blocks_apart [OF o p p'(1) _ b(2)] p'(2,3) b(2)
        by (auto simp: rdisj_def block_header_def blk_start_def split: if_splits)
    qed
  qed
  have mw: "rdisj q w" if q: "q \<in> set ?M" and w: "w \<in> set W" for q w
  proof -
    obtain p where p: "p \<in> set ps" "blk_start pool p \<le> fst q" "fst q + snd q \<le> p + sz" using block_span [OF r q] .
    then show ?thesis using blkW [OF p(1) w] b(2) by (auto simp: rdisj_def blk_start_def split: if_splits)
  qed
  have "sorted_wrt rdisj (map ?h ps)"
  proof -
    have "distinct ps" using b(6) by (rule npath_distinct)
    then have "rdisj (?h (ps ! i)) (?h (ps ! j))" if "i < j" "j < length ps" for i j
      using that blocks_apart [OF o, of "ps ! i" "ps ! j"] b(2)
      by (auto simp: nth_eq_iff_index_eq rdisj_def block_header_def)
    then show ?thesis by (simp add: sorted_wrt_iff_nth_less)
  qed
  moreover have "sorted_wrt rdisj W"
  proof -
    have d: "distinct W" by (rule larges_okD(2) [OF pool_repD(3) [OF r]])
    have "rdisj (W ! i) (W ! j)" if "i < j" "j < length W" for i j
    proof -
      have "W ! i \<noteq> W ! j" using d that by (simp add: nth_eq_iff_index_eq)
      moreover have "W ! i \<in> set (live s)" "W ! j \<in> set (live s)" using o that by (auto simp: owns_def)
      ultimately show ?thesis using reg unfolding regions_def by blast
    qed
    then show ?thesis by (simp add: sorted_wrt_iff_nth_less)
  qed
  ultimately have "sorted_wrt rdisj (map ?h ps @ ?M @ W)"
    using pool_repD(6) [OF r] hw hm mw by (auto simp: sorted_wrt_append)
  then show ?thesis by (rule rdisj_sub) (simp add: pool_structs_def)
qed

lemma pool_good_structs:
  assumes g: "pool_good_at sz F pool A K cs s"
  obtains ps ls chs where "pool \<in> set ps" "npath (next_d s) pool ps" "npath (next_large s) (h_large (st_h s pool)) ls"
    "npath (next_cleanup s) (h_cleanup (st_h s pool)) cs" "npath (next_chain s) (h_chain (st_h s pool)) chs"
    "sorted_wrt rdisj (pool_structs pool ps ls cs chs @ A @ links K)"
proof -
  obtain chs U W where i: "pool_inv pool sz F cs chs (links K @ U) W s" "mset A \<subseteq># mset (U @ W)"
    using g by (rule pool_good_at_cases)
  obtain ps ls where r: "pool_rep pool sz F ps ls cs chs (links K @ U) W s" using i(1) by (rule pool_repI)
  note b = blocks_okD [OF pool_repD(1) [OF r]]
  have "sorted_wrt rdisj (pool_structs pool ps ls cs chs @ A @ links K)"
    by (rule rdisj_sub [OF pool_structs_apart [OF r]]) (use i(2) in \<open>simp add: ac_simps\<close>)
  then show thesis using that b(5,6) larges_okD(1) [OF pool_repD(3) [OF r]] pool_repD(4,5) [OF r] by blast
qed

lemma pool_good_apart:
  assumes g: "pool_good sz F pool A K s"
  shows "sorted_wrt rdisj (A @ links K)"
    "\<And>r. r \<in> set (A @ links K) \<Longrightarrow> rdisj r (pool, 80) \<and>
       (\<exists>b\<in>set (live s) - F. fst b \<le> fst r \<and> fst r + snd r \<le> fst b + snd b)"
proof -
  obtain cs where gc: "pool_good_at sz F pool A K cs s" using g by (auto simp: pool_good_def)
  obtain ps ls chs where st: "pool \<in> set ps" "sorted_wrt rdisj (pool_structs pool ps ls cs chs @ A @ links K)"
    using gc by (rule pool_good_structs)
  then show "sorted_wrt rdisj (A @ links K)" by (simp add: sorted_wrt_append)
  fix q assume q: "q \<in> set (A @ links K)"
  have "(pool, 80) \<in> set (pool_structs pool ps ls cs chs)"
    using st(1) by (auto simp: pool_structs_def block_header_def intro: image_eqI [of _ _ pool])
  then have apart: "rdisj q (pool, 80)" using st(2) q by (auto simp: sorted_wrt_append intro: rdisj_sym)
  obtain chs' U W where i: "pool_inv pool sz F cs chs' (links K @ U) W s" "mset A \<subseteq># mset (U @ W)"
    using gc by (rule pool_good_at_cases)
  obtain ps' ls' where r: "pool_rep pool sz F ps' ls' cs chs' (links K @ U) W s" using i(1) by (rule pool_repI)
  have "set A \<subseteq> set (U @ W)" using i(2) by (metis set_mset_mono set_mset_mset)
  then consider "q \<in> set ((links K @ U) @ meta ls' cs chs')" | "q \<in> set W" using q by auto
  then have "\<exists>b\<in>set (live s) - F. fst b \<le> fst q \<and> fst q + snd q \<le> fst b + snd b"
  proof cases
    case 1
    obtain p where p: "p \<in> set ps'" "blk_start pool p \<le> fst q" "fst q + snd q \<le> p + sz" using block_span [OF r 1] .
    have "(p, sz) \<in> set (live s) - F" using pool_repD(2) [OF r] p(1) by (auto simp: owns_def)
    then show ?thesis using p by (intro bexI [of _ "(p, sz)"]) (auto simp: blk_start_def split: if_splits)
  next
    case 2
    then show ?thesis using pool_repD(2) [OF r] by (intro bexI [of _ q]) (auto simp: owns_def)
  qed
  then show "rdisj q (pool, 80) \<and> (\<exists>b\<in>set (live s) - F. fst b \<le> fst q \<and> fst q + snd q \<le> fst b + snd b)"
    using apart by blast
qed

text \<open>Closing the file of a descriptor reads the argument of each handler that closes a file.\<close>

lemma run_cleanup_file_returns:
  "npath (next_cleanup s) c cs \<Longrightarrow>
   (\<And>c. c \<in> set cs \<Longrightarrow> in_live s c 24 \<and>
      (c_handler (st_cleanup s c) = Ngx_pool_cleanup_file \<longrightarrow> in_live s (c_data (st_cleanup s c)) 24)) \<Longrightarrow>
   \<exists>d s'. run_cleanup_file_loop c fd s = Some (d, s')"
proof (induction cs arbitrary: c)
  case Nil
  then show ?case by (simp add: run_cleanup_file_loop.simps)
next
  case (Cons x xs)
  have x: "c = x" "x \<noteq> 0" "npath (next_cleanup s) (c_next (st_cleanup s x)) xs"
    using Cons.prems(1) by (auto simp flip: next_cleanup_def)
  have l: "in_live s x 24" "c_handler (st_cleanup s x) = Ngx_pool_cleanup_file \<longrightarrow> in_live s (c_data (st_cleanup s x)) 24"
    using Cons.prems(2) [of x] by simp_all
  have "\<exists>d s'. run_cleanup_file_loop (c_next (st_cleanup s x)) fd s = Some (d, s')"
    using Cons.IH [OF x(3)] Cons.prems(2) by simp
  then show ?case using x(1,2) l by (subst run_cleanup_file_loop.simps) (auto simp: get_cleanup_def put_cleanup_def)
qed

lemma pool_good_returns:
  assumes g: "pool_good_at sz F pool A K cs s" and os: "os_ok os"
  shows "\<exists>p s'. ngx_palloc os pool n s = Some (p, s') \<and> 8 dvd p"
    and "\<exists>p s'. ngx_pnalloc os pool n s = Some (p, s')"
    and "\<exists>p s'. ngx_pcalloc os pool n s = Some (p, s') \<and> 8 dvd p \<and> (p \<noteq> 0 \<longrightarrow> (\<forall>k<n. ram s' (p + k) = 0)) \<and>
      (\<forall>x. p = 0 \<or> x < p \<or> p + n \<le> x \<longrightarrow> ram s' x = ram s x)"
    and "\<exists>p s'. ngx_pmemalign os pool n a s = Some (p, s') \<and> a dvd p"
    and "q \<noteq> 0 \<Longrightarrow> \<exists>rc s'. ngx_pfree pool q s = Some (rc, s')"
    and "\<exists>c s'. ngx_pool_cleanup_add os pool n s = Some (c, s')"
    and "\<exists>c s'. ngx_alloc_chain_link os pool s = Some (c, s')"
    and "cl \<in> set K \<Longrightarrow> \<exists>s'. ngx_free_chain pool cl s = Some s'"
    and "\<exists>s'. ngx_reset_pool pool s = Some s'"
    and "(\<forall>c\<in>set cs. c_handler (st_cleanup s c) = Ngx_pool_cleanup_file \<longrightarrow> in_live s (c_data (st_cleanup s c)) 24) \<Longrightarrow>
      \<exists>d s'. ngx_pool_run_cleanup_file pool fd s = Some (d, s')"
proof -
  obtain chs U W where i: "pool_inv pool sz F cs chs (links K @ U) W s" "0 \<notin> set K" using g by (rule pool_good_at_cases)
  show "\<exists>p s'. ngx_palloc os pool n s = Some (p, s') \<and> 8 dvd p"
    by (rule ngx_palloc_run [OF os i(1), of n]) (auto simp: alloc_done_def split: if_splits)
  show "\<exists>p s'. ngx_pnalloc os pool n s = Some (p, s')" by (rule ngx_pnalloc_run [OF os i(1), of n]) auto
  show "\<exists>p s'. ngx_pcalloc os pool n s = Some (p, s') \<and> 8 dvd p \<and> (p \<noteq> 0 \<longrightarrow> (\<forall>k<n. ram s' (p + k) = 0)) \<and>
      (\<forall>x. p = 0 \<or> x < p \<or> p + n \<le> x \<longrightarrow> ram s' x = ram s x)"
    by (rule ngx_pcalloc_run [OF os i(1), of n]) auto
  show "\<exists>p s'. ngx_pmemalign os pool n a s = Some (p, s') \<and> a dvd p"
    by (rule ngx_pmemalign_run [OF os i(1), of n a]) (auto simp: alloc_done_def split: if_splits)
  show "q \<noteq> 0 \<Longrightarrow> \<exists>rc s'. ngx_pfree pool q s = Some (rc, s')" by (rule ngx_pfree_run [OF i(1)]) auto
  show "\<exists>c s'. ngx_pool_cleanup_add os pool n s = Some (c, s')" by (rule cleanup_add_run [OF os i(1), of n]) auto
  show "\<exists>c s'. ngx_alloc_chain_link os pool s = Some (c, s')" by (rule alloc_chain_link_run [OF os i(1)]) auto
  show "\<exists>s'. ngx_free_chain pool cl s = Some s'" if "cl \<in> set K"
  proof -
    have "cl \<noteq> 0" using that i(2) by metis
    then show ?thesis by (rule free_chain_run [OF i(1), rotated]) (use that in auto)
  qed
  show "\<exists>s'. ngx_reset_pool pool s = Some s'" using reset_keeps_chain [OF i(1)] by blast
  show "\<exists>d s'. ngx_pool_run_cleanup_file pool fd s = Some (d, s')"
    if "\<forall>c\<in>set cs. c_handler (st_cleanup s c) = Ngx_pool_cleanup_file \<longrightarrow> in_live s (c_data (st_cleanup s c)) 24"
  proof -
    have "\<exists>d s'. run_cleanup_file_loop (h_cleanup (st_h s pool)) fd s = Some (d, s')"
      using that pool_inv_live(3) [OF i(1)] by (intro run_cleanup_file_returns [OF pool_inv_live(5) [OF i(1)]]) blast
    then show ?thesis using pool_inv_live(2) [OF i(1)] by (simp add: ngx_pool_run_cleanup_file_def)
  qed
qed

section \<open>Where the pools go wrong\<close>

text \<open>A pool with \<open>max\<close> below 16, made with a size below 96, never returns from a large allocation as long as
  \<open>malloc\<close> succeeds: the entry of the list is itself a large allocation.\<close>

lemma palloc_large_hangs:
  assumes os: "\<And>L k. os_malloc os L k \<noteq> 0" and h: "in_live s pool 80" "h_max (st_h s pool) < 16" "h_large (st_h s pool) = 0"
  shows "ngx_palloc_large os pool n s = None"
proof (rule ccontr)
  assume "ngx_palloc_large os pool n s \<noteq> None"
  then obtain y where y: "ngx_palloc_large os pool n s = Some y" by auto
  have "os = os \<longrightarrow> in_live s pool 80 \<longrightarrow> h_max (st_h s pool) < 16 \<longrightarrow> h_large (st_h s pool) = 0 \<longrightarrow> False"
  proof (rule ngx_palloc_large.raw_induct [OF _ y, of "\<lambda>o' pool n s y. o' = os \<longrightarrow> in_live s pool 80 \<longrightarrow>
      h_max (st_h s pool) < 16 \<longrightarrow> h_large (st_h s pool) = 0 \<longrightarrow> False"], intro impI)
    fix f :: "os_env \<Rightarrow> ptr \<Rightarrow> nat \<Rightarrow> pool_mem \<Rightarrow> (ptr \<times> pool_mem) option" and o' pool k s y
    assume IH: "\<And>o' pool k s y. f o' pool k s = Some y \<Longrightarrow> o' = os \<longrightarrow> in_live s pool 80 \<longrightarrow>
        h_max (st_h s pool) < 16 \<longrightarrow> h_large (st_h s pool) = 0 \<longrightarrow> False"
      and r: "(let (p, s) = ngx_alloc o' k s
      in if p = 0 then Some (0, s)
         else get_h pool s \<bind> (\<lambda>h. large_reuse 0 p (h_large h) s \<bind> (\<lambda>(reused, s).
           if reused then Some (p, s)
           else (if 16 \<le> h_max h then palloc_small o' True pool 16 s else f o' pool 16 s) \<bind>
             (\<lambda>(large, s). large_link pool p large s)))) = Some y"
      and c: "o' = os" "in_live s pool 80" "h_max (st_h s pool) < 16" "h_large (st_h s pool) = 0"
    define t where "t = s\<lparr>live := (os_malloc os (live s) k, k) # live s\<rparr>"
    have lt: "in_live t pool 80" using c(2) by (auto simp: in_live_def t_def)
    have nz: "os_malloc os (live s) k \<noteq> 0" by (rule os)
    have "ngx_alloc o' k s = (os_malloc os (live s) k, t)" using nz c(1) by (simp add: ngx_alloc_def Let_def t_def)
    then have "f os pool 16 t \<noteq> None"
      using r nz c lt by (auto simp: get_h_def large_reuse.simps t_def split: bind_splits)
    then show False using IH [of os pool 16 t] lt c(3,4) by (auto simp: t_def)
  qed
  then show False using h by simp
qed

text \<open>A block whose end is not aligned: when the aligned address lies behind the end, the difference is taken for a
  huge size and the allocation lies outside of the block.\<close>

lemma palloc_overruns:
  assumes h: "in_live s pool 80" "h_current (st_h s pool) = q" "n \<le> h_max (st_h s pool)" "n < 2 ^ 63"
    and q: "in_live s q 32" "d_end (st_d s q) < ngx_align_ptr (d_last (st_d s q)) 8" "d_last (st_d s q) \<le> d_end (st_d s q)"
  shows "\<exists>p s'. ngx_palloc os pool n s = Some (p, s') \<and> d_end (st_d s q) < p"
proof -
  have "ngx_align_ptr (d_last (st_d s q)) 8 \<le> d_last (st_d s q) + 7" unfolding ngx_align_ptr_def by presburger
  then have "n \<le> usub (d_end (st_d s q)) (ngx_align_ptr (d_last (st_d s q)) 8)" using q(2,3) h(4) by (auto simp: usub_def)
  then show ?thesis using h q
    by (simp add: ngx_palloc_def get_h_def palloc_small_def palloc_loop.simps [of True n q] get_d_def put_d_def Let_def)
qed

text \<open>An operating system that allocates upwards, and an empty memory, for the examples.\<close>

definition top_of :: "region list \<Rightarrow> nat" where
  "top_of L = foldr (\<lambda>r. max (fst r + snd r)) L 0"

definition bump_at :: "region list \<Rightarrow> nat \<Rightarrow> nat \<Rightarrow> ptr" where
  "bump_at L a n = (let p = (top_of L div a + 1) * a in if p + n < 2 ^ 64 then p else 0)"

definition bump_os :: os_env where
  "bump_os = \<lparr>os_malloc = (\<lambda>L. bump_at L 16), os_memalign = bump_at, os_pagesize = 4096\<rparr>"

definition pool_mem0 :: pool_mem where
  "pool_mem0 = \<lparr>live = [], ram = (\<lambda>_. 0), st_d = (\<lambda>_. \<lparr>d_last = 0, d_end = 0, d_next = 0, d_failed = 0\<rparr>),
     st_h = (\<lambda>_. \<lparr>h_max = 0, h_current = 0, h_chain = 0, h_large = 0, h_cleanup = 0\<rparr>),
     st_large = (\<lambda>_. \<lparr>l_next = 0, l_alloc = 0\<rparr>),
     st_cleanup = (\<lambda>_. \<lparr>c_handler = No_handler, c_data = 0, c_next = 0\<rparr>),
     st_chain = (\<lambda>_. \<lparr>ch_buf = 0, ch_next = 0\<rparr>), st_fd = (\<lambda>_. 0)\<rparr>"

lemma top_of_le: "r \<in> set L \<Longrightarrow> fst r + snd r \<le> top_of L"
  by (induction L) (auto simp: top_of_def)

lemma bump_at_ok:
  assumes "regions L" "bump_at L a n \<noteq> 0"
  shows "a dvd bump_at L a n \<and> bump_at L a n \<notin> fst ` set L \<and> regions ((bump_at L a n, n) # L)"
proof -
  define p where "p = (top_of L div a + 1) * a"
  have p: "bump_at L a n = p" "p + n < 2 ^ 64" "p \<noteq> 0" using assms(2) by (auto simp: bump_at_def Let_def p_def split: if_splits)
  have "a \<noteq> 0" using p(3) by (auto simp: p_def)
  then have t: "top_of L < p" unfolding p_def by (metis Suc_eq_plus1 dividend_less_div_times mult.commute mult_Suc_right gr0I)
  have far: "fst r + snd r < p" if "r \<in> set L" for r using top_of_le [OF that] t by simp
  then have "p \<notin> fst ` set L" by fastforce
  moreover have "regions ((p, n) # L)"
    unfolding regions_def
  proof (intro conjI ballI impI)
    fix r assume "r \<in> set ((p, n) # L)"
    then show "0 < fst r" "fst r + snd r < 2 ^ 64" using p assms(1) by (auto simp: regions_def)
  next
    fix r q assume rq: "r \<in> set ((p, n) # L)" "q \<in> set ((p, n) # L)" "r \<noteq> q"
    then consider "r = (p, n)" "q \<in> set L" | "q = (p, n)" "r \<in> set L" | "r \<in> set L" "q \<in> set L" by auto
    then have "fst r \<noteq> fst q \<and> rdisj r q"
    proof cases
      case 1
      then show ?thesis using far [of q] by (simp add: rdisj_def)
    next
      case 2
      then show ?thesis using far [of r] by (simp add: rdisj_def)
    next
      case 3
      then show ?thesis using assms(1) rq(3) unfolding regions_def by blast
    qed
    then show "fst r \<noteq> fst q" "rdisj r q" by simp_all
  qed
  ultimately show ?thesis using p(1) by (simp add: p_def)
qed

lemma bump_os_ok: "os_ok bump_os"
  unfolding os_ok_def bump_os_def using bump_at_ok by simp

lemmas pool_eval = ngx_create_pool_def ngx_memalign_def bump_os_def bump_at_def top_of_def pool_mem0_def put_d_def put_h_def
  in_live_def usub_def ngx_palloc_def get_h_def palloc_small_def palloc_loop.simps [of _ _ 16] get_d_def ngx_align_ptr_def
  Let_def ngx_alloc_chain_link_def ngx_free_chain_def put_chain_def get_chain_def ngx_reset_pool_def
  ngx_palloc_large.simps [of _ 16 5000] ngx_alloc_def large_reuse.simps [of 0 _ 0] large_link_def put_large_def
  ngx_pool_cleanup_add_def put_cleanup_def
  free_larges.simps [of 0] reset_blocks.simps [of 0] reset_blocks.simps [of 16]

lemma pool_demo:
  "\<exists>s. pool_reach bump_os 1024 {} 16 [(1056, 5000), (96, 10)] [128] [168, 144] s \<and>
     st_cleanup s 144 = \<lparr>c_handler = Handler 7, c_data = 0, c_next = 0\<rparr> \<and>
     st_cleanup s 168 = \<lparr>c_handler = Handler 8, c_data = 0, c_next = 144\<rparr>"
proof -
  obtain s1 where s1: "ngx_create_pool bump_os 1024 pool_mem0 = Some (16, s1)" by (simp add: pool_eval)
  obtain s2 where s2: "ngx_palloc bump_os 16 10 s1 = Some (96, s2)" using s1 by (auto simp: pool_eval)
  obtain s3 where s3: "ngx_palloc bump_os 16 5000 s2 = Some (1056, s3)" using s1 s2 by (auto simp: pool_eval)
  obtain s4 where s4: "ngx_alloc_chain_link bump_os 16 s3 = Some (128, s4)" using s1 s2 s3 by (auto simp: pool_eval)
  obtain s5 where s5: "ngx_pool_cleanup_add bump_os 16 0 s4 = Some (144, s5)" using s1 s2 s3 s4 by (auto simp: pool_eval)
  obtain s6 where s6: "put_cleanup 144 (\<lambda>r. r\<lparr>c_handler := Handler 7\<rparr>) s5 = Some s6"
    using s1 s2 s3 s4 s5 by (auto simp: pool_eval)
  obtain s7 where s7: "ngx_pool_cleanup_add bump_os 16 0 s6 = Some (168, s7)" using s1 s2 s3 s4 s5 s6 by (auto simp: pool_eval)
  obtain s8 where s8: "put_cleanup 168 (\<lambda>r. r\<lparr>c_handler := Handler 8\<rparr>) s7 = Some s8"
    using s1 s2 s3 s4 s5 s6 s7 by (auto simp: pool_eval)
  have f: "st_cleanup s8 144 = \<lparr>c_handler = Handler 7, c_data = 0, c_next = 0\<rparr> \<and>
      st_cleanup s8 168 = \<lparr>c_handler = Handler 8, c_data = 0, c_next = 144\<rparr>"
    using s1 s2 s3 s4 s5 s6 s7 s8 by (auto simp: pool_eval)
  have d: "c_data (st_cleanup s5 144) = 0" "c_data (st_cleanup s7 168) = 0"
    using s1 s2 s3 s4 s5 s6 s7 by (auto simp: pool_eval)
  have r1: "pool_reach bump_os 1024 {} 16 [] [] [] s1"
    by (rule pool_reach.create [OF _ _ s1]) (simp_all add: pool_mem0_def regions_def)
  from pool_reach.palloc [OF r1 s2] have r2: "pool_reach bump_os 1024 {} 16 [(96, 10)] [] [] s2" by (simp add: taken_def)
  from pool_reach.palloc [OF r2 s3] have r3: "pool_reach bump_os 1024 {} 16 [(1056, 5000), (96, 10)] [] [] s3" by (simp add: taken_def)
  from pool_reach.alloc_link [OF r3 s4] have r4: "pool_reach bump_os 1024 {} 16 [(1056, 5000), (96, 10)] [128] [] s4" by simp
  from pool_reach.cleanup_add [OF r4 s5] have r5: "pool_reach bump_os 1024 {} 16 [(1056, 5000), (96, 10)] [128] [144] s5"
    using d by (simp add: taken_def)
  note r6 = pool_reach.handler [OF r5 s6]
  from pool_reach.cleanup_add [OF r6 s7] have r7: "pool_reach bump_os 1024 {} 16 [(1056, 5000), (96, 10)] [128] [168, 144] s7"
    using d by (simp add: taken_def)
  show ?thesis using pool_reach.handler [OF r7 s8] f by blast
qed

text \<open>After a reset the same memory is given out twice, as an allocation and as a chain link.\<close>

lemma reset_chain_overlap:
  "do { (p, s) \<leftarrow> ngx_create_pool bump_os 1024 pool_mem0;
     (c, s) \<leftarrow> ngx_alloc_chain_link bump_os p s;
     s \<leftarrow> ngx_free_chain p c s;
     s \<leftarrow> ngx_reset_pool p s;
     (m, s) \<leftarrow> ngx_palloc bump_os p 64 s;
     (c, s) \<leftarrow> ngx_alloc_chain_link bump_os p s;
     Some ((m, 64), (c, 16)) } = Some ((96, 64), (96, 16))"
  by (simp add: pool_eval)

section \<open>Properties\<close>

text \<open>
  C31. No two allocations overlap: in every reachable state of a pool, what the user holds (allocations of every kind
  and chain links) is pairwise disjoint, apart from the header of the pool, and each lies within a region that the
  pool has from the operating system.  The size of the pool is a multiple of 16 and at least 112, as the
  configuration demands (\<open>NGX_MIN_POOL_SIZE\<close>), and a pool is reset only when it has no cleanups and no free links.
\<close>

theorem pool_allocations_apart:
  assumes "os_ok os" "16 dvd sz" "112 \<le> sz" "pool_reach os sz F pool A K C s"
  shows "sorted_wrt rdisj (A @ links K) \<and>
    (\<forall>r\<in>set (A @ links K). rdisj r (pool, 80) \<and>
       (\<exists>b\<in>set (live s) - F. fst b \<le> fst r \<and> fst r + snd r \<le> fst b + snd b))"
  using pool_good_apart [OF pool_reach_good [OF assms(4,1-3)]] by blast

theorem pool_allocations_apart_witness:
  "\<exists>s. pool_reach bump_os 1024 {} 16 [(1056, 5000), (96, 10)] [128] [168, 144] s \<and>
     sorted_wrt rdisj [(1056, 5000), (96, 10), (128, 16)] \<and> rdisj (1056, 5000) (16, 80)"
proof -
  obtain s where s: "pool_reach bump_os 1024 {} 16 [(1056, 5000), (96, 10)] [128] [168, 144] s" using pool_demo by blast
  show ?thesis using pool_allocations_apart [OF bump_os_ok _ _ s] s by auto
qed

text \<open>
  C32. In every reachable state all operations on a pool return, without an access outside of the memory in use and
  without freeing a pointer that was not allocated: the four kinds of allocation, freeing a pointer, adding a cleanup,
  taking a chain link and giving back one that the user holds, resetting the pool, and closing the file of a
  descriptor, the last if the argument of every handler that closes files lies in memory in use.  (Destroying
  the pool is the next property.)  The results of \<open>ngx_palloc\<close>, \<open>ngx_pcalloc\<close> and \<open>ngx_pmemalign\<close> are aligned; \<open>ngx_pcalloc\<close> zeroes
  its block and no other byte.  The structures that the pool keeps in its memory overlap neither each other nor
  what the user holds, so that the operations, which write to structures only, change nothing of the user's.
\<close>

theorem pool_operations_return:
  assumes "os_ok os" "16 dvd sz" "112 \<le> sz" "pool_reach os sz F pool A K C s" "q \<noteq> 0"
  shows "(\<exists>p s'. ngx_palloc os pool n s = Some (p, s') \<and> 8 dvd p) \<and>
    (\<exists>p s'. ngx_pnalloc os pool n s = Some (p, s')) \<and>
    (\<exists>p s'. ngx_pcalloc os pool n s = Some (p, s') \<and> 8 dvd p \<and> (p \<noteq> 0 \<longrightarrow> (\<forall>k<n. ram s' (p + k) = 0)) \<and>
      (\<forall>x. p = 0 \<or> x < p \<or> p + n \<le> x \<longrightarrow> ram s' x = ram s x)) \<and>
    (\<exists>p s'. ngx_pmemalign os pool n a s = Some (p, s') \<and> a dvd p) \<and>
    (\<exists>rc s'. ngx_pfree pool q s = Some (rc, s')) \<and>
    (\<exists>c s'. ngx_pool_cleanup_add os pool n s = Some (c, s')) \<and>
    (\<exists>c s'. ngx_alloc_chain_link os pool s = Some (c, s')) \<and>
    (\<forall>cl\<in>set K. \<exists>s'. ngx_free_chain pool cl s = Some s') \<and>
    (\<exists>s'. ngx_reset_pool pool s = Some s') \<and>
    ((\<forall>c\<in>set C. c_handler (st_cleanup s c) = Ngx_pool_cleanup_file \<longrightarrow> in_live s (c_data (st_cleanup s c)) 24) \<longrightarrow>
      (\<exists>d s'. ngx_pool_run_cleanup_file pool fd s = Some (d, s'))) \<and>
    (\<exists>ps ls chs. npath (next_d s) pool ps \<and> npath (next_large s) (h_large (st_h s pool)) ls \<and>
      npath (next_cleanup s) (h_cleanup (st_h s pool)) C \<and> npath (next_chain s) (h_chain (st_h s pool)) chs \<and>
      sorted_wrt rdisj (pool_structs pool ps ls C chs @ A @ links K))"
proof -
  note g = pool_reach_good_at [OF assms(4,1-3)]
  obtain ps ls chs where "npath (next_d s) pool ps" "npath (next_large s) (h_large (st_h s pool)) ls"
    "npath (next_cleanup s) (h_cleanup (st_h s pool)) C" "npath (next_chain s) (h_chain (st_h s pool)) chs"
    "sorted_wrt rdisj (pool_structs pool ps ls C chs @ A @ links K)"
    using g by (rule pool_good_structs)
  moreover have "\<forall>cl\<in>set K. \<exists>s'. ngx_free_chain pool cl s = Some s'" using pool_good_returns(8) [OF g assms(1)] by blast
  ultimately show ?thesis
    by (intro conjI impI pool_good_returns [OF g assms(1)] assms(5)) blast+
qed

theorem pool_operations_return_witness:
  "\<exists>s. pool_reach bump_os 1024 {} 16 [(1056, 5000), (96, 10)] [128] [168, 144] s \<and>
     (\<exists>p s'. ngx_pcalloc bump_os 16 100 s = Some (p, s') \<and> 8 dvd p) \<and>
     (\<exists>s'. ngx_free_chain 16 128 s = Some s') \<and> (\<exists>s'. ngx_reset_pool 16 s = Some s') \<and>
     (\<exists>d s'. ngx_pool_run_cleanup_file 16 5 s = Some (d, s'))"
proof -
  obtain s where s: "pool_reach bump_os 1024 {} 16 [(1056, 5000), (96, 10)] [128] [168, 144] s"
    "c_handler (st_cleanup s 144) = Handler 7" "c_handler (st_cleanup s 168) = Handler 8"
    using pool_demo by (metis ngx_pool_cleanup.select_convs(1))
  note r = pool_operations_return [OF bump_os_ok _ _ s(1), of 1 100 16 5]
  have "\<exists>p s'. ngx_pcalloc bump_os 16 100 s = Some (p, s') \<and> 8 dvd p" "\<exists>s'. ngx_reset_pool 16 s = Some s'" using r by auto
  moreover have "\<exists>s'. ngx_free_chain 16 128 s = Some s'" using r by simp
  moreover have "\<exists>d s'. ngx_pool_run_cleanup_file 16 5 s = Some (d, s')" using r s(2,3) by simp
  ultimately show ?thesis using s(1) by blast
qed

text \<open>
  C33. Destroying a reachable pool returns, calls the handlers that are set, from the cleanup added last to the one
  added first (\<open>C\<close> lists the cleanups that \<open>ngx_pool_cleanup_add\<close> has returned, the last one first, and the chain of the
  pool is \<open>C\<close>), and gives every region of the pool back exactly once: afterwards the regions in use are those from
  before the creation.
\<close>

theorem pool_destroy_complete:
  assumes "os_ok os" "16 dvd sz" "112 \<le> sz" "pool_reach os sz F pool A K C s"
  shows "\<exists>s'. npath (next_cleanup s) (h_cleanup (st_h s pool)) C \<and>
    ngx_destroy_pool pool s = Some (cleanup_calls s C, s') \<and> set (live s') = F"
proof -
  obtain chs U W where i: "pool_inv pool sz F C chs (links K @ U) W s"
    using pool_reach_good_at [OF assms(4,1-3)] by (rule pool_good_at_cases)
  show ?thesis by (rule destroy_pool_run [OF i]) (use pool_inv_live(5) [OF i] in blast)
qed

theorem pool_destroy_complete_witness:
  "\<exists>s s'. pool_reach bump_os 1024 {} 16 [(1056, 5000), (96, 10)] [128] [168, 144] s \<and>
     ngx_destroy_pool 16 s = Some ([(Handler 8, 0), (Handler 7, 0)], s') \<and> live s' = []"
proof -
  obtain s where s: "pool_reach bump_os 1024 {} 16 [(1056, 5000), (96, 10)] [128] [168, 144] s"
     "st_cleanup s 144 = \<lparr>c_handler = Handler 7, c_data = 0, c_next = 0\<rparr>"
     "st_cleanup s 168 = \<lparr>c_handler = Handler 8, c_data = 0, c_next = 144\<rparr>" using pool_demo by blast
  obtain s' where d: "ngx_destroy_pool 16 s = Some (cleanup_calls s [168, 144], s')" "live s' = []"
    using pool_destroy_complete [OF bump_os_ok _ _ s(1)] by auto
  have "cleanup_calls s [168, 144] = [(Handler 8, 0), (Handler 7, 0)]" using s(2,3) by (simp add: cleanup_calls_def)
  then show ?thesis using s(1) d by auto
qed

end
