(* ===== verification/Ngx_Array.thy ===== *)
theory Ngx_Array
  imports Ngx_Pool
begin

text \<open>
  The arrays of \<^verbatim>\<open>src/core/ngx_array.c\<close> and \<^verbatim>\<open>src/core/ngx_array.h\<close>, clients of the pools that look into them: an array that is the
  last allocation of the first block grows in place, and destroying it gives the memory back to the block.

  Shown: pushing refines appending to a list, and does not touch other memory; \<open>ngx_array_push\<close> is
  \<open>ngx_array_push_n\<close> for one element; destroying keeps the pool consistent; an array for no elements never grows.
\<close>

section \<open>The functions\<close>

text \<open>\<open>ngx_array_t\<close>; \<open>a_pool\<close> is the address of the pool.\<close>

record ngx_array =
  a_elts :: ptr
  a_nelts :: nat
  a_size :: nat
  a_nalloc :: nat
  a_pool :: ptr

text \<open>Products and sums of \<open>size_t\<close> and \<open>ngx_uint_t\<close>.\<close>

definition umul :: "nat \<Rightarrow> nat \<Rightarrow> nat" where
  "umul a b = a * b mod 2 ^ 64"

definition uadd :: "nat \<Rightarrow> nat \<Rightarrow> nat" where
  "uadd a b = (a + b) mod 2 ^ 64"

text \<open>The structure of the array is a value; where it has an address of its own, as in \<open>ngx_array_create\<close> and
  \<open>ngx_array_destroy\<close>, the address is an argument or a result.\<close>

definition ngx_array_init ::
    "os_env \<Rightarrow> ptr \<Rightarrow> nat \<Rightarrow> nat \<Rightarrow> pool_mem \<Rightarrow> (ngx_rc \<times> ngx_array \<times> pool_mem) option" where
  "ngx_array_init os pool n sz s = do {
     (elts, s) \<leftarrow> ngx_palloc os pool (umul n sz) s;
     Some (if elts = NULL then NGX_ERROR else NGX_OK,
           \<lparr>a_elts = elts, a_nelts = 0, a_size = sz, a_nalloc = n, a_pool = pool\<rparr>, s) }"

definition ngx_array_create ::
    "os_env \<Rightarrow> ptr \<Rightarrow> nat \<Rightarrow> nat \<Rightarrow> pool_mem \<Rightarrow> (ptr \<times> ngx_array option \<times> pool_mem) option" where
  "ngx_array_create os p n sz s = do {
     (a, s) \<leftarrow> ngx_palloc os p 40 s;
     if a = NULL then Some (NULL, None, s)
     else do {
       (elts, s) \<leftarrow> ngx_palloc os p (umul n sz) s;
       if elts = NULL then Some (NULL, None, s)
       else Some (a, Some \<lparr>a_elts = elts, a_nelts = 0, a_size = sz, a_nalloc = n, a_pool = p\<rparr>, s) } }"

definition ngx_array_destroy :: "ptr \<Rightarrow> ngx_array \<Rightarrow> pool_mem \<Rightarrow> pool_mem option" where
  "ngx_array_destroy a r s = do {
     let p = a_pool r;
     d \<leftarrow> get_d p s;
     s \<leftarrow> (if a_elts r + umul (a_size r) (a_nalloc r) = d_last d
           then put_d p (\<lambda>d. d\<lparr>d_last := d_last d - umul (a_size r) (a_nalloc r)\<rparr>) s
           else Some s);
     d \<leftarrow> get_d p s;
     if a + 40 = d_last d then put_d p (\<lambda>d. d\<lparr>d_last := a\<rparr>) s else Some s }"

text \<open>Copying bytes between regions that do not overlap.\<close>

definition ngx_memcpy :: "ptr \<Rightarrow> ptr \<Rightarrow> nat \<Rightarrow> pool_mem \<Rightarrow> pool_mem option" where
  "ngx_memcpy dst src n s = (if in_live s src n then ram_write dst n (\<lambda>k. ram s (src + k)) s else None)"

text \<open>The condition of the first \<open>if\<close> and its body give the array after growing, or \<open>False\<close> for the return of \<open>NULL\<close>.\<close>

definition ngx_array_push :: "os_env \<Rightarrow> ngx_array \<Rightarrow> pool_mem \<Rightarrow> (ptr \<times> ngx_array \<times> pool_mem) option" where
  "ngx_array_push os a s = do {
     (ok, a, s) \<leftarrow>
       (if a_nelts a = a_nalloc a
        then do {
          let sz = umul (a_size a) (a_nalloc a);
          d \<leftarrow> get_d (a_pool a) s;
          if a_elts a + sz = d_last d \<and> d_last d + a_size a \<le> d_end d
          then do {
            s \<leftarrow> put_d (a_pool a) (\<lambda>d. d\<lparr>d_last := d_last d + a_size a\<rparr>) s;
            Some (True, a\<lparr>a_nalloc := uadd (a_nalloc a) 1\<rparr>, s) }
          else do {
            (new, s) \<leftarrow> ngx_palloc os (a_pool a) (umul 2 sz) s;
            if new = NULL then Some (False, a, s)
            else do {
              s \<leftarrow> ngx_memcpy new (a_elts a) sz s;
              Some (True, a\<lparr>a_elts := new, a_nalloc := umul (a_nalloc a) 2\<rparr>, s) } } }
        else Some (True, a, s));
     if \<not> ok then Some (NULL, a, s)
     else Some (a_elts a + umul (a_size a) (a_nelts a), a\<lparr>a_nelts := uadd (a_nelts a) 1\<rparr>, s) }"

definition ngx_array_push_n :: "os_env \<Rightarrow> ngx_array \<Rightarrow> nat \<Rightarrow> pool_mem \<Rightarrow> (ptr \<times> ngx_array \<times> pool_mem) option" where
  "ngx_array_push_n os a n s = do {
     let sz = umul n (a_size a);
     (ok, a, s) \<leftarrow>
       (if a_nalloc a < uadd (a_nelts a) n
        then do {
          d \<leftarrow> get_d (a_pool a) s;
          if a_elts a + umul (a_size a) (a_nalloc a) = d_last d \<and> d_last d + sz \<le> d_end d
          then do {
            s \<leftarrow> put_d (a_pool a) (\<lambda>d. d\<lparr>d_last := d_last d + sz\<rparr>) s;
            Some (True, a\<lparr>a_nalloc := uadd (a_nalloc a) n\<rparr>, s) }
          else do {
            let nalloc = umul 2 (if a_nalloc a \<le> n then n else a_nalloc a);
            (new, s) \<leftarrow> ngx_palloc os (a_pool a) (umul nalloc (a_size a)) s;
            if new = NULL then Some (False, a, s)
            else do {
              s \<leftarrow> ngx_memcpy new (a_elts a) (umul (a_nelts a) (a_size a)) s;
              Some (True, a\<lparr>a_elts := new, a_nalloc := nalloc\<rparr>, s) } } }
        else Some (True, a, s));
     if \<not> ok then Some (NULL, a, s)
     else Some (a_elts a + umul (a_size a) (a_nelts a), a\<lparr>a_nelts := uadd (a_nelts a) n\<rparr>, s) }"

section \<open>Growing in place\<close>

lemma pool_rep_last:
  assumes r: "pool_rep pool sz F ps ls cs chs U W s" and s': "s' = bump pool e s"
    and e: "pool + 80 \<le> e" "e \<le> pool + sz"
    and sw: "sorted_wrt rdisj (U' @ meta ls cs chs)"
    and ib: "\<And>q. q \<in> set (U' @ meta ls cs chs) \<Longrightarrow> in_blocks pool ps s' q"
  shows "pool_rep pool sz F ps ls cs chs U' W s'"
proof -
  note b = blocks_okD [OF pool_repD(1) [OF r]]
  have "next_d s' = next_d s" by (auto simp: s' bump_def next_d_def)
  moreover have "block_ok pool sz s' p" if "p \<in> set ps" for p
    using b(8) [OF that] e by (auto simp: s' bump_def block_ok_def blk_start_def)
  ultimately have "blocks_ok pool sz ps s'" using b by (simp add: blocks_ok_def s' bump_def)
  moreover have "owns sz ps W F s'" using pool_repD(2) [OF r] by (simp add: owns_def s' bump_def)
  moreover have "larges_ok pool W ls s'"
    using pool_repD(3) [OF r] by (simp add: larges_ok_def s' bump_def next_large_def [abs_def])
  ultimately show ?thesis using pool_repD(4,5) [OF r] sw ib
    by (simp add: pool_rep_def s' bump_def next_cleanup_def [abs_def] next_chain_def [abs_def])
qed

text \<open>An allocation that ends where the free space of the first block begins lies in the first block.\<close>

lemma last_in_first:
  assumes r: "pool_rep pool sz F ps ls cs chs U W s" and em: "(e, m) \<in> set (U @ W)" "0 < m"
    and l: "e + m = d_last (st_d s pool)"
  shows "(e, m) \<in> set U" "pool + 80 \<le> e" "(e, m) \<notin> set W"
proof -
  note b = blocks_okD [OF pool_repD(1) [OF r]] and o = pool_repD(2) [OF r]
  have reg: "regions (live s)" using o by (simp add: owns_def)
  have lp: "pool + 80 \<le> d_last (st_d s pool)" "d_last (st_d s pool) \<le> pool + sz"
    using b(8) [OF b(5)] by (auto simp: block_ok_def blk_start_def)
  show nw: "(e, m) \<notin> set W"
  proof
    assume w: "(e, m) \<in> set W"
    then have "(e, m) \<in> set (live s)" "(pool, sz) \<noteq> (e, m)" using o b(5) by (auto simp: owns_def)
    then have "rdisj (pool, sz) (e, m)" using reg owns_block [OF o b(5)] unfolding regions_def by blast
    then show False using em(2) l lp b(2) by (auto simp: rdisj_def)
  qed
  then show u: "(e, m) \<in> set U" using em(1) by simp
  then have "in_blocks pool ps s (e, m)" using pool_repD(7) [OF r] by simp
  then obtain p where p: "p \<in> set ps" "blk_start pool p \<le> fst (e, m)" "fst (e, m) + snd (e, m) \<le> d_last (st_d s p)"
    "p + 32 \<le> fst (e, m)" "fst (e, m) + snd (e, m) \<le> p + sz"
    by (rule in_blocks_span [OF pool_repD(1) [OF r]])
  have "p = pool"
  proof (rule ccontr)
    assume "p \<noteq> pool"
    then show False using blocks_apart [OF o p(1) b(5) _ b(2)] p l lp em(2) by auto
  qed
  then show "pool + 80 \<le> e" using p(2) by (simp add: blk_start_def)
qed

lemma apart_below:
  assumes r: "pool_rep pool sz F ps ls cs chs U W s" and l: "e + m = d_last (st_d s pool)" "pool + 80 \<le> e" "0 < m"
    and q: "in_blocks pool ps s q" "rdisj q (e, m)" "0 < snd q"
  shows "(\<exists>p\<in>set ps. p \<noteq> pool \<and> blk_start pool p \<le> fst q \<and> fst q + snd q \<le> d_last (st_d s p)) \<or>
    (pool + 80 \<le> fst q \<and> fst q + snd q \<le> e)"
proof -
  obtain p where p: "p \<in> set ps" "blk_start pool p \<le> fst q" "fst q + snd q \<le> d_last (st_d s p)"
    using q(1) by (auto simp: in_blocks_def)
  show ?thesis
  proof (cases "p = pool")
    case True
    then have "fst q + snd q \<le> e" using p(3) q(2,3) l by (auto simp: rdisj_def)
    then show ?thesis using p(2) True by (auto simp: blk_start_def)
  next
    case False
    then show ?thesis using p by blast
  qed
qed

lemma extend_apart:
  assumes r: "pool_rep pool sz F ps ls cs chs U W s" and l: "e + m = d_last (st_d s pool)" "pool + 80 \<le> e" "0 < m"
    and k: "e + m + k \<le> pool + sz" and q: "in_blocks pool ps s q" "rdisj q (e, m)"
  shows "rdisj q (e, m + k)"
proof (cases "snd q = 0")
  case False
  note b = blocks_okD [OF pool_repD(1) [OF r]] and o = pool_repD(2) [OF r]
  consider p where "p \<in> set ps" "p \<noteq> pool" "blk_start pool p \<le> fst q" "fst q + snd q \<le> d_last (st_d s p)"
    | "fst q + snd q \<le> e" using apart_below [OF r l q] False by auto
  then show ?thesis
  proof cases
    case 1
    have "d_last (st_d s p) \<le> p + sz" using b(8) [OF 1(1)] by (simp add: block_ok_def)
    then show ?thesis using blocks_apart [OF o 1(1) b(5) 1(2) b(2)] 1 l(2) k
      by (auto simp: rdisj_def blk_start_def split: if_splits)
  next
    case 2
    then show ?thesis by (simp add: rdisj_def)
  qed
qed (simp add: rdisj_def)

lemma mset_take: "x \<in> set xs \<Longrightarrow> mset (x # remove1 x xs) = mset xs"
  by simp

lemma pool_good_extend:
  assumes g: "pool_good sz F pool ((e, m) # A) K s" and m: "0 < m" and l: "e + m = d_last (st_d s pool)"
    and k: "e + m + k \<le> d_end (st_d s pool)"
  shows "pool_good sz F pool ((e, m + k) # A) K (bump pool (e + m + k) s)"
proof -
  obtain cs chs U W where i: "pool_inv pool sz F cs chs (links K @ U) W s" "mset ((e, m) # A) \<subseteq># mset (U @ W)" "0 \<notin> set K"
    using g by (rule pool_good_cases)
  obtain ps ls where r: "pool_rep pool sz F ps ls cs chs (links K @ U) W s" using i(1) by (rule pool_repI)
  note b = blocks_okD [OF pool_repD(1) [OF r]]
  have de: "d_end (st_d s pool) = pool + sz" using b(8) [OF b(5)] by (simp add: block_ok_def)
  have emU: "(e, m) \<in> set (U @ W)" using i(2) by (metis list.set_intros(1) set_mset_mono set_mset_mset subsetD)
  have lf: "pool + 80 \<le> e" "(e, m) \<notin> set W" using last_in_first [OF r _ m l] emU by auto
  then have u: "(e, m) \<in> set U" using emU by simp
  define R where "R = links K @ remove1 (e, m) U @ meta ls cs chs"
  have ms: "mset ((e, m) # R) = mset ((links K @ U) @ meta ls cs chs)" using u by (simp add: R_def)
  have sr: "sorted_wrt rdisj ((e, m) # R)" by (rule rdisj_sub [OF pool_repD(6) [OF r]]) (simp only: ms subset_mset.order_refl)
  have inb: "in_blocks pool ps s q" if "q \<in> set R" for q
  proof -
    have "q \<in> set ((links K @ U) @ meta ls cs chs)" using that ms by (metis list.set_intros(2) set_mset_mset)
    then show ?thesis by (rule pool_repD(7) [OF r])
  qed
  define s' where "s' = bump pool (e + m + k) s"
  have mono: "in_blocks pool ps s' q" if "in_blocks pool ps s q" for q
    using that l unfolding in_blocks_def s'_def bump_def by fastforce
  have new: "in_blocks pool ps s' (e, m + k)" using b(5) lf(1) by (auto simp: in_blocks_def s'_def bump_def blk_start_def)
  have ap: "rdisj (e, m + k) q" if "q \<in> set R" for q
  proof -
    have "rdisj q (e, m)" using sr that by (auto intro: rdisj_sym)
    then show ?thesis using extend_apart [OF r l lf(1) m _ inb [OF that]] k de rdisj_sym by simp
  qed
  have sr': "sorted_wrt rdisj ((e, m + k) # R)" using sr ap by simp
  have "pool_rep pool sz F ps ls cs chs ((e, m + k) # links K @ remove1 (e, m) U) W s'"
  proof (rule pool_rep_last [OF r s'_def])
    show "pool + 80 \<le> e + m + k" "e + m + k \<le> pool + sz" using lf(1) k de by auto
    show "sorted_wrt rdisj (((e, m + k) # links K @ remove1 (e, m) U) @ meta ls cs chs)" using sr' by (simp add: R_def)
    fix q assume "q \<in> set (((e, m + k) # links K @ remove1 (e, m) U) @ meta ls cs chs)"
    then have "q = (e, m + k) \<or> q \<in> set R" by (auto simp: R_def)
    then show "in_blocks pool ps s' q" using new inb mono by blast
  qed
  from pool_goodI [OF pool_invI [OF this], of K "(e, m + k) # remove1 (e, m) U"] show ?thesis
    using i(2,3) u lf(2) unfolding s'_def by (simp add: insert_subset_eq_iff)
qed

section \<open>Pushing\<close>

text \<open>A well-formed array of elements of \<open>esz\<close> bytes and the region of its elements.\<close>

definition arr_ok :: "ptr \<Rightarrow> nat \<Rightarrow> ngx_array \<Rightarrow> bool" where
  "arr_ok pool esz a \<longleftrightarrow> a_pool a = pool \<and> a_size a = esz \<and> 0 < esz \<and> 0 < a_nalloc a \<and> a_nelts a \<le> a_nalloc a \<and>
     esz * a_nalloc a < 2 ^ 64"

definition arr_region :: "ngx_array \<Rightarrow> region" where
  "arr_region a = (a_elts a, a_size a * a_nalloc a)"

lemma umul_small: "a * b < 2 ^ 64 \<Longrightarrow> umul a b = a * b"
  by (simp add: umul_def)

lemma uadd_small: "a + b < 2 ^ 64 \<Longrightarrow> uadd a b = a + b"
  by (simp add: uadd_def)

lemma umul_commute: "umul a b = umul b a"
  by (simp add: umul_def mult.commute)

lemma umul_assoc: "umul a (umul b c) = umul (umul a b) c"
proof -
  have "umul a (umul b c) = a * (b * c) mod 2 ^ 64" unfolding umul_def by (rule mod_mult_right_eq)
  also have "\<dots> = umul (umul a b) c" unfolding umul_def by (simp only: mult.assoc [symmetric] mod_mult_left_eq)
  finally show ?thesis .
qed

text \<open>\<open>ngx_array_push\<close> is \<open>ngx_array_push_n\<close> for one element, so that only the latter needs a proof.\<close>

lemma push_is_push_n:
  assumes "arr_ok pool esz a" "2 * (esz * a_nalloc a) < 2 ^ 64"
  shows "ngx_array_push os a s = ngx_array_push_n os a 1 s"
proof -
  have a: "a_size a = esz" "0 < esz" "0 < a_nalloc a" "a_nelts a \<le> a_nalloc a" using assms(1) by (auto simp: arr_ok_def)
  have n: "a_nalloc a \<le> esz * a_nalloc a" using a(2) by simp
  have le: "a_nelts a + 1 < 2 ^ 64" using a n assms(2) by linarith
  have full: "(a_nelts a = a_nalloc a) = (a_nalloc a < uadd (a_nelts a) 1)"
    using uadd_small [OF le] a(4) by auto
  have u2: "umul 2 (umul esz (a_nalloc a)) = umul (umul 2 (a_nalloc a)) esz"
    by (metis umul_assoc umul_commute)
  have m1: "umul 1 (a_size a) = a_size a"
  proof -
    have "esz \<le> esz * a_nalloc a" using a(3) by simp
    then have "1 * a_size a < 2 ^ 64" using a(1) assms(2) by linarith
    then show ?thesis by (simp add: umul_small)
  qed
  have mx: "(if a_nalloc a \<le> 1 then 1 else a_nalloc a) = a_nalloc a" using a(3) by auto
  have cp: "a_nelts a = a_nalloc a \<Longrightarrow> umul (a_nelts a) esz = umul esz (a_nalloc a)" by (simp add: umul_def mult.commute)
  show ?thesis
  proof (cases "a_nelts a = a_nalloc a")
    case True
    then have t: "a_nalloc a < uadd (a_nelts a) 1" using full by simp
    have c2: "umul (a_nalloc a) 2 = umul 2 (a_nalloc a)" by (rule umul_commute)
    show ?thesis unfolding ngx_array_push_def ngx_array_push_n_def Let_def mx m1 if_P [OF True] if_P [OF t]
      by (simp only: a(1) u2 c2 cp [OF True])
  next
    case False
    then have t: "\<not> a_nalloc a < uadd (a_nelts a) 1" using full by simp
    show ?thesis unfolding ngx_array_push_def ngx_array_push_n_def using False t by (simp add: Let_def)
  qed
qed

lemma pool_good_palloc:
  assumes os: "os_ok os" and g: "pool_good sz F pool A K s"
  obtains p s' where "ngx_palloc os pool n s = Some (p, s')" "pool_good sz F pool (taken p n A) K s'" "ram s' = ram s" "8 dvd p"
proof -
  obtain cs chs U W where i: "pool_inv pool sz F cs chs (links K @ U) W s" "mset A \<subseteq># mset (U @ W)" "0 \<notin> set K"
    using g by (rule pool_good_cases)
  obtain p s' where p: "ngx_palloc os pool n s = Some (p, s')" "alloc_done pool sz F cs chs (links K @ U) W 8 n s p s'"
    by (rule ngx_palloc_run [OF os i(1)])
  have "ram s' = ram s" "8 dvd p" using p(2) by (auto simp: alloc_done_def alloc_keeps_def split: if_splits)
  then show thesis using that [OF p(1) alloc_good [OF p(2) i(2,3)]] by blast
qed

lemma pool_good_get:
  assumes g: "pool_good sz F pool A K s"
  shows "get_d pool s = Some (st_d s pool)" "in_live s pool 32" "(a, n) \<in> set A \<Longrightarrow> in_live s a n"
proof -
  obtain cs chs U W where i: "pool_inv pool sz F cs chs (links K @ U) W s" "mset A \<subseteq># mset (U @ W)"
    using g by (rule pool_good_cases)
  have "in_live s pool 80" by (rule pool_inv_live(1) [OF i(1)])
  then show l: "in_live s pool 32" by (auto simp: in_live_def)
  then show "get_d pool s = Some (st_d s pool)" by (simp add: get_d_def)
  have "set A \<subseteq> set (U @ W)" using i(2) by (metis set_mset_mono set_mset_mset)
  then show "(a, n) \<in> set A \<Longrightarrow> in_live s a n" using pool_inv_live_user [OF i(1), of a n] by auto
qed

lemma pool_good_nonnull:
  assumes g: "pool_good sz F pool A K s" and r: "r \<in> set A"
  shows "fst r \<noteq> 0"
proof -
  obtain cs chs U W where i: "pool_inv pool sz F cs chs (links K @ U) W s" using g by (rule pool_good_cases)
  obtain ps ls where "pool_rep pool sz F ps ls cs chs (links K @ U) W s" using i by (rule pool_repI)
  then have reg: "regions (live s)" using pool_repD(2) by (auto simp: owns_def)
  obtain b where "b \<in> set (live s)" "fst b \<le> fst r" using pool_good_apart(2) [OF g, of r] r by auto
  then show ?thesis using reg by (force simp: regions_def)
qed

lemma pool_good_ram: "pool_good sz F pool A K (s\<lparr>ram := R\<rparr>) = pool_good sz F pool A K s"
  by (simp add: pool_good_def pool_good_at_def pool_inv_ram)

lemma pool_good_sub: "pool_good sz F pool A K s \<Longrightarrow> mset B \<subseteq># mset A \<Longrightarrow> pool_good sz F pool B K s"
  unfolding pool_good_def pool_good_at_def by (meson subset_mset.order_trans)

lemma in_live_part: "in_live s a n \<Longrightarrow> k + m \<le> n \<Longrightarrow> in_live s (a + k) m"
  unfolding in_live_def by (elim bexE, rule bexI) auto

lemma memcpy_run:
  assumes "in_live s src n" "in_live s dst n"
  shows "ngx_memcpy dst src n s = Some (s\<lparr>ram := (\<lambda>x. if dst \<le> x \<and> x < dst + n then ram s (src + (x - dst)) else ram s x)\<rparr>)"
  using assms by (simp add: ngx_memcpy_def ram_write_def)

text \<open>The outcome of a push: the elements keep their contents, and so does all other memory.\<close>

definition pushed :: "nat \<Rightarrow> region set \<Rightarrow> ptr \<Rightarrow> region list \<Rightarrow> ptr list \<Rightarrow> nat \<Rightarrow> ngx_array \<Rightarrow> pool_mem \<Rightarrow> nat \<Rightarrow>
    ptr \<Rightarrow> ngx_array \<Rightarrow> pool_mem \<Rightarrow> bool" where
  "pushed sz F pool A K esz a s n p a' s' \<longleftrightarrow>
     arr_ok pool esz a' \<and> a_nelts a' = a_nelts a + n \<and> p = a_elts a' + esz * a_nelts a \<and>
     pool_good sz F pool (arr_region a' # A) K s' \<and>
     (\<forall>k<esz * a_nelts a. ram s' (a_elts a' + k) = ram s (a_elts a + k)) \<and>
     (\<forall>r\<in>set A. \<forall>k. k < snd r \<longrightarrow> ram s' (fst r + k) = ram s (fst r + k))"

lemma push_n_run:
  assumes os: "os_ok os" and g: "pool_good sz F pool (arr_region a # A) K s" and a: "arr_ok pool esz a"
    and n: "0 < n" "2 * (max n (a_nalloc a) * esz) < 2 ^ 64"
  obtains s' where "ngx_array_push_n os a n s = Some (0, a, s')" "pool_good sz F pool (arr_region a # A) K s'" "ram s' = ram s"
  | p a' s' where "ngx_array_push_n os a n s = Some (p, a', s')" "p \<noteq> 0" "pushed sz F pool A K esz a s n p a' s'"
proof -
  have a': "a_pool a = pool" "a_size a = esz" "0 < esz" "0 < a_nalloc a" "a_nelts a \<le> a_nalloc a" using a by (auto simp: arr_ok_def)
  have nn: "max n (a_nalloc a) \<le> max n (a_nalloc a) * esz"
    using mult_le_mono2 [of 1 esz "max n (a_nalloc a)"] a'(3) by linarith
  have b: "n * esz \<le> max n (a_nalloc a) * esz" "a_nalloc a * esz \<le> max n (a_nalloc a) * esz" by (simp_all add: mult_le_mono1)
  have ne: "a_nelts a * esz \<le> a_nalloc a * esz" using a'(5) by simp
  have h: "n * esz < 2 ^ 64" "a_nalloc a * esz < 2 ^ 64" "a_nelts a * esz < 2 ^ 64" using b ne n(2) by linarith+
  have u1: "umul n (a_size a) = n * esz" using umul_small [OF h(1)] a'(2) by simp
  have u2: "uadd (a_nelts a) n = a_nelts a + n" using a'(5) nn n(2) by (intro uadd_small) linarith
  have u3: "umul (a_size a) (a_nalloc a) = esz * a_nalloc a" using umul_small [OF h(2)] a'(2) umul_commute by (simp add: mult.commute)
  have u4: "umul (a_nelts a) (a_size a) = a_nelts a * esz" using umul_small [OF h(3)] a'(2) by simp
  have u5: "umul esz (a_nelts a) = esz * a_nelts a" using umul_small [OF h(3)] umul_commute by (simp add: mult.commute)
  define na where "na = 2 * max n (a_nalloc a)"
  have nas: "na * esz < 2 ^ 64" using n(2) by (simp add: na_def)
  have u6: "umul 2 (if a_nalloc a \<le> n then n else a_nalloc a) = na" 
  proof -
    have "2 * max n (a_nalloc a) < 2 ^ 64" using nn n(2) by linarith
    then have "umul 2 (max n (a_nalloc a)) = na" by (simp only: umul_small na_def)
    moreover have "(if a_nalloc a \<le> n then n else a_nalloc a) = max n (a_nalloc a)" by (simp add: max_def)
    ultimately show ?thesis by simp
  qed
  have u7: "umul na esz = na * esz" using nas by (simp add: umul_small)
  have gd: "get_d pool s = Some (st_d s pool)" by (rule pool_good_get(1) [OF g])
  have live: "in_live s (a_elts a) (esz * a_nalloc a)" using pool_good_get(3) [OF g, of "a_elts a" "esz * a_nalloc a"] a'(2) by (simp add: arr_region_def)
  have nz: "a_elts a \<noteq> 0" using pool_good_nonnull [OF g, of "arr_region a"] by (simp add: arr_region_def)
  show thesis
  proof (cases "a_nalloc a < a_nelts a + n")
    case False
    have "ngx_array_push_n os a n s = Some (a_elts a + esz * a_nelts a, a\<lparr>a_nelts := a_nelts a + n\<rparr>, s)"
      using False u2 u5 a'(2) by (simp add: ngx_array_push_n_def Let_def)
    then show thesis using that(2) nz g a False
      by (simp add: pushed_def arr_ok_def arr_region_def)
  next
    case full: True
    show thesis
    proof (cases "a_elts a + esz * a_nalloc a = d_last (st_d s pool) \<and> d_last (st_d s pool) + n * esz \<le> d_end (st_d s pool)")
      case True
      define s' where "s' = bump pool (a_elts a + esz * a_nalloc a + n * esz) s"
      have ad: "a_nalloc a + n < 2 ^ 64" using nn n(2) by linarith
      have run: "ngx_array_push_n os a n s =
          Some (a_elts a + esz * a_nelts a, a\<lparr>a_nalloc := a_nalloc a + n, a_nelts := a_nelts a + n\<rparr>, s')"
        using full True u1 u2 u3 u5 gd a'(1,2) pool_good_get(2) [OF g] uadd_small [OF ad]
        by (simp add: ngx_array_push_n_def Let_def put_d_def s'_def bump_def)
      have mz: "0 < esz * a_nalloc a" using a'(3,4) by simp
      have "pool_good sz F pool ((a_elts a, esz * a_nalloc a + n * esz) # A) K s'"
        unfolding s'_def by (rule pool_good_extend [OF _ mz]) (use g True a'(2) in \<open>simp_all add: arr_region_def\<close>)
      moreover have "a_nalloc a * esz + n * esz < 2 ^ 64" using b n(2) by linarith
      then have "esz * (a_nalloc a + n) < 2 ^ 64" by (simp add: add_mult_distrib2 mult.commute)
      ultimately have "pushed sz F pool A K esz a s n (a_elts a + esz * a_nelts a) (a\<lparr>a_nalloc := a_nalloc a + n, a_nelts := a_nelts a + n\<rparr>) s'"
        using a'(1-5) by (simp add: pushed_def arr_ok_def arr_region_def s'_def bump_def add_mult_distrib2 mult.commute)
      then show thesis using that(2) [OF run] nz by simp
    next
      case False
      obtain new s1 where p: "ngx_palloc os pool (na * esz) s = Some (new, s1)"
        "pool_good sz F pool (taken new (na * esz) (arr_region a # A)) K s1" "ram s1 = ram s"
        by (rule pool_good_palloc [OF os g])
      show thesis
      proof (cases "new = 0")
        case True
        have "ngx_array_push_n os a n s = Some (0, a, s1)"
          using full False u1 u2 u3 u6 u7 gd a'(1,2) p(1) True
          by (cases "a_elts a + esz * a_nalloc a = d_last (st_d s pool)") (simp_all add: ngx_array_push_n_def Let_def)
        then show thesis using that(1) p(2,3) True by (simp add: taken_def)
      next
        case new: False
        have g1: "pool_good sz F pool ((new, na * esz) # arr_region a # A) K s1" using p(2) new by (simp add: taken_def)
        have le: "a_nelts a \<le> na" "a_nelts a + n \<le> na" using a'(5) by (auto simp: na_def max_def)
        have cl: "a_nelts a * esz \<le> na * esz" using le(1) by simp
        have "in_live s1 (a_elts a) (a_nalloc a * esz)" "in_live s1 new (na * esz)"
          by (rule pool_good_get(3) [OF g1]; simp add: arr_region_def a'(2) mult.commute)+
        then have l1: "in_live s1 (a_elts a) (a_nelts a * esz)" "in_live s1 new (a_nelts a * esz)"
          using in_live_part [of s1 "a_elts a" _ 0] in_live_part [of s1 new _ 0] ne cl by (metis add_0 add.right_neutral)+
        define R where "R = (\<lambda>x. if new \<le> x \<and> x < new + a_nelts a * esz then ram s1 (a_elts a + (x - new)) else ram s1 x)"
        define b where "b = a\<lparr>a_elts := new, a_nalloc := na, a_nelts := a_nelts a + n\<rparr>"
        have run: "ngx_array_push_n os a n s = Some (new + esz * a_nelts a, b, s1\<lparr>ram := R\<rparr>)"
          using full False u1 u2 u3 u4 u5 u6 u7 gd a'(1,2) p(1) new memcpy_run [OF l1]
          by (cases "a_elts a + esz * a_nalloc a = d_last (st_d s pool)") (simp_all add: ngx_array_push_n_def Let_def b_def R_def)
        have ap: "rdisj (new, na * esz) r" if "r \<in> set A" for r
          using pool_good_apart(1) [OF g1] that by auto
        have kp: "R (fst r + k) = ram s (fst r + k)" if "r \<in> set A" "k < snd r" for r k
        proof -
          have "na * esz \<noteq> 0" using n(1) a'(3) by (simp add: na_def)
          moreover have "na * esz = 0 \<or> snd r = 0 \<or> new + na * esz \<le> fst r \<or> fst r + snd r \<le> new"
            using ap [OF that(1)] by (simp only: rdisj_def fst_conv snd_conv)
          ultimately have "new + na * esz \<le> fst r \<or> fst r + snd r \<le> new" using that(2) by linarith
          then have "\<not> (new \<le> fst r + k \<and> fst r + k < new + a_nelts a * esz)"
            using that(2) cl by linarith
          then show ?thesis using p(3) by (auto simp: R_def)
        qed
        have cp: "R (new + k) = ram s (a_elts a + k)" if "k < esz * a_nelts a" for k
          using that p(3) by (simp add: R_def mult.commute)
        have gb: "pool_good sz F pool (arr_region b # A) K (s1\<lparr>ram := R\<rparr>)"
          unfolding pool_good_ram by (rule pool_good_sub [OF g1]) (simp add: arr_region_def b_def a'(2) mult.commute)
        have "arr_ok pool esz b" using a' le(2) nas n(1) by (simp add: arr_ok_def b_def na_def mult.commute)
        then have "pushed sz F pool A K esz a s n (new + esz * a_nelts a) b (s1\<lparr>ram := R\<rparr>)"
          using gb kp cp a'(2) by (simp add: pushed_def b_def)
        then show thesis using that(2) [OF run] new by simp
      qed
    qed
  qed
qed

text \<open>The contents of an array.\<close>

definition arr_elems :: "ngx_array \<Rightarrow> pool_mem \<Rightarrow> byte list list" where
  "arr_elems a s = map (\<lambda>i. map (\<lambda>k. ram s (a_elts a + a_size a * i + k)) [0..<a_size a]) [0..<a_nelts a]"

text \<open>The states of an array of a pool: it is initialised, elements are pushed and written, other memory of the
  pool is allocated and written.\<close>

inductive array_reach ::
    "os_env \<Rightarrow> nat \<Rightarrow> region set \<Rightarrow> ptr \<Rightarrow> nat \<Rightarrow> region list \<Rightarrow> ptr list \<Rightarrow> ngx_array \<Rightarrow> byte list list \<Rightarrow> pool_mem \<Rightarrow> bool"
  for os sz F pool esz where
  init: "array_reach os sz F pool esz A K a [] s'"
    if "pool_reach os sz F pool A K C s" "ngx_array_init os pool n esz s = Some (NGX_OK, a, s')"
       "0 < n" "0 < esz" "n * esz < 2 ^ 64"
| push: "array_reach os sz F pool esz A K a' (xs @ [v]) s''"
    if "array_reach os sz F pool esz A K a xs s" "2 * (esz * a_nalloc a) < 2 ^ 64"
       "ngx_array_push os a s = Some (p, a', s')" "p \<noteq> NULL" "length v = esz"
       "ram_write p esz (\<lambda>k. v ! k) s' = Some s''"
| push_n: "array_reach os sz F pool esz A K a' (xs @ vs) s''"
    if "array_reach os sz F pool esz A K a xs s" "2 * (max n (a_nalloc a) * esz) < 2 ^ 64" "0 < n"
       "ngx_array_push_n os a n s = Some (p, a', s')" "p \<noteq> NULL" "length vs = n" "\<forall>v\<in>set vs. length v = esz"
       "ram_write p (n * esz) (\<lambda>k. vs ! (k div esz) ! (k mod esz)) s' = Some s''"
| full: "array_reach os sz F pool esz A K a' xs s'"
    if "array_reach os sz F pool esz A K a xs s" "2 * (max n (a_nalloc a) * esz) < 2 ^ 64" "0 < n"
       "ngx_array_push_n os a n s = Some (NULL, a', s')"
| palloc: "array_reach os sz F pool esz (taken p n A) K a xs s'"
    if "array_reach os sz F pool esz A K a xs s" "ngx_palloc os pool n s = Some (p, s')"
| use: "array_reach os sz F pool esz A K a xs s'"
    if "array_reach os sz F pool esz A K a xs s" "(b, n) \<in> set A" "ram_write b n f s = Some s'"

definition arr_holds :: "nat \<Rightarrow> region set \<Rightarrow> ptr \<Rightarrow> nat \<Rightarrow> region list \<Rightarrow> ptr list \<Rightarrow> ngx_array \<Rightarrow> byte list list \<Rightarrow> pool_mem \<Rightarrow> bool" where
  "arr_holds sz F pool esz A K a xs s \<longleftrightarrow>
     pool_good sz F pool (arr_region a # A) K s \<and> arr_ok pool esz a \<and> arr_elems a s = xs"

lemma arr_elems_cong:
  assumes "a_size b = a_size a" "a_nelts b = a_nelts a"
    "\<And>k. k < a_size a * a_nelts a \<Longrightarrow> ram t (a_elts b + k) = ram s (a_elts a + k)"
  shows "arr_elems b t = arr_elems a s"
proof -
  have "ram t (a_elts b + a_size a * i + k) = ram s (a_elts a + a_size a * i + k)" if "i < a_nelts a" "k < a_size a" for i k
  proof -
    have "a_size a * i + k < a_size a * Suc i" using that by simp
    also have "\<dots> \<le> a_size a * a_nelts a" using that by (intro mult_le_mono2) simp
    finally show ?thesis using assms(3) [of "a_size a * i + k"] by (simp add: add.assoc)
  qed
  then show ?thesis using assms(1,2) by (auto simp: arr_elems_def)
qed

lemma arr_elems_more:
  assumes e: "0 < a_size a" "a_nelts b = a_nelts a + n" "a_size b = a_size a" and l: "length vs = n" "\<forall>v\<in>set vs. length v = a_size a"
    and old: "\<And>k. k < a_size a * a_nelts a \<Longrightarrow> ram t (a_elts b + k) = ram s (a_elts a + k)"
    and new: "\<And>k. k < n * a_size a \<Longrightarrow> ram t (a_elts b + a_size a * a_nelts a + k) = vs ! (k div a_size a) ! (k mod a_size a)"
  shows "arr_elems b t = arr_elems a s @ vs"
proof (rule nth_equalityI)
  show "length (arr_elems b t) = length (arr_elems a s @ vs)" using e l by (simp add: arr_elems_def)
  have o: "arr_elems (b\<lparr>a_nelts := a_nelts a\<rparr>) t = arr_elems a s"
    by (rule arr_elems_cong) (use e old in simp_all)
  fix i assume "i < length (arr_elems b t)"
  then have i: "i < a_nelts a + n" using e(2) by (simp add: arr_elems_def)
  show "arr_elems b t ! i = (arr_elems a s @ vs) ! i"
  proof (cases "i < a_nelts a")
    case True
    then show ?thesis using o [symmetric] e by (simp add: nth_append arr_elems_def)
  next
    case False
    define j where "j = i - a_nelts a"
    have j: "j < n" "i = a_nelts a + j" using i False by (auto simp: j_def)
    have "ram t (a_elts b + a_size a * i + k) = vs ! j ! k" if "k < a_size a" for k
    proof -
      have "j * a_size a + k < Suc j * a_size a" using that by simp
      also have "\<dots> \<le> n * a_size a" using j(1) by (intro mult_le_mono1) simp
      finally have "j * a_size a + k < n * a_size a" .
      from new [OF this] show ?thesis using that j(2) by (simp add: algebra_simps)
    qed
    moreover have "length (vs ! j) = a_size a" using l j(1) by simp
    ultimately have "map (\<lambda>k. ram t (a_elts b + a_size a * i + k)) [0..<a_size a] = vs ! j"
      by (intro nth_equalityI) simp_all
    then show ?thesis using e j i l by (simp add: arr_elems_def nth_append)
  qed
qed

lemma ram_write_cases:
  assumes "ram_write a n f s = Some s'"
  shows "s' = s\<lparr>ram := (\<lambda>x. if a \<le> x \<and> x < a + n then f (x - a) else ram s x)\<rparr>"
  using assms by (simp add: ram_write_def split: if_splits)

lemma push_holds:
  assumes h: "arr_holds sz F pool esz A K a xs s" and p: "pushed sz F pool A K esz a s n p a' s'"
    and l: "length vs = n" "\<forall>v\<in>set vs. length v = esz"
    and w: "ram_write p (n * esz) (\<lambda>k. vs ! (k div esz) ! (k mod esz)) s' = Some s''"
  shows "arr_holds sz F pool esz A K a' (xs @ vs) s''"
proof -
  have a: "arr_ok pool esz a" "arr_elems a s = xs" using h by (auto simp: arr_holds_def)
  have p': "arr_ok pool esz a'" "a_nelts a' = a_nelts a + n" "p = a_elts a' + esz * a_nelts a"
    "pool_good sz F pool (arr_region a' # A) K s'" "\<And>k. k < esz * a_nelts a \<Longrightarrow> ram s' (a_elts a' + k) = ram s (a_elts a + k)"
    using p by (auto simp: pushed_def)
  have sz: "a_size a = esz" "a_size a' = esz" "0 < esz" using a(1) p'(1) by (auto simp: arr_ok_def)
  have s'': "s'' = s'\<lparr>ram := (\<lambda>x. if p \<le> x \<and> x < p + n * esz then vs ! ((x - p) div esz) ! ((x - p) mod esz) else ram s' x)\<rparr>"
    by (rule ram_write_cases [OF w])
  have "arr_elems a' s'' = arr_elems a s @ vs"
  proof (rule arr_elems_more [where n = n])
    show "ram s'' (a_elts a' + k) = ram s (a_elts a + k)" if "k < a_size a * a_nelts a" for k
      using that p'(3,5) sz by (simp add: s'')
    show "ram s'' (a_elts a' + a_size a * a_nelts a + k) = vs ! (k div a_size a) ! (k mod a_size a)" if "k < n * a_size a" for k
      using that p'(3) sz by (simp add: s'')
  qed (use p' sz l in simp_all)
  then show ?thesis using a(2) p'(1,4) by (simp add: arr_holds_def s'' pool_good_ram)
qed

lemma array_init_run:
  assumes os: "os_ok os" and g: "pool_good sz F pool A K s" and n: "0 < n" "0 < esz" "n * esz < 2 ^ 64"
    and r: "ngx_array_init os pool n esz s = Some (NGX_OK, a, s')"
  shows "arr_holds sz F pool esz A K a [] s'"
proof -
  obtain p t where p: "ngx_palloc os pool (n * esz) s = Some (p, t)" "pool_good sz F pool (taken p (n * esz) A) K t"
    by (rule pool_good_palloc [OF os g])
  have "p \<noteq> 0" "a = \<lparr>a_elts = p, a_nelts = 0, a_size = esz, a_nalloc = n, a_pool = pool\<rparr>" "s' = t"
    using r p(1) umul_small [OF n(3)] by (auto simp: ngx_array_init_def split: if_splits)
  then show ?thesis using p(2) n by (simp add: arr_holds_def taken_def arr_region_def arr_ok_def arr_elems_def mult.commute)
qed

lemma array_reach_holds:
  assumes "array_reach os sz F pool esz A K a xs s" and os: "os_ok os" and sz: "16 dvd sz" "112 \<le> sz"
  shows "arr_holds sz F pool esz A K a xs s"
  using assms(1)
proof (induction rule: array_reach.induct)
  case (init A K s n a s')
  show ?case by (rule array_init_run [OF os pool_reach_good [OF init(1) os sz] init(3-5,2)])
next
  case (push A K a xs s p a' s' v s'')
  have h: "pool_good sz F pool (arr_region a # A) K s" "arr_ok pool esz a" using push.IH by (auto simp: arr_holds_def)
  have "0 < a_nalloc a" using h(2) by (simp add: arr_ok_def)
  then have mx: "2 * (max 1 (a_nalloc a) * esz) < 2 ^ 64" using push(2) by (simp add: max_def mult.commute)
  have run: "ngx_array_push_n os a 1 s = Some (p, a', s')" using push(3) push_is_push_n [OF h(2) push(2)] by simp
  have "pushed sz F pool A K esz a s 1 p a' s'"
    by (rule push_n_run [OF os h _ mx]) (use run push(4) in auto)
  moreover have "ram_write p (1 * esz) (\<lambda>k. [v] ! (k div esz) ! (k mod esz)) s' = Some s''"
  proof -
    have "(if p \<le> x \<and> x < p + esz then v ! (x - p) else ram s' x) =
      (if p \<le> x \<and> x < p + esz then [v] ! ((x - p) div esz) ! ((x - p) mod esz) else ram s' x)" for x
      by auto
    then show ?thesis using push(6) by (simp add: ram_write_def split: if_splits)
  qed
  ultimately show ?case using push_holds [OF push.IH, of 1 p a' s' "[v]"] push(5) by simp
next
  case (push_n A K a xs s n p a' s' vs s'')
  have h: "pool_good sz F pool (arr_region a # A) K s" "arr_ok pool esz a" using push_n.IH by (auto simp: arr_holds_def)
  have "pushed sz F pool A K esz a s n p a' s'"
    by (rule push_n_run [OF os h push_n(3,2)]) (use push_n(4,5) in auto)
  then show ?case using push_holds [OF push_n.IH _ push_n(6-8)] by blast
next
  case (full A K a xs s n a' s')
  have h: "pool_good sz F pool (arr_region a # A) K s" "arr_ok pool esz a" "arr_elems a s = xs"
    using full.IH by (auto simp: arr_holds_def)
  have "a' = a \<and> pool_good sz F pool (arr_region a # A) K s' \<and> ram s' = ram s"
    by (rule push_n_run [OF os h(1,2) full(3,2)]) (use full(4) in auto)
  then show ?case using h by (simp add: arr_holds_def arr_elems_def)
next
  case (palloc A K a xs s n p s')
  have h: "pool_good sz F pool (arr_region a # A) K s" "arr_ok pool esz a" "arr_elems a s = xs"
    using palloc.IH by (auto simp: arr_holds_def)
  have "pool_good sz F pool (taken p n (arr_region a # A)) K s' \<and> ram s' = ram s"
    by (rule pool_good_palloc [OF os h(1), of n]) (use palloc(2) in auto)
  then show ?case using h(2,3) pool_good_sub [of sz F pool "(p, n) # arr_region a # A" K s' "arr_region a # (p, n) # A"]
    by (auto simp: arr_holds_def taken_def arr_elems_def split: if_splits)
next
  case (use A K a xs s b n f s')
  have h: "pool_good sz F pool (arr_region a # A) K s" "arr_ok pool esz a" "arr_elems a s = xs"
    using use.IH by (auto simp: arr_holds_def)
  have s': "s' = s\<lparr>ram := (\<lambda>x. if b \<le> x \<and> x < b + n then f (x - b) else ram s x)\<rparr>" by (rule ram_write_cases [OF use(3)])
  have sep: "rdisj (arr_region a) (b, n)" using pool_good_apart(1) [OF h(1)] use(2) by auto
  have "arr_elems a s' = arr_elems a s"
  proof (rule arr_elems_cong [OF refl refl])
    fix k assume k: "k < a_size a * a_nelts a"
    have "a_size a * a_nelts a \<le> a_size a * a_nalloc a" using h(2) by (simp add: arr_ok_def)
    then have "k < a_size a * a_nalloc a" using k by (rule less_le_trans [rotated])
    then have "\<not> (b \<le> a_elts a + k \<and> a_elts a + k < b + n)" using sep by (auto simp: rdisj_def arr_region_def)
    then show "ram s' (a_elts a + k) = ram s (a_elts a + k)" unfolding s' by auto
  qed
  then show ?case using h by (simp add: arr_holds_def s' pool_good_ram)
qed

section \<open>Destroying\<close>

text \<open>\<open>ngx_array_destroy\<close>.\<close>

lemma in_blocks_cut:
  assumes r: "pool_rep pool sz F ps ls cs chs U W s" and l: "e + m = d_last (st_d s pool)" "pool + 80 \<le> e" "0 < m"
    and q: "in_blocks pool ps s q" "rdisj q (e, m)" "0 < snd q"
  shows "in_blocks pool ps (bump pool e s) q"
proof -
  have pool: "pool \<in> set ps" by (rule blocks_okD(5) [OF pool_repD(1) [OF r]])
  from apart_below [OF r l q] show ?thesis
  proof (elim disjE bexE conjE)
    fix p assume "p \<in> set ps" "p \<noteq> pool" "blk_start pool p \<le> fst q" "fst q + snd q \<le> d_last (st_d s p)"
    then show ?thesis by (auto simp: in_blocks_def bump_def)
  next
    assume "pool + 80 \<le> fst q" "fst q + snd q \<le> e"
    then show ?thesis using pool by (intro iffD2 [OF in_blocks_def] bexI [of _ pool]) (auto simp: bump_def blk_start_def)
  qed
qed

lemma pool_good_cut:
  assumes g: "pool_good sz F pool ((e, m) # A) K s" and m: "0 < m" and l: "e + m = d_last (st_d s pool)"
  shows "pool_good sz F pool (filter (\<lambda>r. 0 < snd r) A) K (bump pool e s)"
proof -
  obtain cs chs U W where i: "pool_inv pool sz F cs chs (links K @ U) W s" "mset ((e, m) # A) \<subseteq># mset (U @ W)" "0 \<notin> set K"
    using g by (rule pool_good_cases)
  obtain ps ls where r: "pool_rep pool sz F ps ls cs chs (links K @ U) W s" using i(1) by (rule pool_repI)
  note b = blocks_okD [OF pool_repD(1) [OF r]]
  have emU: "(e, m) \<in> set (U @ W)" using i(2) by (metis list.set_intros(1) set_mset_mono set_mset_mset subsetD)
  have lf: "pool + 80 \<le> e" "(e, m) \<notin> set W" using last_in_first [OF r _ m l] emU by auto
  then have u: "(e, m) \<in> set U" using emU by simp
  have le: "e \<le> pool + sz" using l b(8) [OF b(5)] by (auto simp: block_ok_def)
  define X where "X = remove1 (e, m) U"
  define V where "V = filter (\<lambda>r. 0 < snd r) X"
  define R where "R = links K @ X @ meta ls cs chs"
  have ms: "mset ((e, m) # R) = mset ((links K @ U) @ meta ls cs chs)" using u by (simp add: R_def X_def)
  have sr: "sorted_wrt rdisj ((e, m) # R)" by (rule rdisj_sub [OF pool_repD(6) [OF r]]) (simp only: ms subset_mset.order_refl)
  have inb: "in_blocks pool ps s q" if "q \<in> set R" for q
  proof -
    have "q \<in> set ((links K @ U) @ meta ls cs chs)" using that ms by (metis list.set_intros(2) set_mset_mset)
    then show ?thesis by (rule pool_repD(7) [OF r])
  qed
  have "pool_rep pool sz F ps ls cs chs (links K @ V) W (bump pool e s)"
  proof (rule pool_rep_last [OF r refl lf(1) le])
    show "sorted_wrt rdisj ((links K @ V) @ meta ls cs chs)"
      by (rule rdisj_sub [of R]) (use sr in \<open>simp_all add: R_def V_def\<close>)
    fix q assume q: "q \<in> set ((links K @ V) @ meta ls cs chs)"
    then have qR: "q \<in> set R" by (auto simp: R_def V_def)
    have "0 < snd q" using q by (auto simp: V_def meta_def)
    moreover have "rdisj q (e, m)" using sr qR by (auto intro: rdisj_sym)
    ultimately show "in_blocks pool ps (bump pool e s) q" using in_blocks_cut [OF r l lf(1) m inb [OF qR]] by blast
  qed
  moreover have "mset (filter (\<lambda>r. 0 < snd r) A) \<subseteq># mset (V @ W)"
  proof -
    have "mset A \<subseteq># mset (X @ W)" using i(2) u by (simp add: insert_subset_eq_iff X_def)
    then have "filter_mset (\<lambda>r. 0 < snd r) (mset A) \<subseteq># filter_mset (\<lambda>r. 0 < snd r) (mset (X @ W))"
      by (rule multiset_filter_mono)
    also have "\<dots> \<subseteq># mset (V @ W)" by (simp add: V_def)
    finally show ?thesis by simp
  qed
  ultimately show ?thesis using pool_goodI [OF pool_invI refl _ i(3)] by blast
qed

lemma array_destroy_good:
  assumes g: "pool_good sz F pool ((b, 40) # arr_region a # A) K s" and a: "arr_ok pool esz a"
  obtains s' where "ngx_array_destroy b a s = Some s'" "pool_good sz F pool (filter (\<lambda>r. 0 < snd r) A) K s'" "ram s' = ram s"
proof -
  have u: "umul (a_size a) (a_nalloc a) = a_size a * a_nalloc a" "a_pool a = pool" "0 < a_size a * a_nalloc a"
    using a umul_small by (auto simp: arr_ok_def)
  have cutb: "(b + 40 = d_last (st_d t pool) \<longrightarrow> pool_good sz F pool (filter (\<lambda>r. 0 < snd r) A) K (bump pool b t))"
    if "pool_good sz F pool ((b, 40) # filter (\<lambda>r. 0 < snd r) A) K t" for t
    using pool_good_cut [OF that] by auto
  have g0: "pool_good sz F pool ((b, 40) # filter (\<lambda>r. 0 < snd r) A) K s"
    by (rule pool_good_sub [OF g]) (simp add: subset_mset.order_trans [OF multiset_filter_subset])
  obtain t where t: "(if a_elts a + umul (a_size a) (a_nalloc a) = d_last (st_d s pool)
           then put_d pool (\<lambda>d. d\<lparr>d_last := d_last d - umul (a_size a) (a_nalloc a)\<rparr>) s else Some s) = Some t"
      "pool_good sz F pool ((b, 40) # filter (\<lambda>r. 0 < snd r) A) K t" "ram t = ram s"
  proof (cases "a_elts a + umul (a_size a) (a_nalloc a) = d_last (st_d s pool)")
    case False
    then show thesis using that [of s] g0 by simp
  next
    case True
    have "pool_good sz F pool ((a_elts a, a_size a * a_nalloc a) # (b, 40) # A) K s"
      by (rule pool_good_sub [OF g]) (simp add: arr_region_def add_mset_commute)
    from pool_good_cut [OF this u(3)] have "pool_good sz F pool ((b, 40) # filter (\<lambda>r. 0 < snd r) A) K (bump pool (a_elts a) s)"
      using True u(1) by simp
    moreover have "d_last (st_d s pool) - umul (a_size a) (a_nalloc a) = a_elts a" using True by linarith
    ultimately show thesis using that [of "bump pool (a_elts a) s"] True pool_good_get(2) [OF g]
      by (simp add: put_d_def bump_def)
  qed
  have gd: "get_d pool s = Some (st_d s pool)" "get_d pool t = Some (st_d t pool)" "in_live t pool 32"
    using pool_good_get [OF g] pool_good_get [OF t(2)] by auto
  show thesis
  proof (cases "b + 40 = d_last (st_d t pool)")
    case True
    have "ngx_array_destroy b a s = Some (bump pool b t)"
      using gd t(1) True u(2) by (simp add: ngx_array_destroy_def Let_def put_d_def bump_def)
    then show thesis using that cutb [OF t(2)] True t(3) by (simp add: bump_def)
  next
    case False
    have "ngx_array_destroy b a s = Some t"
      using gd t(1) False u(2) by (simp add: ngx_array_destroy_def Let_def)
    then show thesis using that pool_good_sub [OF t(2), of "filter (\<lambda>r. 0 < snd r) A"] t(3) by simp
  qed
qed

text \<open>An array created for no elements never grows: the element it returns lies outside of its memory.\<close>

lemma push_zero_capacity:
  assumes os: "os_ok os" and g: "pool_good sz F pool ((a_elts a, 0) # A) K s"
    and a: "a_nalloc a = 0" "a_nelts a = 0" "a_pool a = pool" "0 < a_size a"
    and f: "a_elts a \<noteq> d_last (st_d s pool)"
  shows "\<exists>p a' s'. ngx_array_push os a s = Some (p, a', s') \<and> (p \<noteq> 0 \<longrightarrow> a_nalloc a' = 0 \<and> a_nelts a' = 1 \<and>
    pool_good sz F pool ((p, 0) # A) K s')"
proof -
  obtain p s' where p: "ngx_palloc os pool 0 s = Some (p, s')" "pool_good sz F pool (taken p 0 ((a_elts a, 0) # A)) K s'"
    by (rule pool_good_palloc [OF os g])
  have gd: "get_d pool s = Some (st_d s pool)" by (rule pool_good_get(1) [OF g])
  show ?thesis
  proof (cases "p = 0")
    case True
    then show ?thesis using p(1) gd a f by (simp add: ngx_array_push_def umul_def Let_def)
  next
    case False
    have g1: "pool_good sz F pool ((p, 0) # (a_elts a, 0) # A) K s'" using p(2) False by (simp add: taken_def)
    have l: "in_live s' (a_elts a) 0" "in_live s' p 0" using pool_good_get(3) [OF g1] by auto
    have "pool_good sz F pool ((p, 0) # A) K s'" by (rule pool_good_sub [OF g1]) simp
    then show ?thesis using p(1) gd a f False memcpy_run [OF l]
      by (simp add: ngx_array_push_def umul_def uadd_def Let_def pool_good_ram)
  qed
qed

section \<open>Properties\<close>

lemmas array_eval = pool_eval ngx_array_init_def umul_def uadd_def ngx_array_push_def ram_write_def ngx_memcpy_def

lemma array_demo:
  "\<exists>a s. array_reach bump_os 1024 {} 16 2 [] [] a [[1, 2], [3, 4]] s \<and> a_nalloc a = 2"
proof -
  obtain s1 where s1: "ngx_create_pool bump_os 1024 pool_mem0 = Some (16, s1)" by (simp add: pool_eval)
  have r1: "pool_reach bump_os 1024 {} 16 [] [] [] s1"
    by (rule pool_reach.create [OF _ _ s1]) (simp_all add: pool_mem0_def regions_def)
  obtain a s2 where s2: "ngx_array_init bump_os 16 1 2 s1 = Some (NGX_OK, a, s2)" using s1 by (auto simp: array_eval)
  obtain p a' s3 where s3: "ngx_array_push bump_os a s2 = Some (p, a', s3)" "p \<noteq> 0" using s1 s2 by (auto simp: array_eval)
  obtain s4 where s4: "ram_write p 2 (\<lambda>k. [1, 2] ! k) s3 = Some s4" using s1 s2 s3 by (auto simp: array_eval)
  obtain q b s5 where s5: "ngx_array_push bump_os a' s4 = Some (q, b, s5)" "q \<noteq> 0" "a_nalloc b = 2"
    using s1 s2 s3 s4 by (auto simp: array_eval)
  obtain s6 where s6: "ram_write q 2 (\<lambda>k. [3, 4] ! k) s5 = Some s6" using s1 s2 s3 s4 s5 by (auto simp: array_eval)
  have n: "a_nalloc a = 1" "a_nalloc a' = 1" using s1 s2 s3 by (auto simp: array_eval)
  have r2: "array_reach bump_os 1024 {} 16 2 [] [] a [] s2" by (rule array_reach.init [OF r1 s2]) simp_all
  have r4: "array_reach bump_os 1024 {} 16 2 [] [] a' ([] @ [[1, 2]]) s4"
    by (rule array_reach.push [OF r2 _ s3(1,2) _ s4]) (simp_all add: n)
  have "array_reach bump_os 1024 {} 16 2 [] [] b (([] @ [[1, 2]]) @ [[3, 4]]) s6"
    by (rule array_reach.push [OF r4 _ s5(1,2) _ s6]) (simp_all add: n)
  then show ?thesis using s5(3) by auto
qed

text \<open>
  C34. Refinement of a list: in every reachable state the array has exactly the elements that were pushed and written, in
  order, also after it has grown in place or moved; its memory is apart from all other allocations of the pool;
  and pushing returns, without an access outside of the memory in use, as long as twice the size of the array is below \<open>2 ^ 64\<close>.
  The arrays are those made by \<open>ngx_array_init\<close> with room for at least one element, in a pool whose size is a multiple of 16
  and at least 112 (for arrays made for no element see \<open>push_zero_capacity\<close>).
\<close>

theorem array_refines:
  assumes "os_ok os" "16 dvd sz" "112 \<le> sz" "array_reach os sz F pool esz A K a xs s"
  shows "arr_elems a s = xs \<and> length xs \<le> a_nalloc a \<and> sorted_wrt rdisj (arr_region a # A) \<and>
    (2 * (esz * a_nalloc a) < 2 ^ 64 \<longrightarrow> (\<exists>p a' s'. ngx_array_push os a s = Some (p, a', s')))"
proof -
  have h: "pool_good sz F pool (arr_region a # A) K s" "arr_ok pool esz a" "arr_elems a s = xs"
    using array_reach_holds [OF assms(4,1-3)] by (auto simp: arr_holds_def)
  have "length xs = a_nelts a" using h(3) by (auto simp: arr_elems_def)
  then have "length xs \<le> a_nalloc a" using h(2) by (simp add: arr_ok_def)
  moreover have "sorted_wrt rdisj (arr_region a # A)" by (rule rdisj_sub [OF pool_good_apart(1) [OF h(1)]]) simp
  moreover have "\<exists>p a' s'. ngx_array_push os a s = Some (p, a', s')" if b: "2 * (esz * a_nalloc a) < 2 ^ 64"
  proof -
    have "2 * (max 1 (a_nalloc a) * esz) < 2 ^ 64" using b h(2) by (simp add: arr_ok_def max_def mult.commute)
    then have "\<exists>p a' s'. ngx_array_push_n os a 1 s = Some (p, a', s')"
      by (rule push_n_run [OF assms(1) h(1,2) zero_less_one]) auto
    then show ?thesis using push_is_push_n [OF h(2) b] by simp
  qed
  ultimately show ?thesis using h(3) by blast
qed

theorem array_refines_witness:
  "\<exists>a s. array_reach bump_os 1024 {} 16 2 [] [] a [[1, 2], [3, 4]] s \<and> arr_elems a s = [[1, 2], [3, 4]] \<and>
     (\<exists>p a' s'. ngx_array_push bump_os a s = Some (p, a', s'))"
proof -
  obtain a s where a: "array_reach bump_os 1024 {} 16 2 [] [] a [[1, 2], [3, 4]] s" "a_nalloc a = 2" using array_demo by blast
  have "arr_elems a s = [[1, 2], [3, 4]]" "\<exists>p a' s'. ngx_array_push bump_os a s = Some (p, a', s')"
    using array_refines [OF bump_os_ok _ _ a(1)] a(2) by simp_all
  then show ?thesis using a(1) by blast
qed

end
