(* ===== verification/Ngx_List.thy ===== *)
theory Ngx_List
  imports Ngx_Array
begin

text \<open>
  The lists of \<^verbatim>\<open>src/core/ngx_list.c\<close> and \<^verbatim>\<open>src/core/ngx_list.h\<close>: chains of parts, each an array of a fixed number of elements.

  Shown: the elements are those that were pushed, they never move and do not overlap, and the loop that the
  header documents visits all of them.
\<close>

section \<open>The functions\<close>

text \<open>\<open>ngx_list_part_t\<close> and \<open>ngx_list_t\<close>.  The first part is a field of the list, 8 bytes behind its start; the parts are in a
  memory of their own, and that they do not overlap other data is shown.\<close>

record ngx_list_part =
  lp_elts :: ptr
  lp_nelts :: nat
  lp_next :: ptr

record ngx_list =
  li_last :: ptr
  li_size :: nat
  li_nalloc :: nat
  li_pool :: ptr

type_synonym parts = "ptr \<Rightarrow> ngx_list_part"

text \<open>\<open>ngx_list_create\<close> and \<open>ngx_list_push\<close> for any allocator, and with \<open>ngx_palloc\<close>; \<open>ngx_list_init\<close>.\<close>

definition list_create_by ::
    "(nat \<Rightarrow> pool_mem \<Rightarrow> (ptr \<times> pool_mem) option) \<Rightarrow> ptr \<Rightarrow> nat \<Rightarrow> nat \<Rightarrow> parts \<Rightarrow> pool_mem \<Rightarrow>
     (ptr \<times> ngx_list option \<times> parts \<times> pool_mem) option" where
  "list_create_by palloc pool n sz H s = do {
     (l, s) \<leftarrow> palloc 56 s;
     if l = NULL then Some (NULL, None, H, s)
     else do {
       (elts, s) \<leftarrow> palloc (umul n sz) s;
       if elts = NULL then Some (NULL, None, H(l + 8 := (H (l + 8))\<lparr>lp_elts := NULL\<rparr>), s)
       else Some (l, Some \<lparr>li_last = l + 8, li_size = sz, li_nalloc = n, li_pool = pool\<rparr>,
                  H(l + 8 := \<lparr>lp_elts = elts, lp_nelts = 0, lp_next = NULL\<rparr>), s) } }"

definition list_push_by ::
    "(nat \<Rightarrow> pool_mem \<Rightarrow> (ptr \<times> pool_mem) option) \<Rightarrow> ngx_list \<Rightarrow> parts \<Rightarrow> pool_mem \<Rightarrow>
     (ptr \<times> ngx_list \<times> parts \<times> pool_mem) option" where
  "list_push_by palloc l H s = do {
     (ok, l, H, s) \<leftarrow>
       (if lp_nelts (H (li_last l)) = li_nalloc l
        then do {
          (last, s) \<leftarrow> palloc 24 s;
          if last = NULL then Some (False, l, H, s)
          else do {
            (elts, s) \<leftarrow> palloc (umul (li_nalloc l) (li_size l)) s;
            let H = H(last := (H last)\<lparr>lp_elts := elts\<rparr>);
            if elts = NULL then Some (False, l, H, s)
            else do {
              let H = H(last := \<lparr>lp_elts = elts, lp_nelts = 0, lp_next = NULL\<rparr>);
              let H = H(li_last l := (H (li_last l))\<lparr>lp_next := last\<rparr>);
              Some (True, l\<lparr>li_last := last\<rparr>, H, s) } } }
        else Some (True, l, H, s));
     if \<not> ok then Some (NULL, l, H, s)
     else do {
       let p = H (li_last l);
       Some (lp_elts p + umul (li_size l) (lp_nelts p), l,
             H(li_last l := p\<lparr>lp_nelts := uadd (lp_nelts p) 1\<rparr>), s) } }"

definition ngx_list_create ::
    "os_env \<Rightarrow> ptr \<Rightarrow> nat \<Rightarrow> nat \<Rightarrow> parts \<Rightarrow> pool_mem \<Rightarrow> (ptr \<times> ngx_list option \<times> parts \<times> pool_mem) option" where
  "ngx_list_create os pool n sz H s = list_create_by (ngx_palloc os pool) pool n sz H s"

definition ngx_list_init ::
    "os_env \<Rightarrow> ptr \<Rightarrow> ptr \<Rightarrow> nat \<Rightarrow> nat \<Rightarrow> parts \<Rightarrow> pool_mem \<Rightarrow> (ngx_rc \<times> ngx_list option \<times> parts \<times> pool_mem) option" where
  "ngx_list_init os l pool n sz H s = do {
     (elts, s) \<leftarrow> ngx_palloc os pool (umul n sz) s;
     if elts = NULL then Some (NGX_ERROR, None, H(l + 8 := (H (l + 8))\<lparr>lp_elts := NULL\<rparr>), s)
     else Some (NGX_OK, Some \<lparr>li_last = l + 8, li_size = sz, li_nalloc = n, li_pool = pool\<rparr>,
                H(l + 8 := \<lparr>lp_elts = elts, lp_nelts = 0, lp_next = NULL\<rparr>), s) }"

definition ngx_list_push ::
    "os_env \<Rightarrow> ngx_list \<Rightarrow> parts \<Rightarrow> pool_mem \<Rightarrow> (ptr \<times> ngx_list \<times> parts \<times> pool_mem) option" where
  "ngx_list_push os l H s = list_push_by (ngx_palloc os (li_pool l)) l H s"

text \<open>The loop that \<^verbatim>\<open>ngx_list.h\<close> gives for the iteration through a list, with the addresses it visits.\<close>

partial_function (option) list_iter :: "nat \<Rightarrow> parts \<Rightarrow> ptr \<Rightarrow> nat \<Rightarrow> ptr list \<Rightarrow> ptr list option" where
  "list_iter sz H part i acc =
     (if lp_nelts (H part) \<le> i
      then if lp_next (H part) = NULL then Some acc
           else let part = lp_next (H part)
                in list_iter sz H part 1 (acc @ [lp_elts (H part)])
      else list_iter sz H part (i + 1) (acc @ [lp_elts (H part) + sz * i]))"

text \<open>The addresses of the elements, the memory of the parts, and the well-formed lists: all parts but the last are
  full, and none but the first is empty.\<close>

definition part_elems :: "nat \<Rightarrow> parts \<Rightarrow> ptr \<Rightarrow> ptr list" where
  "part_elems sz H p = map (\<lambda>i. lp_elts (H p) + sz * i) [0..<lp_nelts (H p)]"

definition list_elems :: "nat \<Rightarrow> parts \<Rightarrow> ptr list \<Rightarrow> ptr list" where
  "list_elems sz H ps = concat (map (part_elems sz H) ps)"

definition part_regions :: "nat \<Rightarrow> parts \<Rightarrow> ptr list \<Rightarrow> region list" where
  "part_regions n H ps = map (\<lambda>p. (lp_elts (H p), n)) ps @ map (\<lambda>p. (p, 24)) (tl ps)"

definition list_rep :: "ptr \<Rightarrow> ngx_list \<Rightarrow> parts \<Rightarrow> ptr list \<Rightarrow> bool" where
  "list_rep l0 l H ps \<longleftrightarrow>
     npath (\<lambda>p. lp_next (H p)) (l0 + 8) ps \<and> ps \<noteq> [] \<and> last ps = li_last l \<and>
     0 < li_nalloc l \<and> 0 < li_size l \<and> li_nalloc l * li_size l < 2 ^ 64 \<and>
     (\<forall>p\<in>set (butlast ps). lp_nelts (H p) = li_nalloc l) \<and> lp_nelts (H (last ps)) \<le> li_nalloc l \<and>
     (\<forall>p\<in>set (tl ps). 0 < lp_nelts (H p))"

lemma list_iter_part:
  "lp_nelts (H p) - i = k \<Longrightarrow> i \<le> lp_nelts (H p) \<Longrightarrow>
   list_iter sz H p i acc = list_iter sz H p (lp_nelts (H p)) (acc @ drop i (part_elems sz H p))"
proof (induction k arbitrary: i acc)
  case 0
  then have "i = lp_nelts (H p)" by simp
  then show ?case by (simp add: part_elems_def)
next
  case (Suc k)
  then have i: "i < lp_nelts (H p)" by simp
  have "drop i (part_elems sz H p) = (lp_elts (H p) + sz * i) # drop (Suc i) (part_elems sz H p)"
    using i by (subst Cons_nth_drop_Suc [symmetric]) (auto simp: part_elems_def)
  moreover have "list_iter sz H p i acc = list_iter sz H p (Suc i) (acc @ [lp_elts (H p) + sz * i])"
    using i by (subst list_iter.simps) simp
  ultimately show ?case using Suc.IH [of "Suc i" "acc @ [lp_elts (H p) + sz * i]"] Suc.prems i by simp
qed

lemma list_iter_run:
  "npath (\<lambda>p. lp_next (H p)) p (p # ps) \<Longrightarrow> (\<And>q. q \<in> set ps \<Longrightarrow> 0 < lp_nelts (H q)) \<Longrightarrow> i \<le> lp_nelts (H p) \<Longrightarrow>
   list_iter sz H p i acc = Some (acc @ drop i (part_elems sz H p) @ list_elems sz H ps)"
proof (induction ps arbitrary: p i acc)
  case Nil
  have "lp_next (H p) = 0" using Nil.prems(1) by simp
  then have "list_iter sz H p (lp_nelts (H p)) acc' = Some acc'" for acc' by (subst list_iter.simps) simp
  then show ?case using list_iter_part [where H = H and p = p and i = i, OF refl Nil.prems(3)] by (simp add: list_elems_def)
next
  case (Cons q qs)
  have q: "lp_next (H p) = q" "q \<noteq> 0" "npath (\<lambda>p. lp_next (H p)) q (q # qs)" using Cons.prems(1) by auto
  have n: "0 < lp_nelts (H q)" using Cons.prems(2) by simp
  have e: "list_iter sz H p (lp_nelts (H p)) acc' = list_iter sz H q 1 (acc' @ [lp_elts (H q)])" for acc'
    using q by (subst list_iter.simps) simp
  have "lp_elts (H q) # drop 1 (part_elems sz H q) = part_elems sz H q"
    using n by (cases "lp_nelts (H q)") (simp_all add: part_elems_def upt_rec)
  then show ?case
    using list_iter_part [where H = H and p = p and i = i, OF refl Cons.prems(3)] e Cons.IH [OF q(3), of 1] Cons.prems(2) n
    by (simp add: list_elems_def)
qed

lemma list_elems_snoc: "list_elems sz H (qs @ [x]) = list_elems sz H qs @ part_elems sz H x"
  by (simp add: list_elems_def)

lemma list_elems_cong:
  assumes "\<And>q. q \<in> set qs \<Longrightarrow> lp_elts (H' q) = lp_elts (H q) \<and> lp_nelts (H' q) = lp_nelts (H q)"
  shows "list_elems sz H' qs = list_elems sz H qs"
  unfolding list_elems_def part_elems_def using assms by (intro arg_cong [of _ _ concat] map_cong) auto

lemma list_rep_last:
  assumes r: "list_rep l0 l H ps"
  obtains qs where "ps = qs @ [li_last l]" "li_last l \<notin> set qs" "li_last l \<noteq> 0"
proof -
  have ps: "ps \<noteq> []" "last ps = li_last l" "npath (\<lambda>p. lp_next (H p)) (l0 + 8) ps" using r by (auto simp: list_rep_def)
  have q: "ps = butlast ps @ [li_last l]" using append_butlast_last_id [OF ps(1)] ps(2) by simp
  have "distinct (butlast ps @ [li_last l])" using npath_distinct [OF ps(3)] q by simp
  moreover have "li_last l \<noteq> 0" by (rule npath_nonnull [OF ps(3)]) (use ps(1,2) last_in_set [of ps] in simp)
  ultimately show thesis using that [OF q] by simp
qed

lemma push_part:
  assumes r: "list_rep l0 l H ps" and nf: "lp_nelts (H (li_last l)) < li_nalloc l"
    and p: "p = H (li_last l)" and H': "H' = H(li_last l := p\<lparr>lp_nelts := lp_nelts p + 1\<rparr>)"
  shows "list_rep l0 l H' ps" "list_elems sz H' ps = list_elems sz H ps @ [lp_elts p + sz * lp_nelts p]"
    "part_regions n H' ps = part_regions n H ps"
proof -
  obtain qs where q: "ps = qs @ [li_last l]" "li_last l \<notin> set qs" using list_rep_last [OF r] by blast
  have nx: "(\<lambda>p. lp_next (H' p)) = (\<lambda>p. lp_next (H p))" by (auto simp: H' p)
  have "\<forall>q\<in>set (tl ps). 0 < lp_nelts (H' q)" using r by (auto simp: list_rep_def H' p)
  moreover have "\<forall>q\<in>set (butlast ps). lp_nelts (H' q) = li_nalloc l" using r q by (auto simp: list_rep_def H')
  ultimately show "list_rep l0 l H' ps" using r nf by (simp add: list_rep_def nx) (simp add: H' p)
  have "list_elems sz H' qs = list_elems sz H qs" by (rule list_elems_cong) (use q in \<open>auto simp: H'\<close>)
  then show "list_elems sz H' ps = list_elems sz H ps @ [lp_elts p + sz * lp_nelts p]"
    unfolding q(1) list_elems_snoc by (simp add: part_elems_def H' p)
  show "part_regions n H' ps = part_regions n H ps" by (auto simp: part_regions_def H' p)
qed

lemma push_new:
  assumes r: "list_rep l0 l H ps" and full: "lp_nelts (H (li_last l)) = li_nalloc l"
    and new: "new \<noteq> 0" "new \<notin> set ps"
    and H': "H' = H(li_last l := (H (li_last l))\<lparr>lp_next := new\<rparr>, new := \<lparr>lp_elts = e, lp_nelts = 1, lp_next = 0\<rparr>)"
  shows "list_rep l0 (l\<lparr>li_last := new\<rparr>) H' (ps @ [new])" "list_elems sz H' (ps @ [new]) = list_elems sz H ps @ [e]"
    "mset (part_regions n H' (ps @ [new])) = mset ((e, n) # (new, 24) # part_regions n H ps)"
proof -
  obtain qs where q: "ps = qs @ [li_last l]" "li_last l \<notin> set qs" "li_last l \<noteq> 0" using list_rep_last [OF r] by blast
  have nl: "new \<noteq> li_last l" using new(2) q(1) by auto
  have ps: "ps \<noteq> []" "last ps = li_last l" "npath (\<lambda>p. lp_next (H p)) (l0 + 8) ps" using r by (auto simp: list_rep_def)
  have same: "lp_elts (H' p) = lp_elts (H p) \<and> lp_nelts (H' p) = lp_nelts (H p)" if "p \<in> set ps" for p
    using that new(2) by (auto simp: H')
  define f where "f = (\<lambda>p. lp_next (H p))(new := 0)"
  have "npath f (l0 + 8) ps" unfolding f_def using ps(3) new(2) by (subst npath_cong [of ps _ "\<lambda>p. lp_next (H p)"]) auto
  then have "npath (f(last ps := new)) (l0 + 8) (ps @ [new])" using npath_snoc [of f "l0 + 8" ps new] ps(1) new by (auto simp: f_def)
  moreover have "f(last ps := new) = (\<lambda>p. lp_next (H' p))" using nl ps(2) by (auto simp: f_def H' fun_eq_iff)
  ultimately have pth: "npath (\<lambda>p. lp_next (H' p)) (l0 + 8) (ps @ [new])" by simp
  have bl: "lp_nelts (H p) = li_nalloc l" if "p \<in> set ps" for p
    using r full that q(1) by (auto simp: list_rep_def)
  have pos: "0 < li_nalloc l" using r by (simp add: list_rep_def)
  have "\<forall>p\<in>set (butlast (ps @ [new])). lp_nelts (H' p) = li_nalloc l" using same bl by simp
  moreover have "\<forall>p\<in>set (tl (ps @ [new])). 0 < lp_nelts (H' p)"
    using same bl pos ps(1) by (auto simp: H' dest: list.set_sel(2))
  ultimately show "list_rep l0 (l\<lparr>li_last := new\<rparr>) H' (ps @ [new])"
    using r pth pos by (simp add: list_rep_def) (simp add: H')
  have "list_elems sz H' ps = list_elems sz H ps" by (rule list_elems_cong) (rule same)
  then show "list_elems sz H' (ps @ [new]) = list_elems sz H ps @ [e]"
    unfolding list_elems_snoc by (simp add: part_elems_def H')
  have m: "map (\<lambda>p. (lp_elts (H' p), n)) ps = map (\<lambda>p. (lp_elts (H p), n)) ps" using same by auto
  have t: "tl (ps @ [new]) = tl ps @ [new]" using ps(1) by simp
  have "lp_elts (H' new) = e" by (simp add: H')
  then have "part_regions n H' (ps @ [new]) = map (\<lambda>p. (lp_elts (H p), n)) ps @ [(e, n)] @ map (\<lambda>p. (p, 24)) (tl ps) @ [(new, 24)]"
    unfolding part_regions_def t using m by simp
  moreover have "mset \<dots> = mset ((e, n) # (new, 24) # part_regions n H ps)" by (simp add: part_regions_def)
  ultimately show "mset (part_regions n H' (ps @ [new])) = mset ((e, n) # (new, 24) # part_regions n H ps)" by (simp only:)
qed

text \<open>The interface of the allocator: \<open>good A s\<close> says that the regions \<open>A\<close> are allocated.  What creating a list and pushing to
  it do follows from it alone.\<close>

locale pool_user =
  fixes palloc :: "nat \<Rightarrow> pool_mem \<Rightarrow> (ptr \<times> pool_mem) option"
    and good :: "region list \<Rightarrow> pool_mem \<Rightarrow> bool"
  assumes palloc_good: "good A s \<Longrightarrow> \<exists>p s'. palloc n s = Some (p, s') \<and> good (taken p n A) s' \<and> ram s' = ram s"
    and good_apart: "good A s \<Longrightarrow> sorted_wrt rdisj A"
    and good_nonnull: "good A s \<Longrightarrow> r \<in> set A \<Longrightarrow> fst r \<noteq> 0"
    and good_part: "good A s \<Longrightarrow> mset B \<subseteq># mset A \<Longrightarrow> good B s"
begin

lemma create_run:
  assumes g: "good A s" and n: "0 < n" "0 < sz" "n * sz < 2 ^ 64"
  shows "\<exists>l r H' s'. list_create_by palloc pool n sz H s = Some (l, r, H', s') \<and> ram s' = ram s \<and>
    (l = 0 \<longrightarrow> good A s') \<and>
    (l \<noteq> 0 \<longrightarrow> (\<exists>t ps. r = Some t \<and> list_rep l t H' ps \<and> li_nalloc t = n \<and> li_size t = sz \<and> li_pool t = pool \<and>
       list_elems sz H' ps = [] \<and> good ((l, 56) # part_regions (n * sz) H' ps @ A) s'))"
proof -
  obtain l s1 where l: "palloc 56 s = Some (l, s1)" "good (taken l 56 A) s1" "ram s1 = ram s" using palloc_good [OF g] by blast
  show ?thesis
  proof (cases "l = 0")
    case True
    then show ?thesis using l by (auto simp: list_create_by_def taken_def)
  next
    case False
    then have g1: "good ((l, 56) # A) s1" using l(2) by (simp add: taken_def)
    obtain e s2 where e: "palloc (n * sz) s1 = Some (e, s2)" "good (taken e (n * sz) ((l, 56) # A)) s2" "ram s2 = ram s1"
      using palloc_good [OF g1] by blast
    show ?thesis
    proof (cases "e = 0")
      case True
      have "good A s2" by (rule good_part [OF e(2)]) (simp add: True taken_def)
      then show ?thesis using l e False True umul_small [OF n(3)] by (auto simp: list_create_by_def)
    next
      case e0: False
      define H' where "H' = H(l + 8 := \<lparr>lp_elts = e, lp_nelts = 0, lp_next = 0\<rparr>)"
      define t where "t = \<lparr>li_last = l + 8, li_size = sz, li_nalloc = n, li_pool = pool\<rparr>"
      have "list_create_by palloc pool n sz H s = Some (l, Some t, H', s2)"
        using l(1) e(1) False e0 umul_small [OF n(3)] by (simp add: list_create_by_def t_def H'_def)
      moreover have "list_rep l t H' [l + 8]" using n by (simp add: list_rep_def t_def H'_def)
      moreover have "good ((l, 56) # part_regions (n * sz) H' [l + 8] @ A) s2"
        by (rule good_part [OF e(2)]) (use e0 in \<open>simp add: taken_def part_regions_def H'_def\<close>)
      moreover have "list_elems sz H' [l + 8] = []" by (simp add: list_elems_def part_elems_def H'_def)
      ultimately show ?thesis using False l(3) e(3) by (auto simp: t_def)
    qed
  qed
qed

lemma push_run:
  assumes r: "list_rep l0 l H ps" and g: "good ((l0, 56) # part_regions (li_nalloc l * li_size l) H ps @ A) s"
  shows "\<exists>p l' H' s'. list_push_by palloc l H s = Some (p, l', H', s') \<and> ram s' = ram s \<and>
    li_nalloc l' = li_nalloc l \<and> li_size l' = li_size l \<and> li_pool l' = li_pool l \<and>
    (\<exists>ps'. list_rep l0 l' H' ps' \<and> good ((l0, 56) # part_regions (li_nalloc l * li_size l) H' ps' @ A) s' \<and>
       list_elems (li_size l) H' ps' = list_elems (li_size l) H ps @ (if p = 0 then [] else [p]))"
proof (cases "lp_nelts (H (li_last l)) = li_nalloc l")
  case False
  let ?p = "H (li_last l)"
  have nb: "li_nalloc l * li_size l < 2 ^ 64" "0 < li_size l" "lp_nelts ?p \<le> li_nalloc l" using r by (auto simp: list_rep_def)
  then have nf: "lp_nelts ?p < li_nalloc l" using False by simp
  have a: "li_size l * lp_nelts ?p < 2 ^ 64" using mult_le_mono2 [OF nb(3), of "li_size l"] nb(1) mult.commute [of "li_size l" "li_nalloc l"]
    by linarith
  have "lp_nelts ?p + 1 \<le> li_nalloc l * li_size l" using nf nb(2) mult_le_mono2 [of 1 "li_size l" "li_nalloc l"] by linarith
  then have b: "lp_nelts ?p + 1 < 2 ^ 64" using nb(1) by simp
  have run: "list_push_by palloc l H s = Some (lp_elts ?p + li_size l * lp_nelts ?p, l, H(li_last l := ?p\<lparr>lp_nelts := lp_nelts ?p + 1\<rparr>), s)"
    using False umul_small [OF a] uadd_small [OF b] by (simp add: list_push_by_def Let_def)
  obtain qs where q: "ps = qs @ [li_last l]" using list_rep_last [OF r] by blast
  have "(lp_elts ?p, li_nalloc l * li_size l) \<in> set ((l0, 56) # part_regions (li_nalloc l * li_size l) H ps @ A)"
    by (simp add: part_regions_def q)
  from good_nonnull [OF g this] have "lp_elts ?p + li_size l * lp_nelts ?p \<noteq> 0" by simp
  then show ?thesis using run push_part [OF r nf refl refl] g
    by (intro exI [of _ "lp_elts ?p + li_size l * lp_nelts ?p"] exI [of _ l] exI [of _ "H(li_last l := ?p\<lparr>lp_nelts := lp_nelts ?p + 1\<rparr>)"] exI [of _ s])
      (auto simp del: fun_upd_apply)
next
  case full: True
  have nb: "li_nalloc l * li_size l < 2 ^ 64" "0 < li_nalloc l" using r by (auto simp: list_rep_def)
  let ?A = "(l0, 56) # part_regions (li_nalloc l * li_size l) H ps @ A"
  obtain new s1 where n: "palloc 24 s = Some (new, s1)" "good (taken new 24 ?A) s1" "ram s1 = ram s" using palloc_good [OF g] by blast
  show ?thesis
  proof (cases "new = 0")
    case True
    have "list_push_by palloc l H s = Some (0, l, H, s1)" using full n(1) True by (simp add: list_push_by_def)
    then show ?thesis using r n True by (intro exI [of _ 0] exI [of _ l] exI [of _ H] exI [of _ s1]) (auto simp: taken_def)
  next
    case False
    then have g1: "good ((new, 24) # ?A) s1" using n(2) by (simp add: taken_def)
    obtain e s2 where e: "palloc (li_nalloc l * li_size l) s1 = Some (e, s2)"
      "good (taken e (li_nalloc l * li_size l) ((new, 24) # ?A)) s2" "ram s2 = ram s1" using palloc_good [OF g1] by blast
    have nps: "new \<notin> set ps"
    proof
      assume p: "new \<in> set ps"
      have ap: "rdisj (new, 24) q" if "q \<in> set ?A" for q using good_apart [OF g1] that unfolding sorted_wrt.simps by blast
      show False
      proof (cases ps)
        case (Cons x xs)
        have x: "x = l0 + 8" using r Cons by (simp add: list_rep_def)
        show False
        proof (cases "new = x")
          case True
          then show False using ap [of "(l0, 56)"] x by (simp add: rdisj_def)
        next
          case False
          then have "(new, 24) \<in> set ?A" using p Cons by (simp add: part_regions_def)
          then have "rdisj (new, 24) (new, 24)" by (rule ap)
          then show False by (simp add: rdisj_def)
        qed
      qed (use p in simp)
    qed
    obtain qs where q: "ps = qs @ [li_last l]" using list_rep_last [OF r] by blast
    have nl: "new \<noteq> li_last l" using nps q by auto
    show ?thesis
    proof (cases "e = 0")
      case True
      let ?H = "H(new := (H new)\<lparr>lp_elts := 0\<rparr>)"
      have run: "list_push_by palloc l H s = Some (0, l, ?H, s2)"
        using full n(1) e(1) False True umul_small [OF nb(1)] by (simp add: list_push_by_def Let_def)
      have same: "?H q = H q" if "q \<in> set ps" for q using that nps by auto
      have "list_rep l0 l ?H ps"
      proof -
        have "npath (\<lambda>p. lp_next (?H p)) (l0 + 8) ps = npath (\<lambda>p. lp_next (H p)) (l0 + 8) ps"
          by (rule npath_cong) (use same in simp)
        moreover have "set (butlast ps) \<subseteq> set ps" "set (tl ps) \<subseteq> set ps" by (auto dest: in_set_butlastD list.set_sel(2) simp: tl_def split: list.splits)
        moreover have "last ps \<in> set ps" using q by simp
        ultimately show ?thesis using r same unfolding list_rep_def by (metis subsetD)
      qed
      moreover have "list_elems (li_size l) ?H ps = list_elems (li_size l) H ps" by (rule list_elems_cong) (use same in simp)
      moreover have "part_regions (li_nalloc l * li_size l) ?H ps = part_regions (li_nalloc l * li_size l) H ps"
        using same by (auto simp: part_regions_def)
      moreover have "good ?A s2" by (rule good_part [OF e(2)]) (simp add: True taken_def)
      ultimately show ?thesis using run n(3) e(3)
        by (intro exI [of _ 0] exI [of _ l] exI [of _ ?H] exI [of _ s2]) (auto simp del: fun_upd_apply)
    next
      case e0: False
      define H' where "H' = H(li_last l := (H (li_last l))\<lparr>lp_next := new\<rparr>, new := \<lparr>lp_elts = e, lp_nelts = 1, lp_next = 0\<rparr>)"
      have run: "list_push_by palloc l H s = Some (e, l\<lparr>li_last := new\<rparr>, H', s2)"
        using full n(1) e(1) False e0 umul_small [OF nb(1)] nl
        by (simp add: list_push_by_def Let_def H'_def umul_def uadd_def fun_upd_twist)
      note pn = push_new [OF r full False nps H'_def]
      have "good ((l0, 56) # part_regions (li_nalloc l * li_size l) H' (ps @ [new]) @ A) s2"
        by (rule good_part [OF e(2)]) (use e0 pn(3) [of "li_nalloc l * li_size l"] in \<open>simp add: taken_def\<close>)
      then show ?thesis using run n(3) e(3) pn(1,2) e0
        by (intro exI [of _ e] exI [of _ "l\<lparr>li_last := new\<rparr>"] exI [of _ H'] exI [of _ s2]) auto
    qed
  qed
qed

end

text \<open>\<open>ngx_palloc\<close> on a reachable pool provides the interface.\<close>

interpretation pool_palloc: pool_user "ngx_palloc os pool" "\<lambda>A s. os_ok os \<and> pool_good sz F pool A K s"
proof
  fix A s n assume "os_ok os \<and> pool_good sz F pool A K s"
  then show "\<exists>p s'. ngx_palloc os pool n s = Some (p, s') \<and> (os_ok os \<and> pool_good sz F pool (taken p n A) K s') \<and> ram s' = ram s"
    using pool_good_palloc [of os sz F pool A K s n] by metis
next
  fix A s assume "os_ok os \<and> pool_good sz F pool A K s"
  then have "sorted_wrt rdisj (A @ links K)" using pool_good_apart(1) by blast
  then show "sorted_wrt rdisj A" by (simp add: sorted_wrt_append)
next
  fix A s r assume "os_ok os \<and> pool_good sz F pool A K s" "r \<in> set A"
  then show "fst r \<noteq> 0" using pool_good_nonnull by blast
next
  fix A s B assume "os_ok os \<and> pool_good sz F pool A K s" "mset B \<subseteq># mset A"
  then show "os_ok os \<and> pool_good sz F pool B K s" using pool_good_sub by blast
qed

text \<open>The states of a list of a pool, with the addresses \<open>es\<close> that pushing has returned.\<close>

inductive list_reach ::
    "os_env \<Rightarrow> nat \<Rightarrow> region set \<Rightarrow> ptr \<Rightarrow> nat \<Rightarrow> nat \<Rightarrow> region list \<Rightarrow> ptr list \<Rightarrow> ptr \<Rightarrow> ngx_list \<Rightarrow> parts \<Rightarrow> ptr list \<Rightarrow> pool_mem \<Rightarrow> bool"
  for os sz F pool n esz where
  create: "list_reach os sz F pool n esz A K l0 l H' [] s'"
    if "pool_reach os sz F pool A K C s" "ngx_list_create os pool n esz H s = Some (l0, Some l, H', s')" "l0 \<noteq> NULL"
       "0 < n" "0 < esz" "n * esz < 2 ^ 64"
| push: "list_reach os sz F pool n esz A K l0 l' H' (if p = NULL then es else es @ [p]) s'"
    if "list_reach os sz F pool n esz A K l0 l H es s" "ngx_list_push os l H s = Some (p, l', H', s')"
| palloc: "list_reach os sz F pool n esz (taken p k A) K l0 l H es s'"
    if "list_reach os sz F pool n esz A K l0 l H es s" "ngx_palloc os pool k s = Some (p, s')"
| use: "list_reach os sz F pool n esz A K l0 l H es s'"
    if "list_reach os sz F pool n esz A K l0 l H es s" "(b, k) \<in> set (A @ map (\<lambda>e. (e, esz)) es)" "ram_write b k f s = Some s'"

definition list_holds ::
    "nat \<Rightarrow> region set \<Rightarrow> ptr \<Rightarrow> nat \<Rightarrow> nat \<Rightarrow> region list \<Rightarrow> ptr list \<Rightarrow> ptr \<Rightarrow> ngx_list \<Rightarrow> parts \<Rightarrow> ptr list \<Rightarrow> pool_mem \<Rightarrow> bool" where
  "list_holds sz F pool n esz A K l0 l H es s \<longleftrightarrow>
     li_nalloc l = n \<and> li_size l = esz \<and> li_pool l = pool \<and>
     (\<exists>ps. list_rep l0 l H ps \<and> pool_good sz F pool ((l0, 56) # part_regions (n * esz) H ps @ A) K s \<and> list_elems esz H ps = es)"

lemma list_reach_holds:
  assumes "list_reach os sz F pool n esz A K l0 l H es s" and os: "os_ok os" and sz: "16 dvd sz" "112 \<le> sz"
  shows "list_holds sz F pool n esz A K l0 l H es s"
  using assms(1)
proof (induction rule: list_reach.induct)
  case (create A K C s H l0 l H' s')
  have g: "os_ok os \<and> pool_good sz F pool A K s" using os pool_reach_good [OF create(1) os sz] by blast
  obtain t ps where t: "l = t" "list_rep l0 t H' ps" "li_nalloc t = n" "li_size t = esz" "li_pool t = pool"
    "list_elems esz H' ps = []" "pool_good sz F pool ((l0, 56) # part_regions (n * esz) H' ps @ A) K s'"
    using pool_palloc.create_run [OF g create(4-6), of pool H] create(2,3) unfolding ngx_list_create_def by force
  then show ?case unfolding list_holds_def by blast
next
  case (push A K l0 l H es s p l' H' s')
  obtain ps where h: "li_nalloc l = n" "li_size l = esz" "li_pool l = pool" "list_rep l0 l H ps"
    "pool_good sz F pool ((l0, 56) # part_regions (n * esz) H ps @ A) K s" "list_elems esz H ps = es"
    using push.IH by (auto simp: list_holds_def)
  have g: "os_ok os \<and> pool_good sz F pool ((l0, 56) # part_regions (li_nalloc l * li_size l) H ps @ A) K s"
    using os h by simp
  obtain ps' where p: "li_nalloc l' = li_nalloc l" "li_size l' = li_size l" "li_pool l' = li_pool l"
    "list_rep l0 l' H' ps'" "pool_good sz F pool ((l0, 56) # part_regions (li_nalloc l * li_size l) H' ps' @ A) K s'"
    "list_elems (li_size l) H' ps' = list_elems (li_size l) H ps @ (if p = 0 then [] else [p])"
    using pool_palloc.push_run [OF h(4) g] push(2) h(3) unfolding ngx_list_push_def by force
  have "list_elems esz H' ps' = (if p = 0 then es else es @ [p])" using p(6) h(2,6) by simp
  then show ?case using p(1-5) h(1-3) unfolding list_holds_def by metis
next
  case (palloc A K l0 l H es s k p s')
  obtain ps where h: "li_nalloc l = n" "li_size l = esz" "li_pool l = pool" "list_rep l0 l H ps"
    "pool_good sz F pool ((l0, 56) # part_regions (n * esz) H ps @ A) K s" "list_elems esz H ps = es"
    using palloc.IH by (auto simp: list_holds_def)
  have "pool_good sz F pool (taken p k ((l0, 56) # part_regions (n * esz) H ps @ A)) K s'"
    by (rule pool_good_palloc [OF os h(5), of k]) (use palloc(2) in auto)
  then have "pool_good sz F pool ((l0, 56) # part_regions (n * esz) H ps @ taken p k A) K s'"
    by (rule pool_good_sub) (simp add: taken_def)
  then show ?case using h by (auto simp: list_holds_def)
next
  case (use A K l0 l H es s b k f s')
  obtain R where "s' = s\<lparr>ram := R\<rparr>" using ram_write_cases [OF use(3)] by blast
  then show ?case using use.IH by (simp add: list_holds_def pool_good_ram)
qed

lemma rdisj_inner: "rdisj (a, m) q \<Longrightarrow> a \<le> e \<Longrightarrow> e + x \<le> a + m \<Longrightarrow> rdisj (e, x) q"
  by (auto simp: rdisj_def)

lemma part_elem_in:
  assumes "e \<in> set (part_elems sz H p)" "lp_nelts (H p) \<le> n"
  shows "lp_elts (H p) \<le> e" "e + sz \<le> lp_elts (H p) + n * sz"
proof -
  have "e \<in> (\<lambda>i. lp_elts (H p) + sz * i) ` {0..<lp_nelts (H p)}" using assms(1) by (simp add: part_elems_def)
  then obtain i where i: "e = lp_elts (H p) + sz * i" "i \<in> {0..<lp_nelts (H p)}" by (rule imageE)
  then show "lp_elts (H p) \<le> e" by simp
  have "Suc i * sz \<le> n * sz" using i(2) assms(2) by (intro mult_le_mono1) simp
  then show "e + sz \<le> lp_elts (H p) + n * sz" using i(1) by (simp add: mult.commute)
qed

lemma part_elems_apart: "sorted_wrt rdisj (map (\<lambda>e. (e, sz)) (part_elems sz H p))"
proof -
  have "lp_elts (H p) + sz * i + sz \<le> lp_elts (H p) + sz * j" if "i < j" for i j
    using mult_le_mono2 [of "Suc i" j sz] that by simp
  then have "sorted_wrt (\<lambda>i j. rdisj (lp_elts (H p) + sz * i, sz) (lp_elts (H p) + sz * j, sz)) [0..<lp_nelts (H p)]"
    by (intro sorted_wrt_mono_rel [OF _ sorted_wrt_upt]) (auto simp: rdisj_def)
  then show ?thesis by (simp add: part_elems_def sorted_wrt_map comp_def)
qed

lemma list_elems_apart:
  "sorted_wrt rdisj (map (\<lambda>p. (lp_elts (H p), n * sz)) ps @ A) \<Longrightarrow> (\<And>p. p \<in> set ps \<Longrightarrow> lp_nelts (H p) \<le> n) \<Longrightarrow>
   sorted_wrt rdisj (map (\<lambda>e. (e, sz)) (list_elems sz H ps) @ A)"
proof (induction ps)
  case Nil
  then show ?case by (simp add: list_elems_def)
next
  case (Cons p ps)
  let ?es = "map (\<lambda>e. (e, sz)) (list_elems sz H ps)"
  have IH: "sorted_wrt rdisj (?es @ A)" using Cons by simp
  have n: "lp_nelts (H p) \<le> n" using Cons.prems(2) by simp
  have apart: "rdisj (lp_elts (H p), n * sz) q" if qs: "q \<in> set (?es @ A)" for q
  proof (cases "q \<in> set A")
    case True
    then show ?thesis using Cons.prems(1) by (simp add: sorted_wrt_append)
  next
    case False
    then obtain e p' where e: "q = (e, sz)" "p' \<in> set ps" "e \<in> set (part_elems sz H p')"
      using qs by (auto simp: list_elems_def)
    have "rdisj (lp_elts (H p), n * sz) (lp_elts (H p'), n * sz)" using Cons.prems(1) e(2) by auto
    then have "rdisj (lp_elts (H p'), n * sz) (lp_elts (H p), n * sz)" by (rule rdisj_sym)
    then show ?thesis using rdisj_inner [OF _ part_elem_in [OF e(3), of n]] Cons.prems(2) e(1,2) rdisj_sym by simp
  qed
  have "rdisj (e, sz) q" if "e \<in> set (part_elems sz H p)" "q \<in> set (?es @ A)" for e q
    using rdisj_inner [OF apart [OF that(2)] part_elem_in [OF that(1) n]] .
  then show ?case using IH part_elems_apart [of sz H p] by (auto simp: list_elems_def sorted_wrt_append)
qed

section \<open>Properties\<close>

lemmas list_eval = array_eval ngx_list_create_def list_create_by_def ngx_list_push_def list_push_by_def

lemma list_demo:
  "\<exists>l H s. list_reach bump_os 1024 {} 16 1 2 [] [] 96 l H [152, 184] s"
proof -
  obtain s1 where s1: "ngx_create_pool bump_os 1024 pool_mem0 = Some (16, s1)" by (simp add: pool_eval)
  have r1: "pool_reach bump_os 1024 {} 16 [] [] [] s1"
    by (rule pool_reach.create [OF _ _ s1]) (simp_all add: pool_mem0_def regions_def)
  define H0 where "H0 = (\<lambda>_ :: ptr. \<lparr>lp_elts = 0, lp_nelts = 0, lp_next = 0\<rparr>)"
  obtain l H s2 where s2: "ngx_list_create bump_os 16 1 2 H0 s1 = Some (96, Some l, H, s2)" using s1 by (auto simp: list_eval)
  obtain l' H' s3 where s3: "ngx_list_push bump_os l H s2 = Some (152, l', H', s3)" using s1 s2 by (auto simp: list_eval)
  obtain l'' H'' s4 where s4: "ngx_list_push bump_os l' H' s3 = Some (184, l'', H'', s4)" using s1 s2 s3 by (auto simp: list_eval)
  have r2: "list_reach bump_os 1024 {} 16 1 2 [] [] 96 l H [] s2" by (rule list_reach.create [OF r1 s2]) simp_all
  have r3: "list_reach bump_os 1024 {} 16 1 2 [] [] 96 l' H' [152] s3" using list_reach.push [OF r2 s3] by simp
  show ?thesis using list_reach.push [OF r3 s4] by auto
qed

text \<open>
  C35. In every reachable state the documented loop through the list ends and visits exactly the elements that
  \<open>ngx_list_push\<close> has returned, in order; elements never move; they overlap neither each other nor other allocations;
  and pushing returns.
\<close>

theorem list_refines:
  assumes "os_ok os" "16 dvd sz" "112 \<le> sz" "list_reach os sz F pool n esz A K l0 l H es s"
  shows "list_iter esz H (l0 + 8) 0 [] = Some es \<and> sorted_wrt rdisj (map (\<lambda>e. (e, esz)) es @ A) \<and>
    (\<exists>p l' H' s'. ngx_list_push os l H s = Some (p, l', H', s') \<and> ram s' = ram s)"
proof -
  obtain ps where h: "li_nalloc l = n" "li_size l = esz" "li_pool l = pool" "list_rep l0 l H ps"
    "pool_good sz F pool ((l0, 56) # part_regions (n * esz) H ps @ A) K s" "list_elems esz H ps = es"
    using list_reach_holds [OF assms(4,1-3)] by (auto simp: list_holds_def)
  obtain x xs where ps: "ps = x # xs" "x = l0 + 8" "npath (\<lambda>p. lp_next (H p)) x (x # xs)"
    using h(4) by (cases ps) (auto simp: list_rep_def)
  have "list_iter esz H x 0 [] = Some ([] @ drop 0 (part_elems esz H x) @ list_elems esz H xs)"
    by (rule list_iter_run [OF ps(3)]) (use h(4) ps(1) in \<open>auto simp: list_rep_def\<close>)
  then have "list_iter esz H (l0 + 8) 0 [] = Some es" using h(6) ps by (simp add: list_elems_def)
  moreover have "sorted_wrt rdisj (map (\<lambda>e. (e, esz)) es @ A)"
  proof -
    have "sorted_wrt rdisj (map (\<lambda>p. (lp_elts (H p), n * esz)) ps @ A)"
      by (rule rdisj_sub [OF pool_good_apart(1) [OF h(5)]]) (simp add: part_regions_def)
    moreover have "lp_nelts (H p) \<le> n" if "p \<in> set ps" for p
    proof -
      have "p \<in> set (butlast ps) \<or> p = last ps" using that append_butlast_last_id [of ps] ps(1)
        by (metis Un_iff empty_iff empty_set list.discI set_ConsD set_append)
      then show ?thesis using h(1,4) by (auto simp: list_rep_def)
    qed
    ultimately show ?thesis using list_elems_apart [of H n esz ps A] h(6) by simp
  qed
  moreover have "\<exists>p l' H' s'. ngx_list_push os l H s = Some (p, l', H', s') \<and> ram s' = ram s"
  proof -
    have g: "os_ok os \<and> pool_good sz F pool ((l0, 56) # part_regions (li_nalloc l * li_size l) H ps @ A) K s"
      using assms(1) h by simp
    show ?thesis using pool_palloc.push_run [OF h(4) g] h(3) unfolding ngx_list_push_def by force
  qed
  ultimately show ?thesis by blast
qed

theorem list_refines_witness:
  "\<exists>l H s. list_reach bump_os 1024 {} 16 1 2 [] [] 96 l H [152, 184] s \<and> list_iter 2 H 104 0 [] = Some [152, 184]"
proof -
  obtain l H s where l: "list_reach bump_os 1024 {} 16 1 2 [] [] 96 l H [152, 184] s" using list_demo by blast
  show ?thesis using list_refines [OF bump_os_ok _ _ l] l by auto
qed

end
