(* ===== verification/Ngx_Crc32.thy ===== *)
theory Ngx_Crc32
  imports Ngx_Palloc
begin

text \<open>
  The checksums of \<^verbatim>\<open>src/core/ngx_crc32.c\<close> and \<^verbatim>\<open>src/core/ngx_crc32.h\<close>: CRC-32 with a table of 16 words for short data, with one of 256
  words for long data, and in pieces.

  Shown: all three compute the CRC-32 of the bit-serial reference, so every word of the tables is right and short and long
  checksums of the same data agree, also after the small table was moved.
\<close>

unbundle bit_operations_syntax

section \<open>The functions\<close>

text \<open>The tables, as the source spells them out.\<close>

definition ngx_crc32_table16 :: "u32 list" where
  "ngx_crc32_table16 =
   [0x00000000, 0x1db71064, 0x3b6e20c8, 0x26d930ac,
    0x76dc4190, 0x6b6b51f4, 0x4db26158, 0x5005713c,
    0xedb88320, 0xf00f9344, 0xd6d6a3e8, 0xcb61b38c,
    0x9b64c2b0, 0x86d3d2d4, 0xa00ae278, 0xbdbdf21c]"

definition ngx_crc32_table256 :: "u32 list" where
  "ngx_crc32_table256 =
   [0x00000000, 0x77073096, 0xee0e612c, 0x990951ba, 0x076dc419, 0x706af48f, 0xe963a535, 0x9e6495a3,
    0x0edb8832, 0x79dcb8a4, 0xe0d5e91e, 0x97d2d988, 0x09b64c2b, 0x7eb17cbd, 0xe7b82d07, 0x90bf1d91,
    0x1db71064, 0x6ab020f2, 0xf3b97148, 0x84be41de, 0x1adad47d, 0x6ddde4eb, 0xf4d4b551, 0x83d385c7,
    0x136c9856, 0x646ba8c0, 0xfd62f97a, 0x8a65c9ec, 0x14015c4f, 0x63066cd9, 0xfa0f3d63, 0x8d080df5,
    0x3b6e20c8, 0x4c69105e, 0xd56041e4, 0xa2677172, 0x3c03e4d1, 0x4b04d447, 0xd20d85fd, 0xa50ab56b,
    0x35b5a8fa, 0x42b2986c, 0xdbbbc9d6, 0xacbcf940, 0x32d86ce3, 0x45df5c75, 0xdcd60dcf, 0xabd13d59,
    0x26d930ac, 0x51de003a, 0xc8d75180, 0xbfd06116, 0x21b4f4b5, 0x56b3c423, 0xcfba9599, 0xb8bda50f,
    0x2802b89e, 0x5f058808, 0xc60cd9b2, 0xb10be924, 0x2f6f7c87, 0x58684c11, 0xc1611dab, 0xb6662d3d,
    0x76dc4190, 0x01db7106, 0x98d220bc, 0xefd5102a, 0x71b18589, 0x06b6b51f, 0x9fbfe4a5, 0xe8b8d433,
    0x7807c9a2, 0x0f00f934, 0x9609a88e, 0xe10e9818, 0x7f6a0dbb, 0x086d3d2d, 0x91646c97, 0xe6635c01,
    0x6b6b51f4, 0x1c6c6162, 0x856530d8, 0xf262004e, 0x6c0695ed, 0x1b01a57b, 0x8208f4c1, 0xf50fc457,
    0x65b0d9c6, 0x12b7e950, 0x8bbeb8ea, 0xfcb9887c, 0x62dd1ddf, 0x15da2d49, 0x8cd37cf3, 0xfbd44c65,
    0x4db26158, 0x3ab551ce, 0xa3bc0074, 0xd4bb30e2, 0x4adfa541, 0x3dd895d7, 0xa4d1c46d, 0xd3d6f4fb,
    0x4369e96a, 0x346ed9fc, 0xad678846, 0xda60b8d0, 0x44042d73, 0x33031de5, 0xaa0a4c5f, 0xdd0d7cc9,
    0x5005713c, 0x270241aa, 0xbe0b1010, 0xc90c2086, 0x5768b525, 0x206f85b3, 0xb966d409, 0xce61e49f,
    0x5edef90e, 0x29d9c998, 0xb0d09822, 0xc7d7a8b4, 0x59b33d17, 0x2eb40d81, 0xb7bd5c3b, 0xc0ba6cad,
    0xedb88320, 0x9abfb3b6, 0x03b6e20c, 0x74b1d29a, 0xead54739, 0x9dd277af, 0x04db2615, 0x73dc1683,
    0xe3630b12, 0x94643b84, 0x0d6d6a3e, 0x7a6a5aa8, 0xe40ecf0b, 0x9309ff9d, 0x0a00ae27, 0x7d079eb1,
    0xf00f9344, 0x8708a3d2, 0x1e01f268, 0x6906c2fe, 0xf762575d, 0x806567cb, 0x196c3671, 0x6e6b06e7,
    0xfed41b76, 0x89d32be0, 0x10da7a5a, 0x67dd4acc, 0xf9b9df6f, 0x8ebeeff9, 0x17b7be43, 0x60b08ed5,
    0xd6d6a3e8, 0xa1d1937e, 0x38d8c2c4, 0x4fdff252, 0xd1bb67f1, 0xa6bc5767, 0x3fb506dd, 0x48b2364b,
    0xd80d2bda, 0xaf0a1b4c, 0x36034af6, 0x41047a60, 0xdf60efc3, 0xa867df55, 0x316e8eef, 0x4669be79,
    0xcb61b38c, 0xbc66831a, 0x256fd2a0, 0x5268e236, 0xcc0c7795, 0xbb0b4703, 0x220216b9, 0x5505262f,
    0xc5ba3bbe, 0xb2bd0b28, 0x2bb45a92, 0x5cb36a04, 0xc2d7ffa7, 0xb5d0cf31, 0x2cd99e8b, 0x5bdeae1d,
    0x9b64c2b0, 0xec63f226, 0x756aa39c, 0x026d930a, 0x9c0906a9, 0xeb0e363f, 0x72076785, 0x05005713,
    0x95bf4a82, 0xe2b87a14, 0x7bb12bae, 0x0cb61b38, 0x92d28e9b, 0xe5d5be0d, 0x7cdcefb7, 0x0bdbdf21,
    0x86d3d2d4, 0xf1d4e242, 0x68ddb3f8, 0x1fda836e, 0x81be16cd, 0xf6b9265b, 0x6fb077e1, 0x18b74777,
    0x88085ae6, 0xff0f6a70, 0x66063bca, 0x11010b5c, 0x8f659eff, 0xf862ae69, 0x616bffd3, 0x166ccf45,
    0xa00ae278, 0xd70dd2ee, 0x4e048354, 0x3903b3c2, 0xa7672661, 0xd06016f7, 0x4969474d, 0x3e6e77db,
    0xaed16a4a, 0xd9d65adc, 0x40df0b66, 0x37d83bf0, 0xa9bcae53, 0xdebb9ec5, 0x47b2cf7f, 0x30b5ffe9,
    0xbdbdf21c, 0xcabac28a, 0x53b39330, 0x24b4a3a6, 0xbad03605, 0xcdd70693, 0x54de5729, 0x23d967bf,
    0xb3667a2e, 0xc4614ab8, 0x5d681b02, 0x2a6f2b94, 0xb40bbe37, 0xc30c8ea1, 0x5a05df1b, 0x2d02ef8d]"

text \<open>The pointer \<open>ngx_crc32_table_short\<close> and the words it points to.  \<open>ngx_crc32_table_init\<close> moves the table to a cache line of its own.\<close>

record crc32_state =
  crc32_table_short :: ptr
  crc32_short_words :: "u32 list"

definition ngx_crc32_table_init :: "os_env \<Rightarrow> nat \<Rightarrow> crc32_state \<Rightarrow> pool_mem \<Rightarrow> ngx_rc \<times> crc32_state \<times> pool_mem" where
  "ngx_crc32_table_init os ngx_cacheline_size t s =
     (if (of_nat (crc32_table_short t) :: u64) AND NOT (of_nat ngx_cacheline_size - 1) = of_nat (crc32_table_short t)
      then (NGX_OK, t, s)
      else let (p, s) = ngx_alloc os (16 * 4 + ngx_cacheline_size) s in
        if p = NULL then (NGX_ERROR, t, s)
        else let p = ngx_align_ptr p ngx_cacheline_size
             in (NGX_OK, \<lparr>crc32_table_short = p, crc32_short_words = ngx_crc32_table16\<rparr>, s))"

text \<open>The bytes \<open>p[0] ... p[len - 1]\<close> are the argument.\<close>

fun crc32_short_loop :: "u32 list \<Rightarrow> u32 \<Rightarrow> byte list \<Rightarrow> u32" where
  "crc32_short_loop tbl crc [] = crc"
| "crc32_short_loop tbl crc (c # p) =
     (let crc = tbl ! unat ((crc XOR ucast (c AND 0xf)) AND 0xf) XOR drop_bit 4 crc;
          crc = tbl ! unat ((crc XOR ucast (drop_bit 4 c)) AND 0xf) XOR drop_bit 4 crc
      in crc32_short_loop tbl crc p)"

definition ngx_crc32_short :: "crc32_state \<Rightarrow> byte list \<Rightarrow> u32" where
  "ngx_crc32_short t p = crc32_short_loop (crc32_short_words t) 0xffffffff p XOR 0xffffffff"

fun crc32_long_loop :: "u32 \<Rightarrow> byte list \<Rightarrow> u32" where
  "crc32_long_loop crc [] = crc"
| "crc32_long_loop crc (b # p) =
     crc32_long_loop (ngx_crc32_table256 ! unat ((crc XOR ucast b) AND 0xff) XOR drop_bit 8 crc) p"

definition ngx_crc32_long :: "byte list \<Rightarrow> u32" where
  "ngx_crc32_long p = crc32_long_loop 0xffffffff p XOR 0xffffffff"

fun ngx_crc32_update :: "u32 \<Rightarrow> byte list \<Rightarrow> u32" where
  "ngx_crc32_update c [] = c"
| "ngx_crc32_update c (b # p) =
     ngx_crc32_update (ngx_crc32_table256 ! unat ((c XOR ucast b) AND 0xff) XOR drop_bit 8 c) p"

definition ngx_crc32_init :: u32 where
  "ngx_crc32_init = 0xffffffff"

definition ngx_crc32_final :: "u32 \<Rightarrow> u32" where
  "ngx_crc32_final crc = crc XOR 0xffffffff"

section \<open>The reference: one bit at a time\<close>

text \<open>The CRC-32 of IEEE 802.3: the register shifts to the right, the polynomial is reflected.\<close>

definition crc_bit :: "u32 \<Rightarrow> u32" where
  "crc_bit c = (if c AND 1 = 0 then drop_bit 1 c else drop_bit 1 c XOR 0xedb88320)"

fun crc_bits :: "nat \<Rightarrow> u32 \<Rightarrow> u32" where
  "crc_bits 0 c = c"
| "crc_bits (Suc n) c = crc_bits n (crc_bit c)"

fun crc_bytes :: "u32 \<Rightarrow> byte list \<Rightarrow> u32" where
  "crc_bytes c [] = c"
| "crc_bytes c (b # bs) = crc_bytes (crc_bits 8 (c XOR ucast b)) bs"

definition crc32 :: "byte list \<Rightarrow> u32" where
  "crc32 bs = crc_bytes 0xffffffff bs XOR 0xffffffff"

text \<open>A step is linear over exclusive or, and steps over low bits that are zero only shift.\<close>

lemma crc_bit_odd: "crc_bit c = (if odd c then drop_bit 1 c XOR 0xedb88320 else drop_bit 1 c)"
  by (simp add: crc_bit_def and_one_eq flip: even_iff_mod_2_eq_zero)

lemma crc_bit_xor: "crc_bit (a XOR b) = crc_bit a XOR crc_bit b"
  by (cases "odd a"; cases "odd b") (simp_all add: crc_bit_odd even_xor_iff xor.assoc xor.left_commute xor.commute)

lemma crc_bits_xor: "crc_bits n (a XOR b) = crc_bits n a XOR crc_bits n b"
  by (induction n arbitrary: a b) (simp_all add: crc_bit_xor)

lemma crc_bits_add: "crc_bits (m + n) c = crc_bits n (crc_bits m c)"
  by (induction m arbitrary: c) simp_all

lemma crc_bits_high: "take_bit n c = 0 \<Longrightarrow> crc_bits n c = drop_bit n c"
proof (induction n arbitrary: c)
  case (Suc n)
  have "\<not> bit (take_bit (Suc n) c) 0" using Suc.prems by simp
  then have "even c" by (simp add: bit_take_bit_iff bit_0)
  then have c: "crc_bit c = drop_bit 1 c" by (simp add: crc_bit_odd)
  have "take_bit n (drop_bit 1 c) = drop_bit 1 (take_bit (Suc n) c)"
    by (rule bit_word_eqI) (auto simp: bit_simps)
  then have "take_bit n (drop_bit 1 c) = 0" using Suc.prems by simp
  from Suc.IH [OF this] show ?case using c by (simp add: drop_bit_drop_bit)
qed simp

lemma crc_bits_split: "crc_bits n c = crc_bits n (take_bit n c) XOR drop_bit n c"
proof -
  have c: "c = take_bit n c XOR (c AND NOT (mask n))"
    by (rule bit_word_eqI) (auto simp: bit_simps)
  have "take_bit n (c AND NOT (mask n)) = 0" by (rule bit_word_eqI) (auto simp: bit_simps)
  then have h: "crc_bits n (c AND NOT (mask n)) = drop_bit n (c AND NOT (mask n))" by (rule crc_bits_high)
  have "drop_bit n (c AND NOT (mask n)) = drop_bit n c"
    by (rule bit_word_eqI) (auto simp: bit_simps dest: bit_imp_le_length)
  then show ?thesis using h by (subst c) (simp add: crc_bits_xor)
qed

text \<open>The small table has the values of four steps; the large table, row by row, the values of eight.\<close>

lemma table16_bits: "map (\<lambda>i. crc_bits 4 (of_nat i)) [0..<16] = ngx_crc32_table16"
  by code_simp

lemma table256_low: "map (\<lambda>i. crc_bits 8 (of_nat i)) [0..<16] = take 16 ngx_crc32_table256"
  by code_simp

lemma table256_rows:
  "concat (map (\<lambda>h. map (\<lambda>l. h XOR l) (take 16 ngx_crc32_table256)) ngx_crc32_table16) = ngx_crc32_table256"
  by (simp add: ngx_crc32_table256_def ngx_crc32_table16_def)

lemma concat_rows_nth:
  "(\<And>x. length (f x) = k) \<Longrightarrow> 0 < k \<Longrightarrow> i < k * length xs \<Longrightarrow> concat (map f xs) ! i = f (xs ! (i div k)) ! (i mod k)"
proof (induction xs arbitrary: i)
  case (Cons x xs)
  show ?case
  proof (cases "i < k")
    case True
    then show ?thesis using Cons.prems(1) by (simp add: nth_append)
  next
    case False
    have "concat (map f (x # xs)) ! i = concat (map f xs) ! (i - k)" using False Cons.prems(1) by (simp add: nth_append)
    also have "\<dots> = f (xs ! ((i - k) div k)) ! ((i - k) mod k)" using Cons.prems False by (intro Cons.IH) auto
    also have "\<dots> = f ((x # xs) ! (i div k)) ! (i mod k)"
      using False Cons.prems(2) by (simp add: le_div_geq le_mod_geq)
    finally show ?thesis .
  qed
qed simp

lemma unat_back: "of_nat (unat (w :: u32)) = w"
  by simp

lemma word_nibbles:
  fixes w :: u32
  shows "of_nat (unat w div 16) = drop_bit 4 w" and "of_nat (unat w mod 16) = take_bit 4 w"
proof -
  have "unat (drop_bit 4 w) = unat w div 2 ^ 4" by (rule trans [OF unat_drop_bit_eq drop_bit_eq_div])
  then have "unat w div 16 = unat (drop_bit 4 w)" by simp
  then show "of_nat (unat w div 16) = drop_bit 4 w" by (simp only: unat_back)
  have "unat (take_bit 4 w) = unat w mod 2 ^ 4" by (rule trans [OF unsigned_take_bit_eq take_bit_eq_mod])
  then have "unat w mod 16 = unat (take_bit 4 w)" by simp
  then show "of_nat (unat w mod 16) = take_bit 4 w" by (simp only: unat_back)
qed

lemma unat_take_bit_less: "unat (take_bit n (w :: u32)) < 2 ^ n"
  by (simp only: unsigned_take_bit_eq take_bit_nat_less_exp)

lemma table16_nth:
  assumes "unat w < 16"
  shows "ngx_crc32_table16 ! unat w = crc_bits 4 w"
  unfolding table16_bits [symmetric] using assms by simp

lemma table256_nth:
  assumes w: "unat w < 256"
  shows "ngx_crc32_table256 ! unat w = crc_bits 8 w"
proof -
  define h l where "h = unat w div 16" and "l = unat w mod 16"
  have hl: "h < 16" "l < 16" using w by (auto simp: h_def l_def)
  have len: "length ngx_crc32_table16 = 16" "length (take 16 ngx_crc32_table256) = 16"
    unfolding table16_bits [symmetric] table256_low [symmetric] by simp_all
  have "ngx_crc32_table256 ! unat w = (ngx_crc32_table16 ! h) XOR (take 16 ngx_crc32_table256 ! l)"
    unfolding h_def l_def using concat_rows_nth [of "\<lambda>h. map (\<lambda>l. h XOR l) (take 16 ngx_crc32_table256)" 16 "unat w" ngx_crc32_table16] len w
    by (simp only: table256_rows) simp
  also have "ngx_crc32_table16 ! h = crc_bits 4 (of_nat h)" unfolding table16_bits [symmetric] using hl by simp
  also have "take 16 ngx_crc32_table256 ! l = crc_bits 8 (of_nat l)" unfolding table256_low [symmetric] using hl by simp
  finally have t: "ngx_crc32_table256 ! unat w = crc_bits 4 (of_nat h) XOR crc_bits 8 (of_nat l)" .
  have hw: "of_nat h = drop_bit 4 w" unfolding h_def by (rule word_nibbles)
  have lw: "of_nat l = take_bit 4 w" unfolding l_def by (rule word_nibbles)
  have w': "w = take_bit 4 w XOR push_bit 4 (drop_bit 4 w)" by (rule bit_word_eqI) (auto simp: bit_simps)
  have "crc_bits 4 (push_bit 4 (drop_bit 4 w)) = drop_bit 4 (push_bit 4 (drop_bit 4 w))"
    by (rule crc_bits_high) (rule bit_word_eqI, auto simp: bit_simps)
  also have "\<dots> = drop_bit 4 w" by (rule bit_word_eqI) (auto simp: bit_simps dest: bit_imp_le_length)
  finally have "crc_bits (4 + 4) (push_bit 4 (drop_bit 4 w)) = crc_bits 4 (drop_bit 4 w)" unfolding crc_bits_add by simp
  then have "crc_bits 8 w = crc_bits 8 (take_bit 4 w) XOR crc_bits 4 (drop_bit 4 w)"
    by (subst w') (simp add: crc_bits_xor)
  then show ?thesis using t hw lw by (simp add: xor.commute)
qed

text \<open>A round of each loop is eight steps.\<close>

lemma short_byte:
  assumes c1: "c1 = ngx_crc32_table16 ! unat ((crc XOR ucast (c AND 0xf)) AND 0xf) XOR drop_bit 4 crc"
  shows "ngx_crc32_table16 ! unat ((c1 XOR ucast (drop_bit 4 c)) AND 0xf) XOR drop_bit 4 c1 = crc_bits 8 (crc XOR ucast (c :: byte))"
proof -
  have m: "w AND 0xf = take_bit 4 w" for w :: u32 by (simp add: take_bit_eq_mask mask_eq_exp_minus_1)
  have lt: "unat (take_bit 4 w) < 16" for w :: u32
    using unat_take_bit_less [of 4 w] by (simp del: take_bit_eq_mod)
  have nib: "ngx_crc32_table16 ! unat ((w XOR v) AND 0xf) XOR drop_bit 4 w = crc_bits 4 (w XOR v)" if v: "drop_bit 4 v = 0" for w v :: u32
  proof -
    have "ngx_crc32_table16 ! unat ((w XOR v) AND 0xf) = crc_bits 4 (take_bit 4 (w XOR v))"
      unfolding m by (rule table16_nth [OF lt])
    moreover have "drop_bit 4 w = drop_bit 4 (w XOR v)" using v by simp
    ultimately show ?thesis using crc_bits_split [of 4 "w XOR v"] by simp
  qed
  let ?lo = "ucast (c AND 0xf) :: u32" and ?hi = "ucast (drop_bit 4 c) :: u32"
  have f: "c AND 0xf = take_bit 4 c" by (simp add: take_bit_eq_mask mask_eq_exp_minus_1)
  have lo: "drop_bit 4 ?lo = 0" and hi: "drop_bit 4 ?hi = 0"
    unfolding f by (rule bit_word_eqI, auto simp: bit_simps dest: bit_imp_le_length)+
  have e: "ucast c = ?lo XOR push_bit 4 ?hi" unfolding f by (rule bit_word_eqI) (auto simp: bit_simps)
  have p: "crc_bits 4 (push_bit 4 ?hi) = ?hi"
  proof -
    have "crc_bits 4 (push_bit 4 ?hi) = drop_bit 4 (push_bit 4 ?hi)"
      by (rule crc_bits_high) (rule bit_word_eqI, auto simp: bit_simps)
    also have "\<dots> = ?hi" by (rule bit_word_eqI) (auto simp: bit_simps dest: bit_imp_le_length)
    finally show ?thesis .
  qed
  have "c1 = crc_bits 4 (crc XOR ?lo)" unfolding c1 by (rule nib [OF lo])
  then have "c1 XOR ?hi = crc_bits 4 (crc XOR ?lo XOR push_bit 4 ?hi)" using p by (simp add: crc_bits_xor xor.assoc)
  then have "crc_bits 4 (c1 XOR ?hi) = crc_bits (4 + 4) (crc XOR ucast c)" unfolding crc_bits_add e by (simp add: xor.assoc)
  then show ?thesis using nib [OF hi, of c1] by simp
qed

lemma short_loop_bits: "crc32_short_loop ngx_crc32_table16 crc p = crc_bytes crc p"
proof (induction p arbitrary: crc)
  case (Cons c p)
  show ?case unfolding crc32_short_loop.simps Let_def short_byte [OF refl] crc_bytes.simps by (rule Cons.IH)
qed simp

lemma long_byte: "ngx_crc32_table256 ! unat ((c XOR ucast b) AND 0xff) XOR drop_bit 8 c = crc_bits 8 (c XOR ucast (b :: byte))"
proof -
  have "(c XOR ucast b) AND 0xff = take_bit 8 (c XOR ucast b)" by (simp add: take_bit_eq_mask mask_eq_exp_minus_1)
  moreover have "unat (take_bit 8 (c XOR ucast b)) < 256" using unat_take_bit_less [of 8 "c XOR ucast b"] by simp
  moreover have "drop_bit 8 (c XOR ucast b) = drop_bit 8 c" by (rule bit_word_eqI) (auto simp: bit_simps dest: bit_imp_le_length)
  ultimately show ?thesis
    using table256_nth [of "take_bit 8 (c XOR ucast b)"] crc_bits_split [of 8 "c XOR ucast b"] by simp
qed

lemma long_loop_bits: "crc32_long_loop c p = crc_bytes c p"
proof (induction p arbitrary: c)
  case (Cons b p)
  show ?case unfolding crc32_long_loop.simps long_byte crc_bytes.simps by (rule Cons.IH)
qed simp

lemma update_long: "ngx_crc32_update c p = crc32_long_loop c p"
  by (induction p arbitrary: c) simp_all

lemma crc_bytes_append: "crc_bytes c (a @ b) = crc_bytes (crc_bytes c a) b"
  by (induction a arbitrary: c) simp_all

text \<open>The table at the start of the program, and \<open>ngx_crc32_table_init\<close> called any number of times, with any results of the
  allocator.\<close>

definition crc32_start :: "ptr \<Rightarrow> crc32_state" where
  "crc32_start a = \<lparr>crc32_table_short = a, crc32_short_words = ngx_crc32_table16\<rparr>"

fun crc32_inits :: "os_env \<Rightarrow> nat list \<Rightarrow> crc32_state \<Rightarrow> pool_mem \<Rightarrow> crc32_state \<times> pool_mem" where
  "crc32_inits os [] t s = (t, s)"
| "crc32_inits os (n # ns) t s = (case ngx_crc32_table_init os n t s of (_, t, s) \<Rightarrow> crc32_inits os ns t s)"

lemma table_init_words:
  "crc32_short_words t = ngx_crc32_table16 \<Longrightarrow> crc32_short_words (fst (snd (ngx_crc32_table_init os n t s))) = ngx_crc32_table16"
  by (auto simp: ngx_crc32_table_init_def Let_def split: prod.split)

lemma inits_words:
  "crc32_short_words t = ngx_crc32_table16 \<Longrightarrow> crc32_short_words (fst (crc32_inits os ns t s)) = ngx_crc32_table16"
proof (induction ns arbitrary: t s)
  case (Cons n ns)
  obtain r t' s' where e: "ngx_crc32_table_init os n t s = (r, t', s')" by (metis prod_cases3)
  then have "crc32_short_words t' = ngx_crc32_table16" using table_init_words [OF Cons.prems, of os n s] by simp
  from Cons.IH [OF this] show ?case using e by simp
qed simp

text \<open>
  C36. Equivalence of the table-driven functions with the bit-serial CRC-32: \<open>ngx_crc32_short\<close>, wherever
  \<open>ngx_crc32_table_init\<close> has moved its table to, \<open>ngx_crc32_long\<close>, and \<open>ngx_crc32_update\<close> on data in two pieces, all compute
  the CRC-32 of the reference, for every string.
\<close>

theorem crc32_tables:
  "ngx_crc32_short (fst (crc32_inits os ns (crc32_start a) s)) p = crc32 p \<and> ngx_crc32_long p = crc32 p \<and>
   ngx_crc32_final (ngx_crc32_update (ngx_crc32_update ngx_crc32_init p) q) = crc32 (p @ q)"
proof -
  have "crc32_short_words (fst (crc32_inits os ns (crc32_start a) s)) = ngx_crc32_table16"
    by (rule inits_words) (simp add: crc32_start_def)
  then show ?thesis
    by (simp add: ngx_crc32_short_def ngx_crc32_long_def ngx_crc32_final_def ngx_crc32_init_def crc32_def
        short_loop_bits long_loop_bits update_long crc_bytes_append)
qed

lemma table_aligned:
  assumes "k < 64" and "a < 2 ^ 64"
  shows "(of_nat a :: u64) AND NOT (of_nat (2 ^ k) - 1) = of_nat a \<longleftrightarrow> 2 ^ k dvd a"
proof -
  have "(of_nat a :: u64) AND NOT (of_nat (2 ^ k) - 1) = of_nat a \<longleftrightarrow> take_bit k (of_nat a :: u64) = 0"
  proof -
    have m: "(of_nat (2 ^ k) - 1 :: u64) = mask k" by (simp add: mask_eq_exp_minus_1)
    have "w AND NOT (mask k) = w \<longleftrightarrow> take_bit k w = 0" for w :: u64
      by (auto simp: bit_eq_iff bit_simps)
    then show ?thesis unfolding m by blast
  qed
  also have "\<dots> \<longleftrightarrow> unat (take_bit k (of_nat a :: u64)) = 0" by (simp only: unsigned_eq_0_iff)
  also have "unat (take_bit k (of_nat a :: u64)) = a mod 2 ^ k"
  proof -
    have u: "unat (of_nat a :: u64) = a" using assms by (simp add: unat_of_nat)
    have "unat (take_bit k (of_nat a :: u64)) = unat (of_nat a :: u64) mod 2 ^ k"
      by (rule trans [OF unsigned_take_bit_eq take_bit_eq_mod])
    then show ?thesis unfolding u .
  qed
  finally show ?thesis by (simp add: mod_eq_0_iff_dvd)
qed

lemma table_init_cases:
  assumes "k < 64" and "crc32_table_short t < 2 ^ 64"
  shows "ngx_crc32_table_init os (2 ^ k) t s =
    (if 2 ^ k dvd crc32_table_short t then (NGX_OK, t, s)
     else case ngx_alloc os (64 + 2 ^ k) s of (p, s) \<Rightarrow>
       if p = NULL then (NGX_ERROR, t, s)
       else (NGX_OK, \<lparr>crc32_table_short = ngx_align_ptr p (2 ^ k), crc32_short_words = ngx_crc32_table16\<rparr>, s))"
  unfolding ngx_crc32_table_init_def table_aligned [OF assms] by (simp add: Let_def split: prod.split)

text \<open>Where \<open>ngx_crc32_table_init\<close> succeeds the table is aligned to the cache line and, if it was moved, lies in the memory
  that was allocated; where it fails nothing has changed.\<close>

theorem table_init_aligned:
  assumes "k < 64" and "crc32_table_short t < 2 ^ 64" and "ngx_crc32_table_init os (2 ^ k) t s = (rc, t', s')"
  shows "rc = NGX_OK \<and> 2 ^ k dvd crc32_table_short t' \<and> (t' = t \<or> in_live s' (crc32_table_short t') 64)
    \<or> rc = NGX_ERROR \<and> t' = t \<and> s' = s"
proof (cases "2 ^ k dvd crc32_table_short t")
  case True
  then show ?thesis using assms by (simp add: table_init_cases)
next
  case False
  let ?p = "os_malloc os (live s) (64 + 2 ^ k)"
  have "?p \<le> ngx_align_ptr ?p (2 ^ k)" "ngx_align_ptr ?p (2 ^ k) + 64 \<le> ?p + (64 + 2 ^ k)"
  proof -
    have d: "n div 2 ^ k * 2 ^ k + n mod 2 ^ k = n" "n mod 2 ^ k < 2 ^ k" for n :: nat
      by (rule div_mult_mod_eq) simp
    show "?p \<le> ngx_align_ptr ?p (2 ^ k)" "ngx_align_ptr ?p (2 ^ k) + 64 \<le> ?p + (64 + 2 ^ k)"
      using d [of "?p + (2 ^ k - 1)"] unfolding ngx_align_ptr_def by linarith+
  qed
  then show ?thesis using assms False
    by (auto simp: table_init_cases ngx_alloc_def Let_def in_live_def ngx_align_ptr_def split: if_splits)
qed

text \<open>The check value of CRC-32.\<close>

lemma crc32_check: "crc32 (bytes ''123456789'') = 0xcbf43926"
  by code_simp

end
