(* ===== verification/Ngx_Http_Limit_Req.thy ===== *)
theory Ngx_Http_Limit_Req
  imports Ngx_Event_Timer Ngx_Queue Ngx_Crc32 "HOL-Library.List_Lexorder" "HOL-Library.Product_Lexorder"
begin

text \<open>
  Limiting the rate of requests, \<^verbatim>\<open>src/http/modules/ngx_http_limit_req_module.c\<close>: the handler with all that it calls, and the
  initialisation of the zone.  The module keeps one node per value of a variable, in a red-black tree by the CRC-32 and the
  value, and in a queue by the time of the last use.

  This theory has the functions, the invariant of the zone, and what the operations do to tree, queue and memory.  The
  specification and the properties are in \<^verbatim>\<open>Ngx_Http_Limit_Rate\<close>.
\<close>

section \<open>The functions\<close>

text \<open>\<open>ngx_http_limit_req_node_t\<close> without the colour and the links: they are the colour of the tree node that it overlays and a
  link of the queue, in the memories of these.  \<open>lr_data\<close> is the bytes from \<open>data\<close> to the end of the allocation.\<close>

record limit_req_node =
  lr_len :: u16
  lr_last :: u64
  lr_excess :: u64
  lr_data :: "byte list"

text \<open>The shared memory of a zone: the regions its slab pool has given out, the fields \<open>data\<close> and \<open>log_ctx\<close> of the pool, and of
  \<open>ngx_http_limit_req_shctx_t\<close> the tree with its nodes and the queue with its links.  The structure at \<open>sh\<close> has the tree
  in front, the sentinel behind 24 and the head of the queue behind 64 bytes; the links of a node are 40 bytes behind its start.\<close>

record limit_zone =
  lz_live :: "region list"
  lz_pool_data :: ptr
  lz_log_ctx :: ptr
  lz_tree :: ngx_rbtree
  lz_heap :: rbheap
  lz_queue :: qheap
  lz_nodes :: "ptr \<Rightarrow> limit_req_node"

text \<open>\<open>ngx_http_limit_req_ctx_t\<close>, without the pointer to the slab pool, which is that of the zone, and
  \<open>ngx_http_limit_req_conf_t\<close>, whose \<open>shm_zone\<close> is its \<open>data\<close>.\<close>

record limit_req_ctx =
  cx_sh :: ptr
  cx_rate :: u64
  cx_index :: ngx_int
  cx_var :: "byte list"

record limit_req_conf =
  lc_shm_zone :: "limit_req_ctx option"
  lc_burst :: u64
  lc_limit_log_level :: u64
  lc_delay_log_level :: u64
  lc_nodelay :: bool

abbreviation (input) sh_sentinel :: "ptr \<Rightarrow> ptr" where "sh_sentinel sh \<equiv> sh + 24"
abbreviation (input) sh_queue :: "ptr \<Rightarrow> ptr" where "sh_queue sh \<equiv> sh + 64"
abbreviation (input) lr_queue :: "ptr \<Rightarrow> ptr" where "lr_queue node \<equiv> node + 40"

text \<open>\<open>ngx_slab_alloc_locked\<close> of \<^verbatim>\<open>src/core/ngx_slab.c\<close> is a parameter, a function of the regions in use; what is relied on is \<open>slab_ok\<close> below.  Freeing what is not
  allocated is the value \<open>None\<close>.\<close>

type_synonym slab_alloc = "region list \<Rightarrow> nat \<Rightarrow> ptr"

definition zone_alloc :: "slab_alloc \<Rightarrow> nat \<Rightarrow> limit_zone \<Rightarrow> ptr \<times> limit_zone" where
  "zone_alloc slab sz z =
     (let p = slab (lz_live z) sz
      in if p = NULL then (NULL, z) else (p, z\<lparr>lz_live := (p, sz) # lz_live z\<rparr>))"

definition zone_free :: "ptr \<Rightarrow> limit_zone \<Rightarrow> limit_zone option" where
  "zone_free p z =
     (if p \<in> fst ` set (lz_live z) then Some (z\<lparr>lz_live := filter (\<lambda>r. fst r \<noteq> p) (lz_live z)\<rparr>) else None)"

text \<open>\<open>memcmp\<close>, and \<open>ngx_memn2cmp\<close> of \<^verbatim>\<open>src/core/ngx_string.c\<close>.\<close>

fun ngx_memcmp :: "byte list \<Rightarrow> byte list \<Rightarrow> nat \<Rightarrow> int" where
  "ngx_memcmp (a # s1) (b # s2) (Suc n) = (if a = b then ngx_memcmp s1 s2 n else int (unat a) - int (unat b))"
| "ngx_memcmp s1 s2 n = 0"

definition ngx_memn2cmp :: "byte list \<Rightarrow> byte list \<Rightarrow> nat \<Rightarrow> nat \<Rightarrow> int" where
  "ngx_memn2cmp s1 s2 n1 n2 =
     (let (n, z) = (if n1 \<le> n2 then (n1, -1) else (n2, 1));
          m = ngx_memcmp s1 s2 n
      in if m \<noteq> 0 \<or> n1 = n2 then m else z)"

text \<open>\<open>ngx_http_limit_req_rbtree_insert_value\<close>: the comparison that chooses \<open>p\<close>, and the loop.\<close>

definition limit_req_goes_left :: "(ptr \<Rightarrow> limit_req_node) \<Rightarrow> rbheap \<Rightarrow> ptr \<Rightarrow> ptr \<Rightarrow> bool" where
  "limit_req_goes_left N H node temp =
     (if nd_key (H node) < nd_key (H temp) then True
      else if nd_key (H node) > nd_key (H temp) then False
      else ngx_memn2cmp (lr_data (N node)) (lr_data (N temp)) (unat (lr_len (N node))) (unat (lr_len (N temp))) < 0)"

partial_function (option) ngx_http_limit_req_rbtree_insert_value ::
  "(ptr \<Rightarrow> limit_req_node) \<Rightarrow> ptr \<Rightarrow> ptr \<Rightarrow> ptr \<Rightarrow> rbheap \<Rightarrow> rbheap option" where
  "ngx_http_limit_req_rbtree_insert_value N temp node s H = do {
     _ \<leftarrow> rb_get nd_key node H;
     _ \<leftarrow> rb_get nd_key temp H;
     p \<leftarrow> (if limit_req_goes_left N H node temp then rb_get nd_left temp H else rb_get nd_right temp H);
     if p = s then rb_attach (limit_req_goes_left N H node temp) temp node s H
     else ngx_http_limit_req_rbtree_insert_value N p node s H }"

text \<open>The loop of \<open>ngx_http_limit_req_lookup\<close>, which ends at the node or at the sentinel.\<close>

partial_function (option) limit_req_find ::
  "(ptr \<Rightarrow> limit_req_node) \<Rightarrow> u64 \<Rightarrow> byte list \<Rightarrow> ptr \<Rightarrow> ptr \<Rightarrow> rbheap \<Rightarrow> ptr option" where
  "limit_req_find N hash data node s H =
     (if node = s then Some s
      else do {
        k \<leftarrow> rb_get nd_key node H;
        if hash < k then do { l \<leftarrow> rb_get nd_left node H; limit_req_find N hash data l s H }
        else if hash > k then do { r \<leftarrow> rb_get nd_right node H; limit_req_find N hash data r s H }
        else let rc = ngx_memn2cmp data (lr_data (N node)) (length data) (unat (lr_len (N node))) in
          if rc = 0 then Some node
          else if rc < 0 then do { l \<leftarrow> rb_get nd_left node H; limit_req_find N hash data l s H }
          else do { r \<leftarrow> rb_get nd_right node H; limit_req_find N hash data r s H } })"

declare ngx_http_limit_req_rbtree_insert_value.simps [code] limit_req_find.simps [code]

text \<open>The new excess: unsigned arithmetic of 64 bits, converted to \<open>ngx_int_t\<close> and not below zero.  \<open>now\<close> is
  \<open>tp->sec * 1000 + tp->msec\<close>.\<close>

definition limit_req_leak :: "u64 \<Rightarrow> u64 \<Rightarrow> u64 \<Rightarrow> u64 \<Rightarrow> u64" where
  "limit_req_leak rate now lst excess =
     (let ms = now - lst;
          excess = excess - rate * ngx_abs ms div 1000 + 1000
      in if sint excess < 0 then 0 else excess)"

definition ngx_http_limit_req_lookup ::
  "limit_req_ctx \<Rightarrow> u64 \<Rightarrow> u64 \<Rightarrow> u64 \<Rightarrow> byte list \<Rightarrow> limit_zone \<Rightarrow> (ngx_rc \<times> u64 \<times> limit_zone) option" where
  "ngx_http_limit_req_lookup ctx burst now hash data z = do {
     let s = tr_sentinel (lz_tree z);
     node \<leftarrow> limit_req_find (lz_nodes z) hash data (tr_root (lz_tree z)) s (lz_heap z);
     if node = s then Some (NGX_DECLINED, 0, z)
     else
       let lr = lz_nodes z node;
           z = z\<lparr>lz_queue := ngx_queue_insert_head (sh_queue (cx_sh ctx)) (lr_queue node) (ngx_queue_remove (lr_queue node) (lz_queue z))\<rparr>;
           excess = limit_req_leak (cx_rate ctx) now (lr_last lr) (lr_excess lr)
       in if excess > burst then Some (NGX_BUSY, excess, z)
          else
            let z = z\<lparr>lz_nodes := (lz_nodes z)(node := lr\<lparr>lr_excess := excess, lr_last := now\<rparr>)\<rparr>
            in Some (if excess \<noteq> 0 then NGX_AGAIN else NGX_OK, excess, z) }"

text \<open>The two tests of \<open>ngx_http_limit_req_expire\<close> that keep an entry, and the loop.\<close>

definition limit_req_fresh :: "u64 \<Rightarrow> u64 \<Rightarrow> limit_req_node \<Rightarrow> bool" where
  "limit_req_fresh rate now lr =
     (let ms = ngx_abs (now - lr_last lr)
      in if sint ms < 60000 then True
         else sint (lr_excess lr - rate * ms div 1000) > 0)"

function ngx_http_limit_req_expire :: "limit_req_ctx \<Rightarrow> u64 \<Rightarrow> nat \<Rightarrow> limit_zone \<Rightarrow> limit_zone option" where
  "ngx_http_limit_req_expire ctx now n z =
     (if n < 3 then
        if ngx_queue_empty (lz_queue z) (sh_queue (cx_sh ctx)) then Some z
        else
          let q = ngx_queue_last (lz_queue z) (sh_queue (cx_sh ctx));
              node = q - 40
          in if n \<noteq> 0 \<and> limit_req_fresh (cx_rate ctx) now (lz_nodes z node) then Some z
             else do {
               let z = z\<lparr>lz_queue := ngx_queue_remove q (lz_queue z)\<rparr>;
               (tree, H) \<leftarrow> ngx_rbtree_delete (lz_tree z) node (lz_heap z);
               z \<leftarrow> zone_free node (z\<lparr>lz_tree := tree, lz_heap := H\<rparr>);
               ngx_http_limit_req_expire ctx now (n + 1) z }
      else Some z)"
  by pat_completeness auto

termination by (relation "measure (\<lambda>(ctx, now, n, z). 3 - n)") auto

declare ngx_http_limit_req_expire.simps [simp del]

text \<open>The return value of a handler, and what the handler does to the request and its connection: the mark in the main
  request, the event handlers, the timer of the write event.\<close>

datatype http_rc = RC ngx_rc | Http_status nat

datatype req_handler = Other_handler | Ngx_http_test_reading | Ngx_http_limit_req_delay | Ngx_http_block_reading | Ngx_http_core_run_phases

record limit_request =
  rq_limit_req_set :: bool
  rq_read_event_handler :: req_handler
  rq_write_event_handler :: req_handler
  rq_write_timer :: "u64 option"
  rq_write_timedout :: bool

text \<open>\<open>ngx_http_limit_req_handler\<close>: the allocation of a node with the second try, the new entry, and the function.  The lock is
  held from \<open>ngx_http_limit_req_expire\<close> to the end of the changes.  The value of the variable and the result of
  \<open>ngx_handle_read_event\<close> are parameters; a division by zero is the value \<open>None\<close>.\<close>

definition limit_req_alloc :: "slab_alloc \<Rightarrow> limit_req_ctx \<Rightarrow> u64 \<Rightarrow> nat \<Rightarrow> limit_zone \<Rightarrow> (ptr \<times> limit_zone) option" where
  "limit_req_alloc slab ctx now n z =
     (let (node, z) = zone_alloc slab n z
      in if node = NULL
         then do {
           z \<leftarrow> ngx_http_limit_req_expire ctx now 0 z;
           Some (zone_alloc slab n z) }
         else Some (node, z))"

definition limit_req_enter :: "limit_req_ctx \<Rightarrow> u64 \<Rightarrow> u64 \<Rightarrow> byte list \<Rightarrow> ptr \<Rightarrow> limit_zone \<Rightarrow> limit_zone option" where
  "limit_req_enter ctx now hash data node z = do {
     H \<leftarrow> set_key node hash (lz_heap z);
     let lr = \<lparr>lr_len = ucast (of_nat (length data) :: byte), lr_last = now, lr_excess = 0, lr_data = data\<rparr>;
     let N = (lz_nodes z)(node := lr);
     (tree, H) \<leftarrow> ngx_rbtree_insert ((lz_tree z)\<lparr>tr_insert := ngx_http_limit_req_rbtree_insert_value N\<rparr>) node H;
     Some (z\<lparr>lz_tree := tree, lz_heap := H, lz_nodes := N,
       lz_queue := ngx_queue_insert_head (sh_queue (cx_sh ctx)) (lr_queue node) (lz_queue z)\<rparr>) }"

definition ngx_http_limit_req_handler ::
  "slab_alloc \<Rightarrow> crc32_state \<Rightarrow> limit_req_conf \<Rightarrow> (limit_request \<Rightarrow> ngx_int \<Rightarrow> byte list option) \<Rightarrow> u64 \<Rightarrow> ngx_rc \<Rightarrow>
   limit_request \<Rightarrow> limit_zone \<Rightarrow> (http_rc \<times> limit_request \<times> limit_zone) option" where
  "ngx_http_limit_req_handler slab tbl lrcf get_indexed_variable now read_event r z =
     (if rq_limit_req_set r then Some (RC NGX_DECLINED, r, z)
      else case lc_shm_zone lrcf of None \<Rightarrow> Some (RC NGX_DECLINED, r, z)
      | Some ctx \<Rightarrow>
        (case get_indexed_variable r (cx_index ctx) of None \<Rightarrow> Some (RC NGX_DECLINED, r, z)
         | Some data \<Rightarrow>
           if length data = 0 then Some (RC NGX_DECLINED, r, z)
           else if length data > 65535 then Some (RC NGX_DECLINED, r, z)
           else do {
             let r = r\<lparr>rq_limit_req_set := True\<rparr>;
             let hash = ucast (ngx_crc32_short tbl data);
             z \<leftarrow> ngx_http_limit_req_expire ctx now 1 z;
             (rc, excess, z) \<leftarrow> ngx_http_limit_req_lookup ctx (lc_burst lrcf) now hash data z;
             if rc = NGX_DECLINED then do {
               (node, z) \<leftarrow> limit_req_alloc slab ctx now (32 + 40 + length data) z;
               if node = NULL then Some (Http_status 503, r, z)
               else do {
                 z \<leftarrow> limit_req_enter ctx now hash data node z;
                 Some (RC NGX_DECLINED, r, z) } }
             else if rc = NGX_OK then Some (RC NGX_DECLINED, r, z)
             else if rc = NGX_BUSY then Some (Http_status 503, r, z)
             else if lc_nodelay lrcf then Some (RC NGX_DECLINED, r, z)
             else if read_event \<noteq> NGX_OK then Some (Http_status 500, r, z)
             else if cx_rate ctx = 0 then None
             else Some (RC NGX_AGAIN,
               r\<lparr>rq_read_event_handler := Ngx_http_test_reading, rq_write_event_handler := Ngx_http_limit_req_delay,
                  rq_write_timer := Some (excess * 1000 div cx_rate ctx)\<rparr>, z) }))"

text \<open>\<open>ngx_http_limit_req_delay\<close>, with the results of \<open>ngx_handle_write_event\<close> and \<open>ngx_handle_read_event\<close>.\<close>

datatype delay_action = Delay_nothing | Delay_finalize nat | Delay_run_phases

definition ngx_http_limit_req_delay :: "ngx_rc \<Rightarrow> ngx_rc \<Rightarrow> limit_request \<Rightarrow> delay_action \<times> limit_request" where
  "ngx_http_limit_req_delay write_event read_event r =
     (if \<not> rq_write_timedout r then (if write_event \<noteq> NGX_OK then Delay_finalize 500 else Delay_nothing, r)
      else
        let r = r\<lparr>rq_write_timedout := False\<rparr>
        in if read_event \<noteq> NGX_OK then (Delay_finalize 500, r)
           else (Delay_run_phases, r\<lparr>rq_read_event_handler := Ngx_http_block_reading,
                                     rq_write_event_handler := Ngx_http_core_run_phases\<rparr>))"

text \<open>\<open>ngx_http_limit_req_init_zone\<close>; the size of the name of the zone gives that of the text for the log, which is not modelled.\<close>

definition ngx_strcmp_eq :: "byte list \<Rightarrow> byte list \<Rightarrow> bool" where
  "ngx_strcmp_eq a b \<longleftrightarrow> takeWhile (\<lambda>c. c \<noteq> 0) a = takeWhile (\<lambda>c. c \<noteq> 0) b"

definition ngx_http_limit_req_init_zone ::
  "slab_alloc \<Rightarrow> nat \<Rightarrow> bool \<Rightarrow> limit_req_ctx option \<Rightarrow> limit_req_ctx \<Rightarrow> limit_zone \<Rightarrow> (ngx_rc \<times> limit_req_ctx \<times> limit_zone) option" where
  "ngx_http_limit_req_init_zone slab name_len shm_exists octx ctx z =
     (case octx of
        Some octx \<Rightarrow>
          if \<not> ngx_strcmp_eq (cx_var ctx) (cx_var octx) then Some (NGX_ERROR, ctx, z)
          else Some (NGX_OK, ctx\<lparr>cx_sh := cx_sh octx\<rparr>, z)
      | None \<Rightarrow>
          if shm_exists then Some (NGX_OK, ctx\<lparr>cx_sh := lz_pool_data z\<rparr>, z)
          else
            let (sh, z) = zone_alloc slab 80 z;
                ctx = ctx\<lparr>cx_sh := sh\<rparr>
            in if sh = NULL then Some (NGX_ERROR, ctx, z)
               else do {
                 let z = z\<lparr>lz_pool_data := sh\<rparr>;
                 (tree, H) \<leftarrow> ngx_rbtree_init (sh_sentinel sh) (ngx_http_limit_req_rbtree_insert_value (lz_nodes z)) (lz_heap z);
                 let z = z\<lparr>lz_tree := tree, lz_heap := H, lz_queue := ngx_queue_init (sh_queue sh) (lz_queue z)\<rparr>;
                 let (lg, z) = zone_alloc slab (22 + name_len) z;
                 let z = z\<lparr>lz_log_ctx := lg\<rparr>;
                 if lg = NULL then Some (NGX_ERROR, ctx, z) else Some (NGX_OK, ctx, z) })"

text \<open>The third of the functions that descend the tree: the interface of \<^verbatim>\<open>Ngx_Rbtree_Balance\<close> gives the insertion.\<close>

interpretation by_name: rb_descent "ngx_http_limit_req_rbtree_insert_value N" "limit_req_goes_left N" for N
  by unfold_locales (subst ngx_http_limit_req_rbtree_insert_value.simps, simp)

section \<open>The order of the nodes\<close>

text \<open>The value an entry stands for, and its place in the order.\<close>

definition lr_name :: "limit_req_node \<Rightarrow> byte list" where
  "lr_name lr = take (unat (lr_len lr)) (lr_data lr)"

definition lr_rank :: "(ptr \<Rightarrow> limit_req_node) \<Rightarrow> rbheap \<Rightarrow> ptr \<Rightarrow> u64 \<times> byte list" where
  "lr_rank N H p = (nd_key (H p), lr_name (N p))"

text \<open>\<open>ngx_memn2cmp\<close> is the lexicographic order of the two strings.\<close>

lemma memcmp_take: "n \<le> n1 \<Longrightarrow> n \<le> n2 \<Longrightarrow> ngx_memcmp (take n1 s1) (take n2 s2) n = ngx_memcmp s1 s2 n"
proof (induction s1 s2 n arbitrary: n1 n2 rule: ngx_memcmp.induct)
  case (1 a s1 b s2 n)
  then show ?case by (cases n1; cases n2) auto
qed (auto simp: take_Cons')

lemma memn2cmp_lists:
  "(ngx_memn2cmp xs ys (length xs) (length ys) < 0 \<longleftrightarrow> xs < ys) \<and> (ngx_memn2cmp xs ys (length xs) (length ys) = 0 \<longleftrightarrow> xs = ys)"
proof (induction xs ys rule: list_induct2')
  case (4 x xs y ys)
  have r: "ngx_memn2cmp (x # xs) (y # ys) (length (x # xs)) (length (y # ys)) =
      (if x = y then ngx_memn2cmp xs ys (length xs) (length ys) else int (unat x) - int (unat y))"
  proof (cases "x = y")
    case False
    then have "uint x \<noteq> uint y" by (metis word_uint_eq_iff)
    then show ?thesis using False by (simp add: ngx_memn2cmp_def Let_def)
  qed (simp add: ngx_memn2cmp_def Let_def)
  show ?case
  proof (cases "x = y")
    case True
    then show ?thesis unfolding r using 4 by simp
  next
    case False
    then have "uint x \<noteq> uint y" by (metis word_uint_eq_iff)
    then show ?thesis unfolding r using False by (auto simp: word_less_def)
  qed
qed (auto simp: ngx_memn2cmp_def)

lemma memn2cmp_lex:
  assumes "n1 \<le> length s1" "n2 \<le> length s2"
  shows "ngx_memn2cmp s1 s2 n1 n2 < 0 \<longleftrightarrow> take n1 s1 < take n2 s2" "ngx_memn2cmp s1 s2 n1 n2 = 0 \<longleftrightarrow> take n1 s1 = take n2 s2"
proof -
  have "ngx_memn2cmp s1 s2 n1 n2 = ngx_memn2cmp (take n1 s1) (take n2 s2) (length (take n1 s1)) (length (take n2 s2))"
    using assms by (simp add: ngx_memn2cmp_def memcmp_take Let_def)
  then show "ngx_memn2cmp s1 s2 n1 n2 < 0 \<longleftrightarrow> take n1 s1 < take n2 s2" "ngx_memn2cmp s1 s2 n1 n2 = 0 \<longleftrightarrow> take n1 s1 = take n2 s2"
    using memn2cmp_lists [of "take n1 s1" "take n2 s2"] by simp_all
qed

text \<open>The length of a node is within its allocation.  It never exceeds 255, see \<open>limit_req_long\<close>.\<close>

definition lr_ok :: "limit_req_node \<Rightarrow> bool" where
  "lr_ok lr \<longleftrightarrow> unat (lr_len lr) \<le> length (lr_data lr) \<and> unat (lr_len lr) < 256"

lemma goes_left_rank:
  assumes "lr_ok (N a)" "lr_ok (N b)"
  shows "limit_req_goes_left N H a b \<longleftrightarrow> lr_rank N H a < lr_rank N H b"
  using assms memn2cmp_lex(1) [of "unat (lr_len (N a))" "lr_data (N a)" "unat (lr_len (N b))" "lr_data (N b)"]
  by (auto simp: limit_req_goes_left_def lr_rank_def lr_name_def lr_ok_def)

text \<open>The search finds a node with the hash and the value if there is one.\<close>

lemma find_tree:
  assumes "tree_at s par (fill fs t) root H" and "sorted_wrt (\<lambda>a b. lr_rank N H a \<le> lr_rank N H b) (inord t)"
    and "\<And>p. p \<in> set (inord t) \<Longrightarrow> lr_ok (N p)"
  shows "\<exists>p. limit_req_find N hash data (rpt s t) s H = Some p \<and>
    (p \<in> set (inord t) \<and> p \<noteq> s \<and> lr_rank N H p = (hash, data) \<or> p = s \<and> (hash, data) \<notin> lr_rank N H ` set (inord t))"
  using assms
proof (induction t arbitrary: fs)
  case Lf
  then show ?case by (subst limit_req_find.simps) simp
next
  case (Nd c l a r)
  note f = focus [OF Nd(3)]
  have tl: "tree_at s par (fill (InLeft c a r # fs) l) root H" and tr: "tree_at s par (fill (InRight c l a # fs) r) root H"
    using Nd(3) by simp_all
  have s: "sorted_wrt (\<lambda>a b. lr_rank N H a \<le> lr_rank N H b) (inord l)" "sorted_wrt (\<lambda>a b. lr_rank N H a \<le> lr_rank N H b) (inord r)"
    "\<And>p. p \<in> set (inord l) \<Longrightarrow> lr_rank N H p \<le> lr_rank N H a" "\<And>p. p \<in> set (inord r) \<Longrightarrow> lr_rank N H a \<le> lr_rank N H p"
    using Nd(4) by (auto simp: sorted_wrt_append)
  have ok: "lr_ok (N a)" using Nd(5) by simp
  define rc where "rc = ngx_memn2cmp data (lr_data (N a)) (length data) (unat (lr_len (N a)))"
  have rc: "rc < 0 \<longleftrightarrow> data < lr_name (N a)" "rc = 0 \<longleftrightarrow> data = lr_name (N a)"
    using memn2cmp_lex [of "length data" data "unat (lr_len (N a))" "lr_data (N a)"] ok by (simp_all add: rc_def lr_name_def lr_ok_def)
  have step: "limit_req_find N hash data a s H =
    (if (hash, data) < lr_rank N H a then limit_req_find N hash data (rpt s l) s H
     else if (hash, data) = lr_rank N H a then Some a
     else limit_req_find N hash data (rpt s r) s H)"
  proof -
    have "limit_req_find N hash data a s H =
      (if hash < nd_key (H a) then limit_req_find N hash data (rpt s l) s H
       else if hash > nd_key (H a) then limit_req_find N hash data (rpt s r) s H
       else if rc = 0 then Some a else if rc < 0 then limit_req_find N hash data (rpt s l) s H
       else limit_req_find N hash data (rpt s r) s H)"
      unfolding rc_def using f(1-4) by (subst limit_req_find.simps) (simp add: Let_def)
    then show ?thesis unfolding rc by (simp add: lr_rank_def) (metis less_irrefl less_linear)
  qed
  consider "(hash, data) < lr_rank N H a" | "(hash, data) = lr_rank N H a" | "lr_rank N H a < (hash, data)" by (metis less_linear)
  then show ?case
  proof cases
    case 1
    then have "(hash, data) \<notin> lr_rank N H ` set (a # inord r)" using s(4) by force
    moreover obtain p where "limit_req_find N hash data (rpt s l) s H = Some p"
      "p \<in> set (inord l) \<and> p \<noteq> s \<and> lr_rank N H p = (hash, data) \<or> p = s \<and> (hash, data) \<notin> lr_rank N H ` set (inord l)"
      using Nd(1) [OF tl s(1)] Nd(5) by auto
    ultimately show ?thesis using step 1 by auto
  next
    case 2
    moreover have "a \<noteq> s" using f by simp
    ultimately show ?thesis using step by auto
  next
    case 3
    then have "(hash, data) \<notin> lr_rank N H ` set (a # inord l)" using s(3) by force
    moreover obtain p where "limit_req_find N hash data (rpt s r) s H = Some p"
      "p \<in> set (inord r) \<and> p \<noteq> s \<and> lr_rank N H p = (hash, data) \<or> p = s \<and> (hash, data) \<notin> lr_rank N H ` set (inord r)"
      using Nd(2) [OF tr s(2)] Nd(5) by auto
    ultimately show ?thesis using step 3 by auto
  qed
qed

section \<open>The invariant\<close>

text \<open>What is relied on from the slab allocator: an allocation fails or is apart from all regions in use.\<close>

definition slab_ok :: "slab_alloc \<Rightarrow> bool" where
  "slab_ok slab \<longleftrightarrow> (\<forall>L n. regions L \<longrightarrow> slab L n \<noteq> NULL \<longrightarrow> slab L n \<notin> fst ` set L \<and> regions ((slab L n, n) # L))"

text \<open>The invariant: the tree has the nodes \<open>xs\<close> sorted by hash and value, the queue has the same nodes in the order \<open>qs\<close>, from the
  last used on, and every node lies in a region of its own.\<close>

definition limit_hold :: "ptr \<Rightarrow> limit_zone \<Rightarrow> ptr list \<Rightarrow> ptr list \<Rightarrow> bool" where
  "limit_hold sh z xs qs \<longleftrightarrow>
    rb_holds (lz_tree z) (lz_heap z) xs \<and> tr_sentinel (lz_tree z) = sh_sentinel sh \<and>
    sorted_wrt (\<lambda>a b. lr_rank (lz_nodes z) (lz_heap z) a \<le> lr_rank (lz_nodes z) (lz_heap z) b) xs \<and>
    queue (lz_queue z) (sh_queue sh) (map (\<lambda>p. lr_queue p) qs) \<and> set qs = set xs \<and>
    lz_pool_data z = sh \<and> regions (lz_live z) \<and> (sh, 80) \<in> set (lz_live z) \<and> sh \<notin> set xs \<and>
    (\<forall>p \<in> set xs. lr_ok (lz_nodes z p) \<and> (p, 72 + length (lr_data (lz_nodes z p))) \<in> set (lz_live z))"

lemma hold_distinct:
  assumes "limit_hold sh z xs qs"
  shows "distinct xs" "distinct qs" "NULL \<notin> set xs" "sh_sentinel sh \<notin> set xs"
proof -
  have "rb_holds (lz_tree z) (lz_heap z) xs" using assms by (simp add: limit_hold_def)
  then have "distinct xs \<and> NULL \<notin> set xs \<and> tr_sentinel (lz_tree z) \<notin> set xs" using rb_holds_nodes by blast
  then show "distinct xs" "NULL \<notin> set xs" "sh_sentinel sh \<notin> set xs" using assms by (auto simp: limit_hold_def)
  have "distinct (map (\<lambda>p. lr_queue p) qs)" using assms by (auto simp: limit_hold_def queue_def)
  then show "distinct qs" by (simp add: distinct_map)
qed

lemma fresh_node:
  assumes "regions L" "p \<notin> fst ` set L" "regions ((p, n) # L)" "(sh, 80) \<in> set L" "64 \<le> n"
  shows "p \<noteq> sh_sentinel sh" "p \<noteq> sh" "p \<noteq> NULL" "lr_queue p \<noteq> sh_queue sh"
proof -
  show "p \<noteq> NULL" using assms(3) by (auto simp: regions_def)
  show "p \<noteq> sh" using assms(2,4) by force
  then have "rdisj (p, n) (sh, 80)" using assms(3,4) unfolding regions_def by simp
  then show "p \<noteq> sh_sentinel sh" "lr_queue p \<noteq> sh_queue sh" using assms(5) by (auto simp: rdisj_def)
qed

text \<open>The search, and the node that is found: it becomes the first of the queue.\<close>

lemma find_hold:
  assumes "limit_hold sh z xs qs"
  obtains p where "limit_req_find (lz_nodes z) hash data (tr_root (lz_tree z)) (tr_sentinel (lz_tree z)) (lz_heap z) = Some p"
    "p \<in> set xs \<and> p \<noteq> tr_sentinel (lz_tree z) \<and> lr_rank (lz_nodes z) (lz_heap z) p = (hash, data) \<or>
     p = tr_sentinel (lz_tree z) \<and> (hash, data) \<notin> lr_rank (lz_nodes z) (lz_heap z) ` set xs"
proof -
  obtain par t where t: "tree_at (tr_sentinel (lz_tree z)) par (fill [] t) (tr_root (lz_tree z)) (lz_heap z)" "inord t = xs"
    using assms by (auto simp: limit_hold_def rb_holds_def)
  then have "rpt (tr_sentinel (lz_tree z)) t = tr_root (lz_tree z)" by (simp add: tree_at_def)
  then show thesis using find_tree [OF t(1), of "lz_nodes z" hash data] assms t(2) that by (auto simp: limit_hold_def)
qed

definition limit_touch :: "ptr \<Rightarrow> limit_req_ctx \<Rightarrow> u64 \<Rightarrow> u64 \<Rightarrow> limit_zone \<Rightarrow> limit_zone" where
  "limit_touch p ctx burst now z =
    (let lr = lz_nodes z p; excess = limit_req_leak (cx_rate ctx) now (lr_last lr) (lr_excess lr);
         z = z\<lparr>lz_queue := ngx_queue_insert_head (sh_queue (cx_sh ctx)) (lr_queue p) (ngx_queue_remove (lr_queue p) (lz_queue z))\<rparr>
     in if excess > burst then z
        else z\<lparr>lz_nodes := (lz_nodes z)(p := lr\<lparr>lr_excess := excess, lr_last := now\<rparr>)\<rparr>)"

lemma rank_upd:
  "lr_len lr = lr_len (N p) \<Longrightarrow> lr_data lr = lr_data (N p) \<Longrightarrow> lr_rank (N(p := lr)) H a = lr_rank N H a"
  by (simp add: lr_rank_def lr_name_def)

lemma ok_upd:
  "lr_len lr = lr_len (N p) \<Longrightarrow> lr_data lr = lr_data (N p) \<Longrightarrow> lr_ok ((N(p := lr)) a) = lr_ok (N a)"
  "lr_data lr = lr_data (N p) \<Longrightarrow> lr_data ((N(p := lr)) a) = lr_data (N a)"
  by (simp_all add: lr_ok_def)

lemma touch_hold:
  assumes "limit_hold (cx_sh ctx) z xs (us @ p # vs)"
  shows "limit_hold (cx_sh ctx) (limit_touch p ctx burst now z) xs (p # us @ vs)"
proof -
  let ?q = "\<lambda>p. lr_queue p" and ?h = "sh_queue (cx_sh ctx)"
  have q: "queue (lz_queue z) ?h (map ?q us @ ?q p # map ?q vs)" using assms by (simp add: limit_hold_def)
  have "?q p \<notin> set (?h # map ?q us @ map ?q vs)" using q by (auto simp: queue_def)
  then have q': "queue (ngx_queue_insert_head ?h (?q p) (ngx_queue_remove (?q p) (lz_queue z))) ?h (map ?q (p # us @ vs))"
    using queue_insert_head [OF queue_remove [OF q]] by simp
  have s: "set (p # us @ vs) = set xs" using assms by (auto simp: limit_hold_def)
  show ?thesis using assms q' s unfolding limit_hold_def limit_touch_def Let_def
    by (cases "burst < limit_req_leak (cx_rate ctx) now (lr_last (lz_nodes z p)) (lr_excess (lz_nodes z p))")
      (simp_all add: rank_upd ok_upd del: fun_upd_apply)
qed

lemma lookup_hold:
  assumes "limit_hold (cx_sh ctx) z xs qs"
  obtains "(hash, data) \<notin> lr_rank (lz_nodes z) (lz_heap z) ` set xs"
      "ngx_http_limit_req_lookup ctx burst now hash data z = Some (NGX_DECLINED, 0, z)"
  | p us vs e where "qs = us @ p # vs" "lr_rank (lz_nodes z) (lz_heap z) p = (hash, data)"
      "e = limit_req_leak (cx_rate ctx) now (lr_last (lz_nodes z p)) (lr_excess (lz_nodes z p))"
      "ngx_http_limit_req_lookup ctx burst now hash data z =
        Some (if e > burst then NGX_BUSY else if e \<noteq> 0 then NGX_AGAIN else NGX_OK, e, limit_touch p ctx burst now z)"
proof -
  obtain p where p: "limit_req_find (lz_nodes z) hash data (tr_root (lz_tree z)) (tr_sentinel (lz_tree z)) (lz_heap z) = Some p"
    and c: "p \<in> set xs \<and> p \<noteq> tr_sentinel (lz_tree z) \<and> lr_rank (lz_nodes z) (lz_heap z) p = (hash, data) \<or>
     p = tr_sentinel (lz_tree z) \<and> (hash, data) \<notin> lr_rank (lz_nodes z) (lz_heap z) ` set xs"
    using find_hold [OF assms] by blast
  show thesis
  proof (cases "p = tr_sentinel (lz_tree z)")
    case True
    then show ?thesis using p c by (intro that(1)) (auto simp: ngx_http_limit_req_lookup_def Let_def)
  next
    case False
    then have "p \<in> set qs" using c assms by (auto simp: limit_hold_def)
    then obtain us vs where "qs = us @ p # vs" by (meson split_list)
    then show ?thesis using p c False
      by (intro that(2) [OF _ _ refl]) (auto simp: ngx_http_limit_req_lookup_def limit_touch_def Let_def)
  qed
qed

lemma regions_filter: "regions L \<Longrightarrow> regions (filter P L)"
  by (auto simp: regions_def)

text \<open>A round of \<open>ngx_http_limit_req_expire\<close> removes the last node of the queue from the queue, from the tree and from the memory.\<close>

lemma limit_expire_step:
  assumes h: "limit_hold (cx_sh ctx) z xs (us @ [p])" and n: "n < 3" "n = 0 \<or> \<not> limit_req_fresh (cx_rate ctx) now (lz_nodes z p)"
  obtains z' where "ngx_http_limit_req_expire ctx now n z = ngx_http_limit_req_expire ctx now (n + 1) z'"
    "limit_hold (cx_sh ctx) z' (remove1 p xs) us" "lz_nodes z' = lz_nodes z" "\<And>a. a \<noteq> p \<Longrightarrow> nd_key (lz_heap z' a) = nd_key (lz_heap z a)"
proof -
  let ?h = "sh_queue (cx_sh ctx)" and ?q = "\<lambda>p. lr_queue p"
  have q: "queue (lz_queue z) ?h (map ?q us @ ?q p # [])" and p: "p \<in> set xs" and rb: "rb_holds (lz_tree z) (lz_heap z) xs"
    using h by (auto simp: limit_hold_def)
  have l: "ngx_queue_last (lz_queue z) ?h = p + 40" "\<not> ngx_queue_empty (lz_queue z) ?h"
    using queue_last [OF q] queue_empty_iff [OF q] by simp_all
  obtain root' H' where d: "ngx_rbtree_delete (lz_tree z) p (lz_heap z) = Some ((lz_tree z)\<lparr>tr_root := root'\<rparr>, H')"
    "rb_holds ((lz_tree z)\<lparr>tr_root := root'\<rparr>) H' (remove1 p xs)" and k: "\<And>a. a \<noteq> p \<Longrightarrow> nd_key (H' a) = nd_key (lz_heap z a)"
    using delete_holds [OF rb p] by (auto simp: rb_drop_def)
  define z' where "z' = z\<lparr>lz_queue := ngx_queue_remove (p + 40) (lz_queue z), lz_tree := (lz_tree z)\<lparr>tr_root := root'\<rparr>, lz_heap := H',
    lz_live := filter (\<lambda>r. fst r \<noteq> p) (lz_live z)\<rparr>"
  have set: "set (remove1 p xs) = set xs - {p}" using hold_distinct(1) [OF h] by simp
  have "p \<in> fst ` set (lz_live z)" using h p by (force simp: limit_hold_def)
  then have e: "ngx_http_limit_req_expire ctx now n z = ngx_http_limit_req_expire ctx now (n + 1) z'"
    using n l d(1) by (subst ngx_http_limit_req_expire.simps) (auto simp: Let_def zone_free_def z'_def)
  have "sorted_wrt (\<lambda>a b. lr_rank (lz_nodes z) H' a \<le> lr_rank (lz_nodes z) H' b) (remove1 p xs)"
  proof (rule sorted_wrt_mono_rel)
    show "sorted_wrt (\<lambda>a b. lr_rank (lz_nodes z) (lz_heap z) a \<le> lr_rank (lz_nodes z) (lz_heap z) b) (remove1 p xs)"
      using h hold_distinct(1) [OF h] by (simp add: limit_hold_def distinct_remove1_removeAll removeAll_filter_not_eq sorted_wrt_filter)
  qed (use set k in \<open>auto simp: lr_rank_def\<close>)
  moreover have "queue (ngx_queue_remove (p + 40) (lz_queue z)) ?h (map ?q us)" using queue_remove [OF q] by simp
  moreover have "set us = set (remove1 p xs)" using h hold_distinct(2) [OF h] set by (auto simp: limit_hold_def)
  moreover have "cx_sh ctx \<noteq> p" using h p by (auto simp: limit_hold_def)
  ultimately have "limit_hold (cx_sh ctx) z' (remove1 p xs) us"
    using h d(2) set unfolding limit_hold_def z'_def by (auto simp: regions_filter)
  then show thesis using that [OF e] k by (simp add: z'_def)
qed

lemma expire_stop:
  assumes "limit_hold (cx_sh ctx) z xs qs"
    and "\<not> (n < 3 \<and> qs \<noteq> [] \<and> (n = 0 \<or> \<not> limit_req_fresh (cx_rate ctx) now (lz_nodes z (last qs))))"
  shows "ngx_http_limit_req_expire ctx now n z = Some z"
proof (cases "n < 3 \<and> qs \<noteq> []")
  case False
  then show ?thesis using assms(1) queue_empty_iff [of "lz_queue z" "sh_queue (cx_sh ctx)" "map (\<lambda>p. lr_queue p) qs"]
    by (subst ngx_http_limit_req_expire.simps) (auto simp: limit_hold_def)
next
  case True
  then have "ngx_queue_last (lz_queue z) (sh_queue (cx_sh ctx)) = last qs + 40"
    using assms(1) queue_last [of "lz_queue z" "sh_queue (cx_sh ctx)" "map (\<lambda>p. lr_queue p) qs"] by (auto simp: limit_hold_def last_map)
  then show ?thesis using True assms(2) by (subst ngx_http_limit_req_expire.simps) (auto simp: Let_def)
qed

text \<open>The nodes that remain.\<close>

function expired :: "u64 \<Rightarrow> u64 \<Rightarrow> (ptr \<Rightarrow> limit_req_node) \<Rightarrow> nat \<Rightarrow> ptr list \<Rightarrow> ptr list" where
  "expired rate now N n qs =
    (if n < 3 \<and> qs \<noteq> [] \<and> (n = 0 \<or> \<not> limit_req_fresh rate now (N (last qs))) then expired rate now N (n + 1) (butlast qs) else qs)"
  by pat_completeness auto

termination by (relation "measure (\<lambda>(rate, now, N, n, qs). 3 - n)") auto

declare expired.simps [simp del]

lemma expire_hold:
  assumes "limit_hold (cx_sh ctx) z xs qs"
  shows "\<exists>z' ys. ngx_http_limit_req_expire ctx now n z = Some z' \<and>
    limit_hold (cx_sh ctx) z' ys (expired (cx_rate ctx) now (lz_nodes z) n qs) \<and> set ys \<subseteq> set xs \<and>
    lz_nodes z' = lz_nodes z \<and> (\<forall>a \<in> set ys. nd_key (lz_heap z' a) = nd_key (lz_heap z a))"
  using assms
proof (induction "3 - n" arbitrary: n z xs qs)
  case 0
  then show ?case using expire_stop [OF 0(2), of n now] by (subst expired.simps) auto
next
  case (Suc m)
  let ?go = "n < 3 \<and> qs \<noteq> [] \<and> (n = 0 \<or> \<not> limit_req_fresh (cx_rate ctx) now (lz_nodes z (last qs)))"
  show ?case
  proof (cases ?go)
    case False
    then show ?thesis using expire_stop [OF Suc.prems False] Suc.prems by (subst expired.simps) auto
  next
    case True
    then have qs: "qs = butlast qs @ [last qs]" by simp
    have h: "limit_hold (cx_sh ctx) z xs (butlast qs @ [last qs])" using Suc.prems qs by simp
    obtain z1 where z1: "ngx_http_limit_req_expire ctx now n z = ngx_http_limit_req_expire ctx now (n + 1) z1"
      "limit_hold (cx_sh ctx) z1 (remove1 (last qs) xs) (butlast qs)" "lz_nodes z1 = lz_nodes z"
      "\<And>a. a \<noteq> last qs \<Longrightarrow> nd_key (lz_heap z1 a) = nd_key (lz_heap z a)"
      using limit_expire_step [OF h] True by blast
    have d: "last qs \<notin> set (remove1 (last qs) xs)" using hold_distinct(1) [OF h] by simp
    have "m = 3 - (n + 1)" using Suc(2) by simp
    from Suc(1) [OF this z1(2)] obtain z' ys where z': "ngx_http_limit_req_expire ctx now (n + 1) z1 = Some z'"
      "limit_hold (cx_sh ctx) z' ys (expired (cx_rate ctx) now (lz_nodes z1) (n + 1) (butlast qs))" "set ys \<subseteq> set (remove1 (last qs) xs)"
      "lz_nodes z' = lz_nodes z1" "\<forall>a \<in> set ys. nd_key (lz_heap z' a) = nd_key (lz_heap z1 a)" by blast
    have "expired (cx_rate ctx) now (lz_nodes z) n qs = expired (cx_rate ctx) now (lz_nodes z1) (n + 1) (butlast qs)"
      using True z1(3) by (subst expired.simps) simp
    moreover have "set ys \<subseteq> set xs" using z'(3) by (meson notin_set_remove1 subsetD subsetI)
    moreover have "\<forall>a \<in> set ys. nd_key (lz_heap z' a) = nd_key (lz_heap z a)" using z'(3,5) z1(4) d by (metis subsetD)
    ultimately show ?thesis using z1(1,3) z' by auto
  qed
qed

text \<open>The new entry.  The length is cut to eight bits.\<close>

definition limit_node :: "byte list \<Rightarrow> u64 \<Rightarrow> limit_req_node" where
  "limit_node data now = \<lparr>lr_len = ucast (of_nat (length data) :: byte), lr_last = now, lr_excess = 0, lr_data = data\<rparr>"

lemma node_data [simp]: "lr_data (limit_node data now) = data" "lr_last (limit_node data now) = now" "lr_excess (limit_node data now) = 0"
  by (simp_all add: limit_node_def)

lemma node_len: "unat (lr_len (limit_node data now)) = length data mod 256"
proof -
  have "unat (of_nat (length data) :: byte) < 2 ^ 16" by (rule less_trans [OF unsigned_less]) simp
  then have "unat (lr_len (limit_node data now)) = unat (of_nat (length data) :: byte)"
    by (simp only: limit_node_def limit_req_node.simps unsigned_ucast_eq) (simp add: take_bit_nat_eq_self)
  then show ?thesis by (simp add: unat_of_nat)
qed

lemma node_ok: "lr_ok (limit_node data now)" "lr_name (limit_node data now) = take (length data mod 256) data"
  by (simp_all add: lr_ok_def lr_name_def node_len)

lemma alloc_hold:
  assumes "slab_ok slab" "limit_hold sh z xs qs" "zone_alloc slab (72 + n) z = (p, z')" "p \<noteq> NULL"
  shows "limit_hold sh z' xs qs" "p \<notin> set xs" "p \<noteq> sh" "p \<noteq> sh_sentinel sh" "(p, 72 + n) \<in> set (lz_live z')"
    "lz_nodes z' = lz_nodes z" "lz_heap z' = lz_heap z"
proof -
  have r: "regions (lz_live z)" "(sh, 80) \<in> set (lz_live z)" using assms(2) by (simp_all add: limit_hold_def)
  have p: "p = slab (lz_live z) (72 + n)" "z' = z\<lparr>lz_live := (p, 72 + n) # lz_live z\<rparr>"
    using assms(3,4) by (auto simp: zone_alloc_def Let_def split: if_splits)
  then have s: "p \<notin> fst ` set (lz_live z)" "regions ((p, 72 + n) # lz_live z)" using assms(1,4) r(1) by (auto simp: slab_ok_def)
  show "p \<notin> set xs"
  proof
    assume "p \<in> set xs"
    then have "(p, 72 + length (lr_data (lz_nodes z p))) \<in> set (lz_live z)" using assms(2) by (simp add: limit_hold_def)
    then show False using s(1) by force
  qed
  show "p \<noteq> sh" "p \<noteq> sh_sentinel sh" using fresh_node [OF r(1) s r(2)] by simp_all
  show "limit_hold sh z' xs qs" using assms(2) s(2) p(2) by (auto simp: limit_hold_def)
  show "(p, 72 + n) \<in> set (lz_live z')" "lz_nodes z' = lz_nodes z" "lz_heap z' = lz_heap z" using p(2) by simp_all
qed

lemma enter_hold:
  assumes h: "limit_hold (cx_sh ctx) z xs qs" and p: "p \<notin> set xs" "p \<noteq> cx_sh ctx" "p \<noteq> sh_sentinel (cx_sh ctx)" "p \<noteq> NULL"
    and l: "(p, 72 + length data) \<in> set (lz_live z)"
  shows "\<exists>z' ys. limit_req_enter ctx now hash data p z = Some z' \<and> limit_hold (cx_sh ctx) z' ys (p # qs) \<and>
    lz_nodes z' = (lz_nodes z)(p := limit_node data now) \<and>
    (\<forall>a. nd_key (lz_heap z' a) = (if a = p then hash else nd_key (lz_heap z a)))"
proof -
  let ?h = "sh_queue (cx_sh ctx)" and ?q = "\<lambda>p. lr_queue p"
  define N where "N = (lz_nodes z)(p := limit_node data now)"
  define H where "H = (lz_heap z)(p := (lz_heap z p)\<lparr>nd_key := hash\<rparr>)"
  let ?t = "(lz_tree z)\<lparr>tr_insert := ngx_http_limit_req_rbtree_insert_value N\<rparr>" and ?lt = "\<lambda>a. limit_req_goes_left N H p a"
  let ?rank = "\<lambda>a. lr_rank N H a"
  have hz: "rb_holds (lz_tree z) (lz_heap z) xs" "tr_sentinel (lz_tree z) = sh_sentinel (cx_sh ctx)" using h by (simp_all add: limit_hold_def)
  then have hz': "rb_holds ?t (lz_heap z) xs" by (simp add: rb_holds_def)
  have hH: "rb_holds ?t H xs" unfolding H_def by (rule rb_holds_upd [OF hz' p(1)]) (use p(3) hz(2) in simp)
  have rk: "?rank a = lr_rank (lz_nodes z) (lz_heap z) a" if "a \<noteq> p" for a using that by (simp add: lr_rank_def N_def H_def)
  have so: "sorted_wrt (\<lambda>a b. ?rank a \<le> ?rank b) xs"
  proof (rule sorted_wrt_mono_rel)
    show "sorted_wrt (\<lambda>a b. lr_rank (lz_nodes z) (lz_heap z) a \<le> lr_rank (lz_nodes z) (lz_heap z) b) xs"
      using h by (simp add: limit_hold_def)
  qed (metis p(1) rk)
  have okN: "lr_ok (N a)" if "a \<in> insert p (set xs)" for a using that h by (auto simp: N_def node_ok limit_hold_def)
  have lt: "?lt a \<longleftrightarrow> ?rank p < ?rank a" if "a \<in> set xs" for a using goes_left_rank [of N p a H] okN that by simp
  have ins: "tr_insert ?t = ngx_http_limit_req_rbtree_insert_value N" by simp
  have "p \<noteq> tr_sentinel ?t" using p(3) hz(2) by simp
  from by_name.insert_holds [OF hH ins p(1) this p(4) sorted_lt [OF so lt]] obtain root' H' where
    r: "ngx_rbtree_insert ?t p H = Some (?t\<lparr>tr_root := root'\<rparr>, H')" "rb_holds (?t\<lparr>tr_root := root'\<rparr>) H' (place ?lt p xs)"
    and k: "\<And>a. nd_key (H' a) = nd_key (H a)" unfolding rb_frame_def by blast
  have rk': "lr_rank N H' = lr_rank N H" using k by (simp add: lr_rank_def fun_eq_iff)
  define z' where "z' = z\<lparr>lz_tree := ?t\<lparr>tr_root := root'\<rparr>, lz_heap := H', lz_nodes := N, lz_queue := ngx_queue_insert_head ?h (?q p) (lz_queue z)\<rparr>"
  have "limit_req_enter ctx now hash data p z = Some z'" using r(1) p(4)
    by (simp add: limit_req_enter_def z'_def N_def H_def limit_node_def Let_def)
  moreover have "limit_hold (cx_sh ctx) z' (place ?lt p xs) (p # qs)"
  proof -
    have "p \<notin> set qs" "p + 40 \<noteq> cx_sh ctx + 64" using h p(1,3) by (auto simp: limit_hold_def)
    then have "?q p \<notin> set (?h # map ?q qs)" by auto
    then have "queue (ngx_queue_insert_head ?h (?q p) (lz_queue z)) ?h (map ?q (p # qs))"
      using queue_insert_head [of "lz_queue z" ?h "map ?q qs" "?q p"] h by (simp add: limit_hold_def)
    moreover have "sorted_wrt (\<lambda>a b. lr_rank N H' a \<le> lr_rank N H' b) (place ?lt p xs)" unfolding rk' by (rule sorted_place [OF so lt])
    moreover have "\<forall>a \<in> insert p (set xs). lr_ok (N a) \<and> (a, 72 + length (lr_data (N a))) \<in> set (lz_live z)"
      using okN h l p(1) by (auto simp: N_def limit_hold_def)
    ultimately show ?thesis using h r(2) p(2) unfolding limit_hold_def z'_def by simp
  qed
  moreover have "nd_key (lz_heap z' a) = (if a = p then hash else nd_key (lz_heap z a))" for a by (simp add: z'_def k H_def)
  ultimately show ?thesis by (intro exI [of _ z'] exI [of _ "place ?lt p xs"]) (simp add: z'_def N_def)
qed

end
