(* ===== verification/Ngx_Http_Limit_Rate.thy ===== *)
theory Ngx_Http_Limit_Rate
  imports Ngx_Http_Limit_Req
begin

text \<open>
  The handler of \<^verbatim>\<open>src/http/modules/ngx_http_limit_req_module.c\<close> as a whole.

  Shown: from a new zone on, requests with values of up to 255 bytes are answered as leaky buckets in natural numbers say; the rate of the admitted requests is
  bounded by the configuration in every window of such a run; every reachable zone is consistent and the handler returns.
  Values of more than 255 bytes are never limited, and a rate of zero divides by zero.
\<close>

section \<open>The specification: leaky buckets\<close>

text \<open>A bucket has a name, an excess in thousandths of a request and the time of the last request, in natural numbers.  The list of
  the buckets starts with the last used one.  \<open>m1\<close> and \<open>m2\<close> say whether there was memory at the first and the second try.\<close>

type_synonym bucket = "byte list \<times> nat \<times> nat"

definition gap :: "nat \<Rightarrow> nat \<Rightarrow> nat" where
  "gap a b = (a - b) + (b - a)"

definition spec_leak :: "nat \<Rightarrow> nat \<Rightarrow> nat \<Rightarrow> nat \<Rightarrow> nat" where
  "spec_leak rate now l e = e + 1000 - rate * gap now l div 1000"

definition spec_idle :: "nat \<Rightarrow> nat \<Rightarrow> bucket \<Rightarrow> bool" where
  "spec_idle rate now b = (case b of (_, e, l) \<Rightarrow> 60000 \<le> gap now l \<and> e \<le> rate * gap now l div 1000)"

function spec_expire :: "nat \<Rightarrow> nat \<Rightarrow> nat \<Rightarrow> bucket list \<Rightarrow> bucket list" where
  "spec_expire rate now n es =
    (if n < 3 \<and> es \<noteq> [] \<and> (n = 0 \<or> spec_idle rate now (last es)) then spec_expire rate now (n + 1) (butlast es) else es)"
  by pat_completeness auto

termination by (relation "measure (\<lambda>(rate, now, n, es). 3 - n)") auto

declare spec_expire.simps [simp del]

datatype verdict = Accept | Delay nat | Reject

definition spec_request :: "nat \<Rightarrow> nat \<Rightarrow> nat \<Rightarrow> byte list \<Rightarrow> bool \<Rightarrow> bool \<Rightarrow> bucket list \<Rightarrow> verdict \<times> bucket list" where
  "spec_request rate burst now name m1 m2 es =
    (let es = spec_expire rate now 1 es
     in case find (\<lambda>b. fst b = name) es of
          Some (_, e, l) \<Rightarrow>
            let e' = spec_leak rate now l e; rest = filter (\<lambda>b. fst b \<noteq> name) es
            in if e' > burst then (Reject, (name, e, l) # rest)
               else (if e' = 0 then Accept else Delay e', (name, e', now) # rest)
        | None \<Rightarrow>
            if m1 then (Accept, (name, 0, now) # es)
            else let es = spec_expire rate now 0 es
                 in if m2 then (Accept, (name, 0, now) # es) else (Reject, es))"

text \<open>The arithmetic of the code is that of the specification where times, rate and burst keep it within 62 bits.\<close>

lemma sint_small:
  assumes "unat (w :: u64) < 2 ^ 62"
  shows "sint w = int (unat w)"
proof -
  have "int (unat w) < int (2 ^ 62)" using assms by (simp only: of_nat_less_iff)
  then have u: "uint w < 2 ^ 62" by simp
  have "sint w = signed_take_bit 63 (uint w)" by (simp add: sint_uint)
  also have "\<dots> = uint w" by (rule signed_take_bit_int_eq_self) (use u in \<open>auto intro: order_trans [OF _ uint_ge_0]\<close>)
  finally show ?thesis by simp
qed

lemma sint_sub_small:
  assumes a: "unat (a :: u64) < 2 ^ 62" and b: "unat b < 2 ^ 62"
  shows "sint (a - b) = int (unat a) - int (unat b)"
proof -
  have "\<bar>int (unat a)\<bar> < int (2 ^ 62)" "\<bar>int (unat b)\<bar> < int (2 ^ 62)" using a b by (simp_all only: abs_of_nat of_nat_less_iff)
  then show ?thesis using sint_diff [of a b] unfolding sint_small [OF a] sint_small [OF b] by simp
qed

lemma unat_diff:
  assumes "unat (a :: u64) < 2 ^ 62" "unat b < 2 ^ 62"
  shows "unat (ngx_abs (a - b)) = gap (unat a) (unat b)" "sint (ngx_abs (a - b)) = int (gap (unat a) (unat b))"
proof -
  note s = sint_small
  have d: "0 \<le> sint (a - b) \<longleftrightarrow> unat b \<le> unat a" unfolding sint_sub_small [OF assms] by linarith
  show u: "unat (ngx_abs (a - b)) = gap (unat a) (unat b)"
  proof (cases "unat b \<le> unat a")
    case True
    then show ?thesis using d by (simp add: ngx_abs_def gap_def unat_sub word_le_nat_alt)
  next
    case False
    then show ?thesis using d by (simp add: ngx_abs_def gap_def unat_sub word_le_nat_alt)
  qed
  have "gap (unat a) (unat b) < 2 ^ 62" using assms by (auto simp: gap_def)
  then show "sint (ngx_abs (a - b)) = int (gap (unat a) (unat b))" using s [of "ngx_abs (a - b)"] u by simp
qed

lemma leak_spec:
  assumes "unat now < T" "unat l < T" "T \<le> 2 ^ 62" "unat rate * T < 2 ^ 62" "unat e < 2 ^ 62 - 1000"
  shows "unat (limit_req_leak rate now l e) = spec_leak (unat rate) (unat now) (unat l) (unat e)"
    "0 < sint (e - rate * ngx_abs (now - l) div 1000) \<longleftrightarrow> unat rate * gap (unat now) (unat l) div 1000 < unat e"
proof -
  let ?g = "gap (unat now) (unat l)"
  have g: "unat (ngx_abs (now - l)) = ?g" using unat_diff(1) assms by simp
  have "?g \<le> T" using assms(1,2) by (auto simp: gap_def)
  then have "unat rate * ?g \<le> unat rate * T" by simp
  then have b: "unat rate * ?g < 2 ^ 62" using assms(4) by linarith
  have m: "unat (rate * ngx_abs (now - l)) = unat rate * ?g" using b g by (subst unat_mult_lem [THEN iffD1]) simp_all
  define x where "x = rate * ngx_abs (now - l) div 1000"
  have x: "unat x = unat rate * ?g div 1000" unfolding x_def using m by (simp add: unat_div)
  note s = sint_small
  have xb: "unat x < 2 ^ 62" unfolding x using b div_le_dividend [of "unat rate * ?g" 1000] by linarith
  have "sint (e - x) = int (unat e) - int (unat x)"
    by (rule sint_sub_small) (use assms(5) xb in simp_all)
  then show "0 < sint (e - rate * ngx_abs (now - l) div 1000) \<longleftrightarrow> unat rate * gap (unat now) (unat l) div 1000 < unat e"
    unfolding x_def [symmetric] x [symmetric] by linarith
  have "unat (e + 1000) = unat e + 1000" using assms(5) by (subst unat_add_lem [THEN iffD1]) simp_all
  then have "sint (e - x + 1000) = int (unat e) + 1000 - int (unat x)"
    using sint_sub_small [of "e + 1000" x] assms(5) xb by (simp add: algebra_simps)
  then have f: "sint (e - x + 1000) < 0 \<longleftrightarrow> unat e + 1000 < unat x" by linarith
  show "unat (limit_req_leak rate now l e) = spec_leak (unat rate) (unat now) (unat l) (unat e)"
  proof (cases "unat x \<le> unat e + 1000")
    case True
    have "unat (e + 1000 - x) = unat (e + 1000) - unat x" using True \<open>unat (e + 1000) = unat e + 1000\<close>
      by (intro unat_sub) (simp add: word_le_nat_alt)
    then show ?thesis using f True \<open>unat (e + 1000) = unat e + 1000\<close> x
      by (simp add: limit_req_leak_def spec_leak_def Let_def x_def [symmetric] algebra_simps)
  next
    case False
    then show ?thesis using f x by (simp add: limit_req_leak_def spec_leak_def Let_def x_def [symmetric])
  qed
qed

definition bucket_of :: "limit_req_node \<Rightarrow> bucket" where
  "bucket_of lr = (lr_name lr, unat (lr_excess lr), unat (lr_last lr))"

lemma idle_spec:
  assumes "unat now < T" "unat (lr_last lr) < T" "T \<le> 2 ^ 62" "unat rate * T < 2 ^ 62" "unat (lr_excess lr) < 2 ^ 62 - 1000"
  shows "\<not> limit_req_fresh rate now lr \<longleftrightarrow> spec_idle (unat rate) (unat now) (bucket_of lr)"
  using unat_diff(2) [of now "lr_last lr"] leak_spec(2) [OF assms] assms(1-3)
  by (auto simp: limit_req_fresh_def spec_idle_def bucket_of_def Let_def)

section \<open>Refinement\<close>

text \<open>The bounds: all times are below \<open>T\<close> milliseconds.  Today that is about \<open>2 ^ 41\<close>, which leaves \<open>2 ^ 21\<close> for the rate, two thousand
  requests per second; a higher rate is right as long as no bucket was idle for as long.\<close>

definition limits :: "nat \<Rightarrow> nat \<Rightarrow> nat \<Rightarrow> bool" where
  "limits rate burst T \<longleftrightarrow> T \<le> 2 ^ 62 \<and> rate * T < 2 ^ 62 \<and> burst < 2 ^ 62 - 1000"

text \<open>The zone stands for the buckets \<open>es\<close>.\<close>

definition limit_abs :: "ptr \<Rightarrow> nat \<Rightarrow> nat \<Rightarrow> limit_zone \<Rightarrow> bucket list \<Rightarrow> bool" where
  "limit_abs sh burst T z es \<longleftrightarrow>
    (\<exists>xs qs. limit_hold sh z xs qs \<and> es = map (\<lambda>p. bucket_of (lz_nodes z p)) qs \<and>
      (\<forall>p \<in> set xs. nd_key (lz_heap z p) = ucast (crc32 (lr_name (lz_nodes z p))))) \<and>
    distinct (map fst es) \<and> (\<forall>b \<in> set es. fst (snd b) \<le> burst \<and> snd (snd b) < T)"

lemma limit_absI:
  assumes "limit_hold sh z xs qs" "es = map (\<lambda>p. bucket_of (lz_nodes z p)) qs"
    "\<forall>p \<in> set xs. nd_key (lz_heap z p) = ucast (crc32 (lr_name (lz_nodes z p)))"
    "distinct (map fst es)" "\<forall>b \<in> set es. fst (snd b) \<le> burst \<and> snd (snd b) < T"
  shows "limit_abs sh burst T z es"
  unfolding limit_abs_def using assms by blast

lemma expired_spec:
  assumes "limits (unat rate) burst T" "unat now < T" "\<forall>p \<in> set qs. unat (lr_excess (N p)) \<le> burst \<and> unat (lr_last (N p)) < T"
  shows "map (\<lambda>p. bucket_of (N p)) (expired rate now N n qs) = spec_expire (unat rate) (unat now) n (map (\<lambda>p. bucket_of (N p)) qs)"
  using assms(3)
proof (induction "3 - n" arbitrary: n qs)
  case 0
  then show ?case by (subst expired.simps, subst spec_expire.simps) simp
next
  case (Suc m)
  show ?case
  proof (cases "qs = []")
    case True
    then show ?thesis by (subst expired.simps, subst spec_expire.simps) simp
  next
    case False
    then have "\<not> limit_req_fresh rate now (N (last qs)) \<longleftrightarrow> spec_idle (unat rate) (unat now) (bucket_of (N (last qs)))"
      using Suc.prems assms(1,2) by (intro idle_spec [of now T]) (auto simp: limits_def intro: le_less_trans)
    moreover have "\<forall>p \<in> set (butlast qs). unat (lr_excess (N p)) \<le> burst \<and> unat (lr_last (N p)) < T"
      using Suc.prems by (auto dest: in_set_butlastD)
    ultimately show ?thesis using Suc(1) [of "n + 1" "butlast qs"] Suc(2) False
      by (subst expired.simps, subst spec_expire.simps) (simp add: last_map map_butlast)
  qed
qed

lemma spec_expire_take: "\<exists>k. spec_expire rate now n es = take k es"
proof (induction rate now n es rule: spec_expire.induct)
  case (1 rate now n es)
  show ?case
  proof (cases "n < 3 \<and> es \<noteq> [] \<and> (n = 0 \<or> spec_idle rate now (last es))")
    case True
    then obtain k where "spec_expire rate now (n + 1) (butlast es) = take k (butlast es)" using 1 by blast
    then have "spec_expire rate now n es = take (min k (length es - 1)) es" using True
      by (subst spec_expire.simps) (simp add: butlast_conv_take min.commute)
    then show ?thesis by blast
  next
    case False
    then have "spec_expire rate now n es = take (length es) es" by (subst spec_expire.simps) auto
    then show ?thesis by blast
  qed
qed

lemma expire_abs:
  assumes "limits (unat (cx_rate ctx)) burst T" "unat now < T" "limit_abs (cx_sh ctx) burst T z es"
  shows "\<exists>z'. ngx_http_limit_req_expire ctx now n z = Some z' \<and>
    limit_abs (cx_sh ctx) burst T z' (spec_expire (unat (cx_rate ctx)) (unat now) n es)"
proof -
  let ?b = "\<lambda>z p. bucket_of (lz_nodes z p)"
  obtain xs qs where h: "limit_hold (cx_sh ctx) z xs qs" "es = map (?b z) qs"
    and k: "\<And>p. p \<in> set xs \<Longrightarrow> nd_key (lz_heap z p) = ucast (crc32 (lr_name (lz_nodes z p)))"
    using assms(3) by (auto simp: limit_abs_def)
  obtain z' ys where z': "ngx_http_limit_req_expire ctx now n z = Some z'"
    "limit_hold (cx_sh ctx) z' ys (expired (cx_rate ctx) now (lz_nodes z) n qs)" "set ys \<subseteq> set xs"
    "lz_nodes z' = lz_nodes z" "\<forall>a \<in> set ys. nd_key (lz_heap z' a) = nd_key (lz_heap z a)"
    using expire_hold [OF h(1)] by blast
  have "\<forall>p \<in> set qs. unat (lr_excess (lz_nodes z p)) \<le> burst \<and> unat (lr_last (lz_nodes z p)) < T"
    using assms(3) h(2) by (auto simp: limit_abs_def bucket_of_def)
  from expired_spec [OF assms(1,2) this, of n] have m: "spec_expire (unat (cx_rate ctx)) (unat now) n es =
      map (?b z') (expired (cx_rate ctx) now (lz_nodes z) n qs)" using h(2) z'(4) by simp
  have k': "\<forall>p \<in> set ys. nd_key (lz_heap z' p) = ucast (crc32 (lr_name (lz_nodes z' p)))" using z'(3,4,5) k by auto
  obtain j where "spec_expire (unat (cx_rate ctx)) (unat now) n es = take j es" using spec_expire_take by blast
  then have "distinct (map fst (spec_expire (unat (cx_rate ctx)) (unat now) n es)) \<and>
      (\<forall>b \<in> set (spec_expire (unat (cx_rate ctx)) (unat now) n es). fst (snd b) \<le> burst \<and> snd (snd b) < T)"
    using assms(3) by (auto simp: limit_abs_def take_map [symmetric] dest: in_set_takeD)
  then show ?thesis using z'(1,2) m k' unfolding limit_abs_def by blast
qed

lemma abs_rank:
  assumes "limit_hold sh z xs qs" "\<forall>p \<in> set xs. nd_key (lz_heap z p) = ucast (crc32 (lr_name (lz_nodes z p)))" "p \<in> set qs"
  shows "lr_rank (lz_nodes z) (lz_heap z) p = (ucast (crc32 data), data) \<longleftrightarrow> lr_name (lz_nodes z p) = data"
  using assms by (auto simp: lr_rank_def limit_hold_def)

lemma touch_buckets:
  assumes "p \<notin> set us" "p \<notin> set vs"
  shows "map (\<lambda>a. bucket_of (lz_nodes (limit_touch p ctx burst now z) a)) (p # us @ vs) =
    (let lr = lz_nodes z p; e = limit_req_leak (cx_rate ctx) now (lr_last lr) (lr_excess lr)
     in (if e > burst then bucket_of lr else (lr_name lr, unat e, unat now)) # map (\<lambda>a. bucket_of (lz_nodes z a)) (us @ vs))"
  using assms by (auto simp: limit_touch_def Let_def bucket_of_def lr_name_def)

lemma touch_keeps: "lz_heap (limit_touch p ctx burst now z) = lz_heap z" "lr_name (lz_nodes (limit_touch p ctx burst now z) a) = lr_name (lz_nodes z a)"
  by (auto simp: limit_touch_def Let_def lr_name_def)

lemma find_app: "find P (xs @ ys) = (case find P xs of None \<Rightarrow> find P ys | Some x \<Rightarrow> Some x)"
  by (induction xs) auto

text \<open>The lookup, and its effect on the buckets.\<close>

lemma lookup_abs:
  assumes l: "limits (unat (cx_rate ctx)) (unat burst) T" and now: "unat now < T" and a: "limit_abs (cx_sh ctx) (unat burst) T z es"
  obtains "find (\<lambda>b. fst b = data) es = None"
      "ngx_http_limit_req_lookup ctx burst now (ucast (crc32 data)) data z = Some (NGX_DECLINED, 0, z)"
  | n e l e' z' where "find (\<lambda>b. fst b = data) es = Some (n, e, l)" "unat e' = spec_leak (unat (cx_rate ctx)) (unat now) l e"
      "ngx_http_limit_req_lookup ctx burst now (ucast (crc32 data)) data z =
        Some (if e' > burst then NGX_BUSY else if e' \<noteq> 0 then NGX_AGAIN else NGX_OK, e', z')"
      "limit_abs (cx_sh ctx) (unat burst) T z' ((if e' > burst then (data, e, l) else (data, unat e', unat now)) # filter (\<lambda>b. fst b \<noteq> data) es)"
proof -
  let ?b = "\<lambda>p. bucket_of (lz_nodes z p)"
  obtain xs qs where h: "limit_hold (cx_sh ctx) z xs qs" "es = map ?b qs"
    and k: "\<forall>p \<in> set xs. nd_key (lz_heap z p) = ucast (crc32 (lr_name (lz_nodes z p)))"
    using a by (auto simp: limit_abs_def)
  have nm: "fst (?b p) = lr_name (lz_nodes z p)" for p by (simp add: bucket_of_def)
  from h(1) show thesis
  proof (rule lookup_hold [where hash = "ucast (crc32 data)" and data = data and burst = burst and now = now])
    assume "(ucast (crc32 data), data) \<notin> lr_rank (lz_nodes z) (lz_heap z) ` set xs"
    then have n: "lr_name (lz_nodes z p) \<noteq> data" if "p \<in> set qs" for p
      using abs_rank [OF h(1) k that, of data] that h(1) by (metis imageI limit_hold_def)
    then have "find (\<lambda>b. fst b = data) es = None" using h(2) nm by (simp add: find_None_iff)
    moreover assume "ngx_http_limit_req_lookup ctx burst now (ucast (crc32 data)) data z = Some (NGX_DECLINED, 0, z)"
    ultimately show ?thesis by (rule that(1))
  next
    fix p us vs e'
    assume q: "qs = us @ p # vs" "lr_rank (lz_nodes z) (lz_heap z) p = (ucast (crc32 data), data)"
      and e: "e' = limit_req_leak (cx_rate ctx) now (lr_last (lz_nodes z p)) (lr_excess (lz_nodes z p))"
      and r: "ngx_http_limit_req_lookup ctx burst now (ucast (crc32 data)) data z =
        Some (if e' > burst then NGX_BUSY else if e' \<noteq> 0 then NGX_AGAIN else NGX_OK, e', limit_touch p ctx burst now z)"
    let ?z = "limit_touch p ctx burst now z" and ?lr = "lz_nodes z p"
    have pn: "lr_name ?lr = data" using q(2) by (simp add: lr_rank_def)
    have d: "distinct (map fst es)" "\<forall>b \<in> set es. fst (snd b) \<le> unat burst \<and> snd (snd b) < T" using a by (simp_all add: limit_abs_def)
    have other: "lr_name (lz_nodes z x) \<noteq> data" if "x \<in> set (us @ vs)" for x
    proof -
      have "data \<notin> (\<lambda>x. lr_name (lz_nodes z x)) ` set (us @ vs)" using d(1) pn unfolding h(2) q(1) by (auto simp: nm)
      then show ?thesis using that by blast
    qed
    have f: "find (\<lambda>b. fst b = data) es = Some (data, unat (lr_excess ?lr), unat (lr_last ?lr))"
    proof -
      have "find (\<lambda>b. fst b = data) (map ?b us) = None" using other by (auto simp: find_None_iff nm)
      then show ?thesis unfolding h(2) q(1) map_append find_app using pn by (simp add: bucket_of_def)
    qed
    have "filter (\<lambda>x. lr_name (lz_nodes z x) \<noteq> data) us = us" "filter (\<lambda>x. lr_name (lz_nodes z x) \<noteq> data) vs = vs"
      using other by (simp_all add: filter_id_conv)
    then have fl: "filter (\<lambda>b. fst b \<noteq> data) es = map ?b (us @ vs)" unfolding h(2) q(1) using pn by (simp add: filter_map o_def nm)
    have eb: "unat (lr_excess ?lr) \<le> unat burst" "unat (lr_last ?lr) < T" using d(2) unfolding h(2) q(1) by (auto simp: bucket_of_def)
    have le: "unat e' = spec_leak (unat (cx_rate ctx)) (unat now) (unat (lr_last ?lr)) (unat (lr_excess ?lr))"
      unfolding e by (rule leak_spec(1) [OF now eb(2)]) (use l eb(1) in \<open>auto simp: limits_def intro: le_less_trans\<close>)
    have pv: "p \<notin> set us" "p \<notin> set vs" using hold_distinct(2) [OF h(1)] q(1) by auto
    let ?es = "(if e' > burst then (data, unat (lr_excess ?lr), unat (lr_last ?lr)) else (data, unat e', unat now)) # filter (\<lambda>b. fst b \<noteq> data) es"
    have m: "?es = map (\<lambda>a. bucket_of (lz_nodes ?z a)) (p # us @ vs)"
      unfolding touch_buckets [OF pv] Let_def e [symmetric] fl using pn by (simp add: bucket_of_def)
    have "limit_hold (cx_sh ctx) ?z xs (p # us @ vs)" using touch_hold h(1) q(1) by simp
    moreover note m
    moreover have "\<forall>p \<in> set xs. nd_key (lz_heap ?z p) = ucast (crc32 (lr_name (lz_nodes ?z p)))" using k by (simp add: touch_keeps)
    moreover have "distinct (map fst ?es)" using d(1) by (auto simp: distinct_map_filter)
    moreover have "\<forall>b \<in> set ?es. fst (snd b) \<le> unat burst \<and> snd (snd b) < T" using d(2) eb now by (auto simp: word_le_nat_alt not_less)
    ultimately have "limit_abs (cx_sh ctx) (unat burst) T ?z ?es" by (rule limit_absI)
    then show ?thesis by (rule that(2) [OF f le r])
  qed
qed

lemma spec_expire_subset: "set (spec_expire rate now n es) \<subseteq> set es"
  using spec_expire_take [of rate now n es] set_take_subset by fastforce

lemma alloc_abs:
  assumes "slab_ok slab" "limit_abs sh burst T z es" "zone_alloc slab (72 + n) z = (p, z')"
  shows "limit_abs sh burst T z' es"
proof (cases "p = NULL")
  case True
  then have "z' = z" using assms(3) by (auto simp: zone_alloc_def Let_def split: if_splits)
  then show ?thesis using assms(2) by simp
next
  case False
  obtain xs qs where h: "limit_hold sh z xs qs" "es = map (\<lambda>p. bucket_of (lz_nodes z p)) qs"
    "\<forall>p \<in> set xs. nd_key (lz_heap z p) = ucast (crc32 (lr_name (lz_nodes z p)))" using assms(2) by (auto simp: limit_abs_def)
  note a = alloc_hold [OF assms(1) h(1) assms(3) False]
  show ?thesis using h(2,3) assms(2) a(6,7) by (intro limit_absI [OF a(1)]) (auto simp: limit_abs_def)
qed

lemma enter_abs:
  assumes s: "slab_ok slab" and a: "limit_abs (cx_sh ctx) burst T z es" and p: "zone_alloc slab (72 + length data) z = (p, z1)" "p \<noteq> NULL"
    and d: "data \<notin> fst ` set es" "length data < 256" and now: "unat now < T"
  shows "\<exists>z'. limit_req_enter ctx now (ucast (crc32 data)) data p z1 = Some z' \<and> limit_abs (cx_sh ctx) burst T z' ((data, 0, unat now) # es)"
proof -
  obtain xs qs where h: "limit_hold (cx_sh ctx) z xs qs" "es = map (\<lambda>p. bucket_of (lz_nodes z p)) qs"
    "\<forall>p \<in> set xs. nd_key (lz_heap z p) = ucast (crc32 (lr_name (lz_nodes z p)))" using a by (auto simp: limit_abs_def)
  note al = alloc_hold [OF s h(1) p]
  note keep = al(6,7)
  from enter_hold [OF al(1,2,3,4) p(2) al(5), of now "ucast (crc32 data)"] obtain z' ys where
    z': "limit_req_enter ctx now (ucast (crc32 data)) data p z1 = Some z'" "limit_hold (cx_sh ctx) z' ys (p # qs)"
      "lz_nodes z' = (lz_nodes z)(p := limit_node data now)" "\<forall>a. nd_key (lz_heap z' a) = (if a = p then ucast (crc32 data) else nd_key (lz_heap z a))"
    unfolding keep by blast
  have nm: "lr_name (limit_node data now) = data" using d(2) by (simp add: node_ok)
  have pq: "p \<notin> set qs" using al(2) h(1) by (simp add: limit_hold_def)
  have "limit_abs (cx_sh ctx) burst T z' ((data, 0, unat now) # es)"
  proof (rule limit_absI [OF z'(2)])
    show "(data, 0, unat now) # es = map (\<lambda>a. bucket_of (lz_nodes z' a)) (p # qs)"
      using h(2) pq nm unfolding z'(3) by (auto simp: bucket_of_def)
    have "set ys = insert p (set xs)" using z'(2) h(1) by (simp add: limit_hold_def)
    then show "\<forall>a \<in> set ys. nd_key (lz_heap z' a) = ucast (crc32 (lr_name (lz_nodes z' a)))"
      using h(3) al(2) nm unfolding z'(3) by (auto simp: z'(4))
    show "distinct (map fst ((data, 0, unat now) # es))" using d(1) a by (simp add: limit_abs_def)
    show "\<forall>b \<in> set ((data, 0, unat now) # es). fst (snd b) \<le> burst \<and> snd (snd b) < T" using now a by (simp add: limit_abs_def)
  qed
  then show ?thesis using z'(1) by blast
qed

text \<open>A new request, and the answers of the handler.\<close>

definition limit_request0 :: limit_request where
  "limit_request0 = \<lparr>rq_limit_req_set = False, rq_read_event_handler = Other_handler, rq_write_event_handler = Other_handler,
     rq_write_timer = None, rq_write_timedout = False\<rparr>"

fun limit_answer :: "limit_req_conf \<Rightarrow> limit_req_ctx \<Rightarrow> verdict \<Rightarrow> http_rc \<times> limit_request" where
  "limit_answer lrcf ctx Accept = (RC NGX_DECLINED, limit_request0\<lparr>rq_limit_req_set := True\<rparr>)"
| "limit_answer lrcf ctx Reject = (Http_status 503, limit_request0\<lparr>rq_limit_req_set := True\<rparr>)"
| "limit_answer lrcf ctx (Delay e) =
    (if lc_nodelay lrcf then (RC NGX_DECLINED, limit_request0\<lparr>rq_limit_req_set := True\<rparr>)
     else (RC NGX_AGAIN, limit_request0\<lparr>rq_limit_req_set := True, rq_read_event_handler := Ngx_http_test_reading,
       rq_write_event_handler := Ngx_http_limit_req_delay, rq_write_timer := Some (of_nat e * 1000 div cx_rate ctx)\<rparr>))"

lemma short_crc: "crc32_short_words tbl = ngx_crc32_table16 \<Longrightarrow> ngx_crc32_short tbl p = crc32 p"
  by (simp add: ngx_crc32_short_def crc32_def short_loop_bits)

text \<open>The request needs a node for which the slab pool has no memory.\<close>

definition limit_lacks :: "slab_alloc \<Rightarrow> limit_req_ctx \<Rightarrow> u64 \<Rightarrow> u64 \<Rightarrow> byte list \<Rightarrow> limit_zone \<Rightarrow> bool" where
  "limit_lacks slab ctx burst now data z =
    (case ngx_http_limit_req_expire ctx now 1 z of
       None \<Rightarrow> False
     | Some z \<Rightarrow>
         (case ngx_http_limit_req_lookup ctx burst now (ucast (crc32 data)) data z of
            None \<Rightarrow> False
          | Some (rc, _, z) \<Rightarrow> rc = NGX_DECLINED \<and> slab (lz_live z) (72 + length data) = NULL))"

text \<open>The handler does what the specification says.\<close>

lemma handler_abs:
  assumes s: "slab_ok slab" and t: "crc32_short_words tbl = ngx_crc32_table16" and c: "lc_shm_zone lrcf = Some ctx" "cx_rate ctx \<noteq> 0"
    and l: "limits (unat (cx_rate ctx)) (unat (lc_burst lrcf)) T" and now: "unat now < T" and d: "data \<noteq> []" "length data < 256"
    and a: "limit_abs (cx_sh ctx) (unat (lc_burst lrcf)) T z es"
  shows "\<exists>z' m1 m2 v es'. spec_request (unat (cx_rate ctx)) (unat (lc_burst lrcf)) (unat now) data m1 m2 es = (v, es') \<and>
    ngx_http_limit_req_handler slab tbl lrcf (\<lambda>_ _. Some data) now NGX_OK limit_request0 z =
      (case limit_answer lrcf ctx v of (rc, r) \<Rightarrow> Some (rc, r, z')) \<and>
    limit_abs (cx_sh ctx) (unat (lc_burst lrcf)) T z' es' \<and> (m1 \<longleftrightarrow> \<not> limit_lacks slab ctx (lc_burst lrcf) now data z)"
proof -
  let ?burst = "lc_burst lrcf" and ?es1 = "spec_expire (unat (cx_rate ctx)) (unat now) 1 es" and ?r = "limit_request0\<lparr>rq_limit_req_set := True\<rparr>"
  obtain z1 where z1: "ngx_http_limit_req_expire ctx now 1 z = Some z1" "limit_abs (cx_sh ctx) (unat ?burst) T z1 ?es1"
    using expire_abs [OF l now a] by blast
  have hd: "ngx_http_limit_req_handler slab tbl lrcf (\<lambda>_ _. Some data) now NGX_OK limit_request0 z = do {
      (rc, excess, z) \<leftarrow> ngx_http_limit_req_lookup ctx ?burst now (ucast (crc32 data)) data z1;
      if rc = NGX_DECLINED then do {
        (node, z) \<leftarrow> limit_req_alloc slab ctx now (72 + length data) z;
        if node = NULL then Some (Http_status 503, ?r, z)
        else do { z \<leftarrow> limit_req_enter ctx now (ucast (crc32 data)) data node z; Some (RC NGX_DECLINED, ?r, z) } }
      else if rc = NGX_OK then Some (RC NGX_DECLINED, ?r, z)
      else if rc = NGX_BUSY then Some (Http_status 503, ?r, z)
      else if lc_nodelay lrcf then Some (RC NGX_DECLINED, ?r, z)
      else Some (RC NGX_AGAIN, ?r\<lparr>rq_read_event_handler := Ngx_http_test_reading, rq_write_event_handler := Ngx_http_limit_req_delay,
                  rq_write_timer := Some (excess * 1000 div cx_rate ctx)\<rparr>, z) }"
    using d c z1(1) unfolding ngx_http_limit_req_handler_def by (simp add: limit_request0_def short_crc [OF t] Let_def cong: if_cong)
  from l now z1(2) show ?thesis
  proof (rule lookup_abs [where data = data])
    assume n: "find (\<lambda>b. fst b = data) ?es1 = None"
      and r: "ngx_http_limit_req_lookup ctx ?burst now (ucast (crc32 data)) data z1 = Some (NGX_DECLINED, 0, z1)"
    have nd: "data \<notin> fst ` set ?es1" using n by (auto simp: find_None_iff)
    obtain p z2 where al: "zone_alloc slab (72 + length data) z1 = (p, z2)" by fastforce
    have lk: "limit_lacks slab ctx ?burst now data z \<longleftrightarrow> p = NULL"
      using z1(1) r al by (auto simp: limit_lacks_def zone_alloc_def Let_def split: if_splits)
    show ?thesis
    proof (cases "p = NULL")
      case False
      obtain z' where z': "limit_req_enter ctx now (ucast (crc32 data)) data p z2 = Some z'"
        "limit_abs (cx_sh ctx) (unat ?burst) T z' ((data, 0, unat now) # ?es1)" using enter_abs [OF s z1(2) al False nd d(2) now] by blast
      have "spec_request (unat (cx_rate ctx)) (unat ?burst) (unat now) data True True es = (Accept, (data, 0, unat now) # ?es1)"
        using n by (simp add: spec_request_def Let_def)
      then show ?thesis using z' hd r al False lk by (intro exI [of _ z'] exI [of _ True] exI) (auto simp: limit_req_alloc_def)
    next
      case True
      let ?es2 = "spec_expire (unat (cx_rate ctx)) (unat now) 0 ?es1"
      have "z2 = z1" using al True by (auto simp: zone_alloc_def Let_def split: if_splits)
      obtain z3 where z3: "ngx_http_limit_req_expire ctx now 0 z1 = Some z3" "limit_abs (cx_sh ctx) (unat ?burst) T z3 ?es2"
        using expire_abs [OF l now z1(2)] by blast
      obtain p' z4 where al': "zone_alloc slab (72 + length data) z3 = (p', z4)" by fastforce
      have la: "limit_req_alloc slab ctx now (72 + length data) z1 = Some (p', z4)"
        using al True \<open>z2 = z1\<close> z3(1) al' by (simp add: limit_req_alloc_def)
      have nd': "data \<notin> fst ` set ?es2" using nd spec_expire_subset by blast
      show ?thesis
      proof (cases "p' = NULL")
        case False
        obtain z' where z': "limit_req_enter ctx now (ucast (crc32 data)) data p' z4 = Some z'"
          "limit_abs (cx_sh ctx) (unat ?burst) T z' ((data, 0, unat now) # ?es2)" using enter_abs [OF s z3(2) al' False nd' d(2) now] by blast
        have "spec_request (unat (cx_rate ctx)) (unat ?burst) (unat now) data False True es = (Accept, (data, 0, unat now) # ?es2)"
          using n by (simp add: spec_request_def Let_def)
        then show ?thesis using z' hd r la False lk \<open>p = NULL\<close> by (intro exI [of _ z'] exI [of _ False] exI [of _ True] exI) auto
      next
        case True
        have "spec_request (unat (cx_rate ctx)) (unat ?burst) (unat now) data False False es = (Reject, ?es2)"
          using n by (simp add: spec_request_def Let_def)
        then show ?thesis using hd r la True alloc_abs [OF s z3(2) al'] lk \<open>p = NULL\<close> by (intro exI [of _ z4] exI [of _ False] exI [of _ False] exI) auto
      qed
    qed
  next
    fix nm e lt e' z'
    assume f: "find (\<lambda>b. fst b = data) ?es1 = Some (nm, e, lt)" and le: "unat e' = spec_leak (unat (cx_rate ctx)) (unat now) lt e"
      and r: "ngx_http_limit_req_lookup ctx ?burst now (ucast (crc32 data)) data z1 =
        Some (if e' > ?burst then NGX_BUSY else if e' \<noteq> 0 then NGX_AGAIN else NGX_OK, e', z')"
      and ab: "limit_abs (cx_sh ctx) (unat ?burst) T z' ((if e' > ?burst then (data, e, lt) else (data, unat e', unat now)) # filter (\<lambda>b. fst b \<noteq> data) ?es1)"
    have z0: "e' = 0 \<longleftrightarrow> unat e' = 0" by (simp add: unat_eq_0)
    have sp: "spec_request (unat (cx_rate ctx)) (unat ?burst) (unat now) data True True es =
      (if e' > ?burst then (Reject, (data, e, lt) # filter (\<lambda>b. fst b \<noteq> data) ?es1)
       else (if e' = 0 then Accept else Delay (unat e'), (data, unat e', unat now) # filter (\<lambda>b. fst b \<noteq> data) ?es1))"
      unfolding spec_request_def Let_def f z0 word_less_nat_alt le by simp
    let ?v = "if e' > ?burst then Reject else if e' = 0 then Accept else Delay (unat e')"
      and ?es' = "(if e' > ?burst then (data, e, lt) else (data, unat e', unat now)) # filter (\<lambda>b. fst b \<noteq> data) ?es1"
    have "spec_request (unat (cx_rate ctx)) (unat ?burst) (unat now) data True True es = (?v, ?es')" unfolding sp by simp
    moreover have "ngx_http_limit_req_handler slab tbl lrcf (\<lambda>_ _. Some data) now NGX_OK limit_request0 z =
      (case limit_answer lrcf ctx ?v of (rc, r) \<Rightarrow> Some (rc, r, z'))" unfolding hd r by simp
    moreover have "\<not> limit_lacks slab ctx ?burst now data z" using z1(1) r by (simp add: limit_lacks_def)
    ultimately show ?thesis using ab by blast
  qed
qed

section \<open>Runs\<close>

text \<open>A sequence of requests, each with its time and the value of its variable; the same for the specification; how often memory
  was lacking.\<close>

fun limit_serve :: "slab_alloc \<Rightarrow> crc32_state \<Rightarrow> limit_req_conf \<Rightarrow> (u64 \<times> byte list) list \<Rightarrow> limit_zone \<Rightarrow>
    ((http_rc \<times> limit_request) list \<times> limit_zone) option" where
  "limit_serve slab tbl lrcf [] z = Some ([], z)"
| "limit_serve slab tbl lrcf ((now, data) # reqs) z = do {
     (rc, r, z) \<leftarrow> ngx_http_limit_req_handler slab tbl lrcf (\<lambda>_ _. Some data) now NGX_OK limit_request0 z;
     (as, z) \<leftarrow> limit_serve slab tbl lrcf reqs z;
     Some ((rc, r) # as, z) }"

fun spec_serve :: "nat \<Rightarrow> nat \<Rightarrow> (nat \<times> byte list) list \<Rightarrow> (bool \<times> bool) list \<Rightarrow> bucket list \<Rightarrow> verdict list" where
  "spec_serve rate burst ((now, name) # reqs) ((m1, m2) # ms) es =
    (case spec_request rate burst now name m1 m2 es of (v, es) \<Rightarrow> v # spec_serve rate burst reqs ms es)"
| "spec_serve rate burst reqs ms es = []"

definition limit_reqs :: "(u64 \<times> byte list) list \<Rightarrow> (nat \<times> byte list) list" where
  "limit_reqs = map (\<lambda>(now, data). (unat now, data))"

fun limit_lack_count :: "slab_alloc \<Rightarrow> crc32_state \<Rightarrow> limit_req_conf \<Rightarrow> limit_req_ctx \<Rightarrow> (u64 \<times> byte list) list \<Rightarrow> limit_zone \<Rightarrow> nat" where
  "limit_lack_count slab tbl lrcf ctx [] z = 0"
| "limit_lack_count slab tbl lrcf ctx ((now, data) # reqs) z =
    (if limit_lacks slab ctx (lc_burst lrcf) now data z then 1 else 0) +
    (case ngx_http_limit_req_handler slab tbl lrcf (\<lambda>_ _. Some data) now NGX_OK limit_request0 z of
       None \<Rightarrow> 0 | Some (rc, r, z) \<Rightarrow> limit_lack_count slab tbl lrcf ctx reqs z)"

lemma serve_abs:
  assumes s: "slab_ok slab" and t: "crc32_short_words tbl = ngx_crc32_table16" and c: "lc_shm_zone lrcf = Some ctx" "cx_rate ctx \<noteq> 0"
    and l: "limits (unat (cx_rate ctx)) (unat (lc_burst lrcf)) T"
  shows "limit_abs (cx_sh ctx) (unat (lc_burst lrcf)) T z es \<Longrightarrow>
    \<forall>(now, data) \<in> set reqs. unat now < T \<and> data \<noteq> [] \<and> length data < 256 \<Longrightarrow>
    \<exists>ms z'. length ms = length reqs \<and> length (filter (\<lambda>m. \<not> fst m) ms) = limit_lack_count slab tbl lrcf ctx reqs z \<and> limit_serve slab tbl lrcf reqs z =
      Some (map (limit_answer lrcf ctx) (spec_serve (unat (cx_rate ctx)) (unat (lc_burst lrcf)) (limit_reqs reqs) ms es), z') \<and>
      (\<exists>es'. limit_abs (cx_sh ctx) (unat (lc_burst lrcf)) T z' es')"
proof (induction reqs arbitrary: z es)
  case Nil
  then show ?case by (auto simp: limit_reqs_def)
next
  case (Cons x reqs)
  obtain now data where x: "x = (now, data)" by (cases x)
  have d: "unat now < T" "data \<noteq> []" "length data < 256" using Cons.prems(2) x by auto
  obtain z1 m1 m2 v es1 where r: "spec_request (unat (cx_rate ctx)) (unat (lc_burst lrcf)) (unat now) data m1 m2 es = (v, es1)"
    "ngx_http_limit_req_handler slab tbl lrcf (\<lambda>_ _. Some data) now NGX_OK limit_request0 z =
      (case limit_answer lrcf ctx v of (rc, r) \<Rightarrow> Some (rc, r, z1))" "limit_abs (cx_sh ctx) (unat (lc_burst lrcf)) T z1 es1"
    and lk: "m1 \<longleftrightarrow> \<not> limit_lacks slab ctx (lc_burst lrcf) now data z"
    using handler_abs [OF s t c l d Cons.prems(1)] by blast
  obtain ms z' where m: "length ms = length reqs" "length (filter (\<lambda>m. \<not> fst m) ms) = limit_lack_count slab tbl lrcf ctx reqs z1" "limit_serve slab tbl lrcf reqs z1 =
      Some (map (limit_answer lrcf ctx) (spec_serve (unat (cx_rate ctx)) (unat (lc_burst lrcf)) (limit_reqs reqs) ms es1), z')"
    "\<exists>es'. limit_abs (cx_sh ctx) (unat (lc_burst lrcf)) T z' es'"
    using Cons.IH [OF r(3)] Cons.prems(2) by auto
  then show ?case using r(1,2) x lk
    by (intro exI [of _ "(m1, m2) # ms"] exI [of _ z']) (cases "limit_answer lrcf ctx v", auto simp: limit_reqs_def)
qed

text \<open>A new zone has no buckets.\<close>

lemma init_abs:
  assumes s: "slab_ok slab" and r: "regions (lz_live z)"
    and i: "ngx_http_limit_req_init_zone slab nlen False None ctx0 z = Some (NGX_OK, ctx, z')"
  shows "limit_abs (cx_sh ctx) burst T z' []"
proof -
  obtain sh z1 where a: "zone_alloc slab 80 z = (sh, z1)" by fastforce
  have sh: "sh \<noteq> NULL" "ctx = ctx0\<lparr>cx_sh := sh\<rparr>" using i a by (auto simp: ngx_http_limit_req_init_zone_def Let_def split: if_splits bind_splits prod.splits)
  have z1: "sh = slab (lz_live z) 80" "z1 = z\<lparr>lz_live := (sh, 80) # lz_live z\<rparr>"
    using a sh(1) by (auto simp: zone_alloc_def Let_def split: if_splits)
  have r1: "regions (lz_live z1)" using s r sh(1) z1 by (auto simp: slab_ok_def)
  let ?i = "ngx_http_limit_req_rbtree_insert_value (lz_nodes z1)"
  obtain H' where h: "ngx_rbtree_init (sh + 24) ?i (lz_heap z1) = Some (\<lparr>tr_root = sh + 24, tr_sentinel = sh + 24, tr_insert = ?i\<rparr>, H')"
    "rb_holds \<lparr>tr_root = sh + 24, tr_sentinel = sh + 24, tr_insert = ?i\<rparr> H' []" using init_holds [of "sh + 24" ?i "lz_heap z1"] by auto
  define z2 where "z2 = z1\<lparr>lz_pool_data := sh, lz_tree := \<lparr>tr_root = sh + 24, tr_sentinel = sh + 24, tr_insert = ?i\<rparr>, lz_heap := H',
    lz_queue := ngx_queue_init (sh + 64) (lz_queue z1)\<rparr>"
  obtain lg z3 where al: "zone_alloc slab (22 + nlen) z2 = (lg, z3)" by fastforce
  have z': "z' = z3\<lparr>lz_log_ctx := lg\<rparr>" "lg \<noteq> NULL"
    using i a h(1) al sh(1) by (auto simp: ngx_http_limit_req_init_zone_def Let_def z2_def split: if_splits)
  have z3: "lg = slab (lz_live z2) (22 + nlen)" "z3 = z2\<lparr>lz_live := (lg, 22 + nlen) # lz_live z2\<rparr>"
    using al z'(2) by (auto simp: zone_alloc_def Let_def split: if_splits)
  have lv: "lz_live z2 = (sh, 80) # lz_live z" by (simp add: z2_def z1(2))
  have "regions (lz_live z3)" using s r1 z'(2) z3 lv z1(2) by (auto simp: slab_ok_def)
  then have "limit_hold sh z' [] []"
    using h(2) queue_init [of "sh + 64" "lz_queue z1"] lv unfolding limit_hold_def z'(1) z3(2) by (simp add: z2_def)
  then show ?thesis using sh(2) by (intro limit_absI [of _ _ "[]" "[]"]) simp_all
qed

section \<open>The rate\<close>

text \<open>What expiration does to one bucket.\<close>

lemma expire_absent: "map_of es x = None \<Longrightarrow> map_of (spec_expire rate now n es) x = None"
  using spec_expire_subset [of rate now n es] by (auto simp: map_of_eq_None_iff)

lemma expire_present:
  assumes "distinct (map fst es)" "map_of es x = Some b"
  shows "map_of (spec_expire rate now n es) x = Some b \<or>
    map_of (spec_expire rate now n es) x = None \<and> (n = 0 \<or> spec_idle rate now (x, b))"
  using assms
proof (induction rate now n es rule: spec_expire.induct)
  case (1 rate now n es)
  show ?case
  proof (cases "n < 3 \<and> es \<noteq> [] \<and> (n = 0 \<or> spec_idle rate now (last es))")
    case True
    have e: "spec_expire rate now n es = spec_expire rate now (n + 1) (butlast es)" using True by (subst spec_expire.simps) simp
    have es: "es = butlast es @ [last es]" using True by simp
    then have m: "map_of es x = (case map_of (butlast es) x of Some b \<Rightarrow> Some b | None \<Rightarrow> map_of [last es] x)"
      by (metis map_add_def map_of_append map_add_assoc map_of.simps(1))
    show ?thesis
    proof (cases "map_of (butlast es) x")
      case None
      then have "last es = (x, b)" using 1(3) m by (cases "last es") (auto split: if_splits)
      then show ?thesis using expire_absent [OF None] e True by auto
    next
      case (Some c)
      then have "c = b" using m 1(3) by simp
      moreover have "distinct (map fst (butlast es))" using 1(2) by (simp add: map_butlast distinct_butlast)
      ultimately show ?thesis using 1(1) [OF True] Some e by auto
    qed
  next
    case False
    then have "spec_expire rate now n es = es" by (subst spec_expire.simps) auto
    then show ?thesis using 1(3) by simp
  qed
qed

text \<open>The account of one bucket, from the time \<open>t0\<close> on, in units of 1/60000 of a thousandth of a request: \<open>n\<close> requests were admitted and
  memory was lacking \<open>f\<close> times.\<close>

fun fits :: "nat \<Rightarrow> nat \<Rightarrow> nat \<Rightarrow> nat \<Rightarrow> nat \<Rightarrow> nat \<Rightarrow> (nat \<times> nat) option \<Rightarrow> bool" where
  "fits rate burst t0 n f t None \<longleftrightarrow> n = 0 \<or> 60000000 * n \<le> f * (60000 * burst + 60000000) + (60 * rate + 1000) * (t - t0)"
| "fits rate burst t0 n f t (Some (e, l)) \<longleftrightarrow>
    n = 0 \<or> t0 \<le> l \<and> 60000000 * n \<le> f * (60000 * burst + 60000000) + 60000000 + 60000 * e + (60 * rate + 1000) * (l - t0)"

lemma leak_scaled: "60000 * e + 60000000 \<le> 60000 * spec_leak rate t l e + 60 * (rate * gap t l)"
proof -
  have "1000 * (rate * gap t l div 1000) \<le> rate * gap t l" by simp
  then show ?thesis unfolding spec_leak_def by linarith
qed

lemma idle_scaled: "spec_idle rate t (x, e, l) \<Longrightarrow> l \<le> t \<Longrightarrow> 60000000 + 60000 * e \<le> (60 * rate + 1000) * (t - l)"
proof -
  assume a: "spec_idle rate t (x, e, l)" "l \<le> t"
  then have "60000 \<le> t - l" "e \<le> rate * (t - l) div 1000" by (auto simp: spec_idle_def gap_def)
  moreover have "1000 * (rate * (t - l) div 1000) \<le> rate * (t - l)" by simp
  ultimately have "60000 * e \<le> 60 * (rate * (t - l))" "60000000 \<le> 1000 * (t - l)" by linarith+
  then show ?thesis by (simp add: algebra_simps)
qed

lemma elapsed: "t0 \<le> l \<Longrightarrow> l \<le> t \<Longrightarrow> (60 * rate + 1000) * (t - t0) = (60 * rate + 1000) * (l - t0) + (60 * rate + 1000) * (t - l :: nat)"
  by (simp add: add_mult_distrib2 [symmetric])

lemma fits_later: "fits rate burst t0 n f t en \<Longrightarrow> t0 \<le> t \<Longrightarrow> t \<le> t' \<Longrightarrow> fits rate burst t0 n f t' en"
  using elapsed [of t0 t t' rate] by (cases "(rate, burst, t0, n, f, t, en)" rule: fits.cases) auto

lemma fits_idle: "fits rate burst t0 n f t (Some (e, l)) \<Longrightarrow> l \<le> t \<Longrightarrow> spec_idle rate t (x, e, l) \<Longrightarrow> fits rate burst t0 n f t None"
  using elapsed [of t0 l t rate] idle_scaled [of rate t x e l] by auto

lemma fits_forced: "fits rate burst t0 n f t en \<Longrightarrow> fits rate burst t0 n (Suc f) t en"
  by (cases "(rate, burst, t0, n, f, t, en)" rule: fits.cases) auto

lemma fits_drop:
  assumes "fits rate burst t0 n f t (Some (e, l))" "l \<le> t" "e \<le> burst"
  shows "fits rate burst t0 n (Suc f) t None"
  using assms elapsed [of t0 l t rate] by auto

lemma fits_accept:
  assumes "fits rate burst t0 n f t (Some (e, l))" "l \<le> t" "t0 \<le> t"
  shows "fits rate burst t0 (Suc n) f t (Some (spec_leak rate t l e, t))"
proof (cases "n = 0")
  case False
  then have "t0 \<le> l" "60000000 * n \<le> f * (60000 * burst + 60000000) + 60000000 + 60000 * e + (60 * rate + 1000) * (l - t0)" using assms(1) by auto
  moreover have "60 * (rate * gap t l) \<le> (60 * rate + 1000) * (t - l)" using assms(2) by (simp add: gap_def algebra_simps)
  ultimately show ?thesis using assms(2,3) leak_scaled [of e rate t l] elapsed [of t0 l t rate] by simp
qed (use assms(3) in simp)

lemma fits_create: "fits rate burst t0 n f t None \<Longrightarrow> t0 \<le> t \<Longrightarrow> fits rate burst t0 (Suc n) f t (Some (0, t))"
  by auto

lemma fits_bound:
  assumes "fits rate burst t0 n f t en" "\<And>e l. en = Some (e, l) \<Longrightarrow> e \<le> burst \<and> l \<le> t" "t0 \<le> t"
  shows "60000000 * n \<le> (f + 1) * (60000 * burst + 60000000) + (60 * rate + 1000) * (t - t0)"
proof (cases en)
  case (Some b)
  then show ?thesis using assms elapsed [of t0 "snd b" t rate] by (cases b) auto
qed (use assms in auto)

definition tally :: "nat \<Rightarrow> nat \<Rightarrow> nat \<Rightarrow> byte list \<Rightarrow> nat \<Rightarrow> nat \<Rightarrow> nat \<Rightarrow> bucket list \<Rightarrow> bool" where
  "tally rate burst t0 x n f t es \<longleftrightarrow> distinct (map fst es) \<and> t0 \<le> t \<and> (\<forall>b \<in> set es. fst (snd b) \<le> burst \<and> snd (snd b) \<le> t) \<and>
    fits rate burst t0 n f t (map_of es x)"

lemma tally_entry: "tally rate burst t0 x n f t es \<Longrightarrow> map_of es y = Some (e, l) \<Longrightarrow> e \<le> burst \<and> l \<le> t"
  by (fastforce simp: tally_def dest: map_of_SomeD)

lemma tally_expire:
  assumes "tally rate burst t0 x n f t es"
  shows "tally rate burst t0 x n (if k = 0 then Suc f else f) t (spec_expire rate t k es)"
proof -
  let ?es = "spec_expire rate t k es"
  obtain j where "?es = take j es" using spec_expire_take by blast
  then have d: "distinct (map fst ?es)" "\<forall>b \<in> set ?es. fst (snd b) \<le> burst \<and> snd (snd b) \<le> t" "t0 \<le> t"
    using assms by (auto simp: tally_def take_map [symmetric] dest: in_set_takeD)
  have "fits rate burst t0 n (if k = 0 then Suc f else f) t (map_of ?es x)"
  proof (cases "map_of es x")
    case None
    then show ?thesis using assms expire_absent [OF None, of rate t k] fits_forced by (auto simp: tally_def simp del: fits.simps)
  next
    case (Some b)
    obtain e l where b: "b = (e, l)" by (cases b)
    note m = tally_entry [OF assms, of x e l]
    have f: "fits rate burst t0 n f t (Some (e, l))" using assms Some b by (simp add: tally_def del: fits.simps)
    have "distinct (map fst es)" using assms by (simp add: tally_def)
    from expire_present [OF this Some, of rate t k] show ?thesis using f m Some b fits_forced [OF f] fits_drop [OF f] fits_idle [OF f]
      by (auto simp del: fits.simps)
  qed
  then show ?thesis using d by (simp add: tally_def del: fits.simps)
qed

fun spec_accepts :: "verdict \<Rightarrow> bool" where
  "spec_accepts Reject \<longleftrightarrow> False"
| "spec_accepts _ \<longleftrightarrow> True"

lemma map_of_drop: "map_of (filter (\<lambda>b. fst b \<noteq> y) es) x = (if y = x then None else map_of es x)"
  by (induction es) auto

text \<open>One request keeps the account.\<close>

lemma tally_request:
  assumes t: "tally rate burst t0 x n f t es" "t \<le> t'" and r: "spec_request rate burst t' y m1 m2 es = (v, es')"
  shows "tally rate burst t0 x (if y = x \<and> spec_accepts v then Suc n else n) (if m1 then f else Suc f) t' es'"
proof -
  let ?es1 = "spec_expire rate t' 1 es"
  have "tally rate burst t0 x n f t' es" using t fits_later by (fastforce simp: tally_def simp del: fits.simps)
  from tally_expire [OF this, of 1] have t1: "tally rate burst t0 x n f t' ?es1" by simp
  then have f1: "fits rate burst t0 n f t' (map_of ?es1 x)" and d1: "distinct (map fst ?es1)" "t0 \<le> t'"
    "\<forall>b \<in> set ?es1. fst (snd b) \<le> burst \<and> snd (snd b) \<le> t'" by (auto simp: tally_def)
  show ?thesis
  proof (cases "find (\<lambda>b. fst b = y) ?es1")
    case None
    then have ny: "y \<notin> fst ` set ?es1" by (auto simp: find_None_iff)
    have create: "tally rate burst t0 x (if y = x then Suc n else n) g t' ((y, 0, t') # es2)"
      if "tally rate burst t0 x n g t' es2" "y \<notin> fst ` set es2" for es2 g
    proof -
      have "map_of es2 y = None" using that(2) by (simp add: map_of_eq_None_iff)
      then show ?thesis using that fits_create [of rate burst t0 n g t'] by (auto simp: tally_def simp del: fits.simps)
    qed
    show ?thesis
    proof (cases m1)
      case True
      then show ?thesis using r None create [OF t1 ny] by (auto simp: spec_request_def Let_def)
    next
      case False
      let ?es2 = "spec_expire rate t' 0 ?es1"
      have t2: "tally rate burst t0 x n (Suc f) t' ?es2" using tally_expire [OF t1, of 0] by simp
      have "y \<notin> fst ` set ?es2" using ny spec_expire_subset by blast
      from create [OF t2 this] t2 show ?thesis using r None False by (auto simp: spec_request_def Let_def split: if_splits)
    qed
  next
    case (Some b)
    have "fst b = y" using Some by (auto simp: find_Some_iff)
    then obtain e l where b: "b = (y, e, l)" by (cases b) auto
    have "(y, e, l) \<in> set ?es1" using Some b by (auto simp: find_Some_iff)
    then have my: "map_of ?es1 y = Some (e, l)" using d1(1) by (simp add: map_of_is_SomeI)
    note el = tally_entry [OF t1 my]
    let ?rest = "filter (\<lambda>b. fst b \<noteq> y) ?es1" and ?e = "spec_leak rate t' l e"
    have rest: "distinct (map fst ?rest)" "\<forall>b \<in> set ?rest. fst (snd b) \<le> burst \<and> snd (snd b) \<le> t'" "y \<notin> fst ` set ?rest"
      using d1 by (auto simp: distinct_map_filter)
    have mr: "map_of ?rest x = (if y = x then None else map_of ?es1 x)"
      by (rule map_of_drop)
    have ff: "fits rate burst t0 n f t' (map_of ?es1 x) \<Longrightarrow> fits rate burst t0 n (if m1 then f else Suc f) t' (map_of ?es1 x)" using fits_forced by simp
    show ?thesis
    proof (cases "?e > burst")
      case True
      then have "v = Reject" "es' = (y, e, l) # ?rest" using r Some b by (auto simp: spec_request_def Let_def)
      then show ?thesis using rest mr my ff [OF f1] el d1(2) by (auto simp: tally_def simp del: fits.simps)
    next
      case False
      then have v: "spec_accepts v" "es' = (y, ?e, t') # ?rest" using r Some b by (auto simp: spec_request_def Let_def)
      have "fits rate burst t0 (Suc n) (if m1 then f else Suc f) t' (Some (?e, t'))" if "y = x"
        using fits_accept [of rate burst t0 n f t' e l] f1 my that el d1(2) fits_forced by (auto simp del: fits.simps)
      then show ?thesis using v rest mr ff [OF f1] d1(2) False by (auto simp: tally_def simp del: fits.simps)
    qed
  qed
qed

definition spec_admitted :: "byte list \<Rightarrow> (nat \<times> byte list) list \<Rightarrow> verdict list \<Rightarrow> nat" where
  "spec_admitted x reqs vs = length (filter (\<lambda>(q, v). snd q = x \<and> spec_accepts v) (zip reqs vs))"

lemma rate_run:
  assumes "tally rate burst t0 x n f t es" "sorted (t # map fst reqs @ [t1])" "length ms = length reqs"
  shows "60000000 * (n + spec_admitted x reqs (spec_serve rate burst reqs ms es)) \<le>
    (f + length (filter (\<lambda>m. \<not> fst m) ms) + 1) * (60000 * burst + 60000000) + (60 * rate + 1000) * (t1 - t0)"
  using assms
proof (induction reqs arbitrary: n f t es ms)
  case Nil
  have t: "t0 \<le> t" "t \<le> t1" using Nil(1,2) by (simp_all add: tally_def)
  have "fits rate burst t0 n f t (map_of es x)" using Nil(1) unfolding tally_def by blast
  from fits_later [OF this t] have f: "fits rate burst t0 n f t1 (map_of es x)" .
  have "e \<le> burst \<and> l \<le> t1" if "map_of es x = Some (e, l)" for e l using tally_entry [OF Nil(1) that] t(2) by simp
  from fits_bound [OF f this] t have "60000000 * n \<le> (f + 1) * (60000 * burst + 60000000) + (60 * rate + 1000) * (t1 - t0)" by simp
  then show ?case using Nil(3) by (simp add: spec_admitted_def)
next
  case (Cons q reqs)
  obtain t' y where q: "q = (t', y)" by (cases q)
  obtain m1 m2 ms' where ms: "ms = (m1, m2) # ms'" "length ms' = length reqs" using Cons(4) by (cases ms) auto
  obtain v es' where r: "spec_request rate burst t' y m1 m2 es = (v, es')" by fastforce
  have "t \<le> t'" "sorted (t' # map fst reqs @ [t1])" using Cons(3) q by auto
  note ih = Cons(1) [OF tally_request [OF Cons(2) this(1) r] this(2) ms(2)]
  have a: "n + spec_admitted x (q # reqs) (spec_serve rate burst (q # reqs) ms es) =
      (if y = x \<and> spec_accepts v then Suc n else n) + spec_admitted x reqs (spec_serve rate burst reqs ms' es')"
    using q r ms by (auto simp: spec_admitted_def)
  have b: "f + length (filter (\<lambda>m. \<not> fst m) ms) = (if m1 then f else Suc f) + length (filter (\<lambda>m. \<not> fst m) ms')" using ms by simp
  show ?case unfolding a b by (rule ih)
qed

lemma answer_status: "fst (limit_answer lrcf ctx v) \<noteq> Http_status 503 \<longleftrightarrow> spec_accepts v"
  by (cases v) auto

definition limit_admitted :: "byte list \<Rightarrow> (u64 \<times> byte list) list \<Rightarrow> (http_rc \<times> limit_request) list \<Rightarrow> nat" where
  "limit_admitted x reqs as = length (filter (\<lambda>(q, a). snd q = x \<and> fst a \<noteq> Http_status 503) (zip reqs as))"

lemma admitted_spec: "limit_admitted x reqs (map (limit_answer lrcf ctx) vs) = spec_admitted x (limit_reqs reqs) vs"
proof (induction reqs arbitrary: vs)
  case IH: (Cons q reqs)
  show ?case
  proof (cases vs)
    case (Cons v vs')
    then show ?thesis using IH [of vs'] answer_status [of lrcf ctx v]
      by (cases q) (auto simp: limit_admitted_def spec_admitted_def limit_reqs_def)
  qed (simp add: limit_admitted_def spec_admitted_def)
qed (simp add: limit_admitted_def spec_admitted_def limit_reqs_def)

lemma abs_later: "limit_abs sh burst T z es \<Longrightarrow> T \<le> T' \<Longrightarrow> limit_abs sh burst T' z es"
  by (fastforce simp: limit_abs_def)

lemma limits_earlier: "limits rate burst T \<Longrightarrow> T' \<le> T \<Longrightarrow> limits rate burst T'"
  using mult_le_mono2 [of T' T rate] unfolding limits_def by linarith

section \<open>All requests\<close>

lemma alloc_null: "zone_alloc slab n z = (NULL, z') \<Longrightarrow> z' = z"
  by (auto simp: zone_alloc_def Let_def split: if_splits)

lemma add_hold:
  assumes "slab_ok slab" "limit_hold (cx_sh ctx) z xs qs"
  shows "\<exists>p z1. limit_req_alloc slab ctx now (72 + length data) z = Some (p, z1) \<and>
    (\<exists>xs qs. limit_hold (cx_sh ctx) z1 xs qs) \<and>
    (p \<noteq> NULL \<longrightarrow> (\<exists>z2 xs qs. limit_req_enter ctx now hash data p z1 = Some z2 \<and> limit_hold (cx_sh ctx) z2 xs qs))"
proof -
  have got: "(\<exists>xs qs. limit_hold (cx_sh ctx) z1 xs qs) \<and>
      (p \<noteq> NULL \<longrightarrow> (\<exists>z2 xs qs. limit_req_enter ctx now hash data p z1 = Some z2 \<and> limit_hold (cx_sh ctx) z2 xs qs))"
    if a: "limit_hold (cx_sh ctx) z ys qs" "zone_alloc slab (72 + length data) z = (p, z1)" for p z z1 ys qs
  proof (cases "p = NULL")
    case True
    then show ?thesis using a alloc_null by blast
  next
    case False
    note h = alloc_hold [OF assms(1) a False]
    show ?thesis using h(1) enter_hold [OF h(1-4) False h(5), of now hash] by blast
  qed
  obtain p z1 where al: "zone_alloc slab (72 + length data) z = (p, z1)" by fastforce
  show ?thesis
  proof (cases "p = NULL")
    case False
    then show ?thesis using got [OF assms(2) al] al by (auto simp: limit_req_alloc_def)
  next
    case True
    have "z1 = z" using al True alloc_null by simp
    obtain z2 ys q2 where z2: "ngx_http_limit_req_expire ctx now 0 z = Some z2" "limit_hold (cx_sh ctx) z2 ys q2"
      using expire_hold [OF assms(2)] by blast
    obtain p' z3 where al': "zone_alloc slab (72 + length data) z2 = (p', z3)" by fastforce
    then show ?thesis using got [OF z2(2) al'] al True \<open>z1 = z\<close> z2(1) by (auto simp: limit_req_alloc_def)
  qed
qed

lemma handler_hold:
  assumes "slab_ok slab" "limit_hold (cx_sh ctx) z xs qs" "lc_shm_zone lrcf = Some ctx" "cx_rate ctx \<noteq> 0"
  shows "\<exists>rc r' z' xs' qs'. ngx_http_limit_req_handler slab tbl lrcf var now ev r z = Some (rc, r', z') \<and> limit_hold (cx_sh ctx) z' xs' qs'"
proof (cases "rq_limit_req_set r \<or> var r (cx_index ctx) = None \<or> var r (cx_index ctx) = Some [] \<or> (\<exists>data. var r (cx_index ctx) = Some data \<and> 65535 < length data)")
  case True
  then have "ngx_http_limit_req_handler slab tbl lrcf var now ev r z = Some (RC NGX_DECLINED, r, z)"
    using assms(3) by (auto simp: ngx_http_limit_req_handler_def)
  then show ?thesis using assms(2) by blast
next
  case False
  then obtain data where d: "\<not> rq_limit_req_set r" "var r (cx_index ctx) = Some data" "data \<noteq> []" "\<not> 65535 < length data" by auto
  let ?hash = "ucast (ngx_crc32_short tbl data) :: u64"
  obtain z1 ys q1 where z1: "ngx_http_limit_req_expire ctx now 1 z = Some z1" "limit_hold (cx_sh ctx) z1 ys q1"
    using expire_hold [OF assms(2)] by blast
  from z1(2) show ?thesis
  proof (rule lookup_hold [where hash = ?hash and data = data and burst = "lc_burst lrcf" and now = now])
    assume l: "ngx_http_limit_req_lookup ctx (lc_burst lrcf) now ?hash data z1 = Some (NGX_DECLINED, 0, z1)"
    from add_hold [OF assms(1) z1(2), of now data ?hash] show ?thesis
      using d z1(1) l assms(3) by (fastforce simp: ngx_http_limit_req_handler_def Let_def)
  next
    fix p us vs e
    assume q: "q1 = us @ p # vs" and l: "ngx_http_limit_req_lookup ctx (lc_burst lrcf) now ?hash data z1 =
        Some (if e > lc_burst lrcf then NGX_BUSY else if e \<noteq> 0 then NGX_AGAIN else NGX_OK, e, limit_touch p ctx (lc_burst lrcf) now z1)"
    let ?z = "limit_touch p ctx (lc_burst lrcf) now z1"
    have "limit_hold (cx_sh ctx) ?z ys (p # us @ vs)" using touch_hold z1(2) q by simp
    moreover have "\<exists>rc r'. ngx_http_limit_req_handler slab tbl lrcf var now ev r z = Some (rc, r', ?z)"
      using d z1(1) l assms(3,4) by (simp add: ngx_http_limit_req_handler_def Let_def)
    ultimately show ?thesis by blast
  qed
qed

text \<open>The states of a zone: it is initialised, inherited by a new configuration, found in existing memory, and serves requests of any
  kind, with any configuration, at any times.\<close>

inductive limit_reach :: "slab_alloc \<Rightarrow> limit_req_ctx \<Rightarrow> limit_zone \<Rightarrow> bool" for slab where
  Start: "regions (lz_live z) \<Longrightarrow> ngx_http_limit_req_init_zone slab nlen False None ctx0 z = Some (NGX_OK, ctx, z') \<Longrightarrow> limit_reach slab ctx z'"
| Reload: "limit_reach slab ctx z \<Longrightarrow> ngx_http_limit_req_init_zone slab nlen shm_exists (Some ctx) ctx1 z = Some (NGX_OK, ctx', z') \<Longrightarrow>
    limit_reach slab ctx' z'"
| Attach: "limit_reach slab ctx z \<Longrightarrow> ngx_http_limit_req_init_zone slab nlen True None ctx1 z = Some (NGX_OK, ctx', z') \<Longrightarrow>
    limit_reach slab ctx' z'"
| Request: "limit_reach slab ctx z \<Longrightarrow> lc_shm_zone lrcf = Some ctx \<Longrightarrow> cx_rate ctx \<noteq> 0 \<Longrightarrow>
    ngx_http_limit_req_handler slab tbl lrcf var now ev r z = Some (rc, r', z') \<Longrightarrow> limit_reach slab ctx z'"

lemma reach_hold:
  assumes "limit_reach slab ctx z" "slab_ok slab"
  shows "\<exists>xs qs. limit_hold (cx_sh ctx) z xs qs"
  using assms
proof (induction rule: limit_reach.induct)
  case (Start z nlen ctx0 ctx z')
  then have "limit_abs (cx_sh ctx) 0 0 z' []" using init_abs by blast
  then show ?case by (auto simp: limit_abs_def)
next
  case (Reload ctx z nlen ex ctx1 ctx' z')
  then show ?case by (auto simp: ngx_http_limit_req_init_zone_def split: if_splits) blast
next
  case (Attach ctx z nlen ctx1 ctx' z')
  then show ?case by (fastforce simp: ngx_http_limit_req_init_zone_def limit_hold_def)
next
  case (Request ctx z lrcf tbl var now ev r rc r' z')
  then obtain xs qs where "limit_hold (cx_sh ctx) z xs qs" by blast
  from handler_hold [OF \<open>slab_ok slab\<close> this Request(2,3), of tbl var now ev r] show ?case using Request(4) by auto
qed

text \<open>A value of more than 255 bytes is never found again, so requests with it are not limited, and each adds a node.\<close>

lemma limit_req_long:
  assumes "slab_ok slab" and "limit_reach slab ctx z" and "256 \<le> length data"
  shows "ngx_http_limit_req_lookup ctx burst now hash data z = Some (NGX_DECLINED, 0, z)"
proof -
  obtain xs qs where h: "limit_hold (cx_sh ctx) z xs qs" using reach_hold [OF assms(2,1)] by blast
  then show ?thesis
  proof (rule lookup_hold [where hash = hash and data = data and burst = burst and now = now])
    fix p us vs e
    assume p: "qs = us @ p # vs" "lr_rank (lz_nodes z) (lz_heap z) p = (hash, data)"
    then have "lr_ok (lz_nodes z p)" "lr_name (lz_nodes z p) = data" using h by (auto simp: limit_hold_def lr_rank_def)
    then have "length data < 256" by (auto simp: lr_ok_def lr_name_def)
    then show ?thesis using assms(3) by simp
  qed
qed

text \<open>With the rate zero, which the directive accepts, the second request with the same value divides by zero.\<close>

lemma limit_req_rate_zero:
  assumes t: "crc32_short_words tbl = ngx_crc32_table16" and c: "lc_shm_zone lrcf = Some ctx" "cx_rate ctx = 0" "\<not> lc_nodelay lrcf"
    and l: "limits 0 (unat (lc_burst lrcf)) T" and now: "unat now < T" and d: "data \<noteq> []" "length data < 256"
    and a: "limit_abs (cx_sh ctx) (unat (lc_burst lrcf)) T z es"
    and e: "map_of es data = Some (e, lt)" "gap (unat now) lt < 60000" "e + 1000 \<le> unat (lc_burst lrcf)"
  shows "ngx_http_limit_req_handler slab tbl lrcf (\<lambda>_ _. Some data) now NGX_OK limit_request0 z = None"
proof -
  let ?burst = "lc_burst lrcf" and ?es1 = "spec_expire 0 (unat now) 1 es"
  have l': "limits (unat (cx_rate ctx)) (unat ?burst) T" using l c(2) by simp
  obtain z1 where z1: "ngx_http_limit_req_expire ctx now 1 z = Some z1" "limit_abs (cx_sh ctx) (unat ?burst) T z1 ?es1"
    using expire_abs [OF l' now a, of 1] c(2) by auto
  have ds: "distinct (map fst es)" "distinct (map fst ?es1)" using a z1(2) by (simp_all add: limit_abs_def)
  have "\<not> spec_idle 0 (unat now) (data, e, lt)" using e(2) by (simp add: spec_idle_def)
  then have m: "map_of ?es1 data = Some (e, lt)" using expire_present [OF ds(1) e(1), of 0 "unat now" 1] by auto
  from l' now z1(2) show ?thesis
  proof (rule lookup_abs [where data = data])
    assume "find (\<lambda>b. fst b = data) ?es1 = None"
    then show ?thesis using map_of_SomeD [OF m] by (auto simp: find_None_iff)
  next
    fix nm e1 l1 e' z'
    assume f: "find (\<lambda>b. fst b = data) ?es1 = Some (nm, e1, l1)" and le: "unat e' = spec_leak (unat (cx_rate ctx)) (unat now) l1 e1"
      and r: "ngx_http_limit_req_lookup ctx ?burst now (ucast (crc32 data)) data z1 =
        Some (if e' > ?burst then NGX_BUSY else if e' \<noteq> 0 then NGX_AGAIN else NGX_OK, e', z')"
    obtain i where i: "i < length ?es1" "fst (?es1 ! i) = data" "(nm, e1, l1) = ?es1 ! i" using f unfolding find_Some_iff by auto
    then have "(data, e1, l1) \<in> set ?es1" using nth_mem [OF i(1)] by (metis fst_conv)
    then have "map_of ?es1 data = Some (e1, l1)" using ds(2) by (simp add: map_of_is_SomeI)
    then have "(e1, l1) = (e, lt)" using m by simp
    then have u: "unat e' = e + 1000" using le c(2) by (simp add: spec_leak_def)
    then have "\<not> e' > ?burst" "e' \<noteq> 0" using e(3) by (auto simp: word_less_nat_alt)
    then show ?thesis using d c z1(1) r unfolding ngx_http_limit_req_handler_def by (simp add: limit_request0_def short_crc [OF t] Let_def)
  qed
qed

section \<open>The properties\<close>

text \<open>A concrete allocator, and a zone with it.\<close>

definition demo_slab :: slab_alloc where
  "demo_slab L n = (let p = foldr max (map (\<lambda>r. fst r + snd r) L) 4095 + 1 in if p + n < 2 ^ 64 then p else NULL)"

lemma foldr_max: "x \<in> set xs \<Longrightarrow> x \<le> foldr max xs (a :: nat)"
  by (induction xs) auto

lemma demo_slab_ok: "slab_ok demo_slab"
  unfolding slab_ok_def
proof (intro allI impI)
  fix L n assume L: "regions L" "demo_slab L n \<noteq> NULL"
  let ?p = "foldr max (map (\<lambda>r. fst r + snd r) L) 4095 + 1"
  have p: "demo_slab L n = ?p" "?p + n < 2 ^ 64" using L(2) by (auto simp: demo_slab_def Let_def split: if_splits)
  have b: "fst r + snd r < ?p" if "r \<in> set L" for r
    using foldr_max [of "fst r + snd r" "map (\<lambda>r. fst r + snd r) L" 4095] that by auto
  have "?p \<notin> fst ` set L" using b by fastforce
  moreover have "regions ((?p, n) # L)" using L(1) p(2) b unfolding regions_def by (force simp: rdisj_def)
  ultimately show "demo_slab L n \<notin> fst ` set L \<and> regions ((demo_slab L n, n) # L)" unfolding p(1) by blast
qed

definition demo_zone0 :: limit_zone where
  "demo_zone0 = \<lparr>lz_live = [], lz_pool_data = NULL, lz_log_ctx = NULL,
     lz_tree = \<lparr>tr_root = NULL, tr_sentinel = NULL, tr_insert = (\<lambda>_ _ _ _. None)\<rparr>,
     lz_heap = (\<lambda>_. \<lparr>nd_key = 0, nd_left = 0, nd_right = 0, nd_parent = 0, nd_color = 0\<rparr>),
     lz_queue = (\<lambda>_. \<lparr>q_prev = 0, q_next = 0\<rparr>), lz_nodes = (\<lambda>_. \<lparr>lr_len = 0, lr_last = 0, lr_excess = 0, lr_data = []\<rparr>)\<rparr>"

definition demo_ctx :: "u64 \<Rightarrow> limit_req_ctx" where
  "demo_ctx rate = \<lparr>cx_sh = 4096, cx_rate = rate, cx_index = 0, cx_var = bytes ''remote_addr''\<rparr>"

definition demo_zone :: limit_zone where
  "demo_zone = demo_zone0\<lparr>lz_live := [(4177, 25), (4096, 80)], lz_pool_data := 4096, lz_log_ctx := 4177,
     lz_tree := \<lparr>tr_root = 4120, tr_sentinel = 4120, tr_insert = ngx_http_limit_req_rbtree_insert_value (lz_nodes demo_zone0)\<rparr>,
     lz_heap := (lz_heap demo_zone0)(4120 := (lz_heap demo_zone0 4120)\<lparr>nd_color := 0\<rparr>),
     lz_queue := ngx_queue_init 4160 (lz_queue demo_zone0)\<rparr>"

lemma demo_init: "ngx_http_limit_req_init_zone demo_slab 3 False None (demo_ctx rate) demo_zone0 = Some (NGX_OK, demo_ctx rate, demo_zone)"
  by (simp add: ngx_http_limit_req_init_zone_def zone_alloc_def demo_slab_def demo_zone0_def demo_zone_def demo_ctx_def
      ngx_rbtree_init_def ngx_rbt_black_def Let_def)

lemma demo_live: "regions (lz_live demo_zone0)"
  by (simp add: demo_zone0_def regions_def)

definition demo_conf :: "u64 \<Rightarrow> u64 \<Rightarrow> limit_req_conf" where
  "demo_conf rate burst = \<lparr>lc_shm_zone = Some (demo_ctx rate), lc_burst = burst, lc_limit_log_level = 4, lc_delay_log_level = 5, lc_nodelay = False\<rparr>"

abbreviation demo_reqs :: "(u64 \<times> byte list) list" where
  "demo_reqs \<equiv> [(1000, bytes ''a''), (1100, bytes ''a''), (1200, bytes ''b''), (1300, bytes ''a'')]"

lemma demo_values:
  "crc32_short_words (crc32_start 0) = ngx_crc32_table16" "lc_shm_zone (demo_conf r b) = Some (demo_ctx r)"
  "cx_rate (demo_ctx 1000) \<noteq> 0" "unat (cx_rate (demo_ctx 1000)) = 1000" "unat (lc_burst (demo_conf r 1000)) = 1000"
  "limits 1000 1000 10000" "limits 1000 1000 (Suc 1300)" "length demo_reqs = 4"
  "\<forall>(now, data) \<in> set demo_reqs. unat now < 10000 \<and> data \<noteq> [] \<and> length data < 256"
  "\<forall>(now, data) \<in> set [(900, bytes ''b'')]. unat (now :: u64) \<le> 1000 \<and> data \<noteq> [] \<and> length data < 256"
  "\<forall>(now, data) \<in> set demo_reqs. data \<noteq> [] \<and> length data < 256"
  "sorted (1000 # map (\<lambda>q. unat (fst q)) demo_reqs @ [1300])"
  by (simp_all add: crc32_start_def demo_conf_def demo_ctx_def limits_def)

text \<open>
  C38. Refinement of the request limits: from a new zone on, with a rate other than 0 and times below \<open>T\<close> such that
  the rate and the burst meet \<open>limits\<close> (the rate times \<open>T\<close>, and the burst, fit into 62 bits), every sequence of requests with values of
  1 to 255 bytes is answered as the leaky buckets of the specification say: accepted, delayed by the excess over the rate, or rejected with 503, where
  a full zone drops the bucket that was not used for longest.  In particular all requests return, and neither hash
  collisions nor the balancing of the tree nor the arithmetic of 64 bits are visible.
\<close>

theorem limit_req_refines:
  assumes "slab_ok slab" and "regions (lz_live z0)"
    and "ngx_http_limit_req_init_zone slab nlen False None ctx0 z0 = Some (NGX_OK, ctx, z)"
    and "crc32_short_words tbl = ngx_crc32_table16" and "lc_shm_zone lrcf = Some ctx" and "cx_rate ctx \<noteq> 0"
    and "limits (unat (cx_rate ctx)) (unat (lc_burst lrcf)) T"
    and "\<forall>(now, data) \<in> set reqs. unat now < T \<and> data \<noteq> [] \<and> length data < 256"
  shows "\<exists>ms z'. length ms = length reqs \<and> length (filter (\<lambda>m. \<not> fst m) ms) = limit_lack_count slab tbl lrcf ctx reqs z \<and>
    limit_serve slab tbl lrcf reqs z =
      Some (map (limit_answer lrcf ctx) (spec_serve (unat (cx_rate ctx)) (unat (lc_burst lrcf)) (limit_reqs reqs) ms []), z')"
  using serve_abs [OF assms(1,4,5,6,7) init_abs [OF assms(1,2,3)] assms(8)] by blast

theorem limit_req_refines_witness:
  "\<exists>ms z'. length ms = 4 \<and> length (filter (\<lambda>m. \<not> fst m) ms) =
      limit_lack_count demo_slab (crc32_start 0) (demo_conf 1000 1000) (demo_ctx 1000) demo_reqs demo_zone \<and>
    limit_serve demo_slab (crc32_start 0) (demo_conf 1000 1000) demo_reqs demo_zone =
      Some (map (limit_answer (demo_conf 1000 1000) (demo_ctx 1000)) (spec_serve 1000 1000 (limit_reqs demo_reqs) ms []), z')"
  using limit_req_refines [OF demo_slab_ok demo_live demo_init [of 1000] demo_values(1,2,3), of 1000 10000 demo_reqs] demo_values(6,9)
  unfolding demo_values(4,5,8) by blast

text \<open>
  C39. The limit is kept for values of 1 to 255 bytes: with a rate other than 0 that meets \<open>limits\<close>, and requests \<open>before\<close> and in a window from \<open>t0\<close> to \<open>t1\<close>
  in which the clock does not step back, all requests return, and those with the value \<open>x\<close> in the window that are not rejected with 503 number
  at most \<open>1 + burst\<close>, the rate times the window, and one per minute (a bucket that was idle for a minute is dropped and starts
  with one request for free); each time memory was lacking adds \<open>1 + burst\<close>.  Requests with longer values are never limited
  (\<open>limit_req_long\<close>), and are not part of the runs that the theorem is about.  In units of 1/60000000 request; \<open>rate\<close> and \<open>burst\<close>
  are in thousandths.
\<close>

theorem limit_req_rate:
  assumes "slab_ok slab" and "regions (lz_live z0)"
    and "ngx_http_limit_req_init_zone slab nlen False None ctx0 z0 = Some (NGX_OK, ctx, z)"
    and "crc32_short_words tbl = ngx_crc32_table16" and "lc_shm_zone lrcf = Some ctx" and "cx_rate ctx \<noteq> 0"
    and l: "limits (unat (cx_rate ctx)) (unat (lc_burst lrcf)) (Suc t1)"
    and before: "\<forall>(now, data) \<in> set before. unat now \<le> t0 \<and> data \<noteq> [] \<and> length data < 256"
    and reqs: "\<forall>(now, data) \<in> set reqs. data \<noteq> [] \<and> length data < 256" and so: "sorted (t0 # map (\<lambda>q. unat (fst q)) reqs @ [t1])"
  shows "\<exists>as0 z1 as z2. limit_serve slab tbl lrcf before z = Some (as0, z1) \<and> limit_serve slab tbl lrcf reqs z1 = Some (as, z2) \<and>
    60000000 * limit_admitted x reqs as \<le> (limit_lack_count slab tbl lrcf ctx reqs z1 + 1) * (60000 * unat (lc_burst lrcf) + 60000000) +
      (60 * unat (cx_rate ctx) + 1000) * (t1 - t0)"
proof -
  let ?rate = "unat (cx_rate ctx)" and ?burst = "unat (lc_burst lrcf)"
  have t: "t0 \<le> t1" using so by simp
  have l0: "limits ?rate ?burst (Suc t0)" using l by (rule limits_earlier) (use t in simp)
  have "\<forall>(now, data) \<in> set before. unat now < Suc t0 \<and> data \<noteq> [] \<and> length data < 256" using before by auto
  from serve_abs [OF assms(1,4,5,6) l0 init_abs [OF assms(1,2,3)] this] obtain as0 z1 es1 where
    s1: "limit_serve slab tbl lrcf before z = Some (as0, z1)" "limit_abs (cx_sh ctx) ?burst (Suc t0) z1 es1" by blast
  have q: "\<forall>(now, data) \<in> set reqs. unat now < Suc t1 \<and> data \<noteq> [] \<and> length data < 256"
    using reqs so by (fastforce simp: sorted_append)
  have a1: "limit_abs (cx_sh ctx) ?burst (Suc t1) z1 es1" using abs_later [OF s1(2)] t by simp
  from serve_abs [OF assms(1,4,5,6) l a1 q] obtain ms z2 where
    s2: "length ms = length reqs" "length (filter (\<lambda>m. \<not> fst m) ms) = limit_lack_count slab tbl lrcf ctx reqs z1"
      "limit_serve slab tbl lrcf reqs z1 = Some (map (limit_answer lrcf ctx) (spec_serve ?rate ?burst (limit_reqs reqs) ms es1), z2)" by blast
  have "tally ?rate ?burst t0 x 0 0 t0 es1" using s1(2) by (cases "map_of es1 x") (auto simp: tally_def limit_abs_def)
  moreover have "sorted (t0 # map fst (limit_reqs reqs) @ [t1])" using so by (simp add: limit_reqs_def o_def case_prod_unfold)
  moreover have "length ms = length (limit_reqs reqs)" using s2(1) by (simp add: limit_reqs_def)
  ultimately have "60000000 * (0 + spec_admitted x (limit_reqs reqs) (spec_serve ?rate ?burst (limit_reqs reqs) ms es1)) \<le>
    (0 + length (filter (\<lambda>m. \<not> fst m) ms) + 1) * (60000 * ?burst + 60000000) + (60 * ?rate + 1000) * (t1 - t0)" by (rule rate_run)
  then show ?thesis using s1(1) s2(2,3) admitted_spec [of x reqs lrcf ctx] by auto
qed

theorem limit_req_rate_witness:
  "\<exists>as0 z1 as z2. limit_serve demo_slab (crc32_start 0) (demo_conf 1000 1000) [(900, bytes ''b'')] demo_zone = Some (as0, z1) \<and>
    limit_serve demo_slab (crc32_start 0) (demo_conf 1000 1000) demo_reqs z1 = Some (as, z2) \<and>
    60000000 * limit_admitted (bytes ''a'') demo_reqs as \<le>
      (limit_lack_count demo_slab (crc32_start 0) (demo_conf 1000 1000) (demo_ctx 1000) demo_reqs z1 + 1) * (60000 * 1000 + 60000000) +
      (60 * 1000 + 1000) * (1300 - 1000)"
  using limit_req_rate [OF demo_slab_ok demo_live demo_init [of 1000] demo_values(1,2,3), of 1000 1300 "[(900, bytes ''b'')]" 1000 demo_reqs "bytes ''a''"]
    demo_values(7,10,11,12)
  unfolding demo_values(4,5) by blast

text \<open>
  C40. In every reachable state of a zone, whatever the requests, the tree is a red-black tree sorted by hash and value,
  the queue has exactly its nodes, and the nodes lie in disjoint regions of the slab pool; and with a rate other than 0 (see
  \<open>limit_req_rate_zero\<close>) the handler returns, without an access through a bad pointer or a wrong free.
\<close>

theorem limit_req_consistent:
  assumes "slab_ok slab" and "limit_reach slab ctx z"
  shows "(\<exists>xs qs. limit_hold (cx_sh ctx) z xs qs) \<and>
    (lc_shm_zone lrcf = Some ctx \<longrightarrow> cx_rate ctx \<noteq> 0 \<longrightarrow> ngx_http_limit_req_handler slab tbl lrcf var now ev r z \<noteq> None)"
proof -
  obtain xs qs where h: "limit_hold (cx_sh ctx) z xs qs" using reach_hold [OF assms(2,1)] by blast
  then show ?thesis using handler_hold [OF assms(1) h, of lrcf tbl var now ev r] by auto
qed

theorem limit_req_consistent_witness:
  "(\<exists>xs qs. limit_hold (cx_sh (demo_ctx 1000)) demo_zone xs qs) \<and>
    ngx_http_limit_req_handler demo_slab (crc32_start 0) (demo_conf 1000 1000) (\<lambda>_ _. Some (bytes ''a'')) 1000 NGX_OK limit_request0 demo_zone \<noteq> None"
  using limit_req_consistent [OF demo_slab_ok limit_reach.Start [OF demo_live demo_init [of 1000]],
      of "demo_conf 1000 1000" "crc32_start 0" "\<lambda>_ _. Some (bytes ''a'')" 1000 NGX_OK limit_request0]
  by (simp add: demo_conf_def demo_ctx_def)

end
