(* ===== verification/Ngx_Parse.thy ===== *)
theory Ngx_Parse
  imports Ngx_String_Num
begin

text \<open>
  Sizes, offsets and times of the configuration, \<^verbatim>\<open>src/core/ngx_parse.c\<close>.

  Shown: a time is the sum of its parts, each number modulo \<open>2 ^ 64\<close>, and the sum is checked against the limit; a size is the number
  times its unit as long as the product fits, and wraps around otherwise.
\<close>

section \<open>The functions\<close>

text \<open>The unit is read at \<open>data[len - 1]\<close>; of an empty string that is the byte \<open>before\<close> it.\<close>

definition ngx_parse_size :: "byte \<Rightarrow> byte list \<Rightarrow> ngx_int" where
  "ngx_parse_size before line =
     (let unit = last (before # line);
          (digits, scale) =
            (if unit = asc CHR ''K'' \<or> unit = asc CHR ''k'' then (butlast line, 1024)
             else if unit = asc CHR ''M'' \<or> unit = asc CHR ''m'' then (butlast line, 1024 * 1024)
             else (line, 1));
          sz = ngx_atosz digits
      in if sz = NGX_ERROR_INT then NGX_ERROR_INT else sz * scale)"

definition ngx_parse_offset :: "byte \<Rightarrow> byte list \<Rightarrow> ngx_int" where
  "ngx_parse_offset before line =
     (let unit = last (before # line);
          (digits, scale) =
            (if unit = asc CHR ''K'' \<or> unit = asc CHR ''k'' then (butlast line, 1024)
             else if unit = asc CHR ''M'' \<or> unit = asc CHR ''m'' then (butlast line, 1024 * 1024)
             else if unit = asc CHR ''G'' \<or> unit = asc CHR ''g'' then (butlast line, 1024 * 1024 * 1024)
             else (line, 1));
          ofs = ngx_atoof digits
      in if ofs = NGX_ERROR_INT then NGX_ERROR_INT else ofs * scale)"

text \<open>The states of \<open>ngx_parse_time\<close>, in the order of the enumeration.\<close>

abbreviation (input) st_start :: nat where "st_start \<equiv> 0"
abbreviation (input) st_year :: nat where "st_year \<equiv> 1"
abbreviation (input) st_month :: nat where "st_month \<equiv> 2"
abbreviation (input) st_week :: nat where "st_week \<equiv> 3"
abbreviation (input) st_day :: nat where "st_day \<equiv> 4"
abbreviation (input) st_hour :: nat where "st_hour \<equiv> 5"
abbreviation (input) st_min :: nat where "st_min \<equiv> 6"
abbreviation (input) st_sec :: nat where "st_sec \<equiv> 7"
abbreviation (input) st_msec :: nat where "st_msec \<equiv> 8"
abbreviation (input) st_last :: nat where "st_last \<equiv> 9"

abbreviation (input) NGX_MAX_INT32_VALUE :: u64 where "NGX_MAX_INT32_VALUE \<equiv> 0x7fffffff"

text \<open>The \<open>switch\<close>: the new step, \<open>max\<close>, \<open>scale\<close>, and whether the \<open>s\<close> of \<open>ms\<close> is skipped.  \<open>next_c\<close> is the byte at \<open>p\<close> after \<open>*p++\<close>.\<close>

definition parse_time_unit :: "bool \<Rightarrow> nat \<Rightarrow> byte \<Rightarrow> byte \<Rightarrow> (nat \<times> u64 \<times> u64 \<times> bool) option" where
  "parse_time_unit is_sec step c next_c =
     (if c = asc CHR ''y'' then
        if step > st_start then None
        else Some (st_year, NGX_MAX_INT32_VALUE div (60 * 60 * 24 * 365), 60 * 60 * 24 * 365, False)
      else if c = asc CHR ''M'' then
        if step \<ge> st_month then None
        else Some (st_month, NGX_MAX_INT32_VALUE div (60 * 60 * 24 * 30), 60 * 60 * 24 * 30, False)
      else if c = asc CHR ''w'' then
        if step \<ge> st_week then None
        else Some (st_week, NGX_MAX_INT32_VALUE div (60 * 60 * 24 * 7), 60 * 60 * 24 * 7, False)
      else if c = asc CHR ''d'' then
        if step \<ge> st_day then None
        else Some (st_day, NGX_MAX_INT32_VALUE div (60 * 60 * 24), 60 * 60 * 24, False)
      else if c = asc CHR ''h'' then
        if step \<ge> st_hour then None
        else Some (st_hour, NGX_MAX_INT32_VALUE div (60 * 60), 60 * 60, False)
      else if c = asc CHR ''m'' then
        if next_c = asc CHR ''s'' then
          if is_sec \<or> step \<ge> st_msec then None else Some (st_msec, NGX_MAX_INT32_VALUE, 1, True)
        else if step \<ge> st_min then None
        else Some (st_min, NGX_MAX_INT32_VALUE div 60, 60, False)
      else if c = asc CHR ''s'' then
        if step \<ge> st_sec then None else Some (st_sec, NGX_MAX_INT32_VALUE, 1, False)
      else if c = SP then
        if step \<ge> st_sec then None else Some (st_last, NGX_MAX_INT32_VALUE, 1, False)
      else None)"

text \<open>The loop; \<open>after\<close> is the byte behind the string, which the code may read.  \<open>value\<close> and \<open>total\<close> are signed in the code; an overflow,
  undefined in C, is taken to wrap around.\<close>

function parse_time_loop :: "byte \<Rightarrow> bool \<Rightarrow> nat \<Rightarrow> u64 \<Rightarrow> u64 \<Rightarrow> u64 \<Rightarrow> bool \<Rightarrow> byte list \<Rightarrow> ngx_int" where
  "parse_time_loop after is_sec step val tot scale valid [] = (if valid then tot + val * scale else NGX_ERROR_INT)"
| "parse_time_loop after is_sec step val tot scale valid (c # p) =
     (if c \<ge> asc CHR ''0'' \<and> c \<le> asc CHR ''9''
      then parse_time_loop after is_sec step (val * 10 + (ucast c - ucast (asc CHR ''0'' :: byte))) tot scale True p
      else case parse_time_unit is_sec step c (hd (p @ [after])) of
        None \<Rightarrow> NGX_ERROR_INT
      | Some (step, mx, scale, two) \<Rightarrow>
          let p = (if two then tl p else p);
              (scale, mx) = (if step \<noteq> st_msec \<and> \<not> is_sec then (scale * 1000, mx div 1000) else (scale, mx))
          in if val > mx then NGX_ERROR_INT
             else
               let tot = tot + val * scale
               in if tot > NGX_MAX_INT32_VALUE then NGX_ERROR_INT
                  else parse_time_loop after is_sec step 0 tot (if is_sec then 1 else 1000) valid (dropWhile (\<lambda>c. c = SP) p))"
  by pat_completeness auto

termination
  by (relation "measure (\<lambda>(after, is_sec, step, val, tot, scale, valid, p). length p)")
    (auto simp: less_Suc_eq_le intro!: order_trans [OF length_dropWhile_le] split: if_splits)

definition ngx_parse_time :: "byte \<Rightarrow> byte list \<Rightarrow> bool \<Rightarrow> ngx_int" where
  "ngx_parse_time after line is_sec =
     parse_time_loop after is_sec (if is_sec then st_start else st_month) 0 0 (if is_sec then 1 else 1000) False line"

section \<open>Times\<close>

text \<open>
  The units with their names and their lengths, in seconds or milliseconds, and times written with them.  A number is read
  into 64 bits without a check, so a part counts with its number modulo \<open>2 ^ 64\<close>.
\<close>

definition time_suffix :: "nat \<Rightarrow> byte list" where
  "time_suffix step = map bytes [''?'', ''y'', ''M'', ''w'', ''d'', ''h'', ''m'', ''s'', ''ms''] ! step"

definition time_scale :: "bool \<Rightarrow> nat \<Rightarrow> nat" where
  "time_scale is_sec step =
    (if step = 8 then 1
     else (if is_sec then 1 else 1000) * ([0, 365 * 86400, 30 * 86400, 7 * 86400, 86400, 3600, 60, 1] ! step))"

definition time_steps :: "bool \<Rightarrow> nat list" where
  "time_steps is_sec = (if is_sec then [1, 2, 3, 4, 5, 6, 7] else [3, 4, 5, 6, 7, 8])"

definition time_text :: "(nat \<times> byte list) list \<Rightarrow> byte list" where
  "time_text parts = concat (map (\<lambda>(step, ds). ds @ time_suffix step) parts)"

definition time_sum :: "bool \<Rightarrow> (nat \<times> byte list) list \<Rightarrow> nat" where
  "time_sum is_sec parts = sum_list (map (\<lambda>(step, ds). dec_value ds mod 2 ^ 64 * time_scale is_sec step) parts)"

definition time_parts :: "bool \<Rightarrow> (nat \<times> byte list) list \<Rightarrow> bool" where
  "time_parts is_sec parts \<longleftrightarrow> sorted_wrt (<) (map fst parts) \<and>
    (\<forall>(step, ds) \<in> set parts. step \<in> set (time_steps is_sec) \<and> ds \<noteq> [] \<and> list_all is_digit ds)"

text \<open>The \<open>switch\<close> and the assignments behind it, for a unit that may follow.\<close>

definition time_unit_ok :: "bool \<Rightarrow> nat \<Rightarrow> nat \<Rightarrow> byte list \<Rightarrow> byte \<Rightarrow> bool" where
  "time_unit_ok is_sec step0 step p after \<longleftrightarrow>
    (case parse_time_unit is_sec step0 (hd (time_suffix step)) (hd (tl (time_suffix step) @ p @ [after])) of
       None \<Rightarrow> False
     | Some (step', mx, scale, two) \<Rightarrow>
         step' = step \<and> (if two then tl (tl (time_suffix step) @ p) else tl (time_suffix step) @ p) = p \<and>
         (let (scale, mx) = (if step' \<noteq> st_msec \<and> \<not> is_sec then (scale * 1000, mx div 1000) else (scale, mx))
          in unat scale = time_scale is_sec step \<and> unat mx = 2147483647 div time_scale is_sec step))"

lemma unit_ok:
  assumes "step \<in> set (time_steps is_sec)" "step0 < step" "hd (p @ [after]) \<noteq> asc CHR ''s''"
  shows "time_unit_ok is_sec step0 step p after"
proof (cases is_sec)
  case True
  then have "step = 1 \<or> step = 2 \<or> step = 3 \<or> step = 4 \<or> step = 5 \<or> step = 6 \<or> step = 7" using assms(1) by (simp add: time_steps_def)
  then show ?thesis using assms(2,3) True
    by (elim disjE) (simp_all add: time_unit_ok_def time_suffix_def time_scale_def parse_time_unit_def)
next
  case False
  then have "step = 3 \<or> step = 4 \<or> step = 5 \<or> step = 6 \<or> step = 7 \<or> step = 8" using assms(1) by (simp add: time_steps_def)
  then show ?thesis using assms(2,3) False
    by (elim disjE) (simp_all add: time_unit_ok_def time_suffix_def time_scale_def parse_time_unit_def)
qed

lemma suffix_start: "step \<in> set (time_steps is_sec) \<Longrightarrow> time_suffix step \<noteq> [] \<and> \<not> is_digit (hd (time_suffix step))"
  by (cases is_sec) (auto simp: time_steps_def time_suffix_def is_digit_def)

lemma time_digits:
  "list_all is_digit ds \<Longrightarrow> ds \<noteq> [] \<or> valid \<Longrightarrow>
    parse_time_loop after is_sec step (of_nat v) tot scale valid (ds @ p) =
    parse_time_loop after is_sec step (of_nat (foldl (\<lambda>a c. a * 10 + (unat c - 48)) v ds)) tot scale True p"
proof (induction ds arbitrary: v valid)
  case (Cons c ds)
  have "c \<ge> 48" "c \<le> 57" "is_digit c" using Cons.prems(1) by (auto simp: is_digit_def)
  moreover have "of_nat v * 10 + (ucast c - 48) = (of_nat (v * 10 + (unat c - 48)) :: u64)" using ato_digit [of c] \<open>is_digit c\<close> by simp
  ultimately show ?case using Cons.IH [of True "v * 10 + (unat c - 48)"] Cons.prems(1) by simp
qed auto

lemma max_less: "n < 2 ^ 64 \<Longrightarrow> NGX_MAX_INT32_VALUE < of_nat n \<longleftrightarrow> 2147483647 < n"
  by (simp add: word_less_nat_alt unat_of_nat)

lemma time_step:
  assumes s: "step \<in> set (time_steps is_sec)" "step0 < step" and p: "hd (p @ [after]) \<noteq> asc CHR ''s''" "p \<noteq> [] \<Longrightarrow> hd p \<noteq> SP"
    and v: "v < 2 ^ 64" and t: "t \<le> 2147483647"
  shows "parse_time_loop after is_sec step0 (of_nat v) (of_nat t) sc True (time_suffix step @ p) =
    (if t + v * time_scale is_sec step \<le> 2147483647
     then parse_time_loop after is_sec step 0 (of_nat (t + v * time_scale is_sec step)) (if is_sec then 1 else 1000) True p
     else NGX_ERROR_INT)"
proof -
  let ?k = "time_scale is_sec step"
  obtain c q where c: "time_suffix step = c # q" "\<not> is_digit c" using suffix_start [OF s(1)] by (cases "time_suffix step") auto
  obtain mx scale two where u: "parse_time_unit is_sec step0 c (hd ((q @ p) @ [after])) = Some (step, mx, scale, two)"
    "(if two then tl (q @ p) else q @ p) = p"
    and w: "let (scale, mx) = (if step \<noteq> st_msec \<and> \<not> is_sec then (scale * 1000, mx div 1000) else (scale, mx))
          in unat scale = ?k \<and> unat mx = 2147483647 div ?k"
    using unit_ok [OF s p(1)] unfolding time_unit_ok_def c(1) list.sel by (auto split: option.splits)
  obtain scale' mx' where sm: "(if step \<noteq> st_msec \<and> \<not> is_sec then (scale * 1000, mx div 1000) else (scale, mx)) = (scale', mx')"
    "unat scale' = ?k" "unat mx' = 2147483647 div ?k" using w by (auto simp: Let_def split: if_splits)
  have dw: "dropWhile (\<lambda>c. c = SP) p = p" using p(2) by (cases p) auto
  have l: "parse_time_loop after is_sec step0 (of_nat v) (of_nat t) sc True (time_suffix step @ p) =
    (if of_nat v > mx' then NGX_ERROR_INT
     else if of_nat t + of_nat v * scale' > NGX_MAX_INT32_VALUE then NGX_ERROR_INT
     else parse_time_loop after is_sec step 0 (of_nat t + of_nat v * scale') (if is_sec then 1 else 1000) True p)"
    using c(2) u(2) dw unfolding c(1) append_Cons parse_time_loop.simps u(1) option.case prod.case sm(1) Let_def
    by (auto simp: is_digit_def)
  have k: "0 < ?k" using s(1) by (cases is_sec) (auto simp: time_steps_def time_scale_def)
  have vm: "of_nat v > mx' \<longleftrightarrow> 2147483647 < v * ?k"
    using v sm(3) k by (simp add: word_less_nat_alt unat_of_nat div_less_iff_less_mult)
  have sc: "scale' = of_nat ?k" using sm(2) [symmetric] by simp
  have e: "of_nat t + of_nat v * scale' = (of_nat (t + v * ?k) :: u64)" by (simp add: sc)
  have "of_nat (t + v * ?k) > NGX_MAX_INT32_VALUE \<longleftrightarrow> 2147483647 < t + v * ?k" if "v * ?k \<le> 2147483647"
    by (rule max_less) (use that t in simp)
  then show ?thesis unfolding l e vm by auto
qed

lemma text_start:
  assumes "time_parts is_sec parts" "list_all is_digit ds" "after \<noteq> asc CHR ''s''"
  shows "hd ((time_text parts @ ds) @ [after]) \<noteq> asc CHR ''s''" "time_text parts @ ds \<noteq> [] \<Longrightarrow> hd (time_text parts @ ds) \<noteq> SP"
proof -
  have "is_digit (hd (time_text parts @ ds))" if ne: "time_text parts @ ds \<noteq> []"
  proof (cases parts)
    case Nil
    then show ?thesis using ne assms(2) by (cases ds) (auto simp: time_text_def)
  next
    case (Cons x ps)
    obtain step es where x: "x = (step, es)" by (cases x)
    then have "es \<noteq> []" "list_all is_digit es" using assms(1) Cons by (auto simp: time_parts_def)
    then show ?thesis using Cons x by (cases es) (simp_all add: time_text_def)
  qed
  moreover have "hd (xs @ [after]) \<noteq> asc CHR ''s'' \<and> (xs \<noteq> [] \<longrightarrow> hd xs \<noteq> SP)" if "xs \<noteq> [] \<Longrightarrow> is_digit (hd xs)" for xs
    using that assms(3) by (cases xs) (auto simp: is_digit_def)
  ultimately show "hd ((time_text parts @ ds) @ [after]) \<noteq> asc CHR ''s''" "time_text parts @ ds \<noteq> [] \<Longrightarrow> hd (time_text parts @ ds) \<noteq> SP"
    by blast+
qed

lemma of_nat_mod_64: "(of_nat (n mod 2 ^ 64) :: u64) = of_nat n"
  by (simp add: word_of_nat_eq_iff take_bit_eq_mod)

lemma time_run:
  assumes "time_parts is_sec parts" "\<forall>step \<in> fst ` set parts. step0 < step" "after \<noteq> asc CHR ''s''" "t \<le> 2147483647" "list_all is_digit ds"
  shows "parse_time_loop after is_sec step0 0 (of_nat t) (if is_sec then 1 else 1000) True (time_text parts @ ds) =
    (if t + time_sum is_sec parts \<le> 2147483647
     then of_nat (t + time_sum is_sec parts + dec_value ds * (if is_sec then 1 else 1000)) else NGX_ERROR_INT)"
  using assms
proof (induction parts arbitrary: step0 t)
  case Nil
  then show ?case using time_digits [OF Nil.prems(5), of True after is_sec step0 0 "of_nat t" "if is_sec then 1 else 1000" "[]"]
    by (simp add: time_text_def time_sum_def dec_value_def)
next
  case (Cons x parts)
  obtain step es where x: "x = (step, es)" by (cases x)
  have p: "time_parts is_sec parts" "step \<in> set (time_steps is_sec)" "es \<noteq> []" "list_all is_digit es"
    "\<forall>s \<in> fst ` set parts. step < s" "step0 < step" using Cons.prems(1,2) x by (auto simp: time_parts_def)
  let ?k = "time_scale is_sec step" and ?v = "dec_value es mod 2 ^ 64"
  note st = text_start [OF p(1) Cons.prems(5,3)]
  have v: "?v < 2 ^ 64" by simp
  have "parse_time_loop after is_sec step0 0 (of_nat t) (if is_sec then 1 else 1000) True (time_text (x # parts) @ ds) =
      parse_time_loop after is_sec step0 (of_nat ?v) (of_nat t) (if is_sec then 1 else 1000) True (time_suffix step @ time_text parts @ ds)"
    using time_digits [OF p(4), of True after is_sec step0 0] unfolding of_nat_mod_64 by (simp add: time_text_def x dec_value_def)
  also have "\<dots> = (if t + ?v * ?k \<le> 2147483647
     then parse_time_loop after is_sec step 0 (of_nat (t + ?v * ?k)) (if is_sec then 1 else 1000) True (time_text parts @ ds) else NGX_ERROR_INT)"
    by (rule time_step [OF p(2,6) st v Cons.prems(4)])
  finally show ?case using Cons.IH [OF p(1,5) Cons.prems(3) _ Cons.prems(5), of "t + ?v * ?k"] by (auto simp: time_sum_def x)
qed

text \<open>
  C37. A time written with numbers and units, the larger units first and with no spaces, and perhaps a last number without
  a unit, is read as the sum of its parts, in seconds or in milliseconds.  The sum of the parts with a unit is checked: if it
  exceeds \<open>2 ^ 31 - 1\<close> the result is \<open>NGX_ERROR\<close>.  A number counts modulo \<open>2 ^ 64\<close>, since reading its digits is not checked for
  overflow, and the last number without a unit, which counts as seconds, is added after the check, modulo \<open>2 ^ 64\<close>.  The
  byte behind the text, which is looked at after an \<open>m\<close>, is not an \<open>s\<close>.
\<close>

theorem parse_time_sum:
  assumes "time_parts is_sec parts" and "list_all is_digit ds" and "parts \<noteq> [] \<or> ds \<noteq> []" and "after \<noteq> asc CHR ''s''"
  shows "ngx_parse_time after (time_text parts @ ds) is_sec =
    (if time_sum is_sec parts \<le> 2147483647
     then of_nat (time_sum is_sec parts + dec_value ds * (if is_sec then 1 else 1000)) else NGX_ERROR_INT)"
proof -
  let ?s0 = "if is_sec then st_start else st_month" and ?sc = "if is_sec then 1 else 1000"
  have "\<forall>step \<in> fst ` set parts. ?s0 < step" using assms(1) by (fastforce simp: time_parts_def time_steps_def)
  from time_run [OF assms(1) this assms(4) _ assms(2), of 0]
  have r: "parse_time_loop after is_sec ?s0 0 0 ?sc True (time_text parts @ ds) =
    (if time_sum is_sec parts \<le> 2147483647
     then of_nat (time_sum is_sec parts + dec_value ds * (if is_sec then 1 else 1000)) else NGX_ERROR_INT)" by simp
  obtain es q where e: "time_text parts @ ds = es @ q" "es \<noteq> []" "list_all is_digit es"
  proof (cases parts)
    case Nil
    then show thesis using that [of ds "[]"] assms(2,3) by (simp add: time_text_def)
  next
    case (Cons x ps)
    obtain step es where x: "x = (step, es)" by (cases x)
    then have "es \<noteq> []" "list_all is_digit es" using assms(1) Cons by (auto simp: time_parts_def)
    then show thesis using that [of es "time_suffix step @ time_text ps @ ds"] Cons x by (simp add: time_text_def)
  qed
  have "parse_time_loop after is_sec ?s0 0 0 ?sc False (time_text parts @ ds) = parse_time_loop after is_sec ?s0 0 0 ?sc True (time_text parts @ ds)"
    using time_digits [OF e(3), of _ after is_sec ?s0 0 0 ?sc q] e(2) unfolding e(1) by simp
  then show ?thesis using r by (simp add: ngx_parse_time_def)
qed

theorem parse_time_sum_witness: "ngx_parse_time 0 (bytes ''1h30m7'') True = 5407"
  using parse_time_sum [of True "[(5, bytes ''1''), (6, bytes ''30'')]" "bytes ''7''" 0]
  by (simp add: time_parts_def time_steps_def time_text_def time_sum_def time_suffix_def time_scale_def is_digit_def dec_value_def)

text \<open>The digits of a number are read without a check for overflow: a time of more than \<open>2 ^ 64\<close> seconds is accepted as one second.\<close>

lemma parse_time_wraps: "ngx_parse_time 0 (bytes ''18446744073709551617s'') True = 1"
  unfolding ngx_parse_time_def by (simp add: parse_time_unit_def)

text \<open>A number without a unit at the end is not checked against the limit.\<close>

lemma parse_time_trailing: "ngx_parse_time 0 (bytes ''4294967296'') True = 4294967296"
  unfolding ngx_parse_time_def by simp

text \<open>Sizes: right as long as the result has 63 bits, but the product is not checked.\<close>

lemma scaled_size:
  assumes "ds \<noteq> []" "list_all is_digit ds" "dec_value ds * k < 2 ^ 63" "0 < k"
  shows "ngx_atosz ds \<noteq> NGX_ERROR_INT \<and> ngx_atosz ds * of_nat k = of_nat (dec_value ds * k)"
proof -
  have "dec_value ds * 1 \<le> dec_value ds * k" using assms(4) by (intro mult_le_mono2) simp
  then have l: "dec_value ds < 2 ^ 63" using assms(3) by linarith
  then have a: "ngx_atosz ds = of_nat (dec_value ds)" 
  proof -
    have "ngx_atosz ds = ngx_atoi ds" by (simp add: ngx_atosz_def ngx_atoi_def)
    then show ?thesis using assms(1,2) l by (simp add: ngx_atoi_spec ato_spec_def)
  qed
  have "(of_nat (dec_value ds) :: u64) \<noteq> - 1"
  proof
    assume "(of_nat (dec_value ds) :: u64) = - 1"
    then have "unat (of_nat (dec_value ds) :: u64) = unat (- 1 :: u64)" by simp
    then show False using l by (simp add: unat_of_nat unsigned_minus_1_eq_mask mask_eq_exp_minus_1)
  qed
  then show ?thesis using a by simp
qed

lemma parse_size_scaled:
  assumes "ds \<noteq> []" "list_all is_digit ds" "dec_value ds * 1024 ^ i < 2 ^ 63" "(i, u) \<in> {(0, []), (1, bytes ''k''), (1, bytes ''K''), (2, bytes ''m''), (2, bytes ''M'')}"
  shows "ngx_parse_size before (ds @ u) = of_nat (dec_value ds * 1024 ^ i)"
proof -
  have l: "is_digit (last ds)" using assms(1,2) by (simp add: list_all_iff)
  note s = scaled_size [OF assms(1-3)]
  show ?thesis using assms(4,1) s l
    by (auto simp: ngx_parse_size_def is_digit_def Let_def butlast_append)
qed

lemma parse_size_wraps: "ngx_parse_size 0 (bytes ''17592186044416m'') = 0"
  by (simp add: ngx_parse_size_def ngx_atosz_def ngx_not_negative_def Let_def)

lemma parse_size_empty: "ngx_parse_size 0 [] = NGX_ERROR_INT"
  by (simp add: ngx_parse_size_def ngx_atosz_def)

end
