(* ===== verification/Ngx_Http_Limit_Req_Conf.thy ===== *)
theory Ngx_Http_Limit_Req_Conf
  imports Ngx_Http_Limit_Rate Ngx_Parse "HOL-Library.Signed_Division"
begin

text \<open>
  The directives \<open>limit_req_zone\<close> and \<open>limit_req\<close> and the rest of the configuration of
  \<^verbatim>\<open>src/http/modules/ngx_http_limit_req_module.c\<close>.

  Shown: the rate and the burst that well-formed directives set, and two values that are accepted by mistake.
\<close>

section \<open>The directives\<close>

text \<open>The result of a directive: \<open>NGX_CONF_OK\<close>, an error that was logged, or a message.\<close>

datatype conf_rc = NGX_CONF_OK | NGX_CONF_ERROR | Conf_message string

abbreviation (input) NGX_CONF_UNSET_UINT :: u64 where "NGX_CONF_UNSET_UINT \<equiv> - 1"
abbreviation (input) NGX_LOG_ERR :: u64 where "NGX_LOG_ERR \<equiv> 4"
abbreviation (input) NGX_LOG_INFO :: u64 where "NGX_LOG_INFO \<equiv> 7"

text \<open>\<open>ngx_strncmp(v, s, n) == 0\<close> for a constant \<open>s\<close> of length \<open>n\<close>.\<close>

definition has_prefix :: "string \<Rightarrow> byte list \<Rightarrow> bool" where
  "has_prefix s v \<longleftrightarrow> take (length s) v = bytes s"

text \<open>The configuration of a location, and its merge with that of the enclosing one.  \<open>pcalloc\<close> says whether the allocation succeeds.\<close>

definition ngx_http_limit_req_create_conf :: "bool \<Rightarrow> limit_req_conf option" where
  "ngx_http_limit_req_create_conf pcalloc =
     (if \<not> pcalloc then None
      else Some \<lparr>lc_shm_zone = None, lc_burst = 0, lc_limit_log_level = NGX_CONF_UNSET_UINT, lc_delay_log_level = 0, lc_nodelay = False\<rparr>)"

definition ngx_http_limit_req_merge_conf :: "limit_req_conf \<Rightarrow> limit_req_conf \<Rightarrow> limit_req_conf" where
  "ngx_http_limit_req_merge_conf prev conf =
     (let conf = (if lc_shm_zone conf = None
                  then conf\<lparr>lc_shm_zone := lc_shm_zone prev, lc_burst := lc_burst prev, lc_nodelay := lc_nodelay prev\<rparr>
                  else conf);
          conf = (if lc_limit_log_level conf = NGX_CONF_UNSET_UINT
                  then conf\<lparr>lc_limit_log_level :=
                    (if lc_limit_log_level prev = NGX_CONF_UNSET_UINT then NGX_LOG_ERR else lc_limit_log_level prev)\<rparr>
                  else conf)
      in conf\<lparr>lc_delay_log_level :=
           (if lc_limit_log_level conf = NGX_LOG_INFO then NGX_LOG_INFO else lc_limit_log_level conf + 1)\<rparr>)"

text \<open>\<open>ngx_http_limit_req_zone\<close>: the variables of the loop over the arguments, its body, the loop, and the function.  The
  index of the variable and the result of \<open>ngx_shared_memory_add\<close>, with the data of the zone, are parameters; the result has the name, the size and
  the context of the zone.  \<open>rate * 1000 / scale\<close> is a signed division.\<close>

record zone_args =
  za_ctx :: "limit_req_ctx option"
  za_size :: u64
  za_rate :: ngx_int
  za_scale :: ngx_int
  za_name :: "byte list"

definition limit_req_zone_arg :: "bool \<Rightarrow> (byte list \<Rightarrow> ngx_int) \<Rightarrow> byte list \<Rightarrow> zone_args \<Rightarrow> zone_args option" where
  "limit_req_zone_arg pcalloc get_variable_index v a =
     (if has_prefix ''zone='' v then
        let name = drop 5 v; n = length (takeWhile (\<lambda>c. c \<noteq> asc CHR '':'' \<and> c \<noteq> 0) name)
        in if n < length name \<and> name ! n = asc CHR '':'' then
             let sz = ngx_parse_size 0 (drop (n + 1) name)
             in if sz > 8191 then Some (a\<lparr>za_name := take n name, za_size := sz\<rparr>) else None
           else None
      else if has_prefix ''rate='' v then
        let p = drop (length v - 3) v;
            (len, scale) = (if p = bytes ''r/s'' then (length v - 3, 1)
                            else if p = bytes ''r/m'' then (length v - 3, 60)
                            else (length v, za_scale a));
            rate = ngx_atoi (take (len - 5) (drop 5 v))
        in if sint rate \<le> -1 then None else Some (a\<lparr>za_rate := rate, za_scale := scale\<rparr>)
      else if v \<noteq> [] \<and> hd v = asc CHR ''$'' then
        if \<not> pcalloc then None
        else let index = get_variable_index (tl v)
             in if index = NGX_ERROR_INT then None
                else Some (a\<lparr>za_ctx := Some \<lparr>cx_sh = NULL, cx_rate = 0, cx_index = index, cx_var = tl v\<rparr>\<rparr>)
      else None)"

fun limit_req_zone_args :: "bool \<Rightarrow> (byte list \<Rightarrow> ngx_int) \<Rightarrow> byte list list \<Rightarrow> zone_args \<Rightarrow> zone_args option" where
  "limit_req_zone_args pcalloc get_variable_index [] a = Some a"
| "limit_req_zone_args pcalloc get_variable_index (v # vs) a = do {
     a \<leftarrow> limit_req_zone_arg pcalloc get_variable_index v a;
     limit_req_zone_args pcalloc get_variable_index vs a }"

definition ngx_http_limit_req_zone ::
  "bool \<Rightarrow> (byte list \<Rightarrow> ngx_int) \<Rightarrow> (byte list \<Rightarrow> u64 \<Rightarrow> limit_req_ctx option option) \<Rightarrow> byte list list \<Rightarrow>
   conf_rc \<times> (byte list \<times> u64 \<times> limit_req_ctx) option" where
  "ngx_http_limit_req_zone pcalloc get_variable_index shared_memory_add args =
     (case limit_req_zone_args pcalloc get_variable_index args
             \<lparr>za_ctx = None, za_size = 0, za_rate = 1, za_scale = 1, za_name = []\<rparr> of
        None \<Rightarrow> (NGX_CONF_ERROR, None)
      | Some a \<Rightarrow>
          if za_name a = [] \<or> za_size a = 0 then (NGX_CONF_ERROR, None)
          else (case za_ctx a of
            None \<Rightarrow> (NGX_CONF_ERROR, None)
          | Some ctx \<Rightarrow>
              let ctx = ctx\<lparr>cx_rate := word_of_int (sint (za_rate a * 1000) sdiv sint (za_scale a))\<rparr>
              in (case shared_memory_add (za_name a) (za_size a) of
                    None \<Rightarrow> (NGX_CONF_ERROR, None)
                  | Some (Some _) \<Rightarrow> (NGX_CONF_ERROR, None)
                  | Some None \<Rightarrow> (NGX_CONF_OK, Some (za_name a, za_size a, ctx)))))"

text \<open>\<open>ngx_http_limit_req\<close>: the loop, and the function.\<close>

fun limit_req_args ::
  "(byte list \<Rightarrow> u64 \<Rightarrow> limit_req_ctx option option) \<Rightarrow> byte list list \<Rightarrow> limit_req_ctx option option \<Rightarrow> ngx_int \<Rightarrow> bool \<Rightarrow>
   (limit_req_ctx option option \<times> ngx_int \<times> bool) option" where
  "limit_req_args shared_memory_add [] zn burst nodelay = Some (zn, burst, nodelay)"
| "limit_req_args shared_memory_add (v # vs) zn burst nodelay =
     (if has_prefix ''zone='' v then
        (case shared_memory_add (drop 5 v) 0 of
           None \<Rightarrow> None
         | Some data \<Rightarrow> limit_req_args shared_memory_add vs (Some data) burst nodelay)
      else if has_prefix ''burst='' v then
        let burst = ngx_atoi (drop 6 v)
        in if sint burst \<le> 0 then None else limit_req_args shared_memory_add vs zn burst nodelay
      else if has_prefix ''nodelay'' v then limit_req_args shared_memory_add vs zn burst True
      else None)"

definition ngx_http_limit_req ::
  "(byte list \<Rightarrow> u64 \<Rightarrow> limit_req_ctx option option) \<Rightarrow> byte list list \<Rightarrow> limit_req_conf \<Rightarrow> conf_rc \<times> limit_req_conf" where
  "ngx_http_limit_req shared_memory_add args lrcf =
     (if lc_shm_zone lrcf \<noteq> None then (Conf_message ''is duplicate'', lrcf)
      else case limit_req_args shared_memory_add args None 0 (lc_nodelay lrcf) of
        Some (Some (Some ctx), burst, nodelay) \<Rightarrow>
          (NGX_CONF_OK, lrcf\<lparr>lc_shm_zone := Some ctx, lc_burst := burst * 1000, lc_nodelay := nodelay\<rparr>)
      | _ \<Rightarrow> (NGX_CONF_ERROR, lrcf))"

text \<open>\<open>ngx_http_limit_req_init\<close> registers the handler in a phase.\<close>

definition ngx_http_limit_req_init :: "bool \<Rightarrow> 'h \<Rightarrow> 'h list \<Rightarrow> ngx_rc \<times> 'h list" where
  "ngx_http_limit_req_init array_push handler preaccess =
     (if \<not> array_push then (NGX_ERROR, preaccess) else (NGX_OK, preaccess @ [handler]))"

section \<open>Values\<close>

lemma sint_of_small: "n < 2 ^ 63 \<Longrightarrow> sint (of_nat n :: u64) = int n"
proof -
  assume "n < 2 ^ 63"
  then have "int n < int (2 ^ 63)" by (simp only: of_nat_less_iff)
  then have "signed_take_bit 63 (int n) = int n" by (intro signed_take_bit_int_eq_self) (auto intro: order_trans [OF _ of_nat_0_le_iff])
  then show ?thesis by (simp add: signed_of_nat)
qed

lemma atoi_digits:
  assumes "ds \<noteq> []" "list_all is_digit ds" "dec_value ds < 2 ^ 63"
  shows "ngx_atoi ds = of_nat (dec_value ds)"
  using assms by (simp add: ngx_atoi_spec ato_spec_def)

text \<open>What the arguments mean.\<close>

lemma zone_arg:
  assumes "name \<noteq> []" "\<forall>c \<in> set name. c \<noteq> asc CHR '':'' \<and> c \<noteq> 0" "ngx_parse_size 0 sz > 8191"
  shows "limit_req_zone_arg pc gi (bytes ''zone='' @ name @ bytes '':'' @ sz) a = Some (a\<lparr>za_name := name, za_size := ngx_parse_size 0 sz\<rparr>)"
proof -
  have t: "takeWhile (\<lambda>c. c \<noteq> asc CHR '':'' \<and> c \<noteq> 0) (name @ asc CHR '':'' # sz) = name"
    using assms(2) by (subst takeWhile_append2) auto
  then show ?thesis using assms(3) by (simp add: limit_req_zone_arg_def has_prefix_def Let_def)
qed

lemma rate_arg:
  assumes "ds \<noteq> []" "list_all is_digit ds" "dec_value ds < 2 ^ 63"
  shows "limit_req_zone_arg pc gi (bytes ''rate='' @ ds @ bytes ''r/s'') a = Some (a\<lparr>za_rate := of_nat (dec_value ds), za_scale := 1\<rparr>)"
    "limit_req_zone_arg pc gi (bytes ''rate='' @ ds @ bytes ''r/m'') a = Some (a\<lparr>za_rate := of_nat (dec_value ds), za_scale := 60\<rparr>)"
  using atoi_digits [OF assms] sint_of_small [OF assms(3)]
  by (simp_all add: limit_req_zone_arg_def has_prefix_def Let_def)

lemma var_arg:
  "gi v \<noteq> NGX_ERROR_INT \<Longrightarrow>
    limit_req_zone_arg True gi (bytes ''$'' @ v) a = Some (a\<lparr>za_ctx := Some \<lparr>cx_sh = NULL, cx_rate = 0, cx_index = gi v, cx_var = v\<rparr>\<rparr>)"
  by (cases v) (simp_all add: limit_req_zone_arg_def has_prefix_def Let_def)

text \<open>The directives give the rate in thousandths of a request per second, and the burst in thousandths of a request.\<close>

theorem limit_req_zone_values:
  assumes "gi v \<noteq> NGX_ERROR_INT" and "name \<noteq> []" "\<forall>c \<in> set name. c \<noteq> asc CHR '':'' \<and> c \<noteq> 0"
    and "ngx_parse_size 0 sz > 8191" and "ds \<noteq> []" "list_all is_digit ds" "dec_value ds * 1000 < 2 ^ 63"
    and "add name (ngx_parse_size 0 sz) = Some None"
  shows "ngx_http_limit_req_zone True gi add [bytes ''$'' @ v, bytes ''zone='' @ name @ bytes '':'' @ sz, bytes ''rate='' @ ds @ bytes ''r/s''] =
      (NGX_CONF_OK, Some (name, ngx_parse_size 0 sz, \<lparr>cx_sh = NULL, cx_rate = of_nat (dec_value ds * 1000), cx_index = gi v, cx_var = v\<rparr>))"
    "ngx_http_limit_req_zone True gi add [bytes ''$'' @ v, bytes ''zone='' @ name @ bytes '':'' @ sz, bytes ''rate='' @ ds @ bytes ''r/m''] =
      (NGX_CONF_OK, Some (name, ngx_parse_size 0 sz, \<lparr>cx_sh = NULL, cx_rate = of_nat (dec_value ds * 1000 div 60), cx_index = gi v, cx_var = v\<rparr>))"
proof -
  have d: "dec_value ds < 2 ^ 63" using assms(7) by simp
  have s: "ngx_parse_size 0 sz \<noteq> 0" using assms(4) by auto
  have m: "sint (of_nat (dec_value ds) * 1000 :: u64) = int (dec_value ds * 1000)" using sint_of_small [OF assms(7)] by simp
  have i: "int n sdiv 60 = int (n div 60)" "int n sdiv 1 = int n" for n by (cases n; simp add: signed_divide_int_def zdiv_int)+
  note args = limit_req_zone_args.simps var_arg [of gi v, OF assms(1)] zone_arg [OF assms(2-4)] rate_arg [OF assms(5,6) d]
  show "ngx_http_limit_req_zone True gi add [bytes ''$'' @ v, bytes ''zone='' @ name @ bytes '':'' @ sz, bytes ''rate='' @ ds @ bytes ''r/s''] =
      (NGX_CONF_OK, Some (name, ngx_parse_size 0 sz, \<lparr>cx_sh = NULL, cx_rate = of_nat (dec_value ds * 1000), cx_index = gi v, cx_var = v\<rparr>))"
    using assms(2,8) s unfolding ngx_http_limit_req_zone_def args by (simp add: Let_def m i del: of_nat_mult)
  show "ngx_http_limit_req_zone True gi add [bytes ''$'' @ v, bytes ''zone='' @ name @ bytes '':'' @ sz, bytes ''rate='' @ ds @ bytes ''r/m''] =
      (NGX_CONF_OK, Some (name, ngx_parse_size 0 sz, \<lparr>cx_sh = NULL, cx_rate = of_nat (dec_value ds * 1000 div 60), cx_index = gi v, cx_var = v\<rparr>))"
    using assms(2,8) s unfolding ngx_http_limit_req_zone_def args by (simp add: Let_def m i del: of_nat_mult)
qed

theorem limit_req_values:
  assumes "bs \<noteq> []" "list_all is_digit bs" "0 < dec_value bs" "dec_value bs < 2 ^ 63"
    and "add name 0 = Some (Some ctx)" and "lc_shm_zone lrcf = None"
  shows "ngx_http_limit_req add [bytes ''zone='' @ name, bytes ''burst='' @ bs, bytes ''nodelay''] lrcf =
    (NGX_CONF_OK, lrcf\<lparr>lc_shm_zone := Some ctx, lc_burst := of_nat (dec_value bs * 1000), lc_nodelay := True\<rparr>)"
  using assms(3,5,6) atoi_digits [OF assms(1,2,4)] sint_of_small [OF assms(4)]
  by (simp add: ngx_http_limit_req_def has_prefix_def Let_def)

text \<open>A rate of zero is accepted; with it the handler divides by zero (\<open>limit_req_rate_zero\<close> in \<^verbatim>\<open>Ngx_Http_Limit_Rate\<close>).\<close>

lemma zone_rate_zero:
  "ngx_http_limit_req_zone True (\<lambda>_. 0) (\<lambda>_ _. Some None) [bytes ''$remote_addr'', bytes ''zone=one:10m'', bytes ''rate=0r/s''] =
    (NGX_CONF_OK, Some (bytes ''one'', 10485760, \<lparr>cx_sh = NULL, cx_rate = 0, cx_index = 0, cx_var = bytes ''remote_addr''\<rparr>))"
proof -
  have "ngx_parse_size 0 (bytes ''10m'') = 10485760" by (simp add: ngx_parse_size_def ngx_atosz_def ngx_not_negative_def Let_def)
  then show ?thesis
    using limit_req_zone_values(1) [of "\<lambda>_. 0" "bytes ''remote_addr''" "bytes ''one''" "bytes ''10m''" "bytes ''0''" "\<lambda>_ _. Some None"]
    by (simp add: is_digit_def dec_value_def)
qed

text \<open>A size that is no number is accepted: the error value \<open>-1\<close> is a large \<open>size_t\<close>.\<close>

lemma zone_bad_size:
  "limit_req_zone_arg True (\<lambda>_. 0) (bytes ''zone=one:big'') a = Some (a\<lparr>za_name := bytes ''one'', za_size := - 1\<rparr>)"
  by (simp add: limit_req_zone_arg_def has_prefix_def ngx_parse_size_def ngx_atosz_def ngx_not_negative_def Let_def)

end
