(* ===== verification/Spec2Isabelle.thy ===== *)
theory Spec2Isabelle
  imports
    Ngx_Http_Request_Line
    Ngx_Http_Header_Line
    Ngx_Http_Status_Line
    Ngx_Http_Complex_Uri
    Ngx_String_Num
    Ngx_String_Base64
    Ngx_String_Escape
    Ngx_Mail_Command
    Ngx_Mail_Imap
    Ngx_Mail_Auth
    Ngx_Times
    Ngx_Queue
    Ngx_Radix_Tree
    Ngx_Http_Geo
    Ngx_Event_Timer
    Ngx_List
    Ngx_Http_Limit_Req_Conf
begin

text \<open>
  Verification of the core of nginx 1.0.14.

  \<^bold>\<open>The program.\<close>  nginx is an event-driven HTTP server, reverse proxy and mail proxy.  A worker
  reads whatever bytes the socket has, hands them to a parser, and returns to the event loop when the
  parser answers \<open>NGX_AGAIN\<close>; the parser is called again, with a longer buffer, when more bytes have
  arrived.  So every parser of \<^verbatim>\<open>src/http/ngx_http_parse.c\<close> and \<^verbatim>\<open>src/mail/ngx_mail_parse.c\<close> is a
  state machine whose state survives in the request or session between two calls.  A parsed URI is
  normalised by \<open>ngx_http_parse_complex_uri\<close>; arguments, headers and credentials go through the string
  functions of \<^verbatim>\<open>src/core/ngx_string.c\<close> (numbers, base64, escaping), dates through
  \<^verbatim>\<open>src/core/ngx_times.c\<close> and \<^verbatim>\<open>src/http/ngx_http_parse_time.c\<close>.  The caches and the resolver keep their
  entries in the circular queues of \<^verbatim>\<open>src/core/ngx_queue.h\<close>; the geo module looks an address up
  in the radix tree of \<^verbatim>\<open>src/core/ngx_radix_tree.c\<close> or, for geo ranges, in blocks of sorted ranges.  The event
  loop keeps the deadlines of its events (\<^verbatim>\<open>src/event/ngx_event_timer.c\<close>) in a red-black tree
  (\<^verbatim>\<open>src/core/ngx_rbtree.c\<close>): it waits for the first of them and then calls the handlers of the expired
  ones.  Requests and connections take their memory from pools (\<^verbatim>\<open>src/core/ngx_palloc.c\<close>), in which the
  arrays and lists of the program live too.  The module
  \<^verbatim>\<open>src/http/modules/ngx_http_limit_req_module.c\<close> limits the rate of requests: it keeps a leaky bucket per client in
  shared memory, in a red-black tree by the CRC-32 (\<^verbatim>\<open>src/core/ngx_crc32.c\<close>) of the client and in a queue by the
  last use.

  \<^bold>\<open>Conventions.\<close>  An LP64 platform is modelled.  \<open>ngx_int_t\<close>, \<open>ngx_uint_t\<close>, \<open>off_t\<close>, \<open>size_t\<close> and
  \<open>time_t\<close> are 64-bit words where overflow matters; a pointer is an address, a natural number, and the
  memory that a parser reads is a list of bytes indexed by address.  A read outside of the bytes a
  function is given, or through \<open>NULL\<close>, is the value \<open>None\<close>, so that a theorem that shows the result to
  be \<open>Some\<close> shows the read to be safe.  The loops over the bytes of a buffer are recursions on the
  distance to its end, proved total; no theorem is of the form "if it returns".

  \<^bold>\<open>The theories.\<close>
  \<^item> \<^verbatim>\<open>Ngx_Prelude\<close>: C types, return codes, the buffer, character tests; lemmas on words and lists.
  \<^item> \<^verbatim>\<open>Ngx_Scan\<close>: the loop \<open>for (p = b->pos; p < b->last; p++)\<close> that all parsers share, with the
    position and the automaton state saved at its end.  Its locales say what a parser has to provide
    (a step that reads no byte past \<open>p\<close>, a state that is saved and restored), and prove once that parsing
    in pieces equals parsing at once, that a parser which has not stopped answers \<open>NGX_AGAIN\<close>, and that
    a simulation of two scanners gives equal answers.  Every parser below interprets them.
  \<^item> \<^verbatim>\<open>Ngx_Http_Request\<close>, \<^verbatim>\<open>Ngx_Http_Request_Line\<close>, \<^verbatim>\<open>Ngx_Http_Header_Line\<close>,
    \<^verbatim>\<open>Ngx_Http_Status_Line\<close>: the fields of \<open>ngx_http_request_t\<close> the parsers use, and
    \<open>ngx_http_parse_request_line\<close>, \<open>ngx_http_parse_header_line\<close>, \<open>ngx_http_parse_status_line\<close>.
    Shown: resumption, round trips from a printed line to the parsed pointers, order and range of the
    pointers of an accepted line, the hash of a header name, the rejected bytes.
  \<^item> \<^verbatim>\<open>Ngx_Http_Complex_Uri\<close>: \<open>ngx_http_parse_complex_uri\<close>.  Shown: the path it writes starts with a
    slash, has no segment \<open>.\<close> or \<open>..\<close>, no double slash when slashes are merged, and is not longer than
    what it has read; it equals the reference that splits the path into segments.
  \<^item> \<^verbatim>\<open>Ngx_String_Num\<close>, \<^verbatim>\<open>Ngx_String_Base64\<close>, \<^verbatim>\<open>Ngx_String_Escape\<close>: the conversions of
    \<^verbatim>\<open>src/core/ngx_string.c\<close>.  Shown: values and overflow, round trips, bounds of the output, bytes
    that an escaped text cannot contain, the alphabets that the decoders of base64 accept.
  \<^item> \<^verbatim>\<open>Ngx_Mail_Session\<close>, \<^verbatim>\<open>Ngx_Mail_Command\<close>, \<^verbatim>\<open>Ngx_Mail_Imap\<close>, \<^verbatim>\<open>Ngx_Mail_Auth\<close>: the mail
    proxy's command parsers for POP3, SMTP and IMAP, \<open>ngx_mail_auth_parse\<close>, and the decoding of
    the client's credentials.  Shown: resumption, that a parser answers once the line is complete,
    what the arguments it stores point to over all the calls that read a command, round trips, and what an accepted \<open>AUTH PLAIN\<close> yields.
  \<^item> \<^verbatim>\<open>Ngx_Times\<close>: \<open>ngx_gmtime\<close>, \<open>ngx_http_time\<close>, \<open>ngx_http_cookie_time\<close>, \<open>ngx_http_parse_time\<close>.
    Shown: the date is that of a reference that counts days, from 1970 to the end of the year 2147483647 (after it the \<open>int\<close>
    in which the year is stored truncates it), ranges of the fields for every \<open>time_t\<close>, the round trips to the end of 9999 and,
    for cookies, of 2037, no read outside of the value.
  \<^item> \<^verbatim>\<open>Ngx_Queue\<close>: the queues, their middle and their sort, on a memory of links.  Shown: every sequence
    of operations on disjoint queues refines lists; the sort ends for every comparison and is stable.
  \<^item> \<^verbatim>\<open>Ngx_Radix_Tree\<close>: the radix tree on a memory of nodes with free list and pages.  Shown: every
    sequence of insertions, and deletions of prefixes that are not empty, returns and refines a map from prefixes,
    an insertion fails only for lack of memory, a lookup is the longest match, creation returns.
  \<^item> \<^verbatim>\<open>Ngx_Http_Geo\<close>: the ranges of \<^verbatim>\<open>src/http/modules/ngx_http_geo_module.c\<close>.  Shown: adding a range sets
    exactly its addresses and keeps the blocks sorted, a partial overlap is refused, and where the
    code hangs or reads through a null or stale pointer.
  \<^item> \<^verbatim>\<open>Ngx_Rbtree\<close>, \<^verbatim>\<open>Ngx_Rbtree_Balance\<close>: the red-black tree on a memory of nodes.  The first has the
    functions and what a rotation does to a tree with a focus, the second the balancing loops.  Shown:
    every sequence of insertions and deletions returns and refines a sorted table, the colour and height
    invariants, the logarithmic depth.  The locale \<open>rb_descent\<close> is the contract of \<open>tree->insert\<close>.
  \<^item> \<^verbatim>\<open>Ngx_Event_Timer\<close>: the timers, a client of the tree, as a state machine of additions, deletions,
    expiry and the passing of time.  Shown: the order of the tree in every reachable state and that every operation
    returns there, that expiry ends for all handlers that arm no expired timer, and that handlers which keep the
    expired timers are called for exactly those, in order, with \<open>timedout\<close> set.
  \<^item> \<^verbatim>\<open>Ngx_Palloc\<close>, \<^verbatim>\<open>Ngx_Pool\<close>: the memory pools on a memory with the regions that \<open>malloc\<close> and \<open>posix_memalign\<close>,
    parameters, have given out.  The first has the functions, the invariant and the allocations, the second
    the other operations and the reachable states.  The structures of a pool are maps
    from addresses apart from the bytes of the user.  Shown: allocations are disjoint, and so are the structures from each
    other and from them, which is what makes the separate maps one memory; every operation returns without an invalid access;
    destruction calls the cleanups from the last added to the first and frees everything exactly once; and three ways to
    misuse a pool.  Cleanup handlers are recorded and taken not to change the pool.
  \<^item> \<^verbatim>\<open>Ngx_Array\<close>, \<^verbatim>\<open>Ngx_List\<close>: arrays, which may grow in place in the block of the pool, and lists, clients of the
    pools.  Shown: both refine lists of the pushed elements.  The locale \<open>pool_user\<close> is what a list needs of
    an allocator.
  \<^item> \<^verbatim>\<open>Ngx_Crc32\<close>: the checksums.  Shown: the functions with the small and with the large table, at once and in
    pieces, are the bit-serial CRC-32, so both tables are right.
  \<^item> \<^verbatim>\<open>Ngx_Parse\<close>: sizes, offsets and times of the configuration.  Shown: a time is the sum of its parts, each number
    modulo \<open>2 ^ 64\<close>, with the limit checked for the sum; a number without unit and a size are not checked.
  \<^item> \<^verbatim>\<open>Ngx_Http_Limit_Req\<close>, \<^verbatim>\<open>Ngx_Http_Limit_Rate\<close>, \<^verbatim>\<open>Ngx_Http_Limit_Req_Conf\<close>: the module that limits requests, a
    client of the tree (the third interpretation of \<open>rb_descent\<close>), the queue and the checksums.  The first has the functions and
    the invariant of the shared memory, the second the specification and the properties, the third the directives.
    Shown: every run of requests with values of 1 to 255 bytes and a rate other than 0 refines leaky buckets in natural
    numbers, which bounds the admitted requests in every window of time; every reachable zone is consistent; which values escape the limit, and how a rate of zero crashes.  The
    bounds of the refinement, 62 bits for the products of rate and time, hold for all realistic rates and clocks.  The slab
    allocator is a parameter, \<open>slab_ok\<close> what is relied on.

  \<^bold>\<open>Not modelled.\<close>  The code compiled for Win32 only, debug logs, and the following parts of the
  program: the event modules and the connection handling (system calls); the HTTP core, request
  processing, upstream and the other handler and filter modules; the session state machines of the mail
  proxy; the configuration reader, the variables and scripts; slab and shared memory, hashes,
  the resolver and the OS layer.  Of \<^verbatim>\<open>src/http/ngx_http_parse.c\<close> the functions after
  \<open>ngx_http_parse_complex_uri\<close>, of \<^verbatim>\<open>src/core/ngx_string.c\<close> the comparisons, UTF-8, the driver of
  \<open>ngx_sprintf\<close> and the sort, of \<^verbatim>\<open>src/core/ngx_times.c\<close> the cached time are left out.
\<close>

end
